(* ===== verification/Prelude.thy ===== *)
theory Prelude
  imports Main "HOL-Library.Word" "HOL-Library.Multiset"
begin

text \<open>
  Shared vocabulary of the POCO development: the exceptions the modelled code throws, results
  that may be such an exception, the machine-integer types, \<open>char\<close> arithmetic, and the
  generic facts on lists that several components use.
\<close>

unbundle bit_operations_syntax

section \<open>Machine integers and results\<close>

type_synonym u8 = "8 word"
type_synonym u16 = "16 word"
type_synonym u32 = "32 word"
type_synonym u64 = "64 word"

text \<open>The exception classes of \<^verbatim>\<open>Poco/Exception.h\<close> and \<^verbatim>\<open>Poco/Net/NetException.h\<close> that the modelled code throws, and the
  \<^verbatim>\<open>std::out_of_range\<close> of the string class.\<close>

datatype exn =
    AssertionViolationException
  | NotFoundException
  | RangeException
  | SyntaxException
  | DataFormatException
  | URISyntaxException
  | InvalidArgumentException
  | InvalidAccessException
  | BadCastException
  | NullPointerException
  | PathSyntaxException
  | BugcheckException
  | NoMessageException
  | MessageException
  | NotAuthenticatedException
  | StdOutOfRange

type_synonym 'a result = "exn + 'a"

definition rbind :: "'a result \<Rightarrow> ('a \<Rightarrow> 'b result) \<Rightarrow> 'b result" where
  "rbind r f = (case r of Inl e \<Rightarrow> Inl e | Inr x \<Rightarrow> f x)"

lemma rbind_simps [simp]:
  "rbind (Inl e) f = Inl e"
  "rbind (Inr x) f = f x"
  by (simp_all add: rbind_def)

lemma rbind_eq_Inr: "rbind r f = Inr y \<longleftrightarrow> (\<exists>x. r = Inr x \<and> f x = Inr y)"
  by (cases r) auto

text \<open>
  Code that reads or writes raw memory may also run into undefined behaviour: \<open>UB\<close> is an
  access outside the allocated block.
\<close>

datatype 'a outcome = Ret 'a | Throw exn | UB

text \<open>Subtraction on \<^verbatim>\<open>std::size_t\<close> (64 bits).\<close>

definition SIZE_MOD :: nat where
  "SIZE_MOD = 2 ^ 64"

definition sub64 :: "nat \<Rightarrow> nat \<Rightarrow> nat" where
  "sub64 a b = (a + SIZE_MOD - b) mod SIZE_MOD"

lemma sub64_le: "b \<le> a \<Longrightarrow> a < SIZE_MOD \<Longrightarrow> sub64 a b = a - b"
proof -
  assume "b \<le> a" "a < SIZE_MOD"
  moreover have "(a - b + SIZE_MOD) mod SIZE_MOD = a - b" using \<open>a < SIZE_MOD\<close> by simp
  ultimately show ?thesis by (simp only: sub64_def diff_add_assoc2)
qed

lemma unat_two_power:
  assumes "k < LENGTH('a::len)"
  shows "unat (2 ^ k :: 'a word) = 2 ^ k"
proof -
  have "(2 ^ k :: 'a word) = of_nat (2 ^ k)" by simp
  then show ?thesis using assms by (simp add: unat_of_nat del: of_nat_power)
qed

section \<open>Bit masks of integers\<close>

lemma and_mask_int:
  "(x :: int) AND 0x3F = x mod 64" "x AND 0x1F = x mod 32" "x AND 0x0F = x mod 16" "x AND 0x07 = x mod 8"
  "x AND 0x3FF = x mod 1024" "x AND 0x03 = x mod 4"
  using take_bit_eq_mask[of 6 x] take_bit_eq_mask[of 5 x] take_bit_eq_mask[of 4 x] take_bit_eq_mask[of 3 x]
    take_bit_eq_mask[of 10 x] take_bit_eq_mask[of 2 x]
  by (simp_all add: take_bit_eq_mod mask_eq_exp_minus_1)

lemma or_push_bit:
  assumes "0 \<le> a" "a < 2 ^ k"
  shows "a OR push_bit k b = a + push_bit k (b :: int)"
proof -
  have "take_bit k a = a" using assms by (simp add: take_bit_int_eq_self)
  then have "\<not> bit a n \<or> \<not> bit (push_bit k b) n" for n
    by (metis bit_push_bit_iff_int bit_take_bit_iff not_le)
  then show ?thesis by (simp add: disjunctive_add)
qed

end
