(* ===== verification/LinearHash.thy ===== *)
theory LinearHash
  imports Prelude
begin

text \<open>
  \<^verbatim>\<open>Foundation/include/Poco/LinearHashTable.h\<close> (Litwin's linear hash table) and its two
  clients \<^verbatim>\<open>HashSet.h\<close> and \<^verbatim>\<open>HashMap.h\<close>.

  A table is the record of the class's data members. The hash functor and the equality of the
  values are arguments: \<open>hash\<close> is the hash of a key and two values are equal (\<^verbatim>\<open>==\<close>) iff
  \<open>key\<close> maps them to the same key, which also says that equal values have equal hashes, as
  the class requires of its \<^verbatim>\<open>HashFunc\<close>. Counters are natural numbers: the lemmas show that
  \<open>front\<close> and \<open>split\<close> stay below twice the number of stored values and are never
  decremented at zero. A \<^verbatim>\<open>ConstIterator\<close> is the pair of its positions in the bucket
  vector and in the bucket; its \<open>_endIt\<close> is the length of the bucket vector.
\<close>

section \<open>The table\<close>

record 'v lht =
  buckets :: "'v list list"
  splt :: nat
  front :: nat
  lsize :: nat

definition lht_new :: "'v lht" where
  "lht_new = \<lparr>buckets = [[]], splt = 0, front = 1, lsize = 0\<rparr>"

definition bucketAddressForHash :: "'v lht \<Rightarrow> nat \<Rightarrow> nat" where
  "bucketAddressForHash t n =
     (if n mod front t \<ge> splt t then n mod front t else n mod (2 * front t))"

definition bucketAddress :: "('k \<Rightarrow> nat) \<Rightarrow> ('v \<Rightarrow> 'k) \<Rightarrow> 'v lht \<Rightarrow> 'v \<Rightarrow> nat" where
  "bucketAddress hash key t v =
     (let n = hash (key v)
      in if n mod front t \<ge> splt t then n mod front t else n mod (2 * front t))"

definition redistribute :: "('v \<Rightarrow> nat) \<Rightarrow> 'v list \<Rightarrow> 'v list list \<Rightarrow> 'v list list" where
  "redistribute addr vs bs = foldl (\<lambda>bs v. bs[addr v := bs ! addr v @ [v]]) bs vs"

definition lht_split :: "('k \<Rightarrow> nat) \<Rightarrow> ('v \<Rightarrow> 'k) \<Rightarrow> 'v lht \<Rightarrow> 'v lht" where
  "lht_split hash key t =
     (let t1 = (if splt t = front t then t\<lparr>splt := 0, front := front t * 2\<rparr> else t);
          bs = buckets t1 @ [[]];
          tmp = bs ! splt t1;
          t2 = t1\<lparr>buckets := bs[splt t1 := []], splt := splt t1 + 1\<rparr>
      in t2\<lparr>buckets := redistribute (bucketAddress hash key t2) tmp (buckets t2)\<rparr>)"

definition lht_merge :: "('k \<Rightarrow> nat) \<Rightarrow> ('v \<Rightarrow> 'k) \<Rightarrow> 'v lht \<Rightarrow> 'v lht" where
  "lht_merge hash key t =
     (let t1 = (if splt t = 0 then t\<lparr>front := front t div 2, splt := front t div 2\<rparr> else t);
          tmp = last (buckets t1);
          t2 = t1\<lparr>buckets := butlast (buckets t1), splt := splt t1 - 1\<rparr>
      in t2\<lparr>buckets := redistribute (bucketAddress hash key t2) tmp (buckets t2)\<rparr>)"

record lht_iterator =
  vecIt :: nat
  buckIt :: nat

definition lht_end :: "'v lht \<Rightarrow> lht_iterator" where
  "lht_end t = \<lparr>vecIt = length (buckets t), buckIt = length (hd (buckets t))\<rparr>"

definition it_eq :: "'v lht \<Rightarrow> lht_iterator \<Rightarrow> lht_iterator \<Rightarrow> bool" where
  "it_eq t a b \<longleftrightarrow> vecIt a = vecIt b \<and> (vecIt a = length (buckets t) \<or> buckIt a = buckIt b)"

definition it_deref :: "'v lht \<Rightarrow> lht_iterator \<Rightarrow> 'v" where
  "it_deref t it = buckets t ! vecIt it ! buckIt it"

function skip_empty :: "'v list list \<Rightarrow> nat \<Rightarrow> nat" where
  "skip_empty bs i = (if i < length bs \<and> bs ! i = [] then skip_empty bs (Suc i) else i)"
  by pat_completeness auto
termination by (relation "measure (\<lambda>(bs, i). length bs - i)") auto

definition lht_begin :: "'v lht \<Rightarrow> lht_iterator" where
  "lht_begin t =
     (let i = skip_empty (buckets t) 0
      in if i = length (buckets t) then lht_end t else \<lparr>vecIt = i, buckIt = 0\<rparr>)"

function next_bucket :: "'v list list \<Rightarrow> lht_iterator \<Rightarrow> lht_iterator" where
  "next_bucket bs it =
     (if vecIt it < length bs \<and> buckIt it = length (bs ! vecIt it)
      then next_bucket bs
             (let v = Suc (vecIt it)
              in if v < length bs then \<lparr>vecIt = v, buckIt = 0\<rparr> else it\<lparr>vecIt := v\<rparr>)
      else it)"
  by pat_completeness auto
termination by (relation "measure (\<lambda>(bs, it). length bs - vecIt it)") (auto simp: Let_def)

definition it_next :: "'v lht \<Rightarrow> lht_iterator \<Rightarrow> lht_iterator" where
  "it_next t it =
     (if vecIt it \<noteq> length (buckets t)
      then next_bucket (buckets t) (it\<lparr>buckIt := buckIt it + 1\<rparr>) else it)"

definition std_find :: "('v \<Rightarrow> 'k) \<Rightarrow> 'v \<Rightarrow> 'v list \<Rightarrow> nat" where
  "std_find key v b = length (takeWhile (\<lambda>u. key u \<noteq> key v) b)"

definition lht_find :: "('k \<Rightarrow> nat) \<Rightarrow> ('v \<Rightarrow> 'k) \<Rightarrow> 'v lht \<Rightarrow> 'v \<Rightarrow> lht_iterator" where
  "lht_find hash key t v =
     (let addr = bucketAddress hash key t v;
          b = buckets t ! addr;
          j = std_find key v b
      in if j \<noteq> length b then \<lparr>vecIt = addr, buckIt = j\<rparr> else lht_end t)"

definition lht_count :: "('k \<Rightarrow> nat) \<Rightarrow> ('v \<Rightarrow> 'k) \<Rightarrow> 'v lht \<Rightarrow> 'v \<Rightarrow> nat" where
  "lht_count hash key t v = (if \<not> it_eq t (lht_find hash key t v) (lht_end t) then 1 else 0)"

definition lht_insert ::
  "('k \<Rightarrow> nat) \<Rightarrow> ('v \<Rightarrow> 'k) \<Rightarrow> 'v lht \<Rightarrow> 'v \<Rightarrow> 'v lht \<times> lht_iterator \<times> bool" where
  "lht_insert hash key t v =
     (let h = hash (key v);
          addr = bucketAddressForHash t h;
          b = buckets t ! addr;
          j = std_find key v b
      in if j = length b
         then let t1 = lht_split hash key t;
                  addr1 = bucketAddressForHash t1 h;
                  b1 = buckets t1 ! addr1
              in (t1\<lparr>buckets := (buckets t1)[addr1 := b1 @ [v]], lsize := lsize t1 + 1\<rparr>,
                  \<lparr>vecIt = addr1, buckIt = length b1\<rparr>, True)
         else (t, \<lparr>vecIt = addr, buckIt = j\<rparr>, False))"

definition lht_erase_it :: "('k \<Rightarrow> nat) \<Rightarrow> ('v \<Rightarrow> 'k) \<Rightarrow> 'v lht \<Rightarrow> lht_iterator \<Rightarrow> 'v lht" where
  "lht_erase_it hash key t it =
     (if \<not> it_eq t it (lht_end t)
      then let b = buckets t ! vecIt it
           in lht_merge hash key
                (t\<lparr>buckets := (buckets t)[vecIt it := take (buckIt it) b @ drop (Suc (buckIt it)) b],
                   lsize := lsize t - 1\<rparr>)
      else t)"

definition lht_erase :: "('k \<Rightarrow> nat) \<Rightarrow> ('v \<Rightarrow> 'k) \<Rightarrow> 'v lht \<Rightarrow> 'v \<Rightarrow> 'v lht" where
  "lht_erase hash key t v = lht_erase_it hash key t (lht_find hash key t v)"

definition lht_clear :: "'v lht \<Rightarrow> 'v lht" where
  "lht_clear t = lht_new"

definition lht_empty :: "'v lht \<Rightarrow> bool" where
  "lht_empty t \<longleftrightarrow> lsize t = 0"

text \<open>
  The constructor reserves \<^verbatim>\<open>calcSize(initialReserve)\<close> buckets; the loop runs on
  \<^verbatim>\<open>std::size_t\<close>, where doubling wraps.
\<close>

partial_function (option) calcSize_loop :: "u64 \<Rightarrow> u64 \<Rightarrow> u64 option" where
  "calcSize_loop sz initialSize =
     (if sz < initialSize then calcSize_loop (sz * 2) initialSize else Some sz)"

definition calcSize :: "u64 \<Rightarrow> u64 option" where
  "calcSize initialSize = calcSize_loop 32 initialSize"

section \<open>HashSet and HashMap\<close>

text \<open>
  A \<^verbatim>\<open>HashSet\<close> forwards to a table whose values are their own keys. A \<^verbatim>\<open>HashMap\<close>
  stores entries \<open>(first, second)\<close> that compare and hash by \<open>first\<close>; \<open>dflt\<close> is
  the value-initialised \<open>second\<close> of an entry made from a key alone.
\<close>

definition hs_insert :: "('a \<Rightarrow> nat) \<Rightarrow> 'a lht \<Rightarrow> 'a \<Rightarrow> 'a lht \<times> lht_iterator \<times> bool" where
  "hs_insert hash t v = lht_insert hash (\<lambda>x. x) t v"

definition hs_erase :: "('a \<Rightarrow> nat) \<Rightarrow> 'a lht \<Rightarrow> 'a \<Rightarrow> 'a lht" where
  "hs_erase hash t v = lht_erase hash (\<lambda>x. x) t v"

definition hs_count :: "('a \<Rightarrow> nat) \<Rightarrow> 'a lht \<Rightarrow> 'a \<Rightarrow> nat" where
  "hs_count hash t v = lht_count hash (\<lambda>x. x) t v"

type_synonym ('k, 'm) hash_map = "('k \<times> 'm) lht"

definition hm_find :: "('k \<Rightarrow> nat) \<Rightarrow> 'm \<Rightarrow> ('k, 'm) hash_map \<Rightarrow> 'k \<Rightarrow> lht_iterator" where
  "hm_find hash dflt m k = lht_find hash fst m (k, dflt)"

definition hm_count :: "('k \<Rightarrow> nat) \<Rightarrow> 'm \<Rightarrow> ('k, 'm) hash_map \<Rightarrow> 'k \<Rightarrow> nat" where
  "hm_count hash dflt m k =
     (if \<not> it_eq m (lht_find hash fst m (k, dflt)) (lht_end m) then 1 else 0)"

definition hm_insert ::
  "('k \<Rightarrow> nat) \<Rightarrow> ('k, 'm) hash_map \<Rightarrow> 'k \<times> 'm \<Rightarrow> ('k, 'm) hash_map \<times> lht_iterator \<times> bool" where
  "hm_insert hash m p = lht_insert hash fst m (fst p, snd p)"

definition hm_erase :: "('k \<Rightarrow> nat) \<Rightarrow> 'm \<Rightarrow> ('k, 'm) hash_map \<Rightarrow> 'k \<Rightarrow> ('k, 'm) hash_map" where
  "hm_erase hash dflt m k = lht_erase_it hash fst m (hm_find hash dflt m k)"

definition hm_at :: "('k \<Rightarrow> nat) \<Rightarrow> 'm \<Rightarrow> ('k, 'm) hash_map \<Rightarrow> 'k \<Rightarrow> 'm result" where
  "hm_at hash dflt m k =
     (let it = lht_find hash fst m (k, dflt)
      in if \<not> it_eq m it (lht_end m) then Inr (snd (it_deref m it)) else Inl NotFoundException)"

text \<open>The non-const \<^verbatim>\<open>operator []\<close>: the table after the insertion and the referenced \<open>second\<close>.\<close>

definition hm_index ::
  "('k \<Rightarrow> nat) \<Rightarrow> 'm \<Rightarrow> ('k, 'm) hash_map \<Rightarrow> 'k \<Rightarrow> ('k, 'm) hash_map \<times> 'm" where
  "hm_index hash dflt m k =
     (let (m', it, _) = lht_insert hash fst m (k, dflt) in (m', snd (it_deref m' it)))"

section \<open>Moving elements between buckets\<close>

lemma redistribute_Nil: "redistribute addr [] bs = bs"
  by (simp add: redistribute_def)

lemma redistribute_append:
  "redistribute addr (vs @ [v]) bs = (redistribute addr vs bs)[addr v := redistribute addr vs bs ! addr v @ [v]]"
  by (simp add: redistribute_def)

lemma length_redistribute [simp]: "length (redistribute addr vs bs) = length bs"
  by (induction vs rule: rev_induct) (simp_all add: redistribute_def)

lemma nth_redistribute:
  "i < length bs \<Longrightarrow> redistribute addr vs bs ! i = bs ! i @ filter (\<lambda>v. addr v = i) vs"
  by (induction vs rule: rev_induct)
    (auto simp: redistribute_append nth_list_update redistribute_Nil)

lemma mset_concat_update:
  "i < length bs \<Longrightarrow> mset (concat (bs[i := b])) + mset (bs ! i) = mset (concat bs) + mset b"
proof -
  assume i: "i < length bs"
  have "concat bs = concat (take i bs) @ bs ! i @ concat (drop (Suc i) bs)"
    by (subst id_take_nth_drop [OF i]) simp
  moreover have "concat (bs[i := b]) = concat (take i bs) @ b @ concat (drop (Suc i) bs)"
    by (simp add: upd_conv_take_nth_drop [OF i])
  ultimately show ?thesis
    by (simp add: ac_simps)
qed

lemma mset_redistribute:
  "\<forall>v\<in>set vs. addr v < length bs \<Longrightarrow>
   mset (concat (redistribute addr vs bs)) = mset (concat bs) + mset vs"
proof (induction vs rule: rev_induct)
  case Nil
  then show ?case by (simp add: redistribute_def)
next
  case (snoc v vs)
  let ?r = "redistribute addr vs bs"
  have "mset (concat (?r[addr v := ?r ! addr v @ [v]])) + mset (?r ! addr v) = mset (concat ?r) + mset (?r ! addr v @ [v])"
    using snoc.prems by (intro mset_concat_update) simp
  then show ?case using snoc by (simp add: redistribute_append)
qed

section \<open>Addresses\<close>

text \<open>The address computation alone, on the numbers \<open>front\<close>, \<open>split\<close> and the hash.\<close>

definition haddr :: "nat \<Rightarrow> nat \<Rightarrow> nat \<Rightarrow> nat" where
  "haddr f s n = (if n mod f \<ge> s then n mod f else n mod (2 * f))"

lemma mod_double: "(n::nat) mod (2 * f) = n mod f \<or> n mod (2 * f) = n mod f + f"
proof -
  have "n mod (f * 2) = f * (n div f mod 2) + n mod f"
    by (rule mod_mult2_eq)
  moreover have "n div f mod 2 = 0 \<or> n div f mod 2 = 1" by auto
  ultimately show ?thesis by (auto simp: mult.commute)
qed

lemma haddr_less: "0 < f \<Longrightarrow> s \<le> f \<Longrightarrow> haddr f s n < f + s"
  using mod_double [of n f] by (auto simp: haddr_def intro: trans_less_add1)

lemma haddr_reset: "0 < f \<Longrightarrow> haddr (2 * f) 0 n = haddr f f n"
  by (auto simp: haddr_def) (meson mod_less_divisor not_le)

lemma haddr_grow: "0 < f \<Longrightarrow> haddr f s n \<noteq> s \<Longrightarrow> s < f \<Longrightarrow> haddr f (Suc s) n = haddr f s n"
  using mod_double [of n f] by (auto simp: haddr_def)

lemma haddr_shrink:
  "0 < f \<Longrightarrow> s < f \<Longrightarrow> haddr f (Suc s) n \<noteq> f + s \<Longrightarrow> haddr f s n = haddr f (Suc s) n"
  using mod_double [of n f] by (auto simp: haddr_def)

lemma bucketAddress_haddr: "bucketAddress hash key t v = haddr (front t) (splt t) (hash (key v))"
  by (simp add: bucketAddress_def haddr_def Let_def)

lemma bucketAddressForHash_haddr: "bucketAddressForHash t n = haddr (front t) (splt t) n"
  by (simp add: bucketAddressForHash_def haddr_def)

definition placed :: "('v \<Rightarrow> nat) \<Rightarrow> 'v list list \<Rightarrow> bool" where
  "placed addr bs \<longleftrightarrow> (\<forall>i < length bs. \<forall>v \<in> set (bs ! i). addr v = i)"

lemma placed_redistribute:
  assumes "\<And>i v. i < length bs \<Longrightarrow> v \<in> set (bs ! i) \<Longrightarrow> addr v = i"
  shows "placed addr (redistribute addr vs bs)"
  using assms by (auto simp: placed_def nth_redistribute)

lemma placed_split:
  assumes "placed addr bs" and "s < length bs"
    and "\<And>v. addr v \<noteq> s \<Longrightarrow> addr' v = addr v"
  shows "placed addr' (redistribute addr' (bs ! s) ((bs @ [[]])[s := []]))"
proof (rule placed_redistribute)
  fix i v assume "i < length ((bs @ [[]])[s := []])" and v: "v \<in> set ((bs @ [[]])[s := []] ! i)"
  then have i: "i < length bs" "i \<noteq> s" "v \<in> set (bs ! i)"
    using assms(2) by (auto simp: nth_list_update nth_append less_Suc_eq split: if_splits)
  with assms(1) have "addr v = i" by (auto simp: placed_def)
  with i assms(3) show "addr' v = i" by simp
qed

lemma placed_merge:
  assumes "placed addr bs" and "bs \<noteq> []"
    and "\<And>v. addr v \<noteq> length bs - 1 \<Longrightarrow> addr' v = addr v"
  shows "placed addr' (redistribute addr' (last bs) (butlast bs))"
proof (rule placed_redistribute)
  fix i v assume i: "i < length (butlast bs)" and v: "v \<in> set (butlast bs ! i)"
  then have "addr v = i" using assms(1) by (auto simp: placed_def nth_butlast)
  with i assms(3) show "addr' v = i" by simp
qed

lemma placed_less:
  "placed addr bs \<Longrightarrow> i < length bs \<Longrightarrow> v \<in> set (bs ! i) \<Longrightarrow> addr v = i"
  by (auto simp: placed_def)

lemma placed_mem:
  assumes "placed addr bs" "v \<in> set (concat bs)"
  shows "addr v < length bs \<and> v \<in> set (bs ! addr v)"
proof -
  obtain i where "i < length bs" "v \<in> set (bs ! i)"
    using assms(2) by (metis UN_iff in_set_conv_nth set_concat)
  with placed_less [OF assms(1)] show ?thesis by auto
qed

section \<open>The invariant\<close>

definition pow2 :: "nat \<Rightarrow> bool" where
  "pow2 n \<longleftrightarrow> (\<exists>k. n = 2 ^ k)"

definition lht_shape :: "('k \<Rightarrow> nat) \<Rightarrow> ('v \<Rightarrow> 'k) \<Rightarrow> 'v lht \<Rightarrow> bool" where
  "lht_shape hash key t \<longleftrightarrow>
     pow2 (front t) \<and> splt t \<le> front t \<and> length (buckets t) = front t + splt t \<and>
     placed (bucketAddress hash key t) (buckets t)"

definition lht_inv :: "('k \<Rightarrow> nat) \<Rightarrow> ('v \<Rightarrow> 'k) \<Rightarrow> 'v lht \<Rightarrow> bool" where
  "lht_inv hash key t \<longleftrightarrow>
     lht_shape hash key t \<and> distinct (map key (concat (buckets t))) \<and>
     lsize t = length (concat (buckets t)) \<and> length (buckets t) = lsize t + 1"

lemma pow2_pos: "pow2 n \<Longrightarrow> 0 < n"
  by (auto simp: pow2_def)

lemma pow2_double: "pow2 n \<Longrightarrow> pow2 (2 * n)"
  by (metis pow2_def power_Suc)

lemma pow2_half: "pow2 n \<Longrightarrow> 2 \<le> n \<Longrightarrow> pow2 (n div 2) \<and> 2 * (n div 2) = n"
proof -
  assume "pow2 n" "2 \<le> n"
  then obtain k where k: "n = 2 ^ k" "k \<noteq> 0" by (metis not_less_eq_eq numeral_2_eq_2 order_refl pow2_def power_0 One_nat_def)
  then have "n = 2 * 2 ^ (k - 1)" by (simp add: power_eq_if)
  then show ?thesis by (auto simp: pow2_def)
qed

lemma shape_pos: "lht_shape hash key t \<Longrightarrow> 0 < front t"
  by (simp add: lht_shape_def pow2_pos)

lemma address_in_range:
  "lht_shape hash key t \<Longrightarrow> bucketAddress hash key t v < length (buckets t)"
  by (simp add: lht_shape_def bucketAddress_haddr haddr_less pow2_pos)

text \<open>
  Splitting and merging move the elements of one bucket. Both keep the shape, the elements and
  the size counter, and change the number of buckets by one.
\<close>

lemma split_step:
  assumes "lht_shape hash key t" "splt t < front t"
  defines "t2 \<equiv> t\<lparr>buckets := (buckets t @ [[]])[splt t := []], splt := splt t + 1\<rparr>"
  defines "t' \<equiv> t2\<lparr>buckets := redistribute (bucketAddress hash key t2) (buckets t ! splt t) (buckets t2)\<rparr>"
  shows "lht_shape hash key t'" and "mset (concat (buckets t')) = mset (concat (buckets t))"
proof -
  have a: "bucketAddress hash key t' = bucketAddress hash key t2"
    by (rule ext) (simp add: bucketAddress_haddr t'_def)
  have "placed (bucketAddress hash key t2)
          (redistribute (bucketAddress hash key t2) (buckets t ! splt t) ((buckets t @ [[]])[splt t := []]))"
    using assms(1,2) shape_pos [OF assms(1)]
    by (intro placed_split [where addr = "bucketAddress hash key t"])
       (auto simp: lht_shape_def bucketAddress_haddr t2_def haddr_grow)
  then show sh: "lht_shape hash key t'"
    using assms(1,2) by (auto simp: lht_shape_def a) (auto simp: t'_def t2_def)
  have "bucketAddress hash key t2 v < length (buckets t2)" for v
    using address_in_range [OF sh, of v] unfolding a by (simp add: t'_def)
  then have "mset (concat (buckets t')) = mset (concat (buckets t2)) + mset (buckets t ! splt t)"
    by (simp add: t'_def mset_redistribute)
  also have "\<dots> = mset (concat (buckets t))"
    using mset_concat_update [of "splt t" "buckets t @ [[]]" "[]"] assms(1,2)
    by (simp add: t2_def nth_append lht_shape_def)
  finally show "mset (concat (buckets t')) = mset (concat (buckets t))" .
qed

lemma split_reset:
  assumes "lht_shape hash key t" "splt t = front t"
  defines "t1 \<equiv> t\<lparr>splt := 0, front := front t * 2\<rparr>"
  shows "lht_shape hash key t1" "splt t1 < front t1"
proof -
  have "bucketAddress hash key t1 = bucketAddress hash key t"
    using assms(2) haddr_reset [OF shape_pos [OF assms(1)]]
    by (auto simp: bucketAddress_haddr t1_def mult.commute)
  then show "lht_shape hash key t1" "splt t1 < front t1"
    using assms(1,2) shape_pos [OF assms(1)] pow2_double [of "front t"]
    by (auto simp: lht_shape_def t1_def mult.commute)
qed

lemma lht_split_shape:
  assumes "lht_shape hash key t"
  shows "lht_shape hash key (lht_split hash key t)"
    and "mset (concat (buckets (lht_split hash key t))) = mset (concat (buckets t))"
    and "lsize (lht_split hash key t) = lsize t"
    and "length (buckets (lht_split hash key t)) = length (buckets t) + 1"
proof -
  define t1 where "t1 = (if splt t = front t then t\<lparr>splt := 0, front := front t * 2\<rparr> else t)"
  have t1: "lht_shape hash key t1" "splt t1 < front t1" "buckets t1 = buckets t" "lsize t1 = lsize t"
    using assms split_reset [OF assms] by (auto simp: t1_def lht_shape_def)
  then have "splt t1 < length (buckets t1)" by (simp add: lht_shape_def)
  then have eq: "lht_split hash key t =
     (let t2 = t1\<lparr>buckets := (buckets t1 @ [[]])[splt t1 := []], splt := splt t1 + 1\<rparr>
      in t2\<lparr>buckets := redistribute (bucketAddress hash key t2) (buckets t1 ! splt t1) (buckets t2)\<rparr>)"
    by (simp add: lht_split_def Let_def t1_def [symmetric] nth_append)
  show "lht_shape hash key (lht_split hash key t)"
    "mset (concat (buckets (lht_split hash key t))) = mset (concat (buckets t))"
    "lsize (lht_split hash key t) = lsize t"
    "length (buckets (lht_split hash key t)) = length (buckets t) + 1"
    using split_step [OF t1(1,2)] t1(3,4) by (simp_all add: eq Let_def)
qed

lemma merge_step:
  assumes "lht_shape hash key t" "0 < splt t"
  defines "t2 \<equiv> t\<lparr>buckets := butlast (buckets t), splt := splt t - 1\<rparr>"
  defines "t' \<equiv> t2\<lparr>buckets := redistribute (bucketAddress hash key t2) (last (buckets t)) (buckets t2)\<rparr>"
  shows "lht_shape hash key t'" and "mset (concat (buckets t')) = mset (concat (buckets t))"
proof -
  have a: "bucketAddress hash key t' = bucketAddress hash key t2"
    by (rule ext) (simp add: bucketAddress_haddr t'_def)
  obtain s where s: "splt t = Suc s" using assms(2) by (cases "splt t") auto
  have ne: "buckets t \<noteq> []" using assms(1) shape_pos [OF assms(1)] by (auto simp: lht_shape_def)
  have "placed (bucketAddress hash key t2)
          (redistribute (bucketAddress hash key t2) (last (buckets t)) (butlast (buckets t)))"
    using assms(1) shape_pos [OF assms(1)] s ne
    by (intro placed_merge [where addr = "bucketAddress hash key t"])
       (auto simp: lht_shape_def bucketAddress_haddr t2_def haddr_shrink)
  then show sh: "lht_shape hash key t'"
    using assms(1,2) by (auto simp: lht_shape_def a) (auto simp: t'_def t2_def)
  have "bucketAddress hash key t2 v < length (buckets t2)" for v
    using address_in_range [OF sh, of v] unfolding a by (simp add: t'_def)
  then have "mset (concat (buckets t')) = mset (concat (butlast (buckets t))) + mset (last (buckets t))"
    by (simp add: t'_def mset_redistribute) (simp add: t2_def)
  also have "\<dots> = mset (concat (butlast (buckets t) @ [last (buckets t)]))" by simp
  finally show "mset (concat (buckets t')) = mset (concat (buckets t))"
    using ne by simp
qed

lemma merge_reset:
  assumes "lht_shape hash key t" "splt t = 0" "2 \<le> front t"
  defines "t1 \<equiv> t\<lparr>front := front t div 2, splt := front t div 2\<rparr>"
  shows "lht_shape hash key t1" "0 < splt t1"
proof -
  have half: "pow2 (front t div 2)" "2 * (front t div 2) = front t"
    using assms(1,3) pow2_half by (auto simp: lht_shape_def)
  have "bucketAddress hash key t1 = bucketAddress hash key t"
    using assms(2) haddr_reset [OF pow2_pos [OF half(1)]] half(2)
    by (auto simp: bucketAddress_haddr t1_def)
  then show "lht_shape hash key t1" "0 < splt t1"
    using assms(1,2) half pow2_pos [OF half(1)] by (auto simp: lht_shape_def t1_def)
qed

lemma lht_merge_shape:
  assumes "lht_shape hash key t" "2 \<le> length (buckets t)"
  shows "lht_shape hash key (lht_merge hash key t)"
    and "mset (concat (buckets (lht_merge hash key t))) = mset (concat (buckets t))"
    and "lsize (lht_merge hash key t) = lsize t"
    and "length (buckets (lht_merge hash key t)) = length (buckets t) - 1"
proof -
  define t1 where "t1 = (if splt t = 0 then t\<lparr>front := front t div 2, splt := front t div 2\<rparr> else t)"
  have t1: "lht_shape hash key t1" "0 < splt t1" "buckets t1 = buckets t" "lsize t1 = lsize t"
    using assms merge_reset [OF assms(1)] by (auto simp: t1_def lht_shape_def)
  have eq: "lht_merge hash key t =
     (let t2 = t1\<lparr>buckets := butlast (buckets t1), splt := splt t1 - 1\<rparr>
      in t2\<lparr>buckets := redistribute (bucketAddress hash key t2) (last (buckets t1)) (buckets t2)\<rparr>)"
    by (simp add: lht_merge_def Let_def t1_def [symmetric])
  show "lht_shape hash key (lht_merge hash key t)"
    "mset (concat (buckets (lht_merge hash key t))) = mset (concat (buckets t))"
    "lsize (lht_merge hash key t) = lsize t"
    "length (buckets (lht_merge hash key t)) = length (buckets t) - 1"
    using merge_step [OF t1(1,2)] t1(3,4) by (simp_all add: eq Let_def)
qed

section \<open>Lookup, insertion and removal\<close>

text \<open>The abstract value of a table: the finite map from keys to stored values.\<close>

definition lht_map :: "('v \<Rightarrow> 'k) \<Rightarrow> 'v lht \<Rightarrow> 'k \<Rightarrow> 'v option" where
  "lht_map key t = map_of (map (\<lambda>v. (key v, v)) (concat (buckets t)))"

lemma map_of_keyed:
  "distinct (map key vs) \<Longrightarrow>
   map_of (map (\<lambda>v. (key v, v)) vs) k = Some v \<longleftrightarrow> v \<in> set vs \<and> key v = k"
  by (subst map_of_eq_Some_iff) (auto simp: comp_def)

lemma lht_map_Some:
  "lht_inv hash key t \<Longrightarrow> lht_map key t k = Some v \<longleftrightarrow> v \<in> set (concat (buckets t)) \<and> key v = k"
  unfolding lht_map_def lht_inv_def by (rule map_of_keyed) simp

lemma dom_lht_map: "dom (lht_map key t) = key ` set (concat (buckets t))"
  by (simp add: lht_map_def dom_map_of_conv_image_fst image_image)

lemma distinct_map_mset:
  "mset xs = mset ys \<Longrightarrow> distinct (map f xs) = distinct (map f ys)"
  by (metis mset_eq_imp_distinct_iff mset_map)

lemma lht_map_mset:
  assumes "mset (concat (buckets t')) = mset (concat (buckets t))" "lht_inv hash key t"
  shows "lht_map key t' = lht_map key t"
proof (rule ext)
  fix k
  have "set (concat (buckets t')) = set (concat (buckets t))" by (rule mset_eq_setD [OF assms(1)])
  moreover have "distinct (map key (concat (buckets t')))" "distinct (map key (concat (buckets t)))"
    using assms distinct_map_mset [OF assms(1), of key] by (auto simp: lht_inv_def)
  ultimately have "lht_map key t' k = Some v \<longleftrightarrow> lht_map key t k = Some v" for v
    by (simp add: lht_map_def map_of_keyed del: set_concat)
  then show "lht_map key t' k = lht_map key t k"
    by (metis not_None_eq)
qed

lemma std_find_hit:
  assumes "std_find key v b \<noteq> length b"
  shows "std_find key v b < length b" "key (b ! std_find key v b) = key v"
proof -
  show "std_find key v b < length b"
    using assms length_takeWhile_le [of _ b] unfolding std_find_def by (metis le_neq_implies_less)
  then show "key (b ! std_find key v b) = key v"
    unfolding std_find_def using nth_length_takeWhile by fastforce
qed

lemma std_find_miss: "std_find key v b = length b \<longleftrightarrow> key v \<notin> key ` set b"
  by (induction b) (auto simp: std_find_def)

lemma key_in_bucket:
  assumes "lht_shape hash key t"
  shows "key v \<in> key ` set (concat (buckets t)) \<longleftrightarrow>
         key v \<in> key ` set (buckets t ! bucketAddress hash key t v)"
proof
  assume "key v \<in> key ` set (concat (buckets t))"
  then obtain u where u: "u \<in> set (concat (buckets t))" "key u = key v" by force
  have "u \<in> set (buckets t ! bucketAddress hash key t u)"
    using placed_mem u(1) assms by (fastforce simp: lht_shape_def)
  moreover have "bucketAddress hash key t u = bucketAddress hash key t v"
    by (simp add: bucketAddress_haddr u(2))
  ultimately show "key v \<in> key ` set (buckets t ! bucketAddress hash key t v)"
    using u(2) by (metis image_eqI)
next
  assume "key v \<in> key ` set (buckets t ! bucketAddress hash key t v)"
  with address_in_range [OF assms, of v]
  show "key v \<in> key ` set (concat (buckets t))" by (force simp: in_set_conv_nth)
qed

lemma lht_find_cases:
  assumes "lht_inv hash key t"
  shows "lht_map key t (key v) = None \<Longrightarrow> lht_find hash key t v = lht_end t"
    and "lht_map key t (key v) = Some u \<Longrightarrow>
         \<exists>j. lht_find hash key t v = \<lparr>vecIt = bucketAddress hash key t v, buckIt = j\<rparr> \<and>
             j < length (buckets t ! bucketAddress hash key t v) \<and>
             buckets t ! bucketAddress hash key t v ! j = u"
proof -
  have sh: "lht_shape hash key t" using assms by (simp add: lht_inv_def)
  let ?b = "buckets t ! bucketAddress hash key t v"
  assume "lht_map key t (key v) = None"
  then have "key v \<notin> key ` set (concat (buckets t))"
    by (metis dom_lht_map domIff)
  then have "std_find key v ?b = length ?b"
    using key_in_bucket [OF sh] by (simp add: std_find_miss)
  then show "lht_find hash key t v = lht_end t" by (simp add: lht_find_def Let_def)
next
  have sh: "lht_shape hash key t" using assms by (simp add: lht_inv_def)
  let ?b = "buckets t ! bucketAddress hash key t v"
  let ?j = "std_find key v ?b"
  assume u: "lht_map key t (key v) = Some u"
  then have "key v \<in> key ` set (concat (buckets t))" by (metis dom_lht_map domI)
  then have j: "?j \<noteq> length ?b" using key_in_bucket [OF sh] by (simp add: std_find_miss)
  note hit = std_find_hit [OF j]
  have "?b ! ?j \<in> set (concat (buckets t))"
    using hit(1) address_in_range [OF sh, of v] by (metis UN_iff nth_mem set_concat)
  with hit(2) have "lht_map key t (key v) = Some (?b ! ?j)"
    using lht_map_Some [OF assms] by simp
  with u hit(1) j show "\<exists>j. lht_find hash key t v = \<lparr>vecIt = bucketAddress hash key t v, buckIt = j\<rparr> \<and>
             j < length ?b \<and> ?b ! j = u"
    by (auto simp: lht_find_def Let_def)
qed

lemma lht_insert_present:
  assumes "lht_inv hash key t" "lht_map key t (key v) = Some u"
  shows "lht_insert hash key t v = (t, lht_find hash key t v, False)"
  using lht_find_cases(2) [OF assms] address_in_range [of hash key t v] assms(1)
  by (auto simp: lht_insert_def lht_find_def Let_def bucketAddress_haddr bucketAddressForHash_haddr
        lht_end_def lht_inv_def split: if_splits)

lemma lht_insert_absent:
  assumes inv: "lht_inv hash key t" and absent: "lht_map key t (key v) = None"
  shows "\<exists>t' it. lht_insert hash key t v = (t', it, True) \<and> lht_inv hash key t' \<and>
           mset (concat (buckets t')) = add_mset v (mset (concat (buckets t))) \<and>
           vecIt it < length (buckets t') \<and> buckIt it < length (buckets t' ! vecIt it) \<and>
           it_deref t' it = v"
proof -
  have sh: "lht_shape hash key t" using inv by (simp add: lht_inv_def)
  define t1 where "t1 = lht_split hash key t"
  note t1 = lht_split_shape [OF sh, folded t1_def]
  define a where "a = bucketAddressForHash t1 (hash (key v))"
  have a: "a = bucketAddress hash key t1 v" "a < length (buckets t1)"
    using address_in_range [OF t1(1), of v]
    by (simp_all add: a_def bucketAddress_haddr bucketAddressForHash_haddr)
  define t' where "t' = t1\<lparr>buckets := (buckets t1)[a := buckets t1 ! a @ [v]], lsize := lsize t1 + 1\<rparr>"
  have k: "key v \<notin> key ` set (concat (buckets t))" using absent by (metis dom_lht_map domIff)
  then have "std_find key v (buckets t ! bucketAddress hash key t v) = length (buckets t ! bucketAddress hash key t v)"
    using key_in_bucket [OF sh] by (simp add: std_find_miss)
  then have ins: "lht_insert hash key t v = (t', \<lparr>vecIt = a, buckIt = length (buckets t1 ! a)\<rparr>, True)"
    by (simp add: lht_insert_def Let_def bucketAddress_haddr bucketAddressForHash_haddr
          t1_def [symmetric]) (simp add: t'_def a_def bucketAddressForHash_haddr)
  have ms: "mset (concat (buckets t')) = add_mset v (mset (concat (buckets t)))"
    using mset_concat_update [OF a(2), of "buckets t1 ! a @ [v]"] t1(2) by (simp add: t'_def)
  have addr: "bucketAddress hash key t' = bucketAddress hash key t1"
    by (rule ext) (simp add: bucketAddress_haddr t'_def)
  have "placed (bucketAddress hash key t1) (buckets t')"
    using t1(1) a by (auto simp: lht_shape_def placed_def t'_def nth_list_update)
  then have "lht_shape hash key t'"
    using t1(1) by (auto simp: lht_shape_def addr) (auto simp: t'_def)
  moreover have "mset (concat (buckets t')) = mset (v # concat (buckets t))" using ms by simp
  moreover have "distinct (map key (v # concat (buckets t)))" using k inv by (auto simp: lht_inv_def)
  ultimately have "lht_inv hash key t'"
    using inv t1(3,4) distinct_map_mset [of "concat (buckets t')" "v # concat (buckets t)" key]
      mset_eq_length [of "concat (buckets t')" "v # concat (buckets t)"]
    by (simp add: lht_inv_def) (simp add: t'_def)
  with ms ins a(2) show ?thesis by (simp add: it_deref_def t'_def)
qed

lemma lht_erase_it_hit:
  assumes inv: "lht_inv hash key t"
    and it: "vecIt it < length (buckets t)" "buckIt it < length (buckets t ! vecIt it)"
  defines "t' \<equiv> lht_erase_it hash key t it"
  shows "lht_inv hash key t'" "add_mset (it_deref t it) (mset (concat (buckets t'))) = mset (concat (buckets t))"
proof -
  let ?b = "buckets t ! vecIt it"
  let ?b' = "take (buckIt it) ?b @ drop (Suc (buckIt it)) ?b"
  define t1 where "t1 = t\<lparr>buckets := (buckets t)[vecIt it := ?b'], lsize := lsize t - 1\<rparr>"
  have b: "mset ?b = add_mset (it_deref t it) (mset ?b')"
    by (subst id_take_nth_drop [OF it(2)]) (simp add: it_deref_def)
  have ms: "add_mset (it_deref t it) (mset (concat (buckets t1))) = mset (concat (buckets t))"
    using mset_concat_update [OF it(1), of ?b'] b by (simp add: t1_def)
  have sub: "set ?b' \<subseteq> set ?b" by (auto dest: in_set_takeD in_set_dropD)
  have addr: "bucketAddress hash key t1 = bucketAddress hash key t"
    by (rule ext) (simp add: bucketAddress_haddr t1_def)
  have "placed (bucketAddress hash key t) (buckets t1)"
    using inv it(1) sub by (auto simp: lht_inv_def lht_shape_def placed_def t1_def nth_list_update)
  then have sh1: "lht_shape hash key t1"
    using inv by (auto simp: lht_inv_def lht_shape_def addr) (auto simp: t1_def)
  have len: "length (concat (buckets t)) = Suc (length (concat (buckets t1)))"
    using ms by (metis size_mset size_add_mset)
  have "length (buckets t) = length (concat (buckets t)) + 1" using inv unfolding lht_inv_def by argo
  with len have two: "2 \<le> length (buckets t1)" by (simp add: t1_def)
  have t': "t' = lht_merge hash key t1"
    using it by (simp add: t'_def lht_erase_it_def it_eq_def lht_end_def t1_def Let_def)
  note m = lht_merge_shape [OF sh1 two, folded t']
  show ms': "add_mset (it_deref t it) (mset (concat (buckets t'))) = mset (concat (buckets t))"
    using ms m(2) by simp
  then have "mset (it_deref t it # concat (buckets t')) = mset (concat (buckets t))" by simp
  then have "distinct (map key (it_deref t it # concat (buckets t')))"
    using inv distinct_map_mset by (fastforce simp: lht_inv_def)
  moreover have "length (concat (buckets t)) = Suc (length (concat (buckets t')))"
    using ms' by (metis size_mset size_add_mset)
  ultimately show "lht_inv hash key t'"
    using inv m(1,3,4) by (simp add: lht_inv_def) (simp add: t1_def)
qed

section \<open>Iteration\<close>

declare skip_empty.simps [simp del] next_bucket.simps [simp del]

definition it_pos :: "'v list list \<Rightarrow> lht_iterator \<Rightarrow> nat" where
  "it_pos bs it = length (concat (take (vecIt it) bs)) + (if vecIt it < length bs then buckIt it else 0)"

definition it_ok :: "'v list list \<Rightarrow> lht_iterator \<Rightarrow> bool" where
  "it_ok bs it \<longleftrightarrow>
     vecIt it < length bs \<and> buckIt it < length (bs ! vecIt it) \<or> vecIt it = length bs"

lemma concat_at:
  "i < length bs \<Longrightarrow> concat bs = concat (take i bs) @ bs ! i @ concat (drop (Suc i) bs)"
  by (subst id_take_nth_drop [of i bs]) simp_all

lemma it_pos_deref:
  assumes "vecIt it < length bs" "buckIt it < length (bs ! vecIt it)"
  shows "concat bs ! it_pos bs it = bs ! vecIt it ! buckIt it" "it_pos bs it < length (concat bs)"
  using assms by (auto simp: it_pos_def concat_at [OF assms(1)] nth_append)

lemma concat_take_Suc:
  "i < length bs \<Longrightarrow> length (concat (take (Suc i) bs)) = length (concat (take i bs)) + length (bs ! i)"
  by (simp add: take_Suc_conv_app_nth)

lemma next_bucket_pos:
  "vecIt it < length bs \<and> buckIt it \<le> length (bs ! vecIt it) \<or> vecIt it = length bs \<Longrightarrow>
   it_ok bs (next_bucket bs it) \<and> it_pos bs (next_bucket bs it) = it_pos bs it"
proof (induction bs it rule: next_bucket.induct)
  case (1 bs it)
  show ?case
  proof (cases "vecIt it < length bs \<and> buckIt it = length (bs ! vecIt it)")
    case True
    then show ?thesis
      using 1 concat_take_Suc [of "vecIt it" bs]
      by (subst (1 2) next_bucket.simps) (auto simp: it_pos_def Let_def)
  next
    case False
    then show ?thesis
      using 1 by (subst (1 2) next_bucket.simps) (auto simp: it_ok_def)
  qed
qed

lemma it_next_pos:
  assumes "it_ok (buckets t) it" "vecIt it < length (buckets t)"
  shows "it_ok (buckets t) (it_next t it)" "it_pos (buckets t) (it_next t it) = Suc (it_pos (buckets t) it)"
  using next_bucket_pos [of "it\<lparr>buckIt := buckIt it + 1\<rparr>" "buckets t"] assms
  by (auto simp: it_next_def it_ok_def it_pos_def)

lemma skip_empty_spec:
  "i \<le> length bs \<Longrightarrow> skip_empty bs i \<le> length bs \<and>
     (skip_empty bs i < length bs \<longrightarrow> bs ! skip_empty bs i \<noteq> []) \<and>
     length (concat (take (skip_empty bs i) bs)) = length (concat (take i bs))"
proof (induction bs i rule: skip_empty.induct)
  case (1 bs i)
  then show ?case
    using concat_take_Suc [of i bs]
    by (cases "i < length bs \<and> bs ! i = []")
       (auto simp: skip_empty.simps [of bs i])
qed

lemma lht_begin_pos: "it_ok (buckets t) (lht_begin t)" "it_pos (buckets t) (lht_begin t) = 0"
  using skip_empty_spec [of 0 "buckets t"]
  by (auto simp: lht_begin_def Let_def it_ok_def it_pos_def lht_end_def)

lemma it_pos_end:
  assumes "it_ok bs it"
  shows "vecIt it < length bs \<longleftrightarrow> it_pos bs it < length (concat bs)"
  using assms it_pos_deref(2) [of it bs] by (auto simp: it_ok_def it_pos_def)

lemma lht_walk:
  "n \<le> length (concat (buckets t)) \<Longrightarrow>
   it_ok (buckets t) ((it_next t ^^ n) (lht_begin t)) \<and>
   it_pos (buckets t) ((it_next t ^^ n) (lht_begin t)) = n"
proof (induction n)
  case 0
  then show ?case by (simp add: lht_begin_pos)
next
  case (Suc n)
  then show ?case
    using it_pos_end it_next_pos by (fastforce)
qed

section \<open>Results of the operations\<close>

lemma it_eq_end: "it_eq t it (lht_end t) \<longleftrightarrow> vecIt it = length (buckets t)"
  by (auto simp: it_eq_def lht_end_def)

lemma it_eq_end_end [simp]: "it_eq t (lht_end t) (lht_end t)"
  by (simp add: it_eq_def)

lemma find_is_end:
  assumes "lht_inv hash key t"
  shows "it_eq t (lht_find hash key t v) (lht_end t) \<longleftrightarrow> lht_map key t (key v) = None"
proof (cases "lht_map key t (key v)")
  case None
  then show ?thesis using lht_find_cases(1) [OF assms] by simp
next
  case (Some u)
  then show ?thesis
    using lht_find_cases(2) [OF assms Some] address_in_range [of hash key t v] assms
    by (auto simp: it_eq_end lht_inv_def)
qed

lemma find_deref:
  assumes "lht_inv hash key t" "lht_map key t (key v) = Some u"
  shows "it_deref t (lht_find hash key t v) = u"
  using lht_find_cases(2) [OF assms] by (auto simp: it_deref_def)

lemma lht_insert_inv:
  assumes "lht_inv hash key t"
  shows "lht_inv hash key (fst (lht_insert hash key t v))"
  using assms lht_insert_present [OF assms, of v] lht_insert_absent [OF assms, of v]
  by (cases "lht_map key t (key v)") auto

lemma lht_map_add:
  assumes "lht_inv hash key t'" "lht_inv hash key t" "lht_map key t (key v) = None"
    and "mset (concat (buckets t')) = add_mset v (mset (concat (buckets t)))"
  shows "lht_map key t' = (lht_map key t)(key v \<mapsto> v)"
proof (rule ext)
  fix k
  have "set (concat (buckets t')) = insert v (set (concat (buckets t)))"
    using assms(4) by (metis set_mset_add_mset_insert set_mset_mset)
  moreover have "key v \<notin> key ` set (concat (buckets t))" using assms(3) by (metis dom_lht_map domIff)
  ultimately have "lht_map key t' k = Some u \<longleftrightarrow> ((lht_map key t)(key v \<mapsto> v)) k = Some u" for u
    using assms(3) lht_map_Some [OF assms(1)] lht_map_Some [OF assms(2)]
    by (auto simp del: set_concat) (metis image_eqI)
  then show "lht_map key t' k = ((lht_map key t)(key v \<mapsto> v)) k" by (metis not_None_eq)
qed

lemma lht_insert_map:
  assumes "lht_inv hash key t"
  shows "lht_map key (fst (lht_insert hash key t v)) =
           (if lht_map key t (key v) = None then (lht_map key t)(key v \<mapsto> v) else lht_map key t)"
    and "snd (snd (lht_insert hash key t v)) \<longleftrightarrow> lht_map key t (key v) = None"
proof -
  have "lht_map key (fst (lht_insert hash key t v)) = (lht_map key t)(key v \<mapsto> v) \<and>
        snd (snd (lht_insert hash key t v))" if n: "lht_map key t (key v) = None"
    using lht_insert_absent [OF assms n] lht_map_add [OF _ assms n] by fastforce
  moreover have "fst (lht_insert hash key t v) = t \<and> \<not> snd (snd (lht_insert hash key t v))"
    if "lht_map key t (key v) = Some u" for u
    using lht_insert_present [OF assms that] by simp
  ultimately show "lht_map key (fst (lht_insert hash key t v)) =
           (if lht_map key t (key v) = None then (lht_map key t)(key v \<mapsto> v) else lht_map key t)"
    and "snd (snd (lht_insert hash key t v)) \<longleftrightarrow> lht_map key t (key v) = None"
    by (cases "lht_map key t (key v)"; simp)+
qed

lemma lht_insert_deref:
  assumes "lht_inv hash key t"
  shows "lht_map key (fst (lht_insert hash key t v)) (key v) =
           Some (it_deref (fst (lht_insert hash key t v)) (fst (snd (lht_insert hash key t v))))"
proof (cases "lht_map key t (key v)")
  case None
  then show ?thesis
    using lht_insert_absent [OF assms None] lht_insert_map(1) [OF assms, of v] by fastforce
next
  case (Some u)
  then show ?thesis
    using lht_insert_present [OF assms Some] find_deref [OF assms Some] by simp
qed

lemma lht_erase_inv: "lht_inv hash key t \<Longrightarrow> lht_inv hash key (lht_erase hash key t v)"
proof (cases "lht_map key t (key v)")
  case None
  moreover assume inv: "lht_inv hash key t"
  ultimately show ?thesis
    using lht_find_cases(1) [OF inv None] by (simp add: lht_erase_def lht_erase_it_def)
next
  case (Some u)
  moreover assume inv: "lht_inv hash key t"
  ultimately show ?thesis
    using lht_find_cases(2) [OF inv Some] address_in_range [of hash key t v]
      lht_erase_it_hit(1) [OF inv, of "lht_find hash key t v"]
    by (auto simp: lht_erase_def lht_inv_def)
qed

lemma lht_erase_map:
  assumes inv: "lht_inv hash key t"
  shows "lht_map key (lht_erase hash key t v) = (lht_map key t)(key v := None)"
proof (cases "lht_map key t (key v)")
  case None
  then show ?thesis
    using lht_find_cases(1) [OF inv None]
    by (simp add: lht_erase_def lht_erase_it_def fun_upd_idem)
next
  case (Some u)
  let ?it = "lht_find hash key t v" and ?t' = "lht_erase hash key t v"
  have ms: "add_mset u (mset (concat (buckets ?t'))) = mset (concat (buckets t))"
    using lht_find_cases(2) [OF inv Some] address_in_range [of hash key t v]
      lht_erase_it_hit(2) [OF inv, of ?it] inv
    by (auto simp: lht_erase_def lht_inv_def it_deref_def)
  have u: "key u = key v" using Some lht_map_Some [OF inv] by simp
  have inv': "lht_inv hash key ?t'" by (rule lht_erase_inv [OF inv])
  have "distinct (map key (u # concat (buckets ?t')))"
    using inv ms distinct_map_mset [of "concat (buckets t)" "u # concat (buckets ?t')" key]
    by (simp add: lht_inv_def)
  then have "lht_map key ?t' (key u) = None"
    using dom_lht_map [of key ?t'] by auto
  from lht_map_add [OF inv inv' this ms [symmetric]] this u show ?thesis
    by (simp add: fun_upd_idem)
qed

lemma lht_new_inv: "lht_inv hash key lht_new"
  by (auto simp: lht_inv_def lht_shape_def lht_new_def placed_def pow2_def intro: exI [of _ 0])

lemma lht_new_map: "lht_map key lht_new = Map.empty"
  by (simp add: lht_map_def lht_new_def)

lemma lsize_card:
  assumes "lht_inv hash key t"
  shows "lsize t = card (dom (lht_map key t))"
  using assms by (simp add: dom_lht_map lht_inv_def card_image distinct_map distinct_card del: set_concat)

section \<open>The interface of the table\<close>

text \<open>
  What a client may rely on: a table is a finite map from keys to values in which \<open>ins\<close>
  never replaces a stored value and reports whether it stored its argument.
\<close>

datatype 'v table_op = Insert 'v | Erase 'v | Clear

primrec spec_step :: "('v \<Rightarrow> 'k) \<Rightarrow> ('k \<Rightarrow> 'v option) \<Rightarrow> 'v table_op \<Rightarrow> ('k \<Rightarrow> 'v option)" where
  "spec_step key m (Insert v) = (if m (key v) = None then m(key v \<mapsto> v) else m)"
| "spec_step key m (Erase v) = m(key v := None)"
| "spec_step key m Clear = Map.empty"

primrec table_step ::
  "('t \<Rightarrow> 'v \<Rightarrow> 't) \<Rightarrow> ('t \<Rightarrow> 'v \<Rightarrow> 't) \<Rightarrow> 't \<Rightarrow> 't \<Rightarrow> 'v table_op \<Rightarrow> 't" where
  "table_step ins del emp t (Insert v) = ins t v"
| "table_step ins del emp t (Erase v) = del t v"
| "table_step ins del emp t Clear = emp"

locale keyed_table =
  fixes key :: "'v \<Rightarrow> 'k"
    and invar :: "'t \<Rightarrow> bool"
    and absm :: "'t \<Rightarrow> 'k \<Rightarrow> 'v option"
    and empty :: "'t"
    and ins :: "'t \<Rightarrow> 'v \<Rightarrow> 't"
    and del :: "'t \<Rightarrow> 'v \<Rightarrow> 't"
    and siz :: "'t \<Rightarrow> nat"
  assumes invar_empty: "invar empty"
    and absm_empty: "absm empty = Map.empty"
    and invar_ins: "invar t \<Longrightarrow> invar (ins t v)"
    and absm_ins: "invar t \<Longrightarrow>
          absm (ins t v) = (if absm t (key v) = None then (absm t)(key v \<mapsto> v) else absm t)"
    and invar_del: "invar t \<Longrightarrow> invar (del t v)"
    and absm_del: "invar t \<Longrightarrow> absm (del t v) = (absm t)(key v := None)"
    and siz_card: "invar t \<Longrightarrow> siz t = card (dom (absm t))"
begin

abbreviation step :: "'t \<Rightarrow> 'v table_op \<Rightarrow> 't" where
  "step \<equiv> table_step ins del empty"

lemma step_refines: "invar t \<Longrightarrow> invar (step t x) \<and> absm (step t x) = spec_step key (absm t) x"
  by (cases x) (simp_all add: invar_empty absm_empty invar_ins absm_ins invar_del absm_del)

lemma run_refines_from:
  "invar t \<Longrightarrow> invar (foldl step t xs) \<and> absm (foldl step t xs) = foldl (spec_step key) (absm t) xs"
  by (induction xs arbitrary: t) (simp_all add: step_refines)

lemma run_refines:
  "invar (foldl step empty xs)"
  "absm (foldl step empty xs) = foldl (spec_step key) Map.empty xs"
  "siz (foldl step empty xs) = card (dom (foldl (spec_step key) Map.empty xs))"
  using run_refines_from [OF invar_empty, of xs] by (simp_all add: absm_empty siz_card)

lemma insert_erase:
  "invar t \<Longrightarrow> absm t (key v) = None \<Longrightarrow> absm (del (ins t v) v) = absm t"
  by (simp add: absm_del absm_ins invar_ins fun_upd_idem)

end

interpretation table: keyed_table key "lht_inv hash key" "lht_map key" lht_new
  "\<lambda>t v. fst (lht_insert hash key t v)" "lht_erase hash key" lsize
  for hash key
  by unfold_locales
    (simp_all add: lht_new_inv lht_new_map lht_insert_inv lht_insert_map lht_erase_inv lht_erase_map
      lsize_card)

definition lht_step :: "('k \<Rightarrow> nat) \<Rightarrow> ('v \<Rightarrow> 'k) \<Rightarrow> 'v lht \<Rightarrow> 'v table_op \<Rightarrow> 'v lht" where
  "lht_step hash key =
     table_step (\<lambda>t v. fst (lht_insert hash key t v)) (lht_erase hash key) (lht_clear lht_new)"

lemma lht_step_eq: "lht_step hash key = table_step (\<lambda>t v. fst (lht_insert hash key t v)) (lht_erase hash key) lht_new"
  by (simp add: lht_step_def lht_clear_def)

section \<open>calcSize\<close>

lemma calcSize_loop_Some:
  "k \<le> 63 \<Longrightarrow> unat n \<le> 2 ^ 63 \<Longrightarrow>
   \<exists>m. k \<le> m \<and> m \<le> 63 \<and> calcSize_loop (2 ^ k) n = Some (2 ^ m) \<and> unat n \<le> 2 ^ m \<and>
       (m = k \<or> 2 ^ (m - 1) < unat n)"
proof (induction "63 - k" arbitrary: k)
  case 0
  then have k: "k = 63" by simp
  have "\<not> (2 ^ k :: u64) < n"
    using 0 k unat_two_power [of 63, where 'a = 64] by (simp add: word_less_nat_alt)
  then have "calcSize_loop (2 ^ k) n = Some (2 ^ k)" by (subst calcSize_loop.simps) simp
  with 0 k show ?case by blast
next
  case (Suc d)
  have lt: "(2 ^ k :: u64) < n \<longleftrightarrow> 2 ^ k < unat n"
    using unat_two_power [of k, where 'a = 64] Suc.hyps(2) by (simp add: word_less_nat_alt)
  show ?case
  proof (cases "2 ^ k < unat n")
    case True
    obtain m where m: "Suc k \<le> m" "m \<le> 63" "calcSize_loop (2 ^ Suc k) n = Some (2 ^ m)"
      "unat n \<le> 2 ^ m" "m = Suc k \<or> 2 ^ (m - 1) < unat n"
      using Suc.hyps(1) [of "Suc k"] Suc.hyps(2) Suc.prems by fastforce
    moreover have "calcSize_loop (2 ^ k) n = calcSize_loop (2 ^ Suc k) n"
      using True lt by (subst calcSize_loop.simps) (simp add: mult.commute)
    ultimately show ?thesis using True by (intro exI [of _ m]) auto
  next
    case False
    then have "calcSize_loop (2 ^ k) n = Some (2 ^ k)"
      using lt by (subst calcSize_loop.simps) simp
    with False Suc.prems show ?thesis by (intro exI [of _ k]) auto
  qed
qed

text \<open>The values the loop variable takes: powers of two, and zero once the doubling has wrapped.\<close>

definition doubling_orbit :: "u64 \<Rightarrow> bool" where
  "doubling_orbit s \<longleftrightarrow> s = 0 \<or> (\<exists>k \<le> 63. s = 2 ^ k)"

lemma doubling_orbit_double: "doubling_orbit s \<Longrightarrow> doubling_orbit (s * 2)"
proof -
  assume "doubling_orbit s"
  then consider "s = 0" | k where "k < 63" "s = 2 ^ k" | "s = 2 ^ 63"
    by (metis doubling_orbit_def le_neq_implies_less)
  then show ?thesis
  proof cases
    case 2
    then have "s * 2 = 2 ^ Suc k" by (simp add: mult.commute)
    with 2 show ?thesis by (auto simp: doubling_orbit_def intro!: exI [of _ "Suc k"])
  qed (simp_all add: doubling_orbit_def)
qed

lemma doubling_orbit_le: "doubling_orbit s \<Longrightarrow> unat s \<le> 2 ^ 63"
proof -
  assume "doubling_orbit s"
  then consider "s = 0" | k where "k \<le> 63" "s = 2 ^ k" by (auto simp: doubling_orbit_def)
  then show ?thesis
  proof cases
    case 2
    then have "unat s = 2 ^ k" using unat_two_power [of k, where 'a = 64] by simp
    with 2 show ?thesis using power_increasing [of k 63 "2::nat"] by simp
  qed simp
qed

lemma calcSize_loop_result:
  assumes "calcSize_loop s n = Some r"
  shows "doubling_orbit s \<longrightarrow> unat n \<le> 2 ^ 63"
proof (rule calcSize_loop.raw_induct [where P = "\<lambda>s n r. doubling_orbit s \<longrightarrow> unat n \<le> 2 ^ 63", OF _ assms])
  fix f s n r
  assume IH: "\<And>s n r. f s n = Some r \<Longrightarrow> doubling_orbit s \<longrightarrow> unat n \<le> 2 ^ 63"
    and eq: "(if s < n then f (s * 2) n else Some s) = (Some r :: u64 option)"
  show "doubling_orbit s \<longrightarrow> unat n \<le> 2 ^ 63"
  proof (cases "s < n")
    case True
    then show ?thesis using eq IH doubling_orbit_double by auto
  next
    case False
    then have "unat n \<le> unat s" by (simp add: word_less_nat_alt)
    then show ?thesis using doubling_orbit_le le_trans by blast
  qed
qed

section \<open>Properties\<close>

text \<open>
  Inserting keeps the table's invariant (every value in the bucket its hash addresses, keys
  distinct, size counter exact, one more bucket than values), stores the value iff no equal value
  was there, leaves every other key alone, and returns an iterator to the stored equal value.
\<close>

theorem lht_insert_correct:
  assumes "lht_inv hash key t" and "lht_insert hash key t v = (t', it, inserted)"
  shows "lht_inv hash key t' \<and>
         (inserted \<longleftrightarrow> lht_map key t (key v) = None) \<and>
         lht_map key t' = (if inserted then (lht_map key t)(key v \<mapsto> v) else lht_map key t) \<and>
         lht_map key t' (key v) = Some (it_deref t' it)"
  using lht_insert_inv [OF assms(1), of v] lht_insert_map [OF assms(1), of v]
    lht_insert_deref [OF assms(1), of v] by (simp add: assms(2))

lemma insert_example:
  "lht_insert (\<lambda>n. n) (\<lambda>n. n) lht_new (5::nat) =
     (\<lparr>buckets = [[], [5]], splt = 1, front = 1, lsize = 1\<rparr>, \<lparr>vecIt = 1, buckIt = 0\<rparr>, True)"
  by (simp add: lht_insert_def lht_new_def lht_split_def bucketAddressForHash_def bucketAddress_def
      std_find_def redistribute_def Let_def)

lemma example_inv:
  "lht_inv (\<lambda>n. n) (\<lambda>n. n) \<lparr>buckets = [[], [5::nat]], splt = 1, front = 1, lsize = 1\<rparr>"
  using lht_insert_inv [OF lht_new_inv, of "\<lambda>n. n" "\<lambda>n. n" "5::nat"] by (simp add: insert_example)

theorem lht_insert_correct_witness:
  "lht_inv (\<lambda>n. n) (\<lambda>n. n) (lht_new :: nat lht) \<and>
   lht_inv (\<lambda>n. n) (\<lambda>n. n) \<lparr>buckets = [[], [5::nat]], splt = 1, front = 1, lsize = 1\<rparr>"
  using lht_insert_correct [OF lht_new_inv insert_example] lht_new_inv by blast

text \<open>
  Erasing a value keeps the invariant, removes exactly the entry with that value's key, and
  decrements the size iff there was one.
\<close>

theorem lht_erase_correct:
  assumes "lht_inv hash key t"
  shows "lht_inv hash key (lht_erase hash key t v) \<and>
         lht_map key (lht_erase hash key t v) = (lht_map key t)(key v := None) \<and>
         lsize (lht_erase hash key t v) = lsize t - lht_count hash key t v"
proof -
  note inv' = lht_erase_inv [OF assms, of v] and m' = lht_erase_map [OF assms, of v]
  have "finite (dom (lht_map key t))" by (simp add: dom_lht_map)
  then have "lsize (lht_erase hash key t v) = lsize t - lht_count hash key t v"
    using lsize_card [OF inv'] lsize_card [OF assms] find_is_end [OF assms, of v]
    by (auto simp: m' lht_count_def card_Diff_singleton_if)
  with inv' m' show ?thesis by blast
qed

theorem lht_erase_correct_witness:
  "lht_inv (\<lambda>n. n) (\<lambda>n. n) (lht_new :: nat lht) \<and>
   lht_inv (\<lambda>n. n) (\<lambda>n. n) (lht_erase (\<lambda>n. n) (\<lambda>n. n) (fst (lht_insert (\<lambda>n. n) (\<lambda>n. n) lht_new (5::nat))) 5)"
  using lht_erase_correct [OF lht_insert_inv [OF lht_new_inv], of "\<lambda>n. n" "\<lambda>n. n" "5::nat" 5]
    lht_new_inv by blast

text \<open>
  C1. Refinement: any sequence of insertions, removals and clears on a new table computes the map
  that the same sequence computes on finite maps, and the size is the number of its keys.
\<close>

theorem lht_run_refines:
  "lht_map key (foldl (lht_step hash key) lht_new xs) = foldl (spec_step key) Map.empty xs \<and>
   lsize (foldl (lht_step hash key) lht_new xs) = card (dom (foldl (spec_step key) Map.empty xs))"
  using table.run_refines [where hash = hash and key = key and xs = xs] by (simp add: lht_step_eq)

text \<open>
  Lookup: \<^verbatim>\<open>find\<close> returns \<^verbatim>\<open>end()\<close> iff no stored value has the key, and otherwise an
  iterator to the stored value with that key; \<^verbatim>\<open>count\<close> is 0 or 1 accordingly.
\<close>

theorem lht_find_correct:
  assumes "lht_inv hash key t"
  shows "(if it_eq t (lht_find hash key t v) (lht_end t) then None
          else Some (it_deref t (lht_find hash key t v))) = lht_map key t (key v) \<and>
         lht_count hash key t v = (if lht_map key t (key v) = None then 0 else 1)"
  using find_is_end [OF assms, of v] find_deref [OF assms, of v]
  by (cases "lht_map key t (key v)") (auto simp: lht_count_def)

theorem lht_find_correct_witness:
  "lht_inv (\<lambda>n. n) (\<lambda>n. n) \<lparr>buckets = [[], [5::nat]], splt = 1, front = 1, lsize = 1\<rparr> \<and>
   lht_count (\<lambda>n. n) (\<lambda>n. n) \<lparr>buckets = [[], [5::nat]], splt = 1, front = 1, lsize = 1\<rparr> 5 = 1"
  using lht_find_correct [OF example_inv, of 5] example_inv by (simp add: lht_map_def)

text \<open>
  Iteration: starting at \<^verbatim>\<open>begin()\<close>, the first \<^verbatim>\<open>size()\<close> positions of the iterator
  are the stored values in bucket order, none of them is \<^verbatim>\<open>end()\<close>, and the next one is.
\<close>

theorem lht_iteration:
  assumes "lht_inv hash key t"
  shows "(\<forall>n < lsize t. it_deref t ((it_next t ^^ n) (lht_begin t)) = concat (buckets t) ! n \<and>
                        \<not> it_eq t ((it_next t ^^ n) (lht_begin t)) (lht_end t)) \<and>
         it_eq t ((it_next t ^^ lsize t) (lht_begin t)) (lht_end t)"
proof -
  have sz: "lsize t = length (concat (buckets t))" using assms unfolding lht_inv_def by argo
  have "it_deref t ((it_next t ^^ n) (lht_begin t)) = concat (buckets t) ! n \<and>
        \<not> it_eq t ((it_next t ^^ n) (lht_begin t)) (lht_end t)" if "n < lsize t" for n
    using that lht_walk [of n t] it_pos_end [of "buckets t" "(it_next t ^^ n) (lht_begin t)"]
      it_pos_deref [of "(it_next t ^^ n) (lht_begin t)" "buckets t"]
    unfolding sz by (auto simp: it_eq_end it_deref_def it_ok_def)
  moreover have "it_eq t ((it_next t ^^ lsize t) (lht_begin t)) (lht_end t)"
    using lht_walk [of "lsize t" t] it_pos_end [of "buckets t" "(it_next t ^^ lsize t) (lht_begin t)"]
    unfolding sz by (auto simp: it_eq_end it_ok_def)
  ultimately show ?thesis by blast
qed

theorem lht_iteration_witness:
  "lht_inv (\<lambda>n. n) (\<lambda>n. n) \<lparr>buckets = [[], [5::nat]], splt = 1, front = 1, lsize = 1\<rparr> \<and>
   it_deref \<lparr>buckets = [[], [5::nat]], splt = 1, front = 1, lsize = 1\<rparr>
     (lht_begin \<lparr>buckets = [[], [5::nat]], splt = 1, front = 1, lsize = 1\<rparr>) = 5"
  using lht_iteration [OF example_inv] example_inv by simp

text \<open>
  No index and no counter leaves its range: every address is a bucket, the counters are bounded
  by the number of stored values, and a table with a value to erase has two buckets or more, so
  \<^verbatim>\<open>merge()\<close> never decrements \<open>_split\<close> or halves \<open>_front\<close> at zero.
\<close>

theorem lht_bounds:
  assumes "lht_inv hash key t"
  shows "bucketAddress hash key t v < length (buckets t) \<and>
         length (buckets t) = lsize t + 1 \<and> front t \<le> lsize t + 1 \<and> splt t \<le> front t \<and>
         (0 < lsize t \<longrightarrow> (if splt t = 0 then 2 \<le> front t \<and> even (front t) else 0 < splt t))"
proof -
  have sh: "lht_shape hash key t" and len: "length (buckets t) = lsize t + 1"
    using assms unfolding lht_inv_def by auto
  have "front t + splt t = lsize t + 1" "pow2 (front t)" "splt t \<le> front t"
    using sh len by (auto simp: lht_shape_def)
  moreover have "even (front t)" if "2 \<le> front t"
    using pow2_half [OF \<open>pow2 (front t)\<close> that] by (metis dvd_triv_left)
  ultimately show ?thesis using address_in_range [OF sh] len by auto
qed

theorem lht_bounds_witness:
  "lht_inv (\<lambda>n. n) (\<lambda>n. n) (lht_new :: nat lht) \<and>
   bucketAddress (\<lambda>n. n) (\<lambda>n. n) (lht_new :: nat lht) 7 < length (buckets (lht_new :: nat lht))"
  using lht_bounds [OF lht_new_inv, of "\<lambda>n. n" "\<lambda>n. n" "7::nat"] lht_new_inv by blast

text \<open>
  C40. The capacity loop of the constructor returns the least power of two that is at least 32 and
  at least \<^verbatim>\<open>initialSize\<close> when \<^verbatim>\<open>initialSize\<close> is at most \<open>2 ^ 63\<close>; for a larger argument the
  doubling wraps to zero and the loop never returns.
\<close>

theorem calcSize_terminates_iff:
  "if unat n \<le> 2 ^ 63
   then \<exists>m. 5 \<le> m \<and> m \<le> 63 \<and> calcSize n = Some (2 ^ m) \<and> unat n \<le> 2 ^ m \<and>
            (m = 5 \<or> 2 ^ (m - 1) < unat n)
   else calcSize n = None"
proof -
  have "doubling_orbit 32" by (auto simp: doubling_orbit_def intro!: exI [of _ 5])
  then have "calcSize n = None" if "\<not> unat n \<le> 2 ^ 63"
    using that calcSize_loop_result [of 32 n] by (cases "calcSize_loop 32 n") (auto simp: calcSize_def)
  then show ?thesis using calcSize_loop_Some [of 5 n] by (simp add: calcSize_def)
qed

text \<open>
  A \<^verbatim>\<open>HashMap\<close> is the map of its entries: the const \<^verbatim>\<open>operator []\<close> returns the mapped
  value or throws \<^verbatim>\<open>NotFoundException\<close>; the non-const one adds the default value for a missing
  key and returns the stored value; \<^verbatim>\<open>insert\<close> keeps an existing mapping; \<^verbatim>\<open>erase\<close> removes it.
\<close>

theorem hash_map_correct:
  assumes "lht_inv hash fst m"
  defines "\<alpha> \<equiv> \<lambda>m' k'. map_option snd (lht_map fst m' k')"
  shows "hm_at hash d m k = (case \<alpha> m k of None \<Rightarrow> Inl NotFoundException | Some x \<Rightarrow> Inr x) \<and>
         \<alpha> (fst (hm_index hash d m k)) = (if \<alpha> m k = None then (\<alpha> m)(k \<mapsto> d) else \<alpha> m) \<and>
         Some (snd (hm_index hash d m k)) = \<alpha> (fst (hm_index hash d m k)) k \<and>
         \<alpha> (fst (hm_insert hash m (k, x))) = (if \<alpha> m k = None then (\<alpha> m)(k \<mapsto> x) else \<alpha> m) \<and>
         \<alpha> (hm_erase hash d m k) = (\<alpha> m)(k := None) \<and>
         hm_count hash d m k = (if \<alpha> m k = None then 0 else 1)"
proof -
  have at: "hm_at hash d m k = (case \<alpha> m k of None \<Rightarrow> Inl NotFoundException | Some x \<Rightarrow> Inr x)"
    using find_is_end [OF assms(1), of "(k, d)"] find_deref [OF assms(1), of "(k, d)"]
    by (cases "lht_map fst m k") (simp_all add: hm_at_def \<alpha>_def)
  have idx: "\<alpha> (fst (hm_index hash d m k)) = (if \<alpha> m k = None then (\<alpha> m)(k \<mapsto> d) else \<alpha> m)"
    using lht_insert_map(1) [OF assms(1), of "(k, d)"]
    by (auto simp: hm_index_def \<alpha>_def split_beta)
  have ref: "Some (snd (hm_index hash d m k)) = \<alpha> (fst (hm_index hash d m k)) k"
    using lht_insert_deref [OF assms(1), of "(k, d)"] by (simp add: hm_index_def \<alpha>_def split_beta)
  have ins: "\<alpha> (fst (hm_insert hash m (k, x))) = (if \<alpha> m k = None then (\<alpha> m)(k \<mapsto> x) else \<alpha> m)"
    using lht_insert_map(1) [OF assms(1), of "(k, x)"] by (auto simp: hm_insert_def \<alpha>_def)
  have "hm_erase hash d m k = lht_erase hash fst m (k, d)"
    by (simp add: hm_erase_def hm_find_def lht_erase_def)
  then have "\<alpha> (hm_erase hash d m k) = (\<alpha> m)(k := None)"
    using lht_erase_map [OF assms(1), of "(k, d)"] by (auto simp: \<alpha>_def)
  with at idx ref ins show ?thesis
    using find_is_end [OF assms(1), of "(k, d)"] by (simp add: hm_count_def \<alpha>_def)
qed

theorem hash_map_correct_witness:
  "lht_inv (\<lambda>n. n) fst (lht_new :: (nat, nat) hash_map) \<and>
   hm_at (\<lambda>n. n) 0 (lht_new :: (nat, nat) hash_map) 3 = Inl NotFoundException"
  using hash_map_correct [OF lht_new_inv, of "\<lambda>n. n" "0::nat" "3::nat" 1] lht_new_inv lht_new_map
  by (simp add: lht_new_map)

end
