(* ===== verification/FIFOBuf.thy ===== *)
theory FIFOBuf
  imports Prelude
begin

text \<open>
  \<^verbatim>\<open>Foundation/include/Poco/Buffer.h\<close> and \<^verbatim>\<open>Foundation/include/Poco/FIFOBuffer.h\<close>.

  A \<^verbatim>\<open>Buffer\<close> is its allocated memory (a list of \<open>_capacity\<close> cells), its size and its
  ownership flag; \<open>junk\<close> stands for the content of cells that \<^verbatim>\<open>new T[n]\<close> leaves
  uninitialised. \<^verbatim>\<open>memcpy\<close> and \<^verbatim>\<open>memmove\<close> outside the allocated cells are \<open>UB\<close>.
  A FIFO buffer is its data members and the log of the events it has fired; the mutex is not
  modelled, each operation being one atomic step. Sizes are \<^verbatim>\<open>std::size_t\<close>: differences wrap
  (\<open>sub64\<close>).
\<close>

section \<open>Buffer\<close>

record 'a buf =
  mem :: "'a list"
  bused :: nat
  ownMem :: bool

definition buf_new :: "'a \<Rightarrow> nat \<Rightarrow> 'a buf" where
  "buf_new junk n = \<lparr>mem = replicate n junk, bused = n, ownMem = True\<rparr>"

definition buf_wrap :: "'a list \<Rightarrow> 'a buf" where
  "buf_wrap xs = \<lparr>mem = xs, bused = length xs, ownMem = False\<rparr>"

definition buf_copy :: "'a list \<Rightarrow> 'a buf" where
  "buf_copy xs = \<lparr>mem = xs, bused = length xs, ownMem = True\<rparr>"

definition buf_resize :: "'a \<Rightarrow> 'a buf \<Rightarrow> nat \<Rightarrow> bool \<Rightarrow> 'a buf outcome" where
  "buf_resize junk b newCapacity preserveContent =
     (if \<not> ownMem b then Throw InvalidAccessException
      else if newCapacity > length (mem b)
      then Ret (b\<lparr>mem := (if preserveContent
                           then take (bused b) (mem b) @ replicate (newCapacity - bused b) junk
                           else replicate newCapacity junk),
                  bused := newCapacity\<rparr>)
      else Ret (b\<lparr>bused := newCapacity\<rparr>))"

definition buf_setCapacity :: "'a \<Rightarrow> 'a buf \<Rightarrow> nat \<Rightarrow> bool \<Rightarrow> 'a buf outcome" where
  "buf_setCapacity junk b newCapacity preserveContent =
     (if \<not> ownMem b then Throw InvalidAccessException
      else if newCapacity \<noteq> length (mem b)
      then let newSz = (if bused b < newCapacity then bused b else newCapacity)
           in Ret (b\<lparr>mem := (if preserveContent
                              then take newSz (mem b) @ replicate (newCapacity - newSz) junk
                              else replicate newCapacity junk),
                     bused := (if newCapacity < bused b then newCapacity else bused b)\<rparr>)
      else Ret b)"

text \<open>\<open>mem_store\<close> is a \<^verbatim>\<open>memcpy\<close> into the block, \<open>mem_load\<close> one out of it.\<close>

definition mem_store :: "'a list \<Rightarrow> nat \<Rightarrow> 'a list \<Rightarrow> 'a list option" where
  "mem_store m off xs =
     (if off + length xs \<le> length m then Some (take off m @ xs @ drop (off + length xs) m) else None)"

definition mem_load :: "'a list \<Rightarrow> nat \<Rightarrow> nat \<Rightarrow> 'a list option" where
  "mem_load m off n = (if off + n \<le> length m then Some (take n (drop off m)) else None)"

definition buf_assign :: "'a \<Rightarrow> 'a buf \<Rightarrow> 'a list \<Rightarrow> 'a buf outcome" where
  "buf_assign junk b xs =
     (if xs = [] then Ret b
      else case (if length xs > length (mem b) then buf_resize junk b (length xs) False else Ret b) of
        Ret b1 \<Rightarrow> (case mem_store (mem b1) 0 xs of
                     Some m \<Rightarrow> Ret (b1\<lparr>mem := m, bused := length xs\<rparr>)
                   | None \<Rightarrow> UB)
      | Throw e \<Rightarrow> Throw e
      | UB \<Rightarrow> UB)"

definition buf_append :: "'a \<Rightarrow> 'a buf \<Rightarrow> 'a list \<Rightarrow> 'a buf outcome" where
  "buf_append junk b xs =
     (if xs = [] then Ret b
      else case buf_resize junk b (bused b + length xs) True of
        Ret b1 \<Rightarrow> (case mem_store (mem b1) (bused b1 - length xs) xs of
                     Some m \<Rightarrow> Ret (b1\<lparr>mem := m\<rparr>)
                   | None \<Rightarrow> UB)
      | Throw e \<Rightarrow> Throw e
      | UB \<Rightarrow> UB)"

section \<open>FIFOBuffer\<close>

datatype fifo_event = Readable bool | Writable bool

record 'a fifo =
  fbuf :: "'a buf"
  fbegin :: nat
  fused :: nat
  fnotify :: bool
  feof :: bool
  ferror :: bool
  fevents :: "fifo_event list"

definition fifo_new :: "'a \<Rightarrow> nat \<Rightarrow> bool \<Rightarrow> 'a fifo" where
  "fifo_new junk sz notify =
     \<lparr>fbuf = buf_new junk sz, fbegin = 0, fused = 0, fnotify = notify, feof = False,
      ferror = False, fevents = []\<rparr>"

definition fifo_from :: "'a list \<Rightarrow> bool \<Rightarrow> 'a fifo" where
  "fifo_from xs notify =
     \<lparr>fbuf = buf_copy xs, fbegin = 0, fused = length xs, fnotify = notify, feof = False,
      ferror = False, fevents = []\<rparr>"

definition fifo_size :: "'a fifo \<Rightarrow> nat" where
  "fifo_size f = bused (fbuf f)"

definition fifo_available :: "'a fifo \<Rightarrow> nat" where
  "fifo_available f = sub64 (fifo_size f) (fused f)"

definition isEmpty :: "'a fifo \<Rightarrow> bool" where
  "isEmpty f \<longleftrightarrow> fused f = 0"

definition isFull :: "'a fifo \<Rightarrow> bool" where
  "isFull f \<longleftrightarrow> fifo_size f = fused f"

definition isReadable :: "'a fifo \<Rightarrow> bool" where
  "isReadable f \<longleftrightarrow> \<not> isEmpty f \<and> \<not> ferror f"

definition isWritable :: "'a fifo \<Rightarrow> bool" where
  "isWritable f \<longleftrightarrow> \<not> isFull f \<and> \<not> ferror f \<and> \<not> feof f"

definition fire :: "fifo_event \<Rightarrow> 'a fifo \<Rightarrow> 'a fifo" where
  "fire e f = f\<lparr>fevents := fevents f @ [e]\<rparr>"

definition fifo_notify :: "nat \<Rightarrow> 'a fifo \<Rightarrow> 'a fifo" where
  "fifo_notify usedBefore f =
     (let f1 = (if usedBefore = 0 \<and> fused f > 0 then fire (Readable True) f
                else if usedBefore > 0 \<and> 0 = fused f then fire (Readable False) f
                else f)
      in if usedBefore = fifo_size f1 \<and> fused f1 < fifo_size f1 then fire (Writable True) f1
         else if usedBefore < fifo_size f1 \<and> fused f1 = fifo_size f1 then fire (Writable False) f1
         else f1)"

definition notify_if :: "nat \<Rightarrow> 'a fifo \<Rightarrow> 'a fifo" where
  "notify_if usedBefore f = (if fnotify f then fifo_notify usedBefore f else f)"

text \<open>\<^verbatim>\<open>begin()\<close> moves the data to the start of the buffer and returns that address (offset 0).\<close>

definition fifo_begin :: "'a fifo \<Rightarrow> 'a fifo outcome" where
  "fifo_begin f =
     (if fbegin f \<noteq> 0
      then case mem_load (mem (fbuf f)) (fbegin f) (fused f) of
             None \<Rightarrow> UB
           | Some xs \<Rightarrow>
               (case mem_store (mem (fbuf f)) 0 xs of
                  None \<Rightarrow> UB
                | Some m \<Rightarrow> Ret (f\<lparr>fbuf := (fbuf f)\<lparr>mem := m\<rparr>, fbegin := 0\<rparr>))
      else Ret f)"

definition fifo_peek :: "'a fifo \<Rightarrow> nat \<Rightarrow> 'a list outcome" where
  "fifo_peek f len =
     (if len = 0 then Ret []
      else if \<not> isReadable f then Ret []
      else let n = (if len > fused f then fused f else len)
           in case mem_load (mem (fbuf f)) (fbegin f) n of None \<Rightarrow> UB | Some xs \<Rightarrow> Ret xs)"

definition fifo_peek_buf :: "'a fifo \<Rightarrow> nat \<Rightarrow> 'a list outcome" where
  "fifo_peek_buf f len =
     (if \<not> isReadable f then Ret []
      else fifo_peek f (if len = 0 \<or> len > fused f then fused f else len))"

text \<open>Both \<^verbatim>\<open>read\<close> overloads share the bookkeeping after their \<^verbatim>\<open>peek\<close>.\<close>

definition consume :: "'a fifo \<Rightarrow> nat \<Rightarrow> 'a list \<Rightarrow> ('a fifo \<times> 'a list) outcome" where
  "consume f len xs =
     (if \<not> fused f \<ge> length xs then Throw AssertionViolationException
      else let u = fused f - length xs;
               f1 = f\<lparr>fused := u, fbegin := (if u = 0 then 0 else fbegin f + len)\<rparr>
           in Ret (notify_if (fused f) f1, xs))"

definition fifo_read :: "'a fifo \<Rightarrow> nat \<Rightarrow> ('a fifo \<times> 'a list) outcome" where
  "fifo_read f len =
     (if len = 0 then Ret (f, [])
      else if \<not> isReadable f then Ret (f, [])
      else case fifo_peek f len of Ret xs \<Rightarrow> consume f len xs | Throw e \<Rightarrow> Throw e | UB \<Rightarrow> UB)"

definition fifo_read_buf :: "'a fifo \<Rightarrow> nat \<Rightarrow> ('a fifo \<times> 'a list) outcome" where
  "fifo_read_buf f len =
     (if \<not> isReadable f then Ret (f, [])
      else case fifo_peek_buf f len of Ret xs \<Rightarrow> consume f len xs | Throw e \<Rightarrow> Throw e | UB \<Rightarrow> UB)"

definition fifo_write :: "'a fifo \<Rightarrow> 'a list \<Rightarrow> ('a fifo \<times> nat) outcome" where
  "fifo_write f xs =
     (if length xs = 0 then Ret (f, 0)
      else if \<not> isWritable f then Ret (f, 0)
      else case (if sub64 (fifo_size f) (fbegin f + fused f) < length xs then fifo_begin f else Ret f) of
        Throw e \<Rightarrow> Throw e
      | UB \<Rightarrow> UB
      | Ret f1 \<Rightarrow>
          (let available = sub64 (sub64 (fifo_size f1) (fused f1)) (fbegin f1);
               len = (if length xs > available then available else length xs)
           in case fifo_begin f1 of
                Throw e \<Rightarrow> Throw e
              | UB \<Rightarrow> UB
              | Ret f2 \<Rightarrow>
                  (case mem_store (mem (fbuf f2)) (fused f2) (take len xs) of
                     None \<Rightarrow> UB
                   | Some m \<Rightarrow>
                       (let f3 = f2\<lparr>fbuf := (fbuf f2)\<lparr>mem := m\<rparr>, fused := fused f2 + len\<rparr>
                        in if \<not> fused f3 \<le> fifo_size f3 then Throw AssertionViolationException
                           else Ret (notify_if (fused f1) f3, len)))))"

definition fifo_drain :: "'a fifo \<Rightarrow> nat \<Rightarrow> 'a fifo" where
  "fifo_drain f len =
     (let f1 = (if len = 0 \<or> len \<ge> fused f then f\<lparr>fbegin := 0, fused := 0\<rparr>
                else f\<lparr>fbegin := fbegin f + len, fused := fused f - len\<rparr>)
      in notify_if (fused f) f1)"

definition fifo_copy :: "'a fifo \<Rightarrow> 'a list \<Rightarrow> 'a fifo outcome" where
  "fifo_copy f xs =
     (if length xs = 0 then Ret f
      else if length xs > fifo_available f then Throw InvalidAccessException
      else if \<not> isWritable f then Throw InvalidAccessException
      else case fifo_begin f of
        Throw e \<Rightarrow> Throw e
      | UB \<Rightarrow> UB
      | Ret f1 \<Rightarrow>
          (case mem_store (mem (fbuf f1)) (fused f1) xs of
             None \<Rightarrow> UB
           | Some m \<Rightarrow>
               Ret (notify_if (fused f1)
                      (f1\<lparr>fbuf := (fbuf f1)\<lparr>mem := m\<rparr>, fused := fused f1 + length xs\<rparr>))))"

definition fifo_advance :: "'a fifo \<Rightarrow> nat \<Rightarrow> 'a fifo outcome" where
  "fifo_advance f len =
     (if len = 0 then Ret f
      else if len > fifo_available f then Throw InvalidAccessException
      else if \<not> isWritable f then Throw InvalidAccessException
      else case (if sub64 (fifo_size f) (fbegin f + fused f) < len then fifo_begin f else Ret f) of
        Throw e \<Rightarrow> Throw e
      | UB \<Rightarrow> UB
      | Ret f1 \<Rightarrow> Ret (notify_if (fused f1) (f1\<lparr>fused := fused f1 + len\<rparr>)))"

definition fifo_resize :: "'a \<Rightarrow> 'a fifo \<Rightarrow> nat \<Rightarrow> bool \<Rightarrow> 'a fifo outcome" where
  "fifo_resize junk f newSize preserveContent =
     (if preserveContent \<and> newSize < fused f then Throw InvalidAccessException
      else case buf_resize junk (fbuf f) newSize preserveContent of
        Throw e \<Rightarrow> Throw e
      | UB \<Rightarrow> UB
      | Ret b \<Rightarrow>
          (let f1 = f\<lparr>fbuf := b\<rparr>;
               f2 = (if \<not> preserveContent then f1\<lparr>fused := 0\<rparr> else f1)
           in Ret (notify_if (fused f) f2)))"

definition fifo_at :: "'a fifo \<Rightarrow> nat \<Rightarrow> 'a outcome" where
  "fifo_at f index =
     (if index \<ge> fused f then Throw InvalidAccessException
      else if fbegin f + index < length (mem (fbuf f))
      then Ret (mem (fbuf f) ! (fbegin f + index)) else UB)"

definition fifo_setError :: "'a fifo \<Rightarrow> bool \<Rightarrow> 'a fifo" where
  "fifo_setError f err =
     (if err
      then let f1 = (if isReadable f \<and> fnotify f then fire (Readable False) f else f);
               f2 = (if isWritable f1 \<and> fnotify f1 then fire (Writable False) f1 else f1)
           in f2\<lparr>ferror := err, fused := 0\<rparr>
      else let f1 = f\<lparr>ferror := False\<rparr>
           in if fnotify f1 \<and> \<not> feof f1 then fire (Writable True) f1 else f1)"

definition fifo_setEOF :: "'a fifo \<Rightarrow> bool \<Rightarrow> 'a fifo" where
  "fifo_setEOF f eof =
     (let f1 = (if fnotify f then fire (Writable (\<not> eof)) f else f) in f1\<lparr>feof := eof\<rparr>)"

definition isEOF :: "'a fifo \<Rightarrow> bool" where
  "isEOF f \<longleftrightarrow> isEmpty f \<and> feof f"

section \<open>Invariant and contents\<close>

definition fifo_inv :: "'a fifo \<Rightarrow> bool" where
  "fifo_inv f \<longleftrightarrow> fbegin f + fused f \<le> fifo_size f \<and> fifo_size f \<le> length (mem (fbuf f)) \<and>
     fifo_size f < SIZE_MOD"

definition contents :: "'a fifo \<Rightarrow> 'a list" where
  "contents f = take (fused f) (drop (fbegin f) (mem (fbuf f)))"

lemma length_contents: "fifo_inv f \<Longrightarrow> length (contents f) = fused f"
  by (auto simp: fifo_inv_def contents_def)

lemma notify_if_data [simp]:
  "fbuf (notify_if u f) = fbuf f" "fbegin (notify_if u f) = fbegin f"
  "fused (notify_if u f) = fused f" "fnotify (notify_if u f) = fnotify f"
  "feof (notify_if u f) = feof f" "ferror (notify_if u f) = ferror f"
  by (auto simp: notify_if_def fifo_notify_def fire_def Let_def)

lemma notify_if_abs [simp]:
  "fifo_inv (notify_if u f) = fifo_inv f" "contents (notify_if u f) = contents f"
  "fifo_size (notify_if u f) = fifo_size f"
  by (simp_all add: fifo_inv_def contents_def fifo_size_def)

text \<open>\<open>fifo_same\<close>: only the position of the data inside the memory block may differ.\<close>

definition fifo_same :: "'a fifo \<Rightarrow> 'a fifo \<Rightarrow> bool" where
  "fifo_same f f' \<longleftrightarrow> fifo_inv f' \<and> contents f' = contents f \<and> fused f' = fused f \<and>
     fifo_size f' = fifo_size f \<and> fnotify f' = fnotify f \<and> feof f' = feof f \<and>
     ferror f' = ferror f \<and> fevents f' = fevents f"

lemma fifo_same_refl: "fifo_inv f \<Longrightarrow> fifo_same f f"
  by (simp add: fifo_same_def)

lemma fifo_same_trans: "fifo_same f g \<Longrightarrow> fifo_same g h \<Longrightarrow> fifo_same f h"
  by (simp add: fifo_same_def)

lemma fifo_begin_inv:
  assumes "fifo_inv f"
  shows "\<exists>f'. fifo_begin f = Ret f' \<and> fifo_same f f' \<and> fbegin f' = 0"
  using assms
  by (auto simp: fifo_same_def fifo_begin_def fifo_inv_def mem_load_def mem_store_def contents_def
      fifo_size_def min_def)

lemma compact_if:
  assumes "fifo_inv f"
  shows "\<exists>f'. (if c then fifo_begin f else Ret f) = Ret f' \<and> fifo_same f f' \<and>
           (if c then fbegin f' = 0 else fbegin f' = fbegin f)"
  using fifo_begin_inv [OF assms] fifo_same_refl [OF assms] by (cases c) auto

text \<open>
  What every data operation does beside its effect on the contents: it keeps the invariant, the
  size and the flags, and fires exactly the events of the change from \<open>u\<close> to \<open>u'\<close> used cells.
\<close>

definition edges :: "bool \<Rightarrow> nat \<Rightarrow> nat \<Rightarrow> nat \<Rightarrow> fifo_event list" where
  "edges notify sz u u' =
     (if \<not> notify then []
      else (if u = 0 \<and> u' > 0 then [Readable True] else if u > 0 \<and> u' = 0 then [Readable False] else []) @
           (if u = sz \<and> u' < sz then [Writable True] else if u < sz \<and> u' = sz then [Writable False] else []))"

definition fifo_effect :: "'a fifo \<Rightarrow> 'a fifo \<Rightarrow> bool" where
  "fifo_effect f f' \<longleftrightarrow> fifo_inv f' \<and> fifo_size f' = fifo_size f \<and> fnotify f' = fnotify f \<and>
     feof f' = feof f \<and> ferror f' = ferror f \<and>
     fevents f' = fevents f @ edges (fnotify f) (fifo_size f) (fused f) (fused f')"

lemma fifo_effect_refl: "fifo_inv f \<Longrightarrow> fifo_effect f f"
  by (auto simp: fifo_effect_def edges_def)

lemma notify_if_events:
  "fevents (notify_if u f) = fevents f @ edges (fnotify f) (fifo_size f) u (fused f)"
  by (auto simp: notify_if_def fifo_notify_def fire_def edges_def fifo_size_def Let_def)

lemma peek_ok:
  assumes "fifo_inv f"
  shows "fifo_peek f len = Ret (if isReadable f then take len (contents f) else [])"
  using assms
  by (auto simp: fifo_peek_def mem_load_def fifo_inv_def contents_def Let_def min_def)

lemma consume_ok:
  assumes "fifo_inv f" "n \<le> fused f" "len = n \<or> n = fused f"
  shows "\<exists>f'. consume f len (take n (contents f)) = Ret (f', take n (contents f)) \<and>
           contents f' = drop n (contents f) \<and> fifo_effect f f'"
proof -
  have l: "length (take n (contents f)) = n" using assms by (simp add: length_contents)
  define f1 where "f1 = f\<lparr>fused := fused f - n, fbegin := (if fused f - n = 0 then 0 else fbegin f + len)\<rparr>"
  have "fifo_inv f1 \<and> contents f1 = drop n (contents f) \<and> fifo_size f1 = fifo_size f"
    using assms by (auto simp: f1_def fifo_inv_def contents_def fifo_size_def drop_take add.commute)
  moreover have "consume f len (take n (contents f)) = Ret (notify_if (fused f) f1, take n (contents f))"
    using l assms(2) by (simp add: consume_def f1_def Let_def)
  moreover have "feof f1 = feof f" "ferror f1 = ferror f" "fnotify f1 = fnotify f" "fevents f1 = fevents f"
    by (simp_all add: f1_def)
  ultimately show ?thesis by (auto simp: fifo_effect_def notify_if_events)
qed

lemma read_ok:
  assumes "fifo_inv f"
  shows "\<exists>f'. fifo_read f len = Ret (f', if isReadable f then take len (contents f) else []) \<and>
           contents f' = (if isReadable f then drop len (contents f) else contents f) \<and> fifo_effect f f'"
proof (cases "len = 0 \<or> \<not> isReadable f")
  case True
  then show ?thesis using assms by (auto simp: fifo_read_def fifo_effect_refl)
next
  case False
  define n where "n = min len (fused f)"
  have t: "take len (contents f) = take n (contents f)" "drop len (contents f) = drop n (contents f)"
    using length_contents [OF assms] by (auto simp: n_def min_def)
  have "n \<le> fused f" "len = n \<or> n = fused f" by (auto simp: n_def)
  from consume_ok [OF assms this] False show ?thesis
    by (auto simp: fifo_read_def peek_ok [OF assms] t)
qed

lemma store_at_end:
  assumes "fifo_inv f" "fbegin f = 0" "fused f + length ys \<le> fifo_size f"
  shows "\<exists>m. mem_store (mem (fbuf f)) (fused f) ys = Some m \<and>
           (let f' = f\<lparr>fbuf := (fbuf f)\<lparr>mem := m\<rparr>, fused := fused f + length ys\<rparr>
            in fifo_inv f' \<and> contents f' = contents f @ ys \<and> fifo_size f' = fifo_size f)"
  using assms
  by (cases ys) (auto simp: mem_store_def fifo_inv_def contents_def fifo_size_def Let_def min_def)

lemma write_ok:
  fixes f :: "'a fifo" and xs :: "'a list"
  assumes inv: "fifo_inv f"
  defines "n \<equiv> (if isWritable f then min (length xs) (fifo_size f - fused f) else 0)"
  shows "\<exists>f'. fifo_write f xs = Ret (f', n) \<and> contents f' = contents f @ take n xs \<and> fifo_effect f f'"
proof (cases "xs = [] \<or> \<not> isWritable f")
  case True
  then show ?thesis using inv by (auto simp: fifo_write_def n_def fifo_effect_refl)
next
  case False
  have bounds: "fbegin f + fused f \<le> fifo_size f" "fifo_size f < SIZE_MOD"
    using inv by (simp_all add: fifo_inv_def)
  obtain f1 where pre: "(if sub64 (fifo_size f) (fbegin f + fused f) < length xs then fifo_begin f else Ret f) = Ret f1"
    and same: "fifo_same f f1"
    and b1: "if sub64 (fifo_size f) (fbegin f + fused f) < length xs then fbegin f1 = 0 else fbegin f1 = fbegin f"
    using compact_if [OF inv] by blast
  then have f1: "fifo_inv f1" "fused f1 = fused f" "fifo_size f1 = fifo_size f"
    by (simp_all add: fifo_same_def)
  have room: "length xs \<le> fifo_size f - (fbegin f1 + fused f) \<or> fbegin f1 = 0"
    using b1 bounds by (auto simp: sub64_le split: if_splits)
  obtain f2 where f2: "fifo_begin f1 = Ret f2" "fbegin f2 = 0" "fifo_same f f2"
    using fifo_begin_inv [OF f1(1)] fifo_same_trans [OF same] by blast
  then have f2s: "fifo_inv f2" "contents f2 = contents f" "fused f2 = fused f" "fifo_size f2 = fifo_size f"
    "feof f2 = feof f" "ferror f2 = ferror f" "fnotify f2 = fnotify f" "fevents f2 = fevents f"
    by (simp_all add: fifo_same_def)
  have "fbegin f1 + fused f1 \<le> fifo_size f1" using f1(1) by (simp add: fifo_inv_def)
  then have "sub64 (sub64 (fifo_size f1) (fused f1)) (fbegin f1) = fifo_size f - fused f - fbegin f1"
    using bounds(2) f1(2,3) by (simp add: sub64_le)
  then have len: "(if length xs > sub64 (sub64 (fifo_size f1) (fused f1)) (fbegin f1)
              then sub64 (sub64 (fifo_size f1) (fused f1)) (fbegin f1) else length xs) = n"
    using room False by (auto simp: n_def)
  have nl: "length (take n xs) = n" "fused f2 + length (take n xs) \<le> fifo_size f2"
    using False bounds f2s(3,4) by (auto simp: n_def)
  obtain m where m: "mem_store (mem (fbuf f2)) (fused f2) (take n xs) = Some m"
    and f3: "fifo_inv (f2\<lparr>fbuf := (fbuf f2)\<lparr>mem := m\<rparr>, fused := fused f2 + n\<rparr>)"
      "contents (f2\<lparr>fbuf := (fbuf f2)\<lparr>mem := m\<rparr>, fused := fused f2 + n\<rparr>) = contents f @ take n xs"
      "fifo_size (f2\<lparr>fbuf := (fbuf f2)\<lparr>mem := m\<rparr>, fused := fused f2 + n\<rparr>) = fifo_size f"
    using store_at_end [OF f2s(1) f2(2) nl(2)] nl(1) f2s(2,4) by (auto simp: Let_def)
  have "fifo_write f xs = Ret (notify_if (fused f1)
          (f2\<lparr>fbuf := (fbuf f2)\<lparr>mem := m\<rparr>, fused := fused f2 + n\<rparr>), n)"
    using False pre f2(1) m nl(2) f3(3) len nl(1) f2s(4) by (simp add: fifo_write_def Let_def)
  with f3 f2s f1(2) show ?thesis by (auto simp: fifo_effect_def notify_if_events)
qed


lemma peek_buf_ok:
  assumes "fifo_inv f"
  shows "fifo_peek_buf f len =
           Ret (if isReadable f then if len = 0 then contents f else take len (contents f) else [])"
  using length_contents [OF assms] peek_ok [OF assms]
  by (auto simp: fifo_peek_buf_def)

lemma read_buf_ok:
  fixes f :: "'a fifo" and len :: nat
  assumes "fifo_inv f"
  defines "n \<equiv> (if len = 0 then fused f else len)"
  shows "\<exists>f'. fifo_read_buf f len = Ret (f', if isReadable f then take n (contents f) else []) \<and>
           contents f' = (if isReadable f then drop n (contents f) else contents f) \<and> fifo_effect f f'"
proof (cases "isReadable f")
  case False
  then show ?thesis using assms by (auto simp: fifo_read_buf_def fifo_effect_refl)
next
  case True
  define k where "k = min n (fused f)"
  have t: "take n (contents f) = take k (contents f)" "drop n (contents f) = drop k (contents f)"
    using length_contents [OF assms(1)] by (auto simp: k_def min_def)
  have "k \<le> fused f" "len = k \<or> k = fused f" by (auto simp: k_def n_def)
  from consume_ok [OF assms(1) this] True length_contents [OF assms(1)] show ?thesis
    by (auto simp: fifo_read_buf_def peek_buf_ok [OF assms(1)] t [symmetric] n_def)
qed

lemma drain_ok:
  fixes f :: "'a fifo" and len :: nat
  assumes "fifo_inv f"
  defines "n \<equiv> (if len = 0 then fused f else len)"
  shows "contents (fifo_drain f len) = drop n (contents f) \<and> fifo_effect f (fifo_drain f len)"
  using assms length_contents [OF assms(1)]
  by (auto simp: fifo_drain_def Let_def fifo_effect_def notify_if_events n_def)
     (auto simp: fifo_inv_def contents_def fifo_size_def drop_take add.commute)

lemma copy_ok:
  assumes "fifo_inv f" "xs \<noteq> []" "length xs \<le> fifo_size f - fused f" "isWritable f"
  shows "\<exists>f'. fifo_copy f xs = Ret f' \<and> contents f' = contents f @ xs \<and> fifo_effect f f'"
proof -
  have bounds: "fused f \<le> fifo_size f" "fifo_size f < SIZE_MOD"
    using assms(1) by (simp_all add: fifo_inv_def)
  then have av: "fifo_available f = fifo_size f - fused f" by (simp add: fifo_available_def sub64_le)
  obtain f1 where f1: "fifo_begin f = Ret f1" "fifo_same f f1" "fbegin f1 = 0"
    using fifo_begin_inv [OF assms(1)] by blast
  then have f1s: "fifo_inv f1" "fused f1 + length xs \<le> fifo_size f1" "fused f1 = fused f"
    using assms(3) bounds by (auto simp: fifo_same_def)
  obtain m where m: "mem_store (mem (fbuf f1)) (fused f1) xs = Some m"
    and f3: "fifo_inv (f1\<lparr>fbuf := (fbuf f1)\<lparr>mem := m\<rparr>, fused := fused f1 + length xs\<rparr>)"
      "contents (f1\<lparr>fbuf := (fbuf f1)\<lparr>mem := m\<rparr>, fused := fused f1 + length xs\<rparr>) = contents f1 @ xs"
      "fifo_size (f1\<lparr>fbuf := (fbuf f1)\<lparr>mem := m\<rparr>, fused := fused f1 + length xs\<rparr>) = fifo_size f1"
    using store_at_end [OF f1s(1) f1(3) f1s(2)] by (auto simp: Let_def)
  then show ?thesis
    using assms(2-4) f1 f1s av
    by (auto simp: fifo_copy_def fifo_effect_def notify_if_events fifo_same_def)
qed

lemma copy_Ret: "fifo_inv f \<Longrightarrow> fifo_copy f xs = Ret f' \<Longrightarrow> fifo_effect f f'"
proof (cases "xs = []")
  case False
  assume inv: "fifo_inv f" and ret: "fifo_copy f xs = Ret f'"
  then have "length xs \<le> fifo_available f" "isWritable f"
    using False by (auto simp: fifo_copy_def split: if_splits)
  moreover have "fifo_available f = fifo_size f - fused f"
    using inv by (simp add: fifo_available_def fifo_inv_def sub64_le)
  ultimately show ?thesis using copy_ok [OF inv False] ret by auto
qed (auto simp: fifo_copy_def fifo_effect_refl)

lemma advance_ok:
  assumes inv: "fifo_inv f" and w: "isWritable f" and len: "0 < len" "len \<le> fifo_size f - fused f"
  shows "\<exists>f'. fifo_advance f len = Ret f' \<and> take (fused f) (contents f') = contents f \<and>
           fused f' = fused f + len \<and> fifo_effect f f'"
proof -
  have bounds: "fbegin f + fused f \<le> fifo_size f" "fifo_size f < SIZE_MOD"
    using inv by (simp_all add: fifo_inv_def)
  then have av: "fifo_available f = fifo_size f - fused f" by (simp add: fifo_available_def sub64_le)
  obtain f1 where pre: "(if sub64 (fifo_size f) (fbegin f + fused f) < len then fifo_begin f else Ret f) = Ret f1"
    and same: "fifo_same f f1"
    and b1: "if sub64 (fifo_size f) (fbegin f + fused f) < len then fbegin f1 = 0 else fbegin f1 = fbegin f"
    using compact_if [OF inv] by blast
  have room: "fbegin f1 + (fused f1 + len) \<le> fifo_size f1"
    using b1 bounds len same by (auto simp: sub64_le fifo_same_def split: if_splits)
  define f2 where "f2 = f1\<lparr>fused := fused f1 + len\<rparr>"
  have f2: "fifo_inv f2" "take (fused f) (contents f2) = contents f" "fifo_size f2 = fifo_size f"
    using room same by (auto simp: f2_def fifo_inv_def fifo_same_def contents_def fifo_size_def min_def)
  moreover have "fifo_advance f len = Ret (notify_if (fused f1) f2)"
    using pre len w av by (simp add: fifo_advance_def f2_def)
  ultimately show ?thesis
    using same by (auto simp: fifo_effect_def notify_if_events) (auto simp: f2_def fifo_same_def)
qed

lemma buf_resize_keeps:
  assumes "ownMem b" "bused b \<le> length (mem b)"
  shows "\<exists>b'. buf_resize junk b n True = Ret b' \<and> bused b' = n \<and> n \<le> length (mem b') \<and>
           take (bused b) (mem b') = take (bused b) (mem b)"
  using assms by (cases "n > length (mem b)") (auto simp: buf_resize_def)

lemma resize_ok:
  assumes "fifo_inv f" "ownMem (fbuf f)" "fbegin f + fused f \<le> newSize" "newSize < SIZE_MOD"
  shows "\<exists>f'. fifo_resize junk f newSize True = Ret f' \<and> fifo_inv f' \<and> contents f' = contents f \<and>
           fifo_size f' = newSize"
proof -
  obtain b where b: "buf_resize junk (fbuf f) newSize True = Ret b" "bused b = newSize"
    "newSize \<le> length (mem b)" "take (fifo_size f) (mem b) = take (fifo_size f) (mem (fbuf f))"
    using buf_resize_keeps [of "fbuf f" junk newSize] assms(1,2) by (auto simp: fifo_inv_def fifo_size_def)
  have "take (fused f) (drop (fbegin f) (mem b)) = take (fused f) (drop (fbegin f) (take (fifo_size f) (mem b)))"
    using assms(1) by (auto simp: fifo_inv_def drop_take min_def)
  also have "\<dots> = contents f"
    using assms(1) by (auto simp: b(4) fifo_inv_def drop_take contents_def min_def)
  finally show ?thesis
    using assms b by (auto simp: fifo_resize_def Let_def fifo_inv_def contents_def fifo_size_def)
qed

section \<open>The channel interface\<close>

text \<open>
  What a user of the buffer relies on: neither operation fails, \<open>put\<close> appends an accepted
  prefix to the contents and \<open>get\<close> removes what it returns from their front.
\<close>

datatype 'a chan_op = Put "'a list" | Get nat

fun chan_run :: "('s \<Rightarrow> 'a list \<Rightarrow> ('s \<times> nat) outcome) \<Rightarrow> ('s \<Rightarrow> nat \<Rightarrow> ('s \<times> 'a list) outcome) \<Rightarrow>
  's \<Rightarrow> 'a chan_op list \<Rightarrow> ('s \<times> 'a list \<times> 'a list) outcome" where
  "chan_run put get s [] = Ret (s, [], [])"
| "chan_run put get s (Put xs # ops) =
     (case put s xs of
        Ret (s1, n) \<Rightarrow> (case chan_run put get s1 ops of
            Ret (s2, acc, del) \<Rightarrow> Ret (s2, take n xs @ acc, del) | Throw e \<Rightarrow> Throw e | UB \<Rightarrow> UB)
      | Throw e \<Rightarrow> Throw e | UB \<Rightarrow> UB)"
| "chan_run put get s (Get k # ops) =
     (case get s k of
        Ret (s1, ys) \<Rightarrow> (case chan_run put get s1 ops of
            Ret (s2, acc, del) \<Rightarrow> Ret (s2, acc, ys @ del) | Throw e \<Rightarrow> Throw e | UB \<Rightarrow> UB)
      | Throw e \<Rightarrow> Throw e | UB \<Rightarrow> UB)"

locale channel =
  fixes invar :: "'s \<Rightarrow> bool"
    and content :: "'s \<Rightarrow> 'a list"
    and put :: "'s \<Rightarrow> 'a list \<Rightarrow> ('s \<times> nat) outcome"
    and get :: "'s \<Rightarrow> nat \<Rightarrow> ('s \<times> 'a list) outcome"
  assumes put_ok: "invar s \<Longrightarrow> \<exists>s' n. put s xs = Ret (s', n) \<and> invar s' \<and> content s' = content s @ take n xs"
    and get_ok: "invar s \<Longrightarrow> \<exists>s' ys. get s k = Ret (s', ys) \<and> invar s' \<and> content s = ys @ content s'"
begin

lemma run_fifo:
  "invar s \<Longrightarrow> \<exists>s' acc del. chan_run put get s ops = Ret (s', acc, del) \<and> invar s' \<and>
     content s @ acc = del @ content s'"
proof (induction ops arbitrary: s)
  case Nil
  then show ?case by simp
next
  case (Cons x ops)
  show ?case
  proof (cases x)
    case (Put xs)
    from put_ok [OF Cons.prems] obtain s1 n
      where s1: "put s xs = Ret (s1, n)" "invar s1" "content s1 = content s @ take n xs" by blast
    from Cons.IH [OF s1(2)] obtain s' acc del where "chan_run put get s1 ops = Ret (s', acc, del)"
      "invar s'" "content s1 @ acc = del @ content s'" by blast
    with s1 Put show ?thesis by simp
  next
    case (Get k)
    from get_ok [OF Cons.prems] obtain s1 ys
      where s1: "get s k = Ret (s1, ys)" "invar s1" "content s = ys @ content s1" by blast
    from Cons.IH [OF s1(2)] obtain s' acc del where "chan_run put get s1 ops = Ret (s', acc, del)"
      "invar s'" "content s1 @ acc = del @ content s'" by blast
    with s1 Get show ?thesis by simp
  qed
qed

end

interpretation fifo: channel fifo_inv contents fifo_write fifo_read
proof
  fix s :: "'a fifo" and xs k
  assume inv: "fifo_inv s"
  show "\<exists>s' n. fifo_write s xs = Ret (s', n) \<and> fifo_inv s' \<and> contents s' = contents s @ take n xs"
    using write_ok [OF inv, of xs] by (auto simp: fifo_effect_def)
  show "\<exists>s' ys. fifo_read s k = Ret (s', ys) \<and> fifo_inv s' \<and> contents s = ys @ contents s'"
    using read_ok [OF inv, of k] by (auto simp: fifo_effect_def)
qed

section \<open>Reachable states and their notifications\<close>

inductive fifo_step :: "'a fifo \<Rightarrow> 'a fifo \<Rightarrow> bool" where
  st_write: "fifo_write f xs = Ret (f', n) \<Longrightarrow> fifo_step f f'"
| st_read: "fifo_read f len = Ret (f', xs) \<Longrightarrow> fifo_step f f'"
| st_read_buf: "fifo_read_buf f len = Ret (f', xs) \<Longrightarrow> fifo_step f f'"
| st_drain: "fifo_step f (fifo_drain f len)"
| st_copy: "fifo_copy f xs = Ret f' \<Longrightarrow> fifo_step f f'"

inductive fifo_reachable :: "'a \<Rightarrow> nat \<Rightarrow> 'a fifo \<Rightarrow> bool" for junk sz where
  start: "fifo_reachable junk sz (fifo_new junk sz True)"
| step: "fifo_reachable junk sz f \<Longrightarrow> fifo_step f f' \<Longrightarrow> fifo_reachable junk sz f'"

lemma fifo_step_effect: "fifo_step f f' \<Longrightarrow> fifo_inv f \<Longrightarrow> fifo_effect f f'"
proof (induction rule: fifo_step.induct)
  case (st_write f xs f' n)
  then show ?case using write_ok [of f xs] by auto
next
  case (st_read f len f' xs)
  then show ?case using read_ok [of f len] by auto
next
  case (st_read_buf f len f' xs)
  then show ?case using read_buf_ok [of f len] by auto
next
  case (st_drain f len)
  then show ?case using drain_ok by blast
next
  case (st_copy f xs f')
  then show ?case using copy_Ret by blast
qed

fun alternates :: "bool \<Rightarrow> bool list \<Rightarrow> bool" where
  "alternates l [] = True"
| "alternates l (b # bs) = (b \<noteq> l \<and> alternates b bs)"

fun readables :: "fifo_event list \<Rightarrow> bool list" where
  "readables [] = []"
| "readables (Readable b # es) = b # readables es"
| "readables (Writable b # es) = readables es"

fun writables :: "fifo_event list \<Rightarrow> bool list" where
  "writables [] = []"
| "writables (Writable b # es) = b # writables es"
| "writables (Readable b # es) = writables es"

definition level_log :: "bool \<Rightarrow> bool list \<Rightarrow> bool \<Rightarrow> bool" where
  "level_log l0 bs l \<longleftrightarrow> alternates l0 bs \<and> last (l0 # bs) = l"

lemma readables_append [simp]: "readables (xs @ ys) = readables xs @ readables ys"
  by (induction xs rule: readables.induct) auto

lemma writables_append [simp]: "writables (xs @ ys) = writables xs @ writables ys"
  by (induction xs rule: writables.induct) auto

lemma level_log_append: "level_log l0 (bs @ [b]) l \<longleftrightarrow> level_log l0 bs (\<not> b) \<and> l = b"
  by (induction bs arbitrary: l0) (auto simp: level_log_def)

definition events_ok :: "'a fifo \<Rightarrow> bool" where
  "events_ok f \<longleftrightarrow> fifo_inv f \<and> fnotify f \<and> 0 < fifo_size f \<and>
     level_log False (readables (fevents f)) (0 < fused f) \<and>
     level_log True (writables (fevents f)) (fused f < fifo_size f)"

lemma fused_le: "fifo_inv f \<Longrightarrow> fused f \<le> fifo_size f"
  by (simp add: fifo_inv_def)

lemma events_ok_effect:
  assumes "events_ok f" "fifo_effect f f'"
  shows "events_ok f'"
  using assms fused_le [of f] fused_le [of f']
  by (auto simp: events_ok_def fifo_effect_def edges_def level_log_append)

lemma reachable_events:
  assumes "fifo_reachable junk sz f" "0 < sz" "sz < SIZE_MOD"
  shows "events_ok f \<and> fifo_size f = sz"
  using assms
proof (induction rule: fifo_reachable.induct)
  case start
  then show ?case
    by (simp add: events_ok_def fifo_inv_def fifo_new_def fifo_size_def buf_new_def level_log_def)
next
  case (step f f')
  then have "fifo_effect f f'" using fifo_step_effect by (auto simp: events_ok_def)
  with step show ?case using events_ok_effect by (auto simp: fifo_effect_def)
qed

section \<open>Properties\<close>

lemma fifo_new_inv: "sz < SIZE_MOD \<Longrightarrow> fifo_inv (fifo_new junk sz notify)"
  by (simp add: fifo_inv_def fifo_new_def fifo_size_def buf_new_def)

lemma fifo_new_contents: "contents (fifo_new junk sz notify) = []"
  by (simp add: contents_def fifo_new_def)

lemma new4_inv: "fifo_inv (fifo_new (0::nat) 4 True)"
  by (rule fifo_new_inv) (simp add: SIZE_MOD_def)

lemmas fifo_eval = fifo_write_def fifo_read_def fifo_peek_def fifo_resize_def fifo_begin_def consume_def
  buf_resize_def mem_store_def mem_load_def isWritable_def isReadable_def isFull_def isEmpty_def
  notify_if_def fifo_size_def sub64_def SIZE_MOD_def fifo_new_def buf_new_def

text \<open>
  Writing appends to the contents exactly the prefix that fits (nothing when the buffer is
  full, at end-of-file or in error), never touches memory outside the buffer, keeps the invariant,
  and fires exactly the readable and writable transitions.
\<close>

theorem fifo_write_correct:
  assumes "fifo_inv f"
  shows "\<exists>f' n. fifo_write f xs = Ret (f', n) \<and>
           n = (if isWritable f then min (length xs) (fifo_size f - fused f) else 0) \<and>
           contents f' = contents f @ take n xs \<and> fifo_effect f f'"
  using write_ok [OF assms, of xs] by blast

theorem fifo_write_correct_witness:
  "fifo_inv (fifo_new (0::nat) 4 True) \<and>
   (\<exists>f'. fifo_write (fifo_new 0 4 True) [1, 2, 3, 4, 5::nat] = Ret (f', 4) \<and> contents f' = [1, 2, 3, 4])"
  using fifo_write_correct [OF new4_inv, of "[1, 2, 3, 4, 5]"] new4_inv
  by (auto simp: isWritable_def isFull_def fifo_size_def fifo_new_def buf_new_def contents_def)

text \<open>
  Reading returns the oldest \<open>len\<close> elements (all of them when fewer are stored, none in the
  error state), removes exactly those, keeps the invariant and fires exactly the transitions; peeking
  returns the same elements and changes nothing.
\<close>

theorem fifo_read_correct:
  assumes "fifo_inv f"
  shows "\<exists>f' ys. fifo_read f len = Ret (f', ys) \<and> fifo_peek f len = Ret ys \<and>
           ys = (if isReadable f then take len (contents f) else []) \<and>
           contents f = ys @ contents f' \<and> fifo_effect f f'"
proof -
  obtain f' where f': "fifo_read f len = Ret (f', if isReadable f then take len (contents f) else [])"
    "contents f' = (if isReadable f then drop len (contents f) else contents f)" "fifo_effect f f'"
    using read_ok [OF assms] by blast
  then have "contents f = (if isReadable f then take len (contents f) else []) @ contents f'" by simp
  with f' peek_ok [OF assms, of len] show ?thesis by blast
qed

theorem fifo_read_correct_witness:
  "fifo_inv (fifo_new (0::nat) 4 True) \<and>
   (\<exists>f'. fifo_read (fifo_new (0::nat) 4 True) 3 = Ret (f', []))"
  using fifo_read_correct [OF new4_inv, of 3] new4_inv
  by (auto simp: isReadable_def isEmpty_def fifo_new_def)

text \<open>
  C2. First in, first out over any sequence of writes and reads: no operation fails, and what was
  stored before followed by everything accepted equals everything delivered followed by what is
  still stored.
\<close>

theorem fifo_order:
  assumes "fifo_inv f"
  shows "\<exists>f' acc del. chan_run fifo_write fifo_read f ops = Ret (f', acc, del) \<and> fifo_inv f' \<and>
           contents f @ acc = del @ contents f'"
  using assms by (rule fifo.run_fifo)

theorem fifo_order_witness:
  "fifo_inv (fifo_new (0::nat) 4 True) \<and>
   (\<exists>f' acc del. chan_run fifo_write fifo_read (fifo_new (0::nat) 4 True) [Put [1, 2], Get 1, Put [3]]
       = Ret (f', acc, del) \<and> acc = del @ contents f')"
  using fifo_order [OF new4_inv, of "[Put [1, 2], Get 1, Put [3]]"] new4_inv
  by (metis append_Nil fifo_new_contents)

text \<open>
  C21. Notifications of a buffer created with notification enabled: after any sequence of writes,
  reads, drains and copies, the readable events alternate true, false, ... and the last one tells
  whether the buffer holds data; the writable events alternate false, true, ... and the last one
  tells whether it has room.
\<close>

theorem fifo_notifications:
  assumes "fifo_reachable junk sz f" "0 < sz" "sz < SIZE_MOD"
  shows "alternates False (readables (fevents f)) \<and>
         last (False # readables (fevents f)) = (\<not> isEmpty f) \<and>
         alternates True (writables (fevents f)) \<and>
         last (True # writables (fevents f)) = (\<not> isFull f)"
  using reachable_events [OF assms] fused_le [of f]
  by (auto simp: events_ok_def level_log_def isEmpty_def isFull_def)

theorem fifo_notifications_witness:
  "fifo_reachable (0::nat) 4 (fifo_drain (fifo_new 0 4 True) 0) \<and> (0::nat) < 4 \<and> 4 < SIZE_MOD \<and>
   alternates False (readables (fevents (fifo_drain (fifo_new (0::nat) 4 True) 0)))"
proof -
  have r: "fifo_reachable (0::nat) 4 (fifo_drain (fifo_new 0 4 True) 0)"
    by (rule fifo_reachable.step [OF fifo_reachable.start fifo_step.st_drain])
  have s: "4 < SIZE_MOD" by (simp add: SIZE_MOD_def)
  show ?thesis using fifo_notifications [OF r _ s] r s by simp
qed

text \<open>
  \<^verbatim>\<open>drain\<close> drops the given number of oldest elements (all of them for 0), and
  \<^verbatim>\<open>copy\<close> appends its whole argument or throws \<^verbatim>\<open>InvalidAccessException\<close> when it does not fit
  or the buffer is not writable.
\<close>

theorem fifo_drain_copy_correct:
  assumes "fifo_inv f"
  shows "contents (fifo_drain f len) = (if len = 0 then [] else drop len (contents f)) \<and>
         fifo_effect f (fifo_drain f len) \<and>
         (if xs = [] then fifo_copy f xs = Ret f
          else if length xs \<le> fifo_size f - fused f \<and> isWritable f
          then \<exists>f'. fifo_copy f xs = Ret f' \<and> contents f' = contents f @ xs \<and> fifo_effect f f'
          else fifo_copy f xs = Throw InvalidAccessException)"
proof -
  have av: "fifo_available f = fifo_size f - fused f"
    using assms by (simp add: fifo_available_def fifo_inv_def sub64_le)
  have "fifo_copy f xs = Throw InvalidAccessException"
    if "xs \<noteq> []" "\<not> (length xs \<le> fifo_size f - fused f \<and> isWritable f)"
    using that av by (auto simp: fifo_copy_def)
  moreover have "drop (fused f) (contents f) = []" using length_contents [OF assms] by simp
  ultimately show ?thesis
    using drain_ok [OF assms, of len] copy_ok [OF assms, of xs] by (auto simp: fifo_copy_def)
qed

theorem fifo_drain_copy_correct_witness:
  "fifo_inv (fifo_new (0::nat) 4 True) \<and>
   fifo_copy (fifo_new (0::nat) 4 True) [1, 2, 3, 4, 5] = Throw InvalidAccessException"
  using fifo_drain_copy_correct [OF new4_inv, of 0 "[1, 2, 3, 4, 5]"] new4_inv
  by (simp add: fifo_size_def fifo_new_def buf_new_def)

text \<open>
  Resizing with \<^verbatim>\<open>preserveContent\<close> keeps the contents and the invariant when the data,
  where it lies in the buffer, fits the new size.
\<close>

theorem fifo_resize_correct:
  assumes "fifo_inv f" "ownMem (fbuf f)" "fbegin f + fused f \<le> newSize" "newSize < SIZE_MOD"
  shows "\<exists>f'. fifo_resize junk f newSize True = Ret f' \<and> fifo_inv f' \<and> contents f' = contents f \<and>
           fifo_size f' = newSize"
  using resize_ok [OF assms] by blast

theorem fifo_resize_correct_witness:
  "fifo_inv (fifo_new (0::nat) 4 True) \<and>
   (\<exists>f'. fifo_resize 0 (fifo_new (0::nat) 4 True) 9 True = Ret f' \<and> fifo_size f' = 9)"
proof -
  have "ownMem (fbuf (fifo_new (0::nat) 4 True))"
    "fbegin (fifo_new (0::nat) 4 True) + fused (fifo_new (0::nat) 4 True) \<le> 9" "9 < SIZE_MOD"
    by (simp_all add: fifo_new_def buf_new_def SIZE_MOD_def)
  from fifo_resize_correct [OF new4_inv this] new4_inv show ?thesis by blast
qed

text \<open>
  Resizing does not move the data to the front, and accepts any size that is at least the used
  length: after writing 10 elements into a buffer of 10, reading 8 and resizing to 4 (which
  succeeds), the data begin lies beyond the buffer's size, the free-space computation wraps, and
  writing 20 elements stores past the end of the allocated block.
\<close>

theorem fifo_resize_overflow:
  "\<exists>f1 f2 f3. fifo_write (fifo_new (0::nat) 10 False) [1, 2, 3, 4, 5, 6, 7, 8, 9, 10] = Ret (f1, 10) \<and>
     fifo_read f1 8 = Ret (f2, [1, 2, 3, 4, 5, 6, 7, 8]) \<and>
     fifo_resize 0 f2 4 True = Ret f3 \<and> \<not> fifo_inv f3 \<and>
     fifo_write f3 (replicate 20 0) = UB"
proof -
  define b where "b = \<lparr>mem = [1, 2, 3, 4, 5, 6, 7, 8, 9, 10::nat], bused = 10, ownMem = True\<rparr>"
  define f1 where "f1 = \<lparr>fbuf = b, fbegin = 0, fused = 10, fnotify = False, feof = False,
      ferror = False, fevents = []\<rparr>"
  define f2 where "f2 = f1\<lparr>fused := 2, fbegin := 8\<rparr>"
  define f3 where "f3 = f2\<lparr>fbuf := b\<lparr>bused := 4\<rparr>\<rparr>"
  have "fifo_write (fifo_new 0 10 False) [1, 2, 3, 4, 5, 6, 7, 8, 9, 10] = Ret (f1, 10)"
    by (simp add: f1_def b_def fifo_eval)
  moreover have "fifo_read f1 8 = Ret (f2, [1, 2, 3, 4, 5, 6, 7, 8])"
    by (simp add: f2_def f1_def b_def fifo_eval)
  moreover have "fifo_resize 0 f2 4 True = Ret f3"
    by (simp add: f3_def f2_def f1_def b_def fifo_eval)
  moreover have "\<not> fifo_inv f3" by (simp add: fifo_inv_def f3_def f2_def fifo_size_def)
  moreover have "fifo_write f3 (replicate 20 0) = UB"
    by (simp add: f3_def f2_def f1_def b_def fifo_eval)
  ultimately show ?thesis by blast
qed

text \<open>
  Flags: in the error state the buffer is empty and neither readable nor writable, and no read
  or write moves data; after end-of-file writes store nothing while the stored data can still be
  read, and \<^verbatim>\<open>isEOF\<close> holds once it is gone; clearing a flag restores writing. Indexing below
  the used length returns that element, above it throws.
\<close>

theorem fifo_flags_correct:
  assumes "fifo_inv f"
  shows "fifo_inv (fifo_setError f True) \<and> contents (fifo_setError f True) = [] \<and>
         \<not> isReadable (fifo_setError f True) \<and> \<not> isWritable (fifo_setError f True) \<and>
         (isWritable (fifo_setError f False) \<longleftrightarrow> \<not> isFull f \<and> \<not> feof f) \<and>
         fifo_inv (fifo_setEOF f e) \<and> contents (fifo_setEOF f e) = contents f \<and>
         \<not> isWritable (fifo_setEOF f True) \<and> (isReadable (fifo_setEOF f e) \<longleftrightarrow> isReadable f) \<and>
         (isEOF (fifo_setEOF f True) \<longleftrightarrow> contents f = []) \<and>
         fifo_at f i = (if i < length (contents f) then Ret (contents f ! i) else Throw InvalidAccessException)"
proof -
  have "contents f = [] \<longleftrightarrow> fused f = 0" using length_contents [OF assms] by auto
  moreover have "fifo_at f i = (if i < length (contents f) then Ret (contents f ! i) else Throw InvalidAccessException)"
    using assms length_contents [OF assms] by (auto simp: fifo_at_def fifo_inv_def contents_def)
  ultimately show ?thesis
    using assms
    by (auto simp: fifo_setError_def fifo_setEOF_def isReadable_def isWritable_def isEmpty_def isFull_def
        isEOF_def fire_def fifo_inv_def contents_def fifo_size_def Let_def)
qed

theorem fifo_flags_correct_witness:
  "fifo_inv (fifo_new (0::nat) 4 True) \<and> \<not> isWritable (fifo_setEOF (fifo_new (0::nat) 4 True) True)"
  using fifo_flags_correct [OF new4_inv, of True 0] new4_inv by blast

definition buf_data :: "'a buf \<Rightarrow> 'a list" where
  "buf_data b = take (bused b) (mem b)"

text \<open>
  \<^verbatim>\<open>Buffer\<close>: appending extends the data, assigning replaces it (growing the block when
  needed), shrinking the capacity truncates it and growing keeps it; a buffer that does not own its
  memory cannot be reallocated and throws \<^verbatim>\<open>InvalidAccessException\<close>. The size never exceeds
  the capacity.
\<close>

theorem buffer_correct:
  assumes "bused b \<le> length (mem b)" "xs \<noteq> []"
  shows "(if ownMem b
          then \<exists>b'. buf_append junk b xs = Ret b' \<and> buf_data b' = buf_data b @ xs \<and> bused b' \<le> length (mem b')
          else buf_append junk b xs = Throw InvalidAccessException) \<and>
         (if ownMem b \<or> length xs \<le> length (mem b)
          then \<exists>b'. buf_assign junk b xs = Ret b' \<and> buf_data b' = xs \<and> bused b' \<le> length (mem b')
          else buf_assign junk b xs = Throw InvalidAccessException) \<and>
         (if ownMem b
          then \<exists>b'. buf_setCapacity junk b n True = Ret b' \<and> buf_data b' = take n (buf_data b) \<and>
                    length (mem b') = n \<and> bused b' \<le> length (mem b')
          else buf_setCapacity junk b n True = Throw InvalidAccessException)"
proof (intro conjI)
  show "if ownMem b
        then \<exists>b'. buf_append junk b xs = Ret b' \<and> buf_data b' = buf_data b @ xs \<and> bused b' \<le> length (mem b')
        else buf_append junk b xs = Throw InvalidAccessException"
  proof (cases "ownMem b")
    case True
    obtain b1 where b1: "buf_resize junk b (bused b + length xs) True = Ret b1"
      "bused b1 = bused b + length xs" "bused b + length xs \<le> length (mem b1)"
      "take (bused b) (mem b1) = take (bused b) (mem b)"
      using buf_resize_keeps [OF True assms(1)] by blast
    then show ?thesis using True assms
      by (auto simp: buf_append_def mem_store_def buf_data_def)
  qed (use assms in \<open>simp add: buf_append_def buf_resize_def\<close>)
  show "if ownMem b \<or> length xs \<le> length (mem b)
        then \<exists>b'. buf_assign junk b xs = Ret b' \<and> buf_data b' = xs \<and> bused b' \<le> length (mem b')
        else buf_assign junk b xs = Throw InvalidAccessException"
    using assms by (auto simp: buf_assign_def buf_resize_def mem_store_def buf_data_def)
  show "if ownMem b
        then \<exists>b'. buf_setCapacity junk b n True = Ret b' \<and> buf_data b' = take n (buf_data b) \<and>
                  length (mem b') = n \<and> bused b' \<le> length (mem b')
        else buf_setCapacity junk b n True = Throw InvalidAccessException"
    using assms(1) by (auto simp: buf_setCapacity_def buf_data_def Let_def min_def)
qed

theorem buffer_correct_witness:
  "bused (buf_new (0::nat) 2) \<le> length (mem (buf_new (0::nat) 2)) \<and> [7::nat] \<noteq> [] \<and>
   (\<exists>b'. buf_append 0 (buf_new (0::nat) 2) [7] = Ret b' \<and> buf_data b' = [0, 0, 7])"
proof -
  have h: "bused (buf_new (0::nat) 2) \<le> length (mem (buf_new (0::nat) 2))" "[7::nat] \<noteq> []"
    by (simp_all add: buf_new_def)
  show ?thesis using buffer_correct [OF h, of 0 5] h
    by (auto simp: buf_new_def buf_data_def numeral_2_eq_2)
qed

end
