(* ===== verification/AsciiString.thy ===== *)
theory AsciiString
  imports Prelude
begin

text \<open>
  \<^verbatim>\<open>Poco/Ascii.h\<close>, \<^verbatim>\<open>Ascii.cpp\<close> and \<^verbatim>\<open>Poco/String.h\<close>: the ASCII property table with its
  classification functions, and the string functions built on them (trimming, case conversion,
  case-insensitive comparison, translation, replacement, concatenation).

  A \<^verbatim>\<open>char\<close> is signed on the platforms POCO supports by default, so a character passed to an
  \<^verbatim>\<open>int\<close> parameter is \<open>schar c\<close>; \<open>to_char\<close> is the cast back.  A \<^verbatim>\<open>std::string\<close> is a list of
  characters; a read or an iterator outside of it is \<open>UB\<close>, and \<^verbatim>\<open>std::string\<close>'s own range
  check is the exception \<open>StdOutOfRange\<close>.
\<close>

section \<open>Characters as integers\<close>

definition schar :: "char \<Rightarrow> int" where
  "schar c = (let n = of_char c in if n < 128 then n else n - 256)"

definition uchar :: "char \<Rightarrow> int" where
  "uchar c = of_char c"

definition to_char :: "int \<Rightarrow> char" where
  "to_char n = char_of (n mod 256)"

definition int_range :: "int \<Rightarrow> bool" where
  "int_range n \<longleftrightarrow> - (2 ^ 31) \<le> n \<and> n < 2 ^ 31"

section \<open>Ascii\<close>

definition ACP_CONTROL :: int where "ACP_CONTROL = 0x0001"
definition ACP_SPACE :: int where "ACP_SPACE = 0x0002"
definition ACP_PUNCT :: int where "ACP_PUNCT = 0x0004"
definition ACP_DIGIT :: int where "ACP_DIGIT = 0x0008"
definition ACP_HEXDIGIT :: int where "ACP_HEXDIGIT = 0x0010"
definition ACP_ALPHA :: int where "ACP_ALPHA = 0x0020"
definition ACP_LOWER :: int where "ACP_LOWER = 0x0040"
definition ACP_UPPER :: int where "ACP_UPPER = 0x0080"
definition ACP_GRAPH :: int where "ACP_GRAPH = 0x0100"
definition ACP_PRINT :: int where "ACP_PRINT = 0x0200"

definition CHARACTER_PROPERTIES :: "int list" where
  "CHARACTER_PROPERTIES = [
     ACP_CONTROL,
     ACP_CONTROL,
     ACP_CONTROL,
     ACP_CONTROL,
     ACP_CONTROL,
     ACP_CONTROL,
     ACP_CONTROL,
     ACP_CONTROL,
     ACP_CONTROL,
     ACP_CONTROL OR ACP_SPACE,
     ACP_CONTROL OR ACP_SPACE,
     ACP_CONTROL OR ACP_SPACE,
     ACP_CONTROL OR ACP_SPACE,
     ACP_CONTROL OR ACP_SPACE,
     ACP_CONTROL,
     ACP_CONTROL,
     ACP_CONTROL,
     ACP_CONTROL,
     ACP_CONTROL,
     ACP_CONTROL,
     ACP_CONTROL,
     ACP_CONTROL,
     ACP_CONTROL,
     ACP_CONTROL,
     ACP_CONTROL,
     ACP_CONTROL,
     ACP_CONTROL,
     ACP_CONTROL,
     ACP_CONTROL,
     ACP_CONTROL,
     ACP_CONTROL,
     ACP_CONTROL,
     ACP_SPACE OR ACP_PRINT,
     ACP_PUNCT OR ACP_GRAPH OR ACP_PRINT,
     ACP_PUNCT OR ACP_GRAPH OR ACP_PRINT,
     ACP_PUNCT OR ACP_GRAPH OR ACP_PRINT,
     ACP_PUNCT OR ACP_GRAPH OR ACP_PRINT,
     ACP_PUNCT OR ACP_GRAPH OR ACP_PRINT,
     ACP_PUNCT OR ACP_GRAPH OR ACP_PRINT,
     ACP_PUNCT OR ACP_GRAPH OR ACP_PRINT,
     ACP_PUNCT OR ACP_GRAPH OR ACP_PRINT,
     ACP_PUNCT OR ACP_GRAPH OR ACP_PRINT,
     ACP_PUNCT OR ACP_GRAPH OR ACP_PRINT,
     ACP_PUNCT OR ACP_GRAPH OR ACP_PRINT,
     ACP_PUNCT OR ACP_GRAPH OR ACP_PRINT,
     ACP_PUNCT OR ACP_GRAPH OR ACP_PRINT,
     ACP_PUNCT OR ACP_GRAPH OR ACP_PRINT,
     ACP_PUNCT OR ACP_GRAPH OR ACP_PRINT,
     ACP_DIGIT OR ACP_HEXDIGIT OR ACP_GRAPH OR ACP_PRINT,
     ACP_DIGIT OR ACP_HEXDIGIT OR ACP_GRAPH OR ACP_PRINT,
     ACP_DIGIT OR ACP_HEXDIGIT OR ACP_GRAPH OR ACP_PRINT,
     ACP_DIGIT OR ACP_HEXDIGIT OR ACP_GRAPH OR ACP_PRINT,
     ACP_DIGIT OR ACP_HEXDIGIT OR ACP_GRAPH OR ACP_PRINT,
     ACP_DIGIT OR ACP_HEXDIGIT OR ACP_GRAPH OR ACP_PRINT,
     ACP_DIGIT OR ACP_HEXDIGIT OR ACP_GRAPH OR ACP_PRINT,
     ACP_DIGIT OR ACP_HEXDIGIT OR ACP_GRAPH OR ACP_PRINT,
     ACP_DIGIT OR ACP_HEXDIGIT OR ACP_GRAPH OR ACP_PRINT,
     ACP_DIGIT OR ACP_HEXDIGIT OR ACP_GRAPH OR ACP_PRINT,
     ACP_PUNCT OR ACP_GRAPH OR ACP_PRINT,
     ACP_PUNCT OR ACP_GRAPH OR ACP_PRINT,
     ACP_PUNCT OR ACP_GRAPH OR ACP_PRINT,
     ACP_PUNCT OR ACP_GRAPH OR ACP_PRINT,
     ACP_PUNCT OR ACP_GRAPH OR ACP_PRINT,
     ACP_PUNCT OR ACP_GRAPH OR ACP_PRINT,
     ACP_PUNCT OR ACP_GRAPH OR ACP_PRINT,
     ACP_HEXDIGIT OR ACP_ALPHA OR ACP_UPPER OR ACP_GRAPH OR ACP_PRINT,
     ACP_HEXDIGIT OR ACP_ALPHA OR ACP_UPPER OR ACP_GRAPH OR ACP_PRINT,
     ACP_HEXDIGIT OR ACP_ALPHA OR ACP_UPPER OR ACP_GRAPH OR ACP_PRINT,
     ACP_HEXDIGIT OR ACP_ALPHA OR ACP_UPPER OR ACP_GRAPH OR ACP_PRINT,
     ACP_HEXDIGIT OR ACP_ALPHA OR ACP_UPPER OR ACP_GRAPH OR ACP_PRINT,
     ACP_HEXDIGIT OR ACP_ALPHA OR ACP_UPPER OR ACP_GRAPH OR ACP_PRINT,
     ACP_ALPHA OR ACP_UPPER OR ACP_GRAPH OR ACP_PRINT,
     ACP_ALPHA OR ACP_UPPER OR ACP_GRAPH OR ACP_PRINT,
     ACP_ALPHA OR ACP_UPPER OR ACP_GRAPH OR ACP_PRINT,
     ACP_ALPHA OR ACP_UPPER OR ACP_GRAPH OR ACP_PRINT,
     ACP_ALPHA OR ACP_UPPER OR ACP_GRAPH OR ACP_PRINT,
     ACP_ALPHA OR ACP_UPPER OR ACP_GRAPH OR ACP_PRINT,
     ACP_ALPHA OR ACP_UPPER OR ACP_GRAPH OR ACP_PRINT,
     ACP_ALPHA OR ACP_UPPER OR ACP_GRAPH OR ACP_PRINT,
     ACP_ALPHA OR ACP_UPPER OR ACP_GRAPH OR ACP_PRINT,
     ACP_ALPHA OR ACP_UPPER OR ACP_GRAPH OR ACP_PRINT,
     ACP_ALPHA OR ACP_UPPER OR ACP_GRAPH OR ACP_PRINT,
     ACP_ALPHA OR ACP_UPPER OR ACP_GRAPH OR ACP_PRINT,
     ACP_ALPHA OR ACP_UPPER OR ACP_GRAPH OR ACP_PRINT,
     ACP_ALPHA OR ACP_UPPER OR ACP_GRAPH OR ACP_PRINT,
     ACP_ALPHA OR ACP_UPPER OR ACP_GRAPH OR ACP_PRINT,
     ACP_ALPHA OR ACP_UPPER OR ACP_GRAPH OR ACP_PRINT,
     ACP_ALPHA OR ACP_UPPER OR ACP_GRAPH OR ACP_PRINT,
     ACP_ALPHA OR ACP_UPPER OR ACP_GRAPH OR ACP_PRINT,
     ACP_ALPHA OR ACP_UPPER OR ACP_GRAPH OR ACP_PRINT,
     ACP_ALPHA OR ACP_UPPER OR ACP_GRAPH OR ACP_PRINT,
     ACP_PUNCT OR ACP_GRAPH OR ACP_PRINT,
     ACP_PUNCT OR ACP_GRAPH OR ACP_PRINT,
     ACP_PUNCT OR ACP_GRAPH OR ACP_PRINT,
     ACP_PUNCT OR ACP_GRAPH OR ACP_PRINT,
     ACP_PUNCT OR ACP_GRAPH OR ACP_PRINT,
     ACP_PUNCT OR ACP_GRAPH OR ACP_PRINT,
     ACP_HEXDIGIT OR ACP_ALPHA OR ACP_LOWER OR ACP_GRAPH OR ACP_PRINT,
     ACP_HEXDIGIT OR ACP_ALPHA OR ACP_LOWER OR ACP_GRAPH OR ACP_PRINT,
     ACP_HEXDIGIT OR ACP_ALPHA OR ACP_LOWER OR ACP_GRAPH OR ACP_PRINT,
     ACP_HEXDIGIT OR ACP_ALPHA OR ACP_LOWER OR ACP_GRAPH OR ACP_PRINT,
     ACP_HEXDIGIT OR ACP_ALPHA OR ACP_LOWER OR ACP_GRAPH OR ACP_PRINT,
     ACP_HEXDIGIT OR ACP_ALPHA OR ACP_LOWER OR ACP_GRAPH OR ACP_PRINT,
     ACP_ALPHA OR ACP_LOWER OR ACP_GRAPH OR ACP_PRINT,
     ACP_ALPHA OR ACP_LOWER OR ACP_GRAPH OR ACP_PRINT,
     ACP_ALPHA OR ACP_LOWER OR ACP_GRAPH OR ACP_PRINT,
     ACP_ALPHA OR ACP_LOWER OR ACP_GRAPH OR ACP_PRINT,
     ACP_ALPHA OR ACP_LOWER OR ACP_GRAPH OR ACP_PRINT,
     ACP_ALPHA OR ACP_LOWER OR ACP_GRAPH OR ACP_PRINT,
     ACP_ALPHA OR ACP_LOWER OR ACP_GRAPH OR ACP_PRINT,
     ACP_ALPHA OR ACP_LOWER OR ACP_GRAPH OR ACP_PRINT,
     ACP_ALPHA OR ACP_LOWER OR ACP_GRAPH OR ACP_PRINT,
     ACP_ALPHA OR ACP_LOWER OR ACP_GRAPH OR ACP_PRINT,
     ACP_ALPHA OR ACP_LOWER OR ACP_GRAPH OR ACP_PRINT,
     ACP_ALPHA OR ACP_LOWER OR ACP_GRAPH OR ACP_PRINT,
     ACP_ALPHA OR ACP_LOWER OR ACP_GRAPH OR ACP_PRINT,
     ACP_ALPHA OR ACP_LOWER OR ACP_GRAPH OR ACP_PRINT,
     ACP_ALPHA OR ACP_LOWER OR ACP_GRAPH OR ACP_PRINT,
     ACP_ALPHA OR ACP_LOWER OR ACP_GRAPH OR ACP_PRINT,
     ACP_ALPHA OR ACP_LOWER OR ACP_GRAPH OR ACP_PRINT,
     ACP_ALPHA OR ACP_LOWER OR ACP_GRAPH OR ACP_PRINT,
     ACP_ALPHA OR ACP_LOWER OR ACP_GRAPH OR ACP_PRINT,
     ACP_ALPHA OR ACP_LOWER OR ACP_GRAPH OR ACP_PRINT,
     ACP_PUNCT OR ACP_GRAPH OR ACP_PRINT,
     ACP_PUNCT OR ACP_GRAPH OR ACP_PRINT,
     ACP_PUNCT OR ACP_GRAPH OR ACP_PRINT,
     ACP_PUNCT OR ACP_GRAPH OR ACP_PRINT,
     ACP_CONTROL]"

definition isAscii :: "int \<Rightarrow> bool" where
  "isAscii ch \<longleftrightarrow> (word_of_int ch :: u32) AND 0xFFFFFF80 = 0"

definition properties :: "int \<Rightarrow> int" where
  "properties ch = (if isAscii ch then CHARACTER_PROPERTIES ! nat ch else 0)"

definition hasProperties :: "int \<Rightarrow> int \<Rightarrow> bool" where
  "hasProperties ch props \<longleftrightarrow> properties ch AND props = props"

definition hasSomeProperties :: "int \<Rightarrow> int \<Rightarrow> bool" where
  "hasSomeProperties ch props \<longleftrightarrow> properties ch AND props \<noteq> 0"

definition isSpace :: "int \<Rightarrow> bool" where
  "isSpace ch = hasProperties ch ACP_SPACE"

definition isDigit :: "int \<Rightarrow> bool" where
  "isDigit ch = hasProperties ch ACP_DIGIT"

definition isHexDigit :: "int \<Rightarrow> bool" where
  "isHexDigit ch = hasProperties ch ACP_HEXDIGIT"

definition isPunct :: "int \<Rightarrow> bool" where
  "isPunct ch = hasProperties ch ACP_PUNCT"

definition isAlpha :: "int \<Rightarrow> bool" where
  "isAlpha ch = hasProperties ch ACP_ALPHA"

definition isAlphaNumeric :: "int \<Rightarrow> bool" where
  "isAlphaNumeric ch = hasSomeProperties ch (ACP_ALPHA OR ACP_DIGIT)"

definition isLower :: "int \<Rightarrow> bool" where
  "isLower ch = hasProperties ch ACP_LOWER"

definition isUpper :: "int \<Rightarrow> bool" where
  "isUpper ch = hasProperties ch ACP_UPPER"

definition isPrintable :: "int \<Rightarrow> bool" where
  "isPrintable ch = hasProperties ch ACP_PRINT"

definition Ascii_toLower :: "int \<Rightarrow> int" where
  "Ascii_toLower ch = (if isUpper ch then ch OR 0x20 else ch)"

definition Ascii_toUpper :: "int \<Rightarrow> int" where
  "Ascii_toUpper ch = (if isLower ch then ch AND NOT 0x20 else ch)"

section \<open>String functions\<close>

text \<open>\<^verbatim>\<open>trimLeft\<close>: the loop advances an iterator, here the remaining string.\<close>

fun trimLeft :: "string \<Rightarrow> string" where
  "trimLeft [] = []"
| "trimLeft (c # s) = (if isSpace (schar c) then trimLeft s else c # s)"

text \<open>
  The loops of \<^verbatim>\<open>trimRight\<close> and \<^verbatim>\<open>trim\<close> move signed positions (\<^verbatim>\<open>std::ptrdiff_t\<close>).
\<close>

function trim_back :: "string \<Rightarrow> int \<Rightarrow> int \<Rightarrow> int" where
  "trim_back str first pos =
    (if first \<le> pos \<and> isSpace (schar (str ! nat pos)) then trim_back str first (pos - 1) else pos)"
  by pat_completeness auto
termination by (relation "measure (\<lambda>(str, first, pos). nat (pos - first + 1))") auto

function trim_front :: "string \<Rightarrow> int \<Rightarrow> int \<Rightarrow> int" where
  "trim_front str first lst =
    (if first \<le> lst \<and> isSpace (schar (str ! nat first)) then trim_front str (first + 1) lst else first)"
  by pat_completeness auto
termination by (relation "measure (\<lambda>(str, first, lst). nat (lst - first + 1))") auto

declare trim_back.simps [simp del] trim_front.simps [simp del]

definition trimRight :: "string \<Rightarrow> string" where
  "trimRight str = (let pos = trim_back str 0 (int (length str) - 1) in take (nat (pos + 1)) str)"

definition trim :: "string \<Rightarrow> string" where
  "trim str =
    (let lst = int (length str) - 1;
         first = trim_front str 0 lst;
         lst = trim_back str first lst
     in take (nat (lst - first + 1)) (drop (nat first) str))"

definition trimInPlace :: "string \<Rightarrow> string" where
  "trimInPlace str =
    (let lst = int (length str) - 1;
         first = trim_front str 0 lst;
         lst = trim_back str first lst
     in if lst \<ge> 0 then drop (nat first) (take (nat (lst + 1)) str) else str)"

definition toUpper :: "string \<Rightarrow> string" where
  "toUpper str = map (\<lambda>c. to_char (Ascii_toUpper (uchar c))) str"

definition toLower :: "string \<Rightarrow> string" where
  "toLower str = map (\<lambda>c. to_char (Ascii_toLower (uchar c))) str"

text \<open>
  \<^verbatim>\<open>icompare\<close>: the comparison loop of two iterator ranges.  Both characters are converted to
  lower case, cast back to \<^verbatim>\<open>char\<close> and compared as (signed) characters.
\<close>

fun icompare :: "string \<Rightarrow> string \<Rightarrow> int" where
  "icompare (a # s) (b # t) =
    (let c1 = schar (to_char (Ascii_toLower (schar a)));
         c2 = schar (to_char (Ascii_toLower (schar b)))
     in if c1 < c2 then -1 else if c1 > c2 then 1 else icompare s t)"
| "icompare [] t = (if t = [] then 0 else -1)"
| "icompare (a # s) [] = 1"

text \<open>
  The overload with a start position and a length clamps both with \<^verbatim>\<open>size_t\<close> arithmetic:
  \<^verbatim>\<open>pos + n\<close> wraps around, and an end iterator outside of the string is undefined behaviour.
\<close>

definition icompare_pos :: "string \<Rightarrow> nat \<Rightarrow> nat \<Rightarrow> string \<Rightarrow> int outcome" where
  "icompare_pos str pos n t =
    (let sz = length str;
         pos = (if pos > sz then sz else pos);
         n = (if (pos + n) mod SIZE_MOD > sz then sz - pos else n)
     in if pos + n > sz then UB else Ret (icompare (take n (drop pos str)) t))"

definition icompare_n :: "string \<Rightarrow> nat \<Rightarrow> string \<Rightarrow> int outcome" where
  "icompare_n str1 n str2 =
    (let n = (if n > length str2 then length str2 else n) in icompare_pos str1 0 n (take n str2))"

text \<open>A zero-terminated argument denotes the characters before its first NUL.\<close>

definition cstr :: "string \<Rightarrow> string" where
  "cstr p = takeWhile (\<lambda>c. c \<noteq> CHR 0x00) p"

definition icompare_cstr :: "string \<Rightarrow> string \<Rightarrow> int" where
  "icompare_cstr str p = icompare str (cstr p)"

text \<open>\<^verbatim>\<open>std::string::find\<close>: the first match at or after a position.\<close>

function find_str :: "string \<Rightarrow> string \<Rightarrow> nat \<Rightarrow> nat option" where
  "find_str str pat pos =
    (if pos + length pat > length str then None
     else if take (length pat) (drop pos str) = pat then Some pos
     else find_str str pat (Suc pos))"
  by pat_completeness auto
termination by (relation "measure (\<lambda>(str, pat, pos). Suc (length str) - pos)") auto

declare find_str.simps [simp del]

definition translate :: "string \<Rightarrow> string \<Rightarrow> string \<Rightarrow> string" where
  "translate str from to =
    concat (map (\<lambda>c. case find_str from [c] 0 of
                       None \<Rightarrow> [c]
                     | Some pos \<Rightarrow> if pos < length to then [to ! pos] else []) str)"

lemma find_str_bounds:
  "find_str str pat pos = Some p \<Longrightarrow> pos \<le> p \<and> p + length pat \<le> length str \<and>
     take (length pat) (drop p str) = pat"
proof (induction str pat pos rule: find_str.induct)
  case (1 str pat pos)
  then show ?case
    by (subst (asm) (2) find_str.simps) (fastforce split: if_splits)
qed

text \<open>
  \<^verbatim>\<open>replaceInPlace\<close> with strings: \<open>res\<close> is the result built so far.  \<^verbatim>\<open>result.append(str, start, n)\<close>
  throws when \<^verbatim>\<open>start\<close> lies behind the end of the string.
\<close>

function replace_loop :: "string \<Rightarrow> string \<Rightarrow> string \<Rightarrow> nat \<Rightarrow> string \<Rightarrow> string result" where
  "replace_loop str from to start res =
    (if from = [] then Inl AssertionViolationException
     else case find_str str from start of
       Some pos \<Rightarrow> replace_loop str from to (pos + length from)
                     (res @ take (pos - start) (drop start str) @ to)
     | None \<Rightarrow> if start > length str then Inl StdOutOfRange else Inr (res @ drop start str))"
  by pat_completeness auto
termination
proof (relation "measure (\<lambda>(str, from, to, start, res). length str - start)", goal_cases)
  case 1 show ?case by simp
next
  case (2 str fr to start res pos)
  from find_str_bounds[OF 2(2)] 2(1) show ?case by (cases fr) auto
qed

declare replace_loop.simps [simp del]

definition replace :: "string \<Rightarrow> string \<Rightarrow> string \<Rightarrow> nat \<Rightarrow> string result" where
  "replace str from to start =
    (if from = [] then Inl AssertionViolationException
     else replace_loop str from to start (take start str))"

text \<open>
  \<^verbatim>\<open>replaceInPlace\<close> with characters searches from \<open>start\<close> in every round; a zero \<open>to\<close> erases.
\<close>

function replace_char :: "string \<Rightarrow> char \<Rightarrow> char \<Rightarrow> nat \<Rightarrow> string" where
  "replace_char str from to start =
    (if from = to then str
     else case find_str str [from] start of
       None \<Rightarrow> str
     | Some pos \<Rightarrow>
         replace_char (if to \<noteq> CHR 0x00 then str[pos := to] else take pos str @ drop (Suc pos) str)
           from to start)"
  by pat_completeness auto

lemma count_erase:
  "p < length s \<Longrightarrow> s ! p = c \<Longrightarrow> Suc (count_list (take p s @ drop (Suc p) s) c) = count_list s c"
  by (subst (3) id_take_nth_drop[of p s]) auto

lemma count_update:
  "p < length s \<Longrightarrow> s ! p = c \<Longrightarrow> d \<noteq> c \<Longrightarrow> Suc (count_list (s[p := d]) c) = count_list s c"
  by (subst (2) id_take_nth_drop[of p s]) (auto simp: upd_conv_take_nth_drop)

lemma find_char_nth: "find_str s [c] k = Some p \<Longrightarrow> k \<le> p \<and> p < length s \<and> s ! p = c"
  using find_str_bounds[of s "[c]" k p] by (auto simp: take_Suc hd_drop_conv_nth)

termination replace_char
proof (relation "measure (\<lambda>(str, from, to, start). count_list str from)", goal_cases)
  case 1 show ?case by simp
next
  case (2 str fr to start pos)
  from find_char_nth[OF 2(2)] have p: "pos < length str" "str ! pos = fr" by auto
  show ?case
  proof (cases "to = CHR 0x00")
    case True then show ?thesis using count_erase[OF p] by simp
  next
    case False then show ?thesis using count_update[OF p, of to] 2(1) by simp
  qed
qed

declare replace_char.simps [simp del]

definition remove :: "string \<Rightarrow> char \<Rightarrow> nat \<Rightarrow> string" where
  "remove str ch start = replace_char str ch (CHR 0x00) start"

text \<open>\<^verbatim>\<open>cat(delim, begin, end)\<close> puts the delimiter before an element when the result is not empty.\<close>

definition cat_step :: "string \<Rightarrow> string \<Rightarrow> string \<Rightarrow> string" where
  "cat_step delim res s = (if res \<noteq> [] then res @ delim @ s else res @ s)"

definition cat_delim :: "string \<Rightarrow> string list \<Rightarrow> string" where
  "cat_delim delim parts = foldl (cat_step delim) [] parts"

definition startsWith :: "string \<Rightarrow> string \<Rightarrow> bool" where
  "startsWith str pre \<longleftrightarrow> length str \<ge> length pre \<and> list_all2 (=) pre (take (length pre) str)"

definition endsWith :: "string \<Rightarrow> string \<Rightarrow> bool" where
  "endsWith str suf \<longleftrightarrow>
    length str \<ge> length suf \<and> list_all2 (=) (rev suf) (take (length suf) (rev str))"

section \<open>The character classes\<close>

lemma and_not_mask7: "(w :: u32) AND 0xFFFFFF80 = 0 \<longleftrightarrow> uint w < 128"
proof -
  have m: "(0xFFFFFF80 :: u32) = NOT (mask 7)" by (simp add: mask_eq_exp_minus_1)
  have "w AND NOT (mask 7) = 0 \<longleftrightarrow> w = take_bit 7 w"
  proof
    assume z: "w AND NOT (mask 7) = 0"
    have "w = (w AND mask 7) OR (w AND NOT (mask 7))"
      by (simp add: bit.conj_disj_distrib[symmetric])
    with z show "w = take_bit 7 w" by (simp add: take_bit_eq_mask)
  next
    assume "w = take_bit 7 w"
    then have "w = w AND mask 7" by (simp add: take_bit_eq_mask)
    then have "w AND NOT (mask 7) = (w AND mask 7) AND NOT (mask 7)" by simp
    also have "\<dots> = 0" by (simp add: and.assoc)
    finally show "w AND NOT (mask 7) = 0" .
  qed
  also have "\<dots> \<longleftrightarrow> take_bit 7 (uint w) = uint w"
    by (metis unsigned_take_bit_eq word_uint_eqI)
  also have "\<dots> \<longleftrightarrow> uint w < 128"
    using take_bit_int_eq_self_iff[of 7 "uint w"] by simp
  finally show ?thesis by (simp add: m)
qed

lemma isAscii_iff: "int_range ch \<Longrightarrow> isAscii ch \<longleftrightarrow> 0 \<le> ch \<and> ch < 128"
proof -
  assume r: "int_range ch"
  have u: "uint (word_of_int ch :: u32) = ch mod 2 ^ 32" by (simp add: uint_word_of_int)
  show ?thesis
  proof (cases "0 \<le> ch")
    case True
    then have "ch mod 2 ^ 32 = ch" using r by (simp add: int_range_def)
    then show ?thesis using True u by (simp add: isAscii_def and_not_mask7)
  next
    case False
    have "ch mod 2 ^ 32 = (ch + 2 ^ 32) mod 2 ^ 32" by simp
    also have "\<dots> = ch + 2 ^ 32" by (rule mod_pos_pos_trivial) (use False r in \<open>simp_all add: int_range_def\<close>)
    finally have "ch mod 2 ^ 32 \<ge> 128" using r by (simp add: int_range_def)
    then show ?thesis using False u by (simp add: isAscii_def and_not_mask7)
  qed
qed

lemmas acp_defs = ACP_CONTROL_def ACP_SPACE_def ACP_PUNCT_def ACP_DIGIT_def ACP_HEXDIGIT_def
  ACP_ALPHA_def ACP_LOWER_def ACP_UPPER_def ACP_GRAPH_def ACP_PRINT_def

definition table_ok :: "nat \<Rightarrow> bool" where
  "table_ok n \<longleftrightarrow>
    (let p = CHARACTER_PROPERTIES ! n in
      ((p AND ACP_SPACE = ACP_SPACE) = (9 \<le> n \<and> n \<le> 13 \<or> n = 32)) \<and>
      ((p AND ACP_DIGIT = ACP_DIGIT) = (48 \<le> n \<and> n \<le> 57)) \<and>
      ((p AND ACP_HEXDIGIT = ACP_HEXDIGIT) = (48 \<le> n \<and> n \<le> 57 \<or> 65 \<le> n \<and> n \<le> 70 \<or> 97 \<le> n \<and> n \<le> 102)) \<and>
      ((p AND ACP_PUNCT = ACP_PUNCT) = (33 \<le> n \<and> n \<le> 47 \<or> 58 \<le> n \<and> n \<le> 64 \<or> 91 \<le> n \<and> n \<le> 96 \<or> 123 \<le> n \<and> n \<le> 126)) \<and>
      ((p AND ACP_ALPHA = ACP_ALPHA) = (65 \<le> n \<and> n \<le> 90 \<or> 97 \<le> n \<and> n \<le> 122)) \<and>
      ((p AND (ACP_ALPHA OR ACP_DIGIT) \<noteq> 0) = (48 \<le> n \<and> n \<le> 57 \<or> 65 \<le> n \<and> n \<le> 90 \<or> 97 \<le> n \<and> n \<le> 122)) \<and>
      ((p AND ACP_LOWER = ACP_LOWER) = (97 \<le> n \<and> n \<le> 122)) \<and>
      ((p AND ACP_UPPER = ACP_UPPER) = (65 \<le> n \<and> n \<le> 90)) \<and>
      ((p AND ACP_PRINT = ACP_PRINT) = (32 \<le> n \<and> n \<le> 126)))"

lemma table_all: "list_all table_ok [0..<128]"
  by code_simp

lemma table_ok: "n < 128 \<Longrightarrow> table_ok n"
  using table_all by (simp add: list_all_iff)

lemma case_bits:
  "list_all (\<lambda>n. int n OR 0x20 = int n + 32) [65..<91]"
  "list_all (\<lambda>n. int n AND NOT 0x20 = int n - 32) [97..<123]"
  by code_simp+

definition in_span :: "int \<Rightarrow> int \<Rightarrow> int \<Rightarrow> bool" where
  "in_span a b ch \<longleftrightarrow> a \<le> ch \<and> ch \<le> b"

lemma hasProperties_iff:
  "int_range ch \<Longrightarrow> p \<noteq> 0 \<Longrightarrow>
     hasProperties ch p \<longleftrightarrow> 0 \<le> ch \<and> ch < 128 \<and> CHARACTER_PROPERTIES ! nat ch AND p = p"
  by (auto simp: hasProperties_def properties_def isAscii_iff)

lemma hasSomeProperties_iff:
  "int_range ch \<Longrightarrow>
     hasSomeProperties ch p \<longleftrightarrow> 0 \<le> ch \<and> ch < 128 \<and> CHARACTER_PROPERTIES ! nat ch AND p \<noteq> 0"
  by (auto simp: hasSomeProperties_def properties_def isAscii_iff)

lemma acp_nonzero [simp]:
  "ACP_SPACE \<noteq> 0" "ACP_DIGIT \<noteq> 0" "ACP_HEXDIGIT \<noteq> 0" "ACP_PUNCT \<noteq> 0" "ACP_ALPHA \<noteq> 0"
  "ACP_LOWER \<noteq> 0" "ACP_UPPER \<noteq> 0" "ACP_PRINT \<noteq> 0"
  by (simp_all add: acp_defs)

lemma ascii_table_all:
  assumes "int_range ch"
  shows "(isSpace ch \<longleftrightarrow> in_span 9 13 ch \<or> ch = 32) \<and>
    (isDigit ch \<longleftrightarrow> in_span 48 57 ch) \<and>
    (isHexDigit ch \<longleftrightarrow> in_span 48 57 ch \<or> in_span 65 70 ch \<or> in_span 97 102 ch) \<and>
    (isPunct ch \<longleftrightarrow> in_span 33 47 ch \<or> in_span 58 64 ch \<or> in_span 91 96 ch \<or> in_span 123 126 ch) \<and>
    (isAlpha ch \<longleftrightarrow> in_span 65 90 ch \<or> in_span 97 122 ch) \<and>
    (isAlphaNumeric ch \<longleftrightarrow> in_span 48 57 ch \<or> in_span 65 90 ch \<or> in_span 97 122 ch) \<and>
    (isLower ch \<longleftrightarrow> in_span 97 122 ch) \<and>
    (isUpper ch \<longleftrightarrow> in_span 65 90 ch) \<and>
    (isPrintable ch \<longleftrightarrow> in_span 32 126 ch)"
proof -
  note d = hasProperties_iff[OF assms] hasSomeProperties_iff[OF assms] in_span_def
    isSpace_def isDigit_def isHexDigit_def isPunct_def isAlpha_def isAlphaNumeric_def
    isLower_def isUpper_def isPrintable_def
  consider (ascii) n where "ch = int n" "n < 128" | (out) "\<not> (0 \<le> ch \<and> ch < 128)"
    by (metis nat_0_le nat_less_iff numeral_less_iff of_nat_numeral zero_le_imp_eq_int zless_nat_eq_int_zless)
  then show ?thesis
  proof cases
    case ascii
    then have "table_ok n" using table_ok by simp
    then show ?thesis using ascii assms
      by (simp add: d hasProperties_iff hasSomeProperties_iff table_ok_def Let_def)
  next
    case out
    then show ?thesis by (simp add: d) linarith
  qed
qed

lemma ascii_table:
  assumes "int_range ch"
  shows "isSpace ch \<longleftrightarrow> in_span 9 13 ch \<or> ch = 32"
    and "isDigit ch \<longleftrightarrow> in_span 48 57 ch"
    and "isHexDigit ch \<longleftrightarrow> in_span 48 57 ch \<or> in_span 65 70 ch \<or> in_span 97 102 ch"
    and "isPunct ch \<longleftrightarrow> in_span 33 47 ch \<or> in_span 58 64 ch \<or> in_span 91 96 ch \<or> in_span 123 126 ch"
    and "isAlpha ch \<longleftrightarrow> in_span 65 90 ch \<or> in_span 97 122 ch"
    and "isAlphaNumeric ch \<longleftrightarrow> in_span 48 57 ch \<or> in_span 65 90 ch \<or> in_span 97 122 ch"
    and "isLower ch \<longleftrightarrow> in_span 97 122 ch"
    and "isUpper ch \<longleftrightarrow> in_span 65 90 ch"
    and "isPrintable ch \<longleftrightarrow> in_span 32 126 ch"
  using ascii_table_all[OF assms] by blast+

lemma letter_bits:
  "in_span 65 90 ch \<Longrightarrow> ch OR 0x20 = ch + 32"
  "in_span 97 122 ch \<Longrightarrow> ch AND NOT 0x20 = ch - 32"
proof -
  have "int n OR 0x20 = int n + 32" if "65 \<le> n" "n < 91" for n
    using case_bits(1) that unfolding list_all_iff set_upt by (meson atLeastLessThan_iff)
  from this[of "nat ch"] show "in_span 65 90 ch \<Longrightarrow> ch OR 0x20 = ch + 32" by (auto simp: in_span_def)
  have "int n AND NOT 0x20 = int n - 32" if "97 \<le> n" "n < 123" for n
    using case_bits(2) that unfolding list_all_iff set_upt by (meson atLeastLessThan_iff)
  from this[of "nat ch"] show "in_span 97 122 ch \<Longrightarrow> ch AND NOT 0x20 = ch - 32"
    by (auto simp: in_span_def)
qed

lemma Ascii_toLower_eq: "int_range ch \<Longrightarrow> Ascii_toLower ch = (if in_span 65 90 ch then ch + 32 else ch)"
  by (simp add: Ascii_toLower_def ascii_table letter_bits)

lemma Ascii_toUpper_eq: "int_range ch \<Longrightarrow> Ascii_toUpper ch = (if in_span 97 122 ch then ch - 32 else ch)"
  using letter_bits(2)[of ch] by (simp add: Ascii_toUpper_def ascii_table)

text \<open>
  The classification functions agree with the ASCII ranges for every \<^verbatim>\<open>int\<close> argument,
  negative and large ones included, and the case conversions map exactly the letters of the other
  case.
\<close>

theorem ascii_classification:
  assumes "int_range ch"
  shows "(isSpace ch \<longleftrightarrow> in_span 9 13 ch \<or> ch = 32) \<and>
    (isDigit ch \<longleftrightarrow> in_span 48 57 ch) \<and>
    (isHexDigit ch \<longleftrightarrow> in_span 48 57 ch \<or> in_span 65 70 ch \<or> in_span 97 102 ch) \<and>
    (isPunct ch \<longleftrightarrow> in_span 33 47 ch \<or> in_span 58 64 ch \<or> in_span 91 96 ch \<or> in_span 123 126 ch) \<and>
    (isAlpha ch \<longleftrightarrow> in_span 65 90 ch \<or> in_span 97 122 ch) \<and>
    (isAlphaNumeric ch \<longleftrightarrow> isAlpha ch \<or> isDigit ch) \<and>
    (isPrintable ch \<longleftrightarrow> in_span 32 126 ch) \<and>
    Ascii_toLower ch = (if in_span 65 90 ch then ch + 32 else ch) \<and>
    Ascii_toUpper ch = (if in_span 97 122 ch then ch - 32 else ch)"
  using assms by (auto simp: ascii_table Ascii_toLower_eq Ascii_toUpper_eq)

theorem ascii_classification_witness:
  "\<not> isSpace (-96) \<and> \<not> isAlpha 256 \<and> Ascii_toLower 90 = 122"
  using ascii_classification[of "-96"] ascii_classification[of 256] ascii_classification[of 90]
  by (simp add: in_span_def int_range_def)

section \<open>Trimming\<close>

lemma of_char_bounds: "0 \<le> (of_char c :: int)" "(of_char c :: int) < 256"
proof -
  have "(of_char c :: int) = int (of_char c)" by (simp only: of_nat_of_char)
  then show "0 \<le> (of_char c :: int)" "(of_char c :: int) < 256"
    using nat_of_char_less_256[of c] by linarith+
qed

lemma schar_range [simp]: "int_range (schar c)"
  using of_char_bounds[of c] by (simp add: schar_def int_range_def Let_def)

lemma uchar_range [simp]: "int_range (uchar c)" "0 \<le> uchar c" "uchar c < 256"
  using of_char_bounds[of c] by (simp_all add: uchar_def int_range_def)

abbreviation space :: "char \<Rightarrow> bool" where
  "space c \<equiv> isSpace (schar c)"

lemma dropWhile_hd: "t = [] \<or> \<not> P (hd t) \<Longrightarrow> dropWhile P t = t"
  by (cases t) auto

lemma trimLeft_dropWhile: "trimLeft s = dropWhile space s"
  by (induction s) auto

lemma trim_back_spec:
  assumes "-1 \<le> pos" "pos < int (length s)" "0 \<le> first" "first \<le> pos + 1"
  shows "first - 1 \<le> trim_back s first pos \<and> trim_back s first pos \<le> pos \<and>
    (\<forall>i. trim_back s first pos < i \<and> i \<le> pos \<longrightarrow> space (s ! nat i)) \<and>
    (first \<le> trim_back s first pos \<longrightarrow> \<not> space (s ! nat (trim_back s first pos)))"
  using assms
proof (induction s first pos rule: trim_back.induct)
  case (1 str first pos)
  show ?case
  proof (cases "first \<le> pos \<and> space (str ! nat pos)")
    case True
    with "1.prems" have IH: "first - 1 \<le> trim_back str first (pos - 1) \<and> trim_back str first (pos - 1) \<le> pos - 1 \<and>
      (\<forall>i. trim_back str first (pos - 1) < i \<and> i \<le> pos - 1 \<longrightarrow> space (str ! nat i)) \<and>
      (first \<le> trim_back str first (pos - 1) \<longrightarrow> \<not> space (str ! nat (trim_back str first (pos - 1))))"
      by (intro "1.IH") auto
    have e: "trim_back str first pos = trim_back str first (pos - 1)"
      using True by (subst trim_back.simps) simp
    show ?thesis unfolding e using IH True by (smt (verit))
  next
    case False
    then have "trim_back str first pos = pos" by (subst trim_back.simps) auto
    with False "1.prems" show ?thesis by auto
  qed
qed

lemma trim_front_spec:
  assumes "0 \<le> first" "first \<le> lst + 1"
  shows "first \<le> trim_front s first lst \<and> trim_front s first lst \<le> lst + 1 \<and>
    (\<forall>i. first \<le> i \<and> i < trim_front s first lst \<longrightarrow> space (s ! nat i)) \<and>
    (trim_front s first lst \<le> lst \<longrightarrow> \<not> space (s ! nat (trim_front s first lst)))"
  using assms
proof (induction s first lst rule: trim_front.induct)
  case (1 str first lst)
  show ?case
  proof (cases "first \<le> lst \<and> space (str ! nat first)")
    case True
    with "1.prems" have IH: "first + 1 \<le> trim_front str (first + 1) lst \<and> trim_front str (first + 1) lst \<le> lst + 1 \<and>
      (\<forall>i. first + 1 \<le> i \<and> i < trim_front str (first + 1) lst \<longrightarrow> space (str ! nat i)) \<and>
      (trim_front str (first + 1) lst \<le> lst \<longrightarrow> \<not> space (str ! nat (trim_front str (first + 1) lst)))"
      by (intro "1.IH") auto
    have e: "trim_front str first lst = trim_front str (first + 1) lst"
      using True by (subst trim_front.simps) simp
    show ?thesis unfolding e using IH True by (smt (verit))
  next
    case False
    then have "trim_front str first lst = first" by (subst trim_front.simps) auto
    with False "1.prems" show ?thesis by auto
  qed
qed

text \<open>The reference: strip white space with the list functions.\<close>

definition rstrip :: "string \<Rightarrow> string" where
  "rstrip s = rev (dropWhile space (rev s))"

lemma rstrip_eqI:
  assumes "n \<le> length s" "\<forall>i. n \<le> i \<and> i < length s \<longrightarrow> space (s ! i)" "n > 0 \<longrightarrow> \<not> space (s ! (n - 1))"
  shows "rstrip s = take n s"
proof -
  have d: "\<forall>c \<in> set (rev (drop n s)). space c"
    using assms(1,2) by (auto simp: in_set_conv_nth)
  have "rev s = rev (drop n s) @ rev (take n s)" by (metis append_take_drop_id rev_append)
  then have "dropWhile space (rev s) = dropWhile space (rev (take n s))"
    using dropWhile_append2[of "rev (drop n s)" space "rev (take n s)"] d by simp
  also have "\<dots> = rev (take n s)"
  proof (cases n)
    case 0 then show ?thesis by simp
  next
    case (Suc m)
    with assms(1) have "take n s = take m s @ [s ! m]" by (simp add: take_Suc_conv_app_nth)
    with assms(3) Suc show ?thesis by simp
  qed
  finally show ?thesis by (simp add: rstrip_def)
qed

lemma lstrip_eqI:
  assumes "n \<le> length s" "\<forall>i. i < n \<longrightarrow> space (s ! i)" "n < length s \<longrightarrow> \<not> space (s ! n)"
  shows "dropWhile space s = drop n s"
proof -
  have d: "\<forall>c \<in> set (take n s). space c"
    using assms(1,2) by (auto simp: in_set_conv_nth)
  then have "dropWhile space (take n s @ drop n s) = dropWhile space (drop n s)"
    by (simp add: dropWhile_append2 del: append_take_drop_id)
  moreover have "dropWhile space (drop n s) = drop n s"
    using assms(3) by (cases "n < length s") (auto simp: Cons_nth_drop_Suc[symmetric])
  ultimately show ?thesis by simp
qed

lemma trimRight_rstrip: "trimRight s = rstrip s"
proof -
  let ?p = "trim_back s 0 (int (length s) - 1)"
  have b: "- 1 \<le> ?p \<and> ?p \<le> int (length s) - 1 \<and>
      (\<forall>i. ?p < i \<and> i \<le> int (length s) - 1 \<longrightarrow> space (s ! nat i)) \<and> (0 \<le> ?p \<longrightarrow> \<not> space (s ! nat ?p))"
    using trim_back_spec[of "int (length s) - 1" s 0] by simp
  have "rstrip s = take (nat (?p + 1)) s"
  proof (rule rstrip_eqI)
    show "nat (?p + 1) \<le> length s" using b by linarith
    show "\<forall>i. nat (?p + 1) \<le> i \<and> i < length s \<longrightarrow> space (s ! i)"
    proof (intro allI impI)
      fix i assume "nat (?p + 1) \<le> i \<and> i < length s"
      then show "space (s ! i)" using b by (metis (no_types, lifting) add_le_imp_le_diff nat_int nat_le_iff of_nat_less_iff zle_diff1_eq zless_imp_add1_zle add1_zle_eq)
    qed
    show "0 < nat (?p + 1) \<longrightarrow> \<not> space (s ! (nat (?p + 1) - 1))"
      using b by (auto simp: nat_add_distrib)
  qed
  then show ?thesis by (simp add: trimRight_def Let_def)
qed

lemma rstrip_split: "\<exists>r. s = rstrip s @ r \<and> (\<forall>c \<in> set r. space c)"
proof -
  have "rev s = takeWhile space (rev s) @ dropWhile space (rev s)" by simp
  then have "s = rev (dropWhile space (rev s)) @ rev (takeWhile space (rev s))"
    by (metis rev_append rev_rev_ident)
  then show ?thesis unfolding rstrip_def
    by (intro exI[of _ "rev (takeWhile space (rev s))"]) (auto dest: set_takeWhileD)
qed

lemma rstrip_last: "rstrip s \<noteq> [] \<Longrightarrow> \<not> space (last (rstrip s))"
  using hd_dropWhile[of space "rev s"] by (simp add: rstrip_def last_rev)

lemma rstrip_hd: "s \<noteq> [] \<Longrightarrow> \<not> space (hd s) \<Longrightarrow> hd (rstrip s) = hd s \<and> rstrip s \<noteq> []"
proof -
  assume a: "s \<noteq> []" "\<not> space (hd s)"
  obtain r where r: "s = rstrip s @ r" "\<forall>c \<in> set r. space c" using rstrip_split by blast
  have "rstrip s \<noteq> []"
  proof
    assume "rstrip s = []"
    then have "s = r" using r by simp
    then show False using a r(2) by (cases s) auto
  qed
  then show ?thesis using r(1) by (metis hd_append2)
qed

lemma rstrip_ends:
  "d = [] \<or> \<not> space (hd d) \<Longrightarrow>
     rstrip d = [] \<or> \<not> space (hd (rstrip d)) \<and> \<not> space (last (rstrip d))"
  using rstrip_hd[of d] rstrip_last[of d] by (cases "d = []") (auto simp: rstrip_def)

lemma trim_positions:
  fixes s :: string
  defines "f \<equiv> trim_front s 0 (int (length s) - 1)"
  defines "l \<equiv> trim_back s f (int (length s) - 1)"
  shows "0 \<le> f" "f \<le> int (length s)" "f - 1 \<le> l" "l < int (length s)"
    and "dropWhile space s = drop (nat f) s"
    and "rstrip (drop (nat f) s) = take (nat (l - f + 1)) (drop (nat f) s)"
proof -
  let ?n = "length s"
  have F: "0 \<le> f \<and> f \<le> int ?n \<and> (\<forall>i. 0 \<le> i \<and> i < f \<longrightarrow> space (s ! nat i)) \<and>
      (f \<le> int ?n - 1 \<longrightarrow> \<not> space (s ! nat f))"
    using trim_front_spec[of 0 "int ?n - 1" s] unfolding f_def by simp
  have L: "f - 1 \<le> l \<and> l \<le> int ?n - 1 \<and> (\<forall>i. l < i \<and> i \<le> int ?n - 1 \<longrightarrow> space (s ! nat i)) \<and>
      (f \<le> l \<longrightarrow> \<not> space (s ! nat l))"
    using trim_back_spec[of "int ?n - 1" s f] F unfolding l_def by simp
  show "0 \<le> f" "f \<le> int ?n" "f - 1 \<le> l" "l < int ?n" using F L by auto
  show "dropWhile space s = drop (nat f) s"
  proof (rule lstrip_eqI)
    show "\<forall>i. i < nat f \<longrightarrow> space (s ! i)" using F by (metis nat_int of_nat_0_le_iff zless_nat_eq_int_zless)
    show "nat f < ?n \<longrightarrow> \<not> space (s ! nat f)" using F by auto
  qed (use F in auto)
  show "rstrip (drop (nat f) s) = take (nat (l - f + 1)) (drop (nat f) s)"
  proof (rule rstrip_eqI)
    show "nat (l - f + 1) \<le> length (drop (nat f) s)" using F L by auto
    show "\<forall>i. nat (l - f + 1) \<le> i \<and> i < length (drop (nat f) s) \<longrightarrow> space (drop (nat f) s ! i)"
    proof (intro allI impI)
      fix i assume i: "nat (l - f + 1) \<le> i \<and> i < length (drop (nat f) s)"
      then have "l < f + int i" "f + int i \<le> int ?n - 1" using F by auto
      then have "space (s ! nat (f + int i))" using L by blast
      then show "space (drop (nat f) s ! i)" using i F by (subst nth_drop) (auto simp: nat_add_distrib)
    qed
    show "0 < nat (l - f + 1) \<longrightarrow> \<not> space (drop (nat f) s ! (nat (l - f + 1) - 1))"
    proof
      assume "0 < nat (l - f + 1)"
      then have "f \<le> l" by simp
      then have "nat f + (nat (l - f + 1) - 1) = nat l" using F by linarith
      then show "\<not> space (drop (nat f) s ! (nat (l - f + 1) - 1))" using L \<open>f \<le> l\<close> F
        by (subst nth_drop) auto
    qed
  qed
qed

lemma trim_strip: "trim s = rstrip (dropWhile space s)"
  using trim_positions[of s] by (simp add: trim_def Let_def)

lemma trimInPlace_eq: "trimInPlace s = trim s"
proof -
  define f where "f = trim_front s 0 (int (length s) - 1)"
  define l where "l = trim_back s f (int (length s) - 1)"
  note p = trim_positions[of s, folded f_def l_def]
  have t: "trim s = take (nat (l - f + 1)) (drop (nat f) s)"
    by (simp add: trim_def Let_def f_def l_def)
  have i: "trimInPlace s = (if l \<ge> 0 then drop (nat f) (take (nat (l + 1)) s) else s)"
    by (simp add: trimInPlace_def Let_def f_def l_def)
  show ?thesis
  proof (cases "l \<ge> 0")
    case True
    then have "nat (l + 1) - nat f = nat (l - f + 1)" using p by linarith
    then show ?thesis using True by (simp add: t i drop_take)
  next
    case False
    then have "l = -1" "f = 0" using p by auto
    moreover have "s = []"
    proof (rule ccontr)
      assume "s \<noteq> []"
      moreover have "dropWhile space s = s" "rstrip s = []" using p(5,6) \<open>f = 0\<close> \<open>l = -1\<close> by simp_all
      ultimately show False using hd_dropWhile[of space s] rstrip_hd[of s] by metis
    qed
    ultimately show ?thesis using t i by simp
  qed
qed

text \<open>
  \<^verbatim>\<open>trim\<close> removes leading and trailing white space and nothing else: the string is the
  result between two runs of white space, and the result starts and ends with other characters.
  \<^verbatim>\<open>trim\<close>, \<^verbatim>\<open>trimInPlace\<close> and \<^verbatim>\<open>trimRight\<close> after \<^verbatim>\<open>trimLeft\<close> compute the same string, and
  trimming twice changes nothing.
\<close>

theorem trim_correct:
  "(\<exists>l r. s = l @ trim s @ r \<and> list_all space l \<and> list_all space r) \<and>
   (trim s = [] \<or> \<not> space (hd (trim s)) \<and> \<not> space (last (trim s))) \<and>
   trimInPlace s = trim s \<and> trim s = trimRight (trimLeft s) \<and> trim (trim s) = trim s"
proof -
  let ?d = "dropWhile space s"
  obtain r where r: "?d = rstrip ?d @ r" "\<forall>c \<in> set r. space c" using rstrip_split by blast
  have s: "s = takeWhile space s @ rstrip ?d @ r" by (metis r(1) takeWhile_dropWhile_id)
  have ends: "trim s = [] \<or> \<not> space (hd (trim s)) \<and> \<not> space (last (trim s))"
    unfolding trim_strip using hd_dropWhile[of space s] by (intro rstrip_ends) blast
  have idem: "trim t = t" if "t = [] \<or> \<not> space (hd t) \<and> \<not> space (last t)" for t
    using that dropWhile_hd[of t space] dropWhile_hd[of "rev t" space]
    by (auto simp: trim_strip rstrip_def hd_rev)
  have "\<exists>l r. s = l @ trim s @ r \<and> list_all space l \<and> list_all space r"
    using s r(2) by (intro exI[of _ "takeWhile space s"] exI[of _ r])
      (auto simp: trim_strip list_all_iff dest: set_takeWhileD)
  then show ?thesis
    using ends idem[OF ends] by (simp add: trimInPlace_eq trimRight_rstrip trimLeft_dropWhile trim_strip)
qed

theorem trim_correct_witness:
  "trim ''  a b '' = ''a b'' \<and> \<not> space (hd (trim ''  a b ''))"
proof -
  have e: "trim ''  a b '' = ''a b''" by code_simp
  then have "trim ''  a b '' \<noteq> []" by simp
  with trim_correct[of "''  a b ''"] e show ?thesis by blast
qed

section \<open>Case-insensitive comparison\<close>

text \<open>The key a character is compared by, and the lexicographic order of the keys.\<close>

definition ikey :: "char \<Rightarrow> int" where
  "ikey c = (let n = schar c in if in_span 65 90 n then n + 32 else n)"

lemma to_char_schar [simp]: "to_char (schar c) = c"
proof -
  have "schar c mod 256 = of_char c"
    using of_char_bounds[of c] by (auto simp: schar_def Let_def)
  then show ?thesis by (simp add: to_char_def)
qed

lemma schar_to_char: "- 128 \<le> n \<Longrightarrow> n < 128 \<Longrightarrow> schar (to_char n) = n"
proof -
  assume n: "- 128 \<le> n" "n < 128"
  have "of_char (char_of (n mod 256) :: char) = n mod 256" by (simp add: of_char_of)
  then have "schar (to_char n) = (let k = n mod 256 in if k < 128 then k else k - 256)"
    by (simp add: schar_def to_char_def)
  also have "\<dots> = n"
  proof (cases "0 \<le> n")
    case True then show ?thesis using n by simp
  next
    case False
    have "n mod 256 = (n + 256) mod 256" by simp
    also have "\<dots> = n + 256" using False n by (intro mod_pos_pos_trivial) auto
    finally show ?thesis using n by (simp add: Let_def)
  qed
  finally show ?thesis .
qed

lemma schar_bounds: "- 128 \<le> schar c" "schar c < 128"
  using of_char_bounds[of c] by (auto simp: schar_def Let_def)

lemma ikey_code: "schar (to_char (Ascii_toLower (schar c))) = ikey c"
  using schar_bounds[of c]
  by (auto simp: ikey_def Let_def Ascii_toLower_eq in_span_def intro!: schar_to_char)

lemma toLower_key: "to_char (Ascii_toLower (uchar c)) = to_char (ikey c)"
proof (cases "of_char c < (128 :: int)")
  case True
  then have "schar c = uchar c" by (simp add: schar_def uchar_def)
  then show ?thesis by (simp add: ikey_def Let_def Ascii_toLower_eq)
next
  case False
  then have "ikey c = schar c" "Ascii_toLower (uchar c) = uchar c"
    using of_char_bounds[of c]
    by (auto simp: schar_def uchar_def ikey_def in_span_def Ascii_toLower_eq int_range_def)
  then show ?thesis using False by (simp add: to_char_def schar_def uchar_def)
qed

lemma ikey_bounds: "- 128 \<le> ikey c" "ikey c < 128"
  using schar_bounds[of c] by (auto simp: ikey_def Let_def in_span_def)

lemma to_char_ikey_inj: "to_char (ikey a) = to_char (ikey b) \<longleftrightarrow> ikey a = ikey b"
  by (metis ikey_bounds schar_to_char)

lemma icompare_Cons:
  "icompare (a # s) (b # t) =
    (if ikey a < ikey b then -1 else if ikey a > ikey b then 1 else icompare s t)"
  by (simp add: ikey_code Let_def)

declare icompare.simps(1) [simp del]
declare icompare_Cons [simp]

lemma icompare_lexord:
  "icompare s t =
    (if map ikey s = map ikey t then 0
     else if (map ikey s, map ikey t) \<in> lexord {(x, y). x < y} then -1 else 1)"
proof (induction s arbitrary: t)
  case Nil then show ?case by (cases t) auto
next
  case (Cons a s) then show ?case by (cases t) auto
qed

lemma icompare_zero: "icompare s t = 0 \<longleftrightarrow> map ikey s = map ikey t"
  by (simp add: icompare_lexord)

lemma toLower_eq_iff: "toLower s = toLower t \<longleftrightarrow> map ikey s = map ikey t"
proof -
  have l: "toLower u = map (\<lambda>c. to_char (ikey c)) u" for u by (simp add: toLower_def toLower_key)
  have k: "map schar (toLower u) = map ikey u" for u by (simp add: l schar_to_char ikey_bounds)
  show ?thesis
  proof
    assume "map ikey s = map ikey t"
    then have "map to_char (map ikey s) = map to_char (map ikey t)" by simp
    then show "toLower s = toLower t" by (simp add: l comp_def)
  qed (metis k)
qed

text \<open>
  \<^verbatim>\<open>icompare\<close> is a total preorder on strings whose equivalence is equality after
  \<^verbatim>\<open>toLower\<close>: it returns 0 exactly for strings that agree in lower case, swaps its sign when its
  arguments are swapped, and is transitive.
\<close>

theorem icompare_order:
  "(icompare s t = 0 \<longleftrightarrow> toLower s = toLower t) \<and>
   icompare s t \<in> {-1, 0, 1} \<and> icompare t s = - icompare s t \<and>
   (icompare s t = -1 \<longrightarrow> icompare t u = -1 \<longrightarrow> icompare s u = -1)"
proof (intro conjI impI)
  let ?R = "lexord {(x :: int, y). x < y}"
  have tr: "trans ?R" by (rule lexord_transI) (auto intro: transI)
  have irr: "(x, x) \<notin> ?R" for x by (rule lexord_irreflexive) simp
  have lin: "\<forall>a b :: int. (a, b) \<in> {(x, y). x < y} \<or> a = b \<or> (b, a) \<in> {(x, y). x < y}" by auto
  have tot: "x = y \<or> (x, y) \<in> ?R \<or> (y, x) \<in> ?R" for x y :: "int list"
    using lexord_linear[of "{(x :: int, y). x < y}", OF lin] by blast
  have asym: "(x, y) \<in> ?R \<Longrightarrow> (y, x) \<notin> ?R" for x y using tr irr by (meson transD)
  show "icompare s t = 0 \<longleftrightarrow> toLower s = toLower t" by (simp add: icompare_zero toLower_eq_iff)
  show "icompare s t \<in> {-1, 0, 1}" by (simp add: icompare_lexord)
  show "icompare t s = - icompare s t" using tot[of "map ikey s" "map ikey t"] asym by (auto simp: icompare_lexord)
  assume "icompare s t = -1" "icompare t u = -1"
  then have "(map ikey s, map ikey t) \<in> ?R" "(map ikey t, map ikey u) \<in> ?R"
    by (auto simp: icompare_lexord split: if_splits)
  then have "(map ikey s, map ikey u) \<in> ?R" using tr by (meson transD)
  then show "icompare s u = -1" using irr by (auto simp: icompare_lexord)
qed

theorem icompare_order_witness:
  "icompare ''ABc'' ''abD'' = -1 \<and> icompare ''ABc'' ''abe'' = -1"
  using icompare_order[of "''ABc''" "''abD''" "''abe''"] by (simp add: ikey_def schar_def in_span_def)

text \<open>
  The overload with a position and a length compares the intended part of the string as long
  as \<^verbatim>\<open>pos + n\<close> does not wrap around; with \<^verbatim>\<open>n = npos\<close> and a position inside a string it builds an
  end iterator outside of it.
\<close>

theorem icompare_pos_correct:
  "(pos + n < SIZE_MOD \<longrightarrow> length s < SIZE_MOD \<longrightarrow>
      icompare_pos s pos n t = Ret (icompare (take n (drop pos s)) t)) \<and>
   (0 < pos \<and> pos \<le> length s \<and> length s < SIZE_MOD \<longrightarrow> icompare_pos s pos (SIZE_MOD - 1) t = UB)"
proof (intro conjI impI)
  assume "pos + n < SIZE_MOD" "length s < SIZE_MOD"
  then show "icompare_pos s pos n t = Ret (icompare (take n (drop pos s)) t)"
    by (auto simp: icompare_pos_def Let_def min_def)
next
  assume a: "0 < pos \<and> pos \<le> length s \<and> length s < SIZE_MOD"
  then have "(pos + (SIZE_MOD - 1)) mod SIZE_MOD = pos - 1"
  proof -
    have e: "pos + (SIZE_MOD - 1) = (pos - 1) + SIZE_MOD" using a by linarith
    show ?thesis unfolding e mod_add_self2 using a by (intro mod_less) linarith
  qed
  then show "icompare_pos s pos (SIZE_MOD - 1) t = UB" using a by (auto simp: icompare_pos_def Let_def)
qed

theorem icompare_pos_correct_witness:
  "icompare_pos ''xAB'' 1 2 ''ab'' = Ret 0 \<and> icompare_pos ''xAB'' 1 (SIZE_MOD - 1) ''ab'' = UB"
  using icompare_pos_correct[of 1 2 "''xAB''" "''ab''"]
  by (simp add: ikey_def schar_def in_span_def SIZE_MOD_def)

section \<open>Replacement, translation and concatenation\<close>

text \<open>The reference for \<^verbatim>\<open>replace\<close>: non-overlapping matches from left to right.\<close>

function subst_all :: "string \<Rightarrow> string \<Rightarrow> string \<Rightarrow> string" where
  "subst_all pat to s =
    (if s = [] \<or> pat = [] then s
     else if take (length pat) s = pat then to @ subst_all pat to (drop (length pat) s)
     else hd s # subst_all pat to (tl s))"
  by pat_completeness auto
termination by (relation "measure (\<lambda>(pat, to, s). length s)") auto

declare subst_all.simps [simp del]

lemma subst_all_short: "length s < length pat \<Longrightarrow> subst_all pat to s = s"
proof (induction pat to s rule: subst_all.induct)
  case (1 pat to s)
  show ?case
  proof (cases s)
    case Nil then show ?thesis by (simp add: subst_all.simps)
  next
    case (Cons c r)
    moreover have "take (length pat) s \<noteq> pat" using "1.prems" by auto
    ultimately show ?thesis using "1.prems" "1.IH"(2) by (subst subst_all.simps) auto
  qed
qed

lemma find_str_None: "find_str str pat pos = None \<Longrightarrow> pat \<noteq> [] \<Longrightarrow>
    subst_all pat to (drop pos str) = drop pos str"
proof (induction str pat pos rule: find_str.induct)
  case (1 str pat pos)
  show ?case
  proof (cases "pos + length pat > length str")
    case True then show ?thesis using "1.prems"(2) by (intro subst_all_short) (cases pat, auto)
  next
    case False
    with "1.prems" have m: "take (length pat) (drop pos str) \<noteq> pat" "find_str str pat (Suc pos) = None"
      by (auto simp: find_str.simps[of str pat pos] split: if_splits)
    have c: "drop pos str = str ! pos # drop (Suc pos) str"
      using False "1.prems"(2) by (intro Cons_nth_drop_Suc[symmetric]) (cases pat, auto)
    have "subst_all pat to (drop (Suc pos) str) = drop (Suc pos) str"
      using False m "1.prems"(2) by (intro "1.IH") auto
    then show ?thesis using m(1) "1.prems"(2) unfolding c by (subst subst_all.simps) simp
  qed
qed

lemma find_str_Some: "find_str str pat pos = Some p \<Longrightarrow> pat \<noteq> [] \<Longrightarrow>
    subst_all pat to (drop pos str) =
      take (p - pos) (drop pos str) @ to @ subst_all pat to (drop (p + length pat) str)"
proof (induction str pat pos rule: find_str.induct)
  case (1 str pat pos)
  show ?case
  proof (cases "take (length pat) (drop pos str) = pat")
    case True
    with "1.prems" have "p = pos" by (auto simp: find_str.simps[of str pat pos] split: if_splits)
    moreover have "drop pos str \<noteq> []" using True "1.prems"(2) by (metis take_Nil)
    ultimately show ?thesis using True "1.prems"(2)
      by (subst subst_all.simps) (simp add: add.commute)
  next
    case False
    with "1.prems" have m: "\<not> pos + length pat > length str" "find_str str pat (Suc pos) = Some p"
      by (auto simp: find_str.simps[of str pat pos] split: if_splits)
    have c: "drop pos str = str ! pos # drop (Suc pos) str"
      using m "1.prems"(2) by (intro Cons_nth_drop_Suc[symmetric]) (cases pat, auto)
    have "Suc pos \<le> p" using find_str_bounds[OF m(2)] by simp
    then have d: "p - pos = Suc (p - Suc pos)" by simp
    have "subst_all pat to (drop (Suc pos) str) =
        take (p - Suc pos) (drop (Suc pos) str) @ to @ subst_all pat to (drop (p + length pat) str)"
      using False m "1.prems"(2) by (intro "1.IH") auto
    then show ?thesis using False "1.prems"(2) unfolding c d by (subst subst_all.simps) simp
  qed
qed

lemma replace_loop_eq:
  "pat \<noteq> [] \<Longrightarrow> start \<le> length str \<Longrightarrow>
     replace_loop str pat to start res = Inr (res @ subst_all pat to (drop start str))"
proof (induction str pat to start res rule: replace_loop.induct)
  case (1 str pat to start res)
  show ?case
  proof (cases "find_str str pat start")
    case None
    then show ?thesis using "1.prems" find_str_None[OF None "1.prems"(1)]
      by (subst replace_loop.simps) simp
  next
    case (Some p)
    then have "replace_loop str pat to (p + length pat) (res @ take (p - start) (drop start str) @ to) =
        Inr ((res @ take (p - start) (drop start str) @ to) @ subst_all pat to (drop (p + length pat) str))"
      using "1.prems" find_str_bounds[OF Some] by (intro "1.IH") auto
    then show ?thesis using Some "1.prems" find_str_Some[OF Some "1.prems"(1)]
      by (subst replace_loop.simps) simp
  qed
qed

lemma find_char_None: "find_str s [c] k = None \<longleftrightarrow> c \<notin> set (drop k s)"
proof (induction s "[c]" k rule: find_str.induct)
  case (1 s k)
  show ?case
  proof (cases "k < length s")
    case True
    then have "drop k s = s ! k # drop (Suc k) s" by (rule Cons_nth_drop_Suc[symmetric])
    then show ?thesis using True 1 by (subst find_str.simps) auto
  next
    case False then show ?thesis by (subst find_str.simps) auto
  qed
qed

lemma replace_char_update:
  "from \<noteq> to \<Longrightarrow> to \<noteq> CHR 0x00 \<Longrightarrow> replace_char str from to start =
     take start str @ map (\<lambda>c. if c = from then to else c) (drop start str)"
proof (induction str "from" to start rule: replace_char.induct)
  case (1 str fr to start)
  show ?case
  proof (cases "find_str str [fr] start")
    case None
    then have "map (\<lambda>c. if c = fr then to else c) (drop start str) = drop start str"
      by (intro map_idI) (auto simp: find_char_None)
    then show ?thesis using None "1.prems" by (subst replace_char.simps) simp
  next
    case (Some p)
    note b = find_char_nth[OF Some]
    have "replace_char str fr to start = replace_char (str[p := to]) fr to start"
      using Some "1.prems" by (subst replace_char.simps) simp
    also have "\<dots> = take start (str[p := to]) @ map (\<lambda>c. if c = fr then to else c) (drop start (str[p := to]))"
      using Some "1.prems" "1.IH"[OF _ Some] by simp
    also have "map (\<lambda>c. if c = fr then to else c) (drop start (str[p := to])) =
        map (\<lambda>c. if c = fr then to else c) (drop start str)"
      using b by (intro nth_equalityI) (auto simp: nth_list_update)
    finally show ?thesis using b by simp
  qed
qed

lemma drop_erase:
  "k \<le> p \<Longrightarrow> p < length s \<Longrightarrow> drop k (take p s @ drop (Suc p) s) = take (p - k) (drop k s) @ drop (Suc p) s"
  by (simp add: drop_take)

lemma replace_char_erase:
  "from \<noteq> CHR 0x00 \<Longrightarrow> replace_char str from (CHR 0x00) start =
     take start str @ filter (\<lambda>c. c \<noteq> from) (drop start str)"
proof (induction str "from" "CHR 0x00" start rule: replace_char.induct)
  case (1 str fr start)
  show ?case
  proof (cases "find_str str [fr] start")
    case None
    then have "filter (\<lambda>c. c \<noteq> fr) (drop start str) = drop start str"
      by (intro filter_True) (auto simp: find_char_None)
    then show ?thesis using None "1.prems" by (subst replace_char.simps) simp
  next
    case (Some p)
    note b = find_char_nth[OF Some]
    let ?s = "take p str @ drop (Suc p) str"
    have "replace_char str fr (CHR 0x00) start = replace_char ?s fr (CHR 0x00) start"
      using Some "1.prems" by (subst replace_char.simps) simp
    also have "\<dots> = take start ?s @ filter (\<lambda>c. c \<noteq> fr) (drop start ?s)"
      using Some "1.prems" "1.hyps"[OF _ Some] by simp
    also have "drop start ?s = take (p - start) (drop start str) @ drop (Suc p) str"
      using b by (intro drop_erase) auto
    also have "filter (\<lambda>c. c \<noteq> fr) \<dots> = filter (\<lambda>c. c \<noteq> fr) (drop start str)"
    proof -
      have "drop start str = take (p - start) (drop start str) @ str ! p # drop (Suc p) str"
        using b id_take_nth_drop[of "p - start" "drop start str"] diff_less_mono[of p "length str" start] by simp
      then have "filter (\<lambda>c. c \<noteq> fr) (drop start str) =
          filter (\<lambda>c. c \<noteq> fr) (take (p - start) (drop start str) @ str ! p # drop (Suc p) str)"
        by (rule arg_cong)
      then show ?thesis using b by simp
    qed
    finally show ?thesis using b by (simp add: min_def)
  qed
qed

text \<open>
  \<^verbatim>\<open>replace\<close> substitutes the non-overlapping occurrences from left to right behind the start
  position and keeps what lies before it, for every start position in the string; an empty pattern is
  an assertion violation and a start position behind the end is \<^verbatim>\<open>std::out_of_range\<close>.  The
  character version maps, or with a zero replacement erases, every occurrence behind the start
  position.
\<close>

theorem replace_correct:
  "replace str pat to start =
    (if pat = [] then Inl AssertionViolationException
     else if start > length str then Inl StdOutOfRange
     else Inr (take start str @ subst_all pat to (drop start str))) \<and>
   replace_char str a b start =
    (if a = b then str
     else if b = CHR 0x00 then take start str @ filter (\<lambda>c. c \<noteq> a) (drop start str)
     else take start str @ map (\<lambda>c. if c = a then b else c) (drop start str))"
proof (intro conjI)
  show "replace str pat to start =
    (if pat = [] then Inl AssertionViolationException
     else if start > length str then Inl StdOutOfRange
     else Inr (take start str @ subst_all pat to (drop start str)))"
    by (auto simp: replace_def replace_loop_eq)
      (subst replace_loop.simps, subst find_str.simps, simp)
  have "replace_char str b b start = str" by (subst replace_char.simps) simp
  then show "replace_char str a b start =
    (if a = b then str
     else if b = CHR 0x00 then take start str @ filter (\<lambda>c. c \<noteq> a) (drop start str)
     else take start str @ map (\<lambda>c. if c = a then b else c) (drop start str))"
    by (auto simp: replace_char_update replace_char_erase)
qed

text \<open>The reference for concatenation with a delimiter.\<close>

fun join :: "string \<Rightarrow> string list \<Rightarrow> string" where
  "join d [] = []"
| "join d (p # ps) = p @ concat (map (\<lambda>q. d @ q) ps)"

lemma cat_fold: "r \<noteq> [] \<Longrightarrow> foldl (cat_step d) r ps = r @ concat (map (\<lambda>q. d @ q) ps)"
  by (induction ps arbitrary: r) (auto simp: cat_step_def)

lemma cat_step_Nil [simp]: "cat_step d [] p = p"
  by (simp add: cat_step_def)

lemma find_char_shift: "find_str (x # s) [c] (Suc k) = map_option Suc (find_str s [c] k)"
proof (induction s "[c]" k rule: find_str.induct)
  case (1 s k)
  then show ?case
    by (subst (1 2) find_str.simps) (auto simp: find_str.simps[of s "[c]" k])
qed

lemma translate_char:
  "(case find_str pat [c] 0 of None \<Rightarrow> [c] | Some pos \<Rightarrow> if pos < length to then [to ! pos] else []) =
   (if c \<notin> set pat then [c] else case map_of (zip pat to) c of Some d \<Rightarrow> [d] | None \<Rightarrow> [])"
proof (induction pat arbitrary: to)
  case Nil
  then show ?case by (simp add: find_str.simps)
next
  case (Cons x pat)
  have f: "find_str (x # pat) [c] 0 = (if x = c then Some 0 else map_option Suc (find_str pat [c] 0))"
    by (subst find_str.simps) (simp add: find_char_shift)
  show ?case
  proof (cases "x = c")
    case True then show ?thesis using f by (cases to) auto
  next
    case False
    then show ?thesis using f Cons.IH[of "tl to"] find_char_None[of pat c 0]
      by (cases to) (auto split: option.splits)
  qed
qed

text \<open>
  \<^verbatim>\<open>cat\<close> with a delimiter joins the strings, but drops the delimiter behind leading empty
  strings; \<^verbatim>\<open>translate\<close> maps each character through the correspondence of its two alphabets and
  removes those without a counterpart.
\<close>

theorem cat_translate_correct:
  "cat_delim d ps = join d (dropWhile (\<lambda>p. p = []) ps) \<and>
   translate str pat to =
     concat (map (\<lambda>c. if c \<notin> set pat then [c]
                       else case map_of (zip pat to) c of Some e \<Rightarrow> [e] | None \<Rightarrow> []) str)"
proof (intro conjI)
  show "cat_delim d ps = join d (dropWhile (\<lambda>p. p = []) ps)"
    unfolding cat_delim_def by (induction ps) (auto simp: cat_fold)
qed (simp only: translate_def translate_char)

end
