(* ===== verification/NumStr.thy ===== *)
theory NumStr
  imports AsciiString
begin

text \<open>
  \<^verbatim>\<open>Poco/NumericString.h\<close> with its clients \<^verbatim>\<open>NumberParser\<close> and \<^verbatim>\<open>NumberFormatter\<close>: checked
  integer casts and multiplication, conversion of integers to strings in bases 2 to 16 with
  padding, prefix and thousand separators, and back.

  The template parameter of the code is a value of type \<open>int_type\<close> (signedness and number of bits);
  an integer of that type is an \<open>int\<close> in its range, and every conversion and unsigned operation
  reduces modulo two to the number of bits.  \<^verbatim>\<open>std::from_chars\<close> is modelled after the C++ standard.
\<close>

section \<open>Integer types, checked casts and multiplication\<close>

record int_type =
  it_signed :: bool
  it_bits :: nat

definition it_min :: "int_type \<Rightarrow> int" where
  "it_min T = (if it_signed T then - (2 ^ (it_bits T - 1)) else 0)"

definition it_max :: "int_type \<Rightarrow> int" where
  "it_max T = (if it_signed T then 2 ^ (it_bits T - 1) - 1 else 2 ^ it_bits T - 1)"

definition in_type :: "int_type \<Rightarrow> int \<Rightarrow> bool" where
  "in_type T v \<longleftrightarrow> it_min T \<le> v \<and> v \<le> it_max T"

definition type_ok :: "int_type \<Rightarrow> bool" where
  "type_ok T \<longleftrightarrow> 1 < it_bits T \<and> it_bits T \<le> 64"

text \<open>The value of an integer converted to a type (\<^verbatim>\<open>static_cast\<close>).\<close>

definition cast_to :: "int_type \<Rightarrow> int \<Rightarrow> int" where
  "cast_to T v =
    (let m = v mod 2 ^ it_bits T
     in if it_signed T \<and> m \<ge> 2 ^ (it_bits T - 1) then m - 2 ^ it_bits T else m)"

definition t_int :: int_type where "t_int = \<lparr>it_signed = True, it_bits = 32\<rparr>"
definition t_unsigned :: int_type where "t_unsigned = \<lparr>it_signed = False, it_bits = 32\<rparr>"
definition t_int64 :: int_type where "t_int64 = \<lparr>it_signed = True, it_bits = 64\<rparr>"
definition t_uint64 :: int_type where "t_uint64 = \<lparr>it_signed = False, it_bits = 64\<rparr>"

definition isNegative :: "int_type \<Rightarrow> int \<Rightarrow> bool" where
  "isNegative T x \<longleftrightarrow> it_signed T \<and> x < 0"

text \<open>\<^verbatim>\<open>uintmax_t\<close> and \<^verbatim>\<open>intmax_t\<close> have 64 bits.\<close>

definition isIntOverflow :: "int_type \<Rightarrow> int_type \<Rightarrow> int \<Rightarrow> bool" where
  "isIntOverflow To From val \<longleftrightarrow>
    (if it_signed To then
       \<not> it_signed From \<and> cast_to t_uint64 val > cast_to t_uint64 (it_max t_int64) \<or>
       cast_to t_int64 val < cast_to t_int64 (it_min To) \<or>
       cast_to t_int64 val > cast_to t_int64 (it_max To)
     else
       isNegative From val \<or> cast_to t_uint64 val > cast_to t_uint64 (it_max To))"

definition isSafeIntCast :: "int_type \<Rightarrow> int_type \<Rightarrow> int \<Rightarrow> bool" where
  "isSafeIntCast To From v \<longleftrightarrow> \<not> isIntOverflow To From v"

definition safeIntCast :: "int_type \<Rightarrow> int_type \<Rightarrow> int \<Rightarrow> int result" where
  "safeIntCast To From v =
    (if \<not> isIntOverflow To From v then Inr (cast_to To v) else Inl BadCastException)"

text \<open>
  Arithmetic conversions: operands narrower than \<^verbatim>\<open>int\<close> are promoted to it; of two promoted types
  the wider wins, and of two of the same width the unsigned one.  \<^verbatim>\<open>std::common_type_t\<close> of two equal
  types is that type, otherwise the type of the converted operands.
\<close>

definition promote :: "int_type \<Rightarrow> int_type" where
  "promote T = (if it_bits T < 32 then t_int else T)"

definition arith_type :: "int_type \<Rightarrow> int_type \<Rightarrow> int_type" where
  "arith_type A B =
    (let a = promote A; b = promote B in
     if it_bits a = it_bits b then a\<lparr>it_signed := it_signed a \<and> it_signed b\<rparr>
     else if it_bits a > it_bits b then a else b)"

definition common_type :: "int_type \<Rightarrow> int_type \<Rightarrow> int_type" where
  "common_type A B = (if A = B then A else arith_type A B)"

text \<open>Division of C++ truncates towards zero.\<close>

definition c_div :: "int \<Rightarrow> int \<Rightarrow> int" where
  "c_div a b = sgn a * sgn b * (\<bar>a\<bar> div \<bar>b\<bar>)"

text \<open>A signed multiplication that overflows is undefined behaviour.\<close>

definition c_mult :: "int_type \<Rightarrow> int_type \<Rightarrow> int \<Rightarrow> int \<Rightarrow> int outcome" where
  "c_mult F S f s =
    (let T = arith_type F S; p = cast_to T f * cast_to T s in
     if it_signed T \<and> \<not> in_type T p then UB else Ret (cast_to T p))"

definition safeMultiply :: "int_type \<Rightarrow> int_type \<Rightarrow> int_type \<Rightarrow> int \<Rightarrow> int \<Rightarrow> int option outcome" where
  "safeMultiply R F S f s =
    (let CT = common_type (common_type R F) S;
         castc = cast_to CT;
         rejected =
           (if it_signed F \<or> it_signed S then
              if f > 0 then
                if s > 0 then castc f > c_div (castc (it_max R)) (castc s)
                else castc s < c_div (castc (it_min R)) (castc f)
              else
                if s > 0 then castc f < c_div (castc (it_min R)) (castc s)
                else castc s < c_div (castc (it_max R)) (castc f)
            else castc f > c_div (castc (it_max R)) (castc s))
     in if f = 0 \<or> s = 0 then Ret (Some 0)
        else if rejected then Ret None
        else case c_mult F S f s of
               Ret p \<Rightarrow> Ret (Some (cast_to R p))
             | Throw e \<Rightarrow> Throw e
             | UB \<Rightarrow> UB)"

section \<open>String to integer\<close>

text \<open>The value of a digit character in a base, if it is one (letters in either case).\<close>

definition digit_val :: "nat \<Rightarrow> char \<Rightarrow> nat option" where
  "digit_val base c =
    (let n = of_char c;
         d = (if 48 \<le> n \<and> n \<le> 57 then n - 48
              else if 97 \<le> n \<and> n \<le> 122 then n - 87
              else if 65 \<le> n \<and> n \<le> 90 then n - 55
              else 36)
     in if d < base then Some d else None)"

definition num_val :: "nat \<Rightarrow> string \<Rightarrow> nat" where
  "num_val base s = foldl (\<lambda>a c. a * base + the (digit_val base c)) 0 s"

text \<open>
  \<^verbatim>\<open>std::from_chars\<close>: an optional minus sign (for signed types only), then as many digits as match.
  The result is an invalid argument when there is no digit, out of range when the number does not fit
  the type, and otherwise the number with the unread rest.
\<close>

datatype fc_result = FC_invalid | FC_range | FC_ok int string

definition from_chars :: "int_type \<Rightarrow> nat \<Rightarrow> string \<Rightarrow> fc_result" where
  "from_chars T base s =
    (let neg = (it_signed T \<and> s \<noteq> [] \<and> hd s = CHR ''-'');
         body = (if neg then tl s else s);
         ds = takeWhile (\<lambda>c. digit_val base c \<noteq> None) body;
         v = (if neg then - int (num_val base ds) else int (num_val base ds))
     in if ds = [] then FC_invalid
        else if \<not> in_type T v then FC_range
        else FC_ok v (drop (length ds) body))"

definition POCO_MAX_INT_STRING_LEN :: nat where
  "POCO_MAX_INT_STRING_LEN = 67"

text \<open>
  The loop that strips thousand separators into the buffer \<^verbatim>\<open>cleaned\<close>; \<open>None\<close> is the early return
  for an input that does not fit.
\<close>

fun strip_sep :: "char \<Rightarrow> string \<Rightarrow> string \<Rightarrow> string option" where
  "strip_sep thSep [] cleaned = Some cleaned"
| "strip_sep thSep (c # src) cleaned =
    (if c \<noteq> thSep then
       if length cleaned \<ge> POCO_MAX_INT_STRING_LEN - 1 then None
       else strip_sep thSep src (cleaned @ [c])
     else strip_sep thSep src cleaned)"

text \<open>\<^verbatim>\<open>strToInt\<close> on a character range; \<open>None\<close> is the result \<^verbatim>\<open>false\<close>.\<close>

definition strToInt_range :: "int_type \<Rightarrow> string \<Rightarrow> nat \<Rightarrow> char \<Rightarrow> int option" where
  "strToInt_range T s base thSep =
    (if s = [] then None
     else if hd s = CHR ''-'' \<and> (base \<noteq> 10 \<or> \<not> it_signed T) then None
     else
       let start = (if hd s = CHR ''+'' then tl s else s) in
       if start = [] then None
       else case from_chars T base start of
         FC_invalid \<Rightarrow> None
       | FC_range \<Rightarrow> None
       | FC_ok v rest \<Rightarrow>
           if rest = [] then Some v
           else if thSep = CHR 0x00 \<or> base \<noteq> 10 then None
           else case strip_sep thSep start [] of
             None \<Rightarrow> None
           | Some cleaned \<Rightarrow>
               if cleaned = [] then None
               else case from_chars T base cleaned of
                      FC_ok v2 rest2 \<Rightarrow> if rest2 = [] then Some v2 else None
                    | _ \<Rightarrow> None)"

text \<open>\<^verbatim>\<open>std::isspace\<close> in the default locale.\<close>

definition isspace :: "char \<Rightarrow> bool" where
  "isspace c \<longleftrightarrow> (let n = uchar c in 9 \<le> n \<and> n \<le> 13 \<or> n = 32)"

definition strToInt :: "int_type \<Rightarrow> string \<Rightarrow> nat \<Rightarrow> char \<Rightarrow> int option" where
  "strToInt T str base thSep = strToInt_range T (dropWhile isspace str) base thSep"

definition strToInt_cstr :: "int_type \<Rightarrow> string \<Rightarrow> nat \<Rightarrow> char \<Rightarrow> int option" where
  "strToInt_cstr T p base thSep = strToInt_range T (dropWhile isspace (cstr p)) base thSep"

section \<open>Integer to string\<close>

definition kDigitPairs :: string where
  "kDigitPairs =
    ''00010203040506070809'' @
    ''10111213141516171819'' @
    ''20212223242526272829'' @
    ''30313233343536373839'' @
    ''40414243444546474849'' @
    ''50515253545556575859'' @
    ''60616263646566676869'' @
    ''70717273747576777879'' @
    ''80818283848586878889'' @
    ''90919293949596979899''"

definition kDigitsUpper :: string where "kDigitsUpper = ''0123456789ABCDEF''"
definition kDigitsLower :: string where "kDigitsLower = ''0123456789abcdef''"

text \<open>
  The digit loops write the characters behind each other, the lowest digit first; each function
  gives what its loop writes.  \<open>dec_loop\<close> is the path without separators, \<open>dec_sep_loop\<close> the one
  that counts digits for the separator, \<open>shift_loop\<close> and \<open>div_loop\<close> are the generic bases.
\<close>

lemma div_decreases: "0 < n div b \<Longrightarrow> 1 < b \<Longrightarrow> n div b < (n :: nat)"
  by (cases n) auto

fun dec_loop :: "nat \<Rightarrow> string" where
  "dec_loop uval =
    (if uval \<ge> 100 then
       let q = uval div 100; r = uval - q * 100
       in kDigitPairs ! (r * 2 + 1) # kDigitPairs ! (r * 2) # dec_loop q
     else if uval \<ge> 10 then [kDigitPairs ! (uval * 2 + 1), kDigitPairs ! (uval * 2)]
     else [to_char (48 + int uval)])"

fun dec_sep_loop :: "char \<Rightarrow> nat \<Rightarrow> nat \<Rightarrow> string" where
  "dec_sep_loop thSep uval thCount =
    (if uval \<ge> 100 then
       let q = uval div 100; r = uval - q * 100;
           s1 = thCount + 1 = 3;
           thCount1 = (if s1 then 0 else thCount + 1);
           s2 = (thCount1 + 1 = 3 \<and> q \<noteq> 0);
           thCount2 = (if s2 then 0 else thCount1 + 1)
       in kDigitPairs ! (r * 2 + 1) # (if s1 then [thSep] else []) @
          kDigitPairs ! (r * 2) # (if s2 then [thSep] else []) @ dec_sep_loop thSep q thCount2
     else if uval \<ge> 10 then
       kDigitPairs ! (uval * 2 + 1) # (if thCount + 1 = 3 then [thSep] else []) @ [kDigitPairs ! (uval * 2)]
     else [to_char (48 + int uval)])"

function shift_loop :: "string \<Rightarrow> nat \<Rightarrow> nat \<Rightarrow> string" where
  "shift_loop digits shift uval =
    (let mask = 2 ^ shift - 1;
         c = digits ! (uval AND mask);
         uval' = drop_bit shift uval
     in if shift = 0 \<or> uval' = 0 then [c] else c # shift_loop digits shift uval')"
  by pat_completeness auto
termination
  by (relation "measure (\<lambda>(digits, shift, uval). uval)") (auto simp: drop_bit_eq_div intro!: div_decreases one_less_power)

function div_loop :: "string \<Rightarrow> nat \<Rightarrow> nat \<Rightarrow> string" where
  "div_loop digits base uval =
    (let q = uval div base;
         c = digits ! (uval - q * base)
     in if base < 2 \<or> q = 0 then [c] else c # div_loop digits base q)"
  by pat_completeness auto
termination by (relation "measure (\<lambda>(digits, base, uval). uval)") (auto intro: div_decreases)

declare dec_loop.simps [simp del] dec_sep_loop.simps [simp del] shift_loop.simps [simp del]
  div_loop.simps [simp del]

definition digit_phase :: "nat \<Rightarrow> nat \<Rightarrow> char \<Rightarrow> bool \<Rightarrow> string" where
  "digit_phase base uval thSep lowercase =
    (if base = 10 then
       if thSep \<noteq> CHR 0x00 then dec_sep_loop thSep uval 0 else dec_loop uval
     else
       let digits = (if lowercase then kDigitsLower else kDigitsUpper) in
       if base AND (base - 1) = 0 then
         shift_loop digits (if base = 2 then 1 else if base = 4 then 2 else if base = 8 then 3 else 4) uval
       else div_loop digits base uval)"

text \<open>\<^verbatim>\<open>while (ptr - result < w) *ptr++ = c\<close>.\<close>

definition pad_to :: "int \<Rightarrow> char \<Rightarrow> string \<Rightarrow> string" where
  "pad_to w c s = s @ replicate (nat (w - int (length s))) c"

text \<open>
  \<^verbatim>\<open>intToStr\<close> into a buffer of \<open>capacity\<close> characters.  The phases write one character after the
  other; writing past the buffer is \<open>UB\<close>, filling it completely leaves no room for the terminator
  and throws.  The pair is the function's result and the buffer's text.
\<close>

definition unsigned_of :: "int_type \<Rightarrow> int \<Rightarrow> nat" where
  "unsigned_of T v =
    (if it_signed T \<and> v < 0 then nat ((- (v mod 2 ^ it_bits T)) mod 2 ^ it_bits T)
     else nat (v mod 2 ^ it_bits T))"

definition intToStr_chars :: "int_type \<Rightarrow> int \<Rightarrow> nat \<Rightarrow> bool \<Rightarrow> int \<Rightarrow> char \<Rightarrow> char \<Rightarrow> bool \<Rightarrow> string" where
  "intToStr_chars T v base prefix width fill thSep lowercase =
    (let negative = (it_signed T \<and> v < 0);
         p2 = digit_phase base (unsigned_of T v) thSep lowercase;
         w = width - (if negative then 1 else 0) - (if prefix \<and> base = 8 then 1 else 0)
                   - (if prefix \<and> base = 16 then 2 else 0);
         p3 = (if fill = CHR ''0'' then pad_to w (CHR ''0'') p2 else p2);
         p4 = p3 @ (if prefix \<and> base = 8 then ''0'' else if prefix \<and> base = 16 then ''x0'' else [])
                 @ (if negative then ''-'' else []);
         p5 = (if fill \<noteq> CHR ''0'' then pad_to width fill p4 else p4)
     in p5)"

definition intToStr :: "int_type \<Rightarrow> int \<Rightarrow> nat \<Rightarrow> nat \<Rightarrow> bool \<Rightarrow> int \<Rightarrow> char \<Rightarrow> char \<Rightarrow> bool \<Rightarrow> (bool \<times> string) outcome" where
  "intToStr T v base capacity prefix width fill thSep lowercase =
    (if base < 2 \<or> base > 16 then if capacity = 0 then UB else Ret (False, [])
     else if width \<ge> int capacity then Throw RangeException
     else
       let p5 = intToStr_chars T v base prefix width fill thSep lowercase
       in if length p5 > capacity then UB
          else if length p5 = capacity then Throw RangeException
          else Ret (True, rev p5))"

text \<open>
  The overload with a \<^verbatim>\<open>std::string\<close> result assigns \<^verbatim>\<open>size\<close> characters of its zeroed buffer; for an
  invalid base \<^verbatim>\<open>size\<close> is still the capacity.
\<close>

definition intToStr_string :: "int_type \<Rightarrow> int \<Rightarrow> nat \<Rightarrow> bool \<Rightarrow> int \<Rightarrow> char \<Rightarrow> char \<Rightarrow> bool \<Rightarrow> (bool \<times> string) outcome" where
  "intToStr_string T v base prefix width fill thSep lowercase =
    (case intToStr T v base POCO_MAX_INT_STRING_LEN prefix width fill thSep lowercase of
       Ret (True, s) \<Rightarrow> Ret (True, s)
     | Ret (False, s) \<Rightarrow> Ret (False, replicate POCO_MAX_INT_STRING_LEN (CHR 0x00))
     | Throw e \<Rightarrow> Throw e
     | UB \<Rightarrow> UB)"

section \<open>NumberParser and NumberFormatter\<close>

definition orSyntax :: "'a option \<Rightarrow> 'a result" where
  "orSyntax r = (case r of Some v \<Rightarrow> Inr v | None \<Rightarrow> Inl SyntaxException)"

definition tryParse :: "string \<Rightarrow> char \<Rightarrow> int option" where
  "tryParse s thSep = strToInt t_int s 10 thSep"

definition parse :: "string \<Rightarrow> char \<Rightarrow> int result" where
  "parse s thSep = orSyntax (tryParse s thSep)"

definition tryParseUnsigned :: "string \<Rightarrow> char \<Rightarrow> int option" where
  "tryParseUnsigned s thSep = strToInt t_unsigned s 10 thSep"

definition parseUnsigned :: "string \<Rightarrow> char \<Rightarrow> int result" where
  "parseUnsigned s thSep = orSyntax (tryParseUnsigned s thSep)"

text \<open>\<^verbatim>\<open>tryParseHex\<close> skips white space and one \<^verbatim>\<open>0x\<close> prefix that is followed by something.\<close>

definition skip_hex_prefix :: "string \<Rightarrow> string" where
  "skip_hex_prefix s =
    (let b = dropWhile isspace s in
     if length b > 2 \<and> b ! 0 = CHR ''0'' \<and> (b ! 1 = CHR ''x'' \<or> b ! 1 = CHR ''X'') then drop 2 b else b)"

definition tryParseHex :: "string \<Rightarrow> int option" where
  "tryParseHex s = strToInt_range t_unsigned (skip_hex_prefix s) 16 CHR '',''"

definition parseHex :: "string \<Rightarrow> int result" where
  "parseHex s = orSyntax (tryParseHex s)"

definition tryParseOct :: "string \<Rightarrow> int option" where
  "tryParseOct s = strToInt t_unsigned s 8 CHR '',''"

definition parseOct :: "string \<Rightarrow> int result" where
  "parseOct s = orSyntax (tryParseOct s)"

definition tryParse64 :: "string \<Rightarrow> char \<Rightarrow> int option" where
  "tryParse64 s thSep = strToInt t_int64 s 10 thSep"

definition parse64 :: "string \<Rightarrow> char \<Rightarrow> int result" where
  "parse64 s thSep = orSyntax (tryParse64 s thSep)"

definition tryParseUnsigned64 :: "string \<Rightarrow> char \<Rightarrow> int option" where
  "tryParseUnsigned64 s thSep = strToInt t_uint64 s 10 thSep"

definition parseUnsigned64 :: "string \<Rightarrow> char \<Rightarrow> int result" where
  "parseUnsigned64 s thSep = orSyntax (tryParseUnsigned64 s thSep)"

definition tryParseHex64 :: "string \<Rightarrow> int option" where
  "tryParseHex64 s = strToInt_range t_uint64 (skip_hex_prefix s) 16 CHR '',''"

definition parseHex64 :: "string \<Rightarrow> int result" where
  "parseHex64 s = orSyntax (tryParseHex64 s)"

definition tryParseOct64 :: "string \<Rightarrow> int option" where
  "tryParseOct64 s = strToInt t_uint64 s 8 CHR '',''"

definition parseOct64 :: "string \<Rightarrow> int result" where
  "parseOct64 s = orSyntax (tryParseOct64 s)"

definition tryParseBool :: "string \<Rightarrow> bool option" where
  "tryParseBool s =
    (case tryParse s CHR '','' of
       Some n \<Rightarrow> Some (n \<noteq> 0)
     | None \<Rightarrow>
         if icompare_cstr s ''true'' = 0 then Some True
         else if icompare_cstr s ''yes'' = 0 then Some True
         else if icompare_cstr s ''on'' = 0 then Some True
         else if icompare_cstr s ''false'' = 0 then Some False
         else if icompare_cstr s ''no'' = 0 then Some False
         else if icompare_cstr s ''off'' = 0 then Some False
         else None)"

definition parseBool :: "string \<Rightarrow> bool result" where
  "parseBool s = orSyntax (tryParseBool s)"

datatype BoolFormat = FMT_TRUE_FALSE | FMT_YES_NO | FMT_ON_OFF

definition format_bool :: "bool \<Rightarrow> BoolFormat \<Rightarrow> string" where
  "format_bool value fmt =
    (case fmt of
       FMT_YES_NO \<Rightarrow> if value then ''yes'' else ''no''
     | FMT_ON_OFF \<Rightarrow> if value then ''on'' else ''off''
     | FMT_TRUE_FALSE \<Rightarrow> if value then ''true'' else ''false'')"

definition cleared :: "(bool \<times> string) outcome \<Rightarrow> string outcome" where
  "cleared r = (case r of Ret (ok, s) \<Rightarrow> Ret (if ok then s else []) | Throw e \<Rightarrow> Throw e | UB \<Rightarrow> UB)"

text \<open>The overloads for the integer types differ in the type only.\<close>

definition nf_format :: "int_type \<Rightarrow> int \<Rightarrow> string outcome" where
  "nf_format T value = cleared (intToStr_string T value 10 False (-1) CHR '' '' CHR 0x00 False)"

definition nf_format_width :: "int_type \<Rightarrow> int \<Rightarrow> int \<Rightarrow> string outcome" where
  "nf_format_width T value width = cleared (intToStr_string T value 10 False width CHR '' '' CHR 0x00 False)"

definition nf_format0 :: "int_type \<Rightarrow> int \<Rightarrow> int \<Rightarrow> string outcome" where
  "nf_format0 T value width = cleared (intToStr_string T value 10 False width CHR ''0'' CHR 0x00 False)"

definition nf_formatHex :: "int_type \<Rightarrow> int \<Rightarrow> bool \<Rightarrow> bool \<Rightarrow> string outcome" where
  "nf_formatHex T value prefix lowercase =
    (let U = T\<lparr>it_signed := False\<rparr>
     in cleared (intToStr_string U (cast_to U value) 16 prefix (-1) CHR '' '' CHR 0x00 lowercase))"

definition nf_formatHex_width :: "int_type \<Rightarrow> int \<Rightarrow> int \<Rightarrow> bool \<Rightarrow> bool \<Rightarrow> string outcome" where
  "nf_formatHex_width T value width prefix lowercase =
    (let U = T\<lparr>it_signed := False\<rparr>
     in cleared (intToStr_string U (cast_to U value) 16 prefix width CHR ''0'' CHR 0x00 lowercase))"

definition NF_MAX_INT_STRING_LEN :: nat where
  "NF_MAX_INT_STRING_LEN = 32"

definition appended :: "string \<Rightarrow> (bool \<times> string) outcome \<Rightarrow> string outcome" where
  "appended str r = (case r of Ret (ok, s) \<Rightarrow> Ret (if ok then str @ s else str) | Throw e \<Rightarrow> Throw e | UB \<Rightarrow> UB)"

definition nf_append :: "int_type \<Rightarrow> string \<Rightarrow> int \<Rightarrow> string outcome" where
  "nf_append T str value =
    appended str (intToStr T value 10 NF_MAX_INT_STRING_LEN False (-1) CHR '' '' CHR 0x00 False)"

definition nf_append_width :: "int_type \<Rightarrow> string \<Rightarrow> int \<Rightarrow> int \<Rightarrow> string outcome" where
  "nf_append_width T str value width =
    appended str (intToStr T value 10 NF_MAX_INT_STRING_LEN False width CHR '' '' CHR 0x00 False)"

definition nf_append0 :: "int_type \<Rightarrow> string \<Rightarrow> int \<Rightarrow> int \<Rightarrow> string outcome" where
  "nf_append0 T str value width =
    appended str (intToStr T value 10 NF_MAX_INT_STRING_LEN False width CHR ''0'' CHR 0x00 False)"

definition nf_appendHex :: "int_type \<Rightarrow> string \<Rightarrow> int \<Rightarrow> bool \<Rightarrow> string outcome" where
  "nf_appendHex T str value lowercase =
    (let U = T\<lparr>it_signed := False\<rparr>
     in appended str (intToStr U (cast_to U value) 16 NF_MAX_INT_STRING_LEN False (-1) CHR '' '' CHR 0x00 lowercase))"

definition nf_appendHex_width :: "int_type \<Rightarrow> string \<Rightarrow> int \<Rightarrow> int \<Rightarrow> bool \<Rightarrow> string outcome" where
  "nf_appendHex_width T str value width lowercase =
    (let U = T\<lparr>it_signed := False\<rparr>
     in appended str (intToStr U (cast_to U value) 16 NF_MAX_INT_STRING_LEN False width CHR ''0'' CHR 0x00 lowercase))"

section \<open>Reference digits\<close>

text \<open>The digits of a number, the lowest first, and their value.\<close>

function rdigits :: "nat \<Rightarrow> nat \<Rightarrow> nat list" where
  "rdigits b n = (if b < 2 \<or> n < b then [n] else n mod b # rdigits b (n div b))"
  by pat_completeness auto
termination by (relation "measure (\<lambda>(b, n). n)") auto

declare rdigits.simps [simp del]

lemma rdigits_less: "1 < b \<Longrightarrow> d \<in> set (rdigits b n) \<Longrightarrow> d < b"
proof (induction b n rule: rdigits.induct)
  case (1 b n)
  then show ?case by (cases "n < b") (auto simp: rdigits.simps[of b n])
qed

lemma rdigits_nonempty [simp]: "rdigits b n \<noteq> []"
  by (subst rdigits.simps) auto

lemma rdigits_len: "1 < b \<Longrightarrow> n < b ^ k \<Longrightarrow> 0 < k \<Longrightarrow> length (rdigits b n) \<le> k"
proof (induction k arbitrary: n)
  case (Suc k)
  show ?case
  proof (cases "n < b")
    case True then show ?thesis by (simp add: rdigits.simps)
  next
    case False
    then have "k \<noteq> 0" using Suc.prems by (intro notI) simp
    moreover have "n div b < b ^ k" using Suc.prems by (simp add: less_mult_imp_div_less mult.commute)
    ultimately have "length (rdigits b (n div b)) \<le> k" using Suc by simp
    then show ?thesis using False Suc.prems(1) by (subst rdigits.simps) simp
  qed
qed simp

lemma rdigits_foldr: "1 < b \<Longrightarrow> foldr (\<lambda>d a. a * b + d) (rdigits b n) 0 = n"
proof (induction b n rule: rdigits.induct)
  case (1 b n)
  then show ?case
    by (cases "n < b") (auto simp: rdigits.simps[of b n] div_mult_mod_eq)
qed

definition digit_char :: "bool \<Rightarrow> nat \<Rightarrow> char" where
  "digit_char lowercase d = (if lowercase then kDigitsLower else kDigitsUpper) ! d"

lemma digit_char_all:
  "list_all (\<lambda>d. digit_val 16 (digit_char False d) = Some d) [0..<16]"
  "list_all (\<lambda>d. digit_val 16 (digit_char True d) = Some d) [0..<16]"
  by (simp_all add: upt_conv_Cons digit_val_def digit_char_def kDigitsUpper_def kDigitsLower_def)

lemma digit_val_mono: "digit_val 16 c = Some d \<Longrightarrow> d < b \<Longrightarrow> digit_val b c = Some d"
  by (auto simp: digit_val_def Let_def split: if_splits)

lemma digit_val_char: "b \<le> 16 \<Longrightarrow> d < b \<Longrightarrow> digit_val b (digit_char lc d) = Some d"
proof -
  assume a: "b \<le> 16" "d < b"
  then have "digit_val 16 (digit_char lc d) = Some d"
    using digit_char_all unfolding list_all_iff set_upt by (cases lc) auto
  then show ?thesis using a by (blast intro: digit_val_mono)
qed

lemma digit_pairs_all:
  "list_all (\<lambda>r. kDigitPairs ! (r * 2 + 1) = digit_char False (r mod 10) \<and>
     kDigitPairs ! (r * 2) = digit_char False (r div 10)) [0..<100]"
  by code_simp

lemma digit_pairs: "r < 100 \<Longrightarrow> kDigitPairs ! (r * 2 + 1) = digit_char False (r mod 10)"
    "r < 100 \<Longrightarrow> kDigitPairs ! (r * 2) = digit_char False (r div 10)"
  using digit_pairs_all unfolding list_all_iff set_upt by (meson atLeastLessThan_iff le0)+

lemma small_digit_all: "list_all (\<lambda>d. to_char (48 + int d) = digit_char False d) [0..<10]"
  by code_simp

lemma small_digit: "d < 10 \<Longrightarrow> to_char (48 + int d) = digit_char False d"
  using small_digit_all unfolding list_all_iff set_upt by (meson atLeastLessThan_iff le0)

lemma rdigits_two: "100 \<le> n \<Longrightarrow> rdigits 10 n = n mod 10 # (n div 10) mod 10 # rdigits 10 (n div 100)"
  by (subst rdigits.simps, subst rdigits.simps) (auto simp: div_mult2_eq[of n 10 10, simplified])

lemma rdigits_mid: "10 \<le> n \<Longrightarrow> n < 100 \<Longrightarrow> rdigits 10 n = [n mod 10, n div 10]"
  by (subst rdigits.simps, subst rdigits.simps) auto

lemma rdigits_one: "n < b \<Longrightarrow> rdigits b n = [n]"
  by (subst rdigits.simps) simp

lemma rem100: "n - n div 100 * 100 = n mod (100 :: nat)"
  by (simp add: minus_div_mult_eq_mod)

lemma mod_100_10: "n mod 100 mod 10 = n mod (10 :: nat)" "n mod 100 div 10 = (n div 10) mod (10 :: nat)"
proof -
  have "n mod 100 = 10 * (n div 10 mod 10) + n mod 10" using mod_mult2_eq[of n 10 10] by simp
  then show "n mod 100 mod 10 = n mod 10" "n mod 100 div 10 = (n div 10) mod 10" by simp_all
qed

lemma dec_loop_digits: "dec_loop n = map (digit_char False) (rdigits 10 n)"
proof (induction n rule: dec_loop.induct)
  case (1 n)
  consider "100 \<le> n" | "10 \<le> n" "n < 100" | "n < 10" by linarith
  then show ?case
  proof cases
    case 1
    then have "dec_loop (n div 100) = map (digit_char False) (rdigits 10 (n div 100))"
      using "1.IH" by simp
    then show ?thesis using 1
      by (subst dec_loop.simps) (simp add: Let_def rem100 digit_pairs[simplified] mod_100_10 rdigits_two)
  next
    case 2 then show ?thesis by (subst dec_loop.simps) (simp add: digit_pairs[simplified] rdigits_mid)
  next
    case 3 then show ?thesis by (subst dec_loop.simps) (simp add: small_digit rdigits_one)
  qed
qed

lemma div_loop_digits: "1 < b \<Longrightarrow> div_loop digits b n = map ((!) digits) (rdigits b n)"
proof (induction digits b n rule: div_loop.induct)
  case (1 digits b n)
  show ?case
  proof (cases "n < b")
    case True then show ?thesis by (subst div_loop.simps) (simp add: rdigits_one)
  next
    case False
    then have "0 < n div b" using 1 by (simp add: div_greater_zero_iff)
    then show ?thesis using 1 False
      by (subst div_loop.simps, subst rdigits.simps) (simp add: Let_def minus_div_mult_eq_mod)
  qed
qed

lemma shift_loop_digits: "0 < k \<Longrightarrow> shift_loop digits k n = map ((!) digits) (rdigits (2 ^ k) n)"
proof (induction digits k n rule: shift_loop.induct)
  case (1 digits k n)
  have m: "n AND (2 ^ k - 1) = n mod 2 ^ k"
    using take_bit_eq_mask[of k n] take_bit_eq_mod[of k n] mask_eq_exp_minus_1[of k, where 'a = nat] by simp
  have b: "1 < (2 :: nat) ^ k" using "1.prems" by (intro one_less_power) auto
  show ?case
  proof (cases "n < 2 ^ k")
    case True then show ?thesis using m by (subst shift_loop.simps) (simp add: rdigits_one drop_bit_eq_div Let_def)
  next
    case False
    then have "0 < n div 2 ^ k" by (simp add: div_greater_zero_iff)
    then show ?thesis using 1 False b m
      by (subst shift_loop.simps, subst rdigits.simps) (simp add: Let_def drop_bit_eq_div)
  qed
qed

text \<open>The separator is inserted behind every third digit that another digit follows.\<close>

fun group :: "char \<Rightarrow> nat \<Rightarrow> string \<Rightarrow> string" where
  "group sep k [] = []"
| "group sep k [d] = [d]"
| "group sep k (d # e # ds) = (if k = 2 then d # sep # group sep 0 (e # ds) else d # group sep (k + 1) (e # ds))"

lemma rdigits_map_cons: "\<exists>d ds. map f (rdigits b n) = d # ds"
  by (cases "rdigits b n") auto

lemma dec_sep_loop_digits:
  "k < 3 \<Longrightarrow> dec_sep_loop sep n k = group sep k (map (digit_char False) (rdigits 10 n))"
proof (induction sep n k rule: dec_sep_loop.induct)
  case (1 sep n k)
  consider "100 \<le> n" | "10 \<le> n" "n < 100" | "n < 10" by linarith
  then show ?case
  proof cases
    case 1
    then have q: "0 < n div 100" by (simp add: div_greater_zero_iff)
    obtain d ds where d: "map (digit_char False) (rdigits 10 (n div 100)) = d # ds"
      using rdigits_map_cons[of "digit_char False" 10 "n div 100"] by metis
    have IH: "dec_sep_loop sep (n div 100) j = group sep j (d # ds)"
      if "j = (if (if k + 1 = 3 then 0 else k + 1) + 1 = 3 \<and> n div 100 \<noteq> 0 then 0
               else (if k + 1 = 3 then 0 else k + 1) + 1)" for j
      using "1.IH"[OF 1 refl refl refl refl refl] that "1.prems" q by (simp add: d split: if_splits)
    consider "k = 0" | "k = 1" | "k = 2" using "1.prems" by linarith
    then show ?thesis using 1 q IH
      by cases (simp_all add: dec_sep_loop.simps[of sep n] Let_def rem100 digit_pairs[simplified]
          mod_100_10 rdigits_two d)
  next
    case 2 then show ?thesis using "1.prems"
      by (subst dec_sep_loop.simps) (auto simp: digit_pairs[simplified] rdigits_mid)
  next
    case 3 then show ?thesis by (subst dec_sep_loop.simps) (simp add: small_digit rdigits_one)
  qed
qed

text \<open>The digits as the reference prints them, highest first, and the formatted number.\<close>

definition ref_digits :: "nat \<Rightarrow> bool \<Rightarrow> nat \<Rightarrow> string" where
  "ref_digits base lowercase n = rev (map (digit_char (lowercase \<and> base \<noteq> 10)) (rdigits base n))"

definition ref_number :: "nat \<Rightarrow> bool \<Rightarrow> char \<Rightarrow> nat \<Rightarrow> string" where
  "ref_number base lowercase sep n =
    (if base = 10 \<and> sep \<noteq> CHR 0x00 then rev (group sep 0 (rev (ref_digits base lowercase n)))
     else ref_digits base lowercase n)"

definition ref_prefix :: "nat \<Rightarrow> bool \<Rightarrow> string" where
  "ref_prefix base prefix =
    (if prefix \<and> base = 8 then ''0'' else if prefix \<and> base = 16 then ''0x'' else [])"

definition ref_sign :: "int \<Rightarrow> string" where
  "ref_sign v = (if v < 0 then ''-'' else [])"

definition ref_format :: "int \<Rightarrow> nat \<Rightarrow> bool \<Rightarrow> int \<Rightarrow> char \<Rightarrow> char \<Rightarrow> bool \<Rightarrow> string" where
  "ref_format v base prefix width fill sep lowercase =
    (let sign = ref_sign v; pre = ref_prefix base prefix; num = ref_number base lowercase sep (nat \<bar>v\<bar>);
         pad = replicate (nat (width - int (length (sign @ pre @ num)))) fill
     in if fill = CHR ''0'' then sign @ pre @ pad @ num else pad @ sign @ pre @ num)"

lemma and_pred_list: "list_all (\<lambda>b. (b AND (b - 1) = 0) = (b \<in> {2, 4, 8, 16 :: nat})) [2..<17]"
  by code_simp

lemma and_pred: "1 < b \<Longrightarrow> b \<le> 16 \<Longrightarrow> (b AND (b - 1) = 0) = (b \<in> {2, 4, 8, 16 :: nat})"
  using and_pred_list unfolding list_all_iff set_upt by auto

lemma digit_char_fun: "digit_char lc = (!) (if lc then kDigitsLower else kDigitsUpper)"
  by (simp add: digit_char_def fun_eq_iff)

lemma digit_phase_ref:
  assumes "1 < base" "base \<le> 16"
  shows "digit_phase base u sep lc = rev (ref_number base lc sep u)"
proof (cases "base = 10")
  case True
  then show ?thesis
    by (simp add: digit_phase_def ref_number_def ref_digits_def dec_sep_loop_digits dec_loop_digits)
next
  case False
  have 2: "shift_loop (if lc then kDigitsLower else kDigitsUpper) k u = map (digit_char lc) (rdigits (2 ^ k) u)"
    if "0 < k" for k using that by (simp add: shift_loop_digits digit_char_fun)
  show ?thesis
    using False assms and_pred[OF assms] 2[of 1] 2[of 2] 2[of 3] 2[of 4]
    by (auto simp: digit_phase_def ref_number_def ref_digits_def div_loop_digits digit_char_fun Let_def)
qed

lemma in_type_bounds:
  assumes "type_ok T" "in_type T v"
  shows "- (2 ^ it_bits T) < v" "v < 2 ^ it_bits T" "\<bar>v\<bar> < 2 ^ 64" "\<not> it_signed T \<Longrightarrow> 0 \<le> v"
proof -
  have l: "(2 :: int) ^ (it_bits T - 1) < 2 ^ it_bits T"
    using assms(1) by (intro power_strict_increasing) (auto simp: type_ok_def)
  have m: "(2 :: int) ^ it_bits T \<le> 2 ^ 64"
    using assms(1) by (intro power_increasing) (auto simp: type_ok_def)
  have p: "(0 :: int) < 2 ^ it_bits T" by simp
  show "- (2 ^ it_bits T) < v" "v < 2 ^ it_bits T"
    using assms(2) l p unfolding in_type_def it_min_def it_max_def by (simp_all only: split: if_splits) linarith+
  then show "\<bar>v\<bar> < 2 ^ 64" using m by linarith
  show "\<not> it_signed T \<Longrightarrow> 0 \<le> v" using assms(2) by (simp add: in_type_def it_min_def)
qed

lemma unsigned_of_abs: "type_ok T \<Longrightarrow> in_type T v \<Longrightarrow> unsigned_of T v = nat \<bar>v\<bar>"
proof -
  assume a: "type_ok T" "in_type T v"
  note b = in_type_bounds[OF a]
  show ?thesis
  proof (cases "v < 0")
    case True
    then have s: "it_signed T" using b by auto
    have "(- (v mod 2 ^ it_bits T)) mod 2 ^ it_bits T = (- v) mod 2 ^ it_bits T" by (simp add: mod_minus_eq)
    also have "\<dots> = - v" using True b by simp
    finally show ?thesis using True s by (simp add: unsigned_of_def)
  next
    case False then show ?thesis using b by (simp add: unsigned_of_def)
  qed
qed

lemma group_len: "length (group sep k ds) \<le> 2 * length ds"
  by (induction sep k ds rule: group.induct) auto

lemma ref_number_len:
  assumes "1 < base" "base \<le> 16" "n < 2 ^ 64"
  shows "0 < length (ref_number base lc sep n)" "length (ref_number base lc sep n) \<le> 64"
    and "base = 10 \<Longrightarrow> length (ref_number base lc sep n) \<le> 40"
    and "base = 10 \<Longrightarrow> sep = CHR 0x00 \<Longrightarrow> length (ref_number base lc sep n) \<le> 20"
    and "base = 8 \<Longrightarrow> length (ref_number base lc sep n) \<le> 22"
    and "base = 16 \<Longrightarrow> length (ref_number base lc sep n) \<le> 16"
proof -
  have g: "0 < length (group sep 0 ds)" if "ds \<noteq> []" for ds
    using that by (cases ds; cases "tl ds") auto
  have l: "length (ref_digits base lc n) \<le> k" if "n < base ^ k" "0 < k" for k
    using rdigits_len[OF assms(1) that] by (simp add: ref_digits_def)
  have "(2 :: nat) ^ 64 \<le> base ^ 64" using assms(1) by (intro power_mono) auto
  then have l64: "length (ref_digits base lc n) \<le> 64" using l[of 64] assms(3) by simp
  have l20: "length (ref_digits base lc n) \<le> 20" if "base = 10"
    using l[of 20] that assms(3) by simp
  show "0 < length (ref_number base lc sep n)"
    using g[of "rev (ref_digits base lc n)"] by (auto simp: ref_number_def ref_digits_def)
  show 10: "length (ref_number base lc sep n) \<le> 40" if "base = 10"
    using l20[OF that] group_len[of sep 0 "rev (ref_digits base lc n)"] unfolding ref_number_def by auto
  show "length (ref_number base lc sep n) \<le> 64"
    using 10 l64 by (cases "base = 10") (auto simp: ref_number_def)
  show "length (ref_number base lc sep n) \<le> 20" if "base = 10" "sep = CHR 0x00"
    using l20 that by (simp add: ref_number_def)
  show "length (ref_number base lc sep n) \<le> 22" if "base = 8"
    using l[of 22] that assms(3) by (simp add: ref_number_def)
  show "length (ref_number base lc sep n) \<le> 16" if "base = 16"
    using l[of 16] that assms(3) by (simp add: ref_number_def)
qed

lemma intToStr_chars_ref:
  assumes "type_ok T" "in_type T v" "1 < base" "base \<le> 16"
  shows "rev (intToStr_chars T v base prefix width fill sep lc) = ref_format v base prefix width fill sep lc"
proof -
  have n: "(it_signed T \<and> v < 0) = (v < 0)" using in_type_bounds(4)[OF assms(1,2)] by linarith
  have p: "digit_phase base (unsigned_of T v) sep lc = rev (ref_number base lc sep (nat \<bar>v\<bar>))"
    using assms by (simp add: digit_phase_ref unsigned_of_abs)
  have e: "width - int (Suc a) = width - 1 - int a" for a by simp
  show ?thesis
    unfolding intToStr_chars_def n p ref_format_def
    by (auto simp: Let_def pad_to_def ref_sign_def ref_prefix_def algebra_simps)
qed

lemma ref_format_len:
  assumes "type_ok T" "in_type T v" "1 < base" "base \<le> 16" "width < 67"
  shows "length (ref_format v base prefix width fill sep lc) < 67"
proof -
  have b: "nat \<bar>v\<bar> < 2 ^ 64" using in_type_bounds(3)[OF assms(1,2)] by (simp add: nat_less_iff)
  note l = ref_number_len[OF assms(3,4) b]
  have "length (ref_sign v @ ref_prefix base prefix @ ref_number base lc sep (nat \<bar>v\<bar>)) < 67"
    using l(2,5,6)[of lc sep] by (auto simp: ref_sign_def ref_prefix_def)
  then show ?thesis using assms(5) by (auto simp: ref_format_def Let_def)
qed

text \<open>
  \<^verbatim>\<open>intToStr\<close> prints every value of every integer type in every base from 2 to 16 as the
  reference does: sign, prefix, padding to the requested width and the digits of the absolute
  value, with thousand separators in base 10.  With the buffer of \<^verbatim>\<open>POCO_MAX_INT_STRING_LEN\<close>
  characters that the string overload uses, no value overflows the buffer; a width that does not fit
  it is a \<^verbatim>\<open>RangeException\<close>.
\<close>

theorem intToStr_correct:
  assumes "type_ok T" "in_type T v" "1 < base" "base \<le> 16"
  shows "intToStr_string T v base prefix width fill sep lc =
    (if width \<ge> int POCO_MAX_INT_STRING_LEN then Throw RangeException
     else Ret (True, ref_format v base prefix width fill sep lc))"
proof (cases "width \<ge> int POCO_MAX_INT_STRING_LEN")
  case True
  then show ?thesis using assms by (simp add: intToStr_string_def intToStr_def)
next
  case False
  then have "length (ref_format v base prefix width fill sep lc) < 67"
    using assms by (intro ref_format_len[of T]) (auto simp: POCO_MAX_INT_STRING_LEN_def)
  then have "length (intToStr_chars T v base prefix width fill sep lc) < 67"
    using intToStr_chars_ref[OF assms, of prefix width fill sep lc] by (metis length_rev)
  then show ?thesis
    using False assms intToStr_chars_ref[OF assms, of prefix width fill sep lc]
    by (simp add: intToStr_string_def intToStr_def POCO_MAX_INT_STRING_LEN_def Let_def)
qed

theorem intToStr_correct_witness:
  "intToStr_string t_int (-2147483648) 10 False 16 CHR '' '' CHR '','' False = Ret (True, ''  -2,147,483,648'') \<and>
   intToStr_string t_unsigned 48879 16 True 10 CHR ''0'' CHR 0x00 True = Ret (True, ''0x0000beef'')"
proof -
  have t: "type_ok t_int" "type_ok t_unsigned" "in_type t_int (-2147483648)" "in_type t_unsigned 48879"
    by (simp_all add: type_ok_def in_type_def it_min_def it_max_def t_int_def t_unsigned_def)
  have p: "replicate 2 c = [c, c]" "replicate 4 c = [c, c, c, c]" for c :: char
    by (simp_all add: numeral_eq_Suc)
  have r: "ref_format (-2147483648) 10 False 16 CHR '' '' CHR '','' False = ''  -2,147,483,648''"
    "ref_format 48879 16 True 10 CHR ''0'' CHR 0x00 True = ''0x0000beef''"
    by (simp_all add: ref_format_def ref_sign_def ref_prefix_def ref_number_def ref_digits_def
        rdigits.simps digit_char_def kDigitsUpper_def kDigitsLower_def Let_def p)
  show ?thesis
    using intToStr_correct[OF t(1,3), of 10 False 16 "CHR '' ''" "CHR '',''" False]
      intToStr_correct[OF t(2,4), of 16 True 10 "CHR ''0''" "CHR 0x00" True]
    by (simp add: r POCO_MAX_INT_STRING_LEN_def)
qed

section \<open>Reading numbers back\<close>

abbreviation is_digit :: "nat \<Rightarrow> char \<Rightarrow> bool" where
  "is_digit b c \<equiv> digit_val b c \<noteq> None"

lemma num_val_Nil [simp]: "num_val b [] = 0"
  by (simp add: num_val_def)

lemma num_val_snoc: "num_val b (s @ [c]) = num_val b s * b + the (digit_val b c)"
  by (simp add: num_val_def)

lemma num_val_append: "num_val b (s @ t) = num_val b s * b ^ length t + num_val b t"
proof (induction t rule: rev_induct)
  case (snoc c t)
  have "num_val b (s @ t @ [c]) = num_val b (s @ t) * b + the (digit_val b c)"
    using num_val_snoc[of b "s @ t" c] by simp
  then show ?case using snoc.IH by (simp add: num_val_snoc algebra_simps)
qed simp

lemma num_val_rev_map:
  "(\<And>d. d \<in> set ds \<Longrightarrow> digit_val b (f d) = Some d) \<Longrightarrow>
     num_val b (rev (map f ds)) = foldr (\<lambda>d a. a * b + d) ds 0"
  by (induction ds) (simp_all add: num_val_snoc)

lemma ref_digits_val:
  assumes "1 < b" "b \<le> 16"
  shows "num_val b (ref_digits b lc n) = n" "\<forall>c \<in> set (ref_digits b lc n). is_digit b c"
    "ref_digits b lc n \<noteq> []"
proof -
  have d: "digit_val b (digit_char l d) = Some d" if "d \<in> set (rdigits b n)" for d l
    using that assms by (simp add: digit_val_char rdigits_less)
  then show "num_val b (ref_digits b lc n) = n" "\<forall>c \<in> set (ref_digits b lc n). is_digit b c"
    using assms by (auto simp: ref_digits_def num_val_rev_map rdigits_foldr)
  show "ref_digits b lc n \<noteq> []" by (simp add: ref_digits_def)
qed

lemma zero_digit: "1 < b \<Longrightarrow> digit_val b CHR ''0'' = Some 0"
  by (simp add: digit_val_def)

lemma zeros_val: "1 < b \<Longrightarrow> num_val b (replicate k CHR ''0'') = 0"
  by (induction k) (simp_all add: num_val_def zero_digit)

lemma no_digit:
  "b \<le> 16 \<Longrightarrow> digit_val b CHR ''-'' = None" "b \<le> 16 \<Longrightarrow> digit_val b CHR ''+'' = None"
  "b \<le> 16 \<Longrightarrow> isspace c \<Longrightarrow> digit_val b c = None"
proof -
  have "isspace c \<Longrightarrow> (of_char c :: nat) \<le> 32"
  proof -
    have "(of_char c :: int) = int (of_char c)" by (simp only: of_nat_of_char)
    then show "isspace c \<Longrightarrow> (of_char c :: nat) \<le> 32" by (auto simp: isspace_def uchar_def Let_def)
  qed
  then show "b \<le> 16 \<Longrightarrow> isspace c \<Longrightarrow> digit_val b c = None" by (auto simp: digit_val_def Let_def)
qed (simp_all add: digit_val_def)

definition sg :: "bool \<Rightarrow> int" where "sg neg = (if neg then -1 else 1)"

text \<open>\<^verbatim>\<open>from_chars\<close> on a sign and a body: it reads the leading digits of the body.\<close>

lemma from_chars_body:
  assumes "body \<noteq> []" "is_digit b (hd body)" "b \<le> 16" "neg \<longrightarrow> it_signed T"
    and "in_type T (sg neg * int (num_val b (takeWhile (is_digit b) body)))"
  shows "from_chars T b ((if neg then ''-'' else []) @ body) =
    FC_ok (sg neg * int (num_val b (takeWhile (is_digit b) body))) (dropWhile (is_digit b) body)"
proof -
  have m: "hd body \<noteq> CHR ''-''" using assms(2,3) no_digit(1) by auto
  have t: "takeWhile (is_digit b) body \<noteq> []" using assms(1,2) by (cases body) auto
  show ?thesis
    using m t assms(1,4,5) by (auto simp: from_chars_def sg_def Let_def dropWhile_eq_drop)
qed

lemma strip_sep_filter:
  "length (cl @ filter (\<lambda>c. c \<noteq> sep) s) < POCO_MAX_INT_STRING_LEN \<Longrightarrow>
     strip_sep sep s cl = Some (cl @ filter (\<lambda>c. c \<noteq> sep) s)"
  by (induction sep s cl rule: strip_sep.induct) (auto split: if_splits)

lemma sg_in_type:
  assumes "type_ok T" "in_type T (sg neg * int n)" "m \<le> n"
  shows "in_type T (sg neg * int m)"
proof -
  have p: "(0 :: int) < 2 ^ (it_bits T - 1)" "(0 :: int) < 2 ^ it_bits T" by simp_all
  show ?thesis using assms p unfolding in_type_def it_min_def it_max_def sg_def
    by (simp split: if_splits)
qed

lemma strToInt_body:
  assumes T: "type_ok T" "b \<le> 16" "neg \<longrightarrow> it_signed T \<and> b = 10"
    and body: "body \<noteq> []" "is_digit b (hd body)" "length ((if neg then ''-'' else []) @ body) < 67"
    and sep: "\<forall>c \<in> set body. is_digit b c \<or> (c = sep \<and> b = 10 \<and> sep \<noteq> CHR 0x00)"
    and sepc: "b = 10 \<longrightarrow> sep \<noteq> CHR 0x00 \<longrightarrow> \<not> is_digit 10 sep \<and> sep \<noteq> CHR ''-''"
    and v: "v = sg neg * int (num_val b (filter (is_digit b) body))" "in_type T v"
  shows "strToInt_range T ((if neg then ''-'' else []) @ body) b sep = Some v"
proof -
  let ?s = "(if neg then ''-'' else []) @ body"
  let ?d = "takeWhile (is_digit b) body" and ?r = "dropWhile (is_digit b) body"
  have plus: "hd ?s \<noteq> CHR ''+''" using body(1,2) T(2) no_digit(2) by (auto simp: hd_append)
  have minus: "hd ?s = CHR ''-'' \<longrightarrow> neg" using body(1,2) T(2) no_digit(1) by (auto simp: hd_append)
  have start: "strToInt_range T ?s b sep =
      (case from_chars T b ?s of FC_invalid \<Rightarrow> None | FC_range \<Rightarrow> None
       | FC_ok v rest \<Rightarrow> if rest = [] then Some v else if sep = CHR 0x00 \<or> b \<noteq> 10 then None
         else case strip_sep sep ?s [] of None \<Rightarrow> None
         | Some cleaned \<Rightarrow> if cleaned = [] then None
             else case from_chars T b cleaned of FC_ok v2 rest2 \<Rightarrow> if rest2 = [] then Some v2 else None
                | _ \<Rightarrow> None)"
    using plus minus T(3) body(1) by (auto simp: strToInt_range_def Let_def)
  have f: "filter (is_digit b) body = ?d @ filter (is_digit b) ?r"
    by (metis filter_append takeWhile_dropWhile_id filter_True set_takeWhileD)
  have le: "num_val b ?d \<le> num_val b (filter (is_digit b) body)"
  proof -
    have "b \<noteq> 0" using body(2) by (auto simp: digit_val_def Let_def split: if_splits)
    then have "num_val b ?d * 1 \<le> num_val b ?d * b ^ k" for k by (intro mult_le_mono2) simp
    then show ?thesis unfolding f num_val_append by (metis mult.right_neutral trans_le_add1)
  qed
  have fc: "from_chars T b ?s = FC_ok (sg neg * int (num_val b ?d)) ?r"
    using T body v sg_in_type[OF T(1) _ le] by (intro from_chars_body) auto
  show ?thesis
  proof (cases "?r = []")
    case True
    then have "filter (is_digit b) body = ?d" unfolding f True by simp
    then show ?thesis using start fc True v(1) by simp
  next
    case False
    then have "\<not> is_digit b (hd ?r)" by (rule hd_dropWhile)
    moreover have "hd ?r \<in> set body" using False by (metis hd_in_set set_dropWhileD)
    ultimately have b10: "b = 10" "sep \<noteq> CHR 0x00" using sep by auto
    have keep: "filter (\<lambda>c. c \<noteq> sep) body = filter (is_digit b) body"
      using sep sepc b10 by (intro filter_cong) auto
    let ?cl = "filter (is_digit b) body"
    have sc: "filter (\<lambda>c. c \<noteq> sep) ?s = (if neg then ''-'' else []) @ ?cl"
      using keep sepc b10 by auto
    have len: "length (filter (\<lambda>c. c \<noteq> sep) ?s) < POCO_MAX_INT_STRING_LEN"
      using le_less_trans[OF length_filter_le body(3)] by (simp add: POCO_MAX_INT_STRING_LEN_def)
    have cl: "strip_sep sep ?s [] = Some ((if neg then ''-'' else []) @ ?cl)"
      using strip_sep_filter[of "[]" sep ?s] len sc by simp
    have ne: "?cl \<noteq> []" "is_digit b (hd ?cl)" using body(1,2) by (cases body; simp)+
    have tw: "takeWhile (is_digit b) ?cl = ?cl" by (simp add: takeWhile_eq_all_conv)
    have fc2: "from_chars T b ((if neg then ''-'' else []) @ ?cl) = FC_ok v []"
      using from_chars_body[of ?cl b neg T] ne T v unfolding tw by simp
    show ?thesis unfolding start fc using False b10 cl fc2 ne(1) by auto
  qed
qed

lemma group_digits:
  "sep \<notin> set ds \<Longrightarrow> filter (\<lambda>c. c \<noteq> sep) (group sep k ds) = ds"
  "set (group sep k ds) \<subseteq> insert sep (set ds)"
  "ds \<noteq> [] \<Longrightarrow> last (group sep k ds) = last ds \<and> group sep k ds \<noteq> []"
  by (induction sep k ds rule: group.induct) auto

lemma ref_number_parts:
  assumes "1 < b" "b \<le> 16" "b = 10 \<longrightarrow> sep \<noteq> CHR 0x00 \<longrightarrow> \<not> is_digit 10 sep"
  shows "ref_number b lc sep n \<noteq> []" "is_digit b (hd (ref_number b lc sep n))"
    and "\<forall>c \<in> set (ref_number b lc sep n). is_digit b c \<or> (c = sep \<and> b = 10 \<and> sep \<noteq> CHR 0x00)"
    and "filter (is_digit b) (ref_number b lc sep n) = ref_digits b lc n"
proof -
  let ?d = "ref_digits b lc n"
  note r = ref_digits_val[OF assms(1,2), of lc n]
  have ds: "rev ?d \<noteq> []" using r(3) by simp
  have f: "filter (is_digit b) (group sep 0 (rev ?d)) = rev ?d" if "b = 10" "sep \<noteq> CHR 0x00"
  proof -
    have "sep \<notin> set (rev ?d)" using r(2) assms(3) that by auto
    then have "filter (\<lambda>c. c \<noteq> sep) (group sep 0 (rev ?d)) = rev ?d" by (rule group_digits(1))
    moreover have "filter (is_digit b) (group sep 0 (rev ?d)) = filter (\<lambda>c. c \<noteq> sep) (group sep 0 (rev ?d))"
      using group_digits(2)[of sep 0 "rev ?d"] r(2) assms(3) that by (intro filter_cong) auto
    ultimately show ?thesis by simp
  qed
  show "ref_number b lc sep n \<noteq> []" using group_digits(3)[OF ds] ds by (auto simp: ref_number_def)
  show "is_digit b (hd (ref_number b lc sep n))"
    using group_digits(3)[OF ds, of sep 0] ds r(2,3) by (auto simp: ref_number_def hd_rev last_rev)
  show "\<forall>c \<in> set (ref_number b lc sep n). is_digit b c \<or> (c = sep \<and> b = 10 \<and> sep \<noteq> CHR 0x00)"
    using group_digits(2)[of sep 0 "rev ?d"] r(2) by (auto simp: ref_number_def)
  show "filter (is_digit b) (ref_number b lc sep n) = ?d"
    using f r(2) by (auto simp: ref_number_def rev_filter[symmetric] intro: filter_True)
qed

lemma isspace_dropWhile:
  "s \<noteq> [] \<Longrightarrow> \<not> isspace (hd s) \<Longrightarrow> dropWhile isspace (replicate k CHR '' '' @ s) = s"
proof (induction k)
  case 0 then show ?case by (cases s) auto
next
  case (Suc k)
  have "isspace CHR '' ''" by (simp add: isspace_def uchar_def)
  then show ?case using Suc by simp
qed

lemma strToInt_format:
  assumes T: "type_ok T" "in_type T v" and b: "1 < b" "b \<le> 16" and nb: "v < 0 \<longrightarrow> b = 10"
    and fill: "fill = CHR '' '' \<or> fill = CHR ''0''" and w: "width < 67"
    and sep: "b = 10 \<longrightarrow> sep \<noteq> CHR 0x00 \<longrightarrow> \<not> is_digit 10 sep \<and> sep \<noteq> CHR ''-''"
  shows "strToInt T (ref_format v b False width fill sep lc) b sep = Some v"
proof -
  let ?num = "ref_number b lc sep (nat \<bar>v\<bar>)"
  define p where "p = nat (width - int (length (ref_sign v @ ?num)))"
  define k where "k = (if fill = CHR ''0'' then 0 else p)"
  define z where "z = (if fill = CHR ''0'' then p else 0)"
  let ?body = "replicate z CHR ''0'' @ ?num"
  have sgn: "ref_sign v = (if v < 0 then ''-'' else [])" by (simp add: ref_sign_def)
  have s: "ref_format v b False width fill sep lc = replicate k CHR '' '' @ ref_sign v @ ?body"
    using fill by (auto simp: ref_format_def ref_prefix_def Let_def p_def k_def z_def)
  have sep': "b = 10 \<longrightarrow> sep \<noteq> CHR 0x00 \<longrightarrow> \<not> is_digit 10 sep" using sep by simp
  note r = ref_number_parts[OF b sep', of lc "nat \<bar>v\<bar>"]
  have z0: "is_digit b CHR ''0''" using zero_digit[OF b(1)] by simp
  have hd: "is_digit b (hd ?body)" using r(2) z0 by (cases z) auto
  have ne: "?body \<noteq> []" using r(1) by simp
  have "\<not> isspace (hd (ref_sign v @ ?body))"
    using hd b no_digit(3) by (cases "v < 0") (auto simp: sgn isspace_def uchar_def)
  then have d: "dropWhile isspace (ref_format v b False width fill sep lc) = ref_sign v @ ?body"
    unfolding s using ne by (intro isspace_dropWhile) auto
  have "length (ref_format v b False width fill sep lc) < 67" using T b w by (rule ref_format_len)
  then have len: "length ((if v < 0 then ''-'' else []) @ ?body) < 67" unfolding s sgn by simp
  have f: "filter (is_digit b) ?body = replicate z CHR ''0'' @ ref_digits b lc (nat \<bar>v\<bar>)"
    using r(4) z0 by (simp add: filter_replicate)
  have val: "v = sg (v < 0) * int (num_val b (filter (is_digit b) ?body))"
    unfolding f using zeros_val[OF b(1), of z] ref_digits_val(1)[OF b, of lc "nat \<bar>v\<bar>"]
    by (simp add: num_val_append sg_def)
  have all: "\<forall>c \<in> set ?body. is_digit b c \<or> (c = sep \<and> b = 10 \<and> sep \<noteq> CHR 0x00)"
    using r(3) z0 by auto
  have sgd: "v < 0 \<longrightarrow> it_signed T \<and> b = 10" using in_type_bounds(4)[OF T] nb by linarith
  show ?thesis
    unfolding strToInt_def d sgn
    by (rule strToInt_body[OF T(1) b(2) sgd ne hd len all sep val T(2)])
qed



lemma fc_digits:
  "(let ds = takeWhile (is_digit b) w in
      if ds = [] then FC_invalid else if \<not> in_type T (f ds) then FC_range
      else FC_ok (f ds) (drop (length ds) w)) = FC_ok v [] \<longleftrightarrow>
   w \<noteq> [] \<and> list_all (is_digit b) w \<and> in_type T v \<and> v = f w"
proof (cases "list_all (is_digit b) w")
  case True
  then have t: "takeWhile (is_digit b) w = w" by (simp add: list_all_iff takeWhile_eq_all_conv)
  show ?thesis unfolding t Let_def using True by auto
next
  case False
  then have "drop (length (takeWhile (is_digit b) w)) w \<noteq> []"
    by (simp only: dropWhile_eq_drop[symmetric]) (simp add: list_all_iff)
  then show ?thesis using False by (simp only: Let_def fc_result.distinct fc_result.inject split: if_splits) blast
qed

lemma from_chars_full:
  assumes "b \<le> 16"
  shows "from_chars T b u = FC_ok v [] \<longleftrightarrow> in_type T v \<and>
    (\<exists>ds. ds \<noteq> [] \<and> list_all (is_digit b) ds \<and>
       (u = ds \<and> v = int (num_val b ds) \<or> it_signed T \<and> u = CHR ''-'' # ds \<and> v = - int (num_val b ds)))"
proof -
  have m: "\<not> list_all (is_digit b) (CHR ''-'' # w)" for w using no_digit(1)[OF assms] by simp
  show ?thesis
  proof (cases "it_signed T \<and> u \<noteq> [] \<and> hd u = CHR ''-''")
    case True
    then obtain w where u: "u = CHR ''-'' # w" by (cases u) auto
    have "from_chars T b u = FC_ok v [] \<longleftrightarrow>
        w \<noteq> [] \<and> list_all (is_digit b) w \<and> in_type T v \<and> v = - int (num_val b w)"
    proof -
      have "from_chars T b u = (let ds = takeWhile (is_digit b) w in
          if ds = [] then FC_invalid else if \<not> in_type T (- int (num_val b ds)) then FC_range
          else FC_ok (- int (num_val b ds)) (drop (length ds) w))"
        using True by (simp add: u from_chars_def Let_def)
      then show ?thesis by (simp only: fc_digits)
    qed
    then show ?thesis using True m unfolding u by blast
  next
    case False
    have "from_chars T b u = FC_ok v [] \<longleftrightarrow>
        u \<noteq> [] \<and> list_all (is_digit b) u \<and> in_type T v \<and> v = int (num_val b u)"
      unfolding from_chars_def using False fc_digits[of b u T "\<lambda>ds. int (num_val b ds)" v] by (simp only: Let_def if_False)
    then show ?thesis using False by auto
  qed
qed

definition number :: "int_type \<Rightarrow> nat \<Rightarrow> string \<Rightarrow> int \<Rightarrow> bool" where
  "number T base t v \<longleftrightarrow> in_type T v \<and>
    (\<exists>ds. ds \<noteq> [] \<and> list_all (\<lambda>c. digit_val base c \<noteq> None) ds \<and>
       (t = ds \<and> v = int (num_val base ds) \<or> it_signed T \<and> t = ''-'' @ ds \<and> v = - int (num_val base ds)))"

lemma from_chars_number: "b \<le> 16 \<Longrightarrow> from_chars T b t = FC_ok v [] \<longleftrightarrow> number T b t v"
  unfolding number_def using from_chars_full[of b T t v] by simp

lemma from_chars_prefix:
  assumes "b \<le> 16"
  shows "(\<exists>w rest. from_chars T b t = FC_ok w rest \<and> rest \<noteq> []) \<longleftrightarrow> (\<exists>p c r w. t = p @ c # r \<and> digit_val b c = None \<and> number T b p w)"
proof
  assume "\<exists>w rest. from_chars T b t = FC_ok w rest \<and> rest \<noteq> []"
  then obtain w rest where f: "from_chars T b t = FC_ok w rest" "rest \<noteq> []" by blast
  define neg where "neg = (it_signed T \<and> t \<noteq> [] \<and> hd t = CHR ''-'')"
  define body where "body = (if neg then tl t else t)"
  define ds where "ds = takeWhile (is_digit b) body"
  have d: "ds \<noteq> []" "w = (if neg then - int (num_val b ds) else int (num_val b ds))" "in_type T w" "rest = dropWhile (is_digit b) body"
    using f(1)[unfolded from_chars_def Let_def, folded neg_def, folded body_def, folded ds_def]
    by (auto simp: dropWhile_eq_drop ds_def[symmetric] simp del: not_None_eq split: if_splits)
  have "\<not> is_digit b (hd rest)" using f(2) unfolding d(4) by (rule hd_dropWhile)
  then obtain c r where c: "rest = c # r" "digit_val b c = None" using f(2) by (cases rest) auto
  have t: "t = ((if neg then ''-'' else []) @ ds) @ c # r"
    using c(1) d(4) takeWhile_dropWhile_id[of "is_digit b" body] by (cases t) (auto simp: neg_def body_def ds_def split: if_splits)
  have "list_all (is_digit b) ds" by (auto simp: ds_def list_all_iff dest: set_takeWhileD)
  then have "number T b ((if neg then ''-'' else []) @ ds) w" using d(1-3) by (auto simp: number_def neg_def)
  then show "\<exists>p c r w. t = p @ c # r \<and> digit_val b c = None \<and> number T b p w" using t c(2) by blast
next
  assume "\<exists>p c r w. t = p @ c # r \<and> digit_val b c = None \<and> number T b p w"
  then obtain p c r w where t: "t = p @ c # r" "digit_val b c = None" "number T b p w" by blast
  then obtain ds where ds: "ds \<noteq> []" "list_all (is_digit b) ds" "in_type T w"
    "p = ds \<and> w = int (num_val b ds) \<or> it_signed T \<and> p = ''-'' @ ds \<and> w = - int (num_val b ds)" by (auto simp: number_def)
  have k: "takeWhile (is_digit b) (ds @ c # r) = ds" using ds(2) t(2) by (simp add: takeWhile_append2 list_all_iff)
  have h: "hd ds \<noteq> CHR ''-''" using ds(1,2) no_digit(1)[OF assms] by (cases ds) auto
  have "from_chars T b t = FC_ok w (c # r)" using ds(4)
  proof
    assume "p = ds \<and> w = int (num_val b ds)"
    then show ?thesis using ds(1,3) h k t(1) by (simp add: from_chars_def Let_def)
  next
    assume "it_signed T \<and> p = ''-'' @ ds \<and> w = - int (num_val b ds)"
    then show ?thesis using ds(1,3) k t(1) by (simp add: from_chars_def Let_def)
  qed
  then show "\<exists>w rest. from_chars T b t = FC_ok w rest \<and> rest \<noteq> []" by blast
qed

lemma strip_sep_iff:
  "length cl < POCO_MAX_INT_STRING_LEN \<Longrightarrow> strip_sep sep s cl =
    (if length (cl @ filter (\<lambda>c. c \<noteq> sep) s) < POCO_MAX_INT_STRING_LEN then Some (cl @ filter (\<lambda>c. c \<noteq> sep) s) else None)"
  by (induction sep s cl rule: strip_sep.induct) (auto simp: POCO_MAX_INT_STRING_LEN_def)



section \<open>Checked arithmetic\<close>

lemma cast_id:
  assumes "type_ok T" "in_type T v"
  shows "cast_to T v = v"
proof -
  note b = in_type_bounds[OF assms]
  obtain k where k: "it_bits T = Suc k" using assms(1) by (cases "it_bits T") (auto simp: type_ok_def)
  show ?thesis
  proof (cases "0 \<le> v")
    case True
    then have "v mod 2 ^ it_bits T = v" using b by simp
    then show ?thesis using assms(2) by (auto simp: cast_to_def in_type_def it_max_def Let_def)
  next
    case False
    have "v mod 2 ^ it_bits T = (v + 2 ^ it_bits T) mod 2 ^ it_bits T" by simp
    also have "\<dots> = v + 2 ^ it_bits T" using False b by (intro mod_pos_pos_trivial) auto
    finally have m: "v mod 2 ^ it_bits T = v + 2 ^ it_bits T" .
    have "it_signed T" using False b(4) by auto
    then show ?thesis using assms(2) m k by (auto simp: cast_to_def in_type_def it_min_def Let_def)
  qed
qed

lemma in_type_max: "type_ok T \<Longrightarrow> in_type T (it_max T)" "type_ok T \<Longrightarrow> in_type T (it_min T)"
  by (auto simp: in_type_def it_min_def it_max_def)

lemma in_type_64:
  assumes "type_ok T"
  shows "it_signed T \<Longrightarrow> in_type T v \<Longrightarrow> in_type t_int64 v"
    and "\<not> it_signed T \<Longrightarrow> in_type T v \<Longrightarrow> in_type t_uint64 v"
    and "in_type T v \<Longrightarrow> v < 0 \<Longrightarrow> in_type t_int64 v"
    and "in_type T v \<Longrightarrow> 0 \<le> v \<Longrightarrow> in_type t_uint64 v"
proof -
  have k: "it_bits T - 1 \<le> 63" "it_bits T \<le> 64" using assms by (auto simp: type_ok_def)
  have m: "(2 :: int) ^ (it_bits T - 1) \<le> 2 ^ 63" "(2 :: int) ^ it_bits T \<le> 2 ^ 64"
    using power_increasing[OF k(1), of "2 :: int"] power_increasing[OF k(2), of "2 :: int"] by simp_all
  show "it_signed T \<Longrightarrow> in_type T v \<Longrightarrow> in_type t_int64 v"
    "\<not> it_signed T \<Longrightarrow> in_type T v \<Longrightarrow> in_type t_uint64 v"
    "in_type T v \<Longrightarrow> v < 0 \<Longrightarrow> in_type t_int64 v"
    "in_type T v \<Longrightarrow> 0 \<le> v \<Longrightarrow> in_type t_uint64 v"
    using m by (auto simp: in_type_def it_min_def it_max_def t_int64_def t_uint64_def split: if_splits)
qed

lemma ok64 [simp]: "type_ok t_int64" "type_ok t_uint64" "type_ok t_int" "type_ok t_unsigned"
  by (simp_all add: type_ok_def t_int64_def t_uint64_def t_int_def t_unsigned_def)

text \<open>
  \<^verbatim>\<open>isIntOverflow\<close> decides, for any two integer types of up to 64 bits, whether a value of the
  one is outside of the range of the other, and \<^verbatim>\<open>safeIntCast\<close> returns the unchanged value or
  throws.
\<close>

theorem safeIntCast_correct:
  assumes "type_ok To" "type_ok From" "in_type From v"
  shows "(isIntOverflow To From v \<longleftrightarrow> \<not> in_type To v) \<and>
    safeIntCast To From v = (if in_type To v then Inr v else Inl BadCastException)"
proof -
  have o: "isIntOverflow To From v \<longleftrightarrow> \<not> in_type To v"
  proof (cases "it_signed To")
    case True
    note c = cast_id[OF ok64(1) in_type_64(1)[OF assms(1) True in_type_max(1)[OF assms(1)]]]
      cast_id[OF ok64(1) in_type_64(1)[OF assms(1) True in_type_max(2)[OF assms(1)]]]
    have mx: "cast_to t_uint64 (it_max t_int64) = 2 ^ 63 - 1"
      by (simp add: cast_to_def t_uint64_def t_int64_def it_max_def)
    have le: "it_max To \<le> 2 ^ 63 - 1"
      using in_type_64(1)[OF assms(1) True in_type_max(1)[OF assms(1)]]
      by (simp add: in_type_def it_max_def t_int64_def)
    show ?thesis
    proof (cases "it_signed From")
      case sF: True
      then have "cast_to t_int64 v = v" using assms by (intro cast_id in_type_64(1)) auto
      then show ?thesis using True sF c by (auto simp: isIntOverflow_def in_type_def)
    next
      case False
      then have u: "cast_to t_uint64 v = v" "0 \<le> v"
        using cast_id[OF ok64(2) in_type_64(2)[OF assms(2) False assms(3)]] in_type_bounds(4)[OF assms(2,3)]
        by simp_all
      show ?thesis
      proof (cases "v > 2 ^ 63 - 1")
        case big: True
        then show ?thesis using True False u mx le by (simp add: isIntOverflow_def in_type_def)
      next
        case small: False
        then have "in_type t_int64 v" using u by (simp add: in_type_def it_min_def it_max_def t_int64_def)
        then have "cast_to t_int64 v = v" by (intro cast_id) simp_all
        then show ?thesis using True False small u mx c by (auto simp: isIntOverflow_def in_type_def)
      qed
    qed
  next
    case False
    have mx: "cast_to t_uint64 (it_max To) = it_max To"
      using False assms(1) in_type_max(1) by (intro cast_id in_type_64(2)) auto
    show ?thesis
    proof (cases "v < 0")
      case True
      then have "it_signed From" using in_type_bounds(4)[OF assms(2,3)] by linarith
      then show ?thesis using True False by (simp add: isIntOverflow_def isNegative_def in_type_def it_min_def)
    next
      case pos: False
      then have "cast_to t_uint64 v = v" using assms by (intro cast_id in_type_64(4)) auto
      then show ?thesis using pos False mx by (auto simp: isIntOverflow_def isNegative_def in_type_def it_min_def)
    qed
  qed
  then show ?thesis using cast_id[OF assms(1)] by (simp add: safeIntCast_def)
qed

theorem safeIntCast_correct_witness:
  "safeIntCast t_int t_uint64 4294967295 = Inl BadCastException \<and> safeIntCast t_unsigned t_int64 4294967295 = Inr 4294967295"
  using safeIntCast_correct[of t_int t_uint64 4294967295] safeIntCast_correct[of t_unsigned t_int64 4294967295]
  by (simp add: type_ok_def in_type_def it_min_def it_max_def t_int_def t_uint64_def t_unsigned_def t_int64_def)

lemma c_div_less:
  "0 < s \<Longrightarrow> 0 \<le> m \<Longrightarrow> c_div m s < f \<longleftrightarrow> m < f * s"
  "0 < f \<Longrightarrow> m \<le> 0 \<Longrightarrow> s < c_div m f \<longleftrightarrow> f * s < m"
  "f < 0 \<Longrightarrow> 0 \<le> m \<Longrightarrow> s < c_div m f \<longleftrightarrow> m < f * s"
proof -
  have d: "a div b < c \<longleftrightarrow> a < c * b" if "0 < b" for a b c :: int
  proof
    assume "a div b < c"
    then have "b * (a div b + 1) \<le> b * c" using that by (intro mult_left_mono) auto
    then have "b * (a div b) + b \<le> b * c" by (simp add: distrib_left)
    then show "a < c * b" using pos_mod_bound[OF that, of a] mult_div_mod_eq[of b a]
      by (simp only: mult.commute[of c b])
  next
    assume l: "a < c * b"
    show "a div b < c"
    proof (rule ccontr)
      assume "\<not> a div b < c"
      then have "b * c \<le> b * (a div b)" using that by (intro mult_left_mono) auto
      then show False using l pos_mod_sign[OF that, of a] mult_div_mod_eq[of b a]
        by (simp only: mult.commute[of c b])
    qed
  qed
  show "0 < s \<Longrightarrow> 0 \<le> m \<Longrightarrow> c_div m s < f \<longleftrightarrow> m < f * s"
    using d[of s m f] by (cases "m = 0") (auto simp: c_div_def)
  show "0 < f \<Longrightarrow> m \<le> 0 \<Longrightarrow> s < c_div m f \<longleftrightarrow> f * s < m"
    using d[of f "- m" "- s"] by (cases "m = 0") (auto simp: c_div_def mult.commute)
  show "f < 0 \<Longrightarrow> 0 \<le> m \<Longrightarrow> s < c_div m f \<longleftrightarrow> m < f * s"
    using d[of "- f" m "- s"] by (cases "m = 0") (auto simp: c_div_def mult.commute)
qed

lemma arith_same:
  assumes "type_ok T" "in_type T p"
  shows "in_type (arith_type T T) p" "type_ok (arith_type T T)"
proof -
  show "type_ok (arith_type T T)"
    using assms(1) by (auto simp: arith_type_def promote_def Let_def type_ok_def t_int_def)
  show "in_type (arith_type T T) p"
  proof (cases "it_bits T < 32")
    case True
    then have "it_bits T - 1 \<le> 31" "it_bits T \<le> 31" by auto
    then have "(2 :: int) ^ (it_bits T - 1) \<le> 2 ^ 31" "(2 :: int) ^ it_bits T \<le> 2 ^ 31"
      by (blast intro: power_increasing one_le_numeral)+
    then show ?thesis using True assms(2)
      by (auto simp: arith_type_def promote_def Let_def t_int_def in_type_def it_min_def it_max_def split: if_splits)
  next
    case False
    then have "arith_type T T = T" by (simp add: arith_type_def promote_def Let_def)
    then show ?thesis using assms(2) by simp
  qed
qed

text \<open>
  \<^verbatim>\<open>safeMultiply\<close> on one integer type returns the product when it is in the range of the type
  and reports failure otherwise, for every pair of values; no intermediate computation overflows.
  With a result type wider than the factors it checks against the result but multiplies in the
  factors' type: 65536 times 65536 in 32-bit factors and a 64-bit result is accepted and overflows.
\<close>

theorem safeMultiply_correct:
  assumes "type_ok T" "in_type T f" "in_type T s"
  shows "safeMultiply T T T f s = Ret (if in_type T (f * s) then Some (f * s) else None) \<and>
    safeMultiply t_int64 t_int t_int 65536 65536 = UB"
proof (intro conjI)
  have z: "in_type T 0" using assms(1) by (auto simp: in_type_def it_min_def it_max_def)
  note c = cast_id[OF assms(1,2)] cast_id[OF assms(1,3)] cast_id[OF assms(1) in_type_max(1)[OF assms(1)]]
    cast_id[OF assms(1) in_type_max(2)[OF assms(1)]]
  have mx: "it_min T \<le> 0" "0 \<le> it_max T" using z by (auto simp: in_type_def)
  have mult: "c_mult T T f s = Ret (f * s)" if "in_type T (f * s)"
    using arith_same[OF assms(1) that] arith_same[OF assms(1,2)] arith_same[OF assms(1,3)]
    by (simp add: c_mult_def Let_def cast_id)
  have sgnT: "\<not> it_signed T \<Longrightarrow> 0 \<le> f \<and> 0 \<le> s" "\<not> it_signed T \<Longrightarrow> it_min T = 0"
    using in_type_bounds(4)[OF assms(1,2)] in_type_bounds(4)[OF assms(1,3)] by (auto simp: it_min_def)
  consider (zero) "f = 0 \<or> s = 0" | (pp) "0 < f" "0 < s" | (pn) "0 < f" "s < 0"
    | (np) "f < 0" "0 < s" | (nn) "f < 0" "s < 0" by linarith
  then show "safeMultiply T T T f s = Ret (if in_type T (f * s) then Some (f * s) else None)"
  proof cases
    case zero then show ?thesis using z by (auto simp: safeMultiply_def Let_def)
  next
    case pp
    then have "in_type T (f * s) \<longleftrightarrow> \<not> c_div (it_max T) s < f"
      using mx c_div_less(1)[of s "it_max T" f] mult_pos_pos[OF pp] unfolding in_type_def by linarith
    then show ?thesis using pp mult c cast_id[OF assms(1)]
      by (auto simp: safeMultiply_def common_type_def Let_def)
  next
    case pn
    then have "in_type T (f * s) \<longleftrightarrow> \<not> s < c_div (it_min T) f"
      using mx c_div_less(2)[of f "it_min T" s] mult_pos_neg[OF pn] by (auto simp: in_type_def)
    then show ?thesis using pn mult c cast_id[OF assms(1)] sgnT
      by (auto simp: safeMultiply_def common_type_def Let_def)
  next
    case np
    then have "in_type T (f * s) \<longleftrightarrow> \<not> f < c_div (it_min T) s"
      using mx c_div_less(2)[of s "it_min T" f] mult_neg_pos[OF np] by (auto simp: in_type_def mult.commute)
    then show ?thesis using np mult c cast_id[OF assms(1)] sgnT
      by (auto simp: safeMultiply_def common_type_def Let_def)
  next
    case nn
    then have "in_type T (f * s) \<longleftrightarrow> \<not> s < c_div (it_max T) f"
      using mx c_div_less(3)[of f "it_max T" s] mult_neg_neg[OF nn] unfolding in_type_def by linarith
    then show ?thesis using nn mult c cast_id[OF assms(1)] sgnT
      by (auto simp: safeMultiply_def common_type_def Let_def)
  qed
  show "safeMultiply t_int64 t_int t_int 65536 65536 = UB"
    by (simp add: safeMultiply_def common_type_def arith_type_def promote_def c_mult_def c_div_def cast_to_def
        in_type_def it_min_def it_max_def t_int64_def t_int_def Let_def)
qed

theorem safeMultiply_correct_witness:
  "safeMultiply t_int64 t_int64 t_int64 (-9223372036854775808) (-1) = Ret None"
  using safeMultiply_correct[of t_int64 "-9223372036854775808" "-1"]
  by (simp add: type_ok_def in_type_def it_min_def it_max_def t_int64_def)

section \<open>The clients\<close>

lemma strToInt_any_sep:
  "strToInt_range T s b CHR 0x00 = Some v \<Longrightarrow> strToInt_range T s b sep = Some v"
  by (auto simp: strToInt_range_def Let_def split: if_splits fc_result.splits)

lemma intToStr_string_ref:
  assumes "type_ok T" "in_type T v" "1 < b" "b \<le> 16" "width < 67"
  shows "intToStr_string T v b prefix width fill sep lc = Ret (True, ref_format v b prefix width fill sep lc)"
proof -
  have l: "length (intToStr_chars T v b prefix width fill sep lc) < 67"
    using intToStr_chars_ref[OF assms(1-4), of prefix width fill sep lc]
      ref_format_len[OF assms, of prefix fill sep lc] by (metis length_rev)
  then show ?thesis
    using assms(3-5) intToStr_chars_ref[OF assms(1-4), of prefix width fill sep lc]
    by (simp add: intToStr_string_def intToStr_def POCO_MAX_INT_STRING_LEN_def Let_def)
qed

lemma format_parse:
  assumes "type_ok T" "in_type T v" "width < 67" "fill = CHR '' '' \<or> fill = CHR ''0''"
  shows "strToInt T (ref_format v 10 False width fill CHR 0x00 False) 10 sep = Some v"
  using strToInt_format[of T v 10 fill width "CHR 0x00" False] assms
  by (auto simp: strToInt_def intro: strToInt_any_sep)

lemma hex_body:
  assumes "0 \<le> v" "\<bar>v\<bar> < 2 ^ 64"
  obtains z where "ref_format v 16 prefix width CHR ''0'' CHR 0x00 lc =
      (if prefix then ''0x'' else []) @ replicate z CHR ''0'' @ ref_digits 16 lc (nat v)"
  using assms by (auto simp: ref_format_def ref_sign_def ref_prefix_def ref_number_def Let_def)

lemma hex_parse:
  assumes T: "type_ok T" "in_type T v" "\<not> it_signed T" "width < 67"
  shows "strToInt_range T (skip_hex_prefix (ref_format v 16 prefix width CHR ''0'' CHR 0x00 lc)) 16 sep = Some v"
proof -
  have v: "0 \<le> v" "\<bar>v\<bar> < 2 ^ 64" using in_type_bounds[OF T(1,2)] T(3) by auto
  obtain z where s: "ref_format v 16 prefix width CHR ''0'' CHR 0x00 lc =
      (if prefix then ''0x'' else []) @ replicate z CHR ''0'' @ ref_digits 16 lc (nat v)"
    using hex_body[OF v] by metis
  let ?body = "replicate z CHR ''0'' @ ref_digits 16 lc (nat v)"
  have d: "\<forall>c \<in> set ?body. is_digit 16 c" using ref_digits_val(2)[of 16 lc "nat v"] zero_digit[of 16] by auto
  have ne: "?body \<noteq> []" using ref_digits_val(3)[of 16 lc "nat v"] by simp
  have x: "CHR ''x'' \<notin> set ?body" "CHR ''X'' \<notin> set ?body"
  proof -
    have "digit_val 16 CHR ''x'' = None" "digit_val 16 CHR ''X'' = None" by (simp_all add: digit_val_def)
    then show "CHR ''x'' \<notin> set ?body" "CHR ''X'' \<notin> set ?body" using d by metis+
  qed
  have nsp: "\<not> isspace (hd ?body)" using d ne no_digit(3)[of 16] by (metis hd_in_set order_refl)
  have "skip_hex_prefix (ref_format v 16 prefix width CHR ''0'' CHR 0x00 lc) = ?body"
  proof (cases prefix)
    case True
    have "\<not> isspace CHR ''0''" by (simp add: isspace_def uchar_def)
    then show ?thesis using True ne unfolding s skip_hex_prefix_def by (simp add: Let_def)
  next
    case False
    have dw: "dropWhile isspace ?body = ?body" using nsp ne by (cases ?body) auto
    have "?body ! 1 \<noteq> CHR ''x'' \<and> ?body ! 1 \<noteq> CHR ''X''" if "2 < length ?body"
      using x nth_mem[of 1 ?body] that by auto
    moreover have s': "ref_format v 16 prefix width CHR ''0'' CHR 0x00 lc = ?body" using False s by simp
    ultimately show ?thesis unfolding skip_hex_prefix_def s' dw Let_def by auto
  qed
  moreover have "strToInt_range T ?body 16 sep = Some v"
  proof -
    have val: "v = int (num_val 16 ?body)"
      using v zeros_val[of 16 z] ref_digits_val(1)[of 16 lc "nat v"] by (simp add: num_val_append)
    have tw: "takeWhile (is_digit 16) ?body = ?body" "dropWhile (is_digit 16) ?body = []"
      using d by (simp_all only: takeWhile_eq_all_conv dropWhile_eq_Nil_conv)
    have "from_chars T 16 ?body = FC_ok v []"
      using from_chars_body[of ?body 16 False T] ne d T(2) unfolding tw val[symmetric] sg_def
      by (metis append_Nil hd_in_set mult_1 order_refl val)
    moreover have "hd ?body \<noteq> CHR ''-''" "hd ?body \<noteq> CHR ''+''"
      using d ne no_digit(1,2)[of 16] by (metis hd_in_set order_refl)+
    ultimately show ?thesis using ne by (simp add: strToInt_range_def Let_def)
  qed
  ultimately show ?thesis by simp
qed

lemma cast_in_unsigned: "type_ok T \<Longrightarrow> \<not> it_signed T \<Longrightarrow> in_type T (cast_to T v)"
  by (simp add: cast_to_def in_type_def it_min_def it_max_def Let_def)

lemma bool_words:
  "tryParse ''true'' CHR '','' = None" "tryParse ''yes'' CHR '','' = None" "tryParse ''on'' CHR '','' = None"
  "tryParse ''false'' CHR '','' = None" "tryParse ''no'' CHR '','' = None" "tryParse ''off'' CHR '','' = None"
  by (simp_all add: tryParse_def strToInt_def strToInt_range_def from_chars_def isspace_def uchar_def digit_val_def Let_def)

lemma parseBool_format: "parseBool (format_bool b f) = Inr b"
  by (cases f; cases b)
    (simp_all add: parseBool_def tryParseBool_def format_bool_def bool_words orSyntax_def icompare_cstr_def
      cstr_def ikey_def schar_def in_span_def Let_def)

text \<open>
  \<^verbatim>\<open>NumberParser\<close> inverts \<^verbatim>\<open>NumberFormatter\<close>: decimal formatting with blank or zero padding
  for the 32 and 64 bit types, hexadecimal formatting of the value as unsigned with and without
  prefix, and the three spellings of booleans.
\<close>

theorem parser_inverts_formatter:
  assumes "width < int POCO_MAX_INT_STRING_LEN"
  shows "(in_type t_int v \<longrightarrow>
      (\<exists>s. nf_format_width t_int v width = Ret s \<and> parse s CHR '','' = Inr v) \<and>
      (\<exists>s. nf_format0 t_int v width = Ret s \<and> parse s CHR '','' = Inr v)) \<and>
    (in_type t_unsigned v \<longrightarrow>
      (\<exists>s. nf_format0 t_unsigned v width = Ret s \<and> parseUnsigned s CHR '','' = Inr v)) \<and>
    (in_type t_int64 v \<longrightarrow> (\<exists>s. nf_format_width t_int64 v width = Ret s \<and> parse64 s CHR '','' = Inr v)) \<and>
    (in_type t_uint64 v \<longrightarrow> (\<exists>s. nf_format0 t_uint64 v width = Ret s \<and> parseUnsigned64 s CHR '','' = Inr v)) \<and>
    (\<exists>s. nf_formatHex_width t_int v width prefix lc = Ret s \<and> parseHex s = Inr (v mod 2 ^ 32)) \<and>
    (\<exists>s. nf_formatHex_width t_int64 v width prefix lc = Ret s \<and> parseHex64 s = Inr (v mod 2 ^ 64)) \<and>
    parseBool (format_bool b fmt) = Inr b"
proof (intro conjI impI)
  have w: "width < 67" using assms by (simp add: POCO_MAX_INT_STRING_LEN_def)
  note defs = cleared_def intToStr_string_ref[OF _ _ _ _ w, of _ _ 10] format_parse[OF _ _ w] orSyntax_def
  show "\<exists>s. nf_format_width t_int v width = Ret s \<and> parse s CHR '','' = Inr v" if "in_type t_int v"
    using that by (simp add: nf_format_width_def parse_def tryParse_def defs)
  show "\<exists>s. nf_format0 t_int v width = Ret s \<and> parse s CHR '','' = Inr v" if "in_type t_int v"
    using that by (simp add: nf_format0_def parse_def tryParse_def defs)
  show "\<exists>s. nf_format0 t_unsigned v width = Ret s \<and> parseUnsigned s CHR '','' = Inr v" if "in_type t_unsigned v"
    using that by (simp add: nf_format0_def parseUnsigned_def tryParseUnsigned_def defs)
  show "\<exists>s. nf_format_width t_int64 v width = Ret s \<and> parse64 s CHR '','' = Inr v" if "in_type t_int64 v"
    using that by (simp add: nf_format_width_def parse64_def tryParse64_def defs)
  show "\<exists>s. nf_format0 t_uint64 v width = Ret s \<and> parseUnsigned64 s CHR '','' = Inr v" if "in_type t_uint64 v"
    using that by (simp add: nf_format0_def parseUnsigned64_def tryParseUnsigned64_def defs)
  have u: "t_int\<lparr>it_signed := False\<rparr> = t_unsigned" "t_int64\<lparr>it_signed := False\<rparr> = t_uint64"
    "\<not> it_signed t_unsigned" "\<not> it_signed t_uint64"
    "cast_to t_unsigned v = v mod 2 ^ 32" "cast_to t_uint64 v = v mod 2 ^ 64"
    by (simp_all add: t_int_def t_unsigned_def t_int64_def t_uint64_def cast_to_def)
  have r: "in_type t_unsigned (v mod 2 ^ 32)" "in_type t_uint64 (v mod 2 ^ 64)"
    using cast_in_unsigned[of t_unsigned v] cast_in_unsigned[of t_uint64 v] u by auto
  show "\<exists>s. nf_formatHex_width t_int v width prefix lc = Ret s \<and> parseHex s = Inr (v mod 2 ^ 32)"
    using hex_parse[OF ok64(4) r(1) u(3) w] intToStr_string_ref[OF ok64(4) r(1) _ _ w, of 16]
    unfolding nf_formatHex_width_def u Let_def
    by (simp add: parseHex_def tryParseHex_def cleared_def orSyntax_def)
  show "\<exists>s. nf_formatHex_width t_int64 v width prefix lc = Ret s \<and> parseHex64 s = Inr (v mod 2 ^ 64)"
    using hex_parse[OF ok64(2) r(2) u(4) w] intToStr_string_ref[OF ok64(2) r(2) _ _ w, of 16]
    unfolding nf_formatHex_width_def u Let_def
    by (simp add: parseHex64_def tryParseHex64_def cleared_def orSyntax_def)
  show "parseBool (format_bool b fmt) = Inr b" by (rule parseBool_format)
qed

theorem parser_inverts_formatter_witness:
  "\<exists>s. nf_formatHex_width t_int (-1) 12 True True = Ret s \<and> parseHex s = Inr 4294967295"
  using parser_inverts_formatter[of 12 "-1" True True True FMT_YES_NO]
  by (simp add: POCO_MAX_INT_STRING_LEN_def)

lemma appended_ref:
  assumes U: "type_ok U" "in_type U x" and b: "b = 10 \<or> b = 16"
  shows "appended str (intToStr U x b NF_MAX_INT_STRING_LEN False width fill CHR 0x00 l) =
      (if width \<ge> int NF_MAX_INT_STRING_LEN then Throw RangeException
       else Ret (str @ ref_format x b False width fill CHR 0x00 l))"
proof (cases "width \<ge> int NF_MAX_INT_STRING_LEN")
  case True then show ?thesis using b by (auto simp: appended_def intToStr_def)
next
  case False
  have b': "1 < b" "b \<le> 16" using b by auto
  have n: "nat \<bar>x\<bar> < 2 ^ 64" using in_type_bounds(3)[OF U] by (simp add: nat_less_iff)
  have "length (ref_number b l CHR 0x00 (nat \<bar>x\<bar>)) \<le> 20"
    using b ref_number_len(6)[OF b' n, of l "CHR 0x00"] ref_number_len(4)[OF b' n, of "CHR 0x00" l]
    by (auto intro: order_trans)
  then have "length (ref_format x b False width fill CHR 0x00 l) < 32"
    using False by (auto simp: ref_format_def ref_sign_def ref_prefix_def Let_def NF_MAX_INT_STRING_LEN_def)
  moreover have "rev (intToStr_chars U x b False width fill CHR 0x00 l) = ref_format x b False width fill CHR 0x00 l"
    using U b' by (rule intToStr_chars_ref)
  moreover from calculation have "length (intToStr_chars U x b False width fill CHR 0x00 l) < 32"
    by (metis length_rev)
  ultimately show ?thesis using False b'
    by (simp add: appended_def intToStr_def NF_MAX_INT_STRING_LEN_def Let_def)
qed

text \<open>
  The \<^verbatim>\<open>append\<close> family formats into a stack buffer of 32 characters.  No value of an integer type
  overflows it: the formatted number is appended, or a width of 32 and more is a
  \<^verbatim>\<open>RangeException\<close>.
\<close>

theorem append_correct:
  assumes "type_ok T" "in_type T v"
  shows "nf_append_width T str v width =
      (if width \<ge> int NF_MAX_INT_STRING_LEN then Throw RangeException
       else Ret (str @ ref_format v 10 False width CHR '' '' CHR 0x00 False)) \<and>
    nf_append0 T str v width =
      (if width \<ge> int NF_MAX_INT_STRING_LEN then Throw RangeException
       else Ret (str @ ref_format v 10 False width CHR ''0'' CHR 0x00 False)) \<and>
    nf_appendHex_width T str v width lc =
      (if width \<ge> int NF_MAX_INT_STRING_LEN then Throw RangeException
       else Ret (str @ ref_format (v mod 2 ^ it_bits T) 16 False width CHR ''0'' CHR 0x00 lc))"
proof -
  have U: "type_ok (T\<lparr>it_signed := False\<rparr>)" "in_type (T\<lparr>it_signed := False\<rparr>) (cast_to (T\<lparr>it_signed := False\<rparr>) v)"
    using assms(1) by (auto simp: type_ok_def intro!: cast_in_unsigned)
  have c: "cast_to (T\<lparr>it_signed := False\<rparr>) v = v mod 2 ^ it_bits T" by (simp add: cast_to_def)
  show ?thesis
    using appended_ref[OF assms, of 10] appended_ref[OF U, of 16]
    by (simp add: nf_append_width_def nf_append0_def nf_appendHex_width_def c)
qed

theorem append_correct_witness:
  "nf_append0 t_int ''x'' (-42) 6 = Ret ''x-00042''"
proof -
  have p: "replicate 3 c = [c, c, c]" for c :: char by (simp add: numeral_eq_Suc)
  have "ref_format (-42) 10 False 6 CHR ''0'' CHR 0x00 False = ''-00042''"
    by (simp add: ref_format_def ref_sign_def ref_prefix_def ref_number_def ref_digits_def
        rdigits.simps digit_char_def kDigitsUpper_def Let_def p)
  then show ?thesis using append_correct[of t_int "-42" "''x''" 6 False]
    by (simp add: NF_MAX_INT_STRING_LEN_def in_type_def it_min_def it_max_def t_int_def type_ok_def)
qed

end
