(* ===== verification/PocoURI.thy ===== *)
theory PocoURI
  imports NumStr
begin

text \<open>
  \<^verbatim>\<open>Poco/URI.h\<close> and \<^verbatim>\<open>URI.cpp\<close>: parsing and printing of URIs, percent encoding, query
  parameters, dot-segment removal and reference resolution.

  A \<^verbatim>\<open>URI\<close> object is the record \<open>uri\<close>; a member function that modifies the object takes and
  returns it, and one that may throw returns a result.  An iterator loop that runs up to a delimiter
  is \<open>takeWhile\<close>/\<open>dropWhile\<close> on the rest of the string.
\<close>

section \<open>Encoding and decoding\<close>

definition RESERVED_PATH :: string where "RESERVED_PATH = ''?#''"
definition RESERVED_QUERY :: string where "RESERVED_QUERY = ''?#/:;+@''"
definition RESERVED_QUERY_PARAM :: string where "RESERVED_QUERY_PARAM = ''?#/:;+@&=''"
definition RESERVED_FRAGMENT :: string where "RESERVED_FRAGMENT = ''''"

definition ILLEGAL :: string where
  "ILLEGAL = ''%<>{}|'' @ [CHR 0x5C, CHR 0x22] @ ''^`!*'' @ [CHR 0x27] @ ''()$,[]''"

text \<open>\<^verbatim>\<open>NumberFormatter::formatHex((unsigned) (unsigned char) c, 2)\<close>.\<close>

definition hex2 :: "char \<Rightarrow> string" where
  "hex2 c = (case nf_formatHex_width t_unsigned (uchar c) 2 False False of Ret s \<Rightarrow> s | _ \<Rightarrow> [])"

definition unreserved :: "char \<Rightarrow> bool" where
  "unreserved c \<longleftrightarrow>
    (let n = schar c in 97 \<le> n \<and> n \<le> 122 \<or> 65 \<le> n \<and> n \<le> 90 \<or> 48 \<le> n \<and> n \<le> 57) \<or>
    c = CHR ''-'' \<or> c = CHR ''_'' \<or> c = CHR ''.'' \<or> c = CHR ''~''"

definition encode_char :: "string \<Rightarrow> char \<Rightarrow> string" where
  "encode_char reserved c =
    (if unreserved c then [c]
     else if schar c \<le> 0x20 \<or> schar c \<ge> 0x7F \<or> c \<in> set ILLEGAL \<or> c \<in> set reserved then CHR ''%'' # hex2 c
     else [c])"

definition encode :: "string \<Rightarrow> string \<Rightarrow> string" where
  "encode str reserved = concat (map (encode_char reserved) str)"

definition hex_nibble :: "char \<Rightarrow> int option" where
  "hex_nibble h =
    (let n = schar h in
     if 48 \<le> n \<and> n \<le> 57 then Some (n - 48)
     else if 65 \<le> n \<and> n \<le> 70 then Some (n - 65 + 10)
     else if 97 \<le> n \<and> n \<le> 102 then Some (n - 97 + 10)
     else None)"

fun decode_loop :: "bool \<Rightarrow> bool \<Rightarrow> string \<Rightarrow> string result" where
  "decode_loop plusAsSpace inQuery [] = Inr []"
| "decode_loop plusAsSpace inQuery (c # it) =
    (let inQuery = (inQuery \<or> c = CHR ''?'') in
     if inQuery \<and> plusAsSpace \<and> c = CHR ''+'' then
       rbind (decode_loop plusAsSpace inQuery it) (\<lambda>r. Inr (CHR '' '' # r))
     else if c = CHR ''%'' then
       (case it of
          hi # lo # it' \<Rightarrow>
            (case hex_nibble hi of
               None \<Rightarrow> Inl URISyntaxException
             | Some h \<Rightarrow>
                 (case hex_nibble lo of
                    None \<Rightarrow> Inl URISyntaxException
                  | Some l \<Rightarrow>
                      rbind (decode_loop plusAsSpace inQuery it')
                        (\<lambda>r. Inr (to_char (schar (to_char (h * 16)) + l) # r))))
        | _ \<Rightarrow> Inl URISyntaxException)
     else rbind (decode_loop plusAsSpace inQuery it) (\<lambda>r. Inr (c # r)))"

definition decode :: "string \<Rightarrow> bool \<Rightarrow> string result" where
  "decode str plusAsSpace = decode_loop plusAsSpace False str"

section \<open>The URI object\<close>

record uri =
  scheme :: string
  userInfo :: string
  host :: string
  port :: nat
  path :: string
  query :: string
  fragment :: string

definition uri_clear :: uri where
  "uri_clear = \<lparr>scheme = [], userInfo = [], host = [], port = 0, path = [], query = [], fragment = []\<rparr>"

definition isRelative :: "uri \<Rightarrow> bool" where
  "isRelative u \<longleftrightarrow> scheme u = []"

definition uri_empty :: "uri \<Rightarrow> bool" where
  "uri_empty u \<longleftrightarrow> scheme u = [] \<and> host u = [] \<and> path u = [] \<and> query u = [] \<and> fragment u = []"

definition getWellKnownPort :: "uri \<Rightarrow> nat" where
  "getWellKnownPort u =
    (let s = scheme u in
     if s = ''ftp'' then 21
     else if s = ''ssh'' then 22
     else if s = ''telnet'' then 23
     else if s = ''smtp'' then 25
     else if s = ''dns'' then 53
     else if s = ''http'' \<or> s = ''ws'' then 80
     else if s = ''nntp'' then 119
     else if s = ''imap'' then 143
     else if s = ''ldap'' then 389
     else if s = ''https'' \<or> s = ''wss'' then 443
     else if s = ''smtps'' then 465
     else if s = ''rtsp'' then 554
     else if s = ''ldaps'' then 636
     else if s = ''dnss'' then 853
     else if s = ''imaps'' then 993
     else if s = ''sip'' then 5060
     else if s = ''sips'' then 5061
     else if s = ''xmpp'' then 5222
     else 0)"

definition isWellKnownPort :: "uri \<Rightarrow> bool" where
  "isWellKnownPort u \<longleftrightarrow> port u = getWellKnownPort u"

definition getPort :: "uri \<Rightarrow> nat" where
  "getPort u = (if port u = 0 then getWellKnownPort u else port u)"

text \<open>\<^verbatim>\<open>NumberFormatter::append(auth, _port)\<close> takes the overload for \<^verbatim>\<open>int\<close>.\<close>

definition append_port :: "string \<Rightarrow> nat \<Rightarrow> string" where
  "append_port auth p = (case nf_append t_int auth (int p) of Ret s \<Rightarrow> s | _ \<Rightarrow> auth)"

definition getAuthority :: "uri \<Rightarrow> string" where
  "getAuthority u =
    (let auth = (if userInfo u \<noteq> [] then userInfo u @ ''@'' else []);
         auth = (if CHR '':'' \<in> set (host u) then auth @ ''['' @ host u @ '']'' else auth @ host u)
     in if port u \<noteq> 0 \<and> \<not> isWellKnownPort u then append_port (auth @ '':'') (port u) else auth)"

definition query_fragment :: "uri \<Rightarrow> string" where
  "query_fragment u =
    (if query u \<noteq> [] then ''?'' @ query u else []) @ (if fragment u \<noteq> [] then ''#'' @ fragment u else [])"

definition toString :: "uri \<Rightarrow> string" where
  "toString u =
    (if isRelative u then encode (path u) RESERVED_PATH
     else
       let auth = getAuthority u in
       scheme u @ '':'' @
       (if auth \<noteq> [] \<or> scheme u = ''file'' then ''//'' @ auth else []) @
       (if path u \<noteq> [] then
          (if auth \<noteq> [] \<and> hd (path u) \<noteq> CHR ''/'' then ''/'' else []) @ encode (path u) RESERVED_PATH
        else if query u \<noteq> [] \<or> fragment u \<noteq> [] then ''/'' else [])) @ query_fragment u"

definition setScheme :: "string \<Rightarrow> uri \<Rightarrow> uri" where
  "setScheme s u = u\<lparr>scheme := toLower s\<rparr>"

definition setUserInfo :: "string \<Rightarrow> uri \<Rightarrow> uri result" where
  "setUserInfo s u = rbind (decode s False) (\<lambda>d. Inr (u\<lparr>userInfo := d\<rparr>))"

definition setPath :: "string \<Rightarrow> uri \<Rightarrow> uri result" where
  "setPath s u = rbind (decode s False) (\<lambda>d. Inr (u\<lparr>path := d\<rparr>))"

definition setQuery :: "string \<Rightarrow> uri \<Rightarrow> uri" where
  "setQuery s u = u\<lparr>query := encode s RESERVED_QUERY\<rparr>"

definition getQuery :: "uri \<Rightarrow> string result" where
  "getQuery u = decode (query u) False"

definition addQueryParameter :: "string \<Rightarrow> string \<Rightarrow> uri \<Rightarrow> uri" where
  "addQueryParameter param val u =
    u\<lparr>query := query u @ (if query u \<noteq> [] then ''&'' else []) @
        encode param RESERVED_QUERY_PARAM @ ''='' @ encode val RESERVED_QUERY_PARAM\<rparr>"

definition setQueryParameters :: "(string \<times> string) list \<Rightarrow> uri \<Rightarrow> uri" where
  "setQueryParameters params u = foldl (\<lambda>u p. addQueryParameter (fst p) (snd p) u) (u\<lparr>query := []\<rparr>) params"

definition plus_space :: "bool \<Rightarrow> char \<Rightarrow> char" where
  "plus_space plusIsSpace c = (if plusIsSpace \<and> c = CHR ''+'' then CHR '' '' else c)"

lemma dropWhile_shorter: "length (dropWhile P s) \<le> length s"
  by (rule length_dropWhile_le)

function query_loop :: "bool \<Rightarrow> string \<Rightarrow> (string \<times> string) list result" where
  "query_loop plusIsSpace it =
    (if it = [] then Inr []
     else
       let inName = (\<lambda>c. c \<noteq> CHR ''='' \<and> c \<noteq> CHR ''&'');
           name = map (plus_space plusIsSpace) (takeWhile inName it);
           it1 = dropWhile inName it;
           value = (if it1 \<noteq> [] \<and> hd it1 = CHR ''=''
                    then map (plus_space plusIsSpace) (takeWhile (\<lambda>c. c \<noteq> CHR ''&'') (tl it1)) else []);
           it2 = (if it1 \<noteq> [] \<and> hd it1 = CHR ''='' then dropWhile (\<lambda>c. c \<noteq> CHR ''&'') (tl it1) else it1);
           it3 = (if it2 \<noteq> [] \<and> hd it2 = CHR ''&'' then tl it2 else it2)
       in rbind (decode name False) (\<lambda>n. rbind (decode value False) (\<lambda>v.
          rbind (query_loop plusIsSpace it3) (\<lambda>r. Inr ((n, v) # r)))))"
  by pat_completeness auto

lemma query_step_shorter:
  assumes "it \<noteq> []"
  defines "it1 \<equiv> dropWhile (\<lambda>c. c \<noteq> CHR ''='' \<and> c \<noteq> CHR ''&'') it"
  defines "it2 \<equiv> (if it1 \<noteq> [] \<and> hd it1 = CHR ''='' then dropWhile (\<lambda>c. c \<noteq> CHR ''&'') (tl it1) else it1)"
  shows "length (if it2 \<noteq> [] \<and> hd it2 = CHR ''&'' then tl it2 else it2) < length it"
proof -
  have l1: "length it1 \<le> length it" unfolding it1_def by (rule dropWhile_shorter)
  show ?thesis
  proof (cases "it1 \<noteq> [] \<and> hd it1 = CHR ''=''")
    case True
    then have "length it2 \<le> length (tl it1)" unfolding it2_def if_P[OF True] by (intro dropWhile_shorter)
    then show ?thesis using True l1 by (cases it1) auto
  next
    case False
    have "it1 = [] \<or> hd it1 = CHR ''&''"
      using False hd_dropWhile[of "\<lambda>c. c \<noteq> CHR ''='' \<and> c \<noteq> CHR ''&''" it] unfolding it1_def by blast
    then show ?thesis using False l1 assms(1) unfolding it2_def by (cases it1) auto
  qed
qed

termination query_loop
  by (relation "measure (\<lambda>(p, it). length it)") (simp, unfold in_measure, simp only: split, rule query_step_shorter)

declare query_loop.simps [simp del]

definition getQueryParameters :: "bool \<Rightarrow> uri \<Rightarrow> (string \<times> string) list result" where
  "getQueryParameters plusIsSpace u = query_loop plusIsSpace (query u)"

definition setFragment :: "string \<Rightarrow> uri \<Rightarrow> uri" where
  "setFragment s u = u\<lparr>fragment := encode s RESERVED_FRAGMENT\<rparr>"

definition getFragment :: "uri \<Rightarrow> string result" where
  "getFragment u = decode (fragment u) False"

definition getPathEtc :: "uri \<Rightarrow> string" where
  "getPathEtc u = encode (path u) RESERVED_PATH @ query_fragment u"

definition getPathAndQuery :: "uri \<Rightarrow> string" where
  "getPathAndQuery u = encode (path u) RESERVED_PATH @ (if query u \<noteq> [] then ''?'' @ query u else [])"

definition equals :: "uri \<Rightarrow> uri \<Rightarrow> bool" where
  "equals u v \<longleftrightarrow> scheme u = scheme v \<and> userInfo u = userInfo v \<and> host u = host v \<and>
    getPort u = getPort v \<and> path u = path v \<and> query u = query v \<and> fragment u = fragment v"

section \<open>Parsing\<close>

fun authority_loop :: "string \<Rightarrow> string \<Rightarrow> string \<Rightarrow> string \<times> string \<times> string" where
  "authority_loop [] info part = (info, part, [])"
| "authority_loop (c # it) info part =
    (if c = CHR ''/'' \<or> c = CHR ''?'' \<or> c = CHR ''#'' then (info, part, c # it)
     else if c = CHR ''@'' then authority_loop it part []
     else authority_loop it info (part @ [c]))"

definition parsePort :: "string \<Rightarrow> nat result" where
  "parsePort s =
    (if s \<noteq> [] then
       (case tryParse s CHR '','' of
          Some n \<Rightarrow> if n > 0 \<and> n < 65536 then Inr (nat n) else Inl URISyntaxException
        | None \<Rightarrow> Inl URISyntaxException)
     else Inr 0)"

definition parseHostAndPort :: "string \<Rightarrow> uri \<Rightarrow> uri result" where
  "parseHostAndPort it u =
    (if it = [] then Inr u
     else
       rbind (if hd it = CHR ''['' then
                let h = takeWhile (\<lambda>c. c \<noteq> CHR '']'') (tl it); r = dropWhile (\<lambda>c. c \<noteq> CHR '']'') (tl it)
                in if r = [] then Inl URISyntaxException else Inr (h, tl r)
              else Inr (takeWhile (\<lambda>c. c \<noteq> CHR '':'') it, dropWhile (\<lambda>c. c \<noteq> CHR '':'') it))
         (\<lambda>(h, rest).
            rbind (if rest \<noteq> [] \<and> hd rest = CHR '':'' then parsePort (tl rest) else Inr 0)
              (\<lambda>p. Inr (u\<lparr>port := p, host := (if h \<noteq> [] \<and> hd h \<noteq> CHR ''%'' then toLower h else h)\<rparr>))))"

definition parseAuthority :: "string \<Rightarrow> uri \<Rightarrow> (string \<times> uri) result" where
  "parseAuthority it u =
    (case authority_loop it [] [] of
       (info, part, rest) \<Rightarrow> rbind (parseHostAndPort part u) (\<lambda>v. Inr (rest, v\<lparr>userInfo := info\<rparr>)))"

definition parsePath :: "string \<Rightarrow> uri \<Rightarrow> (string \<times> uri) result" where
  "parsePath it u =
    (let inPath = (\<lambda>c. c \<noteq> CHR ''?'' \<and> c \<noteq> CHR ''#'')
     in rbind (decode (takeWhile inPath it) False)
          (\<lambda>d. Inr (dropWhile inPath it, u\<lparr>path := path u @ d\<rparr>)))"

definition parseQuery :: "string \<Rightarrow> uri \<Rightarrow> string \<times> uri" where
  "parseQuery it u =
    (dropWhile (\<lambda>c. c \<noteq> CHR ''#'') it, u\<lparr>query := takeWhile (\<lambda>c. c \<noteq> CHR ''#'') it\<rparr>)"

definition parseFragment :: "string \<Rightarrow> uri \<Rightarrow> uri" where
  "parseFragment it u = u\<lparr>fragment := it\<rparr>"

definition parsePathEtc :: "string \<Rightarrow> uri \<Rightarrow> uri result" where
  "parsePathEtc it u =
    (if it = [] then Inr u
     else
       rbind (if hd it \<noteq> CHR ''?'' \<and> hd it \<noteq> CHR ''#'' then parsePath it u else Inr (it, u))
         (\<lambda>(it, u).
            let (it, u) = (if it \<noteq> [] \<and> hd it = CHR ''?'' then parseQuery (tl it) u else (it, u))
            in Inr (if it \<noteq> [] \<and> hd it = CHR ''#'' then parseFragment (tl it) u else u)))"

definition in_scheme :: "char \<Rightarrow> bool" where
  "in_scheme c \<longleftrightarrow> c \<noteq> CHR '':'' \<and> c \<noteq> CHR ''?'' \<and> c \<noteq> CHR ''#'' \<and> c \<noteq> CHR ''/''"

definition uri_parse :: "string \<Rightarrow> uri \<Rightarrow> uri result" where
  "uri_parse s u =
    (if s = [] then Inr u
     else if hd s \<noteq> CHR ''/'' \<and> hd s \<noteq> CHR ''.'' \<and> hd s \<noteq> CHR ''?'' \<and> hd s \<noteq> CHR ''#'' then
       let sch = takeWhile in_scheme s; it = dropWhile in_scheme s in
       if it \<noteq> [] \<and> hd it = CHR '':'' then
         let it = tl it in
         if it = [] then Inl URISyntaxException
         else
           let u = setScheme sch u in
           if hd it = CHR ''/'' \<and> tl it \<noteq> [] \<and> hd (tl it) = CHR ''/'' then
             rbind (parseAuthority (tl (tl it)) u) (\<lambda>(it, u). parsePathEtc it u)
           else parsePathEtc it u
       else parsePathEtc s u
     else parsePathEtc s u)"

text \<open>
  The constructors.  Those with an authority argument do not initialise \<^verbatim>\<open>_port\<close>: \<open>garbage\<close> is
  the value the memory happens to hold.
\<close>

definition uri_new :: "string \<Rightarrow> uri result" where
  "uri_new s = uri_parse s uri_clear"

definition uri_new_path :: "string \<Rightarrow> string \<Rightarrow> uri result" where
  "uri_new_path sch pathEtc = parsePathEtc pathEtc (uri_clear\<lparr>scheme := toLower sch\<rparr>)"

definition uri_new_auth :: "nat \<Rightarrow> string \<Rightarrow> string \<Rightarrow> string \<Rightarrow> uri result" where
  "uri_new_auth garbage sch authority pathEtc =
    rbind (parseAuthority authority (uri_clear\<lparr>scheme := toLower sch, port := garbage\<rparr>))
      (\<lambda>(it, u). parsePathEtc pathEtc u)"

definition uri_new_parts :: "nat \<Rightarrow> string \<Rightarrow> string \<Rightarrow> string \<Rightarrow> string \<Rightarrow> string \<Rightarrow> uri result" where
  "uri_new_parts garbage sch authority p q f =
    rbind (parseAuthority authority
        (uri_clear\<lparr>scheme := toLower sch, port := garbage, path := p, query := q, fragment := f\<rparr>))
      (\<lambda>(it, u). Inr u)"

definition uri_assign :: "string \<Rightarrow> uri \<Rightarrow> uri result" where
  "uri_assign s u = uri_parse s uri_clear"

definition setAuthority :: "string \<Rightarrow> uri \<Rightarrow> uri result" where
  "setAuthority s u =
    rbind (parseAuthority s (u\<lparr>userInfo := [], host := [], port := 0\<rparr>)) (\<lambda>(it, v). Inr v)"

definition setPathEtc :: "string \<Rightarrow> uri \<Rightarrow> uri result" where
  "setPathEtc s u = parsePathEtc s (u\<lparr>path := [], query := [], fragment := []\<rparr>)"

section \<open>Path segments and resolution\<close>

fun segments_loop :: "string \<Rightarrow> string \<Rightarrow> string list \<Rightarrow> string list" where
  "segments_loop [] seg segments = (if seg \<noteq> [] then segments @ [seg] else segments)"
| "segments_loop (c # it) seg segments =
    (if c = CHR ''/'' then
       if seg \<noteq> [] then segments_loop it [] (segments @ [seg]) else segments_loop it seg segments
     else segments_loop it (seg @ [c]) segments)"

definition getPathSegments :: "string \<Rightarrow> string list \<Rightarrow> string list" where
  "getPathSegments p segments = segments_loop p [] segments"

definition build_step :: "bool \<Rightarrow> bool \<Rightarrow> string \<times> bool \<Rightarrow> string \<Rightarrow> string \<times> bool" where
  "build_step noScheme leadingSlash st s =
    (case st of (p, first) \<Rightarrow>
       ((if first then
           if leadingSlash then p @ ''/'' else if noScheme \<and> CHR '':'' \<in> set s then p @ ''./'' else p
         else p @ ''/'') @ s, False))"

definition buildPath :: "string list \<Rightarrow> bool \<Rightarrow> bool \<Rightarrow> uri \<Rightarrow> uri" where
  "buildPath segments leadingSlash trailingSlash u =
    u\<lparr>path := fst (foldl (build_step (scheme u = []) leadingSlash) ([], True) segments) @
        (if trailingSlash then ''/'' else [])\<rparr>"

definition dot_step :: "bool \<Rightarrow> string list \<Rightarrow> string \<Rightarrow> string list" where
  "dot_step removeLeading norm s =
    (if s = ''..'' then
       if norm \<noteq> [] then if last norm = ''..'' then norm @ [s] else butlast norm
       else if \<not> removeLeading then norm @ [s] else norm
     else if s \<noteq> ''.'' then norm @ [s] else norm)"

definition removeDotSegments :: "bool \<Rightarrow> uri \<Rightarrow> uri" where
  "removeDotSegments removeLeading u =
    (if path u = [] then u
     else buildPath (foldl (dot_step removeLeading) [] (getPathSegments (path u) []))
            (hd (path u) = CHR ''/'') (last (path u) = CHR ''/'') u)"

definition normalize :: "uri \<Rightarrow> uri" where
  "normalize u = removeDotSegments (\<not> isRelative u) u"

definition merge_step :: "string list \<times> bool \<Rightarrow> string \<Rightarrow> string list \<times> bool" where
  "merge_step st s =
    (case st of (norm, addTrailing) \<Rightarrow>
       if s = ''..'' then (if norm \<noteq> [] then butlast norm else norm, True)
       else if s \<noteq> ''.'' then (norm @ [s], False)
       else (norm, True))"

definition mergePath :: "string \<Rightarrow> uri \<Rightarrow> uri" where
  "mergePath p u =
    (let segments = (if path u \<noteq> [] then
           let segs = getPathSegments (path u) []
           in if last (path u) \<noteq> CHR ''/'' \<and> segs \<noteq> [] then butlast segs else segs
         else []);
         addLeadingSlash = (path u \<noteq> [] \<and> hd (path u) = CHR ''/'');
         segments = getPathSegments p segments;
         addLeadingSlash = (addLeadingSlash \<or> p \<noteq> [] \<and> hd p = CHR ''/'');
         hasTrailingSlash = (p \<noteq> [] \<and> last p = CHR ''/'')
     in case foldl merge_step ([], False) segments of
          (norm, addTrailingSlash) \<Rightarrow> buildPath norm addLeadingSlash (hasTrailingSlash \<or> addTrailingSlash) u)"

definition resolve :: "uri \<Rightarrow> uri \<Rightarrow> uri" where
  "resolve r u =
    (let v =
       (if scheme r \<noteq> [] then
          removeDotSegments True (u\<lparr>scheme := scheme r, userInfo := userInfo r, host := host r,
            port := port r, path := path r, query := query r\<rparr>)
        else if host r \<noteq> [] then
          removeDotSegments True (u\<lparr>userInfo := userInfo r, host := host r, port := port r,
            path := path r, query := query r\<rparr>)
        else if path r = [] then
          if query r \<noteq> [] then u\<lparr>query := query r\<rparr> else u
        else
          (if hd (path r) = CHR ''/'' then removeDotSegments True (u\<lparr>path := path r\<rparr>)
           else mergePath (path r) u)\<lparr>query := query r\<rparr>)
     in v\<lparr>fragment := fragment r\<rparr>)"

definition resolve_string :: "string \<Rightarrow> uri \<Rightarrow> uri result" where
  "resolve_string s u = rbind (uri_new s) (\<lambda>r. Inr (resolve r u))"

section \<open>Percent encoding\<close>

lemma schar_mod: "schar c mod 256 = uchar c"
  using of_char_bounds[of c] by (auto simp: schar_def uchar_def Let_def)

lemma uchar_to_char: "uchar (to_char a) = a mod 256"
  by (simp add: uchar_def to_char_def of_char_of)

lemma to_char_uchar [simp]: "to_char (uchar c) = c"
  using of_char_bounds[of c] by (simp add: to_char_def uchar_def)

lemma to_char_add: "to_char (schar (to_char a) + b) = to_char (a + b)"
proof -
  have "(schar (to_char a) + b) mod 256 = (a mod 256 + b) mod 256"
    by (metis mod_add_left_eq schar_mod uchar_to_char mod_mod_trivial)
  then show ?thesis by (simp add: to_char_def mod_add_left_eq)
qed

lemma nibble_all: "list_all (\<lambda>d. hex_nibble (digit_char False d) = Some (int d)) [0..<16]"
  by (simp add: upt_conv_Cons hex_nibble_def digit_char_def kDigitsUpper_def schar_def)

lemma nibble_digit: "d < 16 \<Longrightarrow> hex_nibble (digit_char False d) = Some (int d)"
  using nibble_all unfolding list_all_iff set_upt by simp

lemma hex2_digits:
  "hex2 c = [digit_char False (nat (uchar c) div 16), digit_char False (nat (uchar c) mod 16)]"
proof -
  define n where "n = nat (uchar c)"
  have n: "n < 256" "uchar c = int n" by (simp_all add: n_def nat_less_iff)
  have u: "t_unsigned\<lparr>it_signed := False\<rparr> = t_unsigned" by (simp add: t_unsigned_def)
  have t: "in_type t_unsigned (int n)" using n by (simp add: in_type_def it_min_def it_max_def t_unsigned_def)
  have "hex2 c = ref_format (int n) 16 False 2 CHR ''0'' CHR 0x00 False"
    using intToStr_string_ref[OF ok64(4) t, of 16 2 False "CHR ''0''" "CHR 0x00" False] cast_id[OF ok64(4) t]
    by (simp add: hex2_def nf_formatHex_width_def u n cleared_def)
  also have "\<dots> = [digit_char False (n div 16), digit_char False (n mod 16)]"
  proof (cases "n < 16")
    case True
    have "digit_char False 0 = CHR ''0''" by (simp add: digit_char_def kDigitsUpper_def)
    then show ?thesis using True
      by (simp add: ref_format_def ref_sign_def ref_prefix_def ref_number_def ref_digits_def rdigits_one)
  next
    case False
    then have "rdigits 16 n = [n mod 16, n div 16]" using n by (subst rdigits.simps, subst rdigits.simps) auto
    then show ?thesis
      by (simp add: ref_format_def ref_sign_def ref_prefix_def ref_number_def ref_digits_def)
  qed
  finally show ?thesis by (simp add: n_def)
qed

lemma hex2_nibbles: "hex2 c = [h, l] \<Longrightarrow> hex_nibble h = Some (uchar c div 16) \<and> hex_nibble l = Some (uchar c mod 16)"
proof -
  assume "hex2 c = [h, l]"
  then have "h = digit_char False (nat (uchar c) div 16)" "l = digit_char False (nat (uchar c) mod 16)"
    by (simp_all add: hex2_digits)
  moreover have "nat (uchar c) div 16 < 16" by (simp add: nat_less_iff less_mult_imp_div_less)
  ultimately show ?thesis by (simp add: nibble_digit zdiv_int zmod_int)
qed

lemma hex2_join: "to_char (schar (to_char (uchar c div 16 * 16)) + uchar c mod 16) = c"
  by (simp add: to_char_add)

lemma hex2_cases: obtains h l where "hex2 c = [h, l]"
  by (simp add: hex2_digits)

text \<open>A string is well-formed when every percent sign is followed by two hexadecimal digits.\<close>

fun percent_ok :: "string \<Rightarrow> bool" where
  "percent_ok [] = True"
| "percent_ok (c # s) =
    (if c = CHR ''%'' then
       (case s of hi # lo # t \<Rightarrow> hex_nibble hi \<noteq> None \<and> hex_nibble lo \<noteq> None \<and> percent_ok t | _ \<Rightarrow> False)
     else percent_ok s)"

lemma decode_loop_inQuery: "decode_loop False q s = decode_loop False False s"
proof (induction s arbitrary: q rule: percent_ok.induct)
  case (2 c s)
  show ?case
  proof (cases "c = CHR ''%''")
    case True
    then show ?thesis
    proof (cases s)
      case (Cons hi s')
      show ?thesis
      proof (cases s')
        case (Cons lo t)
        then show ?thesis using True \<open>s = hi # s'\<close> "2.IH"(1)[OF True \<open>s = hi # s'\<close> Cons, of q]
          by (simp add: Let_def split: option.split)
      qed (use True Cons in simp)
    qed simp
  next
    case False
    then show ?thesis using "2.IH"(2)[OF False, of "q \<or> c = CHR ''?''"] "2.IH"(2)[OF False, of "c = CHR ''?''"]
      by (simp add: Let_def)
  qed
qed simp

lemma decode_encode_char:
  "decode_loop False q (encode_char r c @ s) = rbind (decode_loop False False s) (\<lambda>d. Inr (c # d))"
proof -
  have pct: "CHR ''%'' \<in> set ILLEGAL" "\<not> unreserved CHR ''%''"
    by (simp_all add: ILLEGAL_def unreserved_def schar_def)
  obtain h l where h: "hex2 c = [h, l]" by (rule hex2_cases)
  show ?thesis
  proof (cases "encode_char r c = [c]")
    case True
    moreover have "c \<noteq> CHR ''%''" using True pct h by (auto simp: encode_char_def split: if_splits)
    ultimately show ?thesis using decode_loop_inQuery[of "q \<or> c = CHR ''?''" s] by (simp add: Let_def)
  next
    case False
    then have "encode_char r c = CHR ''%'' # hex2 c" by (auto simp: encode_char_def split: if_splits)
    then show ?thesis
      using hex2_nibbles[OF h] h hex2_join[of c] decode_loop_inQuery[of q s] by (simp add: Let_def)
  qed
qed

lemma decode_encode: "decode (encode s r) False = Inr s"
  unfolding decode_def encode_def
  by (induction s) (simp_all add: decode_encode_char)

text \<open>The characters an encoded string may consist of.\<close>

definition legal :: "string \<Rightarrow> char \<Rightarrow> bool" where
  "legal reserved c \<longleftrightarrow> c = CHR ''%'' \<or> unreserved c \<or>
    (0x20 < schar c \<and> schar c < 0x7F \<and> c \<notin> set ILLEGAL \<and> c \<notin> set reserved)"

lemma digit_unreserved_all: "list_all (\<lambda>d. unreserved (digit_char False d)) [0..<16]"
  by (simp add: upt_conv_Cons unreserved_def digit_char_def kDigitsUpper_def schar_def)

lemma digit_unreserved: "d < 16 \<Longrightarrow> unreserved (digit_char False d)"
  using digit_unreserved_all unfolding list_all_iff set_upt by simp

lemma hex2_unreserved: "list_all unreserved (hex2 c)"
  by (auto simp: hex2_digits nat_less_iff less_mult_imp_div_less intro!: digit_unreserved)

lemma encode_legal: "list_all (legal r) (encode s r)"
proof -
  have "list_all (legal r) (encode_char r c)" for c
    using hex2_unreserved[of c] by (auto simp: encode_char_def legal_def list_all_iff)
  then show ?thesis by (auto simp: encode_def list_all_iff)
qed

lemma decode_ok: "if percent_ok s then \<exists>d. decode_loop p q s = Inr d else decode_loop p q s = Inl URISyntaxException"
proof (induction s arbitrary: q rule: percent_ok.induct)
  case (2 c s)
  show ?case
  proof (cases "c = CHR ''%''")
    case True
    then show ?thesis
    proof (cases s)
      case (Cons hi s')
      show ?thesis
      proof (cases s')
        case (Cons lo t)
        then show ?thesis using True \<open>s = hi # s'\<close> "2.IH"(1)[OF True \<open>s = hi # s'\<close> Cons, of q]
          by (auto simp: Let_def split: option.split if_splits)
      qed (use True Cons in simp)
    qed simp
  next
    case False
    then show ?thesis using "2.IH"(2)[OF False, of "q \<or> c = CHR ''?''"]
      by (auto simp: Let_def split: if_splits)
  qed
qed simp

text \<open>
  Decoding an encoded string gives the string back, for every string of bytes and every set of
  reserved characters; the encoding consists of printable ASCII characters that are neither illegal
  nor reserved (unreserved characters and the percent sign aside).  Decoding fails exactly on strings
  with a percent sign that two hexadecimal digits do not follow, with a \<^verbatim>\<open>URISyntaxException\<close>.
\<close>

theorem uri_encode_decode:
  "decode (encode s reserved) False = Inr s \<and> list_all (legal reserved) (encode s reserved) \<and>
   (if percent_ok t then \<exists>d. decode t plusAsSpace = Inr d else decode t plusAsSpace = Inl URISyntaxException)"
  using decode_ok[of t plusAsSpace False, folded decode_def] by (simp add: decode_encode encode_legal)

section \<open>Query parameters\<close>

lemma encode_param_chars:
  "c \<in> set (encode s RESERVED_QUERY_PARAM) \<Longrightarrow> c \<noteq> CHR ''='' \<and> c \<noteq> CHR ''&'' \<and> c \<noteq> CHR ''+''"
proof -
  assume "c \<in> set (encode s RESERVED_QUERY_PARAM)"
  then have "legal RESERVED_QUERY_PARAM c" using encode_legal by (metis list_all_iff)
  then show ?thesis
    by (auto simp: legal_def RESERVED_QUERY_PARAM_def unreserved_def schar_def)
qed

lemma plus_space_encode:
  "map (plus_space p) (encode s RESERVED_QUERY_PARAM) = encode s RESERVED_QUERY_PARAM"
  by (rule map_idI) (auto simp: plus_space_def dest: encode_param_chars)

definition param_string :: "string \<times> string \<Rightarrow> string" where
  "param_string p = encode (fst p) RESERVED_QUERY_PARAM @ ''='' @ encode (snd p) RESERVED_QUERY_PARAM"

fun params_string :: "(string \<times> string) list \<Rightarrow> string" where
  "params_string [] = []"
| "params_string [p] = param_string p"
| "params_string (p # q # ps) = param_string p @ ''&'' @ params_string (q # ps)"

lemma params_string_snoc:
  "params_string (ps @ [p]) = params_string ps @ (if ps \<noteq> [] then ''&'' else []) @ param_string p"
  by (induction ps rule: params_string.induct) auto

lemma params_string_nonempty: "ps \<noteq> [] \<Longrightarrow> params_string ps \<noteq> []"
  by (cases ps rule: params_string.cases) (auto simp: param_string_def)

lemma setQueryParameters_query: "query (setQueryParameters ps u) = params_string ps"
proof (induction ps rule: rev_induct)
  case Nil then show ?case by (simp add: setQueryParameters_def)
next
  case (snoc p ps)
  have "setQueryParameters (ps @ [p]) u = addQueryParameter (fst p) (snd p) (setQueryParameters ps u)"
    by (simp add: setQueryParameters_def)
  moreover have "params_string ps = [] \<longleftrightarrow> ps = []" using params_string_nonempty[of ps] by auto
  ultimately show ?case using snoc.IH
    by (simp add: addQueryParameter_def params_string_snoc param_string_def)
qed

lemma query_loop_param:
  assumes "rest = [] \<or> hd rest = CHR ''&''"
  shows "query_loop b (param_string p @ rest) =
    rbind (query_loop b (if rest = [] then [] else tl rest)) (\<lambda>r. Inr (p # r))"
proof -
  let ?n = "encode (fst p) RESERVED_QUERY_PARAM" and ?v = "encode (snd p) RESERVED_QUERY_PARAM"
  let ?in = "\<lambda>c. c \<noteq> CHR ''='' \<and> c \<noteq> CHR ''&''"
  have s: "param_string p @ rest = ?n @ CHR ''='' # ?v @ rest" by (simp add: param_string_def)
  have n: "takeWhile ?in (?n @ CHR ''='' # w) = ?n" "dropWhile ?in (?n @ CHR ''='' # w) = CHR ''='' # w" for w
    using encode_param_chars[of _ "fst p"]
    by (auto simp: takeWhile_append dropWhile_append)
  have v: "takeWhile (\<lambda>c. c \<noteq> CHR ''&'') (?v @ rest) = ?v" "dropWhile (\<lambda>c. c \<noteq> CHR ''&'') (?v @ rest) = rest"
    using encode_param_chars[of _ "snd p"] assms
    by (cases rest; auto simp: takeWhile_append dropWhile_append)+
  have v0: "dropWhile (\<lambda>c. c \<noteq> CHR ''&'') ?v = []" using encode_param_chars[of _ "snd p"] by auto
  have "query_loop b (param_string p @ rest) =
      rbind (decode ?n False) (\<lambda>n. rbind (decode ?v False) (\<lambda>v.
        rbind (query_loop b (if rest \<noteq> [] \<and> hd rest = CHR ''&'' then tl rest else rest)) (\<lambda>r. Inr ((n, v) # r))))"
    unfolding s by (subst query_loop.simps) (simp add: Let_def n v v0 plus_space_encode)
  also have "\<dots> = rbind (query_loop b (if rest = [] then [] else tl rest)) (\<lambda>r. Inr (p # r))"
    using assms by (auto simp: decode_encode)
  finally show ?thesis .
qed

lemma query_loop_params: "query_loop b (params_string ps) = Inr ps"
proof (induction ps rule: params_string.induct)
  case 1 then show ?case by (simp add: query_loop.simps)
next
  case (2 p)
  then show ?case using query_loop_param[of "[]" b p] by (simp add: query_loop.simps)
next
  case (3 p q ps)
  then show ?case using query_loop_param[of "''&'' @ params_string (q # ps)" b p] by simp
qed

text \<open>
  Query parameters survive the round trip through the query string: for every list of names
  and values of arbitrary bytes, empty ones included, and for either treatment of plus signs,
  \<^verbatim>\<open>getQueryParameters\<close> returns what \<^verbatim>\<open>setQueryParameters\<close> stored.  Likewise for the query and the
  fragment as a whole.
\<close>

theorem query_parameters_roundtrip:
  "getQueryParameters plusIsSpace (setQueryParameters params u) = Inr params \<and>
   getQuery (setQuery s u) = Inr s \<and> getFragment (setFragment s u) = Inr s"
  by (simp add: getQueryParameters_def setQueryParameters_query query_loop_params
      getQuery_def setQuery_def getFragment_def setFragment_def decode_encode)

section \<open>Parsing what was printed\<close>

text \<open>
  The URIs that \<^verbatim>\<open>toString\<close> writes without loss.  The conditions say that no component contains
  a delimiter that ends it, that scheme and host are in the normal form the parser produces, and that
  the path cannot be mistaken for an authority.
\<close>

definition canonical :: "uri \<Rightarrow> bool" where
  "canonical u \<longleftrightarrow>
    scheme u \<noteq> [] \<and> list_all in_scheme (scheme u) \<and> hd (scheme u) \<noteq> CHR ''.'' \<and> toLower (scheme u) = scheme u \<and>
    list_all (\<lambda>c. c \<notin> set ''@/?#'') (userInfo u) \<and>
    list_all (\<lambda>c. c \<notin> set ''@/?#]'') (host u) \<and> (host u = [] \<or> hd (host u) \<noteq> CHR ''['') \<and>
    (host u = [] \<or> hd (host u) = CHR ''%'' \<or> toLower (host u) = host u) \<and>
    port u < 65536 \<and>
    (getAuthority u \<noteq> [] \<longrightarrow> path u = [] \<longrightarrow> query u = [] \<and> fragment u = []) \<and>
    (getAuthority u \<noteq> [] \<longrightarrow> path u \<noteq> [] \<longrightarrow> hd (path u) = CHR ''/'') \<and>
    (getAuthority u = [] \<longrightarrow> path u \<noteq> [] \<and> take 2 (path u) \<noteq> ''//'' \<and>
      (scheme u = ''file'' \<longrightarrow> hd (path u) = CHR ''/'')) \<and>
    CHR ''#'' \<notin> set (query u)"

lemma encode_path_chars:
  "c \<in> set (encode p RESERVED_PATH) \<Longrightarrow> c \<noteq> CHR ''?'' \<and> c \<noteq> CHR ''#''"
proof -
  assume "c \<in> set (encode p RESERVED_PATH)"
  then have "legal RESERVED_PATH c" using encode_legal by (metis list_all_iff)
  then show ?thesis by (auto simp: legal_def RESERVED_PATH_def unreserved_def schar_def)
qed

lemma encode_Cons: "encode (c # s) r = encode_char r c @ encode s r"
  by (simp add: encode_def)

lemma encode_char_nonempty [simp]: "encode_char r c \<noteq> []"
  by (simp add: encode_char_def)

lemma encode_eq_Nil [simp]: "encode s r = [] \<longleftrightarrow> s = []"
  by (cases s) (simp_all add: encode_Cons, simp add: encode_def)

lemma encode_slash: "encode_char RESERVED_PATH c = CHR ''/'' # t \<longleftrightarrow> c = CHR ''/'' \<and> t = []"
proof -
  have "encode_char RESERVED_PATH CHR ''/'' = ''/''"
    by (simp add: encode_char_def unreserved_def schar_def ILLEGAL_def RESERVED_PATH_def)
  then show ?thesis by (auto simp: encode_char_def)
qed

lemma encode_hd_slash: "p \<noteq> [] \<Longrightarrow> hd (encode p RESERVED_PATH) = CHR ''/'' \<longleftrightarrow> hd p = CHR ''/''"
proof (cases p)
  case (Cons c q)
  obtain x xs where x: "encode_char RESERVED_PATH c = x # xs"
    using encode_char_nonempty by (metis neq_Nil_conv)
  show ?thesis using encode_slash[of c xs] x Cons encode_slash[of c "[]"]
    by (cases "c = CHR ''/''") (simp_all add: encode_Cons)
qed simp

lemma span_append:
  "list_all P s \<Longrightarrow> t = [] \<or> \<not> P (hd t) \<Longrightarrow> takeWhile P (s @ t) = s \<and> dropWhile P (s @ t) = t"
  by (cases t) (auto simp: list_all_iff takeWhile_append dropWhile_append)

lemma qf_hd: "query_fragment v = [] \<or> hd (query_fragment v) = CHR ''?'' \<or> hd (query_fragment v) = CHR ''#''"
  by (auto simp: query_fragment_def)

lemma qf_parse:
  assumes "CHR ''#'' \<notin> set (query v)" "query u = []" "fragment u = []"
  shows "(let (it, w) = (if query_fragment v \<noteq> [] \<and> hd (query_fragment v) = CHR ''?''
                         then parseQuery (tl (query_fragment v)) u else (query_fragment v, u))
          in Inr (if it \<noteq> [] \<and> hd it = CHR ''#'' then parseFragment (tl it) w else w)) =
         Inr (u\<lparr>query := query v, fragment := fragment v\<rparr>)"
proof -
  let ?f = "if fragment v \<noteq> [] then ''#'' @ fragment v else []"
  have s: "takeWhile (\<lambda>c. c \<noteq> CHR ''#'') (query v @ ?f) = query v" "dropWhile (\<lambda>c. c \<noteq> CHR ''#'') (query v @ ?f) = ?f"
  proof -
    have "list_all (\<lambda>c. c \<noteq> CHR ''#'') (query v)" using assms(1) by (auto simp: list_all_iff)
    from span_append[OF this, of ?f]
    show "takeWhile (\<lambda>c. c \<noteq> CHR ''#'') (query v @ ?f) = query v"
      "dropWhile (\<lambda>c. c \<noteq> CHR ''#'') (query v @ ?f) = ?f" by (cases "fragment v"; simp)+
  qed
  show ?thesis
    using assms s by (cases "query v = []"; cases "fragment v = []")
      (auto simp: query_fragment_def parseQuery_def parseFragment_def)
qed

lemma parsePathEtc_print:
  assumes "p \<noteq> []" "CHR ''#'' \<notin> set (query v)" "path u = []" "query u = []" "fragment u = []"
  shows "parsePathEtc (encode p RESERVED_PATH @ query_fragment v) u =
    Inr (u\<lparr>path := p, query := query v, fragment := fragment v\<rparr>)"
proof -
  let ?e = "encode p RESERVED_PATH" and ?in = "\<lambda>c. c \<noteq> CHR ''?'' \<and> c \<noteq> CHR ''#''"
  have h: "hd (?e @ query_fragment v) \<noteq> CHR ''?''" "hd (?e @ query_fragment v) \<noteq> CHR ''#''"
    using encode_path_chars[of "hd ?e" p] assms(1) by auto
  have sp: "takeWhile ?in (?e @ query_fragment v) = ?e" "dropWhile ?in (?e @ query_fragment v) = query_fragment v"
    using span_append[of ?in ?e "query_fragment v"] encode_path_chars[of _ p] qf_hd[of v]
    by (auto simp: list_all_iff)
  have pp: "parsePath (?e @ query_fragment v) u = Inr (query_fragment v, u\<lparr>path := p\<rparr>)"
    unfolding parsePath_def Let_def sp using assms(3) by (simp add: decode_encode)
  show ?thesis
    unfolding parsePathEtc_def using h pp assms(1) qf_parse[OF assms(2), of "u\<lparr>path := p\<rparr>"] assms(4,5)
    by simp
qed

lemma authority_loop_plain:
  "list_all (\<lambda>c. c \<notin> set ''@/?#'') s \<Longrightarrow> authority_loop (s @ t) info part = authority_loop t info (part @ s)"
  by (induction s arbitrary: part) auto

lemma authority_loop_end: "t = [] \<or> hd t = CHR ''/'' \<Longrightarrow> authority_loop t info part = (info, part, t)"
  by (cases t) auto

lemma append_port_digits: "p < 65536 \<Longrightarrow> append_port auth p = auth @ ref_digits 10 False p"
proof -
  assume p: "p < 65536"
  then have t: "in_type t_int (int p)" by (simp add: in_type_def it_min_def it_max_def t_int_def)
  show ?thesis
    using appended_ref[OF ok64(3) t, of 10 auth "-1" "CHR '' ''" False]
    by (simp add: append_port_def nf_append_def NF_MAX_INT_STRING_LEN_def ref_format_def ref_sign_def
        ref_prefix_def ref_number_def Let_def)
qed

lemma port_digits:
  assumes "0 < p" "p < 65536"
  shows "parsePort (ref_digits 10 False p) = Inr p"
    and "list_all (\<lambda>c. c \<notin> set ''@/?#'') (ref_digits 10 False p)"
proof -
  have t: "in_type t_int (int p)" using assms by (simp add: in_type_def it_min_def it_max_def t_int_def)
  have "tryParse (ref_digits 10 False p) CHR '','' = Some (int p)"
    using format_parse[OF ok64(3) t, of "-1" "CHR '' ''" "CHR '',''"]
    by (simp add: tryParse_def ref_format_def ref_sign_def ref_prefix_def ref_number_def Let_def)
  then show "parsePort (ref_digits 10 False p) = Inr p"
    using assms ref_digits_val(3)[of 10 False p] by (simp add: parsePort_def)
  have "c \<notin> set ''@/?#''" if "digit_val 10 c \<noteq> None" for c
    using that by (auto simp: digit_val_def)
  then show "list_all (\<lambda>c. c \<notin> set ''@/?#'') (ref_digits 10 False p)"
    using ref_digits_val(2)[of 10 False p] by (simp add: list_all_iff)
qed

definition host_part :: "uri \<Rightarrow> string" where
  "host_part u = (if CHR '':'' \<in> set (host u) then ''['' @ host u @ '']'' else host u)"

definition port_part :: "uri \<Rightarrow> string" where
  "port_part u = (if port u \<noteq> 0 \<and> \<not> isWellKnownPort u then '':'' @ ref_digits 10 False (port u) else [])"

lemma getAuthority_parts:
  "port u < 65536 \<Longrightarrow>
     getAuthority u = (if userInfo u \<noteq> [] then userInfo u @ ''@'' else []) @ host_part u @ port_part u"
  by (simp add: getAuthority_def host_part_def port_part_def append_port_digits Let_def)

definition printed_port :: "uri \<Rightarrow> nat" where
  "printed_port u = (if isWellKnownPort u then 0 else port u)"

lemma parseHostAndPort_print:
  assumes "canonical u" "host v = []" "port v = 0"
  shows "parseHostAndPort (host_part u @ port_part u) v = Inr (v\<lparr>host := host u, port := printed_port u\<rparr>)"
proof -
  have c: "list_all (\<lambda>c. c \<notin> set ''@/?#]'') (host u)" "host u = [] \<or> hd (host u) \<noteq> CHR ''[''"
    "host u = [] \<or> hd (host u) = CHR ''%'' \<or> toLower (host u) = host u" "port u < 65536"
    using assms(1) by (auto simp: canonical_def)
  have low: "(if host u \<noteq> [] \<and> hd (host u) \<noteq> CHR ''%'' then toLower (host u) else host u) = host u"
    using c(3) by auto
  have pp: "(if port_part u \<noteq> [] \<and> hd (port_part u) = CHR '':'' then parsePort (tl (port_part u)) else Inr 0) =
      Inr (printed_port u)"
    using c(4) port_digits(1)[of "port u"] by (auto simp: port_part_def printed_port_def)
  have ph: "port_part u = [] \<or> hd (port_part u) = CHR '':''" by (simp add: port_part_def)
  show ?thesis
  proof (cases "host_part u @ port_part u = []")
    case True
    then have h: "host u = []" "port_part u = []" by (auto simp: host_part_def split: if_splits)
    then have "printed_port u = 0" by (auto simp: port_part_def printed_port_def split: if_splits)
    then show ?thesis using True h assms(2,3) by (simp add: parseHostAndPort_def)
  next
    case False
    show ?thesis
    proof (cases "CHR '':'' \<in> set (host u)")
      case True
      have "list_all (\<lambda>c. c \<noteq> CHR '']'') (host u)" using c(1) by (auto simp: list_all_iff)
      then have sp: "takeWhile (\<lambda>c. c \<noteq> CHR '']'') (host u @ CHR '']'' # port_part u) = host u"
        "dropWhile (\<lambda>c. c \<noteq> CHR '']'') (host u @ CHR '']'' # port_part u) = CHR '']'' # port_part u"
        using span_append[of "\<lambda>c. c \<noteq> CHR '']''" "host u" "CHR '']'' # port_part u"] by auto
      show ?thesis unfolding parseHostAndPort_def host_part_def using True sp pp low by (simp add: Let_def)
    next
      case no: False
      have sp: "takeWhile (\<lambda>c. c \<noteq> CHR '':'') (host u @ port_part u) = host u"
        "dropWhile (\<lambda>c. c \<noteq> CHR '':'') (host u @ port_part u) = port_part u"
      proof -
        have "list_all (\<lambda>c. c \<noteq> CHR '':'') (host u)" using no by (auto simp: list_all_iff)
        then show "takeWhile (\<lambda>c. c \<noteq> CHR '':'') (host u @ port_part u) = host u"
          "dropWhile (\<lambda>c. c \<noteq> CHR '':'') (host u @ port_part u) = port_part u"
          using span_append ph by blast+
      qed
      have "hd (host u @ port_part u) \<noteq> CHR ''[''" using c(2) ph False no by (cases "host u") (auto simp: host_part_def)
      then show ?thesis unfolding parseHostAndPort_def using no False sp pp low by (auto simp: host_part_def)
    qed
  qed
qed

lemma parseAuthority_print:
  assumes "canonical u" "host v = []" "port v = 0" "rest = [] \<or> hd rest = CHR ''/''"
  shows "parseAuthority (getAuthority u @ rest) v =
    Inr (rest, v\<lparr>host := host u, port := printed_port u, userInfo := userInfo u\<rparr>)"
proof -
  have c: "list_all (\<lambda>c. c \<notin> set ''@/?#'') (userInfo u)" "list_all (\<lambda>c. c \<notin> set ''@/?#]'') (host u)" "port u < 65536"
    using assms(1) by (auto simp: canonical_def)
  have hp: "list_all (\<lambda>c. c \<notin> set ''@/?#'') (host_part u @ port_part u)"
    using c(2) c(3) port_digits(2)[of "port u"] by (auto simp: host_part_def port_part_def list_all_iff)
  have "authority_loop (getAuthority u @ rest) [] [] = (userInfo u, host_part u @ port_part u, rest)"
  proof (cases "userInfo u = []")
    case True
    then show ?thesis
      using authority_loop_plain[OF hp, of rest "[]" "[]"] authority_loop_end[OF assms(4)]
      by (simp add: getAuthority_parts[OF c(3)])
  next
    case False
    have "getAuthority u @ rest = userInfo u @ CHR ''@'' # (host_part u @ port_part u) @ rest"
      using False by (simp add: getAuthority_parts[OF c(3)])
    then show ?thesis
      using authority_loop_plain[OF c(1), of "CHR ''@'' # (host_part u @ port_part u) @ rest" "[]" "[]"]
        authority_loop_plain[OF hp, of rest "userInfo u" "[]"] authority_loop_end[OF assms(4)]
      by simp
  qed
  then show ?thesis using parseHostAndPort_print[OF assms(1-3)] by (simp add: parseAuthority_def)
qed

lemma encode_no_double_slash:
  assumes "p \<noteq> []" "take 2 p \<noteq> ''//''"
  shows "\<not> (hd (encode p RESERVED_PATH @ query_fragment v) = CHR ''/'' \<and>
    tl (encode p RESERVED_PATH @ query_fragment v) \<noteq> [] \<and>
    hd (tl (encode p RESERVED_PATH @ query_fragment v)) = CHR ''/'')"
proof
  assume a: "hd (encode p RESERVED_PATH @ query_fragment v) = CHR ''/'' \<and>
    tl (encode p RESERVED_PATH @ query_fragment v) \<noteq> [] \<and>
    hd (tl (encode p RESERVED_PATH @ query_fragment v)) = CHR ''/''"
  then have "hd p = CHR ''/''" using encode_hd_slash[OF assms(1)] assms(1) by simp
  then obtain q where p: "p = CHR ''/'' # q" using assms(1) by (cases p) auto
  have e: "encode_char RESERVED_PATH CHR ''/'' = ''/''" using encode_slash[of "CHR ''/''" "[]"] by simp
  show False
  proof (cases "q = []")
    case True
    then show False using a p e qf_hd[of v] by (auto simp: encode_Cons encode_def)
  next
    case False
    then have "hd q = CHR ''/''" using a p e encode_hd_slash[OF False] by (simp add: encode_Cons)
    then show False using False p assms(2) by (cases q) auto
  qed
qed

lemma scheme_span:
  assumes "canonical u"
  shows "takeWhile in_scheme (scheme u @ CHR '':'' # t) = scheme u"
    and "dropWhile in_scheme (scheme u @ CHR '':'' # t) = CHR '':'' # t"
    and "hd (scheme u @ t) \<noteq> CHR ''/''" "hd (scheme u @ t) \<noteq> CHR ''.''"
    "hd (scheme u @ t) \<noteq> CHR ''?''" "hd (scheme u @ t) \<noteq> CHR ''#''"
proof -
  have c: "list_all in_scheme (scheme u)" "scheme u \<noteq> []" "hd (scheme u) \<noteq> CHR ''.''"
    using assms by (auto simp: canonical_def)
  have "\<not> in_scheme CHR '':''" by (simp add: in_scheme_def)
  then have "CHR '':'' # t = [] \<or> \<not> in_scheme (hd (CHR '':'' # t))" by simp
  from span_append[OF c(1) this]
  show "takeWhile in_scheme (scheme u @ CHR '':'' # t) = scheme u"
    "dropWhile in_scheme (scheme u @ CHR '':'' # t) = CHR '':'' # t" by blast+
  have "in_scheme (hd (scheme u))" using c by (cases "scheme u") auto
  then show "hd (scheme u @ t) \<noteq> CHR ''/''" "hd (scheme u @ t) \<noteq> CHR ''.''"
    "hd (scheme u @ t) \<noteq> CHR ''?''" "hd (scheme u @ t) \<noteq> CHR ''#''"
    using c(2,3) by (auto simp: in_scheme_def)
qed

lemma uri_parse_scheme:
  assumes "canonical u" "t \<noteq> []"
  shows "uri_parse (scheme u @ CHR '':'' # t) v =
    (let w = v\<lparr>scheme := scheme u\<rparr>
     in if hd t = CHR ''/'' \<and> tl t \<noteq> [] \<and> hd (tl t) = CHR ''/'' then
          rbind (parseAuthority (tl (tl t)) w) (\<lambda>(it, u). parsePathEtc it u)
        else parsePathEtc t w)"
proof -
  note s = scheme_span[OF assms(1)]
  have "toLower (scheme u) = scheme u" using assms(1) by (simp add: canonical_def)
  moreover have "scheme u @ CHR '':'' # t \<noteq> []" by simp
  ultimately show ?thesis using s(3-6)[of "CHR '':'' # t"] assms(2)
    unfolding uri_parse_def s(1,2) Let_def by (simp add: setScheme_def)
qed

lemma uri_parse_print:
  assumes "canonical u"
  shows "uri_new (toString u) = Inr (u\<lparr>port := printed_port u\<rparr>)"
proof -
  have sch: "scheme u \<noteq> []" "CHR ''#'' \<notin> set (query u)" "port u < 65536" using assms by (auto simp: canonical_def)
  let ?a = "getAuthority u" and ?e = "encode (path u) RESERVED_PATH @ query_fragment u"
  let ?v = "uri_clear\<lparr>scheme := scheme u\<rparr>"
  have v: "host ?v = []" "port ?v = 0" "path ?v = []" "query ?v = []" "fragment ?v = []" "userInfo ?v = []"
    by (simp_all add: uri_clear_def)
  have eq: "?v\<lparr>host := host u, port := printed_port u, userInfo := userInfo u, path := path u,
      query := query u, fragment := fragment u\<rparr> = u\<lparr>port := printed_port u\<rparr>"
    by (simp add: uri_clear_def)
  show ?thesis
  proof (cases "?a = []")
    case False
    show ?thesis
    proof (cases "path u = []")
      case True
      then have q: "query u = []" "fragment u = []" using assms False by (auto simp: canonical_def)
      then have s: "toString u = scheme u @ CHR '':'' # ''//'' @ ?a @ []"
        using sch False True by (simp add: toString_def isRelative_def Let_def query_fragment_def)
      show ?thesis
        using parseAuthority_print[OF assms v(1,2), of "[]"] eq True q v(3-5)
        unfolding uri_new_def s by (simp add: uri_parse_scheme[OF assms] parsePathEtc_def Let_def)
    next
      case path: False
      then have h: "hd (path u) = CHR ''/''" using assms False by (auto simp: canonical_def)
      then have s: "toString u = scheme u @ CHR '':'' # ''//'' @ ?a @ ?e"
        using sch False path by (simp add: toString_def isRelative_def Let_def)
      have he: "hd ?e = CHR ''/''" using encode_hd_slash[OF path] h path by simp
      show ?thesis
        using parseAuthority_print[OF assms v(1,2), of ?e] he
          parsePathEtc_print[OF path sch(2), of "?v\<lparr>host := host u, port := printed_port u, userInfo := userInfo u\<rparr>"]
          eq v(3-5)
        unfolding uri_new_def s by (simp add: uri_parse_scheme[OF assms] Let_def)
    qed
  next
    case True
    then have path: "path u \<noteq> []" "take 2 (path u) \<noteq> ''//''" using assms by (auto simp: canonical_def)
    have parts: "userInfo u = []" "host u = []" "printed_port u = 0"
      using True sch(3) by (auto simp: getAuthority_parts host_part_def port_part_def printed_port_def split: if_splits)
    have eq0: "?v\<lparr>path := path u, query := query u, fragment := fragment u\<rparr> = u\<lparr>port := printed_port u\<rparr>"
      using parts eq by (simp add: uri_clear_def)
    show ?thesis
    proof (cases "scheme u = ''file''")
      case isfile: True
      then have "hd (path u) = CHR ''/''" using True assms by (auto simp: canonical_def)
      then have he: "hd ?e = CHR ''/''" using encode_hd_slash[OF path(1)] path(1) by simp
      have s: "toString u = scheme u @ CHR '':'' # ''//'' @ ?a @ ?e"
        using isfile True path(1) by (simp add: toString_def isRelative_def Let_def)
      show ?thesis
        using parseAuthority_print[OF assms v(1,2), of ?e] he
          parsePathEtc_print[OF path(1) sch(2), of "?v\<lparr>host := host u, port := printed_port u, userInfo := userInfo u\<rparr>"]
          eq v(3-5)
        unfolding uri_new_def s by (simp add: uri_parse_scheme[OF assms] Let_def)
    next
      case notfile: False
      have s: "toString u = scheme u @ CHR '':'' # ?e"
        using notfile True path(1) sch(1) by (simp add: toString_def isRelative_def Let_def)
      have "\<not> (hd ?e = CHR ''/'' \<and> tl ?e \<noteq> [] \<and> hd (tl ?e) = CHR ''/'')"
        using encode_no_double_slash[OF path] by blast
      then show ?thesis
        using parsePathEtc_print[OF path(1) sch(2) v(3-5)] eq0 path(1)
        unfolding uri_new_def s by (auto simp: uri_parse_scheme[OF assms] Let_def)
    qed
  qed
qed

text \<open>
  C3.  Parsing the printed form of a canonical URI gives an equal URI: all components are the
  same, and the port is the same after the default port of the scheme is taken into account.
\<close>

theorem uri_parse_toString:
  assumes "canonical u"
  shows "\<exists>v. uri_new (toString u) = Inr v \<and> equals u v \<and> v\<lparr>port := port u\<rparr> = u"
  using uri_parse_print[OF assms]
  by (auto simp: equals_def getPort_def printed_port_def isWellKnownPort_def getWellKnownPort_def)

theorem uri_parse_toString_witness:
  "canonical \<lparr>scheme = ''http'', userInfo = ''joe'', host = ''fe80::1'', port = 8080, path = ''/x y'',
      query = ''q=1'', fragment = ''f''\<rparr> \<and>
   (\<exists>v. uri_new (toString \<lparr>scheme = ''http'', userInfo = ''joe'', host = ''fe80::1'', port = 8080,
      path = ''/x y'', query = ''q=1'', fragment = ''f''\<rparr>) = Inr v)"
proof -
  let ?u = "\<lparr>scheme = ''http'', userInfo = ''joe'', host = ''fe80::1'', port = 8080, path = ''/x y'',
      query = ''q=1'', fragment = ''f''\<rparr>"
  have "getAuthority ?u \<noteq> []" by (simp add: getAuthority_parts)
  moreover have "toLower ''http'' = ''http''" "toLower ''fe80::1'' = ''fe80::1''" by code_simp+
  ultimately have "canonical ?u" by (simp add: canonical_def in_scheme_def)
  then show ?thesis using uri_parse_toString[of ?u] by blast
qed

section \<open>Path segments\<close>

definition segment :: "string \<Rightarrow> bool" where
  "segment s \<longleftrightarrow> s \<noteq> [] \<and> CHR ''/'' \<notin> set s"

lemma append_single [simp]: "(@) [c] = (#) c"
  by (simp add: fun_eq_iff)

lemma segments_loop_acc: "segments_loop p seg acc = acc @ segments_loop p seg []"
proof (induction p arbitrary: seg acc)
  case (Cons c p)
  show ?case using Cons.IH[of "[]" "acc @ [seg]"] Cons.IH[of "[]" "[seg]"] Cons.IH[of "[]" acc]
      Cons.IH[of "seg @ [c]" acc] by simp
qed simp

lemma segments_loop_segment:
  "CHR ''/'' \<notin> set seg \<Longrightarrow> list_all segment acc \<Longrightarrow> list_all segment (segments_loop p seg acc)"
  by (induction p seg acc rule: segments_loop.induct) (auto simp: segment_def)

lemma getPathSegments_segment: "list_all segment (getPathSegments p [])"
  by (simp add: getPathSegments_def segments_loop_segment)

lemma getPathSegments_acc: "getPathSegments p acc = acc @ getPathSegments p []"
  unfolding getPathSegments_def by (rule segments_loop_acc)

lemma segments_loop_plain:
  "CHR ''/'' \<notin> set s \<Longrightarrow> segments_loop (s @ t) seg acc = segments_loop t (seg @ s) acc"
  by (induction s arbitrary: seg) auto

lemma segments_loop_tail:
  "list_all segment ss \<Longrightarrow> seg \<noteq> [] \<Longrightarrow> t = [] \<or> t = ''/'' \<Longrightarrow>
     segments_loop (concat (map (\<lambda>q. ''/'' @ q) ss) @ t) seg acc = acc @ seg # ss"
proof (induction ss arbitrary: seg acc)
  case Nil then show ?case by auto
next
  case (Cons s ss)
  then have s: "s \<noteq> []" "CHR ''/'' \<notin> set s" by (auto simp: segment_def)
  have "segments_loop (concat (map (\<lambda>q. ''/'' @ q) (s # ss)) @ t) seg acc =
      segments_loop (concat (map (\<lambda>q. ''/'' @ q) ss) @ t) s (acc @ [seg])"
    using Cons.prems(2) segments_loop_plain[OF s(2)] by simp
  then show ?case using Cons.IH[OF _ s(1) Cons.prems(3)] Cons.prems(1) by simp
qed

definition tail_slash :: "bool \<Rightarrow> string" where
  "tail_slash b = (if b then ''/'' else [])"

lemma segments_join:
  assumes "list_all segment (s # ss)"
  shows "getPathSegments (join ''/'' (s # ss) @ tail_slash t) [] = s # ss"
    and "getPathSegments (CHR ''/'' # join ''/'' (s # ss) @ tail_slash t) [] = s # ss"
    and "getPathSegments (''./'' @ join ''/'' (s # ss) @ tail_slash t) [] = ''.'' # s # ss"
proof -
  have s: "s \<noteq> []" "CHR ''/'' \<notin> set s" using assms by (auto simp: segment_def)
  have l: "segments_loop (join ''/'' (s # ss) @ tail_slash t) [] acc = acc @ s # ss" for acc
    using segments_loop_tail[of ss s "tail_slash t" acc] segments_loop_plain[OF s(2), of _ "[]" acc] assms s(1)
    by (simp add: tail_slash_def)
  then show "getPathSegments (join ''/'' (s # ss) @ tail_slash t) [] = s # ss"
    "getPathSegments (CHR ''/'' # join ''/'' (s # ss) @ tail_slash t) [] = s # ss"
    "getPathSegments (''./'' @ join ''/'' (s # ss) @ tail_slash t) [] = ''.'' # s # ss"
    by (simp_all add: getPathSegments_def)
qed

lemma build_fold: "fst (foldl (build_step n l) (p, False) ss) = p @ concat (map (\<lambda>q. ''/'' @ q) ss)"
  by (induction ss arbitrary: p) (simp_all add: build_step_def)

lemma buildPath_join:
  "path (buildPath ss l t u) =
    (case ss of [] \<Rightarrow> []
     | s # _ \<Rightarrow> (if l then ''/'' else if scheme u = [] \<and> CHR '':'' \<in> set s then ''./'' else []) @ join ''/'' ss)
    @ tail_slash t"
  by (cases ss) (auto simp: buildPath_def build_step_def build_fold tail_slash_def)

lemma buildPath_segments:
  assumes "list_all segment ss"
  shows "getPathSegments (path (buildPath ss l t u)) [] =
    (if ss \<noteq> [] \<and> \<not> l \<and> scheme u = [] \<and> CHR '':'' \<in> set (hd ss) then ''.'' # ss else ss)"
proof (cases ss)
  case Nil
  then show ?thesis by (auto simp: buildPath_join tail_slash_def getPathSegments_def)
next
  case (Cons s r)
  then show ?thesis using segments_join[of s r t] assms by (auto simp: buildPath_join)
qed

lemma join_hd: "list_all segment (s # ss) \<Longrightarrow> hd (join ''/'' (s # ss) @ r) \<noteq> CHR ''/'' \<and> join ''/'' (s # ss) \<noteq> []"
  by (cases s) (auto simp: segment_def)

lemma join_last: "list_all segment ss \<Longrightarrow> ss \<noteq> [] \<Longrightarrow> last (join ''/'' ss) \<noteq> CHR ''/'' \<and> join ''/'' ss \<noteq> []"
proof (induction ss rule: rev_induct)
  case (snoc s ss)
  have s: "s \<noteq> []" "CHR ''/'' \<notin> set s" using snoc.prems by (auto simp: segment_def)
  then have "last s \<noteq> CHR ''/''" using last_in_set by metis
  then show ?case using s by (cases ss) (auto simp: last_append)
qed simp

lemma buildPath_ends:
  assumes "list_all segment ss" "ss \<noteq> []"
  shows "path (buildPath ss l t u) \<noteq> []"
    and "hd (path (buildPath ss l t u)) = CHR ''/'' \<longleftrightarrow> l"
    and "last (path (buildPath ss l t u)) = CHR ''/'' \<longleftrightarrow> t"
proof -
  obtain s r where ss: "ss = s # r" using assms(2) by (cases ss) auto
  show "path (buildPath ss l t u) \<noteq> []" "hd (path (buildPath ss l t u)) = CHR ''/'' \<longleftrightarrow> l"
    using join_hd[of s r "tail_slash t"] assms(1) by (auto simp: buildPath_join ss)
  have "last (pre @ join ''/'' ss @ tail_slash t) = CHR ''/'' \<longleftrightarrow> t" for pre
    using join_last[OF assms] by (auto simp: tail_slash_def)
  then show "last (path (buildPath ss l t u)) = CHR ''/'' \<longleftrightarrow> t"
    by (simp add: buildPath_join ss)
qed

section \<open>Normalisation and resolution\<close>

text \<open>
  What a path means: walking from a directory, a dot stays, two dots go to the parent (the root is
  its own parent) and a name descends.
\<close>

definition walk :: "string list \<Rightarrow> string \<Rightarrow> string list" where
  "walk dir s = (if s = ''..'' then butlast dir else if s = ''.'' then dir else dir @ [s])"

definition no_dots :: "string list \<Rightarrow> bool" where
  "no_dots ss \<longleftrightarrow> ''.'' \<notin> set ss \<and> ''..'' \<notin> set ss"

lemma walk_no_dots: "no_dots dir \<Longrightarrow> no_dots (walk dir s)"
  by (auto simp: no_dots_def walk_def dest: in_set_butlastD)

lemma foldl_walk_no_dots: "no_dots dir \<Longrightarrow> no_dots (foldl walk dir ss)"
  by (induction ss arbitrary: dir) (auto intro: walk_no_dots)

lemma walk_segment: "list_all segment dir \<Longrightarrow> segment s \<Longrightarrow> list_all segment (walk dir s)"
  by (auto simp: walk_def list_all_iff dest: in_set_butlastD)

lemma foldl_walk_segment: "list_all segment dir \<Longrightarrow> list_all segment ss \<Longrightarrow> list_all segment (foldl walk dir ss)"
  by (induction ss arbitrary: dir) (auto intro: walk_segment)

lemma dot_step_walk: "no_dots dir \<Longrightarrow> dot_step True dir s = walk dir s"
  by (cases dir rule: rev_cases) (auto simp: dot_step_def walk_def no_dots_def)

lemma foldl_dot_step: "no_dots dir \<Longrightarrow> foldl (dot_step True) dir ss = foldl walk dir ss"
  by (induction ss arbitrary: dir) (simp_all add: dot_step_walk walk_no_dots)

lemma merge_step_walk: "fst (foldl merge_step (dir, b) ss) = foldl walk dir ss"
  by (induction ss arbitrary: dir b) (auto simp: merge_step_def walk_def)

lemma no_dots_walk_id: "no_dots (dir @ ss) \<Longrightarrow> foldl walk dir ss = dir @ ss"
  by (induction ss arbitrary: dir) (auto simp: walk_def no_dots_def)

lemma removeDot_segments:
  assumes "scheme u \<noteq> []"
  shows "getPathSegments (path (removeDotSegments True u)) [] = foldl walk [] (getPathSegments (path u) [])"
proof -
  let ?ss = "foldl walk [] (getPathSegments (path u) [])"
  have "list_all segment ?ss" by (intro foldl_walk_segment) (simp_all add: getPathSegments_segment)
  then show ?thesis
    using assms buildPath_segments[of ?ss] foldl_dot_step[of "[]" "getPathSegments (path u) []"]
    by (auto simp: removeDotSegments_def no_dots_def getPathSegments_def)
qed

lemma removeDot_twice:
  assumes "scheme u \<noteq> []"
  shows "removeDotSegments True (removeDotSegments True u) = removeDotSegments True u"
proof (cases "path u = []")
  case True then show ?thesis by (simp add: removeDotSegments_def)
next
  case False
  define ss where "ss = foldl walk [] (getPathSegments (path u) [])"
  define l t where "l = (hd (path u) = CHR ''/'')" and "t = (last (path u) = CHR ''/'')"
  have nd: "no_dots ss" unfolding ss_def by (intro foldl_walk_no_dots) (simp add: no_dots_def)
  have sg: "list_all segment ss" unfolding ss_def
    by (intro foldl_walk_segment) (simp_all add: getPathSegments_segment)
  have r: "removeDotSegments True u = buildPath ss l t u"
    using False foldl_dot_step[of "[]" "getPathSegments (path u) []"]
    by (simp add: removeDotSegments_def ss_def l_def t_def no_dots_def)
  have idem: "buildPath qs a b (buildPath ss l t u) = buildPath qs a b u" for qs a b
    by (simp add: buildPath_def)
  have fs: "foldl (dot_step True) [] ss = ss"
    using foldl_dot_step[of "[]" ss] no_dots_walk_id[of "[]" ss] nd by (simp add: no_dots_def)
  have gs: "getPathSegments (path (buildPath ss l t u)) [] = ss"
    using buildPath_segments[OF sg, of l t u] assms by simp
  show ?thesis
  proof (cases "ss = []")
    case True
    then have "path (buildPath ss l t u) = tail_slash t" by (simp add: buildPath_join)
    then show ?thesis using True gs fs unfolding r
      by (auto simp: removeDotSegments_def idem tail_slash_def getPathSegments_def buildPath_def)
  next
    case ne: False
    note e = buildPath_ends[OF sg ne, of l t u]
    have "removeDotSegments True (buildPath ss l t u) = buildPath ss l t u"
      unfolding removeDotSegments_def using e gs fs idem by simp
    then show ?thesis using r by simp
  qed
qed

text \<open>
  Normalising an absolute URI removes the dot segments: the segments of the result are the
  place that walking the original path from the root reaches, so no dot segment is left, and
  normalising again changes nothing.  The leading slash survives as long as a segment is left; a path
  such as \<^verbatim>\<open>/a/..\<close> becomes empty.
\<close>

theorem normalize_correct:
  assumes "scheme u \<noteq> []"
  shows "getPathSegments (path (normalize u)) [] = foldl walk [] (getPathSegments (path u) []) \<and>
    no_dots (getPathSegments (path (normalize u)) []) \<and>
    normalize (normalize u) = normalize u \<and>
    (path u \<noteq> [] \<and> getPathSegments (path (normalize u)) [] \<noteq> [] \<longrightarrow>
       (hd (path (normalize u)) = CHR ''/'' \<longleftrightarrow> hd (path u) = CHR ''/'')) \<and>
    (path u = ''/a/..'' \<longrightarrow> path (normalize u) = [])"
proof (intro conjI impI)
  have n: "normalize v = removeDotSegments True v" if "scheme v \<noteq> []" for v
    using that by (simp add: normalize_def isRelative_def)
  have s: "scheme (removeDotSegments True u) = scheme u" by (simp add: removeDotSegments_def buildPath_def)
  show seg: "getPathSegments (path (normalize u)) [] = foldl walk [] (getPathSegments (path u) [])"
    using assms by (simp add: n removeDot_segments)
  show "no_dots (getPathSegments (path (normalize u)) [])"
    unfolding seg by (intro foldl_walk_no_dots) (simp add: no_dots_def)
  show "normalize (normalize u) = normalize u" using assms s by (simp add: n removeDot_twice)
  show "hd (path (normalize u)) = CHR ''/'' \<longleftrightarrow> hd (path u) = CHR ''/''"
    if a: "path u \<noteq> [] \<and> getPathSegments (path (normalize u)) [] \<noteq> []"
  proof -
    let ?ss = "foldl walk [] (getPathSegments (path u) [])"
    have "list_all segment ?ss" by (intro foldl_walk_segment) (simp_all add: getPathSegments_segment)
    moreover have "normalize u = buildPath ?ss (hd (path u) = CHR ''/'') (last (path u) = CHR ''/'') u"
      using a assms foldl_dot_step[of "[]" "getPathSegments (path u) []"]
      by (simp add: n removeDotSegments_def no_dots_def)
    ultimately show ?thesis using buildPath_ends(2)[of ?ss] a seg by simp
  qed
  show "path (normalize u) = []" if "path u = ''/a/..''"
    using that assms by (simp add: n removeDotSegments_def getPathSegments_def dot_step_def buildPath_def)
qed

theorem normalize_correct_witness:
  "getPathSegments (path (normalize (uri_clear\<lparr>scheme := ''http'', path := ''/a/./b/../c/''\<rparr>))) [] = [''a'', ''c'']"
  using normalize_correct[of "uri_clear\<lparr>scheme := ''http'', path := ''/a/./b/../c/''\<rparr>"]
  by (simp add: getPathSegments_def walk_def)

text \<open>The directory a relative reference is resolved in: the base path without its last segment.\<close>

definition base_dir :: "uri \<Rightarrow> string list" where
  "base_dir u =
    (let ss = getPathSegments (path u) []
     in if path u \<noteq> [] \<and> last (path u) \<noteq> CHR ''/'' \<and> ss \<noteq> [] then butlast ss else ss)"

lemma base_dir_segment: "list_all segment (base_dir u)"
  using getPathSegments_segment[of "path u"]
  by (auto simp: base_dir_def list_all_iff Let_def dest: in_set_butlastD)

lemma mergePath_segments:
  assumes "scheme u \<noteq> []"
  shows "getPathSegments (path (mergePath p u)) [] = foldl walk [] (base_dir u @ getPathSegments p [])"
proof -
  let ?s = "base_dir u @ getPathSegments p []"
  have b: "(if path u \<noteq> [] then
           let segs = getPathSegments (path u) []
           in if last (path u) \<noteq> CHR ''/'' \<and> segs \<noteq> [] then butlast segs else segs
         else []) = base_dir u"
    by (simp add: base_dir_def Let_def getPathSegments_def)
  obtain n t where f: "foldl merge_step ([], False) ?s = (n, t)" by fastforce
  have n: "n = foldl walk [] ?s" using merge_step_walk[of "[]" False ?s] f by simp
  have sg: "list_all segment n" unfolding n
    by (intro foldl_walk_segment) (simp_all add: base_dir_segment getPathSegments_segment)
  have m: "mergePath p u = buildPath n ((path u \<noteq> [] \<and> hd (path u) = CHR ''/'') \<or> p \<noteq> [] \<and> hd p = CHR ''/'')
      ((p \<noteq> [] \<and> last p = CHR ''/'') \<or> t) u"
    unfolding mergePath_def Let_def b[unfolded Let_def] getPathSegments_acc[of p "base_dir u"] f by simp
  show ?thesis unfolding m using buildPath_segments[OF sg] assms n by simp
qed

lemma removeDot_fields:
  "scheme (removeDotSegments b u) = scheme u" "userInfo (removeDotSegments b u) = userInfo u"
  "host (removeDotSegments b u) = host u" "port (removeDotSegments b u) = port u"
  "query (removeDotSegments b u) = query u" "fragment (removeDotSegments b u) = fragment u"
  by (simp_all add: removeDotSegments_def buildPath_def)

lemma mergePath_fields:
  "scheme (mergePath p u) = scheme u" "userInfo (mergePath p u) = userInfo u" "host (mergePath p u) = host u"
  "port (mergePath p u) = port u" "fragment (mergePath p u) = fragment u"
  by (simp_all add: mergePath_def buildPath_def Let_def split: prod.split)

definition same_authority :: "uri \<Rightarrow> uri \<Rightarrow> bool" where
  "same_authority u v \<longleftrightarrow> userInfo u = userInfo v \<and> host u = host v \<and> port u = port v"

text \<open>
  Resolving a reference against an absolute base for every path, in terms of the segments that are not empty: a reference
  with a scheme or a host replaces scheme or authority and its path is walked from the root; a
  reference with a path keeps the authority and its path is walked from the root or from the base's
  directory; an empty path keeps the base path, and the query unless the reference has one.  The
  fragment is always the reference's.
\<close>

lemma resolve_segments:
  assumes "scheme u \<noteq> []"
  shows "fragment (resolve r u) = fragment r \<and>
    (scheme r \<noteq> [] \<longrightarrow> scheme (resolve r u) = scheme r \<and> same_authority (resolve r u) r \<and>
       query (resolve r u) = query r \<and>
       getPathSegments (path (resolve r u)) [] = foldl walk [] (getPathSegments (path r) [])) \<and>
    (scheme r = [] \<and> host r \<noteq> [] \<longrightarrow> scheme (resolve r u) = scheme u \<and> same_authority (resolve r u) r \<and>
       query (resolve r u) = query r \<and>
       getPathSegments (path (resolve r u)) [] = foldl walk [] (getPathSegments (path r) [])) \<and>
    (scheme r = [] \<and> host r = [] \<longrightarrow> scheme (resolve r u) = scheme u \<and> same_authority (resolve r u) u) \<and>
    (scheme r = [] \<and> host r = [] \<and> path r = [] \<longrightarrow>
       path (resolve r u) = path u \<and> query (resolve r u) = (if query r = [] then query u else query r)) \<and>
    (scheme r = [] \<and> host r = [] \<and> path r \<noteq> [] \<longrightarrow> query (resolve r u) = query r \<and>
       getPathSegments (path (resolve r u)) [] =
         foldl walk [] ((if hd (path r) = CHR ''/'' then [] else base_dir u) @ getPathSegments (path r) []))"
  using assms
  by (auto simp: resolve_def Let_def same_authority_def removeDot_fields mergePath_fields
      removeDot_segments mergePath_segments)

section \<open>Resolution against RFC 3986\<close>

text \<open>Section 5.2.4: \<open>rfc_dots\<close> takes the input and the output buffer.\<close>

definition cut_segment :: "string \<Rightarrow> string" where
  "cut_segment out = rev (drop 1 (dropWhile (\<lambda>c. c \<noteq> CHR ''/'') (rev out)))"

function rfc_dots :: "string \<Rightarrow> string \<Rightarrow> string" where
  "rfc_dots inp out =
    (if inp = [] then out
     else if take 3 inp = ''../'' then rfc_dots (drop 3 inp) out
     else if take 2 inp = ''./'' then rfc_dots (drop 2 inp) out
     else if take 3 inp = ''/./'' then rfc_dots (drop 2 inp) out
     else if inp = ''/.'' then rfc_dots ''/'' out
     else if take 4 inp = ''/../'' then rfc_dots (drop 3 inp) (cut_segment out)
     else if inp = ''/..'' then rfc_dots ''/'' (cut_segment out)
     else if inp = ''.'' \<or> inp = ''..'' then rfc_dots [] out
     else rfc_dots (dropWhile (\<lambda>c. c \<noteq> CHR ''/'') (tl inp)) (out @ hd inp # takeWhile (\<lambda>c. c \<noteq> CHR ''/'') (tl inp)))"
  by pat_completeness auto
termination
proof (relation "measure (\<lambda>(inp, out). length inp)")
qed (auto intro: le_less_trans[OF length_dropWhile_le])

declare rfc_dots.simps [simp del]

text \<open>Sections 5.2.3 and 5.2.2; a component that is empty counts as undefined.\<close>

definition rfc_merge :: "uri \<Rightarrow> string \<Rightarrow> string" where
  "rfc_merge u p =
    (if host u \<noteq> [] \<and> path u = [] then ''/'' @ p
     else rev (dropWhile (\<lambda>c. c \<noteq> CHR ''/'') (rev (path u))) @ p)"

definition rfc_resolve :: "uri \<Rightarrow> uri \<Rightarrow> uri" where
  "rfc_resolve r u =
    (if scheme r \<noteq> [] then r\<lparr>path := rfc_dots (path r) []\<rparr>
     else if host r \<noteq> [] then r\<lparr>scheme := scheme u, path := rfc_dots (path r) []\<rparr>
     else if path r = [] then u\<lparr>query := (if query r \<noteq> [] then query r else query u), fragment := fragment r\<rparr>
     else if hd (path r) = CHR ''/'' then u\<lparr>path := rfc_dots (path r) [], query := query r, fragment := fragment r\<rparr>
     else u\<lparr>path := rfc_dots (rfc_merge u (path r)) [], query := query r, fragment := fragment r\<rparr>)"

text \<open>Paths without empty segments.\<close>

fun no_empty :: "string \<Rightarrow> bool" where
  "no_empty (a # b # s) \<longleftrightarrow> \<not> (a = CHR ''/'' \<and> b = CHR ''/'') \<and> no_empty (b # s)"
| "no_empty s \<longleftrightarrow> True"

definition last_segment :: "string \<Rightarrow> string" where
  "last_segment p = rev (takeWhile (\<lambda>c. c \<noteq> CHR ''/'') (rev p))"

definition slashes :: "string list \<Rightarrow> string" where
  "slashes ss = concat (map (\<lambda>q. ''/'' @ q) ss)"

lemma slashes_simps [simp]: "slashes [] = []" "slashes (s # ss) = ''/'' @ s @ slashes ss" "slashes (ss @ ts) = slashes ss @ slashes ts"
  by (simp_all add: slashes_def)

lemma segment_split:
  "CHR ''/'' \<notin> set s \<Longrightarrow> r = [] \<or> hd r = CHR ''/'' \<Longrightarrow> takeWhile (\<lambda>c. c \<noteq> CHR ''/'') (s @ r) = s \<and> dropWhile (\<lambda>c. c \<noteq> CHR ''/'') (s @ r) = r"
  by (induction s) (cases r; auto)+

lemma cut_slashes: "list_all segment dir \<Longrightarrow> cut_segment (slashes dir) = slashes (butlast dir)"
proof (cases dir rule: rev_cases)
  case (snoc ds d)
  assume "list_all segment dir"
  then have "CHR ''/'' \<notin> set (rev d)" using snoc by (simp add: segment_def)
  then show ?thesis using snoc segment_split[of "rev d" "CHR ''/'' # rev (slashes ds)"] by (simp add: cut_segment_def)
qed (simp add: cut_segment_def)

lemma segment_shape:
  assumes "segment s" "r = [] \<or> hd r = CHR ''/''"
  shows "rfc_dots (''/'' @ s @ r) out =
    (if s = ''.'' then rfc_dots (if r = [] then ''/'' else r) out
     else if s = ''..'' then rfc_dots (if r = [] then ''/'' else r) (cut_segment out)
     else rfc_dots r (out @ ''/'' @ s))"
proof -
  have s: "s \<noteq> []" "CHR ''/'' \<notin> set s" using assms(1) by (auto simp: segment_def)
  consider "s = ''.''" | "s = ''..''" | "s \<noteq> ''.''" "s \<noteq> ''..''" by blast
  then show ?thesis
  proof cases
    case 1
    then show ?thesis using assms(2) by (subst rfc_dots.simps) (auto simp: neq_Nil_conv)
  next
    case 2
    then show ?thesis using assms(2) by (subst rfc_dots.simps) (auto simp: neq_Nil_conv)
  next
    case 3
    have "take 3 (''/'' @ s @ r) \<noteq> ''/./'' \<and> take 4 (''/'' @ s @ r) \<noteq> ''/../'' \<and> ''/'' @ s @ r \<noteq> ''/.'' \<and> ''/'' @ s @ r \<noteq> ''/..''"
    proof -
      have t: "takeWhile (\<lambda>c. c \<noteq> CHR ''/'') (s @ r) = s" using segment_split[OF s(2) assms(2)] by simp
      have "s @ r = take k (s @ r) @ drop k (s @ r)" for k by (simp only: append_take_drop_id)
      moreover have "takeWhile (\<lambda>c. c \<noteq> CHR ''/'') (''./'' @ q) = ''.''" "takeWhile (\<lambda>c. c \<noteq> CHR ''/'') (''../'' @ q) = ''..''" for q by simp_all
      ultimately have "take 2 (s @ r) \<noteq> ''./''" "take 3 (s @ r) \<noteq> ''../''" using 3 t by metis+
      moreover have "s @ r \<noteq> ''.''" "s @ r \<noteq> ''..''" using 3 t by auto
      ultimately show ?thesis by (simp add: numeral_3_eq_3 numeral_2_eq_2 eval_nat_numeral)
    qed
    then show ?thesis using 3 segment_split[OF s(2) assms(2)] by (subst rfc_dots.simps) simp
  qed
qed

definition dotted :: "string \<Rightarrow> bool" where
  "dotted s \<longleftrightarrow> s = ''.'' \<or> s = ''..''"

lemma rfc_dots_end: "rfc_dots [] out = out" "rfc_dots ''/'' out = out @ ''/''"
proof -
  show e: "rfc_dots [] out = out" by (simp add: rfc_dots.simps)
  show "rfc_dots ''/'' out = out @ ''/''" by (subst rfc_dots.simps) (simp add: rfc_dots.simps)
qed

lemma rfc_dots_segments:
  "list_all segment ss \<Longrightarrow> list_all segment dir \<Longrightarrow> rfc_dots (slashes ss @ tail_slash t) (slashes dir) =
    slashes (foldl walk dir ss) @ tail_slash (t \<or> ss \<noteq> [] \<and> dotted (last ss))"
proof (induction ss arbitrary: dir)
  case Nil
  then show ?case by (simp add: tail_slash_def rfc_dots_end)
next
  case (Cons s ss)
  let ?r = "slashes ss @ tail_slash t"
  have s: "segment s" "list_all segment ss" using Cons.prems by auto
  have r: "?r = [] \<or> hd ?r = CHR ''/''" by (cases ss) (auto simp: tail_slash_def)
  have IH: "rfc_dots ?r (slashes d) = slashes (foldl walk d ss) @ tail_slash (t \<or> ss \<noteq> [] \<and> dotted (last ss))" if "list_all segment d" for d
    using Cons.IH[OF s(2) that] .
  have d: "list_all segment (walk dir s)" by (rule walk_segment[OF Cons.prems(2) s(1)])
  have e: "rfc_dots (if ?r = [] then ''/'' else ?r) (slashes d) = slashes (foldl walk d ss) @ tail_slash (t \<or> ss = [] \<or> dotted (last ss))"
    if "list_all segment d" for d
  proof (cases "?r = []")
    case True
    then have "ss = []" "\<not> t" by (cases ss; auto simp: tail_slash_def)+
    then show ?thesis by (simp add: rfc_dots_end tail_slash_def)
  next
    case False
    then show ?thesis using IH[OF that] by (cases ss) (auto simp: tail_slash_def split: if_splits)
  qed
  have w: "walk dir s = (if s = ''..'' then butlast dir else if s = ''.'' then dir else dir @ [s])" by (rule walk_def)
  show ?case using segment_shape[OF s(1) r, of "slashes dir"] IH[OF d] e[OF d] cut_slashes[OF Cons.prems(2)] w
    by (auto simp: dotted_def split: if_splits)
qed

lemma slashes_join: "p = join ''/'' ss @ tail_slash t \<Longrightarrow> p \<noteq> [] \<Longrightarrow> hd p \<noteq> CHR ''/'' \<Longrightarrow> slashes ss = ''/'' @ join ''/'' ss"
  by (cases ss) (auto simp: slashes_def tail_slash_def split: if_splits)

lemma segments_text:
  "no_empty p \<Longrightarrow> CHR ''/'' \<notin> set seg \<Longrightarrow> (seg = [] \<Longrightarrow> p = [] \<or> hd p \<noteq> CHR ''/'') \<Longrightarrow>
    seg @ p = join ''/'' (segments_loop p seg []) @ tail_slash (p \<noteq> [] \<and> last p = CHR ''/'')"
proof (induction p arbitrary: seg)
  case Nil
  then show ?case by (simp add: tail_slash_def)
next
  case (Cons c p)
  show ?case
  proof (cases "c = CHR ''/''")
    case False
    have "no_empty p" using Cons.prems(1) by (cases p) auto
    then show ?thesis using False Cons.IH[of "seg @ [c]"] Cons.prems(2) by (auto simp: tail_slash_def)
  next
    case True
    then have seg: "seg \<noteq> []" using Cons.prems(3) by auto
    have p: "no_empty p" "p = [] \<or> hd p \<noteq> CHR ''/''" using Cons.prems(1) True by (cases p; auto)+
    have l: "segments_loop (c # p) seg [] = seg # segments_loop p [] []" using True seg segments_loop_acc[of p "[]" "[seg]"] by simp
    have IH: "p = join ''/'' (segments_loop p [] []) @ tail_slash (p \<noteq> [] \<and> last p = CHR ''/'')" using Cons.IH[of "[]"] p by simp
    show ?thesis
    proof (cases "p = []")
      case False
      then have "slashes (segments_loop p [] []) = ''/'' @ join ''/'' (segments_loop p [] [])" using p(2) IH by (intro slashes_join) auto
      then show ?thesis unfolding l using True False arg_cong[where f = "(#) CHR ''/''", OF IH] by (simp add: slashes_def)
    qed (use True l in \<open>simp add: tail_slash_def\<close>)
  qed
qed

lemma path_text:
  assumes "no_empty p" "p \<noteq> []" "hd p = CHR ''/''"
  shows "p = slashes (getPathSegments p []) @ tail_slash (last p = CHR ''/'')"
proof -
  obtain q where q: "p = CHR ''/'' # q" using assms(2,3) by (cases p) auto
  have n: "no_empty q" "q = [] \<or> hd q \<noteq> CHR ''/''" using assms(1) q by (cases q; auto)+
  have g: "getPathSegments p [] = segments_loop q [] []" by (simp add: getPathSegments_def q)
  have t: "q = join ''/'' (segments_loop q [] []) @ tail_slash (q \<noteq> [] \<and> last q = CHR ''/'')" using segments_text[of q "[]"] n by simp
  show ?thesis
  proof (cases "q = []")
    case True
    then show ?thesis using g q by (simp add: tail_slash_def)
  next
    case False
    then have "slashes (segments_loop q [] []) = ''/'' @ join ''/'' (segments_loop q [] [])" using n(2) t by (intro slashes_join) auto
    then show ?thesis unfolding g using arg_cong[where f = "(#) CHR ''/''", OF t] False by (simp add: q)
  qed
qed

lemma relative_text:
  assumes "no_empty p" "p \<noteq> []" "hd p \<noteq> CHR ''/''"
  shows "''/'' @ p = slashes (getPathSegments p []) @ tail_slash (last p = CHR ''/'')" "getPathSegments p [] \<noteq> []"
proof -
  have t: "p = join ''/'' (getPathSegments p []) @ tail_slash (last p = CHR ''/'')" using segments_text[of p "[]"] assms by (simp add: getPathSegments_def)
  then have "slashes (getPathSegments p []) = ''/'' @ join ''/'' (getPathSegments p [])" using assms(2,3) by (intro slashes_join)
  then show "''/'' @ p = slashes (getPathSegments p []) @ tail_slash (last p = CHR ''/'')" "getPathSegments p [] \<noteq> []"
    using arg_cong[where f = "(#) CHR ''/''", OF t] by auto
qed

lemma last_segment_text:
  assumes "no_empty p" "p \<noteq> []" "hd p = CHR ''/''" "\<not> dotted (last_segment p)" "last p \<noteq> CHR ''/''"
  shows "getPathSegments p [] = [] \<or> \<not> dotted (last (getPathSegments p []))"
proof (cases "getPathSegments p []" rule: rev_cases)
  case (snoc ss s)
  then have "CHR ''/'' \<notin> set (rev s)" using getPathSegments_segment[of p] by (simp add: segment_def)
  moreover have "rev p = rev s @ CHR ''/'' # rev (slashes ss)" using arg_cong[where f = rev, OF path_text[OF assms(1-3)]] assms(5) snoc by (simp add: tail_slash_def)
  ultimately have "last_segment p = s" using segment_split[of "rev s" "CHR ''/'' # rev (slashes ss)"] by (simp add: last_segment_def)
  then show ?thesis using assms(4) snoc by simp
qed simp

lemma removeDot_rfc:
  assumes "scheme u \<noteq> []" "path u = [] \<or> hd (path u) = CHR ''/'' \<and> no_empty (path u) \<and> \<not> dotted (last_segment (path u))"
  shows "removeDotSegments True u = u\<lparr>path := rfc_dots (path u) []\<rparr>"
proof (cases "path u = []")
  case True
  then show ?thesis by (simp add: removeDotSegments_def rfc_dots_end)
next
  case False
  then have p: "hd (path u) = CHR ''/''" "no_empty (path u)" "\<not> dotted (last_segment (path u))" using assms(2) by auto
  let ?s = "getPathSegments (path u) []" and ?t = "last (path u) = CHR ''/''"
  let ?w = "foldl walk [] ?s"
  have sg: "list_all segment ?s" "list_all segment ?w" using getPathSegments_segment foldl_walk_segment[of "[]" ?s] by auto
  have l: "?t \<or> ?s = [] \<or> \<not> dotted (last ?s)" using last_segment_text[OF p(2) False p(1,3)] by blast
  have t: "?s = [] \<Longrightarrow> ?t" using path_text[OF p(2) False p(1)] False by (auto simp: tail_slash_def split: if_splits)
  have w: "?w = [] \<Longrightarrow> ?t"
  proof (rule ccontr)
    assume a: "?w = []" "\<not> ?t"
    then obtain ss s where "?s = ss @ [s]" "\<not> dotted s" using l t by (cases ?s rule: rev_cases) auto
    then show False using a(1) by (auto simp: walk_def dotted_def)
  qed
  have "rfc_dots (path u) [] = slashes ?w @ tail_slash ?t"
    using rfc_dots_segments[OF sg(1), of "[]" ?t] path_text[OF p(2) False p(1)] l by (auto simp: tail_slash_def)
  moreover have "removeDotSegments True u = buildPath ?w True ?t u"
    using False p(1) foldl_dot_step[of "[]" ?s] by (simp add: removeDotSegments_def no_dots_def)
  moreover have "path (buildPath ?w True ?t u) = slashes ?w @ tail_slash ?t"
    by (cases ?w) (simp_all add: buildPath_join slashes_def)
  ultimately show ?thesis by (simp add: buildPath_def)
qed

lemma merge_step_flag: "snd (foldl merge_step (d, b) ss) = (if ss = [] then b else dotted (last ss))"
  by (induction ss rule: rev_induct) (auto simp: merge_step_def dotted_def split: prod.splits)

lemma base_text:
  assumes "no_empty (path u)" "path u \<noteq> []" "hd (path u) = CHR ''/''"
  shows "rev (dropWhile (\<lambda>c. c \<noteq> CHR ''/'') (rev (path u))) = slashes (base_dir u) @ ''/''"
proof -
  let ?s = "getPathSegments (path u) []"
  note t = path_text[OF assms]
  show ?thesis
  proof (cases "last (path u) = CHR ''/''")
    case True
    then have r: "rev (path u) = CHR ''/'' # rev (slashes ?s)" using arg_cong[where f = rev, OF t] by (simp add: tail_slash_def)
    show ?thesis unfolding r using True by (simp add: base_dir_def Let_def)
  next
    case False
    then obtain ss s where s: "?s = ss @ [s]" using t assms(2) by (cases ?s rule: rev_cases) (auto simp: tail_slash_def)
    then have "CHR ''/'' \<notin> set (rev s)" using getPathSegments_segment[of "path u"] by (simp add: segment_def)
    moreover have r: "rev (path u) = rev s @ CHR ''/'' # rev (slashes ss)" using arg_cong[where f = rev, OF t] False s by (simp add: tail_slash_def)
    ultimately show ?thesis unfolding r using segment_split[of "rev s" "CHR ''/'' # rev (slashes ss)"] False s assms(2) by (simp add: base_dir_def)
  qed
qed

lemma mergePath_rfc:
  assumes "scheme u \<noteq> []" "no_empty (path u)" "path u \<noteq> []" "hd (path u) = CHR ''/''" "no_empty p" "p \<noteq> []" "hd p \<noteq> CHR ''/''"
  shows "mergePath p u = u\<lparr>path := rfc_dots (rfc_merge u p) []\<rparr>"
proof -
  let ?ps = "getPathSegments p []" and ?t = "last p = CHR ''/''"
  let ?s = "base_dir u @ ?ps"
  let ?w = "foldl walk [] ?s"
  have sg: "list_all segment ?s" "list_all segment ?w" using base_dir_segment[of u] getPathSegments_segment[of p] foldl_walk_segment[of "[]" ?s] by auto
  have m: "rfc_merge u p = slashes ?s @ tail_slash ?t" using base_text[OF assms(2-4)] relative_text(1)[OF assms(5-7)] assms(3) by (simp add: rfc_merge_def)
  have b: "(if path u \<noteq> [] then let segs = getPathSegments (path u) []
           in if last (path u) \<noteq> CHR ''/'' \<and> segs \<noteq> [] then butlast segs else segs else []) = base_dir u"
    by (simp add: base_dir_def Let_def getPathSegments_def)
  have ne: "?s \<noteq> []" "last ?s = last ?ps" using relative_text(2)[OF assms(5-7)] by auto
  have f: "foldl merge_step ([], False) ?s = (?w, dotted (last ?ps))"
    using merge_step_walk[of "[]" False ?s] merge_step_flag[of "[]" False ?s] ne by (metis prod.collapse)
  have "mergePath p u = buildPath ?w True (?t \<or> dotted (last ?ps)) u"
    unfolding mergePath_def Let_def b[unfolded Let_def] getPathSegments_acc[of p "base_dir u"] f using assms(3,4,6) by simp
  moreover have "path (buildPath ?w True (?t \<or> dotted (last ?ps)) u) = slashes ?w @ tail_slash (?t \<or> dotted (last ?ps))"
    by (cases ?w) (simp_all add: buildPath_join slashes_def)
  moreover have "rfc_dots (rfc_merge u p) [] = slashes ?w @ tail_slash (?t \<or> dotted (last ?ps))"
    unfolding m using rfc_dots_segments[OF sg(1), of "[]" ?t] ne by simp
  ultimately show ?thesis by (simp add: buildPath_def)
qed

text \<open>
  C22.  Resolving a reference against a base with a scheme gives the URI of RFC 3986, section 5.2, with the dot segments removed as the algorithm of section 5.2.4
  does, character by character, for paths without empty segments: a path that the reference gives from the root must not end in a dot segment (there the code
  loses the final slash), and a relative one is merged with a base path that starts with a slash.
\<close>

theorem resolve_correct:
  assumes "scheme u \<noteq> []"
    and "scheme r \<noteq> [] \<or> host r \<noteq> [] \<or> path r = [] \<or> hd (path r) = CHR ''/'' \<Longrightarrow>
      path r = [] \<or> hd (path r) = CHR ''/'' \<and> no_empty (path r) \<and> \<not> dotted (last_segment (path r))"
    and "scheme r = [] \<and> host r = [] \<and> path r \<noteq> [] \<and> hd (path r) \<noteq> CHR ''/'' \<Longrightarrow>
      no_empty (path r) \<and> no_empty (path u) \<and> path u \<noteq> [] \<and> hd (path u) = CHR ''/''"
  shows "resolve r u = rfc_resolve r u"
proof -
  note rem = removeDot_rfc
  consider "scheme r \<noteq> []" | "scheme r = []" "host r \<noteq> []" | "scheme r = []" "host r = []" "path r = []"
    | "scheme r = []" "host r = []" "path r \<noteq> []" "hd (path r) = CHR ''/''" | "scheme r = []" "host r = []" "path r \<noteq> []" "hd (path r) \<noteq> CHR ''/''" by blast
  then show ?thesis
  proof cases
    case 1
    then show ?thesis using assms(2) by (simp add: resolve_def rfc_resolve_def rem)
  next
    case 2
    then show ?thesis using assms(1,2) by (simp add: resolve_def rfc_resolve_def rem)
  next
    case 3
    then show ?thesis by (simp add: resolve_def rfc_resolve_def)
  next
    case 4
    then show ?thesis using assms(1,2) by (simp add: resolve_def rfc_resolve_def rem)
  next
    case 5
    then show ?thesis using assms(1,3) by (simp add: resolve_def rfc_resolve_def mergePath_rfc)
  qed
qed

theorem resolve_correct_witness:
  "resolve (uri_clear\<lparr>path := ''../g/..''\<rparr>) (uri_clear\<lparr>scheme := ''http'', host := ''a'', path := ''/b/c/d''\<rparr>) =
     uri_clear\<lparr>scheme := ''http'', host := ''a'', path := ''/b/''\<rparr>"
proof -
  let ?r = "uri_clear\<lparr>path := ''../g/..''\<rparr>" and ?u = "uri_clear\<lparr>scheme := ''http'', host := ''a'', path := ''/b/c/d''\<rparr>"
  have "resolve ?r ?u = rfc_resolve ?r ?u" by (rule resolve_correct) (simp_all add: uri_clear_def)
  also have "\<dots> = uri_clear\<lparr>scheme := ''http'', host := ''a'', path := ''/b/''\<rparr>"
  proof -
    have "rfc_dots (rfc_merge ?u (path ?r)) [] = ''/b/''" by code_simp
    then show ?thesis by (simp add: rfc_resolve_def uri_clear_def)
  qed
  finally show ?thesis .
qed

text \<open>Resolving a reference given as text against a base given as text, and printing the result.\<close>

definition resolve_text :: "string \<Rightarrow> string \<Rightarrow> string result" where
  "resolve_text base ref =
    rbind (uri_new base) (\<lambda>u. rbind (resolve_string ref u) (\<lambda>v. Inr (toString v)))"

text \<open>
  The examples of RFC 3986, section 5.4: every normal and abnormal example is resolved as the
  RFC says (\<^verbatim>\<open>http:g\<close> as for strict parsers), except for the reference \<^verbatim>\<open>//g\<close>, whose authority
  the parser does not recognise without a scheme.
\<close>

theorem rfc3986_examples:
  "list_all (\<lambda>(r, t). resolve_text ''http://a/b/c/d;p?q'' r = Inr t)
    [(''g:h'', ''g:h''), (''g'', ''http://a/b/c/g''), (''./g'', ''http://a/b/c/g''), (''g/'', ''http://a/b/c/g/''),
     (''/g'', ''http://a/g''), (''?y'', ''http://a/b/c/d;p?y''), (''g?y'', ''http://a/b/c/g?y''),
     (''#s'', ''http://a/b/c/d;p?q#s''), (''g#s'', ''http://a/b/c/g#s''), (''g?y#s'', ''http://a/b/c/g?y#s''),
     ('';x'', ''http://a/b/c/;x''), (''g;x'', ''http://a/b/c/g;x''), (''g;x?y#s'', ''http://a/b/c/g;x?y#s''),
     ([], ''http://a/b/c/d;p?q''), (''.'', ''http://a/b/c/''), (''./'', ''http://a/b/c/''),
     (''..'', ''http://a/b/''), (''../'', ''http://a/b/''), (''../g'', ''http://a/b/g''),
     (''../..'', ''http://a/''), (''../../'', ''http://a/''), (''../../g'', ''http://a/g''),
     (''../../../g'', ''http://a/g''), (''../../../../g'', ''http://a/g''), (''/./g'', ''http://a/g''),
     (''/../g'', ''http://a/g''), (''g.'', ''http://a/b/c/g.''), (''.g'', ''http://a/b/c/.g''),
     (''g..'', ''http://a/b/c/g..''), (''..g'', ''http://a/b/c/..g''), (''./../g'', ''http://a/b/g''),
     (''./g/.'', ''http://a/b/c/g/''), (''g/./h'', ''http://a/b/c/g/h''), (''g/../h'', ''http://a/b/c/h''),
     (''g;x=1/./y'', ''http://a/b/c/g;x=1/y''), (''g;x=1/../y'', ''http://a/b/c/y''),
     (''g?y/./x'', ''http://a/b/c/g?y/./x''), (''g?y/../x'', ''http://a/b/c/g?y/../x''),
     (''g#s/./x'', ''http://a/b/c/g#s/./x''), (''g#s/../x'', ''http://a/b/c/g#s/../x''), (''http:g'', ''http:g'')] \<and>
   resolve_text ''http://a/b/c/d;p?q'' ''//g'' = Inr ''http://a/g''"
  by code_simp

section \<open>What parsing guarantees\<close>

definition uri_wf :: "uri \<Rightarrow> bool" where
  "uri_wf u \<longleftrightarrow> port u < 65536 \<and> toLower (scheme u) = scheme u \<and> list_all in_scheme (scheme u) \<and>
    list_all (\<lambda>c. c \<notin> set ''@/?#'') (userInfo u) \<and> list_all (\<lambda>c. c \<notin> set ''@/?#'') (host u) \<and>
    (host u = [] \<or> hd (host u) = CHR ''%'' \<or> toLower (host u) = host u) \<and> CHR ''#'' \<notin> set (query u)"

lemma lower_range: "0 \<le> Ascii_toLower (uchar c)" "Ascii_toLower (uchar c) < 256"
  using uchar_range[of c] by (auto simp: Ascii_toLower_eq in_span_def)

lemma uchar_lower: "uchar (to_char (Ascii_toLower (uchar c))) = Ascii_toLower (uchar c)"
  using lower_range[of c] by (simp add: uchar_to_char)

lemma toLower_twice: "toLower (toLower s) = toLower s"
proof -
  have "Ascii_toLower (Ascii_toLower (uchar c)) = Ascii_toLower (uchar c)" for c
  proof -
    have r: "int_range (Ascii_toLower (uchar c))" using lower_range[of c] by (simp add: int_range_def)
    have "\<not> in_span 65 90 (Ascii_toLower (uchar c))" by (auto simp: Ascii_toLower_eq in_span_def)
    then show ?thesis using Ascii_toLower_eq[OF r] by simp
  qed
  then show ?thesis by (simp add: toLower_def uchar_lower)
qed

lemma toLower_chars:
  assumes "\<And>c. P c \<Longrightarrow> P (to_char (Ascii_toLower (uchar c)))" "list_all P s"
  shows "list_all P (toLower s)"
  using assms by (auto simp: toLower_def list_all_iff)

lemma lower_delimiter:
  assumes "\<not> in_span 65 90 (uchar d)" "\<not> in_span 97 122 (uchar d)"
  shows "to_char (Ascii_toLower (uchar c)) = d \<longleftrightarrow> c = d"
proof
  assume l: "to_char (Ascii_toLower (uchar c)) = d"
  then have "uchar d = Ascii_toLower (uchar c)" using uchar_lower by metis
  then have "\<not> in_span 65 90 (uchar c)" using assms by (auto simp: Ascii_toLower_eq in_span_def split: if_splits)
  then show "c = d" using l by (simp add: Ascii_toLower_eq)
qed (use assms(1) in \<open>simp add: Ascii_toLower_eq\<close>)

lemma lower_delimiters:
  "to_char (Ascii_toLower (uchar c)) = CHR '':'' \<longleftrightarrow> c = CHR '':''"
  "to_char (Ascii_toLower (uchar c)) = CHR ''?'' \<longleftrightarrow> c = CHR ''?''"
  "to_char (Ascii_toLower (uchar c)) = CHR ''#'' \<longleftrightarrow> c = CHR ''#''"
  "to_char (Ascii_toLower (uchar c)) = CHR ''/'' \<longleftrightarrow> c = CHR ''/''"
  "to_char (Ascii_toLower (uchar c)) = CHR ''@'' \<longleftrightarrow> c = CHR ''@''"
  by (rule lower_delimiter; simp add: uchar_def in_span_def)+

lemma toLower_in_scheme: "list_all in_scheme s \<Longrightarrow> list_all in_scheme (toLower s)"
  by (rule toLower_chars) (simp_all add: in_scheme_def lower_delimiters)

lemma toLower_plain: "list_all (\<lambda>c. c \<notin> set ''@/?#'') s \<Longrightarrow> list_all (\<lambda>c. c \<notin> set ''@/?#'') (toLower s)"
  by (rule toLower_chars) (simp_all add: lower_delimiters)

lemma authority_loop_chars:
  "authority_loop it info part = (i, p, r) \<Longrightarrow>
     list_all (\<lambda>c. c \<notin> set ''@/?#'') info \<Longrightarrow> list_all (\<lambda>c. c \<notin> set ''@/?#'') part \<Longrightarrow>
     list_all (\<lambda>c. c \<notin> set ''@/?#'') i \<and> list_all (\<lambda>c. c \<notin> set ''@/?#'') p"
  by (induction it info part rule: authority_loop.induct) (auto split: if_splits)

lemma parsePort_bound: "parsePort s = Inr p \<Longrightarrow> p < 65536"
  by (auto simp: parsePort_def split: if_splits option.splits)

lemma parseHostAndPort_wf:
  assumes "parseHostAndPort it u = Inr v" "list_all (\<lambda>c. c \<notin> set ''@/?#'') it" "uri_wf u"
  shows "uri_wf v"
proof (cases "it = []")
  case True then show ?thesis using assms by (simp add: parseHostAndPort_def)
next
  case False
  then obtain h rest p where
    h: "(if hd it = CHR ''['' then
           let h = takeWhile (\<lambda>c. c \<noteq> CHR '']'') (tl it); r = dropWhile (\<lambda>c. c \<noteq> CHR '']'') (tl it)
           in if r = [] then Inl URISyntaxException else Inr (h, tl r)
         else Inr (takeWhile (\<lambda>c. c \<noteq> CHR '':'') it, dropWhile (\<lambda>c. c \<noteq> CHR '':'') it)) =
       (Inr (h, rest) :: (string \<times> string) result)"
    and p: "(if rest \<noteq> [] \<and> hd rest = CHR '':'' then parsePort (tl rest) else Inr 0) = Inr p"
    and v: "v = u\<lparr>port := p, host := (if h \<noteq> [] \<and> hd h \<noteq> CHR ''%'' then toLower h else h)\<rparr>"
    using assms(1) unfolding parseHostAndPort_def by (auto simp: rbind_eq_Inr)
  have "set h \<subseteq> set it" using h False
    by (cases it) (auto simp: Let_def split: if_splits dest!: set_takeWhileD)
  then have hc: "list_all (\<lambda>c. c \<notin> set ''@/?#'') h" using assms(2) by (auto simp: list_all_iff)
  have "p < 65536" using p parsePort_bound by (auto split: if_splits)
  then show ?thesis
    using assms(3) hc toLower_plain[OF hc] v by (auto simp: uri_wf_def toLower_twice)
qed

lemma parseAuthority_wf:
  assumes "parseAuthority it u = Inr (r, v)" "uri_wf u"
  shows "uri_wf v"
proof -
  obtain i p q where a: "authority_loop it [] [] = (i, p, q)" by (metis prod_cases3)
  have c: "list_all (\<lambda>c. c \<notin> set ''@/?#'') i" "list_all (\<lambda>c. c \<notin> set ''@/?#'') p"
    using authority_loop_chars[OF a] by auto
  obtain w where w: "parseHostAndPort p u = Inr w" "v = w\<lparr>userInfo := i\<rparr>"
    using assms(1) a by (auto simp: parseAuthority_def rbind_eq_Inr)
  then show ?thesis using parseHostAndPort_wf[OF w(1) c(2) assms(2)] c(1) by (simp add: uri_wf_def)
qed

lemma parsePath_wf: "parsePath it u = Inr (r, v) \<Longrightarrow> uri_wf u \<Longrightarrow> uri_wf v"
  by (auto simp: parsePath_def rbind_eq_Inr uri_wf_def Let_def)

lemma parseQuery_wf: "uri_wf u \<Longrightarrow> uri_wf (snd (parseQuery it u))"
  by (auto simp: parseQuery_def uri_wf_def dest: set_takeWhileD)

lemma parseFragment_wf: "uri_wf u \<Longrightarrow> uri_wf (parseFragment it u)"
  by (simp add: parseFragment_def uri_wf_def)

lemma parsePathEtc_wf:
  assumes "parsePathEtc it u = Inr v" "uri_wf u"
  shows "uri_wf v"
proof (cases "it = []")
  case True then show ?thesis using assms by (simp add: parsePathEtc_def)
next
  case False
  then obtain r w where w: "(if hd it \<noteq> CHR ''?'' \<and> hd it \<noteq> CHR ''#'' then parsePath it u else Inr (it, u)) = Inr (r, w)"
    and v: "(let (it, u) = (if r \<noteq> [] \<and> hd r = CHR ''?'' then parseQuery (tl r) w else (r, w))
       in Inr (if it \<noteq> [] \<and> hd it = CHR ''#'' then parseFragment (tl it) u else u)) = (Inr v :: uri result)"
    using assms(1) unfolding parsePathEtc_def by (auto simp only: rbind_eq_Inr if_False split_paired_all prod.case)
  have ww: "uri_wf w" using w assms(2) parsePath_wf by (auto split: if_splits)
  obtain i x where x: "(if r \<noteq> [] \<and> hd r = CHR ''?'' then parseQuery (tl r) w else (r, w)) = (i, x)" by fastforce
  have "uri_wf x" using x ww parseQuery_wf[OF ww, of "tl r"] by (auto split: if_splits)
  then show ?thesis using v x parseFragment_wf by (auto split: if_splits)
qed

text \<open>
  A URI that was parsed from text is well-formed: its port is a 16-bit number, scheme and host
  are in lower case, no component contains a character that would end it.  The constructors that
  take a scheme and an authority are an exception: they leave the port uninitialised when the
  authority has no host part.
\<close>

theorem uri_parse_wf:
  "(uri_new s = Inr u \<longrightarrow> uri_wf u) \<and>
   (\<exists>v. uri_new_auth garbage ''http'' [] ''/x'' = Inr v \<and> port v = garbage)"
proof (intro conjI impI)
  assume p: "uri_new s = Inr u"
  have w0: "uri_wf uri_clear" by (simp add: uri_wf_def uri_clear_def toLower_def)
  have w1: "uri_wf (setScheme (takeWhile in_scheme s) uri_clear)"
    using w0 toLower_in_scheme[of "takeWhile in_scheme s"]
    by (auto simp: uri_wf_def setScheme_def toLower_twice list_all_iff dest: set_takeWhileD)
  show "uri_wf u" using p w0 w1
    by (auto simp: uri_new_def uri_parse_def Let_def rbind_eq_Inr split: if_splits
        dest: parsePathEtc_wf parseAuthority_wf)
next
  have "decode ''/x'' False = Inr ''/x''" by (simp add: decode_def)
  then show "\<exists>v. uri_new_auth garbage ''http'' [] ''/x'' = Inr v \<and> port v = garbage"
    by (simp add: uri_new_auth_def parseAuthority_def parseHostAndPort_def parsePathEtc_def parsePath_def Let_def)
qed

theorem uri_parse_wf_witness:
  "uri_wf \<lparr>scheme = ''http'', userInfo = [], host = ''a'', port = 8080, path = ''/'', query = [], fragment = []\<rparr>"
proof -
  have "uri_new ''HTTP://A:8080/'' =
      Inr \<lparr>scheme = ''http'', userInfo = [], host = ''a'', port = 8080, path = ''/'', query = [], fragment = []\<rparr>"
    by code_simp
  then show ?thesis using uri_parse_wf[of "''HTTP://A:8080/''"] by blast
qed

end
