(* ===== verification/ByteOrd.thy ===== *)
theory ByteOrd
  imports Prelude
begin

text \<open>
  \<^verbatim>\<open>ByteOrder\<close> on a little-endian host: integers as the bytes they occupy in memory (\<open>bytes16\<close>,
  \<open>bytes32\<close>, \<open>bytes64\<close>, read back by \<open>le16\<close>, \<open>le32\<close>), the portable byte swaps, and the conversions to
  and from big-endian and network order that are defined by them.
\<close>

section \<open>Integers in memory\<close>

definition le16 :: "u8 \<Rightarrow> u8 \<Rightarrow> u16" where
  "le16 b0 b1 = push_bit 8 (ucast b1) OR ucast b0"

definition bytes16 :: "u16 \<Rightarrow> u8 list" where
  "bytes16 w = [ucast w, ucast (drop_bit 8 w)]"

definition le32 :: "u8 \<Rightarrow> u8 \<Rightarrow> u8 \<Rightarrow> u8 \<Rightarrow> u32" where
  "le32 b0 b1 b2 b3 = push_bit 24 (ucast b3) OR push_bit 16 (ucast b2) OR push_bit 8 (ucast b1) OR ucast b0"

definition bytes32 :: "u32 \<Rightarrow> u8 list" where
  "bytes32 w = [ucast w, ucast (drop_bit 8 w), ucast (drop_bit 16 w), ucast (drop_bit 24 w)]"

definition bytes64 :: "u64 \<Rightarrow> u8 list" where
  "bytes64 w = bytes32 (ucast w) @ bytes32 (ucast (drop_bit 32 w))"

section \<open>Byte swaps\<close>

definition flipBytes16 :: "u16 \<Rightarrow> u16" where
  "flipBytes16 value = (drop_bit 8 value AND 0x00FF) OR (push_bit 8 value AND 0xFF00)"

definition flipBytes32 :: "u32 \<Rightarrow> u32" where
  "flipBytes32 value =
    (drop_bit 24 value AND 0x000000FF) OR (drop_bit 8 value AND 0x0000FF00) OR
    (push_bit 8 value AND 0x00FF0000) OR (push_bit 24 value AND 0xFF000000)"

definition flipBytes64 :: "u64 \<Rightarrow> u64" where
  "flipBytes64 value =
    (let hi = ucast (drop_bit 32 value) :: u32; lo = ucast (value AND 0xFFFFFFFF) :: u32
     in ucast (flipBytes32 hi) OR push_bit 32 (ucast (flipBytes32 lo)))"

text \<open>On a little-endian host the big-endian conversions swap, the little-endian ones do nothing.\<close>

definition toBigEndian16 :: "u16 \<Rightarrow> u16" where
  "toBigEndian16 value = flipBytes16 value"

definition fromBigEndian16 :: "u16 \<Rightarrow> u16" where
  "fromBigEndian16 value = flipBytes16 value"

definition toBigEndian32 :: "u32 \<Rightarrow> u32" where
  "toBigEndian32 value = flipBytes32 value"

definition fromBigEndian32 :: "u32 \<Rightarrow> u32" where
  "fromBigEndian32 value = flipBytes32 value"

definition toBigEndian64 :: "u64 \<Rightarrow> u64" where
  "toBigEndian64 value = flipBytes64 value"

definition fromBigEndian64 :: "u64 \<Rightarrow> u64" where
  "fromBigEndian64 value = flipBytes64 value"

section \<open>Swapping twice, and swapping as reversal of the bytes\<close>

lemma le16_bytes: "le16 (bytes16 w ! 0) (bytes16 w ! 1) = w"
  by (rule bit_word_eqI) (auto simp: le16_def bytes16_def bit_simps not_less)

lemma flip16_flip: "flipBytes16 (flipBytes16 w) = w"
proof (rule bit_word_eqI)
  fix n assume "n < LENGTH(16)"
  then have n: "n < 16" by simp
  have m: "(0x00FF :: u16) = mask 8" "(0xFF00 :: u16) = push_bit 8 (mask 8)"
    by (simp_all add: mask_eq_exp_minus_1 push_bit_eq_mult)
  show "bit (flipBytes16 (flipBytes16 w)) n = bit w n"
    using n by (cases "n < 8") (auto simp: flipBytes16_def m bit_simps)
qed

lemma le32_bytes: "le32 (bytes32 w ! 0) (bytes32 w ! 1) (bytes32 w ! 2) (bytes32 w ! 3) = w"
proof (rule bit_word_eqI)
  fix n assume "n < LENGTH(32)"
  then have n: "n < 32" by simp
  show "bit (le32 (bytes32 w ! 0) (bytes32 w ! 1) (bytes32 w ! 2) (bytes32 w ! 3)) n = bit w n"
  proof -
    consider "n < 8" | "8 \<le> n" "n < 16" | "16 \<le> n" "n < 24" | "24 \<le> n" "n < 32" using n by linarith
    then show ?thesis by cases (auto simp: le32_def bytes32_def bit_simps not_less)
  qed
qed

lemma flip32_flip: "flipBytes32 (flipBytes32 w) = w"
proof (rule bit_word_eqI)
  fix n assume "n < LENGTH(32)"
  then have n: "n < 32" by simp
  have m: "(0x000000FF :: u32) = mask 8" "(0x0000FF00 :: u32) = push_bit 8 (mask 8)"
    "(0x00FF0000 :: u32) = push_bit 16 (mask 8)" "(0xFF000000 :: u32) = push_bit 24 (mask 8)"
    by (simp_all add: mask_eq_exp_minus_1 push_bit_eq_mult)
  consider "n < 8" | "8 \<le> n" "n < 16" | "16 \<le> n" "n < 24" | "24 \<le> n" "n < 32" using n by linarith
  then show "bit (flipBytes32 (flipBytes32 w)) n = bit w n"
    by cases (auto simp: flipBytes32_def m bit_simps)
qed

lemma flip_le16: "flipBytes16 (le16 a b) = le16 b a"
proof (rule bit_word_eqI)
  fix n assume "n < LENGTH(16)"
  then have n: "n < 16" by simp
  have m: "(0x00FF :: u16) = mask 8" "(0xFF00 :: u16) = push_bit 8 (mask 8)"
    by (simp_all add: mask_eq_exp_minus_1 push_bit_eq_mult)
  show "bit (flipBytes16 (le16 a b)) n = bit (le16 b a) n"
    using n by (cases "n < 8") (auto simp: flipBytes16_def le16_def m bit_simps dest: bit_imp_le_length)
qed

lemma byte_masks16: "(0x00FF :: u16) = mask 8" "(0xFF00 :: u16) = push_bit 8 (mask 8)"
  by (simp_all add: mask_eq_exp_minus_1 push_bit_eq_mult)

lemma byte_masks32: "(0x000000FF :: u32) = mask 8" "(0x0000FF00 :: u32) = push_bit 8 (mask 8)"
  "(0x00FF0000 :: u32) = push_bit 16 (mask 8)" "(0xFF000000 :: u32) = push_bit 24 (mask 8)"
  by (simp_all add: mask_eq_exp_minus_1 push_bit_eq_mult)

lemma bytes16_flip: "bytes16 (flipBytes16 w) = rev (bytes16 w)"
  unfolding bytes16_def flipBytes16_def byte_masks16
  by (simp, intro conjI; rule bit_word_eqI; auto simp: bit_simps)

lemma bytes32_flip: "bytes32 (flipBytes32 w) = rev (bytes32 w)"
  unfolding bytes32_def flipBytes32_def byte_masks32
  by (simp, intro conjI; rule bit_word_eqI; auto simp: bit_simps)

lemma flip64_halves:
  "(ucast (flipBytes64 w) :: u32) = flipBytes32 (ucast (drop_bit 32 w))"
  "(ucast (drop_bit 32 (flipBytes64 w)) :: u32) = flipBytes32 (ucast w)"
proof -
  have m: "(0xFFFFFFFF :: u64) = mask 32" by (simp add: mask_eq_exp_minus_1)
  have u: "(ucast (w AND 0xFFFFFFFF) :: u32) = ucast w" unfolding m by (rule bit_word_eqI) (simp add: bit_simps)
  show "(ucast (flipBytes64 w) :: u32) = flipBytes32 (ucast (drop_bit 32 w))"
    unfolding flipBytes64_def Let_def by (rule bit_word_eqI) (simp add: bit_simps)
  show "(ucast (drop_bit 32 (flipBytes64 w)) :: u32) = flipBytes32 (ucast w)"
    unfolding flipBytes64_def Let_def u by (rule bit_word_eqI) (auto simp: bit_simps dest: bit_imp_le_length)
qed

lemma bytes64_flip: "bytes64 (flipBytes64 w) = rev (bytes64 w)"
  by (simp add: bytes64_def flip64_halves bytes32_flip)

lemma flip64_flip: "flipBytes64 (flipBytes64 w) = w"
proof -
  have "(ucast (flipBytes64 (flipBytes64 w)) :: u32) = ucast w"
    "(ucast (drop_bit 32 (flipBytes64 (flipBytes64 w))) :: u32) = ucast (drop_bit 32 w)"
    by (simp_all add: flip64_halves flip32_flip)
  then have h: "bit (ucast (flipBytes64 (flipBytes64 w)) :: u32) n = bit (ucast w :: u32) n"
    "bit (ucast (drop_bit 32 (flipBytes64 (flipBytes64 w))) :: u32) n = bit (ucast (drop_bit 32 w) :: u32) n" for n
    by simp_all
  show ?thesis
  proof (rule bit_word_eqI)
    fix n assume "n < LENGTH(64)"
    then have "n < 32 \<or> n - 32 < 32 \<and> 32 + (n - 32) = n" by auto
    then show "bit (flipBytes64 (flipBytes64 w)) n = bit w n"
      using h(1)[of n] h(2)[of "n - 32"] by (cases "n < 32") (simp_all add: bit_simps)
  qed
qed

text \<open>The number a list of bytes denotes, most significant byte first.\<close>

definition be_value :: "u8 list \<Rightarrow> nat" where
  "be_value bs = foldl (\<lambda>n b. n * 256 + unat b) 0 bs"

lemma be_value_snoc: "be_value (bs @ [b]) = be_value bs * 256 + unat b"
  by (simp add: be_value_def)

lemma be_value_append: "be_value (xs @ ys) = be_value xs * 256 ^ length ys + be_value ys"
proof (induction ys rule: rev_induct)
  case (snoc y ys)
  have "be_value (xs @ ys @ [y]) = be_value (xs @ ys) * 256 + unat y"
    using be_value_snoc[of "xs @ ys" y] by simp
  then show ?case using snoc by (simp add: be_value_snoc algebra_simps)
qed (simp add: be_value_def)

lemma unat_drop: "unat (drop_bit k w) = unat w div 2 ^ k"
proof -
  have "unat w < 2 ^ LENGTH('a)" for w :: "'a::len word" by (rule unsigned_less)
  then show ?thesis unfolding unsigned_drop_bit_eq by (simp add: drop_bit_eq_div take_bit_nat_eq_self)
qed

lemma unat_byte0: "unat (ucast w :: u8) = unat w mod 256"
  by (simp add: unsigned_ucast_eq take_bit_eq_mod)

lemma be_value_bytes16: "be_value (rev (bytes16 w)) = unat w"
proof -
  have "unat w < 65536" using unsigned_less[of w, where 'a = nat] by simp
  then show ?thesis by (simp add: bytes16_def be_value_def unat_drop unat_byte0)
qed

lemma be_value_bytes32: "be_value (rev (bytes32 w)) = unat w"
proof -
  let ?n = "unat w"
  have l: "?n < 4294967296" using unsigned_less[of w, where 'a = nat] by simp
  have d: "?n div 65536 = ?n div 256 div 256" "?n div 16777216 = ?n div 256 div 256 div 256"
    by (simp_all add: div_mult2_eq[symmetric])
  have "?n div 256 div 256 div 256 < 256" using l by (simp add: div_mult2_eq[symmetric])
  then have "((?n div 256 div 256 div 256 mod 256 * 256 + ?n div 256 div 256 mod 256) * 256 + ?n div 256 mod 256) * 256 + ?n mod 256 = ?n"
    by simp
  then show ?thesis by (simp add: bytes32_def be_value_def unat_drop unat_byte0 d)
qed

lemma be_value_bytes64: "be_value (rev (bytes64 w)) = unat w"
proof -
  have "unat (ucast (drop_bit 32 w) :: u32) = unat w div 2 ^ 32" "unat (ucast w :: u32) = unat w mod 2 ^ 32"
    using unsigned_less[of w, where 'a = nat] unat_drop[of 32 w] unfolding unsigned_ucast_eq
    by (simp_all add: take_bit_eq_mod)
  then show ?thesis
    by (simp add: bytes64_def be_value_append be_value_bytes32) (simp add: bytes32_def)
qed

text \<open>
  Byte order: swapping twice is the identity, swapping reverses the bytes in memory, and an
  integer converted to big-endian lies in memory as its base-256 digits, most significant first, and is
  recovered by the conversion back, for 16, 32 and 64 bits.
\<close>

theorem byte_order_correct:
  "flipBytes16 (flipBytes16 a) = a \<and> flipBytes32 (flipBytes32 b) = b \<and> flipBytes64 (flipBytes64 c) = c \<and>
   bytes16 (flipBytes16 a) = rev (bytes16 a) \<and> bytes32 (flipBytes32 b) = rev (bytes32 b) \<and>
   bytes64 (flipBytes64 c) = rev (bytes64 c) \<and>
   be_value (bytes16 (toBigEndian16 a)) = unat a \<and> be_value (bytes32 (toBigEndian32 b)) = unat b \<and>
   be_value (bytes64 (toBigEndian64 c)) = unat c \<and>
   fromBigEndian16 (toBigEndian16 a) = a \<and> fromBigEndian32 (toBigEndian32 b) = b \<and> fromBigEndian64 (toBigEndian64 c) = c"
  by (simp add: toBigEndian16_def toBigEndian32_def toBigEndian64_def fromBigEndian16_def fromBigEndian32_def
      fromBigEndian64_def flip16_flip flip32_flip flip64_flip bytes16_flip bytes32_flip bytes64_flip
      be_value_bytes16 be_value_bytes32 be_value_bytes64)

end
