(* ===== verification/UTF.thy ===== *)
theory UTF
  imports ByteOrd
begin

text \<open>
  The text encodings \<^verbatim>\<open>UTF8Encoding\<close>, \<^verbatim>\<open>UTF16Encoding\<close> and \<^verbatim>\<open>UTF32Encoding\<close> and the conversion loop
  of \<^verbatim>\<open>TextConverter\<close> that works with any pair of encodings.

  A byte is a \<open>u8\<close>; \<^verbatim>\<open>const unsigned char* bytes\<close> is the list of the bytes that can be read from
  there.  The integers the code computes with are \<^verbatim>\<open>int\<close>s that stay small.  \<^verbatim>\<open>UInt16\<close> and \<^verbatim>\<open>UInt32\<close>
  objects are words whose bytes lie in memory as on a little-endian host; \<open>flip\<close> is the member
  \<^verbatim>\<open>_flipBytes\<close>.  The encodings' contract with the converter is the locale \<open>text_encoding\<close>.
\<close>

section \<open>UTF-8\<close>

definition utf8_charMap :: "int list" where
  "utf8_charMap = map int [0..<128] @ replicate 64 (-1) @ replicate 32 (-2) @ replicate 16 (-3) @
     replicate 8 (-4) @ replicate 8 (-1)"

definition utf8_isLegal :: "u8 list \<Rightarrow> int \<Rightarrow> bool" where
  "utf8_isLegal bytes len =
    (let b = uint (bytes ! 0);
         cont = (\<lambda>a. \<not> (a < 0x80 \<or> a > 0xBF));
         second = (\<lambda>a. if b = 0xE0 then \<not> (a < 0xA0 \<or> a > 0xBF)
                       else if b = 0xED then \<not> (a < 0x80 \<or> a > 0x9F)
                       else if b = 0xF0 then \<not> (a < 0x90 \<or> a > 0xBF)
                       else if b = 0xF4 then \<not> (a < 0x80 \<or> a > 0x8F)
                       else \<not> (a < 0x80 \<or> a > 0xBF))
     in len \<in> {1, 2, 3, 4} \<and> (len = 4 \<longrightarrow> cont (uint (bytes ! 3))) \<and> (len \<ge> 3 \<longrightarrow> cont (uint (bytes ! 2))) \<and>
        (len \<ge> 2 \<longrightarrow> second (uint (bytes ! 1))) \<and> \<not> (b \<ge> 0x80 \<and> b < 0xC2) \<and> b \<le> 0xF4)"

function utf8_loop :: "int \<Rightarrow> int \<Rightarrow> u8 list \<Rightarrow> int" where
  "utf8_loop n uc bytes =
    (if n < -1 then utf8_loop (n + 1) ((push_bit 6 uc) OR (uint (hd (tl bytes)) AND 0x3F)) (tl bytes) else uc)"
  by pat_completeness auto
termination by (relation "measure (\<lambda>(n, uc, bytes). nat (- 1 - n))") auto

declare utf8_loop.simps [simp del]

definition utf8_decode :: "u8 list \<Rightarrow> int" where
  "utf8_decode bytes =
    (let n = utf8_charMap ! unat (bytes ! 0) in
     if n = -1 then -1
     else if n = -4 \<or> n = -3 \<or> n = -2 then
       if \<not> utf8_isLegal bytes (- n) then -1
       else utf8_loop n (uint (bytes ! 0) AND (push_bit (nat (n + 4)) 0x07 OR 0x03)) bytes
     else n)"

definition utf8_queryConvert :: "u8 list \<Rightarrow> int \<Rightarrow> int" where
  "utf8_queryConvert bytes len =
    (let n = utf8_charMap ! unat (bytes ! 0) in if - n > len then n else utf8_decode bytes)"

definition utf8_sequenceLength :: "u8 list \<Rightarrow> int \<Rightarrow> int" where
  "utf8_sequenceLength bytes len =
    (if 1 \<le> len then
       let cc = utf8_charMap ! unat (bytes ! 0) in if cc \<ge> 0 then 1 else - cc
     else -1)"

text \<open>
  \<^verbatim>\<open>convert(int ch, unsigned char* bytes, int length)\<close> returns the number of bytes and writes them
  when they fit.
\<close>

definition utf8_bytes :: "int \<Rightarrow> u8 list" where
  "utf8_bytes ch =
    (if ch \<le> 0x7F then [word_of_int ch]
     else if ch \<le> 0x7FF then
       [word_of_int ((drop_bit 6 ch AND 0x1F) OR 0xC0), word_of_int ((ch AND 0x3F) OR 0x80)]
     else if ch \<le> 0xFFFF then
       [word_of_int ((drop_bit 12 ch AND 0x0F) OR 0xE0), word_of_int ((drop_bit 6 ch AND 0x3F) OR 0x80),
        word_of_int ((ch AND 0x3F) OR 0x80)]
     else if ch \<le> 0x10FFFF then
       [word_of_int ((drop_bit 18 ch AND 0x07) OR 0xF0), word_of_int ((drop_bit 12 ch AND 0x3F) OR 0x80),
        word_of_int ((drop_bit 6 ch AND 0x3F) OR 0x80), word_of_int ((ch AND 0x3F) OR 0x80)]
     else [])"

definition utf8_convert :: "int \<Rightarrow> int \<Rightarrow> int \<times> u8 list" where
  "utf8_convert ch len =
    (let bs = utf8_bytes ch in (int (length bs), if len \<ge> int (length bs) then bs else []))"

section \<open>UTF-16 and UTF-32\<close>

definition flipped16 :: "bool \<Rightarrow> u16 \<Rightarrow> u16" where
  "flipped16 flip w = (if flip then flipBytes16 w else w)"

definition utf16_decode :: "bool \<Rightarrow> u8 list \<Rightarrow> int" where
  "utf16_decode flip bytes =
    (let uc = uint (flipped16 flip (le16 (bytes ! 0) (bytes ! 1))) in
     if uc \<ge> 0xd800 \<and> uc < 0xdc00 then
       let uc2 = uint (flipped16 flip (le16 (bytes ! 2) (bytes ! 3))) in
       if uc2 \<ge> 0xdc00 \<and> uc2 < 0xe000 then push_bit 10 (uc AND 0x3ff) + (uc2 AND 0x3ff) + 0x10000
       else -1
     else uc)"

definition utf16_bytes :: "bool \<Rightarrow> int \<Rightarrow> u8 list" where
  "utf16_bytes flip ch =
    (if ch \<le> 0xFFFF then bytes16 (flipped16 flip (word_of_int ch))
     else
       let ch1 = ch - 0x10000;
           w1 = word_of_int (0xD800 + (drop_bit 10 ch1 AND 0x3FF));
           w2 = word_of_int (0xDC00 + (ch1 AND 0x3FF))
       in bytes16 (flipped16 flip w1) @ bytes16 (flipped16 flip w2))"

definition utf16_convert :: "bool \<Rightarrow> int \<Rightarrow> int \<Rightarrow> int \<times> u8 list" where
  "utf16_convert flip ch len =
    (let bs = utf16_bytes flip ch in (int (length bs), if len \<ge> int (length bs) then bs else []))"

definition utf16_queryConvert :: "bool \<Rightarrow> u8 list \<Rightarrow> int \<Rightarrow> int" where
  "utf16_queryConvert flip bytes len =
    (if len \<ge> 2 then
       let uc = uint (flipped16 flip (le16 (bytes ! 0) (bytes ! 1))) in
       if uc \<ge> 0xd800 \<and> uc < 0xdc00 then
         if len \<ge> 4 then
           let uc2 = uint (flipped16 flip (le16 (bytes ! 2) (bytes ! 3))) in
           if uc2 \<ge> 0xdc00 \<and> uc < 0xe000 then push_bit 10 (uc AND 0x3ff) + (uc2 AND 0x3ff) + 0x10000
           else -1
         else -4
       else uc
     else -2)"

definition utf16_sequenceLength :: "bool \<Rightarrow> u8 list \<Rightarrow> int \<Rightarrow> int" where
  "utf16_sequenceLength flip bytes len =
    (if flip then
       if len \<ge> 1 then let c = uint (bytes ! 0) in if c \<ge> 0xd8 \<and> c < 0xdc then 4 else 2 else -2
     else
       if len \<ge> 2 then
         let uc = uint (le16 (bytes ! 0) (bytes ! 1)) in if uc \<ge> 0xd800 \<and> uc < 0xdc00 then 4 else 2
       else -2)"

definition flipped32 :: "bool \<Rightarrow> u32 \<Rightarrow> u32" where
  "flipped32 flip w = (if flip then flipBytes32 w else w)"

definition safeToInt :: "u32 \<Rightarrow> int" where
  "safeToInt v = (if uint v \<le> 0x10FFFF then uint v else -1)"

definition utf32_decode :: "bool \<Rightarrow> u8 list \<Rightarrow> int" where
  "utf32_decode flip bytes =
    safeToInt (flipped32 flip (le32 (bytes ! 0) (bytes ! 1) (bytes ! 2) (bytes ! 3)))"

definition utf32_bytes :: "bool \<Rightarrow> int \<Rightarrow> u8 list" where
  "utf32_bytes flip ch = bytes32 (flipped32 flip (word_of_int ch))"

definition utf32_convert :: "bool \<Rightarrow> int \<Rightarrow> int \<Rightarrow> int \<times> u8 list" where
  "utf32_convert flip ch len = (4, if len \<ge> 4 then utf32_bytes flip ch else [])"

definition utf32_queryConvert :: "bool \<Rightarrow> u8 list \<Rightarrow> int \<Rightarrow> int" where
  "utf32_queryConvert flip bytes len = (if len \<ge> 4 then utf32_decode flip bytes else -4)"

definition utf32_sequenceLength :: "u8 list \<Rightarrow> int \<Rightarrow> int" where
  "utf32_sequenceLength bytes len = 4"

section \<open>TextIterator and TextConverter\<close>

text \<open>
  A \<^verbatim>\<open>TextIterator\<close> is the list of the bytes from \<^verbatim>\<open>_it\<close> to \<^verbatim>\<open>_end\<close>; the local \<^verbatim>\<open>buffer\<close> holds the
  first \<^verbatim>\<open>read\<close> of them.  \<open>ti_fill\<close> is the loop that advances while there are bytes and fewer than
  wanted; \<open>ti_query\<close> is the loop, shared by the two operators, that asks the encoding again until it
  does not want more than there is.
\<close>

function ti_fill :: "int \<Rightarrow> int \<Rightarrow> int \<Rightarrow> int" where
  "ti_fill want avail rd = (if rd < want \<and> rd \<noteq> avail then ti_fill want avail (rd + 1) else rd)"
  by pat_completeness auto
termination by (relation "measure (\<lambda>(want, avail, rd). nat (want - rd))") auto

declare ti_fill.simps [simp del]

partial_function (option) ti_query :: "(u8 list \<Rightarrow> int \<Rightarrow> int) \<Rightarrow> u8 list \<Rightarrow> int \<Rightarrow> int \<Rightarrow> (int \<times> int) option" where
  "ti_query ask it n rd =
    (if -1 > n \<and> int (length it) - rd \<ge> - n - rd then
       ti_query ask it
         (ask (take (nat (ti_fill (- n) (int (length it)) rd)) it) (ti_fill (- n) (int (length it)) rd))
         (ti_fill (- n) (int (length it)) rd)
     else Some (n, rd))"

declare ti_query.simps [code]

definition ti_deref :: "(u8 list \<Rightarrow> int \<Rightarrow> int) \<Rightarrow> u8 list \<Rightarrow> int option" where
  "ti_deref query it =
    (case ti_query query it (query (take 1 it) 1) 1 of
       None \<Rightarrow> None
     | Some (n, rd) \<Rightarrow> Some (if -1 > n then -1 else n))"

definition ti_next :: "(u8 list \<Rightarrow> int \<Rightarrow> int) \<Rightarrow> u8 list \<Rightarrow> u8 list option" where
  "ti_next seqlen it =
    (case ti_query seqlen it (seqlen (take 1 it) 1) 1 of
       None \<Rightarrow> None
     | Some (n, rd) \<Rightarrow> Some (drop (nat (ti_fill n (int (length it)) rd)) it))"

text \<open>
  The inner loop of \<^verbatim>\<open>TextConverter::convert\<close> asks the encoding again with as many bytes as it
  requested, as long as they are there.  It ends only if the encoding eventually stops asking:
  \<open>None\<close> is an endless loop.
\<close>

partial_function (option) tc_query :: "(u8 list \<Rightarrow> int \<Rightarrow> int) \<Rightarrow> u8 list \<Rightarrow> int \<Rightarrow> int \<Rightarrow> (int \<times> int) option" where
  "tc_query query it n rd =
    (if -1 > n \<and> int (length it) \<ge> - n then tc_query query it (query it (- n)) (- n)
     else Some (n, rd))"

declare tc_query.simps [code]

definition tc_emit :: "(int \<Rightarrow> int \<Rightarrow> int \<times> u8 list) \<Rightarrow> int \<Rightarrow> int \<Rightarrow> u8 list" where
  "tc_emit out_conv defaultChar uc =
    (let (n, bs) = out_conv uc 4;
         (n, bs) = (if n = 0 then out_conv defaultChar 4 else (n, bs))
     in bs)"

partial_function (option) tc_convert :: "(u8 list \<Rightarrow> int \<Rightarrow> int) \<Rightarrow> (int \<Rightarrow> int \<Rightarrow> int \<times> u8 list) \<Rightarrow> int \<Rightarrow>
    (int \<Rightarrow> int) \<Rightarrow> u8 list \<Rightarrow> nat \<Rightarrow> u8 list \<Rightarrow> (nat \<times> u8 list) option" where
  "tc_convert query out_conv defaultChar tr it errors destination =
    (if it = [] then Some (errors, destination)
     else
       case tc_query query it (query it 1) 1 of
         None \<Rightarrow> None
       | Some (n, rd) \<Rightarrow>
           tc_convert query out_conv defaultChar tr
             (if -1 > n then [] else drop (nat rd) it)
             (if -1 \<ge> n then errors + 1 else errors)
             (destination @ tc_emit out_conv defaultChar (tr (if -1 \<ge> n then defaultChar else n))))"

declare tc_convert.simps [code]

text \<open>The overload for strings walks the string with a \<^verbatim>\<open>TextIterator\<close>.\<close>

partial_function (option) tc_convert_string :: "(u8 list \<Rightarrow> int \<Rightarrow> int) \<Rightarrow> (u8 list \<Rightarrow> int \<Rightarrow> int) \<Rightarrow>
    (int \<Rightarrow> int \<Rightarrow> int \<times> u8 list) \<Rightarrow> int \<Rightarrow> (int \<Rightarrow> int) \<Rightarrow> u8 list \<Rightarrow> nat \<Rightarrow> u8 list \<Rightarrow> (nat \<times> u8 list) option" where
  "tc_convert_string query seqlen out_conv defaultChar tr it errors destination =
    (if it = [] then Some (errors, destination)
     else
       case ti_deref query it of
         None \<Rightarrow> None
       | Some c \<Rightarrow>
           (case ti_next seqlen it of
              None \<Rightarrow> None
            | Some it' \<Rightarrow>
                tc_convert_string query seqlen out_conv defaultChar tr it'
                  (if c = -1 then errors + 1 else errors)
                  (destination @ tc_emit out_conv defaultChar (tr (if c = -1 then defaultChar else c)))))"

declare tc_convert_string.simps [code]
section \<open>The interface of an encoding\<close>

text \<open>
  What \<^verbatim>\<open>TextConverter\<close> relies on: a query that asks for more bytes asks for more than it was
  given; the bytes of an encodable character, given completely, yield the character, and a proper
  prefix of them makes the query ask for more, but not for more than there are.
\<close>

locale text_encoding =
  fixes query :: "u8 list \<Rightarrow> int \<Rightarrow> int"
    and conv :: "int \<Rightarrow> int \<Rightarrow> int \<times> u8 list"
    and enc :: "int \<Rightarrow> u8 list"
    and ok :: "int \<Rightarrow> bool"
  assumes conv_ok: "ok c \<Longrightarrow> conv c 4 = (int (length (enc c)), enc c)"
    and enc_ok: "ok c \<Longrightarrow> 0 \<le> c \<and> enc c \<noteq> []"
    and progress: "1 \<le> r \<Longrightarrow> r \<le> int (length bs) \<Longrightarrow> query bs r < -1 \<Longrightarrow> r < - query bs r"
    and complete: "ok c \<Longrightarrow> query (enc c @ rest) (int (length (enc c))) = c"
    and partial: "ok c \<Longrightarrow> 1 \<le> r \<Longrightarrow> r < int (length (enc c)) \<Longrightarrow>
      query (enc c @ rest) r < -1 \<and> - query (enc c @ rest) r \<le> int (length (enc c))"
begin

lemma tc_query_terminates:
  "1 \<le> r \<Longrightarrow> r \<le> int (length it) \<Longrightarrow>
     \<exists>n k. tc_query query it (query it r) r = Some (n, k) \<and> 1 \<le> k \<and> k \<le> int (length it)"
proof (induction "nat (int (length it) - r)" arbitrary: r rule: less_induct)
  case less
  show ?case
  proof (cases "-1 > query it r \<and> int (length it) \<ge> - query it r")
    case True
    then have p: "r < - query it r" using progress less.prems by simp
    then have "\<exists>n k. tc_query query it (query it (- query it r)) (- query it r) = Some (n, k) \<and> 1 \<le> k \<and> k \<le> int (length it)"
      using True less.prems by (intro less.hyps) auto
    then show ?thesis using True by (subst tc_query.simps) simp
  next
    case False
    then show ?thesis using less.prems by (subst tc_query.simps) auto
  qed
qed

lemma tc_query_enc:
  assumes "ok c"
  shows "1 \<le> r \<Longrightarrow> r \<le> int (length (enc c)) \<Longrightarrow>
     tc_query query (enc c @ rest) (query (enc c @ rest) r) r = Some (c, int (length (enc c)))"
proof (induction "nat (int (length (enc c)) - r)" arbitrary: r rule: less_induct)
  case less
  let ?q = "query (enc c @ rest) r"
  show ?case
  proof (cases "r = int (length (enc c))")
    case True
    then have "?q = c" using complete[OF assms] by simp
    moreover have "0 \<le> c" using enc_ok[OF assms] by simp
    ultimately show ?thesis using True by (subst tc_query.simps) simp
  next
    case False
    then have p: "?q < -1" "- ?q \<le> int (length (enc c))" using partial[OF assms, of r rest] less.prems by auto
    have "r < - ?q" using progress[OF less.prems(1) _ p(1)] less.prems(2) by simp
    then have "tc_query query (enc c @ rest) (query (enc c @ rest) (- ?q)) (- ?q) = Some (c, int (length (enc c)))"
      using p less.prems by (intro less.hyps) auto
    then show ?thesis using p by (subst tc_query.simps) simp
  qed
qed

lemma tc_convert_terminates: "\<exists>r. tc_convert query out d tr it e dst = Some r"
proof (induction "length it" arbitrary: it e dst rule: less_induct)
  case less
  show ?case
  proof (cases "it = []")
    case True then show ?thesis by (subst tc_convert.simps) simp
  next
    case False
    then obtain n k where q: "tc_query query it (query it 1) 1 = Some (n, k)" "1 \<le> k" "k \<le> int (length it)"
      using tc_query_terminates[of 1 it] by (cases it) auto
    have "length (if -1 > n then [] else drop (nat k) it) < length it" using False q by auto
    then have "\<exists>r. tc_convert query out d tr (if -1 > n then [] else drop (nat k) it) e' dst' = Some r" for e' dst'
      by (rule less.hyps)
    then show ?thesis using False q by (subst tc_convert.simps) simp
  qed
qed

lemma tc_convert_all:
  assumes "list_all ok cs"
  shows "tc_convert query out d tr (concat (map enc cs)) e dst =
    Some (e, dst @ concat (map (\<lambda>c. tc_emit out d (tr c)) cs))"
  using assms
proof (induction cs arbitrary: dst)
  case Nil then show ?case by (subst tc_convert.simps) simp
next
  case (Cons c cs)
  let ?it = "enc c @ concat (map enc cs)"
  have c: "ok c" using Cons.prems by simp
  then have b: "0 \<le> c" "enc c \<noteq> []" using enc_ok by auto
  then have "1 \<le> int (length (enc c))" by (cases "enc c") auto
  then have "tc_query query ?it (query ?it 1) 1 = Some (c, int (length (enc c)))"
    using tc_query_enc[OF c, of 1 "concat (map enc cs)"] by simp
  then have "tc_convert query out d tr ?it e dst =
      tc_convert query out d tr (concat (map enc cs)) e (dst @ tc_emit out d (tr c))"
    using b by (subst tc_convert.simps) simp
  then show ?case using Cons by simp
qed

lemma tc_emit_ok: "ok c \<Longrightarrow> tc_emit conv d c = enc c"
  using conv_ok[of c] enc_ok[of c] by (simp add: tc_emit_def)

end

text \<open>A conversion between two encodings of the same characters loses nothing.\<close>

locale text_conversion =
  src: text_encoding query conv enc ok + dst: text_encoding query' conv' enc' ok
  for query conv enc ok query' conv' enc'
begin

lemma convert_exact:
  assumes "list_all ok cs"
  shows "tc_convert query conv' d (\<lambda>c. c) (concat (map enc cs)) 0 [] = Some (0, concat (map enc' cs))"
proof -
  have e: "map (\<lambda>c. tc_emit conv' d c) cs = map enc' cs"
    using assms dst.tc_emit_ok by (auto simp: list_all_iff)
  show ?thesis unfolding src.tc_convert_all[OF assms] e by simp
qed

end

section \<open>Bits of small integers\<close>

lemma or_tag:
  "(x mod 64) OR 0x80 = x mod 64 + (0x80 :: int)" "(x mod 32) OR 0xC0 = x mod 32 + (0xC0 :: int)"
  "(x mod 16) OR 0xE0 = x mod 16 + (0xE0 :: int)" "(x mod 8) OR 0xF0 = x mod 8 + (0xF0 :: int)"
  using or_push_bit[of "x mod 64" 6 2] or_push_bit[of "x mod 32" 5 6] or_push_bit[of "x mod 16" 4 14]
    or_push_bit[of "x mod 8" 3 30]
  by (simp_all add: push_bit_eq_mult)

lemma shift_or: "push_bit 6 a OR (x mod 64) = a * 64 + x mod (64 :: int)"
  using or_push_bit[of "x mod 64" 6 a] by (simp add: or.commute push_bit_eq_mult)

lemma utf8_bytes_arith:
  "utf8_bytes ch =
    (if ch \<le> 0x7F then [word_of_int ch]
     else if ch \<le> 0x7FF then [word_of_int (ch div 64 mod 32 + 0xC0), word_of_int (ch mod 64 + 0x80)]
     else if ch \<le> 0xFFFF then
       [word_of_int (ch div 4096 mod 16 + 0xE0), word_of_int (ch div 64 mod 64 + 0x80), word_of_int (ch mod 64 + 0x80)]
     else if ch \<le> 0x10FFFF then
       [word_of_int (ch div 262144 mod 8 + 0xF0), word_of_int (ch div 4096 mod 64 + 0x80),
        word_of_int (ch div 64 mod 64 + 0x80), word_of_int (ch mod 64 + 0x80)]
     else [])"
  by (simp only: utf8_bytes_def and_mask_int or_tag drop_bit_eq_div) simp

lemma lead_mask:
  "(x :: int) AND (push_bit (nat (- 2 + 4)) 0x07 OR 0x03) = x mod 32"
  "x AND (push_bit (nat (- 3 + 4)) 0x07 OR 0x03) = x mod 16"
  "x AND (push_bit (nat (- 4 + 4)) 0x07 OR 0x03) = x mod 8"
  by (simp_all add: push_bit_eq_mult and_mask_int)

lemma utf8_loop_unfold:
  "utf8_loop (-1) uc bs = uc"
  "utf8_loop (-2) uc (a # b # bs) = uc * 64 + uint b mod 64"
  "utf8_loop (-3) uc (a # b # c # bs) = (uc * 64 + uint b mod 64) * 64 + uint c mod 64"
  "utf8_loop (-4) uc (a # b # c # d # bs) = ((uc * 64 + uint b mod 64) * 64 + uint c mod 64) * 64 + uint d mod 64"
  by (simp_all add: utf8_loop.simps and_mask_int shift_or)

definition lead :: "u8 \<Rightarrow> int" where
  "lead b = (let x = uint b in if x < 128 then x else if x < 0xC0 then -1 else if x < 0xE0 then -2
     else if x < 0xF0 then -3 else if x < 0xF8 then -4 else -1)"

lemma utf8_charMap_nth:
  "i < 128 \<Longrightarrow> utf8_charMap ! i = int i"
  "128 \<le> i \<Longrightarrow> i < 192 \<Longrightarrow> utf8_charMap ! i = -1"
  "192 \<le> i \<Longrightarrow> i < 224 \<Longrightarrow> utf8_charMap ! i = -2"
  "224 \<le> i \<Longrightarrow> i < 240 \<Longrightarrow> utf8_charMap ! i = -3"
  "240 \<le> i \<Longrightarrow> i < 248 \<Longrightarrow> utf8_charMap ! i = -4"
  "248 \<le> i \<Longrightarrow> i < 256 \<Longrightarrow> utf8_charMap ! i = -1"
  unfolding utf8_charMap_def by (auto simp: nth_append; arith)+

lemma charMap_lead: "utf8_charMap ! unat b = lead b"
proof -
  define m where "m = unat b"
  have u: "uint b = int m" by (simp add: m_def)
  have "m < 256" using unsigned_less[of b, where 'a = nat] by (simp add: m_def)
  then consider "m < 128" | "128 \<le> m" "m < 192" | "192 \<le> m" "m < 224"
    | "224 \<le> m" "m < 240" | "240 \<le> m" "m < 248" | "248 \<le> m" "m < 256"
    by linarith
  then show ?thesis unfolding lead_def u m_def[symmetric] by cases (simp_all add: utf8_charMap_nth)
qed

section \<open>The iterator reads what the converter reads\<close>

lemma ti_fill_eq: "rd \<le> avail \<Longrightarrow> ti_fill want avail rd = max rd (min want avail)"
proof (induction want avail rd rule: ti_fill.induct)
  case (1 want avail rd)
  then show ?case by (subst ti_fill.simps) auto
qed

text \<open>
  The string overload needs two more laws: a query with \<open>r\<close> bytes reads only \<open>r\<close> bytes, and the
  iterator advances over exactly what the query consumed.
\<close>

locale text_iteration = text_encoding query conv enc ok
  for query conv enc ok +
  fixes seqlen :: "u8 list \<Rightarrow> int \<Rightarrow> int"
  assumes local: "1 \<le> r \<Longrightarrow> r \<le> int (length bs) \<Longrightarrow> query (take (nat r) bs) r = query bs r"
    and advance: "it \<noteq> [] \<Longrightarrow> tc_query query it (query it 1) 1 = Some (n, rd) \<Longrightarrow>
      ti_next seqlen it = Some (if -1 > n then [] else drop (nat rd) it)"
begin

lemma ti_query_eq:
  "1 \<le> r \<Longrightarrow> r \<le> int (length it) \<Longrightarrow>
     ti_query query it (query (take (nat r) it) r) r = tc_query query it (query it r) r"
proof (induction "nat (int (length it) - r)" arbitrary: r rule: less_induct)
  case less
  have q: "query (take (nat r) it) r = query it r" using less.prems local by simp
  show ?case
  proof (cases "-1 > query it r \<and> int (length it) \<ge> - query it r")
    case True
    then have p: "r < - query it r" using progress less.prems by simp
    then have f: "ti_fill (- query it r) (int (length it)) r = - query it r"
      using True less.prems by (subst ti_fill_eq) auto
    have "ti_query query it (query (take (nat (- query it r)) it) (- query it r)) (- query it r) =
        tc_query query it (query it (- query it r)) (- query it r)"
      using True p less.prems by (intro less.hyps) auto
    then show ?thesis unfolding q
      by (subst ti_query.simps, subst tc_query.simps) (use True f in simp)
  next
    case False
    then show ?thesis unfolding q by (subst ti_query.simps, subst tc_query.simps) auto
  qed
qed

lemma convert_string_eq:
  "tc_convert_string query seqlen out d tr it e dst = tc_convert query out d tr it e dst"
proof (induction "length it" arbitrary: it e dst rule: less_induct)
  case less
  show ?case
  proof (cases "it = []")
    case True then show ?thesis by (subst tc_convert_string.simps, subst tc_convert.simps) simp
  next
    case False
    then have l: "1 \<le> int (length it)" by (cases it) auto
    obtain n k where q: "tc_query query it (query it 1) 1 = Some (n, k)" "1 \<le> k" "k \<le> int (length it)"
      using tc_query_terminates[of 1 it] l by auto
    have d: "ti_deref query it = Some (if -1 > n then -1 else n)"
      using ti_query_eq[of 1 it] l q(1) by (simp add: ti_deref_def)
    have "length (if -1 > n then [] else drop (nat k) it) < length it" using False q by auto
    note IH = less.hyps[OF this]
    show ?thesis
      by (subst tc_convert_string.simps, subst tc_convert.simps)
        (use False d q(1) advance[OF False q(1)] IH in auto)
  qed
qed

end
section \<open>UTF-8 is strict and complete\<close>

text \<open>The Unicode scalar values: the code points without the surrogates.\<close>

definition scalar :: "int \<Rightarrow> bool" where
  "scalar c \<longleftrightarrow> 0 \<le> c \<and> c \<le> 0x10FFFF \<and> \<not> (0xD800 \<le> c \<and> c \<le> 0xDFFF)"

lemma uint_byte: "0 \<le> x \<Longrightarrow> x < 256 \<Longrightarrow> uint (word_of_int x :: u8) = x"
  by (simp add: uint_word_of_int)

lemma byte_range: "0 \<le> uint (b :: u8)" "uint b < 256"
  using uint_lt2p[of b] by simp_all

lemma utf8_decode_eq:
  "utf8_decode bs =
    (let n = lead (bs ! 0) in
     if n \<ge> 0 then n
     else if n = -1 then -1
     else if \<not> utf8_isLegal bs (- n) then -1
     else utf8_loop n (if n = -2 then uint (bs ! 0) mod 32 else if n = -3 then uint (bs ! 0) mod 16
                       else uint (bs ! 0) mod 8) bs)"
proof -
  have "lead (bs ! 0) \<ge> 0 \<or> lead (bs ! 0) \<in> {-1, -2, -3, -4}"
    using byte_range[of "bs ! 0"] by (auto simp: lead_def Let_def)
  then show ?thesis unfolding utf8_decode_def charMap_lead Let_def
    by (auto simp: lead_mask and_mask_int)
qed

lemma utf8_ascii:
  assumes "0 \<le> c" "c \<le> 0x7F"
  shows "utf8_decode (utf8_bytes c @ rest) = c" "lead (hd (utf8_bytes c)) = c" "length (utf8_bytes c) = 1"
  using assms by (simp_all add: utf8_bytes_arith utf8_decode_eq lead_def uint_byte)

lemma tag_mod:
  "0 \<le> y \<Longrightarrow> y < 64 \<Longrightarrow> (y + 0x80) mod 64 = (y :: int)" "0 \<le> x \<Longrightarrow> x < 32 \<Longrightarrow> (x + 0xC0) mod 32 = (x :: int)"
  "0 \<le> x \<Longrightarrow> x < 16 \<Longrightarrow> (x + 0xE0) mod 16 = (x :: int)" "0 \<le> x \<Longrightarrow> x < 8 \<Longrightarrow> (x + 0xF0) mod 8 = (x :: int)"
  using mod_mult_self2[of y 64 2] mod_mult_self2[of x 32 6] mod_mult_self2[of x 16 14] mod_mult_self2[of x 8 30]
  by simp_all

lemma group64: "0 \<le> y \<Longrightarrow> y < 64 \<Longrightarrow> (a * 64 + y) div 64 = (a :: int)" "0 \<le> y \<Longrightarrow> y < 64 \<Longrightarrow> (a * 64 + y) mod 64 = (y :: int)"
  by simp_all

lemma decode2:
  fixes a b :: u8
  assumes "uint a = x + 0xC0" "uint b = y + 0x80" "2 \<le> x" "x < 32" "0 \<le> y" "y < 64"
  shows "utf8_decode (a # b # rest) = x * 64 + y" "lead a = -2"
proof -
  show l: "lead a = -2" using assms by (simp add: lead_def)
  have "utf8_isLegal (a # b # rest) 2" using assms by (auto simp: utf8_isLegal_def Let_def)
  then have "utf8_decode (a # b # rest) = uint a mod 32 * 64 + uint b mod 64"
    by (simp add: utf8_decode_eq l utf8_loop_unfold)
  also have "\<dots> = x * 64 + y" unfolding assms(1,2) using assms(3-6) tag_mod(2)[of x] tag_mod(1)[of y] by simp
  finally show "utf8_decode (a # b # rest) = x * 64 + y" .
qed

lemma decode3:
  fixes a b c :: u8
  assumes "uint a = x + 0xE0" "uint b = y + 0x80" "uint c = z + 0x80" "0 \<le> x" "x < 16"
    "0 \<le> y" "y < 64" "0 \<le> z" "z < 64" "x = 0 \<longrightarrow> 32 \<le> y" "x = 13 \<longrightarrow> y < 32"
  shows "utf8_decode (a # b # c # rest) = (x * 64 + y) * 64 + z" "lead a = -3"
proof -
  show l: "lead a = -3" using assms by (simp add: lead_def)
  have "utf8_isLegal (a # b # c # rest) 3" using assms by (auto simp: utf8_isLegal_def Let_def)
  then have "utf8_decode (a # b # c # rest) = (uint a mod 16 * 64 + uint b mod 64) * 64 + uint c mod 64"
    by (simp add: utf8_decode_eq l utf8_loop_unfold)
  also have "\<dots> = (x * 64 + y) * 64 + z" unfolding assms(1-3) using assms(4-9) by (simp only: tag_mod)
  finally show "utf8_decode (a # b # c # rest) = (x * 64 + y) * 64 + z" .
qed

lemma decode4:
  fixes a b c d :: u8
  assumes "uint a = x + 0xF0" "uint b = y + 0x80" "uint c = z + 0x80" "uint d = w + 0x80" "0 \<le> x" "x \<le> 4"
    "0 \<le> y" "y < 64" "0 \<le> z" "z < 64" "0 \<le> w" "w < 64" "x = 0 \<longrightarrow> 16 \<le> y" "x = 4 \<longrightarrow> y < 16"
  shows "utf8_decode (a # b # c # d # rest) = ((x * 64 + y) * 64 + z) * 64 + w" "lead a = -4"
proof -
  show l: "lead a = -4" using assms by (simp add: lead_def)
  have "utf8_isLegal (a # b # c # d # rest) 4" using assms by (auto simp: utf8_isLegal_def Let_def)
  then have "utf8_decode (a # b # c # d # rest) =
      ((uint a mod 8 * 64 + uint b mod 64) * 64 + uint c mod 64) * 64 + uint d mod 64"
    by (simp add: utf8_decode_eq l utf8_loop_unfold)
  also have "\<dots> = ((x * 64 + y) * 64 + z) * 64 + w" unfolding assms(1-4) using assms(5-12) tag_mod(4)[of x] by (simp only: tag_mod)
  finally show "utf8_decode (a # b # c # d # rest) = ((x * 64 + y) * 64 + z) * 64 + w" .
qed

text \<open>The parts of a character in six-bit groups.\<close>

lemma split64: "(c :: int) = c div 64 * 64 + c mod 64" "0 \<le> c mod 64" "c mod 64 < 64"
  by simp_all

lemma bytes2:
  assumes "2 \<le> x" "x < 32" "0 \<le> y" "y < 64"
  shows "utf8_bytes (x * 64 + y) = [word_of_int (x + 0xC0), word_of_int (y + 0x80)]"
proof -
  have d: "(x * 64 + y) div 64 = x" "(x * 64 + y) mod 64 = y" using assms by (simp_all only: group64)
  show ?thesis unfolding utf8_bytes_arith d using assms by simp
qed

lemma bytes3:
  assumes "0 \<le> x" "x < 16" "0 \<le> y" "y < 64" "0 \<le> z" "z < 64" "x = 0 \<longrightarrow> 32 \<le> y"
  shows "utf8_bytes ((x * 64 + y) * 64 + z) = [word_of_int (x + 0xE0), word_of_int (y + 0x80), word_of_int (z + 0x80)]"
proof -
  let ?c = "(x * 64 + y) * 64 + z"
  have d: "?c div 64 = x * 64 + y" "?c mod 64 = z" using assms by (simp_all only: group64)
  have e: "?c div 4096 = x" using zdiv_zmult2_eq[of 64 ?c 64] assms by (simp add: d group64)
  have m: "(x * 64 + y) mod 64 = y" using assms by (simp only: group64)
  have "0x7FF < ?c" "?c \<le> 0xFFFF" using assms by auto
  then show ?thesis unfolding utf8_bytes_arith d e m using assms by simp
qed

lemma bytes4:
  assumes "0 \<le> x" "x \<le> 4" "0 \<le> y" "y < 64" "0 \<le> z" "z < 64" "0 \<le> w" "w < 64" "x = 0 \<longrightarrow> 16 \<le> y" "x = 4 \<longrightarrow> y < 16"
  shows "utf8_bytes (((x * 64 + y) * 64 + z) * 64 + w) =
    [word_of_int (x + 0xF0), word_of_int (y + 0x80), word_of_int (z + 0x80), word_of_int (w + 0x80)]"
proof -
  let ?c = "((x * 64 + y) * 64 + z) * 64 + w"
  have d: "?c div 64 = (x * 64 + y) * 64 + z" "?c mod 64 = w" using assms by (simp_all only: group64)
  have e: "?c div 4096 = x * 64 + y" using zdiv_zmult2_eq[of 64 ?c 64] assms by (simp add: d group64)
  have f: "?c div 262144 = x" using zdiv_zmult2_eq[of 64 ?c 4096] assms by (simp add: e group64)
  have m: "(x * 64 + y) mod 64 = y" "((x * 64 + y) * 64 + z) mod 64 = z" using assms by (simp_all only: group64)
  have "0xFFFF < ?c" "?c \<le> 0x10FFFF" using assms by (cases "x = 4"; auto)+
  then show ?thesis unfolding utf8_bytes_arith d e f m using assms by simp
qed

text \<open>Every scalar value has one of four shapes.\<close>

lemma scalar_cases:
  assumes "scalar c"
  obtains (one) "0 \<le> c" "c \<le> 0x7F"
  | (two) x y where "c = x * 64 + y" "2 \<le> x" "x < 32" "0 \<le> y" "y < 64"
  | (three) x y z where "c = (x * 64 + y) * 64 + z" "0 \<le> x" "x < 16" "0 \<le> y" "y < 64" "0 \<le> z" "z < 64"
      "x = 0 \<longrightarrow> 32 \<le> y" "x = 13 \<longrightarrow> y < 32"
  | (four) x y z w where "c = ((x * 64 + y) * 64 + z) * 64 + w" "0 \<le> x" "x \<le> 4" "0 \<le> y" "y < 64"
      "0 \<le> z" "z < 64" "0 \<le> w" "w < 64" "x = 0 \<longrightarrow> 16 \<le> y" "x = 4 \<longrightarrow> y < 16"
proof -
  define w c1 where "w = c mod 64" and "c1 = c div 64"
  define z c2 where "z = c1 mod 64" and "c2 = c1 div 64"
  define y x where "y = c2 mod 64" and "x = c2 div 64"
  have c: "c = c1 * 64 + w" "c1 = c2 * 64 + z" "c2 = x * 64 + y"
    by (simp_all add: w_def c1_def z_def c2_def y_def x_def)
  have r: "0 \<le> w" "w < 64" "0 \<le> z" "z < 64" "0 \<le> y" "y < 64"
    by (simp_all add: w_def z_def y_def)
  have s: "0 \<le> c" "c \<le> 0x10FFFF" "\<not> (0xD800 \<le> c \<and> c \<le> 0xDFFF)" using assms by (auto simp: scalar_def)
  consider "c \<le> 0x7F" | "0x80 \<le> c" "c \<le> 0x7FF" | "0x800 \<le> c" "c \<le> 0xFFFF" | "0x10000 \<le> c" by linarith
  then show ?thesis
  proof cases
    case 1 then show ?thesis using s one by blast
  next
    case 2
    have "2 \<le> c1" "c1 < 32" using 2 c r by linarith+
    then show ?thesis using two[of c1 w] c r by blast
  next
    case 3
    have "0 \<le> c2" "c2 < 16" "c2 = 0 \<longrightarrow> 32 \<le> z" "c2 = 13 \<longrightarrow> z < 32" using 3 c r s by linarith+
    then show ?thesis using three[of c2 z w] c r by blast
  next
    case 4
    have "0 \<le> x" "x \<le> 4" "x = 0 \<longrightarrow> 16 \<le> y" "x = 4 \<longrightarrow> y < 16" using 4 c r s by linarith+
    then show ?thesis using four[of x y z w] c r by blast
  qed
qed

lemma utf8_scalar:
  assumes "scalar c"
  shows "utf8_decode (utf8_bytes c @ rest) = c"
    and "utf8_bytes c \<noteq> []" "length (utf8_bytes c) \<le> 4"
    and "lead (hd (utf8_bytes c)) = (if length (utf8_bytes c) = 1 then c else - int (length (utf8_bytes c)))"
proof -
  have "utf8_decode (utf8_bytes c @ rest) = c \<and> utf8_bytes c \<noteq> [] \<and> length (utf8_bytes c) \<le> 4 \<and>
      lead (hd (utf8_bytes c)) = (if length (utf8_bytes c) = 1 then c else - int (length (utf8_bytes c)))"
    using assms
  proof (cases rule: scalar_cases)
    case one then show ?thesis using utf8_ascii[of c] by (auto simp: utf8_bytes_arith)
  next
    case (two x y)
    have u: "uint (word_of_int (x + 0xC0) :: u8) = x + 0xC0" "uint (word_of_int (y + 0x80) :: u8) = y + 0x80"
      using two by (intro uint_byte; simp)+
    show ?thesis unfolding two(1) bytes2[OF two(2-5)] using decode2[OF u two(2-5)] by simp
  next
    case (three x y z)
    have u: "uint (word_of_int (x + 0xE0) :: u8) = x + 0xE0" "uint (word_of_int (y + 0x80) :: u8) = y + 0x80"
      "uint (word_of_int (z + 0x80) :: u8) = z + 0x80"
      using three by (intro uint_byte; simp)+
    show ?thesis unfolding three(1) bytes3[OF three(2-8)] using decode3[OF u three(2-9)] by simp
  next
    case (four x y z w)
    have u: "uint (word_of_int (x + 0xF0) :: u8) = x + 0xF0" "uint (word_of_int (y + 0x80) :: u8) = y + 0x80"
      "uint (word_of_int (z + 0x80) :: u8) = z + 0x80" "uint (word_of_int (w + 0x80) :: u8) = w + 0x80"
      using four by (intro uint_byte; simp)+
    show ?thesis unfolding four(1) bytes4[OF four(2-11)] using decode4[OF u four(2-11)] by simp
  qed
  then show "utf8_decode (utf8_bytes c @ rest) = c" "utf8_bytes c \<noteq> []" "length (utf8_bytes c) \<le> 4"
    "lead (hd (utf8_bytes c)) = (if length (utf8_bytes c) = 1 then c else - int (length (utf8_bytes c)))"
    by auto
qed

text \<open>Conversely, whatever is decoded without error is the encoding of the scalar value returned.\<close>

lemma uint_eq_word: "uint (a :: u8) = x \<Longrightarrow> a = word_of_int x"
  by (metis word_of_int_uint)

lemma lead_inv:
  "lead a = -2 \<Longrightarrow> 0xC0 \<le> uint a \<and> uint a < 0xE0"
  "lead a = -3 \<Longrightarrow> 0xE0 \<le> uint a \<and> uint a < 0xF0"
  "lead a = -4 \<Longrightarrow> 0xF0 \<le> uint a \<and> uint a < 0xF8"
  using lead_def[of a] byte_range(1)[of a] by (cases "uint a < 128"; force simp: Let_def split: if_splits)+

lemma utf8_decode_scalar:
  assumes "bs \<noteq> []" "- lead (hd bs) \<le> int (length bs)" "0 \<le> utf8_decode bs"
  shows "scalar (utf8_decode bs) \<and> utf8_bytes (utf8_decode bs) = take (length (utf8_bytes (utf8_decode bs))) bs \<and>
    length (utf8_bytes (utf8_decode bs)) = (if lead (hd bs) \<ge> 0 then 1 else nat (- lead (hd bs)))"
proof -
  obtain a r where bs: "bs = a # r" using assms(1) by (cases bs) auto
  note rg = byte_range[of a]
  consider (one) "lead a \<ge> 0" | (two) "lead a = -2" | (three) "lead a = -3" | (four) "lead a = -4"
    using assms(3) rg unfolding bs utf8_decode_eq by (auto simp: lead_def Let_def split: if_splits)
  then show ?thesis
  proof cases
    case one
    then have l: "uint a < 128" "lead a = uint a" using rg by (auto simp: lead_def Let_def split: if_splits)
    then have "utf8_decode bs = uint a" unfolding bs utf8_decode_eq using rg by simp
    then show ?thesis using l rg by (simp add: bs scalar_def utf8_bytes_arith)
  next
    case two
    obtain b t where r: "r = b # t" using assms(2) two by (cases r) (auto simp: bs)
    have L: "utf8_isLegal bs 2" using assms(3) two unfolding bs utf8_decode_eq by (auto simp: Let_def split: if_splits)
    have A: "0xC0 \<le> uint a" "uint a < 0xE0" using lead_inv(1)[OF two] by simp_all
    have "0xC2 \<le> uint a" using L A by (auto simp: utf8_isLegal_def bs Let_def)
    moreover have "0x80 \<le> uint b" "uint b \<le> 0xBF"
      using L A by (auto simp: utf8_isLegal_def bs r Let_def)
    ultimately obtain x y where x: "uint a = x + 0xC0" "uint b = y + 0x80" "2 \<le> x" "x < 32" "0 \<le> y" "y < 64"
      using that[of "uint a - 0xC0" "uint b - 0x80"] A by simp
    note d = decode2[OF x]
    have "scalar (x * 64 + y)" using x(3-6) by (auto simp: scalar_def)
    then show ?thesis unfolding bs r d(1) bytes2[OF x(3-6)] using d(2) uint_eq_word[OF x(1)] uint_eq_word[OF x(2)] by simp
  next
    case three
    obtain b c t where r: "r = b # c # t" using assms(2) three by (cases r; cases "tl r") (auto simp: bs)
    have L: "utf8_isLegal bs 3" using assms(3) three unfolding bs utf8_decode_eq by (auto simp: Let_def split: if_splits)
    have A: "0xE0 \<le> uint a" "uint a < 0xF0" using lead_inv(2)[OF three] by simp_all
    have C: "0x80 \<le> uint b" "uint b \<le> 0xBF" "0x80 \<le> uint c" "uint c \<le> 0xBF"
      "uint a = 0xE0 \<longrightarrow> 0xA0 \<le> uint b" "uint a = 0xED \<longrightarrow> uint b \<le> 0x9F"
      using L A unfolding utf8_isLegal_def bs r Let_def by (auto split: if_splits)
    obtain x y z where x: "uint a = x + 0xE0" "uint b = y + 0x80" "uint c = z + 0x80" "0 \<le> x" "x < 16"
      "0 \<le> y" "y < 64" "0 \<le> z" "z < 64" "x = 0 \<longrightarrow> 32 \<le> y" "x = 13 \<longrightarrow> y < 32"
      using that[of "uint a - 0xE0" "uint b - 0x80" "uint c - 0x80"] A C by auto
    note d = decode3[OF x]
    have "scalar ((x * 64 + y) * 64 + z)"
    proof -
      have "\<not> (0xD800 \<le> (x * 64 + y) * 64 + z \<and> (x * 64 + y) * 64 + z \<le> 0xDFFF)"
      proof (rule notI, elim conjE)
        assume s: "0xD800 \<le> (x * 64 + y) * 64 + z" "(x * 64 + y) * 64 + z \<le> 0xDFFF"
        have "\<not> x \<le> 12" using s(1) x(4-9) by (simp add: algebra_simps)
        moreover have "\<not> 14 \<le> x" using s(2) x(4-9) by (simp add: algebra_simps)
        ultimately have "x = 13" by simp
        then have "32 \<le> y" using x(4-9) s by simp
        then show False using x(11) \<open>x = 13\<close> by simp
      qed
      then show ?thesis using x(4-9) by (auto simp: scalar_def)
    qed
    then show ?thesis unfolding bs r d(1) bytes3[OF x(4-10)]
      using d(2) uint_eq_word[OF x(1)] uint_eq_word[OF x(2)] uint_eq_word[OF x(3)] by simp
  next
    case four
    obtain b c e t where r: "r = b # c # e # t"
      using assms(2) four by (cases r; cases "tl r"; cases "tl (tl r)") (auto simp: bs)
    have L: "utf8_isLegal bs 4" using assms(3) four unfolding bs utf8_decode_eq by (auto simp: Let_def split: if_splits)
    have A: "0xF0 \<le> uint a" "uint a \<le> 0xF4"
      using lead_inv(3)[OF four] L by (simp_all add: utf8_isLegal_def bs Let_def)
    have C: "0x80 \<le> uint b" "uint b \<le> 0xBF" "0x80 \<le> uint c" "uint c \<le> 0xBF" "0x80 \<le> uint e" "uint e \<le> 0xBF"
      "uint a = 0xF0 \<longrightarrow> 0x90 \<le> uint b" "uint a = 0xF4 \<longrightarrow> uint b \<le> 0x8F"
      using L A unfolding utf8_isLegal_def bs r Let_def by (auto split: if_splits)
    obtain x y z w where x: "uint a = x + 0xF0" "uint b = y + 0x80" "uint c = z + 0x80" "uint e = w + 0x80"
      "0 \<le> x" "x \<le> 4" "0 \<le> y" "y < 64" "0 \<le> z" "z < 64" "0 \<le> w" "w < 64" "x = 0 \<longrightarrow> 16 \<le> y" "x = 4 \<longrightarrow> y < 16"
      using that[of "uint a - 0xF0" "uint b - 0x80" "uint c - 0x80" "uint e - 0x80"] A C by auto
    note d = decode4[OF x]
    have "scalar (((x * 64 + y) * 64 + z) * 64 + w)"
    proof -
      have "0xFFFF < ((x * 64 + y) * 64 + z) * 64 + w" "((x * 64 + y) * 64 + z) * 64 + w \<le> 0x10FFFF"
        using x(5-14) by (cases "x = 4"; auto)+
      then show ?thesis by (auto simp: scalar_def)
    qed
    then show ?thesis unfolding bs r d(1) bytes4[OF x(5-14)]
      using d(2) uint_eq_word[OF x(1)] uint_eq_word[OF x(2)] uint_eq_word[OF x(3)] uint_eq_word[OF x(4)] by simp
  qed
qed

text \<open>
  C27.  UTF-8 conversion is exact: the bytes of every Unicode scalar value are at most four, decode
  to it whatever follows them, and \<^verbatim>\<open>sequenceLength\<close> gives their number; conversely every byte sequence
  that \<^verbatim>\<open>queryConvert\<close> accepts is the one encoding of a scalar value, so that overlong forms, surrogates
  and values above 10FFFF are rejected.
\<close>

theorem utf8_exact:
  "(scalar c \<longrightarrow>
      utf8_convert c 4 = (int (length (utf8_bytes c)), utf8_bytes c) \<and> length (utf8_bytes c) \<le> 4 \<and>
      utf8_queryConvert (utf8_bytes c @ rest) (int (length (utf8_bytes c))) = c \<and>
      utf8_decode (utf8_bytes c @ rest) = c \<and>
      utf8_sequenceLength (utf8_bytes c @ rest) 1 = int (length (utf8_bytes c))) \<and>
   (bs \<noteq> [] \<and> 0 \<le> utf8_queryConvert bs (int (length bs)) \<longrightarrow>
      scalar (utf8_queryConvert bs (int (length bs))) \<and>
      (\<exists>r. bs = utf8_bytes (utf8_queryConvert bs (int (length bs))) @ r))"
proof (intro conjI impI)
  assume c: "scalar c"
  note u = utf8_scalar[OF c]
  have h: "(utf8_bytes c @ rest) ! 0 = hd (utf8_bytes c)" using u(2) by (simp add: nth_append hd_conv_nth)
  have l: "utf8_charMap ! unat ((utf8_bytes c @ rest) ! 0) =
      (if length (utf8_bytes c) = 1 then c else - int (length (utf8_bytes c)))"
    unfolding h charMap_lead using u(4) .
  have c0: "0 \<le> c" using c by (simp add: scalar_def)
  have n: "length (utf8_bytes c) \<noteq> 0" using u(2) by simp
  show "utf8_convert c 4 = (int (length (utf8_bytes c)), utf8_bytes c)" using u(3) by (simp add: utf8_convert_def Let_def)
  show "length (utf8_bytes c) \<le> 4" "utf8_decode (utf8_bytes c @ rest) = c" using u by auto
  show "utf8_queryConvert (utf8_bytes c @ rest) (int (length (utf8_bytes c))) = c"
    unfolding utf8_queryConvert_def l Let_def using u(1) c0 by simp
  show "utf8_sequenceLength (utf8_bytes c @ rest) 1 = int (length (utf8_bytes c))"
    unfolding utf8_sequenceLength_def l Let_def using c0 n by simp
next
  assume a: "bs \<noteq> [] \<and> 0 \<le> utf8_queryConvert bs (int (length bs))"
  let ?q = "utf8_queryConvert bs (int (length bs))"
  have h: "bs ! 0 = hd bs" using a by (simp add: hd_conv_nth)
  have le: "- lead (hd bs) \<le> int (length bs)"
    using a unfolding utf8_queryConvert_def h charMap_lead by (auto simp: Let_def split: if_splits)
  then have q: "?q = utf8_decode bs" unfolding utf8_queryConvert_def h charMap_lead by (simp add: Let_def)
  have s: "scalar (utf8_decode bs) \<and> utf8_bytes (utf8_decode bs) = take (length (utf8_bytes (utf8_decode bs))) bs"
    using utf8_decode_scalar[of bs] a le q by auto
  then show "scalar ?q" using q by simp
  show "\<exists>r. bs = utf8_bytes ?q @ r" using s q by (metis append_take_drop_id)
qed

theorem utf8_exact_witness:
  "utf8_queryConvert [0xF0, 0x9F, 0x98, 0x80] 4 = 0x1F600 \<and> scalar 0x1F600"
proof -
  have "utf8_bytes 0x1F600 = [0xF0, 0x9F, 0x98, 0x80]" by (simp add: utf8_bytes_arith)
  moreover have "scalar 0x1F600" by (simp add: scalar_def)
  ultimately show ?thesis using utf8_exact[of "0x1F600" "[]" "[]"] by simp
qed

section \<open>UTF-16 and UTF-32\<close>

lemma flipped16_twice [simp]: "flipped16 f (flipped16 f w) = w"
  by (simp add: flipped16_def flip16_flip)

lemma unit16: "flipped16 f (le16 (bytes16 (flipped16 f w) ! 0) (bytes16 (flipped16 f w) ! 1)) = w"
  by (simp only: le16_bytes flipped16_twice)

lemma bytes16_len: "length (bytes16 w) = 2" "bytes16 w \<noteq> []"
  by (simp_all add: bytes16_def)

lemma utf16_one:
  assumes "scalar c" "c \<le> 0xFFFF"
  shows "uint (flipped16 f (le16 ((utf16_bytes f c @ r) ! 0) ((utf16_bytes f c @ r) ! 1))) = c"
    "length (utf16_bytes f c) = 2"
proof -
  have b: "utf16_bytes f c = bytes16 (flipped16 f (word_of_int c))" using assms by (simp add: utf16_bytes_def)
  have "(utf16_bytes f c @ r) ! 0 = bytes16 (flipped16 f (word_of_int c)) ! 0"
    "(utf16_bytes f c @ r) ! 1 = bytes16 (flipped16 f (word_of_int c)) ! 1"
    by (simp_all add: b bytes16_def)
  then have "flipped16 f (le16 ((utf16_bytes f c @ r) ! 0) ((utf16_bytes f c @ r) ! 1)) = word_of_int c"
    by (simp only: unit16)
  then show "uint (flipped16 f (le16 ((utf16_bytes f c @ r) ! 0) ((utf16_bytes f c @ r) ! 1))) = c"
    using assms by (simp add: uint_word_of_int scalar_def)
  show "length (utf16_bytes f c) = 2" by (simp add: b bytes16_len)
qed

lemma utf16_two:
  assumes "0x10000 \<le> c" "c \<le> 0x10FFFF"
  shows "uint (flipped16 f (le16 ((utf16_bytes f c @ r) ! 0) ((utf16_bytes f c @ r) ! 1))) = 0xD800 + (c - 0x10000) div 1024"
    "uint (flipped16 f (le16 ((utf16_bytes f c @ r) ! 2) ((utf16_bytes f c @ r) ! 3))) = 0xDC00 + (c - 0x10000) mod 1024"
    "length (utf16_bytes f c) = 4" "(c - 0x10000) div 1024 < 1024" "0 \<le> (c - 0x10000) div 1024"
proof -
  let ?d = "c - 0x10000"
  show q: "?d div 1024 < 1024" "0 \<le> ?d div 1024" using assms by auto
  let ?w1 = "word_of_int (0xD800 + ?d div 1024) :: u16" and ?w2 = "word_of_int (0xDC00 + ?d mod 1024) :: u16"
  have b: "utf16_bytes f c = bytes16 (flipped16 f ?w1) @ bytes16 (flipped16 f ?w2)"
  proof -
    have "drop_bit 10 ?d AND 0x3FF = ?d div 1024" using q by (simp add: and_mask_int drop_bit_eq_div)
    then show ?thesis using assms by (simp add: utf16_bytes_def Let_def and_mask_int)
  qed
  have n: "(utf16_bytes f c @ r) ! 0 = bytes16 (flipped16 f ?w1) ! 0" "(utf16_bytes f c @ r) ! 1 = bytes16 (flipped16 f ?w1) ! 1"
    "(utf16_bytes f c @ r) ! 2 = bytes16 (flipped16 f ?w2) ! 0" "(utf16_bytes f c @ r) ! 3 = bytes16 (flipped16 f ?w2) ! 1"
    by (simp_all add: b bytes16_def)
  have "uint ?w1 = 0xD800 + ?d div 1024" "uint ?w2 = 0xDC00 + ?d mod 1024"
  proof -
    have "0 \<le> ?d mod 1024" "?d mod 1024 < 1024" by simp_all
    then have "(0xD800 + ?d div 1024) mod 65536 = 0xD800 + ?d div 1024"
      "(0xDC00 + ?d mod 1024) mod 65536 = 0xDC00 + ?d mod 1024"
      using q by (intro mod_pos_pos_trivial; linarith)+
    then show "uint ?w1 = 0xD800 + ?d div 1024" "uint ?w2 = 0xDC00 + ?d mod 1024"
      unfolding uint_word_of_int by simp_all
  qed
  then show "uint (flipped16 f (le16 ((utf16_bytes f c @ r) ! 0) ((utf16_bytes f c @ r) ! 1))) = 0xD800 + ?d div 1024"
    "uint (flipped16 f (le16 ((utf16_bytes f c @ r) ! 2) ((utf16_bytes f c @ r) ! 3))) = 0xDC00 + ?d mod 1024"
    unfolding n unit16 by simp_all
  show "length (utf16_bytes f c) = 4" by (simp add: b bytes16_len)
qed

lemma surrogate_value:
  assumes "0 \<le> h" "h < 1024" "0 \<le> l" "l < 1024"
  shows "push_bit 10 ((0xD800 + h) AND 0x3ff) + ((0xDC00 + l) AND 0x3ff) + 0x10000 = h * 1024 + l + (0x10000 :: int)"
proof -
  have "(0xD800 + h) mod 1024 = h" "(0xDC00 + l) mod 1024 = l"
    using assms mod_mult_self1[of h 54 1024] mod_mult_self1[of l 55 1024] by (simp_all add: add.commute)
  then show ?thesis by (simp add: and_mask_int push_bit_eq_mult)
qed

lemma utf16_scalar:
  assumes "scalar c"
  shows "utf16_queryConvert f (utf16_bytes f c @ r) (int (length (utf16_bytes f c))) = c"
    "utf16_decode f (utf16_bytes f c @ r) = c"
    "length (utf16_bytes f c) \<in> {2, 4}"
    "length (utf16_bytes f c) = 4 \<Longrightarrow> 2 \<le> k \<Longrightarrow> k < 4 \<Longrightarrow> utf16_queryConvert f (utf16_bytes f c @ r) k = -4"
proof -
  have "utf16_queryConvert f (utf16_bytes f c @ r) (int (length (utf16_bytes f c))) = c \<and>
    utf16_decode f (utf16_bytes f c @ r) = c \<and> length (utf16_bytes f c) \<in> {2, 4} \<and>
    (length (utf16_bytes f c) = 4 \<longrightarrow> 2 \<le> k \<longrightarrow> k < 4 \<longrightarrow> utf16_queryConvert f (utf16_bytes f c @ r) k = -4)"
  proof (cases "c \<le> 0xFFFF")
    case True
    note o = utf16_one(1)[OF assms True, of f r] utf16_one(2)[OF assms True, of f]
    have "\<not> (0xd800 \<le> c \<and> c < 0xdc00)" using assms by (auto simp: scalar_def)
    then show ?thesis using o by (simp add: utf16_queryConvert_def utf16_decode_def)
  next
    case False
    then have c: "0x10000 \<le> c" "c \<le> 0x10FFFF" using assms by (auto simp: scalar_def)
    note t = utf16_two[OF c]
    let ?h = "(c - 0x10000) div 1024" and ?l = "(c - 0x10000) mod 1024"
    have l: "0 \<le> ?l" "?l < 1024" by simp_all
    have v: "push_bit 10 ((0xD800 + ?h) AND 0x3ff) + ((0xDC00 + ?l) AND 0x3ff) + 0x10000 = c"
      using surrogate_value[OF t(5,4) l] by simp
    have h: "0xd800 \<le> 0xD800 + ?h" "0xD800 + ?h < 0xdc00" "0xdc00 \<le> 0xDC00 + ?l" "0xDC00 + ?l < 0xe000" "0xD800 + ?h < 0xe000"
      using t(4,5) l by linarith+
    show ?thesis unfolding utf16_queryConvert_def utf16_decode_def t(1-3) Let_def using v h by simp
  qed
  then show "utf16_queryConvert f (utf16_bytes f c @ r) (int (length (utf16_bytes f c))) = c"
    "utf16_decode f (utf16_bytes f c @ r) = c" "length (utf16_bytes f c) \<in> {2, 4}"
    "length (utf16_bytes f c) = 4 \<Longrightarrow> 2 \<le> k \<Longrightarrow> k < 4 \<Longrightarrow> utf16_queryConvert f (utf16_bytes f c @ r) k = -4"
    by auto
qed

lemma utf32_scalar:
  assumes "scalar c"
  shows "utf32_decode f (utf32_bytes f c @ r) = c" "length (utf32_bytes f c) = 4"
proof -
  have "flipped32 f (flipped32 f w) = w" for w by (simp add: flipped32_def flip32_flip)
  moreover have "(bytes32 w @ r) ! 0 = bytes32 w ! 0" "(bytes32 w @ r) ! 1 = bytes32 w ! 1"
    "(bytes32 w @ r) ! 2 = bytes32 w ! 2" "(bytes32 w @ r) ! 3 = bytes32 w ! 3" for w
    by (simp_all add: bytes32_def)
  moreover have "uint (word_of_int c :: u32) = c" using assms by (simp add: uint_word_of_int scalar_def)
  ultimately show "utf32_decode f (utf32_bytes f c @ r) = c"
    unfolding utf32_decode_def utf32_bytes_def using assms by (simp only: le32_bytes) (simp add: safeToInt_def scalar_def)
  show "length (utf32_bytes f c) = 4" by (simp add: utf32_bytes_def bytes32_def)
qed

section \<open>The encodings keep the contract\<close>

lemma lead_cases: "lead a \<ge> 0 \<or> lead a \<in> {-1, -2, -3, -4}"
  using byte_range[of a] by (auto simp: lead_def Let_def)

lemma utf8_query_eq:
  "bs \<noteq> [] \<Longrightarrow> utf8_queryConvert bs r = (if - lead (hd bs) > r then lead (hd bs) else utf8_decode bs)"
  by (simp add: utf8_queryConvert_def charMap_lead hd_conv_nth[symmetric])

lemma utf8_loop_nonneg: "0 \<le> uc \<Longrightarrow> 0 \<le> utf8_loop n uc bs"
  by (induction n uc bs rule: utf8_loop.induct) (subst utf8_loop.simps, simp)

lemma utf8_decode_ge: "-1 \<le> utf8_decode bs"
proof -
  have "-1 \<le> utf8_loop n (uint b mod 2 ^ k) bs" for n k and b :: u8
    using utf8_loop_nonneg[of "uint b mod 2 ^ k" n bs] by simp
  from this[of _ _ 5] this[of _ _ 4] this[of _ _ 3] show ?thesis by (simp add: utf8_decode_eq Let_def)
qed

lemma utf8_isLegal_take:
  assumes "0 < k" "n \<le> int k"
  shows "utf8_isLegal (take k bs) n = utf8_isLegal bs n"
  using assms by (auto simp: utf8_isLegal_def Let_def)

lemma utf8_loop_take:
  "0 < k \<Longrightarrow> - n \<le> int k \<Longrightarrow> k \<le> length bs \<Longrightarrow> utf8_loop n uc (take k bs) = utf8_loop n uc bs"
proof (induction n uc bs arbitrary: k rule: utf8_loop.induct)
  case (1 n uc bs)
  show ?case
  proof (cases "n < -1")
    case True
    then obtain a b t k' where e: "bs = a # b # t" "k = Suc (Suc k')"
      using 1(3,4) by (cases bs; cases "tl bs"; cases k; cases "k - 1") auto
    show ?thesis
      using 1(1)[OF True, of "Suc k'"] 1(3,4) True
      by (subst (1 2) utf8_loop.simps) (simp add: e)
  next
    case False then show ?thesis by (simp add: utf8_loop.simps)
  qed
qed

lemma utf8_decode_take:
  assumes "0 < k" "k \<le> length bs" "- lead (hd bs) \<le> int k"
  shows "utf8_decode (take k bs) = utf8_decode bs"
proof -
  have h: "take k bs ! 0 = bs ! 0" "hd bs = bs ! 0" using assms by (cases bs; simp add: hd_conv_nth)+
  have "utf8_isLegal (take k bs) (- lead (bs ! 0)) = utf8_isLegal bs (- lead (bs ! 0))"
    using assms utf8_isLegal_take[of k "- lead (bs ! 0)" bs] unfolding h by simp
  moreover have "utf8_loop (lead (bs ! 0)) uc (take k bs) = utf8_loop (lead (bs ! 0)) uc bs" for uc
    using assms utf8_loop_take[of k "lead (bs ! 0)" bs uc] unfolding h by simp
  ultimately show ?thesis by (simp only: utf8_decode_eq h(1) Let_def)
qed

lemma utf8_advance:
  assumes "it \<noteq> []" "tc_query utf8_queryConvert it (utf8_queryConvert it 1) 1 = Some (n, rd)"
  shows "ti_next utf8_sequenceLength it = Some (if -1 > n then [] else drop (nat rd) it)"
proof -
  obtain a r where it: "it = a # r" using assms(1) by (cases it) auto
  have s: "utf8_sequenceLength (take 1 it) 1 = (if lead a \<ge> 0 then 1 else - lead a)"
    by (simp add: it utf8_sequenceLength_def charMap_lead Let_def)
  have t: "ti_next utf8_sequenceLength it = Some (drop (nat (max 1 (min (if lead a \<ge> 0 then 1 else - lead a) (int (length it))))) it)"
    using lead_cases[of a] unfolding ti_next_def s
    by (subst ti_query.simps) (auto simp: ti_fill_eq it)
  show ?thesis
  proof (cases "lead a < -1")
    case True
    then have q: "utf8_queryConvert it 1 = lead a" by (simp add: it utf8_query_eq)
    show ?thesis
    proof (cases "- lead a \<le> int (length it)")
      case True2: True
      have d: "utf8_queryConvert it (- lead a) = utf8_decode it" "-1 \<le> utf8_decode it"
        using utf8_decode_ge[of it] True2 by (simp_all add: it utf8_query_eq)
      have "tc_query utf8_queryConvert it (utf8_queryConvert it 1) 1 = Some (utf8_decode it, - lead a)"
        unfolding q by (subst tc_query.simps) (use True True2 d in \<open>simp add: tc_query.simps[of _ _ "utf8_decode it"]\<close>)
      then show ?thesis using assms(2) t True True2 d by auto
    next
      case False
      then have "tc_query utf8_queryConvert it (utf8_queryConvert it 1) 1 = Some (lead a, 1)"
        unfolding q by (subst tc_query.simps) simp
      then show ?thesis using assms(2) t True False by auto
    qed
  next
    case False
    then have d: "utf8_queryConvert it 1 = utf8_decode it" "-1 \<le> utf8_decode it"
      using utf8_decode_ge[of it] by (simp_all add: it utf8_query_eq)
    have "tc_query utf8_queryConvert it (utf8_queryConvert it 1) 1 = Some (utf8_decode it, 1)"
      unfolding d(1) by (subst tc_query.simps) (use d in simp)
    moreover have "(if lead a \<ge> 0 then 1 else - lead a) = 1" using False lead_cases[of a] by auto
    ultimately show ?thesis using assms(2) t d by (auto simp: it)
  qed
qed

interpretation utf8: text_iteration utf8_queryConvert utf8_convert utf8_bytes scalar utf8_sequenceLength
proof
  fix c :: int assume c: "scalar c"
  note u = utf8_scalar[OF c]
  show "utf8_convert c 4 = (int (length (utf8_bytes c)), utf8_bytes c)" using u(3) by (simp add: utf8_convert_def Let_def)
  show "0 \<le> c \<and> utf8_bytes c \<noteq> []" using u(2) c by (simp add: scalar_def)
  fix rest
  have h: "utf8_queryConvert (utf8_bytes c @ rest) r =
      (if - lead (hd (utf8_bytes c)) > r then lead (hd (utf8_bytes c)) else c)" for r
    using u(1,2) utf8_query_eq[of "utf8_bytes c @ rest" r] by simp
  have n: "0 < length (utf8_bytes c)" "0 \<le> c" using u(2) c by (auto simp: scalar_def)
  show "utf8_queryConvert (utf8_bytes c @ rest) (int (length (utf8_bytes c))) = c"
    unfolding h u(4) using n by auto
  show "utf8_queryConvert (utf8_bytes c @ rest) r < -1 \<and>
      - utf8_queryConvert (utf8_bytes c @ rest) r \<le> int (length (utf8_bytes c))"
    if "1 \<le> r" "r < int (length (utf8_bytes c))" for r
    unfolding h u(4) using that by auto
next
  fix r :: int and bs assume r: "1 \<le> r" "r \<le> int (length bs)" "utf8_queryConvert bs r < -1"
  then have "bs \<noteq> []" by auto
  then show "r < - utf8_queryConvert bs r"
    using r utf8_decode_ge[of bs] by (auto simp: utf8_query_eq split: if_splits)
next
  fix r :: int and bs :: "u8 list" assume r: "1 \<le> r" "r \<le> int (length bs)"
  then have "bs \<noteq> []" "take (nat r) bs \<noteq> []" "hd (take (nat r) bs) = hd bs" by (cases bs; cases "nat r"; simp)+
  then show "utf8_queryConvert (take (nat r) bs) r = utf8_queryConvert bs r"
    using r utf8_decode_take[of "nat r" bs] by (simp add: utf8_query_eq)
next
  fix it n rd assume "it \<noteq> []" "tc_query utf8_queryConvert it (utf8_queryConvert it 1) 1 = Some (n, rd)"
  then show "ti_next utf8_sequenceLength it = Some (if -1 > n then [] else drop (nat rd) it)" by (rule utf8_advance)
qed
lemma uint_above: "-1 \<le> uint w" "\<not> uint w < -1" "uint w \<noteq> -4"
  using unsigned_greater_eq[of w, where 'a = int] by linarith+

definition unit16_at :: "bool \<Rightarrow> u8 \<Rightarrow> u8 \<Rightarrow> int" where
  "unit16_at f a b = uint (flipped16 f (le16 a b))"

lemma uint_le16: "uint (le16 a b) = uint b * 256 + uint a"
proof -
  have e: "uint (push_bit 8 (ucast b :: u16)) = uint b * 256" "uint (ucast a :: u16) = uint a"
    using byte_range[of a] byte_range[of b] unfolding unsigned_push_bit_eq unsigned_ucast_eq
    by (simp_all add: push_bit_eq_mult take_bit_eq_mod)
  have "uint a OR push_bit 8 (uint b) = uint a + push_bit 8 (uint b)"
    using or_push_bit[of "uint a" 8 "uint b"] byte_range[of a] by simp
  then show ?thesis unfolding le16_def unsigned_or_eq e by (simp add: or.commute push_bit_eq_mult)
qed

lemma unit16_at_eq: "unit16_at f a b = (if f then uint a * 256 + uint b else uint b * 256 + uint a)"
  by (simp add: unit16_at_def flipped16_def flip_le16 uint_le16)

lemma unit16_range: "0 \<le> unit16_at f a b"
  by (simp add: unit16_at_def)

definition pair16 :: "int \<Rightarrow> int \<Rightarrow> int" where
  "pair16 uc uc2 = (if uc2 \<ge> 0xdc00 then push_bit 10 (uc AND 0x3ff) + (uc2 AND 0x3ff) + 0x10000 else -1)"

lemma pair16_ge: "-1 \<le> pair16 uc uc2"
  by (simp add: pair16_def and_mask_int push_bit_eq_mult)

lemma utf16_query_eq:
  "r < 2 \<Longrightarrow> utf16_queryConvert f bs r = -2"
  "2 \<le> r \<Longrightarrow> utf16_queryConvert f (a # b # bs) r =
     (let uc = unit16_at f a b in
      if uc \<ge> 0xd800 \<and> uc < 0xdc00 then if r \<ge> 4 then pair16 uc (unit16_at f (bs ! 0) (bs ! 1)) else -4 else uc)"
  by (auto simp: utf16_queryConvert_def unit16_at_def pair16_def Let_def numeral_2_eq_2 numeral_3_eq_3)

lemma utf16_query_ge:
  assumes "2 \<le> r"
  shows "utf16_queryConvert f bs r = -4 \<and> r < 4 \<or> -1 \<le> utf16_queryConvert f bs r"
  using assms pair16_ge[of "uint (flipped16 f (le16 (bs ! 0) (bs ! 1)))" "uint (flipped16 f (le16 (bs ! 2) (bs ! 3)))"]
  by (auto simp: utf16_queryConvert_def pair16_def Let_def uint_above)

lemma utf16_seq_eq:
  "utf16_sequenceLength True (a # bs) 1 = (if uint a \<ge> 0xd8 \<and> uint a < 0xdc then 4 else 2)"
  "utf16_sequenceLength False bs 1 = -2"
  "utf16_sequenceLength False (a # b # bs) 2 = (if unit16_at False a b \<ge> 0xd800 \<and> unit16_at False a b < 0xdc00 then 4 else 2)"
  by (simp_all add: utf16_sequenceLength_def unit16_at_def flipped16_def Let_def)

lemma utf16_advance:
  assumes "it \<noteq> []" "tc_query (utf16_queryConvert f) it (utf16_queryConvert f it 1) 1 = Some (n, rd)"
  shows "ti_next (utf16_sequenceLength f) it = Some (if -1 > n then [] else drop (nat rd) it)"
proof -
  obtain a r where it: "it = a # r" using assms(1) by (cases it) auto
  have q1: "utf16_queryConvert f it 1 = -2" by (simp add: utf16_query_eq)
  show ?thesis
  proof (cases r)
    case Nil
    have "Some (n, rd) = Some (-2, 1)"
      using assms(2) unfolding q1 by (subst (asm) tc_query.simps) (simp add: it Nil)
    moreover have "ti_next (utf16_sequenceLength f) it = Some []"
      unfolding ti_next_def it Nil
      by (cases f) (simp_all add: utf16_seq_eq ti_query.simps[of _ "[a]"] ti_fill_eq)
    ultimately show ?thesis by simp
  next
    case (Cons b t)
    let ?u = "unit16_at f a b"
    let ?hi = "?u \<ge> 0xd800 \<and> ?u < 0xdc00"
    have len: "int (length it) \<ge> 2" by (simp add: it Cons)
    have q2: "utf16_queryConvert f it 2 = (if ?hi then -4 else ?u)"
      by (simp add: it Cons utf16_query_eq Let_def)
    have step: "tc_query (utf16_queryConvert f) it (-2) 1 = tc_query (utf16_queryConvert f) it (utf16_queryConvert f it 2) 2"
      by (subst tc_query.simps) (use len in simp)
    have next_hi: "ti_next (utf16_sequenceLength f) it = Some (drop (nat (max 1 (min (if ?hi then 4 else 2) (int (length it))))) it)"
    proof (cases f)
      case True
      have "?u = uint a * 256 + uint b" by (simp add: unit16_at_eq True)
      then have "?hi \<longleftrightarrow> uint a \<ge> 0xd8 \<and> uint a < 0xdc" using byte_range[of b] by linarith
      then have s: "utf16_sequenceLength f (take 1 it) 1 = (if ?hi then 4 else 2)" by (simp add: it True utf16_seq_eq)
      show ?thesis unfolding ti_next_def s by (subst ti_query.simps) (use len in \<open>simp add: ti_fill_eq\<close>)
    next
      case False
      have s: "utf16_sequenceLength f (take 1 it) 1 = -2" "utf16_sequenceLength f (take 2 it) 2 = (if ?hi then 4 else 2)"
        by (simp_all add: it Cons False utf16_seq_eq)
      have fl: "ti_fill 2 (int (length it)) 1 = 2" using len by (simp add: ti_fill_eq)
      have "ti_query (utf16_sequenceLength f) it (-2) 1 = Some (if ?hi then 4 else 2, 2)"
        by (subst ti_query.simps) (use len in \<open>simp add: fl s ti_query.simps[of _ _ _ 2]\<close>)
      then show ?thesis unfolding ti_next_def s(1) using len by (simp add: ti_fill_eq max_def min_def)
    qed
    show ?thesis
    proof (cases ?hi)
      case False
      have "Some (n, rd) = Some (?u, 2)"
        using assms(2) unfolding q1 step q2 by (subst (asm) tc_query.simps) (use unit16_range[of f a b] False in auto)
      then show ?thesis using next_hi len False unit16_range[of f a b] by auto
    next
      case True
      show ?thesis
      proof (cases "int (length it) \<ge> 4")
        case long: True
        have g: "-1 \<le> utf16_queryConvert f it 4" using utf16_query_ge[of 4 f it] by auto
        have "Some (n, rd) = Some (utf16_queryConvert f it 4, 4)"
          using assms(2) unfolding q1 step q2
          by (subst (asm) tc_query.simps)
            (use True long g in \<open>simp add: tc_query.simps[of _ _ "utf16_queryConvert f it 4"]\<close>)
        then show ?thesis using next_hi True long g by auto
      next
        case False
        have "Some (n, rd) = Some (-4, 2)"
          using assms(2) unfolding q1 step q2 by (subst (asm) tc_query.simps) (use True False in simp)
        then show ?thesis using next_hi True False len by auto
      qed
    qed
  qed
qed

lemma utf16_local:
  assumes "1 \<le> r" "r \<le> int (length bs)"
  shows "utf16_queryConvert f (take (nat r) bs) r = utf16_queryConvert f bs r"
  using assms by (auto simp: utf16_queryConvert_def Let_def)

interpretation utf16: text_iteration "utf16_queryConvert f" "utf16_convert f" "utf16_bytes f" scalar "utf16_sequenceLength f" for f
proof
  fix c :: int assume c: "scalar c"
  note u = utf16_scalar[OF c]
  show "utf16_convert f c 4 = (int (length (utf16_bytes f c)), utf16_bytes f c)"
    using u(3)[of f] by (auto simp: utf16_convert_def Let_def)
  show "0 \<le> c \<and> utf16_bytes f c \<noteq> []" using u(3)[of f] c by (auto simp: scalar_def)
  fix rest
  show "utf16_queryConvert f (utf16_bytes f c @ rest) (int (length (utf16_bytes f c))) = c" by (rule u(1))
  show "utf16_queryConvert f (utf16_bytes f c @ rest) r < -1 \<and>
      - utf16_queryConvert f (utf16_bytes f c @ rest) r \<le> int (length (utf16_bytes f c))"
    if "1 \<le> r" "r < int (length (utf16_bytes f c))" for r
    using u(3)[of f] u(4)[of f r rest] that by (cases "r < 2") (auto simp: utf16_query_eq)
next
  fix r :: int and bs assume r: "1 \<le> r" "utf16_queryConvert f bs r < -1"
  then show "r < - utf16_queryConvert f bs r"
    using utf16_query_ge[of r f bs] by (cases "r < 2") (auto simp: utf16_query_eq)
qed (rule utf16_local utf16_advance; assumption)+

lemma utf32_advance:
  assumes "it \<noteq> []" "tc_query (utf32_queryConvert f) it (utf32_queryConvert f it 1) 1 = Some (n, rd)"
  shows "ti_next utf32_sequenceLength it = Some (if -1 > n then [] else drop (nat rd) it)"
proof -
  have q: "utf32_queryConvert f it 1 = -4" "-1 \<le> utf32_queryConvert f it 4"
    by (simp_all add: utf32_queryConvert_def utf32_decode_def safeToInt_def uint_above)
  have len: "1 \<le> int (length it)" using assms(1) by (cases it) auto
  have nx: "ti_next utf32_sequenceLength it = Some (drop (nat (max 1 (min 4 (int (length it))))) it)"
    unfolding ti_next_def utf32_sequenceLength_def by (subst ti_query.simps) (use len in \<open>simp add: ti_fill_eq\<close>)
  show ?thesis
  proof (cases "int (length it) \<ge> 4")
    case True
    have "Some (n, rd) = Some (utf32_queryConvert f it 4, 4)"
      using assms(2) unfolding q(1)
      by (subst (asm) tc_query.simps) (use True q in \<open>simp add: tc_query.simps[of _ _ "utf32_queryConvert f it 4"]\<close>)
    then show ?thesis using nx True q by auto
  next
    case False
    have "Some (n, rd) = Some (-4, 1)"
      using assms(2) unfolding q(1) by (subst (asm) tc_query.simps) (use False in simp)
    then show ?thesis using nx False len by auto
  qed
qed

interpretation utf32: text_iteration "utf32_queryConvert f" "utf32_convert f" "utf32_bytes f" scalar utf32_sequenceLength for f
proof
  fix c :: int assume c: "scalar c"
  note u = utf32_scalar(1)[OF c] utf32_scalar(2)[OF c]
  show "utf32_convert f c 4 = (int (length (utf32_bytes f c)), utf32_bytes f c)"
    using u(2)[of f] by (simp add: utf32_convert_def)
  show "0 \<le> c \<and> utf32_bytes f c \<noteq> []" using u(2)[of f] c by (auto simp: scalar_def)
  fix rest
  show "utf32_queryConvert f (utf32_bytes f c @ rest) (int (length (utf32_bytes f c))) = c"
    using u(1)[of f rest] u(2)[of f] by (simp add: utf32_queryConvert_def)
  show "utf32_queryConvert f (utf32_bytes f c @ rest) r < -1 \<and>
      - utf32_queryConvert f (utf32_bytes f c @ rest) r \<le> int (length (utf32_bytes f c))"
    if "1 \<le> r" "r < int (length (utf32_bytes f c))" for r
    using u(2)[of f] that by (simp add: utf32_queryConvert_def)
next
  fix r :: int and bs assume r: "1 \<le> r" "utf32_queryConvert f bs r < -1"
  then show "r < - utf32_queryConvert f bs r"
    by (auto simp: utf32_queryConvert_def utf32_decode_def safeToInt_def uint_above split: if_splits)
next
  fix r :: int and bs :: "u8 list" assume r: "1 \<le> r" "r \<le> int (length bs)"
  then show "utf32_queryConvert f (take (nat r) bs) r = utf32_queryConvert f bs r"
    by (auto simp: utf32_queryConvert_def utf32_decode_def)
qed (rule utf32_advance; assumption)

interpretation utf8_16: text_conversion utf8_queryConvert utf8_convert utf8_bytes scalar
  "utf16_queryConvert f" "utf16_convert f" "utf16_bytes f" for f
  by unfold_locales

interpretation utf16_8: text_conversion "utf16_queryConvert f" "utf16_convert f" "utf16_bytes f" scalar
  utf8_queryConvert utf8_convert utf8_bytes for f
  by unfold_locales

interpretation utf8_32: text_conversion utf8_queryConvert utf8_convert utf8_bytes scalar
  "utf32_queryConvert f" "utf32_convert f" "utf32_bytes f" for f
  by unfold_locales

interpretation utf32_8: text_conversion "utf32_queryConvert f" "utf32_convert f" "utf32_bytes f" scalar
  utf8_queryConvert utf8_convert utf8_bytes for f
  by unfold_locales

interpretation utf16_32: text_conversion "utf16_queryConvert f" "utf16_convert f" "utf16_bytes f" scalar
  "utf32_queryConvert g" "utf32_convert g" "utf32_bytes g" for f g
  by unfold_locales

interpretation utf32_16: text_conversion "utf32_queryConvert f" "utf32_convert f" "utf32_bytes f" scalar
  "utf16_queryConvert g" "utf16_convert g" "utf16_bytes g" for f g
  by unfold_locales
section \<open>The converter\<close>

text \<open>
  C14.  Conversions between UTF-8, UTF-16 and UTF-32, in either byte order, lose nothing: for every
  text of Unicode scalar values the converter returns, reports no error, and its output is the text in
  the target encoding, whatever the default character.
\<close>

theorem text_convert_exact:
  assumes "list_all scalar cs"
  shows "tc_convert utf8_queryConvert (utf16_convert f) d (\<lambda>c. c) (concat (map utf8_bytes cs)) 0 [] =
      Some (0, concat (map (utf16_bytes f) cs)) \<and>
    tc_convert (utf16_queryConvert f) utf8_convert d (\<lambda>c. c) (concat (map (utf16_bytes f) cs)) 0 [] =
      Some (0, concat (map utf8_bytes cs)) \<and>
    tc_convert utf8_queryConvert (utf32_convert f) d (\<lambda>c. c) (concat (map utf8_bytes cs)) 0 [] =
      Some (0, concat (map (utf32_bytes f) cs)) \<and>
    tc_convert (utf32_queryConvert f) utf8_convert d (\<lambda>c. c) (concat (map (utf32_bytes f) cs)) 0 [] =
      Some (0, concat (map utf8_bytes cs)) \<and>
    tc_convert (utf16_queryConvert f) (utf32_convert g) d (\<lambda>c. c) (concat (map (utf16_bytes f) cs)) 0 [] =
      Some (0, concat (map (utf32_bytes g) cs)) \<and>
    tc_convert (utf32_queryConvert f) (utf16_convert g) d (\<lambda>c. c) (concat (map (utf32_bytes f) cs)) 0 [] =
      Some (0, concat (map (utf16_bytes g) cs))"
  using utf8_16.convert_exact[OF assms] utf16_8.convert_exact[OF assms] utf8_32.convert_exact[OF assms]
    utf32_8.convert_exact[OF assms] utf16_32.convert_exact[OF assms] utf32_16.convert_exact[OF assms]
  by (intro conjI) assumption+

theorem text_convert_exact_witness:
  "tc_convert utf8_queryConvert (utf16_convert False) 63 (\<lambda>c. c) [0x41, 0xE2, 0x82, 0xAC, 0xF0, 0x9F, 0x98, 0x80] 0 [] =
     Some (0, [0x41, 0x00, 0xAC, 0x20, 0x3D, 0xD8, 0x00, 0xDE])"
proof -
  have s: "list_all scalar [0x41, 0x20AC, 0x1F600]" by (simp add: scalar_def)
  have u: "utf8_bytes 0x41 = [0x41]" "utf8_bytes 0x20AC = [0xE2, 0x82, 0xAC]" "utf8_bytes 0x1F600 = [0xF0, 0x9F, 0x98, 0x80]"
    by (simp_all add: utf8_bytes_arith)
  have v: "utf16_bytes False 0x41 = [0x41, 0x00]" "utf16_bytes False 0x20AC = [0xAC, 0x20]"
    "utf16_bytes False 0x1F600 = [0x3D, 0xD8, 0x00, 0xDE]"
    by (simp_all add: utf16_bytes_def bytes16_def flipped16_def Let_def and_mask_int drop_bit_eq_div)
  show ?thesis using text_convert_exact[OF s, of False 63] by (simp add: u v)
qed

text \<open>
  The converter returns for every input, malformed or truncated, in each of the encodings, and
  converting a string with a \<^verbatim>\<open>TextIterator\<close> gives the same output and the same number of errors as
  converting the bytes of a buffer: \<^verbatim>\<open>operator *\<close>, \<^verbatim>\<open>operator ++\<close> and \<^verbatim>\<open>sequenceLength\<close> agree with
  \<^verbatim>\<open>queryConvert\<close> on where each character ends.
\<close>

theorem text_convert_total:
  "(\<exists>r. tc_convert utf8_queryConvert out d tr it e dst = Some r \<and>
        tc_convert_string utf8_queryConvert utf8_sequenceLength out d tr it e dst = Some r) \<and>
   (\<exists>r. tc_convert (utf16_queryConvert f) out d tr it e dst = Some r \<and>
        tc_convert_string (utf16_queryConvert f) (utf16_sequenceLength f) out d tr it e dst = Some r) \<and>
   (\<exists>r. tc_convert (utf32_queryConvert f) out d tr it e dst = Some r \<and>
        tc_convert_string (utf32_queryConvert f) utf32_sequenceLength out d tr it e dst = Some r)"
  using utf8.tc_convert_terminates utf16.tc_convert_terminates utf32.tc_convert_terminates
  unfolding utf8.convert_string_eq utf16.convert_string_eq utf32.convert_string_eq by simp

text \<open>
  \<^verbatim>\<open>UTF16Encoding::queryConvert\<close> checks the upper bound of the second unit of a surrogate pair
  on the first unit: a high surrogate followed by a unit from E000 on is accepted as a character above
  FFFF, where \<^verbatim>\<open>convert\<close> reports an error.  On every other four bytes the two agree.
\<close>

theorem utf16_query_vs_convert:
  "utf16_queryConvert f (a # b # c # d # rest) 4 =
    (if 0xd800 \<le> unit16_at f a b \<and> unit16_at f a b < 0xdc00 \<and> 0xe000 \<le> unit16_at f c d
     then push_bit 10 (unit16_at f a b AND 0x3ff) + (unit16_at f c d AND 0x3ff) + 0x10000
     else utf16_decode f (a # b # c # d # rest)) \<and>
   utf16_queryConvert False [0x00, 0xD8, 0x41, 0xFF] 4 = 0x10341 \<and> utf16_decode False [0x00, 0xD8, 0x41, 0xFF] = -1"
proof (intro conjI)
  show "utf16_queryConvert f (a # b # c # d # rest) 4 =
    (if 0xd800 \<le> unit16_at f a b \<and> unit16_at f a b < 0xdc00 \<and> 0xe000 \<le> unit16_at f c d
     then push_bit 10 (unit16_at f a b AND 0x3ff) + (unit16_at f c d AND 0x3ff) + 0x10000
     else utf16_decode f (a # b # c # d # rest))"
    by (auto simp: utf16_queryConvert_def utf16_decode_def unit16_at_def Let_def)
  have "unit16_at False 0x00 0xD8 = 0xD800" "unit16_at False 0x41 0xFF = 0xFF41" by (simp_all add: unit16_at_eq)
  then show "utf16_queryConvert False [0x00, 0xD8, 0x41, 0xFF] 4 = 0x10341" "utf16_decode False [0x00, 0xD8, 0x41, 0xFF] = -1"
    by (simp_all add: utf16_queryConvert_def utf16_decode_def unit16_at_def Let_def and_mask_int push_bit_eq_mult)
qed
end
