(* ===== verification/Codec.thy ===== *)
theory Codec
  imports Prelude
begin

text \<open>
  The stream codecs of Foundation: \<^verbatim>\<open>Base64Encoder\<close> and \<^verbatim>\<open>Base64Decoder\<close>, \<^verbatim>\<open>HexBinaryEncoder\<close> and
  \<^verbatim>\<open>HexBinaryDecoder\<close>, the hexadecimal form and the comparison of digests of \<^verbatim>\<open>DigestEngine\<close>, and the
  \<^verbatim>\<open>UnbufferedStreamBuf\<close> through which the streams reach the codecs.

  Text and data are lists of bytes (\<open>u8\<close>).  \<^verbatim>\<open>eof\<close> is \<open>None\<close>.  The stream buffer a decoder reads from
  is the list of the bytes still to come.  The stream buffer an encoder writes to is a \<open>sink\<close>: the
  bytes written and, if it is bounded, the number of bytes after which \<^verbatim>\<open>sputc\<close> returns \<^verbatim>\<open>eof\<close>.
\<close>

definition bytes_of :: "string \<Rightarrow> u8 list" where
  "bytes_of s = map of_char s"

record sink =
  written :: "u8 list"
  room :: "nat option"

definition sputc :: "u8 \<Rightarrow> sink \<Rightarrow> bool \<times> sink" where
  "sputc c s =
    (case room s of
       None \<Rightarrow> (True, s\<lparr>written := written s @ [c]\<rparr>)
     | Some 0 \<Rightarrow> (False, s)
     | Some (Suc n) \<Rightarrow> (True, s\<lparr>written := written s @ [c], room := Some n\<rparr>))"

text \<open>A sequence of \<^verbatim>\<open>if (_buf.sputc(c) == eof) return eof;\<close>.\<close>

fun sputs :: "u8 list \<Rightarrow> sink \<Rightarrow> bool \<times> sink" where
  "sputs [] s = (True, s)"
| "sputs (c # cs) s = (case sputc c s of (True, s') \<Rightarrow> sputs cs s' | (False, s') \<Rightarrow> (False, s'))"

section \<open>Base64Encoder\<close>

definition OUT_ENCODING :: "u8 list" where
  "OUT_ENCODING = bytes_of ''ABCDEFGHIJKLMNOPQRSTUVWXYZabcdefghijklmnopqrstuvwxyz0123456789+/''"

definition OUT_ENCODING_URL :: "u8 list" where
  "OUT_ENCODING_URL = bytes_of ''ABCDEFGHIJKLMNOPQRSTUVWXYZabcdefghijklmnopqrstuvwxyz0123456789-_''"

definition b64_out :: "bool \<Rightarrow> u8 list" where
  "b64_out url = (if url then OUT_ENCODING_URL else OUT_ENCODING)"

text \<open>
  \<open>b_group\<close> holds the first \<^verbatim>\<open>_groupLength\<close> elements of \<^verbatim>\<open>_group[3]\<close>; the two bits of \<^verbatim>\<open>_options\<close> are
  \<open>b_url\<close> and \<open>b_nopad\<close>.  \<open>b_pos\<close> is unbounded where \<^verbatim>\<open>_pos\<close> is an \<^verbatim>\<open>int\<close>: with a line length the two agree, since \<^verbatim>\<open>_pos\<close> is reset
  at the end of every line; without one \<^verbatim>\<open>_pos\<close> is only ever added to, and overflows after \<open>2 ^ 31\<close> characters of output, which the model leaves out.
\<close>

record b64enc =
  b_url :: bool
  b_nopad :: bool
  b_group :: "u8 list"
  b_pos :: int
  b_lineLength :: int
  b_sink :: sink

definition b64enc_new :: "bool \<Rightarrow> bool \<Rightarrow> sink \<Rightarrow> b64enc" where
  "b64enc_new url nopad s =
    \<lparr>b_url = url, b_nopad = nopad, b_group = [], b_pos = 0, b_lineLength = (if url then 0 else 72), b_sink = s\<rparr>"

definition b64_setLineLength :: "int \<Rightarrow> b64enc \<Rightarrow> b64enc" where
  "b64_setLineLength lineLength e = e\<lparr>b_lineLength := lineLength\<rparr>"

definition b64_idx0 :: "u8 \<Rightarrow> u8" where
  "b64_idx0 g0 = drop_bit 2 g0"

definition b64_idx1 :: "u8 \<Rightarrow> u8 \<Rightarrow> u8" where
  "b64_idx1 g0 g1 = push_bit 4 (g0 AND 0x03) OR drop_bit 4 g1"

definition b64_idx2 :: "u8 \<Rightarrow> u8 \<Rightarrow> u8" where
  "b64_idx2 g1 g2 = push_bit 2 (g1 AND 0x0F) OR drop_bit 6 g2"

definition b64_idx3 :: "u8 \<Rightarrow> u8" where
  "b64_idx3 g2 = g2 AND 0x3F"

text \<open>Storing a fourth byte into \<^verbatim>\<open>_group\<close> is an access outside the array.\<close>

definition b64_writeToDevice :: "u8 \<Rightarrow> b64enc \<Rightarrow> (bool \<times> b64enc) outcome" where
  "b64_writeToDevice c e =
    (if length (b_group e) \<ge> 3 then UB
     else
       let e = e\<lparr>b_group := b_group e @ [c]\<rparr>; g = b_group e; enc = b64_out (b_url e) in
       if length g = 3 then
         case sputs [enc ! unat (b64_idx0 (g ! 0)), enc ! unat (b64_idx1 (g ! 0) (g ! 1)),
                     enc ! unat (b64_idx2 (g ! 1) (g ! 2)), enc ! unat (b64_idx3 (g ! 2))] (b_sink e) of
           (False, s) \<Rightarrow> Ret (False, e\<lparr>b_sink := s\<rparr>)
         | (True, s) \<Rightarrow>
             let e = e\<lparr>b_sink := s, b_pos := b_pos e + 4\<rparr> in
             if b_lineLength e > 0 \<and> b_pos e \<ge> b_lineLength e then
               case sputs [0x0D, 0x0A] (b_sink e) of
                 (False, s) \<Rightarrow> Ret (False, e\<lparr>b_sink := s\<rparr>)
               | (True, s) \<Rightarrow> Ret (True, e\<lparr>b_sink := s, b_pos := 0, b_group := []\<rparr>)
             else Ret (True, e\<lparr>b_group := []\<rparr>)
       else Ret (True, e))"

definition b64_close :: "b64enc \<Rightarrow> bool \<times> b64enc" where
  "b64_close e =
    (let g = b_group e; enc = b64_out (b_url e);
         out = (if length g = 1 then
                  [enc ! unat (b64_idx0 (g ! 0)), enc ! unat (b64_idx1 (g ! 0) 0)] @
                  (if b_nopad e then [] else [0x3D, 0x3D])
                else if length g = 2 then
                  [enc ! unat (b64_idx0 (g ! 0)), enc ! unat (b64_idx1 (g ! 0) (g ! 1)),
                   enc ! unat (b64_idx2 (g ! 1) 0)] @
                  (if b_nopad e then [] else [0x3D])
                else [])
     in case sputs out (b_sink e) of
          (False, s) \<Rightarrow> (False, e\<lparr>b_sink := s\<rparr>)
        | (True, s) \<Rightarrow> (True, e\<lparr>b_sink := s, b_group := []\<rparr>))"

text \<open>Writing bytes one after the other, as a stream does until an operation reports \<^verbatim>\<open>eof\<close>.\<close>

fun b64_put :: "u8 list \<Rightarrow> b64enc \<Rightarrow> (bool \<times> b64enc) outcome" where
  "b64_put [] e = Ret (True, e)"
| "b64_put (c # cs) e =
    (case b64_writeToDevice c e of
       Ret (True, e') \<Rightarrow> b64_put cs e'
     | r \<Rightarrow> r)"

section \<open>Base64Decoder\<close>

definition b64_in :: "bool \<Rightarrow> u8 list" where
  "b64_in url =
    (fold (\<lambda>i t. t[unat (b64_out url ! i) := of_nat i]) [0..<64] (replicate 256 0xFF)) [0x3D := 0]"

record b64dec =
  d_url :: bool
  d_nopad :: bool
  d_group :: "u8 list"
  d_groupLength :: nat
  d_groupIndex :: nat
  d_inp :: "u8 list"

definition b64dec_new :: "bool \<Rightarrow> bool \<Rightarrow> u8 list \<Rightarrow> b64dec" where
  "b64dec_new url nopad inp =
    \<lparr>d_url = url, d_nopad = nopad, d_group = [0, 0, 0], d_groupLength = 0, d_groupIndex = 0, d_inp = inp\<rparr>"

definition is_ws :: "u8 \<Rightarrow> bool" where
  "is_ws ch \<longleftrightarrow> ch = 0x20 \<or> ch = 0x0D \<or> ch = 0x09 \<or> ch = 0x0A"

fun sbumpc :: "u8 list \<Rightarrow> u8 option \<times> u8 list" where
  "sbumpc [] = (None, [])"
| "sbumpc (c # cs) = (Some c, cs)"

text \<open>The loop of \<^verbatim>\<open>readOne\<close> that skips white space.\<close>

fun skip_ws :: "u8 option \<Rightarrow> u8 list \<Rightarrow> u8 option \<times> u8 list" where
  "skip_ws None cs = (None, cs)"
| "skip_ws (Some ch) cs =
    (if is_ws ch then (case cs of [] \<Rightarrow> (None, []) | c # cs' \<Rightarrow> skip_ws (Some c) cs') else (Some ch, cs))"

definition b64_readOne :: "bool \<Rightarrow> u8 list \<Rightarrow> u8 option \<times> u8 list" where
  "b64_readOne url inp =
    (case sbumpc inp of (ch, inp) \<Rightarrow> if \<not> url then skip_ws ch inp else (ch, inp))"

text \<open>The third and fourth characters of a group may be missing only without padding.\<close>

definition b64_readPad :: "bool \<Rightarrow> bool \<Rightarrow> u8 list \<Rightarrow> (u8 \<times> u8 list) result" where
  "b64_readPad url nopad inp =
    (case b64_readOne url inp of
       (Some c, inp) \<Rightarrow> if b64_in url ! unat c = 0xFF then Inl DataFormatException else Inr (c, inp)
     | (None, inp) \<Rightarrow>
         if nopad then if b64_in url ! 0x3D = 0xFF then Inl DataFormatException else Inr (0x3D, inp)
         else Inl DataFormatException)"

definition b64_group :: "bool \<Rightarrow> u8 \<Rightarrow> u8 \<Rightarrow> u8 \<Rightarrow> u8 \<Rightarrow> u8 list" where
  "b64_group url c0 c1 c2 c3 =
    (let t = b64_in url; v0 = t ! unat c0; v1 = t ! unat c1; v2 = t ! unat c2; v3 = t ! unat c3 in
     [push_bit 2 v0 OR drop_bit 4 v1, push_bit 4 (v1 AND 0x0F) OR drop_bit 2 v2, push_bit 6 v2 OR v3])"

definition b64_readFromDevice :: "b64dec \<Rightarrow> (u8 option \<times> b64dec) result" where
  "b64_readFromDevice d =
    (if d_groupIndex d < d_groupLength d then
       Inr (Some (d_group d ! d_groupIndex d), d\<lparr>d_groupIndex := d_groupIndex d + 1\<rparr>)
     else
       case b64_readOne (d_url d) (d_inp d) of
         (None, inp) \<Rightarrow> Inr (None, d\<lparr>d_inp := inp\<rparr>)
       | (Some c0, inp) \<Rightarrow>
           if b64_in (d_url d) ! unat c0 = 0xFF then Inl DataFormatException
           else case b64_readOne (d_url d) inp of
             (None, inp) \<Rightarrow> Inr (None, d\<lparr>d_inp := inp\<rparr>)
           | (Some c1, inp) \<Rightarrow>
               if b64_in (d_url d) ! unat c1 = 0xFF then Inl DataFormatException
               else rbind (b64_readPad (d_url d) (d_nopad d) inp) (\<lambda>(c2, inp).
                 rbind (b64_readPad (d_url d) (d_nopad d) inp) (\<lambda>(c3, inp).
                   let g = b64_group (d_url d) c0 c1 c2 c3 in
                   Inr (Some (g ! 0),
                        d\<lparr>d_inp := inp, d_group := g, d_groupIndex := 1,
                          d_groupLength := (if c2 = 0x3D then 1 else if c3 = 0x3D then 2 else 3)\<rparr>))))"

section \<open>HexBinaryEncoder and HexBinaryDecoder\<close>

record hexenc =
  h_pos :: int
  h_lineLength :: int
  h_uppercase :: nat
  h_sink :: sink

definition hexenc_new :: "sink \<Rightarrow> hexenc" where
  "hexenc_new s = \<lparr>h_pos = 0, h_lineLength = 72, h_uppercase = 0, h_sink = s\<rparr>"

definition hex_setLineLength :: "int \<Rightarrow> hexenc \<Rightarrow> hexenc" where
  "hex_setLineLength lineLength e = e\<lparr>h_lineLength := lineLength\<rparr>"

definition hex_setUppercase :: "bool \<Rightarrow> hexenc \<Rightarrow> hexenc" where
  "hex_setUppercase flag e = e\<lparr>h_uppercase := (if flag then 16 else 0)\<rparr>"

definition hex_digits :: "u8 list" where
  "hex_digits = bytes_of ''0123456789abcdef0123456789ABCDEF''"

definition hex_writeToDevice :: "u8 \<Rightarrow> hexenc \<Rightarrow> bool \<times> hexenc" where
  "hex_writeToDevice c e =
    (case sputc (hex_digits ! (h_uppercase e + unat (drop_bit 4 c AND 0xF))) (h_sink e) of
       (False, s) \<Rightarrow> (False, e\<lparr>h_sink := s\<rparr>)
     | (True, s) \<Rightarrow>
         let e = e\<lparr>h_sink := s, h_pos := h_pos e + 1\<rparr> in
         case sputc (hex_digits ! (h_uppercase e + unat (c AND 0xF))) (h_sink e) of
           (False, s) \<Rightarrow> (False, e\<lparr>h_sink := s\<rparr>)
         | (True, s) \<Rightarrow>
             let e = e\<lparr>h_sink := s, h_pos := h_pos e + 1\<rparr> in
             if h_pos e \<ge> h_lineLength e \<and> h_lineLength e > 0 then
               case sputc 0x0A (h_sink e) of
                 (False, s) \<Rightarrow> (False, e\<lparr>h_sink := s\<rparr>)
               | (True, s) \<Rightarrow> (True, e\<lparr>h_sink := s, h_pos := 0\<rparr>)
             else (True, e))"

fun hex_put :: "u8 list \<Rightarrow> hexenc \<Rightarrow> bool \<times> hexenc" where
  "hex_put [] e = (True, e)"
| "hex_put (c # cs) e = (case hex_writeToDevice c e of (True, e') \<Rightarrow> hex_put cs e' | (False, e') \<Rightarrow> (False, e'))"

definition hex_readOne :: "u8 list \<Rightarrow> u8 option \<times> u8 list" where
  "hex_readOne inp = (case sbumpc inp of (ch, inp) \<Rightarrow> skip_ws ch inp)"

definition hex_value :: "u8 \<Rightarrow> u8 result" where
  "hex_value n =
    (if n \<ge> 0x30 \<and> n \<le> 0x39 then Inr (n - 0x30)
     else if n \<ge> 0x41 \<and> n \<le> 0x46 then Inr (n - 0x41 + 10)
     else if n \<ge> 0x61 \<and> n \<le> 0x66 then Inr (n - 0x61 + 10)
     else Inl DataFormatException)"

definition hex_readFromDevice :: "u8 list \<Rightarrow> (u8 option \<times> u8 list) result" where
  "hex_readFromDevice inp =
    (case hex_readOne inp of
       (None, inp) \<Rightarrow> Inr (None, inp)
     | (Some n, inp) \<Rightarrow>
         rbind (hex_value n) (\<lambda>c.
           case hex_readOne inp of
             (None, inp) \<Rightarrow> Inl DataFormatException
           | (Some n, inp) \<Rightarrow> rbind (hex_value n) (\<lambda>v. Inr (Some (push_bit 4 c OR v), inp))))"

section \<open>DigestEngine\<close>

fun dth_loop :: "nat \<Rightarrow> u8 list \<Rightarrow> u8 list \<Rightarrow> u8 list" where
  "dth_loop len [] res = res"
| "dth_loop len (b # bs) res =
    (let res = res @ [hex_digits ! unat (drop_bit 4 b AND 0xF)] @ [hex_digits ! unat (b AND 0xF)] in
     if length res \<ge> len then res else dth_loop len bs res)"

definition digestToHex :: "u8 list \<Rightarrow> nat \<Rightarrow> u8 list result" where
  "digestToHex bytes len0 =
    (let fullLen = length bytes * 2;
         len = (if len0 \<noteq> 0 then (len0 * 2) mod SIZE_MOD else fullLen)
     in if len > fullLen then Inl InvalidArgumentException else Inr (dth_loop len bytes []))"

fun dfh_loop :: "u8 list \<Rightarrow> u8 list \<Rightarrow> u8 list result" where
  "dfh_loop (x # y # r) res =
    rbind (hex_value x) (\<lambda>c. rbind (hex_value y) (\<lambda>v. dfh_loop r (res @ [push_bit 4 c + v])))"
| "dfh_loop _ res = Inr res"

definition digestFromHex :: "u8 list \<Rightarrow> u8 list result" where
  "digestFromHex digest =
    (if length digest mod 2 \<noteq> 0 then Inl DataFormatException else dfh_loop digest [])"

fun cte_loop :: "u8 \<Rightarrow> u8 list \<Rightarrow> u8 list \<Rightarrow> u8" where
  "cte_loop res (a # d1) (b # d2) = cte_loop (res OR (a XOR b)) d1 d2"
| "cte_loop res _ _ = res"

definition constantTimeEquals :: "u8 list \<Rightarrow> u8 list \<Rightarrow> bool" where
  "constantTimeEquals d1 d2 = (if length d1 \<noteq> length d2 then False else cte_loop 0 d1 d2 = 0)"

section \<open>UnbufferedStreamBuf\<close>

text \<open>
  The stream buffer that a codec's \<^verbatim>\<open>readFromDevice\<close> (the argument \<open>rd\<close>) is plugged into, with one
  character of put-back.
\<close>

record 'd ubuf =
  u_dev :: 'd
  u_pb :: "u8 option"
  u_ispb :: bool

definition ubuf_new :: "'d \<Rightarrow> 'd ubuf" where
  "ubuf_new d = \<lparr>u_dev = d, u_pb = None, u_ispb = False\<rparr>"

definition underflow :: "('d \<Rightarrow> (u8 option \<times> 'd) result) \<Rightarrow> 'd ubuf \<Rightarrow> (u8 option \<times> 'd ubuf) result" where
  "underflow rd b =
    (if u_ispb b then Inr (u_pb b, b)
     else rbind (rd (u_dev b)) (\<lambda>(c, d).
       Inr (c, if c \<noteq> None then b\<lparr>u_dev := d, u_ispb := True, u_pb := c\<rparr> else b\<lparr>u_dev := d\<rparr>)))"

definition uflow :: "('d \<Rightarrow> (u8 option \<times> 'd) result) \<Rightarrow> 'd ubuf \<Rightarrow> (u8 option \<times> 'd ubuf) result" where
  "uflow rd b =
    (if u_ispb b then Inr (u_pb b, b\<lparr>u_ispb := False\<rparr>)
     else rbind (rd (u_dev b)) (\<lambda>(c, d).
       Inr (c, if c \<noteq> None then b\<lparr>u_dev := d, u_pb := c\<rparr> else b\<lparr>u_dev := d\<rparr>)))"

definition pbackfail :: "u8 option \<Rightarrow> 'd ubuf \<Rightarrow> u8 option \<times> 'd ubuf" where
  "pbackfail c b = (if u_ispb b then (None, b) else (c, b\<lparr>u_ispb := True, u_pb := c\<rparr>))"

fun xsgetn :: "('d \<Rightarrow> (u8 option \<times> 'd) result) \<Rightarrow> nat \<Rightarrow> 'd ubuf \<Rightarrow> (u8 list \<times> 'd ubuf) result" where
  "xsgetn rd 0 b = Inr ([], b)"
| "xsgetn rd (Suc n) b =
    rbind (uflow rd b) (\<lambda>(c, b).
      case c of None \<Rightarrow> Inr ([], b)
      | Some x \<Rightarrow> rbind (xsgetn rd n b) (\<lambda>(xs, b). Inr (x # xs, b)))"

section \<open>Reading through the stream buffer\<close>

text \<open>
  What \<^verbatim>\<open>UnbufferedStreamBuf\<close> relies on: \<open>delivers d xs\<close> says that the device delivers the bytes \<open>xs\<close>
  one at a time and then \<^verbatim>\<open>eof\<close>.
\<close>

locale byte_source =
  fixes rd :: "'d \<Rightarrow> (u8 option \<times> 'd) result"
    and delivers :: "'d \<Rightarrow> u8 list \<Rightarrow> bool"
  assumes at_end: "delivers d [] \<Longrightarrow> \<exists>d'. rd d = Inr (None, d') \<and> delivers d' []"
    and at_byte: "delivers d (x # xs) \<Longrightarrow> \<exists>d'. rd d = Inr (Some x, d') \<and> delivers d' xs"
begin

text \<open>The bytes still to come through the stream buffer, the one put back included.\<close>

definition holds :: "'d ubuf \<Rightarrow> u8 list \<Rightarrow> bool" where
  "holds b xs \<longleftrightarrow>
    (if u_ispb b then \<exists>x ys. u_pb b = Some x \<and> xs = x # ys \<and> delivers (u_dev b) ys
     else delivers (u_dev b) xs)"

lemma holds_new: "delivers d xs \<Longrightarrow> holds (ubuf_new d) xs"
  by (simp add: holds_def ubuf_new_def)

lemma uflow_end:
  assumes "holds b []"
  shows "\<exists>b'. uflow rd b = Inr (None, b') \<and> holds b' []"
proof -
  have b: "\<not> u_ispb b" "delivers (u_dev b) []" using assms by (auto simp: holds_def split: if_splits)
  then obtain d where "rd (u_dev b) = Inr (None, d)" "delivers d []" using at_end by blast
  then have "uflow rd b = Inr (None, b\<lparr>u_dev := d\<rparr>)" "holds (b\<lparr>u_dev := d\<rparr>) []"
    using b by (simp_all add: uflow_def holds_def)
  then show ?thesis by blast
qed

lemma uflow_byte:
  assumes "holds b (x # xs)"
  shows "\<exists>b'. uflow rd b = Inr (Some x, b') \<and> holds b' xs \<and> \<not> u_ispb b' \<and> u_pb b' = Some x"
proof (cases "u_ispb b")
  case True
  then show ?thesis using assms by (simp add: uflow_def holds_def)
next
  case False
  then obtain d where "rd (u_dev b) = Inr (Some x, d)" "delivers d xs"
    using at_byte[of "u_dev b" x xs] assms by (auto simp: holds_def)
  then have "uflow rd b = Inr (Some x, b\<lparr>u_dev := d, u_pb := Some x\<rparr>)" "holds (b\<lparr>u_dev := d, u_pb := Some x\<rparr>) xs"
    using False by (simp_all add: uflow_def holds_def)
  then show ?thesis using False by fastforce
qed

lemma underflow_peeks:
  assumes "holds b xs"
  shows "\<exists>b'. underflow rd b = Inr (case xs of [] \<Rightarrow> None | x # _ \<Rightarrow> Some x, b') \<and> holds b' xs"
proof (cases "u_ispb b")
  case True
  then show ?thesis using assms by (auto simp: underflow_def holds_def)
next
  case False
  show ?thesis
  proof (cases xs)
    case Nil
    then obtain d where "rd (u_dev b) = Inr (None, d)" "delivers d []"
      using at_end[of "u_dev b"] assms False by (auto simp: holds_def)
    then have "underflow rd b = Inr (None, b\<lparr>u_dev := d\<rparr>)" "holds (b\<lparr>u_dev := d\<rparr>) xs"
      using False Nil by (simp_all add: underflow_def holds_def)
    then show ?thesis using Nil by auto
  next
    case (Cons y ys)
    then obtain d where "rd (u_dev b) = Inr (Some y, d)" "delivers d ys"
      using at_byte[of "u_dev b" y ys] assms False by (auto simp: holds_def)
    then have "underflow rd b = Inr (Some y, b\<lparr>u_dev := d, u_ispb := True, u_pb := Some y\<rparr>)"
      "holds (b\<lparr>u_dev := d, u_ispb := True, u_pb := Some y\<rparr>) xs"
      using False Cons by (simp_all add: underflow_def holds_def)
    then show ?thesis using Cons by auto
  qed
qed

lemma putback: "holds b xs \<Longrightarrow> \<not> u_ispb b \<Longrightarrow> holds (snd (pbackfail (Some x) b)) (x # xs)"
  by (simp add: holds_def pbackfail_def)

lemma xsgetn_takes: "holds b xs \<Longrightarrow> \<exists>b'. xsgetn rd n b = Inr (take n xs, b') \<and> holds b' (drop n xs)"
proof (induction n arbitrary: b xs)
  case 0 then show ?case by simp
next
  case (Suc n)
  show ?case
  proof (cases xs)
    case Nil
    then show ?thesis using uflow_end[of b] Suc.prems by auto
  next
    case (Cons y ys)
    then obtain b' where b: "uflow rd b = Inr (Some y, b')" "holds b' ys"
      using uflow_byte[of b y ys] Suc.prems by auto
    then show ?thesis using Suc.IH[OF b(2)] Cons by auto
  qed
qed

end

section \<open>The Base64 decoder on the text without white space\<close>

definition strip :: "bool \<Rightarrow> u8 list \<Rightarrow> u8 list" where
  "strip url inp = (if url then inp else filter (\<lambda>c. \<not> is_ws c) inp)"

lemma skip_ws_none: "list_all is_ws (ch # cs) \<Longrightarrow> skip_ws (Some ch) cs = (None, [])"
  by (induction cs arbitrary: ch) auto

lemma skip_ws_some:
  "filter (\<lambda>c. \<not> is_ws c) (ch # cs) = x # xs \<Longrightarrow>
     \<exists>i. skip_ws (Some ch) cs = (Some x, i) \<and> filter (\<lambda>c. \<not> is_ws c) i = xs \<and> length i \<le> length cs"
proof (induction cs arbitrary: ch)
  case Nil then show ?case by (auto split: if_splits)
next
  case (Cons c cs)
  show ?case
  proof (cases "is_ws ch")
    case True
    then show ?thesis using Cons.IH[of c] Cons.prems by fastforce
  next
    case False then show ?thesis using Cons.prems by simp
  qed
qed

lemma readOne_none: "strip url inp = [] \<Longrightarrow> b64_readOne url inp = (None, [])"
  using skip_ws_none[of "hd inp" "tl inp"]
  by (cases inp) (auto simp: strip_def b64_readOne_def list_all_iff filter_empty_conv split: if_splits)

lemma readOne_some:
  assumes "strip url inp = c # cs"
  shows "\<exists>i. b64_readOne url inp = (Some c, i) \<and> strip url i = cs \<and> length i < length inp"
proof (cases inp)
  case Nil then show ?thesis using assms by (simp add: strip_def split: if_splits)
next
  case (Cons x xs)
  then show ?thesis using assms skip_ws_some[of x xs c cs]
    by (cases url) (auto simp: strip_def b64_readOne_def simp del: skip_ws.simps filter.simps)
qed

lemma readOne_cases:
  obtains "strip url inp = []" "b64_readOne url inp = (None, [])"
  | c cs i where "strip url inp = c # cs" "b64_readOne url inp = (Some c, i)" "strip url i = cs" "length i < length inp"
  using readOne_none[of url inp] readOne_some[of url inp] by (cases "strip url inp") auto

definition valid :: "bool \<Rightarrow> u8 \<Rightarrow> bool" where
  "valid url c \<longleftrightarrow> b64_in url ! unat c \<noteq> 0xFF"

definition grp :: "bool \<Rightarrow> u8 \<Rightarrow> u8 \<Rightarrow> u8 \<Rightarrow> u8 \<Rightarrow> u8 list" where
  "grp url c0 c1 c2 c3 = take (if c2 = 0x3D then 1 else if c3 = 0x3D then 2 else 3) (b64_group url c0 c1 c2 c3)"

text \<open>The decoder as a function of the characters that are not white space.\<close>

fun b64_spec :: "bool \<Rightarrow> bool \<Rightarrow> u8 list \<Rightarrow> u8 list result" where
  "b64_spec url nopad (c0 # c1 # c2 # c3 # r) =
    (if list_all (valid url) [c0, c1, c2, c3] then rbind (b64_spec url nopad r) (\<lambda>xs. Inr (grp url c0 c1 c2 c3 @ xs))
     else Inl DataFormatException)"
| "b64_spec url nopad [c0, c1, c2] =
    (if list_all (valid url) [c0, c1, c2] \<and> nopad then Inr (grp url c0 c1 c2 0x3D) else Inl DataFormatException)"
| "b64_spec url nopad [c0, c1] =
    (if list_all (valid url) [c0, c1] \<and> nopad then Inr (grp url c0 c1 0x3D 0x3D) else Inl DataFormatException)"
| "b64_spec url nopad [c0] = (if valid url c0 then Inr [] else Inl DataFormatException)"
| "b64_spec url nopad [] = Inr []"

definition b64_left :: "b64dec \<Rightarrow> nat" where
  "b64_left d = 3 * length (d_inp d) + (d_groupLength d - d_groupIndex d)"

lemma readPad_len: "b64_readPad url nopad inp = Inr (c, i) \<Longrightarrow> length i \<le> length inp"
  by (cases rule: readOne_cases[of url inp]) (auto simp: b64_readPad_def split: if_splits)

lemma b64_read_decreases:
  assumes "b64_readFromDevice d = Inr (Some x, d')"
  shows "b64_left d' < b64_left d"
proof (cases "d_groupIndex d < d_groupLength d")
  case True then show ?thesis using assms by (auto simp: b64_readFromDevice_def b64_left_def)
next
  case False
  obtain c0 i0 where c0: "b64_readOne (d_url d) (d_inp d) = (Some c0, i0)" "length i0 < length (d_inp d)"
    using assms False by (cases rule: readOne_cases[of "d_url d" "d_inp d"]) (auto simp: b64_readFromDevice_def)
  obtain c1 i1 where c1: "b64_readOne (d_url d) i0 = (Some c1, i1)" "length i1 < length i0"
    using assms False c0
    by (cases rule: readOne_cases[of "d_url d" i0]) (auto simp: b64_readFromDevice_def split: if_splits)
  obtain c2 i2 c3 i3 where c2: "b64_readPad (d_url d) (d_nopad d) i1 = Inr (c2, i2)"
      "b64_readPad (d_url d) (d_nopad d) i2 = Inr (c3, i3)" "d_inp d' = i3" "d_groupIndex d' = 1" "d_groupLength d' \<le> 3"
    using assms False c0 c1 by (auto simp: b64_readFromDevice_def rbind_eq_Inr Let_def split: if_splits)
  have "length i3 + 2 \<le> length (d_inp d)" using c0 c1 c2 readPad_len[OF c2(1)] readPad_len[OF c2(2)] by simp
  then show ?thesis using c2 by (simp add: b64_left_def)
qed

text \<open>Everything a stream can read from the decoder until \<^verbatim>\<open>eof\<close>.\<close>

function b64_decode_all :: "b64dec \<Rightarrow> u8 list result" where
  "b64_decode_all d =
    (case b64_readFromDevice d of
       Inl e \<Rightarrow> Inl e
     | Inr (None, d') \<Rightarrow> Inr []
     | Inr (Some x, d') \<Rightarrow> rbind (b64_decode_all d') (\<lambda>xs. Inr (x # xs)))"
  by pat_completeness auto
termination by (relation "measure b64_left") (auto dest: b64_read_decreases)

declare b64_decode_all.simps [simp del]

lemma rbind_id [simp]: "rbind r Inr = r"
  by (cases r) auto

lemma rbind_assoc: "rbind (rbind r f) g = rbind r (\<lambda>x. rbind (f x) g)"
  by (cases r) auto

lemma b64_eq_valid: "b64_in url ! 0x3D = 0"
proof -
  have "length (fold (\<lambda>i t. t[unat (b64_out url ! i) := of_nat i :: u8]) ks t) = length t" for ks t
    by (induction ks arbitrary: t) auto
  then show ?thesis by (simp add: b64_in_def)
qed

lemma unat_3D: "unat (0x3D :: u8) = 0x3D"
  by simp

lemma valid_pad: "valid url 0x3D"
  unfolding valid_def unat_3D b64_eq_valid by simp

lemma readPad_eq:
  "strip url inp = [] \<Longrightarrow> b64_readPad url nopad inp = (if nopad then Inr (0x3D, []) else Inl DataFormatException)"
  "strip url inp = c # cs \<Longrightarrow> \<not> valid url c \<Longrightarrow> b64_readPad url nopad inp = Inl DataFormatException"
  "strip url inp = c # cs \<Longrightarrow> valid url c \<Longrightarrow>
     \<exists>i. b64_readPad url nopad inp = Inr (c, i) \<and> strip url i = cs"
proof -
  assume "strip url inp = []"
  then show "b64_readPad url nopad inp = (if nopad then Inr (0x3D, []) else Inl DataFormatException)"
    using b64_eq_valid[of url] by (simp add: b64_readPad_def readOne_none)
next
  assume "strip url inp = c # cs" "\<not> valid url c"
  then show "b64_readPad url nopad inp = Inl DataFormatException"
    using readOne_some[of url inp c cs] by (auto simp: b64_readPad_def valid_def)
next
  assume "strip url inp = c # cs" "valid url c"
  then show "\<exists>i. b64_readPad url nopad inp = Inr (c, i) \<and> strip url i = cs"
    using readOne_some[of url inp c cs] by (auto simp: b64_readPad_def valid_def)
qed

text \<open>What one refill of the group delivers, as the specification has it.\<close>

lemma b64_refill:
  assumes "\<not> d_groupIndex d < d_groupLength d"
  shows "(case b64_readFromDevice d of
      Inl e \<Rightarrow> b64_spec (d_url d) (d_nopad d) (strip (d_url d) (d_inp d)) = Inl e
    | Inr (None, d') \<Rightarrow> b64_spec (d_url d) (d_nopad d) (strip (d_url d) (d_inp d)) = Inr []
    | Inr (Some x, d') \<Rightarrow>
        d_url d' = d_url d \<and> d_nopad d' = d_nopad d \<and> d_groupLength d' \<le> length (d_group d') \<and>
        b64_spec (d_url d) (d_nopad d) (strip (d_url d) (d_inp d)) =
          rbind (b64_spec (d_url d) (d_nopad d) (strip (d_url d) (d_inp d')))
            (\<lambda>xs. Inr (x # drop (d_groupIndex d') (take (d_groupLength d') (d_group d')) @ xs)))"
proof (cases rule: readOne_cases[of "d_url d" "d_inp d"])
  case 1 then show ?thesis using assms by (simp add: b64_readFromDevice_def)
next
  case (2 c0 cs0 i0)
  note c0 = 2
  show ?thesis
  proof (cases rule: readOne_cases[of "d_url d" i0])
    case 1 then show ?thesis using assms c0 by (simp add: b64_readFromDevice_def valid_def)
  next
    case (2 c1 cs1 i1)
    note c1 = 2
    let ?u = "d_url d" and ?p = "d_nopad d"
    have s: "strip ?u (d_inp d) = c0 # c1 # cs1" using c0(1,3) c1(1) by simp
    note c = c0(2) c1(2) c1(3)
    show ?thesis
    proof (cases "valid ?u c0 \<and> valid ?u c1")
      case False
      then have "b64_readFromDevice d = Inl DataFormatException"
        using assms c by (auto simp: b64_readFromDevice_def valid_def)
      moreover have "b64_spec ?u ?p (c0 # c1 # r) = Inl DataFormatException" for r
        using False by (cases r; cases "tl r") auto
      ultimately show ?thesis unfolding s by simp
    next
      case True
      have rd: "b64_readFromDevice d = rbind (b64_readPad ?u ?p i1) (\<lambda>(c2, inp).
                 rbind (b64_readPad ?u ?p inp) (\<lambda>(c3, inp).
                   let g = b64_group ?u c0 c1 c2 c3 in
                   Inr (Some (g ! 0),
                        d\<lparr>d_inp := inp, d_group := g, d_groupIndex := 1,
                          d_groupLength := (if c2 = 0x3D then 1 else if c3 = 0x3D then 2 else 3)\<rparr>)))"
        using assms c True by (simp add: b64_readFromDevice_def valid_def)
      have gr: "grp ?u c0 c1 c2 c3 = b64_group ?u c0 c1 c2 c3 ! 0 #
          drop 1 (take (if c2 = 0x3D then 1 else if c3 = 0x3D then 2 else 3) (b64_group ?u c0 c1 c2 c3))"
        "length (b64_group ?u c0 c1 c2 c3) = 3" for c2 c3
        by (simp_all add: grp_def b64_group_def Let_def)
      show ?thesis
      proof (cases cs1)
        case Nil
        then show ?thesis unfolding rd s using c True readPad_eq(1)[of ?u i1 ?p] readPad_eq(1)[of ?u "[]" ?p] gr[of "0x3D" "0x3D"]
          by (auto simp: Let_def strip_def)
      next
        case (Cons c2 cs2)
        show ?thesis
        proof (cases "valid ?u c2")
          case False
          then have "b64_spec ?u ?p (c0 # c1 # c2 # cs2) = Inl DataFormatException" by (cases cs2) auto
          then show ?thesis unfolding rd s using c Cons readPad_eq(2)[of ?u i1 c2 cs2 ?p] False by simp
        next
          case v2: True
          then obtain i2 where i2: "b64_readPad ?u ?p i1 = Inr (c2, i2)" "strip ?u i2 = cs2"
            using readPad_eq(3)[of ?u i1 c2 cs2 ?p] c Cons by auto
          show ?thesis
          proof (cases cs2)
            case Nil
            then show ?thesis unfolding rd s using c i2 Cons True v2 readPad_eq(1)[of ?u i2 ?p] gr[of c2 "0x3D"]
              by (auto simp: Let_def strip_def)
          next
            case c3: (Cons c3 cs3)
            show ?thesis
            proof (cases "valid ?u c3")
              case False
              then show ?thesis unfolding rd s using c i2 Cons c3 readPad_eq(2)[of ?u i2 c3 cs3 ?p] by simp
            next
              case v3: True
              then obtain i3 where i3: "b64_readPad ?u ?p i2 = Inr (c3, i3)" "strip ?u i3 = cs3"
                using readPad_eq(3)[of ?u i2 c3 cs3 ?p] i2 c3 by auto
              then show ?thesis unfolding rd s using c i2 Cons c3 True v2 v3 gr[of c2 c3]
                by (simp add: Let_def)
            qed
          qed
        qed
      qed
    qed
  qed
qed

lemma b64_decode_spec:
  "d_groupLength d \<le> length (d_group d) \<Longrightarrow>
    b64_decode_all d = rbind (b64_spec (d_url d) (d_nopad d) (strip (d_url d) (d_inp d)))
      (\<lambda>xs. Inr (drop (d_groupIndex d) (take (d_groupLength d) (d_group d)) @ xs))"
proof (induction d rule: b64_decode_all.induct)
  case (1 d)
  show ?case
  proof (cases "d_groupIndex d < d_groupLength d")
    case True
    let ?d = "d\<lparr>d_groupIndex := d_groupIndex d + 1\<rparr>"
    have r: "b64_readFromDevice d = Inr (Some (d_group d ! d_groupIndex d), ?d)"
      using True by (simp add: b64_readFromDevice_def)
    have dr: "drop (d_groupIndex d) (take (d_groupLength d) (d_group d)) =
        d_group d ! d_groupIndex d # drop (d_groupIndex d + 1) (take (d_groupLength d) (d_group d))"
      using True 1(2) by (subst Cons_nth_drop_Suc[symmetric]) auto
    show ?thesis unfolding b64_decode_all.simps[of d] r dr
      using 1(1)[OF r refl refl] 1(2) by (simp add: rbind_assoc)
  next
    case False
    note f = b64_refill[OF False]
    show ?thesis
    proof (cases "b64_readFromDevice d")
      case (Inl e) then show ?thesis using f by (simp add: b64_decode_all.simps[of d])
    next
      case (Inr p)
      obtain q d' where p: "p = (q, d')" by (cases p)
      show ?thesis
      proof (cases q)
        case None then show ?thesis using f Inr p False by (simp add: b64_decode_all.simps[of d])
      next
        case (Some x)
        then have r: "b64_readFromDevice d = Inr (Some x, d')" using Inr p by simp
        then have g: "d_url d' = d_url d" "d_nopad d' = d_nopad d" "d_groupLength d' \<le> length (d_group d')"
          "b64_spec (d_url d) (d_nopad d) (strip (d_url d) (d_inp d)) =
            rbind (b64_spec (d_url d) (d_nopad d) (strip (d_url d) (d_inp d')))
              (\<lambda>xs. Inr (x # drop (d_groupIndex d') (take (d_groupLength d') (d_group d')) @ xs))"
          using f by auto
        show ?thesis unfolding b64_decode_all.simps[of d] r g(4)
          using 1(1)[OF r refl refl g(3)] False g(1,2) by (simp add: rbind_assoc)
      qed
    qed
  qed
qed

lemma b64_decode_new: "b64_decode_all (b64dec_new url nopad inp) = b64_spec url nopad (strip url inp)"
  using b64_decode_spec[of "b64dec_new url nopad inp"] by (simp add: b64dec_new_def)

section \<open>The alphabets\<close>

lemma b64_alphabet_std:
  "list_all (\<lambda>i. let c = b64_out False ! i in b64_in False ! unat c = of_nat i \<and> \<not> is_ws c \<and> c \<noteq> 0x3D) [0..<64]"
  by code_simp

lemma b64_alphabet_url:
  "list_all (\<lambda>i. let c = b64_out True ! i in b64_in True ! unat c = of_nat i \<and> \<not> is_ws c \<and> c \<noteq> 0x3D) [0..<64]"
  by code_simp

lemma b64_symbol:
  assumes "unat i < 64"
  shows "b64_in url ! unat (b64_out url ! unat i) = i" "valid url (b64_out url ! unat i)"
    "\<not> is_ws (b64_out url ! unat i)" "b64_out url ! unat i \<noteq> 0x3D"
proof -
  have "list_all P [0..<64] \<Longrightarrow> P (unat i)" for P using assms by (simp add: list_all_iff)
  from this[OF b64_alphabet_std] this[OF b64_alphabet_url]
  have "let c = b64_out url ! unat i in b64_in url ! unat c = of_nat (unat i) \<and> \<not> is_ws c \<and> c \<noteq> 0x3D"
    by (cases url) simp_all
  then show s: "b64_in url ! unat (b64_out url ! unat i) = i" "\<not> is_ws (b64_out url ! unat i)" "b64_out url ! unat i \<noteq> 0x3D"
    by (simp_all add: Let_def)
  have "i \<noteq> 0xFF" using assms by auto
  then show "valid url (b64_out url ! unat i)" by (simp add: valid_def s)
qed

lemma take_bit6_bound: "take_bit 6 (w :: u8) = w \<Longrightarrow> unat w < 64"
proof -
  assume w: "take_bit 6 w = w"
  have "unat w = take_bit 6 (unat w)" using unsigned_take_bit_eq[of 6 w] w by metis
  then show "unat w < 64" using take_bit_nat_less_exp[of 6 "unat w"] by simp
qed

lemma b64_masks: "(0x03 :: u8) = mask 2" "(0x0F :: u8) = mask 4" "(0x3F :: u8) = mask 6"
  by (simp_all add: mask_eq_exp_minus_1)

lemmas b64_bit_simps = b64_idx0_def b64_idx1_def b64_idx2_def b64_idx3_def b64_masks bit_simps

lemma b64_idx_bounds:
  "unat (b64_idx0 a) < 64" "unat (b64_idx1 a b) < 64" "unat (b64_idx2 b c) < 64" "unat (b64_idx3 c) < 64"
  by (rule take_bit6_bound, rule bit_word_eqI, auto simp: b64_bit_simps dest: bit_imp_le_length)+

lemma bit8_eqI:
  fixes v w :: u8
  assumes "bit v 0 = bit w 0" "bit v 1 = bit w 1" "bit v 2 = bit w 2" "bit v 3 = bit w 3"
    "bit v 4 = bit w 4" "bit v 5 = bit w 5" "bit v 6 = bit w 6" "bit v 7 = bit w 7"
  shows "v = w"
proof (rule bit_word_eqI)
  fix n assume "n < LENGTH(8)"
  then have "n \<in> {0, 1, 2, 3, 4, 5, 6, 7}" by auto
  then show "bit v n = bit w n" using assms by auto
qed

lemma b64_group_bits:
  "push_bit 2 (b64_idx0 a) OR drop_bit 4 (b64_idx1 a b) = a"
  "push_bit 4 (b64_idx1 a b AND 0x0F) OR drop_bit 2 (b64_idx2 b c) = b"
  "push_bit 6 (b64_idx2 b c) OR b64_idx3 c = c"
  by (rule bit8_eqI; simp add: b64_bit_simps)+

section \<open>The Base64 encoder as a function of its input\<close>

definition quad :: "bool \<Rightarrow> u8 \<Rightarrow> u8 \<Rightarrow> u8 \<Rightarrow> u8 list" where
  "quad url a b c = [b64_out url ! unat (b64_idx0 a), b64_out url ! unat (b64_idx1 a b),
     b64_out url ! unat (b64_idx2 b c), b64_out url ! unat (b64_idx3 c)]"

fun b64_body :: "bool \<Rightarrow> int \<Rightarrow> int \<Rightarrow> u8 list \<Rightarrow> u8 list" where
  "b64_body url L p (a # b # c # r) =
    quad url a b c @ (if L > 0 \<and> p + 4 \<ge> L then [0x0D, 0x0A] @ b64_body url L 0 r else b64_body url L (p + 4) r)"
| "b64_body url L p _ = []"

fun rest3 :: "'a list \<Rightarrow> 'a list" where
  "rest3 (a # b # c # r) = rest3 r"
| "rest3 r = r"

definition b64_tail :: "bool \<Rightarrow> bool \<Rightarrow> u8 list \<Rightarrow> u8 list" where
  "b64_tail url nopad g =
    (case g of
       [a] \<Rightarrow> take 2 (quad url a 0 0) @ (if nopad then [] else [0x3D, 0x3D])
     | [a, b] \<Rightarrow> take 3 (quad url a b 0) @ (if nopad then [] else [0x3D])
     | _ \<Rightarrow> [])"

lemma sputs_unlimited: "room s = None \<Longrightarrow> sputs cs s = (True, s\<lparr>written := written s @ cs\<rparr>)"
  by (induction cs arbitrary: s) (auto simp: sputc_def)

declare sputs.simps [simp del]

lemma b64_write3:
  assumes "room (b_sink e) = None" "b_group e = []"
  shows "b64_put (a # b # c # r) e =
    (let s = (b_sink e)\<lparr>written := written (b_sink e) @ quad (b_url e) a b c\<rparr> in
     b64_put r (if b_lineLength e > 0 \<and> b_pos e + 4 \<ge> b_lineLength e
       then e\<lparr>b_sink := s\<lparr>written := written s @ [0x0D, 0x0A]\<rparr>, b_pos := 0\<rparr>
       else e\<lparr>b_sink := s, b_pos := b_pos e + 4\<rparr>))"
  using assms by (cases e) (simp add: b64_writeToDevice_def sputs_unlimited quad_def Let_def)

lemma b64_put_eq:
  assumes "room (b_sink e) = None" "b_group e = []"
  shows "\<exists>p. b64_put bs e = Ret (True, e\<lparr>b_group := rest3 bs, b_pos := p,
    b_sink := (b_sink e)\<lparr>written := written (b_sink e) @ b64_body (b_url e) (b_lineLength e) (b_pos e) bs\<rparr>\<rparr>)"
  using assms
proof (induction "b_url e" "b_lineLength e" "b_pos e" bs arbitrary: e rule: b64_body.induct[case_names three none one two])
  case (three a b c r)
  let ?s = "(b_sink e)\<lparr>written := written (b_sink e) @ quad (b_url e) a b c\<rparr>"
  show ?case
  proof (cases "b_lineLength e > 0 \<and> b_pos e + 4 \<ge> b_lineLength e")
    case True
    let ?e = "e\<lparr>b_sink := ?s\<lparr>written := written ?s @ [0x0D, 0x0A]\<rparr>, b_pos := 0\<rparr>"
    have "\<exists>p. b64_put r ?e = Ret (True, ?e\<lparr>b_group := rest3 r, b_pos := p,
        b_sink := (b_sink ?e)\<lparr>written := written (b_sink ?e) @ b64_body (b_url ?e) (b_lineLength ?e) (b_pos ?e) r\<rparr>\<rparr>)"
      using True three(3,4) by (intro three(1)) auto
    then show ?thesis using True b64_write3[OF three(3,4), of a b c r] by (simp add: Let_def)
  next
    case False
    let ?e = "e\<lparr>b_sink := ?s, b_pos := b_pos e + 4\<rparr>"
    have "\<exists>p. b64_put r ?e = Ret (True, ?e\<lparr>b_group := rest3 r, b_pos := p,
        b_sink := (b_sink ?e)\<lparr>written := written (b_sink ?e) @ b64_body (b_url ?e) (b_lineLength ?e) (b_pos ?e) r\<rparr>\<rparr>)"
      using False three(3,4) by (intro three(2)) auto
    then show ?thesis using False b64_write3[OF three(3,4), of a b c r] by (auto simp: Let_def)
  qed
next
  case (none e)
  then show ?case by (cases e) (simp add: exI)
next
  case (one v e)
  then show ?case by (cases e) (simp add: b64_writeToDevice_def Let_def)
next
  case (two v vb e)
  then show ?case by (cases e) (simp add: b64_writeToDevice_def Let_def)
qed

lemma b64_close_eq:
  assumes "room (b_sink e) = None" "length (b_group e) < 3"
  shows "\<exists>e'. b64_close e = (True, e') \<and>
    written (b_sink e') = written (b_sink e) @ b64_tail (b_url e) (b_nopad e) (b_group e)"
proof -
  have "length (b_group e) = 0 \<or> length (b_group e) = 1 \<or> length (b_group e) = 2" using assms(2) by linarith
  then show ?thesis using assms(1)
    by (auto simp: b64_close_def Let_def sputs_unlimited b64_tail_def quad_def length_Suc_conv numeral_2_eq_2)
qed

text \<open>
  Encoding a whole input into an unbounded sink: every byte is written, then the stream is closed.
  \<open>None\<close> would be an operation that fails.
\<close>

definition b64_encode :: "bool \<Rightarrow> bool \<Rightarrow> int \<Rightarrow> u8 list \<Rightarrow> u8 list option" where
  "b64_encode url nopad lineLength bs =
    (case b64_put bs (b64_setLineLength lineLength (b64enc_new url nopad \<lparr>written = [], room = None\<rparr>)) of
       Ret (True, e) \<Rightarrow> (case b64_close e of (True, e') \<Rightarrow> Some (written (b_sink e')) | (False, _) \<Rightarrow> None)
     | _ \<Rightarrow> None)"

lemma rest3_length: "length (rest3 bs) < 3"
  by (induction bs rule: rest3.induct) auto

lemma b64_encode_eq: "b64_encode url nopad L bs = Some (b64_body url L 0 bs @ b64_tail url nopad (rest3 bs))"
proof -
  let ?e = "b64_setLineLength L (b64enc_new url nopad \<lparr>written = [], room = None\<rparr>)"
  have e: "room (b_sink ?e) = None" "b_group ?e = []" by (simp_all add: b64_setLineLength_def b64enc_new_def)
  obtain p where p: "b64_put bs ?e = Ret (True, ?e\<lparr>b_group := rest3 bs, b_pos := p,
      b_sink := (b_sink ?e)\<lparr>written := written (b_sink ?e) @ b64_body (b_url ?e) (b_lineLength ?e) (b_pos ?e) bs\<rparr>\<rparr>)"
    using b64_put_eq[OF e] by blast
  let ?f = "?e\<lparr>b_group := rest3 bs, b_pos := p,
      b_sink := (b_sink ?e)\<lparr>written := written (b_sink ?e) @ b64_body (b_url ?e) (b_lineLength ?e) (b_pos ?e) bs\<rparr>\<rparr>"
  obtain e' where c: "b64_close ?f = (True, e')"
      "written (b_sink e') = written (b_sink ?f) @ b64_tail (b_url ?f) (b_nopad ?f) (b_group ?f)"
    using b64_close_eq[of ?f] e rest3_length[of bs] by auto
  have "written (b_sink e') = b64_body url L 0 bs @ b64_tail url nopad (rest3 bs)"
    unfolding c(2) by (simp add: b64_setLineLength_def b64enc_new_def)
  then show ?thesis unfolding b64_encode_def p using c(1) by simp
qed

fun b64_raw :: "bool \<Rightarrow> u8 list \<Rightarrow> u8 list" where
  "b64_raw url (a # b # c # r) = quad url a b c @ b64_raw url r"
| "b64_raw url _ = []"

lemma quad_strip: "list_all (\<lambda>c. \<not> is_ws c) (quad url a b c)"
  using b64_idx_bounds(1)[of a] b64_idx_bounds(2)[of a b] b64_idx_bounds(3)[of b c] b64_idx_bounds(4)[of c]
  by (simp add: quad_def b64_symbol(3))

lemma strip_append: "strip url (xs @ ys) = strip url xs @ strip url ys"
  by (simp add: strip_def)

lemma strip_id: "list_all (\<lambda>c. \<not> is_ws c) xs \<Longrightarrow> strip url xs = xs"
  by (simp add: strip_def list_all_iff filter_id_conv)

lemma strip_body: "\<not> url \<or> L \<le> 0 \<Longrightarrow> strip url (b64_body url L p bs) = b64_raw url bs"
proof (induction url L p bs rule: b64_body.induct)
  case (1 url L p a b c r)
  have s: "L > 0 \<Longrightarrow> strip url (0x0D # 0x0A # xs) = strip url xs" for xs using 1(3) by (simp add: strip_def is_ws_def)
  show ?case
    using 1(1)[OF _ 1(3)] 1(2)[OF _ 1(3)] strip_id[OF quad_strip[of url a b c]] by (auto simp: strip_append s)
qed (simp_all add: strip_def)

lemma strip_tail: "strip url (b64_tail url nopad g) = b64_tail url nopad g"
proof (rule strip_id)
  have "list_all (\<lambda>c. \<not> is_ws c) (take n (quad url a b c))" for n a b c
    using quad_strip[of url a b c] by (meson list_all_iff in_set_takeD)
  then show "list_all (\<lambda>c. \<not> is_ws c) (b64_tail url nopad g)"
    by (auto simp: b64_tail_def is_ws_def split: list.splits)
qed

section \<open>Base64: correctness\<close>

lemma quad_nth:
  "quad url a b c ! 0 = b64_out url ! unat (b64_idx0 a)" "quad url a b c ! 1 = b64_out url ! unat (b64_idx1 a b)"
  "quad url a b c ! 2 = b64_out url ! unat (b64_idx2 b c)" "quad url a b c ! 3 = b64_out url ! unat (b64_idx3 c)"
  by (simp_all add: quad_def)

lemma quad_value:
  "b64_in url ! unat (quad url a b c ! 0) = b64_idx0 a" "b64_in url ! unat (quad url a b c ! 1) = b64_idx1 a b"
  "b64_in url ! unat (quad url a b c ! 2) = b64_idx2 b c" "b64_in url ! unat (quad url a b c ! 3) = b64_idx3 c"
  "quad url a b c ! 2 \<noteq> 0x3D" "quad url a b c ! 3 \<noteq> 0x3D"
  unfolding quad_nth using b64_symbol(1,4) b64_idx_bounds by blast+

lemma grp_quad: "grp url (quad url a b c ! 0) (quad url a b c ! 1) (quad url a b c ! 2) (quad url a b c ! 3) = [a, b, c]"
proof -
  have "b64_group url (quad url a b c ! 0) (quad url a b c ! 1) (quad url a b c ! 2) (quad url a b c ! 3) = [a, b, c]"
    unfolding b64_group_def Let_def quad_value b64_group_bits by (rule refl)
  then show ?thesis unfolding grp_def using quad_value(5,6)[of url a b c] by simp
qed

lemma grp_two: "grp url (quad url a b 0 ! 0) (quad url a b 0 ! 1) (quad url a b 0 ! 2) 0x3D = [a, b]"
proof -
  have "\<exists>z. b64_group url (quad url a b 0 ! 0) (quad url a b 0 ! 1) (quad url a b 0 ! 2) 0x3D = [a, b, z]"
    unfolding b64_group_def Let_def quad_value b64_group_bits by blast
  then show ?thesis unfolding grp_def using quad_value(5)[of url a b 0] by auto
qed

lemma grp_one: "grp url (quad url a 0 0 ! 0) (quad url a 0 0 ! 1) 0x3D 0x3D = [a]"
proof -
  have "\<exists>y z. b64_group url (quad url a 0 0 ! 0) (quad url a 0 0 ! 1) 0x3D 0x3D = [a, y, z]"
    unfolding b64_group_def Let_def quad_value b64_group_bits by blast
  then show ?thesis unfolding grp_def by auto
qed

lemma quad_valid_nth: "valid url (quad url a b c ! 0)" "valid url (quad url a b c ! 1)"
    "valid url (quad url a b c ! 2)" "valid url (quad url a b c ! 3)"
  unfolding quad_nth using b64_symbol(2) b64_idx_bounds by blast+

lemma quad_append: "quad url a b c @ t = quad url a b c ! 0 # quad url a b c ! 1 # quad url a b c ! 2 # quad url a b c ! 3 # t"
  by (simp add: quad_def)

lemma b64_spec_raw: "b64_spec url nopad (b64_raw url bs @ b64_tail url nopad (rest3 bs)) = Inr bs"
proof (induction url bs rule: b64_raw.induct[case_names three none one two])
  case (three url a b c r)
  have "b64_spec url nopad (quad url a b c @ t) = rbind (b64_spec url nopad t) (\<lambda>xs. Inr ([a, b, c] @ xs))" for t
    unfolding quad_append b64_spec.simps(1) grp_quad using quad_valid_nth[of url a b c] by simp
  then show ?case using three by simp
next
  case (one url v)
  have t: "take 2 (quad url v 0 0) = [quad url v 0 0 ! 0, quad url v 0 0 ! 1]" by (simp add: quad_def)
  show ?case using quad_valid_nth[of url v 0 0] grp_one[of url v] valid_pad[of url] by (simp add: b64_tail_def t)
next
  case (two url v w)
  have t: "take 3 (quad url v w 0) = [quad url v w 0 ! 0, quad url v w 0 ! 1, quad url v w 0 ! 2]" by (simp add: quad_def)
  show ?case using quad_valid_nth[of url v w 0] grp_two[of url v w] valid_pad[of url] by (simp add: b64_tail_def t)
qed (simp add: b64_tail_def)

text \<open>
  C15.  Base64 round trip, for every input and padding option: in the standard alphabet with every line length, and in the URL
  alphabet without line breaks (its decoder does not skip them), encoding succeeds, and decoding what was written with the same
  options returns the input.
\<close>

theorem base64_roundtrip:
  assumes "\<not> url \<or> lineLength \<le> 0"
  shows "\<exists>txt. b64_encode url nopad lineLength bs = Some txt \<and> b64_decode_all (b64dec_new url nopad txt) = Inr bs"
  unfolding b64_encode_eq b64_decode_new
  using b64_spec_raw[of url nopad bs] by (simp add: strip_append strip_body[OF assms] strip_tail)

theorem base64_roundtrip_witness:
  "\<exists>txt. b64_encode False False 72 [0x66, 0x6F, 0x6F, 0x62] = Some txt \<and>
     b64_decode_all (b64dec_new False False txt) = Inr [0x66, 0x6F, 0x6F, 0x62]"
  by (rule base64_roundtrip) simp

text \<open>The reference is RFC 4648: three bytes form a number of 24 bits, written in base 64.\<close>

definition digits64 :: "bool \<Rightarrow> nat \<Rightarrow> u8 list" where
  "digits64 url n = map (\<lambda>k. b64_out url ! (n div 64 ^ k mod 64)) [3, 2, 1, 0]"

fun b64_rfc :: "bool \<Rightarrow> bool \<Rightarrow> u8 list \<Rightarrow> u8 list" where
  "b64_rfc url nopad (a # b # c # r) = digits64 url (unat a * 65536 + unat b * 256 + unat c) @ b64_rfc url nopad r"
| "b64_rfc url nopad [a, b] = take 3 (digits64 url (unat a * 65536 + unat b * 256)) @ (if nopad then [] else [0x3D])"
| "b64_rfc url nopad [a] = take 2 (digits64 url (unat a * 65536)) @ (if nopad then [] else [0x3D, 0x3D])"
| "b64_rfc url nopad [] = []"

lemma ubyte: "0 \<le> uint (a :: u8)" "uint a < 256"
  using uint_lt2p[of a] by simp_all

lemma b64_idx_uint:
  "uint (b64_idx0 a) = uint a div 4" "uint (b64_idx1 a b) = uint a mod 4 * 16 + uint b div 16"
  "uint (b64_idx2 b c) = uint b mod 16 * 4 + uint c div 64" "uint (b64_idx3 c) = uint c mod 64"
proof -
  have r: "uint x div 16 < 16" "uint x div 64 < 4" "0 \<le> uint x div 16" "0 \<le> uint x div 64" for x :: u8
    using ubyte[of x] by (simp_all add: pos_imp_zdiv_nonneg_iff)
  have m: "uint x mod 256 = uint x" for x :: u8 using ubyte[of x] by simp
  have "uint b div 16 OR push_bit 4 (uint a mod 4) = uint b div 16 + push_bit 4 (uint a mod 4)"
    using r[of b] by (intro or_push_bit) simp_all
  moreover have "uint a mod 4 * 16 < 256" by (simp add: mult.commute)
  ultimately show "uint (b64_idx1 a b) = uint a mod 4 * 16 + uint b div 16"
    unfolding b64_idx1_def unsigned_or_eq unsigned_push_bit_eq unsigned_and_eq unsigned_drop_bit_eq
    by (simp add: and_mask_int drop_bit_eq_div take_bit_eq_mod push_bit_eq_mult m or.commute[of _ "_ div _"])
  have "uint c div 64 OR push_bit 2 (uint b mod 16) = uint c div 64 + push_bit 2 (uint b mod 16)"
    using r[of c] by (intro or_push_bit) simp_all
  moreover have "uint b mod 16 * 4 < 256" by (simp add: mult.commute)
  ultimately show "uint (b64_idx2 b c) = uint b mod 16 * 4 + uint c div 64"
    unfolding b64_idx2_def unsigned_or_eq unsigned_push_bit_eq unsigned_and_eq unsigned_drop_bit_eq
    by (simp add: and_mask_int drop_bit_eq_div take_bit_eq_mod push_bit_eq_mult m or.commute[of _ "_ div _"])
  show "uint (b64_idx0 a) = uint a div 4" unfolding b64_idx0_def unsigned_drop_bit_eq by (simp add: drop_bit_eq_div take_bit_eq_mod m)
  show "uint (b64_idx3 c) = uint c mod 64" unfolding b64_idx3_def unsigned_and_eq by (simp add: and_mask_int)
qed

lemma base64_digits:
  assumes "x < 64" "y < 64" "z < 64" "w < (64 :: nat)"
  shows "digits64 url (((x * 64 + y) * 64 + z) * 64 + w) = [b64_out url ! x, b64_out url ! y, b64_out url ! z, b64_out url ! w]"
proof -
  let ?n = "((x * 64 + y) * 64 + z) * 64 + w"
  have d: "?n div 64 = (x * 64 + y) * 64 + z" "((x * 64 + y) * 64 + z) div 64 = x * 64 + y" "(x * 64 + y) div 64 = x"
    using assms by simp_all
  have p: "?n div 64 ^ 2 = x * 64 + y" "?n div 64 ^ 3 = x"
    unfolding power2_eq_square power3_eq_cube div_mult2_eq d by (rule refl)+
  have "x mod 64 = x" "(x * 64 + y) mod 64 = y" "((x * 64 + y) * 64 + z) mod 64 = z" "?n mod 64 = w"
    using assms by (simp_all only: mod_mult_self3 mod_less)
  then show ?thesis unfolding digits64_def list.map p using d(1) by (simp only: power_one_right power_0 div_by_1)
qed

lemma regroup24:
  "(a1 * 4 + a0) * 65536 + (b1 * 16 + b0) * 256 + (c1 * 64 + c0) =
   ((a1 * 64 + (a0 * 16 + b1)) * 64 + (b0 * 4 + c1)) * 64 + (c0 :: nat)"
  by (simp add: algebra_simps)

lemma quad_digits: "quad url a b c = digits64 url (unat a * 65536 + unat b * 256 + unat c)"
proof -
  let ?x = "unat a div 4" and ?y = "unat a mod 4 * 16 + unat b div 16" and ?z = "unat b mod 16 * 4 + unat c div 64" and ?w = "unat c mod 64"
  have u: "uint v = int (unat v)" for v :: u8 by simp
  have z: "int (unat v) div 4 = int (unat v div 4)" "int (unat v) div 16 = int (unat v div 16)" "int (unat v) div 64 = int (unat v div 64)"
    "int (unat v) mod 4 = int (unat v mod 4)" "int (unat v) mod 16 = int (unat v mod 16)" "int (unat v) mod 64 = int (unat v mod 64)" for v :: u8
    by (simp_all add: zdiv_int zmod_int)
  have i: "unat (b64_idx0 a) = ?x" "unat (b64_idx1 a b) = ?y" "unat (b64_idx2 b c) = ?z" "unat (b64_idx3 c) = ?w"
    using b64_idx_uint(1)[of a] b64_idx_uint(2)[of a b] b64_idx_uint(3)[of b c] b64_idx_uint(4)[of c] unfolding u z
    by linarith+
  have "unat a * 65536 + unat b * 256 + unat c = ((?x * 64 + ?y) * 64 + ?z) * 64 + ?w"
    using regroup24[of ?x "unat a mod 4" "unat b div 16" "unat b mod 16" "unat c div 64" ?w]
    unfolding div_mult_mod_eq .
  moreover have "?x < 64" "?y < 64" "?z < 64" "?w < 64"
    using b64_idx_bounds(1)[of a] b64_idx_bounds(2)[of a b] b64_idx_bounds(3)[of b c] b64_idx_bounds(4)[of c] unfolding i by auto
  ultimately show ?thesis using base64_digits by (simp only: quad_def i)
qed

lemma b64_raw_rfc: "b64_raw url bs @ b64_tail url nopad (rest3 bs) = b64_rfc url nopad bs"
proof (induction url bs rule: b64_raw.induct[case_names three none one two])
  case (three url a b c r) then show ?case by (simp add: quad_digits)
next
  case (one url v) then show ?case using quad_digits[of url v 0 0] by (simp add: b64_tail_def)
next
  case (two url v w) then show ?case using quad_digits[of url v w 0] by (simp add: b64_tail_def)
qed (simp add: b64_tail_def)

text \<open>
  The encoder writes the encoding of RFC 4648, in either alphabet, with or without padding;
  with a line length, the same characters and line breaks only.
\<close>

theorem base64_encode_rfc:
  "b64_encode url nopad 0 bs = Some (b64_rfc url nopad bs) \<and>
   (\<exists>txt. b64_encode False nopad lineLength bs = Some txt \<and> filter (\<lambda>c. \<not> is_ws c) txt = b64_rfc False nopad bs)"
proof -
  have "b64_body url 0 p bs = b64_raw url bs" for p by (induction url bs arbitrary: p rule: b64_raw.induct) auto
  then have "b64_encode url nopad 0 bs = Some (b64_rfc url nopad bs)" by (simp add: b64_encode_eq b64_raw_rfc)
  moreover have "strip False (b64_body False lineLength 0 bs @ b64_tail False nopad (rest3 bs)) = b64_rfc False nopad bs"
    by (simp add: strip_append strip_body strip_tail b64_raw_rfc)
  ultimately show ?thesis by (simp add: b64_encode_eq strip_def)
qed

section \<open>Base64: what is accepted\<close>

lemma b64_out_length: "length (b64_out url) = 64"
  by (simp add: b64_out_def OUT_ENCODING_def OUT_ENCODING_URL_def bytes_of_def)

lemma fold_update_other:
  "\<forall>k\<in>set ks. f k \<noteq> n \<Longrightarrow> fold (\<lambda>k t. t[f k := g k]) ks t ! n = t ! n"
  by (induction ks arbitrary: t) auto

lemma valid_iff: "valid url c \<longleftrightarrow> c \<in> set (0x3D # b64_out url)"
proof
  assume "c \<in> set (0x3D # b64_out url)"
  then consider "c = 0x3D" | i where "i < 64" "c = b64_out url ! i"
    using b64_out_length[of url] by (auto simp: in_set_conv_nth)
  then show "valid url c"
  proof cases
    case (2 i)
    then have "unat (of_nat i :: u8) = i" by (simp add: unat_of_nat)
    then show ?thesis using b64_symbol(2)[of "of_nat i" url] 2 by simp
  qed (simp add: valid_pad)
next
  assume v: "valid url c"
  show "c \<in> set (0x3D # b64_out url)"
  proof (rule ccontr)
    assume n: "c \<notin> set (0x3D # b64_out url)"
    have "unat (b64_out url ! k) \<noteq> unat c" if "k < 64" for k
      using n that nth_mem[of k "b64_out url"] b64_out_length[of url] by (metis list.set_intros(2) word_unat_eq_iff)
    then have "fold (\<lambda>i t. t[unat (b64_out url ! i) := of_nat i]) [0..<64] (replicate 256 0xFF) ! unat c = (0xFF :: u8)"
      using unsigned_less[of c, where 'a = nat] by (subst fold_update_other) auto
    moreover have "0x3D \<noteq> unat c" using n unat_3D by (metis list.set_intros(1) word_unat_eq_iff)
    ultimately show False using v by (simp add: valid_def b64_in_def)
  qed
qed

lemma b64_spec_accepts:
  "(\<exists>xs. b64_spec url nopad cs = Inr xs) \<longleftrightarrow> list_all (valid url) cs \<and> (nopad \<or> length cs mod 4 \<le> 1)"
proof (induction url nopad cs rule: b64_spec.induct)
  case (1 url nopad c0 c1 c2 c3 r)
  have "length (c0 # c1 # c2 # c3 # r) mod 4 = length r mod 4" by simp
  then show ?case using 1 by (auto simp: rbind_eq_Inr simp del: list.size)
qed auto

text \<open>
  The decoder accepts an input exactly if every character, white space apart, belongs to the
  alphabet or is the padding character, and, when padding is required, their number is 0 or 1 more
  than a multiple of four; all other input throws \<^verbatim>\<open>DataFormatException\<close>.  So a single character after
  the last group is dropped silently, and padding characters are taken anywhere in a group.
\<close>

theorem base64_decode_accepts:
  "(case b64_decode_all (b64dec_new url nopad inp) of
      Inr xs \<Rightarrow> list_all (\<lambda>c. c \<in> set (0x3D # b64_out url)) (strip url inp) \<and> (nopad \<or> length (strip url inp) mod 4 \<le> 1)
    | Inl e \<Rightarrow> e = DataFormatException \<and>
        \<not> (list_all (\<lambda>c. c \<in> set (0x3D # b64_out url)) (strip url inp) \<and> (nopad \<or> length (strip url inp) mod 4 \<le> 1))) \<and>
   b64_decode_all (b64dec_new False False (bytes_of ''QUJDQ'')) = Inr (bytes_of ''ABC'') \<and>
   b64_decode_all (b64dec_new False False (bytes_of ''==QQ'')) = Inr [0, 4, 16]"
proof -
  have v: "list_all (valid url) cs = list_all (\<lambda>c. c \<in> set (0x3D # b64_out url)) cs" for cs
    unfolding valid_iff ..
  have "b64_spec url nopad cs = Inl e \<Longrightarrow> e = DataFormatException" for cs e
    by (induction url nopad cs rule: b64_spec.induct) (auto simp: rbind_def split: if_splits sum.splits)
  moreover have "b64_decode_all (b64dec_new False False (bytes_of ''QUJDQ'')) = Inr (bytes_of ''ABC'')"
    "b64_decode_all (b64dec_new False False (bytes_of ''==QQ'')) = Inr [0, 4, 16]"
    unfolding b64_decode_new by code_simp+
  ultimately show ?thesis
    using b64_spec_accepts[of url nopad "strip url inp"] unfolding b64_decode_new v[symmetric] by (auto split: sum.splits)
qed

lemma b64_write_ret:
  assumes "length (b_group e) < 3"
  shows "\<exists>ok e'. b64_writeToDevice c e = Ret (ok, e') \<and> (if ok then length (b_group e') < 3 else length (b_group e') = 3)"
proof (cases "length (b_group e) = 2")
  case True
  let ?g = "b_group e @ [c]" and ?enc = "b64_out (b_url e)"
  let ?out = "[?enc ! unat (b64_idx0 (?g ! 0)), ?enc ! unat (b64_idx1 (?g ! 0) (?g ! 1)),
                     ?enc ! unat (b64_idx2 (?g ! 1) (?g ! 2)), ?enc ! unat (b64_idx3 (?g ! 2))]"
  obtain b s where s: "sputs ?out (b_sink e) = (b, s)" by (cases "sputs ?out (b_sink e)")
  obtain b2 s2 where s2: "sputs [0x0D, 0x0A] s = (b2, s2)" by (cases "sputs [0x0D, 0x0A] s")
  show ?thesis using True s s2 by (cases b; cases b2) (auto simp: b64_writeToDevice_def Let_def)
next
  case False
  then show ?thesis using assms by (auto simp: b64_writeToDevice_def Let_def)
qed

lemma b64_put_ret: "length (b_group e) < 3 \<Longrightarrow> b64_put bs e \<noteq> UB"
proof (induction bs arbitrary: e)
  case (Cons c bs)
  obtain ok e' where w: "b64_writeToDevice c e = Ret (ok, e')" "if ok then length (b_group e') < 3 else length (b_group e') = 3"
    using b64_write_ret[OF Cons.prems] by blast
  then show ?case using Cons.IH[of e'] by (cases ok) auto
qed simp

text \<open>
  A stream that stops at the first \<^verbatim>\<open>eof\<close> never makes the encoder store outside its group
  buffer, whatever the sink does.  But a failed \<^verbatim>\<open>writeToDevice\<close> leaves \<^verbatim>\<open>_groupLength\<close> at 3, so that the
  next byte written is stored outside \<^verbatim>\<open>_group\<close>.
\<close>

theorem base64_write_bounds:
  "b64_put bs (b64_setLineLength l (b64enc_new url nopad s)) \<noteq> UB \<and>
   (\<exists>e. b64_put [x, y, z] (b64enc_new url nopad \<lparr>written = [], room = Some 0\<rparr>) = Ret (False, e) \<and>
        b64_writeToDevice w e = UB)"
proof
  show "b64_put bs (b64_setLineLength l (b64enc_new url nopad s)) \<noteq> UB"
    by (rule b64_put_ret) (simp add: b64_setLineLength_def b64enc_new_def)
  show "\<exists>e. b64_put [x, y, z] (b64enc_new url nopad \<lparr>written = [], room = Some 0\<rparr>) = Ret (False, e) \<and>
        b64_writeToDevice w e = UB"
    by (auto simp: b64_writeToDevice_def b64enc_new_def Let_def sputs.simps sputc_def)
qed

section \<open>Hexadecimal text\<close>

lemma nibble_split: "unat (drop_bit 4 c AND 0xF) < 16" "unat (c AND 0xF) < 16"
    "push_bit 4 (drop_bit 4 c AND 0xF) OR (c AND 0xF) = (c :: u8)"
    "push_bit 4 (drop_bit 4 c AND 0xF) + (c AND 0xF) = (c :: u8)"
proof -
  have m: "(0xF :: u8) = mask 4" by (simp add: mask_eq_exp_minus_1)
  have "w AND 0xF = take_bit 4 w" for w :: u8 by (simp add: m take_bit_eq_mask)
  moreover have "unat (take_bit 4 w) < 16" for w :: u8
    using take_bit_nat_less_exp[of 4 "unat w"] by (simp add: unsigned_take_bit_eq)
  ultimately show "unat (drop_bit 4 c AND 0xF) < 16" "unat (c AND 0xF) < 16" by simp_all
  show o: "push_bit 4 (drop_bit 4 c AND 0xF) OR (c AND 0xF) = c"
    by (rule bit8_eqI; simp add: m bit_simps)
  have "\<not> bit (push_bit 4 (drop_bit 4 c AND 0xF)) n \<or> \<not> bit (c AND 0xF) n" for n
    by (auto simp: m bit_simps)
  then show "push_bit 4 (drop_bit 4 c AND 0xF) + (c AND 0xF) = c" using o by (simp add: disjunctive_add)
qed

lemma hex_digit_table:
  "list_all (\<lambda>i. hex_value (hex_digits ! i) = Inr (of_nat (i mod 16)) \<and> \<not> is_ws (hex_digits ! i)) [0..<32]"
  by code_simp

lemma hex_digit:
  assumes "unat i < 16" "up = 0 \<or> up = 16"
  shows "hex_value (hex_digits ! (up + unat i)) = Inr i" "\<not> is_ws (hex_digits ! (up + unat i))"
proof -
  have "up + unat i < 32" "(up + unat i) mod 16 = unat i" using assms by auto
  then show "hex_value (hex_digits ! (up + unat i)) = Inr i" "\<not> is_ws (hex_digits ! (up + unat i))"
    using hex_digit_table by (auto simp: list_all_iff)
qed

definition hex2 :: "nat \<Rightarrow> u8 \<Rightarrow> u8 list" where
  "hex2 up c = [hex_digits ! (up + unat (drop_bit 4 c AND 0xF)), hex_digits ! (up + unat (c AND 0xF))]"

fun hex_body :: "nat \<Rightarrow> int \<Rightarrow> int \<Rightarrow> u8 list \<Rightarrow> u8 list" where
  "hex_body up L p [] = []"
| "hex_body up L p (c # cs) =
    hex2 up c @ (if p + 2 \<ge> L \<and> L > 0 then 0x0A # hex_body up L 0 cs else hex_body up L (p + 2) cs)"

lemma hex_put_eq:
  "room (h_sink e) = None \<Longrightarrow> \<exists>e'. hex_put bs e = (True, e') \<and>
     written (h_sink e') = written (h_sink e) @ hex_body (h_uppercase e) (h_lineLength e) (h_pos e) bs"
proof (induction bs arbitrary: e)
  case (Cons c bs)
  let ?s = "(h_sink e)\<lparr>written := written (h_sink e) @ hex2 (h_uppercase e) c\<rparr>"
  let ?e = "if h_pos e + 2 \<ge> h_lineLength e \<and> h_lineLength e > 0
      then e\<lparr>h_sink := ?s\<lparr>written := written ?s @ [0x0A]\<rparr>, h_pos := 0\<rparr> else e\<lparr>h_sink := ?s, h_pos := h_pos e + 2\<rparr>"
  have w: "hex_writeToDevice c e = (True, ?e)"
    using Cons.prems by (simp add: hex_writeToDevice_def sputc_def hex2_def Let_def)
  have "room (h_sink ?e) = None" using Cons.prems by simp
  then obtain e' where e': "hex_put bs ?e = (True, e')"
      "written (h_sink e') = written (h_sink ?e) @ hex_body (h_uppercase ?e) (h_lineLength ?e) (h_pos ?e) bs"
    using Cons.IH[of ?e] by blast
  then show ?case using w by (auto split: if_splits)
qed simp

lemma hex_readOne_eq: "hex_readOne inp = b64_readOne False inp"
  by (simp add: hex_readOne_def b64_readOne_def)

lemma hex_read_decreases: "hex_readFromDevice inp = Inr (Some x, i) \<Longrightarrow> length i < length inp"
proof -
  assume a: "hex_readFromDevice inp = Inr (Some x, i)"
  obtain n j where n: "b64_readOne False inp = (Some n, j)" "length j < length inp"
    using a by (cases rule: readOne_cases[of False inp]) (auto simp: hex_readFromDevice_def hex_readOne_eq)
  then show "length i < length inp"
    using a by (cases rule: readOne_cases[of False j]) (auto simp: hex_readFromDevice_def hex_readOne_eq rbind_eq_Inr)
qed

function hex_decode_all :: "u8 list \<Rightarrow> u8 list result" where
  "hex_decode_all inp =
    (case hex_readFromDevice inp of
       Inl e \<Rightarrow> Inl e
     | Inr (None, i) \<Rightarrow> Inr []
     | Inr (Some x, i) \<Rightarrow> rbind (hex_decode_all i) (\<lambda>xs. Inr (x # xs)))"
  by pat_completeness auto
termination by (relation "measure length") (auto dest: hex_read_decreases)

declare hex_decode_all.simps [simp del]

fun hex_spec :: "u8 list \<Rightarrow> u8 list result" where
  "hex_spec (x # y # r) =
    rbind (hex_value x) (\<lambda>c. rbind (hex_value y) (\<lambda>v. rbind (hex_spec r) (\<lambda>xs. Inr ((push_bit 4 c OR v) # xs))))"
| "hex_spec [x] = Inl DataFormatException"
| "hex_spec [] = Inr []"

lemma hex_value_cases: obtains v where "hex_value n = Inr v" | "hex_value n = Inl DataFormatException"
  by (cases "hex_value n") (auto simp: hex_value_def split: if_splits)

lemma hex_decode_spec: "hex_decode_all inp = hex_spec (strip False inp)"
proof (induction inp rule: hex_decode_all.induct)
  case (1 inp)
  show ?case
  proof (cases rule: readOne_cases[of False inp])
    case 1 then show ?thesis by (simp add: hex_decode_all.simps[of inp] hex_readFromDevice_def hex_readOne_eq)
  next
    case (2 x xs i)
    note x = 2
    show ?thesis
    proof (cases rule: readOne_cases[of False i])
      case 1
      then show ?thesis using x
        by (cases rule: hex_value_cases[of x]) (simp_all add: hex_decode_all.simps[of inp] hex_readFromDevice_def hex_readOne_eq)
    next
      case (2 y ys j)
      have s: "strip False inp = x # y # ys" using x 2 by simp
      have rd: "hex_readFromDevice inp = rbind (hex_value x) (\<lambda>c. rbind (hex_value y) (\<lambda>v. Inr (Some (push_bit 4 c OR v), j)))"
        using x 2 by (simp add: hex_readFromDevice_def hex_readOne_eq)
      show ?thesis
      proof (cases rule: hex_value_cases[of x])
        case vx: (1 c)
        show ?thesis
        proof (cases rule: hex_value_cases[of y])
          case vy: (1 v)
          have r: "hex_readFromDevice inp = Inr (Some (push_bit 4 c OR v), j)" by (simp add: rd vx vy)
          show ?thesis unfolding hex_decode_all.simps[of inp] r s using "1.IH"[OF r refl refl] 2 vx vy by simp
        next
          case vy: 2
          then show ?thesis unfolding s hex_decode_all.simps[of inp] rd using vx by simp
        qed
      next
        case vx: 2
        then show ?thesis unfolding s hex_decode_all.simps[of inp] rd by simp
      qed
    qed
  qed
qed

lemma hex2_spec:
  assumes "up = 0 \<or> up = 16"
  shows "hex_spec (hex2 up c @ r) = rbind (hex_spec r) (\<lambda>xs. Inr (c # xs))"
  unfolding hex2_def append.simps hex_spec.simps hex_digit(1)[OF nibble_split(1) assms] hex_digit(1)[OF nibble_split(2) assms]
    rbind_simps nibble_split(3) ..

lemma hex2_strip: "up = 0 \<or> up = 16 \<Longrightarrow> strip False (hex2 up c) = hex2 up c"
  using hex_digit(2)[OF nibble_split(1)[of c], of up] hex_digit(2)[OF nibble_split(2)[of c], of up]
  by (intro strip_id) (auto simp: hex2_def)

lemma hex_body_spec: "up = 0 \<or> up = 16 \<Longrightarrow> hex_spec (strip False (hex_body up L p bs)) = Inr bs"
proof (induction bs arbitrary: p)
  case (Cons c bs)
  have "strip False (0x0A # xs) = strip False xs" for xs by (simp add: strip_def is_ws_def)
  then show ?case using Cons by (simp add: strip_append hex2_strip hex2_spec)
qed (simp add: strip_def)

lemma hex_encode_decode:
  "\<exists>e. hex_put bs (hex_setUppercase up (hex_setLineLength L (hexenc_new \<lparr>written = [], room = None\<rparr>))) = (True, e) \<and>
       hex_decode_all (written (h_sink e)) = Inr bs"
proof -
  let ?e = "hex_setUppercase up (hex_setLineLength L (hexenc_new \<lparr>written = [], room = None\<rparr>))"
  have r: "room (h_sink ?e) = None" "written (h_sink ?e) = []" "h_uppercase ?e = 0 \<or> h_uppercase ?e = 16"
    by (simp_all add: hex_setUppercase_def hex_setLineLength_def hexenc_new_def)
  show ?thesis using hex_put_eq[OF r(1), of bs] hex_body_spec[OF r(3)] by (auto simp: hex_decode_spec r(2))
qed

lemma dth_loop_eq:
  "length res < len \<Longrightarrow> even len \<Longrightarrow> even (length res) \<Longrightarrow> len \<le> length res + 2 * length bs \<Longrightarrow>
    dth_loop len bs res = res @ concat (map (hex2 0) (take ((len - length res) div 2) bs))"
proof (induction bs arbitrary: res)
  case (Cons b bs)
  let ?r = "res @ [hex_digits ! unat (drop_bit 4 b AND 0xF)] @ [hex_digits ! unat (b AND 0xF)]"
  have k: "(len - length res) div 2 = Suc ((len - length ?r) div 2)"
    using Cons.prems le_div_geq[of 2 "len - length res"] by (auto elim!: evenE)
  show ?case
  proof (cases "length ?r \<ge> len")
    case True
    then have "(len - length ?r) div 2 = 0" by simp
    then show ?thesis using True k by (simp add: Let_def hex2_def[of 0 b])
  next
    case False
    have "dth_loop len bs ?r = ?r @ concat (map (hex2 0) (take ((len - length ?r) div 2) bs))"
      using False Cons.prems by (intro Cons.IH) auto
    then show ?thesis using False k by (simp add: Let_def hex2_def[of 0 b])
  qed
qed simp

lemma dfh_hex2: "dfh_loop (hex2 0 b @ r) res = dfh_loop r (res @ [b])"
  unfolding hex2_def append.simps dfh_loop.simps hex_digit(1)[OF nibble_split(1) disjI1[OF refl]]
    hex_digit(1)[OF nibble_split(2) disjI1[OF refl]] rbind_simps nibble_split(4) ..

lemma dfh_concat: "dfh_loop (concat (map (hex2 0) bs)) res = Inr (res @ bs)"
  by (induction bs arbitrary: res) (simp_all add: dfh_hex2)

lemma hex2_concat_length: "length (concat (map (hex2 up) bs)) = 2 * length bs"
  by (induction bs) (simp_all add: hex2_def)

lemma digestToHex_eq:
  assumes "length bs < SIZE_MOD div 2" "n < SIZE_MOD div 2"
  shows "digestToHex bs n =
    (if n > length bs then Inl InvalidArgumentException
     else Inr (concat (map (hex2 0) (if n = 0 then bs else take n bs))))"
proof -
  define len where "len = (if n \<noteq> 0 then n * 2 else length bs * 2)"
  have "n * 2 < SIZE_MOD" using assms(2) by linarith
  then have m: "(n * 2) mod SIZE_MOD = n * 2" by simp
  have d: "digestToHex bs n = (if len > length bs * 2 then Inl InvalidArgumentException else Inr (dth_loop len bs []))"
    unfolding digestToHex_def Let_def m len_def by simp
  show ?thesis
  proof (cases "len = 0")
    case True
    then have "bs = []" "n = 0" by (auto simp: len_def split: if_splits)
    then show ?thesis using d True by simp
  next
    case False
    then have "len \<le> length bs * 2 \<Longrightarrow> dth_loop len bs [] = concat (map (hex2 0) (take (len div 2) bs))"
      using dth_loop_eq[of "[]" len bs] by (simp add: len_def)
    then show ?thesis unfolding d by (auto simp: len_def)
  qed
qed

lemma digestFromHex_concat: "digestFromHex (concat (map (hex2 0) bs)) = Inr bs"
  by (simp add: digestFromHex_def hex2_concat_length dfh_concat)

text \<open>
  Hexadecimal round trips.  Whatever the letter case and the line length, the hexBinary decoder
  returns what was written to the encoder.  \<^verbatim>\<open>digestFromHex\<close> inverts \<^verbatim>\<open>digestToHex\<close>; given a length, the
  text is that of the first bytes, and \<^verbatim>\<open>InvalidArgumentException\<close> is thrown if there are not that many
  (for sizes below half the range of \<^verbatim>\<open>std::size_t\<close>).
\<close>

theorem hex_roundtrip:
  assumes "length bs < SIZE_MOD div 2" "n < SIZE_MOD div 2"
  shows "(\<exists>e. hex_put bs (hex_setUppercase up (hex_setLineLength L (hexenc_new \<lparr>written = [], room = None\<rparr>))) = (True, e) \<and>
            hex_decode_all (written (h_sink e)) = Inr bs) \<and>
    rbind (digestToHex bs n) digestFromHex =
      (if n > length bs then Inl InvalidArgumentException else Inr (if n = 0 then bs else take n bs))"
  using hex_encode_decode[of bs up L] unfolding digestToHex_eq[OF assms] by (auto simp: digestFromHex_concat)

theorem hex_roundtrip_witness:
  "rbind (digestToHex [0xDE, 0xAD, 0xBE, 0xEF] 2) digestFromHex = Inr [0xDE, 0xAD]"
proof -
  have "length [0xDE, 0xAD, 0xBE, 0xEF :: u8] < SIZE_MOD div 2" "(2 :: nat) < SIZE_MOD div 2" by (simp_all add: SIZE_MOD_def)
  from conjunct2[OF hex_roundtrip[OF this]] show ?thesis by simp
qed

lemma cte_loop_eq: "length d1 = length d2 \<Longrightarrow> cte_loop res d1 d2 = 0 \<longleftrightarrow> res = 0 \<and> d1 = d2"
proof (induction d1 d2 arbitrary: res rule: list_induct2)
  case (Cons a d1 b d2)
  have "res OR (a XOR b) = 0 \<longleftrightarrow> res = 0 \<and> a = b"
    by (metis or_eq_0_iff xor_self_eq xor.assoc xor.left_neutral xor.right_neutral)
  then show ?case using Cons.IH by auto
qed simp

text \<open>\<^verbatim>\<open>constantTimeEquals\<close> is equality of digests.\<close>

theorem constantTimeEquals_correct: "constantTimeEquals d1 d2 = (d1 = d2)"
  using cte_loop_eq[of d1 d2 0] by (auto simp: constantTimeEquals_def)

section \<open>The decoders behind a stream\<close>

lemma delivers_decode:
  assumes "dec d = (case rd d of Inl e \<Rightarrow> Inl e | Inr (None, d') \<Rightarrow> Inr []
      | Inr (Some x, d') \<Rightarrow> rbind (dec d') (\<lambda>xs. Inr (x # xs)))" "dec d = Inr xs"
  shows "case xs of [] \<Rightarrow> \<exists>d'. rd d = Inr (None, d') | x # ys \<Rightarrow> \<exists>d'. rd d = Inr (Some x, d') \<and> dec d' = Inr ys"
proof (cases "rd d")
  case (Inr p)
  then obtain q d' where "rd d = Inr (q, d')" by (cases p) simp
  then show ?thesis using assms by (cases q; cases "dec d'") auto
qed (use assms in simp)

lemma b64_at_end:
  assumes "b64_readFromDevice d = Inr (None, d')"
  shows "b64_decode_all d' = Inr []"
proof -
  have i: "\<not> d_groupIndex d < d_groupLength d"
    using assms by (auto simp: b64_readFromDevice_def split: if_splits)
  have "d_groupIndex d' = d_groupIndex d \<and> d_groupLength d' = d_groupLength d \<and> d_inp d' = []"
  proof (cases rule: readOne_cases[of "d_url d" "d_inp d"])
    case 1 then show ?thesis using assms i by (auto simp: b64_readFromDevice_def)
  next
    case (2 c0 cs0 i0)
    then show ?thesis using assms i
      by (cases rule: readOne_cases[of "d_url d" i0])
        (auto simp: b64_readFromDevice_def rbind_eq_Inr Let_def split: if_splits)
  qed
  then have "b64_readFromDevice d' = Inr (None, d')"
    using i by (simp add: b64_readFromDevice_def b64_readOne_def)
  then show ?thesis by (simp add: b64_decode_all.simps)
qed

interpretation b64: byte_source b64_readFromDevice "\<lambda>d xs. b64_decode_all d = Inr xs"
proof
  fix d assume d: "b64_decode_all d = Inr []"
  then obtain d' where "b64_readFromDevice d = Inr (None, d')"
    using delivers_decode[of b64_decode_all d b64_readFromDevice, OF b64_decode_all.simps] by fastforce
  then show "\<exists>d'. b64_readFromDevice d = Inr (None, d') \<and> b64_decode_all d' = Inr []" using b64_at_end by blast
next
  fix d x xs assume "b64_decode_all d = Inr (x # xs)"
  then show "\<exists>d'. b64_readFromDevice d = Inr (Some x, d') \<and> b64_decode_all d' = Inr xs"
    using delivers_decode[of b64_decode_all d b64_readFromDevice, OF b64_decode_all.simps] by fastforce
qed

interpretation hexbin: byte_source hex_readFromDevice "\<lambda>inp xs. hex_decode_all inp = Inr xs"
proof
  fix d assume "hex_decode_all d = Inr []"
  then obtain d' where d: "hex_readFromDevice d = Inr (None, d')"
    using delivers_decode[of hex_decode_all d hex_readFromDevice, OF hex_decode_all.simps] by fastforce
  have "d' = []"
  proof (cases rule: readOne_cases[of False d])
    case 1 then show ?thesis using d by (simp add: hex_readFromDevice_def hex_readOne_eq)
  next
    case (2 c cs i)
    then show ?thesis using d
      by (cases rule: readOne_cases[of False i]) (auto simp: hex_readFromDevice_def hex_readOne_eq rbind_eq_Inr)
  qed
  then have "hex_decode_all d' = Inr []" by (simp add: hex_decode_spec strip_def)
  then show "\<exists>d'. hex_readFromDevice d = Inr (None, d') \<and> hex_decode_all d' = Inr []" using d by blast
next
  fix d x xs assume "hex_decode_all d = Inr (x # xs)"
  then show "\<exists>d'. hex_readFromDevice d = Inr (Some x, d') \<and> hex_decode_all d' = Inr xs"
    using delivers_decode[of hex_decode_all d hex_readFromDevice, OF hex_decode_all.simps] by fastforce
qed

text \<open>
  Reading encoded text through the decoders' stream buffers gives back the data: a bulk read
  returns the first bytes of the data (fewer only at its end), a peek returns the next byte and does
  not consume it, and a byte that was read and put back is read again.
\<close>

theorem decoder_stream:
  assumes "\<not> url \<or> lineLength \<le> 0" "b64_encode url nopad lineLength bs = Some txt"
  shows "\<exists>b. xsgetn b64_readFromDevice n (ubuf_new (b64dec_new url nopad txt)) = Inr (take n bs, b) \<and>
    (\<exists>b'. underflow b64_readFromDevice b = Inr (if n < length bs then Some (bs ! n) else None, b') \<and>
      (\<exists>b''. xsgetn b64_readFromDevice m b' = Inr (take m (drop n bs), b''))) \<and>
    (\<exists>b'. uflow b64_readFromDevice b = Inr (if n < length bs then Some (bs ! n) else None, b') \<and>
      (if n < length bs
       then \<exists>b''. xsgetn b64_readFromDevice m (snd (pbackfail (Some (bs ! n)) b')) = Inr (take m (drop n bs), b'') else True))"
proof -
  have "b64_decode_all (b64dec_new url nopad txt) = Inr bs"
    using b64_spec_raw[of url nopad bs] assms(2)
    by (auto simp: b64_encode_eq b64_decode_new strip_append strip_body[OF assms(1)] strip_tail)
  then obtain b where b: "xsgetn b64_readFromDevice n (ubuf_new (b64dec_new url nopad txt)) = Inr (take n bs, b)"
      "b64.holds b (drop n bs)"
    using b64.xsgetn_takes[OF b64.holds_new] by blast
  have p: "(case drop n bs of [] \<Rightarrow> None | x # _ \<Rightarrow> Some x) = (if n < length bs then Some (bs ! n) else None)"
    by (auto simp: Cons_nth_drop_Suc[symmetric])
  obtain b1 where b1: "underflow b64_readFromDevice b = Inr (if n < length bs then Some (bs ! n) else None, b1)" "b64.holds b1 (drop n bs)"
    using b64.underflow_peeks[OF b(2)] unfolding p by blast
  have u: "\<exists>b'. uflow b64_readFromDevice b = Inr (if n < length bs then Some (bs ! n) else None, b') \<and>
      (if n < length bs
       then \<exists>b''. xsgetn b64_readFromDevice m (snd (pbackfail (Some (bs ! n)) b')) = Inr (take m (drop n bs), b'') else True)"
  proof (cases "n < length bs")
    case True
    then have c: "drop n bs = bs ! n # drop (Suc n) bs" by (simp add: Cons_nth_drop_Suc)
    then obtain b2 where b2: "uflow b64_readFromDevice b = Inr (Some (bs ! n), b2)" "b64.holds b2 (drop (Suc n) bs)" "\<not> u_ispb b2"
      using b64.uflow_byte[of b "bs ! n" "drop (Suc n) bs"] b(2) by auto
    have "b64.holds (snd (pbackfail (Some (bs ! n)) b2)) (drop n bs)" unfolding c by (rule b64.putback[OF b2(2,3)])
    then show ?thesis using b2(1) True b64.xsgetn_takes by fastforce
  next
    case False
    then show ?thesis using b64.uflow_end[of b] b(2) by auto
  qed
  show ?thesis using b(1) b1 u b64.xsgetn_takes[OF b1(2)] by blast
qed

theorem decoder_stream_witness:
  "\<exists>txt b. b64_encode True True 0 [1, 2, 3, 4, 5] = Some txt \<and>
     xsgetn b64_readFromDevice 3 (ubuf_new (b64dec_new True True txt)) = Inr ([1, 2, 3], b)"
  using decoder_stream[of True 0 True "[1, 2, 3, 4, 5]" _ 3 0] by (auto simp: b64_encode_eq)
end
