(* ===== verification/Digest.thy ===== *)
theory Digest
  imports ByteOrd "HOL-Library.Monad_Syntax"
begin

text \<open>
  Message digests in general, and the engines that are built from any digest engine: \<^verbatim>\<open>HMACEngine\<close> and
  \<^verbatim>\<open>PBKDF2Engine\<close>.

  The first part is the shape the engines MD4, MD5 and SHA-1 share: the message is padded to a multiple
  of 64 bytes that ends with its length in bits, and its blocks are folded into a chaining value.  The
  second part is the interface of \<^verbatim>\<open>DigestEngine\<close> as a locale.  The template parameters of the two
  classes are arguments of their operations here; what is proved about the operations for every engine
  that keeps the contract applies to the engines of the theories that import this one.

  An operation of an engine is an option: \<open>None\<close> is a call that does not return.
\<close>

section \<open>Blocks and padding\<close>

function fold_blocks :: "nat \<Rightarrow> ('s \<Rightarrow> u8 list \<Rightarrow> 's) \<Rightarrow> 's \<Rightarrow> u8 list \<Rightarrow> 's" where
  "fold_blocks B f s m = (if 0 < B \<and> length m \<ge> B then fold_blocks B f (f s (take B m)) (drop B m) else s)"
  by pat_completeness auto
termination by (relation "measure (\<lambda>(B, f, s, m). length m)") auto

declare fold_blocks.simps [simp del]

definition block_rest :: "nat \<Rightarrow> u8 list \<Rightarrow> u8 list" where
  "block_rest B m = drop (B * (length m div B)) m"

lemma fold_blocks_short: "length m < B \<Longrightarrow> fold_blocks B f s m = s"
  by (simp add: fold_blocks.simps)

lemma fold_blocks_step: "length b = B \<Longrightarrow> 0 < B \<Longrightarrow> fold_blocks B f s (b @ m) = fold_blocks B f (f s b) m"
  by (subst fold_blocks.simps) simp

lemma block_rest_short: "length m < B \<Longrightarrow> block_rest B m = m"
  by (simp add: block_rest_def)

lemma block_rest_length: "length (block_rest B m) = length m mod B"
  by (simp add: block_rest_def minus_mult_div_eq_mod)

lemma block_rest_step: "length b = B \<Longrightarrow> 0 < B \<Longrightarrow> block_rest B (b @ m) = block_rest B m"
proof -
  assume b: "length b = B" "0 < B"
  have "(B + length m) div B = Suc (length m div B)" using b(2) div_add_self1[of B "length m"] by simp
  then show "block_rest B (b @ m) = block_rest B m" unfolding block_rest_def length_append b(1) by (simp add: b(1))
qed

text \<open>Absorbing a message in two parts.\<close>

lemma fold_blocks_aligned:
  "0 < B \<Longrightarrow> B dvd length k \<Longrightarrow>
    fold_blocks B f s (k @ m) = fold_blocks B f (fold_blocks B f s k) m \<and> block_rest B (k @ m) = block_rest B m"
proof (induction B f s k rule: fold_blocks.induct)
  case (1 B f s k)
  show ?case
  proof (cases "length k \<ge> B")
    case True
    then have k: "k = take B k @ drop B k" "length (take B k) = B" by simp_all
    have "B dvd length (drop B k)" using 1(3) True by simp
    then have IH: "fold_blocks B f (f s (take B k)) (drop B k @ m) = fold_blocks B f (fold_blocks B f (f s (take B k)) (drop B k)) m"
      "block_rest B (drop B k @ m) = block_rest B m" using 1(1)[OF conjI[OF 1(2) True]] 1(2) by simp_all
    have e: "k @ m = take B k @ (drop B k @ m)" using k(1) by (metis append.assoc)
    show ?thesis unfolding e fold_blocks_step[OF k(2) 1(2)] block_rest_step[OF k(2) 1(2)] IH
      using True 1(2) by (simp add: fold_blocks.simps[of B f s k])
  next
    case False
    then have "k = []" using 1(3) dvd_imp_le[of B "length k"] by (cases k) auto
    then show ?thesis using 1(2) by (simp add: fold_blocks_short)
  qed
qed

lemma fold_blocks_append:
  assumes "0 < B"
  shows "fold_blocks B f s (m @ x) = fold_blocks B f (fold_blocks B f s m) (block_rest B m @ x)"
    "block_rest B (m @ x) = block_rest B (block_rest B m @ x)"
proof -
  obtain k where k: "m = k @ block_rest B m" "B dvd length k"
    by (rule that[of "take (B * (length m div B)) m"]) (simp_all add: block_rest_def min_absorb2)
  have "fold_blocks B f s m = fold_blocks B f s k"
    using fold_blocks_aligned[OF assms k(2), of f s "block_rest B m"] k(1) fold_blocks_short[of "block_rest B m"] assms
    by (metis block_rest_length mod_less_divisor)
  then show "fold_blocks B f s (m @ x) = fold_blocks B f (fold_blocks B f s m) (block_rest B m @ x)"
    using fold_blocks_aligned[OF assms k(2), of f s "block_rest B m @ x"] k(1) by (metis append.assoc)
  show "block_rest B (m @ x) = block_rest B (block_rest B m @ x)"
    using fold_blocks_aligned[OF assms k(2), of f s "block_rest B m @ x"] k(1) by (metis append.assoc)
qed

text \<open>Blocks of 64 bytes.\<close>

abbreviation md_blocks :: "('s \<Rightarrow> u8 list \<Rightarrow> 's) \<Rightarrow> 's \<Rightarrow> u8 list \<Rightarrow> 's" where
  "md_blocks \<equiv> fold_blocks 64"

abbreviation md_rest :: "u8 list \<Rightarrow> u8 list" where
  "md_rest \<equiv> block_rest 64"

lemma md_rest_less: "length (md_rest m) < 64"
  by (simp add: block_rest_length)

lemma md_blocks_step: "length b = 64 \<Longrightarrow> md_blocks f s (b @ m) = md_blocks f (f s b) m"
  by (simp add: fold_blocks_step)

lemma md_rest_step: "length b = 64 \<Longrightarrow> md_rest (b @ m) = md_rest m"
  by (simp add: block_rest_step)

lemmas md_blocks_short = fold_blocks_short[of _ 64]
lemmas md_rest_short = block_rest_short[of _ 64]
lemmas md_rest_length = block_rest_length[of 64]
lemmas md_blocks_append = fold_blocks_append[of 64, simplified]
lemmas md_blocks_simps = fold_blocks.simps[of 64, simplified]

text \<open>
  Padding: the byte 80, zeros up to 56 modulo 64, and the length in bits as eight bytes; \<open>lenb\<close> is
  the byte order.
\<close>

definition md_zeros :: "nat \<Rightarrow> nat" where
  "md_zeros n = (119 - n mod 64) mod 64"

definition md_pad :: "(u64 \<Rightarrow> u8 list) \<Rightarrow> nat \<Rightarrow> u8 list" where
  "md_pad lenb n = 0x80 # replicate (md_zeros n) 0 @ lenb (of_nat (8 * n))"

definition md_hash :: "('s \<Rightarrow> u8 list \<Rightarrow> 's) \<Rightarrow> 's \<Rightarrow> (u64 \<Rightarrow> u8 list) \<Rightarrow> ('s \<Rightarrow> u8 list) \<Rightarrow> u8 list \<Rightarrow> u8 list" where
  "md_hash f h0 lenb out m = out (md_blocks f h0 (m @ md_pad lenb (length m)))"

lemma md_zeros_eq: "md_zeros n = (if n mod 64 < 56 then 55 - n mod 64 else 119 - n mod 64)"
proof -
  have "(119 - r) mod 64 = (if r < 56 then 55 - r else 119 - r)" if "r < 64" for r :: nat
  proof (cases "r < 56")
    case True
    then have "119 - r = 64 + (55 - r)" by simp
    then have "(119 - r) mod 64 = (55 - r) mod 64" by (simp only: mod_add_self1)
    then show ?thesis using True by simp
  qed (use that in simp)
  from this[of "n mod 64"] show ?thesis by (simp add: md_zeros_def)
qed

section \<open>The interface of DigestEngine\<close>

text \<open>The calls of a client that gives a message in pieces.\<close>

definition feed :: "(u8 list \<Rightarrow> 'e \<Rightarrow> 'e option) \<Rightarrow> u8 list list \<Rightarrow> 'e \<Rightarrow> 'e option" where
  "feed update xs e = fold (\<lambda>x e. Option.bind e (update x)) xs (Some e)"

lemma feed_simps: "feed update [] e = Some e" "feed update (x # xs) e = Option.bind (update x e) (feed update xs)"
proof -
  have "fold (\<lambda>x e. Option.bind e (update x)) xs None = None" for xs by (induction xs) simp_all
  then show "feed update [] e = Some e" "feed update (x # xs) e = Option.bind (update x e) (feed update xs)"
    by (simp_all add: feed_def) (cases "update x e"; simp add: feed_def)
qed

text \<open>
  \<open>absorbed e m\<close> says that the engine has taken in the message \<open>m\<close> since it was last reset.  Each
  operation keeps the contract as long as a single \<^verbatim>\<open>update\<close> has fewer than \<open>lim\<close> bytes.
\<close>

locale digest_engine =
  fixes fresh :: 'e
    and reset :: "'e \<Rightarrow> 'e option"
    and update :: "u8 list \<Rightarrow> 'e \<Rightarrow> 'e option"
    and digest :: "'e \<Rightarrow> (u8 list \<times> 'e) option"
    and absorbed :: "'e \<Rightarrow> u8 list \<Rightarrow> bool"
    and hash :: "u8 list \<Rightarrow> u8 list"
    and B L lim :: nat
  assumes fresh_ok: "absorbed fresh []"
    and reset_ok: "absorbed e m \<Longrightarrow> \<exists>e'. reset e = Some e' \<and> absorbed e' []"
    and update_ok: "absorbed e m \<Longrightarrow> length x < lim \<Longrightarrow> \<exists>e'. update x e = Some e' \<and> absorbed e' (m @ x)"
    and digest_ok: "absorbed e m \<Longrightarrow> \<exists>e'. digest e = Some (hash m, e') \<and> absorbed e' []"
    and hash_length: "length (hash m) = L"
    and sizes: "0 < L" "L \<le> B" "B < lim" "4 < lim"
begin

text \<open>A message may be given in any number of pieces.\<close>

lemma updates_ok:
  "absorbed e m \<Longrightarrow> list_all (\<lambda>x. length x < lim) xs \<Longrightarrow> \<exists>e'. feed update xs e = Some e' \<and> absorbed e' (m @ concat xs)"
proof (induction xs arbitrary: e m)
  case (Cons x xs)
  then obtain e' where "update x e = Some e'" "absorbed e' (m @ x)" using update_ok[of e m x] by auto
  then show ?case using Cons.IH[of e' "m @ x"] Cons.prems by (simp add: feed_simps)
qed (simp add: feed_simps)

lemma chunks_ok:
  "list_all (\<lambda>x. length x < lim) xs \<Longrightarrow>
    \<exists>e e'. feed update xs fresh = Some e \<and> digest e = Some (hash (concat xs), e') \<and> absorbed e' []"
  using updates_ok[OF fresh_ok, of xs] digest_ok by fastforce

end

text \<open>An engine made with a key, such as a MAC.\<close>

locale keyed_engine =
  fixes new :: "u8 list \<Rightarrow> 'e option"
    and reset :: "'e \<Rightarrow> 'e option"
    and update :: "u8 list \<Rightarrow> 'e \<Rightarrow> 'e option"
    and digest :: "'e \<Rightarrow> (u8 list \<times> 'e) option"
    and absorbed :: "u8 list \<Rightarrow> 'e \<Rightarrow> u8 list \<Rightarrow> bool"
    and mac :: "u8 list \<Rightarrow> u8 list \<Rightarrow> u8 list"
    and L lim :: nat
  assumes new_ok: "length k < lim \<Longrightarrow> \<exists>e. new k = Some e \<and> absorbed k e []"
    and reset_ok: "absorbed k e m \<Longrightarrow> \<exists>e'. reset e = Some e' \<and> absorbed k e' []"
    and update_ok: "absorbed k e m \<Longrightarrow> length x < lim \<Longrightarrow> \<exists>e'. update x e = Some e' \<and> absorbed k e' (m @ x)"
    and digest_ok: "absorbed k e m \<Longrightarrow> \<exists>e'. digest e = Some (mac k m, e') \<and> absorbed k e' []"
    and mac_length: "length (mac k m) = L"
    and sizes: "0 < L" "L < lim" "4 < lim"

section \<open>HMACEngine\<close>

record 'e hmac =
  m_engine :: 'e
  m_ipad :: "u8 list"
  m_opad :: "u8 list"

definition hmac_reset :: "('e \<Rightarrow> 'e option) \<Rightarrow> (u8 list \<Rightarrow> 'e \<Rightarrow> 'e option) \<Rightarrow> 'e hmac \<Rightarrow> 'e hmac option" where
  "hmac_reset reset update h =
    do { e \<leftarrow> reset (m_engine h);
         e \<leftarrow> update (m_ipad h) e;
         Some (h\<lparr>m_engine := e\<rparr>) }"

text \<open>\<^verbatim>\<open>init\<close>: the pads are arrays of zeros into which the key, or its digest, is copied.\<close>

definition hmac_pad :: "'e \<Rightarrow> ('e \<Rightarrow> 'e option) \<Rightarrow> (u8 list \<Rightarrow> 'e \<Rightarrow> 'e option) \<Rightarrow>
    ('e \<Rightarrow> (u8 list \<times> 'e) option) \<Rightarrow> nat \<Rightarrow> u8 list \<Rightarrow> ('e \<times> u8 list) option" where
  "hmac_pad fresh reset update digest B passphrase =
    (if length passphrase > B then
       do { e \<leftarrow> reset fresh;
            e \<leftarrow> update passphrase e;
            (d, e) \<leftarrow> digest e;
            Some (e, take B d @ drop (length (take B d)) (replicate B 0)) }
     else Some (fresh, passphrase @ drop (length passphrase) (replicate B 0)))"

definition hmac_init :: "'e \<Rightarrow> ('e \<Rightarrow> 'e option) \<Rightarrow> (u8 list \<Rightarrow> 'e \<Rightarrow> 'e option) \<Rightarrow>
    ('e \<Rightarrow> (u8 list \<times> 'e) option) \<Rightarrow> nat \<Rightarrow> u8 list \<Rightarrow> 'e hmac option" where
  "hmac_init fresh reset update digest B passphrase =
    do { (e, pad) \<leftarrow> hmac_pad fresh reset update digest B passphrase;
         hmac_reset reset update
           \<lparr>m_engine = e, m_ipad = map (\<lambda>b. b XOR 0x36) pad, m_opad = map (\<lambda>b. b XOR 0x5c) pad\<rparr> }"

definition hmac_updateImpl :: "(u8 list \<Rightarrow> 'e \<Rightarrow> 'e option) \<Rightarrow> u8 list \<Rightarrow> 'e hmac \<Rightarrow> 'e hmac option" where
  "hmac_updateImpl update data h =
    do { e \<leftarrow> update data (m_engine h);
         Some (h\<lparr>m_engine := e\<rparr>) }"

definition hmac_digest :: "('e \<Rightarrow> 'e option) \<Rightarrow> (u8 list \<Rightarrow> 'e \<Rightarrow> 'e option) \<Rightarrow> ('e \<Rightarrow> (u8 list \<times> 'e) option) \<Rightarrow>
    'e hmac \<Rightarrow> (u8 list \<times> 'e hmac) option" where
  "hmac_digest reset update digest h =
    do { (db, e) \<leftarrow> digest (m_engine h);
         e \<leftarrow> reset e;
         e \<leftarrow> update (m_opad h) e;
         e \<leftarrow> update db e;
         (result, e) \<leftarrow> digest e;
         h \<leftarrow> hmac_reset reset update (h\<lparr>m_engine := e\<rparr>);
         Some (result, h) }"

text \<open>RFC 2104.\<close>

definition hmac_key :: "(u8 list \<Rightarrow> u8 list) \<Rightarrow> nat \<Rightarrow> u8 list \<Rightarrow> u8 list" where
  "hmac_key H B k = (let k' = if length k > B then H k else k in k' @ replicate (B - length k') 0)"

definition rfc_hmac :: "(u8 list \<Rightarrow> u8 list) \<Rightarrow> nat \<Rightarrow> u8 list \<Rightarrow> u8 list \<Rightarrow> u8 list" where
  "rfc_hmac H B k m =
    H (map (\<lambda>b. b XOR 0x5c) (hmac_key H B k) @ H (map (\<lambda>b. b XOR 0x36) (hmac_key H B k) @ m))"

definition hmac_absorbed :: "('e \<Rightarrow> u8 list \<Rightarrow> bool) \<Rightarrow> (u8 list \<Rightarrow> u8 list) \<Rightarrow> nat \<Rightarrow> u8 list \<Rightarrow> 'e hmac \<Rightarrow> u8 list \<Rightarrow> bool" where
  "hmac_absorbed absorbed H B k h m \<longleftrightarrow>
    m_ipad h = map (\<lambda>b. b XOR 0x36) (hmac_key H B k) \<and> m_opad h = map (\<lambda>b. b XOR 0x5c) (hmac_key H B k) \<and>
    absorbed (m_engine h) (m_ipad h @ m)"

context digest_engine
begin

lemma hmac_key_length: "length (hmac_key hash B k) = B"
  using sizes by (simp add: hmac_key_def Let_def hash_length)

lemma hmac_reset_ok:
  assumes "absorbed (m_engine h) m" "m_ipad h = map (\<lambda>b. b XOR 0x36) (hmac_key hash B k)"
    "m_opad h = map (\<lambda>b. b XOR 0x5c) (hmac_key hash B k)"
  shows "\<exists>h'. hmac_reset reset update h = Some h' \<and> hmac_absorbed absorbed hash B k h' []"
proof -
  obtain e where e: "reset (m_engine h) = Some e" "absorbed e []" using reset_ok[OF assms(1)] by blast
  have "length (m_ipad h) < lim" using assms(2) sizes by (simp add: hmac_key_length)
  then obtain e' where "update (m_ipad h) e = Some e'" "absorbed e' (m_ipad h)" using update_ok[OF e(2)] by fastforce
  then show ?thesis using e(1) assms by (auto simp: hmac_reset_def hmac_absorbed_def)
qed

lemma hmac_pad_ok:
  assumes "length k < lim"
  shows "\<exists>e m. hmac_pad fresh reset update digest B k = Some (e, hmac_key hash B k) \<and> absorbed e m"
proof (cases "length k > B")
  case True
  obtain e1 where e1: "reset fresh = Some e1" "absorbed e1 []" using reset_ok[OF fresh_ok] by blast
  obtain e2 where e2: "update k e1 = Some e2" "absorbed e2 k" using update_ok[OF e1(2) assms] by auto
  obtain e3 where e3: "digest e2 = Some (hash k, e3)" "absorbed e3 []" using digest_ok[OF e2(2)] by blast
  have "take B (hash k) @ drop (length (take B (hash k))) (replicate B 0) = hmac_key hash B k"
    using True sizes by (simp add: hmac_key_def Let_def hash_length min_def)
  then have "hmac_pad fresh reset update digest B k = Some (e3, hmac_key hash B k)"
    using True e1 e2 e3 by (simp add: hmac_pad_def)
  then show ?thesis using e3(2) by blast
next
  case False
  then have "hmac_pad fresh reset update digest B k = Some (fresh, hmac_key hash B k)"
    by (simp add: hmac_pad_def hmac_key_def)
  then show ?thesis using fresh_ok by blast
qed

lemma hmac_init_ok:
  assumes "length k < lim"
  shows "\<exists>h. hmac_init fresh reset update digest B k = Some h \<and> hmac_absorbed absorbed hash B k h []"
proof -
  obtain e m where e: "hmac_pad fresh reset update digest B k = Some (e, hmac_key hash B k)" "absorbed e m"
    using hmac_pad_ok[OF assms] by blast
  then show ?thesis
    using hmac_reset_ok[of "\<lparr>m_engine = e, m_ipad = map (\<lambda>b. b XOR 0x36) (hmac_key hash B k),
      m_opad = map (\<lambda>b. b XOR 0x5c) (hmac_key hash B k)\<rparr>" m k] by (simp add: hmac_init_def)
qed

lemma hmac_update_ok:
  "hmac_absorbed absorbed hash B k h m \<Longrightarrow> length x < lim \<Longrightarrow>
    \<exists>h'. hmac_updateImpl update x h = Some h' \<and> hmac_absorbed absorbed hash B k h' (m @ x)"
  using update_ok[of "m_engine h" "m_ipad h @ m" x] by (auto simp: hmac_absorbed_def hmac_updateImpl_def)

lemma hmac_digest_ok:
  assumes "hmac_absorbed absorbed hash B k h m"
  shows "\<exists>h'. hmac_digest reset update digest h = Some (rfc_hmac hash B k m, h') \<and> hmac_absorbed absorbed hash B k h' []"
proof -
  let ?i = "map (\<lambda>b. b XOR 0x36) (hmac_key hash B k)" and ?o = "map (\<lambda>b. b XOR 0x5c) (hmac_key hash B k)"
  have h: "m_ipad h = ?i" "m_opad h = ?o" "absorbed (m_engine h) (?i @ m)" using assms by (auto simp: hmac_absorbed_def)
  obtain e1 where e1: "digest (m_engine h) = Some (hash (?i @ m), e1)" "absorbed e1 []" using digest_ok[OF h(3)] by blast
  obtain e2 where e2: "reset e1 = Some e2" "absorbed e2 []" using reset_ok[OF e1(2)] by blast
  obtain e3 where e3: "update ?o e2 = Some e3" "absorbed e3 ?o"
    using update_ok[OF e2(2), of ?o] sizes by (auto simp: hmac_key_length)
  obtain e4 where e4: "update (hash (?i @ m)) e3 = Some e4" "absorbed e4 (?o @ hash (?i @ m))"
    using update_ok[OF e3(2), of "hash (?i @ m)"] sizes by (auto simp: hash_length)
  obtain e5 where e5: "digest e4 = Some (hash (?o @ hash (?i @ m)), e5)" "absorbed e5 []" using digest_ok[OF e4(2)] by blast
  obtain h' where "hmac_reset reset update (h\<lparr>m_engine := e5\<rparr>) = Some h'" "hmac_absorbed absorbed hash B k h' []"
    using hmac_reset_ok[of "h\<lparr>m_engine := e5\<rparr>" "[]" k] e5(2) h by auto
  then show ?thesis using e1 e2 e3 e4 e5 h by (simp add: hmac_digest_def rfc_hmac_def)
qed

end

sublocale digest_engine \<subseteq> hmac: keyed_engine "hmac_init fresh reset update digest B" "hmac_reset reset update"
  "hmac_updateImpl update" "hmac_digest reset update digest" "hmac_absorbed absorbed hash B" "rfc_hmac hash B" L lim
proof
  show "\<exists>e'. hmac_reset reset update e = Some e' \<and> hmac_absorbed absorbed hash B k e' []"
    if "hmac_absorbed absorbed hash B k e m" for k e m
    using hmac_reset_ok[of e "m_ipad e @ m" k] that by (auto simp: hmac_absorbed_def)
  show "length (rfc_hmac hash B k m) = L" for k m by (simp add: rfc_hmac_def hash_length)
  show "0 < L" "L < lim" "4 < lim" using sizes by auto
qed (fact hmac_init_ok hmac_update_ok hmac_digest_ok)+

section \<open>PBKDF2Engine\<close>

record pbkdf2 =
  p_p :: "u8 list"
  p_s :: "u8 list"
  p_c :: nat
  p_dkLen :: nat
  p_result :: "u8 list"

definition pbkdf2_new :: "u8 list \<Rightarrow> nat \<Rightarrow> nat \<Rightarrow> pbkdf2" where
  "pbkdf2_new salt c dkLen = \<lparr>p_p = [], p_s = salt, p_c = c, p_dkLen = dkLen, p_result = []\<rparr>"

definition pbkdf2_reset :: "pbkdf2 \<Rightarrow> pbkdf2" where
  "pbkdf2_reset p = p\<lparr>p_p := [], p_result := []\<rparr>"

definition pbkdf2_updateImpl :: "u8 list \<Rightarrow> pbkdf2 \<Rightarrow> pbkdf2" where
  "pbkdf2_updateImpl data p = p\<lparr>p_p := p_p p @ data\<rparr>"

text \<open>The loop \<^verbatim>\<open>for (unsigned k = 1; k < _c; k++)\<close>, with the number of rounds left.\<close>

fun pbkdf2_rounds :: "('e \<Rightarrow> 'e option) \<Rightarrow> (u8 list \<Rightarrow> 'e \<Rightarrow> 'e option) \<Rightarrow> ('e \<Rightarrow> (u8 list \<times> 'e) option) \<Rightarrow>
    nat \<Rightarrow> 'e \<Rightarrow> u8 list \<Rightarrow> u8 list \<Rightarrow> u8 list option" where
  "pbkdf2_rounds reset update digest 0 prf up ux = Some ux"
| "pbkdf2_rounds reset update digest (Suc n) prf up ux =
    do { prf \<leftarrow> reset prf;
         prf \<leftarrow> update up prf;
         (u, prf) \<leftarrow> digest prf;
         pbkdf2_rounds reset update digest n prf u (map2 (\<lambda>a b. a XOR b) ux u) }"

definition pbkdf2_f :: "(u8 list \<Rightarrow> 'e option) \<Rightarrow> ('e \<Rightarrow> 'e option) \<Rightarrow> (u8 list \<Rightarrow> 'e \<Rightarrow> 'e option) \<Rightarrow>
    ('e \<Rightarrow> (u8 list \<times> 'e) option) \<Rightarrow> u32 \<Rightarrow> pbkdf2 \<Rightarrow> pbkdf2 option" where
  "pbkdf2_f new reset update digest i p =
    do { prf \<leftarrow> new (p_p p);
         prf \<leftarrow> update (p_s p) prf;
         prf \<leftarrow> update (bytes32 (toBigEndian32 i)) prf;
         (up, prf) \<leftarrow> digest prf;
         ux \<leftarrow> pbkdf2_rounds reset update digest (p_c p - 1) prf up up;
         Some (p\<lparr>p_result := p_result p @ ux\<rparr>) }"

partial_function (option) pbkdf2_loop :: "(u8 list \<Rightarrow> 'e option) \<Rightarrow> ('e \<Rightarrow> 'e option) \<Rightarrow> (u8 list \<Rightarrow> 'e \<Rightarrow> 'e option) \<Rightarrow>
    ('e \<Rightarrow> (u8 list \<times> 'e) option) \<Rightarrow> u32 \<Rightarrow> pbkdf2 \<Rightarrow> pbkdf2 option" where
  "pbkdf2_loop new reset update digest i p =
    (if length (p_result p) < p_dkLen p then
       case pbkdf2_f new reset update digest i p of
         None \<Rightarrow> None
       | Some p' \<Rightarrow> pbkdf2_loop new reset update digest (i + 1) p'
     else Some p)"

declare pbkdf2_loop.simps [code]

definition pbkdf2_digest :: "(u8 list \<Rightarrow> 'e option) \<Rightarrow> ('e \<Rightarrow> 'e option) \<Rightarrow> (u8 list \<Rightarrow> 'e \<Rightarrow> 'e option) \<Rightarrow>
    ('e \<Rightarrow> (u8 list \<times> 'e) option) \<Rightarrow> pbkdf2 \<Rightarrow> (u8 list \<times> pbkdf2) option" where
  "pbkdf2_digest new reset update digest p =
    do { p \<leftarrow> pbkdf2_loop new reset update digest 1 p;
         let result = take (p_dkLen p) (p_result p);
         Some (result, p\<lparr>p_result := result\<rparr>) }"

text \<open>RFC 2898: \<open>U\<close> iterates the pseudo-random function, \<open>T\<close> is the exclusive or of the first \<open>c\<close> of them.\<close>

fun rfc_U :: "(u8 list \<Rightarrow> u8 list) \<Rightarrow> u8 list \<Rightarrow> nat \<Rightarrow> u8 list" where
  "rfc_U prf seed 0 = prf seed"
| "rfc_U prf seed (Suc j) = prf (rfc_U prf seed j)"

definition rfc_T :: "(u8 list \<Rightarrow> u8 list) \<Rightarrow> u8 list \<Rightarrow> nat \<Rightarrow> nat \<Rightarrow> u8 list" where
  "rfc_T prf s c i = foldl (map2 (\<lambda>a b. a XOR b)) (rfc_U prf (s @ rev (bytes32 (of_nat i))) 0)
     (map (rfc_U prf (s @ rev (bytes32 (of_nat i)))) [1..<c])"

definition rfc_Ts :: "(u8 list \<Rightarrow> u8 list) \<Rightarrow> u8 list \<Rightarrow> nat \<Rightarrow> nat \<Rightarrow> u8 list" where
  "rfc_Ts prf s c n = concat (map (rfc_T prf s c) [1..<Suc n])"

definition rfc_pbkdf2 :: "(u8 list \<Rightarrow> u8 list) \<Rightarrow> nat \<Rightarrow> u8 list \<Rightarrow> nat \<Rightarrow> nat \<Rightarrow> u8 list" where
  "rfc_pbkdf2 prf hLen s c dkLen = take dkLen (rfc_Ts prf s c ((dkLen + hLen - 1) div hLen))"

lemma rfc_Ts_simps: "rfc_Ts prf s c 0 = []" "rfc_Ts prf s c (Suc n) = rfc_Ts prf s c n @ rfc_T prf s c (Suc n)"
  by (simp_all add: rfc_Ts_def)

context keyed_engine
begin

lemma rfc_U_length: "length (rfc_U (mac k) seed j) = L"
  by (cases j) (simp_all add: mac_length)

lemma xor_fold_length:
  "length ux = L \<Longrightarrow> list_all (\<lambda>u. length u = L) us \<Longrightarrow> length (foldl (map2 (\<lambda>a b. a XOR b)) ux us) = L"
  by (induction us arbitrary: ux) auto

lemma rfc_T_length: "length (rfc_T (mac k) s c i) = L"
  unfolding rfc_T_def by (rule xor_fold_length) (auto simp: rfc_U_length mac_length list_all_iff)

lemma rfc_Ts_length: "length (rfc_Ts (mac k) s c n) = n * L"
  by (induction n) (simp_all add: rfc_Ts_simps rfc_T_length)

lemma pbkdf2_rounds_ok:
  "absorbed k e m \<Longrightarrow>
    pbkdf2_rounds reset update digest n e (rfc_U (mac k) seed j) ux =
      Some (foldl (map2 (\<lambda>a b. a XOR b)) ux (map (rfc_U (mac k) seed) [Suc j..<Suc j + n]))"
proof (induction n arbitrary: e m j ux)
  case (Suc n)
  let ?up = "rfc_U (mac k) seed j"
  obtain e1 where e1: "reset e = Some e1" "absorbed k e1 []" using reset_ok[OF Suc.prems] by blast
  obtain e2 where e2: "update ?up e1 = Some e2" "absorbed k e2 ?up"
    using update_ok[OF e1(2), of ?up] sizes by (auto simp: rfc_U_length)
  obtain e3 where e3: "digest e2 = Some (rfc_U (mac k) seed (Suc j), e3)" "absorbed k e3 []"
    using digest_ok[OF e2(2)] by auto
  have u: "[Suc j..<Suc j + Suc n] = Suc j # [Suc (Suc j)..<Suc (Suc j) + n]" by (simp add: upt_conv_Cons)
  show ?case unfolding u using e1 e2 e3 Suc.IH[OF e3(2), of "Suc j"] by simp
qed simp

lemma pbkdf2_f_ok:
  assumes "length (p_p p) < lim" "length (p_s p) < lim"
  shows "pbkdf2_f new reset update digest (of_nat i) p =
    Some (p\<lparr>p_result := p_result p @ rfc_T (mac (p_p p)) (p_s p) (p_c p) i\<rparr>)"
proof -
  let ?k = "p_p p" and ?seed = "p_s p @ rev (bytes32 (of_nat i))"
  obtain e1 where e1: "new ?k = Some e1" "absorbed ?k e1 []" using new_ok[OF assms(1)] by blast
  obtain e2 where e2: "update (p_s p) e1 = Some e2" "absorbed ?k e2 (p_s p)" using update_ok[OF e1(2) assms(2)] by auto
  have b: "bytes32 (toBigEndian32 (of_nat i)) = rev (bytes32 (of_nat i))" by (simp add: toBigEndian32_def bytes32_flip)
  obtain e3 where e3: "update (rev (bytes32 (of_nat i))) e2 = Some e3" "absorbed ?k e3 ?seed"
    using update_ok[OF e2(2), of "rev (bytes32 (of_nat i))"] sizes by (auto simp: bytes32_def)
  obtain e4 where e4: "digest e3 = Some (rfc_U (mac ?k) ?seed 0, e4)" "absorbed ?k e4 []"
    using digest_ok[OF e3(2)] by auto
  have c: "[Suc 0..<Suc 0 + (p_c p - 1)] = [1..<p_c p]" by (cases "p_c p") auto
  show ?thesis unfolding pbkdf2_f_def b
    using e1 e2 e3 e4 pbkdf2_rounds_ok[OF e4(2), of "p_c p - 1" ?seed 0 "rfc_U (mac ?k) ?seed 0"]
    unfolding c by (simp add: rfc_T_def)
qed

lemma blocks_needed:
  fixes i n :: nat
  shows "i * L < dkLen \<longleftrightarrow> i < (dkLen + L - 1) div L"
proof -
  have "i < (dkLen + L - 1) div L \<longleftrightarrow> Suc i * L \<le> dkLen + L - 1"
    using sizes(1) by (simp only: Suc_le_eq[symmetric] less_eq_div_iff_mult_less_eq)
  then show ?thesis using sizes(1) by auto
qed

lemma pbkdf2_loop_ok:
  assumes "length (p_p p) < lim" "length (p_s p) < lim" "i \<le> (p_dkLen p + L - 1) div L"
    "p_result p = rfc_Ts (mac (p_p p)) (p_s p) (p_c p) i"
  shows "pbkdf2_loop new reset update digest (of_nat (Suc i)) p =
    Some (p\<lparr>p_result := rfc_Ts (mac (p_p p)) (p_s p) (p_c p) ((p_dkLen p + L - 1) div L)\<rparr>)"
  using assms
proof (induction "(p_dkLen p + L - 1) div L - i" arbitrary: i p)
  case 0
  have i: "i = (p_dkLen p + L - 1) div L" using 0 by simp
  have "\<not> length (p_result p) < p_dkLen p"
    using blocks_needed[of i "p_dkLen p"] unfolding "0.prems"(4) rfc_Ts_length i by simp
  then show ?case using "0.prems"(4) i by (subst pbkdf2_loop.simps) (cases p; simp)
next
  case (Suc d)
  have lt: "length (p_result p) < p_dkLen p"
    using Suc.hyps(2) blocks_needed[of i "p_dkLen p"] unfolding Suc.prems(4) rfc_Ts_length by simp
  let ?p = "p\<lparr>p_result := p_result p @ rfc_T (mac (p_p p)) (p_s p) (p_c p) (Suc i)\<rparr>"
  have f: "pbkdf2_f new reset update digest (of_nat (Suc i)) p = Some ?p" by (rule pbkdf2_f_ok[OF Suc.prems(1,2)])
  have "pbkdf2_loop new reset update digest (of_nat (Suc (Suc i))) ?p =
    Some (?p\<lparr>p_result := rfc_Ts (mac (p_p ?p)) (p_s ?p) (p_c ?p) ((p_dkLen ?p + L - 1) div L)\<rparr>)"
    using Suc.hyps(2) Suc.prems by (intro Suc.hyps(1)) (auto simp: rfc_Ts_simps)
  then show ?case using lt f by (subst pbkdf2_loop.simps) (simp add: add.commute)
qed

lemma pbkdf2_digest_ok:
  assumes "length (p_p p) < lim" "length (p_s p) < lim" "p_result p = []"
  shows "\<exists>p'. pbkdf2_digest new reset update digest p =
      Some (rfc_pbkdf2 (mac (p_p p)) L (p_s p) (p_c p) (p_dkLen p), p') \<and>
    p_result p' = rfc_pbkdf2 (mac (p_p p)) L (p_s p) (p_c p) (p_dkLen p) \<and> p_dkLen p' = p_dkLen p"
  using pbkdf2_loop_ok[of p 0] assms by (simp add: pbkdf2_digest_def rfc_pbkdf2_def rfc_Ts_simps Let_def)

lemma pbkdf2_length: "length (rfc_pbkdf2 (mac pw) L salt c dkLen) = dkLen"
proof -
  have "\<not> (dkLen + L - 1) div L * L < dkLen" using blocks_needed[of "(dkLen + L - 1) div L" dkLen] by simp
  then show ?thesis unfolding rfc_pbkdf2_def length_take rfc_Ts_length by simp
qed

text \<open>A second \<^verbatim>\<open>digest()\<close> without \<^verbatim>\<open>reset()\<close> returns the first result, whatever was added meanwhile.\<close>

lemma pbkdf2_stale:
  assumes "p_dkLen p \<le> length (p_result p)"
  shows "pbkdf2_digest new reset update digest (pbkdf2_updateImpl x p) =
    Some (take (p_dkLen p) (p_result p), p\<lparr>p_p := p_p p @ x, p_result := take (p_dkLen p) (p_result p)\<rparr>)"
  unfolding pbkdf2_digest_def pbkdf2_updateImpl_def
  by (subst pbkdf2_loop.simps) (use assms in \<open>simp add: Let_def\<close>)

end

section \<open>The 64-bit count of bits in two words\<close>

lemma word_add_overflow:
  fixes a b :: u32
  shows "a + b < a \<longleftrightarrow> 2 ^ 32 \<le> unat a + unat b" "a + b < b \<longleftrightarrow> 2 ^ 32 \<le> unat a + unat b"
proof -
  have l: "unat a < 2 ^ 32" "unat b < 2 ^ 32"
    using unsigned_less[of a, where 'a = nat] unsigned_less[of b, where 'a = nat] by simp_all
  have s: "unat (a + b) = (if unat a + unat b < 2 ^ 32 then unat a + unat b else unat a + unat b - 2 ^ 32)"
    using l unat_word_ariths(1)[of a b] by (simp add: mod_if)
  show "a + b < a \<longleftrightarrow> 2 ^ 32 \<le> unat a + unat b" "a + b < b \<longleftrightarrow> 2 ^ 32 \<le> unat a + unat b"
    unfolding word_less_nat_alt s using l by auto
qed

lemma unat_of_nat32: "unat (of_nat n :: u32) = n mod 2 ^ 32"
  by (simp add: unat_of_nat)

lemma push3_of_nat: "push_bit 3 (of_nat k :: u32) = of_nat (8 * k)"
  by (simp add: push_bit_eq_mult)

lemma drop29_of_nat:
  assumes "k < 2 ^ 32"
  shows "drop_bit 29 (of_nat k :: u32) = of_nat (8 * k div 2 ^ 32)"
proof -
  have "8 * k div 2 ^ 32 = k div 2 ^ 29" by (simp add: div_mult2_eq[symmetric])
  moreover have "unat (of_nat k :: u32) = k" using assms by (simp add: unat_of_nat)
  ultimately have "unat (drop_bit 29 (of_nat k :: u32)) = unat (of_nat (8 * k div 2 ^ 32) :: u32)"
    using assms by (simp add: unat_drop unat_of_nat)
  then show ?thesis by (simp add: word_unat_eq_iff)
qed

lemma div_carry: "x < M \<Longrightarrow> y < M \<Longrightarrow> (x + y) div M = (if M \<le> x + y then 1 else (0 :: nat))"
proof -
  assume a: "x < M" "y < M"
  show ?thesis
  proof (cases "M \<le> x + y")
    case True
    then have "(x + y) div M = Suc ((x + y - M) div M)" using a by (intro le_div_geq) auto
    then show ?thesis using True a by simp
  qed (use a in simp)
qed

lemma bit_count_step:
  fixes lo hi :: u32
  assumes "lo = of_nat (8 * n)" "hi = of_nat (8 * n div 2 ^ 32)" "k < 2 ^ 32"
  shows "lo + push_bit 3 (of_nat k) = of_nat (8 * (n + k))"
    "(if lo + push_bit 3 (of_nat k) < lo then hi + 1 else hi) + drop_bit 29 (of_nat k) = of_nat (8 * (n + k) div 2 ^ 32)"
    "(if lo + push_bit 3 (of_nat k) < push_bit 3 (of_nat k) then hi + 1 else hi) + drop_bit 29 (of_nat k) =
      of_nat (8 * (n + k) div 2 ^ 32)"
proof -
  show "lo + push_bit 3 (of_nat k) = of_nat (8 * (n + k))"
    unfolding assms(1) push3_of_nat by (simp add: distrib_left)
  let ?a = "8 * n" and ?b = "8 * k"
  have o: "lo + push_bit 3 (of_nat k) < lo \<longleftrightarrow> 2 ^ 32 \<le> ?a mod 2 ^ 32 + ?b mod 2 ^ 32"
    "lo + push_bit 3 (of_nat k) < push_bit 3 (of_nat k) \<longleftrightarrow> 2 ^ 32 \<le> ?a mod 2 ^ 32 + ?b mod 2 ^ 32"
    unfolding word_add_overflow assms(1) push3_of_nat unat_of_nat32 by (rule refl)+
  have "(?a + ?b) div 2 ^ 32 = ?a div 2 ^ 32 + ?b div 2 ^ 32 + (if 2 ^ 32 \<le> ?a mod 2 ^ 32 + ?b mod 2 ^ 32 then 1 else 0)"
  proof -
    have "(?a + ?b) div 2 ^ 32 = ?a div 2 ^ 32 + ?b div 2 ^ 32 + (?a mod 2 ^ 32 + ?b mod 2 ^ 32) div 2 ^ 32"
      by (rule div_add1_eq)
    also have "(?a mod 2 ^ 32 + ?b mod 2 ^ 32) div 2 ^ 32 = (if 2 ^ 32 \<le> ?a mod 2 ^ 32 + ?b mod 2 ^ 32 then 1 else 0)"
      by (rule div_carry) simp_all
    finally show ?thesis .
  qed
  then have "(if 2 ^ 32 \<le> ?a mod 2 ^ 32 + ?b mod 2 ^ 32 then hi + 1 else hi) + drop_bit 29 (of_nat k) = of_nat (8 * (n + k) div 2 ^ 32)"
    unfolding assms(2) drop29_of_nat[OF assms(3)] distrib_left[of 8 n k] by simp
  then show "(if lo + push_bit 3 (of_nat k) < lo then hi + 1 else hi) + drop_bit 29 (of_nat k) = of_nat (8 * (n + k) div 2 ^ 32)"
    "(if lo + push_bit 3 (of_nat k) < push_bit 3 (of_nat k) then hi + 1 else hi) + drop_bit 29 (of_nat k) =
      of_nat (8 * (n + k) div 2 ^ 32)"
    by (simp_all only: o)
qed

lemma bit_count_mod:
  assumes "lo = of_nat (8 * n)"
  shows "unat (drop_bit 3 lo AND 0x3F :: u32) = n mod 64"
proof -
  have m: "(0x3F :: u32) = mask 6" by (simp add: mask_eq_exp_minus_1)
  have "unat (drop_bit 3 lo AND 0x3F :: u32) = unat lo div 8 mod 64"
    unfolding m take_bit_eq_mask[symmetric] unsigned_take_bit_eq unat_drop by (simp add: take_bit_eq_mod)
  also have "unat lo = 8 * (n mod 2 ^ 29)" unfolding assms unat_of_nat32 by (simp add: mult_mod_right)
  also have "8 * (n mod 2 ^ 29) div 8 mod 64 = n mod 64" by (simp add: mod_mod_cancel)
  finally show ?thesis .
qed

lemma bytes64_count: "rev (bytes64 (of_nat n)) = rev (bytes32 (of_nat (n div 2 ^ 32))) @ rev (bytes32 (of_nat n))"
proof -
  have "(ucast (drop_bit 32 (of_nat n :: u64)) :: u32) = of_nat (n div 2 ^ 32)"
  proof -
    have "unat (ucast (drop_bit 32 (of_nat n :: u64)) :: u32) = n mod 2 ^ 64 div 2 ^ 32 mod 2 ^ 32"
      by (simp add: unsigned_ucast_eq unat_drop unat_of_nat take_bit_eq_mod)
    also have "\<dots> = n div 2 ^ 32 mod 2 ^ 32"
      using mod_mult2_eq[of n "2 ^ 32" "2 ^ 32"] by simp
    finally show ?thesis by (simp add: word_unat_eq_iff unat_of_nat)
  qed
  moreover have "(ucast (of_nat n :: u64) :: u32) = of_nat n"
    by (simp add: word_unat_eq_iff unat_of_nat unsigned_ucast_eq take_bit_eq_mod mod_mod_cancel)
  ultimately show ?thesis by (simp add: bytes64_def)
qed

section \<open>Rotation written as two shifts\<close>

lemma rotl_shift:
  fixes w :: u32
  assumes "0 < m" "m < 32"
  shows "push_bit m w OR drop_bit (32 - m) w = word_rotl m w"
proof (rule bit_word_eqI)
  fix n assume "n < LENGTH(32)"
  then have n: "n < 32" by simp
  show "bit (push_bit m w OR drop_bit (32 - m) w) n = bit (word_rotl m w) n"
  proof (cases "m \<le> n")
    case True
    then have "(n + (32 - m)) mod 32 = n - m" using n assms by (simp add: mod_if)
    moreover have "\<not> bit w (32 - m + n)" using True assms by (auto dest: bit_imp_le_length)
    ultimately show ?thesis using n assms True by (auto simp: bit_simps bit_word_rotl_iff)
  next
    case False
    then have "(n + (32 - m)) mod 32 = 32 - m + n" using n assms by simp
    then show ?thesis using n assms False by (simp add: bit_simps bit_word_rotl_iff)
  qed
qed

lemma foldl_upt_cong:
  assumes "\<And>a t. i \<le> t \<Longrightarrow> t < j \<Longrightarrow> f a t = g a t"
  shows "foldl f a [i..<j] = foldl g a [i..<j]"
proof -
  have "\<forall>t\<in>set xs. i \<le> t \<and> t < j \<Longrightarrow> foldl f a xs = foldl g a xs" for xs
    by (induction xs arbitrary: a) (simp_all add: assms)
  then show ?thesis by simp
qed

end
