(* ===== verification/SHA1.thy ===== *)
theory SHA1
  imports Digest
begin

text \<open>
  \<^verbatim>\<open>SHA1Engine\<close>: the streaming engine over its context, and FIPS 180-4 as the reference.

  \<^verbatim>\<open>_context.data\<close> is an array of sixteen \<^verbatim>\<open>UInt32\<close> that the code also addresses as 64 bytes; it is modelled
  as its bytes in memory, read as words in the order of a little-endian host.
\<close>

section \<open>The engine\<close>

record sha1 =
  s_digest :: "u32 list"
  s_countLo :: u32
  s_countHi :: u32
  s_data :: "u8 list"
  s_slop :: nat

fun words_of :: "u8 list \<Rightarrow> u32 list" where
  "words_of (a # b # c # d # r) = le32 a b c d # words_of r"
| "words_of _ = []"

definition reverse_word :: "u32 \<Rightarrow> u32" where
  "reverse_word w =
    (let value = push_bit 16 w OR drop_bit 16 w
     in drop_bit 8 (value AND 0xFF00FF00) OR push_bit 8 (value AND 0x00FF00FF))"

definition sha1_byteReverse :: "u8 list \<Rightarrow> nat \<Rightarrow> u8 list" where
  "sha1_byteReverse buffer byteCount =
    (let ws = words_of buffer; n = byteCount div 4
     in concat (map bytes32 (map reverse_word (take n ws) @ drop n ws)))"

definition sha1_S :: "nat \<Rightarrow> u32 \<Rightarrow> u32" where
  "sha1_S n X = push_bit n X OR drop_bit (32 - n) X"

definition sha1_f1 :: "u32 \<Rightarrow> u32 \<Rightarrow> u32 \<Rightarrow> u32" where
  "sha1_f1 x y z = (x AND y) OR (NOT x AND z)"

definition sha1_f2 :: "u32 \<Rightarrow> u32 \<Rightarrow> u32 \<Rightarrow> u32" where
  "sha1_f2 x y z = x XOR y XOR z"

definition sha1_f3 :: "u32 \<Rightarrow> u32 \<Rightarrow> u32 \<Rightarrow> u32" where
  "sha1_f3 x y z = (x AND y) OR (x AND z) OR (y AND z)"

definition sha1_f4 :: "u32 \<Rightarrow> u32 \<Rightarrow> u32 \<Rightarrow> u32" where
  "sha1_f4 x y z = x XOR y XOR z"

definition sha1_expand :: "u32 list \<Rightarrow> nat \<Rightarrow> u32 list" where
  "sha1_expand W t = W @ [sha1_S 1 (W ! (t - 3) XOR W ! (t - 8) XOR W ! (t - 14) XOR W ! (t - 16))]"

type_synonym regs5 = "u32 \<times> u32 \<times> u32 \<times> u32 \<times> u32"

definition sha1_sub :: "(u32 \<Rightarrow> u32 \<Rightarrow> u32 \<Rightarrow> u32) \<Rightarrow> u32 \<Rightarrow> u32 list \<Rightarrow> regs5 \<Rightarrow> nat \<Rightarrow> regs5" where
  "sha1_sub f K W = (\<lambda>(A, B, C, D, E) t.
    let temp = sha1_S 5 A + f B C D + E + W ! t + K in (temp, A, sha1_S 30 B, C, D))"

definition sha1_compress :: "u32 list \<Rightarrow> u32 list \<Rightarrow> u32 list" where
  "sha1_compress h ws =
    (let W = foldl sha1_expand (take 16 ws) [16..<80];
         r = (h ! 0, h ! 1, h ! 2, h ! 3, h ! 4);
         r = foldl (sha1_sub sha1_f1 0x5A827999 W) r [0..<20];
         r = foldl (sha1_sub sha1_f2 0x6ED9EBA1 W) r [20..<40];
         r = foldl (sha1_sub sha1_f3 0x8F1BBCDC W) r [40..<60];
         r = foldl (sha1_sub sha1_f4 0xCA62C1D6 W) r [60..<80]
     in case r of (A, B, C, D, E) \<Rightarrow> [h ! 0 + A, h ! 1 + B, h ! 2 + C, h ! 3 + D, h ! 4 + E])"

definition sha1_transform :: "sha1 \<Rightarrow> sha1" where
  "sha1_transform c = c\<lparr>s_digest := sha1_compress (s_digest c) (words_of (s_data c))\<rparr>"

definition sha1_reset :: "sha1 \<Rightarrow> sha1" where
  "sha1_reset c =
    \<lparr>s_digest = [0x67452301, 0xEFCDAB89, 0x98BADCFE, 0x10325476, 0xC3D2E1F0], s_countLo = 0, s_countHi = 0,
     s_data = replicate 64 0, s_slop = 0\<rparr>"

fun sha1_loop :: "u8 list \<Rightarrow> sha1 \<Rightarrow> sha1" where
  "sha1_loop [] c = c"
| "sha1_loop (b # bs) c =
    (let c = c\<lparr>s_data := (s_data c)[s_slop c := b], s_slop := s_slop c + 1\<rparr> in
     if s_slop c = 64 then
       sha1_loop bs ((sha1_transform (c\<lparr>s_data := sha1_byteReverse (s_data c) 64\<rparr>))\<lparr>s_slop := 0\<rparr>)
     else sha1_loop bs c)"

definition sha1_updateImpl :: "u8 list \<Rightarrow> sha1 \<Rightarrow> sha1" where
  "sha1_updateImpl buffer c =
    (let cnt = of_nat (length buffer) :: u32;
         c = (if s_countLo c + push_bit 3 cnt < s_countLo c then c\<lparr>s_countHi := s_countHi c + 1\<rparr> else c);
         c = c\<lparr>s_countLo := s_countLo c + push_bit 3 cnt\<rparr>;
         c = c\<lparr>s_countHi := s_countHi c + drop_bit 29 cnt\<rparr>
     in sha1_loop buffer c)"

definition sha1_hash_byte :: "u32 list \<Rightarrow> nat \<Rightarrow> u8" where
  "sha1_hash_byte d cnt = ucast (drop_bit (8 * (3 - cnt mod 4)) (d ! (cnt div 4)))"

text \<open>The padding up to the last eight bytes, transforming a full block first if they do not fit.\<close>

definition sha1_pad :: "sha1 \<Rightarrow> sha1" where
  "sha1_pad c =
    (let cnt = unat (drop_bit 3 (s_countLo c) AND 0x3F);
         c = c\<lparr>s_data := (s_data c)[cnt := 0x80]\<rparr>;
         cnt = cnt + 1
     in if cnt > 56 then
          let c = c\<lparr>s_data := take cnt (s_data c) @ replicate (64 - cnt) 0\<rparr>;
              c = sha1_transform (c\<lparr>s_data := sha1_byteReverse (s_data c) 64\<rparr>)
          in c\<lparr>s_data := replicate 56 0 @ drop 56 (s_data c)\<rparr>
        else c\<lparr>s_data := take cnt (s_data c) @ replicate (56 - cnt) 0 @ drop 56 (s_data c)\<rparr>)"

definition sha1_digest :: "sha1 \<Rightarrow> u8 list \<times> sha1" where
  "sha1_digest c =
    (let lowBitcount = s_countLo c; highBitcount = s_countHi c;
         c = sha1_pad c;
         c = c\<lparr>s_data := sha1_byteReverse (s_data c) 64\<rparr>;
         c = c\<lparr>s_data := take 56 (s_data c) @ bytes32 highBitcount @ bytes32 lowBitcount\<rparr>;
         c = sha1_transform c;
         c = c\<lparr>s_data := sha1_byteReverse (s_data c) 20\<rparr>
     in (map (sha1_hash_byte (s_digest c)) [0..<20], sha1_reset c))"

section \<open>FIPS 180-4\<close>

text \<open>Words of the message schedule and the round functions as the standard writes them.\<close>

definition be32 :: "u8 \<Rightarrow> u8 \<Rightarrow> u8 \<Rightarrow> u8 \<Rightarrow> u32" where
  "be32 a b c d = le32 d c b a"

fun be_words :: "u8 list \<Rightarrow> u32 list" where
  "be_words (a # b # c # d # r) = be32 a b c d # be_words r"
| "be_words _ = []"

function fips_W :: "u32 list \<Rightarrow> nat \<Rightarrow> u32" where
  "fips_W M t = (if t < 16 then M ! t
     else word_rotl 1 (fips_W M (t - 3) XOR fips_W M (t - 8) XOR fips_W M (t - 14) XOR fips_W M (t - 16)))"
  by pat_completeness auto
termination by (relation "measure snd") auto

declare fips_W.simps [simp del]

definition fips_f :: "nat \<Rightarrow> u32 \<Rightarrow> u32 \<Rightarrow> u32 \<Rightarrow> u32" where
  "fips_f t x y z =
    (if t < 20 then (x AND y) XOR (NOT x AND z)
     else if t < 40 then x XOR y XOR z
     else if t < 60 then (x AND y) XOR (x AND z) XOR (y AND z)
     else x XOR y XOR z)"

definition fips_K :: "nat \<Rightarrow> u32" where
  "fips_K t = (if t < 20 then 0x5A827999 else if t < 40 then 0x6ED9EBA1 else if t < 60 then 0x8F1BBCDC else 0xCA62C1D6)"

definition fips_round :: "u32 list \<Rightarrow> regs5 \<Rightarrow> nat \<Rightarrow> regs5" where
  "fips_round M = (\<lambda>(a, b, c, d, e) t.
    (word_rotl 5 a + fips_f t b c d + e + fips_K t + fips_W M t, a, word_rotl 30 b, c, d))"

definition fips_block :: "u32 list \<Rightarrow> u8 list \<Rightarrow> u32 list" where
  "fips_block h b =
    (case foldl (fips_round (be_words b)) (h ! 0, h ! 1, h ! 2, h ! 3, h ! 4) [0..<80] of
       (A, B, C, D, E) \<Rightarrow> [h ! 0 + A, h ! 1 + B, h ! 2 + C, h ! 3 + D, h ! 4 + E])"

definition fips_init :: "u32 list" where
  "fips_init = [0x67452301, 0xEFCDAB89, 0x98BADCFE, 0x10325476, 0xC3D2E1F0]"

definition fips_sha1 :: "u8 list \<Rightarrow> u8 list" where
  "fips_sha1 = md_hash fips_block fips_init (\<lambda>n. rev (bytes64 n)) (\<lambda>h. concat (map (\<lambda>w. rev (bytes32 w)) h))"

section \<open>The compression function\<close>

lemma bit32_cases:
  assumes "n < (32 :: nat)"
  obtains "n < 8" | "8 \<le> n" "n < 16" | "16 \<le> n" "n < 24" | "24 \<le> n" "n < 32"
  using assms by linarith

lemma reverse_le32: "reverse_word (le32 a b c d) = be32 a b c d"
proof (rule bit_word_eqI)
  fix n assume "n < LENGTH(32)"
  then have n: "n < 32" by simp
  have m: "(0xFF00FF00 :: u32) = push_bit 24 (mask 8) OR push_bit 8 (mask 8)"
    "(0x00FF00FF :: u32) = push_bit 16 (mask 8) OR mask 8"
    by (simp_all add: mask_eq_exp_minus_1 push_bit_eq_mult)
  from n show "bit (reverse_word (le32 a b c d)) n = bit (be32 a b c d) n"
    by (cases rule: bit32_cases)
      (auto simp: reverse_word_def be32_def le32_def m Let_def bit_simps dest: bit_imp_le_length)
qed

lemma le32_bytes32: "words_of (bytes32 w @ r) = w # words_of r"
  using le32_bytes[of w] by (simp add: bytes32_def)

lemma words_of_concat: "words_of (concat (map bytes32 ws)) = ws"
  by (induction ws) (simp_all add: le32_bytes32)

lemma be_words_reverse: "map reverse_word (words_of b) = be_words b"
  by (induction b rule: words_of.induct) (simp_all add: reverse_le32)

lemma words_of_length: "length (words_of b) = length b div 4"
  by (induction b rule: words_of.induct) simp_all

lemma be_words_length: "length (be_words b) = length b div 4"
  by (induction b rule: be_words.induct) simp_all

lemma byteReverse_words: "length b = 64 \<Longrightarrow> words_of (sha1_byteReverse b 64) = be_words b"
  unfolding sha1_byteReverse_def Let_def words_of_concat
  by (simp add: words_of_length be_words_reverse)

lemma concat_bytes32_length: "length (concat (map bytes32 ws)) = 4 * length ws"
  by (induction ws) (simp_all add: bytes32_def)

lemma byteReverse_length: "length b = 64 \<Longrightarrow> length (sha1_byteReverse b n) = 64"
  unfolding sha1_byteReverse_def Let_def concat_bytes32_length by (simp add: words_of_length min_def diff_mult_distrib2)

lemma sha1_S_rotl: "0 < m \<Longrightarrow> m < 32 \<Longrightarrow> sha1_S m w = word_rotl m w"
  by (simp add: sha1_S_def rotl_shift)

lemma sha1_f_eq:
  "sha1_f1 x y z = (x AND y) XOR (NOT x AND z)" "sha1_f3 x y z = (x AND y) XOR (x AND z) XOR (y AND z)"
  unfolding sha1_f1_def sha1_f3_def by (rule bit_word_eqI; auto simp: bit_simps)+

lemma sha1_schedule:
  assumes "length ws = 16" "16 \<le> k"
  shows "foldl sha1_expand ws [16..<k] = map (fips_W ws) [0..<k]"
  using assms(2)
proof (induction k rule: dec_induct)
  case base
  show ?case using assms(1) by (auto intro!: nth_equalityI simp: fips_W.simps)
next
  case (step k)
  have "foldl sha1_expand ws [16..<Suc k] = sha1_expand (map (fips_W ws) [0..<k]) k" using step by simp
  also have "\<dots> = map (fips_W ws) [0..<k] @ [fips_W ws k]"
    using step.hyps by (simp add: sha1_expand_def sha1_S_rotl fips_W.simps[of ws k])
  finally show ?case by simp
qed

lemma sha1_sub_round:
  assumes "t < 80" "W = map (fips_W ws) [0..<80]" "f = fips_f t" "K = fips_K t"
  shows "sha1_sub f K W r t = fips_round ws r t"
  using assms by (cases r) (simp add: sha1_sub_def fips_round_def sha1_S_rotl Let_def add.assoc add.commute add.left_commute)

lemma fips_f_cases:
  "t < 20 \<Longrightarrow> sha1_f1 = fips_f t" "20 \<le> t \<Longrightarrow> t < 40 \<Longrightarrow> sha1_f2 = fips_f t"
  "40 \<le> t \<Longrightarrow> t < 60 \<Longrightarrow> sha1_f3 = fips_f t" "60 \<le> t \<Longrightarrow> sha1_f4 = fips_f t"
  by (auto simp: fips_f_def sha1_f_eq sha1_f2_def sha1_f4_def fun_eq_iff)

lemma sha1_compress_fips:
  assumes "length b = 64"
  shows "sha1_compress h (be_words b) = fips_block h b"
proof -
  let ?ws = "be_words b" and ?W = "map (fips_W (be_words b)) [0..<80]"
  have l: "length ?ws = 16" using assms by (simp add: be_words_length)
  have s: "foldl sha1_expand (take 16 ?ws) [16..<80] = ?W"
    unfolding take_all[OF eq_refl[OF l]] by (rule sha1_schedule[OF l]) simp
  have r: "foldl (sha1_sub sha1_f1 0x5A827999 ?W) r [0..<20] = foldl (fips_round ?ws) r [0..<20]"
    "foldl (sha1_sub sha1_f2 0x6ED9EBA1 ?W) r [20..<40] = foldl (fips_round ?ws) r [20..<40]"
    "foldl (sha1_sub sha1_f3 0x8F1BBCDC ?W) r [40..<60] = foldl (fips_round ?ws) r [40..<60]"
    "foldl (sha1_sub sha1_f4 0xCA62C1D6 ?W) r [60..<80] = foldl (fips_round ?ws) r [60..<80]" for r
    by (rule foldl_upt_cong, rule sha1_sub_round; simp add: fips_f_cases fips_K_def)+
  have u: "[0..<80] = [0..<20] @ [20..<40] @ [40..<60] @ [60..<80]"
    using upt_add_eq_append[of 0 20 60] upt_add_eq_append[of 20 40 40] upt_add_eq_append[of 40 60 20] by simp
  show ?thesis unfolding sha1_compress_def fips_block_def s Let_def r unfolding u foldl_append ..
qed

section \<open>The engine absorbs the message\<close>

definition sha1_core :: "sha1 \<Rightarrow> u8 list \<Rightarrow> bool" where
  "sha1_core c m \<longleftrightarrow> s_digest c = md_blocks fips_block fips_init m \<and> length (s_data c) = 64 \<and>
    s_slop c = length m mod 64 \<and> take (s_slop c) (s_data c) = md_rest m"

definition sha1_absorbed :: "sha1 \<Rightarrow> u8 list \<Rightarrow> bool" where
  "sha1_absorbed c m \<longleftrightarrow> sha1_core c m \<and> s_countLo c = of_nat (8 * length m) \<and> s_countHi c = of_nat (8 * length m div 2 ^ 32)"

lemma sha1_block:
  assumes "length (s_data c) = 64"
  shows "s_digest (sha1_transform (c\<lparr>s_data := sha1_byteReverse (s_data c) 64\<rparr>)) = fips_block (s_digest c) (s_data c)"
  by (simp add: sha1_transform_def byteReverse_words[OF assms] sha1_compress_fips[OF assms])

lemma take_put: "i < length xs \<Longrightarrow> take (Suc i) (xs[i := x]) = take i xs @ [x]"
  by (simp add: take_Suc_conv_app_nth)

lemma sha1_loop_core:
  "sha1_core c m \<Longrightarrow> sha1_core (sha1_loop bs c) (m @ bs) \<and>
    s_countLo (sha1_loop bs c) = s_countLo c \<and> s_countHi (sha1_loop bs c) = s_countHi c"
proof (induction bs arbitrary: c m)
  case (Cons b bs)
  let ?c = "c\<lparr>s_data := (s_data c)[s_slop c := b], s_slop := s_slop c + 1\<rparr>"
  have i: "s_digest c = md_blocks fips_block fips_init m" "length (s_data c) = 64" "s_slop c = length m mod 64"
    "take (s_slop c) (s_data c) = md_rest m" using Cons.prems by (auto simp: sha1_core_def)
  have lt: "s_slop c < 64" unfolding i(3) by simp
  have tk: "take (s_slop ?c) (s_data ?c) = md_rest m @ [b]" using take_put[of "s_slop c" "s_data c" b] lt i by simp
  show ?case
  proof (cases "s_slop ?c = 64")
    case True
    let ?d = "(sha1_transform (?c\<lparr>s_data := sha1_byteReverse (s_data ?c) 64\<rparr>))\<lparr>s_slop := 0\<rparr>"
    have d64: "s_data ?c = md_rest m @ [b]" using tk True i(2) by simp
    have "length (s_data ?c) = 64" using i(2) by simp
    then have l: "length (md_rest m @ [b]) = 64" unfolding d64 .
    have "s_digest ?d = fips_block (s_digest c) (md_rest m @ [b])"
      using sha1_block[of ?c] i(2) d64 by simp
    also have "\<dots> = md_blocks fips_block fips_init (m @ [b])"
      unfolding md_blocks_append(1)[of _ _ m] i(1) 
      using md_blocks_step[OF l, of fips_block "md_blocks fips_block fips_init m" "[]"] by (simp add: md_blocks_short)
    finally have "s_digest ?d = md_blocks fips_block fips_init (m @ [b])" .
    moreover have "md_rest (m @ [b]) = []"
      using md_rest_step[OF l, of "[]"] md_rest_short[of "[]"] unfolding md_blocks_append(2)[of m] by simp
    moreover have "length (m @ [b]) mod 64 = 0" using l by (simp add: md_rest_length mod_Suc)
    ultimately have "sha1_core ?d (m @ [b])"
      using i(2) by (simp add: sha1_core_def sha1_transform_def byteReverse_length)
    from Cons.IH[OF this] show ?thesis using True by (simp add: Let_def sha1_transform_def)
  next
    case False
    then have s: "length (md_rest m @ [b]) < 64" using lt i(3) by (simp add: md_rest_length)
    have "md_blocks fips_block fips_init (m @ [b]) = s_digest c" "md_rest (m @ [b]) = md_rest m @ [b]"
      unfolding md_blocks_append(1)[of _ _ m] md_blocks_append(2)[of m] using md_blocks_short[OF s] md_rest_short[OF s] i(1) by simp_all
    moreover have "length (m @ [b]) mod 64 = s_slop ?c" using s by (simp add: i(3) md_rest_length mod_Suc)
    ultimately have "sha1_core ?c (m @ [b])" using i(2) tk by (simp add: sha1_core_def)
    from Cons.IH[OF this] show ?thesis using False by (simp add: Let_def)
  qed
qed simp

lemma sha1_update_absorbs:
  assumes "sha1_absorbed c m" "length x < 2 ^ 32"
  shows "sha1_absorbed (sha1_updateImpl x c) (m @ x)"
proof -
  let ?n = "of_nat (length x) :: u32"
  have c: "sha1_core c m" "s_countLo c = of_nat (8 * length m)" "s_countHi c = of_nat (8 * length m div 2 ^ 32)"
    using assms(1) by (auto simp: sha1_absorbed_def)
  note b = bit_count_step[OF c(2,3) assms(2)]
  define d where "d = c\<lparr>s_countLo := s_countLo c + push_bit 3 ?n,
    s_countHi := (if s_countLo c + push_bit 3 ?n < s_countLo c then s_countHi c + 1 else s_countHi c) + drop_bit 29 ?n\<rparr>"
  have u: "sha1_updateImpl x c = sha1_loop x d" by (simp add: sha1_updateImpl_def d_def Let_def)
  have "sha1_core d m" using c(1) unfolding d_def sha1_core_def by auto
  note L = sha1_loop_core[OF this, of x]
  have "s_countLo d = of_nat (8 * length (m @ x))" "s_countHi d = of_nat (8 * length (m @ x) div 2 ^ 32)"
    unfolding d_def length_append using b(1,2) by simp_all
  then show ?thesis unfolding u sha1_absorbed_def using L by simp
qed

lemma sha1_reset_absorbed: "sha1_absorbed (sha1_reset c) []"
  by (simp add: sha1_absorbed_def sha1_core_def sha1_reset_def fips_init_def md_blocks_short md_rest_short)

section \<open>Finishing the digest\<close>

lemma words_of_append: "4 dvd length x \<Longrightarrow> words_of (x @ y) = words_of x @ words_of y"
proof (induction x rule: words_of.induct)
  case (1 a b c d r)
  have "4 dvd length r" using 1(2) by (simp add: dvd_eq_mod_eq_0)
  then show ?case using 1(1) by simp
qed (auto simp: dvd_eq_mod_eq_0)

lemma be_words_append: "4 dvd length x \<Longrightarrow> be_words (x @ y) = be_words x @ be_words y"
proof (induction x rule: be_words.induct)
  case (1 a b c d r)
  have "4 dvd length r" using 1(2) by (simp add: dvd_eq_mod_eq_0)
  then show ?case using 1(1) by simp
qed (auto simp: dvd_eq_mod_eq_0)

lemma be_words_bytes: "be_words (rev (bytes32 w)) = [w]"
  using le32_bytes[of w] by (simp add: bytes32_def be32_def)

lemma words_last_block:
  assumes "length d = 64"
  shows "words_of (take 56 (sha1_byteReverse d 64) @ bytes32 hi @ bytes32 lo) =
    be_words (take 56 d @ rev (bytes32 hi) @ rev (bytes32 lo))"
proof -
  let ?r = "sha1_byteReverse d 64"
  have r: "length ?r = 64" using byteReverse_length[OF assms] .
  have "words_of ?r = words_of (take 56 ?r) @ words_of (drop 56 ?r)"
    using words_of_append[of "take 56 ?r" "drop 56 ?r"] r by simp
  moreover have "be_words d = be_words (take 56 d) @ be_words (drop 56 d)"
    using be_words_append[of "take 56 d" "drop 56 d"] assms by simp
  moreover have "length (words_of (take 56 ?r)) = length (be_words (take 56 d))"
    using r assms by (simp add: words_of_length be_words_length)
  ultimately have "words_of (take 56 ?r) = be_words (take 56 d)" using byteReverse_words[OF assms] by simp
  moreover have "words_of (bytes32 hi @ bytes32 lo) = [hi, lo]" using le32_bytes32[of lo "[]"] by (simp add: le32_bytes32)
  moreover have "be_words (rev (bytes32 hi) @ rev (bytes32 lo)) = [hi, lo]"
  proof -
    have "length (rev (bytes32 hi)) = 4" by (simp add: bytes32_def)
    then have "4 dvd length (rev (bytes32 hi))" by (simp only: dvd_refl)
    then show ?thesis by (simp only: be_words_append be_words_bytes append.simps)
  qed
  ultimately show ?thesis using r assms by (simp add: words_of_append be_words_append)
qed

lemma sha1_output: "length d = 5 \<Longrightarrow> map (sha1_hash_byte d) [0..<20] = concat (map (\<lambda>w. rev (bytes32 w)) d)"
proof -
  assume "length d = 5"
  then obtain a b c e f where d: "d = [a, b, c, e, f]" by (auto simp: length_Suc_conv eval_nat_numeral)
  show ?thesis unfolding d by (simp add: sha1_hash_byte_def bytes32_def upt_rec)
qed

lemma fips_length: "length (md_blocks fips_block fips_init m) = 5"
proof -
  have "length s = 5 \<Longrightarrow> length (md_blocks fips_block s m) = 5" for s
    by (induction "length m" arbitrary: s m rule: less_induct) (subst md_blocks_simps, simp add: fips_block_def split: prod.splits)
  then show ?thesis by (simp add: fips_init_def)
qed

lemma md_pad_split:
  assumes "k = n mod 64" "rev (bytes64 (of_nat (8 * n))) = len"
  shows "md_pad (\<lambda>n. rev (bytes64 n)) n =
    (if k + 1 > 56 then (0x80 # replicate (63 - k) 0) @ (replicate 56 0 @ len) else (0x80 # replicate (55 - k) 0) @ len)"
proof -
  have "k < 64" using assms(1) by simp
  show ?thesis
  proof (cases "k < 56")
    case True
    then show ?thesis using assms by (simp add: md_pad_def md_zeros_eq)
  next
    case False
    then have "119 - k = (63 - k) + 56" using \<open>k < 64\<close> by simp
    then have "replicate (119 - k) (0 :: u8) = replicate (63 - k) 0 @ replicate 56 0" by (simp only: replicate_add)
    then show ?thesis using False assms by (simp add: md_pad_def md_zeros_eq)
  qed
qed

text \<open>The last one or two blocks.\<close>

lemma md_final:
  assumes "length (md_rest m) = k" "k + 1 \<le> 56" "length len = 8"
  shows "md_blocks f s (m @ (0x80 # replicate (55 - k) 0) @ len) =
    f (md_blocks f s m) (md_rest m @ (0x80 # replicate (55 - k) 0) @ len)"
proof -
  have "length (md_rest m @ (0x80 # replicate (55 - k) 0) @ len) = 64" using assms by simp
  from md_blocks_step[OF this, of f "md_blocks f s m" "[]"] show ?thesis
    unfolding md_blocks_append(1)[of f s m] by (simp add: md_blocks_short)
qed

lemma md_final2:
  assumes "length (md_rest m) = k" "k < 64" "length len = 8"
  shows "md_blocks f s (m @ (0x80 # replicate (63 - k) 0) @ (replicate 56 0 @ len)) =
    f (f (md_blocks f s m) (md_rest m @ (0x80 # replicate (63 - k) 0))) (replicate 56 0 @ len)"
proof -
  have a: "length (md_rest m @ (0x80 # replicate (63 - k) 0)) = 64" using assms by simp
  have b: "length (replicate 56 0 @ len) = 64" using assms by simp
  have "md_blocks f s (m @ (0x80 # replicate (63 - k) 0) @ (replicate 56 0 @ len)) =
      md_blocks f (md_blocks f s m) ((md_rest m @ (0x80 # replicate (63 - k) 0)) @ (replicate 56 0 @ len))"
    unfolding md_blocks_append(1)[of f s m] by simp
  also have "\<dots> = md_blocks f (f (md_blocks f s m) (md_rest m @ (0x80 # replicate (63 - k) 0))) ((replicate 56 0 @ len) @ [])"
    unfolding md_blocks_step[OF a] by simp
  also have "\<dots> = f (f (md_blocks f s m) (md_rest m @ (0x80 # replicate (63 - k) 0))) (replicate 56 0 @ len)"
    unfolding md_blocks_step[OF b] by (simp add: md_blocks_short)
  finally show ?thesis .
qed

lemma sha1_pad_short:
  assumes "length (s_data c) = 64" "k < 56" "unat (drop_bit 3 (s_countLo c) AND 0x3F) = k"
  shows "s_digest (sha1_pad c) = s_digest c" "length (s_data (sha1_pad c)) = 64"
    "take 56 (s_data (sha1_pad c)) = take k (s_data c) @ 0x80 # replicate (55 - k) 0"
proof -
  have "take (Suc k) ((s_data c)[k := 0x80]) = take k (s_data c) @ [0x80]" using take_put[of k "s_data c" "0x80"] assms by simp
  moreover have "56 - k = Suc (55 - k)" using assms(2) by simp
  ultimately show "s_digest (sha1_pad c) = s_digest c" "length (s_data (sha1_pad c)) = 64"
    "take 56 (s_data (sha1_pad c)) = take k (s_data c) @ 0x80 # replicate (55 - k) 0"
    using assms by (simp_all add: sha1_pad_def)
qed

lemma sha1_pad_long:
  assumes "length (s_data c) = 64" "56 \<le> k" "k < 64" "unat (drop_bit 3 (s_countLo c) AND 0x3F) = k"
  shows "s_digest (sha1_pad c) = fips_block (s_digest c) (take k (s_data c) @ 0x80 # replicate (63 - k) 0)"
    "length (s_data (sha1_pad c)) = 64" "take 56 (s_data (sha1_pad c)) = replicate 56 0"
proof -
  let ?d = "take k (s_data c) @ 0x80 # replicate (63 - k) 0"
  have "take (Suc k) ((s_data c)[k := 0x80]) = take k (s_data c) @ [0x80]" using take_put[of k "s_data c" "0x80"] assms by simp
  then have p: "sha1_pad c = (let c' = sha1_transform (c\<lparr>s_data := sha1_byteReverse ?d 64\<rparr>) in
      c'\<lparr>s_data := replicate 56 0 @ drop 56 (s_data c')\<rparr>)"
    using assms unfolding sha1_pad_def Let_def by simp
  have l: "length ?d = 64" using assms by simp
  show "s_digest (sha1_pad c) = fips_block (s_digest c) ?d"
    unfolding p Let_def by (simp add: sha1_transform_def byteReverse_words[OF l] sha1_compress_fips[OF l])
  show "length (s_data (sha1_pad c)) = 64" "take 56 (s_data (sha1_pad c)) = replicate 56 0"
    unfolding p Let_def by (simp_all add: sha1_transform_def byteReverse_length[OF l])
qed

lemma sha1_digest_eq:
  assumes "length (s_data (sha1_pad c)) = 64"
  shows "fst (sha1_digest c) = map (sha1_hash_byte (fips_block (s_digest (sha1_pad c))
    (take 56 (s_data (sha1_pad c)) @ rev (bytes32 (s_countHi c)) @ rev (bytes32 (s_countLo c))))) [0..<20]"
proof -
  let ?b = "take 56 (s_data (sha1_pad c)) @ rev (bytes32 (s_countHi c)) @ rev (bytes32 (s_countLo c))"
  have "length ?b = 64" using assms by (simp add: bytes32_def)
  then have "sha1_compress h (be_words ?b) = fips_block h ?b" for h by (rule sha1_compress_fips)
  then show ?thesis
    by (simp add: sha1_digest_def Let_def sha1_transform_def words_last_block[OF assms] del: upt_rec_numeral)
qed

lemma sha1_digest_fips:
  assumes "sha1_absorbed c m"
  shows "fst (sha1_digest c) = fips_sha1 m"
proof -
  let ?n = "length m" and ?k = "length m mod 64" and ?h = "md_blocks fips_block fips_init m"
  let ?len = "rev (bytes32 (s_countHi c)) @ rev (bytes32 (s_countLo c))"
  have c: "s_digest c = ?h" "length (s_data c) = 64" "take ?k (s_data c) = md_rest m"
    "s_countLo c = of_nat (8 * ?n)" "s_countHi c = of_nat (8 * ?n div 2 ^ 32)"
    using assms by (auto simp: sha1_absorbed_def sha1_core_def)
  have k: "?k < 64" "length (md_rest m) = ?k" by (simp_all add: md_rest_length)
  have ll: "length ?len = 8" by (simp add: bytes32_def)
  note cnt = bit_count_mod[OF c(4)]
  have "rev (bytes64 (of_nat (8 * ?n))) = ?len" unfolding bytes64_count c(4,5) ..
  note pad = md_pad_split[OF refl this]
  have "length (s_data (sha1_pad c)) = 64 \<and> fips_block (s_digest (sha1_pad c)) (take 56 (s_data (sha1_pad c)) @ ?len) =
      md_blocks fips_block fips_init (m @ md_pad (\<lambda>n. rev (bytes64 n)) ?n)"
  proof (cases "?k < 56")
    case True
    note p = sha1_pad_short[OF c(2) True cnt]
    have "md_blocks fips_block fips_init (m @ (0x80 # replicate (55 - ?k) 0) @ ?len) =
        fips_block ?h (md_rest m @ (0x80 # replicate (55 - ?k) 0) @ ?len)"
      using md_final[OF k(2) _ ll] True by simp
    then show ?thesis unfolding pad p using True p(2) c(1,3) by simp
  next
    case False
    then have "56 \<le> ?k" by simp
    note p = sha1_pad_long[OF c(2) this k(1) cnt]
    show ?thesis unfolding pad p using False p(2) c(1,3) md_final2[OF k(2,1) ll, of fips_block fips_init] by simp
  qed
  then show ?thesis
    using sha1_digest_eq[of c] fips_length[of "m @ md_pad (\<lambda>n. rev (bytes64 n)) ?n"]
    by (simp add: fips_sha1_def md_hash_def sha1_output del: upt_rec_numeral)
qed

section \<open>SHA-1 as a digest engine\<close>

text \<open>The constructor calls \<^verbatim>\<open>reset()\<close>, which overwrites every field of the context.\<close>

definition sha1_new :: sha1 where
  "sha1_new = sha1_reset \<lparr>s_digest = [], s_countLo = 0, s_countHi = 0, s_data = [], s_slop = 0\<rparr>"

lemma fips_sha1_length: "length (fips_sha1 m) = 20"
proof -
  have "length (concat (map (\<lambda>w. rev (bytes32 w)) h)) = 4 * length h" for h
    by (induction h) (simp_all add: bytes32_def)
  then show ?thesis by (simp add: fips_sha1_def md_hash_def fips_length)
qed

interpretation sha1: digest_engine sha1_new "\<lambda>c. Some (sha1_reset c)" "\<lambda>x c. Some (sha1_updateImpl x c)"
  "\<lambda>c. Some (sha1_digest c)" sha1_absorbed fips_sha1 64 20 "2 ^ 32"
proof
  show "sha1_absorbed sha1_new []" by (simp add: sha1_new_def sha1_reset_absorbed)
  show "\<exists>e'. Some (sha1_digest e) = Some (fips_sha1 m, e') \<and> sha1_absorbed e' []" if "sha1_absorbed e m" for e m
    using sha1_digest_fips[OF that] sha1_reset_absorbed by (cases "sha1_digest e") (auto simp: sha1_digest_def Let_def)
qed (auto simp: sha1_reset_absorbed sha1_update_absorbs fips_sha1_length)

text \<open>
  C17.  SHA-1: whatever the pieces in which a message is given (each below \<open>2\<^sup>3\<^sup>2\<close> bytes), the engine's
  digest is the SHA-1 of FIPS 180-4 of the whole message, and the engine is then ready for the next one.
\<close>

theorem sha1_digest_correct:
  assumes "list_all (\<lambda>x. length x < 2 ^ 32) xs" "list_all (\<lambda>x. length x < 2 ^ 32) ys"
  shows "fst (sha1_digest (fold sha1_updateImpl xs sha1_new)) = fips_sha1 (concat xs) \<and>
    fst (sha1_digest (fold sha1_updateImpl ys (snd (sha1_digest (fold sha1_updateImpl xs sha1_new))))) = fips_sha1 (concat ys)"
proof -
  have f: "feed (\<lambda>x c. Some (sha1_updateImpl x c)) zs c = Some (fold sha1_updateImpl zs c)" for zs c
    by (induction zs arbitrary: c) (simp_all add: feed_simps)
  have "\<exists>e'. sha1_digest (fold sha1_updateImpl zs c) = (fips_sha1 (concat zs), e') \<and> sha1_absorbed e' []"
    if "sha1_absorbed c []" "list_all (\<lambda>x. length x < 2 ^ 32) zs" for c zs
    using sha1.updates_ok[OF that] sha1.digest_ok by (fastforce simp: f)
  from this[OF sha1.fresh_ok assms(1)] this[OF _ assms(2)] show ?thesis by fastforce
qed

theorem sha1_digest_correct_witness:
  "fst (sha1_digest (fold sha1_updateImpl [[0x61], [0x62, 0x63]] sha1_new)) = fips_sha1 [0x61, 0x62, 0x63]"
  using conjunct1[OF sha1_digest_correct[of "[[0x61], [0x62, 0x63]]" "[]"]] by simp
end
