(* ===== verification/MDEngine.thy ===== *)
theory MDEngine
  imports Digest
begin

text \<open>
  The engine that \<^verbatim>\<open>MD4Engine\<close> and \<^verbatim>\<open>MD5Engine\<close> have in common: the two classes differ in \<^verbatim>\<open>transform\<close> only,
  which is an argument here.  The locale \<open>md_transform\<close> states what is required of it.

  The variable \<^verbatim>\<open>unsigned int i\<close> of the loop in \<^verbatim>\<open>updateImpl\<close> has 32 bits while \<^verbatim>\<open>inputLen\<close> has 64: the
  loop is a partial function, and \<open>None\<close> is the call that does not return.
\<close>

section \<open>The engine\<close>

record mdctx =
  x_state :: "u32 list"
  x_count0 :: u32
  x_count1 :: u32
  x_buffer :: "u8 list"

definition md_encode_word :: "u32 \<Rightarrow> u8 list" where
  "md_encode_word w =
    [ucast (w AND 0xff), ucast (drop_bit 8 w AND 0xff), ucast (drop_bit 16 w AND 0xff), ucast (drop_bit 24 w AND 0xff)]"

definition md_encode :: "u32 list \<Rightarrow> u8 list" where
  "md_encode input = concat (map md_encode_word input)"

fun md_decode :: "u8 list \<Rightarrow> u32 list" where
  "md_decode (a # b # c # d # r) =
    (ucast a OR push_bit 8 (ucast b) OR push_bit 16 (ucast c) OR push_bit 24 (ucast d)) # md_decode r"
| "md_decode _ = []"

definition md_reset :: mdctx where
  "md_reset = \<lparr>x_state = [0x67452301, 0xefcdab89, 0x98badcfe, 0x10325476], x_count0 = 0, x_count1 = 0,
     x_buffer = replicate 64 0\<rparr>"

partial_function (option) md_loop :: "(u32 list \<Rightarrow> u8 list \<Rightarrow> u32 list) \<Rightarrow> u8 list \<Rightarrow> u32 \<Rightarrow> u32 list \<Rightarrow>
    (u32 \<times> u32 list) option" where
  "md_loop transform input i state =
    (if unat (i + 63) < length input then
       md_loop transform input (i + 64) (transform state (take 64 (drop (unat i) input)))
     else Some (i, state))"

declare md_loop.simps [code]

text \<open>\<^verbatim>\<open>memcpy(&_context.buffer[index], src, n)\<close>\<close>

definition put_at :: "nat \<Rightarrow> u8 list \<Rightarrow> u8 list \<Rightarrow> u8 list" where
  "put_at index src buffer = take index buffer @ src @ drop (index + length src) buffer"

definition md_updateImpl :: "(u32 list \<Rightarrow> u8 list \<Rightarrow> u32 list) \<Rightarrow> u8 list \<Rightarrow> mdctx \<Rightarrow> mdctx option" where
  "md_updateImpl transform input c =
    (let index = unat (drop_bit 3 (x_count0 c) AND 0x3F);
         n = of_nat (length input) :: u32;
         c = c\<lparr>x_count0 := x_count0 c + push_bit 3 n\<rparr>;
         c = (if x_count0 c < push_bit 3 n then c\<lparr>x_count1 := x_count1 c + 1\<rparr> else c);
         c = c\<lparr>x_count1 := x_count1 c + drop_bit 29 n\<rparr>;
         partLen = 64 - index
     in if length input \<ge> partLen then
          let c = c\<lparr>x_buffer := put_at index (take partLen input) (x_buffer c)\<rparr>;
              c = c\<lparr>x_state := transform (x_state c) (x_buffer c)\<rparr>
          in do { (i, state) \<leftarrow> md_loop transform input (of_nat partLen) (x_state c);
                  Some (c\<lparr>x_state := state, x_buffer := put_at 0 (drop (unat i) input) (x_buffer c)\<rparr>) }
        else Some (c\<lparr>x_buffer := put_at index input (x_buffer c)\<rparr>))"

definition md_PADDING :: "u8 list" where
  "md_PADDING = 0x80 # replicate 63 0"

definition md_digest :: "(u32 list \<Rightarrow> u8 list \<Rightarrow> u32 list) \<Rightarrow> mdctx \<Rightarrow> (u8 list \<times> mdctx) option" where
  "md_digest transform c =
    (let bits = md_encode [x_count0 c, x_count1 c];
         index = unat (drop_bit 3 (x_count0 c) AND 0x3f);
         padLen = (if index < 56 then 56 - index else 120 - index)
     in do { c \<leftarrow> md_updateImpl transform (take padLen md_PADDING) c;
             c \<leftarrow> md_updateImpl transform bits c;
             Some (md_encode (x_state c), md_reset) })"

section \<open>Words in memory\<close>

lemma md_encode_word_bytes: "md_encode_word w = bytes32 w"
proof -
  have m: "(0xff :: u32) = mask 8" by (simp add: mask_eq_exp_minus_1)
  show ?thesis unfolding md_encode_word_def bytes32_def m
    by (simp, intro conjI; rule bit_word_eqI; simp add: bit_simps)
qed

lemma md_encode_bytes: "md_encode ws = concat (map bytes32 ws)"
  by (simp add: md_encode_def md_encode_word_bytes[abs_def])

fun le_words :: "u8 list \<Rightarrow> u32 list" where
  "le_words (a # b # c # d # r) = le32 a b c d # le_words r"
| "le_words _ = []"

lemma md_decode_le: "md_decode b = le_words b"
  by (induction b rule: md_decode.induct) (simp_all add: le32_def or.assoc or.commute or.left_commute)

lemma put_at_length: "index + length src \<le> length buffer \<Longrightarrow> length (put_at index src buffer) = length buffer"
  by (simp add: put_at_def)

section \<open>The bulk loop\<close>

lemma md_loop_short:
  assumes "unat i \<le> length input" "length input \<le> 2 ^ 32 - 64"
  shows "\<exists>j. md_loop f input i s = Some (j, md_blocks f s (drop (unat i) input)) \<and>
    drop (unat j) input = md_rest (drop (unat i) input)"
  using assms
proof (induction "length input - unat i" arbitrary: i s rule: less_induct)
  case less
  let ?m = "drop (unat i) input"
  have w: "unat (i + 63) = unat i + 63"
    using less.prems unat_word_ariths(1)[of i 63] by simp
  show ?case
  proof (cases "unat (i + 63) < length input")
    case True
    have w2: "unat (i + 64) = unat i + 64" using less.prems True w unat_word_ariths(1)[of i 64] by simp
    have d: "drop (unat (i + 64)) input = drop 64 ?m" by (simp add: w2 add.commute)
    have b: "length (take 64 ?m) = 64" "?m = take 64 ?m @ drop (unat (i + 64)) input"
      unfolding d append_take_drop_id using True w by simp_all
    have "\<exists>j. md_loop f input (i + 64) (f s (take 64 ?m)) =
        Some (j, md_blocks f (f s (take 64 ?m)) (drop (unat (i + 64)) input)) \<and>
      drop (unat j) input = md_rest (drop (unat (i + 64)) input)"
      using True w w2 less.prems by (intro less.hyps) auto
    moreover have "md_blocks f s ?m = md_blocks f (f s (take 64 ?m)) (drop (unat (i + 64)) input)"
      "md_rest ?m = md_rest (drop (unat (i + 64)) input)"
      using md_blocks_step[OF b(1), of f s] md_rest_step[OF b(1)] b(2) by metis+
    ultimately show ?thesis using True by (subst md_loop.simps) simp
  next
    case False
    then have "length ?m < 64" using w by simp
    then show ?thesis using False by (subst md_loop.simps) (simp add: md_blocks_short md_rest_short)
  qed
qed

text \<open>From \<open>2\<^sup>3\<^sup>2\<close> bytes on, the 32-bit index never reaches the length.\<close>

lemma md_loop_diverges:
  assumes "2 ^ 32 \<le> length input"
  shows "md_loop f input i s = None"
proof -
  have "length input < 2 ^ 32" if "md_loop f input i s = Some r" for r
  proof (rule md_loop.raw_induct[where P = "\<lambda>f input i s r. length input < 2 ^ 32", OF _ that])
    fix loop and f :: "u32 list \<Rightarrow> u8 list \<Rightarrow> u32 list" and input and i :: u32 and s r
    assume IH: "\<And>f input i s r. loop f input i s = Some r \<Longrightarrow> length (input :: u8 list) < 2 ^ 32"
      and eq: "(if unat (i + 63) < length input then loop f input (i + 64) (f s (take 64 (drop (unat i) input)))
        else Some (i, s)) = Some r"
    have "unat (i + 63 :: u32) < 2 ^ 32" using unsigned_less[of "i + 63 :: u32", where 'a = nat] by simp
    then show "length (input :: u8 list) < 2 ^ 32" using IH eq by (cases "unat (i + 63) < length input") auto
  qed
  then show ?thesis using assms by (cases "md_loop f input i s") auto
qed

section \<open>The contract of a digest engine\<close>

definition md_init :: "u32 list" where
  "md_init = [0x67452301, 0xefcdab89, 0x98badcfe, 0x10325476]"

definition md_core :: "(u32 list \<Rightarrow> u8 list \<Rightarrow> u32 list) \<Rightarrow> mdctx \<Rightarrow> u8 list \<Rightarrow> bool" where
  "md_core f c m \<longleftrightarrow> x_state c = md_blocks f md_init m \<and> length (x_buffer c) = 64 \<and>
    take (length m mod 64) (x_buffer c) = md_rest m"

definition md_absorbed :: "(u32 list \<Rightarrow> u8 list \<Rightarrow> u32 list) \<Rightarrow> mdctx \<Rightarrow> u8 list \<Rightarrow> bool" where
  "md_absorbed f c m \<longleftrightarrow> md_core f c m \<and> x_count0 c = of_nat (8 * length m) \<and>
    x_count1 c = of_nat (8 * length m div 2 ^ 32)"

lemma md_reset_absorbed: "md_absorbed f md_reset []"
  by (simp add: md_absorbed_def md_core_def md_reset_def md_init_def md_blocks_short md_rest_short)

text \<open>The copy into the buffer and the transformation of the blocks, apart from the count.\<close>

definition md_consume :: "(u32 list \<Rightarrow> u8 list \<Rightarrow> u32 list) \<Rightarrow> nat \<Rightarrow> u8 list \<Rightarrow> mdctx \<Rightarrow> mdctx option" where
  "md_consume f index x c =
    (if length x \<ge> 64 - index then
       do { (i, state) \<leftarrow> md_loop f x (of_nat (64 - index)) (f (x_state c) (put_at index (take (64 - index) x) (x_buffer c)));
            Some (c\<lparr>x_state := state,
              x_buffer := put_at 0 (drop (unat i) x) (put_at index (take (64 - index) x) (x_buffer c))\<rparr>) }
     else Some (c\<lparr>x_buffer := put_at index x (x_buffer c)\<rparr>))"

lemma md_updateImpl_consume:
  "md_updateImpl f x c =
    md_consume f (unat (drop_bit 3 (x_count0 c) AND 0x3F)) x
      (c\<lparr>x_count0 := x_count0 c + push_bit 3 (of_nat (length x)),
         x_count1 := (if x_count0 c + push_bit 3 (of_nat (length x)) < push_bit 3 (of_nat (length x))
           then x_count1 c + 1 else x_count1 c) + drop_bit 29 (of_nat (length x))\<rparr>)"
  by (auto simp: md_updateImpl_def md_consume_def Let_def)

lemma md_consume_full:
  assumes c: "md_core f c m" and x: "64 - length m mod 64 \<le> length x" "length x \<le> 2 ^ 32 - 64"
  shows "\<exists>s b. md_consume f (length m mod 64) x c = Some (c\<lparr>x_state := s, x_buffer := b\<rparr>) \<and>
    md_core f (c\<lparr>x_state := s, x_buffer := b\<rparr>) (m @ x)"
proof -
  let ?k = "length m mod 64" let ?y = "drop (64 - ?k) x"
  let ?b = "md_rest m @ take (64 - ?k) x" let ?s = "f (md_blocks f md_init m) ?b"
  have k: "?k < 64" by simp
  have i: "x_state c = md_blocks f md_init m" "length (x_buffer c) = 64" "take ?k (x_buffer c) = md_rest m"
    using c by (auto simp: md_core_def)
  have b: "put_at ?k (take (64 - ?k) x) (x_buffer c) = ?b" "length ?b = 64"
    using i x k by (simp_all add: put_at_def md_rest_length)
  have u: "unat (of_nat (64 - ?k) :: u32) = 64 - ?k" unfolding unat_of_nat by simp
  obtain j where j: "md_loop f x (of_nat (64 - ?k)) ?s = Some (j, md_blocks f ?s ?y)" "drop (unat j) x = md_rest ?y"
    using md_loop_short[of "of_nat (64 - ?k)" x f ?s] x unfolding u by auto
  have e: "md_rest m @ x = ?b @ ?y" by simp
  have blocks: "md_blocks f md_init (m @ x) = md_blocks f ?s ?y" "md_rest (m @ x) = md_rest ?y"
    unfolding md_blocks_append(1)[of f md_init m x] md_blocks_append(2)[of m x] e md_blocks_step[OF b(2)] md_rest_step[OF b(2)]
    by (rule refl)+
  have l: "length (put_at 0 (md_rest ?y) ?b) = 64"
    using put_at_length[of 0 "md_rest ?y" ?b] md_rest_less[of ?y] b(2) by simp
  have t: "take (length (m @ x) mod 64) (put_at 0 (md_rest ?y) ?b) = md_rest ?y"
    using md_rest_length[of "m @ x"] blocks(2) by (simp add: put_at_def)
  show ?thesis
    by (rule exI[of _ "md_blocks f ?s ?y"], rule exI[of _ "put_at 0 (md_rest ?y) ?b"])
      (use x b(1) i(1) j blocks l t in \<open>simp add: md_consume_def md_core_def\<close>)
qed

lemma md_consume_short:
  assumes c: "md_core f c m" and x: "length x < 64 - length m mod 64"
  shows "\<exists>b. md_consume f (length m mod 64) x c = Some (c\<lparr>x_buffer := b\<rparr>) \<and> md_core f (c\<lparr>x_buffer := b\<rparr>) (m @ x)"
proof -
  let ?k = "length m mod 64" let ?b = "put_at ?k x (x_buffer c)"
  have i: "x_state c = md_blocks f md_init m" "length (x_buffer c) = 64" "take ?k (x_buffer c) = md_rest m"
    using c by (auto simp: md_core_def)
  have s: "length (md_rest m @ x) < 64" using x by (simp add: md_rest_length)
  have "(?k + length x) mod 64 = ?k + length x" using x by simp
  then have "length (m @ x) mod 64 = ?k + length x" unfolding length_append mod_add_left_eq .
  then have "take (length (m @ x) mod 64) ?b = md_rest m @ x" using i by (simp add: put_at_def md_rest_length)
  moreover have "length ?b = 64" using put_at_length[of ?k x "x_buffer c"] x i(2) by simp
  ultimately have "md_core f (c\<lparr>x_buffer := ?b\<rparr>) (m @ x)"
    unfolding md_core_def md_blocks_append(1)[of f md_init m x] md_blocks_append(2)[of m x] md_blocks_short[OF s] md_rest_short[OF s]
    using i(1) by simp
  then show ?thesis using x by (auto simp: md_consume_def)
qed

lemma md_update_absorbs:
  assumes c: "md_absorbed f c m" and x: "length x < 2 ^ 32 - 63"
  shows "\<exists>c'. md_updateImpl f x c = Some c' \<and> md_absorbed f c' (m @ x)"
proof -
  have cnt: "x_count0 c = of_nat (8 * length m)" "x_count1 c = of_nat (8 * length m div 2 ^ 32)" and core: "md_core f c m"
    using c by (auto simp: md_absorbed_def)
  let ?c = "c\<lparr>x_count0 := of_nat (8 * length (m @ x)), x_count1 := of_nat (8 * length (m @ x) div 2 ^ 32)\<rparr>"
  have "length x < 2 ^ 32" using x by simp
  note step = bit_count_step[OF cnt this]
  have u: "md_updateImpl f x c = md_consume f (length m mod 64) x ?c"
    unfolding md_updateImpl_consume bit_count_mod[OF cnt(1)] step(3) unfolding step(1) length_append ..
  have core': "md_core f ?c m" using core by (simp add: md_core_def)
  show ?thesis
  proof (cases "length x < 64 - length m mod 64")
    case True
    from md_consume_short[OF core' True] show ?thesis unfolding u by (auto simp: md_absorbed_def)
  next
    case False
    then have "64 - length m mod 64 \<le> length x" by simp
    from md_consume_full[OF core' this] x show ?thesis unfolding u by (fastforce simp: md_absorbed_def)
  qed
qed

text \<open>A call with \<open>2\<^sup>3\<^sup>2\<close> bytes or more does not return.\<close>

lemma md_update_diverges:
  assumes "2 ^ 32 \<le> length x"
  shows "md_updateImpl f x c = None"
proof -
  have "64 - index \<le> length x" for index :: nat using assms by simp
  then show ?thesis unfolding md_updateImpl_consume md_consume_def by (simp add: md_loop_diverges[OF assms])
qed

definition md_reference :: "(u32 list \<Rightarrow> u8 list \<Rightarrow> u32 list) \<Rightarrow> u8 list \<Rightarrow> u8 list" where
  "md_reference f = md_hash f md_init bytes64 (\<lambda>s. concat (map bytes32 s))"

lemma md_digest_absorbs:
  assumes "md_absorbed f c m"
  shows "md_digest f c = Some (md_reference f m, md_reset)"
proof -
  let ?n = "length m" and ?k = "length m mod 64"
  have cnt: "x_count0 c = of_nat (8 * ?n)" "x_count1 c = of_nat (8 * ?n div 2 ^ 32)"
    using assms by (auto simp: md_absorbed_def)
  have "rev (bytes64 (of_nat (8 * ?n))) = rev (bytes32 (x_count0 c) @ bytes32 (x_count1 c))"
    unfolding bytes64_count cnt rev_append ..
  then have bits: "md_encode [x_count0 c, x_count1 c] = bytes64 (of_nat (8 * ?n))"
    unfolding rev_is_rev_conv by (simp add: md_encode_bytes)
  have pad: "take (if ?k < 56 then 56 - ?k else 120 - ?k) md_PADDING = 0x80 # replicate (md_zeros ?n) 0"
    by (auto simp: md_PADDING_def md_zeros_eq take_Cons' min_def)
  have lim: "length (0x80 # replicate (md_zeros ?n) (0 :: u8)) < 2 ^ 32 - 63"
    "length (bytes64 (of_nat (8 * ?n))) < 2 ^ 32 - 63"
    using mod_less_divisor[of 64 "119 - ?n mod 64"] unfolding md_zeros_def by (simp_all add: bytes64_def bytes32_def)
  obtain c1 where c1: "md_updateImpl f (0x80 # replicate (md_zeros ?n) 0) c = Some c1"
      "md_absorbed f c1 (m @ 0x80 # replicate (md_zeros ?n) 0)"
    using md_update_absorbs[OF assms lim(1)] by blast
  obtain c2 where c2: "md_updateImpl f (bytes64 (of_nat (8 * ?n))) c1 = Some c2"
      "md_absorbed f c2 (m @ md_pad bytes64 ?n)"
    using md_update_absorbs[OF c1(2) lim(2)] by (auto simp: md_pad_def)
  have "md_encode (x_state c2) = md_reference f m"
    using c2(2) by (simp add: md_encode_bytes md_absorbed_def md_core_def md_reference_def md_hash_def)
  then show ?thesis
    unfolding md_digest_def Let_def bits bit_count_mod[OF cnt(1)] pad using c1(1) c2(1) by simp
qed

text \<open>
  What the engine requires of \<^verbatim>\<open>transform\<close>: it computes the reference's compression function \<open>f\<close> on blocks
  of 64 bytes.
\<close>

lemma md_blocks_cong:
  assumes "\<And>s b. length b = 64 \<Longrightarrow> f s b = g s b"
  shows "md_blocks f s m = md_blocks g s m"
proof (induction "length m" arbitrary: s m rule: less_induct)
  case less
  show ?case using assms[of "take 64 m"] less[of "drop 64 m"] md_blocks_simps[of f s m] md_blocks_simps[of g s m] by auto
qed

locale md_transform =
  fixes transform f :: "u32 list \<Rightarrow> u8 list \<Rightarrow> u32 list"
  assumes refines: "length b = 64 \<Longrightarrow> transform s b = f s b"
    and state_length: "length (f s b) = 4"
begin

lemma reference: "md_reference transform m = md_reference f m"
  using md_blocks_cong[of transform f] refines by (simp add: md_reference_def md_hash_def)

lemma blocks_length: "length s = 4 \<Longrightarrow> length (md_blocks f s m) = 4"
  by (induction "length m" arbitrary: s m rule: less_induct) (subst md_blocks_simps, simp add: state_length)

lemma reference_length: "length (md_reference f m) = 16"
proof -
  have "length (concat (map bytes32 s)) = 4 * length s" for s
    by (induction s) (simp_all add: bytes32_def)
  then show ?thesis by (simp add: md_reference_def md_hash_def blocks_length md_init_def)
qed

end

sublocale md_transform \<subseteq> digest_engine md_reset "\<lambda>c. Some md_reset" "md_updateImpl transform" "md_digest transform"
  "md_absorbed transform" "md_reference f" 64 16 "2 ^ 32 - 63"
  by unfold_locales
    (simp_all add: md_reset_absorbed md_update_absorbs md_digest_absorbs reference reference_length)
end
