(* ===== verification/MD45.thy ===== *)
theory MD45
  imports MDEngine
begin

text \<open>
  \<^verbatim>\<open>MD5Engine\<close> and \<^verbatim>\<open>MD4Engine\<close>: the two \<^verbatim>\<open>transform\<close> functions, statement by statement, and RFC 1321
  and RFC 1320 as their references.

  A statement such as \<^verbatim>\<open>FF (d, a, b, c, x[ 1], S12, 0xe8c7b756)\<close> is an entry of a list: the macro, the order in
  which it names the registers, the index into \<^verbatim>\<open>x\<close>, the value of the \<^verbatim>\<open>#define\<close> for the shift and the
  constant.
\<close>

section \<open>Registers and macros\<close>

datatype md_order = ABCD | DABC | CDAB | BCDA

datatype md_macro = FF | GG | HH | II

type_synonym regs4 = "u32 \<times> u32 \<times> u32 \<times> u32"

text \<open>The first register named is the one the macro assigns.\<close>

fun md_assign :: "md_order \<Rightarrow> (u32 \<Rightarrow> u32 \<Rightarrow> u32 \<Rightarrow> u32 \<Rightarrow> u32) \<Rightarrow> regs4 \<Rightarrow> regs4" where
  "md_assign ABCD g (a, b, c, d) = (g a b c d, b, c, d)"
| "md_assign DABC g (a, b, c, d) = (a, b, c, g d a b c)"
| "md_assign CDAB g (a, b, c, d) = (a, b, g c d a b, d)"
| "md_assign BCDA g (a, b, c, d) = (a, g b c d a, c, d)"

definition md_ROTATE_LEFT :: "u32 \<Rightarrow> nat \<Rightarrow> u32" where
  "md_ROTATE_LEFT x n = push_bit n x OR drop_bit (32 - n) x"

definition md_F :: "u32 \<Rightarrow> u32 \<Rightarrow> u32 \<Rightarrow> u32" where
  "md_F x y z = (x AND y) OR (NOT x AND z)"

definition md_H :: "u32 \<Rightarrow> u32 \<Rightarrow> u32 \<Rightarrow> u32" where
  "md_H x y z = x XOR y XOR z"

section \<open>MD5Engine::transform\<close>

definition md5_G :: "u32 \<Rightarrow> u32 \<Rightarrow> u32 \<Rightarrow> u32" where
  "md5_G x y z = (x AND z) OR (y AND NOT z)"

definition md5_I :: "u32 \<Rightarrow> u32 \<Rightarrow> u32 \<Rightarrow> u32" where
  "md5_I x y z = y XOR (x OR NOT z)"

fun md5_function :: "md_macro \<Rightarrow> u32 \<Rightarrow> u32 \<Rightarrow> u32 \<Rightarrow> u32" where
  "md5_function FF = md_F"
| "md5_function GG = md5_G"
| "md5_function HH = md_H"
| "md5_function II = md5_I"

definition md5_macro :: "md_macro \<Rightarrow> u32 \<Rightarrow> nat \<Rightarrow> u32 \<Rightarrow> u32 \<Rightarrow> u32 \<Rightarrow> u32 \<Rightarrow> u32 \<Rightarrow> u32" where
  "md5_macro f x s ac a b c d =
    (let a = a + (md5_function f b c d + x + ac);
         a = md_ROTATE_LEFT a s
     in a + b)"

definition md5_program :: "(md_macro \<times> md_order \<times> nat \<times> nat \<times> u32) list" where
  "md5_program =
   [(FF, ABCD, 0, 7, 0xd76aa478), (FF, DABC, 1, 12, 0xe8c7b756),
    (FF, CDAB, 2, 17, 0x242070db), (FF, BCDA, 3, 22, 0xc1bdceee),
    (FF, ABCD, 4, 7, 0xf57c0faf), (FF, DABC, 5, 12, 0x4787c62a),
    (FF, CDAB, 6, 17, 0xa8304613), (FF, BCDA, 7, 22, 0xfd469501),
    (FF, ABCD, 8, 7, 0x698098d8), (FF, DABC, 9, 12, 0x8b44f7af),
    (FF, CDAB, 10, 17, 0xffff5bb1), (FF, BCDA, 11, 22, 0x895cd7be),
    (FF, ABCD, 12, 7, 0x6b901122), (FF, DABC, 13, 12, 0xfd987193),
    (FF, CDAB, 14, 17, 0xa679438e), (FF, BCDA, 15, 22, 0x49b40821),
    (GG, ABCD, 1, 5, 0xf61e2562), (GG, DABC, 6, 9, 0xc040b340),
    (GG, CDAB, 11, 14, 0x265e5a51), (GG, BCDA, 0, 20, 0xe9b6c7aa),
    (GG, ABCD, 5, 5, 0xd62f105d), (GG, DABC, 10, 9, 0x2441453),
    (GG, CDAB, 15, 14, 0xd8a1e681), (GG, BCDA, 4, 20, 0xe7d3fbc8),
    (GG, ABCD, 9, 5, 0x21e1cde6), (GG, DABC, 14, 9, 0xc33707d6),
    (GG, CDAB, 3, 14, 0xf4d50d87), (GG, BCDA, 8, 20, 0x455a14ed),
    (GG, ABCD, 13, 5, 0xa9e3e905), (GG, DABC, 2, 9, 0xfcefa3f8),
    (GG, CDAB, 7, 14, 0x676f02d9), (GG, BCDA, 12, 20, 0x8d2a4c8a),
    (HH, ABCD, 5, 4, 0xfffa3942), (HH, DABC, 8, 11, 0x8771f681),
    (HH, CDAB, 11, 16, 0x6d9d6122), (HH, BCDA, 14, 23, 0xfde5380c),
    (HH, ABCD, 1, 4, 0xa4beea44), (HH, DABC, 4, 11, 0x4bdecfa9),
    (HH, CDAB, 7, 16, 0xf6bb4b60), (HH, BCDA, 10, 23, 0xbebfbc70),
    (HH, ABCD, 13, 4, 0x289b7ec6), (HH, DABC, 0, 11, 0xeaa127fa),
    (HH, CDAB, 3, 16, 0xd4ef3085), (HH, BCDA, 6, 23, 0x4881d05),
    (HH, ABCD, 9, 4, 0xd9d4d039), (HH, DABC, 12, 11, 0xe6db99e5),
    (HH, CDAB, 15, 16, 0x1fa27cf8), (HH, BCDA, 2, 23, 0xc4ac5665),
    (II, ABCD, 0, 6, 0xf4292244), (II, DABC, 7, 10, 0x432aff97),
    (II, CDAB, 14, 15, 0xab9423a7), (II, BCDA, 5, 21, 0xfc93a039),
    (II, ABCD, 12, 6, 0x655b59c3), (II, DABC, 3, 10, 0x8f0ccc92),
    (II, CDAB, 10, 15, 0xffeff47d), (II, BCDA, 1, 21, 0x85845dd1),
    (II, ABCD, 8, 6, 0x6fa87e4f), (II, DABC, 15, 10, 0xfe2ce6e0),
    (II, CDAB, 6, 15, 0xa3014314), (II, BCDA, 13, 21, 0x4e0811a1),
    (II, ABCD, 4, 6, 0xf7537e82), (II, DABC, 11, 10, 0xbd3af235),
    (II, CDAB, 2, 15, 0x2ad7d2bb), (II, BCDA, 9, 21, 0xeb86d391)]"

definition md5_statement :: "u32 list \<Rightarrow> regs4 \<Rightarrow> md_macro \<times> md_order \<times> nat \<times> nat \<times> u32 \<Rightarrow> regs4" where
  "md5_statement x r = (\<lambda>(f, ord, k, s, ac). md_assign ord (md5_macro f (x ! k) s ac) r)"

definition md5_transform :: "u32 list \<Rightarrow> u8 list \<Rightarrow> u32 list" where
  "md5_transform state block =
    (let x = md_decode (take 64 block)
     in case foldl (md5_statement x) (state ! 0, state ! 1, state ! 2, state ! 3) md5_program of
       (a, b, c, d) \<Rightarrow> [state ! 0 + a, state ! 1 + b, state ! 2 + c, state ! 3 + d])"

section \<open>MD4Engine::transform\<close>

definition md4_G :: "u32 \<Rightarrow> u32 \<Rightarrow> u32 \<Rightarrow> u32" where
  "md4_G x y z = (x AND y) OR (x AND z) OR (y AND z)"

text \<open>MD4 has three rounds; its macros take no constant and do not add \<^verbatim>\<open>b\<close> after the rotation.\<close>

fun md4_sum :: "md_macro \<Rightarrow> u32 \<Rightarrow> u32 \<Rightarrow> u32 \<Rightarrow> u32 \<Rightarrow> u32" where
  "md4_sum FF b c d x = md_F b c d + x"
| "md4_sum GG b c d x = md4_G b c d + x + 0x5a827999"
| "md4_sum HH b c d x = md_H b c d + x + 0x6ed9eba1"
| "md4_sum II b c d x = 0"

definition md4_macro :: "md_macro \<Rightarrow> u32 \<Rightarrow> nat \<Rightarrow> u32 \<Rightarrow> u32 \<Rightarrow> u32 \<Rightarrow> u32 \<Rightarrow> u32" where
  "md4_macro f x s a b c d = (let a = a + md4_sum f b c d x in md_ROTATE_LEFT a s)"

definition md4_program :: "(md_macro \<times> md_order \<times> nat \<times> nat) list" where
  "md4_program =
   [(FF, ABCD, 0, 3), (FF, DABC, 1, 7), (FF, CDAB, 2, 11), (FF, BCDA, 3, 19),
    (FF, ABCD, 4, 3), (FF, DABC, 5, 7), (FF, CDAB, 6, 11), (FF, BCDA, 7, 19),
    (FF, ABCD, 8, 3), (FF, DABC, 9, 7), (FF, CDAB, 10, 11), (FF, BCDA, 11, 19),
    (FF, ABCD, 12, 3), (FF, DABC, 13, 7), (FF, CDAB, 14, 11), (FF, BCDA, 15, 19),
    (GG, ABCD, 0, 3), (GG, DABC, 4, 5), (GG, CDAB, 8, 9), (GG, BCDA, 12, 13),
    (GG, ABCD, 1, 3), (GG, DABC, 5, 5), (GG, CDAB, 9, 9), (GG, BCDA, 13, 13),
    (GG, ABCD, 2, 3), (GG, DABC, 6, 5), (GG, CDAB, 10, 9), (GG, BCDA, 14, 13),
    (GG, ABCD, 3, 3), (GG, DABC, 7, 5), (GG, CDAB, 11, 9), (GG, BCDA, 15, 13),
    (HH, ABCD, 0, 3), (HH, DABC, 8, 9), (HH, CDAB, 4, 11), (HH, BCDA, 12, 15),
    (HH, ABCD, 2, 3), (HH, DABC, 10, 9), (HH, CDAB, 6, 11), (HH, BCDA, 14, 15),
    (HH, ABCD, 1, 3), (HH, DABC, 9, 9), (HH, CDAB, 5, 11), (HH, BCDA, 13, 15),
    (HH, ABCD, 3, 3), (HH, DABC, 11, 9), (HH, CDAB, 7, 11), (HH, BCDA, 15, 15)]"

definition md4_statement :: "u32 list \<Rightarrow> regs4 \<Rightarrow> md_macro \<times> md_order \<times> nat \<times> nat \<Rightarrow> regs4" where
  "md4_statement x r = (\<lambda>(f, ord, k, s). md_assign ord (md4_macro f (x ! k) s) r)"

definition md4_transform :: "u32 list \<Rightarrow> u8 list \<Rightarrow> u32 list" where
  "md4_transform state block =
    (let x = md_decode (take 64 block)
     in case foldl (md4_statement x) (state ! 0, state ! 1, state ! 2, state ! 3) md4_program of
       (a, b, c, d) \<Rightarrow> [state ! 0 + a, state ! 1 + b, state ! 2 + c, state ! 3 + d])"

section \<open>RFC 1321\<close>

text \<open>
  The registers rotate: step \<open>i\<close> replaces \<open>(a, b, c, d)\<close> by \<open>(d, a', b, c)\<close>.  The word used, the shift
  and the round function are given by formulas in \<open>i\<close>; the constant is the integer part of
  \<open>2\<^sup>3\<^sup>2 |sin (i + 1)|\<close>, tabulated.
\<close>

definition rfc1321_T :: "u32 list" where
  "rfc1321_T =
   [3614090360, 3905402710, 606105819, 3250441966, 4118548399, 1200080426, 2821735955, 4249261313,
    1770035416, 2336552879, 4294925233, 2304563134, 1804603682, 4254626195, 2792965006, 1236535329,
    4129170786, 3225465664, 643717713, 3921069994, 3593408605, 38016083, 3634488961, 3889429448,
    568446438, 3275163606, 4107603335, 1163531501, 2850285829, 4243563512, 1735328473, 2368359562,
    4294588738, 2272392833, 1839030562, 4259657740, 2763975236, 1272893353, 4139469664, 3200236656,
    681279174, 3936430074, 3572445317, 76029189, 3654602809, 3873151461, 530742520, 3299628645,
    4096336452, 1126891415, 2878612391, 4237533241, 1700485571, 2399980690, 4293915773, 2240044497,
    1873313359, 4264355552, 2734768916, 1309151649, 4149444226, 3174756917, 718787259, 3951481745]"

definition rfc1321_k :: "nat \<Rightarrow> nat" where
  "rfc1321_k i = (if i < 16 then i else if i < 32 then (5 * i + 1) mod 16 else if i < 48 then (3 * i + 5) mod 16
     else 7 * i mod 16)"

definition rfc1321_s :: "nat \<Rightarrow> nat" where
  "rfc1321_s i = [[7, 12, 17, 22], [5, 9, 14, 20], [4, 11, 16, 23], [6, 10, 15, 21]] ! (i div 16) ! (i mod 4)"

definition rfc1321_f :: "nat \<Rightarrow> u32 \<Rightarrow> u32 \<Rightarrow> u32 \<Rightarrow> u32" where
  "rfc1321_f i x y z =
    (if i < 16 then (x AND y) OR (NOT x AND z)
     else if i < 32 then (z AND x) OR (NOT z AND y)
     else if i < 48 then x XOR y XOR z
     else y XOR (x OR NOT z))"

definition rfc1321_step :: "u32 list \<Rightarrow> regs4 \<Rightarrow> nat \<Rightarrow> regs4" where
  "rfc1321_step X = (\<lambda>(a, b, c, d) i.
    (d, b + word_rotl (rfc1321_s i) (a + rfc1321_f i b c d + X ! rfc1321_k i + rfc1321_T ! i), b, c))"

definition rfc1321_block :: "u32 list \<Rightarrow> u8 list \<Rightarrow> u32 list" where
  "rfc1321_block h b =
    (case foldl (rfc1321_step (le_words b)) (h ! 0, h ! 1, h ! 2, h ! 3) [0..<64] of
       (A, B, C, D) \<Rightarrow> [h ! 0 + A, h ! 1 + B, h ! 2 + C, h ! 3 + D])"

section \<open>RFC 1320\<close>

definition rfc1320_k :: "nat \<Rightarrow> nat" where
  "rfc1320_k i = (if i < 16 then i else if i < 32 then 4 * (i mod 4) + i div 4 mod 4
     else 8 * (i mod 2) + 4 * (i div 2 mod 2) + 2 * (i div 4 mod 2) + i div 8 mod 2)"

definition rfc1320_s :: "nat \<Rightarrow> nat" where
  "rfc1320_s i = [[3, 7, 11, 19], [3, 5, 9, 13], [3, 9, 11, 15]] ! (i div 16) ! (i mod 4)"

definition rfc1320_f :: "nat \<Rightarrow> u32 \<Rightarrow> u32 \<Rightarrow> u32 \<Rightarrow> u32" where
  "rfc1320_f i x y z =
    (if i < 16 then (x AND y) OR (NOT x AND z)
     else if i < 32 then (x AND y) OR (x AND z) OR (y AND z)
     else x XOR y XOR z)"

definition rfc1320_c :: "nat \<Rightarrow> u32" where
  "rfc1320_c i = (if i < 16 then 0 else if i < 32 then 0x5a827999 else 0x6ed9eba1)"

definition rfc1320_step :: "u32 list \<Rightarrow> regs4 \<Rightarrow> nat \<Rightarrow> regs4" where
  "rfc1320_step X = (\<lambda>(a, b, c, d) i.
    (d, word_rotl (rfc1320_s i) (a + rfc1320_f i b c d + X ! rfc1320_k i + rfc1320_c i), b, c))"

definition rfc1320_block :: "u32 list \<Rightarrow> u8 list \<Rightarrow> u32 list" where
  "rfc1320_block h b =
    (case foldl (rfc1320_step (le_words b)) (h ! 0, h ! 1, h ! 2, h ! 3) [0..<48] of
       (A, B, C, D) \<Rightarrow> [h ! 0 + A, h ! 1 + B, h ! 2 + C, h ! 3 + D])"

section \<open>Rotating registers\<close>

text \<open>\<open>md_view i\<close> lists the registers in the order in which statement \<open>i\<close> names them.\<close>

fun md_view :: "nat \<Rightarrow> regs4 \<Rightarrow> regs4" where
  "md_view 0 (a, b, c, d) = (a, b, c, d)"
| "md_view (Suc 0) (a, b, c, d) = (d, a, b, c)"
| "md_view (Suc (Suc 0)) (a, b, c, d) = (c, d, a, b)"
| "md_view (Suc (Suc (Suc 0))) (a, b, c, d) = (b, c, d, a)"
| "md_view (Suc (Suc (Suc (Suc i)))) r = md_view i r"

fun md_nth_order :: "nat \<Rightarrow> md_order" where
  "md_nth_order 0 = ABCD"
| "md_nth_order (Suc 0) = DABC"
| "md_nth_order (Suc (Suc 0)) = CDAB"
| "md_nth_order (Suc (Suc (Suc 0))) = BCDA"
| "md_nth_order (Suc (Suc (Suc (Suc i)))) = md_nth_order i"

definition md_rotate :: "(u32 \<Rightarrow> u32 \<Rightarrow> u32 \<Rightarrow> u32 \<Rightarrow> u32) \<Rightarrow> regs4 \<Rightarrow> regs4" where
  "md_rotate g = (\<lambda>(a, b, c, d). (d, g a b c d, b, c))"

lemma md_view_assign: "md_view (Suc i) (md_assign (md_nth_order i) g r) = md_rotate g (md_view i r)"
proof (induction i r rule: md_view.induct)
  case (5 i r)
  then show ?case by (simp only: md_nth_order.simps md_view.simps)
qed (simp_all add: md_rotate_def)

lemma md_simulation:
  "md_view n (foldl (\<lambda>r i. md_assign (md_nth_order i) (g i) r) r [0..<n]) = foldl (\<lambda>r i. md_rotate (g i) r) r [0..<n]"
proof (induction n)
  case 0
  show ?case by (cases r) simp
next
  case (Suc n)
  then show ?case by (simp add: md_view_assign)
qed

lemma md_view_round: "md_view (4 * i) r = r"
proof (induction i)
  case 0
  show ?case by (cases r) simp
next
  case (Suc i)
  have "4 * Suc i = Suc (Suc (Suc (Suc (4 * i))))" by simp
  then show ?case using Suc by (simp only: md_view.simps)
qed

lemma md_rounds:
  "foldl (\<lambda>r i. md_assign (md_nth_order i) (g i) r) r [0..<4 * n] = foldl (\<lambda>r i. md_rotate (g i) r) r [0..<4 * n]"
  using md_simulation[of "4 * n" g r] unfolding md_view_round .

definition md_nth_macro :: "nat \<Rightarrow> md_macro" where
  "md_nth_macro i = (if i < 16 then FF else if i < 32 then GG else if i < 48 then HH else II)"

section \<open>MD5\<close>

lemma md5_program_eq:
  "md5_program = map (\<lambda>i. (md_nth_macro i, md_nth_order i, rfc1321_k i, rfc1321_s i, rfc1321_T ! i)) [0..<64]"
  by code_simp

lemma md4_program_eq:
  "md4_program = map (\<lambda>i. (md_nth_macro i, md_nth_order i, rfc1320_k i, rfc1320_s i)) [0..<48]"
  by code_simp

lemma md_rotate_left: "0 < n \<Longrightarrow> n < 32 \<Longrightarrow> md_ROTATE_LEFT x n = word_rotl n x"
  by (simp add: md_ROTATE_LEFT_def rotl_shift)

lemma rfc1321_s_range: "i < 64 \<Longrightarrow> 0 < rfc1321_s i \<and> rfc1321_s i < 32"
proof -
  have "list_all (\<lambda>i. 0 < rfc1321_s i \<and> rfc1321_s i < 32) [0..<64]" by code_simp
  then show "i < 64 \<Longrightarrow> 0 < rfc1321_s i \<and> rfc1321_s i < 32" by (simp add: list_all_iff del: upt_rec_numeral)
qed

lemma rfc1320_s_range: "i < 48 \<Longrightarrow> 0 < rfc1320_s i \<and> rfc1320_s i < 32"
proof -
  have "list_all (\<lambda>i. 0 < rfc1320_s i \<and> rfc1320_s i < 32) [0..<48]" by code_simp
  then show "i < 48 \<Longrightarrow> 0 < rfc1320_s i \<and> rfc1320_s i < 32" by (simp add: list_all_iff del: upt_rec_numeral)
qed

lemma md5_macro_step:
  assumes "i < 64"
  shows "md_rotate (md5_macro (md_nth_macro i) (X ! rfc1321_k i) (rfc1321_s i) (rfc1321_T ! i)) r = rfc1321_step X r i"
proof -
  have "md5_function (md_nth_macro i) = rfc1321_f i"
    by (auto simp: md_nth_macro_def rfc1321_f_def md_F_def md5_G_def md_H_def md5_I_def fun_eq_iff and.commute)
  then show ?thesis
    using rfc1321_s_range[OF assms]
    by (cases r) (simp add: md_rotate_def md5_macro_def rfc1321_step_def md_rotate_left Let_def add.commute add.left_commute)
qed

lemma md5_transform_rfc:
  assumes "length b = 64"
  shows "md5_transform s b = rfc1321_block s b"
proof -
  let ?X = "le_words b"
  have "foldl (md5_statement ?X) r md5_program = foldl (rfc1321_step ?X) r [0..<64]" for r
  proof -
    have "foldl (md5_statement ?X) r md5_program = foldl (\<lambda>r i. md_assign (md_nth_order i)
        (md5_macro (md_nth_macro i) (?X ! rfc1321_k i) (rfc1321_s i) (rfc1321_T ! i)) r) r [0..<4 * 16]"
      unfolding md5_program_eq foldl_map md5_statement_def by simp
    also have "\<dots> = foldl (rfc1321_step ?X) r [0..<4 * 16]"
      unfolding md_rounds by (rule foldl_upt_cong) (simp add: md5_macro_step)
    finally show ?thesis by simp
  qed
  then show ?thesis using assms by (simp add: md5_transform_def rfc1321_block_def md_decode_le del: upt_rec_numeral)
qed

section \<open>MD4\<close>

lemma md4_macro_step:
  assumes "i < 48"
  shows "md_rotate (md4_macro (md_nth_macro i) (X ! rfc1320_k i) (rfc1320_s i)) r = rfc1320_step X r i"
proof -
  have "md4_sum (md_nth_macro i) b c d x = rfc1320_f i b c d + x + rfc1320_c i" for b c d x
    using assms by (auto simp: md_nth_macro_def rfc1320_f_def rfc1320_c_def md_F_def md4_G_def md_H_def)
  then show ?thesis
    using rfc1320_s_range[OF assms]
    by (cases r) (simp add: md_rotate_def md4_macro_def rfc1320_step_def md_rotate_left Let_def add.assoc)
qed

lemma md4_transform_rfc:
  assumes "length b = 64"
  shows "md4_transform s b = rfc1320_block s b"
proof -
  let ?X = "le_words b"
  have "foldl (md4_statement ?X) r md4_program = foldl (rfc1320_step ?X) r [0..<48]" for r
  proof -
    have "foldl (md4_statement ?X) r md4_program = foldl (\<lambda>r i. md_assign (md_nth_order i)
        (md4_macro (md_nth_macro i) (?X ! rfc1320_k i) (rfc1320_s i)) r) r [0..<4 * 12]"
      unfolding md4_program_eq foldl_map md4_statement_def by simp
    also have "\<dots> = foldl (rfc1320_step ?X) r [0..<4 * 12]"
      unfolding md_rounds by (rule foldl_upt_cong) (simp add: md4_macro_step)
    finally show ?thesis by simp
  qed
  then show ?thesis using assms by (simp add: md4_transform_def rfc1320_block_def md_decode_le del: upt_rec_numeral)
qed

section \<open>The two engines\<close>

definition md5_reset :: mdctx where
  "md5_reset = md_reset"

definition md5_updateImpl :: "u8 list \<Rightarrow> mdctx \<Rightarrow> mdctx option" where
  "md5_updateImpl = md_updateImpl md5_transform"

definition md5_digest :: "mdctx \<Rightarrow> (u8 list \<times> mdctx) option" where
  "md5_digest = md_digest md5_transform"

definition md4_reset :: mdctx where
  "md4_reset = md_reset"

definition md4_updateImpl :: "u8 list \<Rightarrow> mdctx \<Rightarrow> mdctx option" where
  "md4_updateImpl = md_updateImpl md4_transform"

definition md4_digest :: "mdctx \<Rightarrow> (u8 list \<times> mdctx) option" where
  "md4_digest = md_digest md4_transform"

definition rfc_md5 :: "u8 list \<Rightarrow> u8 list" where
  "rfc_md5 = md_reference rfc1321_block"

definition rfc_md4 :: "u8 list \<Rightarrow> u8 list" where
  "rfc_md4 = md_reference rfc1320_block"

lemmas md5_defs = md5_reset_def md5_updateImpl_def md5_digest_def rfc_md5_def
lemmas md4_defs = md4_reset_def md4_updateImpl_def md4_digest_def rfc_md4_def

interpretation md5: md_transform md5_transform rfc1321_block
  by unfold_locales (simp_all add: md5_transform_rfc rfc1321_block_def split: prod.splits)

interpretation md4: md_transform md4_transform rfc1320_block
  by unfold_locales (simp_all add: md4_transform_rfc rfc1320_block_def split: prod.splits)

lemma md_update_returns: "length x < 2 ^ 32 - 63 \<Longrightarrow> md_updateImpl f x c \<noteq> None"
proof -
  assume x: "length x < 2 ^ 32 - 63"
  define index where "index = unat (drop_bit 3 (x_count0 c) AND 0x3F)"
  have u: "unat (of_nat (64 - index) :: u32) = 64 - index" unfolding unat_of_nat by simp
  have "md_consume f index x c' \<noteq> None" for c'
    using md_loop_short[of "of_nat (64 - index)" x f "f (x_state c') (put_at index (take (64 - index) x) (x_buffer c'))"] x
    unfolding md_consume_def u by auto
  then show ?thesis unfolding md_updateImpl_consume index_def[symmetric] .
qed

section \<open>Properties\<close>

text \<open>
  MD5 and MD4: whatever the pieces in which a message is given (each below \<open>2\<^sup>3\<^sup>2 - 63\<close> bytes), every
  call returns, the digest is the MD5 of RFC 1321, respectively the MD4 of RFC 1320, of the whole message,
  and the engine is left as a new one.
\<close>

theorem md_digest_correct:
  assumes "list_all (\<lambda>x. length x < 2 ^ 32 - 63) xs"
  shows "Option.bind (feed md5_updateImpl xs md5_reset) md5_digest = Some (rfc_md5 (concat xs), md5_reset) \<and>
    Option.bind (feed md4_updateImpl xs md4_reset) md4_digest = Some (rfc_md4 (concat xs), md4_reset)"
proof
  show "Option.bind (feed md5_updateImpl xs md5_reset) md5_digest = Some (rfc_md5 (concat xs), md5_reset)"
    using md5.updates_ok[OF md5.fresh_ok assms] md_digest_absorbs md5.reference by (auto simp: md5_defs)
  show "Option.bind (feed md4_updateImpl xs md4_reset) md4_digest = Some (rfc_md4 (concat xs), md4_reset)"
    using md4.updates_ok[OF md4.fresh_ok assms] md_digest_absorbs md4.reference by (auto simp: md4_defs)
qed

theorem md_digest_correct_witness:
  "Option.bind (feed md5_updateImpl [[0x61], [0x62, 0x63]] md5_reset) md5_digest = Some (rfc_md5 [0x61, 0x62, 0x63], md5_reset) \<and>
   Option.bind (feed md4_updateImpl [[0x61], [0x62, 0x63]] md4_reset) md4_digest = Some (rfc_md4 [0x61, 0x62, 0x63], md4_reset)"
  using md_digest_correct[of "[[0x61], [0x62, 0x63]]"] by simp

text \<open>
  The loop of \<^verbatim>\<open>updateImpl\<close> compares a 32-bit index with a 64-bit length: a call returns for every
  length below \<open>2\<^sup>3\<^sup>2 - 63\<close> and never returns for a length of \<open>2\<^sup>3\<^sup>2\<close> or more, in any state.
\<close>

theorem md_update_termination:
  "(length x < 2 ^ 32 - 63 \<longrightarrow> md5_updateImpl x c \<noteq> None \<and> md4_updateImpl x c \<noteq> None) \<and>
   (2 ^ 32 \<le> length x \<longrightarrow> md5_updateImpl x c = None \<and> md4_updateImpl x c = None)"
  using md_update_returns[of x] md_update_diverges[of x] by (auto simp: md5_defs md4_defs)

theorem md_update_termination_witness:
  "md5_updateImpl [0x61] md5_reset \<noteq> None \<and> md5_updateImpl (replicate (2 ^ 32) 0) md5_reset = None"
  using md_update_termination[of "[0x61]" md5_reset] md_update_termination[of "replicate (2 ^ 32) 0" md5_reset] by simp
end
