(* ===== verification/SHA2.thy ===== *)
theory SHA2
  imports MDEngine Complex_Main
begin

text \<open>
  \<^verbatim>\<open>SHA2Engine\<close>: SHA-224, SHA-256, SHA-384, SHA-512, SHA-512/224 and SHA-512/256, with FIPS 180-4 as the reference.

  The code has each step twice, on 32-bit and on 64-bit words with other constants; where the two copies are the same text up to
  the block size and the word type, they are one definition over the word type here.  \<^verbatim>\<open>HASHCONTEXT\<close> holds the counters and the state
  as unions of the two views, of which an object uses one; they are the two fields of \<open>sha2\<close>.  Only the first eight words of
  \<^verbatim>\<open>state32\<close> are used.
\<close>

section \<open>Tables and macros\<close>

definition K32 :: "u32 list" where
  "K32 = [
     0x428A2F98, 0x71374491, 0xB5C0FBCF, 0xE9B5DBA5, 0x3956C25B, 0x59F111F1, 0x923F82A4, 0xAB1C5ED5,
     0xD807AA98, 0x12835B01, 0x243185BE, 0x550C7DC3, 0x72BE5D74, 0x80DEB1FE, 0x9BDC06A7, 0xC19BF174,
     0xE49B69C1, 0xEFBE4786, 0x0FC19DC6, 0x240CA1CC, 0x2DE92C6F, 0x4A7484AA, 0x5CB0A9DC, 0x76F988DA,
     0x983E5152, 0xA831C66D, 0xB00327C8, 0xBF597FC7, 0xC6E00BF3, 0xD5A79147, 0x06CA6351, 0x14292967,
     0x27B70A85, 0x2E1B2138, 0x4D2C6DFC, 0x53380D13, 0x650A7354, 0x766A0ABB, 0x81C2C92E, 0x92722C85,
     0xA2BFE8A1, 0xA81A664B, 0xC24B8B70, 0xC76C51A3, 0xD192E819, 0xD6990624, 0xF40E3585, 0x106AA070,
     0x19A4C116, 0x1E376C08, 0x2748774C, 0x34B0BCB5, 0x391C0CB3, 0x4ED8AA4A, 0x5B9CCA4F, 0x682E6FF3,
     0x748F82EE, 0x78A5636F, 0x84C87814, 0x8CC70208, 0x90BEFFFA, 0xA4506CEB, 0xBEF9A3F7, 0xC67178F2]"

definition K64 :: "u64 list" where
  "K64 = [
     0x428A2F98D728AE22, 0x7137449123EF65CD, 0xB5C0FBCFEC4D3B2F, 0xE9B5DBA58189DBBC,
     0x3956C25BF348B538, 0x59F111F1B605D019, 0x923F82A4AF194F9B, 0xAB1C5ED5DA6D8118,
     0xD807AA98A3030242, 0x12835B0145706FBE, 0x243185BE4EE4B28C, 0x550C7DC3D5FFB4E2,
     0x72BE5D74F27B896F, 0x80DEB1FE3B1696B1, 0x9BDC06A725C71235, 0xC19BF174CF692694,
     0xE49B69C19EF14AD2, 0xEFBE4786384F25E3, 0x0FC19DC68B8CD5B5, 0x240CA1CC77AC9C65,
     0x2DE92C6F592B0275, 0x4A7484AA6EA6E483, 0x5CB0A9DCBD41FBD4, 0x76F988DA831153B5,
     0x983E5152EE66DFAB, 0xA831C66D2DB43210, 0xB00327C898FB213F, 0xBF597FC7BEEF0EE4,
     0xC6E00BF33DA88FC2, 0xD5A79147930AA725, 0x06CA6351E003826F, 0x142929670A0E6E70,
     0x27B70A8546D22FFC, 0x2E1B21385C26C926, 0x4D2C6DFC5AC42AED, 0x53380D139D95B3DF,
     0x650A73548BAF63DE, 0x766A0ABB3C77B2A8, 0x81C2C92E47EDAEE6, 0x92722C851482353B,
     0xA2BFE8A14CF10364, 0xA81A664BBC423001, 0xC24B8B70D0F89791, 0xC76C51A30654BE30,
     0xD192E819D6EF5218, 0xD69906245565A910, 0xF40E35855771202A, 0x106AA07032BBD1B8,
     0x19A4C116B8D2D0C8, 0x1E376C085141AB53, 0x2748774CDF8EEB99, 0x34B0BCB5E19B48A8,
     0x391C0CB3C5C95A63, 0x4ED8AA4AE3418ACB, 0x5B9CCA4F7763E373, 0x682E6FF3D6B2B8A3,
     0x748F82EE5DEFB2FC, 0x78A5636F43172F60, 0x84C87814A1F0AB72, 0x8CC702081A6439EC,
     0x90BEFFFA23631E28, 0xA4506CEBDE82BDE9, 0xBEF9A3F7B2C67915, 0xC67178F2E372532B,
     0xCA273ECEEA26619C, 0xD186B8C721C0C207, 0xEADA7DD6CDE0EB1E, 0xF57D4F7FEE6ED178,
     0x06F067AA72176FBA, 0x0A637DC5A2C898A6, 0x113F9804BEF90DAE, 0x1B710B35131C471B,
     0x28DB77F523047D84, 0x32CAAB7B40C72493, 0x3C9EBE0A15C9BEBC, 0x431D67C49C100D4C,
     0x4CC5D4BECB3E42B6, 0x597F299CFC657E2A, 0x5FCB6FAB3AD6FAEC, 0x6C44198C4A475817]"

definition sha2_padding :: "u8 list" where
  "sha2_padding = 0x80 # replicate 127 0"

definition ROTR32 :: "nat \<Rightarrow> u32 \<Rightarrow> u32" where
  "ROTR32 n x = drop_bit n (x AND 0xFFFFFFFF) OR push_bit (32 - n) x"

definition ROTR64 :: "nat \<Rightarrow> u64 \<Rightarrow> u64" where
  "ROTR64 n x = drop_bit n x OR push_bit (64 - n) x"

definition S320 :: "u32 \<Rightarrow> u32" where "S320 x = ROTR32 7 x XOR ROTR32 18 x XOR drop_bit 3 (x AND 0xFFFFFFFF)"
definition S321 :: "u32 \<Rightarrow> u32" where "S321 x = ROTR32 17 x XOR ROTR32 19 x XOR drop_bit 10 (x AND 0xFFFFFFFF)"
definition S322 :: "u32 \<Rightarrow> u32" where "S322 x = ROTR32 2 x XOR ROTR32 13 x XOR ROTR32 22 x"
definition S323 :: "u32 \<Rightarrow> u32" where "S323 x = ROTR32 6 x XOR ROTR32 11 x XOR ROTR32 25 x"
definition S640 :: "u64 \<Rightarrow> u64" where "S640 x = ROTR64 1 x XOR ROTR64 8 x XOR drop_bit 7 x"
definition S641 :: "u64 \<Rightarrow> u64" where "S641 x = ROTR64 19 x XOR ROTR64 61 x XOR drop_bit 6 x"
definition S642 :: "u64 \<Rightarrow> u64" where "S642 x = ROTR64 28 x XOR ROTR64 34 x XOR ROTR64 39 x"
definition S643 :: "u64 \<Rightarrow> u64" where "S643 x = ROTR64 14 x XOR ROTR64 18 x XOR ROTR64 41 x"

text \<open>The macros \<^verbatim>\<open>F320\<close> and \<^verbatim>\<open>F640\<close>, and \<^verbatim>\<open>F321\<close> and \<^verbatim>\<open>F641\<close>.\<close>

definition F0 :: "'w::len word \<Rightarrow> 'w word \<Rightarrow> 'w word \<Rightarrow> 'w word" where
  "F0 x y z = (x AND y) OR (z AND (x OR y))"

definition F1 :: "'w::len word \<Rightarrow> 'w word \<Rightarrow> 'w word \<Rightarrow> 'w word" where
  "F1 x y z = z XOR (x AND (y XOR z))"

text \<open>
  The macros \<^verbatim>\<open>P32\<close> and \<^verbatim>\<open>P64\<close>: the call number \<open>i\<close> is made with the eight registers rotated by \<open>i\<close>, so that the \<open>m\<close>-th argument is
  the register \<open>sha2_reg i m\<close>.
\<close>

definition sha2_reg :: "nat \<Rightarrow> nat \<Rightarrow> nat" where
  "sha2_reg i m = (m + 8 - i mod 8) mod 8"

definition sha2_P :: "('w::len word \<Rightarrow> 'w word) \<Rightarrow> ('w word \<Rightarrow> 'w word) \<Rightarrow> nat \<Rightarrow> 'w word \<Rightarrow> 'w word \<Rightarrow> 'w word list \<Rightarrow> 'w word list" where
  "sha2_P s2 s3 i x K t =
    (let r = (\<lambda>m. t ! sha2_reg i m);
         temp1 = r 7 + s3 (r 4) + F1 (r 4) (r 5) (r 6) + K + x;
         temp2 = s2 (r 0) + F0 (r 0) (r 1) (r 2);
         t = t[sha2_reg i 3 := r 3 + temp1]
     in t[sha2_reg i 7 := temp1 + temp2])"

definition GET_UINT32 :: "u8 list \<Rightarrow> nat \<Rightarrow> u32" where
  "GET_UINT32 b i = push_bit 24 (ucast (b ! i)) OR push_bit 16 (ucast (b ! (i + 1))) OR push_bit 8 (ucast (b ! (i + 2))) OR ucast (b ! (i + 3))"

definition PUT_UINT32 :: "u32 \<Rightarrow> u8 list" where
  "PUT_UINT32 n = [ucast (drop_bit 24 n), ucast (drop_bit 16 n), ucast (drop_bit 8 n), ucast n]"

definition GET_UINT64 :: "u8 list \<Rightarrow> nat \<Rightarrow> u64" where
  "GET_UINT64 b i =
    push_bit 56 (ucast (b ! i)) OR push_bit 48 (ucast (b ! (i + 1))) OR push_bit 40 (ucast (b ! (i + 2))) OR push_bit 32 (ucast (b ! (i + 3)))
    OR push_bit 24 (ucast (b ! (i + 4))) OR push_bit 16 (ucast (b ! (i + 5))) OR push_bit 8 (ucast (b ! (i + 6))) OR ucast (b ! (i + 7))"

definition PUT_UINT64 :: "u64 \<Rightarrow> u8 list" where
  "PUT_UINT64 n =
    [ucast (drop_bit 56 n), ucast (drop_bit 48 n), ucast (drop_bit 40 n), ucast (drop_bit 32 n),
     ucast (drop_bit 24 n), ucast (drop_bit 16 n), ucast (drop_bit 8 n), ucast n]"

section \<open>The compression functions\<close>

text \<open>\<^verbatim>\<open>R32\<close> extends the schedule by one word, within the second loop.\<close>

definition R32 :: "u32 list \<Rightarrow> nat \<Rightarrow> u32 list" where
  "R32 W t = W @ [S321 (W ! (t - 2)) + W ! (t - 7) + S320 (W ! (t - 15)) + W ! (t - 16)]"

definition sha256_process :: "u32 list \<Rightarrow> u8 list \<Rightarrow> u32 list" where
  "sha256_process state data =
    (let W = map (\<lambda>i. GET_UINT32 data (4 * i)) [0..<16];
         t = foldl (\<lambda>t i. sha2_P S322 S323 i (W ! i) (K32 ! i) t) state [0..<16];
         (t, W) = foldl (\<lambda>(t, W) i. let W = R32 W i in (sha2_P S322 S323 i (W ! i) (K32 ! i) t, W)) (t, W) [16..<64]
     in map (\<lambda>i. state ! i + t ! i) [0..<8])"

definition sha512_process :: "u64 list \<Rightarrow> u8 list \<Rightarrow> u64 list" where
  "sha512_process state data =
    (let W = map (\<lambda>i. GET_UINT64 data (8 * i)) [0..<16];
         W = foldl (\<lambda>W i. W @ [S641 (W ! (i - 2)) + W ! (i - 7) + S640 (W ! (i - 15)) + W ! (i - 16)]) W [16..<80];
         t = foldl (\<lambda>t i. sha2_P S642 S643 i (W ! i) (K64 ! i) t) state [0..<80]
     in map (\<lambda>i. state ! i + t ! i) [0..<8])"

section \<open>The engine\<close>

record 'w sha2ctx =
  h_total0 :: 'w
  h_total1 :: 'w
  h_state :: "'w list"
  h_buffer :: "u8 list"

text \<open>The loop over whole blocks, with the data that is left.\<close>

function sha2_loop :: "nat \<Rightarrow> ('s \<Rightarrow> u8 list \<Rightarrow> 's) \<Rightarrow> 's \<Rightarrow> u8 list \<Rightarrow> 's \<times> u8 list" where
  "sha2_loop B process s data =
    (if 0 < B \<and> length data \<ge> B then sha2_loop B process (process s (take B data)) (drop B data) else (s, data))"
  by pat_completeness auto
termination by (relation "measure (\<lambda>(B, process, s, data). length data)") auto

declare sha2_loop.simps [simp del]

definition sha2_absorb :: "nat \<Rightarrow> ('w::len word list \<Rightarrow> u8 list \<Rightarrow> 'w word list) \<Rightarrow> u8 list \<Rightarrow> 'w word sha2ctx \<Rightarrow> 'w word sha2ctx" where
  "sha2_absorb B process data c =
    (if data = [] then c
     else
       let cnt = of_nat (length data);
           left = unat (h_total0 c AND of_nat (B - 1));
           fill = B - left;
           c = c\<lparr>h_total0 := h_total0 c + cnt\<rparr>;
           c = (if h_total0 c < cnt then c\<lparr>h_total1 := h_total1 c + 1\<rparr> else c);
           (c, data, left) =
             (if left \<noteq> 0 \<and> length data \<ge> fill then
                let c = c\<lparr>h_buffer := put_at left (take fill data) (h_buffer c)\<rparr>;
                    c = c\<lparr>h_state := process (h_state c) (take B (h_buffer c))\<rparr>
                in (c, drop fill data, 0)
              else (c, data, left));
           (s, data) = sha2_loop B process (h_state c) data;
           c = c\<lparr>h_state := s\<rparr>
       in if data \<noteq> [] then c\<lparr>h_buffer := put_at left data (h_buffer c)\<rparr> else c)"

text \<open>The padding and the length in bits, as a number of two words.\<close>

definition sha2_finish :: "nat \<Rightarrow> ('w::len word \<Rightarrow> u8 list) \<Rightarrow> ('w word list \<Rightarrow> u8 list \<Rightarrow> 'w word list) \<Rightarrow> 'w word sha2ctx \<Rightarrow> 'w word sha2ctx" where
  "sha2_finish B put process c =
    (let high = drop_bit (LENGTH('w) - 3) (h_total0 c) OR push_bit 3 (h_total1 c);
         low = push_bit 3 (h_total0 c);
         msglen = put high @ put low;
         lst = unat (h_total0 c AND of_nat (B - 1));
         padn = (if lst < B - B div 8 then B - B div 8 - lst else 2 * B - B div 8 - lst);
         c = sha2_absorb B process (take padn sha2_padding) c
     in sha2_absorb B process msglen c)"

datatype sha2_algorithm = SHA_224 | SHA_256 | SHA_384 | SHA_512 | SHA_512_224 | SHA_512_256

definition above_256 :: "sha2_algorithm \<Rightarrow> bool" where
  "above_256 a \<longleftrightarrow> a \<noteq> SHA_224 \<and> a \<noteq> SHA_256"

record sha2 =
  h_algorithm :: sha2_algorithm
  h_ctx32 :: "u32 sha2ctx"
  h_ctx64 :: "u64 sha2ctx"

definition sha2_updateImpl :: "u8 list \<Rightarrow> sha2 \<Rightarrow> sha2" where
  "sha2_updateImpl buffer e =
    (if above_256 (h_algorithm e) then e\<lparr>h_ctx64 := sha2_absorb 128 sha512_process buffer (h_ctx64 e)\<rparr>
     else e\<lparr>h_ctx32 := sha2_absorb 64 sha256_process buffer (h_ctx32 e)\<rparr>)"

definition sha2_digestLength :: "sha2_algorithm \<Rightarrow> nat" where
  "sha2_digestLength a =
    (case a of SHA_224 \<Rightarrow> 224 | SHA_256 \<Rightarrow> 256 | SHA_384 \<Rightarrow> 384 | SHA_512 \<Rightarrow> 512 | SHA_512_224 \<Rightarrow> 224 | SHA_512_256 \<Rightarrow> 256) div 8"

definition sha2_state32 :: "sha2_algorithm \<Rightarrow> u32 list" where
  "sha2_state32 a =
    (if a = SHA_224 then
       [0xC1059ED8, 0x367CD507, 0x3070DD17, 0xF70E5939,
        0xFFC00B31, 0x68581511, 0x64F98FA7, 0xBEFA4FA4]
     else
       [0x6A09E667, 0xBB67AE85, 0x3C6EF372, 0xA54FF53A,
        0x510E527F, 0x9B05688C, 0x1F83D9AB, 0x5BE0CD19])"

definition sha2_state64 :: "sha2_algorithm \<Rightarrow> u64 list" where
  "sha2_state64 a =
    (if a = SHA_384 then
       [0xCBBB9D5DC1059ED8, 0x629A292A367CD507, 0x9159015A3070DD17, 0x152FECD8F70E5939,
        0x67332667FFC00B31, 0x8EB44A8768581511, 0xDB0C2E0D64F98FA7, 0x47B5481DBEFA4FA4]
     else if a = SHA_512 then
       [0x6A09E667F3BCC908, 0xBB67AE8584CAA73B, 0x3C6EF372FE94F82B, 0xA54FF53A5F1D36F1,
        0x510E527FADE682D1, 0x9B05688C2B3E6C1F, 0x1F83D9ABFB41BD6B, 0x5BE0CD19137E2179]
     else if a = SHA_512_224 then
       [0x8C3D37C819544DA2, 0x73E1996689DCD4D6, 0x1DFAB7AE32FF9C82, 0x679DD514582F9FCF,
        0x0F6D2B697BD44DA8, 0x77E36F7304C48942, 0x3F9D85A86A1D36C8, 0x1112E6AD91D692A1]
     else
       [0x22312194FC2BF72C, 0x9F555FA3C84C64C2, 0x2393B86B6F53B151, 0x963877195940EABD,
        0x96283EE2A88EFFE3, 0xBE5E1E2553863992, 0x2B0199FC2C85B8AA, 0x0EB72DDC81C52CA2])"

definition sha2_reset :: "sha2 \<Rightarrow> sha2" where
  "sha2_reset e =
    (let zero32 = \<lparr>h_total0 = 0, h_total1 = 0, h_state = replicate 8 0, h_buffer = replicate 128 0\<rparr>;
         zero64 = \<lparr>h_total0 = 0, h_total1 = 0, h_state = replicate 8 0, h_buffer = replicate 128 0\<rparr>
     in if above_256 (h_algorithm e) then e\<lparr>h_ctx32 := zero32, h_ctx64 := zero64\<lparr>h_state := sha2_state64 (h_algorithm e)\<rparr>\<rparr>
        else e\<lparr>h_ctx32 := zero32\<lparr>h_state := sha2_state32 (h_algorithm e)\<rparr>, h_ctx64 := zero64\<rparr>)"

definition sha2_digest :: "sha2 \<Rightarrow> u8 list \<times> sha2" where
  "sha2_digest e =
    (let a = h_algorithm e;
         (hash, e) =
           (if above_256 a then
              let c = sha2_finish 128 PUT_UINT64 sha512_process (h_ctx64 e);
                  n = (if a \<noteq> SHA_384 then 8 else 6)
              in (concat (map PUT_UINT64 (take n (h_state c))) @ replicate (64 - 8 * n) 0, e\<lparr>h_ctx64 := c\<rparr>)
            else
              let c = sha2_finish 64 PUT_UINT32 sha256_process (h_ctx32 e);
                  n = (if a \<noteq> SHA_224 then 8 else 7)
              in (concat (map PUT_UINT32 (take n (h_state c))) @ replicate (64 - 4 * n) 0, e\<lparr>h_ctx32 := c\<rparr>))
     in (take (sha2_digestLength a) hash, sha2_reset e))"

definition sha2_new :: "sha2_algorithm \<Rightarrow> sha2" where
  "sha2_new a = sha2_reset
    \<lparr>h_algorithm = a, h_ctx32 = \<lparr>h_total0 = 0, h_total1 = 0, h_state = [], h_buffer = []\<rparr>,
     h_ctx64 = \<lparr>h_total0 = 0, h_total1 = 0, h_state = [], h_buffer = []\<rparr>\<rparr>"

section \<open>The engine absorbs the message\<close>

lemma sha2_loop_blocks: "0 < B \<Longrightarrow> sha2_loop B f s x = (fold_blocks B f s x, block_rest B x)"
proof (induction "length x" arbitrary: s x rule: less_induct)
  case less
  show ?case
  proof (cases "length x \<ge> B")
    case True
    then have e: "take B x @ drop B x = x" "length (take B x) = B" by simp_all
    note s = fold_blocks_step[OF e(2) less.prems, of f s "drop B x"] block_rest_step[OF e(2) less.prems, of "drop B x"]
    have "sha2_loop B f (f s (take B x)) (drop B x) = (fold_blocks B f (f s (take B x)) (drop B x), block_rest B (drop B x))"
      using less True by simp
    then show ?thesis using True less.prems s unfolding e(1) by (simp add: sha2_loop.simps[of B f s x])
  qed (simp add: sha2_loop.simps fold_blocks_short block_rest_short)
qed

definition sha2_core :: "nat \<Rightarrow> ('w::len word list \<Rightarrow> u8 list \<Rightarrow> 'w word list) \<Rightarrow> 'w word list \<Rightarrow> 'w word sha2ctx \<Rightarrow> u8 list \<Rightarrow> bool" where
  "sha2_core B f h0 c m \<longleftrightarrow> h_state c = fold_blocks B f h0 m \<and> length (h_buffer c) = 128 \<and>
    take (length m mod B) (h_buffer c) = block_rest B m"

definition sha2_absorbed :: "nat \<Rightarrow> ('w::len word list \<Rightarrow> u8 list \<Rightarrow> 'w word list) \<Rightarrow> 'w word list \<Rightarrow> 'w word sha2ctx \<Rightarrow> u8 list \<Rightarrow> bool" where
  "sha2_absorbed B f h0 c m \<longleftrightarrow> sha2_core B f h0 c m \<and> h_total0 c = of_nat (length m) \<and>
    h_total1 c = of_nat (length m div 2 ^ LENGTH('w))"

text \<open>The three steps of an update: the count, the block that the buffer begins, and the rest.\<close>

definition sha2_count :: "'w::len word \<Rightarrow> 'w word sha2ctx \<Rightarrow> 'w word sha2ctx" where
  "sha2_count n c = c\<lparr>h_total0 := h_total0 c + n, h_total1 := (if h_total0 c + n < n then h_total1 c + 1 else h_total1 c)\<rparr>"

definition sha2_fill :: "nat \<Rightarrow> ('w::len word list \<Rightarrow> u8 list \<Rightarrow> 'w word list) \<Rightarrow> nat \<Rightarrow> u8 list \<Rightarrow> 'w word sha2ctx \<Rightarrow>
    'w word sha2ctx \<times> u8 list \<times> nat" where
  "sha2_fill B f left x c =
    (let b = put_at left (take (B - left) x) (h_buffer c) in
     if left \<noteq> 0 \<and> length x \<ge> B - left then (c\<lparr>h_buffer := b, h_state := f (h_state c) (take B b)\<rparr>, drop (B - left) x, 0)
     else (c, x, left))"

definition sha2_tail :: "nat \<Rightarrow> ('w::len word list \<Rightarrow> u8 list \<Rightarrow> 'w word list) \<Rightarrow> 'w word sha2ctx \<times> u8 list \<times> nat \<Rightarrow> 'w word sha2ctx" where
  "sha2_tail B f = (\<lambda>(c, x, left).
    c\<lparr>h_state := fold_blocks B f (h_state c) x, h_buffer := put_at left (block_rest B x) (h_buffer c)\<rparr>)"

lemma put_at_nil: "put_at left [] b = b"
  by (simp add: put_at_def)

lemma sha2_absorb_steps:
  assumes "0 < B" "x \<noteq> []"
  shows "sha2_absorb B f x c =
    sha2_tail B f (sha2_fill B f (unat (h_total0 c AND of_nat (B - 1))) x (sha2_count (of_nat (length x)) c))"
  using assms
  by (auto simp: sha2_absorb_def sha2_tail_def sha2_fill_def sha2_count_def sha2_loop_blocks put_at_nil Let_def split: prod.splits)

lemma sha2_fill_core:
  assumes c: "sha2_core B f h0 c m" and B: "0 < B" "B \<le> 128"
    and r: "sha2_fill B f (length m mod B) x c = (c', y, left)"
  shows "\<exists>m'. sha2_core B f h0 c' m' \<and> m' @ y = m @ x \<and> left = length m' mod B \<and> (left = 0 \<or> left + length y < B) \<and>
    h_total0 c' = h_total0 c \<and> h_total1 c' = h_total1 c"
proof (cases "length m mod B \<noteq> 0 \<and> length x \<ge> B - length m mod B")
  case True
  let ?k = "length m mod B" let ?n = "B - ?k" let ?b = "block_rest B m @ take ?n x"
  have k: "?k < B" using B by simp
  have i: "h_state c = fold_blocks B f h0 m" "length (h_buffer c) = 128" "take ?k (h_buffer c) = block_rest B m"
    using c by (auto simp: sha2_core_def)
  have lb: "length ?b = B" using True k by (simp add: block_rest_length)
  have tb: "take B (put_at ?k (take ?n x) (h_buffer c)) = ?b"
    using i lb unfolding put_at_def i(3) append_assoc[symmetric] by (simp add: block_rest_length)
  have lp: "length (put_at ?k (take ?n x) (h_buffer c)) = 128"
    using put_at_length[of ?k "take ?n x" "h_buffer c"] i(2) True k B by simp
  have e: "fold_blocks B f h0 (m @ take ?n x) = f (h_state c) ?b" "block_rest B (m @ take ?n x) = []"
    unfolding fold_blocks_append(1)[OF B(1), of f h0 m] fold_blocks_append(2)[OF B(1), of m] i(1)
    using fold_blocks_step[OF lb B(1), of f "fold_blocks B f h0 m" "[]"] block_rest_step[OF lb B(1), of "[]"] B
    by (simp_all add: fold_blocks_short block_rest_short)
  have l0: "length (m @ take ?n x) mod B = 0" using e(2) block_rest_length[of B "m @ take ?n x"] by simp
  have "c' = c\<lparr>h_buffer := put_at ?k (take ?n x) (h_buffer c), h_state := f (h_state c) ?b\<rparr>" "y = drop ?n x" "left = 0"
    using r True tb by (auto simp: sha2_fill_def Let_def)
  then show ?thesis using e l0 lp
    by (intro exI[of _ "m @ take ?n x"]) (simp add: sha2_core_def)
next
  case False
  then have "c' = c" "y = x" "left = length m mod B" using r by (auto simp: sha2_fill_def Let_def)
  then show ?thesis using False c by (intro exI[of _ m]) auto
qed

lemma sha2_tail_core:
  assumes c: "sha2_core B f h0 c m" and B: "0 < B" "B \<le> 128"
    and l: "left = length m mod B" "left = 0 \<or> left + length x < B"
  shows "sha2_core B f h0 (sha2_tail B f (c, x, left)) (m @ x)"
proof (cases "left = 0")
  case True
  have i: "h_state c = fold_blocks B f h0 m" "length (h_buffer c) = 128" "block_rest B m = []"
    using c l True block_rest_length[of B m] by (auto simp: sha2_core_def)
  have m: "length (m @ x) mod B = length (block_rest B x)"
    using l(1) True mod_add_left_eq[of "length m" B "length x"] by (simp add: block_rest_length)
  have le: "length (block_rest B x) \<le> 128" using B mod_less_divisor[OF B(1), of "length x"] by (simp add: block_rest_length)
  show ?thesis
    unfolding sha2_core_def m fold_blocks_append(1)[OF B(1), of f h0 m] fold_blocks_append(2)[OF B(1), of m] i(3)
    using True i(1,2) put_at_length[of 0 "block_rest B x" "h_buffer c"] le by (simp add: sha2_tail_def put_at_def)
next
  case False
  then have s: "length x < B" "length (block_rest B m @ x) < B" using l by (simp_all add: block_rest_length)
  have i: "h_state c = fold_blocks B f h0 m" "length (h_buffer c) = 128" "take left (h_buffer c) = block_rest B m"
    using c l by (auto simp: sha2_core_def)
  have "(length m mod B + length x) mod B = length m mod B + length x" using l False by simp
  then have m: "length (m @ x) mod B = left + length x" unfolding length_append mod_add_left_eq l(1) .
  show ?thesis
    unfolding sha2_core_def m fold_blocks_append(1)[OF B(1), of f h0 m] fold_blocks_append(2)[OF B(1), of m]
      fold_blocks_short[OF s(2)] block_rest_short[OF s(2)]
    using i put_at_length[of left x "h_buffer c"] l(2) False B s(1)
    by (simp add: sha2_tail_def fold_blocks_short block_rest_short) (simp add: put_at_def)
qed

text \<open>The count of two words.\<close>

lemma unat_of_nat_mod: "unat (of_nat n :: 'w::len word) = n mod 2 ^ LENGTH('w)"
  by (simp add: unat_of_nat)

lemma sha2_count_mod:
  assumes "k \<le> LENGTH('w::len)"
  shows "unat ((of_nat n :: 'w word) AND of_nat (2 ^ k - 1)) = n mod 2 ^ k"
proof -
  have "(of_nat (2 ^ k - 1) :: 'w word) = mask k" by (simp add: mask_eq_exp_minus_1 of_nat_diff)
  then have "unat ((of_nat n :: 'w word) AND of_nat (2 ^ k - 1)) = take_bit k (n mod 2 ^ LENGTH('w))"
    by (simp add: take_bit_eq_mask[symmetric] unsigned_take_bit_eq unat_of_nat_mod)
  also have "\<dots> = n mod 2 ^ k" using assms by (simp add: take_bit_eq_mod mod_mod_cancel le_imp_power_dvd)
  finally show ?thesis .
qed

lemma carry_nat:
  fixes a k W :: nat
  assumes "a < W" "k < W"
  shows "(a + k) mod W = (if W \<le> a + k then a + k - W else a + k)" "(a + k) div W = (if W \<le> a + k then 1 else 0)"
    "(a + k) mod W < k \<longleftrightarrow> W \<le> a + k"
proof -
  show m: "(a + k) mod W = (if W \<le> a + k then a + k - W else a + k)" and "(a + k) div W = (if W \<le> a + k then 1 else 0)"
    using assms by (auto simp: le_mod_geq le_div_geq)
  show "(a + k) mod W < k \<longleftrightarrow> W \<le> a + k" unfolding m using assms by auto
qed

lemma sha2_count_step:
  fixes c :: "'w::len word sha2ctx"
  assumes "h_total0 c = of_nat n" "h_total1 c = of_nat (n div 2 ^ LENGTH('w))" "k < 2 ^ LENGTH('w)"
  shows "h_total0 (sha2_count (of_nat k) c) = of_nat (n + k)"
    "h_total1 (sha2_count (of_nat k) c) = of_nat ((n + k) div 2 ^ LENGTH('w))"
proof -
  let ?W = "2 ^ LENGTH('w) :: nat"
  show "h_total0 (sha2_count (of_nat k) c) = of_nat (n + k)" using assms(1) by (simp add: sha2_count_def)
  have k: "k mod ?W = k" using assms(3) by simp
  have lt: "n mod ?W < ?W" by simp
  have o: "(of_nat n + of_nat k :: 'w word) < of_nat k \<longleftrightarrow> ?W \<le> n mod ?W + k"
  proof -
    have "(of_nat n + of_nat k :: 'w word) < of_nat k \<longleftrightarrow> (n + k) mod ?W < k"
      unfolding of_nat_add[symmetric] word_less_nat_alt unat_of_nat_mod k ..
    moreover have "(n + k) mod ?W = (n mod ?W + k) mod ?W" by (simp add: mod_add_left_eq)
    ultimately show ?thesis using carry_nat(3)[OF lt assms(3)] by simp
  qed
  have d: "(n + k) div ?W = n div ?W + (if ?W \<le> n mod ?W + k then 1 else 0)"
  proof -
    have "(n + k) div ?W = n div ?W + (n mod ?W + k) div ?W"
      using div_add1_eq[of n k ?W] assms(3) by simp
    moreover have "(n mod ?W + k) div ?W = (if ?W \<le> n mod ?W + k then 1 else 0)"
      using carry_nat(2)[OF lt assms(3)] .
    ultimately show ?thesis by simp
  qed
  show "h_total1 (sha2_count (of_nat k) c) = of_nat ((n + k) div ?W)"
    unfolding d using assms(1,2) by (simp add: sha2_count_def o)
qed

lemma sha2_absorb_absorbs:
  fixes c :: "'w::len word sha2ctx"
  assumes c: "sha2_absorbed (2 ^ k) f h0 c m" and k: "k \<le> 7" "7 \<le> LENGTH('w)" and x: "length x < 2 ^ LENGTH('w)"
  shows "sha2_absorbed (2 ^ k) f h0 (sha2_absorb (2 ^ k) f x c) (m @ x)"
proof (cases "x = []")
  case True
  then show ?thesis using c by (simp add: sha2_absorb_def)
next
  case False
  let ?B = "2 ^ k :: nat" let ?c = "sha2_count (of_nat (length x)) c"
  have B: "0 < ?B" "?B \<le> 128" using power_increasing[of k 7 "2 :: nat"] k(1) by simp_all
  have t: "h_total0 c = of_nat (length m)" "h_total1 c = of_nat (length m div 2 ^ LENGTH('w))"
    using c by (auto simp: sha2_absorbed_def)
  have "sha2_core ?B f h0 ?c m" using c by (simp add: sha2_absorbed_def sha2_core_def sha2_count_def)
  obtain c' y left where r: "sha2_fill ?B f (length m mod ?B) x ?c = (c', y, left)" by (metis prod_cases3)
  obtain m' where "sha2_core ?B f h0 c' m' \<and> m' @ y = m @ x \<and> left = length m' mod ?B \<and> (left = 0 \<or> left + length y < ?B) \<and>
      h_total0 c' = h_total0 ?c \<and> h_total1 c' = h_total1 ?c"
    using sha2_fill_core[OF \<open>sha2_core ?B f h0 ?c m\<close> B r] by (rule exE)
  then have m': "sha2_core ?B f h0 c' m'" "m' @ y = m @ x" "left = length m' mod ?B" "left = 0 \<or> left + length y < ?B"
    "h_total0 c' = h_total0 ?c" "h_total1 c' = h_total1 ?c" by - (elim conjE, assumption)+
  have u: "sha2_absorb ?B f x c = sha2_tail ?B f (c', y, left)"
    unfolding sha2_absorb_steps[OF B(1) False] t(1) sha2_count_mod[OF order_trans[OF k]] r ..
  have "h_total0 (sha2_tail ?B f (c', y, left)) = h_total0 ?c" "h_total1 (sha2_tail ?B f (c', y, left)) = h_total1 ?c"
    using m'(5,6) by (simp_all add: sha2_tail_def)
  then show ?thesis
    unfolding u sha2_absorbed_def length_append sha2_count_step[OF t x]
    using sha2_tail_core[OF m'(1) B m'(3,4)] unfolding m'(2) by (intro conjI)
qed

section \<open>FIPS 180-4\<close>

text \<open>Numbers as bytes, the most significant byte first.\<close>

primrec be_bytes :: "nat \<Rightarrow> nat \<Rightarrow> u8 list" where
  "be_bytes 0 n = []"
| "be_bytes (Suc k) n = be_bytes k (n div 256) @ [of_nat n]"

text \<open>
  The message schedule, the rounds and the hash computation for words of \<open>q\<close> bytes and blocks of \<open>16 q\<close> bytes.
\<close>

definition fips2_words :: "nat \<Rightarrow> u8 list \<Rightarrow> 'w::len word list" where
  "fips2_words q b = map (\<lambda>i. of_nat (be_value (take q (drop (q * i) b)))) [0..<16]"

function fips2_W :: "('w::len word \<Rightarrow> 'w word) \<Rightarrow> ('w word \<Rightarrow> 'w word) \<Rightarrow> 'w word list \<Rightarrow> nat \<Rightarrow> 'w word" where
  "fips2_W s0 s1 M t =
    (if t < 16 then M ! t else s1 (fips2_W s0 s1 M (t - 2)) + fips2_W s0 s1 M (t - 7) + s0 (fips2_W s0 s1 M (t - 15)) + fips2_W s0 s1 M (t - 16))"
  by pat_completeness auto
termination by (relation "measure (\<lambda>(s0, s1, M, t). t)") auto

declare fips2_W.simps [simp del]

definition fips2_Ch :: "'w::len word \<Rightarrow> 'w word \<Rightarrow> 'w word \<Rightarrow> 'w word" where
  "fips2_Ch x y z = (x AND y) XOR (NOT x AND z)"

definition fips2_Maj :: "'w::len word \<Rightarrow> 'w word \<Rightarrow> 'w word \<Rightarrow> 'w word" where
  "fips2_Maj x y z = (x AND y) XOR (x AND z) XOR (y AND z)"

type_synonym 'w fips2_regs = "'w \<times> 'w \<times> 'w \<times> 'w \<times> 'w \<times> 'w \<times> 'w \<times> 'w"

definition fips2_round :: "('w::len word \<Rightarrow> 'w word) \<Rightarrow> ('w word \<Rightarrow> 'w word) \<Rightarrow> (nat \<Rightarrow> 'w word) \<Rightarrow> (nat \<Rightarrow> 'w word) \<Rightarrow>
    'w word fips2_regs \<Rightarrow> nat \<Rightarrow> 'w word fips2_regs" where
  "fips2_round S0 S1 K W = (\<lambda>(a, b, c, d, e, f, g, h) t.
    let T1 = h + S1 e + fips2_Ch e f g + K t + W t;
        T2 = S0 a + fips2_Maj a b c
    in (T1 + T2, a, b, c, d + T1, e, f, g))"

definition fips2_regs :: "'w list \<Rightarrow> 'w fips2_regs" where
  "fips2_regs H = (H ! 0, H ! 1, H ! 2, H ! 3, H ! 4, H ! 5, H ! 6, H ! 7)"

definition fips2_sum :: "'w::len word list \<Rightarrow> 'w word fips2_regs \<Rightarrow> 'w word list" where
  "fips2_sum H = (\<lambda>(a, b, c, d, e, f, g, h). [H ! 0 + a, H ! 1 + b, H ! 2 + c, H ! 3 + d, H ! 4 + e, H ! 5 + f, H ! 6 + g, H ! 7 + h])"

text \<open>The functions of the two families.\<close>

definition fips_block256 :: "(nat \<Rightarrow> u32) \<Rightarrow> u32 list \<Rightarrow> u8 list \<Rightarrow> u32 list" where
  "fips_block256 K H b =
    fips2_sum H (foldl (fips2_round
      (\<lambda>x. word_rotr 2 x XOR word_rotr 13 x XOR word_rotr 22 x) (\<lambda>x. word_rotr 6 x XOR word_rotr 11 x XOR word_rotr 25 x) K
      (fips2_W (\<lambda>x. word_rotr 7 x XOR word_rotr 18 x XOR drop_bit 3 x) (\<lambda>x. word_rotr 17 x XOR word_rotr 19 x XOR drop_bit 10 x)
        (fips2_words 4 b)))
      (fips2_regs H) [0..<64])"

definition fips_block512 :: "(nat \<Rightarrow> u64) \<Rightarrow> u64 list \<Rightarrow> u8 list \<Rightarrow> u64 list" where
  "fips_block512 K H b =
    fips2_sum H (foldl (fips2_round
      (\<lambda>x. word_rotr 28 x XOR word_rotr 34 x XOR word_rotr 39 x) (\<lambda>x. word_rotr 14 x XOR word_rotr 18 x XOR word_rotr 41 x) K
      (fips2_W (\<lambda>x. word_rotr 1 x XOR word_rotr 8 x XOR drop_bit 7 x) (\<lambda>x. word_rotr 19 x XOR word_rotr 61 x XOR drop_bit 6 x)
        (fips2_words 8 b)))
      (fips2_regs H) [0..<80])"

text \<open>Padding to a multiple of the block, with the length in bits in an eighth of a block.\<close>

definition fips2_pad :: "nat \<Rightarrow> nat \<Rightarrow> u8 list" where
  "fips2_pad B n = 0x80 # replicate ((2 * B - B div 8 - 1 - n mod B) mod B) 0 @ be_bytes (B div 8) (8 * n)"

definition fips2_hash :: "nat \<Rightarrow> ('w::len word list \<Rightarrow> u8 list \<Rightarrow> 'w word list) \<Rightarrow> 'w word list \<Rightarrow> u8 list \<Rightarrow> 'w word list" where
  "fips2_hash B f h0 m = fold_blocks B f h0 (m @ fips2_pad B (length m))"

section \<open>Bytes and words\<close>

lemma be_bytes_length: "length (be_bytes k n) = k"
  by (induction k arbitrary: n) simp_all

lemma be_bytes_append: "be_bytes (b + a) n = be_bytes b (n div 256 ^ a) @ be_bytes a n"
  by (induction a arbitrary: n) (simp_all add: div_mult2_eq)

lemma byte_of_nat: "j + 8 \<le> LENGTH('w) \<Longrightarrow> (ucast (drop_bit j (of_nat n :: 'w::len word)) :: u8) = of_nat (n div 2 ^ j)"
  by (rule bit_word_eqI) (auto simp: bit_simps drop_bit_eq_div[symmetric])

lemma be_bytes_4: "be_bytes 4 n = [of_nat (n div 2 ^ 24), of_nat (n div 2 ^ 16), of_nat (n div 2 ^ 8), of_nat n]"
proof -
  have 2: "be_bytes 2 n = [of_nat (n div 2 ^ 8), of_nat n]" for n
  proof -
    have "be_bytes (Suc (Suc 0)) n = [of_nat (n div 2 ^ 8), of_nat n]" by simp
    then show ?thesis by (simp only: numeral_2_eq_2)
  qed
  show ?thesis using be_bytes_append[of 2 2 n] by (simp add: 2 div_mult2_eq[symmetric])
qed

lemma PUT_UINT32_bytes: "PUT_UINT32 (of_nat n) = be_bytes 4 n"
proof -
  note b = byte_of_nat[where 'w = 32]
  show ?thesis unfolding PUT_UINT32_def be_bytes_4 using b[of 0 n] b[of 8 n] b[of 16 n] b[of 24 n] by simp
qed

lemma PUT_UINT64_bytes: "PUT_UINT64 (of_nat n) = be_bytes 8 n"
proof -
  note b = byte_of_nat[where 'w = 64]
  have "be_bytes 8 n = be_bytes 4 (n div 2 ^ 32) @ be_bytes 4 n" using be_bytes_append[of 4 4 n] by simp
  then show ?thesis unfolding PUT_UINT64_def be_bytes_4
    using b[of 0 n] b[of 8 n] b[of 16 n] b[of 24 n] b[of 32 n] b[of 40 n] b[of 48 n] b[of 56 n] by (simp add: div_mult2_eq[symmetric])
qed

text \<open>The length in bits as a number of two words.\<close>

lemma bit_length_words:
  assumes "3 < LENGTH('w::len)"
  shows "drop_bit (LENGTH('w) - 3) (of_nat n) OR push_bit 3 (of_nat (n div 2 ^ LENGTH('w))) = (of_nat (8 * n div 2 ^ LENGTH('w)) :: 'w word)"
    "push_bit 3 (of_nat n) = (of_nat (8 * n) :: 'w word)"
proof -
  have e: "8 * n = push_bit 3 n" by (simp add: push_bit_eq_mult)
  show "push_bit 3 (of_nat n) = (of_nat (8 * n) :: 'w word)" by (simp add: push_bit_eq_mult)
  show "drop_bit (LENGTH('w) - 3) (of_nat n) OR push_bit 3 (of_nat (n div 2 ^ LENGTH('w))) = (of_nat (8 * n div 2 ^ LENGTH('w)) :: 'w word)"
    unfolding e drop_bit_eq_div[symmetric] using assms
    by (intro bit_word_eqI) (auto simp: bit_simps)
qed

lemma take_drop_nth: "j + q \<le> length b \<Longrightarrow> take q (drop j b) = map (\<lambda>i. b ! (j + i)) [0..<q]"
  by (rule nth_equalityI) simp_all

lemma upt_4_8: "[0..<4] = [0, 1, 2, 3 :: nat]" "[0..<8] = [0, 1, 2, 3, 4, 5, 6, 7 :: nat]"
  by (simp_all add: upt_conv_Cons)

lemma GET_UINT32_value:
  assumes "j + 4 \<le> length b"
  shows "GET_UINT32 b j = of_nat (be_value (take 4 (drop j b)))"
proof -
  have "rev (bytes32 (GET_UINT32 b j)) = take 4 (drop j b)"
    unfolding take_drop_nth[OF assms] upt_4_8 list.map add_0_right bytes32_def GET_UINT32_def
    by (simp del: One_nat_def add_Suc_right, intro conjI; rule bit_word_eqI; auto simp: bit_simps dest: bit_imp_le_length)
  then have "be_value (take 4 (drop j b)) = unat (GET_UINT32 b j)" using be_value_bytes32[of "GET_UINT32 b j"] by simp
  then show ?thesis by simp
qed

lemma GET_UINT64_value:
  assumes "j + 8 \<le> length b"
  shows "GET_UINT64 b j = of_nat (be_value (take 8 (drop j b)))"
proof -
  have "rev (bytes64 (GET_UINT64 b j)) = take 8 (drop j b)"
    unfolding take_drop_nth[OF assms] upt_4_8 list.map add_0_right bytes64_def bytes32_def GET_UINT64_def
    by (simp del: One_nat_def add_Suc_right, intro conjI; rule bit_word_eqI; auto simp: bit_simps dest: bit_imp_le_length)
  then have "be_value (take 8 (drop j b)) = unat (GET_UINT64 b j)" using be_value_bytes64[of "GET_UINT64 b j"] by simp
  then show ?thesis by simp
qed

section \<open>The compression functions\<close>

lemma rotr_shift:
  fixes w :: "'w::len word"
  assumes "0 < m" "m < LENGTH('w)"
  shows "drop_bit m w OR push_bit (LENGTH('w) - m) w = word_rotr m w"
proof (rule bit_word_eqI)
  fix n assume n: "n < LENGTH('w)"
  show "bit (drop_bit m w OR push_bit (LENGTH('w) - m) w) n = bit (word_rotr m w) n"
  proof (cases "n + m < LENGTH('w)")
    case True
    then show ?thesis using n assms by (auto simp: bit_simps bit_word_rotr_iff add.commute)
  next
    case False
    then have "(n + m) mod LENGTH('w) = n - (LENGTH('w) - m)" using n assms by (simp add: mod_if)
    moreover have "\<not> bit w (m + n)" using False by (auto dest: bit_imp_le_length)
    ultimately show ?thesis using n assms False by (auto simp: bit_simps bit_word_rotr_iff)
  qed
qed

lemma and_full: "x AND 0xFFFFFFFF = (x :: u32)"
proof -
  have "(0xFFFFFFFF :: u32) = mask 32" by (simp add: mask_eq_exp_minus_1)
  then show ?thesis by (simp only: take_bit_eq_mask[symmetric]) (simp add: take_bit_word_eq_self)
qed

lemma ROTR_rotr:
  "0 < m \<Longrightarrow> m < 32 \<Longrightarrow> ROTR32 m x = word_rotr m x" "0 < m \<Longrightarrow> m < 64 \<Longrightarrow> ROTR64 m y = word_rotr m y"
  unfolding ROTR32_def ROTR64_def and_full using rotr_shift[of m x] rotr_shift[of m y] by simp_all

lemma F_fips: "F0 = fips2_Maj" "F1 = fips2_Ch"
  by (intro ext bit_word_eqI, auto simp: F0_def F1_def fips2_Maj_def fips2_Ch_def bit_simps)+

text \<open>The registers in the order of the standard, before the call number \<open>i\<close>.\<close>

definition sha2_view :: "nat \<Rightarrow> 'w list \<Rightarrow> 'w fips2_regs" where
  "sha2_view i t = (t ! sha2_reg i 0, t ! sha2_reg i 1, t ! sha2_reg i 2, t ! sha2_reg i 3, t ! sha2_reg i 4, t ! sha2_reg i 5,
     t ! sha2_reg i 6, t ! sha2_reg i 7)"

lemma sha2_P_round:
  fixes t :: "'w::len word list"
  assumes "length t = 8"
  shows "sha2_view (Suc i) (sha2_P S0 S1 i (W i) (K i) t) = fips2_round S0 S1 K W (sha2_view i t) i"
proof -
  obtain a b c d e f g h where t: "t = [a, b, c, d, e, f, g, h]"
    using assms by (auto simp: length_Suc_conv numeral_eq_Suc)
  have s: "Suc i mod 8 = Suc (i mod 8) mod 8" by (simp add: mod_Suc_eq)
  consider "i mod 8 = 0" | "i mod 8 = 1" | "i mod 8 = 2" | "i mod 8 = 3" | "i mod 8 = 4" | "i mod 8 = 5" | "i mod 8 = 6" | "i mod 8 = 7"
    using mod_less_divisor[of 8 i] by linarith
  then show ?thesis
    by cases (simp_all add: t sha2_view_def sha2_P_def sha2_reg_def s fips2_round_def F_fips Let_def del: mod_Suc_eq)
qed

lemma sha2_P_length: "length (sha2_P S0 S1 i x K t) = length t"
  by (simp add: sha2_P_def Let_def)

lemma sha2_rounds:
  assumes "length t = 8"
  shows "length (foldl (\<lambda>t i. sha2_P S0 S1 i (W i) (K i) t) t [0..<n]) = 8 \<and>
    sha2_view n (foldl (\<lambda>t i. sha2_P S0 S1 i (W i) (K i) t) t [0..<n]) = foldl (fips2_round S0 S1 K W) (sha2_view 0 t) [0..<n]"
  using assms by (induction n) (simp_all add: sha2_P_length sha2_P_round)

lemma sha2_view_aligned: "8 dvd n \<Longrightarrow> sha2_view n t = fips2_regs t"
  by (simp add: sha2_view_def sha2_reg_def fips2_regs_def dvd_eq_mod_eq_0)

lemma sha2_rounds_regs:
  assumes "length t = 8" "8 dvd n"
  shows "fips2_regs (foldl (\<lambda>t i. sha2_P S0 S1 i (W i) (K i) t) t [0..<n]) = foldl (fips2_round S0 S1 K W) (fips2_regs t) [0..<n]"
  using conjunct2[OF sha2_rounds[OF assms(1), of S0 S1 W K n]] unfolding sha2_view_aligned[OF assms(2)] sha2_view_aligned[OF dvd_0_right] .

lemma sha2_sum_regs: "map (\<lambda>i. H ! i + t ! i) [0..<8] = fips2_sum H (fips2_regs t)"
  by (simp add: upt_4_8 fips2_sum_def fips2_regs_def)

text \<open>The schedule, extended word by word.\<close>

lemma sha2_schedule:
  assumes "length M = 16" "16 \<le> k"
  shows "foldl (\<lambda>W i. W @ [s1 (W ! (i - 2)) + W ! (i - 7) + s0 (W ! (i - 15)) + W ! (i - 16)]) M [16..<k] = map (fips2_W s0 s1 M) [0..<k]"
  using assms(2)
proof (induction k rule: dec_induct)
  case base
  show ?case using assms(1) by (auto intro!: nth_equalityI simp: fips2_W.simps)
next
  case (step k)
  then show ?case by (simp add: fips2_W.simps[of s0 s1 M k])
qed

lemma foldl_pair_schedule:
  assumes "\<And>W i. \<exists>x. ext W i = W @ [x]" "length W0 = n"
  shows "foldl (\<lambda>(t, W) i. let W = ext W i in (P t (W ! i) i, W)) (t, W0) [n..<k] =
    (foldl (\<lambda>t i. P t (foldl ext W0 [n..<k] ! i) i) t [n..<k], foldl ext W0 [n..<k])"
proof (induction k)
  case (Suc k)
  show ?case
  proof (cases "n \<le> k")
    case True
    let ?W = "foldl ext W0 [n..<k]"
    have l: "length ?W = k" using True
    proof (induction k rule: dec_induct)
      case (step k)
      then show ?case using assms(1)[of "foldl ext W0 [n..<k]" k] by auto
    qed (simp add: assms(2))
    obtain x where x: "ext ?W k = ?W @ [x]" using assms(1) by blast
    have "foldl (\<lambda>t i. P t ((?W @ [x]) ! i) i) t [n..<k] = foldl (\<lambda>t i. P t (?W ! i) i) t [n..<k]"
      by (rule foldl_cong) (auto simp: nth_append l)
    then show ?thesis using True Suc by (simp add: Let_def x)
  qed simp
qed simp

lemma sha256_process_fips:
  assumes "length b = 64" "length H = 8"
  shows "sha256_process H b = fips_block256 ((!) K32) H b"
proof -
  let ?M = "fips2_words 4 b :: u32 list"
  have S: "S320 = (\<lambda>x. word_rotr 7 x XOR word_rotr 18 x XOR drop_bit 3 x)" "S321 = (\<lambda>x. word_rotr 17 x XOR word_rotr 19 x XOR drop_bit 10 x)"
    "S322 = (\<lambda>x. word_rotr 2 x XOR word_rotr 13 x XOR word_rotr 22 x)" "S323 = (\<lambda>x. word_rotr 6 x XOR word_rotr 11 x XOR word_rotr 25 x)"
    by (intro ext, simp only: S320_def S321_def S322_def S323_def and_full, simp add: ROTR_rotr)+
  have M: "map (\<lambda>i. GET_UINT32 b (4 * i)) [0..<16] = ?M"
    unfolding fips2_words_def using assms(1) by (intro map_cong) (auto simp: GET_UINT32_value)
  have l: "length ?M = 16" by (simp add: fips2_words_def)
  have R: "foldl R32 ?M [16..<64] = map (fips2_W S320 S321 ?M) [0..<64]"
    unfolding R32_def[abs_def] by (rule sha2_schedule[OF l]) simp
  define W where "W = fips2_W S320 S321 ?M"
  have f: "foldl (\<lambda>t i. sha2_P S322 S323 i (?M ! i) (K32 ! i) t) H [0..<16] = foldl (\<lambda>t i. sha2_P S322 S323 i (W i) (K32 ! i) t) H [0..<16]"
    by (rule foldl_upt_cong) (simp add: W_def fips2_W.simps)
  have g: "foldl (\<lambda>t i. sha2_P S322 S323 i (map W [0..<64] ! i) (K32 ! i) t) t [16..<64] = foldl (\<lambda>t i. sha2_P S322 S323 i (W i) (K32 ! i) t) t [16..<64]" for t
    by (rule foldl_upt_cong) (simp add: W_def)
  have p: "foldl (\<lambda>(t, W) i. let W = R32 W i in (sha2_P S322 S323 i (W ! i) (K32 ! i) t, W)) (t, ?M) [16..<64] =
      (foldl (\<lambda>t i. sha2_P S322 S323 i (W i) (K32 ! i) t) t [16..<64], map W [0..<64])" for t
    using foldl_pair_schedule[OF _ l, of R32 "\<lambda>t x i. sha2_P S322 S323 i x (K32 ! i) t" t 64]
    unfolding R W_def[symmetric] g R32_def by blast
  have u: "[0..<64] = [0..<16] @ [16..<64 :: nat]" using upt_add_eq_append[of 0 16 48] by simp
  show ?thesis
    unfolding sha256_process_def M Let_def f p[unfolded Let_def] prod.case foldl_append[symmetric] u[symmetric] sha2_sum_regs fips_block256_def S[symmetric]
    unfolding W_def by (subst sha2_rounds_regs[OF assms(2)]) simp_all
qed

lemma sha512_process_fips:
  assumes "length b = 128" "length H = 8"
  shows "sha512_process H b = fips_block512 ((!) K64) H b"
proof -
  let ?M = "fips2_words 8 b :: u64 list"
  have S: "S640 = (\<lambda>x. word_rotr 1 x XOR word_rotr 8 x XOR drop_bit 7 x)" "S641 = (\<lambda>x. word_rotr 19 x XOR word_rotr 61 x XOR drop_bit 6 x)"
    "S642 = (\<lambda>x. word_rotr 28 x XOR word_rotr 34 x XOR word_rotr 39 x)" "S643 = (\<lambda>x. word_rotr 14 x XOR word_rotr 18 x XOR word_rotr 41 x)"
    by (intro ext, simp add: S640_def S641_def S642_def S643_def ROTR_rotr)+
  have M: "map (\<lambda>i. GET_UINT64 b (8 * i)) [0..<16] = ?M"
    unfolding fips2_words_def using assms(1) by (intro map_cong) (auto simp: GET_UINT64_value)
  have l: "length ?M = 16" by (simp add: fips2_words_def)
  define W where "W = fips2_W S640 S641 ?M"
  have R: "foldl (\<lambda>W i. W @ [S641 (W ! (i - 2)) + W ! (i - 7) + S640 (W ! (i - 15)) + W ! (i - 16)]) ?M [16..<80] = map W [0..<80]"
    unfolding W_def by (rule sha2_schedule[OF l]) simp
  have f: "foldl (\<lambda>t i. sha2_P S642 S643 i (map W [0..<80] ! i) (K64 ! i) t) H [0..<80] = foldl (\<lambda>t i. sha2_P S642 S643 i (W i) (K64 ! i) t) H [0..<80]"
    by (rule foldl_upt_cong) simp
  show ?thesis
    unfolding sha512_process_def M Let_def R f sha2_sum_regs fips_block512_def S[symmetric]
    unfolding W_def by (subst sha2_rounds_regs[OF assms(2)]) simp_all
qed


section \<open>The constants\<close>

text \<open>
  FIPS 180-4 takes its constants from the fractional parts of the square and cube roots of the first prime numbers.  A number below
  \<open>23\<^sup>2\<close> is prime if no prime below 23 divides it, except itself.  Taken as a word, the integer part of \<open>2\<^sup>w\<close> times a root is the
  first \<open>w\<close> bits of its fractional part.
\<close>

definition fips_primes :: "nat list" where
  "fips_primes = filter (\<lambda>n. list_all (\<lambda>d. n = d \<or> n mod d \<noteq> 0) [2, 3, 5, 7, 11, 13, 17, 19]) [2..<410]"

definition fips_root :: "nat \<Rightarrow> nat \<Rightarrow> nat \<Rightarrow> 'w::len word" where
  "fips_root k w p = of_int \<lfloor>root k (real p) * 2 ^ w\<rfloor>"

definition fips_K32 :: "nat \<Rightarrow> u32" where "fips_K32 t = fips_root 3 32 (fips_primes ! t)"
definition fips_K64 :: "nat \<Rightarrow> u64" where "fips_K64 t = fips_root 3 64 (fips_primes ! t)"

definition fips_init32 :: "sha2_algorithm \<Rightarrow> u32 list" where
  "fips_init32 a =
    (if a = SHA_224 then map (fips_root 2 64) (take 8 (drop 8 fips_primes)) else map (fips_root 2 32) (take 8 fips_primes))"

text \<open>SHA-512/224 and SHA-512/256 have initial values of their own, which the standard lists.\<close>

definition fips_init64 :: "sha2_algorithm \<Rightarrow> u64 list" where
  "fips_init64 a =
    (case a of
       SHA_384 \<Rightarrow> map (fips_root 2 64) (take 8 (drop 8 fips_primes))
     | SHA_512_224 \<Rightarrow> [0x8C3D37C819544DA2, 0x73E1996689DCD4D6, 0x1DFAB7AE32FF9C82, 0x679DD514582F9FCF,
         0x0F6D2B697BD44DA8, 0x77E36F7304C48942, 0x3F9D85A86A1D36C8, 0x1112E6AD91D692A1]
     | SHA_512_256 \<Rightarrow> [0x22312194FC2BF72C, 0x9F555FA3C84C64C2, 0x2393B86B6F53B151, 0x963877195940EABD,
         0x96283EE2A88EFFE3, 0xBE5E1E2553863992, 0x2B0199FC2C85B8AA, 0x0EB72DDC81C52CA2]
     | _ \<Rightarrow> map (fips_root 2 64) (take 8 fips_primes))"

lemma fips_primes_list:
  "fips_primes =
    [2, 3, 5, 7, 11, 13, 17, 19, 23, 29, 31, 37, 41, 43, 47, 53, 59, 61, 67, 71,
     73, 79, 83, 89, 97, 101, 103, 107, 109, 113, 127, 131, 137, 139, 149, 151, 157, 163, 167, 173,
     179, 181, 191, 193, 197, 199, 211, 223, 227, 229, 233, 239, 241, 251, 257, 263, 269, 271, 277, 281,
     283, 293, 307, 311, 313, 317, 331, 337, 347, 349, 353, 359, 367, 373, 379, 383, 389, 397, 401, 409]"
proof -
  have u: "[2..<410] = [2..<70] @ [70..<140] @ [140..<210] @ [210..<280] @ [280..<350] @ [350..<410]"
    using upt_add_eq_append[of 2 70 340] upt_add_eq_append[of 70 140 270] upt_add_eq_append[of 140 210 200]
      upt_add_eq_append[of 210 280 130] upt_add_eq_append[of 280 350 60] by simp
  show ?thesis unfolding fips_primes_def u filter_append by simp
qed

lemma fips_primes_length: "length fips_primes = 80"
  by (simp add: fips_primes_list)

lemma take_map_nth: "n \<le> length xs \<Longrightarrow> take n xs = map ((!) xs) [0..<n]"
  by (rule nth_equalityI) simp_all

lemma root_floor:
  assumes "0 < k" "q ^ k \<le> p * 2 ^ (k * w)" "p * 2 ^ (k * w) < (q + 1) ^ k"
  shows "\<lfloor>root k (real p) * 2 ^ w\<rfloor> = int q"
proof -
  let ?x = "root k (real p) * 2 ^ w"
  have "?x ^ k = real p * 2 ^ (k * w)" using assms(1) by (simp add: power_mult_distrib power_mult[symmetric] mult.commute)
  then have x: "?x ^ k = real (p * 2 ^ (k * w))" by simp
  have "0 \<le> ?x" using assms(1) by (simp add: real_root_pos_pos_le)
  have "real q ^ k \<le> ?x ^ k" "?x ^ k < real (q + 1) ^ k"
    unfolding x of_nat_power[symmetric] of_nat_le_iff of_nat_less_iff using assms(2,3) by auto
  have "\<not> ?x < real q"
  proof
    assume "?x < real q"
    from power_strict_mono[OF this \<open>0 \<le> ?x\<close> assms(1)] \<open>real q ^ k \<le> ?x ^ k\<close> show False by linarith
  qed
  moreover have "?x < real (q + 1)" using \<open>?x ^ k < real (q + 1) ^ k\<close> by (rule power_less_imp_less_base) simp
  ultimately have "real q \<le> ?x" "?x < real q + 1" by simp_all
  then show ?thesis by (simp add: floor_eq_iff)
qed

text \<open>A constant is checked by its powers, with the integer part of the root found by comparison.\<close>

definition root_int :: "nat \<Rightarrow> nat \<Rightarrow> nat" where
  "root_int k p = (if k = 2
     then (if p < 4 then 1 else if p < 9 then 2 else if p < 16 then 3 else if p < 25 then 4 else if p < 36 then 5 else if p < 49 then 6 else 7)
     else (if p < 8 then 1 else if p < 27 then 2 else if p < 64 then 3 else if p < 125 then 4 else if p < 216 then 5 else if p < 343 then 6 else 7))"

definition root_check :: "nat \<Rightarrow> nat \<Rightarrow> 'w::len word \<Rightarrow> bool" where
  "root_check k p c = (let q = root_int k p * 2 ^ LENGTH('w) + unat c in
     q ^ k \<le> p * 2 ^ (k * LENGTH('w)) \<and> p * 2 ^ (k * LENGTH('w)) < (q + 1) ^ k)"

lemma root_check_sound:
  assumes "root_check k p (c :: 'w::len word)" "0 < k"
  shows "fips_root k LENGTH('w) p = c"
proof -
  have "\<lfloor>root k (real p) * 2 ^ LENGTH('w)\<rfloor> = int (root_int k p * 2 ^ LENGTH('w) + unat c)"
    using root_floor[OF assms(2)] assms(1) unfolding root_check_def Let_def by blast
  then show ?thesis unfolding fips_root_def by (simp add: of_nat_mult)
qed

lemma root_check_list:
  assumes "list_all2 (root_check k) ps (cs :: 'w::len word list)" "0 < k"
  shows "map (fips_root k LENGTH('w)) ps = cs"
  using assms(1) by (induction rule: list_all2_induct) (simp_all add: root_check_sound[OF _ assms(2)])

lemmas root_check_simps = root_check_def root_int_def fips_primes_list

lemma K32_fips: "map fips_K32 [0..<64] = K32"
proof -
  have "list_all2 (root_check 3) (take 64 fips_primes) K32" by (simp add: root_check_simps K32_def)
  then have "map (fips_root 3 32) (take 64 fips_primes) = K32" using root_check_list[of 3 _ K32] by simp
  moreover have "take 64 fips_primes = map ((!) fips_primes) [0..<64]"
    by (rule take_map_nth) (simp add: fips_primes_length)
  ultimately have "map (fips_root 3 32) (map ((!) fips_primes) [0..<64]) = K32" by (simp only:)
  then show ?thesis unfolding map_map o_def fips_K32_def .
qed

lemma list_all2_take_drop: "list_all2 P (take n xs) (take n ys) \<Longrightarrow> list_all2 P (drop n xs) (drop n ys) \<Longrightarrow> list_all2 P xs ys"
  using list_all2_appendI[of P "take n xs" "take n ys" "drop n xs" "drop n ys"] by simp

lemma K64_fips: "map fips_K64 [0..<80] = K64"
proof -
  have 1: "list_all2 (root_check 3) (take 20 fips_primes) (take 20 K64)" by (simp add: root_check_simps K64_def)
  have 2: "list_all2 (root_check 3) (take 20 (drop 20 fips_primes)) (take 20 (drop 20 K64))" by (simp add: root_check_simps K64_def)
  have 3: "list_all2 (root_check 3) (take 20 (drop 40 fips_primes)) (take 20 (drop 40 K64))" by (simp add: root_check_simps K64_def)
  have 4: "list_all2 (root_check 3) (drop 60 fips_primes) (drop 60 K64)" by (simp add: root_check_simps K64_def)
  have "list_all2 (root_check 3) fips_primes K64"
    by (rule list_all2_take_drop[OF 1], rule list_all2_take_drop[OF 2]) (use list_all2_take_drop[OF 3] 4 in \<open>simp\<close>)
  then have "map (fips_root 3 64) fips_primes = K64" using root_check_list[of 3 _ K64] by simp
  moreover have "map ((!) fips_primes) [0..<80] = fips_primes" unfolding fips_primes_length[symmetric] by (rule map_nth)
  ultimately have "map (fips_root 3 64) (map ((!) fips_primes) [0..<80]) = K64" by (simp only:)
  then show ?thesis unfolding map_map o_def fips_K64_def .
qed

lemma init64_fips: "above_256 a \<Longrightarrow> sha2_state64 a = fips_init64 a"
proof -
  have "list_all2 (root_check 2) (take 8 fips_primes) (sha2_state64 SHA_512)"
    "list_all2 (root_check 2) (take 8 (drop 8 fips_primes)) (sha2_state64 SHA_384)"
    by (simp_all add: root_check_simps sha2_state64_def)
  then have "map (fips_root 2 64) (take 8 fips_primes) = sha2_state64 SHA_512"
    "map (fips_root 2 64) (take 8 (drop 8 fips_primes)) = sha2_state64 SHA_384"
    using root_check_list[of 2, where 'w = 64] by simp_all
  moreover assume "above_256 a"
  ultimately show ?thesis by (cases a) (simp_all add: above_256_def fips_init64_def, simp_all add: sha2_state64_def)
qed

lemma init32_fips: "\<not> above_256 a \<Longrightarrow> sha2_state32 a = fips_init32 a"
proof -
  have "list_all2 (root_check 2) (take 8 fips_primes) (sha2_state32 SHA_256)"
    by (simp add: root_check_simps sha2_state32_def)
  then have 1: "map (fips_root 2 32) (take 8 fips_primes) = sha2_state32 SHA_256"
    using root_check_list[of 2, where 'w = 32] by simp
  have u: "(fips_root 2 64 p :: u32) = ucast (fips_root 2 64 p :: u64)" for p
    unfolding fips_root_def by (rule bit_word_eqI) (auto simp: bit_simps)
  have "map (fips_root 2 64) ps = map (ucast :: u64 \<Rightarrow> u32) (map (fips_root 2 64) ps)" for ps by (simp add: u)
  moreover have "map (fips_root 2 64) (take 8 (drop 8 fips_primes)) = sha2_state64 SHA_384"
    using init64_fips[of SHA_384] by (simp add: above_256_def fips_init64_def)
  moreover have "map ucast (sha2_state64 SHA_384) = sha2_state32 SHA_224" by (simp add: sha2_state64_def sha2_state32_def)
  ultimately have 2: "map (fips_root 2 64) (take 8 (drop 8 fips_primes)) = sha2_state32 SHA_224" by metis
  assume "\<not> above_256 a"
  then show ?thesis using 1 2 by (auto simp: above_256_def fips_init32_def)
qed

lemma fips_block_cong:
  "(\<And>t. t < 64 \<Longrightarrow> K t = K' t) \<Longrightarrow> fips_block256 K H b = fips_block256 K' H b"
  "(\<And>t. t < 80 \<Longrightarrow> L t = L' t) \<Longrightarrow> fips_block512 L H' b = fips_block512 L' H' b"
  unfolding fips_block256_def fips_block512_def
  by (rule arg_cong[of _ _ "fips2_sum _"], rule foldl_upt_cong, simp add: fips2_round_def split: prod.split)+


section \<open>Finishing the digest\<close>

lemma sha2_padding_take:
  assumes "B = 64 \<or> B = 128" "l < B"
  shows "take (if l < B - B div 8 then B - B div 8 - l else 2 * B - B div 8 - l) sha2_padding =
    0x80 # replicate ((2 * B - B div 8 - 1 - l) mod B) 0"
proof -
  have t: "take j sha2_padding = 0x80 # replicate (j - 1) 0" if "0 < j" "j \<le> 128" for j
    using that by (cases j) (simp_all add: sha2_padding_def min_def)
  show ?thesis
  proof (cases "l < B - B div 8")
    case True
    then have e: "2 * B - B div 8 - 1 - l = B + (B - B div 8 - l - 1)" using assms by auto
    have "(B + (B - B div 8 - l - 1)) mod B = B - B div 8 - l - 1" using assms by (auto simp: mod_add_self1)
    then show ?thesis unfolding e using t[of "B - B div 8 - l"] True assms by auto
  next
    case False
    then have "(2 * B - B div 8 - 1 - l) mod B = 2 * B - B div 8 - l - 1" using assms by auto
    then show ?thesis using t[of "2 * B - B div 8 - l"] False assms by auto
  qed
qed

lemma sha2_finish_hash:
  fixes c :: "'w::len word sha2ctx"
  assumes c: "sha2_absorbed (2 ^ k) f h0 c m" and k: "k = 6 \<or> k = 7" "7 < LENGTH('w)"
    and put: "\<And>n. put (of_nat n :: 'w word) = be_bytes q n" and q: "2 * q = 2 ^ k div 8" "256 ^ q = (2 :: nat) ^ LENGTH('w)"
  shows "h_state (sha2_finish (2 ^ k) put f c) = fips2_hash (2 ^ k) f h0 m"
proof -
  let ?B = "2 ^ k :: nat" and ?n = "length m"
  let ?pad = "0x80 # replicate ((2 * ?B - ?B div 8 - 1 - ?n mod ?B) mod ?B) (0 :: u8)" and ?len = "be_bytes (?B div 8) (8 * ?n)"
  have B: "?B = 64 \<or> ?B = 128" using k(1) by auto
  have t: "h_total0 c = of_nat ?n" "h_total1 c = of_nat (?n div 2 ^ LENGTH('w))" using c by (auto simp: sha2_absorbed_def)
  have w: "3 < LENGTH('w)" "k \<le> 7" "7 \<le> LENGTH('w)" "k \<le> LENGTH('w)" using k by auto
  have len: "put (drop_bit (LENGTH('w) - 3) (h_total0 c) OR push_bit 3 (h_total1 c)) @ put (push_bit 3 (h_total0 c)) = ?len"
    unfolding t bit_length_words(1)[OF w(1)] unfolding bit_length_words(2)[OF w(1)] put q(1)[symmetric] q(2)[symmetric] mult_2 by (rule be_bytes_append[symmetric])
  have pad: "take (if unat (h_total0 c AND of_nat (?B - 1)) < ?B - ?B div 8 then ?B - ?B div 8 - unat (h_total0 c AND of_nat (?B - 1))
      else 2 * ?B - ?B div 8 - unat (h_total0 c AND of_nat (?B - 1))) sha2_padding = ?pad"
    unfolding t sha2_count_mod[OF w(4)] using sha2_padding_take[OF B, of "?n mod ?B"] by simp
  have p: "(2 :: nat) ^ 8 \<le> 2 ^ LENGTH('w)" using k(2) by (intro power_increasing) auto
  have "length ?pad < 2 ^ LENGTH('w)" "length ?len < 2 ^ LENGTH('w)"
    using p B mod_less_divisor[of ?B "2 * ?B - ?B div 8 - 1 - ?n mod ?B"] by (auto simp: be_bytes_length)
  note a = sha2_absorb_absorbs[OF sha2_absorb_absorbs[OF c w(2,3) this(1)] w(2,3) this(2)]
  have "sha2_finish ?B put f c = sha2_absorb ?B f ?len (sha2_absorb ?B f ?pad c)"
    unfolding sha2_finish_def Let_def pad len ..
  then show ?thesis using a unfolding sha2_absorbed_def sha2_core_def fips2_hash_def fips2_pad_def by simp
qed

lemma fold_blocks_cong:
  assumes "\<And>s b. P s \<Longrightarrow> length b = B \<Longrightarrow> f s b = g s b \<and> P (g s b)" "P s"
  shows "fold_blocks B f s m = fold_blocks B g s m \<and> P (fold_blocks B g s m)"
  using assms(2)
proof (induction "length m" arbitrary: s m rule: less_induct)
  case less
  show ?case
    using assms(1)[OF less.prems, of "take B m"] less.hyps[of "drop B m" "g s (take B m)"] less.prems
    by (auto simp: fold_blocks.simps[of B f s m] fold_blocks.simps[of B g s m])
qed

lemma fips2_sum_length: "length (fips2_sum H r) = 8"
  by (simp add: fips2_sum_def split: prod.split)

lemma sha256_hash:
  assumes "length H = 8"
  shows "fips2_hash 64 sha256_process H m = fips2_hash 64 (fips_block256 fips_K32) H m \<and> length (fips2_hash 64 (fips_block256 fips_K32) H m) = 8"
  unfolding fips2_hash_def
proof (rule fold_blocks_cong[where P = "\<lambda>s. length s = 8", OF _ assms])
  fix s :: "u32 list" and b :: "u8 list" assume "length s = 8" "length b = 64"
  moreover have "fips_block256 ((!) K32) s b = fips_block256 fips_K32 s b"
    unfolding K32_fips[symmetric] by (rule fips_block_cong) (simp del: upt_rec_numeral)
  ultimately show "sha256_process s b = fips_block256 fips_K32 s b \<and> length (fips_block256 fips_K32 s b) = 8"
    by (simp add: sha256_process_fips) (simp add: fips_block256_def fips2_sum_length)
qed

lemma sha512_hash:
  assumes "length H = 8"
  shows "fips2_hash 128 sha512_process H m = fips2_hash 128 (fips_block512 fips_K64) H m \<and> length (fips2_hash 128 (fips_block512 fips_K64) H m) = 8"
  unfolding fips2_hash_def
proof (rule fold_blocks_cong[where P = "\<lambda>s. length s = 8", OF _ assms])
  fix s :: "u64 list" and b :: "u8 list" assume "length s = 8" "length b = 128"
  moreover have "fips_block512 ((!) K64) s b = fips_block512 fips_K64 s b"
    unfolding K64_fips[symmetric] by (rule fips_block_cong) (simp del: upt_rec_numeral)
  ultimately show "sha512_process s b = fips_block512 fips_K64 s b \<and> length (fips_block512 fips_K64 s b) = 8"
    by (simp add: sha512_process_fips) (simp add: fips_block512_def fips2_sum_length)
qed

section \<open>SHA-2 as a digest engine\<close>

definition fips_size :: "sha2_algorithm \<Rightarrow> nat" where
  "fips_size a = (case a of SHA_224 \<Rightarrow> 28 | SHA_256 \<Rightarrow> 32 | SHA_384 \<Rightarrow> 48 | SHA_512 \<Rightarrow> 64 | SHA_512_224 \<Rightarrow> 28 | SHA_512_256 \<Rightarrow> 32)"

definition fips_sha2 :: "sha2_algorithm \<Rightarrow> u8 list \<Rightarrow> u8 list" where
  "fips_sha2 a m = take (fips_size a)
    (if a = SHA_224 \<or> a = SHA_256
     then concat (map (\<lambda>w. be_bytes 4 (unat w)) (fips2_hash 64 (fips_block256 fips_K32) (fips_init32 a) m))
     else concat (map (\<lambda>w. be_bytes 8 (unat w)) (fips2_hash 128 (fips_block512 fips_K64) (fips_init64 a) m)))"

definition sha2_engine_absorbed :: "sha2_algorithm \<Rightarrow> sha2 \<Rightarrow> u8 list \<Rightarrow> bool" where
  "sha2_engine_absorbed a e m \<longleftrightarrow> h_algorithm e = a \<and>
    (if above_256 a then sha2_absorbed 128 sha512_process (sha2_state64 a) (h_ctx64 e) m
     else sha2_absorbed 64 sha256_process (sha2_state32 a) (h_ctx32 e) m)"

definition sha2_limit :: "sha2_algorithm \<Rightarrow> nat" where
  "sha2_limit a = (if above_256 a then 2 ^ 64 else 2 ^ 32)"

lemma sha2_reset_absorbed: "h_algorithm e = a \<Longrightarrow> sha2_engine_absorbed a (sha2_reset e) []"
  by (auto simp: sha2_engine_absorbed_def sha2_absorbed_def sha2_core_def sha2_reset_def Let_def fold_blocks_short block_rest_short)

lemma sha2_update_absorbs:
  assumes "sha2_engine_absorbed a e m" "length x < sha2_limit a"
  shows "sha2_engine_absorbed a (sha2_updateImpl x e) (m @ x)"
proof (cases "above_256 a")
  case True
  then have "sha2_absorbed (2 ^ 7) sha512_process (sha2_state64 a) (h_ctx64 e) m" "length x < 2 ^ LENGTH(64)"
    using assms by (simp_all add: sha2_engine_absorbed_def sha2_limit_def)
  from sha2_absorb_absorbs[OF this(1) _ _ this(2)] show ?thesis
    using True assms(1) by (simp add: sha2_engine_absorbed_def sha2_updateImpl_def)
next
  case False
  then have "sha2_absorbed (2 ^ 6) sha256_process (sha2_state32 a) (h_ctx32 e) m" "length x < 2 ^ LENGTH(32)"
    using assms by (simp_all add: sha2_engine_absorbed_def sha2_limit_def)
  from sha2_absorb_absorbs[OF this(1) _ _ this(2)] show ?thesis
    using False assms(1) by (simp add: sha2_engine_absorbed_def sha2_updateImpl_def)
qed

lemma concat_uniform:
  assumes "\<And>w. length (p w) = q"
  shows "length (concat (map p ws)) = q * length ws" "concat (map p (take n ws)) = take (q * n) (concat (map p ws))"
proof -
  show "length (concat (map p ws)) = q * length ws" by (induction ws) (simp_all add: assms)
  show "concat (map p (take n ws)) = take (q * n) (concat (map p ws))"
    by (induction ws arbitrary: n) (simp_all add: assms take_Cons split: nat.split)
qed

lemma take_concat_pad:
  assumes "\<And>w. length (p w) = q" "l \<le> q * n" "n \<le> length ws"
  shows "take l (concat (map p (take n ws)) @ z) = take l (concat (map p ws))"
proof -
  have "q * n \<le> length (concat (map p ws))" unfolding concat_uniform(1)[of p q, OF assms(1)] using assms(3) by simp
  then show ?thesis unfolding concat_uniform(2)[of p q, OF assms(1)] using assms(2) by (simp add: min_absorb1)
qed

lemma PUT_UINT_unat: "PUT_UINT32 = (\<lambda>w. be_bytes 4 (unat w))" "PUT_UINT64 = (\<lambda>w. be_bytes 8 (unat w))"
proof -
  show "PUT_UINT32 = (\<lambda>w. be_bytes 4 (unat w))"
  proof
    show "PUT_UINT32 w = be_bytes 4 (unat w)" for w using PUT_UINT32_bytes[of "unat w"] by simp
  qed
  show "PUT_UINT64 = (\<lambda>w. be_bytes 8 (unat w))"
  proof
    show "PUT_UINT64 w = be_bytes 8 (unat w)" for w using PUT_UINT64_bytes[of "unat w"] by simp
  qed
qed

lemma sha2_digestLength_fips: "sha2_digestLength a = fips_size a"
  by (cases a) (simp_all add: sha2_digestLength_def fips_size_def)

lemma sha2_state_length: "length (sha2_state32 a) = 8" "length (sha2_state64 a) = 8"
  by (simp_all add: sha2_state32_def sha2_state64_def)

lemma sha2_digest_fips:
  assumes "sha2_engine_absorbed a e m"
  shows "fst (sha2_digest e) = fips_sha2 a m" "sha2_engine_absorbed a (snd (sha2_digest e)) []"
proof -
  have a: "h_algorithm e = a" using assms by (simp add: sha2_engine_absorbed_def)
  show "sha2_engine_absorbed a (snd (sha2_digest e)) []"
    using a by (auto simp: sha2_digest_def Let_def intro!: sha2_reset_absorbed)
  show "fst (sha2_digest e) = fips_sha2 a m"
  proof (cases "above_256 a")
    case True
    let ?H = "fips2_hash 128 (fips_block512 fips_K64) (fips_init64 a) m"
    have "sha2_absorbed (2 ^ 7) sha512_process (sha2_state64 a) (h_ctx64 e) m" using True assms by (simp add: sha2_engine_absorbed_def)
    from sha2_finish_hash[OF this _ _ PUT_UINT64_bytes]
    have s: "h_state (sha2_finish 128 PUT_UINT64 sha512_process (h_ctx64 e)) = ?H"
      using sha512_hash[OF sha2_state_length(2)[of a]] init64_fips[OF True] by simp
    have n: "length ?H = 8" using sha512_hash[OF sha2_state_length(2)[of a]] init64_fips[OF True] by simp
    have t: "take (fips_size a) (concat (map PUT_UINT64 (take (if a \<noteq> SHA_384 then 8 else 6) ?H)) @ z) = take (fips_size a) (concat (map PUT_UINT64 ?H))" for z
      unfolding PUT_UINT_unat by (rule take_concat_pad[where q = 8]) (use True n in \<open>cases a; simp add: above_256_def be_bytes_length fips_size_def\<close>)+
    show ?thesis
      using True unfolding sha2_digest_def Let_def a s sha2_digestLength_fips
      by (simp add: t fips_sha2_def PUT_UINT_unat[symmetric] above_256_def del: take_append)
  next
    case False
    let ?H = "fips2_hash 64 (fips_block256 fips_K32) (fips_init32 a) m"
    have "sha2_absorbed (2 ^ 6) sha256_process (sha2_state32 a) (h_ctx32 e) m" using False assms by (simp add: sha2_engine_absorbed_def)
    from sha2_finish_hash[OF this _ _ PUT_UINT32_bytes]
    have s: "h_state (sha2_finish 64 PUT_UINT32 sha256_process (h_ctx32 e)) = ?H"
      using sha256_hash[OF sha2_state_length(1)[of a]] init32_fips[OF False] by simp
    have n: "length ?H = 8" using sha256_hash[OF sha2_state_length(1)[of a]] init32_fips[OF False] by simp
    have t: "take (fips_size a) (concat (map PUT_UINT32 (take (if a \<noteq> SHA_224 then 8 else 7) ?H)) @ z) = take (fips_size a) (concat (map PUT_UINT32 ?H))" for z
      unfolding PUT_UINT_unat by (rule take_concat_pad[where q = 4]) (use False n in \<open>cases a; simp add: above_256_def be_bytes_length fips_size_def\<close>)+
    show ?thesis
      using False unfolding sha2_digest_def Let_def a s sha2_digestLength_fips
      by (auto simp: t fips_sha2_def PUT_UINT_unat[symmetric] above_256_def simp del: take_append)
  qed
qed

lemma fips_sha2_length: "length (fips_sha2 a m) = fips_size a"
proof -
  have "length (fips2_hash 64 (fips_block256 fips_K32) (fips_init32 a) m) = 8" if "\<not> above_256 a"
    using sha256_hash[OF sha2_state_length(1)[of a]] init32_fips[OF that] by simp
  moreover have "length (fips2_hash 128 (fips_block512 fips_K64) (fips_init64 a) m) = 8" if "above_256 a"
    using sha512_hash[OF sha2_state_length(2)[of a]] init64_fips[OF that] by simp
  ultimately show ?thesis
    unfolding fips_sha2_def above_256_def length_take
    by (cases a) (simp_all add: concat_uniform(1)[of "\<lambda>w. be_bytes 4 (unat w)" 4] concat_uniform(1)[of "\<lambda>w. be_bytes 8 (unat w)" 8]
      be_bytes_length fips_size_def)
qed

text \<open>\<^verbatim>\<open>BLOCK_SIZE\<close> of the subclasses, which fix the algorithm; there is none for the last two algorithms.\<close>

definition sha2_BLOCK_SIZE :: "sha2_algorithm \<Rightarrow> nat" where
  "sha2_BLOCK_SIZE a = (case a of SHA_224 \<Rightarrow> 64 | SHA_256 \<Rightarrow> 64 | _ \<Rightarrow> 128)"

interpretation sha2: digest_engine "sha2_new a" "\<lambda>e. Some (sha2_reset e)" "\<lambda>x e. Some (sha2_updateImpl x e)"
  "\<lambda>e. Some (sha2_digest e)" "sha2_engine_absorbed a" "fips_sha2 a" "sha2_BLOCK_SIZE a" "fips_size a" "sha2_limit a" for a
proof
  show "sha2_engine_absorbed a (sha2_new a) []" unfolding sha2_new_def by (rule sha2_reset_absorbed) simp
  show "\<exists>e'. Some (sha2_reset e) = Some e' \<and> sha2_engine_absorbed a e' []" if "sha2_engine_absorbed a e m" for e m
    using sha2_reset_absorbed[of e a] that by (simp add: sha2_engine_absorbed_def[of a e m])
  show "\<exists>e'. Some (sha2_digest e) = Some (fips_sha2 a m, e') \<and> sha2_engine_absorbed a e' []" if "sha2_engine_absorbed a e m" for e m
    using sha2_digest_fips[OF that] by (cases "sha2_digest e") auto
  show "0 < fips_size a" "fips_size a \<le> sha2_BLOCK_SIZE a" by (simp_all add: fips_size_def sha2_BLOCK_SIZE_def split: sha2_algorithm.split)
  show "sha2_BLOCK_SIZE a < sha2_limit a" "4 < sha2_limit a"
    by (simp_all add: sha2_limit_def sha2_BLOCK_SIZE_def split: sha2_algorithm.split)
qed (auto simp: sha2_update_absorbs fips_sha2_length)

text \<open>
  The limit is needed: \<^verbatim>\<open>updateImpl\<close> of SHA-224 and SHA-256 adds the low 32 bits of the length of its argument, so that an update of \<open>2\<^sup>3\<^sup>2\<close>
  bytes is not counted at all.
\<close>

lemma sha256_count_lost:
  assumes "length x = 2 ^ 32"
  shows "h_total0 (sha2_absorb 64 f x (c :: u32 sha2ctx)) = h_total0 c" "h_total1 (sha2_absorb 64 f x c) = h_total1 c"
proof -
  have "x \<noteq> []" using assms by auto
  have z: "of_nat (length x) = (0 :: u32)" unfolding assms by simp
  have "h_total0 (sha2_tail 64 f (sha2_fill 64 f left x c)) = h_total0 c" "h_total1 (sha2_tail 64 f (sha2_fill 64 f left x c)) = h_total1 c" for left c
    by (simp_all add: sha2_tail_def sha2_fill_def Let_def)
  then show "h_total0 (sha2_absorb 64 f x (c :: u32 sha2ctx)) = h_total0 c" "h_total1 (sha2_absorb 64 f x c) = h_total1 c"
    using sha2_absorb_steps[OF _ \<open>x \<noteq> []\<close>, of 64 f c] unfolding z by (simp_all add: sha2_count_def)
qed

text \<open>
  C16.  SHA-2: for each of the six algorithms and whatever the pieces in which a message is given (each below
  \<open>2\<^sup>3\<^sup>2\<close> bytes for SHA-224 and SHA-256, below \<open>2\<^sup>6\<^sup>4\<close> for the others), the engine's digest is the hash of FIPS 180-4 of the
  whole message, with the constants computed from the roots of the first primes, and the engine is then ready for the next message.
\<close>

theorem sha2_digest_correct:
  assumes "list_all (\<lambda>x. length x < sha2_limit a) xs" "list_all (\<lambda>x. length x < sha2_limit a) ys"
  shows "fst (sha2_digest (fold sha2_updateImpl xs (sha2_new a))) = fips_sha2 a (concat xs) \<and>
    fst (sha2_digest (fold sha2_updateImpl ys (snd (sha2_digest (fold sha2_updateImpl xs (sha2_new a)))))) = fips_sha2 a (concat ys)"
proof -
  have f: "feed (\<lambda>x c. Some (sha2_updateImpl x c)) zs c = Some (fold sha2_updateImpl zs c)" for zs c
    by (induction zs arbitrary: c) (simp_all add: feed_simps)
  have "\<exists>e'. sha2_digest (fold sha2_updateImpl zs c) = (fips_sha2 a (concat zs), e') \<and> sha2_engine_absorbed a e' []"
    if "sha2_engine_absorbed a c []" "list_all (\<lambda>x. length x < sha2_limit a) zs" for c zs
    using sha2.updates_ok[OF that] sha2.digest_ok by (fastforce simp: f)
  from this[OF sha2.fresh_ok assms(1)] this[OF _ assms(2)] show ?thesis by fastforce
qed

theorem sha2_digest_correct_witness:
  "fst (sha2_digest (fold sha2_updateImpl [[0x61], [0x62, 0x63]] (sha2_new SHA_384))) = fips_sha2 SHA_384 [0x61, 0x62, 0x63]"
  using conjunct1[OF sha2_digest_correct[of SHA_384 "[[0x61], [0x62, 0x63]]" "[]"]] by (simp add: sha2_limit_def above_256_def)
end
