(* ===== verification/Mac.thy ===== *)
theory Mac
  imports SHA1 MD45 SHA2
begin

text \<open>
  \<^verbatim>\<open>HMACEngine\<close> and \<^verbatim>\<open>PBKDF2Engine\<close> on the engines of the library: what the locales of theory \<open>Digest\<close> prove for
  every engine is stated here for SHA-1, MD5, MD4 and SHA-2.
\<close>

section \<open>HMAC on the engines\<close>

abbreviation hmac_sha1_new :: "u8 list \<Rightarrow> sha1 hmac option" where
  "hmac_sha1_new \<equiv> hmac_init sha1_new (\<lambda>c. Some (sha1_reset c)) (\<lambda>x c. Some (sha1_updateImpl x c)) (\<lambda>c. Some (sha1_digest c)) 64"

abbreviation hmac_sha1_update :: "u8 list \<Rightarrow> sha1 hmac \<Rightarrow> sha1 hmac option" where
  "hmac_sha1_update \<equiv> hmac_updateImpl (\<lambda>x c. Some (sha1_updateImpl x c))"

abbreviation hmac_sha1_reset :: "sha1 hmac \<Rightarrow> sha1 hmac option" where
  "hmac_sha1_reset \<equiv> hmac_reset (\<lambda>c. Some (sha1_reset c)) (\<lambda>x c. Some (sha1_updateImpl x c))"

abbreviation hmac_sha1_digest :: "sha1 hmac \<Rightarrow> (u8 list \<times> sha1 hmac) option" where
  "hmac_sha1_digest \<equiv> hmac_digest (\<lambda>c. Some (sha1_reset c)) (\<lambda>x c. Some (sha1_updateImpl x c)) (\<lambda>c. Some (sha1_digest c))"

abbreviation hmac_md5_new :: "u8 list \<Rightarrow> mdctx hmac option" where
  "hmac_md5_new \<equiv> hmac_init md5_reset (\<lambda>c. Some md5_reset) md5_updateImpl md5_digest 64"

abbreviation hmac_md5_update :: "u8 list \<Rightarrow> mdctx hmac \<Rightarrow> mdctx hmac option" where
  "hmac_md5_update \<equiv> hmac_updateImpl md5_updateImpl"

abbreviation hmac_md5_digest :: "mdctx hmac \<Rightarrow> (u8 list \<times> mdctx hmac) option" where
  "hmac_md5_digest \<equiv> hmac_digest (\<lambda>c. Some md5_reset) md5_updateImpl md5_digest"

abbreviation hmac_sha2_new :: "sha2_algorithm \<Rightarrow> u8 list \<Rightarrow> sha2 hmac option" where
  "hmac_sha2_new a \<equiv> hmac_init (sha2_new a) (\<lambda>e. Some (sha2_reset e)) (\<lambda>x e. Some (sha2_updateImpl x e)) (\<lambda>e. Some (sha2_digest e))
     (sha2_BLOCK_SIZE a)"

abbreviation hmac_sha2_update :: "u8 list \<Rightarrow> sha2 hmac \<Rightarrow> sha2 hmac option" where
  "hmac_sha2_update \<equiv> hmac_updateImpl (\<lambda>x e. Some (sha2_updateImpl x e))"

abbreviation hmac_sha2_reset :: "sha2 hmac \<Rightarrow> sha2 hmac option" where
  "hmac_sha2_reset \<equiv> hmac_reset (\<lambda>e. Some (sha2_reset e)) (\<lambda>x e. Some (sha2_updateImpl x e))"

abbreviation hmac_sha2_digest :: "sha2 hmac \<Rightarrow> (u8 list \<times> sha2 hmac) option" where
  "hmac_sha2_digest \<equiv> hmac_digest (\<lambda>e. Some (sha2_reset e)) (\<lambda>x e. Some (sha2_updateImpl x e)) (\<lambda>e. Some (sha2_digest e))"

text \<open>A MAC of a message given in pieces, twice in a row with the same object.\<close>

definition mac_twice :: "(u8 list \<Rightarrow> 'e option) \<Rightarrow> (u8 list \<Rightarrow> 'e \<Rightarrow> 'e option) \<Rightarrow> ('e \<Rightarrow> (u8 list \<times> 'e) option) \<Rightarrow>
    u8 list \<Rightarrow> u8 list list \<Rightarrow> u8 list list \<Rightarrow> (u8 list \<times> u8 list) option" where
  "mac_twice new update digest k xs ys =
    do { h \<leftarrow> new k;
         h \<leftarrow> feed update xs h;
         (d1, h) \<leftarrow> digest h;
         h \<leftarrow> feed update ys h;
         (d2, h) \<leftarrow> digest h;
         Some (d1, d2) }"

context keyed_engine
begin

lemma feed_ok:
  "absorbed k e m \<Longrightarrow> list_all (\<lambda>x. length x < lim) xs \<Longrightarrow>
    \<exists>e'. feed update xs e = Some e' \<and> absorbed k e' (m @ concat xs)"
proof (induction xs arbitrary: e m)
  case (Cons x xs)
  then obtain e' where "update x e = Some e'" "absorbed k e' (m @ x)" using update_ok[of k e m x] by auto
  then show ?case using Cons.IH[of e' "m @ x"] Cons.prems by (simp add: feed_simps)
qed (simp add: feed_simps)

lemma mac_twice_ok:
  assumes "length k < lim" "list_all (\<lambda>x. length x < lim) xs" "list_all (\<lambda>x. length x < lim) ys"
  shows "mac_twice new update digest k xs ys = Some (mac k (concat xs), mac k (concat ys))"
proof -
  obtain e where e: "new k = Some e" "absorbed k e []" using new_ok[OF assms(1)] by blast
  obtain e1 where e1: "feed update xs e = Some e1" "absorbed k e1 (concat xs)" using feed_ok[OF e(2) assms(2)] by auto
  obtain e2 where e2: "digest e1 = Some (mac k (concat xs), e2)" "absorbed k e2 []" using digest_ok[OF e1(2)] by blast
  obtain e3 where e3: "feed update ys e2 = Some e3" "absorbed k e3 (concat ys)" using feed_ok[OF e2(2) assms(3)] by auto
  obtain e4 where e4: "digest e3 = Some (mac k (concat ys), e4)" using digest_ok[OF e3(2)] by blast
  show ?thesis using e e1 e2 e3 e4 by (simp add: mac_twice_def)
qed

end

lemma limit_weaken:
  "length k < 2 ^ 32 - 63 \<Longrightarrow> length k < 2 ^ 32" "length k < 2 ^ 32 - 63 \<Longrightarrow> length k < sha2_limit a"
  "list_all (\<lambda>x. length x < 2 ^ 32 - 63) xs \<Longrightarrow> list_all (\<lambda>x. length x < 2 ^ 32) xs"
  "list_all (\<lambda>x. length x < 2 ^ 32 - 63) xs \<Longrightarrow> list_all (\<lambda>x. length x < sha2_limit a) xs"
  by (auto simp: sha2_limit_def elim!: list.pred_mono_strong)

text \<open>
  C30.  HMAC: for keys of any length below the limit of the engine and messages given in any pieces, the
  code computes the HMAC of RFC 2104 over SHA-1, over MD5 and over each algorithm of SHA-2, and the object is ready for a
  second message under the same key.
\<close>

theorem hmac_correct:
  assumes "length k < 2 ^ 32 - 63" "list_all (\<lambda>x. length x < 2 ^ 32 - 63) xs" "list_all (\<lambda>x. length x < 2 ^ 32 - 63) ys"
  shows "mac_twice hmac_sha1_new hmac_sha1_update hmac_sha1_digest k xs ys =
      Some (rfc_hmac fips_sha1 64 k (concat xs), rfc_hmac fips_sha1 64 k (concat ys)) \<and>
    mac_twice (hmac_sha2_new a) hmac_sha2_update hmac_sha2_digest k xs ys =
      Some (rfc_hmac (fips_sha2 a) (sha2_BLOCK_SIZE a) k (concat xs), rfc_hmac (fips_sha2 a) (sha2_BLOCK_SIZE a) k (concat ys)) \<and>
    mac_twice hmac_md5_new hmac_md5_update hmac_md5_digest k xs ys =
      Some (rfc_hmac rfc_md5 64 k (concat xs), rfc_hmac rfc_md5 64 k (concat ys))"
  by (intro conjI sha1.hmac.mac_twice_ok sha2.hmac.mac_twice_ok md5.hmac.mac_twice_ok[folded md5_defs] limit_weaken assms)

theorem hmac_correct_witness:
  "mac_twice hmac_md5_new hmac_md5_update hmac_md5_digest [0x4b] [[1], [2, 3]] [[]] =
    Some (rfc_hmac rfc_md5 64 [0x4b] [1, 2, 3], rfc_hmac rfc_md5 64 [0x4b] [])"
  using conjunct2[OF conjunct2[OF hmac_correct[of "[0x4b]" "[[1], [2, 3]]" "[[]]"]]] by simp

section \<open>PBKDF2\<close>

lemma pbkdf2_feed: "p_p (fold pbkdf2_updateImpl xs p) = p_p p @ concat xs" "p_s (fold pbkdf2_updateImpl xs p) = p_s p"
  "p_c (fold pbkdf2_updateImpl xs p) = p_c p" "p_dkLen (fold pbkdf2_updateImpl xs p) = p_dkLen p"
  "p_result (fold pbkdf2_updateImpl xs p) = p_result p"
  by (induction xs arbitrary: p) (simp_all add: pbkdf2_updateImpl_def)

context keyed_engine
begin

lemma pbkdf2_run_ok:
  fixes c dkLen :: nat
  assumes "length (concat xs) < lim" "length salt < lim"
  defines "key \<equiv> rfc_pbkdf2 (mac (concat xs)) L salt c dkLen"
  shows "\<exists>p. pbkdf2_digest new reset update digest (fold pbkdf2_updateImpl xs (pbkdf2_new salt c dkLen)) = Some (key, p) \<and> length key = dkLen \<and>
    map_option fst (pbkdf2_digest new reset update digest (pbkdf2_updateImpl extra p)) = Some key \<and>
    p_p (pbkdf2_reset p) = [] \<and> p_result (pbkdf2_reset p) = []"
proof -
  let ?p = "fold pbkdf2_updateImpl xs (pbkdf2_new salt c dkLen)"
  have p: "p_p ?p = concat xs" "p_s ?p = salt" "p_c ?p = c" "p_dkLen ?p = dkLen" "p_result ?p = []"
    by (simp_all add: pbkdf2_feed pbkdf2_new_def)
  have "length (p_p ?p) < lim" "length (p_s ?p) < lim" using assms(1,2) unfolding p by auto
  from pbkdf2_digest_ok[OF this p(5)] obtain p' where
    p': "pbkdf2_digest new reset update digest ?p = Some (key, p')" "p_result p' = key" "p_dkLen p' = dkLen"
    unfolding p key_def by blast
  have l: "length key = dkLen" unfolding key_def by (rule pbkdf2_length)
  then have "map_option fst (pbkdf2_digest new reset update digest (pbkdf2_updateImpl extra p')) = Some key"
    using pbkdf2_stale[of p' extra] p' by simp
  then show ?thesis using p'(1) l by (auto simp: pbkdf2_reset_def)
qed

end

abbreviation pbkdf2_sha1_digest :: "pbkdf2 \<Rightarrow> (u8 list \<times> pbkdf2) option" where
  "pbkdf2_sha1_digest \<equiv> pbkdf2_digest hmac_sha1_new hmac_sha1_reset hmac_sha1_update hmac_sha1_digest"

abbreviation pbkdf2_sha2_digest :: "sha2_algorithm \<Rightarrow> pbkdf2 \<Rightarrow> (u8 list \<times> pbkdf2) option" where
  "pbkdf2_sha2_digest a \<equiv> pbkdf2_digest (hmac_sha2_new a) hmac_sha2_reset hmac_sha2_update hmac_sha2_digest"

text \<open>
  C38.  PBKDF2 with HMAC-SHA1 and with HMAC over SHA-2: after the password is given in any pieces, \<^verbatim>\<open>digest\<close> returns the
  derived key of RFC 2898, which has exactly \<open>dkLen\<close> bytes.  A second \<^verbatim>\<open>digest\<close> returns the same key again whatever is added
  in between, until \<^verbatim>\<open>reset\<close> is called.
\<close>

theorem pbkdf2_correct:
  fixes c dkLen :: nat and a :: sha2_algorithm
  assumes "length (concat xs) < 2 ^ 32" "length salt < 2 ^ 32"
  defines "key \<equiv> rfc_pbkdf2 (rfc_hmac fips_sha1 64 (concat xs)) 20 salt c dkLen"
    and "key2 \<equiv> rfc_pbkdf2 (rfc_hmac (fips_sha2 a) (sha2_BLOCK_SIZE a) (concat xs)) (fips_size a) salt c dkLen"
  shows "(\<exists>p. pbkdf2_sha1_digest (fold pbkdf2_updateImpl xs (pbkdf2_new salt c dkLen)) = Some (key, p) \<and> length key = dkLen \<and>
      map_option fst (pbkdf2_sha1_digest (pbkdf2_updateImpl extra p)) = Some key \<and>
      p_p (pbkdf2_reset p) = [] \<and> p_result (pbkdf2_reset p) = []) \<and>
    (\<exists>p. pbkdf2_sha2_digest a (fold pbkdf2_updateImpl xs (pbkdf2_new salt c dkLen)) = Some (key2, p) \<and> length key2 = dkLen \<and>
      map_option fst (pbkdf2_sha2_digest a (pbkdf2_updateImpl extra p)) = Some key2 \<and>
      p_p (pbkdf2_reset p) = [] \<and> p_result (pbkdf2_reset p) = [])"
proof
  have "2 ^ 32 \<le> sha2_limit a" by (simp add: sha2_limit_def)
  then have "length (concat xs) < sha2_limit a" "length salt < sha2_limit a" using assms(1,2) by linarith+
  then show "\<exists>p. pbkdf2_sha2_digest a (fold pbkdf2_updateImpl xs (pbkdf2_new salt c dkLen)) = Some (key2, p) \<and> length key2 = dkLen \<and>
      map_option fst (pbkdf2_sha2_digest a (pbkdf2_updateImpl extra p)) = Some key2 \<and>
      p_p (pbkdf2_reset p) = [] \<and> p_result (pbkdf2_reset p) = []"
    unfolding key2_def by (rule sha2.hmac.pbkdf2_run_ok)
qed (unfold key_def, rule sha1.hmac.pbkdf2_run_ok[OF assms(1,2)])

theorem pbkdf2_correct_witness:
  "\<exists>p. pbkdf2_sha1_digest (fold pbkdf2_updateImpl [[0x70], [0x77]] (pbkdf2_new [0x73] 2 32)) =
    Some (rfc_pbkdf2 (rfc_hmac fips_sha1 64 [0x70, 0x77]) 20 [0x73] 2 32, p)"
  using conjunct1[OF pbkdf2_correct[of "[[0x70], [0x77]]" "[0x73]" 2 32]] by auto
end
