(* ===== verification/Cache.thy ===== *)
theory Cache
  imports Prelude
begin

text \<open>
  \<^verbatim>\<open>AbstractCache\<close> over an arbitrary replacement strategy (\<^verbatim>\<open>AbstractStrategy\<close>).

  The strategy is told of every change through the cache's events and answers two questions: which keys
  should be removed, and is a key still valid.  It is modelled as an object: the record \<open>strategy\<close> is its
  table of virtual functions, the type \<open>'s\<close> its state.  A callback that reads the clock (\<^verbatim>\<open>Timestamp now\<close>) takes the
  readings of that call as an argument of type \<open>nat \<Rightarrow> int\<close> (microseconds); an operation of the cache
  takes the readings of its successive callbacks.

  A \<^verbatim>\<open>std::map\<close> is its list of entries in the order of the keys, a \<^verbatim>\<open>std::set\<close> its sorted list of elements.  The
  events the cache notifies are kept in the order in which listeners see them.  The locale \<open>cache_strategy\<close> is
  the contract between the cache and a strategy.
\<close>

section \<open>Ordered containers\<close>

abbreviation smap_insert :: "'k::linorder \<Rightarrow> 'v \<Rightarrow> ('k \<times> 'v) list \<Rightarrow> ('k \<times> 'v) list" where
  "smap_insert k v m \<equiv> insort_insert_key fst (k, v) m"

definition smap_assign :: "'k \<Rightarrow> 'v \<Rightarrow> ('k \<times> 'v) list \<Rightarrow> ('k \<times> 'v) list" where
  "smap_assign k v m = map (\<lambda>(k', v'). (k', if k' = k then v else v')) m"

definition smap_erase :: "'k \<Rightarrow> ('k \<times> 'v) list \<Rightarrow> ('k \<times> 'v) list" where
  "smap_erase k m = filter (\<lambda>p. fst p \<noteq> k) m"

definition smap_wf :: "('k::linorder \<times> 'v) list \<Rightarrow> bool" where
  "smap_wf m \<longleftrightarrow> sorted (map fst m) \<and> distinct (map fst m)"

lemma map_of_insort: "k \<notin> fst ` set m \<Longrightarrow> map_of (insort_key fst (k, v) m) = (map_of m)(k \<mapsto> v)"
  by (induction m) (auto simp: fun_eq_iff)

lemma smap_insert_new:
  assumes "smap_wf m" "map_of m k = None"
  shows "smap_wf (smap_insert k v m)" "map_of (smap_insert k v m) = (map_of m)(k \<mapsto> v)"
    "length (smap_insert k v m) = Suc (length m)"
proof -
  have k: "k \<notin> fst ` set m" using assms(2) by (simp add: map_of_eq_None_iff)
  then have i: "smap_insert k v m = insort_key fst (k, v) m" by (simp add: insort_insert_key_def)
  have "distinct (map fst (insort_key fst (k, v) m))"
    using assms(1) k unfolding smap_wf_def by (induction m) (auto simp: set_insort_key)
  then show "smap_wf (smap_insert k v m)" using assms(1) unfolding i by (simp add: smap_wf_def sorted_insort_key)
  show "map_of (smap_insert k v m) = (map_of m)(k \<mapsto> v)" unfolding i by (rule map_of_insort[OF k])
  show "length (smap_insert k v m) = Suc (length m)" unfolding i by (induction m) auto
qed

lemma smap_assign_keys [simp]: "map fst (smap_assign k v m) = map fst m"
  by (induction m) (auto simp: smap_assign_def)

lemma map_of_assign: "map_of m k \<noteq> None \<Longrightarrow> map_of (smap_assign k v m) = (map_of m)(k \<mapsto> v)"
proof -
  have "map_of (smap_assign k v m) x = (if x = k \<and> map_of m k \<noteq> None then Some v else map_of m x)" for x
    by (induction m) (auto simp: smap_assign_def)
  then show "map_of m k \<noteq> None \<Longrightarrow> map_of (smap_assign k v m) = (map_of m)(k \<mapsto> v)" by (auto simp: fun_eq_iff)
qed

lemma smap_assign_wf: "smap_wf (smap_assign k v m) = smap_wf m"
  by (simp add: smap_wf_def)

lemma map_of_erase: "map_of (smap_erase k m) = (map_of m)(k := None)"
  by (induction m) (auto simp: smap_erase_def)

lemma smap_erase_wf: "smap_wf m \<Longrightarrow> smap_wf (smap_erase k m)"
  by (simp add: smap_wf_def smap_erase_def sorted_filter distinct_map_filter)

lemma smap_erase_length: "smap_wf m \<Longrightarrow> map_of m k \<noteq> None \<Longrightarrow> Suc (length (smap_erase k m)) = length m"
  unfolding smap_wf_def
proof (induction m)
  case (Cons p m)
  show ?case
  proof (cases "fst p = k")
    case True
    then have "filter (\<lambda>q. fst q \<noteq> k) m = m" using Cons.prems(1) by (auto simp: filter_id_conv image_iff)
    then show ?thesis using True by (simp add: smap_erase_def)
  qed (use Cons in \<open>cases p; auto simp: smap_erase_def\<close>)
qed simp

lemma smap_length: "smap_wf m \<Longrightarrow> length m = card (dom (map_of m))"
  by (metis distinct_card dom_map_of_conv_image_fst length_map list.set_map smap_wf_def)

section \<open>The strategy interface\<close>

type_synonym clock = "nat \<Rightarrow> int"

record ('k, 'v, 's) strategy =
  onAdd :: "clock \<Rightarrow> 'k \<Rightarrow> 'v \<Rightarrow> 's \<Rightarrow> 's"
  onUpdate :: "clock \<Rightarrow> 'k \<Rightarrow> 'v \<Rightarrow> 's \<Rightarrow> 's"
  onRemove :: "'k \<Rightarrow> 's \<Rightarrow> 's"
  onGet :: "clock \<Rightarrow> 'k \<Rightarrow> 's \<Rightarrow> 's"
  onClear :: "'s \<Rightarrow> 's"
  onIsValid :: "clock \<Rightarrow> 'k \<Rightarrow> bool \<Rightarrow> 's \<Rightarrow> bool"
  onReplace :: "clock \<Rightarrow> 'k list \<Rightarrow> 's \<Rightarrow> 'k list"

text \<open>The implementation of \<^verbatim>\<open>onUpdate\<close> that every strategy inherits.\<close>

definition default_onUpdate :: "('k \<Rightarrow> 's \<Rightarrow> 's) \<Rightarrow> (clock \<Rightarrow> 'k \<Rightarrow> 'v \<Rightarrow> 's \<Rightarrow> 's) \<Rightarrow> clock \<Rightarrow> 'k \<Rightarrow> 'v \<Rightarrow> 's \<Rightarrow> 's" where
  "default_onUpdate remove add now k v s = add now k v (remove k s)"

section \<open>AbstractCache\<close>

datatype ('k, 'v) cache_event =
    AddEvent 'k 'v
  | UpdateEvent 'k 'v
  | RemoveEvent 'k
  | GetEvent 'k
  | ClearEvent

record ('k, 'v, 's) cache =
  c_strategy :: 's
  c_data :: "('k \<times> 'v) list"
  c_events :: "('k, 'v) cache_event list"

definition cache_new :: "'s \<Rightarrow> ('k, 'v, 's) cache" where
  "cache_new s = \<lparr>c_strategy = s, c_data = [], c_events = []\<rparr>"

definition cache_notify :: "('s \<Rightarrow> 's) \<Rightarrow> ('k, 'v) cache_event \<Rightarrow> ('k, 'v, 's) cache \<Rightarrow> ('k, 'v, 's) cache" where
  "cache_notify callback e c = c\<lparr>c_strategy := callback (c_strategy c), c_events := c_events c @ [e]\<rparr>"

definition cache_doRemove :: "('k, 'v, 's) strategy \<Rightarrow> 'k \<Rightarrow> ('k, 'v, 's) cache \<Rightarrow> ('k, 'v, 's) cache" where
  "cache_doRemove S key c =
    (case map_of (c_data c) key of
       None \<Rightarrow> c
     | Some _ \<Rightarrow> (let c = cache_notify (onRemove S key) (RemoveEvent key) c
                   in c\<lparr>c_data := smap_erase key (c_data c)\<rparr>))"

definition cache_doReplace :: "('k, 'v, 's) strategy \<Rightarrow> clock \<Rightarrow> ('k, 'v, 's) cache \<Rightarrow> ('k, 'v, 's) cache" where
  "cache_doReplace S now c = fold (cache_doRemove S) (onReplace S now [] (c_strategy c)) c"

definition cache_doAdd :: "('k::linorder, 'v, 's) strategy \<Rightarrow> (nat \<Rightarrow> clock) \<Rightarrow> 'k \<Rightarrow> 'v \<Rightarrow>
    ('k, 'v, 's) cache \<Rightarrow> ('k, 'v, 's) cache" where
  "cache_doAdd S clk key val c =
    (let c = cache_doRemove S key c;
         c = cache_notify (onAdd S (clk 0) key val) (AddEvent key val) c;
         c = c\<lparr>c_data := smap_insert key val (c_data c)\<rparr>
     in cache_doReplace S (clk 1) c)"

text \<open>The overloads that take a \<^verbatim>\<open>SharedPtr\<close> dereference it, which throws for a null pointer (\<open>None\<close>).\<close>

definition cache_doAddPtr :: "('k::linorder, 'v, 's) strategy \<Rightarrow> (nat \<Rightarrow> clock) \<Rightarrow> 'k \<Rightarrow> 'v option \<Rightarrow>
    ('k, 'v, 's) cache \<Rightarrow> exn option \<times> ('k, 'v, 's) cache" where
  "cache_doAddPtr S clk key val c =
    (let c = cache_doRemove S key c in
     case val of
       None \<Rightarrow> (Some NullPointerException, c)
     | Some v \<Rightarrow>
         (let c = cache_notify (onAdd S (clk 0) key v) (AddEvent key v) c;
              c = c\<lparr>c_data := smap_insert key v (c_data c)\<rparr>
          in (None, cache_doReplace S (clk 1) c)))"

definition cache_doUpdate :: "('k::linorder, 'v, 's) strategy \<Rightarrow> (nat \<Rightarrow> clock) \<Rightarrow> 'k \<Rightarrow> 'v \<Rightarrow>
    ('k, 'v, 's) cache \<Rightarrow> ('k, 'v, 's) cache" where
  "cache_doUpdate S clk key val c =
    (let c = (case map_of (c_data c) key of
         None \<Rightarrow> (let c = cache_notify (onAdd S (clk 0) key val) (AddEvent key val) c
                   in c\<lparr>c_data := smap_insert key val (c_data c)\<rparr>)
       | Some _ \<Rightarrow> (let c = cache_notify (onUpdate S (clk 0) key val) (UpdateEvent key val) c
                     in c\<lparr>c_data := smap_assign key val (c_data c)\<rparr>))
     in cache_doReplace S (clk 1) c)"

definition cache_doUpdatePtr :: "('k::linorder, 'v, 's) strategy \<Rightarrow> (nat \<Rightarrow> clock) \<Rightarrow> 'k \<Rightarrow> 'v option \<Rightarrow>
    ('k, 'v, 's) cache \<Rightarrow> exn option \<times> ('k, 'v, 's) cache" where
  "cache_doUpdatePtr S clk key val c =
    (case val of
       None \<Rightarrow> (Some NullPointerException, c)
     | Some v \<Rightarrow> (None, cache_doUpdate S clk key v c))"

definition cache_doHas :: "('k, 'v, 's) strategy \<Rightarrow> clock \<Rightarrow> 'k \<Rightarrow> ('k, 'v, 's) cache \<Rightarrow> bool" where
  "cache_doHas S now key c =
    (case map_of (c_data c) key of
       None \<Rightarrow> False
     | Some _ \<Rightarrow> onIsValid S now key True (c_strategy c))"

definition cache_doGet :: "('k, 'v, 's) strategy \<Rightarrow> (nat \<Rightarrow> clock) \<Rightarrow> 'k \<Rightarrow> ('k, 'v, 's) cache \<Rightarrow>
    'v option \<times> ('k, 'v, 's) cache" where
  "cache_doGet S clk key c =
    (case map_of (c_data c) key of
       None \<Rightarrow> (None, c)
     | Some v \<Rightarrow>
         (let c = cache_notify (onGet S (clk 0) key) (GetEvent key) c
          in if onIsValid S (clk 1) key True (c_strategy c) then (Some v, c)
             else (None, cache_doRemove S key c)))"

definition cache_doClear :: "('k, 'v, 's) strategy \<Rightarrow> ('k, 'v, 's) cache \<Rightarrow> ('k, 'v, 's) cache" where
  "cache_doClear S c = (cache_notify (onClear S) ClearEvent c)\<lparr>c_data := []\<rparr>"

definition cache_size :: "('k, 'v, 's) strategy \<Rightarrow> clock \<Rightarrow> ('k, 'v, 's) cache \<Rightarrow> nat \<times> ('k, 'v, 's) cache" where
  "cache_size S now c = (let c = cache_doReplace S now c in (length (c_data c), c))"

definition cache_getAllKeys :: "('k::linorder, 'v, 's) strategy \<Rightarrow> clock \<Rightarrow> ('k, 'v, 's) cache \<Rightarrow>
    'k list \<times> ('k, 'v, 's) cache" where
  "cache_getAllKeys S now c =
    (let c = cache_doReplace S now c in (fold insort_insert (map fst (c_data c)) [], c))"

definition cache_forEach :: "('k \<Rightarrow> 'v \<Rightarrow> 'b \<Rightarrow> 'b) \<Rightarrow> ('k, 'v, 's) cache \<Rightarrow> 'b \<Rightarrow> 'b" where
  "cache_forEach fn c = fold (\<lambda>(k, v). fn k v) (c_data c)"

text \<open>The public operations, each of which holds the mutex for its whole duration.\<close>

datatype ('k, 'v) cache_op =
    Add 'k 'v | AddPtr 'k "'v option" | Update 'k 'v | UpdatePtr 'k "'v option" | Remove 'k
  | Get 'k | Clear | ForceReplace

fun cache_step :: "('k::linorder, 'v, 's) strategy \<Rightarrow> (nat \<Rightarrow> clock) \<Rightarrow> ('k, 'v) cache_op \<Rightarrow>
    ('k, 'v, 's) cache \<Rightarrow> ('k, 'v, 's) cache" where
  "cache_step S clk (Add k v) c = cache_doAdd S clk k v c"
| "cache_step S clk (AddPtr k p) c = snd (cache_doAddPtr S clk k p c)"
| "cache_step S clk (Update k v) c = cache_doUpdate S clk k v c"
| "cache_step S clk (UpdatePtr k p) c = snd (cache_doUpdatePtr S clk k p c)"
| "cache_step S clk (Remove k) c = cache_doRemove S k c"
| "cache_step S clk (Get k) c = snd (cache_doGet S clk k c)"
| "cache_step S clk Clear c = cache_doClear S c"
| "cache_step S clk ForceReplace c = cache_doReplace S (clk 0) c"

text \<open>What a listener that follows the events knows of the contents.\<close>

fun replay :: "('k, 'v) cache_event \<Rightarrow> ('k \<rightharpoonup> 'v) \<Rightarrow> ('k \<rightharpoonup> 'v)" where
  "replay (AddEvent k v) m = m(k \<mapsto> v)"
| "replay (UpdateEvent k v) m = m(k \<mapsto> v)"
| "replay (RemoveEvent k) m = m(k := None)"
| "replay (GetEvent k) m = m"
| "replay ClearEvent m = Map.empty"

section \<open>The contract\<close>

text \<open>
  \<open>rep s K\<close>: the strategy is in a consistent state and tracks exactly the keys \<open>K\<close>.  The cache adds only
  keys that are not tracked and updates only keys that are.
\<close>

locale cache_strategy =
  fixes S :: "('k::linorder, 'v, 's) strategy"
    and rep :: "'s \<Rightarrow> 'k set \<Rightarrow> bool"
  assumes add_rep: "rep s K \<Longrightarrow> k \<notin> K \<Longrightarrow> rep (onAdd S now k v s) (insert k K)"
    and update_rep: "rep s K \<Longrightarrow> k \<in> K \<Longrightarrow> rep (onUpdate S now k v s) K"
    and remove_rep: "rep s K \<Longrightarrow> rep (onRemove S k s) (K - {k})"
    and get_rep: "rep s K \<Longrightarrow> rep (onGet S now k s) K"
    and clear_rep: "rep s K \<Longrightarrow> rep (onClear S s) {}"
    and replace_rep: "rep s K \<Longrightarrow> sorted del \<Longrightarrow> distinct del \<Longrightarrow>
      sorted (onReplace S now del s) \<and> distinct (onReplace S now del s) \<and>
      set del \<subseteq> set (onReplace S now del s) \<and> set (onReplace S now del s) \<subseteq> set del \<union> K"

definition cache_ok :: "('s \<Rightarrow> 'k::linorder set \<Rightarrow> bool) \<Rightarrow> ('k, 'v, 's) cache \<Rightarrow> bool" where
  "cache_ok rep c \<longleftrightarrow> rep (c_strategy c) (dom (map_of (c_data c))) \<and> smap_wf (c_data c) \<and>
    fold replay (c_events c) Map.empty = map_of (c_data c)"

lemmas cache_sel = cache_notify_def smap_insert_new map_of_erase smap_erase_wf map_of_assign smap_assign_wf

context cache_strategy
begin

lemma new_ok: "rep s {} \<Longrightarrow> cache_ok rep (cache_new s)"
  by (simp add: cache_ok_def cache_new_def smap_wf_def)

lemma doRemove_ok:
  assumes "cache_ok rep c"
  shows "cache_ok rep (cache_doRemove S k c)" "map_of (c_data (cache_doRemove S k c)) = (map_of (c_data c))(k := None)"
proof -
  have r: "rep (onRemove S k (c_strategy c)) (dom (map_of (c_data c)) - {k})"
    using assms remove_rep by (simp add: cache_ok_def)
  show "map_of (c_data (cache_doRemove S k c)) = (map_of (c_data c))(k := None)"
    by (auto simp: cache_doRemove_def map_of_erase cache_notify_def fun_eq_iff split: option.splits)
  show "cache_ok rep (cache_doRemove S k c)"
    using assms r by (auto simp: cache_doRemove_def cache_ok_def cache_sel split: option.splits)
qed

lemma doRemoves_ok:
  "cache_ok rep c \<Longrightarrow> cache_ok rep (fold (cache_doRemove S) ks c) \<and>
    map_of (c_data (fold (cache_doRemove S) ks c)) = map_of (c_data c) |` (- set ks)"
proof (induction ks arbitrary: c)
  case (Cons k ks)
  have "map_of (c_data (fold (cache_doRemove S) ks (cache_doRemove S k c))) = map_of (c_data c) |` (- set (k # ks))"
    using Cons.IH[OF doRemove_ok(1)[OF Cons.prems]] doRemove_ok(2)[OF Cons.prems]
    by (auto simp: restrict_map_def fun_eq_iff)
  then show ?case using Cons.IH[OF doRemove_ok(1)[OF Cons.prems]] by simp
qed (simp add: restrict_map_def)

lemma doReplace_ok:
  assumes "cache_ok rep c"
  shows "cache_ok rep (cache_doReplace S now c)"
    "map_of (c_data (cache_doReplace S now c)) = map_of (c_data c) |` (- set (onReplace S now [] (c_strategy c)))"
  using doRemoves_ok[OF assms] by (simp_all add: cache_doReplace_def)

lemma insert_ok:
  fixes now :: clock and v :: 'v
  assumes "cache_ok rep c" "map_of (c_data c) k = None"
  defines "c' \<equiv> (cache_notify (onAdd S now k v) (AddEvent k v) c)\<lparr>c_data := smap_insert k v (c_data c)\<rparr>"
  shows "cache_ok rep c'" "map_of (c_data c') = (map_of (c_data c))(k \<mapsto> v)"
  using assms add_rep[of "c_strategy c" "dom (map_of (c_data c))" k now v]
  by (auto simp: cache_ok_def cache_sel)

lemma assign_ok:
  fixes now :: clock and v :: 'v
  assumes "cache_ok rep c" "map_of (c_data c) k \<noteq> None"
  defines "c' \<equiv> (cache_notify (onUpdate S now k v) (UpdateEvent k v) c)\<lparr>c_data := smap_assign k v (c_data c)\<rparr>"
  shows "cache_ok rep c'" "map_of (c_data c') = (map_of (c_data c))(k \<mapsto> v)"
  using assms update_rep[of "c_strategy c" "dom (map_of (c_data c))" k now v]
  by (auto simp: cache_ok_def cache_sel insert_absorb domI)

lemma doAdd_eq:
  "cache_doAdd S clk k v c =
    cache_doReplace S (clk 1) ((cache_notify (onAdd S (clk 0) k v) (AddEvent k v) (cache_doRemove S k c))
      \<lparr>c_data := smap_insert k v (c_data (cache_doRemove S k c))\<rparr>)"
  by (simp add: cache_doAdd_def Let_def cache_notify_def)

lemma doAdd_ok:
  assumes "cache_ok rep c"
  shows "cache_ok rep (cache_doAdd S clk k v c)"
    "map_of (c_data (cache_doAdd S clk k v c)) \<subseteq>\<^sub>m (map_of (c_data c))(k \<mapsto> v)"
proof -
  note r = doRemove_ok[OF assms, of k]
  have "map_of (c_data (cache_doRemove S k c)) k = None" by (simp add: r(2))
  note i = insert_ok[OF r(1) this, where now = "clk 0" and v = v]
  show "cache_ok rep (cache_doAdd S clk k v c)" unfolding doAdd_eq by (rule doReplace_ok(1)[OF i(1)])
  show "map_of (c_data (cache_doAdd S clk k v c)) \<subseteq>\<^sub>m (map_of (c_data c))(k \<mapsto> v)"
    unfolding doAdd_eq doReplace_ok(2)[OF i(1)] i(2) r(2) by (auto simp: map_le_def restrict_map_def)
qed

lemma doUpdate_ok:
  assumes "cache_ok rep c"
  shows "cache_ok rep (cache_doUpdate S clk k v c)"
    "map_of (c_data (cache_doUpdate S clk k v c)) \<subseteq>\<^sub>m (map_of (c_data c))(k \<mapsto> v)"
proof -
  obtain c' where c': "cache_doUpdate S clk k v c = cache_doReplace S (clk 1) c'" "cache_ok rep c'"
      "map_of (c_data c') = (map_of (c_data c))(k \<mapsto> v)"
    using insert_ok[OF assms, of k, where now = "clk 0" and v = v] assign_ok[OF assms, of k, where now = "clk 0" and v = v]
    by (cases "map_of (c_data c) k") (auto simp: cache_doUpdate_def Let_def cache_notify_def)
  show "cache_ok rep (cache_doUpdate S clk k v c)" unfolding c' by (rule doReplace_ok(1)[OF c'(2)])
  show "map_of (c_data (cache_doUpdate S clk k v c)) \<subseteq>\<^sub>m (map_of (c_data c))(k \<mapsto> v)"
    unfolding c'(1) doReplace_ok(2)[OF c'(2)] c'(3) by (auto simp: map_le_def restrict_map_def)
qed

lemma get_notify_ok: "cache_ok rep c \<Longrightarrow> cache_ok rep (cache_notify (onGet S now k) (GetEvent k) c)"
  by (simp add: cache_ok_def cache_notify_def get_rep)

lemma doGet_ok:
  assumes "cache_ok rep c"
  shows "cache_ok rep (snd (cache_doGet S clk k c))"
    "fst (cache_doGet S clk k c) = (if map_of (c_data c) k \<noteq> None \<and>
        onIsValid S (clk 1) k True (onGet S (clk 0) k (c_strategy c)) then map_of (c_data c) k else None)"
    "map_of (c_data (snd (cache_doGet S clk k c))) = (if fst (cache_doGet S clk k c) = None then (map_of (c_data c))(k := None)
      else map_of (c_data c))"
  using doRemove_ok[OF get_notify_ok[OF assms, of "clk 0" k], of k] get_notify_ok[OF assms, of "clk 0" k] assms
  by (auto simp: cache_doGet_def Let_def cache_notify_def fun_upd_idem split: option.splits)

lemma doClear_ok: "cache_ok rep c \<Longrightarrow> cache_ok rep (cache_doClear S c)"
  by (auto simp: cache_ok_def cache_doClear_def cache_notify_def clear_rep smap_wf_def)

lemma doAddPtr_eq:
  "cache_doAddPtr S clk k None c = (Some NullPointerException, cache_doRemove S k c)"
  "cache_doAddPtr S clk k (Some v) c = (None, cache_doAdd S clk k v c)"
  by (simp_all add: cache_doAddPtr_def cache_doAdd_def Let_def)

lemma doUpdatePtr_eq:
  "cache_doUpdatePtr S clk k None c = (Some NullPointerException, c)"
  "cache_doUpdatePtr S clk k (Some v) c = (None, cache_doUpdate S clk k v c)"
  by (simp_all add: cache_doUpdatePtr_def)

lemma step_ok: "cache_ok rep c \<Longrightarrow> cache_ok rep (cache_step S clk op c)"
proof (cases op)
  case (AddPtr k p)
  then show "cache_ok rep c \<Longrightarrow> ?thesis" by (cases p) (simp_all add: doAddPtr_eq doAdd_ok doRemove_ok)
next
  case (UpdatePtr k p)
  then show "cache_ok rep c \<Longrightarrow> ?thesis" by (cases p) (simp_all add: doUpdatePtr_eq doUpdate_ok)
qed (simp_all add: doAdd_ok doUpdate_ok doRemove_ok doGet_ok doClear_ok doReplace_ok)

lemma run_ok: "cache_ok rep c \<Longrightarrow> cache_ok rep (fold (\<lambda>(clk, op). cache_step S clk op) ops c)"
  by (induction ops arbitrary: c) (auto simp: step_ok)

end
end
