(* ===== verification/CacheLRU.thy ===== *)
theory CacheLRU
  imports Cache
begin

text \<open>
  \<^verbatim>\<open>LRUStrategy\<close> and \<^verbatim>\<open>LRUCache\<close>, and their refinement of a list of entries ordered by their last use.

  The strategy keeps iterators into a \<^verbatim>\<open>std::list\<close>.  A node of the list has an identity (a number never used
  before), the list is its nodes in order, and an iterator is the identity of the node it points to.
\<close>

section \<open>LRUStrategy\<close>

record 'k lru =
  l_size :: nat
  l_keys :: "(nat \<times> 'k) list"
  l_keyIndex :: "('k \<times> nat) list"
  l_fresh :: nat

definition lru_new :: "nat \<Rightarrow> 'k lru result" where
  "lru_new n = (if n < 1 then Inl InvalidArgumentException
     else Inr \<lparr>l_size = n, l_keys = [], l_keyIndex = [], l_fresh = 0\<rparr>)"

definition lru_onAdd :: "clock \<Rightarrow> 'k::linorder \<Rightarrow> 'v \<Rightarrow> 'k lru \<Rightarrow> 'k lru" where
  "lru_onAdd now key val s =
    (let node = l_fresh s;
         s = s\<lparr>l_keys := (node, key) # l_keys s, l_fresh := Suc node\<rparr>
     in case map_of (l_keyIndex s) key of
          None \<Rightarrow> s\<lparr>l_keyIndex := smap_insert key node (l_keyIndex s)\<rparr>
        | Some _ \<Rightarrow> s\<lparr>l_keyIndex := smap_assign key node (l_keyIndex s)\<rparr>)"

definition lru_onRemove :: "'k \<Rightarrow> 'k lru \<Rightarrow> 'k lru" where
  "lru_onRemove key s =
    (case map_of (l_keyIndex s) key of
       None \<Rightarrow> s
     | Some node \<Rightarrow> s\<lparr>l_keys := filter (\<lambda>p. fst p \<noteq> node) (l_keys s), l_keyIndex := smap_erase key (l_keyIndex s)\<rparr>)"

definition lru_onGet :: "clock \<Rightarrow> 'k \<Rightarrow> 'k lru \<Rightarrow> 'k lru" where
  "lru_onGet now key s =
    (case map_of (l_keyIndex s) key of
       None \<Rightarrow> s
     | Some node \<Rightarrow>
         (let s = s\<lparr>l_keys := filter (\<lambda>p. fst p = node) (l_keys s) @ filter (\<lambda>p. fst p \<noteq> node) (l_keys s)\<rparr>
          in s\<lparr>l_keyIndex := smap_assign key (fst (hd (l_keys s))) (l_keyIndex s)\<rparr>))"

definition lru_onClear :: "'k lru \<Rightarrow> 'k lru" where
  "lru_onClear s = s\<lparr>l_keys := [], l_keyIndex := []\<rparr>"

definition lru_onIsValid :: "clock \<Rightarrow> 'k \<Rightarrow> bool \<Rightarrow> 'k lru \<Rightarrow> bool" where
  "lru_onIsValid now key valid s = (if map_of (l_keyIndex s) key = None then False else valid)"

text \<open>The loop of \<^verbatim>\<open>onReplace\<close>: the list holds the keys from the iterator back to \<^verbatim>\<open>_keys.begin()\<close>.\<close>

fun lru_replace_loop :: "nat \<Rightarrow> 'k::linorder list \<Rightarrow> 'k list \<Rightarrow> 'k list" where
  "lru_replace_loop 0 it elemsToRemove = elemsToRemove"
| "lru_replace_loop (Suc n) [] elemsToRemove = elemsToRemove"
| "lru_replace_loop (Suc n) (k # before) elemsToRemove =
    lru_replace_loop n (if before = [] then [k] else before) (insort_insert k elemsToRemove)"

definition lru_onReplace :: "clock \<Rightarrow> 'k::linorder list \<Rightarrow> 'k lru \<Rightarrow> 'k list" where
  "lru_onReplace now elemsToRemove s =
    (let curSize = length (l_keyIndex s)
     in if curSize < l_size s then elemsToRemove
        else let diff = curSize - l_size s in lru_replace_loop diff (rev (map snd (l_keys s))) elemsToRemove)"

definition lru_strategy :: "('k::linorder, 'v, 'k lru) strategy" where
  "lru_strategy = \<lparr>onAdd = lru_onAdd, onUpdate = default_onUpdate lru_onRemove lru_onAdd, onRemove = lru_onRemove,
     onGet = lru_onGet, onClear = lru_onClear, onIsValid = lru_onIsValid, onReplace = lru_onReplace\<rparr>"

text \<open>\<^verbatim>\<open>LRUCache\<close>\<close>

definition lruCache_new :: "nat \<Rightarrow> ('k, 'v, 'k lru) cache result" where
  "lruCache_new n = rbind (lru_new n) (\<lambda>s. Inr (cache_new s))"

section \<open>The state of LRUStrategy\<close>

definition lru_rep :: "'k::linorder lru \<Rightarrow> 'k set \<Rightarrow> bool" where
  "lru_rep s K \<longleftrightarrow> 1 \<le> l_size s \<and> smap_wf (l_keyIndex s) \<and> dom (map_of (l_keyIndex s)) = K \<and>
    distinct (map fst (l_keys s)) \<and> (\<forall>i k. (i, k) \<in> set (l_keys s) \<longleftrightarrow> map_of (l_keyIndex s) k = Some i) \<and>
    (\<forall>i k. (i, k) \<in> set (l_keys s) \<longrightarrow> i < l_fresh s)"

definition lru_order :: "'k lru \<Rightarrow> 'k list" where
  "lru_order s = map snd (l_keys s)"

lemma lru_repD:
  assumes "lru_rep s K"
  shows "1 \<le> l_size s" "smap_wf (l_keyIndex s)" "dom (map_of (l_keyIndex s)) = K" "distinct (map fst (l_keys s))"
    "(i, k) \<in> set (l_keys s) \<longleftrightarrow> map_of (l_keyIndex s) k = Some i" "(i, k) \<in> set (l_keys s) \<Longrightarrow> i < l_fresh s"
  using assms by (auto simp: lru_rep_def)

lemma lru_order_rep:
  assumes "lru_rep s K"
  shows "set (lru_order s) = K" "distinct (lru_order s)" "length (l_keyIndex s) = length (lru_order s)"
proof -
  note r = lru_repD[OF assms]
  have "set (lru_order s) = {k. \<exists>i. (i, k) \<in> set (l_keys s)}" by (force simp: lru_order_def)
  also have "\<dots> = dom (map_of (l_keyIndex s))" unfolding r(5) by auto
  finally show k: "set (lru_order s) = K" unfolding r(3) .
  have "inj_on snd (set (l_keys s))" 
  proof (rule inj_onI)
    fix p q assume a: "p \<in> set (l_keys s)" "q \<in> set (l_keys s)" "snd p = snd q"
    have "map_of (l_keyIndex s) (snd x) = Some (fst x)" if "x \<in> set (l_keys s)" for x
      using that r(5)[of "fst x" "snd x"] by simp
    from this[OF a(1)] this[OF a(2)] a(3) show "p = q" by (simp add: prod_eq_iff)
  qed
  then show d: "distinct (lru_order s)" using r(4) by (simp add: lru_order_def distinct_map)
  show "length (l_keyIndex s) = length (lru_order s)" using smap_length[OF r(2)] r(3) k distinct_card[OF d] by simp
qed

lemma lru_onAdd_rep:
  assumes "lru_rep s K" "k \<notin> K"
  shows "lru_rep (lru_onAdd now k v s) (insert k K)" "lru_order (lru_onAdd now k v s) = k # lru_order s"
    "l_size (lru_onAdd now k v s) = l_size s"
proof -
  note r = lru_repD[OF assms(1)]
  have n: "map_of (l_keyIndex s) k = None" using assms(2) r(3) by auto
  then have e: "lru_onAdd now k v s = s\<lparr>l_keys := (l_fresh s, k) # l_keys s, l_fresh := Suc (l_fresh s),
      l_keyIndex := smap_insert k (l_fresh s) (l_keyIndex s)\<rparr>"
    by (simp add: lru_onAdd_def Let_def)
  have f: "l_fresh s \<notin> fst ` set (l_keys s)" using r(6) by force
  have k: "(i, k) \<notin> set (l_keys s)" for i using r(5)[of i k] n by simp
  show "lru_rep (lru_onAdd now k v s) (insert k K)"
    unfolding lru_rep_def e using r f k smap_insert_new[OF r(2) n, of "l_fresh s"] by (auto simp: less_Suc_eq)
  show "lru_order (lru_onAdd now k v s) = k # lru_order s" "l_size (lru_onAdd now k v s) = l_size s"
    unfolding e by (simp_all add: lru_order_def)
qed

lemma filter_unique: "distinct (map f xs) \<Longrightarrow> x \<in> set xs \<Longrightarrow> filter (\<lambda>p. f p = f x) xs = [x]"
proof (induction xs)
  case (Cons a xs)
  show ?case
  proof (cases "a = x")
    case True
    then have "filter (\<lambda>p. f p = f x) xs = []" using Cons.prems(1) by (auto simp: filter_empty_conv) (metis image_eqI)
    then show ?thesis using True by simp
  qed (use Cons in auto)
qed simp

lemma filter_node:
  assumes "lru_rep s K" "map_of (l_keyIndex s) k = Some node"
  shows "map snd (filter (\<lambda>p. fst p \<noteq> node) (l_keys s)) = filter (\<lambda>x. x \<noteq> k) (lru_order s)"
    "filter (\<lambda>p. fst p = node) (l_keys s) = [(node, k)]"
    "p \<in> set (l_keys s) \<Longrightarrow> fst p = node \<longleftrightarrow> snd p = k"
proof -
  note r = lru_repD[OF assms(1)]
  have n: "(node, k) \<in> set (l_keys s)" using r(5) assms(2) by simp
  then show u: "filter (\<lambda>p. fst p = node) (l_keys s) = [(node, k)]" using filter_unique[OF r(4) n] by simp
  show e: "fst p = node \<longleftrightarrow> snd p = k" if "p \<in> set (l_keys s)" for p
  proof
    assume "fst p = node"
    then have "p \<in> set (filter (\<lambda>p. fst p = node) (l_keys s))" using that by simp
    then show "snd p = k" unfolding u by simp
  next
    assume "snd p = k"
    then show "fst p = node" using that r(5)[of "fst p" "snd p"] assms(2) by (cases p) simp
  qed
  have "filter (\<lambda>p. fst p \<noteq> node) (l_keys s) = filter (\<lambda>p. snd p \<noteq> k) (l_keys s)"
    by (rule filter_cong[OF refl]) (simp add: e)
  then show "map snd (filter (\<lambda>p. fst p \<noteq> node) (l_keys s)) = filter (\<lambda>x. x \<noteq> k) (lru_order s)"
    by (simp add: lru_order_def filter_map o_def)
qed

lemma lru_onRemove_rep:
  assumes "lru_rep s K"
  shows "lru_rep (lru_onRemove k s) (K - {k})" "lru_order (lru_onRemove k s) = filter (\<lambda>x. x \<noteq> k) (lru_order s)"
    "l_size (lru_onRemove k s) = l_size s"
proof -
  note r = lru_repD[OF assms] and o = lru_order_rep[OF assms]
  consider "map_of (l_keyIndex s) k = None" | node where "map_of (l_keyIndex s) k = Some node" by fastforce
  then have "lru_rep (lru_onRemove k s) (K - {k}) \<and> lru_order (lru_onRemove k s) = filter (\<lambda>x. x \<noteq> k) (lru_order s) \<and>
      l_size (lru_onRemove k s) = l_size s"
  proof cases
    case 1
    then have "k \<notin> K" using r(3) by auto
    then have "filter (\<lambda>x. x \<noteq> k) (lru_order s) = lru_order s" "K - {k} = K" using o(1) by (auto simp: filter_id_conv)
    then show ?thesis using 1 assms by (simp add: lru_onRemove_def)
  next
    case 2
    note n = filter_node[OF assms 2]
    have e: "lru_onRemove k s = s\<lparr>l_keys := filter (\<lambda>p. fst p \<noteq> node) (l_keys s), l_keyIndex := smap_erase k (l_keyIndex s)\<rparr>"
      using 2 by (simp add: lru_onRemove_def)
    have m: "(i, x) \<in> set (l_keys s) \<and> i \<noteq> node \<longleftrightarrow> ((map_of (l_keyIndex s))(k := None)) x = Some i" for i x
      using r(5)[of i x] n(3)[of "(i, x)"] by auto
    have "distinct (map fst (filter (\<lambda>p. fst p \<noteq> node) (l_keys s)))" using r(4) by (rule distinct_map_filter)
    then have "lru_rep (lru_onRemove k s) (K - {k})"
      unfolding lru_rep_def e using r m by (auto simp: map_of_erase smap_erase_wf)
    then show ?thesis using n(1) unfolding e by (simp add: lru_order_def)
  qed
  then show "lru_rep (lru_onRemove k s) (K - {k})" "lru_order (lru_onRemove k s) = filter (\<lambda>x. x \<noteq> k) (lru_order s)"
    "l_size (lru_onRemove k s) = l_size s" by simp_all
qed

lemma lru_onGet_rep:
  assumes "lru_rep s K"
  shows "lru_rep (lru_onGet now k s) K" "l_size (lru_onGet now k s) = l_size s"
    "lru_order (lru_onGet now k s) = (if k \<in> K then k # filter (\<lambda>x. x \<noteq> k) (lru_order s) else lru_order s)"
proof -
  note r = lru_repD[OF assms]
  consider "map_of (l_keyIndex s) k = None" | node where "map_of (l_keyIndex s) k = Some node" by fastforce
  then have "lru_rep (lru_onGet now k s) K \<and> l_size (lru_onGet now k s) = l_size s \<and>
      lru_order (lru_onGet now k s) = (if k \<in> K then k # filter (\<lambda>x. x \<noteq> k) (lru_order s) else lru_order s)"
  proof cases
    case 1
    then have "k \<notin> K" using r(3) by auto
    then show ?thesis using 1 assms by (simp add: lru_onGet_def)
  next
    case 2
    note n = filter_node[OF assms 2]
    have k: "k \<in> K" using 2 r(3) by auto
    have a: "map_of (smap_assign k node (l_keyIndex s)) = map_of (l_keyIndex s)"
      using map_of_assign[of "l_keyIndex s" k node] 2 by (simp add: fun_upd_idem)
    have e: "lru_onGet now k s = s\<lparr>l_keys := (node, k) # filter (\<lambda>p. fst p \<noteq> node) (l_keys s),
        l_keyIndex := smap_assign k node (l_keyIndex s)\<rparr>"
      using 2 n(2) by (simp add: lru_onGet_def Let_def)
    have m: "(i, x) = (node, k) \<or> (i, x) \<in> set (l_keys s) \<and> i \<noteq> node \<longleftrightarrow> (i, x) \<in> set (l_keys s)" for i x
      using r(5)[of node k] 2 n(3)[of "(i, x)"] by auto
    have d: "distinct (map fst (filter (\<lambda>p. fst p \<noteq> node) (l_keys s)))" using r(4) by (rule distinct_map_filter)
    have "lru_rep (lru_onGet now k s) K"
      unfolding lru_rep_def e using r d m 2 by (auto simp: a smap_assign_wf)
    then show ?thesis using n(1) k unfolding e by (simp add: lru_order_def)
  qed
  then show "lru_rep (lru_onGet now k s) K" "l_size (lru_onGet now k s) = l_size s"
    "lru_order (lru_onGet now k s) = (if k \<in> K then k # filter (\<lambda>x. x \<noteq> k) (lru_order s) else lru_order s)" by simp_all
qed

lemma lru_replace_loop:
  "n \<le> length it \<Longrightarrow> sorted del \<Longrightarrow> distinct del \<Longrightarrow>
    sorted (lru_replace_loop n it del) \<and> distinct (lru_replace_loop n it del) \<and>
    set (lru_replace_loop n it del) = set del \<union> set (take n it)"
proof (induction n it del rule: lru_replace_loop.induct)
  case (3 n k before del)
  then show ?case by (cases n) (auto simp: set_insort_insert sorted_insort_insert distinct_insort_insert)
qed simp_all

lemma lru_onReplace_rep:
  assumes "lru_rep s K" "sorted del" "distinct del"
  shows "sorted (lru_onReplace now del s)" "distinct (lru_onReplace now del s)"
    "set (lru_onReplace now del s) = set del \<union> set (drop (l_size s) (lru_order s))"
proof -
  let ?ks = "lru_order s"
  have l: "length (l_keyIndex s) = length ?ks" by (rule lru_order_rep(3)[OF assms(1)])
  have "set (take (length ?ks - l_size s) (rev ?ks)) = set (drop (length ?ks - (length ?ks - l_size s)) ?ks)"
    by (simp add: take_rev)
  also have "length ?ks - (length ?ks - l_size s) = (if length ?ks < l_size s then length ?ks else l_size s)" by simp
  finally have t: "set (take (length ?ks - l_size s) (rev ?ks)) = set (drop (l_size s) ?ks)" by simp
  have "sorted (lru_onReplace now del s) \<and> distinct (lru_onReplace now del s) \<and>
      set (lru_onReplace now del s) = set del \<union> set (drop (l_size s) ?ks)"
    using lru_replace_loop[of "length ?ks - l_size s" "rev ?ks" del] assms(2,3)
    unfolding lru_onReplace_def l Let_def lru_order_def[symmetric] t by simp
  then show "sorted (lru_onReplace now del s)" "distinct (lru_onReplace now del s)"
    "set (lru_onReplace now del s) = set del \<union> set (drop (l_size s) ?ks)" by simp_all
qed

lemma lru_onUpdate_rep:
  assumes "lru_rep s K" "k \<in> K"
  shows "lru_rep (default_onUpdate lru_onRemove lru_onAdd now k v s) K"
    "lru_order (default_onUpdate lru_onRemove lru_onAdd now k v s) = k # filter (\<lambda>x. x \<noteq> k) (lru_order s)"
    "l_size (default_onUpdate lru_onRemove lru_onAdd now k v s) = l_size s"
  using lru_onAdd_rep[OF lru_onRemove_rep(1)[OF assms(1)], of k k now v] lru_onRemove_rep(2,3)[OF assms(1)] assms(2)
  by (simp_all add: default_onUpdate_def insert_absorb)

lemmas lru_sel = lru_strategy_def strategy.simps

interpretation lru: cache_strategy lru_strategy lru_rep
proof
  fix s :: "'a lru" and K now k and v :: 'b and del
  assume r: "lru_rep s K"
  show "k \<notin> K \<Longrightarrow> lru_rep (onAdd lru_strategy now k v s) (insert k K)" unfolding lru_sel by (rule lru_onAdd_rep[OF r])
  show "k \<in> K \<Longrightarrow> lru_rep (onUpdate lru_strategy now k v s) K" unfolding lru_sel by (rule lru_onUpdate_rep[OF r])
  show "lru_rep (onRemove lru_strategy k s) (K - {k})" unfolding lru_sel by (rule lru_onRemove_rep[OF r])
  show "lru_rep (onGet lru_strategy now k s) K" unfolding lru_sel by (rule lru_onGet_rep[OF r])
  show "lru_rep (onClear lru_strategy s) {}" using r by (simp add: lru_sel lru_onClear_def lru_rep_def smap_wf_def)
  show "sorted del \<Longrightarrow> distinct del \<Longrightarrow> sorted (onReplace lru_strategy now del s) \<and> distinct (onReplace lru_strategy now del s) \<and>
      set del \<subseteq> set (onReplace lru_strategy now del s) \<and> set (onReplace lru_strategy now del s) \<subseteq> set del \<union> K"
    unfolding lru_sel using lru_onReplace_rep[OF r, of del now] lru_order_rep(1)[OF r] in_set_dropD by fastforce
qed

section \<open>LRUCache keeps the most recently used entries\<close>

text \<open>The specification: the entries, most recently used first, at most \<open>n\<close> of them.\<close>

fun lru_spec :: "nat \<Rightarrow> ('k, 'v) cache_op \<Rightarrow> ('k \<times> 'v) list \<Rightarrow> ('k \<times> 'v) list" where
  "lru_spec n (Add k v) l = take n ((k, v) # filter (\<lambda>p. fst p \<noteq> k) l)"
| "lru_spec n (AddPtr k p) l =
    (case p of None \<Rightarrow> filter (\<lambda>p. fst p \<noteq> k) l | Some v \<Rightarrow> take n ((k, v) # filter (\<lambda>p. fst p \<noteq> k) l))"
| "lru_spec n (Update k v) l = take n ((k, v) # filter (\<lambda>p. fst p \<noteq> k) l)"
| "lru_spec n (UpdatePtr k p) l =
    (case p of None \<Rightarrow> l | Some v \<Rightarrow> take n ((k, v) # filter (\<lambda>p. fst p \<noteq> k) l))"
| "lru_spec n (Remove k) l = filter (\<lambda>p. fst p \<noteq> k) l"
| "lru_spec n (Get k) l = (case map_of l k of None \<Rightarrow> l | Some v \<Rightarrow> (k, v) # filter (\<lambda>p. fst p \<noteq> k) l)"
| "lru_spec n Clear l = []"
| "lru_spec n ForceReplace l = take n l"

definition lru_abs :: "('k, 'v, 'k lru) cache \<Rightarrow> ('k \<times> 'v) list" where
  "lru_abs c = map (\<lambda>k. (k, the (map_of (c_data c) k))) (lru_order (c_strategy c))"

definition lru_view :: "('k \<rightharpoonup> 'v) \<Rightarrow> 'k list \<Rightarrow> ('k \<times> 'v) list" where
  "lru_view m ks = map (\<lambda>k. (k, the (m k))) ks"

lemma lru_view_filter: "lru_view m (filter P ks) = filter (\<lambda>p. P (fst p)) (lru_view m ks)"
  by (simp add: lru_view_def filter_map o_def)

lemma lru_view_cong: "(\<And>k. k \<in> set ks \<Longrightarrow> m k = m' k) \<Longrightarrow> lru_view m ks = lru_view m' ks"
  by (simp add: lru_view_def)

lemma lru_view_upd: "lru_view (m(k := x)) (filter (\<lambda>y. y \<noteq> k) ks) = filter (\<lambda>p. fst p \<noteq> k) (lru_view m ks)"
  by (induction ks) (auto simp: lru_view_def)

lemma lru_view_cons: "lru_view m (k # ks) = (k, the (m k)) # lru_view m ks"
  by (simp add: lru_view_def)

lemma lru_view_take: "lru_view m (take n ks) = take n (lru_view m ks)"
  by (simp add: lru_view_def take_map)

lemma lru_view_lookup: "map_of (lru_view m ks) k = (if k \<in> set ks then Some (the (m k)) else None)"
  by (induction ks) (auto simp: lru_view_def)

lemma lru_abs_view: "lru_abs c = lru_view (map_of (c_data c)) (lru_order (c_strategy c))"
  by (simp add: lru_abs_def lru_view_def)

text \<open>The strategy's state after each event of the cache.\<close>

lemma lru_doRemove:
  assumes "cache_ok lru_rep c"
  shows "lru_order (c_strategy (cache_doRemove lru_strategy k c)) = filter (\<lambda>x. x \<noteq> k) (lru_order (c_strategy c))"
    "l_size (c_strategy (cache_doRemove lru_strategy k c)) = l_size (c_strategy c)"
proof -
  have r: "lru_rep (c_strategy c) (dom (map_of (c_data c)))" using assms by (simp add: cache_ok_def)
  have "filter (\<lambda>x. x \<noteq> k) (lru_order (c_strategy c)) = lru_order (c_strategy c)" if "map_of (c_data c) k = None"
    using that lru_order_rep(1)[OF r] by (auto simp: filter_id_conv)
  then show "lru_order (c_strategy (cache_doRemove lru_strategy k c)) = filter (\<lambda>x. x \<noteq> k) (lru_order (c_strategy c))"
    "l_size (c_strategy (cache_doRemove lru_strategy k c)) = l_size (c_strategy c)"
    using lru_onRemove_rep(2,3)[OF r]
    by (auto simp: cache_doRemove_def cache_notify_def lru_sel split: option.splits)
qed

lemma lru_doRemoves:
  "cache_ok lru_rep c \<Longrightarrow>
    lru_order (c_strategy (fold (cache_doRemove lru_strategy) ks c)) = filter (\<lambda>x. x \<notin> set ks) (lru_order (c_strategy c)) \<and>
    l_size (c_strategy (fold (cache_doRemove lru_strategy) ks c)) = l_size (c_strategy c)"
proof (induction ks arbitrary: c)
  case (Cons k ks)
  from Cons.IH[OF lru.doRemove_ok(1)[OF Cons.prems, of k]] lru_doRemove[OF Cons.prems, of k]
  show ?case by (simp add: conj_commute)
qed simp

lemma lru_doReplace:
  fixes c :: "('k::linorder, 'v, 'k lru) cache"
  assumes "cache_ok lru_rep c"
  shows "lru_order (c_strategy (cache_doReplace lru_strategy now c)) = take (l_size (c_strategy c)) (lru_order (c_strategy c))"
    "l_size (c_strategy (cache_doReplace lru_strategy now c)) = l_size (c_strategy c)"
    "lru_abs (cache_doReplace lru_strategy now c) = take (l_size (c_strategy c)) (lru_abs c)"
proof -
  let ?ks = "lru_order (c_strategy c)" and ?n = "l_size (c_strategy c)"
  have r: "lru_rep (c_strategy c) (dom (map_of (c_data c)))" using assms by (simp add: cache_ok_def)
  have d: "set (onReplace (lru_strategy :: ('k, 'v, 'k lru) strategy) now [] (c_strategy c)) = set (drop ?n ?ks)"
    using lru_onReplace_rep(3)[OF r, of "[]" now] by (simp add: lru_sel)
  have dis: "set (take ?n ?ks) \<inter> set (drop ?n ?ks) = {}"
    using lru_order_rep(2)[OF r] by (metis append_take_drop_id distinct_append)
  have "filter (\<lambda>x. x \<notin> set (drop ?n ?ks)) (take ?n ?ks @ drop ?n ?ks) = take ?n ?ks"
    using dis unfolding filter_append by (auto simp: filter_id_conv filter_empty_conv simp del: append_take_drop_id)
  then have f: "filter (\<lambda>x. x \<notin> set (drop ?n ?ks)) ?ks = take ?n ?ks" by simp
  show o: "lru_order (c_strategy (cache_doReplace lru_strategy now c)) = take ?n ?ks"
    "l_size (c_strategy (cache_doReplace lru_strategy now c)) = ?n"
    using lru_doRemoves[OF assms, of "onReplace (lru_strategy :: ('k, 'v, 'k lru) strategy) now [] (c_strategy c)"] unfolding d f cache_doReplace_def by simp_all
  show "lru_abs (cache_doReplace lru_strategy now c) = take ?n (lru_abs c)"
    unfolding lru_abs_view o lru_view_take[symmetric] lru.doReplace_ok(2)[OF assms] d
    by (rule lru_view_cong) (use dis in \<open>auto simp: restrict_map_def\<close>)
qed

lemma lru_insert_abs:
  assumes "cache_ok lru_rep c"
  shows "lru_abs (cache_doAdd lru_strategy clk k v c) = take (l_size (c_strategy c)) ((k, v) # filter (\<lambda>p. fst p \<noteq> k) (lru_abs c))"
    "l_size (c_strategy (cache_doAdd lru_strategy clk k v c)) = l_size (c_strategy c)"
proof -
  define c' where "c' = cache_doRemove lru_strategy k c"
  note r = lru.doRemove_ok[OF assms(1), of k, folded c'_def] and o = lru_doRemove[OF assms(1), of k, folded c'_def]
  have n: "map_of (c_data c') k = None" by (simp add: r(2))
  then have k: "k \<notin> dom (map_of (c_data c'))" by auto
  have rep: "lru_rep (c_strategy c') (dom (map_of (c_data c')))" using r(1) by (simp add: cache_ok_def)
  let ?a = "(cache_notify (onAdd lru_strategy (clk 0) k v) (AddEvent k v) c')\<lparr>c_data := smap_insert k v (c_data c')\<rparr>"
  note i = lru.insert_ok[OF r(1) n, where now = "clk 0" and v = v] and a = lru_onAdd_rep[OF rep k, of "clk 0" v]
  have s: "c_strategy ?a = lru_onAdd (clk 0) k v (c_strategy c')" by (simp add: cache_notify_def lru_sel)
  have "lru_abs ?a = (k, v) # lru_view ((map_of (c_data c))(k \<mapsto> v)) (filter (\<lambda>x. x \<noteq> k) (lru_order (c_strategy c)))"
    unfolding lru_abs_view i(2) s a(2) o(1) lru_view_cons r(2) by simp
  then have "lru_abs ?a = (k, v) # filter (\<lambda>p. fst p \<noteq> k) (lru_abs c)" unfolding lru_view_upd lru_abs_view .
  moreover have "l_size (c_strategy ?a) = l_size (c_strategy c)" unfolding s a(3) o(2) ..
  ultimately show "lru_abs (cache_doAdd lru_strategy clk k v c) = take (l_size (c_strategy c)) ((k, v) # filter (\<lambda>p. fst p \<noteq> k) (lru_abs c))"
    "l_size (c_strategy (cache_doAdd lru_strategy clk k v c)) = l_size (c_strategy c)"
    unfolding lru.doAdd_eq c'_def[symmetric] using lru_doReplace(2,3)[OF i(1), of "clk 1"] by simp_all
qed

lemma lru_update_abs:
  assumes "cache_ok lru_rep c"
  shows "lru_abs (cache_doUpdate lru_strategy clk k v c) = take (l_size (c_strategy c)) ((k, v) # filter (\<lambda>p. fst p \<noteq> k) (lru_abs c))"
    "l_size (c_strategy (cache_doUpdate lru_strategy clk k v c)) = l_size (c_strategy c)"
proof -
  have "lru_abs (cache_doUpdate lru_strategy clk k v c) = take (l_size (c_strategy c)) ((k, v) # filter (\<lambda>p. fst p \<noteq> k) (lru_abs c)) \<and>
    l_size (c_strategy (cache_doUpdate lru_strategy clk k v c)) = l_size (c_strategy c)"
  proof (cases "map_of (c_data c) k")
    case None
    then have "cache_doUpdate lru_strategy clk k v c = cache_doAdd lru_strategy clk k v c"
      by (simp add: cache_doUpdate_def cache_doAdd_def cache_doRemove_def Let_def)
    then show ?thesis using lru_insert_abs[OF assms] by simp
  next
    case (Some w)
    let ?a = "(cache_notify (onUpdate lru_strategy (clk 0) k v) (UpdateEvent k v) c)\<lparr>c_data := smap_assign k v (c_data c)\<rparr>"
    have rep: "lru_rep (c_strategy c) (dom (map_of (c_data c)))" using assms by (simp add: cache_ok_def)
    have k: "k \<in> dom (map_of (c_data c))" using Some by auto
    note i = lru.assign_ok[OF assms, of k, where now = "clk 0" and v = v] and u = lru_onUpdate_rep[OF rep k, of "clk 0" v]
    have e: "cache_doUpdate lru_strategy clk k v c = cache_doReplace lru_strategy (clk 1) ?a"
      using Some by (simp add: cache_doUpdate_def Let_def cache_notify_def)
    have s: "c_strategy ?a = default_onUpdate lru_onRemove lru_onAdd (clk 0) k v (c_strategy c)"
      by (simp add: cache_notify_def lru_sel)
    have "lru_abs ?a = (k, v) # lru_view ((map_of (c_data c))(k \<mapsto> v)) (filter (\<lambda>x. x \<noteq> k) (lru_order (c_strategy c)))"
      unfolding lru_abs_view s u(2) lru_view_cons using i(2) Some by simp
    then have "lru_abs ?a = (k, v) # filter (\<lambda>p. fst p \<noteq> k) (lru_abs c)" unfolding lru_view_upd lru_abs_view .
    moreover have "l_size (c_strategy ?a) = l_size (c_strategy c)" unfolding s u(3) ..
    ultimately show ?thesis unfolding e using lru_doReplace(2,3)[OF i(1), of "clk 1"] Some by simp
  qed
  then show "lru_abs (cache_doUpdate lru_strategy clk k v c) = take (l_size (c_strategy c)) ((k, v) # filter (\<lambda>p. fst p \<noteq> k) (lru_abs c))"
    "l_size (c_strategy (cache_doUpdate lru_strategy clk k v c)) = l_size (c_strategy c)" by simp_all
qed

lemma lru_remove_abs:
  assumes "cache_ok lru_rep c"
  shows "lru_abs (cache_doRemove lru_strategy k c) = filter (\<lambda>p. fst p \<noteq> k) (lru_abs c)"
  unfolding lru_abs_view lru_doRemove(1)[OF assms] lru.doRemove_ok(2)[OF assms]
  by (rule lru_view_upd)

lemma lru_get_abs:
  fixes c :: "('k::linorder, 'v, 'k lru) cache"
  assumes "cache_ok lru_rep c"
  shows "lru_abs (snd (cache_doGet lru_strategy clk k c)) =
      (case map_of (lru_abs c) k of None \<Rightarrow> lru_abs c | Some v \<Rightarrow> (k, v) # filter (\<lambda>p. fst p \<noteq> k) (lru_abs c))"
    "fst (cache_doGet lru_strategy clk k c) = map_of (lru_abs c) k"
    "l_size (c_strategy (snd (cache_doGet lru_strategy clk k c))) = l_size (c_strategy c)"
proof -
  have rep: "lru_rep (c_strategy c) (dom (map_of (c_data c)))" using assms by (simp add: cache_ok_def)
  note o = lru_order_rep(1)[OF rep] and g = lru_onGet_rep[OF rep, of "clk 0" k]
  have m: "map_of (lru_abs c) k = map_of (c_data c) k"
    unfolding lru_abs_view lru_view_lookup o by (cases "map_of (c_data c) k") auto
  have "lru_abs (snd (cache_doGet lru_strategy clk k c)) =
      (case map_of (c_data c) k of None \<Rightarrow> lru_abs c | Some v \<Rightarrow> (k, v) # filter (\<lambda>p. fst p \<noteq> k) (lru_abs c)) \<and>
    fst (cache_doGet lru_strategy clk k c) = map_of (c_data c) k \<and>
    l_size (c_strategy (snd (cache_doGet lru_strategy clk k c))) = l_size (c_strategy c)"
  proof (cases "map_of (c_data c) k")
    case (Some v)
    then have k: "k \<in> dom (map_of (c_data c))" by auto
    have "map_of (l_keyIndex (lru_onGet (clk 0) k (c_strategy c))) k \<noteq> None" using lru_repD(3)[OF g(1)] k by auto
    then have e: "cache_doGet lru_strategy clk k c = (Some v, cache_notify (onGet (lru_strategy :: ('k, 'v, 'k lru) strategy) (clk 0) k) (GetEvent k) c)"
      using Some by (simp add: cache_doGet_def Let_def cache_notify_def lru_sel lru_onIsValid_def)
    show ?thesis
      unfolding e using Some g k by (simp add: lru_abs_view cache_notify_def lru_sel lru_view_cons lru_view_filter)
  qed (simp add: cache_doGet_def)
  then show "lru_abs (snd (cache_doGet lru_strategy clk k c)) =
      (case map_of (lru_abs c) k of None \<Rightarrow> lru_abs c | Some v \<Rightarrow> (k, v) # filter (\<lambda>p. fst p \<noteq> k) (lru_abs c))"
    "fst (cache_doGet lru_strategy clk k c) = map_of (lru_abs c) k"
    "l_size (c_strategy (snd (cache_doGet lru_strategy clk k c))) = l_size (c_strategy c)" unfolding m by simp_all
qed

lemma lru_step_abs:
  assumes "cache_ok lru_rep c"
  shows "lru_abs (cache_step lru_strategy clk op c) = lru_spec (l_size (c_strategy c)) op (lru_abs c) \<and>
    l_size (c_strategy (cache_step lru_strategy clk op c)) = l_size (c_strategy c)"
proof (cases op)
  case (AddPtr k p)
  then show ?thesis
    using lru_insert_abs[OF assms] lru_remove_abs[OF assms] lru_doRemove(2)[OF assms] by (cases p) (simp_all add: lru.doAddPtr_eq)
next
  case (UpdatePtr k p)
  then show ?thesis using lru_update_abs[OF assms] by (cases p) (simp_all add: lru.doUpdatePtr_eq)
next
  case Clear
  then show ?thesis
    by (simp add: lru_abs_def lru_order_def cache_doClear_def cache_notify_def lru_sel lru_onClear_def)
qed (simp_all add: lru_insert_abs lru_update_abs lru_remove_abs lru_get_abs lru_doReplace lru_doRemove assms)

lemma lru_run_abs:
  "cache_ok lru_rep c \<Longrightarrow>
    lru_abs (fold (\<lambda>(clk, op). cache_step lru_strategy clk op) ops c) = fold (lru_spec (l_size (c_strategy c))) (map snd ops) (lru_abs c) \<and>
    l_size (c_strategy (fold (\<lambda>(clk, op). cache_step lru_strategy clk op) ops c)) = l_size (c_strategy c)"
proof (induction ops arbitrary: c)
  case (Cons p ops)
  from Cons.IH[OF lru.step_ok[OF Cons.prems, of "fst p" "snd p"]] lru_step_abs[OF Cons.prems, of "fst p" "snd p"]
  show ?case by (cases p) simp
qed simp

lemma lru_spec_length: "1 \<le> n \<Longrightarrow> length l \<le> n \<Longrightarrow> length (lru_spec n op l) \<le> n"
proof (cases op)
  case (Get k)
  assume n: "1 \<le> n" "length l \<le> n"
  show ?thesis
  proof (cases "map_of l k")
    case (Some v)
    then have "\<exists>p\<in>set l. fst p = k" using map_of_SomeD[OF Some] by force
    then have "length (filter (\<lambda>p. fst p \<noteq> k) l) < length l" by (auto simp: length_filter_less)
    then show ?thesis using Get Some n by simp
  qed (use Get n in simp)
qed (auto intro: order_trans[OF length_filter_le] split: option.splits)

lemma lru_spec_run_length: "1 \<le> n \<Longrightarrow> length l \<le> n \<Longrightarrow> length (fold (lru_spec n) ops l) \<le> n"
  by (induction ops arbitrary: l) (simp_all add: lru_spec_length)

lemma lruCache_new_ok:
  assumes "lruCache_new n = Inr c"
  shows "cache_ok lru_rep c" "l_size (c_strategy c) = n" "lru_abs c = []" "1 \<le> n"
proof -
  have n: "1 \<le> n" and c: "c = cache_new \<lparr>l_size = n, l_keys = [], l_keyIndex = [], l_fresh = 0\<rparr>"
    using assms by (auto simp: lruCache_new_def lru_new_def split: if_splits)
  then show "cache_ok lru_rep c" by (auto intro!: lru.new_ok simp: lru_rep_def smap_wf_def)
  show "l_size (c_strategy c) = n" "lru_abs c = []" "1 \<le> n"
    using n by (simp_all add: c cache_new_def lru_abs_def lru_order_def)
qed


text \<open>
  C9.  LRUCache: any sequence of operations on a new cache of size \<open>n\<close> leaves the entries that the
  specification leaves, in the order of their last use, and \<^verbatim>\<open>get\<close> returns what the specification holds.
  There are never more than \<open>n\<close> entries, and a listener that follows the events knows the contents.
\<close>

theorem lru_cache_refines:
  assumes "lruCache_new n = Inr c0" "c = fold (\<lambda>(clk, op). cache_step lru_strategy clk op) ops c0"
  shows "lru_abs c = fold (lru_spec n) (map snd ops) [] \<and> fst (cache_doGet lru_strategy clk k c) = map_of (lru_abs c) k \<and>
    length (c_data c) \<le> n \<and> fold replay (c_events c) Map.empty = map_of (c_data c)"
proof -
  note n = lruCache_new_ok[OF assms(1)]
  have ok: "cache_ok lru_rep c" unfolding assms(2) by (rule lru.run_ok[OF n(1)])
  then have r: "lru_rep (c_strategy c) (dom (map_of (c_data c)))" "smap_wf (c_data c)"
    "fold replay (c_events c) Map.empty = map_of (c_data c)" by (simp_all add: cache_ok_def)
  have a: "lru_abs c = fold (lru_spec n) (map snd ops) []" using lru_run_abs[OF n(1), of ops] n(2,3) by (simp add: assms(2))
  have "length (c_data c) = length (lru_abs c)"
    using smap_length[OF r(2)] lru_order_rep(1)[OF r(1)] distinct_card[OF lru_order_rep(2)[OF r(1)]] by (simp add: lru_abs_def)
  also have "\<dots> \<le> n" unfolding a by (rule lru_spec_run_length[OF n(4)]) simp
  finally show ?thesis using a r(3) lru_get_abs(2)[OF ok] by simp
qed

theorem lru_cache_refines_witness:
  "\<exists>c0. lruCache_new 2 = Inr c0 \<and>
    lru_abs (fold (\<lambda>(clk, op). cache_step lru_strategy clk op)
      [(\<lambda>_ _. 0, Add (1 :: nat) ''a''), (\<lambda>_ _. 0, Add 2 ''b''), (\<lambda>_ _. 0, Get 1), (\<lambda>_ _. 0, Add 3 ''c'')] c0) = [(3, ''c''), (1, ''a'')]"
proof -
  have e: "(lruCache_new 2 :: (nat, string, nat lru) cache result) =
      Inr (cache_new \<lparr>l_size = 2, l_keys = [], l_keyIndex = [], l_fresh = 0\<rparr>)"
    by (simp add: lruCache_new_def lru_new_def)
  note r = conjunct1[OF lru_cache_refines[OF e refl,
      of "[(\<lambda>_ _. 0, Add (1 :: nat) ''a''), (\<lambda>_ _. 0, Add 2 ''b''), (\<lambda>_ _. 0, Get 1), (\<lambda>_ _. 0, Add 3 ''c'')]"]]
  show ?thesis by (intro exI conjI, rule e, unfold r) (simp add: numeral_2_eq_2)
qed
end
