(* ===== verification/CacheExpire.thy ===== *)
theory CacheExpire
  imports Cache
begin

text \<open>
  The strategies that remove entries by time: \<^verbatim>\<open>ExpireStrategy\<close>, \<^verbatim>\<open>AccessExpireStrategy\<close>, \<^verbatim>\<open>UniqueExpireStrategy\<close> and
  \<^verbatim>\<open>UniqueAccessExpireStrategy\<close>, and the caches built from them.  Iterators into the \<^verbatim>\<open>std::multimap\<close> are identities of
  nodes, as in theory \<open>CacheLRU\<close>.  The locale \<open>timed_strategy\<close> extends the contract of a strategy by the time
  kept for each key; the refinement of a cache to a map from keys to values and times is proved once in it.

  Times are microseconds as integers; that a 64-bit count may overflow is not modelled.
\<close>

section \<open>A multimap from points in time to keys\<close>

text \<open>
  The members \<^verbatim>\<open>_keys\<close> and \<^verbatim>\<open>_keyIndex\<close> of the expiring strategies: a node of the multimap is its identity,
  its time, its key and what else the strategy stores with it.  \<^verbatim>\<open>insert\<close> places a node behind those with an
  equal time.
\<close>

type_synonym ('k, 'x) tnode = "nat \<times> int \<times> 'k \<times> 'x"

record ('k, 'x) tindex =
  t_keys :: "('k \<times> nat) list"
  t_keyIndex :: "('k, 'x) tnode list"
  t_fresh :: nat

definition tindex_new :: "('k, 'x) tindex" where
  "tindex_new = \<lparr>t_keys = [], t_keyIndex = [], t_fresh = 0\<rparr>"

fun multimap_insert :: "('k, 'x) tnode \<Rightarrow> ('k, 'x) tnode list \<Rightarrow> ('k, 'x) tnode list" where
  "multimap_insert e [] = [e]"
| "multimap_insert e (f # fs) = (if fst (snd e) < fst (snd f) then e # f # fs else f # multimap_insert e fs)"

definition multimap_erase :: "nat \<Rightarrow> ('k, 'x) tnode list \<Rightarrow> ('k, 'x) tnode list" where
  "multimap_erase node l = filter (\<lambda>e. fst e \<noteq> node) l"

text \<open>The common part of the four \<^verbatim>\<open>onAdd\<close>: insert into the index, then enter or redirect the iterator.\<close>

definition tindex_put :: "int \<Rightarrow> 'k::linorder \<Rightarrow> 'x \<Rightarrow> ('k, 'x) tindex \<Rightarrow> ('k, 'x) tindex" where
  "tindex_put t key x s =
    (let node = t_fresh s;
         s = s\<lparr>t_keyIndex := multimap_insert (node, t, key, x) (t_keyIndex s), t_fresh := Suc node\<rparr>
     in case map_of (t_keys s) key of
          None \<Rightarrow> s\<lparr>t_keys := smap_insert key node (t_keys s)\<rparr>
        | Some old \<Rightarrow> s\<lparr>t_keyIndex := multimap_erase old (t_keyIndex s), t_keys := smap_assign key node (t_keys s)\<rparr>)"

definition tindex_onRemove :: "'k \<Rightarrow> ('k, 'x) tindex \<Rightarrow> ('k, 'x) tindex" where
  "tindex_onRemove key s =
    (case map_of (t_keys s) key of
       None \<Rightarrow> s
     | Some node \<Rightarrow> s\<lparr>t_keyIndex := multimap_erase node (t_keyIndex s), t_keys := smap_erase key (t_keys s)\<rparr>)"

definition tindex_onClear :: "('k, 'x) tindex \<Rightarrow> ('k, 'x) tindex" where
  "tindex_onClear s = s\<lparr>t_keys := [], t_keyIndex := []\<rparr>"

text \<open>Moving the node of a key to another time: erase it, insert a new one, redirect the iterator.\<close>

definition tindex_move :: "int \<Rightarrow> 'k \<Rightarrow> 'x \<Rightarrow> nat \<Rightarrow> ('k, 'x) tindex \<Rightarrow> ('k, 'x) tindex" where
  "tindex_move t key x node s =
    (let s = s\<lparr>t_keyIndex := multimap_erase node (t_keyIndex s)\<rparr>;
         new = t_fresh s
     in s\<lparr>t_keyIndex := multimap_insert (new, t, key, x) (t_keyIndex s), t_fresh := Suc new,
          t_keys := smap_assign key new (t_keys s)\<rparr>)"

section \<open>The expiring strategies\<close>

text \<open>\<^verbatim>\<open>Timestamp::isElapsed\<close>\<close>

definition isElapsed :: "int \<Rightarrow> int \<Rightarrow> int \<Rightarrow> bool" where
  "isElapsed now ts interval = (let diff = now - ts in diff \<ge> interval)"

definition expire_new :: "int \<Rightarrow> (int \<times> ('k, unit) tindex) result" where
  "expire_new expireTimeInMilliSec =
    (let expireTime = expireTimeInMilliSec * 1000
     in if expireTime < 25000 then Inl InvalidArgumentException else Inr (expireTime, tindex_new))"

definition expire_onAdd :: "clock \<Rightarrow> 'k::linorder \<Rightarrow> 'v \<Rightarrow> ('k, unit) tindex \<Rightarrow> ('k, unit) tindex" where
  "expire_onAdd now key val s = tindex_put (now 0) key () s"

definition expire_onGet :: "clock \<Rightarrow> 'k \<Rightarrow> ('k, unit) tindex \<Rightarrow> ('k, unit) tindex" where
  "expire_onGet now key s = s"

definition tindex_time :: "nat \<Rightarrow> ('k, 'x) tindex \<Rightarrow> int" where
  "tindex_time node s = (case map_of (t_keyIndex s) node of Some (t, _) \<Rightarrow> t | None \<Rightarrow> 0)"

definition expire_onIsValid :: "int \<Rightarrow> clock \<Rightarrow> 'k \<Rightarrow> bool \<Rightarrow> ('k, unit) tindex \<Rightarrow> bool" where
  "expire_onIsValid expireTime now key valid s =
    (case map_of (t_keys s) key of
       Some node \<Rightarrow> if isElapsed (now 0) (tindex_time node s) expireTime then False else valid
     | None \<Rightarrow> False)"

text \<open>The clock is read once for each node the loop looks at.\<close>

fun expire_replace_loop :: "int \<Rightarrow> clock \<Rightarrow> nat \<Rightarrow> ('k::linorder, unit) tnode list \<Rightarrow> 'k list \<Rightarrow> 'k list" where
  "expire_replace_loop expireTime now i [] elemsToRemove = elemsToRemove"
| "expire_replace_loop expireTime now i ((_, t, k, _) # it) elemsToRemove =
    (if isElapsed (now i) t expireTime then expire_replace_loop expireTime now (i + 1) it (insort_insert k elemsToRemove)
     else elemsToRemove)"

definition expire_onReplace :: "int \<Rightarrow> clock \<Rightarrow> 'k::linorder list \<Rightarrow> ('k, unit) tindex \<Rightarrow> 'k list" where
  "expire_onReplace expireTime now elemsToRemove s = expire_replace_loop expireTime now 0 (t_keyIndex s) elemsToRemove"

definition expire_strategy :: "int \<Rightarrow> ('k::linorder, 'v, ('k, unit) tindex) strategy" where
  "expire_strategy E = \<lparr>onAdd = expire_onAdd, onUpdate = default_onUpdate tindex_onRemove expire_onAdd,
     onRemove = tindex_onRemove, onGet = expire_onGet, onClear = tindex_onClear, onIsValid = expire_onIsValid E,
     onReplace = expire_onReplace E\<rparr>"

text \<open>\<^verbatim>\<open>AccessExpireStrategy\<close>: the clock is read in \<^verbatim>\<open>isElapsed\<close> and again for the new time.\<close>

definition accessExpire_onGet :: "int \<Rightarrow> clock \<Rightarrow> 'k \<Rightarrow> ('k, unit) tindex \<Rightarrow> ('k, unit) tindex" where
  "accessExpire_onGet expireTime now key s =
    (case map_of (t_keys s) key of
       None \<Rightarrow> s
     | Some node \<Rightarrow>
         (if \<not> isElapsed (now 0) (tindex_time node s) expireTime then tindex_move (now 1) key () node s else s))"

definition accessExpire_strategy :: "int \<Rightarrow> ('k::linorder, 'v, ('k, unit) tindex) strategy" where
  "accessExpire_strategy E = (expire_strategy E)\<lparr>onGet := accessExpire_onGet E\<rparr>"

text \<open>\<^verbatim>\<open>UniqueExpireStrategy\<close>: \<open>getExpiration\<close> is the method of the values.\<close>

definition uniqueExpire_onAdd :: "('v \<Rightarrow> int) \<Rightarrow> clock \<Rightarrow> 'k::linorder \<Rightarrow> 'v \<Rightarrow> ('k, unit) tindex \<Rightarrow> ('k, unit) tindex" where
  "uniqueExpire_onAdd getExpiration now key val s = tindex_put (getExpiration val) key () s"

definition unique_onIsValid :: "clock \<Rightarrow> 'k \<Rightarrow> bool \<Rightarrow> ('k, 'x) tindex \<Rightarrow> bool" where
  "unique_onIsValid now key valid s =
    (case map_of (t_keys s) key of
       Some node \<Rightarrow> if tindex_time node s \<le> now 0 then False else valid
     | None \<Rightarrow> False)"

fun unique_replace_loop :: "int \<Rightarrow> ('k::linorder, 'x) tnode list \<Rightarrow> 'k list \<Rightarrow> 'k list" where
  "unique_replace_loop now [] elemsToRemove = elemsToRemove"
| "unique_replace_loop now ((_, t, k, _) # it) elemsToRemove =
    (if t < now then unique_replace_loop now it (insort_insert k elemsToRemove) else elemsToRemove)"

definition unique_onReplace :: "clock \<Rightarrow> 'k::linorder list \<Rightarrow> ('k, 'x) tindex \<Rightarrow> 'k list" where
  "unique_onReplace now elemsToRemove s = unique_replace_loop (now 0) (t_keyIndex s) elemsToRemove"

definition uniqueExpire_strategy :: "('v \<Rightarrow> int) \<Rightarrow> ('k::linorder, 'v, ('k, unit) tindex) strategy" where
  "uniqueExpire_strategy getExpiration = \<lparr>onAdd = uniqueExpire_onAdd getExpiration,
     onUpdate = default_onUpdate tindex_onRemove (uniqueExpire_onAdd getExpiration),
     onRemove = tindex_onRemove, onGet = expire_onGet, onClear = tindex_onClear, onIsValid = unique_onIsValid,
     onReplace = unique_onReplace\<rparr>"

text \<open>\<^verbatim>\<open>UniqueAccessExpireStrategy\<close> keeps the timeout of the value with the key.\<close>

definition uniqueAccess_onAdd :: "('v \<Rightarrow> int) \<Rightarrow> clock \<Rightarrow> 'k::linorder \<Rightarrow> 'v \<Rightarrow> ('k, int) tindex \<Rightarrow> ('k, int) tindex" where
  "uniqueAccess_onAdd getTimeout now key val s =
    (let expire = now 0 + getTimeout val in tindex_put expire key (getTimeout val) s)"

definition uniqueAccess_onGet :: "clock \<Rightarrow> 'k \<Rightarrow> ('k, int) tindex \<Rightarrow> ('k, int) tindex" where
  "uniqueAccess_onGet now key s =
    (case map_of (t_keys s) key of
       None \<Rightarrow> s
     | Some node \<Rightarrow>
         (case map_of (t_keyIndex s) node of
            None \<Rightarrow> s
          | Some (_, key', timeout) \<Rightarrow> (let expire = now 0 + timeout in tindex_move expire key' timeout node s)))"

definition uniqueAccess_strategy :: "('v \<Rightarrow> int) \<Rightarrow> ('k::linorder, 'v, ('k, int) tindex) strategy" where
  "uniqueAccess_strategy getTimeout = \<lparr>onAdd = uniqueAccess_onAdd getTimeout,
     onUpdate = default_onUpdate tindex_onRemove (uniqueAccess_onAdd getTimeout),
     onRemove = tindex_onRemove, onGet = uniqueAccess_onGet, onClear = tindex_onClear, onIsValid = unique_onIsValid,
     onReplace = unique_onReplace\<rparr>"

section \<open>The state of the expiring strategies\<close>

definition tindex_rep :: "('k::linorder, 'x) tindex \<Rightarrow> 'k set \<Rightarrow> bool" where
  "tindex_rep s K \<longleftrightarrow> smap_wf (t_keys s) \<and> dom (map_of (t_keys s)) = K \<and> distinct (map fst (t_keyIndex s)) \<and>
    sorted (map (\<lambda>e. fst (snd e)) (t_keyIndex s)) \<and>
    (\<forall>i t k x. (i, t, k, x) \<in> set (t_keyIndex s) \<longrightarrow> map_of (t_keys s) k = Some i \<and> i < t_fresh s) \<and>
    (\<forall>k i. map_of (t_keys s) k = Some i \<longrightarrow> (\<exists>t x. (i, t, k, x) \<in> set (t_keyIndex s)))"

text \<open>The time and the extra data kept for a key.\<close>

definition tindex_entry :: "('k, 'x) tindex \<Rightarrow> 'k \<rightharpoonup> int \<times> 'x" where
  "tindex_entry s k = (case map_of (t_keys s) k of
     None \<Rightarrow> None
   | Some i \<Rightarrow> map_option (\<lambda>(t, _, x). (t, x)) (map_of (t_keyIndex s) i))"

lemma tindex_repD:
  assumes "tindex_rep s K"
  shows "smap_wf (t_keys s)" "dom (map_of (t_keys s)) = K" "distinct (map fst (t_keyIndex s))"
    "sorted (map (\<lambda>e. fst (snd e)) (t_keyIndex s))"
    "(i, t, k, x) \<in> set (t_keyIndex s) \<Longrightarrow> map_of (t_keys s) k = Some i"
    "(i, t, k, x) \<in> set (t_keyIndex s) \<Longrightarrow> i < t_fresh s"
    "map_of (t_keys s) k = Some i \<Longrightarrow> \<exists>t x. (i, t, k, x) \<in> set (t_keyIndex s)"
  using assms unfolding tindex_rep_def by blast+

lemma tindex_entry_iff:
  assumes "tindex_rep s K"
  shows "tindex_entry s k = Some (t, x) \<longleftrightarrow> (\<exists>i. (i, t, k, x) \<in> set (t_keyIndex s))"
proof
  note r = tindex_repD[OF assms]
  assume "tindex_entry s k = Some (t, x)"
  then obtain i k' where i: "map_of (t_keys s) k = Some i" "map_of (t_keyIndex s) i = Some (t, k', x)"
    by (auto simp: tindex_entry_def split: option.splits)
  obtain t' x' where "(i, t', k, x') \<in> set (t_keyIndex s)" using r(7)[OF i(1)] by blast
  then have "map_of (t_keyIndex s) i = Some (t', k, x')" using r(3) by simp
  then show "\<exists>i. (i, t, k, x) \<in> set (t_keyIndex s)" using map_of_SomeD[OF i(2)] i(2) by auto
next
  note r = tindex_repD[OF assms]
  assume "\<exists>i. (i, t, k, x) \<in> set (t_keyIndex s)"
  then obtain i where i: "(i, t, k, x) \<in> set (t_keyIndex s)" by blast
  then have "map_of (t_keyIndex s) i = Some (t, k, x)" using r(3) by simp
  then show "tindex_entry s k = Some (t, x)" using r(5)[OF i] by (simp add: tindex_entry_def)
qed

lemma tindex_entry_dom: "tindex_rep s K \<Longrightarrow> dom (tindex_entry s) = K"
proof (intro set_eqI iffI)
  fix k assume r: "tindex_rep s K" and "k \<in> dom (tindex_entry s)"
  then show "k \<in> K" using tindex_repD(2)[OF r] by (auto simp: tindex_entry_def split: option.splits)
next
  fix k assume r: "tindex_rep s K" and "k \<in> K"
  then obtain i where "map_of (t_keys s) k = Some i" using tindex_repD(2)[OF r] by auto
  then obtain t x where "(i, t, k, x) \<in> set (t_keyIndex s)" using tindex_repD(7)[OF r] by blast
  then have "tindex_entry s k = Some (t, x)" using tindex_entry_iff[OF r] by blast
  then show "k \<in> dom (tindex_entry s)" by blast
qed

lemma tindex_time_entry:
  assumes "tindex_rep s K" "map_of (t_keys s) k = Some i"
  shows "\<exists>x. tindex_entry s k = Some (tindex_time i s, x) \<and> map_of (t_keyIndex s) i = Some (tindex_time i s, k, x)"
proof -
  obtain t x where e: "(i, t, k, x) \<in> set (t_keyIndex s)" using tindex_repD(7)[OF assms] by blast
  then have "map_of (t_keyIndex s) i = Some (t, k, x)" using tindex_repD(3)[OF assms(1)] by simp
  then show ?thesis using assms(2) by (simp add: tindex_entry_def tindex_time_def)
qed

lemma multimap_insert_set: "set (multimap_insert e l) = insert e (set l)"
  by (induction l) auto

lemma multimap_insert_distinct:
  "distinct (map fst (multimap_insert e l)) \<longleftrightarrow> fst e \<notin> fst ` set l \<and> distinct (map fst l)"
  by (induction l) (auto simp: multimap_insert_set)

lemma multimap_insert_sorted:
  "sorted (map (\<lambda>e. fst (snd e)) l) \<Longrightarrow> sorted (map (\<lambda>e. fst (snd e)) (multimap_insert e l))"
  by (induction l) (auto simp: multimap_insert_set)

lemma multimap_erase_props:
  "set (multimap_erase i l) = {e \<in> set l. fst e \<noteq> i}"
  "distinct (map fst l) \<Longrightarrow> distinct (map fst (multimap_erase i l))"
  "sorted (map (\<lambda>e. fst (snd e)) l) \<Longrightarrow> sorted (map (\<lambda>e. fst (snd e)) (multimap_erase i l))"
  by (auto simp: multimap_erase_def sorted_filter distinct_map_filter)

text \<open>Any way of giving a key one new node and removing its old one.\<close>

lemma tindex_renode:
  assumes s: "tindex_rep s K"
    and s': "smap_wf (t_keys s')" "map_of (t_keys s') = (map_of (t_keys s))(k \<mapsto> node)" "distinct (map fst (t_keyIndex s'))"
      "sorted (map (\<lambda>e. fst (snd e)) (t_keyIndex s'))" "t_fresh s \<le> node" "node < t_fresh s'" "t_fresh s \<le> t_fresh s'"
      "set (t_keyIndex s') = insert (node, t, k, x) {e \<in> set (t_keyIndex s). map_of (t_keys s) k \<noteq> Some (fst e)}"
  shows "tindex_rep s' (insert k K)" "tindex_entry s' = (tindex_entry s)(k \<mapsto> (t, x))"
proof -
  note r = tindex_repD[OF s]
  have ne: "map_of (t_keys s) k \<noteq> Some i \<longleftrightarrow> k' \<noteq> k" if "(i, t', k', x') \<in> set (t_keyIndex s)" for i t' k' x'
  proof
    assume "map_of (t_keys s) k \<noteq> Some i"
    then show "k' \<noteq> k" using r(5)[OF that] by auto
  next
    assume k': "k' \<noteq> k"
    show "map_of (t_keys s) k \<noteq> Some i"
    proof
      assume "map_of (t_keys s) k = Some i"
      then obtain t2 x2 where "(i, t2, k, x2) \<in> set (t_keyIndex s)" using r(7) by blast
      then show False using eq_key_imp_eq_value[OF r(3), of i "(t', k', x')" "(t2, k, x2)"] that k' by simp
    qed
  qed
  have mem: "(i, t', k', x') \<in> set (t_keyIndex s') \<longleftrightarrow>
      (i, t', k', x') = (node, t, k, x) \<or> (i, t', k', x') \<in> set (t_keyIndex s) \<and> k' \<noteq> k" for i t' k' x'
    unfolding s'(8) using ne by auto
  show rep: "tindex_rep s' (insert k K)"
    unfolding tindex_rep_def
  proof (intro conjI allI impI)
    show "dom (map_of (t_keys s')) = insert k K" using r(2) s'(2) by simp
    show "map_of (t_keys s') k' = Some i" if "(i, t', k', x') \<in> set (t_keyIndex s')" for i t' k' x'
      using that r(5) unfolding mem s'(2) by auto
    show "i < t_fresh s'" if "(i, t', k', x') \<in> set (t_keyIndex s')" for i t' k' x'
      using that r(6)[of i t' k' x'] s'(6,7) unfolding mem by auto
    show "\<exists>t' x'. (i, t', k', x') \<in> set (t_keyIndex s')" if "map_of (t_keys s') k' = Some i" for k' i
      using that r(7)[of k' i] unfolding mem s'(2) by (auto split: if_splits)
  qed (use s' in auto)
  show "tindex_entry s' = (tindex_entry s)(k \<mapsto> (t, x))"
  proof
    fix k'
    have "tindex_entry s' k' = Some p \<longleftrightarrow> ((tindex_entry s)(k \<mapsto> (t, x))) k' = Some p" for p
      using tindex_entry_iff[OF rep, of k' "fst p" "snd p"] tindex_entry_iff[OF s, of k' "fst p" "snd p"] unfolding mem by auto
    then show "tindex_entry s' k' = ((tindex_entry s)(k \<mapsto> (t, x))) k'"
      by (metis option.exhaust)
  qed
qed

lemma fresh_notin: "tindex_rep s K \<Longrightarrow> t_fresh s \<notin> fst ` set (t_keyIndex s)"
  using tindex_repD(6) by fastforce

lemma tindex_put_rep:
  assumes "tindex_rep s K"
  shows "tindex_rep (tindex_put t k x s) (insert k K)" "tindex_entry (tindex_put t k x s) = (tindex_entry s)(k \<mapsto> (t, x))"
proof -
  note r = tindex_repD[OF assms] and f = fresh_notin[OF assms]
  let ?i = "multimap_insert (t_fresh s, t, k, x) (t_keyIndex s)"
  have i: "distinct (map fst ?i)" "sorted (map (\<lambda>e. fst (snd e)) ?i)" "set ?i = insert (t_fresh s, t, k, x) (set (t_keyIndex s))"
    using r(3,4) f by (simp_all add: multimap_insert_distinct multimap_insert_sorted multimap_insert_set)
  let ?s = "tindex_put t k x s"
  have "smap_wf (t_keys ?s) \<and> map_of (t_keys ?s) = (map_of (t_keys s))(k \<mapsto> t_fresh s) \<and> distinct (map fst (t_keyIndex ?s)) \<and>
      sorted (map (\<lambda>e. fst (snd e)) (t_keyIndex ?s)) \<and> t_fresh ?s = Suc (t_fresh s) \<and>
      set (t_keyIndex ?s) = insert (t_fresh s, t, k, x) {e \<in> set (t_keyIndex s). map_of (t_keys s) k \<noteq> Some (fst e)}"
  proof (cases "map_of (t_keys s) k")
    case None
    then show ?thesis using i r(1) smap_insert_new[OF r(1) None] by (simp add: tindex_put_def Let_def)
  next
    case (Some old)
    then obtain t' x' where "(old, t', k, x') \<in> set (t_keyIndex s)" using r(7) by blast
    then have "old \<noteq> t_fresh s" using f by force
    then show ?thesis
      using Some i r(1) multimap_erase_props[where i = old and l = ?i] map_of_assign[of "t_keys s" k]
      by (auto simp: tindex_put_def Let_def smap_assign_wf)
  qed
  then show "tindex_rep ?s (insert k K)" "tindex_entry ?s = (tindex_entry s)(k \<mapsto> (t, x))"
    using tindex_renode[OF assms, of ?s k "t_fresh s" t x] by simp_all
qed

lemma tindex_move_rep:
  assumes "tindex_rep s K" "map_of (t_keys s) k = Some node"
  shows "tindex_rep (tindex_move t k x node s) K" "tindex_entry (tindex_move t k x node s) = (tindex_entry s)(k \<mapsto> (t, x))"
proof -
  note r = tindex_repD[OF assms(1)] and f = fresh_notin[OF assms(1)]
  note e = multimap_erase_props[where i = node and l = "t_keyIndex s"]
  let ?s = "tindex_move t k x node s"
  have k: "insert k K = K" using assms(2) r(2) by auto
  have "smap_wf (t_keys ?s) \<and> map_of (t_keys ?s) = (map_of (t_keys s))(k \<mapsto> t_fresh s) \<and> distinct (map fst (t_keyIndex ?s)) \<and>
      sorted (map (\<lambda>e. fst (snd e)) (t_keyIndex ?s)) \<and> t_fresh ?s = Suc (t_fresh s) \<and>
      set (t_keyIndex ?s) = insert (t_fresh s, t, k, x) {e \<in> set (t_keyIndex s). map_of (t_keys s) k \<noteq> Some (fst e)}"
    using assms(2) r(1,3,4) f e map_of_assign[of "t_keys s" k "t_fresh s"]
    by (auto simp: tindex_move_def Let_def smap_assign_wf multimap_insert_distinct multimap_insert_sorted multimap_insert_set)
  then show "tindex_rep ?s K" "tindex_entry ?s = (tindex_entry s)(k \<mapsto> (t, x))"
    using tindex_renode[OF assms(1), of ?s k "t_fresh s" t x] k by simp_all
qed

lemma tindex_onRemove_rep:
  assumes "tindex_rep s K"
  shows "tindex_rep (tindex_onRemove k s) (K - {k})" "tindex_entry (tindex_onRemove k s) = (tindex_entry s)(k := None)"
proof -
  note r = tindex_repD[OF assms]
  have "tindex_rep (tindex_onRemove k s) (K - {k}) \<and> tindex_entry (tindex_onRemove k s) = (tindex_entry s)(k := None)"
  proof (cases "map_of (t_keys s) k")
    case None
    then have "k \<notin> K" "tindex_entry s k = None" using r(2) by (auto simp: tindex_entry_def)
    then show ?thesis using None assms by (simp add: tindex_onRemove_def fun_upd_idem)
  next
    case (Some node)
    let ?s = "tindex_onRemove k s"
    have e: "?s = s\<lparr>t_keyIndex := multimap_erase node (t_keyIndex s), t_keys := smap_erase k (t_keys s)\<rparr>"
      using Some by (simp add: tindex_onRemove_def)
    obtain t x where n: "(node, t, k, x) \<in> set (t_keyIndex s)" using r(7)[OF Some] by blast
    have k: "i \<noteq> node \<longleftrightarrow> k' \<noteq> k" if "(i, t', k', x') \<in> set (t_keyIndex s)" for i t' k' x'
      using that n r(5)[OF that] Some eq_key_imp_eq_value[OF r(3), of node "(t', k', x')" "(t, k, x)"] by auto
    have mem: "(i, t', k', x') \<in> set (t_keyIndex ?s) \<longleftrightarrow> (i, t', k', x') \<in> set (t_keyIndex s) \<and> k' \<noteq> k" for i t' k' x'
      using k by (auto simp: e multimap_erase_props)
    have rep: "tindex_rep ?s (K - {k})"
      unfolding tindex_rep_def
    proof (intro conjI allI impI)
      show "map_of (t_keys ?s) k' = Some i" if "(i, t', k', x') \<in> set (t_keyIndex ?s)" for i t' k' x'
        using that r(5)[of i t' k' x'] unfolding mem by (auto simp: e map_of_erase)
      show "i < t_fresh ?s" if "(i, t', k', x') \<in> set (t_keyIndex ?s)" for i t' k' x'
        using that r(6)[of i t' k' x'] unfolding mem by (simp add: e)
      show "\<exists>t' x'. (i, t', k', x') \<in> set (t_keyIndex ?s)" if "map_of (t_keys ?s) k' = Some i" for k' i
        using that r(7)[of k' i] unfolding mem by (auto simp: e map_of_erase split: if_splits)
    qed (use r in \<open>auto simp: e map_of_erase smap_erase_wf multimap_erase_props\<close>)
    have "tindex_entry ?s k' = Some p \<longleftrightarrow> ((tindex_entry s)(k := None)) k' = Some p" for p k'
      using tindex_entry_iff[OF rep, of k' "fst p" "snd p"] tindex_entry_iff[OF assms, of k' "fst p" "snd p"] unfolding mem by auto
    then have "tindex_entry ?s k' = ((tindex_entry s)(k := None)) k'" for k' by (metis option.exhaust)
    then show ?thesis using rep by blast
  qed
  then show "tindex_rep (tindex_onRemove k s) (K - {k})" "tindex_entry (tindex_onRemove k s) = (tindex_entry s)(k := None)" by simp_all
qed

lemma tindex_onClear_rep: "tindex_rep (tindex_onClear s) {}" "tindex_entry (tindex_onClear s) = Map.empty"
  by (auto simp: tindex_rep_def tindex_onClear_def smap_wf_def tindex_entry_def)

lemma tindex_new_rep: "tindex_rep tindex_new {}" "tindex_entry tindex_new = Map.empty"
  by (auto simp: tindex_rep_def tindex_new_def smap_wf_def tindex_entry_def)

text \<open>The loops of \<^verbatim>\<open>onReplace\<close> stop at the first node that is still alive; the nodes are in the order of time.\<close>

lemma expire_replace_loop:
  "sorted del \<Longrightarrow> distinct del \<Longrightarrow>
    sorted (expire_replace_loop E now i l del) \<and> distinct (expire_replace_loop E now i l del) \<and>
    set del \<subseteq> set (expire_replace_loop E now i l del) \<and>
    set (expire_replace_loop E now i l del) \<subseteq> set del \<union> {k. \<exists>n t x j. (n, t, k, x) \<in> set l \<and> isElapsed (now j) t E}"
  by (induction E now i l del rule: expire_replace_loop.induct)
    (auto simp: set_insort_insert sorted_insort_insert distinct_insort_insert, blast+)

lemma expire_replace_loop_now:
  "sorted (map (\<lambda>e. fst (snd e)) l) \<Longrightarrow>
    set (expire_replace_loop E (\<lambda>_. now) i l del) = set del \<union> {k. \<exists>n t x. (n, t, k, x) \<in> set l \<and> isElapsed now t E}"
proof (induction l arbitrary: i del)
  case (Cons e l)
  obtain n t k x where e: "e = (n, t, k, x)" by (cases e)
  have later: "t \<le> t'" if "(n', t', k', x') \<in> set l" for n' t' k' x' using Cons.prems that e by fastforce
  show ?case
  proof (cases "isElapsed now t E")
    case True
    then show ?thesis using Cons by (auto simp: e set_insort_insert)
  next
    case False
    then have "\<not> isElapsed now t' E" if "(n', t', k', x') \<in> set (e # l)" for n' t' k' x'
      using that later[of n' t' k' x'] e by (auto simp: isElapsed_def)
    then show ?thesis using False by (auto simp: e)
  qed
qed simp

lemma unique_replace_loop:
  "sorted del \<Longrightarrow> distinct del \<Longrightarrow> sorted (map (\<lambda>e. fst (snd e)) l) \<Longrightarrow>
    sorted (unique_replace_loop now l del) \<and> distinct (unique_replace_loop now l del) \<and>
    set (unique_replace_loop now l del) = set del \<union> {k. \<exists>n t x. (n, t, k, x) \<in> set l \<and> t < now}"
proof (induction l arbitrary: del)
  case (Cons e l)
  obtain n t k x where e: "e = (n, t, k, x)" by (cases e)
  have later: "t \<le> t'" if "(n', t', k', x') \<in> set l" for n' t' k' x' using Cons.prems(3) that e by fastforce
  show ?case
  proof (cases "t < now")
    case True
    have "sorted (insort_insert k del)" "distinct (insort_insert k del)" "sorted (map (\<lambda>e. fst (snd e)) l)"
      using Cons.prems by (simp_all add: sorted_insort_insert distinct_insort_insert)
    from Cons.IH[OF this] True show ?thesis by (auto simp: e set_insort_insert)
  next
    case False
    then have "\<not> t' < now" if "(n', t', k', x') \<in> set (e # l)" for n' t' k' x'
      using that later[of n' t' k' x'] e by auto
    then show ?thesis using False Cons.prems by (auto simp: e)
  qed
qed simp

section \<open>Caches that remove entries by time\<close>

text \<open>
  The specification: a map from keys to values with the time (and the extra data) kept for them.  The two
  times are the clock readings of the two callbacks of an operation.
\<close>

type_synonym ('k, 'v, 'x) timed_map = "'k \<rightharpoonup> 'v \<times> int \<times> 'x"

definition alive :: "(int \<Rightarrow> int \<times> 'x \<Rightarrow> bool) \<Rightarrow> int \<Rightarrow> ('k, 'v, 'x) timed_map \<Rightarrow> ('k, 'v, 'x) timed_map" where
  "alive stale t m = (\<lambda>k. case m k of None \<Rightarrow> None | Some (v, p) \<Rightarrow> if stale t p then None else Some (v, p))"

fun timed_spec :: "(int \<Rightarrow> 'v \<Rightarrow> int \<times> 'x) \<Rightarrow> (int \<Rightarrow> int \<times> 'x \<Rightarrow> int \<times> 'x) \<Rightarrow> (int \<Rightarrow> int \<times> 'x \<Rightarrow> bool) \<Rightarrow>
    (int \<Rightarrow> int \<times> 'x \<Rightarrow> bool) \<Rightarrow> int \<times> int \<Rightarrow> ('k, 'v) cache_op \<Rightarrow> ('k, 'v, 'x) timed_map \<Rightarrow> ('k, 'v, 'x) timed_map" where
  "timed_spec stamp touch invalid stale (t0, t1) (Add k v) m = alive stale t1 (m(k \<mapsto> (v, stamp t0 v)))"
| "timed_spec stamp touch invalid stale (t0, t1) (AddPtr k p) m =
    (case p of None \<Rightarrow> m(k := None) | Some v \<Rightarrow> alive stale t1 (m(k \<mapsto> (v, stamp t0 v))))"
| "timed_spec stamp touch invalid stale (t0, t1) (Update k v) m = alive stale t1 (m(k \<mapsto> (v, stamp t0 v)))"
| "timed_spec stamp touch invalid stale (t0, t1) (UpdatePtr k p) m =
    (case p of None \<Rightarrow> m | Some v \<Rightarrow> alive stale t1 (m(k \<mapsto> (v, stamp t0 v))))"
| "timed_spec stamp touch invalid stale (t0, t1) (Remove k) m = m(k := None)"
| "timed_spec stamp touch invalid stale (t0, t1) (Get k) m =
    (case m k of None \<Rightarrow> m
     | Some (v, p) \<Rightarrow> if invalid t1 (touch t0 p) then m(k := None) else m(k \<mapsto> (v, touch t0 p)))"
| "timed_spec stamp touch invalid stale (t0, t1) Clear m = Map.empty"
| "timed_spec stamp touch invalid stale (t0, t1) ForceReplace m = alive stale t0 m"

definition timed_get :: "(int \<Rightarrow> int \<times> 'x \<Rightarrow> int \<times> 'x) \<Rightarrow> (int \<Rightarrow> int \<times> 'x \<Rightarrow> bool) \<Rightarrow> int \<times> int \<Rightarrow> 'k \<Rightarrow>
    ('k, 'v, 'x) timed_map \<Rightarrow> 'v option" where
  "timed_get touch invalid = (\<lambda>(t0, t1) k m.
    case m k of None \<Rightarrow> None | Some (v, p) \<Rightarrow> if invalid t1 (touch t0 p) then None else Some v)"

text \<open>An operation whose two callbacks see the clock at \<open>t0\<close> and \<open>t1\<close>.\<close>

definition at_times :: "int \<times> int \<Rightarrow> nat \<Rightarrow> clock" where
  "at_times = (\<lambda>(t0, t1) j _. if j = 0 then t0 else t1)"

definition timed_run :: "('k::linorder, 'v, 's) strategy \<Rightarrow> ((int \<times> int) \<times> ('k, 'v) cache_op) list \<Rightarrow>
    ('k, 'v, 's) cache \<Rightarrow> ('k, 'v, 's) cache" where
  "timed_run S ops = fold (\<lambda>(ts, op). cache_step S (at_times ts) op) ops"

definition timed_abs :: "('s \<Rightarrow> 'k \<rightharpoonup> int \<times> 'x) \<Rightarrow> ('k, 'v, 's) cache \<Rightarrow> ('k, 'v, 'x) timed_map" where
  "timed_abs entry c = (\<lambda>k. map_option (\<lambda>v. (v, the (entry (c_strategy c) k))) (map_of (c_data c) k))"

locale timed_strategy = cache_strategy S rep
  for S :: "('k::linorder, 'v, 's) strategy" and rep :: "'s \<Rightarrow> 'k set \<Rightarrow> bool" +
  fixes entry :: "'s \<Rightarrow> 'k \<rightharpoonup> int \<times> 'x"
    and stamp :: "int \<Rightarrow> 'v \<Rightarrow> int \<times> 'x"
    and touch :: "int \<Rightarrow> int \<times> 'x \<Rightarrow> int \<times> 'x"
    and invalid stale :: "int \<Rightarrow> int \<times> 'x \<Rightarrow> bool"
  assumes entry_dom: "rep s K \<Longrightarrow> dom (entry s) = K"
    and entry_add: "rep s K \<Longrightarrow> k \<notin> K \<Longrightarrow> entry (onAdd S (\<lambda>_. t) k v s) = (entry s)(k \<mapsto> stamp t v)"
    and entry_update: "rep s K \<Longrightarrow> k \<in> K \<Longrightarrow> entry (onUpdate S (\<lambda>_. t) k v s) = (entry s)(k \<mapsto> stamp t v)"
    and entry_remove: "rep s K \<Longrightarrow> entry (onRemove S k s) = (entry s)(k := None)"
    and entry_get: "rep s K \<Longrightarrow> k \<in> K \<Longrightarrow> entry (onGet S (\<lambda>_. t) k s) = (entry s)(k \<mapsto> touch t (the (entry s k)))"
    and valid_entry: "rep s K \<Longrightarrow> k \<in> K \<Longrightarrow> onIsValid S (\<lambda>_. t) k True s \<longleftrightarrow> \<not> invalid t (the (entry s k))"
    and replace_entry: "rep s K \<Longrightarrow> set (onReplace S (\<lambda>_. t) [] s) = {k. \<exists>p. entry s k = Some p \<and> stale t p}"
begin

abbreviation abs_map :: "('k, 'v, 's) cache \<Rightarrow> ('k, 'v, 'x) timed_map" where
  "abs_map \<equiv> timed_abs entry"

lemma remove_entry:
  assumes "cache_ok rep c"
  shows "entry (c_strategy (cache_doRemove S k c)) = (entry (c_strategy c))(k := None)"
proof -
  have r: "rep (c_strategy c) (dom (map_of (c_data c)))" using assms by (simp add: cache_ok_def)
  show ?thesis
    using entry_remove[OF r, of k] entry_dom[OF r]
    by (cases "map_of (c_data c) k") (auto simp: cache_doRemove_def cache_notify_def fun_upd_idem_iff dom_def)
qed

lemma remove_abs: "cache_ok rep c \<Longrightarrow> abs_map (cache_doRemove S k c) = (abs_map c)(k := None)"
  by (auto simp: timed_abs_def fun_eq_iff remove_entry doRemove_ok)

lemma removes_abs: "cache_ok rep c \<Longrightarrow> abs_map (fold (cache_doRemove S) ks c) = abs_map c |` (- set ks)"
proof (induction ks arbitrary: c)
  case (Cons k ks)
  have "abs_map (fold (cache_doRemove S) (k # ks) c) = ((abs_map c)(k := None)) |` (- set ks)"
    unfolding fold_simps Cons.IH[OF doRemove_ok(1)[OF Cons.prems]] remove_abs[OF Cons.prems] ..
  then show ?case by (auto simp: restrict_map_def fun_eq_iff)
qed (simp add: restrict_map_def)

lemma replace_abs:
  assumes "cache_ok rep c"
  shows "abs_map (cache_doReplace S (\<lambda>_. t) c) = alive stale t (abs_map c)"
proof -
  have r: "rep (c_strategy c) (dom (map_of (c_data c)))" using assms by (simp add: cache_ok_def)
  have "k \<in> set (onReplace S (\<lambda>_. t) [] (c_strategy c)) \<longleftrightarrow> stale t (the (entry (c_strategy c) k))"
    if "map_of (c_data c) k \<noteq> None" for k
    using that replace_entry[OF r, of t] entry_dom[OF r] by fastforce
  then show ?thesis
    unfolding cache_doReplace_def removes_abs[OF assms]
    by (auto simp: alive_def restrict_map_def timed_abs_def fun_eq_iff split: option.splits)
qed

lemma add_abs:
  assumes "cache_ok rep c"
  shows "abs_map (cache_doAdd S (at_times (t0, t1)) k v c) = alive stale t1 ((abs_map c)(k \<mapsto> (v, stamp t0 v)))"
proof -
  let ?c = "cache_doRemove S k c"
  note d = doRemove_ok[OF assms, of k]
  have n: "map_of (c_data ?c) k = None" by (simp add: d(2))
  then have k: "k \<notin> dom (map_of (c_data ?c))" by auto
  have r: "rep (c_strategy ?c) (dom (map_of (c_data ?c)))" using d(1) by (simp add: cache_ok_def)
  let ?a = "(cache_notify (onAdd S (\<lambda>_. t0) k v) (AddEvent k v) ?c)\<lparr>c_data := smap_insert k v (c_data ?c)\<rparr>"
  note i = insert_ok[OF d(1) n, where now = "\<lambda>_. t0" and v = v]
  have "abs_map ?a = (abs_map ?c)(k \<mapsto> (v, stamp t0 v))"
    using entry_add[OF r k, of t0 v] n i(2) by (auto simp: timed_abs_def fun_eq_iff cache_notify_def)
  then show ?thesis
    unfolding doAdd_eq using replace_abs[OF i(1), of t1] remove_abs[OF assms, of k] by (simp add: at_times_def)
qed

lemma update_abs:
  assumes "cache_ok rep c"
  shows "abs_map (cache_doUpdate S (at_times (t0, t1)) k v c) = alive stale t1 ((abs_map c)(k \<mapsto> (v, stamp t0 v)))"
proof (cases "map_of (c_data c) k")
  case None
  then have "cache_doUpdate S (at_times (t0, t1)) k v c = cache_doAdd S (at_times (t0, t1)) k v c"
    by (simp add: cache_doUpdate_def cache_doAdd_def cache_doRemove_def Let_def)
  then show ?thesis using add_abs[OF assms] by simp
next
  case (Some w)
  have r: "rep (c_strategy c) (dom (map_of (c_data c)))" using assms by (simp add: cache_ok_def)
  have k: "k \<in> dom (map_of (c_data c))" "map_of (c_data c) k \<noteq> None" using Some by auto
  let ?a = "(cache_notify (onUpdate S (\<lambda>_. t0) k v) (UpdateEvent k v) c)\<lparr>c_data := smap_assign k v (c_data c)\<rparr>"
  note i = assign_ok[OF assms k(2), where now = "\<lambda>_. t0" and v = v]
  have "abs_map ?a = (abs_map c)(k \<mapsto> (v, stamp t0 v))"
    using entry_update[OF r k(1), of t0 v] i(2) by (auto simp: timed_abs_def fun_eq_iff cache_notify_def)
  then show ?thesis
    using replace_abs[OF i(1), of t1] Some by (simp add: cache_doUpdate_def Let_def at_times_def cache_notify_def)
qed

lemma get_abs:
  assumes "cache_ok rep c"
  shows "fst (cache_doGet S (at_times (t0, t1)) k c) = timed_get touch invalid (t0, t1) k (abs_map c) \<and>
    abs_map (snd (cache_doGet S (at_times (t0, t1)) k c)) = timed_spec stamp touch invalid stale (t0, t1) (Get k) (abs_map c)"
proof (cases "map_of (c_data c) k")
  case None
  then show ?thesis by (simp add: cache_doGet_def timed_get_def timed_abs_def)
next
  case (Some v)
  have r: "rep (c_strategy c) (dom (map_of (c_data c)))" using assms by (simp add: cache_ok_def)
  have k: "k \<in> dom (map_of (c_data c))" using Some by auto
  let ?c = "cache_notify (onGet S (\<lambda>_. t0) k) (GetEvent k) c" and ?p = "touch t0 (the (entry (c_strategy c) k))"
  note g = get_notify_ok[OF assms, of "\<lambda>_. t0" k]
  have e: "entry (c_strategy ?c) = (entry (c_strategy c))(k \<mapsto> ?p)" using entry_get[OF r k] by (simp add: cache_notify_def)
  have a: "abs_map ?c = (abs_map c)(k \<mapsto> (v, ?p))"
    using Some unfolding timed_abs_def e by (auto simp: fun_eq_iff cache_notify_def)
  have "rep (c_strategy ?c) (dom (map_of (c_data c)))" using g by (simp add: cache_ok_def cache_notify_def)
  from valid_entry[OF this k, of t1] have v: "onIsValid S (\<lambda>_. t1) k True (c_strategy ?c) \<longleftrightarrow> \<not> invalid t1 ?p" by (simp add: e)
  have d: "cache_doGet S (at_times (t0, t1)) k c = (if invalid t1 ?p then (None, cache_doRemove S k ?c) else (Some v, ?c))"
    using Some v by (simp add: cache_doGet_def Let_def at_times_def)
  have m: "abs_map c k = Some (v, the (entry (c_strategy c) k))" using Some by (simp add: timed_abs_def)
  show ?thesis unfolding d using a m remove_abs[OF g, of k] by (simp add: timed_get_def)
qed

lemma has_abs:
  assumes "cache_ok rep c"
  shows "cache_doHas S (\<lambda>_. t) k c \<longleftrightarrow> (case abs_map c k of None \<Rightarrow> False | Some (v, p) \<Rightarrow> \<not> invalid t p)"
proof -
  have r: "rep (c_strategy c) (dom (map_of (c_data c)))" using assms by (simp add: cache_ok_def)
  show ?thesis
    using valid_entry[OF r, of k t] by (cases "map_of (c_data c) k") (auto simp: cache_doHas_def timed_abs_def)
qed

lemma step_abs:
  assumes "cache_ok rep c"
  shows "abs_map (cache_step S (at_times ts) op c) = timed_spec stamp touch invalid stale ts op (abs_map c)"
proof (cases ts)
  case (Pair t0 t1)
  show ?thesis
  proof (cases op)
    case (AddPtr k p)
    then show ?thesis using add_abs[OF assms] remove_abs[OF assms] by (cases p) (simp_all add: Pair doAddPtr_eq)
  next
    case (UpdatePtr k p)
    then show ?thesis using update_abs[OF assms] by (cases p) (simp_all add: Pair doUpdatePtr_eq)
  next
    case (Get k)
    then show ?thesis using get_abs[OF assms] by (simp add: Pair)
  next
    case Clear
    then show ?thesis by (simp add: Pair cache_doClear_def cache_notify_def timed_abs_def)
  next
    case ForceReplace
    then show ?thesis using replace_abs[OF assms, of t0] by (simp add: Pair at_times_def)
  qed (use Pair add_abs[OF assms] update_abs[OF assms] remove_abs[OF assms] in simp_all)
qed

lemma run_abs:
  "cache_ok rep c \<Longrightarrow> cache_ok rep (timed_run S ops c) \<and>
    abs_map (timed_run S ops c) = fold (\<lambda>(ts, op). timed_spec stamp touch invalid stale ts op) ops (abs_map c)"
proof (induction ops arbitrary: c)
  case (Cons p ops)
  from Cons.IH[OF step_ok[OF Cons.prems, of "at_times (fst p)" "snd p"]] step_abs[OF Cons.prems, of "fst p" "snd p"]
  show ?case by (cases p) (simp add: timed_run_def)
qed (simp add: timed_run_def)

end

section \<open>The four strategies keep the contract\<close>

lemmas expire_sel = expire_strategy_def accessExpire_strategy_def uniqueExpire_strategy_def uniqueAccess_strategy_def
  strategy.simps expire_onAdd_def uniqueExpire_onAdd_def uniqueAccess_onAdd_def expire_onGet_def default_onUpdate_def Let_def

lemma tindex_update_rep:
  assumes "tindex_rep s K" "k \<in> K"
  shows "tindex_rep (tindex_put t k x (tindex_onRemove k s)) K"
    "tindex_entry (tindex_put t k x (tindex_onRemove k s)) = (tindex_entry s)(k \<mapsto> (t, x))"
  using tindex_put_rep[OF tindex_onRemove_rep(1)[OF assms(1), of k], of t k x] tindex_onRemove_rep(2)[OF assms(1), of k] assms(2)
  by (simp_all add: insert_absorb)

lemma expire_onReplace_rep:
  assumes "tindex_rep s K" "sorted del" "distinct del"
  shows "sorted (expire_onReplace E now del s) \<and> distinct (expire_onReplace E now del s) \<and>
      set del \<subseteq> set (expire_onReplace E now del s) \<and> set (expire_onReplace E now del s) \<subseteq> set del \<union> K"
    "set (expire_onReplace E (\<lambda>_. t) [] s) = {k. \<exists>p. tindex_entry s k = Some p \<and> isElapsed t (fst p) E}"
proof -
  have "k \<in> K" if "(n, t, k, x) \<in> set (t_keyIndex s)" for n t k x
    using tindex_repD(5)[OF assms(1) that] tindex_repD(2)[OF assms(1)] by auto
  then show "sorted (expire_onReplace E now del s) \<and> distinct (expire_onReplace E now del s) \<and>
      set del \<subseteq> set (expire_onReplace E now del s) \<and> set (expire_onReplace E now del s) \<subseteq> set del \<union> K"
    using expire_replace_loop[OF assms(2,3), of E now 0 "t_keyIndex s"] by (auto simp: expire_onReplace_def)
  show "set (expire_onReplace E (\<lambda>_. t) [] s) = {k. \<exists>p. tindex_entry s k = Some p \<and> isElapsed t (fst p) E}"
    unfolding expire_onReplace_def expire_replace_loop_now[OF tindex_repD(4)[OF assms(1)]]
    using tindex_entry_iff[OF assms(1)] by fastforce
qed

lemma unique_onReplace_rep:
  assumes "tindex_rep s K" "sorted del" "distinct del"
  shows "sorted (unique_onReplace now del s) \<and> distinct (unique_onReplace now del s) \<and>
      set del \<subseteq> set (unique_onReplace now del s) \<and> set (unique_onReplace now del s) \<subseteq> set del \<union> K"
    "set (unique_onReplace (\<lambda>_. t) [] s) = {k. \<exists>p. tindex_entry s k = Some p \<and> fst p < t}"
proof -
  note r = unique_replace_loop[OF _ _ tindex_repD(4)[OF assms(1)]]
  have "k \<in> K" if "(n, t, k, x) \<in> set (t_keyIndex s)" for n t k x
    using tindex_repD(5)[OF assms(1) that] tindex_repD(2)[OF assms(1)] by auto
  then show "sorted (unique_onReplace now del s) \<and> distinct (unique_onReplace now del s) \<and>
      set del \<subseteq> set (unique_onReplace now del s) \<and> set (unique_onReplace now del s) \<subseteq> set del \<union> K"
    using r[OF assms(2,3), of "now 0"] by (auto simp: unique_onReplace_def)
  show "set (unique_onReplace (\<lambda>_. t) [] s) = {k. \<exists>p. tindex_entry s k = Some p \<and> fst p < t}"
    using r[of "[]" t] tindex_entry_iff[OF assms(1)] by (fastforce simp: unique_onReplace_def)
qed

lemma tindex_key: "tindex_rep s K \<Longrightarrow> k \<in> K \<Longrightarrow> \<exists>i. map_of (t_keys s) k = Some i"
  using tindex_repD(2) by blast

lemma expire_valid:
  assumes "tindex_rep s K" "k \<in> K"
  shows "expire_onIsValid E now k True s \<longleftrightarrow> \<not> isElapsed (now 0) (fst (the (tindex_entry s k))) E"
  using tindex_key[OF assms] tindex_time_entry[OF assms(1)] by (force simp: expire_onIsValid_def)

lemma unique_valid:
  assumes "tindex_rep s K" "k \<in> K"
  shows "unique_onIsValid now k True s \<longleftrightarrow> \<not> fst (the (tindex_entry s k)) \<le> now 0"
  using tindex_key[OF assms] tindex_time_entry[OF assms(1)] by (force simp: unique_onIsValid_def)

lemma accessExpire_get:
  assumes "tindex_rep s K"
  shows "tindex_rep (accessExpire_onGet E now k s) K"
    "k \<in> K \<Longrightarrow> tindex_entry (accessExpire_onGet E (\<lambda>_. t) k s) = (tindex_entry s)(k \<mapsto>
      (if isElapsed t (fst (the (tindex_entry s k))) E then the (tindex_entry s k) else (t, ())))"
proof -
  show "tindex_rep (accessExpire_onGet E now k s) K"
    using assms tindex_move_rep(1)[OF assms] by (auto simp: accessExpire_onGet_def split: option.splits)
  assume k: "k \<in> K"
  obtain i where i: "map_of (t_keys s) k = Some i" using tindex_key[OF assms k] by blast
  obtain x where "tindex_entry s k = Some (tindex_time i s, x)" using tindex_time_entry[OF assms i] by blast
  then show "tindex_entry (accessExpire_onGet E (\<lambda>_. t) k s) = (tindex_entry s)(k \<mapsto>
      (if isElapsed t (fst (the (tindex_entry s k))) E then the (tindex_entry s k) else (t, ())))"
    using i tindex_move_rep(2)[OF assms i] by (simp add: accessExpire_onGet_def fun_upd_idem)
qed

lemma uniqueAccess_get:
  assumes "tindex_rep s K"
  shows "tindex_rep (uniqueAccess_onGet now k s) K"
    "k \<in> K \<Longrightarrow> tindex_entry (uniqueAccess_onGet (\<lambda>_. t) k s) = (tindex_entry s)(k \<mapsto>
      (t + snd (the (tindex_entry s k)), snd (the (tindex_entry s k))))"
proof -
  have g: "\<exists>x. tindex_entry s k = Some (tindex_time i s, x) \<and> uniqueAccess_onGet now k s = tindex_move (now 0 + x) k x i s"
    if "map_of (t_keys s) k = Some i" for i now
    using tindex_time_entry[OF assms that] that by (auto simp: uniqueAccess_onGet_def Let_def)
  show "tindex_rep (uniqueAccess_onGet now k s) K"
  proof (cases "map_of (t_keys s) k")
    case (Some i)
    then show ?thesis using g[OF Some, of now] tindex_move_rep(1)[OF assms Some] by auto
  qed (use assms in \<open>simp add: uniqueAccess_onGet_def\<close>)
  assume k: "k \<in> K"
  obtain i where i: "map_of (t_keys s) k = Some i" using tindex_key[OF assms k] by blast
  show "tindex_entry (uniqueAccess_onGet (\<lambda>_. t) k s) = (tindex_entry s)(k \<mapsto>
      (t + snd (the (tindex_entry s k)), snd (the (tindex_entry s k))))"
    using g[OF i, of "\<lambda>_. t"] tindex_move_rep(2)[OF assms i] by auto
qed

lemma tindex_entry_idem: "tindex_rep s K \<Longrightarrow> k \<in> K \<Longrightarrow> (tindex_entry s)(k \<mapsto> the (tindex_entry s k)) = tindex_entry s"
  using tindex_entry_dom[of s K] by (auto simp: fun_upd_idem_iff)

lemma tindex_replace_now:
  "tindex_rep s K \<Longrightarrow> set (expire_onReplace E (\<lambda>_. t) [] s) = {k. \<exists>a. tindex_entry s k = Some (a, ()) \<and> isElapsed t a E}"
  "tindex_rep s K \<Longrightarrow> set (unique_onReplace (\<lambda>_. t) [] s) = {k. \<exists>a. tindex_entry s k = Some (a, ()) \<and> a < t}"
  "tindex_rep s' K' \<Longrightarrow> set (unique_onReplace (\<lambda>_. t) [] s') = {k. \<exists>a. (\<exists>x. tindex_entry s' k = Some (a, x)) \<and> a < t}"
  using expire_onReplace_rep(2)[of s K "[]"] unique_onReplace_rep(2)[of s K "[]"] unique_onReplace_rep(2)[of s' K' "[]"]
  by simp_all

lemmas tindex_facts = tindex_put_rep tindex_update_rep tindex_onRemove_rep tindex_onClear_rep tindex_entry_dom
  expire_onReplace_rep(1) unique_onReplace_rep(1) expire_valid unique_valid accessExpire_get uniqueAccess_get tindex_entry_idem
  tindex_replace_now

interpretation expire: timed_strategy "expire_strategy E" tindex_rep tindex_entry "\<lambda>t v. (t, ())" "\<lambda>t p. p"
  "\<lambda>t p. isElapsed t (fst p) E" "\<lambda>t p. isElapsed t (fst p) E" for E
  by unfold_locales (simp_all add: expire_sel tindex_facts)

interpretation access: timed_strategy "accessExpire_strategy E" tindex_rep tindex_entry "\<lambda>t v. (t, ())"
  "\<lambda>t p. if isElapsed t (fst p) E then p else (t, ())" "\<lambda>t p. isElapsed t (fst p) E" "\<lambda>t p. isElapsed t (fst p) E" for E
  by unfold_locales (simp_all add: expire_sel tindex_facts)

interpretation unique: timed_strategy "uniqueExpire_strategy getExpiration" tindex_rep tindex_entry
  "\<lambda>t v. (getExpiration v, ())" "\<lambda>t p. p" "\<lambda>t p. fst p \<le> t" "\<lambda>t p. fst p < t" for getExpiration
  by unfold_locales (simp_all add: expire_sel tindex_facts)

interpretation uaccess: timed_strategy "uniqueAccess_strategy getTimeout" tindex_rep tindex_entry
  "\<lambda>t v. (t + getTimeout v, getTimeout v)" "\<lambda>t p. (t + snd p, snd p)" "\<lambda>t p. fst p \<le> t" "\<lambda>t p. fst p < t" for getTimeout
  by unfold_locales (simp_all add: expire_sel tindex_facts)

section \<open>Properties\<close>

definition expireCache_new :: "int \<Rightarrow> (int \<times> ('k, 'v, ('k, unit) tindex) cache) result" where
  "expireCache_new expire = rbind (expire_new expire) (\<lambda>(E, s). Inr (E, cache_new s))"

definition uniqueExpireCache_new :: "('k, 'v, ('k, unit) tindex) cache" where
  "uniqueExpireCache_new = cache_new tindex_new"

definition uniqueAccessExpireCache_new :: "('k, 'v, ('k, int) tindex) cache" where
  "uniqueAccessExpireCache_new = cache_new tindex_new"

lemma timed_new_ok: "cache_ok tindex_rep (cache_new tindex_new)" "timed_abs entry (cache_new s) = Map.empty"
  by (auto simp: cache_ok_def cache_new_def smap_wf_def tindex_new_rep timed_abs_def)

lemma expireCache_newD: "expireCache_new ms = Inr (E, c) \<Longrightarrow> c = cache_new tindex_new \<and> E = ms * 1000 \<and> 25000 \<le> E"
  by (auto simp: expireCache_new_def expire_new_def Let_def split: if_splits)

text \<open>
  C28.  ExpireCache and AccessExpireCache: any sequence of operations leaves the entries the specification
  leaves.  \<^verbatim>\<open>has\<close> and \<^verbatim>\<open>get\<close> find an entry exactly if it was added (for AccessExpireCache: added or last read in
  time) less than the expiration time ago.
\<close>

theorem expire_cache_refines:
  assumes "expireCache_new ms = Inr (E, c0)"
    and c: "c = timed_run (expire_strategy E) ops c0" "c' = timed_run (accessExpire_strategy E) ops c0"
    and m: "m = fold (\<lambda>(ts, op). timed_spec (\<lambda>t v. (t, ())) (\<lambda>t p. p) (\<lambda>t p. fst p + E \<le> t) (\<lambda>t p. fst p + E \<le> t) ts op) ops Map.empty"
      "m' = fold (\<lambda>(ts, op). timed_spec (\<lambda>t v. (t, ())) (\<lambda>t p. if fst p + E \<le> t then p else (t, ()))
        (\<lambda>t p. fst p + E \<le> t) (\<lambda>t p. fst p + E \<le> t) ts op) ops Map.empty"
  shows "timed_abs tindex_entry c = m \<and> timed_abs tindex_entry c' = m' \<and>
    cache_doHas (expire_strategy E) (\<lambda>_. t) k c = (case m k of None \<Rightarrow> False | Some (v, s, _) \<Rightarrow> t < s + E) \<and>
    cache_doHas (accessExpire_strategy E) (\<lambda>_. t) k c' = (case m' k of None \<Rightarrow> False | Some (v, s, _) \<Rightarrow> t < s + E) \<and>
    fst (cache_doGet (expire_strategy E) (at_times (t, t)) k c) =
      (case m k of None \<Rightarrow> None | Some (v, s, _) \<Rightarrow> if t < s + E then Some v else None) \<and>
    fst (cache_doGet (accessExpire_strategy E) (at_times (t, t)) k c') =
      (case m' k of None \<Rightarrow> None | Some (v, s, _) \<Rightarrow> if t < s + E then Some v else None)"
proof -
  have c0: "c0 = cache_new tindex_new" "0 < E" using expireCache_newD[OF assms(1)] by auto
  have el: "isElapsed t s E \<longleftrightarrow> s + E \<le> t" for t s by (auto simp: isElapsed_def Let_def)
  have r: "cache_ok tindex_rep c" "timed_abs tindex_entry c = m"
    using expire.run_abs[OF timed_new_ok(1), of E ops] by (simp_all add: c0 c(1) m(1) el timed_new_ok)
  have r': "cache_ok tindex_rep c'" "timed_abs tindex_entry c' = m'"
    using access.run_abs[OF timed_new_ok(1), of E ops] by (simp_all add: c0 c(2) m(2) el timed_new_ok)
  have h: "cache_doHas (expire_strategy E) (\<lambda>_. t) k c = (case m k of None \<Rightarrow> False | Some (v, s, _) \<Rightarrow> t < s + E)"
    using expire.has_abs[OF r(1), of E t k] unfolding r(2) el by (auto split: option.splits)
  have h': "cache_doHas (accessExpire_strategy E) (\<lambda>_. t) k c' = (case m' k of None \<Rightarrow> False | Some (v, s, _) \<Rightarrow> t < s + E)"
    using access.has_abs[OF r'(1), of E t k] unfolding r'(2) el by (auto split: option.splits)
  have g: "fst (cache_doGet (expire_strategy E) (at_times (t, t)) k c) =
      (case m k of None \<Rightarrow> None | Some (v, s, _) \<Rightarrow> if t < s + E then Some v else None)"
    using expire.get_abs[OF r(1), of E t t k] unfolding r(2) el by (auto simp: timed_get_def split: option.splits)
  have g': "fst (cache_doGet (accessExpire_strategy E) (at_times (t, t)) k c') =
      (case m' k of None \<Rightarrow> None | Some (v, s, _) \<Rightarrow> if t < s + E then Some v else None)"
    using access.get_abs[OF r'(1), of E t t k] c0(2) unfolding r'(2) el by (auto simp: timed_get_def split: option.splits)
  show ?thesis using r(2) r'(2) h h' g g' by simp
qed

theorem expire_cache_refines_witness:
  "fst (cache_doGet (accessExpire_strategy 25000) (at_times (40000, 40000)) (1 :: nat)
      (timed_run (accessExpire_strategy 25000) [((0, 0), Add 1 ''a''), ((20000, 20000), Get 1)] (cache_new tindex_new))) = Some ''a'' \<and>
   fst (cache_doGet (expire_strategy 25000) (at_times (40000, 40000)) (1 :: nat)
      (timed_run (expire_strategy 25000) [((0, 0), Add 1 ''a''), ((20000, 20000), Get 1)] (cache_new tindex_new))) = None"
proof -
  have "expireCache_new 25 = Inr (25000, cache_new tindex_new)" by (simp add: expireCache_new_def expire_new_def)
  note r = expire_cache_refines[OF this refl refl refl refl,
      where ops = "[((0, 0), Add (1 :: nat) ''a''), ((20000, 20000), Get 1)]" and t = 40000 and k = 1]
  then show ?thesis by (simp add: alive_def)
qed

text \<open>
  UniqueExpireCache finds an entry exactly before its expiration.  UniqueAccessExpireCache: \<^verbatim>\<open>has\<close> respects the
  expiration of an entry, but \<^verbatim>\<open>get\<close> first moves the expiration to the present plus the timeout and
  therefore returns an entry however long ago it expired, if its timeout is positive.
\<close>

theorem unique_cache_correct:
  assumes "c = timed_run (uniqueExpire_strategy getExpiration) ops uniqueExpireCache_new"
    "c' = timed_run (uniqueAccess_strategy getTimeout) ops' uniqueAccessExpireCache_new"
  shows "cache_doHas (uniqueExpire_strategy getExpiration) (\<lambda>_. t) k c =
      (case timed_abs tindex_entry c k of None \<Rightarrow> False | Some (v, e, _) \<Rightarrow> t < e) \<and>
    fst (cache_doGet (uniqueExpire_strategy getExpiration) (at_times (t, t)) k c) =
      (case timed_abs tindex_entry c k of None \<Rightarrow> None | Some (v, e, _) \<Rightarrow> if t < e then Some v else None) \<and>
    cache_doHas (uniqueAccess_strategy getTimeout) (\<lambda>_. t) k c' =
      (case timed_abs tindex_entry c' k of None \<Rightarrow> False | Some (v, e, d) \<Rightarrow> t < e) \<and>
    fst (cache_doGet (uniqueAccess_strategy getTimeout) (at_times (t, t)) k c') =
      (case timed_abs tindex_entry c' k of None \<Rightarrow> None | Some (v, e, d) \<Rightarrow> if 0 < d then Some v else None)"
proof -
  have r: "cache_ok tindex_rep c"
    using unique.run_abs[OF timed_new_ok(1), of getExpiration ops] by (simp add: assms(1) uniqueExpireCache_new_def)
  have r': "cache_ok tindex_rep c'"
    using uaccess.run_abs[OF timed_new_ok(1), of getTimeout ops'] by (simp add: assms(2) uniqueAccessExpireCache_new_def)
  have "cache_doHas (uniqueExpire_strategy getExpiration) (\<lambda>_. t) k c =
      (case timed_abs tindex_entry c k of None \<Rightarrow> False | Some (v, e, _) \<Rightarrow> t < e)"
    using unique.has_abs[OF r, of getExpiration t k] by (auto split: option.splits)
  moreover have "fst (cache_doGet (uniqueExpire_strategy getExpiration) (at_times (t, t)) k c) =
      (case timed_abs tindex_entry c k of None \<Rightarrow> None | Some (v, e, _) \<Rightarrow> if t < e then Some v else None)"
    using unique.get_abs[OF r, of getExpiration t t k] by (auto simp: timed_get_def split: option.splits)
  moreover have "cache_doHas (uniqueAccess_strategy getTimeout) (\<lambda>_. t) k c' =
      (case timed_abs tindex_entry c' k of None \<Rightarrow> False | Some (v, e, d) \<Rightarrow> t < e)"
    using uaccess.has_abs[OF r', of getTimeout t k] by (auto split: option.splits)
  moreover have "fst (cache_doGet (uniqueAccess_strategy getTimeout) (at_times (t, t)) k c') =
      (case timed_abs tindex_entry c' k of None \<Rightarrow> None | Some (v, e, d) \<Rightarrow> if 0 < d then Some v else None)"
    using uaccess.get_abs[OF r', of getTimeout t t k] by (auto simp: timed_get_def split: option.splits)
  ultimately show ?thesis by blast
qed

text \<open>An entry with a timeout of 10, added at 0 and read at 1000: \<^verbatim>\<open>has\<close> says no, \<^verbatim>\<open>get\<close> returns it.\<close>

theorem unique_cache_correct_witness:
  "(let c = timed_run (uniqueAccess_strategy (\<lambda>_. 10)) [((0, 0), Add (1 :: nat) ''a'')] uniqueAccessExpireCache_new
    in \<not> cache_doHas (uniqueAccess_strategy (\<lambda>_. 10)) (\<lambda>_. 1000) 1 c \<and>
       fst (cache_doGet (uniqueAccess_strategy (\<lambda>_. 10)) (at_times (1000, 1000)) 1 c) = Some ''a'')"
proof -
  let ?c = "timed_run (uniqueAccess_strategy (\<lambda>_. 10)) [((0, 0), Add (1 :: nat) ''a'')] uniqueAccessExpireCache_new"
  have "timed_abs tindex_entry ?c 1 = Some (''a'', 10, 10)"
    using conjunct2[OF uaccess.run_abs[OF timed_new_ok(1), of "\<lambda>_. 10" "[((0, 0), Add (1 :: nat) ''a'')]"]]
    by (simp add: uniqueAccessExpireCache_new_def timed_new_ok alive_def)
  with conjunct2[OF conjunct2[OF unique_cache_correct[OF refl refl, where ops' = "[((0, 0), Add (1 :: nat) ''a'')]" and t = 1000 and k = 1 and getTimeout = "\<lambda>_. 10"
      and ops = "[]" and getExpiration = "\<lambda>_. 0"]]]
  show ?thesis by (simp add: Let_def)
qed
end
