(* ===== verification/CacheCombined.thy ===== *)
theory CacheCombined
  imports CacheLRU CacheExpire
begin

text \<open>
  \<^verbatim>\<open>StrategyCollection\<close> and the caches that combine \<^verbatim>\<open>LRUStrategy\<close> with an expiring strategy: \<^verbatim>\<open>ExpireLRUCache\<close>,
  \<^verbatim>\<open>AccessExpireLRUCache\<close>, \<^verbatim>\<open>UniqueExpireLRUCache\<close>, \<^verbatim>\<open>UniqueAccessExpireLRUCache\<close>.

  The collection owns pointers to strategies of any class: an element is a strategy's function table with
  its state.  The states have one type; for the library's combinations it is a sum, and \<open>left_strategy\<close> and
  \<open>right_strategy\<close> are the two classes seen through the base class.  The strategies of a collection are given the
  same clock readings; in the library's combinations only one of them reads the clock.
\<close>

section \<open>StrategyCollection\<close>

type_synonym ('k, 'v, 's) collection = "(('k, 'v, 's) strategy \<times> 's) list"

definition coll_pushBack :: "('k, 'v, 's) strategy \<times> 's \<Rightarrow> ('k, 'v, 's) collection \<Rightarrow> ('k, 'v, 's) collection" where
  "coll_pushBack p l = l @ [p]"

definition coll_popBack :: "('k, 'v, 's) collection \<Rightarrow> ('k, 'v, 's) collection" where
  "coll_popBack l = butlast l"

definition coll_onAdd :: "clock \<Rightarrow> 'k \<Rightarrow> 'v \<Rightarrow> ('k, 'v, 's) collection \<Rightarrow> ('k, 'v, 's) collection" where
  "coll_onAdd now key val l = map (\<lambda>(S, s). (S, onAdd S now key val s)) l"

definition coll_onRemove :: "'k \<Rightarrow> ('k, 'v, 's) collection \<Rightarrow> ('k, 'v, 's) collection" where
  "coll_onRemove key l = map (\<lambda>(S, s). (S, onRemove S key s)) l"

definition coll_onGet :: "clock \<Rightarrow> 'k \<Rightarrow> ('k, 'v, 's) collection \<Rightarrow> ('k, 'v, 's) collection" where
  "coll_onGet now key l = map (\<lambda>(S, s). (S, onGet S now key s)) l"

definition coll_onClear :: "('k, 'v, 's) collection \<Rightarrow> ('k, 'v, 's) collection" where
  "coll_onClear l = map (\<lambda>(S, s). (S, onClear S s)) l"

fun coll_onIsValid :: "clock \<Rightarrow> 'k \<Rightarrow> bool \<Rightarrow> ('k, 'v, 's) collection \<Rightarrow> bool" where
  "coll_onIsValid now key valid [] = valid"
| "coll_onIsValid now key valid ((S, s) # l) =
    (if valid then coll_onIsValid now key (onIsValid S now key valid s) l else valid)"

fun coll_onReplace :: "clock \<Rightarrow> 'k list \<Rightarrow> ('k, 'v, 's) collection \<Rightarrow> 'k list" where
  "coll_onReplace now elemsToRemove [] = elemsToRemove"
| "coll_onReplace now elemsToRemove ((S, s) # l) = coll_onReplace now (onReplace S now elemsToRemove s) l"

definition coll_strategy :: "('k, 'v, ('k, 'v, 's) collection) strategy" where
  "coll_strategy = \<lparr>onAdd = coll_onAdd, onUpdate = default_onUpdate coll_onRemove coll_onAdd, onRemove = coll_onRemove,
     onGet = coll_onGet, onClear = coll_onClear, onIsValid = coll_onIsValid, onReplace = coll_onReplace\<rparr>"

text \<open>Every strategy of the collection tracks the same keys.\<close>

definition coll_rep :: "('k::linorder, 'v, 's) collection \<Rightarrow> 'k set \<Rightarrow> bool" where
  "coll_rep l K \<longleftrightarrow> list_all (\<lambda>(S, s). \<exists>rep. cache_strategy S rep \<and> rep s K) l"

lemmas coll_sel = coll_strategy_def strategy.simps coll_onAdd_def coll_onRemove_def coll_onGet_def coll_onClear_def
  default_onUpdate_def

lemma coll_onReplace_rep:
  "coll_rep l K \<Longrightarrow> sorted del \<Longrightarrow> distinct del \<Longrightarrow>
    sorted (coll_onReplace now del l) \<and> distinct (coll_onReplace now del l) \<and>
    set del \<subseteq> set (coll_onReplace now del l) \<and> set (coll_onReplace now del l) \<subseteq> set del \<union> K"
proof (induction l arbitrary: del)
  case (Cons p l)
  obtain S s where p: "p = (S, s)" by (cases p)
  from Cons.prems(1) obtain rep where r: "cache_strategy S rep" "rep s K" "coll_rep l K" by (auto simp: coll_rep_def p)
  note d = cache_strategy.replace_rep[OF r(1,2) Cons.prems(2,3), of now]
  then show ?case using Cons.IH[of "onReplace S now del s"] r(3) by (auto simp: p)
qed simp

lemma coll_map_rep:
  assumes "coll_rep l K" "\<And>S s rep. cache_strategy S rep \<Longrightarrow> rep s K \<Longrightarrow> rep (f S s) K'"
  shows "coll_rep (map (\<lambda>(S, s). (S, f S s)) l) K'"
  using assms by (fastforce simp: coll_rep_def list_all_iff)

interpretation coll: cache_strategy coll_strategy coll_rep
proof
  fix s :: "('a, 'b, 'c) collection" and K now k v and del :: "'a list"
  assume r: "coll_rep s K"
  have rem: "coll_rep (coll_onRemove k s) (K - {k})" unfolding coll_onRemove_def by (rule coll_map_rep[OF r]) (rule cache_strategy.remove_rep)
  then show "coll_rep (onRemove coll_strategy k s) (K - {k})" by (simp add: coll_strategy_def)
  show "coll_rep (onAdd coll_strategy now k v s) (insert k K)" if "k \<notin> K"
    unfolding coll_sel by (rule coll_map_rep[OF r]) (rule cache_strategy.add_rep[OF _ _ that])
  show "coll_rep (onUpdate coll_strategy now k v s) K" if "k \<in> K"
  proof -
    have k: "k \<notin> K - {k}" by simp
    have "coll_rep (coll_onAdd now k v (coll_onRemove k s)) (insert k (K - {k}))"
      unfolding coll_onAdd_def by (rule coll_map_rep[OF rem]) (rule cache_strategy.add_rep[OF _ _ k])
    then show ?thesis using that by (simp add: coll_strategy_def default_onUpdate_def insert_absorb)
  qed
  show "coll_rep (onGet coll_strategy now k s) K"
    unfolding coll_sel by (rule coll_map_rep[OF r]) (rule cache_strategy.get_rep)
  show "coll_rep (onClear coll_strategy s) {}"
    unfolding coll_sel by (rule coll_map_rep[OF r]) (rule cache_strategy.clear_rep)
  show "sorted del \<Longrightarrow> distinct del \<Longrightarrow> sorted (onReplace coll_strategy now del s) \<and> distinct (onReplace coll_strategy now del s) \<and>
      set del \<subseteq> set (onReplace coll_strategy now del s) \<and> set (onReplace coll_strategy now del s) \<subseteq> set del \<union> K"
    unfolding coll_strategy_def strategy.simps by (rule coll_onReplace_rep[OF r])
qed

section \<open>Strategies behind the base class\<close>

definition left_strategy :: "('k, 'v, 's) strategy \<Rightarrow> ('k, 'v, 's + 't) strategy" where
  "left_strategy S = \<lparr>
     onAdd = (\<lambda>now k v x. case x of Inl s \<Rightarrow> Inl (onAdd S now k v s) | Inr _ \<Rightarrow> x),
     onUpdate = (\<lambda>now k v x. case x of Inl s \<Rightarrow> Inl (onUpdate S now k v s) | Inr _ \<Rightarrow> x),
     onRemove = (\<lambda>k x. case x of Inl s \<Rightarrow> Inl (onRemove S k s) | Inr _ \<Rightarrow> x),
     onGet = (\<lambda>now k x. case x of Inl s \<Rightarrow> Inl (onGet S now k s) | Inr _ \<Rightarrow> x),
     onClear = (\<lambda>x. case x of Inl s \<Rightarrow> Inl (onClear S s) | Inr _ \<Rightarrow> x),
     onIsValid = (\<lambda>now k valid x. case x of Inl s \<Rightarrow> onIsValid S now k valid s | Inr _ \<Rightarrow> valid),
     onReplace = (\<lambda>now del x. case x of Inl s \<Rightarrow> onReplace S now del s | Inr _ \<Rightarrow> del)\<rparr>"

definition right_strategy :: "('k, 'v, 't) strategy \<Rightarrow> ('k, 'v, 's + 't) strategy" where
  "right_strategy S = \<lparr>
     onAdd = (\<lambda>now k v x. case x of Inl _ \<Rightarrow> x | Inr s \<Rightarrow> Inr (onAdd S now k v s)),
     onUpdate = (\<lambda>now k v x. case x of Inl _ \<Rightarrow> x | Inr s \<Rightarrow> Inr (onUpdate S now k v s)),
     onRemove = (\<lambda>k x. case x of Inl _ \<Rightarrow> x | Inr s \<Rightarrow> Inr (onRemove S k s)),
     onGet = (\<lambda>now k x. case x of Inl _ \<Rightarrow> x | Inr s \<Rightarrow> Inr (onGet S now k s)),
     onClear = (\<lambda>x. case x of Inl _ \<Rightarrow> x | Inr s \<Rightarrow> Inr (onClear S s)),
     onIsValid = (\<lambda>now k valid x. case x of Inl _ \<Rightarrow> valid | Inr s \<Rightarrow> onIsValid S now k valid s),
     onReplace = (\<lambda>now del x. case x of Inl _ \<Rightarrow> del | Inr s \<Rightarrow> onReplace S now del s)\<rparr>"

text \<open>The collection of the combined caches: first the LRU strategy, then an expiring one.\<close>

definition lru_and :: "('k::linorder, 'v, 't) strategy \<Rightarrow> 'k lru \<Rightarrow> 't \<Rightarrow> ('k, 'v, 'k lru + 't) collection" where
  "lru_and S l e = coll_pushBack (right_strategy S, Inr e) (coll_pushBack (left_strategy lru_strategy, Inl l) [])"

definition expireLRUCache_new :: "nat \<Rightarrow> int \<Rightarrow> (int \<times> ('k::linorder, 'v, ('k, 'v, 'k lru + ('k, unit) tindex) collection) cache) result" where
  "expireLRUCache_new cacheSize expire =
    rbind (lru_new cacheSize) (\<lambda>l. rbind (expire_new expire) (\<lambda>(E, e). Inr (E, cache_new (lru_and (expire_strategy E) l e))))"

definition accessExpireLRUCache_new :: "nat \<Rightarrow> int \<Rightarrow> (int \<times> ('k::linorder, 'v, ('k, 'v, 'k lru + ('k, unit) tindex) collection) cache) result" where
  "accessExpireLRUCache_new cacheSize expire =
    rbind (lru_new cacheSize) (\<lambda>l. rbind (expire_new expire) (\<lambda>(E, e). Inr (E, cache_new (lru_and (accessExpire_strategy E) l e))))"

definition uniqueExpireLRUCache_new :: "('v \<Rightarrow> int) \<Rightarrow> nat \<Rightarrow> ('k::linorder, 'v, ('k, 'v, 'k lru + ('k, unit) tindex) collection) cache result" where
  "uniqueExpireLRUCache_new getExpiration cacheSize =
    rbind (lru_new cacheSize) (\<lambda>l. Inr (cache_new (lru_and (uniqueExpire_strategy getExpiration) l tindex_new)))"

definition uniqueAccessExpireLRUCache_new :: "('v \<Rightarrow> int) \<Rightarrow> nat \<Rightarrow> ('k::linorder, 'v, ('k, 'v, 'k lru + ('k, int) tindex) collection) cache result" where
  "uniqueAccessExpireLRUCache_new getTimeout cacheSize =
    rbind (lru_new cacheSize) (\<lambda>l. Inr (cache_new (lru_and (uniqueAccess_strategy getTimeout) l tindex_new)))"

section \<open>The combined caches\<close>

text \<open>\<open>both\<close>: the two strategies track the keys \<open>K\<close>, and the LRU strategy has size \<open>n\<close>.\<close>

definition both :: "('k::linorder, 'v, 't) strategy \<Rightarrow> ('t \<Rightarrow> 'k set \<Rightarrow> bool) \<Rightarrow> nat \<Rightarrow>
    ('k, 'v, 'k lru + 't) collection \<Rightarrow> 'k set \<Rightarrow> bool" where
  "both S rep n x K \<longleftrightarrow> (\<exists>l e. x = lru_and S l e \<and> lru_rep l K \<and> l_size l = n \<and> rep e K)"

lemma left_sel:
  "onAdd (left_strategy S) now k v (Inl s) = Inl (onAdd S now k v s)"
  "onUpdate (left_strategy S) now k v (Inl s) = Inl (onUpdate S now k v s)"
  "onRemove (left_strategy S) k (Inl s) = Inl (onRemove S k s)"
  "onGet (left_strategy S) now k (Inl s) = Inl (onGet S now k s)"
  "onClear (left_strategy S) (Inl s) = Inl (onClear S s)"
  "onIsValid (left_strategy S) now k valid (Inl s) = onIsValid S now k valid s"
  "onReplace (left_strategy S) now del (Inl s) = onReplace S now del s"
  by (simp_all add: left_strategy_def)

lemma right_sel:
  "onAdd (right_strategy S) now k v (Inr s) = Inr (onAdd S now k v s)"
  "onUpdate (right_strategy S) now k v (Inr s) = Inr (onUpdate S now k v s)"
  "onRemove (right_strategy S) k (Inr s) = Inr (onRemove S k s)"
  "onGet (right_strategy S) now k (Inr s) = Inr (onGet S now k s)"
  "onClear (right_strategy S) (Inr s) = Inr (onClear S s)"
  "onIsValid (right_strategy S) now k valid (Inr s) = onIsValid S now k valid s"
  "onReplace (right_strategy S) now del (Inr s) = onReplace S now del s"
  by (simp_all add: right_strategy_def)

lemma lru_fields:
  "onAdd lru_strategy = lru_onAdd" "onRemove lru_strategy = lru_onRemove" "onGet lru_strategy = lru_onGet"
  "onClear lru_strategy = lru_onClear" "onIsValid lru_strategy = lru_onIsValid" "onReplace lru_strategy = lru_onReplace"
  by (simp_all add: lru_strategy_def)

lemma lru_and_ops:
  "onAdd coll_strategy now k v (lru_and S l e) = lru_and S (lru_onAdd now k v l) (onAdd S now k v e)"
  "onUpdate coll_strategy now k v (lru_and S l e) =
    lru_and S (lru_onAdd now k v (lru_onRemove k l)) (onAdd S now k v (onRemove S k e))"
  "onRemove coll_strategy k (lru_and S l e) = lru_and S (lru_onRemove k l) (onRemove S k e)"
  "onGet coll_strategy now k (lru_and S l e) = lru_and S (lru_onGet now k l) (onGet S now k e)"
  "onClear coll_strategy (lru_and S l e) = lru_and S (lru_onClear l) (onClear S e)"
  "onIsValid coll_strategy now k True (lru_and S l e) \<longleftrightarrow> lru_onIsValid now k True l \<and> onIsValid S now k True e"
  "onReplace coll_strategy now del (lru_and S l e) = onReplace S now (lru_onReplace now del l) e"
  by (simp_all add: coll_sel lru_and_def coll_pushBack_def left_sel right_sel lru_fields)

lemma bothI: "lru_rep l K \<Longrightarrow> l_size l = n \<Longrightarrow> rep e K \<Longrightarrow> both S rep n (lru_and S l e) K"
  by (auto simp: both_def)

locale lru_combination = cache_strategy S rep
  for S :: "('k::linorder, 'v, 't) strategy" and rep :: "'t \<Rightarrow> 'k set \<Rightarrow> bool" +
  fixes n :: nat

sublocale lru_combination \<subseteq> both: cache_strategy coll_strategy "both S rep n"
proof
  fix x :: "('k, 'v, 'k lru + 't) collection" and K now k v and del :: "'k list"
  assume "both S rep n x K"
  then obtain l e where x: "x = lru_and S l e" and r: "lru_rep l K" "l_size l = n" "rep e K" by (auto simp: both_def)
  show "both S rep n (onAdd coll_strategy now k v x) (insert k K)" if "k \<notin> K"
    unfolding x lru_and_ops using lru_onAdd_rep[OF r(1) that, of now v] r(2) add_rep[OF r(3) that] by (intro bothI) simp_all
  show "both S rep n (onRemove coll_strategy k x) (K - {k})"
    unfolding x lru_and_ops using lru_onRemove_rep[OF r(1), of k] r(2) remove_rep[OF r(3)] by (intro bothI) simp_all
  show "both S rep n (onUpdate coll_strategy now k v x) K" if "k \<in> K"
    unfolding x lru_and_ops
    using lru_onUpdate_rep[OF r(1) that, of now v] r(2) add_rep[OF remove_rep[OF r(3)], of k k now v] that
    by (intro bothI) (simp_all add: default_onUpdate_def insert_absorb)
  show "both S rep n (onGet coll_strategy now k x) K"
    unfolding x lru_and_ops using lru_onGet_rep[OF r(1), of now k] r(2) get_rep[OF r(3)] by (intro bothI) simp_all
  show "both S rep n (onClear coll_strategy x) {}"
    unfolding x lru_and_ops using lru.clear_rep[OF r(1)] r(2) clear_rep[OF r(3)]
    by (intro bothI) (simp_all add: lru_fields lru_onClear_def)
  assume del: "sorted del" "distinct del"
  note d = lru_onReplace_rep[OF r(1) del, of now]
  have "set (drop (l_size l) (lru_order l)) \<subseteq> K" using lru_order_rep(1)[OF r(1)] set_drop_subset by metis
  then show "sorted (onReplace coll_strategy now del x) \<and> distinct (onReplace coll_strategy now del x) \<and>
      set del \<subseteq> set (onReplace coll_strategy now del x) \<and> set (onReplace coll_strategy now del x) \<subseteq> set del \<union> K"
    unfolding x lru_and_ops using replace_rep[OF r(3) d(1,2), of now] d(3) by auto
qed

context lru_combination
begin

text \<open>What the cache keeps after a replacement fits the LRU strategy's size.\<close>

lemma replace_bound:
  assumes "cache_ok (both S rep n) c"
  shows "length (c_data (cache_doReplace coll_strategy now c)) \<le> n"
proof -
  let ?c = "cache_doReplace coll_strategy now c" and ?D = "set (onReplace coll_strategy now [] (c_strategy c))"
  from assms obtain l e where x: "c_strategy c = lru_and S l e" and r: "lru_rep l (dom (map_of (c_data c)))" "l_size l = n" "rep e (dom (map_of (c_data c)))"
    unfolding cache_ok_def both_def by blast
  note d = lru_onReplace_rep[OF r(1), of "[]" now]
  have D: "set (drop n (lru_order l)) \<subseteq> ?D"
    unfolding x lru_and_ops using replace_rep[OF r(3) d(1,2), of now] d(3) r(2) by auto
  have "dom (map_of (c_data ?c)) = dom (map_of (c_data c)) - ?D"
    unfolding both.doReplace_ok(2)[OF assms] by auto
  also have "\<dots> \<subseteq> set (take n (lru_order l))"
    unfolding lru_order_rep(1)[OF r(1), symmetric] using D set_append[of "take n (lru_order l)" "drop n (lru_order l)"]
    unfolding append_take_drop_id by blast
  finally have "card (dom (map_of (c_data ?c))) \<le> card (set (take n (lru_order l)))" by (intro card_mono) simp_all
  also have "\<dots> \<le> n" using card_length[of "take n (lru_order l)"] by simp
  finally show ?thesis using both.doReplace_ok(1)[OF assms] smap_length[of "c_data ?c"] by (simp add: cache_ok_def)
qed

lemma remove_length: "cache_ok (both S rep n) c \<Longrightarrow> length (c_data (cache_doRemove coll_strategy k c)) \<le> length (c_data c)"
  by (auto simp: cache_doRemove_def cache_notify_def smap_erase_def Let_def split: option.splits)

lemma step_bound:
  assumes "cache_ok (both S rep n) c" "length (c_data c) \<le> n"
  shows "length (c_data (cache_step coll_strategy clk op c)) \<le> n"
proof -
  have add: "length (c_data (cache_doAdd coll_strategy clk k v c)) \<le> n" for k v
  proof -
    note r = both.doRemove_ok[OF assms(1), of k]
    have "map_of (c_data (cache_doRemove coll_strategy k c)) k = None" by (simp add: r(2))
    from replace_bound[OF both.insert_ok(1)[OF r(1) this]] show ?thesis unfolding both.doAdd_eq .
  qed
  have upd: "length (c_data (cache_doUpdate coll_strategy clk k v c)) \<le> n" for k v
  proof (cases "map_of (c_data c) k")
    case None
    from replace_bound[OF both.insert_ok(1)[OF assms(1) None, where now = "clk 0" and v = v], of "clk 1"] show ?thesis
      using None by (simp add: cache_doUpdate_def Let_def cache_notify_def)
  next
    case (Some w)
    then have "map_of (c_data c) k \<noteq> None" by simp
    from replace_bound[OF both.assign_ok(1)[OF assms(1) this, where now = "clk 0" and v = v], of "clk 1"] show ?thesis
      using Some by (simp add: cache_doUpdate_def Let_def cache_notify_def)
  qed
  have rem: "length (c_data (cache_doRemove coll_strategy k c)) \<le> n" for k
    using remove_length[OF assms(1), of k] assms(2) by simp
  show ?thesis
  proof (cases op)
    case (AddPtr k p)
    then show ?thesis using add rem by (cases p) (simp_all add: both.doAddPtr_eq)
  next
    case (UpdatePtr k p)
    then show ?thesis using upd assms(2) by (cases p) (simp_all add: both.doUpdatePtr_eq)
  next
    case (Get k)
    then show ?thesis
      using remove_length[OF both.get_notify_ok[OF assms(1), of "clk 0" k], of k] assms(2)
      by (auto simp: cache_doGet_def Let_def cache_notify_def split: option.splits)
  qed (use add upd rem replace_bound[OF assms(1)] in \<open>simp_all add: cache_doClear_def\<close>)
qed

lemma run_bound:
  "cache_ok (both S rep n) c \<Longrightarrow> length (c_data c) \<le> n \<Longrightarrow>
    cache_ok (both S rep n) (fold (\<lambda>(clk, op). cache_step coll_strategy clk op) ops c) \<and>
    length (c_data (fold (\<lambda>(clk, op). cache_step coll_strategy clk op) ops c)) \<le> n"
proof (induction ops arbitrary: c)
  case (Cons p ops)
  from Cons.IH[OF both.step_ok[OF Cons.prems(1), of "fst p" "snd p"] step_bound[OF Cons.prems, of "fst p" "snd p"]]
  show ?case by (cases p) simp
qed simp

end

text \<open>
  The specification of the combined caches: the entries, most recently used first, each with its value and the time (and the extra
  data) kept for it.  A replacement keeps the \<open>n\<close> first entries, less those that are overdue.  The two times of an operation are the clock
  readings of its two callbacks.
\<close>

definition keep :: "nat \<Rightarrow> (int \<times> 'x \<Rightarrow> bool) \<Rightarrow> ('k \<times> 'v \<times> int \<times> 'x) list \<Rightarrow> ('k \<times> 'v \<times> int \<times> 'x) list" where
  "keep n stale l = filter (\<lambda>(k, v, p). \<not> stale p) (take n l)"

definition without :: "'k \<Rightarrow> ('k \<times> 'a) list \<Rightarrow> ('k \<times> 'a) list" where
  "without k l = filter (\<lambda>p. fst p \<noteq> k) l"

fun recent_spec :: "nat \<Rightarrow> (int \<Rightarrow> 'v \<Rightarrow> int \<times> 'x) \<Rightarrow> (int \<Rightarrow> int \<times> 'x \<Rightarrow> int \<times> 'x) \<Rightarrow> (int \<Rightarrow> int \<times> 'x \<Rightarrow> bool) \<Rightarrow> (int \<Rightarrow> int \<times> 'x \<Rightarrow> bool) \<Rightarrow>
    int \<times> int \<Rightarrow> ('k, 'v) cache_op \<Rightarrow> ('k \<times> 'v \<times> int \<times> 'x) list \<Rightarrow> ('k \<times> 'v \<times> int \<times> 'x) list" where
  "recent_spec n stamp touch invalid stale (t0, t1) (Add k v) l = keep n (stale t1) ((k, v, stamp t0 v) # without k l)"
| "recent_spec n stamp touch invalid stale (t0, t1) (AddPtr k p) l =
    (case p of None \<Rightarrow> without k l | Some v \<Rightarrow> keep n (stale t1) ((k, v, stamp t0 v) # without k l))"
| "recent_spec n stamp touch invalid stale (t0, t1) (Update k v) l = keep n (stale t1) ((k, v, stamp t0 v) # without k l)"
| "recent_spec n stamp touch invalid stale (t0, t1) (UpdatePtr k p) l =
    (case p of None \<Rightarrow> l | Some v \<Rightarrow> keep n (stale t1) ((k, v, stamp t0 v) # without k l))"
| "recent_spec n stamp touch invalid stale (t0, t1) (Remove k) l = without k l"
| "recent_spec n stamp touch invalid stale (t0, t1) (Get k) l =
    (case map_of l k of None \<Rightarrow> l
     | Some (v, p) \<Rightarrow> if invalid t1 (touch t0 p) then without k l else (k, v, touch t0 p) # without k l)"
| "recent_spec n stamp touch invalid stale (t0, t1) Clear l = []"
| "recent_spec n stamp touch invalid stale (t0, t1) ForceReplace l = keep n (stale t0) l"

text \<open>The two strategies of the collection, and the entries of the cache in the order of the first.\<close>

definition lru_part :: "('k, 'v, 'k lru + 't) collection \<Rightarrow> 'k lru" where
  "lru_part x = projl (snd (x ! 0))"

definition time_part :: "('k, 'v, 'k lru + 't) collection \<Rightarrow> 't" where
  "time_part x = projr (snd (x ! 1))"

abbreviation time_map :: "('t \<Rightarrow> 'k \<rightharpoonup> int \<times> 'x) \<Rightarrow> ('k, 'v, ('k, 'v, 'k lru + 't) collection) cache \<Rightarrow> ('k, 'v, 'x) timed_map" where
  "time_map entry \<equiv> timed_abs (\<lambda>x. entry (time_part x))"

abbreviation recency :: "('k, 'v, ('k, 'v, 'k lru + 't) collection) cache \<Rightarrow> 'k list" where
  "recency c \<equiv> lru_order (lru_part (c_strategy c))"

definition recent_abs :: "('t \<Rightarrow> 'k \<rightharpoonup> int \<times> 'x) \<Rightarrow> ('k, 'v, ('k, 'v, 'k lru + 't) collection) cache \<Rightarrow> ('k \<times> 'v \<times> int \<times> 'x) list" where
  "recent_abs entry c = lru_view (time_map entry c) (recency c)"

text \<open>
  What a cache promises when the specification has the entries \<open>l\<close>: it holds these, at most \<open>n\<close>, its events tell a listener the contents, and \<^verbatim>\<open>has\<close>
  and \<^verbatim>\<open>get\<close> find an entry exactly while it is valid.
\<close>

definition promises :: "('t \<Rightarrow> 'k \<rightharpoonup> int \<times> 'x) \<Rightarrow> nat \<Rightarrow> (int \<Rightarrow> int \<times> 'x \<Rightarrow> int \<times> 'x) \<Rightarrow> (int \<Rightarrow> int \<times> 'x \<Rightarrow> bool) \<Rightarrow>
    ('k::linorder, 'v, ('k, 'v, 'k lru + 't) collection) cache \<Rightarrow> ('k \<times> 'v \<times> int \<times> 'x) list \<Rightarrow> bool" where
  "promises entry n touch invalid c l \<longleftrightarrow> recent_abs entry c = l \<and> length (c_data c) \<le> n \<and>
    map_of (c_data c) = map_of (map (\<lambda>(k, v, p). (k, v)) l) \<and> fold replay (c_events c) Map.empty = map_of (c_data c) \<and>
    (\<forall>t k. cache_doHas coll_strategy (\<lambda>_. t) k c \<longleftrightarrow> (case map_of l k of None \<Rightarrow> False | Some (v, p) \<Rightarrow> \<not> invalid t p)) \<and>
    (\<forall>t0 t1 k. fst (cache_doGet coll_strategy (at_times (t0, t1)) k c) =
      (case map_of l k of None \<Rightarrow> None | Some (v, p) \<Rightarrow> if invalid t1 (touch t0 p) then None else Some v))"

lemma parts [simp]: "lru_part (lru_and S l e) = l" "time_part (lru_and S l e) = e"
  by (simp_all add: lru_part_def time_part_def lru_and_def coll_pushBack_def)

lemma bothD:
  assumes "both S rep n x K"
  shows "x = lru_and S (lru_part x) (time_part x)" "lru_rep (lru_part x) K" "l_size (lru_part x) = n" "rep (time_part x) K"
  using assms by (auto simp: both_def)

lemma view_keep:
  assumes "distinct ks" "\<forall>k \<in> set ks. m k \<noteq> None" "\<forall>k \<in> set ks. k \<in> D \<longleftrightarrow> k \<in> set (drop n ks) \<or> stale (snd (the (m k)))"
  shows "filter (\<lambda>p. fst p \<notin> D) (lru_view m ks) = keep n stale (lru_view m ks)"
proof -
  have d: "set (take n ks) \<inter> set (drop n ks) = {}" using assms(1) by (metis append_take_drop_id distinct_append)
  have "filter (\<lambda>k. k \<notin> D) (take n ks) = filter (\<lambda>k. \<not> stale (snd (the (m k)))) (take n ks)"
    using assms(3) d by (intro filter_cong) (auto dest: in_set_takeD)
  moreover have "filter (\<lambda>k. k \<notin> D) (drop n ks) = []" using assms(3) by (auto simp: filter_empty_conv dest: in_set_dropD)
  ultimately have "filter (\<lambda>k. k \<notin> D) ks = filter (\<lambda>k. \<not> stale (snd (the (m k)))) (take n ks)"
    using filter_append[of "\<lambda>k. k \<notin> D" "take n ks" "drop n ks"] by simp
  then have "lru_view m (filter (\<lambda>k. k \<notin> D) ks) = lru_view m (filter (\<lambda>k. \<not> stale (snd (the (m k)))) (take n ks))" by simp
  also have "\<dots> = keep n stale (lru_view m ks)" by (simp add: lru_view_def keep_def take_map filter_map o_def case_prod_beta)
  finally show ?thesis by (simp add: lru_view_filter)
qed

locale timed_lru = lru_combination S rep n + timed_strategy S rep entry stamp touch invalid stale
  for S :: "('k::linorder, 'v, 't) strategy" and rep :: "'t \<Rightarrow> 'k set \<Rightarrow> bool" and n :: nat and entry :: "'t \<Rightarrow> 'k \<rightharpoonup> int \<times> 'x"
    and stamp touch invalid stale +
  assumes replace_more: "rep s K \<Longrightarrow> sorted del \<Longrightarrow> distinct del \<Longrightarrow>
      set (onReplace S (\<lambda>_. t) del s) = set del \<union> {k. \<exists>p. entry s k = Some p \<and> stale t p}"
begin

abbreviation ok :: "('k, 'v, ('k, 'v, 'k lru + 't) collection) cache \<Rightarrow> bool" where
  "ok \<equiv> cache_ok (both S rep n)"

lemma ok_parts:
  assumes "ok c"
  shows "c_strategy c = lru_and S (lru_part (c_strategy c)) (time_part (c_strategy c))" "lru_rep (lru_part (c_strategy c)) (dom (map_of (c_data c)))"
    "l_size (lru_part (c_strategy c)) = n" "rep (time_part (c_strategy c)) (dom (map_of (c_data c)))"
  using assms bothD[of S rep n "c_strategy c" "dom (map_of (c_data c))"] unfolding cache_ok_def by blast+

lemma recency_set: "ok c \<Longrightarrow> set (recency c) = dom (map_of (c_data c)) \<and> distinct (recency c)"
  using lru_order_rep(1,2)[OF ok_parts(2)] by blast

lemma recent_lookup: "ok c \<Longrightarrow> map_of (recent_abs entry c) k = time_map entry c k"
  unfolding recent_abs_def lru_view_lookup using recency_set[of c] by (auto simp: timed_abs_def dom_def)

lemma comb_remove:
  assumes "ok c"
  shows "recent_abs entry (cache_doRemove coll_strategy k c) = without k (recent_abs entry c)"
proof (cases "map_of (c_data c) k")
  case None
  then have "k \<notin> set (recency c)" using recency_set[OF assms] by auto
  then have f: "filter (\<lambda>x. x \<noteq> k) (recency c) = recency c" by (auto simp: filter_id_conv)
  have "without k (recent_abs entry c) = recent_abs entry c"
    using lru_view_filter[of "time_map entry c" "\<lambda>x. x \<noteq> k" "recency c"] unfolding without_def recent_abs_def f by (rule sym)
  then show ?thesis using None by (simp add: cache_doRemove_def)
next
  case (Some v)
  note p = ok_parts[OF assms]
  let ?c = "cache_doRemove coll_strategy k c"
  have s: "c_strategy ?c = lru_and S (lru_onRemove k (lru_part (c_strategy c))) (onRemove S k (time_part (c_strategy c)))"
    using Some lru_and_ops(3)[of k S "lru_part (c_strategy c)" "time_part (c_strategy c)"] p(1) by (simp add: cache_doRemove_def cache_notify_def)
  have "recency ?c = filter (\<lambda>x. x \<noteq> k) (recency c)" unfolding s using lru_onRemove_rep(2)[OF p(2)] by simp
  moreover have "time_map entry ?c = (time_map entry c)(k := None)"
    using both.doRemove_ok(2)[OF assms, of k] entry_remove[OF p(4), of k] unfolding timed_abs_def s by (auto simp: fun_eq_iff)
  ultimately show ?thesis unfolding recent_abs_def without_def by (simp add: lru_view_upd)
qed

lemma comb_removes:
  "ok c \<Longrightarrow> recent_abs entry (fold (cache_doRemove coll_strategy) ks c) = filter (\<lambda>p. fst p \<notin> set ks) (recent_abs entry c)"
proof (induction ks arbitrary: c)
  case (Cons k ks)
  have "recent_abs entry (fold (cache_doRemove coll_strategy) (k # ks) c) = filter (\<lambda>p. fst p \<notin> set ks) (without k (recent_abs entry c))"
    using Cons.IH[OF both.doRemove_ok(1)[OF Cons.prems, of k]] comb_remove[OF Cons.prems, of k] by simp
  also have "\<dots> = filter (\<lambda>p. fst p \<notin> set (k # ks)) (recent_abs entry c)" unfolding without_def filter_filter by (rule filter_cong) auto
  finally show ?case .
qed simp

lemma comb_replace:
  assumes "ok c"
  shows "recent_abs entry (cache_doReplace coll_strategy (\<lambda>_. t) c) = keep n (stale t) (recent_abs entry c)"
proof -
  note p = ok_parts[OF assms]
  let ?l = "lru_part (c_strategy c)" and ?e = "time_part (c_strategy c)" and ?D = "onReplace coll_strategy (\<lambda>_. t) [] (c_strategy c)"
  note d = lru_onReplace_rep[OF p(2), of "[]" "\<lambda>_. t"]
  have D: "set ?D = set (drop n (recency c)) \<union> {k. \<exists>q. entry ?e k = Some q \<and> stale t q}"
    using replace_more[OF p(4) d(1,2), of t] d(3) p(1,3) lru_and_ops(7)[of "\<lambda>_. t" "[]" S ?l ?e] by simp
  have m: "\<exists>v q. time_map entry c k = Some (v, q) \<and> entry ?e k = Some q" if "k \<in> set (recency c)" for k
  proof -
    have "k \<in> dom (map_of (c_data c))" "k \<in> dom (entry ?e)" using that recency_set[OF assms] entry_dom[OF p(4)] by auto
    then show ?thesis by (auto simp: timed_abs_def)
  qed
  have "\<forall>k \<in> set (recency c). k \<in> set ?D \<longleftrightarrow> k \<in> set (drop n (recency c)) \<or> stale t (snd (the (time_map entry c k)))"
  proof
    fix k assume "k \<in> set (recency c)"
    from m[OF this] obtain v q where "time_map entry c k = Some (v, q)" "entry ?e k = Some q" by blast
    then show "k \<in> set ?D \<longleftrightarrow> k \<in> set (drop n (recency c)) \<or> stale t (snd (the (time_map entry c k)))" unfolding D by (cases q) simp
  qed
  moreover have "\<forall>k \<in> set (recency c). time_map entry c k \<noteq> None" using m by force
  ultimately show ?thesis using view_keep[OF conjunct2[OF recency_set[OF assms]]]
    unfolding cache_doReplace_def comb_removes[OF assms] recent_abs_def[of entry c] by blast
qed

text \<open>A value is stored for a key that the order lists first.\<close>

lemma comb_store:
  assumes "ok c" "c_strategy c' = lru_and S l e" "lru_order l = k # filter (\<lambda>x. x \<noteq> k) (recency c)" "entry e = (entry (time_part (c_strategy c)))(k \<mapsto> q)"
    "map_of (c_data c') = (map_of (c_data c))(k \<mapsto> v)"
  shows "recent_abs entry c' = (k, v, q) # without k (recent_abs entry c)"
proof -
  have "time_map entry c' = (time_map entry c)(k \<mapsto> (v, q))" unfolding timed_abs_def assms(2,5) parts assms(4) by (auto simp: fun_eq_iff)
  then show ?thesis unfolding recent_abs_def assms(2) parts assms(3) lru_view_cons without_def by (simp add: lru_view_upd)
qed

lemma comb_add:
  assumes "ok c"
  shows "recent_abs entry (cache_doAdd coll_strategy (at_times (t0, t1)) k v c) = keep n (stale t1) ((k, v, stamp t0 v) # without k (recent_abs entry c))"
proof -
  define c1 where "c1 = cache_doRemove coll_strategy k c"
  note d = both.doRemove_ok[OF assms, of k, folded c1_def]
  have none: "map_of (c_data c1) k = None" by (simp add: d(2))
  then have k: "k \<notin> dom (map_of (c_data c1))" by auto
  note p = ok_parts[OF d(1)] and i = both.insert_ok[OF d(1) none, where now = "\<lambda>_. t0" and v = v]
  let ?a = "(cache_notify (onAdd coll_strategy (\<lambda>_. t0) k v) (AddEvent k v) c1)\<lparr>c_data := smap_insert k v (c_data c1)\<rparr>"
  have s: "c_strategy ?a = lru_and S (lru_onAdd (\<lambda>_. t0) k v (lru_part (c_strategy c1))) (onAdd S (\<lambda>_. t0) k v (time_part (c_strategy c1)))"
    using lru_and_ops(1)[of "\<lambda>_. t0" k v S "lru_part (c_strategy c1)" "time_part (c_strategy c1)"] p(1) by (simp add: cache_notify_def)
  have f: "filter (\<lambda>x. x \<noteq> k) (recency c1) = recency c1" using recency_set[OF d(1)] k by (auto simp: filter_id_conv)
  have "recent_abs entry ?a = (k, v, stamp t0 v) # without k (recent_abs entry c1)"
    by (rule comb_store[OF d(1) s]) (use lru_onAdd_rep(2)[OF p(2) k] f entry_add[OF p(4) k] i(2) in simp_all)
  then have "recent_abs entry ?a = (k, v, stamp t0 v) # without k (recent_abs entry c)" unfolding c1_def comb_remove[OF assms] by (simp add: without_def)
  then show ?thesis unfolding both.doAdd_eq c1_def[symmetric] using comb_replace[OF i(1), of t1] by (simp add: at_times_def)
qed

lemma comb_update:
  assumes "ok c"
  shows "recent_abs entry (cache_doUpdate coll_strategy (at_times (t0, t1)) k v c) = keep n (stale t1) ((k, v, stamp t0 v) # without k (recent_abs entry c))"
proof (cases "map_of (c_data c) k")
  case None
  then have "cache_doUpdate coll_strategy (at_times (t0, t1)) k v c = cache_doAdd coll_strategy (at_times (t0, t1)) k v c"
    by (simp add: cache_doUpdate_def cache_doAdd_def cache_doRemove_def Let_def)
  then show ?thesis using comb_add[OF assms] by simp
next
  case (Some w)
  then have k: "k \<in> dom (map_of (c_data c))" "map_of (c_data c) k \<noteq> None" by auto
  note p = ok_parts[OF assms] and i = both.assign_ok[OF assms k(2), where now = "\<lambda>_. t0" and v = v]
  let ?l = "lru_part (c_strategy c)" and ?e = "time_part (c_strategy c)"
  let ?a = "(cache_notify (onUpdate coll_strategy (\<lambda>_. t0) k v) (UpdateEvent k v) c)\<lparr>c_data := smap_assign k v (c_data c)\<rparr>"
  have s: "c_strategy ?a = lru_and S (lru_onAdd (\<lambda>_. t0) k v (lru_onRemove k ?l)) (onAdd S (\<lambda>_. t0) k v (onRemove S k ?e))"
    using lru_and_ops(2)[of "\<lambda>_. t0" k v S ?l ?e] p(1) by (simp add: cache_notify_def)
  have "entry (onAdd S (\<lambda>_. t0) k v (onRemove S k ?e)) = (entry ?e)(k \<mapsto> stamp t0 v)"
    using entry_add[OF remove_rep[OF p(4), of k], of k t0 v] entry_remove[OF p(4), of k] by simp
  then have "recent_abs entry ?a = (k, v, stamp t0 v) # without k (recent_abs entry c)"
    by (intro comb_store[OF assms s]) (use lru_onUpdate_rep(2)[OF p(2) k(1), of "\<lambda>_. t0" v] i(2) in \<open>simp_all add: default_onUpdate_def\<close>)
  then show ?thesis using comb_replace[OF i(1), of t1] Some by (simp add: cache_doUpdate_def Let_def at_times_def cache_notify_def)
qed

lemma comb_get_some:
  assumes "ok c" and Some: "map_of (c_data c) k = Some v"
  shows "fst (cache_doGet coll_strategy (at_times (t0, t1)) k c) =
      (case map_of (recent_abs entry c) k of None \<Rightarrow> None | Some (v, q) \<Rightarrow> if invalid t1 (touch t0 q) then None else Some v)"
    "recent_abs entry (snd (cache_doGet coll_strategy (at_times (t0, t1)) k c)) =
      recent_spec n stamp touch invalid stale (t0, t1) (Get k) (recent_abs entry c)"
proof -
  have k: "k \<in> dom (map_of (c_data c))" using Some by auto
  note p = ok_parts[OF assms(1)]
  let ?l = "lru_part (c_strategy c)" and ?e = "time_part (c_strategy c)"
  let ?c = "cache_notify (onGet coll_strategy (\<lambda>_. t0) k) (GetEvent k) c" and ?q = "touch t0 (the (entry ?e k))"
  note g = both.get_notify_ok[OF assms(1), of "\<lambda>_. t0" k]
  have s: "c_strategy ?c = lru_and S (lru_onGet (\<lambda>_. t0) k ?l) (onGet S (\<lambda>_. t0) k ?e)"
    using lru_and_ops(4)[of "\<lambda>_. t0" k S ?l ?e] p(1) by (simp add: cache_notify_def)
  have a: "recent_abs entry ?c = (k, v, ?q) # without k (recent_abs entry c)"
    by (rule comb_store[OF assms(1) s]) (use lru_onGet_rep(3)[OF p(2), of "\<lambda>_. t0" k] k entry_get[OF p(4) k] Some in \<open>simp_all add: cache_notify_def fun_upd_idem\<close>)
  have r: "lru_rep (lru_onGet (\<lambda>_. t0) k ?l) (dom (map_of (c_data c)))" "rep (onGet S (\<lambda>_. t0) k ?e) (dom (map_of (c_data c)))"
    using lru_onGet_rep(1)[OF p(2)] get_rep[OF p(4)] by auto
  have "lru_onIsValid (\<lambda>_. t1) k True (lru_onGet (\<lambda>_. t0) k ?l)" using lru_repD(3)[OF r(1)] k by (auto simp: lru_onIsValid_def)
  then have "onIsValid coll_strategy (\<lambda>_. t1) k True (c_strategy ?c) \<longleftrightarrow> \<not> invalid t1 ?q"
    unfolding s lru_and_ops using valid_entry[OF r(2) k, of t1] entry_get[OF p(4) k, of t0] by simp
  then have d: "cache_doGet coll_strategy (at_times (t0, t1)) k c = (if invalid t1 ?q then (None, cache_doRemove coll_strategy k ?c) else (Some v, ?c))"
    using Some by (simp add: cache_doGet_def Let_def at_times_def)
  have m: "map_of (recent_abs entry c) k = Some (v, the (entry ?e k))" using Some recent_lookup[OF assms(1), of k] by (simp add: timed_abs_def)
  show "fst (cache_doGet coll_strategy (at_times (t0, t1)) k c) =
      (case map_of (recent_abs entry c) k of None \<Rightarrow> None | Some (v, q) \<Rightarrow> if invalid t1 (touch t0 q) then None else Some v)" unfolding d m by simp
  show "recent_abs entry (snd (cache_doGet coll_strategy (at_times (t0, t1)) k c)) =
      recent_spec n stamp touch invalid stale (t0, t1) (Get k) (recent_abs entry c)"
    unfolding d recent_spec.simps m using a comb_remove[OF g, of k] by (simp add: without_def)
qed

lemma comb_get:
  assumes "ok c"
  shows "fst (cache_doGet coll_strategy (at_times (t0, t1)) k c) =
      (case map_of (recent_abs entry c) k of None \<Rightarrow> None | Some (v, q) \<Rightarrow> if invalid t1 (touch t0 q) then None else Some v) \<and>
    recent_abs entry (snd (cache_doGet coll_strategy (at_times (t0, t1)) k c)) =
      recent_spec n stamp touch invalid stale (t0, t1) (Get k) (recent_abs entry c)"
proof (cases "map_of (c_data c) k")
  case None then show ?thesis using recent_lookup[OF assms, of k] by (simp add: cache_doGet_def timed_abs_def)
next
  case (Some v) show ?thesis using comb_get_some[OF assms Some, of t0 t1] by blast
qed

lemma comb_has:
  assumes "ok c"
  shows "cache_doHas coll_strategy (\<lambda>_. t) k c \<longleftrightarrow> (case map_of (recent_abs entry c) k of None \<Rightarrow> False | Some (v, q) \<Rightarrow> \<not> invalid t q)"
proof -
  note p = ok_parts[OF assms(1)]
  have "onIsValid coll_strategy (\<lambda>_. t) k True (c_strategy c) \<longleftrightarrow> \<not> invalid t (the (entry (time_part (c_strategy c)) k))" if "k \<in> dom (map_of (c_data c))"
    using lru_and_ops(6)[of "\<lambda>_. t" k S "lru_part (c_strategy c)" "time_part (c_strategy c)"] p(1) valid_entry[OF p(4) that, of t] lru_repD(3)[OF p(2)] that
    by (auto simp: lru_onIsValid_def)
  then show ?thesis unfolding recent_lookup[OF assms(1)] by (cases "map_of (c_data c) k") (auto simp: cache_doHas_def timed_abs_def)
qed

lemma comb_step:
  assumes "ok c"
  shows "recent_abs entry (cache_step coll_strategy (at_times ts) op c) = recent_spec n stamp touch invalid stale ts op (recent_abs entry c)"
proof (cases ts)
  case (Pair t0 t1)
  show ?thesis
  proof (cases op)
    case (AddPtr k p)
    then show ?thesis using comb_add[OF assms(1)] comb_remove[OF assms] by (cases p) (simp_all add: Pair both.doAddPtr_eq)
  next
    case (UpdatePtr k p)
    then show ?thesis using comb_update[OF assms] by (cases p) (simp_all add: Pair both.doUpdatePtr_eq)
  next
    case (Get k)
    then show ?thesis using comb_get[OF assms] by (simp add: Pair)
  next
    case Clear
    have "ok (cache_doClear coll_strategy c)" using both.doClear_ok[OF assms] .
    then have "set (recency (cache_doClear coll_strategy c)) = {}" using recency_set[of "cache_doClear coll_strategy c"] by (simp add: cache_doClear_def)
    then show ?thesis using Clear by (simp add: Pair recent_abs_def lru_view_def)
  next
    case ForceReplace
    then show ?thesis using comb_replace[OF assms, of t0] by (simp add: Pair at_times_def)
  qed (use Pair comb_add[OF assms] comb_update[OF assms] comb_remove[OF assms] in simp_all)
qed

lemma comb_run:
  "ok c \<Longrightarrow> ok (timed_run coll_strategy ops c) \<and>
    recent_abs entry (timed_run coll_strategy ops c) = fold (\<lambda>(ts, op). recent_spec n stamp touch invalid stale ts op) ops (recent_abs entry c)"
proof (induction ops arbitrary: c)
  case (Cons p ops)
  from Cons.IH[OF both.step_ok[OF Cons.prems, of "at_times (fst p)" "snd p"]] comb_step[OF Cons.prems, of "fst p" "snd p"]
  show ?case by (cases p) (simp add: timed_run_def)
qed (simp add: timed_run_def)

lemma comb_promises:
  assumes "ok c" "length (c_data c) \<le> n" "recent_abs entry c = []"
  shows "promises entry n touch invalid (timed_run coll_strategy ops c) (fold (\<lambda>(ts, op). recent_spec n stamp touch invalid stale ts op) ops [])"
proof -
  let ?c = "timed_run coll_strategy ops c"
  have o: "ok ?c" "recent_abs entry ?c = fold (\<lambda>(ts, op). recent_spec n stamp touch invalid stale ts op) ops []" using comb_run[OF assms(1)] assms(3) by auto
  have "?c = fold (\<lambda>(clk, op). cache_step coll_strategy clk op) (map (\<lambda>(ts, op). (at_times ts, op)) ops) c"
    by (simp add: timed_run_def fold_map o_def split_def)
  then have "length (c_data ?c) \<le> n" using run_bound[OF assms(1,2)] by simp
  moreover have "map_of (c_data ?c) = map_of (map (\<lambda>(k, v, p). (k, v)) (recent_abs entry ?c))"
  proof
    fix k
    have "map_of (map (\<lambda>(k, v, p). (k, v)) (recent_abs entry ?c)) k = map_option fst (map_of (recent_abs entry ?c) k)"
      using map_of_map[of fst "recent_abs entry ?c"] by (simp add: split_def)
    then show "map_of (c_data ?c) k = map_of (map (\<lambda>(k, v, p). (k, v)) (recent_abs entry ?c)) k"
      using recent_lookup[OF o(1), of k] by (cases "map_of (c_data ?c) k") (simp_all add: timed_abs_def)
  qed
  ultimately show ?thesis unfolding promises_def o(2)[symmetric] using o(1) comb_has[OF o(1)] comb_get[OF o(1)] by (simp add: cache_ok_def)
qed

end

lemma replace_more_now:
  "tindex_rep s K \<Longrightarrow> sorted del \<Longrightarrow> distinct del \<Longrightarrow> set (expire_onReplace E (\<lambda>_. t) del s) = set del \<union> {k. \<exists>p. tindex_entry s k = Some p \<and> isElapsed t (fst p) E}"
  "tindex_rep s' K' \<Longrightarrow> sorted del \<Longrightarrow> distinct del \<Longrightarrow> set (unique_onReplace (\<lambda>_. t) del s') = set del \<union> {k. \<exists>p. tindex_entry s' k = Some p \<and> fst p < t}"
proof -
  show "set (expire_onReplace E (\<lambda>_. t) del s) = set del \<union> {k. \<exists>p. tindex_entry s k = Some p \<and> isElapsed t (fst p) E}" if "tindex_rep s K"
    unfolding expire_onReplace_def expire_replace_loop_now[OF tindex_repD(4)[OF that]] using tindex_entry_iff[OF that] by fastforce
  show "set (unique_onReplace (\<lambda>_. t) del s') = set del \<union> {k. \<exists>p. tindex_entry s' k = Some p \<and> fst p < t}"
    if "tindex_rep s' K'" "sorted del" "distinct del"
    using unique_replace_loop[OF that(2,3) tindex_repD(4)[OF that(1)], of t] tindex_entry_iff[OF that(1)] by (fastforce simp: unique_onReplace_def)
qed

interpretation elru: timed_lru "expire_strategy E" tindex_rep n tindex_entry "\<lambda>t v. (t, ())" "\<lambda>t p. p"
  "\<lambda>t p. isElapsed t (fst p) E" "\<lambda>t p. isElapsed t (fst p) E" for E n
  by unfold_locales (simp_all add: expire_sel replace_more_now)

interpretation alru: timed_lru "accessExpire_strategy E" tindex_rep n tindex_entry "\<lambda>t v. (t, ())"
  "\<lambda>t p. if isElapsed t (fst p) E then p else (t, ())" "\<lambda>t p. isElapsed t (fst p) E" "\<lambda>t p. isElapsed t (fst p) E" for E n
  by unfold_locales (simp_all add: expire_sel replace_more_now)

interpretation ulru: timed_lru "uniqueExpire_strategy getExpiration" tindex_rep n tindex_entry
  "\<lambda>t v. (getExpiration v, ())" "\<lambda>t p. p" "\<lambda>t p. fst p \<le> t" "\<lambda>t p. fst p < t" for getExpiration n
  by unfold_locales (simp_all add: expire_sel replace_more_now)

interpretation ualru: timed_lru "uniqueAccess_strategy getTimeout" tindex_rep n tindex_entry
  "\<lambda>t v. (t + getTimeout v, getTimeout v)" "\<lambda>t p. (t + snd p, snd p)" "\<lambda>t p. fst p \<le> t" "\<lambda>t p. fst p < t" for getTimeout n
  by unfold_locales (simp_all add: expire_sel replace_more_now)

lemma lru_newD: "lru_new n = Inr l \<Longrightarrow> lru_rep l {} \<and> l_size l = n"
  by (auto simp: lru_new_def lru_rep_def smap_wf_def split: if_splits)

lemma lru_and_new:
  "lru_rep l {} \<Longrightarrow> l_size l = n \<Longrightarrow> rep e {} \<Longrightarrow> cache_ok (both S rep n) (cache_new (lru_and S l e)) \<and>
    length (c_data (cache_new (lru_and S l e))) \<le> n \<and> recent_abs entry (cache_new (lru_and S l e)) = []"
  using bothI[of l "{}" n rep e S] lru_order_rep(1)[of l "{}"]
  by (simp add: cache_ok_def cache_new_def smap_wf_def recent_abs_def lru_view_def)

lemma combined_new_ok:
  "expireLRUCache_new n ms = Inr (E, c1) \<Longrightarrow> E = ms * 1000 \<and>
    cache_ok (both (expire_strategy E) tindex_rep n) c1 \<and> length (c_data c1) \<le> n \<and> recent_abs tindex_entry c1 = []"
  "accessExpireLRUCache_new n ms = Inr (E, c2) \<Longrightarrow> E = ms * 1000 \<and>
    cache_ok (both (accessExpire_strategy E) tindex_rep n) c2 \<and> length (c_data c2) \<le> n \<and> recent_abs tindex_entry c2 = []"
  "uniqueExpireLRUCache_new getExpiration n = Inr c3 \<Longrightarrow>
    cache_ok (both (uniqueExpire_strategy getExpiration) tindex_rep n) c3 \<and> length (c_data c3) \<le> n \<and> recent_abs tindex_entry c3 = []"
  "uniqueAccessExpireLRUCache_new getTimeout n = Inr c4 \<Longrightarrow>
    cache_ok (both (uniqueAccess_strategy getTimeout) tindex_rep n) c4 \<and> length (c_data c4) \<le> n \<and> recent_abs tindex_entry c4 = []"
proof -
  have e: "E = ms * 1000 \<and> s = tindex_new" if "expire_new ms = Inr (E, s)" for E s and ms :: int
    using that by (auto simp: expire_new_def Let_def split: if_splits)
  note d = expireLRUCache_new_def accessExpireLRUCache_new_def uniqueExpireLRUCache_new_def uniqueAccessExpireLRUCache_new_def
  show "expireLRUCache_new n ms = Inr (E, c1) \<Longrightarrow> E = ms * 1000 \<and>
      cache_ok (both (expire_strategy E) tindex_rep n) c1 \<and> length (c_data c1) \<le> n \<and> recent_abs tindex_entry c1 = []"
    "accessExpireLRUCache_new n ms = Inr (E, c2) \<Longrightarrow> E = ms * 1000 \<and>
      cache_ok (both (accessExpire_strategy E) tindex_rep n) c2 \<and> length (c_data c2) \<le> n \<and> recent_abs tindex_entry c2 = []"
    "uniqueExpireLRUCache_new getExpiration n = Inr c3 \<Longrightarrow>
      cache_ok (both (uniqueExpire_strategy getExpiration) tindex_rep n) c3 \<and> length (c_data c3) \<le> n \<and> recent_abs tindex_entry c3 = []"
    "uniqueAccessExpireLRUCache_new getTimeout n = Inr c4 \<Longrightarrow>
      cache_ok (both (uniqueAccess_strategy getTimeout) tindex_rep n) c4 \<and> length (c_data c4) \<le> n \<and> recent_abs tindex_entry c4 = []"
    by (auto simp: d rbind_eq_Inr lru_and_new tindex_new_rep split: prod.splits dest!: lru_newD e)
qed

lemma elapsed_iff: "isElapsed t s E \<longleftrightarrow> s + E \<le> t"
  by (auto simp: isElapsed_def Let_def)

text \<open>
  C31.  The four caches that combine LRU replacement with expiration: after any sequence of operations, each at its own clock readings, a cache holds
  exactly the entries of the specification, in the order of their last use, each with the time the operations gave it: the time it was added
  (ExpireLRUCache), was added or last read before it expired (AccessExpireLRUCache), the expiration its value asks for (UniqueExpireLRUCache), or the
  time it was added or last read plus its own timeout (UniqueAccessExpireLRUCache).  It never holds more than \<open>n\<close>; the least recently used
  and the expired ones are removed.  The events tell a listener the contents, and \<^verbatim>\<open>has\<close> and \<^verbatim>\<open>get\<close> find an entry exactly while it has not
  expired, where \<^verbatim>\<open>get\<close> of UniqueAccessExpireLRUCache moves the expiration before it looks at it.
\<close>

theorem combined_caches_correct:
  assumes "expireLRUCache_new n ms = Inr (E, c1)" "accessExpireLRUCache_new n ms = Inr (E, c2)"
    "uniqueExpireLRUCache_new getExpiration n = Inr c3" "uniqueAccessExpireLRUCache_new getTimeout n = Inr c4"
  shows "E = ms * 1000 \<and>
    promises tindex_entry n (\<lambda>t p. p) (\<lambda>t p. fst p + E \<le> t) (timed_run coll_strategy ops c1)
      (fold (\<lambda>(ts, op). recent_spec n (\<lambda>t v. (t, ())) (\<lambda>t p. p) (\<lambda>t p. fst p + E \<le> t) (\<lambda>t p. fst p + E \<le> t) ts op) ops []) \<and>
    promises tindex_entry n (\<lambda>t p. if fst p + E \<le> t then p else (t, ())) (\<lambda>t p. fst p + E \<le> t) (timed_run coll_strategy ops c2)
      (fold (\<lambda>(ts, op). recent_spec n (\<lambda>t v. (t, ())) (\<lambda>t p. if fst p + E \<le> t then p else (t, ())) (\<lambda>t p. fst p + E \<le> t)
        (\<lambda>t p. fst p + E \<le> t) ts op) ops []) \<and>
    promises tindex_entry n (\<lambda>t p. p) (\<lambda>t p. fst p \<le> t) (timed_run coll_strategy ops c3)
      (fold (\<lambda>(ts, op). recent_spec n (\<lambda>t v. (getExpiration v, ())) (\<lambda>t p. p) (\<lambda>t p. fst p \<le> t) (\<lambda>t p. fst p < t) ts op) ops []) \<and>
    promises tindex_entry n (\<lambda>t p. (t + snd p, snd p)) (\<lambda>t p. fst p \<le> t) (timed_run coll_strategy ops c4)
      (fold (\<lambda>(ts, op). recent_spec n (\<lambda>t v. (t + getTimeout v, getTimeout v)) (\<lambda>t p. (t + snd p, snd p)) (\<lambda>t p. fst p \<le> t)
        (\<lambda>t p. fst p < t) ts op) ops [])"
  using combined_new_ok(1)[OF assms(1)] combined_new_ok(2)[OF assms(2)] combined_new_ok(3)[OF assms(3)] combined_new_ok(4)[OF assms(4)]
    elru.comb_promises[of E n c1 ops, unfolded elapsed_iff] alru.comb_promises[of E n c2 ops, unfolded elapsed_iff]
    ulru.comb_promises[of getExpiration n c3 ops] ualru.comb_promises[of getTimeout n c4 ops]
  by blast

text \<open>
  Two entries at most: key 1 is read before key 3 comes, so that key 2 goes.  25 ms after it was added key 1 has expired in the one cache, not in
  the other, which counts from the reading.
\<close>

theorem combined_caches_correct_witness:
  "\<exists>c1 c2. expireLRUCache_new 2 25 = Inr (25000, c1) \<and> accessExpireLRUCache_new 2 25 = Inr (25000, c2) \<and>
    (let ops = [((0, 0), Add (1 :: nat) ''a''), ((10, 10), Add 2 ''b''), ((20, 20), Get 1), ((30, 30), Add 3 ''c'')];
         c = timed_run coll_strategy ops c1; c' = timed_run coll_strategy ops c2
     in recent_abs tindex_entry c = [(3, ''c'', 30, ()), (1, ''a'', 0, ())] \<and> recent_abs tindex_entry c' = [(3, ''c'', 30, ()), (1, ''a'', 20, ())] \<and>
       \<not> cache_doHas coll_strategy (\<lambda>_. 100) 2 c \<and> cache_doHas coll_strategy (\<lambda>_. 24999) 1 c \<and> \<not> cache_doHas coll_strategy (\<lambda>_. 25000) 1 c \<and>
       cache_doHas coll_strategy (\<lambda>_. 25000) 1 c')"
proof -
  let ?ops = "[((0, 0), Add (1 :: nat) ''a''), ((10, 10), Add 2 ''b''), ((20, 20), Get 1), ((30, 30), Add 3 ''c'')]"
  have l: "lru_new 2 = Inr \<lparr>l_size = 2, l_keys = [], l_keyIndex = [], l_fresh = 0\<rparr>" by (simp add: lru_new_def)
  have e: "expire_new 25 = Inr (25000, tindex_new)" by (simp add: expire_new_def)
  have "\<exists>c1 c2 c3 c4. expireLRUCache_new 2 25 = Inr (25000, c1 :: (nat, string, _) cache) \<and>
      accessExpireLRUCache_new 2 25 = Inr (25000, c2 :: (nat, string, _) cache) \<and>
      uniqueExpireLRUCache_new (\<lambda>_. 0) 2 = Inr (c3 :: (nat, string, _) cache) \<and>
      uniqueAccessExpireLRUCache_new (\<lambda>_. 0) 2 = Inr (c4 :: (nat, string, _) cache)"
    by (simp add: expireLRUCache_new_def accessExpireLRUCache_new_def uniqueExpireLRUCache_new_def uniqueAccessExpireLRUCache_new_def l e)
  then obtain c1 c2 c3 c4 where i: "expireLRUCache_new 2 25 = Inr (25000, c1 :: (nat, string, _) cache)"
      "accessExpireLRUCache_new 2 25 = Inr (25000, c2 :: (nat, string, _) cache)"
      "uniqueExpireLRUCache_new (\<lambda>_. 0) 2 = Inr (c3 :: (nat, string, _) cache)"
      "uniqueAccessExpireLRUCache_new (\<lambda>_. 0) 2 = Inr (c4 :: (nat, string, _) cache)" by blast
  have "fold (\<lambda>(ts, op). recent_spec 2 (\<lambda>t v. (t, ())) (\<lambda>t p. p) (\<lambda>t p. fst p + 25000 \<le> t) (\<lambda>t p. fst p + 25000 \<le> t) ts op) ?ops [] =
      [(3, ''c'', 30, ()), (1, ''a'', 0, ())]"
    "fold (\<lambda>(ts, op). recent_spec 2 (\<lambda>t v. (t, ())) (\<lambda>t p. if fst p + 25000 \<le> t then p else (t, ())) (\<lambda>t p. fst p + 25000 \<le> t)
        (\<lambda>t p. fst p + 25000 \<le> t) ts op) ?ops [] = [(3, ''c'', 30, ()), (1, ''a'', 20, ())]"
    by (simp_all add: keep_def without_def)
  note p = combined_caches_correct[OF i, of ?ops, unfolded this]
  let ?c = "timed_run coll_strategy ?ops c1" and ?c' = "timed_run coll_strategy ?ops c2"
  have r: "recent_abs tindex_entry ?c = [(3, ''c'', 30, ()), (1, ''a'', 0, ())]" "recent_abs tindex_entry ?c' = [(3, ''c'', 30, ()), (1, ''a'', 20, ())]"
    using p unfolding promises_def by blast+
  have h: "cache_doHas coll_strategy (\<lambda>_. t) k ?c \<longleftrightarrow>
      (case map_of [(3, ''c'', 30, ()), (1, ''a'', 0, ())] k of None \<Rightarrow> False | Some (v, p) \<Rightarrow> \<not> fst p + 25000 \<le> t)" for t k
    using p unfolding promises_def by blast
  have h': "cache_doHas coll_strategy (\<lambda>_. t) k ?c' \<longleftrightarrow>
      (case map_of [(3, ''c'', 30, ()), (1, ''a'', 20, ())] k of None \<Rightarrow> False | Some (v, p) \<Rightarrow> \<not> fst p + 25000 \<le> t)" for t k
    using p unfolding promises_def by blast
  show ?thesis unfolding Let_def by (intro exI[of _ c1] exI[of _ c2] conjI) (use i r h h' in simp_all)
qed

end
