(* ===== verification/Tokenizer.thy ===== *)
theory Tokenizer
  imports AsciiString
begin

text \<open>
  \<^verbatim>\<open>StringTokenizer\<close>: splitting a string at separator characters, with the options to trim the tokens and to leave
  out empty ones.  The object is its vector of tokens; an iterator beyond the end of the vector is \<open>UB\<close>.

  The reference is the list of the fields between the separators.
\<close>

section \<open>StringTokenizer\<close>

definition TOK_IGNORE_EMPTY :: nat where "TOK_IGNORE_EMPTY = 1"
definition TOK_TRIM :: nat where "TOK_TRIM = 2"

definition tok_trim :: "string \<Rightarrow> string" where
  "tok_trim token =
    (let front = length (takeWhile (\<lambda>c. isSpace (schar c)) token);
         back = (if front < length token then length (takeWhile (\<lambda>c. isSpace (schar c)) (rev token)) else 0)
     in take (length token - back - front) (drop front token))"

text \<open>Trimming and appending a token, with which the loop and its end finish a token.\<close>

definition tok_push :: "bool \<Rightarrow> bool \<Rightarrow> string list \<Rightarrow> string \<Rightarrow> string list" where
  "tok_push doTrim ignoreEmpty tokens token =
    (let token = (if doTrim then tok_trim token else token)
     in if token \<noteq> [] \<or> \<not> ignoreEmpty then tokens @ [token] else tokens)"

fun tok_loop :: "string \<Rightarrow> bool \<Rightarrow> bool \<Rightarrow> string \<Rightarrow> string list \<Rightarrow> string \<Rightarrow> bool \<Rightarrow> string list" where
  "tok_loop separators doTrim ignoreEmpty [] tokens token lastToken =
    (if token \<noteq> [] then tok_push doTrim ignoreEmpty tokens token
     else if lastToken then tokens @ [[]]
     else tokens)"
| "tok_loop separators doTrim ignoreEmpty (c # it) tokens token lastToken =
    (if c \<in> set separators then
       tok_loop separators doTrim ignoreEmpty it (tok_push doTrim ignoreEmpty tokens token) []
         (if \<not> ignoreEmpty then True else lastToken)
     else tok_loop separators doTrim ignoreEmpty it tokens (token @ [c]) False)"

definition StringTokenizer :: "string \<Rightarrow> string \<Rightarrow> nat \<Rightarrow> string list" where
  "StringTokenizer str separators options =
    tok_loop separators (options AND TOK_TRIM \<noteq> 0) (options AND TOK_IGNORE_EMPTY \<noteq> 0) str [] [] False"

definition tok_index :: "string list \<Rightarrow> nat \<Rightarrow> string result" where
  "tok_index tokens index = (if index \<ge> length tokens then Inl RangeException else Inr (tokens ! index))"

definition tok_count :: "string list \<Rightarrow> nat" where
  "tok_count tokens = length tokens"

text \<open>The loops around \<^verbatim>\<open>std::find\<close> that count and replace tokens.\<close>

lemma find_shorter: "dropWhile P it = t # r \<Longrightarrow> length r < length it"
  using length_dropWhile_le[of P it] by simp

function tok_count_token :: "string \<Rightarrow> string list \<Rightarrow> nat" where
  "tok_count_token token it =
    (case dropWhile (\<lambda>t. t \<noteq> token) it of [] \<Rightarrow> 0 | t # it \<Rightarrow> 1 + tok_count_token token it)"
  by pat_completeness auto
termination by (relation "measure (\<lambda>(token, it). length it)") (auto dest: find_shorter)

definition tok_has :: "string \<Rightarrow> string list \<Rightarrow> bool" where
  "tok_has token tokens \<longleftrightarrow> dropWhile (\<lambda>t. t \<noteq> token) tokens \<noteq> []"

definition tok_find :: "string \<Rightarrow> nat \<Rightarrow> string list \<Rightarrow> nat outcome" where
  "tok_find token pos tokens =
    (if pos > length tokens then UB
     else case dropWhile (\<lambda>t. t \<noteq> token) (drop pos tokens) of
       [] \<Rightarrow> Throw NotFoundException
     | t # it \<Rightarrow> Ret (length tokens - length (t # it)))"

function tok_replace_loop :: "string \<Rightarrow> string \<Rightarrow> string list \<Rightarrow> nat \<times> string list" where
  "tok_replace_loop oldToken newToken it =
    (case dropWhile (\<lambda>t. t \<noteq> oldToken) it of
       [] \<Rightarrow> (0, it)
     | t # r \<Rightarrow>
         (let (n, r) = tok_replace_loop oldToken newToken r
          in (n + 1, takeWhile (\<lambda>t. t \<noteq> oldToken) it @ newToken # r)))"
  by pat_completeness auto
termination by (relation "measure (\<lambda>(oldToken, newToken, it). length it)") (auto dest: find_shorter)

declare tok_count_token.simps [simp del] tok_replace_loop.simps [simp del]

definition tok_replace :: "string \<Rightarrow> string \<Rightarrow> nat \<Rightarrow> string list \<Rightarrow> (nat \<times> string list) outcome" where
  "tok_replace oldToken newToken pos tokens =
    (if pos > length tokens then UB
     else let (n, r) = tok_replace_loop oldToken newToken (drop pos tokens) in Ret (n, take pos tokens @ r))"

section \<open>The fields of a string\<close>

fun split_fields :: "string \<Rightarrow> string \<Rightarrow> string list" where
  "split_fields separators [] = [[]]"
| "split_fields separators (c # s) =
    (if c \<in> set separators then [] # split_fields separators s
     else (c # hd (split_fields separators s)) # tl (split_fields separators s))"

lemma fields_nonempty: "split_fields separators s \<noteq> []"
  by (cases s) auto

lemma fields_span:
  "split_fields seps s =
    (case dropWhile (\<lambda>c. c \<notin> set seps) s of
       [] \<Rightarrow> [s]
     | c # r \<Rightarrow> takeWhile (\<lambda>c. c \<notin> set seps) s # split_fields seps r)"
proof (induction s)
  case (Cons c s)
  then show ?case by (cases "dropWhile (\<lambda>c. c \<notin> set seps) s") (simp_all del: dropWhile_eq_Nil_conv)
qed simp

lemma fields_print:
  assumes "x \<in> set seps" "list_all (\<lambda>d. set d \<inter> set seps = {}) ds" "set n \<inter> set seps = {}"
  shows "split_fields seps (concat (map (\<lambda>d. d @ [x]) ds) @ n) = ds @ [n]"
  using assms(2)
proof (induction ds)
  case Nil
  have "dropWhile (\<lambda>c. c \<notin> set seps) n = []" using assms(3) by (auto simp: dropWhile_eq_Nil_conv)
  then show ?case by (subst fields_span) (simp del: dropWhile_eq_Nil_conv)
next
  case (Cons d ds)
  let ?r = "concat (map (\<lambda>d. d @ [x]) ds) @ n"
  have "\<forall>c \<in> set d. c \<notin> set seps" using Cons.prems by auto
  then have "dropWhile (\<lambda>c. c \<notin> set seps) (d @ x # ?r) = x # ?r" "takeWhile (\<lambda>c. c \<notin> set seps) (d @ x # ?r) = d"
    using assms(1) by (simp_all add: dropWhile_append2 takeWhile_append2)
  then show ?case using Cons fields_span[of seps "d @ x # ?r"] by simp
qed

definition keep :: "bool \<Rightarrow> bool \<Rightarrow> string list \<Rightarrow> string list" where
  "keep doTrim ignoreEmpty ts =
    filter (\<lambda>t. \<not> (ignoreEmpty \<and> t = [])) (map (\<lambda>t. if doTrim then trim t else t) ts)"

lemma keep_append: "keep d i (xs @ ys) = keep d i xs @ keep d i ys"
  by (simp add: keep_def)

lemma rstrip_take: "take (length s - length (takeWhile space (rev s))) s = rstrip s"
proof -
  have "rev s = takeWhile space (rev s) @ dropWhile space (rev s)" by simp
  then have "s = rev (dropWhile space (rev s)) @ rev (takeWhile space (rev s))" by (metis rev_append rev_rev_ident)
  then show ?thesis unfolding rstrip_def by (metis append_eq_conv_conj diff_add_inverse2 length_append length_rev)
qed

lemma tok_trim_trim: "tok_trim s = trim s"
proof -
  let ?t = "dropWhile space s" and ?l = "takeWhile space s"
  have s: "s = ?l @ ?t" by simp
  have d: "drop (length ?l) s = ?t" by (simp add: dropWhile_eq_drop)
  show ?thesis
  proof (cases "?t = []")
    case True
    then have "length ?l = length s" using s by (metis append_Nil2)
    then show ?thesis using True d by (simp add: tok_trim_def trim_strip rstrip_def Let_def)
  next
    case False
    have n: "length s = length ?l + length ?t" using s by (metis length_append)
    have "hd ?t \<in> set (rev ?t)" "\<not> space (hd ?t)" using hd_in_set[OF False] hd_dropWhile[OF False] by (simp_all only: set_rev not_False_eq_True)
    then have b: "takeWhile space (rev s) = takeWhile space (rev ?t)"
      using takeWhile_append1[of "hd ?t" "rev ?t" space "rev ?l"] s by (metis rev_append)
    have m: "length s - length (takeWhile space (rev s)) - length ?l = length ?t - length (takeWhile space (rev ?t))"
      using n b by simp
    have "length ?l < length s" using n False by simp
    then have "tok_trim s = take (length s - length (takeWhile space (rev s)) - length ?l) (drop (length ?l) s)"
      by (simp add: tok_trim_def Let_def)
    also have "\<dots> = rstrip ?t" unfolding d m by (rule rstrip_take)
    finally show ?thesis by (simp add: trim_strip)
  qed
qed

lemma tok_push_keep: "tok_push d i tokens token = tokens @ keep d i [token]"
  by (simp add: tok_push_def keep_def tok_trim_trim Let_def)

lemma trim_Nil [simp]: "trim [] = []"
  by (simp add: trim_strip rstrip_def)

lemma tok_loop_fields:
  assumes "lt \<Longrightarrow> \<not> i"
  shows "tok_loop seps d i s tokens token lt =
    tokens @ (if s = [] \<and> token = [] then if lt then [[]] else []
              else keep d i ((token @ hd (split_fields seps s)) # tl (split_fields seps s)))"
  using assms
proof (induction seps d i s tokens token lt rule: tok_loop.induct[case_names stop step])
  case (stop seps d i tokens token lt)
  then show ?case by (simp add: tok_push_keep)
next
  case (step seps d i c s tokens token lt)
  have t: "(hd (split_fields seps s)) # tl (split_fields seps s) = split_fields seps s" using fields_nonempty by simp
  show ?case
  proof (cases "c \<in> set seps")
    case True
    have k: "keep d i (token # xs) = keep d i [token] @ keep d i xs" for xs by (simp add: keep_def)
    have "tok_loop seps d i (c # s) tokens token lt =
        tok_loop seps d i s (tok_push d i tokens token) [] (if \<not> i then True else lt)"
      using True by (simp only: tok_loop.simps if_True)
    also have "\<dots> = (tokens @ keep d i [token]) @
        (if s = [] then if \<not> i then [[]] else [] else keep d i (split_fields seps s))"
    proof (subst step.IH(1)[OF True])
      show "\<not> i" if "if \<not> i then True else lt" using that step.prems by (simp split: if_splits)
      have "(if \<not> i then True else lt) = (\<not> i)" using step.prems by auto
      then show "tok_push d i tokens token @ (if s = [] \<and> [] = [] then if if \<not> i then True else lt then [[]] else []
          else keep d i (([] @ hd (split_fields seps s)) # tl (split_fields seps s))) =
        (tokens @ keep d i [token]) @ (if s = [] then if \<not> i then [[]] else [] else keep d i (split_fields seps s))"
        by (simp only: tok_push_keep append_Nil t simp_thms)
    qed
    also have "\<dots> = tokens @ keep d i (token # split_fields seps s)"
      unfolding k[of "split_fields seps s"] by (cases "s = []") (simp_all add: keep_def)
    finally show ?thesis using True by simp
  next
    case False
    then show ?thesis using step.IH(2)[OF False] by simp
  qed
qed

section \<open>Properties\<close>

text \<open>
  C35. The tokenizer delivers the fields between the separators in order, each trimmed if \<^verbatim>\<open>TOK_TRIM\<close> is set, without the
  empty ones if \<^verbatim>\<open>TOK_IGNORE_EMPTY\<close> is set; an empty string has no field.
\<close>

theorem tokenizer_correct:
  "StringTokenizer s separators options =
    (if s = [] then [] else keep (options AND TOK_TRIM \<noteq> 0) (options AND TOK_IGNORE_EMPTY \<noteq> 0) (split_fields separators s))"
  using tok_loop_fields[of False] fields_nonempty[of separators s] by (simp add: StringTokenizer_def)

text \<open>Without options nothing but the separators is lost: the tokens joined by them are the string.\<close>

lemma fields_join: "length separators = 1 \<Longrightarrow> s = hd (split_fields separators s) @ concat (map (\<lambda>t. separators @ t) (tl (split_fields separators s)))"
proof (induction s)
  case (Cons c s)
  obtain x where x: "separators = [x]" using Cons.prems by (cases separators) auto
  show ?case
  proof (cases "c = x")
    case True
    then show ?thesis using Cons x fields_nonempty[of separators s] by (cases "split_fields separators s") auto
  next
    case False
    then show ?thesis using Cons x by simp
  qed
qed simp

lemma tok_count_token_eq: "tok_count_token token ts = count_list ts token"
proof (induction token ts rule: tok_count_token.induct)
  case (1 token ts)
  have s: "count_list ts token = count_list (dropWhile (\<lambda>t. t \<noteq> token) ts) token"
    by (induction ts) auto
  show ?case
  proof (cases "dropWhile (\<lambda>t. t \<noteq> token) ts")
    case Nil
    have "count_list ts token = 0" using s unfolding Nil by simp
    then show ?thesis by (subst tok_count_token.simps) (simp add: Nil)
  next
    case (Cons t r)
    then have "t = token" using hd_dropWhile[of "\<lambda>t. t \<noteq> token" ts] by simp
    then show ?thesis using 1[OF Cons] s Cons by (subst tok_count_token.simps) simp
  qed
qed

lemma tok_replace_loop_eq: "tok_replace_loop old new ts = (count_list ts old, map (\<lambda>t. if t = old then new else t) ts)"
proof (induction old new ts rule: tok_replace_loop.induct)
  case (1 old new ts)
  let ?f = "\<lambda>t. if t = old then new else t"
  have id: "map ?f (takeWhile (\<lambda>t. t \<noteq> old) ts) = takeWhile (\<lambda>t. t \<noteq> old) ts"
    by (rule map_idI) (auto dest: set_takeWhileD)
  have split: "ts = takeWhile (\<lambda>t. t \<noteq> old) ts @ dropWhile (\<lambda>t. t \<noteq> old) ts" by simp
  have n: "count_list (takeWhile (\<lambda>t. t \<noteq> old) ts) old = 0" by (auto dest: set_takeWhileD simp: count_list_0_iff)
  show ?case
  proof (cases "dropWhile (\<lambda>t. t \<noteq> old) ts")
    case Nil
    then have e: "takeWhile (\<lambda>t. t \<noteq> old) ts = ts" using split by (metis append_Nil2)
    have "map ?f ts = ts" "count_list ts old = 0" using id n unfolding e by blast+
    then show ?thesis by (subst tok_replace_loop.simps) (simp add: Nil)
  next
    case (Cons t r)
    then have t: "t = old" using hd_dropWhile[of "\<lambda>t. t \<noteq> old" ts] by simp
    have ts: "ts = takeWhile (\<lambda>t. t \<noteq> old) ts @ old # r" using split Cons t by simp
    have "map ?f ts = takeWhile (\<lambda>t. t \<noteq> old) ts @ new # map ?f r" by (subst ts) (simp add: id)
    moreover have "count_list ts old = count_list r old + 1" by (subst ts) (simp add: n)
    ultimately show ?thesis using 1[OF Cons] Cons by (subst tok_replace_loop.simps) simp
  qed
qed

text \<open>
  \<^verbatim>\<open>find\<close> returns the first position from \<^verbatim>\<open>pos\<close> on that holds the token and raises \<^verbatim>\<open>NotFoundException\<close> exactly if there is
  none; \<^verbatim>\<open>replace\<close> changes all of them and counts them.
\<close>

theorem tokenizer_replace_correct:
  assumes "pos \<le> length tokens"
  shows "tok_replace old new pos tokens =
      Ret (count_list (drop pos tokens) old, take pos tokens @ map (\<lambda>t. if t = old then new else t) (drop pos tokens)) \<and>
    (case tok_find token pos tokens of
       Ret n \<Rightarrow> pos \<le> n \<and> n < length tokens \<and> tokens ! n = token \<and> token \<notin> set (drop pos (take n tokens))
     | Throw e \<Rightarrow> e = NotFoundException \<and> token \<notin> set (drop pos tokens)
     | UB \<Rightarrow> False)"
proof -
  let ?k = "takeWhile (\<lambda>t. t \<noteq> token) (drop pos tokens)" and ?d = "dropWhile (\<lambda>t. t \<noteq> token) (drop pos tokens)"
  have k: "drop pos tokens = ?k @ ?d" by simp
  have "case tok_find token pos tokens of
       Ret n \<Rightarrow> pos \<le> n \<and> n < length tokens \<and> tokens ! n = token \<and> token \<notin> set (drop pos (take n tokens))
     | Throw e \<Rightarrow> e = NotFoundException \<and> token \<notin> set (drop pos tokens)
     | UB \<Rightarrow> False"
  proof (cases ?d)
    case Nil
    have "tok_find token pos tokens = Throw NotFoundException" using assms by (simp add: tok_find_def Nil)
    moreover have "token \<notin> set (drop pos tokens)" using Nil by auto
    ultimately show ?thesis by simp
  next
    case (Cons t r)
    let ?n = "pos + length ?k"
    have l: "length tokens = ?n + length ?d" using assms arg_cong[OF k, of length] unfolding length_append length_drop by linarith
    have m: "length tokens - length (t # r) = ?n" using l unfolding Cons by linarith
    have f: "tok_find token pos tokens = Ret ?n" unfolding tok_find_def Cons m[symmetric] using assms by simp
    have d: "drop ?n tokens = ?d" using dropWhile_eq_drop[of "\<lambda>t. t \<noteq> token" "drop pos tokens"] by (simp add: add.commute)
    have "hd ?d = token" using hd_dropWhile[of "\<lambda>t. t \<noteq> token" "drop pos tokens"] Cons by simp
    moreover have n: "?n < length tokens" using l Cons by simp
    ultimately have "tokens ! ?n = token" using d hd_drop_conv_nth[OF n] by simp
    moreover have "drop pos (take ?n tokens) = ?k" using takeWhile_eq_take[of "\<lambda>t. t \<noteq> token" "drop pos tokens"] by (simp add: drop_take)
    moreover have "token \<notin> set ?k" by (auto dest: set_takeWhileD)
    ultimately show ?thesis unfolding f using n by simp
  qed
  moreover have "tok_replace old new pos tokens =
      Ret (count_list (drop pos tokens) old, take pos tokens @ map (\<lambda>t. if t = old then new else t) (drop pos tokens))"
    using assms by (simp add: tok_replace_def tok_replace_loop_eq)
  ultimately show ?thesis by blast
qed

theorem tokenizer_replace_correct_witness:
  "tok_replace ''a'' ''b'' 1 (StringTokenizer ''a,a,c'' '','' 0) = Ret (1, [''a'', ''b'', ''c'']) \<and>
   tok_find ''c'' 1 (StringTokenizer ''a,a,c'' '','' 0) = Ret 2"
proof -
  have t: "StringTokenizer ''a,a,c'' '','' 0 = [''a'', ''a'', ''c'']" by code_simp
  have "tok_find ''c'' 1 [''a'', ''a'', ''c''] = Ret 2" by code_simp
  then show ?thesis unfolding t using tokenizer_replace_correct[of 1 "[''a'', ''a'', ''c'']" "''a''" "''b''" "''c''"] by simp
qed

end
