(* ===== verification/PocoPath.thy ===== *)
theory PocoPath
  imports Tokenizer
begin

text \<open>
  \<^verbatim>\<open>Path.h\<close>, \<^verbatim>\<open>Path.cpp\<close> and the string functions of \<^verbatim>\<open>Path_UNIX.cpp\<close>: file system paths in Unix, Windows and OpenVMS
  syntax.

  The record \<open>fpath\<close> has the members of the class.  Every parser clears the object before it starts, so its result
  depends on the text only.  What comes from the operating system is an argument: \<open>home\<close> (\<^verbatim>\<open>Path::home\<close>), \<open>getenv\<close>,
  \<open>exists\<close> (\<^verbatim>\<open>File::exists\<close>).  The native style is Unix.

  The theory shows that each syntax is parsed back to the path it was printed from, that the parsers
  and the operations on directories keep the directory list in normal form, what resolution means and that it is
  associative.
\<close>

section \<open>The class\<close>

record fpath =
  p_node :: string
  p_device :: string
  p_name :: string
  p_version :: string
  p_dirs :: "string list"
  p_absolute :: bool

datatype path_style = PATH_UNIX | PATH_WINDOWS | PATH_VMS | PATH_NATIVE | PATH_GUESS

definition path_clear :: fpath where
  "path_clear = \<lparr>p_node = [], p_device = [], p_name = [], p_version = [], p_dirs = [], p_absolute = False\<rparr>"

definition path_new :: "bool \<Rightarrow> fpath" where
  "path_new absolute = path_clear\<lparr>p_absolute := absolute\<rparr>"

section \<open>Directories\<close>

definition pushDirectory :: "string \<Rightarrow> fpath \<Rightarrow> fpath" where
  "pushDirectory dir p =
    (if dir \<noteq> [] \<and> dir \<noteq> ''.'' then
       if dir = ''..'' then
         if p_dirs p \<noteq> [] \<and> last (p_dirs p) \<noteq> ''..'' then p\<lparr>p_dirs := butlast (p_dirs p)\<rparr>
         else if \<not> p_absolute p then p\<lparr>p_dirs := p_dirs p @ [dir]\<rparr>
         else p
       else p\<lparr>p_dirs := p_dirs p @ [dir]\<rparr>
     else p)"

definition popDirectory :: "fpath \<Rightarrow> fpath result" where
  "popDirectory p = (if p_dirs p \<noteq> [] then Inr (p\<lparr>p_dirs := butlast (p_dirs p)\<rparr>) else Inl AssertionViolationException)"

definition popFrontDirectory :: "fpath \<Rightarrow> fpath result" where
  "popFrontDirectory p = (if p_dirs p \<noteq> [] then Inr (p\<lparr>p_dirs := tl (p_dirs p)\<rparr>) else Inl AssertionViolationException)"

definition path_depth :: "fpath \<Rightarrow> int" where
  "path_depth p = int (length (p_dirs p))"

definition path_directory :: "fpath \<Rightarrow> int \<Rightarrow> string result" where
  "path_directory p n =
    (if 0 \<le> n \<and> nat n \<le> length (p_dirs p) then
       Inr (if nat n < length (p_dirs p) then p_dirs p ! nat n else p_name p)
     else Inl AssertionViolationException)"

definition makeDirectory :: "fpath \<Rightarrow> fpath" where
  "makeDirectory p = (pushDirectory (p_name p) p)\<lparr>p_name := [], p_version := []\<rparr>"

definition makeFile :: "fpath \<Rightarrow> fpath" where
  "makeFile p =
    (if p_dirs p \<noteq> [] \<and> p_name p = [] then p\<lparr>p_name := last (p_dirs p), p_dirs := butlast (p_dirs p)\<rparr> else p)"

definition path_makeAbsolute :: "fpath \<Rightarrow> fpath \<Rightarrow> fpath" where
  "path_makeAbsolute base p =
    (if \<not> p_absolute p then
       let tmp = foldl (\<lambda>tmp d. pushDirectory d tmp) (makeDirectory base) (p_dirs p)
       in p\<lparr>p_node := p_node tmp, p_device := p_device tmp, p_dirs := p_dirs tmp, p_absolute := p_absolute base\<rparr>
     else p)"

definition path_absolute :: "fpath \<Rightarrow> fpath \<Rightarrow> fpath" where
  "path_absolute base p = (if \<not> p_absolute p then path_makeAbsolute base p else p)"

definition makeParent :: "fpath \<Rightarrow> fpath" where
  "makeParent p =
    (if p_name p = [] then
       if p_dirs p = [] then (if \<not> p_absolute p then p\<lparr>p_dirs := [''..'']\<rparr> else p)
       else if last (p_dirs p) = ''..'' then p\<lparr>p_dirs := p_dirs p @ [''..'']\<rparr>
       else p\<lparr>p_dirs := butlast (p_dirs p)\<rparr>
     else p\<lparr>p_name := [], p_version := []\<rparr>)"

definition path_append :: "fpath \<Rightarrow> fpath \<Rightarrow> fpath" where
  "path_append path p =
    (let p = makeDirectory p
     in p\<lparr>p_dirs := p_dirs p @ p_dirs path, p_name := p_name path, p_version := p_version path\<rparr>)"

definition path_resolve :: "fpath \<Rightarrow> fpath \<Rightarrow> fpath" where
  "path_resolve path p =
    (if p_absolute path then path
     else (foldl (\<lambda>p d. pushDirectory d p) p (p_dirs path))\<lparr>p_name := p_name path\<rparr>)"

definition path_new_file :: "fpath \<Rightarrow> string \<Rightarrow> fpath" where
  "path_new_file parent fileName = (makeDirectory parent)\<lparr>p_name := fileName\<rparr>"

definition path_new_relative :: "fpath \<Rightarrow> fpath \<Rightarrow> fpath" where
  "path_new_relative parent relative = path_resolve relative parent"

definition setNode :: "string \<Rightarrow> fpath \<Rightarrow> fpath" where
  "setNode node p = p\<lparr>p_node := node, p_absolute := p_absolute p \<or> node \<noteq> []\<rparr>"

definition setDevice :: "string \<Rightarrow> fpath \<Rightarrow> fpath" where
  "setDevice device p = p\<lparr>p_device := device, p_absolute := p_absolute p \<or> device \<noteq> []\<rparr>"

section \<open>File names\<close>

definition setFileName :: "string \<Rightarrow> fpath \<Rightarrow> fpath" where
  "setFileName name p = p\<lparr>p_name := name\<rparr>"

text \<open>\<^verbatim>\<open>std::string::rfind\<close> for one character.\<close>

fun rfind :: "char \<Rightarrow> string \<Rightarrow> nat option" where
  "rfind c [] = None"
| "rfind c (x # s) = (case rfind c s of Some i \<Rightarrow> Some (Suc i) | None \<Rightarrow> if x = c then Some 0 else None)"

definition getBaseName :: "fpath \<Rightarrow> string" where
  "getBaseName p =
    (case rfind (CHR ''.'') (p_name p) of
       Some pos \<Rightarrow> if pos \<noteq> 0 then take pos (p_name p) else p_name p
     | None \<Rightarrow> p_name p)"

definition getExtension :: "fpath \<Rightarrow> string" where
  "getExtension p =
    (case rfind (CHR ''.'') (p_name p) of
       Some pos \<Rightarrow> if pos \<noteq> 0 then drop (pos + 1) (p_name p) else []
     | None \<Rightarrow> [])"

definition setBaseName :: "string \<Rightarrow> fpath \<Rightarrow> fpath" where
  "setBaseName name p =
    (let ext = getExtension p in p\<lparr>p_name := (if ext \<noteq> [] then name @ ''.'' @ ext else name)\<rparr>)"

definition setExtension :: "string \<Rightarrow> fpath \<Rightarrow> fpath" where
  "setExtension extension p =
    p\<lparr>p_name := (if extension \<noteq> [] then getBaseName p @ ''.'' @ extension else getBaseName p)\<rparr>"

section \<open>Unix syntax\<close>

text \<open>
  \<open>unix_loop\<close> is the loop of \<^verbatim>\<open>parseUnix\<close>: a name that a slash ends is a directory, or the device if it ends in a colon
  and no directory precedes it (\<open>unix_dir\<close>); what is left is the file name.
\<close>

definition unix_dir :: "fpath \<Rightarrow> string \<Rightarrow> fpath" where
  "unix_dir p name =
    (if p_dirs p = [] then
       if name \<noteq> [] \<and> last name = CHR '':'' then p\<lparr>p_absolute := True, p_device := butlast name\<rparr>
       else pushDirectory name p
     else pushDirectory name p)"

lemma step_shorter: "it \<noteq> [] \<Longrightarrow> length (dropWhile P it) - Suc 0 < length it"
  using length_dropWhile_le[of P it] by (cases it) auto

function unix_loop :: "string \<Rightarrow> fpath \<Rightarrow> fpath" where
  "unix_loop it p =
    (if it \<noteq> [] then
       let name = takeWhile (\<lambda>c. c \<noteq> CHR ''/'') it;
           it = dropWhile (\<lambda>c. c \<noteq> CHR ''/'') it
       in if it \<noteq> [] then unix_loop (tl it) (unix_dir p name)
          else p\<lparr>p_name := name\<rparr>
     else p)"
  by pat_completeness auto
termination by (relation "measure (\<lambda>(it, p). length it)") (auto intro: step_shorter)

declare unix_loop.simps [simp del]

text \<open>
  A leading tilde stands for the home directory, which is itself parsed as a path: \<open>None\<close> is endless recursion.
\<close>

partial_function (option) parseUnix :: "string \<Rightarrow> string \<Rightarrow> fpath option" where
  "parseUnix home path =
    (if path = [] then Some path_clear
     else if hd path = CHR ''/'' then Some (unix_loop (tl path) (path_clear\<lparr>p_absolute := True\<rparr>))
     else if hd path = CHR ''~'' \<and> (tl path = [] \<or> hd (tl path) = CHR ''/'') then
       Option.bind (parseUnix home home) (\<lambda>cwd.
         Some (unix_loop (tl path) (path_clear\<lparr>p_dirs := p_dirs cwd, p_absolute := True\<rparr>)))
     else Some (unix_loop path path_clear))"

declare parseUnix.simps [code]

definition buildUnix :: "fpath \<Rightarrow> string" where
  "buildUnix p =
    (if p_device p \<noteq> [] then ''/'' @ p_device p @ '':/'' else if p_absolute p then ''/'' else [])
    @ concat (map (\<lambda>d. d @ ''/'') (p_dirs p)) @ p_name p"

section \<open>Windows syntax\<close>

definition win_sep :: "char \<Rightarrow> bool" where
  "win_sep c \<longleftrightarrow> c = CHR 0x5C \<or> c = CHR ''/''"

definition drive_letter :: "char \<Rightarrow> bool" where
  "drive_letter d \<longleftrightarrow> (schar CHR ''a'' \<le> schar d \<and> schar d \<le> schar CHR ''z'') \<or> (schar CHR ''A'' \<le> schar d \<and> schar d \<le> schar CHR ''Z'')"

function win_loop :: "string \<Rightarrow> fpath \<Rightarrow> fpath" where
  "win_loop it p =
    (if it \<noteq> [] then
       let name = takeWhile (\<lambda>c. \<not> win_sep c) it;
           it = dropWhile (\<lambda>c. \<not> win_sep c) it
       in if it \<noteq> [] then win_loop (tl it) (pushDirectory name p)
          else p\<lparr>p_name := name\<rparr>
     else p)"
  by pat_completeness auto
termination by (relation "measure (\<lambda>(it, p). length it)") (auto intro: step_shorter)

declare win_loop.simps [simp del]

text \<open>The part before the loop: a node, a drive or a leading separator.\<close>

definition win_drive :: "string \<Rightarrow> bool \<Rightarrow> (string \<times> fpath) result" where
  "win_drive it absolute =
    (if it \<noteq> [] then
       if tl it \<noteq> [] \<and> hd (tl it) = CHR '':'' then
         if absolute \<or> \<not> drive_letter (hd it) then Inl PathSyntaxException
         else
           let p = path_clear\<lparr>p_absolute := True, p_device := [hd it]\<rparr>;
               it = tl (tl it)
           in if it \<noteq> [] then if \<not> win_sep (hd it) then Inl PathSyntaxException else Inr (tl it, p)
              else Inr (it, p)
       else Inr (it, path_clear\<lparr>p_absolute := absolute\<rparr>)
     else Inr (it, path_clear\<lparr>p_absolute := absolute\<rparr>))"

definition win_root :: "string \<Rightarrow> (string \<times> fpath) result" where
  "win_root it =
    (let absolute = (it \<noteq> [] \<and> win_sep (hd it));
         it = (if absolute then tl it else it)
     in if absolute \<and> it \<noteq> [] \<and> win_sep (hd it) then
          let node = takeWhile (\<lambda>c. \<not> win_sep c) (tl it);
              it = dropWhile (\<lambda>c. \<not> win_sep c) (tl it)
          in Inr (tl it, path_clear\<lparr>p_absolute := True, p_node := node\<rparr>)
        else win_drive it absolute)"

definition parseWindows :: "string \<Rightarrow> fpath result" where
  "parseWindows path =
    rbind (win_root path) (\<lambda>(it, p).
      let p = win_loop it p
      in Inr (if p_node p \<noteq> [] \<and> p_dirs p = [] \<and> p_name p \<noteq> [] then makeDirectory p else p))"

definition buildWindows :: "fpath \<Rightarrow> string" where
  "buildWindows p =
    (if p_node p \<noteq> [] then [CHR 0x5C, CHR 0x5C] @ p_node p @ [CHR 0x5C]
     else if p_device p \<noteq> [] then p_device p @ [CHR '':'', CHR 0x5C]
     else if p_absolute p then [CHR 0x5C]
     else [])
    @ concat (map (\<lambda>d. d @ [CHR 0x5C]) (p_dirs p)) @ p_name p"

section \<open>OpenVMS syntax\<close>

text \<open>
  \<open>vms_loop\<close> is the loop over the names in a pair of brackets, which \<^verbatim>\<open>parseVMS\<close> has twice with different treatment of
  the hyphen (\<open>vms_up\<close>, and \<open>vms_up_below\<close> for the second pair).
\<close>

definition vms_up :: "string list \<Rightarrow> string list" where
  "vms_up dirs = (if dirs = [] \<or> last dirs = ''..'' then dirs @ [''..''] else butlast dirs)"

definition vms_up_below :: "nat \<Rightarrow> string list \<Rightarrow> string list" where
  "vms_up_below d dirs = (if length dirs > d then butlast dirs else dirs)"

definition vms_dir :: "char \<Rightarrow> bool" where
  "vms_dir c \<longleftrightarrow> c \<noteq> CHR ''.'' \<and> c \<noteq> CHR '']''"

lemma vms_step_shorter:
  assumes "it \<noteq> []" "hd it \<noteq> CHR '']''" "it' = (if hd it = CHR ''-'' then it else dropWhile vms_dir it)"
  shows "length (if it' \<noteq> [] \<and> hd it' \<noteq> CHR '']'' then tl it' else it') < length it"
proof -
  obtain c s where it: "it = c # s" using assms(1) by (cases it) auto
  have l: "length (dropWhile vms_dir s) \<le> length s" by (rule length_dropWhile_le)
  consider "it' = it" | "it' = dropWhile vms_dir s" using assms(3) it by (cases "c = CHR ''-''"; cases "vms_dir c") auto
  then show ?thesis
  proof cases
    case 1
    then show ?thesis using assms(2) it by simp
  next
    case 2
    have "length (if it' \<noteq> [] \<and> hd it' \<noteq> CHR '']'' then tl it' else it') \<le> length it'" by simp
    then show ?thesis using 2 l it by simp
  qed
qed

function vms_loop :: "(string list \<Rightarrow> string list) \<Rightarrow> string \<Rightarrow> string list \<Rightarrow> string \<times> string list" where
  "vms_loop up it dirs =
    (if it \<noteq> [] \<and> hd it \<noteq> CHR '']'' then
       let (name, it) = (if hd it = CHR ''-'' then (''-'', it) else (takeWhile vms_dir it, dropWhile vms_dir it));
           dirs = (if name \<noteq> [] then if name = ''-'' then up dirs else dirs @ [name] else dirs)
       in vms_loop up (if it \<noteq> [] \<and> hd it \<noteq> CHR '']'' then tl it else it) dirs
     else (it, dirs))"
  by pat_completeness auto
termination
  by (relation "measure (\<lambda>(up, it, dirs). length it)") (auto dest!: vms_step_shorter split: if_splits)

declare vms_loop.simps [simp del]

text \<open>The second pair of brackets, and the brackets as a whole.\<close>

definition vms_second :: "bool \<Rightarrow> string \<Rightarrow> string list \<Rightarrow> (string \<times> string list) result" where
  "vms_second absolute it dirs =
    (if it \<noteq> [] \<and> hd it = CHR ''['' then
       if \<not> absolute then Inl PathSyntaxException
       else
         let it = tl it
         in if it \<noteq> [] \<and> hd it = CHR ''.'' then Inl PathSyntaxException
            else
              let (it, dirs) = vms_loop (vms_up_below (length dirs)) it dirs
              in if it = [] then Inl PathSyntaxException else Inr (tl it, dirs)
     else Inr (it, dirs))"

definition vms_bracket :: "string \<Rightarrow> fpath \<Rightarrow> (string \<times> fpath) result" where
  "vms_bracket it p =
    (if it \<noteq> [] then
       let (absolute, it) = (if hd it = CHR ''.'' then (False, tl it)
                        else if hd it = CHR '']'' \<or> hd it = CHR ''-'' then (False, it)
                        else (True, it));
           (it, dirs) = vms_loop vms_up it (p_dirs p)
       in if it = [] then Inl PathSyntaxException
          else rbind (vms_second absolute (tl it) dirs) (\<lambda>(it, dirs). Inr (it, p\<lparr>p_dirs := dirs, p_absolute := absolute\<rparr>))
     else Inr (it, p))"

text \<open>What precedes the first colon is the node or the device; behind a node there may be a device.\<close>

definition vms_node :: "string \<Rightarrow> string \<Rightarrow> fpath \<times> string \<times> string" where
  "vms_node name it =
    (if hd it = CHR '':'' then
       let it = tl it
       in if it \<noteq> [] \<and> hd it = CHR '':'' then (path_clear\<lparr>p_node := name, p_absolute := True\<rparr>, [], tl it)
          else (path_clear\<lparr>p_device := name, p_absolute := True\<rparr>, [], it)
     else (path_clear, name, it))"

definition vms_device :: "fpath \<times> string \<times> string \<Rightarrow> fpath \<times> string \<times> string" where
  "vms_device = (\<lambda>(p, name, it).
    if it \<noteq> [] \<and> p_device p = [] \<and> hd it \<noteq> CHR ''['' then
      let name = name @ takeWhile (\<lambda>c. c \<noteq> CHR '':'' \<and> c \<noteq> CHR '';'') it;
          it = dropWhile (\<lambda>c. c \<noteq> CHR '':'' \<and> c \<noteq> CHR '';'') it
      in if it \<noteq> [] \<and> hd it = CHR '':'' then (p\<lparr>p_device := name, p_absolute := True\<rparr>, [], tl it)
         else (p, name, it)
    else (p, name, it))"

definition vms_file :: "fpath \<times> string \<times> string \<Rightarrow> (string \<times> fpath) result" where
  "vms_file = (\<lambda>(p, name, it).
    if name = [] then
      rbind (if it \<noteq> [] \<and> hd it = CHR ''['' then vms_bracket (tl it) p else Inr (it, p)) (\<lambda>(it, p).
        Inr (dropWhile (\<lambda>c. c \<noteq> CHR '';'') it, p\<lparr>p_name := takeWhile (\<lambda>c. c \<noteq> CHR '';'') it\<rparr>))
    else Inr (it, p\<lparr>p_name := name\<rparr>))"

definition parseVMS :: "string \<Rightarrow> fpath result" where
  "parseVMS path =
    (let name = takeWhile (\<lambda>c. c \<noteq> CHR '':'' \<and> c \<noteq> CHR ''['' \<and> c \<noteq> CHR '';'') path;
         it = dropWhile (\<lambda>c. c \<noteq> CHR '':'' \<and> c \<noteq> CHR ''['' \<and> c \<noteq> CHR '';'') path
     in if it \<noteq> [] then
          rbind (vms_file (vms_device (vms_node name it))) (\<lambda>(it, p).
            Inr (if it \<noteq> [] \<and> hd it = CHR '';'' then p\<lparr>p_version := tl it\<rparr> else p))
        else Inr (path_clear\<lparr>p_name := name\<rparr>))"

definition vms_component :: "string \<Rightarrow> string" where
  "vms_component d = (if d = ''..'' then ''-'' else d)"

definition buildVMS :: "fpath \<Rightarrow> string" where
  "buildVMS p =
    (if p_node p \<noteq> [] then p_node p @ ''::'' else [])
    @ (if p_device p \<noteq> [] then p_device p @ '':'' else [])
    @ (if p_dirs p \<noteq> [] then
         ''['' @ (if \<not> p_absolute p \<and> hd (p_dirs p) \<noteq> ''..'' then ''.'' else [])
         @ vms_component (hd (p_dirs p))
         @ concat (map (\<lambda>d. (if d \<noteq> ''..'' then ''.'' else []) @ vms_component d) (tl (p_dirs p)))
         @ '']''
       else [])
    @ p_name p
    @ (if p_version p \<noteq> [] then '';'' @ p_version p else [])"

section \<open>Choice of the syntax\<close>

text \<open>
  \<open>guess_scan\<close> is the loop of \<^verbatim>\<open>parseGuess\<close>, whose cases for the two brackets fall through; \<open>semiIt\<close> is the rest of
  the string from the last bracket or semicolon on.
\<close>

record guess =
  hasBackslash :: bool
  hasSlash :: bool
  hasOpenBracket :: bool
  hasClosBracket :: bool
  semiIt :: string

fun guess_scan :: "string \<Rightarrow> guess \<Rightarrow> guess" where
  "guess_scan [] g = g"
| "guess_scan (c # it) g =
    guess_scan it
      (if c = CHR 0x5C then g\<lparr>hasBackslash := True\<rparr>
       else if c = CHR ''/'' then g\<lparr>hasSlash := True\<rparr>
       else
         let g = (if c = CHR ''['' then g\<lparr>hasOpenBracket := True\<rparr> else g);
             g = (if c = CHR ''['' \<or> c = CHR '']'' then g\<lparr>hasClosBracket := hasOpenBracket g\<rparr> else g)
         in if c = CHR ''['' \<or> c = CHR '']'' \<or> c = CHR '';'' then g\<lparr>semiIt := c # it\<rparr> else g)"

definition isWindows :: "string \<Rightarrow> bool" where
  "isWindows path \<longleftrightarrow> length path > 2 \<and> path ! 1 = CHR '':'' \<and> (path ! 2 = CHR ''/'' \<or> path ! 2 = CHR 0x5C)"

definition parseGuess :: "string \<Rightarrow> string \<Rightarrow> fpath result option" where
  "parseGuess home path =
    (let g0 = \<lparr>hasBackslash = False, hasSlash = False, hasOpenBracket = False, hasClosBracket = False, semiIt = []\<rparr>;
         g = (if \<not> isWindows path then guess_scan path g0 else g0)
     in if hasBackslash g \<or> isWindows path then Some (parseWindows path)
        else if hasSlash g then map_option Inr (parseUnix home path)
        else if hasClosBracket g
            \<or> (semiIt g \<noteq> [] \<and> list_all (\<lambda>c. \<not> (schar c < schar CHR ''0'' \<or> schar c > schar CHR ''9'')) (tl (semiIt g)))
          then Some (parseVMS path)
        else map_option Inr (parseUnix home path))"

definition path_assign :: "string \<Rightarrow> string \<Rightarrow> path_style \<Rightarrow> fpath result option" where
  "path_assign home path style =
    (case style of
       PATH_UNIX \<Rightarrow> map_option Inr (parseUnix home path)
     | PATH_WINDOWS \<Rightarrow> Some (parseWindows path)
     | PATH_VMS \<Rightarrow> Some (parseVMS path)
     | PATH_NATIVE \<Rightarrow> map_option Inr (parseUnix home path)
     | PATH_GUESS \<Rightarrow> parseGuess home path)"

definition path_toString :: "path_style \<Rightarrow> fpath \<Rightarrow> string" where
  "path_toString style p =
    (case style of
       PATH_UNIX \<Rightarrow> buildUnix p
     | PATH_WINDOWS \<Rightarrow> buildWindows p
     | PATH_VMS \<Rightarrow> buildVMS p
     | _ \<Rightarrow> buildUnix p)"

definition tryParse :: "string \<Rightarrow> string \<Rightarrow> path_style \<Rightarrow> fpath \<Rightarrow> (bool \<times> fpath) option" where
  "tryParse home path style this =
    map_option (\<lambda>r. case r of Inl e \<Rightarrow> (False, this) | Inr p \<Rightarrow> (True, p)) (path_assign home path style)"

definition addDirectorySeparator :: "string \<Rightarrow> path_style \<Rightarrow> string result" where
  "addDirectorySeparator path style =
    (if path = [] then Inl AssertionViolationException
     else if style = PATH_GUESS then Inl BugcheckException
     else
       let ch = (case style of PATH_WINDOWS \<Rightarrow> CHR 0x5C | PATH_VMS \<Rightarrow> CHR ''.'' | _ \<Rightarrow> CHR ''/'')
       in Inr (if last path \<noteq> ch then path @ [ch] else path))"

definition parseDirectory :: "string \<Rightarrow> string \<Rightarrow> path_style \<Rightarrow> fpath result option" where
  "parseDirectory home path style =
    (case addDirectorySeparator path style of
       Inl e \<Rightarrow> Some (Inl e)
     | Inr s \<Rightarrow> map_option (\<lambda>r. rbind r (\<lambda>p. Inr (makeDirectory p))) (path_assign home s style))"

section \<open>Searching a list of directories\<close>

fun path_find :: "string \<Rightarrow> (fpath \<Rightarrow> bool) \<Rightarrow> string list \<Rightarrow> string \<Rightarrow> fpath \<Rightarrow> (bool \<times> fpath) option" where
  "path_find home exists [] name path = Some (False, path)"
| "path_find home exists (d # it) name path =
    Option.bind (parseUnix home d) (\<lambda>p.
      Option.bind (parseUnix home name) (\<lambda>r.
        let p = path_resolve r (makeDirectory p)
        in if exists p then Some (True, p) else path_find home exists it name path))"

definition path_find_list :: "string \<Rightarrow> (fpath \<Rightarrow> bool) \<Rightarrow> string \<Rightarrow> string \<Rightarrow> fpath \<Rightarrow> (bool \<times> fpath) option" where
  "path_find_list home exists pathList name path =
    path_find home exists (StringTokenizer pathList '':'' (TOK_IGNORE_EMPTY + TOK_TRIM)) name path"

section \<open>PathImpl for Unix\<close>

definition with_slash :: "string \<Rightarrow> string" where
  "with_slash path = (if path \<noteq> [] \<and> last path \<noteq> CHR ''/'' then path @ ''/'' else path)"

text \<open>\<open>pw_dir\<close> is the directory of the password database, if there is an entry.\<close>

definition homeImpl :: "(string \<Rightarrow> string option) \<Rightarrow> string option \<Rightarrow> string" where
  "homeImpl getenv pw_dir =
    with_slash (case getenv ''HOME'' of Some h \<Rightarrow> h | None \<Rightarrow> (case pw_dir of Some d \<Rightarrow> d | None \<Rightarrow> ''/''))"

definition xdgHomeImpl :: "(string \<Rightarrow> string option) \<Rightarrow> string option \<Rightarrow> string \<Rightarrow> string \<Rightarrow> string" where
  "xdgHomeImpl getenv pw_dir var dir =
    (let path = (case getenv var of Some v \<Rightarrow> v | None \<Rightarrow> [])
     in if path \<noteq> [] then path
        else
          let path = homeImpl getenv pw_dir
          in if path \<noteq> [] \<and> last path = CHR ''/'' then path @ dir else path)"

definition configHomeImpl :: "(string \<Rightarrow> string option) \<Rightarrow> string option \<Rightarrow> string" where
  "configHomeImpl getenv pw_dir = xdgHomeImpl getenv pw_dir ''XDG_CONFIG_HOME'' ''.config/''"

definition dataHomeImpl :: "(string \<Rightarrow> string option) \<Rightarrow> string option \<Rightarrow> string" where
  "dataHomeImpl getenv pw_dir = xdgHomeImpl getenv pw_dir ''XDG_DATA_HOME'' ''.local/share/''"

definition cacheHomeImpl :: "(string \<Rightarrow> string option) \<Rightarrow> string option \<Rightarrow> string" where
  "cacheHomeImpl getenv pw_dir = xdgHomeImpl getenv pw_dir ''XDG_CACHE_HOME'' ''.cache/''"

definition tempHomeImpl :: "(string \<Rightarrow> string option) \<Rightarrow> string option \<Rightarrow> string" where
  "tempHomeImpl getenv pw_dir =
    (let path = homeImpl getenv pw_dir
     in if path \<noteq> [] \<and> last path = CHR ''/'' then path @ ''.local/tmp/'' else path)"

definition tempImpl :: "(string \<Rightarrow> string option) \<Rightarrow> string" where
  "tempImpl getenv = (case getenv ''TMPDIR'' of Some tmp \<Rightarrow> with_slash tmp | None \<Rightarrow> ''/tmp/'')"

text \<open>
  \<^verbatim>\<open>expandImpl\<close>.  A backslash at the very end makes the loop dereference the end iterator, which is undefined
  behaviour.
\<close>

definition var_char :: "char \<Rightarrow> bool" where
  "var_char c \<longleftrightarrow> isAlphaNumeric (schar c) \<or> c = CHR ''_''"

definition env_value :: "(string \<Rightarrow> string option) \<Rightarrow> string \<Rightarrow> string" where
  "env_value getenv var = (case getenv var of Some val \<Rightarrow> val | None \<Rightarrow> [])"

lemma brace_shorter: "it \<noteq> [] \<Longrightarrow> length (tl (dropWhile P (tl (tl it)))) < length it"
  using length_dropWhile_le[of P "tl (tl it)"] by (cases it) auto

lemma var_shorter: "it \<noteq> [] \<Longrightarrow> length (dropWhile P (tl it)) < length it"
  using length_dropWhile_le[of P "tl it"] by (cases it) auto

function expand_loop :: "(string \<Rightarrow> string option) \<Rightarrow> string \<Rightarrow> string \<Rightarrow> string outcome" where
  "expand_loop getenv it res =
    (if it = [] then Ret res
     else if hd it = CHR 0x5C then
       if tl it = [] then UB
       else if hd (tl it) = CHR ''$'' then expand_loop getenv (tl (tl it)) (res @ ''$'')
       else expand_loop getenv (tl it) res
     else if hd it = CHR ''$'' then
       let it = tl it
       in if it \<noteq> [] \<and> hd it = CHR ''{'' then
            let var = takeWhile (\<lambda>c. c \<noteq> CHR ''}'') (tl it);
                it = dropWhile (\<lambda>c. c \<noteq> CHR ''}'') (tl it)
            in expand_loop getenv (tl it) (res @ env_value getenv var)
          else expand_loop getenv (dropWhile var_char it) (res @ env_value getenv (takeWhile var_char it))
     else expand_loop getenv (tl it) (res @ [hd it]))"
  by pat_completeness auto
termination
  by (relation "measure (\<lambda>(getenv, it, res). length it)")
    (auto intro: brace_shorter[simplified] var_shorter[simplified] simp: neq_Nil_conv[of "_ :: string"])

declare expand_loop.simps [simp del]

text \<open>The loop that replaces double slashes continues behind the slash it has put in.\<close>

fun squeeze :: "string \<Rightarrow> string" where
  "squeeze (c # d # s) = (if c = CHR ''/'' \<and> d = CHR ''/'' then c # squeeze s else c # squeeze (d # s))"
| "squeeze s = s"

definition expandImpl :: "(string \<Rightarrow> string option) \<Rightarrow> string option \<Rightarrow> string \<Rightarrow> string outcome" where
  "expandImpl getenv pw_dir path =
    (let (res, it) =
       (if path \<noteq> [] \<and> hd path = CHR ''~'' then
          if tl path \<noteq> [] \<and> hd (tl path) = CHR ''/'' then
            (case getenv ''HOME'' of Some h \<Rightarrow> with_slash h | None \<Rightarrow> homeImpl getenv pw_dir, tl (tl path))
          else (''~'', tl path)
        else ([], path))
     in case expand_loop getenv it res of
          Ret r \<Rightarrow> Ret (squeeze r)
        | Throw e \<Rightarrow> Throw e
        | UB \<Rightarrow> UB)"

section \<open>Lists of directories\<close>

text \<open>
  \<open>push\<close> is \<^verbatim>\<open>pushDirectory\<close> on the list alone.  A list is normal if it has no empty name and no \<^verbatim>\<open>.\<close>, and \<^verbatim>\<open>..\<close> only at the
  start of a relative path.
\<close>

definition push :: "bool \<Rightarrow> string list \<Rightarrow> string \<Rightarrow> string list" where
  "push absolute ds d =
    (if d = [] \<or> d = ''.'' then ds
     else if d = ''..'' then
       if ds \<noteq> [] \<and> last ds \<noteq> ''..'' then butlast ds else if absolute then ds else ds @ [d]
     else ds @ [d])"

lemma pushDirectory_push: "pushDirectory d p = p\<lparr>p_dirs := push (p_absolute p) (p_dirs p) d\<rparr>"
  by (simp add: pushDirectory_def push_def)

lemma foldl_pushDirectory: "foldl (\<lambda>p d. pushDirectory d p) p ds = p\<lparr>p_dirs := foldl (push (p_absolute p)) (p_dirs p) ds\<rparr>"
  by (induction ds arbitrary: p) (simp_all add: pushDirectory_push)

definition plain :: "string \<Rightarrow> bool" where
  "plain d \<longleftrightarrow> d \<noteq> [] \<and> d \<noteq> ''.'' \<and> d \<noteq> ''..''"

definition normal :: "bool \<Rightarrow> string list \<Rightarrow> bool" where
  "normal absolute ds \<longleftrightarrow> list_all plain (if absolute then ds else dropWhile (\<lambda>d. d = ''..'') ds)"

abbreviation path_normal :: "fpath \<Rightarrow> bool" where
  "path_normal p \<equiv> normal (p_absolute p) (p_dirs p)"

lemma plain_dotdot [simp]: "\<not> plain ''..''"
  by (simp add: plain_def)

lemma dropWhile_replicate: "P x \<Longrightarrow> dropWhile P (replicate k x @ xs) = dropWhile P xs"
  by (induction k) auto

lemma normal_iff:
  "normal absolute ds \<longleftrightarrow> (\<exists>k ns. ds = replicate k ''..'' @ ns \<and> list_all plain ns \<and> (absolute \<longrightarrow> k = 0))"
proof
  assume n: "normal absolute ds"
  let ?t = "takeWhile (\<lambda>d. d = ''..'') ds" and ?ns = "dropWhile (\<lambda>d. d = ''..'') ds"
  have t: "replicate (length ?t) ''..'' = ?t" by (rule replicate_length_same) (auto dest: set_takeWhileD)
  have "absolute \<Longrightarrow> ?t = []" using n by (cases ds) (auto simp: normal_def)
  moreover have "list_all plain ?ns" using n by (auto simp: normal_def list_all_iff split: if_splits dest: set_dropWhileD)
  moreover have "ds = replicate (length ?t) ''..'' @ ?ns" unfolding t by simp
  ultimately show "\<exists>k ns. ds = replicate k ''..'' @ ns \<and> list_all plain ns \<and> (absolute \<longrightarrow> k = 0)"
    by (intro exI[of _ "length ?t"] exI[of _ ?ns]) simp
next
  assume "\<exists>k ns. ds = replicate k ''..'' @ ns \<and> list_all plain ns \<and> (absolute \<longrightarrow> k = 0)"
  then obtain k ns where ds: "ds = replicate k ''..'' @ ns" "list_all plain ns" "absolute \<longrightarrow> k = 0" by blast
  have "dropWhile (\<lambda>d. d = ''..'') ds = dropWhile (\<lambda>d. d = ''..'') ns" unfolding ds(1) by (rule dropWhile_replicate) simp
  moreover have "list_all plain (dropWhile (\<lambda>d. d = ''..'') ns)" using ds(2) by (auto simp: list_all_iff dest: set_dropWhileD)
  ultimately show "normal absolute ds" using ds by (simp add: normal_def)
qed

lemma normal_last:
  assumes "normal absolute ds" "ds \<noteq> []" "last ds \<noteq> ''..''"
  shows "plain (last ds)"
proof -
  obtain k ns where ds: "ds = replicate k ''..'' @ ns" "list_all plain ns" using assms(1) by (auto simp: normal_iff)
  have "ns \<noteq> []" using assms(2,3) ds(1) by (cases "k = 0") (auto simp: last_replicate)
  then show ?thesis using ds by (auto simp: list_all_iff)
qed

lemma normal_Nil [simp]: "normal absolute []"
  by (simp add: normal_def)

lemma normal_push: "normal absolute ds \<Longrightarrow> normal absolute (push absolute ds d)"
proof -
  assume "normal absolute ds"
  then obtain k ns where ds: "ds = replicate k ''..'' @ ns" "list_all plain ns" "absolute \<longrightarrow> k = 0" by (auto simp: normal_iff)
  consider "d = [] \<or> d = ''.''" | "plain d" | "d = ''..''" "ns = []" | "d = ''..''" "ns \<noteq> []" by (auto simp: plain_def)
  then show ?thesis
  proof cases
    case 1
    then show ?thesis using ds by (auto simp: push_def normal_iff)
  next
    case 2
    then have "push absolute ds d = replicate k ''..'' @ ns @ [d]" using ds by (auto simp: push_def plain_def)
    then show ?thesis unfolding normal_iff using ds 2 by (intro exI[of _ k] exI[of _ "ns @ [d]"]) simp
  next
    case 3
    then have "push absolute ds d = replicate (if absolute then 0 else Suc k) ''..''"
      using ds by (cases k) (auto simp: push_def replicate_append_same)
    then show ?thesis unfolding normal_iff by (intro exI[of _ "if absolute then 0 else Suc k"] exI[of _ "[]"]) simp
  next
    case 4
    then have "plain (last ns)" using ds by (auto simp: list_all_iff)
    then have "push absolute ds d = replicate k ''..'' @ butlast ns" using ds 4 by (auto simp: push_def plain_def butlast_append)
    then show ?thesis unfolding normal_iff using ds
      by (intro exI[of _ k] exI[of _ "butlast ns"]) (auto simp: list_all_iff dest: in_set_butlastD)
  qed
qed

lemma normal_foldl: "normal absolute ds \<Longrightarrow> normal absolute (foldl (push absolute) ds es)"
  by (induction es arbitrary: ds) (simp_all add: normal_push)

lemma foldl_push_plain: "list_all plain es \<Longrightarrow> foldl (push absolute) ds es = ds @ es"
  by (induction es arbitrary: ds) (simp_all add: push_def plain_def)

text \<open>A normal list is pushed back as it is.\<close>

lemma foldl_push_normal: "normal absolute ds \<Longrightarrow> foldl (push absolute) [] ds = ds"
proof -
  assume "normal absolute ds"
  then obtain k ns where ds: "ds = replicate k ''..'' @ ns" "list_all plain ns" "absolute \<longrightarrow> k = 0" by (auto simp: normal_iff)
  have "foldl (push False) (replicate n ''..'') (replicate k ''..'') = replicate (n + k) ''..''" for n
  proof (induction k arbitrary: n)
    case (Suc k)
    have "push False (replicate n ''..'') ''..'' = replicate (Suc n) ''..''"
      by (cases n) (auto simp: push_def replicate_append_same)
    then show ?case using Suc[of "Suc n"] by simp
  qed simp
  from this[of 0] have "foldl (push absolute) [] (replicate k ''..'') = replicate k ''..''" using ds by (cases absolute) auto
  then show ?thesis using ds foldl_push_plain[of ns] by simp
qed

text \<open>
  What a list of directories means: a walk on the stack of the names from the root, where the parent of the root is
  the root.
\<close>

definition cd :: "string list \<Rightarrow> string \<Rightarrow> string list" where
  "cd st d = (if d = [] \<or> d = ''.'' then st else if d = ''..'' then butlast st else st @ [d])"

lemma cd_push_relative:
  assumes "normal False ds"
  shows "foldl cd st (push False ds d) = cd (foldl cd st ds) d"
proof (cases "ds \<noteq> [] \<and> last ds \<noteq> ''..'' \<and> d = ''..''")
  case True
  then have p: "plain (last ds)" using normal_last[OF assms] by blast
  have e: "ds = butlast ds @ [last ds]" using True by simp
  have "foldl cd st ds = foldl cd st (butlast ds) @ [last ds]"
    using p by (subst e) (simp add: cd_def plain_def)
  then show ?thesis using True by (simp add: push_def cd_def)
next
  case False
  then show ?thesis by (auto simp: push_def cd_def)
qed

lemma cd_push_absolute:
  assumes "normal True ds"
  shows "push True ds d = cd ds d"
proof -
  have "ds \<noteq> [] \<Longrightarrow> last ds \<noteq> ''..''" using assms by (auto simp: normal_def list_all_iff plain_def)
  then show ?thesis by (cases "ds = []") (auto simp: push_def cd_def)
qed

lemma foldl_cd_relative: "normal False ds \<Longrightarrow> foldl cd st (foldl (push False) ds es) = foldl cd (foldl cd st ds) es"
  by (induction es arbitrary: ds) (simp_all add: normal_push cd_push_relative)

lemma foldl_cd_absolute: "normal True ds \<Longrightarrow> foldl (push True) ds es = foldl cd ds es"
proof (induction es arbitrary: ds)
  case (Cons e es)
  then show ?case using normal_push[of True ds e] cd_push_absolute[of ds e] by simp
qed simp

text \<open>Pushing the result of pushing is pushing one after the other.\<close>

lemma push_push:
  assumes "normal False ds"
  shows "foldl (push a) st (push False ds d) = push a (foldl (push a) st ds) d"
proof (cases "ds \<noteq> [] \<and> last ds \<noteq> ''..'' \<and> d = ''..''")
  case True
  then have p: "plain (last ds)" using normal_last[OF assms] by blast
  have e: "ds = butlast ds @ [last ds]" using True by simp
  have "foldl (push a) st ds = foldl (push a) st (butlast ds) @ [last ds]"
    using p by (subst e) (simp add: push_def plain_def)
  then show ?thesis using True p by (simp add: push_def plain_def)
next
  case False
  then show ?thesis by (auto simp: push_def)
qed

lemma foldl_push_push: "normal False ds \<Longrightarrow> foldl (push a) st (foldl (push False) ds es) = foldl (push a) (foldl (push a) st ds) es"
  by (induction es arbitrary: ds) (simp_all add: normal_push push_push)

section \<open>The parsers by fields\<close>

lemma unix_loop_fields:
  "unix_loop it p =
    (let fs = split_fields ''/'' it; q = foldl unix_dir p (butlast fs) in if last fs = [] then q else q\<lparr>p_name := last fs\<rparr>)"
proof (induction it p rule: unix_loop.induct)
  case (1 it p)
  show ?case
  proof (cases "dropWhile (\<lambda>c. c \<noteq> CHR ''/'') it")
    case Nil
    then have "takeWhile (\<lambda>c. c \<noteq> CHR ''/'') it = it" by (metis append_Nil2 takeWhile_dropWhile_id)
    moreover have "split_fields ''/'' it = [it]" using Nil fields_span[of "''/''" it] by (simp del: dropWhile_eq_Nil_conv)
    ultimately show ?thesis using Nil by (subst unix_loop.simps) (auto simp del: dropWhile_eq_Nil_conv simp: Let_def)
  next
    case (Cons c r)
    then have it: "it \<noteq> []" by auto
    have f: "split_fields ''/'' it = takeWhile (\<lambda>c. c \<noteq> CHR ''/'') it # split_fields ''/'' r" using Cons fields_span[of "''/''" it] by simp
    have "unix_loop it p = unix_loop r (unix_dir p (takeWhile (\<lambda>c. c \<noteq> CHR ''/'') it))"
      using it Cons by (subst unix_loop.simps) simp
    then show ?thesis using 1[OF it refl refl] Cons f fields_nonempty[of "''/''" r] by (simp add: Let_def)
  qed
qed

lemma win_fields: "(\<lambda>c. c \<notin> set [CHR 0x5C, CHR ''/'']) = (\<lambda>c. \<not> win_sep c)"
  by (auto simp: win_sep_def)

lemma win_loop_fields:
  "win_loop it p =
    (let fs = split_fields [CHR 0x5C, CHR ''/''] it; q = foldl (\<lambda>p d. pushDirectory d p) p (butlast fs)
     in if last fs = [] then q else q\<lparr>p_name := last fs\<rparr>)"
proof (induction it p rule: win_loop.induct)
  case (1 it p)
  note span = fields_span[of "[CHR 0x5C, CHR ''/'']" it, unfolded win_fields]
  show ?case
  proof (cases "dropWhile (\<lambda>c. \<not> win_sep c) it")
    case Nil
    then have "takeWhile (\<lambda>c. \<not> win_sep c) it = it" by (metis append_Nil2 takeWhile_dropWhile_id)
    moreover have "split_fields [CHR 0x5C, CHR ''/''] it = [it]" using span by (simp only: Nil list.case)
    ultimately show ?thesis using Nil by (subst win_loop.simps) (auto simp del: dropWhile_eq_Nil_conv simp: Let_def)
  next
    case (Cons c r)
    then have it: "it \<noteq> []" by auto
    have f: "split_fields [CHR 0x5C, CHR ''/''] it = takeWhile (\<lambda>c. \<not> win_sep c) it # split_fields [CHR 0x5C, CHR ''/''] r"
      using span by (simp only: Cons list.case)
    have "win_loop it p = win_loop r (pushDirectory (takeWhile (\<lambda>c. \<not> win_sep c) it) p)"
      using it Cons by (subst win_loop.simps) simp
    then show ?thesis using 1[OF it refl refl] Cons f fields_nonempty[of "[CHR 0x5C, CHR ''/'']" r] by (simp add: Let_def)
  qed
qed

text \<open>A colon that names no device.\<close>

definition no_device :: "string \<Rightarrow> bool" where
  "no_device d \<longleftrightarrow> d = [] \<or> last d \<noteq> CHR '':''"

lemma unix_dirs_push:
  "list_all no_device ds \<Longrightarrow> foldl unix_dir p ds = p\<lparr>p_dirs := foldl (push (p_absolute p)) (p_dirs p) ds\<rparr>"
proof (induction ds arbitrary: p)
  case (Cons d ds)
  then have "unix_dir p d = pushDirectory d p" by (auto simp: unix_dir_def no_device_def)
  then show ?case using Cons by (simp add: pushDirectory_push)
qed simp

lemma normal_prefix:
  assumes "normal a (xs @ ys)"
  shows "normal a xs"
proof (cases "a \<or> dropWhile (\<lambda>d. d = ''..'') xs \<noteq> []")
  case True
  then show ?thesis
  proof
    assume "dropWhile (\<lambda>d. d = ''..'') xs \<noteq> []"
    then obtain x where "x \<in> set xs" "x \<noteq> ''..''" by auto
    then have "dropWhile (\<lambda>d. d = ''..'') (xs @ ys) = dropWhile (\<lambda>d. d = ''..'') xs @ ys" by (rule dropWhile_append1)
    then show ?thesis using assms by (simp add: normal_def split: if_splits)
  qed (use assms in \<open>simp add: normal_def\<close>)
next
  case False
  then have "dropWhile (\<lambda>d. d = ''..'') xs = []" "\<not> a" by blast+
  then show ?thesis by (simp only: normal_def if_False list.pred_inject)
qed

lemma push_snoc:
  assumes "normal a (xs @ [d])"
  shows "push a xs d = xs @ [d]"
proof -
  have "foldl (push a) [] xs = xs" by (rule foldl_push_normal[OF normal_prefix[OF assms]])
  then show ?thesis using foldl_push_normal[OF assms] by simp
qed

text \<open>Behind a directory, a colon is an ordinary character.\<close>

lemma unix_dirs_normal:
  assumes "normal (p_absolute p) (p_dirs p @ ds)" "p_dirs p \<noteq> [] \<or> ds = [] \<or> no_device (hd ds)"
  shows "foldl unix_dir p ds = p\<lparr>p_dirs := p_dirs p @ ds\<rparr>"
  using assms
proof (induction ds arbitrary: p)
  case (Cons d ds)
  have "normal (p_absolute p) (p_dirs p @ [d])" using Cons.prems(1) normal_prefix[of _ "p_dirs p @ [d]" ds] by simp
  then have d: "unix_dir p d = p\<lparr>p_dirs := p_dirs p @ [d]\<rparr>"
    using Cons.prems(2) push_snoc by (auto simp: unix_dir_def pushDirectory_push no_device_def)
  show ?case using Cons.IH[of "p\<lparr>p_dirs := p_dirs p @ [d]\<rparr>"] Cons.prems(1) by (simp add: d)
qed simp

section \<open>A tilde\<close>

definition tilde :: "string \<Rightarrow> bool" where
  "tilde s \<longleftrightarrow> s \<noteq> [] \<and> hd s = CHR ''~'' \<and> (tl s = [] \<or> hd (tl s) = CHR ''/'')"

lemma parseUnix_plain:
  "\<not> tilde s \<Longrightarrow> parseUnix home s =
    Some (if s \<noteq> [] \<and> hd s = CHR ''/'' then unix_loop (tl s) (path_clear\<lparr>p_absolute := True\<rparr>) else unix_loop s path_clear)"
  by (subst parseUnix.simps) (auto simp: tilde_def unix_loop.simps[of "[]"])

lemma parseUnix_tilde:
  "tilde s \<Longrightarrow> parseUnix home s =
    Option.bind (parseUnix home home) (\<lambda>cwd. Some (unix_loop (tl s) (path_clear\<lparr>p_dirs := p_dirs cwd, p_absolute := True\<rparr>)))"
  by (subst parseUnix.simps) (auto simp: tilde_def)

lemma parseUnix_returns:
  assumes "parseUnix home s = Some p"
  shows "\<not> (tilde s \<and> tilde home)"
proof (rule parseUnix.raw_induct[where P = "\<lambda>home s p. \<not> (tilde s \<and> tilde home)", OF _ assms])
  fix rec home s p
  assume IH: "\<And>home s p. rec home s = Some p \<Longrightarrow> \<not> (tilde s \<and> tilde home)"
    and eq: "(if s = [] then Some path_clear
      else if hd s = CHR ''/'' then Some (unix_loop (tl s) (path_clear\<lparr>p_absolute := True\<rparr>))
      else if hd s = CHR ''~'' \<and> (tl s = [] \<or> hd (tl s) = CHR ''/'') then
        Option.bind (rec home home) (\<lambda>cwd. Some (unix_loop (tl s) (path_clear\<lparr>p_dirs := p_dirs cwd, p_absolute := True\<rparr>)))
      else Some (unix_loop s path_clear)) = Some p"
  show "\<not> (tilde s \<and> tilde home)"
  proof
    assume t: "tilde s \<and> tilde home"
    then obtain cwd where "rec home home = Some cwd"
      using eq by (auto simp: tilde_def bind_eq_Some_conv)
    then show False using IH t by blast
  qed
qed

lemma parseUnix_terminates: "(\<exists>p. parseUnix home s = Some p) \<longleftrightarrow> \<not> (tilde s \<and> tilde home)"
proof
  assume n: "\<not> (tilde s \<and> tilde home)"
  show "\<exists>p. parseUnix home s = Some p"
  proof (cases "tilde s")
    case True
    then have "\<exists>cwd. parseUnix home home = Some cwd" using n parseUnix_plain[of home home] by blast
    then show ?thesis using parseUnix_tilde[OF True] by auto
  next
    case False
    then show ?thesis using parseUnix_plain by blast
  qed
qed (use parseUnix_returns in blast)

section \<open>The parsers deliver normal paths\<close>

lemma unix_dir_normal: "path_normal p \<Longrightarrow> path_normal (unix_dir p d)"
  using normal_push by (auto simp: unix_dir_def pushDirectory_push)

lemma unix_dirs_keep: "path_normal p \<Longrightarrow> path_normal (foldl unix_dir p ds)"
  by (induction ds arbitrary: p) (simp_all add: unix_dir_normal)

lemma unix_loop_normal: "path_normal p \<Longrightarrow> path_normal (unix_loop it p)"
  using unix_dirs_keep by (simp add: unix_loop_fields Let_def)

lemma parseUnix_normal_plain: "\<not> tilde s \<Longrightarrow> parseUnix home s = Some p \<Longrightarrow> path_normal p"
  by (auto simp: parseUnix_plain path_clear_def intro!: unix_loop_normal)

lemma unix_dirs_absolute: "p_absolute p \<Longrightarrow> p_absolute (foldl unix_dir p ds)"
  by (induction ds arbitrary: p) (simp_all add: unix_dir_def pushDirectory_push)

lemma unix_loop_absolute: "p_absolute p \<Longrightarrow> p_absolute (unix_loop it p)"
  using unix_dirs_absolute by (simp add: unix_loop_fields Let_def)

lemma parseUnix_normal:
  assumes "home \<noteq> []" "hd home = CHR ''/''" "parseUnix home s = Some p"
  shows "path_normal p"
proof (cases "tilde s")
  case True
  have h: "\<not> tilde home" using assms by (simp add: tilde_def)
  then obtain cwd where c: "parseUnix home home = Some cwd" "p_absolute cwd"
    using assms parseUnix_plain[OF h, of home] by (simp add: unix_loop_absolute)
  then have "normal True (p_dirs cwd)" using parseUnix_normal_plain[OF h c(1)] by simp
  then show ?thesis using assms(3) parseUnix_tilde[OF True, of home] c unix_loop_normal by auto
next
  case False
  then show ?thesis using parseUnix_normal_plain assms(3) by blast
qed

lemma win_loop_normal: "path_normal p \<Longrightarrow> path_normal (win_loop it p)"
  using normal_foldl by (auto simp: win_loop_fields foldl_pushDirectory Let_def)

lemma makeDirectory_push:
  "makeDirectory p = p\<lparr>p_dirs := push (p_absolute p) (p_dirs p) (p_name p), p_name := [], p_version := []\<rparr>"
  by (simp add: makeDirectory_def pushDirectory_push)

lemma win_root_clear: "win_root s = Inr (it, p) \<Longrightarrow> p_dirs p = []"
  by (auto simp: win_root_def win_drive_def path_clear_def Let_def split: if_splits)

lemma parseWindows_normal: "parseWindows s = Inr p \<Longrightarrow> path_normal p"
  using win_loop_normal normal_push
  by (auto simp: parseWindows_def rbind_eq_Inr makeDirectory_push Let_def dest!: win_root_clear split: if_splits)

section \<open>Printing and parsing\<close>

text \<open>
  The paths whose printed form the Unix parser understands: no node and no version, directories in normal form, no slash in a name, absolute if there
  is a device.  The first directory must not end in a colon, because it would be read as a device, and the first name of a
  relative path must not be a tilde, because it would be read as the home directory.
\<close>

definition unix_ok :: "fpath \<Rightarrow> bool" where
  "unix_ok p \<longleftrightarrow> p_node p = [] \<and> p_version p = [] \<and> path_normal p
    \<and> list_all (\<lambda>d. CHR ''/'' \<notin> set d) (p_name p # p_device p # p_dirs p)
    \<and> (p_device p \<noteq> [] \<longrightarrow> p_absolute p)
    \<and> (p_dirs p \<noteq> [] \<longrightarrow> no_device (hd (p_dirs p)))
    \<and> (\<not> p_absolute p \<longrightarrow> hd (p_dirs p @ [p_name p]) \<noteq> ''~'')"

lemma unix_loop_print:
  assumes "list_all (\<lambda>d. CHR ''/'' \<notin> set d) (n # ds)" "normal (p_absolute p) ds" "p_dirs p = []" "p_name p = []"
    "ds \<noteq> [] \<longrightarrow> no_device (hd ds)"
  shows "unix_loop (concat (map (\<lambda>d. d @ ''/'') ds) @ n) p = p\<lparr>p_dirs := ds, p_name := n\<rparr>"
proof -
  have f: "split_fields ''/'' (concat (map (\<lambda>d. d @ ''/'') ds) @ n) = ds @ [n]"
    using assms(1) by (intro fields_print) (auto simp: list_all_iff)
  have "foldl unix_dir p ds = p\<lparr>p_dirs := ds\<rparr>" using unix_dirs_normal[of p ds] assms by auto
  then show ?thesis unfolding unix_loop_fields f using assms(4) by (simp add: Let_def)
qed

lemma unix_text_hd:
  assumes "list_all (\<lambda>d. CHR ''/'' \<notin> set d) (n # ds)" "list_all (\<lambda>d. d \<noteq> []) ds" "hd (ds @ [n]) \<noteq> ''~''"
  defines "s \<equiv> concat (map (\<lambda>d. d @ ''/'') ds) @ n"
  shows "\<not> tilde s" "s \<noteq> [] \<Longrightarrow> hd s \<noteq> CHR ''/''"
proof -
  have "\<not> tilde s \<and> (s \<noteq> [] \<longrightarrow> hd s \<noteq> CHR ''/'')"
  proof (cases ds)
    case Nil
    then have s: "s = n" by (simp add: s_def)
    then show ?thesis using assms(1,3) Nil by (cases n; cases "tl n") (auto simp: tilde_def)
  next
    case (Cons d ds')
    then have s: "s = d @ ''/'' @ concat (map (\<lambda>d. d @ ''/'') ds') @ n" by (simp add: s_def)
    show ?thesis using assms(1-3) Cons unfolding s by (cases d; cases "tl d") (auto simp: tilde_def)
  qed
  then show "\<not> tilde s" "s \<noteq> [] \<Longrightarrow> hd s \<noteq> CHR ''/''" by blast+
qed

lemma normal_nonempty:
  assumes "normal a ds"
  shows "list_all (\<lambda>d. d \<noteq> []) ds"
proof -
  obtain k ns where ds: "ds = replicate k ''..'' @ ns" "list_all plain ns" using assms by (auto simp: normal_iff)
  have "d \<noteq> []" if "d \<in> set ds" for d
  proof -
    have "d = ''..'' \<or> d \<in> set ns" using that unfolding ds(1) by auto
    then show ?thesis using ds(2) by (auto simp: list_all_iff plain_def)
  qed
  then show ?thesis by (simp add: list_all_iff)
qed

lemma path_eqI:
  "p_node p = p_node q \<Longrightarrow> p_device p = p_device q \<Longrightarrow> p_name p = p_name q \<Longrightarrow> p_version p = p_version q \<Longrightarrow>
   p_dirs p = p_dirs q \<Longrightarrow> p_absolute p = p_absolute q \<Longrightarrow> p = (q :: fpath)"
  by (rule fpath.equality) simp_all

lemma unix_print_parse:
  assumes "unix_ok p"
  shows "parseUnix home (buildUnix p) = Some p"
proof -
  let ?t = "concat (map (\<lambda>d. d @ ''/'') (p_dirs p)) @ p_name p"
  note ok = assms[unfolded unix_ok_def]
  have loop: "unix_loop ?t q = q\<lparr>p_dirs := p_dirs p, p_name := p_name p\<rparr>"
    if "p_absolute q = p_absolute p" "p_dirs q = []" "p_name q = []" for q
    using ok that by (intro unix_loop_print) simp_all
  show ?thesis
  proof (cases "p_absolute p")
    case False
    then have t: "buildUnix p = ?t" using ok by (auto simp: buildUnix_def)
    have "\<not> tilde ?t" "?t \<noteq> [] \<Longrightarrow> hd ?t \<noteq> CHR ''/''"
      using unix_text_hd[of "p_name p" "p_dirs p"] ok False normal_nonempty by auto
    then have "parseUnix home ?t = Some (unix_loop ?t path_clear)" using parseUnix_plain by auto
    also have "unix_loop ?t path_clear = p" using ok False by (subst loop) (auto simp: path_clear_def intro!: path_eqI)
    finally show ?thesis unfolding t .
  next
    case True
    let ?u = "if p_device p \<noteq> [] then p_device p @ '':/'' @ ?t else ?t"
    have b: "buildUnix p = CHR ''/'' # ?u" using True by (simp add: buildUnix_def)
    have "parseUnix home (buildUnix p) = Some (unix_loop ?u (path_clear\<lparr>p_absolute := True\<rparr>))"
      using parseUnix_plain[of "buildUnix p" home] unfolding b by (simp add: tilde_def)
    also have "unix_loop ?u (path_clear\<lparr>p_absolute := True\<rparr>) =
        unix_loop ?t (path_clear\<lparr>p_absolute := True, p_device := p_device p\<rparr>)"
    proof (cases "p_device p = []")
      case False
      have "CHR ''/'' \<notin> set (p_device p)" using ok by simp
      then have "\<forall>c \<in> set (p_device p). c \<noteq> CHR ''/''" by auto
      then have "takeWhile (\<lambda>c. c \<noteq> CHR ''/'') ?u = p_device p @ '':''" "dropWhile (\<lambda>c. c \<noteq> CHR ''/'') ?u = CHR ''/'' # ?t"
        using False by (simp_all add: takeWhile_append2 dropWhile_append2)
      then show ?thesis using False by (subst unix_loop.simps) (simp add: unix_dir_def path_clear_def)
    qed (simp add: path_clear_def)
    also have "\<dots> = p" using ok True by (subst loop) (auto simp: path_clear_def intro!: path_eqI)
    finally show ?thesis .
  qed
qed

text \<open>
  The paths whose printed form the Windows parser understands: no version, directories in normal form, no slash and no backslash in a name; a path with
  a node is absolute, has no device and has a directory if it has a name, one with a device is absolute and the device is a letter, and in all
  others the second character of the first name is not a colon, because it would be read as a drive.
\<close>

definition win_ok :: "fpath \<Rightarrow> bool" where
  "win_ok p \<longleftrightarrow> p_version p = [] \<and> path_normal p
    \<and> list_all (list_all (\<lambda>c. \<not> win_sep c)) (p_name p # p_node p # p_dirs p)
    \<and> (if p_node p \<noteq> [] then p_device p = [] \<and> p_absolute p \<and> (p_dirs p = [] \<longrightarrow> p_name p = [])
       else if p_device p \<noteq> [] then p_absolute p \<and> tl (p_device p) = [] \<and> drive_letter (hd (p_device p))
       else take 1 (drop 1 (hd (p_dirs p @ [p_name p]))) \<noteq> '':'')"

lemma win_loop_print:
  assumes "list_all (list_all (\<lambda>c. \<not> win_sep c)) (n # ds)" "normal (p_absolute p) ds" "p_dirs p = []" "p_name p = []"
  shows "win_loop (concat (map (\<lambda>d. d @ [CHR 0x5C]) ds) @ n) p = p\<lparr>p_dirs := ds, p_name := n\<rparr>"
proof -
  have f: "split_fields [CHR 0x5C, CHR ''/''] (concat (map (\<lambda>d. d @ [CHR 0x5C]) ds) @ n) = ds @ [n]"
    using assms(1) by (intro fields_print) (auto simp: list_all_iff win_sep_def)
  show ?thesis unfolding win_loop_fields f using assms(2-4) by (simp add: foldl_pushDirectory foldl_push_normal Let_def)
qed

lemma win_text_hd:
  assumes "list_all (list_all (\<lambda>c. \<not> win_sep c)) (n # ds)" "list_all (\<lambda>d. d \<noteq> []) ds"
  defines "s \<equiv> concat (map (\<lambda>d. d @ [CHR 0x5C]) ds) @ n"
  shows "s \<noteq> [] \<Longrightarrow> \<not> win_sep (hd s)"
    "take 1 (drop 1 (hd (ds @ [n]))) \<noteq> '':'' \<Longrightarrow> \<not> (tl s \<noteq> [] \<and> hd (tl s) = CHR '':'')"
proof -
  have "(s \<noteq> [] \<longrightarrow> \<not> win_sep (hd s)) \<and>
    (take 1 (drop 1 (hd (ds @ [n]))) \<noteq> '':'' \<longrightarrow> \<not> (tl s \<noteq> [] \<and> hd (tl s) = CHR '':''))"
  proof (cases ds)
    case Nil
    then have s: "s = n" by (simp add: s_def)
    then show ?thesis using assms(1) Nil by (cases n; cases "tl n") auto
  next
    case (Cons d ds')
    then have s: "s = d @ CHR 0x5C # concat (map (\<lambda>d. d @ [CHR 0x5C]) ds') @ n" by (simp add: s_def)
    show ?thesis using assms(1,2) Cons unfolding s by (cases d; cases "tl d") auto
  qed
  then show "s \<noteq> [] \<Longrightarrow> \<not> win_sep (hd s)"
    "take 1 (drop 1 (hd (ds @ [n]))) \<noteq> '':'' \<Longrightarrow> \<not> (tl s \<noteq> [] \<and> hd (tl s) = CHR '':'')" by blast+
qed

lemma win_sep_simps [simp]: "win_sep (CHR 0x5C)" "win_sep (CHR ''/'')" "\<not> win_sep (CHR '':'')"
  by (simp_all add: win_sep_def)

lemma drive_letter_sep: "drive_letter d \<Longrightarrow> \<not> win_sep d"
  by (auto simp: drive_letter_def win_sep_def schar_def)

lemma win_root_print:
  assumes "win_ok p"
  defines "t \<equiv> concat (map (\<lambda>d. d @ [CHR 0x5C]) (p_dirs p)) @ p_name p"
  shows "win_root (buildWindows p) =
    Inr (t, path_clear\<lparr>p_absolute := p_absolute p, p_node := p_node p, p_device := p_device p\<rparr>)"
proof -
  note ok = assms(1)[unfolded win_ok_def]
  have h: "t \<noteq> [] \<Longrightarrow> \<not> win_sep (hd t)"
    "take 1 (drop 1 (hd (p_dirs p @ [p_name p]))) \<noteq> '':'' \<Longrightarrow> \<not> (tl t \<noteq> [] \<and> hd (tl t) = CHR '':'')"
    using win_text_hd[of "p_name p" "p_dirs p"] ok normal_nonempty unfolding t_def by auto
  consider "p_node p \<noteq> []" | "p_node p = []" "p_device p \<noteq> []" | "p_node p = []" "p_device p = []" by blast
  then show ?thesis
  proof cases
    case 1
    then have b: "buildWindows p = [CHR 0x5C, CHR 0x5C] @ p_node p @ CHR 0x5C # t" by (simp add: buildWindows_def t_def)
    have "\<forall>c \<in> set (p_node p). \<not> win_sep c" using ok by (simp add: list_all_iff)
    then have "takeWhile (\<lambda>c. \<not> win_sep c) (p_node p @ CHR 0x5C # t) = p_node p"
      "dropWhile (\<lambda>c. \<not> win_sep c) (p_node p @ CHR 0x5C # t) = CHR 0x5C # t"
      by (simp_all add: takeWhile_append2 dropWhile_append2)
    then show ?thesis unfolding b win_root_def using 1 ok by (simp add: path_clear_def)
  next
    case 2
    then obtain d where d: "p_device p = [d]" "drive_letter d" using ok by (cases "p_device p") auto
    then have b: "buildWindows p = d # CHR '':'' # CHR 0x5C # t" using 2 by (simp add: buildWindows_def t_def)
    show ?thesis unfolding b win_root_def win_drive_def using 2 ok d drive_letter_sep[OF d(2)] by (simp add: path_clear_def)
  next
    case 3
    then have b: "buildWindows p = (if p_absolute p then [CHR 0x5C] else []) @ t" by (simp add: buildWindows_def t_def)
    have "win_drive t a = Inr (t, path_clear\<lparr>p_absolute := a\<rparr>)" for a using h(2) ok 3 by (auto simp: win_drive_def)
    then show ?thesis unfolding b win_root_def using 3 h(1) by (cases "p_absolute p"; cases t) (auto simp: path_clear_def)
  qed
qed

lemma win_print_parse:
  assumes "win_ok p"
  shows "parseWindows (buildWindows p) = Inr p"
proof -
  note ok = assms[unfolded win_ok_def]
  let ?q = "path_clear\<lparr>p_absolute := p_absolute p, p_node := p_node p, p_device := p_device p\<rparr>"
  have "win_loop (concat (map (\<lambda>d. d @ [CHR 0x5C]) (p_dirs p)) @ p_name p) ?q = ?q\<lparr>p_dirs := p_dirs p, p_name := p_name p\<rparr>"
    using ok by (intro win_loop_print) (simp_all add: path_clear_def)
  moreover have "?q\<lparr>p_dirs := p_dirs p, p_name := p_name p\<rparr> = p" using ok by (intro path_eqI) (simp_all add: path_clear_def)
  ultimately have "parseWindows (buildWindows p) =
      Inr (if p_node p \<noteq> [] \<and> p_dirs p = [] \<and> p_name p \<noteq> [] then makeDirectory p else p)"
    using win_root_print[OF assms] by (simp add: parseWindows_def)
  then show ?thesis using ok by (auto split: if_splits)
qed

text \<open>
  The paths whose printed form the OpenVMS parser understands: directories in normal form (an absolute path does not lead above its root), no colon,
  opening bracket or semicolon in the name, the node and the device, no dot, no closing bracket and no leading hyphen in a
  directory; a path without directories is absolute exactly if it has a node or a device.
\<close>

definition vms_word :: "string \<Rightarrow> bool" where
  "vms_word s \<longleftrightarrow> list_all (\<lambda>c. c \<noteq> CHR '':'' \<and> c \<noteq> CHR ''['' \<and> c \<noteq> CHR '';'') s"

definition vms_name :: "string \<Rightarrow> bool" where
  "vms_name d \<longleftrightarrow> d \<noteq> [] \<and> list_all vms_dir d \<and> hd d \<noteq> CHR ''-''"

definition vms_ok :: "fpath \<Rightarrow> bool" where
  "vms_ok p \<longleftrightarrow> path_normal p \<and> vms_word (p_name p) \<and> vms_word (p_node p) \<and> vms_word (p_device p)
    \<and> list_all (\<lambda>d. d = ''..'' \<or> vms_name d) (p_dirs p)
    \<and> (p_dirs p = [] \<longrightarrow> p_absolute p = (p_node p \<noteq> [] \<or> p_device p \<noteq> []))"

abbreviation vms_more :: "string list \<Rightarrow> string" where
  "vms_more ds \<equiv> concat (map (\<lambda>d. (if d \<noteq> ''..'' then ''.'' else []) @ vms_component d) ds)"

lemma vms_name_not_up: "vms_name d \<Longrightarrow> d \<noteq> ''..'' \<and> vms_component d = d"
  by (auto simp: vms_name_def vms_dir_def vms_component_def)

lemma vms_loop_stop: "vms_loop up (CHR '']'' # r) ds = (CHR '']'' # r, ds)"
  by (subst vms_loop.simps) simp

lemma vms_loop_name:
  assumes "vms_name d" "hd t = CHR ''.'' \<or> hd t = CHR '']''" "t \<noteq> []"
  shows "vms_loop up (d @ t) ds = vms_loop up (if hd t = CHR '']'' then t else tl t) (ds @ [d])"
proof -
  have d: "\<forall>c \<in> set d. vms_dir c" "d \<noteq> []" "hd d \<noteq> CHR ''-''" "hd d \<noteq> CHR '']''"
    using assms(1) hd_in_set[of d] by (auto simp: vms_name_def list_all_iff vms_dir_def)
  have h: "\<not> vms_dir (hd t)" using assms(2) by (auto simp: vms_dir_def)
  have "takeWhile vms_dir (d @ t) = d" "dropWhile vms_dir (d @ t) = t"
    using d h assms(3) by (cases t; simp add: takeWhile_append2 dropWhile_append2)+
  moreover have "d \<noteq> ''-''" using d by auto
  ultimately show ?thesis using d assms(2,3) by (subst vms_loop.simps) auto
qed

lemma vms_loop_names:
  "list_all vms_name (d # ns) \<Longrightarrow> vms_loop up (d @ vms_more ns @ CHR '']'' # r) ds = (CHR '']'' # r, ds @ d # ns)"
proof (induction ns arbitrary: d ds)
  case Nil
  then show ?case using vms_loop_name[of d "CHR '']'' # r" up ds] by (simp add: vms_loop_stop)
next
  case (Cons e ns)
  have e: "vms_more (e # ns) = CHR ''.'' # e @ vms_more ns" using Cons.prems vms_name_not_up[of e] by simp
  show ?case using Cons vms_loop_name[of d "CHR ''.'' # e @ vms_more ns @ CHR '']'' # r" up ds] unfolding e by simp
qed

lemma vms_loop_more:
  assumes "list_all vms_name ns"
  shows "vms_loop up (vms_more ns @ CHR '']'' # r) ds = (CHR '']'' # r, ds @ ns)"
proof (cases ns)
  case Nil
  then show ?thesis by (simp add: vms_loop_stop)
next
  case (Cons e es)
  then have e: "vms_more ns = CHR ''.'' # e @ vms_more es" using assms vms_name_not_up[of e] by simp
  have "vms_loop up (CHR ''.'' # s) ds = vms_loop up s ds" for s by (subst vms_loop.simps) (simp add: vms_dir_def)
  then show ?thesis using vms_loop_names[of e es up r ds] assms Cons unfolding e by simp
qed

lemma vms_loop_ups: "vms_loop up (replicate k (CHR ''-'') @ t) ds = vms_loop up t ((up ^^ k) ds)"
proof (induction k arbitrary: ds)
  case (Suc k)
  have "vms_loop up (CHR ''-'' # s) ds = vms_loop up s (up ds)" for s by (subst vms_loop.simps) simp
  then show ?case using Suc by (simp add: funpow_swap1)
qed simp

lemma vms_up_replicate: "(vms_up ^^ k) [] = replicate k ''..''"
proof (induction k)
  case (Suc k)
  then show ?case by (cases k) (simp_all add: vms_up_def replicate_append_same)
qed simp

lemma vms_more_ups: "vms_more (replicate k ''..'') = replicate k (CHR ''-'')"
  by (induction k) (simp_all add: vms_component_def)

definition vms_inside :: "fpath \<Rightarrow> string" where
  "vms_inside p =
    (if \<not> p_absolute p \<and> hd (p_dirs p) \<noteq> ''..'' then ''.'' else [])
    @ vms_component (hd (p_dirs p)) @ vms_more (tl (p_dirs p))"

lemma vms_bracket_print:
  assumes "vms_ok p" "p_dirs p \<noteq> []" "p_dirs q = []" "r = [] \<or> hd r \<noteq> CHR ''[''"
  shows "vms_bracket (vms_inside p @ CHR '']'' # r) q = Inr (r, q\<lparr>p_dirs := p_dirs p, p_absolute := p_absolute p\<rparr>)"
proof -
  let ?e = "CHR '']'' # r"
  obtain k ns where ds: "p_dirs p = replicate k ''..'' @ ns" "list_all plain ns" "p_absolute p \<longrightarrow> k = 0"
    using assms(1) unfolding vms_ok_def normal_iff by blast
  have "d \<noteq> ''..''" if "d \<in> set ns" for d using ds(2) that by (auto simp: list_all_iff)
  then have ns: "list_all vms_name ns" using assms(1) ds(1) by (auto simp: vms_ok_def list_all_iff)
  have sec: "vms_second a r ds = Inr (r, ds)" for a ds using assms(4) by (auto simp: vms_second_def)
  have close: "vms_bracket s q = Inr (r, q\<lparr>p_dirs := p_dirs p, p_absolute := a\<rparr>)"
    if "s \<noteq> []" "(if hd s = CHR ''.'' then (False, tl s) else if hd s = CHR '']'' \<or> hd s = CHR ''-'' then (False, s) else (True, s)) = (a, s')"
      "vms_loop vms_up s' [] = (?e, p_dirs p)" for s s' a
    using that sec assms(3) by (simp add: vms_bracket_def)
  show ?thesis
  proof (cases k)
    case 0
    then obtain d es where d: "p_dirs p = d # es" "ns = d # es" "vms_name d" using assms(2) ds ns by (cases ns) auto
    have l: "vms_loop vms_up (d @ vms_more es @ ?e) [] = (?e, p_dirs p)" using vms_loop_names[of d es vms_up r "[]"] ns d by simp
    have h: "hd d \<noteq> CHR ''.'' \<and> hd d \<noteq> CHR '']'' \<and> hd d \<noteq> CHR ''-'' \<and> d \<noteq> []"
      using d(3) hd_in_set[of d] by (auto simp: vms_name_def list_all_iff vms_dir_def)
    have i: "vms_inside p @ ?e = (if p_absolute p then [] else ''.'') @ d @ vms_more es @ ?e"
      using d vms_name_not_up[OF d(3)] by (simp add: vms_inside_def)
    show ?thesis
    proof (cases "p_absolute p")
      case True
      then show ?thesis using close[OF _ _ l, of "d @ vms_more es @ ?e" True] h i by simp
    next
      case False
      then show ?thesis using close[OF _ _ l, of "CHR ''.'' # d @ vms_more es @ ?e" False] i by simp
    qed
  next
    case (Suc j)
    then have a: "\<not> p_absolute p" using ds by auto
    have i: "vms_inside p @ ?e = replicate k (CHR ''-'') @ vms_more ns @ ?e"
      using Suc ds(1) a vms_more_ups[of j] by (simp add: vms_inside_def vms_component_def)
    have l: "vms_loop vms_up (replicate k (CHR ''-'') @ vms_more ns @ ?e) [] = (?e, p_dirs p)"
      unfolding vms_loop_ups vms_up_replicate vms_loop_more[OF ns] ds(1) ..
    show ?thesis using close[OF _ _ l, of "replicate k (CHR ''-'') @ vms_more ns @ ?e" False] Suc a i by simp
  qed
qed

definition vms_suffix :: "fpath \<Rightarrow> string" where
  "vms_suffix p = (if p_version p \<noteq> [] then CHR '';'' # p_version p else [])"

definition vms_tail :: "fpath \<Rightarrow> string" where
  "vms_tail p = (if p_dirs p \<noteq> [] then CHR ''['' # vms_inside p @ '']'' else []) @ p_name p @ vms_suffix p"

lemma vms_suffix_hd: "vms_suffix p = [] \<or> hd (vms_suffix p) = CHR '';''"
  by (simp add: vms_suffix_def)

lemma span_word:
  assumes "list_all P w" "t = [] \<or> \<not> P (hd t)"
  shows "takeWhile P (w @ t) = w" "dropWhile P (w @ t) = t"
  using assms by (cases t; auto simp: list_all_iff takeWhile_append2 dropWhile_append2)+

lemma vms_word_weaken: "vms_word w \<Longrightarrow> list_all (\<lambda>c. c \<noteq> CHR '':'' \<and> c \<noteq> CHR '';'') w"
  "vms_word w \<Longrightarrow> list_all (\<lambda>c. c \<noteq> CHR '';'') w"
  by (auto simp: vms_word_def list_all_iff)

lemma vms_word_hd: "vms_word w \<Longrightarrow> w @ vms_suffix p \<noteq> [] \<Longrightarrow> hd (w @ vms_suffix p) \<noteq> CHR ''['' \<and> hd (w @ vms_suffix p) \<noteq> CHR '':''"
  by (cases w) (auto simp: vms_word_def vms_suffix_def split: if_splits)

text \<open>What follows node and device.\<close>

definition vms_finish :: "(string \<times> fpath) result \<Rightarrow> fpath result" where
  "vms_finish r = rbind r (\<lambda>(it, p). Inr (if it \<noteq> [] \<and> hd it = CHR '';'' then p\<lparr>p_version := tl it\<rparr> else p))"

lemma vms_finish_suffix: "p_version q = [] \<Longrightarrow> vms_finish (Inr (vms_suffix p, q)) = Inr (q\<lparr>p_version := p_version p\<rparr>)"
  by (simp add: vms_finish_def vms_suffix_def)

lemma vms_file_tail:
  assumes "vms_ok p" "p_dirs q = []" "p_name q = []" "p_version q = []" "p_dirs p = [] \<Longrightarrow> p_absolute q = p_absolute p"
  shows "vms_finish (vms_file (q, [], vms_tail p)) =
    Inr (q\<lparr>p_dirs := p_dirs p, p_absolute := p_absolute p, p_name := p_name p, p_version := p_version p\<rparr>)"
proof -
  let ?r = "p_name p @ vms_suffix p"
  have w: "vms_word (p_name p)" using assms(1) by (simp add: vms_ok_def)
  have h: "?r = [] \<or> hd ?r \<noteq> CHR ''[''" using vms_word_hd[OF w] by blast
  have r: "takeWhile (\<lambda>c. c \<noteq> CHR '';'') ?r = p_name p" "dropWhile (\<lambda>c. c \<noteq> CHR '';'') ?r = vms_suffix p"
    using span_word[OF vms_word_weaken(2)[OF w]] vms_suffix_hd[of p] by auto
  have "(if vms_tail p \<noteq> [] \<and> hd (vms_tail p) = CHR ''['' then vms_bracket (tl (vms_tail p)) q else Inr (vms_tail p, q)) =
      Inr (?r, q\<lparr>p_dirs := p_dirs p, p_absolute := p_absolute p\<rparr>)"
  proof (cases "p_dirs p = []")
    case True
    then have "vms_tail p = ?r" by (simp add: vms_tail_def)
    moreover have "q = q\<lparr>p_dirs := p_dirs p, p_absolute := p_absolute p\<rparr>" using True assms(2,5) by (intro path_eqI) simp_all
    ultimately show ?thesis using h by auto
  next
    case False
    then show ?thesis using vms_bracket_print[OF assms(1) False assms(2) h] by (simp add: vms_tail_def)
  qed
  then show ?thesis
    using r vms_finish_suffix[of "q\<lparr>p_dirs := p_dirs p, p_absolute := p_absolute p, p_name := p_name p\<rparr>" p] assms(4)
    by (simp add: vms_file_def)
qed

lemma buildVMS_tail:
  "buildVMS p = (if p_node p \<noteq> [] then p_node p @ ''::'' else []) @ (if p_device p \<noteq> [] then p_device p @ '':'' else []) @ vms_tail p"
  by (simp add: buildVMS_def vms_tail_def vms_inside_def vms_suffix_def)

lemma vms_tail_hd: "vms_ok p \<Longrightarrow> vms_tail p \<noteq> [] \<Longrightarrow> hd (vms_tail p) \<noteq> CHR '':''"
  using vms_word_hd[of "p_name p" p] by (auto simp: vms_tail_def vms_ok_def)

lemma vms_file_name:
  assumes "p_name q = []" "p_version q = []"
  shows "vms_finish (vms_file (q, p_name p, vms_suffix p)) = Inr (q\<lparr>p_name := p_name p, p_version := p_version p\<rparr>)"
proof (cases "p_name p = []")
  case True
  have h: "takeWhile (\<lambda>c. c \<noteq> CHR '';'') (vms_suffix p) = []" "dropWhile (\<lambda>c. c \<noteq> CHR '';'') (vms_suffix p) = vms_suffix p"
    "\<not> (vms_suffix p \<noteq> [] \<and> hd (vms_suffix p) = CHR ''['')"
    by (simp_all add: vms_suffix_def)
  have "vms_file (q, [], vms_suffix p) = Inr (vms_suffix p, q\<lparr>p_name := []\<rparr>)" unfolding vms_file_def using h by auto
  then show ?thesis using vms_finish_suffix[of "q\<lparr>p_name := []\<rparr>" p] True assms(2) by simp
next
  case False
  then show ?thesis using vms_finish_suffix[of "q\<lparr>p_name := p_name p\<rparr>" p] assms by (simp add: vms_file_def)
qed

lemma vms_device_suffix:
  assumes "vms_word w" "p_device q = []"
  shows "vms_device (q, v, w @ vms_suffix p) = (q, v @ w, vms_suffix p)"
proof -
  have "takeWhile (\<lambda>c. c \<noteq> CHR '':'' \<and> c \<noteq> CHR '';'') (w @ vms_suffix p) = w"
    "dropWhile (\<lambda>c. c \<noteq> CHR '':'' \<and> c \<noteq> CHR '';'') (w @ vms_suffix p) = vms_suffix p"
    using span_word[OF vms_word_weaken(1)[OF assms(1)], of "vms_suffix p"] vms_suffix_hd[of p] by auto
  then show ?thesis using vms_word_hd[OF assms(1), of p] vms_suffix_hd[of p] assms(2) by (auto simp: vms_device_def)
qed

text \<open>Without a device the name may already have been read in search of one.\<close>

lemma vms_device_none:
  assumes "vms_ok p" "p_device q = []" "p_dirs q = []" "p_name q = []" "p_version q = []"
    "p_dirs p = [] \<Longrightarrow> p_absolute q = p_absolute p"
  shows "vms_finish (vms_file (vms_device (q, [], vms_tail p))) =
    Inr (q\<lparr>p_dirs := p_dirs p, p_absolute := p_absolute p, p_name := p_name p, p_version := p_version p\<rparr>)"
proof (cases "p_dirs p = []")
  case True
  have w: "vms_word (p_name p)" using assms(1) by (simp add: vms_ok_def)
  have "vms_device (q, [], vms_tail p) = (q, p_name p, vms_suffix p)"
    using vms_device_suffix[OF w assms(2), of "[]" p] True by (simp add: vms_tail_def)
  moreover have "q\<lparr>p_dirs := p_dirs p, p_absolute := p_absolute p\<rparr> = q" using True assms(3,6) by (intro path_eqI) simp_all
  ultimately show ?thesis using vms_file_name[of q p] assms(4,5) by simp
next
  case False
  then have "vms_device (q, [], vms_tail p) = (q, [], vms_tail p)" by (simp add: vms_device_def vms_tail_def)
  then show ?thesis using vms_file_tail[OF assms(1,3,4,5)] False by simp
qed

lemma parseVMS_split:
  assumes "vms_word w" "t = [] \<or> hd t \<in> {CHR '':'', CHR ''['', CHR '';''}"
  shows "parseVMS (w @ t) = (if t \<noteq> [] then vms_finish (vms_file (vms_device (vms_node w t))) else Inr (path_clear\<lparr>p_name := w\<rparr>))"
  unfolding parseVMS_def vms_finish_def using span_word[OF assms(1)[unfolded vms_word_def], of t] assms(2) by auto

lemma vms_print_parse:
  assumes "vms_ok p"
  shows "parseVMS (buildVMS p) = Inr p"
proof -
  note ok = assms[unfolded vms_ok_def]
  have w: "vms_word (p_name p)" "vms_word (p_node p)" "vms_word (p_device p)" using ok by simp_all
  have clear: "p_dirs path_clear = []" "p_name path_clear = []" "p_version path_clear = []" "p_device path_clear = []"
    "p_node path_clear = []" "\<not> p_absolute path_clear" by (simp_all add: path_clear_def)
  have id: "q\<lparr>p_dirs := p_dirs p, p_absolute := p_absolute p, p_name := p_name p, p_version := p_version p\<rparr> = p"
    if "p_node q = p_node p" "p_device q = p_device p" for q :: fpath using that by (intro path_eqI) simp_all
  consider (node) "p_node p \<noteq> []" | (device) "p_node p = []" "p_device p \<noteq> []" | (none) "p_node p = []" "p_device p = []" by blast
  then show ?thesis
  proof cases
    case node
    let ?t = "(if p_device p \<noteq> [] then p_device p @ '':'' else []) @ vms_tail p"
    let ?q = "path_clear\<lparr>p_node := p_node p, p_absolute := True\<rparr>"
    have "parseVMS (buildVMS p) = vms_finish (vms_file (vms_device (?q, [], ?t)))"
      using node parseVMS_split[OF w(2), of "''::'' @ ?t"] by (simp add: buildVMS_tail vms_node_def)
    also have "\<dots> = Inr p"
    proof (cases "p_device p = []")
      case True
      then show ?thesis using vms_device_none[OF assms, of ?q] ok node id[of ?q] clear by simp
    next
      case False
      let ?r = "?q\<lparr>p_device := p_device p, p_absolute := True\<rparr>"
      have "takeWhile (\<lambda>c. c \<noteq> CHR '':'' \<and> c \<noteq> CHR '';'') (p_device p @ CHR '':'' # vms_tail p) = p_device p"
        "dropWhile (\<lambda>c. c \<noteq> CHR '':'' \<and> c \<noteq> CHR '';'') (p_device p @ CHR '':'' # vms_tail p) = CHR '':'' # vms_tail p"
        using span_word[OF vms_word_weaken(1)[OF w(3)], of "CHR '':'' # vms_tail p"] by simp_all
      moreover have "hd (p_device p) \<noteq> CHR ''[''" using False w(3) by (cases "p_device p") (auto simp: vms_word_def)
      ultimately have "vms_device (?q, [], ?t) = (?r, [], vms_tail p)" using False clear by (simp add: vms_device_def)
      then show ?thesis using vms_file_tail[OF assms, of ?r] ok node id[of ?r] clear by simp
    qed
    finally show ?thesis .
  next
    case device
    let ?q = "path_clear\<lparr>p_device := p_device p, p_absolute := True\<rparr>"
    have "vms_node (p_device p) (CHR '':'' # vms_tail p) = (?q, [], vms_tail p)"
      using vms_tail_hd[OF assms] by (auto simp: vms_node_def Let_def)
    moreover have "vms_device (?q, [], vms_tail p) = (?q, [], vms_tail p)" using device by (simp add: vms_device_def)
    ultimately have "parseVMS (buildVMS p) = vms_finish (vms_file (?q, [], vms_tail p))"
      using device parseVMS_split[OF w(3), of "CHR '':'' # vms_tail p"] by (simp add: buildVMS_tail)
    then show ?thesis using vms_file_tail[OF assms, of ?q] ok device id[of ?q] clear by simp
  next
    case none
    then have b: "buildVMS p = vms_tail p" by (simp add: buildVMS_tail)
    show ?thesis
    proof (cases "p_dirs p = []")
      case True
      then have t: "vms_tail p = p_name p @ vms_suffix p" by (simp add: vms_tail_def)
      have a: "\<not> p_absolute p" using ok True none by simp
      have "parseVMS (vms_tail p) = vms_finish (vms_file (path_clear, p_name p, vms_suffix p))"
      proof (cases "vms_suffix p = []")
        case s: True
        then show ?thesis using parseVMS_split[OF w(1), of "[]"] vms_file_name[of path_clear p] clear
          by (simp add: t vms_suffix_def split: if_splits)
      next
        case False
        then have "vms_node (p_name p) (vms_suffix p) = (path_clear, p_name p, vms_suffix p)" using vms_suffix_hd[of p] by (auto simp: vms_node_def)
        then show ?thesis using parseVMS_split[OF w(1), of "vms_suffix p"] vms_suffix_hd[of p] False
            vms_device_suffix[of "[]" path_clear "p_name p" p] clear by (simp add: t vms_word_def)
      qed
      moreover have "path_clear\<lparr>p_name := p_name p, p_version := p_version p\<rparr> = p"
        using clear none True a by (intro path_eqI) simp_all
      ultimately show ?thesis unfolding b using vms_file_name[OF clear(2,3), of p] by simp
    next
      case False
      then have h: "vms_tail p \<noteq> []" "hd (vms_tail p) = CHR ''[''" by (simp_all add: vms_tail_def)
      have "parseVMS (vms_tail p) = vms_finish (vms_file (vms_device (path_clear, [], vms_tail p)))"
        using parseVMS_split[of "[]" "vms_tail p"] h by (simp add: vms_word_def vms_node_def)
      then show ?thesis unfolding b using vms_device_none[OF assms, of path_clear] False clear none id[of path_clear] by simp
    qed
  qed
qed

section \<open>Operations on normal paths\<close>

lemma normal_butlast: "normal a ds \<Longrightarrow> normal a (butlast ds)"
  using normal_prefix[of a "butlast ds" "[last ds]"] by (cases "ds = []") auto

lemma normal_tl: "normal a ds \<Longrightarrow> normal a (tl ds)"
  by (cases ds; cases "hd ds = ''..''") (auto simp: normal_def list_all_iff split: if_splits dest: set_dropWhileD)

lemma normal_up:
  assumes "normal a ds" "ds \<noteq> []" "last ds = ''..''"
  shows "normal a (ds @ [''..''])" "\<not> a"
proof -
  show a: "\<not> a"
  proof
    assume a
    then have "plain (last ds)" using assms(1) last_in_set[OF assms(2)] by (simp add: normal_def list_all_iff)
    then show False using assms(3) by simp
  qed
  then show "normal a (ds @ [''..''])" using normal_push[OF assms(1), of "''..''"] assms(3) by (simp add: push_def)
qed

lemma resolve_push:
  "\<not> p_absolute r \<Longrightarrow> path_resolve r p = p\<lparr>p_dirs := foldl (push (p_absolute p)) (p_dirs p) (p_dirs r), p_name := p_name r\<rparr>"
  by (simp add: path_resolve_def foldl_pushDirectory)

lemma makeAbsolute_push:
  "\<not> p_absolute p \<Longrightarrow> path_makeAbsolute b p =
    p\<lparr>p_node := p_node b, p_device := p_device b, p_dirs := foldl (push (p_absolute b)) (p_dirs (makeDirectory b)) (p_dirs p),
      p_absolute := p_absolute b\<rparr>"
  by (simp add: path_makeAbsolute_def foldl_pushDirectory makeDirectory_push)

lemma makeDirectory_normal: "path_normal p \<Longrightarrow> path_normal (makeDirectory p)"
  by (simp add: makeDirectory_push normal_push)

lemma makeParent_normal: "path_normal p \<Longrightarrow> path_normal (makeParent p)"
  using normal_up[of "p_absolute p" "p_dirs p"] normal_butlast[of "p_absolute p" "p_dirs p"] normal_push[of False "[]" "''..''"]
  by (auto simp: makeParent_def push_def)

lemma resolve_normal: "path_normal r \<Longrightarrow> path_normal p \<Longrightarrow> path_normal (path_resolve r p)"
  by (cases "p_absolute r") (simp_all add: path_resolve_def foldl_pushDirectory normal_foldl)

lemma makeAbsolute_normal:
  assumes "path_normal b" "path_normal p"
  shows "path_normal (path_makeAbsolute b p)"
proof (cases "p_absolute p")
  case False
  then show ?thesis using normal_foldl makeDirectory_normal[OF assms(1)] by (simp add: makeAbsolute_push makeDirectory_push)
qed (use assms in \<open>simp add: path_makeAbsolute_def\<close>)

text \<open>
  Not all paths that a parser delivers are printed so that it delivers them again: the dot that keeps a file named \<^verbatim>\<open>~\<close> from being the home directory and
  a file named \<^verbatim>\<open>a:b\<close> from being on drive \<^verbatim>\<open>a\<close> is not part of the path, and OpenVMS syntax can lead above the root of an absolute path.
\<close>

lemma print_ambiguous:
  "path_assign ''/root/'' ''./~'' PATH_UNIX = Some (Inr (path_clear\<lparr>p_name := ''~''\<rparr>))"
  "path_toString PATH_UNIX (path_clear\<lparr>p_name := ''~''\<rparr>) = ''~''"
  "path_assign ''/root/'' ''~'' PATH_UNIX = Some (Inr (path_clear\<lparr>p_dirs := [''root''], p_absolute := True\<rparr>))"
  "path_assign [] ''./a:b'' PATH_WINDOWS = Some (Inr (path_clear\<lparr>p_name := ''a:b''\<rparr>))"
  "path_toString PATH_WINDOWS (path_clear\<lparr>p_name := ''a:b''\<rparr>) = ''a:b''" "path_assign [] ''a:b'' PATH_WINDOWS = Some (Inl PathSyntaxException)"
  "path_assign [] ''[a.-.-]'' PATH_VMS = Some (Inr (path_clear\<lparr>p_dirs := [''..''], p_absolute := True\<rparr>))"
  "path_toString PATH_VMS (path_clear\<lparr>p_dirs := [''..''], p_absolute := True\<rparr>) = ''[-]''"
  "path_assign [] ''[-]'' PATH_VMS = Some (Inr (path_clear\<lparr>p_dirs := [''..'']\<rparr>))"
  by code_simp+

section \<open>Properties\<close>

text \<open>
  C13. Each of the three syntaxes is parsed back to the path it was printed from, whatever the home directory: for the paths
  that meet the conditions of \<open>unix_ok\<close>, \<open>win_ok\<close> and \<open>vms_ok\<close>, which say that the directories are in normal form, that no name contains a separator of the
  syntax, and that the first name is not one that the syntax reads as something else (see \<open>print_ambiguous\<close>).
\<close>

theorem path_roundtrip:
  "(unix_ok p \<longrightarrow> path_assign home (path_toString PATH_UNIX p) PATH_UNIX = Some (Inr p)) \<and>
   (win_ok p \<longrightarrow> path_assign home (path_toString PATH_WINDOWS p) PATH_WINDOWS = Some (Inr p)) \<and>
   (vms_ok p \<longrightarrow> path_assign home (path_toString PATH_VMS p) PATH_VMS = Some (Inr p))"
  using unix_print_parse win_print_parse vms_print_parse by (simp add: path_assign_def path_toString_def)

definition sample_path :: fpath where
  "sample_path = \<lparr>p_node = [], p_device = ''c'', p_name = ''a.txt'', p_version = [], p_dirs = [''b'', ''c:''], p_absolute = True\<rparr>"

theorem path_roundtrip_witness:
  "path_assign ''/'' (path_toString PATH_UNIX sample_path) PATH_UNIX = Some (Inr sample_path) \<and>
   path_assign ''/'' (path_toString PATH_WINDOWS sample_path) PATH_WINDOWS = Some (Inr sample_path) \<and>
   path_assign ''/'' (path_toString PATH_VMS sample_path) PATH_VMS = Some (Inr sample_path)"
proof -
  have "unix_ok sample_path" "win_ok sample_path" "vms_ok sample_path" by code_simp+
  then show ?thesis using path_roundtrip[of sample_path "''/''"] by blast
qed



text \<open>
  A path that the Unix parser reads has the directories of its text, normalised without change of meaning: walking the fields of the
  text one by one from any directory (from the root, if the text starts with a slash) leads to the same place as walking the
  directories of the path.  The last field is the file name.
\<close>

theorem parseUnix_correct:
  assumes "\<not> tilde s" "list_all no_device (butlast (split_fields ''/'' s))"
  shows "\<exists>p. parseUnix home s = Some p \<and> path_normal p \<and> p_node p = [] \<and> p_device p = [] \<and> p_version p = [] \<and>
    (p_absolute p \<longleftrightarrow> s \<noteq> [] \<and> hd s = CHR ''/'') \<and> p_name p = last (split_fields ''/'' s) \<and>
    (if p_absolute p then p_dirs p = foldl cd [] (butlast (split_fields ''/'' s))
     else \<forall>st. foldl cd st (p_dirs p) = foldl cd st (butlast (split_fields ''/'' s)))"
proof -
  define A where "A \<longleftrightarrow> s \<noteq> [] \<and> hd s = CHR ''/''"
  define it where "it = (if A then tl s else s)"
  define gs where "gs = split_fields ''/'' it"
  let ?q = "path_clear\<lparr>p_absolute := A\<rparr>" and ?fs = "split_fields ''/'' s"
  have f: "?fs = (if A then [] # gs else gs)" unfolding A_def it_def gs_def by (cases s) auto
  have gs: "gs \<noteq> []" by (simp add: gs_def fields_nonempty)
  have g: "butlast ?fs = (if A then [] # butlast gs else butlast gs)" "last ?fs = last gs"
    unfolding f using gs by simp_all
  have nd: "list_all no_device (butlast gs)" using assms(2) unfolding g(1) by (cases A) simp_all
  let ?p = "?q\<lparr>p_dirs := foldl (push A) [] (butlast gs), p_name := last gs\<rparr>"
  have "?q = (if A then path_clear\<lparr>p_absolute := True\<rparr> else path_clear)" by (simp add: path_clear_def)
  then have "parseUnix home s = Some (unix_loop it ?q)"
    using parseUnix_plain[OF assms(1), of home] unfolding A_def[symmetric] it_def by simp
  also have "unix_loop it ?q = ?p"
    unfolding unix_loop_fields gs_def[symmetric] unix_dirs_push[OF nd] Let_def by (simp add: path_clear_def)
  finally have p: "parseUnix home s = Some ?p" .
  have c: "foldl cd st (butlast ?fs) = foldl cd st (butlast gs)" for st unfolding g(1) by (simp add: cd_def)
  have "if A then p_dirs ?p = foldl cd [] (butlast ?fs) else \<forall>st. foldl cd st (p_dirs ?p) = foldl cd st (butlast ?fs)"
    unfolding c using foldl_cd_absolute[of "[]" "butlast gs"] foldl_cd_relative[of "[]" _ "butlast gs"] by simp
  moreover have "path_normal ?p" using normal_foldl[of A "[]" "butlast gs"] by simp
  ultimately show ?thesis using p unfolding g(2) A_def[symmetric] by (intro exI[of _ ?p]) (simp add: path_clear_def)
qed

theorem parseUnix_correct_witness:
  "\<exists>p. parseUnix ''/'' ''/usr/./lib/../bin/ls'' = Some p \<and> p_dirs p = [''usr'', ''bin''] \<and> p_name p = ''ls''"
proof -
  have h: "\<not> tilde ''/usr/./lib/../bin/ls''" "list_all no_device (butlast (split_fields ''/'' ''/usr/./lib/../bin/ls''))" by code_simp+
  have v: "foldl cd [] (butlast (split_fields ''/'' ''/usr/./lib/../bin/ls'')) = [''usr'', ''bin'']"
    "last (split_fields ''/'' ''/usr/./lib/../bin/ls'') = ''ls''" by code_simp+
  show ?thesis using parseUnix_correct[OF h, of "''/''"] unfolding v by auto
qed

text \<open>
  Resolution follows the directory tree: resolving a relative path walks on from where the base path leads, an absolute
  path replaces the base, and resolving in two steps or against the resolved rest is the same.
\<close>

theorem path_resolve_correct:
  assumes "path_normal p" "path_normal q"
  shows "(p_absolute q \<longrightarrow> path_resolve q p = q) \<and>
    (\<not> p_absolute q \<and> p_absolute p \<longrightarrow> p_dirs (path_resolve q p) = foldl cd (p_dirs p) (p_dirs q)) \<and>
    (\<not> p_absolute q \<and> \<not> p_absolute p \<longrightarrow>
      foldl cd st (p_dirs (path_resolve q p)) = foldl cd (foldl cd st (p_dirs p)) (p_dirs q)) \<and>
    path_resolve r (path_resolve q p) = path_resolve (path_resolve r q) p"
proof (intro conjI impI)
  show "p_absolute q \<Longrightarrow> path_resolve q p = q" by (simp add: path_resolve_def)
  show "p_dirs (path_resolve q p) = foldl cd (p_dirs p) (p_dirs q)" if "\<not> p_absolute q \<and> p_absolute p"
    using that assms(1) by (simp add: resolve_push foldl_cd_absolute)
  show "foldl cd st (p_dirs (path_resolve q p)) = foldl cd (foldl cd st (p_dirs p)) (p_dirs q)"
    if "\<not> p_absolute q \<and> \<not> p_absolute p"
    using that assms(1) by (simp add: resolve_push foldl_cd_relative)
  show "path_resolve r (path_resolve q p) = path_resolve (path_resolve r q) p"
  proof (cases "p_absolute r \<or> p_absolute q")
    case True
    then show ?thesis by (auto simp: path_resolve_def foldl_pushDirectory)
  next
    case False
    then show ?thesis using assms(2) by (simp add: resolve_push foldl_push_push)
  qed
qed

theorem path_resolve_correct_witness:
  "p_dirs (path_resolve (path_clear\<lparr>p_dirs := [''..'', ''a'']\<rparr>) sample_path) = [''b'', ''a'']"
proof -
  have n: "path_normal sample_path" "path_normal (path_clear\<lparr>p_dirs := [''..'', ''a'']\<rparr>)"
    "p_absolute sample_path" "\<not> p_absolute (path_clear\<lparr>p_dirs := [''..'', ''a'']\<rparr>)" by code_simp+
  have "foldl cd (p_dirs sample_path) [''..'', ''a''] = [''b'', ''a'']" by code_simp
  then show ?thesis using path_resolve_correct[OF n(1,2), of "[]" sample_path] n(3,4) by simp
qed

section \<open>Further facts\<close>

lemma makeParent_cd:
  assumes "path_normal p" "p_name p = []"
  shows "p_absolute p \<Longrightarrow> p_dirs (makeParent p) = butlast (p_dirs p)"
    "\<not> p_absolute p \<Longrightarrow> foldl cd st (p_dirs (makeParent p)) = butlast (foldl cd st (p_dirs p))"
proof -
  show "p_dirs (makeParent p) = butlast (p_dirs p)" if "p_absolute p"
    using that assms normal_up(2)[of "p_absolute p" "p_dirs p"] by (auto simp: makeParent_def)
  have "p_dirs (makeParent p) = push False (p_dirs p) ''..''" if "\<not> p_absolute p"
    using that assms by (auto simp: makeParent_def push_def)
  then show "foldl cd st (p_dirs (makeParent p)) = butlast (foldl cd st (p_dirs p))" if "\<not> p_absolute p"
    using that assms(1) cd_push_relative[of "p_dirs p" st "''..''"] by (simp add: cd_def)
qed

lemma makeAbsolute_cd:
  assumes "path_normal b" "p_absolute b" "\<not> p_absolute p"
  shows "p_dirs (path_makeAbsolute b p) = foldl cd (p_dirs (makeDirectory b)) (p_dirs p)"
  using makeDirectory_normal[OF assms(1)] assms by (simp add: makeAbsolute_push makeDirectory_push foldl_cd_absolute)

lemma rfind_last: "c \<notin> set t \<Longrightarrow> rfind c (s @ c # t) = Some (length s)"
proof -
  assume c: "c \<notin> set t"
  have "rfind c t = None" using c by (induction t) auto
  then show ?thesis by (induction s) simp_all
qed

lemma getBaseName_nonempty: "p_name p \<noteq> [] \<Longrightarrow> getBaseName p \<noteq> []"
  by (auto simp: getBaseName_def split: option.splits)

lemma setExtension_get:
  assumes "p_name p \<noteq> []" "e \<noteq> []" "CHR ''.'' \<notin> set e"
  shows "getExtension (setExtension e p) = e" "getBaseName (setExtension e p) = getBaseName p"
  using getBaseName_nonempty[OF assms(1)] assms rfind_last[of "CHR ''.''" e "getBaseName p"]
  by (simp_all add: setExtension_def getExtension_def getBaseName_def[of "p\<lparr>p_name := _\<rparr>"])

text \<open>
  \<^verbatim>\<open>Path::find\<close> returns the first candidate that exists.
\<close>

definition parsed :: "string \<Rightarrow> string \<Rightarrow> fpath" where
  "parsed home s = the (parseUnix home s)"

text \<open>
  \<^verbatim>\<open>Path::find\<close> on a list of directories separated by colons tries the trimmed nonempty fields of the list in order and
  returns the name resolved against the first of them for which the file exists, and the path argument unchanged if there is none.
\<close>

theorem path_find_correct:
  assumes "\<not> tilde home"
  shows "path_find_list home exists pathList name path =
    Some (case find exists (map (\<lambda>d. path_resolve (parsed home name) (makeDirectory (parsed home d)))
                              (filter (\<lambda>d. d \<noteq> []) (map trim (split_fields '':'' pathList)))) of
            None \<Rightarrow> (False, path)
          | Some p \<Rightarrow> (True, p))"
proof -
  have s: "parseUnix home s = Some (parsed home s)" for s
    using parseUnix_terminates[of home s] assms by (auto simp: parsed_def)
  have f: "path_find home exists ds name path =
    Some (case find exists (map (\<lambda>d. path_resolve (parsed home name) (makeDirectory (parsed home d))) ds) of
            None \<Rightarrow> (False, path) | Some p \<Rightarrow> (True, p))" for ds
    by (induction ds) (simp_all add: s Let_def)
  have o: "(TOK_IGNORE_EMPTY + TOK_TRIM) AND TOK_TRIM \<noteq> 0" "(TOK_IGNORE_EMPTY + TOK_TRIM) AND TOK_IGNORE_EMPTY \<noteq> 0"
    by code_simp+
  have k: "keep True True ts = filter (\<lambda>d. d \<noteq> []) (map trim ts)" for ts by (simp add: keep_def)
  have "StringTokenizer pathList '':'' (TOK_IGNORE_EMPTY + TOK_TRIM) = filter (\<lambda>d. d \<noteq> []) (map trim (split_fields '':'' pathList))"
    using o tok_loop_fields[of False True "'':''" True pathList "[]" "[]"] fields_nonempty[of "'':''" pathList]
    by (cases "pathList = []") (simp_all add: StringTokenizer_def k)
  then show ?thesis unfolding path_find_list_def f by simp
qed

theorem path_find_correct_witness:
  "path_find_list ''/root/'' (\<lambda>p. p_dirs p = [''bin'']) ''/usr/lib: : /bin'' ''ls'' path_clear =
    Some (True, path_clear\<lparr>p_absolute := True, p_dirs := [''bin''], p_name := ''ls''\<rparr>)"
proof -
  have h: "\<not> tilde ''/root/''" by code_simp
  have c: "(case find (\<lambda>p. p_dirs p = [''bin'']) (map (\<lambda>d. path_resolve (parsed ''/root/'' ''ls'') (makeDirectory (parsed ''/root/'' d)))
        (filter (\<lambda>d. d \<noteq> []) (map trim (split_fields '':'' ''/usr/lib: : /bin'')))) of
      None \<Rightarrow> (False, path_clear) | Some p \<Rightarrow> (True, p)) =
    (True, path_clear\<lparr>p_absolute := True, p_dirs := [''bin''], p_name := ''ls''\<rparr>)" by code_simp
  show ?thesis unfolding path_find_correct[OF h] c ..
qed

section \<open>Behaviour at the edges\<close>

text \<open>
  With a home directory named \<^verbatim>\<open>~\<close> the parser calls itself for ever.  Resolution keeps the version of the base although it takes the
  name of the other path.
\<close>

lemma parseUnix_home_tilde: "parseUnix ''~/'' ''~/a'' = None"
  using parseUnix_terminates[of "''~/''" "''~/a''"] by (auto simp: tilde_def)

lemma resolve_version: "\<not> p_absolute r \<Longrightarrow> p_version (path_resolve r p) = p_version p"
  by (simp add: resolve_push)

text \<open>
  A name with a bracket and no slash is taken for OpenVMS syntax, which cuts it at the bracket: so \<^verbatim>\<open>Glob::glob\<close>, which lets the
  syntax be guessed, sees only the part of a pattern before a set.  The OpenVMS parser goes above the root of an absolute path.
\<close>

lemma parseGuess_bracket: "parseGuess home ''a[bc].txt'' = Some (Inr (path_clear\<lparr>p_name := ''a''\<rparr>))"
  by (simp add: parseGuess_def isWindows_def) code_simp

lemma parseVMS_above_root: "parseVMS ''[a.-.-]'' = Inr (path_clear\<lparr>p_absolute := True, p_dirs := [''..'']\<rparr>)"
  by code_simp

text \<open>
  \<^verbatim>\<open>Path::expand\<close> removes backslashes that do not precede a dollar sign, and leaves a double slash where there were three.
\<close>

lemma expand_backslash: "expandImpl getenv pw ''a'' = Ret ''a''" "expandImpl getenv pw [CHR ''a'', CHR 0x5C, CHR ''*''] = Ret ''a*''"
  by (simp_all add: expandImpl_def expand_loop.simps)

lemma expand_slashes: "expandImpl getenv pw ''a///b'' = Ret ''a//b''"
  by (simp add: expandImpl_def expand_loop.simps)

end
