(* ===== verification/Glob.thy ===== *)
theory Glob
  imports UTF
begin

text \<open>
  \<^verbatim>\<open>Glob\<close>: matching a subject against a pattern with \<^verbatim>\<open>*\<close>, \<^verbatim>\<open>?\<close>, sets and escapes.

  The code walks pattern and subject with \<^verbatim>\<open>TextIterator\<close> over UTF-8.  The matching functions are modelled on the
  code points the iterators deliver; \<open>text_codes\<close> is the walk itself, on the definitions of theory \<open>UTF\<close>.
  \<^verbatim>\<open>Unicode::toLower\<close> is a table of the PCRE2 library and an argument here.

  The reference is a pattern as a list of tokens and the language of such a list.
\<close>

section \<open>Walking a string\<close>

partial_function (option) text_codes :: "(u8 list \<Rightarrow> int \<Rightarrow> int) \<Rightarrow> (u8 list \<Rightarrow> int \<Rightarrow> int) \<Rightarrow> u8 list \<Rightarrow> int list option" where
  "text_codes query seqlen it =
    (if it = [] then Some []
     else case ti_deref query it of
       None \<Rightarrow> None
     | Some c \<Rightarrow>
         (case ti_next seqlen it of
            None \<Rightarrow> None
          | Some it' \<Rightarrow> Option.bind (text_codes query seqlen it') (\<lambda>cs. Some (c # cs))))"

declare text_codes.simps [code]

section \<open>Glob::matchSet\<close>

definition GLOB_DOT_SPECIAL :: nat where
  "GLOB_DOT_SPECIAL = 0x01"

definition GLOB_CASELESS :: nat where
  "GLOB_CASELESS = 0x04"

definition glob_fold :: "(int \<Rightarrow> int) \<Rightarrow> nat \<Rightarrow> int \<Rightarrow> int" where
  "glob_fold toLower options c = (if options AND GLOB_CASELESS \<noteq> 0 then toLower c else c)"

text \<open>After a hit: skip to the closing bracket.\<close>

fun skip_set :: "int list \<Rightarrow> int list result" where
  "skip_set [] = Inl SyntaxException"
| "skip_set (x # itp) =
    (if x = 93 then Inr itp
     else if x = 92 then (case itp of [] \<Rightarrow> Inl SyntaxException | y # r \<Rightarrow> skip_set r)
     else skip_set itp)"

text \<open>The first character of an item, which a backslash may precede.\<close>

definition set_first :: "int list \<Rightarrow> (int \<times> int list) result" where
  "set_first itp =
    (if hd itp = 92 then (if tl itp = [] then Inl SyntaxException else Inr (hd (tl itp), tl (tl itp)))
     else Inr (hd itp, tl itp))"

text \<open>The last character of an item: the character behind a hyphen, or the first again.\<close>

definition set_last :: "int \<Rightarrow> int list \<Rightarrow> (int \<times> int list) result" where
  "set_last first itp =
    (if itp \<noteq> [] \<and> hd itp = 45 then
       (if tl itp \<noteq> [] then Inr (hd (tl itp), tl (tl itp)) else Inl SyntaxException)
     else Inr (first, itp))"

definition set_item :: "int list \<Rightarrow> (int \<times> int \<times> int list) result" where
  "set_item itp = rbind (set_first itp) (\<lambda>(first, itp). rbind (set_last first itp) (\<lambda>(lst, itp). Inr (first, lst, itp)))"

lemma set_item_shorter: "itp \<noteq> [] \<Longrightarrow> set_item itp = Inr (first, lst, r) \<Longrightarrow> length r < length itp"
  by (cases itp) (auto simp: set_item_def set_first_def set_last_def split: if_splits)

function matchSet :: "(int \<Rightarrow> int) \<Rightarrow> int list \<Rightarrow> int \<Rightarrow> (bool \<times> int list) result" where
  "matchSet fc itp c =
    (if itp = [] then Inr (False, [])
     else if hd itp = 93 then Inr (False, tl itp)
     else case set_item itp of
       Inl e \<Rightarrow> Inl e
     | Inr (first, lst, itp) \<Rightarrow>
         (if fc first \<le> c \<and> c \<le> fc lst then rbind (skip_set itp) (\<lambda>itp. Inr (True, itp))
          else matchSet fc itp c))"
  by pat_completeness auto
termination by (relation "measure (\<lambda>(fc, itp, c). length itp)") (auto dest: set_item_shorter)

declare matchSet.simps [simp del]

lemma skip_set_shorter: "skip_set p = Inr q \<Longrightarrow> length q < length p"
  by (induction p rule: skip_set.induct) (auto split: if_splits list.splits)

lemma matchSet_shorter: "matchSet fc p c = Inr (b, q) \<Longrightarrow> length q \<le> length p"
proof (induction fc p c rule: matchSet.induct)
  case (1 fc p c)
  show ?case
  proof (cases "p = [] \<or> hd p = 93")
    case True
    then show ?thesis using "1.prems" by (subst (asm) matchSet.simps) (auto split: if_splits)
  next
    case False
    then obtain first lst r where i: "set_item p = Inr (first, lst, r)"
      using "1.prems" by (subst (asm) matchSet.simps) (auto split: sum.splits)
    have r: "length r < length p" using set_item_shorter[OF _ i] False by simp
    show ?thesis
    proof (cases "fc first \<le> c \<and> c \<le> fc lst")
      case True
      then have "rbind (skip_set r) (\<lambda>itp. Inr (True, itp)) = Inr (b, q)"
        using "1.prems" False i by (subst (asm) matchSet.simps) auto
      then show ?thesis using r skip_set_shorter by (fastforce simp: rbind_eq_Inr)
    next
      case hit: False
      have "matchSet fc r c = Inr (b, q)" using "1.prems" False i hit by (subst (asm) matchSet.simps) auto
      then show ?thesis using "1.IH"[OF _ _ i refl refl hit] False r by simp
    qed
  qed
qed

section \<open>Glob::match\<close>

text \<open>\<open>glob_star\<close> is the loop behind an asterisk, which matches the rest of the pattern at every position.\<close>

function (sequential) glob_match :: "(int \<Rightarrow> int) \<Rightarrow> int list \<Rightarrow> int list \<Rightarrow> bool result"
  and glob_star :: "(int \<Rightarrow> int) \<Rightarrow> int list \<Rightarrow> int list \<Rightarrow> bool result" where
  "glob_match fc [] its = Inr (its = [])"
| "glob_match fc (x # itp) [] = Inr (dropWhile (\<lambda>y. y = 42) (x # itp) = [])"
| "glob_match fc (x # itp) (c # its) =
    (if x = 63 then glob_match fc itp its
     else if x = 42 then (if itp \<noteq> [] then glob_star fc itp (c # its) else Inr True)
     else if x = 91 then
       (if itp = [] then Inl SyntaxException
        else
          let invert = (hd itp = 33);
              itp = (if invert then tl itp else itp)
          in if itp = [] then Inl SyntaxException
             else case matchSet fc itp (fc c) of
               Inl e \<Rightarrow> Inl e
             | Inr (mtch, itp) \<Rightarrow>
                 (if (invert \<and> mtch) \<or> (\<not> invert \<and> \<not> mtch) then Inr False else glob_match fc itp its))
     else if x = 92 then
       (case itp of
          [] \<Rightarrow> Inl SyntaxException
        | y # itp \<Rightarrow> (if fc y \<noteq> fc c then Inr False else glob_match fc itp its))
     else if fc x \<noteq> fc c then Inr False
     else glob_match fc itp its)"
| "glob_star fc itp [] = Inr False"
| "glob_star fc itp (c # its) =
    (case glob_match fc itp (c # its) of
       Inl e \<Rightarrow> Inl e
     | Inr True \<Rightarrow> Inr True
     | Inr False \<Rightarrow> glob_star fc itp its)"
  by pat_completeness auto
termination
  by (relation "inv_image (less_than <*lex*> less_than <*lex*> less_than)
      (\<lambda>x. case x of Inl (f, p, s) \<Rightarrow> (length p, length s, 0 :: nat) | Inr (f, p, s) \<Rightarrow> (length p, length s, 1))")
    (auto dest!: matchSet_shorter simp: Let_def split: if_splits)

text \<open>\<^verbatim>\<open>Glob::match(subject)\<close>: dereferencing the iterator at the end of an empty pattern is an assertion violation.\<close>

definition glob_subject :: "(int \<Rightarrow> int) \<Rightarrow> nat \<Rightarrow> int list \<Rightarrow> int list \<Rightarrow> bool result" where
  "glob_subject toLower options itp its =
    (if options AND GLOB_DOT_SPECIAL \<noteq> 0 \<and> its \<noteq> [] \<and> hd its = 46 then
       (if itp = [] then Inl AssertionViolationException
        else if hd itp = 63 \<or> hd itp = 42 then Inr False
        else glob_match (glob_fold toLower options) itp its)
     else glob_match (glob_fold toLower options) itp its)"

definition glob :: "(int \<Rightarrow> int) \<Rightarrow> nat \<Rightarrow> u8 list \<Rightarrow> u8 list \<Rightarrow> bool result option" where
  "glob toLower options pattern subject =
    Option.bind (text_codes utf8_queryConvert utf8_sequenceLength pattern) (\<lambda>itp.
      Option.bind (text_codes utf8_queryConvert utf8_sequenceLength subject) (\<lambda>its.
        Some (glob_subject toLower options itp its)))"

section \<open>Patterns and their language\<close>

text \<open>
  A set consists of characters and ranges, each of whose first character may be escaped; a character outside
  of a set may be escaped too.
\<close>

datatype set_elem = Elem (escaped: bool) (lower: int) (upper: "int option")

datatype glob_token = One | Many | OneOf (inverted: bool) (elems: "set_elem list") | Lit (lit_escaped: bool) (char: int)

fun elem_text :: "set_elem \<Rightarrow> int list" where
  "elem_text (Elem e lo up) = (if e then [92] else []) @ lo # (case up of None \<Rightarrow> [] | Some hi \<Rightarrow> [45, hi])"

fun token_text :: "glob_token \<Rightarrow> int list" where
  "token_text One = [63]"
| "token_text Many = [42]"
| "token_text (OneOf neg es) = 91 # (if neg then [33] else []) @ concat (map elem_text es) @ [93]"
| "token_text (Lit e c) = (if e then [92, c] else [c])"

abbreviation pattern_text :: "glob_token list \<Rightarrow> int list" where
  "pattern_text ts \<equiv> concat (map token_text ts)"

text \<open>
  What the syntax requires: a character that has a meaning of its own where it stands is escaped, and a
  range does not end in a bracket or a backslash (which cannot be escaped there).
\<close>

fun elem_ok :: "set_elem \<Rightarrow> bool" where
  "elem_ok (Elem e lo up) \<longleftrightarrow> (e \<or> lo \<noteq> 93 \<and> lo \<noteq> 92) \<and> (case up of None \<Rightarrow> True | Some hi \<Rightarrow> hi \<noteq> 93 \<and> hi \<noteq> 92)"

fun elems_ok :: "set_elem list \<Rightarrow> bool" where
  "elems_ok [] \<longleftrightarrow> True"
| "elems_ok [a] \<longleftrightarrow> elem_ok a"
| "elems_ok (a # b # es) \<longleftrightarrow> elem_ok a \<and> (upper a = None \<longrightarrow> escaped b \<or> lower b \<noteq> 45) \<and> elems_ok (b # es)"

fun token_ok :: "glob_token \<Rightarrow> bool" where
  "token_ok (OneOf neg es) \<longleftrightarrow> elems_ok es \<and> (neg \<or> es = [] \<or> escaped (hd es) \<or> lower (hd es) \<noteq> 33)"
| "token_ok (Lit e c) \<longleftrightarrow> e \<or> c \<notin> {63, 42, 91, 92}"
| "token_ok _ \<longleftrightarrow> True"

fun elem_has :: "(int \<Rightarrow> int) \<Rightarrow> int \<Rightarrow> set_elem \<Rightarrow> bool" where
  "elem_has fc c (Elem e lo up) \<longleftrightarrow> fc lo \<le> fc c \<and> fc c \<le> fc (case up of None \<Rightarrow> lo | Some hi \<Rightarrow> hi)"

inductive glob_lang :: "(int \<Rightarrow> int) \<Rightarrow> glob_token list \<Rightarrow> int list \<Rightarrow> bool" for fc where
  nil: "glob_lang fc [] []"
| one: "glob_lang fc ts s \<Longrightarrow> glob_lang fc (One # ts) (c # s)"
| many: "glob_lang fc ts s \<Longrightarrow> glob_lang fc (Many # ts) (u @ s)"
| set: "list_ex (elem_has fc c) es \<noteq> neg \<Longrightarrow> glob_lang fc ts s \<Longrightarrow> glob_lang fc (OneOf neg es # ts) (c # s)"
| lit: "fc c = fc x \<Longrightarrow> glob_lang fc ts s \<Longrightarrow> glob_lang fc (Lit e x # ts) (c # s)"

inductive_simps glob_lang_simps:
  "glob_lang fc [] s" "glob_lang fc (One # ts) s" "glob_lang fc (Many # ts) s"
  "glob_lang fc (OneOf neg es # ts) s" "glob_lang fc (Lit e x # ts) s"

section \<open>The code decides the language\<close>

lemma set_item_elem:
  assumes "elem_ok a" "upper a = None \<Longrightarrow> r = [] \<or> hd r \<noteq> 45"
  shows "set_item (elem_text a @ r) = Inr (lower a, (case upper a of None \<Rightarrow> lower a | Some hi \<Rightarrow> hi), r)"
  using assms by (cases a) (auto simp: set_item_def set_first_def set_last_def split: option.splits)

lemma elem_text_hd: "elem_ok a \<Longrightarrow> elem_text a \<noteq> [] \<and> hd (elem_text a @ r) \<noteq> 93"
  by (cases a) auto

lemma elem_text_hyphen: "escaped a \<or> lower a \<noteq> 45 \<Longrightarrow> hd (elem_text a @ r) \<noteq> 45"
  by (cases a) auto

lemma skip_elem: "elem_ok a \<Longrightarrow> skip_set (elem_text a @ r) = skip_set r"
  by (cases a) (auto split: option.splits)

lemma elems_ok_ConsD: "elems_ok (a # es) \<Longrightarrow> elem_ok a \<and> elems_ok es"
  by (cases es) auto

lemma skip_elems: "elems_ok es \<Longrightarrow> skip_set (concat (map elem_text es) @ 93 # r) = Inr r"
  by (induction es) (auto simp: skip_elem dest: elems_ok_ConsD)

lemma matchSet_elems:
  "elems_ok es \<Longrightarrow> matchSet fc (concat (map elem_text es) @ 93 # r) (fc c) =
    Inr (list_ex (elem_has fc c) es, if list_ex (elem_has fc c) es then r else r)"
proof (induction es)
  case Nil
  show ?case by (subst matchSet.simps) simp
next
  case (Cons a es)
  let ?r = "concat (map elem_text es) @ 93 # r"
  have a: "elem_ok a" "elems_ok es" using elems_ok_ConsD[OF Cons.prems] by auto
  have h: "upper a = None \<Longrightarrow> ?r = [] \<or> hd ?r \<noteq> 45"
    using Cons.prems by (cases es) (auto simp: elem_text_hyphen)
  have has: "elem_has fc c a \<longleftrightarrow> fc (lower a) \<le> fc c \<and> fc c \<le> fc (case upper a of None \<Rightarrow> lower a | Some hi \<Rightarrow> hi)"
    by (cases a) (simp split: option.split)
  show ?case
    using elem_text_hd[OF a(1), of ?r] Cons.IH[OF a(2)] skip_elems[OF a(2), of r] set_item_elem[OF a(1) h] has
    by (subst matchSet.simps) auto
qed

lemma glob_star_lang:
  assumes "\<And>s. glob_match fc p s = Inr (L s)"
  shows "glob_star fc p s = Inr (\<exists>u v. s = u @ v \<and> v \<noteq> [] \<and> L v)"
proof (induction s)
  case (Cons c s)
  have "(\<exists>u v. c # s = u @ v \<and> v \<noteq> [] \<and> L v) \<longleftrightarrow> L (c # s) \<or> (\<exists>u v. s = u @ v \<and> v \<noteq> [] \<and> L v)"
    by (auto simp: Cons_eq_append_conv)
  then show ?case using Cons assms[of "c # s"] by (cases "L (c # s)") simp_all
qed simp

lemma glob_lang_Nil: "glob_lang fc ts [] \<longleftrightarrow> list_all (\<lambda>t. t = Many) ts"
proof (induction ts)
  case (Cons t ts)
  then show ?case by (cases t) (simp_all add: glob_lang_simps)
qed (simp add: glob_lang_simps)

lemma glob_lang_Many_all: "glob_lang fc ts [] \<Longrightarrow> ts \<noteq> [] \<Longrightarrow> glob_lang fc ts s"
proof (induction ts)
  case (Cons t ts)
  then have "t = Many" "glob_lang fc ts []" by (simp_all add: glob_lang_Nil)
  then show ?case by (auto simp: glob_lang_simps)
qed simp

lemma glob_stars: "list_all token_ok ts \<Longrightarrow> dropWhile (\<lambda>y. y = 42) (pattern_text ts) = [] \<longleftrightarrow> list_all (\<lambda>t. t = Many) ts"
proof (induction ts)
  case (Cons t ts)
  then show ?case by (cases t) auto
qed simp

lemma pattern_text_Nil: "pattern_text ts = [] \<longleftrightarrow> ts = []"
proof (cases ts)
  case (Cons t ts')
  then show ?thesis by (cases t) auto
qed simp

lemma glob_match_lang: "list_all token_ok ts \<Longrightarrow> glob_match fc (pattern_text ts) s = Inr (glob_lang fc ts s)"
proof (induction ts arbitrary: s)
  case Nil
  show ?case by (simp add: glob_lang_simps)
next
  case (Cons t ts)
  note IH = Cons.IH and ok = Cons.prems
  show ?case
  proof (cases s)
    case Nil
    have "glob_match fc (pattern_text (t # ts)) [] = Inr (dropWhile (\<lambda>y. y = 42) (pattern_text (t # ts)) = [])"
      using pattern_text_Nil[of "t # ts"] by (cases "pattern_text (t # ts)") auto
    then show ?thesis using Nil glob_stars[OF ok] glob_lang_Nil[of fc "t # ts"] by simp
  next
    case s: (Cons c s')
    have IH': "glob_match fc (pattern_text ts) s = Inr (glob_lang fc ts s)" for s using IH ok by simp
    show ?thesis
    proof (cases t)
      case One
      then show ?thesis using s IH' by (simp add: glob_lang_simps)
    next
      case Many
      show ?thesis
      proof (cases "ts = []")
        case True
        then show ?thesis using Many s by (simp add: glob_lang_simps)
      next
        case False
        then have e: "(\<exists>u v. c # s' = u @ v \<and> v \<noteq> [] \<and> glob_lang fc ts v) \<longleftrightarrow> glob_lang fc (Many # ts) (c # s')"
          using glob_lang_Many_all[of fc ts "c # s'"] by (simp only: glob_lang_simps) (metis append_Nil list.distinct(1))
        show ?thesis using Many s False pattern_text_Nil[of ts] glob_star_lang[OF IH', of "c # s'"] e by simp
      qed
    next
      case (OneOf neg es)
      let ?q = "concat (map elem_text es) @ 93 # pattern_text ts"
      have es: "elems_ok es" "neg \<or> hd ?q \<noteq> 33" using ok OneOf by (cases es; cases "hd es"; auto)+
      show ?thesis
        using OneOf s es(2) matchSet_elems[OF es(1), of fc "pattern_text ts" c] IH'[of s'] by (cases neg) (auto simp: glob_lang_simps Let_def)
    next
      case (Lit e x)
      then have m: "glob_match fc (pattern_text (t # ts)) s =
          (if fc x \<noteq> fc c then Inr False else glob_match fc (pattern_text ts) s')"
        using s ok by (cases e) simp_all
      have "glob_lang fc (t # ts) s \<longleftrightarrow> fc c = fc x \<and> glob_lang fc ts s'"
        unfolding Lit s glob_lang_simps by simp
      then show ?thesis using m IH'[of s'] by simp
    qed
  qed
qed

section \<open>The walk delivers the characters\<close>

context text_iteration
begin

text \<open>The walk ends on every byte string, also on one that is not well-formed.\<close>

lemma walk_step:
  assumes "it \<noteq> []"
  obtains c it' where "ti_deref query it = Some c" "ti_next seqlen it = Some it'" "length it' < length it"
proof -
  have l: "1 \<le> int (length it)" using assms by (cases it) auto
  obtain n k where q: "tc_query query it (query it 1) 1 = Some (n, k)" "1 \<le> k" "k \<le> int (length it)"
    using tc_query_terminates[of 1 it] l by auto
  have "ti_deref query it = Some (if -1 > n then -1 else n)"
    using ti_query_eq[of 1 it] l q(1) by (simp add: ti_deref_def)
  moreover have "length (if -1 > n then [] else drop (nat k) it) < length it" using assms q by auto
  ultimately show thesis using advance[OF assms q(1)] that by blast
qed

lemma walk_total: "\<exists>cs. text_codes query seqlen it = Some cs"
proof (induction "length it" arbitrary: it rule: less_induct)
  case less
  show ?case
  proof (cases "it = []")
    case True
    then show ?thesis by (subst text_codes.simps) simp
  next
    case False
    then obtain c it' where w: "ti_deref query it = Some c" "ti_next seqlen it = Some it'" "length it' < length it"
      by (rule walk_step)
    obtain cs where "text_codes query seqlen it' = Some cs" using less.hyps[OF w(3)] by blast
    then show ?thesis using False w by (subst text_codes.simps) simp
  qed
qed

lemma walk_encoded: "list_all ok cs \<Longrightarrow> text_codes query seqlen (concat (map enc cs)) = Some cs"
proof (induction cs)
  case Nil
  show ?case by (subst text_codes.simps) simp
next
  case (Cons c cs)
  let ?it = "concat (map enc (c # cs))"
  have c: "ok c" "0 \<le> c" "enc c \<noteq> []" using Cons.prems enc_ok by auto
  have l: "1 \<le> int (length ?it)" using c(3) by (cases "enc c") auto
  have q: "tc_query query ?it (query ?it 1) 1 = Some (c, int (length (enc c)))"
    using tc_query_enc[OF c(1), of 1 "concat (map enc cs)"] c(3) by (cases "enc c") auto
  have d: "ti_deref query ?it = Some c"
    using ti_query_eq[of 1 ?it] l q c(2) by (simp add: ti_deref_def)
  have n: "ti_next seqlen ?it = Some (concat (map enc cs))"
    using advance[of ?it] q c by simp
  show ?case using d n Cons c(3) by (subst text_codes.simps) simp
qed

end

lemma pattern_wildcard:
  assumes "list_all token_ok ts" "ts \<noteq> []"
  shows "hd (pattern_text ts) = 63 \<or> hd (pattern_text ts) = 42 \<longleftrightarrow> hd ts = One \<or> hd ts = Many"
proof (cases ts)
  case (Cons t ts')
  then show ?thesis using assms by (cases t) auto
qed (use assms in simp)

section \<open>Properties\<close>

text \<open>
  C10. For every pattern that a list of well-formed tokens spells and every subject, both encoded in
  UTF-8, \<^verbatim>\<open>Glob::match\<close> ends, raises nothing and decides the language of the tokens, with both sides folded
  to lower case under \<^verbatim>\<open>GLOB_CASELESS\<close>; under \<^verbatim>\<open>GLOB_DOT_SPECIAL\<close> a subject that begins with a period
  is refused by a pattern that begins with a wildcard (and an empty pattern violates an assertion of the iterator).
\<close>

theorem glob_match_correct:
  fixes toLower :: "int \<Rightarrow> int"
  assumes "list_all token_ok ts" "list_all scalar (pattern_text ts)" "list_all scalar s"
  shows "glob toLower options (concat (map utf8_bytes (pattern_text ts))) (concat (map utf8_bytes s)) =
    Some (if options AND GLOB_DOT_SPECIAL \<noteq> 0 \<and> s \<noteq> [] \<and> hd s = 46 \<and> ts = [] then Inl AssertionViolationException
          else Inr (\<not> (options AND GLOB_DOT_SPECIAL \<noteq> 0 \<and> s \<noteq> [] \<and> hd s = 46 \<and> (hd ts = One \<or> hd ts = Many)) \<and>
                    glob_lang (glob_fold toLower options) ts s))"
proof -
  have "glob toLower options (concat (map utf8_bytes (pattern_text ts))) (concat (map utf8_bytes s)) =
      Some (glob_subject toLower options (pattern_text ts) s)"
    using utf8.walk_encoded[OF assms(2)] utf8.walk_encoded[OF assms(3)] by (simp add: glob_def)
  then show ?thesis
    using pattern_wildcard[OF assms(1)] glob_match_lang[OF assms(1), of "glob_fold toLower options" s]
      pattern_text_Nil[of ts]
    by (cases "ts = []") (auto simp: glob_subject_def)
qed

text \<open>The pattern \<^verbatim>\<open>*.[ch]\<close> and the subject \<^verbatim>\<open>a.h\<close>.\<close>

lemma glob_example: "glob_lang fc [Many, Lit False 46, OneOf False [Elem False 99 None, Elem False 104 None]] [97, 46, 104]"
proof -
  have "glob_lang fc [Lit False 46, OneOf False [Elem False 99 None, Elem False 104 None]] [46, 104]"
    by (simp add: glob_lang_simps)
  from glob_lang.many[OF this, of "[97]"] show ?thesis by simp
qed

theorem glob_match_correct_witness:
  "glob (\<lambda>c. c) 0 (concat (map utf8_bytes [42, 46, 91, 99, 104, 93])) (concat (map utf8_bytes [97, 46, 104])) = Some (Inr True)"
  using glob_match_correct[of "[Many, Lit False 46, OneOf False [Elem False 99 None, Elem False 104 None]]" "[97, 46, 104]" "\<lambda>c. c" 0]
    glob_example[of "glob_fold (\<lambda>c. c) 0"]
  by (simp add: scalar_def)

text \<open>Every call returns, whatever the bytes of pattern and subject.\<close>

lemma glob_total: "\<exists>r. glob toLower options pattern subject = Some r"
  using utf8.walk_total[of pattern] utf8.walk_total[of subject] by (auto simp: glob_def)

text \<open>
  Outside of well-formed patterns: the loop behind a hit stops at the first closing bracket, also at one that ends a
  range, whereas the loop before a hit reads that bracket as the end of the range; and a set that is not closed
  matches nothing instead of raising the exception that a hit raises.
\<close>

lemma glob_set_bracket_in_range:
  "glob_match (\<lambda>c. c) [91, 97, 88, 45, 93, 93] [89] = Inr True" "glob_match (\<lambda>c. c) [91, 97, 88, 45, 93, 93] [97] = Inr False"
  by code_simp+

lemma glob_set_unterminated:
  "glob_match (\<lambda>c. c) [91, 33, 97] [98] = Inr True" "glob_match (\<lambda>c. c) [91, 33, 97] [97] = Inl SyntaxException"
  by code_simp+

end
