(* ===== verification/GlobFiles.thy ===== *)
theory GlobFiles
  imports Glob PocoPath
begin

text \<open>
  \<^verbatim>\<open>Glob::glob\<close> on the file system: the recursive search \<^verbatim>\<open>Glob::collect\<close>, with \<^verbatim>\<open>DirectoryIterator\<close> on Unix.

  What the operating system answers is the record \<open>file_system\<close>: the entries of a directory (\<open>None\<close> if it cannot be opened), and
  what \<^verbatim>\<open>File::isDirectory\<close> and \<^verbatim>\<open>File::isLink\<close> return.  The file system does not change during a search.  The set of file names is
  the list of the insertions.
\<close>

section \<open>DirectoryIterator\<close>

record file_system =
  fs_opendir :: "string \<Rightarrow> string list option"
  fs_isDirectory :: "string \<Rightarrow> bool result"
  fs_isLink :: "string \<Rightarrow> bool result"

text \<open>\<^verbatim>\<open>next\<close> skips the entries for the directory itself and its parent; an empty name is the end.\<close>

fun dir_next :: "string list \<Rightarrow> string \<times> string list" where
  "dir_next [] = ([], [])"
| "dir_next (e # es) = (if e = ''.'' \<or> e = ''..'' then dir_next es else (e, es))"

lemma dir_next_shorter: "dir_next es = (n, es') \<Longrightarrow> n \<noteq> [] \<Longrightarrow> length es' < length es"
  by (induction es) (auto split: if_splits)

function dir_names :: "string list \<Rightarrow> string list" where
  "dir_names es = (case dir_next es of (n, es') \<Rightarrow> if n = [] then [] else n # dir_names es')"
  by pat_completeness auto
termination by (relation "measure length") (auto dest: dir_next_shorter[OF sym])

declare dir_names.simps [simp del]

text \<open>The constructor parses the text of the path again and opens it without a trailing slash.\<close>

definition dir_iterate :: "file_system \<Rightarrow> string \<Rightarrow> fpath \<Rightarrow> string list option" where
  "dir_iterate fs home path =
    Option.bind (parseUnix home (buildUnix path)) (\<lambda>p.
      fs_opendir fs (buildUnix (makeFile p)))"

definition dir_path :: "fpath \<Rightarrow> string \<Rightarrow> fpath" where
  "dir_path path name = setFileName name (makeDirectory path)"

section \<open>Glob::collect\<close>

definition GLOB_FOLLOW_SYMLINKS :: nat where "GLOB_FOLLOW_SYMLINKS = 0x02"
definition GLOB_DIRS_ONLY :: nat where "GLOB_DIRS_ONLY = 0x80"

definition glob_isDirectory :: "file_system \<Rightarrow> string \<Rightarrow> fpath \<Rightarrow> bool \<Rightarrow> bool result" where
  "glob_isDirectory fs home path followSymlink =
    (case fs_isDirectory fs (buildUnix path) of
       Inl e \<Rightarrow> Inr False
     | Inr True \<Rightarrow> Inr True
     | Inr False \<Rightarrow>
         (if followSymlink then
            rbind (fs_isLink fs (buildUnix path)) (\<lambda>link. Inr (link \<and> dir_iterate fs home path \<noteq> None))
          else Inr False))"

definition utf8_text :: "string \<Rightarrow> u8 list" where
  "utf8_text s = map (\<lambda>c. word_of_int (uchar c)) s"

text \<open>A hit at the last level; \<open>None\<close> is an exception, which ends the loop.\<close>

definition glob_leaf :: "file_system \<Rightarrow> string \<Rightarrow> fpath \<Rightarrow> string \<Rightarrow> nat \<Rightarrow> string list option" where
  "glob_leaf fs home current name options =
    (let p = setFileName name current
     in case glob_isDirectory fs home p (options AND GLOB_FOLLOW_SYMLINKS \<noteq> 0) of
          Inl e \<Rightarrow> None
        | Inr True \<Rightarrow> Some [buildUnix (makeDirectory p)]
        | Inr False \<Rightarrow> Some (if options AND GLOB_DIRS_ONLY = 0 then [buildUnix p] else []))"

lemma dir_next_plain: "dir_next es = (n, es') \<Longrightarrow> n \<noteq> [] \<Longrightarrow> plain n"
  by (induction es) (auto simp: plain_def split: if_splits)

lemma dir_next_step: "dir_next es = (n, es') \<Longrightarrow> n \<noteq> [] \<Longrightarrow> plain n \<and> length es' < length es"
  using dir_next_plain dir_next_shorter by blast

lemma dir_names_plain: "list_all plain (dir_names es)"
proof (induction es rule: dir_names.induct)
  case (1 es)
  obtain n r where d: "dir_next es = (n, r)" by (cases "dir_next es")
  then show ?case using 1[OF d[symmetric]] dir_next_plain[OF d] by (subst dir_names.simps) simp
qed

text \<open>
  \<open>glob_collect\<close> and its loop over the entries.  Every exception inside is caught in \<^verbatim>\<open>collect\<close> and ends the loop, with the files
  found so far kept.  The matcher always returns (lemma \<open>glob_total\<close>).
\<close>

lemma push_plain_depth: "plain d \<Longrightarrow> path_depth (pushDirectory d p) = path_depth p + 1"
  by (simp add: path_depth_def pushDirectory_def plain_def)

function (sequential) glob_collect :: "(int \<Rightarrow> int) \<Rightarrow> file_system \<Rightarrow> string \<Rightarrow> fpath \<Rightarrow> fpath \<Rightarrow> fpath \<Rightarrow> string \<Rightarrow> nat \<Rightarrow>
    string list \<Rightarrow> string list"
  and collect_loop :: "(int \<Rightarrow> int) \<Rightarrow> file_system \<Rightarrow> string \<Rightarrow> fpath \<Rightarrow> fpath \<Rightarrow> fpath \<Rightarrow> string \<Rightarrow> nat \<Rightarrow>
    string list \<Rightarrow> string list \<Rightarrow> string list" where
  "glob_collect uniLower fs home pathPattern base current pattern options files =
    (case dir_iterate fs home base of
       None \<Rightarrow> files
     | Some it \<Rightarrow> collect_loop uniLower fs home pathPattern base current pattern options it files)"
| "collect_loop uniLower fs home pathPattern base current pattern options it files =
    (case dir_next it of (name, it') \<Rightarrow>
       if name = [] then files
       else
         case glob uniLower options (utf8_text pattern) (utf8_text name) of
           Some (Inr True) \<Rightarrow>
             (if path_depth current < path_depth pathPattern - 1 then
                case path_directory pathPattern (path_depth (pushDirectory name current)) of
                  Inl e \<Rightarrow> files
                | Inr pattern' \<Rightarrow>
                    collect_loop uniLower fs home pathPattern base current pattern options it'
                      (glob_collect uniLower fs home pathPattern (dir_path base name) (pushDirectory name current) pattern' options files)
              else
                case glob_leaf fs home current name options of
                  None \<Rightarrow> files
                | Some found \<Rightarrow> collect_loop uniLower fs home pathPattern base current pattern options it' (files @ found))
         | Some (Inr False) \<Rightarrow> collect_loop uniLower fs home pathPattern base current pattern options it' files
         | _ \<Rightarrow> files)"
  by pat_completeness auto
termination
proof (relation "inv_image (less_than <*lex*> less_than <*lex*> less_than)
    (\<lambda>x. case x of
       Inl (l, fs, h, pp, b, c, p, opt, files) \<Rightarrow> (nat (path_depth pp - path_depth c), 1 :: nat, 0 :: nat)
     | Inr (l, fs, h, pp, b, c, p, opt, it, files) \<Rightarrow> (nat (path_depth pp - path_depth c), 0, length it))")
qed (auto simp: push_plain_depth dest!: dir_next_step[OF sym])

declare glob_collect.simps [simp del] collect_loop.simps [simp del]

section \<open>Glob::glob\<close>

text \<open>The loop that strips the directories that are part of the pattern.\<close>

function glob_base :: "nat \<Rightarrow> fpath \<Rightarrow> fpath \<Rightarrow> (fpath \<times> fpath) result" where
  "glob_base minDepth base absBase =
    (if path_depth base > int minDepth \<and> last (p_dirs base) \<noteq> ''..'' then
       case popDirectory base of
         Inl e \<Rightarrow> Inl e
       | Inr base' \<Rightarrow>
           (case popDirectory absBase of
              Inl e \<Rightarrow> Inl e
            | Inr absBase' \<Rightarrow> glob_base minDepth base' absBase')
     else Inr (base, absBase))"
  by pat_completeness auto
termination
  by (relation "measure (\<lambda>(minDepth, base, absBase). length (p_dirs base))") (auto simp: path_depth_def popDirectory_def split: if_splits)

declare glob_base.simps [simp del]

definition glob_path :: "(int \<Rightarrow> int) \<Rightarrow> file_system \<Rightarrow> string \<Rightarrow> fpath \<Rightarrow> fpath \<Rightarrow> nat \<Rightarrow> string list \<Rightarrow> string list result" where
  "glob_path uniLower fs home cwd pathPattern options files =
    (let pattern = makeDirectory pathPattern;
         minDepth = (if p_node pattern = [] then 0 else 1)
     in rbind (glob_base minDepth pattern (path_makeAbsolute cwd pattern)) (\<lambda>(base, absBase).
          rbind (path_directory pathPattern (path_depth base)) (\<lambda>p.
            let options = (if p_name pathPattern = [] then options OR GLOB_DIRS_ONLY else options)
            in Inr (glob_collect uniLower fs home pattern absBase base p options files))))"

definition glob_path_base :: "(int \<Rightarrow> int) \<Rightarrow> file_system \<Rightarrow> string \<Rightarrow> fpath \<Rightarrow> fpath \<Rightarrow> fpath \<Rightarrow> nat \<Rightarrow> string list \<Rightarrow>
    string list result" where
  "glob_path_base uniLower fs home cwd pathPattern basePath options files =
    (let options = (if p_name pathPattern = [] then options OR GLOB_DIRS_ONLY else options)
     in rbind (path_directory pathPattern (path_depth basePath)) (\<lambda>p.
          Inr (glob_collect uniLower fs home (makeDirectory pathPattern) (path_makeAbsolute cwd basePath) basePath p options files)))"

text \<open>The overload for a string expands variables and guesses the syntax.\<close>

definition glob_string :: "(int \<Rightarrow> int) \<Rightarrow> file_system \<Rightarrow> (string \<Rightarrow> string option) \<Rightarrow> string option \<Rightarrow> fpath \<Rightarrow> string \<Rightarrow> nat \<Rightarrow>
    string list \<Rightarrow> string list outcome option" where
  "glob_string uniLower fs getenv pw_dir cwd pathPattern options files =
    (case expandImpl getenv pw_dir pathPattern of
       UB \<Rightarrow> Some UB
     | Throw e \<Rightarrow> Some (Throw e)
     | Ret s \<Rightarrow>
         map_option (\<lambda>r.
           case rbind r (\<lambda>p. glob_path uniLower fs (homeImpl getenv pw_dir) cwd p options files) of
             Inl e \<Rightarrow> Throw e
           | Inr found \<Rightarrow> Ret found) (parseGuess (homeImpl getenv pw_dir) s))"

section \<open>What is found\<close>

text \<open>A pattern that cannot raise an exception: it is spelled by well-formed tokens.\<close>

definition pattern_ok :: "string \<Rightarrow> bool" where
  "pattern_ok pat \<longleftrightarrow> (\<exists>ts. ts \<noteq> [] \<and> list_all token_ok ts \<and>
    text_codes utf8_queryConvert utf8_sequenceLength (utf8_text pat) = Some (pattern_text ts))"

definition matches :: "(int \<Rightarrow> int) \<Rightarrow> nat \<Rightarrow> string \<Rightarrow> string \<Rightarrow> bool" where
  "matches uniLower options pat name \<longleftrightarrow> glob uniLower options (utf8_text pat) (utf8_text name) = Some (Inr True)"

lemma glob_subject_quiet:
  "p \<noteq> [] \<Longrightarrow> glob_match (glob_fold uniLower options) p cs = Inr b \<Longrightarrow> \<exists>b. glob_subject uniLower options p cs = Inr b"
  by (auto simp: glob_subject_def)

lemma pattern_ok_glob:
  assumes "pattern_ok pat"
  shows "glob uniLower options (utf8_text pat) (utf8_text name) = Some (Inr (matches uniLower options pat name))"
proof -
  obtain ts where ts: "ts \<noteq> []" "list_all token_ok ts" "text_codes utf8_queryConvert utf8_sequenceLength (utf8_text pat) = Some (pattern_text ts)"
    using assms by (auto simp: pattern_ok_def)
  obtain cs where cs: "text_codes utf8_queryConvert utf8_sequenceLength (utf8_text name) = Some cs"
    using utf8.walk_total[of "utf8_text name"] by blast
  have "\<exists>b. glob_subject uniLower options (pattern_text ts) cs = Inr b"
    using glob_subject_quiet[OF _ glob_match_lang[OF ts(2)]] ts(1) pattern_text_Nil[of ts] by blast
  then have "\<exists>b. glob uniLower options (utf8_text pat) (utf8_text name) = Some (Inr b)" using ts(3) cs by (auto simp: glob_def)
  then show ?thesis by (auto simp: matches_def)
qed

text \<open>
  The names of the entries of a directory, and the walks downwards: \<open>reach base ns\<close> if the names \<open>ns\<close> lead from entry to entry.
\<close>

definition entries :: "file_system \<Rightarrow> string \<Rightarrow> fpath \<Rightarrow> string list" where
  "entries fs home base = (case dir_iterate fs home base of None \<Rightarrow> [] | Some it \<Rightarrow> dir_names it)"

fun reach :: "file_system \<Rightarrow> string \<Rightarrow> fpath \<Rightarrow> string list \<Rightarrow> bool" where
  "reach fs home base [] \<longleftrightarrow> True"
| "reach fs home base (n # ns) \<longleftrightarrow> n \<in> set (entries fs home base) \<and> reach fs home (dir_path base n) ns"

definition leaf :: "file_system \<Rightarrow> string \<Rightarrow> nat \<Rightarrow> fpath \<Rightarrow> string list \<Rightarrow> string list" where
  "leaf fs home options current ns =
    (case glob_leaf fs home (current\<lparr>p_dirs := p_dirs current @ butlast ns\<rparr>) (last ns) options of None \<Rightarrow> [] | Some found \<Rightarrow> found)"

definition hits :: "(int \<Rightarrow> int) \<Rightarrow> file_system \<Rightarrow> string \<Rightarrow> nat \<Rightarrow> string list \<Rightarrow> fpath \<Rightarrow> fpath \<Rightarrow> string set" where
  "hits uniLower fs home options pats base current =
    {f. \<exists>ns. list_all2 (matches uniLower options) pats ns \<and> reach fs home base ns \<and> f \<in> set (leaf fs home options current ns)}"

lemma pushDirectory_plain: "plain n \<Longrightarrow> pushDirectory n p = p\<lparr>p_dirs := p_dirs p @ [n]\<rparr>"
  by (simp add: pushDirectory_def plain_def)

lemma leaf_Cons: "plain n \<Longrightarrow> ns \<noteq> [] \<Longrightarrow> leaf fs home options current (n # ns) = leaf fs home options (pushDirectory n current) ns"
  by (simp add: leaf_def pushDirectory_plain)

lemma entries_plain: "n \<in> set (entries fs home base) \<Longrightarrow> plain n"
  using dir_names_plain by (auto simp: entries_def list_all_iff split: option.splits)

text \<open>One level of the search.\<close>

lemma hits_last:
  "hits uniLower fs home options [pat] base current =
    (\<Union>n \<in> {n \<in> set (entries fs home base). matches uniLower options pat n}. set (leaf fs home options current [n]))"
  by (auto simp: hits_def list_all2_Cons1)

lemma hits_Cons:
  assumes "pats \<noteq> []"
  shows "hits uniLower fs home options (pat # pats) base current =
    (\<Union>n \<in> {n \<in> set (entries fs home base). matches uniLower options pat n}.
       hits uniLower fs home options pats (dir_path base n) (pushDirectory n current))"
proof -
  have l: "leaf fs home options current (n # ns) = leaf fs home options (pushDirectory n current) ns"
    if "n \<in> set (entries fs home base)" "list_all2 (matches uniLower options) pats ns" for n ns
    using leaf_Cons[of n ns] entries_plain[OF that(1)] that(2) assms by auto
  show ?thesis unfolding hits_def by (fastforce simp: list_all2_Cons1 l)
qed

section \<open>The search finds exactly the hits\<close>

lemma glob_leaf_Some:
  assumes "\<And>t. \<exists>b. fs_isLink fs t = Inr b"
  shows "glob_leaf fs home current n options = Some (leaf fs home options current [n])"
proof -
  have "\<exists>b. glob_isDirectory fs home p f = Inr b" for p f
    using assms[of "buildUnix p"] by (auto simp: glob_isDirectory_def rbind_eq_Inr split: sum.splits bool.splits)
  then obtain b where "glob_isDirectory fs home (setFileName n current) (options AND GLOB_FOLLOW_SYMLINKS \<noteq> 0) = Inr b" by blast
  then show ?thesis by (cases b) (simp_all add: leaf_def glob_leaf_def)
qed

lemma dir_names_next: "dir_names it = (if fst (dir_next it) = [] then [] else fst (dir_next it) # dir_names (snd (dir_next it)))"
  by (subst dir_names.simps) (simp add: case_prod_beta)

lemma drop_nth: "k < length xs \<Longrightarrow> drop k xs = xs ! k # drop (Suc k) xs"
  by (rule Cons_nth_drop_Suc[symmetric])

lemma hits_level:
  assumes "k < length ds"
  shows "hits uniLower fs home options (drop k ds) base current =
    (\<Union>n \<in> {n \<in> set (entries fs home base). matches uniLower options (ds ! k) n}.
       if Suc k < length ds then hits uniLower fs home options (drop (Suc k) ds) (dir_path base n) (pushDirectory n current)
       else set (leaf fs home options current [n]))"
proof (cases "Suc k < length ds")
  case True
  then have "drop (Suc k) ds \<noteq> []" by simp
  then show ?thesis unfolding drop_nth[OF assms] using True by (simp add: hits_Cons)
next
  case False
  then have "drop (Suc k) ds = []" by simp
  then show ?thesis unfolding drop_nth[OF assms] using False by (simp add: hits_last)
qed

text \<open>One turn of the loop, when nothing raises an exception.\<close>

lemma collect_loop_step:
  assumes "pattern_ok pattern" "\<And>t. \<exists>b. fs_isLink fs t = Inr b" "dir_next it = (n, it')" "n \<noteq> []"
  shows "collect_loop uniLower fs home pp base current pattern options it files =
    collect_loop uniLower fs home pp base current pattern options it'
      (if matches uniLower options pattern n then
         if Suc (length (p_dirs current)) < length (p_dirs pp) then
           glob_collect uniLower fs home pp (dir_path base n) (pushDirectory n current) (p_dirs pp ! Suc (length (p_dirs current))) options files
         else files @ leaf fs home options current [n]
       else files)"
proof -
  have n: "plain n" using dir_next_step[OF assms(3,4)] by simp
  have d: "path_depth current < path_depth pp - 1 \<longleftrightarrow> Suc (length (p_dirs current)) < length (p_dirs pp)"
    by (auto simp: path_depth_def)
  have p: "path_directory pp (path_depth (pushDirectory n current)) = Inr (p_dirs pp ! Suc (length (p_dirs current)))"
    if "Suc (length (p_dirs current)) < length (p_dirs pp)"
    using that unfolding pushDirectory_plain[OF n] path_directory_def path_depth_def by (auto simp del: of_nat_Suc simp add: of_nat_Suc[symmetric])
  show ?thesis
    by (subst collect_loop.simps)
      (use assms(3,4) pattern_ok_glob[OF assms(1)] glob_leaf_Some[OF assms(2)] p in \<open>simp add: d split: bool.split\<close>)
qed

lemma glob_collect_hits:
  assumes "\<And>t. \<exists>b. fs_isLink fs t = Inr b"
    "length (p_dirs current) < length (p_dirs pp)" "list_all pattern_ok (drop (length (p_dirs current)) (p_dirs pp))"
  shows "set (glob_collect uniLower fs home pp base current (p_dirs pp ! length (p_dirs current)) options files) =
    set files \<union> hits uniLower fs home options (drop (length (p_dirs current)) (p_dirs pp)) base current"
  using assms(2,3)
proof (induction "length (p_dirs pp) - length (p_dirs current)" arbitrary: base current files rule: less_induct)
  case less
  let ?k = "length (p_dirs current)" and ?ds = "p_dirs pp"
  let ?H = "\<lambda>n. if Suc ?k < length ?ds then hits uniLower fs home options (drop (Suc ?k) ?ds) (dir_path base n) (pushDirectory n current)
    else set (leaf fs home options current [n])"
  have ok: "pattern_ok (?ds ! ?k)" "list_all pattern_ok (drop (Suc ?k) ?ds)" using less.prems(2) unfolding drop_nth[OF less.prems(1)] by simp_all
  have sub: "set (glob_collect uniLower fs home pp (dir_path base n) (pushDirectory n current) (?ds ! Suc ?k) options files) = set files \<union> ?H n"
    if "plain n" "Suc ?k < length ?ds" for n files
    using less.hyps[of "pushDirectory n current"] that ok(2) by (simp add: pushDirectory_plain)
  have loop: "set (collect_loop uniLower fs home pp base current (?ds ! ?k) options it files) =
      set files \<union> (\<Union>n \<in> {n \<in> set (dir_names it). matches uniLower options (?ds ! ?k) n}. ?H n)" for it files
  proof (induction it arbitrary: files rule: dir_names.induct[case_names step])
    case (step it)
    obtain n it' where d: "dir_next it = (n, it')" by (cases "dir_next it")
    show ?case
    proof (cases "n = []")
      case True
      then show ?thesis using d by (subst collect_loop.simps, subst dir_names.simps) simp
    next
      case False
      have e: "dir_names it = n # dir_names it'" using d False by (subst dir_names.simps) simp
      have n: "plain n" using dir_next_step[OF d False] by simp
      show ?thesis
        unfolding collect_loop_step[OF ok(1) assms(1) d False] step.IH[OF d[symmetric] False] e
        using sub[OF n] by (cases "matches uniLower options (?ds ! ?k) n") (auto split: if_splits)
    qed
  qed
  have "set (glob_collect uniLower fs home pp base current (?ds ! ?k) options files) =
      set files \<union> (\<Union>n \<in> {n \<in> set (entries fs home base). matches uniLower options (?ds ! ?k) n}. ?H n)"
    by (subst glob_collect.simps) (simp add: loop entries_def split: option.split)
  then show ?case using hits_level[OF less.prems(1)] by simp
qed

lemma glob_base_strip:
  assumes "list_all plain ns" "list_all (\<lambda>d. d = ''..'') ups"
  shows "glob_base 0 (b\<lparr>p_dirs := ups @ ns\<rparr>) (a\<lparr>p_dirs := as @ ns\<rparr>) = Inr (b\<lparr>p_dirs := ups\<rparr>, a\<lparr>p_dirs := as\<rparr>)"
  using assms(1)
proof (induction ns rule: rev_induct)
  case Nil
  have "ups = [] \<or> last ups = ''..''" using assms(2) by (cases "ups = []") (simp_all add: list_all_iff)
  then show ?case by (subst glob_base.simps) (auto simp: path_depth_def)
next
  case (snoc n ns)
  then have "n \<noteq> ''..''" "list_all plain ns" by auto
  then have "glob_base 0 (b\<lparr>p_dirs := ups @ ns @ [n]\<rparr>) (a\<lparr>p_dirs := as @ ns @ [n]\<rparr>) =
      glob_base 0 (b\<lparr>p_dirs := ups @ ns\<rparr>) (a\<lparr>p_dirs := as @ ns\<rparr>)"
    by (subst glob_base.simps) (simp add: path_depth_def popDirectory_def butlast_append)
  then show ?case using snoc by simp
qed

text \<open>The base directory of a pattern: the part before its first name.\<close>

definition pattern_base :: "fpath \<Rightarrow> fpath" where
  "pattern_base p = p\<lparr>p_dirs := takeWhile (\<lambda>d. d = ''..'') (p_dirs p)\<rparr>"

lemma makeAbsolute_strip:
  assumes "path_normal p" "path_normal cwd" "p_absolute cwd" "p_dirs p = ups @ ns" "list_all plain ns" "p_absolute p \<Longrightarrow> ups = []"
  shows "\<exists>a as. path_makeAbsolute cwd p = a\<lparr>p_dirs := as @ ns\<rparr> \<and> path_makeAbsolute cwd (p\<lparr>p_dirs := ups\<rparr>) = a\<lparr>p_dirs := as\<rparr>"
proof (cases "p_absolute p")
  case True
  then show ?thesis using assms(4,6)
    by (intro exI[of _ p] exI[of _ "[]"]) (auto simp: path_makeAbsolute_def intro: path_eqI)
next
  case False
  let ?d = "p_dirs (makeDirectory cwd)"
  have "foldl (push True) ?d (ups @ ns) = foldl (push True) ?d ups @ ns" using assms(5) by (simp add: foldl_push_plain)
  then show ?thesis using False assms(3,4)
    by (intro exI[of _ "path_makeAbsolute cwd p"] exI[of _ "foldl (push True) ?d ups"]) (simp add: makeAbsolute_push)
qed

section \<open>The search as texts\<close>

text \<open>
  What the search promises, in terms of the texts given to the operating system and of the language of the pattern alone.  A \<open>file_name\<close> is a name that the
  Unix syntax reads back as one: no slash, no colon at the end and not the tilde.
\<close>

fun slashed :: "string list \<Rightarrow> string" where
  "slashed [] = []"
| "slashed [d] = d"
| "slashed (d # e # ds) = d @ ''/'' @ slashed (e # ds)"

definition file_name :: "string \<Rightarrow> bool" where
  "file_name d \<longleftrightarrow> plain d \<and> CHR ''/'' \<notin> set d \<and> no_device d \<and> d \<noteq> ''~''"

definition spelled :: "string \<Rightarrow> glob_token list \<Rightarrow> bool" where
  "spelled pat ts \<longleftrightarrow> ts \<noteq> [] \<and> list_all token_ok ts \<and> text_codes utf8_queryConvert utf8_sequenceLength (utf8_text pat) = Some (pattern_text ts)"

definition name_in :: "(int \<Rightarrow> int) \<Rightarrow> nat \<Rightarrow> glob_token list \<Rightarrow> string \<Rightarrow> bool" where
  "name_in uniLower options ts name \<longleftrightarrow>
    (case text_codes utf8_queryConvert utf8_sequenceLength (utf8_text name) of
       None \<Rightarrow> False
     | Some cs \<Rightarrow> \<not> (options AND GLOB_DOT_SPECIAL \<noteq> 0 \<and> cs \<noteq> [] \<and> hd cs = 46 \<and> (hd ts = One \<or> hd ts = Many)) \<and>
         glob_lang (glob_fold uniLower options) ts cs)"

text \<open>The names lead from the directory with the names \<open>ds\<close> below the root from entry to entry.\<close>

fun dir_walk :: "file_system \<Rightarrow> string list \<Rightarrow> string list \<Rightarrow> bool" where
  "dir_walk fs ds [] \<longleftrightarrow> True"
| "dir_walk fs ds (n # ns) \<longleftrightarrow>
    (case fs_opendir fs (''/'' @ slashed ds) of None \<Rightarrow> False | Some es \<Rightarrow> n \<in> set es) \<and> n \<noteq> ''.'' \<and> n \<noteq> ''..'' \<and> dir_walk fs (ds @ [n]) ns"

definition directory_at :: "file_system \<Rightarrow> bool \<Rightarrow> string \<Rightarrow> bool" where
  "directory_at fs follow t \<longleftrightarrow> fs_isDirectory fs t = Inr True \<or>
    follow \<and> fs_isDirectory fs t = Inr False \<and> fs_isLink fs t = Inr True \<and> fs_opendir fs t \<noteq> None"

text \<open>The text that is reported for a file with the text \<open>t\<close>, if any.\<close>

definition report :: "file_system \<Rightarrow> nat \<Rightarrow> string \<Rightarrow> string set" where
  "report fs options t =
    (if directory_at fs (options AND GLOB_FOLLOW_SYMLINKS \<noteq> 0) t then {t @ ''/''}
     else if options AND GLOB_DIRS_ONLY = 0 then {t} else {})"

lemma spelled_ok: "spelled pat ts \<Longrightarrow> pattern_ok pat"
  by (auto simp: spelled_def pattern_ok_def)

lemma matches_name_in:
  assumes "spelled pat ts"
  shows "matches uniLower options pat name \<longleftrightarrow> name_in uniLower options ts name"
proof -
  obtain cs where cs: "text_codes utf8_queryConvert utf8_sequenceLength (utf8_text name) = Some cs"
    using utf8.walk_total[of "utf8_text name"] by blast
  have t: "ts \<noteq> []" "list_all token_ok ts" "text_codes utf8_queryConvert utf8_sequenceLength (utf8_text pat) = Some (pattern_text ts)"
    using assms by (auto simp: spelled_def)
  show ?thesis
    using pattern_wildcard[OF t(2)] glob_match_lang[OF t(2), of "glob_fold uniLower options" cs] pattern_text_Nil[of ts] t(1)
    by (auto simp: matches_def name_in_def glob_def cs t(3) glob_subject_def)
qed

lemma slashed_snoc: "slashed (ds @ [d]) = concat (map (\<lambda>d. d @ ''/'') ds) @ d"
proof (induction ds rule: slashed.induct)
  case (3 d e ds)
  then show ?case by simp
qed simp_all

text \<open>Opening a directory opens its text.\<close>

lemma dir_iterate_text:
  assumes "p_node p = []" "p_device p = []" "p_version p = []" "path_normal p" "list_all (\<lambda>d. d = ''..'' \<or> file_name d) (p_dirs p)" "p_name p = [] \<or> file_name (p_name p)"
  shows "dir_iterate fs home p = fs_opendir fs ((if p_absolute p then ''/'' else []) @ slashed (p_dirs p @ (if p_name p = [] then [] else [p_name p])))"
proof -
  have n: "CHR ''/'' \<notin> set d \<and> no_device d \<and> d \<noteq> ''~''" if "d \<in> set (p_dirs p @ [p_name p])" for d
  proof -
    have "d = [] \<or> d = ''..'' \<or> file_name d" using that assms(5,6) by (auto simp: list_all_iff)
    then show ?thesis by (elim disjE) (simp_all add: file_name_def no_device_def)
  qed
  have "hd (p_dirs p @ [p_name p]) \<in> set (p_dirs p @ [p_name p])" by (rule hd_in_set) simp
  then have "unix_ok p" using n assms(1-4) by (auto simp: unix_ok_def list_all_iff)
  then have "dir_iterate fs home p = fs_opendir fs (buildUnix (makeFile p))" by (simp add: dir_iterate_def unix_print_parse)
  moreover have "buildUnix (makeFile p) = (if p_absolute p then ''/'' else []) @ slashed (p_dirs p @ (if p_name p = [] then [] else [p_name p]))"
  proof (cases "p_dirs p \<noteq> [] \<and> p_name p = []")
    case True
    then have "slashed (p_dirs p) = concat (map (\<lambda>d. d @ ''/'') (butlast (p_dirs p))) @ last (p_dirs p)"
      using slashed_snoc[of "butlast (p_dirs p)" "last (p_dirs p)"] by simp
    then show ?thesis using True assms(2) by (simp add: makeFile_def buildUnix_def)
  qed (use assms(2) in \<open>auto simp: makeFile_def buildUnix_def slashed_snoc\<close>)
  ultimately show ?thesis by simp
qed

lemma dir_names_filter: "list_all (\<lambda>e. e \<noteq> []) es \<Longrightarrow> set (dir_names es) = {e \<in> set es. e \<noteq> ''.'' \<and> e \<noteq> ''..''}"
proof (induction es)
  case Nil
  then show ?case by (subst dir_names.simps) simp
next
  case (Cons e es)
  show ?case
  proof (cases "e = ''.'' \<or> e = ''..''")
    case True
    then have "dir_names (e # es) = dir_names es" by (subst (1 2) dir_names.simps) auto
    then show ?thesis using Cons True by auto
  next
    case False
    then have "dir_names (e # es) = e # dir_names es" using Cons.prems by (subst dir_names.simps) simp
    then show ?thesis using Cons False by auto
  qed
qed

definition names_ok :: "file_system \<Rightarrow> bool" where
  "names_ok fs \<longleftrightarrow> (\<forall>t es. fs_opendir fs t = Some es \<longrightarrow> list_all (\<lambda>e. e = ''.'' \<or> e = ''..'' \<or> file_name e) es)"

lemma names_okD: "names_ok fs \<Longrightarrow> fs_opendir fs t = Some es \<Longrightarrow> e \<in> set es \<Longrightarrow> e \<noteq> ''.'' \<Longrightarrow> e \<noteq> ''..'' \<Longrightarrow> file_name e"
  unfolding names_ok_def list_all_iff by blast

text \<open>The text of an absolute directory, given as a path with or without a trailing slash.\<close>

definition dir_at :: "fpath \<Rightarrow> string list \<Rightarrow> bool" where
  "dir_at p ds \<longleftrightarrow> p_node p = [] \<and> p_device p = [] \<and> p_version p = [] \<and> p_absolute p \<and> list_all file_name ds \<and>
    p_dirs p @ (if p_name p = [] then [] else [p_name p]) = ds"

lemma file_name_normal: "list_all file_name ds \<Longrightarrow> normal True ds \<and> list_all (\<lambda>d. d = ''..'' \<or> file_name d) ds"
  by (induction ds) (auto simp: normal_def file_name_def)

lemma entries_walk:
  assumes "names_ok fs" "dir_at p ds"
  shows "n \<in> set (entries fs home p) \<longleftrightarrow>
    (case fs_opendir fs (''/'' @ slashed ds) of None \<Rightarrow> False | Some es \<Rightarrow> n \<in> set es) \<and> n \<noteq> ''.'' \<and> n \<noteq> ''..''"
proof -
  have f: "list_all file_name (p_dirs p)" "p_name p = [] \<or> file_name (p_name p)" using assms(2) by (auto simp: dir_at_def split: if_splits)
  have "dir_iterate fs home p = fs_opendir fs (''/'' @ slashed ds)"
    using dir_iterate_text[of p fs home] file_name_normal[OF f(1)] f(2) assms(2) by (auto simp: dir_at_def)
  moreover have "set (dir_names es) = {e \<in> set es. e \<noteq> ''.'' \<and> e \<noteq> ''..''}" if "fs_opendir fs t = Some es" for t es
    using that assms(1) by (intro dir_names_filter) (auto simp: names_ok_def list_all_iff file_name_def plain_def)
  ultimately show ?thesis by (auto simp: entries_def split: option.splits)
qed

lemma dir_at_step:
  assumes "dir_at p ds" "file_name n"
  shows "dir_at (dir_path p n) (ds @ [n])"
proof -
  have "p_name p = [] \<or> plain (p_name p)" "n \<noteq> []" using assms by (auto simp: dir_at_def file_name_def plain_def split: if_splits)
  then show ?thesis using assms by (auto simp: dir_at_def dir_path_def setFileName_def makeDirectory_push push_def plain_def)
qed

lemma reach_walk:
  assumes "names_ok fs"
  shows "dir_at p ds \<Longrightarrow> reach fs home p ns \<longleftrightarrow> dir_walk fs ds ns"
proof (induction ns arbitrary: p ds)
  case (Cons n ns)
  have "file_name n" if "n \<in> set (entries fs home p)"
    using that entries_walk[OF assms Cons.prems] names_okD[OF assms] by (auto split: option.splits)
  then show ?case using entries_walk[OF assms Cons.prems] Cons.IH[OF dir_at_step[OF Cons.prems]] by auto
qed simp

lemma dir_walk_names: "names_ok fs \<Longrightarrow> dir_walk fs ds ns \<Longrightarrow> list_all file_name ns"
  by (induction ns arbitrary: ds) (auto dest: names_okD split: option.splits)

lemma leaf_report:
  assumes "p_node p = []" "p_device p = []" "p_version p = []" "p_absolute p \<Longrightarrow> u = 0" "p_dirs p = replicate u ''..''" "list_all file_name ns" "ns \<noteq> []"
  and "\<forall>t. \<exists>b. fs_isLink fs t = Inr b"
  shows "set (leaf fs home options p ns) = report fs options ((if p_absolute p then ''/'' else []) @ slashed (replicate u ''..'' @ ns))"
proof -
  let ?q = "setFileName (last ns) (p\<lparr>p_dirs := p_dirs p @ butlast ns\<rparr>)"
  let ?t = "(if p_absolute p then ''/'' else []) @ slashed (replicate u ''..'' @ ns)"
  have f: "list_all file_name (butlast ns)" "file_name (last ns)" using assms(6,7) by (auto simp: list_all_iff in_set_butlastD)
  have e: "replicate u ''..'' @ ns = p_dirs ?q @ [last ns]" using assms(5,7) by (simp add: setFileName_def)
  have t: "buildUnix ?q = ?t" unfolding e slashed_snoc using assms(2) by (simp add: buildUnix_def setFileName_def)
  have "last ns \<noteq> []" using f(2) by (simp add: file_name_def plain_def)
  have d: "dir_iterate fs home ?q = fs_opendir fs ?t"
  proof -
    have "path_normal ?q" using f(1) assms(4,5) by (auto simp: setFileName_def normal_iff list_all_iff file_name_def)
    moreover have "list_all (\<lambda>d. d = ''..'' \<or> file_name d) (p_dirs ?q)" using f(1) assms(5) by (auto simp: setFileName_def list_all_iff)
    ultimately show ?thesis using dir_iterate_text[of ?q fs home] assms(1-3) f(2) \<open>last ns \<noteq> []\<close> e by (simp add: setFileName_def)
  qed
  obtain l where l: "fs_isLink fs ?t = Inr l" using assms(8) by blast
  have m: "buildUnix (makeDirectory ?q) = ?t @ ''/''" using f(2) t by (auto simp: makeDirectory_push push_def file_name_def plain_def setFileName_def buildUnix_def)
  show ?thesis using d l m t by (auto simp: leaf_def glob_leaf_def glob_isDirectory_def report_def directory_at_def Let_def split: sum.splits bool.splits)
qed

text \<open>The search in terms of the paths of the code; the restatement as texts follows.\<close>

lemma glob_path_hits:
  assumes "path_normal pp" "p_node pp = []" "p_name pp = [] \<or> plain (p_name pp)"
    and "pats = dropWhile (\<lambda>d. d = ''..'') (p_dirs (makeDirectory pp))" "pats \<noteq> []" "list_all pattern_ok pats"
    and "path_normal cwd" "p_absolute cwd" "\<forall>t. \<exists>b. fs_isLink fs t = Inr b"
    and "opts = (if p_name pp = [] then options OR GLOB_DIRS_ONLY else options)" "base = pattern_base (makeDirectory pp)"
  shows "\<exists>found. glob_path uniLower fs home cwd pp options files = Inr found \<and>
    set found = set files \<union>
      {f. \<exists>ns. list_all2 (matches uniLower opts) pats ns \<and> reach fs home (path_makeAbsolute cwd base) ns \<and>
           f \<in> set (leaf fs home opts base ns)}"
proof -
  let ?p = "makeDirectory pp"
  let ?ups = "takeWhile (\<lambda>d. d = ''..'') (p_dirs ?p)"
  have n: "path_normal ?p" by (rule makeDirectory_normal[OF assms(1)])
  have d: "p_dirs ?p = ?ups @ pats" using assms(4) by simp
  have pl: "list_all plain pats" using n assms(4) by (auto simp: normal_def list_all_iff split: if_splits dest: set_dropWhileD)
  have u: "list_all (\<lambda>d. d = ''..'') ?ups" by (auto simp: list_all_iff dest: set_takeWhileD)
  have ua: "p_absolute ?p \<Longrightarrow> ?ups = []" using n by (cases "p_dirs ?p") (auto simp: normal_def)
  obtain a as where a: "path_makeAbsolute cwd ?p = a\<lparr>p_dirs := as @ pats\<rparr>" "path_makeAbsolute cwd (?p\<lparr>p_dirs := ?ups\<rparr>) = a\<lparr>p_dirs := as\<rparr>"
    using makeAbsolute_strip[OF n assms(7,8) d pl ua] by blast
  have b: "base = ?p\<lparr>p_dirs := ?ups\<rparr>" using assms(11) by (simp add: pattern_base_def)
  have p: "?p = ?p\<lparr>p_dirs := ?ups @ pats\<rparr>" using d by (intro path_eqI) simp_all
  have "glob_base 0 ?p (path_makeAbsolute cwd ?p) = Inr (base, path_makeAbsolute cwd base)"
    using glob_base_strip[OF pl u, where b = ?p and a = a and as = as] p a b by simp
  moreover have node: "p_node ?p = []" using assms(2) by (simp add: makeDirectory_push)
  moreover have l: "length ?ups < length (p_dirs ?p)" using d assms(5) by (metis length_append length_greater_0_conv less_add_same_cancel1)
  moreover have dir: "path_directory pp (path_depth base) = Inr (p_dirs ?p ! length ?ups)"
  proof -
    have "p_dirs ?p = p_dirs pp @ (if p_name pp = [] then [] else [p_name pp])"
      using assms(3) by (auto simp: makeDirectory_push push_def plain_def)
    then show ?thesis using l by (auto simp: b path_directory_def path_depth_def nth_append less_Suc_eq)
  qed
  moreover have "set (glob_collect uniLower fs home ?p (path_makeAbsolute cwd base) base (p_dirs ?p ! length ?ups) opts files) =
      set files \<union> hits uniLower fs home opts pats (path_makeAbsolute cwd base) base"
  proof -
    have "drop (length ?ups) (p_dirs ?p) = pats" using assms(4) by (simp add: dropWhile_eq_drop)
    moreover have "p_dirs base = ?ups" by (simp add: b)
    ultimately show ?thesis using glob_collect_hits[of fs base ?p uniLower home] assms(6,9) l by simp
  qed
  ultimately show ?thesis using assms(10) by (simp add: glob_path_def hits_def Let_def)
qed

lemma push_ups: "list_all plain ds \<Longrightarrow> foldl (push True) ds (replicate u ''..'') = take (length ds - u) ds"
proof (induction u)
  case (Suc u)
  let ?t = "take (length ds - u) ds"
  have "list_all plain ?t" using Suc.prems by (auto simp: list_all_iff dest: in_set_takeD)
  then have "push True ?t ''..'' = butlast ?t" by (cases ?t rule: rev_cases) (auto simp: push_def)
  then show ?case using Suc by (simp add: replicate_append_same[symmetric] butlast_take del: replicate_append_same)
qed simp

lemma matches_names_in:
  "list_all2 spelled pats tss \<Longrightarrow> list_all2 (matches uniLower opts) pats ns \<longleftrightarrow> list_all2 (name_in uniLower opts) tss ns"
  by (induction pats tss arbitrary: ns rule: list_all2_induct) (simp_all add: list_all2_Cons1 matches_name_in)

section \<open>Properties\<close>

text \<open>
  C11. Searching the file system for a pattern ends, raises nothing and finds exactly the files that the pattern describes.  The search starts at the root
  or, for a relative pattern, as many levels above the current directory as the pattern has leading parent components.  A file is found if the names on the way
  to it are entries of the directory before and match the components of the pattern one by one, and what is reported is its text from the start, with a trailing
  slash for a directory (or a link to one that can be opened, if links are followed); other files are reported only if the pattern does not end in a slash.  This
  holds for every pattern in normal form, without node and device, whose components are spelled by well-formed tokens, and every file system whose link test
  raises nothing and whose names the Unix syntax reads as names (no slash, no colon at the end, not the tilde).
\<close>

theorem glob_path_correct:
  assumes "path_normal pp" "p_node pp = []" "p_device pp = []" "p_name pp = [] \<or> plain (p_name pp)"
    and "p_dirs pp @ (if p_name pp = [] then [] else [p_name pp]) = replicate u ''..'' @ pats" "pats \<noteq> []" "hd pats \<noteq> ''..''" "list_all2 spelled pats tss"
    and "p_node cwd = []" "p_device cwd = []" "p_name cwd = []" "p_absolute cwd" "list_all file_name (p_dirs cwd)"
    and "\<forall>t. \<exists>b. fs_isLink fs t = Inr b" "names_ok fs"
    and "opts = (if p_name pp = [] then options OR GLOB_DIRS_ONLY else options)"
    and "start = (if p_absolute pp then [] else take (length (p_dirs cwd) - u) (p_dirs cwd))"
  shows "\<exists>found. glob_path uniLower fs home cwd pp options files = Inr found \<and>
    set found = set files \<union>
      (\<Union>ns \<in> {ns. list_all2 (name_in uniLower opts) tss ns \<and> dir_walk fs start ns}.
        report fs opts ((if p_absolute pp then ''/'' else []) @ slashed (replicate u ''..'' @ ns)))"
proof -
  let ?p = "makeDirectory pp" and ?up = "\<lambda>d. d = ''..''"
  have dirs: "p_dirs ?p = replicate u ''..'' @ pats" using assms(4,5) by (auto simp: makeDirectory_push push_def plain_def split: if_splits)
  have ups: "takeWhile ?up (p_dirs ?p) = replicate u ''..''" "dropWhile ?up (p_dirs ?p) = pats"
    unfolding dirs using assms(6,7) by (cases pats; simp add: takeWhile_append2 dropWhile_replicate takeWhile_tail)+
  define base where "base = pattern_base ?p"
  have base: "p_node base = []" "p_device base = []" "p_version base = []" "p_name base = []" "p_dirs base = replicate u ''..''" "p_absolute base = p_absolute pp"
    using ups(1) assms(2,3) by (simp_all add: base_def pattern_base_def makeDirectory_push)
  have u0: "p_absolute pp \<Longrightarrow> u = 0" using makeDirectory_normal[OF assms(1)] dirs by (cases u) (auto simp: normal_def makeDirectory_push)
  have cn: "path_normal cwd" "list_all plain (p_dirs cwd)" using assms(12,13) file_name_normal[of "p_dirs cwd"] by (auto simp: normal_def)
  have at: "dir_at (path_makeAbsolute cwd base) start"
  proof (cases "p_absolute pp")
    case True
    then show ?thesis using base u0 assms(17) by (simp add: path_makeAbsolute_def dir_at_def)
  next
    case False
    then show ?thesis using base assms(9-13,17) cn push_ups[OF cn(2), of u]
      by (auto simp: makeAbsolute_push dir_at_def makeDirectory_push push_def list_all_iff dest: in_set_takeD)
  qed
  have ok: "list_all pattern_ok pats" using assms(8) by (induction pats tss rule: list_all2_induct) (simp_all add: spelled_ok)
  obtain found where f: "glob_path uniLower fs home cwd pp options files = Inr found" "set found = set files \<union>
      {f. \<exists>ns. list_all2 (matches uniLower opts) pats ns \<and> reach fs home (path_makeAbsolute cwd base) ns \<and> f \<in> set (leaf fs home opts base ns)}"
    using glob_path_hits[OF assms(1,2,4) ups(2)[symmetric] assms(6) ok cn(1) assms(12,14,16), of base uniLower home files] by (auto simp: base_def)
  have m: "list_all2 (matches uniLower opts) pats ns \<longleftrightarrow> list_all2 (name_in uniLower opts) tss ns" for ns
    using assms(8) by (rule matches_names_in)
  let ?P = "\<lambda>ns. list_all2 (name_in uniLower opts) tss ns \<and> dir_walk fs start ns"
  have r: "set (leaf fs home opts base ns) = report fs opts ((if p_absolute pp then ''/'' else []) @ slashed (replicate u ''..'' @ ns))"
    if "?P ns" for ns
  proof -
    have "ns \<noteq> []" "list_all file_name ns" using that assms(6,8) dir_walk_names[OF assms(15)] by auto
    then show ?thesis using leaf_report[of base u ns fs home opts] base u0 assms(14) by simp
  qed
  have "{f. \<exists>ns. list_all2 (matches uniLower opts) pats ns \<and> reach fs home (path_makeAbsolute cwd base) ns \<and> f \<in> set (leaf fs home opts base ns)} =
      (\<Union>ns \<in> {ns. ?P ns}. set (leaf fs home opts base ns))" unfolding m reach_walk[OF assms(15) at] by blast
  also have "\<dots> = (\<Union>ns \<in> {ns. ?P ns}. report fs opts ((if p_absolute pp then ''/'' else []) @ slashed (replicate u ''..'' @ ns)))"
    using r by (intro SUP_cong) simp_all
  finally show ?thesis using f by simp
qed

text \<open>A root directory with two files and a directory, and the pattern \<^verbatim>\<open>*.c\<close>.\<close>

definition sample_fs :: file_system where
  "sample_fs = \<lparr>fs_opendir = (\<lambda>s. if s = ''/'' then Some [''.'', ''..'', ''a.c'', ''b.h'', ''d.c''] else None),
    fs_isDirectory = (\<lambda>s. Inr (s = ''d.c'')), fs_isLink = (\<lambda>s. Inr False)\<rparr>"

definition sample_pattern :: fpath where
  "sample_pattern = path_clear\<lparr>p_name := ''*.c''\<rparr>"

definition sample_tokens :: "glob_token list" where
  "sample_tokens = [Many, Lit False 46, Lit False 99]"

lemma sample_spelled: "spelled ''*.c'' sample_tokens"
proof -
  have "text_codes utf8_queryConvert utf8_sequenceLength (utf8_text ''*.c'') = Some [42, 46, 99]" by code_simp
  then show ?thesis by (simp add: spelled_def sample_tokens_def)
qed

theorem glob_path_correct_witness:
  "\<exists>found. glob_path (\<lambda>c. c) sample_fs ''/'' (path_new True) sample_pattern 0 [] = Inr found \<and>
    ''a.c'' \<in> set found \<and> ''d.c/'' \<in> set found \<and> ''b.h'' \<notin> set found"
proof -
  have h: "path_normal sample_pattern" "p_node sample_pattern = []" "p_device sample_pattern = []" "p_name sample_pattern = [] \<or> plain (p_name sample_pattern)"
    "p_dirs sample_pattern @ (if p_name sample_pattern = [] then [] else [p_name sample_pattern]) = replicate 0 ''..'' @ [''*.c'']"
    "[''*.c''] \<noteq> []" "hd [''*.c''] \<noteq> ''..''" by code_simp+
  have c: "p_node (path_new True) = []" "p_device (path_new True) = []" "p_name (path_new True) = []" "p_absolute (path_new True)" "list_all file_name (p_dirs (path_new True))"
    by code_simp+
  have l: "\<forall>t. \<exists>b. fs_isLink sample_fs t = Inr b" by (auto simp: sample_fs_def)
  have n: "names_ok sample_fs" by (auto simp: names_ok_def sample_fs_def file_name_def plain_def no_device_def)
  have o: "(0 :: nat) = (if p_name sample_pattern = [] then 0 OR GLOB_DIRS_ONLY else 0)" "[] = (if p_absolute sample_pattern then [] else take (length (p_dirs (path_new True)) - 0) (p_dirs (path_new True)))"
    by code_simp+
  obtain found where f: "glob_path (\<lambda>c. c) sample_fs ''/'' (path_new True) sample_pattern 0 [] = Inr found"
    "set found = set [] \<union> (\<Union>ns \<in> {ns. list_all2 (name_in (\<lambda>c. c) 0) [sample_tokens] ns \<and> dir_walk sample_fs [] ns}.
      report sample_fs 0 ((if p_absolute sample_pattern then ''/'' else []) @ slashed (replicate 0 ''..'' @ ns)))"
    using glob_path_correct[OF h _ c l n o, of "[sample_tokens]" "\<lambda>c. c" "''/''" "[]"] sample_spelled by auto
  have m: "list_all2 (name_in (\<lambda>c. c) 0) [sample_tokens] [n] \<longleftrightarrow> matches (\<lambda>c. c) 0 ''*.c'' n" for n
    using matches_name_in[OF sample_spelled] by simp
  have e: "set found = (\<Union>n \<in> {n \<in> {''a.c'', ''b.h'', ''d.c''}. matches (\<lambda>c. c) 0 ''*.c'' n}. report sample_fs 0 n)"
  proof -
    have "p_absolute sample_pattern = False" by code_simp
    moreover have "list_all2 (name_in (\<lambda>c. c) 0) [sample_tokens] ns \<and> dir_walk sample_fs [] ns \<longleftrightarrow>
        ns \<in> (\<lambda>n. [n]) ` {n \<in> {''a.c'', ''b.h'', ''d.c''}. matches (\<lambda>c. c) 0 ''*.c'' n}" for ns
    proof (cases ns)
      case (Cons n ms)
      have "dir_walk sample_fs [] [n] \<longleftrightarrow> n \<in> {''a.c'', ''b.h'', ''d.c''}" by (auto simp: sample_fs_def)
      then show ?thesis using Cons m[of n] by (cases ms) auto
    qed auto
    ultimately show ?thesis using f(2) by simp
  qed
  have "matches (\<lambda>c. c) 0 ''*.c'' ''a.c''" "matches (\<lambda>c. c) 0 ''*.c'' ''d.c''" "\<not> matches (\<lambda>c. c) 0 ''*.c'' ''b.h''"
    by code_simp+
  moreover have "report sample_fs 0 ''a.c'' = {''a.c''}" "report sample_fs 0 ''d.c'' = {''d.c/''}"
    by (simp_all add: report_def directory_at_def sample_fs_def)
  ultimately have "set found = {''a.c'', ''d.c/''}" unfolding e by auto
  then show ?thesis using f(1) by simp
qed

end
