(* ===== verification/WebSock.thy ===== *)
theory WebSock
  imports SHA1 SHA2 Codec AsciiString
begin

text \<open>
  \<^verbatim>\<open>WebSocketImpl\<close> and the parts of \<^verbatim>\<open>WebSocket\<close> above it that carry data: frames are written and read on a stream socket that may be
  blocking or not, with RFC 6455 as the reference.

  The stream socket \<^verbatim>\<open>StreamSocketImpl\<close> is the environment.  What it will deliver is a list of arrivals: bytes that can be taken in parts,
  or a moment without data, at which a non-blocking read returns -1; at the end of the list the peer has closed the connection and every
  read returns 0.  What it will accept is a list of the numbers of bytes it takes at a time (\<open>None\<close> for a call that returns -1); at its end
  every write is accepted in full.  The theorems hold for all such lists, that is, for every way in which the network splits the data.

  An operation returns its result together with the object, because an exception leaves the object as far as it was changed.  The
  counters of type \<^verbatim>\<open>int\<close> are natural numbers: \<^verbatim>\<open>_maxPayloadSize\<close> bounds what is received, and a frame of 2 GB is not considered.
\<close>

section \<open>The stream socket\<close>

datatype delivery = Arrived "u8 list" | NoData

fun sock_receive :: "nat \<Rightarrow> delivery list \<Rightarrow> int \<times> u8 list \<times> delivery list" where
  "sock_receive len [] = (0, [], [])"
| "sock_receive len (NoData # io) = (-1, [], io)"
| "sock_receive len (Arrived bs # io) =
    (if bs = [] then sock_receive len io else (int (length (take len bs)), take len bs, Arrived (drop len bs) # io))"

fun sock_send :: "u8 list \<Rightarrow> nat option list \<Rightarrow> int \<times> u8 list \<times> nat option list" where
  "sock_send bs [] = (int (length bs), bs, [])"
| "sock_send bs (None # script) = (-1, [], script)"
| "sock_send bs (Some k # script) = (int (length (take k bs)), take k bs, script)"

section \<open>The socket\<close>

record wsrecv =
  r_frameFlags :: u8
  r_useMask :: bool
  r_mask :: "u8 list"
  r_headerLength :: nat
  r_payloadLength :: nat
  r_remainingPayloadLength :: nat
  r_payload :: "u8 list"
  r_maskOffset :: nat

record wssend =
  d_length :: nat
  d_remainingPayloadOffset :: nat
  d_remainingPayloadLength :: nat
  d_payload :: "u8 list"

record websocket =
  w_in :: "delivery list"
  w_script :: "nat option list"
  w_wire :: "u8 list"
  w_maxPayloadSize :: nat
  w_buffer :: "u8 list"
  w_bufferOffset :: nat
  w_mustMaskPayload :: bool
  w_recv :: wsrecv
  w_send :: wssend

datatype ws_exn = WS_ERR_PAYLOAD_TOO_BIG | WS_ERR_INCOMPLETE_FRAME | WS_InvalidArgument

datatype ws_result = Returned int | Raised ws_exn | Undefined

text \<open>\<open>rest\<close> is what the HTTP session has already read beyond the handshake.\<close>

definition ws_new :: "delivery list \<Rightarrow> nat option list \<Rightarrow> u8 list \<Rightarrow> bool \<Rightarrow> websocket" where
  "ws_new io script rest mustMask =
    \<lparr>w_in = io, w_script = script, w_wire = [], w_maxPayloadSize = 2 ^ 31 - 1, w_buffer = rest, w_bufferOffset = 0, w_mustMaskPayload = mustMask,
     w_recv = \<lparr>r_frameFlags = 0, r_useMask = False, r_mask = replicate 4 0, r_headerLength = 0, r_payloadLength = 0,
       r_remainingPayloadLength = 0, r_payload = [], r_maskOffset = 0\<rparr>,
     w_send = \<lparr>d_length = 0, d_remainingPayloadOffset = 0, d_remainingPayloadLength = 0, d_payload = []\<rparr>\<rparr>"

section \<open>Sending\<close>

definition ws_send_raw :: "u8 list \<Rightarrow> websocket \<Rightarrow> int \<times> websocket" where
  "ws_send_raw bs w =
    (let (sent, out, script) = sock_send bs (w_script w) in (sent, w\<lparr>w_wire := w_wire w @ out, w_script := script\<rparr>))"

text \<open>The frame that \<^verbatim>\<open>sendBytes\<close> builds; \<open>mk\<close> is the value of \<^verbatim>\<open>_rnd.next()\<close>, whose bytes are taken as they lie in memory.\<close>

definition ws_frame :: "bool \<Rightarrow> nat \<Rightarrow> u32 \<Rightarrow> u8 list \<Rightarrow> u8 list" where
  "ws_frame mustMask flags mk data =
    (let flags = (if flags = 0 then 0x82 else flags) AND 0xff;
         lengthByte = (if mustMask then 0x80 else 0) :: u8;
         n = length data;
         hdr = (of_nat flags) #
           (if n < 126 then [lengthByte OR of_nat n]
            else if n < 65536 then (lengthByte OR 126) # rev (bytes16 (of_nat n))
            else (lengthByte OR 127) # rev (bytes64 (of_nat n)))
     in if mustMask then hdr @ bytes32 mk @ map (\<lambda>i. data ! i XOR bytes32 mk ! (i mod 4)) [0..<n]
        else hdr @ data)"

definition sendBytes :: "u8 list \<Rightarrow> nat \<Rightarrow> u32 \<Rightarrow> websocket \<Rightarrow> ws_result \<times> websocket" where
  "sendBytes data flags mk w =
    (let ss = w_send w;
         finished = ss\<lparr>d_length := 0, d_remainingPayloadOffset := 0, d_remainingPayloadLength := 0\<rparr>
     in if d_remainingPayloadLength ss > 0 then
          if length data \<noteq> d_length ss then (Raised WS_InvalidArgument, w)
          else
            let (sent, w) = ws_send_raw (take (d_remainingPayloadLength ss) (drop (d_remainingPayloadOffset ss) (d_payload ss))) w
            in if sent \<ge> 0 then
                 if sent < int (d_remainingPayloadLength ss) then
                   (Returned (-1), w\<lparr>w_send := ss\<lparr>d_remainingPayloadOffset := d_remainingPayloadOffset ss + nat sent,
                      d_remainingPayloadLength := d_remainingPayloadLength ss - nat sent\<rparr>\<rparr>)
                 else (Returned (int (length data)), w\<lparr>w_send := finished\<rparr>)
               else (Returned (-1), w)
        else
          let frame = ws_frame (w_mustMaskPayload w) flags mk data;
              ss = ss\<lparr>d_payload := frame\<rparr>;
              (sent, w) = ws_send_raw frame w
          in if sent \<ge> 0 then
               if sent < int (length frame) then
                 (Returned (-1), w\<lparr>w_send := ss\<lparr>d_length := length data, d_remainingPayloadOffset := nat sent,
                    d_remainingPayloadLength := length frame - nat sent\<rparr>\<rparr>)
               else (Returned (int (length data)), w\<lparr>w_send := finished\<lparr>d_payload := frame\<rparr>\<rparr>)
             else (Returned (-1), w\<lparr>w_send := ss\<lparr>d_length := length data, d_remainingPayloadOffset := 0,
                    d_remainingPayloadLength := length frame\<rparr>\<rparr>))"

text \<open>\<^verbatim>\<open>WebSocket::sendFrame\<close> and \<^verbatim>\<open>WebSocket::shutdown\<close>\<close>

definition sendFrame :: "u8 list \<Rightarrow> nat \<Rightarrow> u32 \<Rightarrow> websocket \<Rightarrow> ws_result \<times> websocket" where
  "sendFrame data flags mk w = sendBytes data (flags OR 0x100) mk w"

definition ws_shutdown :: "u16 \<Rightarrow> u8 list \<Rightarrow> u32 \<Rightarrow> websocket \<Rightarrow> ws_result \<times> websocket" where
  "ws_shutdown statusCode statusMessage mk w = sendFrame (rev (bytes16 statusCode) @ statusMessage) (0x80 OR 0x08) mk w"

section \<open>Receiving\<close>

definition receiveSomeBytes :: "nat \<Rightarrow> websocket \<Rightarrow> int \<times> u8 list \<times> websocket" where
  "receiveSomeBytes len w =
    (let n = length (w_buffer w) - w_bufferOffset w
     in if n > 0 then
          let n = (if len < n then len else n)
          in (int n, take n (drop (w_bufferOffset w) (w_buffer w)), w\<lparr>w_bufferOffset := w_bufferOffset w + len\<rparr>)
        else let (n, bs, io) = sock_receive len (w_in w) in (n, bs, w\<lparr>w_in := io\<rparr>))"

definition peekSomeBytes :: "nat \<Rightarrow> websocket \<Rightarrow> int \<times> u8 list \<times> websocket" where
  "peekSomeBytes len w =
    (let n = length (w_buffer w) - w_bufferOffset w
     in if n > 0 then
          let n = (if len < n then len else n);
              bs = take n (drop (w_bufferOffset w) (w_buffer w))
          in if len > n then
               let (rc, new, io) = sock_receive (len - n) (w_in w);
                   w = w\<lparr>w_in := io\<rparr>
               in if rc > 0 then (int n + rc, bs @ new, w\<lparr>w_buffer := w_buffer w @ new\<rparr>) else (int n, bs, w)
             else (int n, bs, w)
        else
          let (rc, bs, io) = sock_receive len (w_in w);
              w = w\<lparr>w_in := io\<rparr>
          in if rc > 0 then (rc, bs, w\<lparr>w_buffer := bs, w_bufferOffset := 0\<rparr>) else (rc, bs, w))"

lemma sock_receive_length: "sock_receive len io = (n, bs, io') \<Longrightarrow> n > 0 \<Longrightarrow> n = int (length bs) \<and> length bs \<le> len"
  by (induction len io rule: sock_receive.induct) (auto split: if_splits)

lemma receiveSomeBytes_length: "receiveSomeBytes len w = (n, bs, w') \<Longrightarrow> n > 0 \<Longrightarrow> n = int (length bs) \<and> length bs \<le> len"
  using sock_receive_length by (auto simp: receiveSomeBytes_def Let_def split: if_splits prod.splits)

text \<open>The loop of \<^verbatim>\<open>receiveNBytes\<close>; \<open>acc\<close> is what is in its buffer.\<close>

function receiveMore :: "nat \<Rightarrow> u8 list \<Rightarrow> websocket \<Rightarrow> u8 list \<times> websocket" where
  "receiveMore len acc w =
    (if length acc < len then
       (case receiveSomeBytes (len - length acc) w of
          (n, bs, w') \<Rightarrow> (if n > 0 then receiveMore len (acc @ bs) w' else (acc, w')))
     else (acc, w))"
  by pat_completeness auto
termination
proof (relation "measure (\<lambda>(len, acc, w). len - length acc)")
  fix len and acc :: "u8 list" and w n y bs w'
  assume "length acc < len" "(n, y) = receiveSomeBytes (len - length acc) w" "(bs, w') = y" "(0 :: int) < n"
  then have "0 < length bs" using receiveSomeBytes_length[of "len - length acc" w n bs w'] by auto
  then have "len - (length acc + length bs) < len - length acc" using \<open>length acc < len\<close> by linarith
  then show "((len, acc @ bs, w'), len, acc, w) \<in> measure (\<lambda>(len, acc, w). len - length acc)" by simp
qed simp

declare receiveMore.simps [simp del]

definition receiveNBytes :: "nat \<Rightarrow> websocket \<Rightarrow> int \<times> u8 list \<times> websocket" where
  "receiveNBytes len w =
    (case receiveSomeBytes len w of
       (n, bs, w) \<Rightarrow> (if n > 0 then let (bs, w) = receiveMore len bs w in (int (length bs), bs, w) else (n, [], w)))"

definition receivePayload :: "nat \<Rightarrow> u8 list \<Rightarrow> bool \<Rightarrow> nat \<Rightarrow> websocket \<Rightarrow> int \<times> u8 list \<times> websocket" where
  "receivePayload payloadLength mk useMask maskOffset w =
    (let (received, bs, w) = receiveNBytes payloadLength w
     in (received, if received > 0 \<and> useMask then map (\<lambda>i. bs ! i XOR mk ! ((i + maskOffset) mod 4)) [0..<length bs] else bs, w))"

text \<open>\<^verbatim>\<open>peekHeader\<close>, with the part behind the length apart.\<close>

definition peekMask :: "nat \<Rightarrow> u8 list \<Rightarrow> nat \<Rightarrow> nat \<Rightarrow> wsrecv \<Rightarrow> websocket \<Rightarrow> ws_result \<times> websocket" where
  "peekMask n hdr l maskOffset rs w =
    (let rs = rs\<lparr>r_payloadLength := l\<rparr>
     in if r_useMask rs then
          if n < maskOffset + 4 then (Returned (-1), w\<lparr>w_recv := rs\<lparr>r_frameFlags := 0\<rparr>\<rparr>)
          else (Returned (int l), w\<lparr>w_recv := rs\<lparr>r_mask := take 4 (drop maskOffset hdr), r_headerLength := maskOffset + 4, r_remainingPayloadLength := l\<rparr>\<rparr>)
        else (Returned (int l), w\<lparr>w_recv := rs\<lparr>r_headerLength := maskOffset, r_remainingPayloadLength := l\<rparr>\<rparr>))"

definition peekHeader :: "websocket \<Rightarrow> ws_result \<times> websocket" where
  "peekHeader w =
    (let rs = (w_recv w)\<lparr>r_frameFlags := 0, r_useMask := False, r_headerLength := 0, r_payloadLength := 0, r_remainingPayloadLength := 0\<rparr>;
         (n, hdr, w) = peekSomeBytes 14 w
     in if n = 0 then (Returned 0, w\<lparr>w_recv := rs\<rparr>)
        else if n < 2 then (Returned (-1), w\<lparr>w_recv := rs\<rparr>)
        else
          let n = nat n;
              rs = rs\<lparr>r_frameFlags := hdr ! 0, r_useMask := (hdr ! 1 AND 0x80 \<noteq> 0)\<rparr>;
              lengthByte = hdr ! 1 AND 0x7f
          in if lengthByte = 127 then
               if n < 10 then (Returned (-1), w\<lparr>w_recv := rs\<lparr>r_frameFlags := 0\<rparr>\<rparr>)
               else
                 let l = be_value (take 8 (drop 2 hdr))
                 in if l > w_maxPayloadSize w then (Raised WS_ERR_PAYLOAD_TOO_BIG, w\<lparr>w_recv := rs\<rparr>) else peekMask n hdr l 10 rs w
             else if lengthByte = 126 then
               if n < 4 then (Returned (-1), w\<lparr>w_recv := rs\<lparr>r_frameFlags := 0\<rparr>\<rparr>)
               else
                 let l = be_value (take 2 (drop 2 hdr))
                 in if l > w_maxPayloadSize w then (Raised WS_ERR_PAYLOAD_TOO_BIG, w\<lparr>w_recv := rs\<rparr>) else peekMask n hdr l 4 rs w
             else if unat lengthByte > w_maxPayloadSize w then (Raised WS_ERR_PAYLOAD_TOO_BIG, w\<lparr>w_recv := rs\<rparr>)
             else peekMask n hdr (unat lengthByte) 2 rs w)"

definition skipHeader :: "nat \<Rightarrow> websocket \<Rightarrow> websocket" where
  "skipHeader headerLength w = (if headerLength > 0 then (let (n, hdr, w) = receiveNBytes headerLength w in w) else w)"

text \<open>
  The four ways to receive a frame: a blocking or a non-blocking socket, into an array of \<open>len\<close> bytes or into a growing buffer.  The
  second component of the result is what the call stores in the caller's buffer, if it returns.
\<close>

definition receiveBody :: "websocket \<Rightarrow> ws_result \<times> u8 list \<times> websocket" where
  "receiveBody w =
    (let rs = w_recv w;
         payloadOffset = r_payloadLength rs - r_remainingPayloadLength rs;
         (n, bs, w) = receivePayload (r_remainingPayloadLength rs) (r_mask rs) (r_useMask rs) (r_maskOffset rs) w
     in if payloadOffset + length bs > length (r_payload rs) then (Undefined, [], w)
        else
          let rs = rs\<lparr>r_payload := put_at payloadOffset bs (r_payload rs)\<rparr>
          in if n > 0 then
               let rs = rs\<lparr>r_remainingPayloadLength := r_remainingPayloadLength rs - nat n\<rparr>
               in if r_remainingPayloadLength rs = 0 then
                    (Returned (int (r_payloadLength rs)), take (r_payloadLength rs) (r_payload rs), w\<lparr>w_recv := rs\<lparr>r_maskOffset := 0\<rparr>\<rparr>)
                  else (Returned (-1), [], w\<lparr>w_recv := rs\<lparr>r_maskOffset := r_maskOffset rs + nat n\<rparr>\<rparr>)
             else if n = 0 then (Raised WS_ERR_INCOMPLETE_FRAME, [], w\<lparr>w_recv := rs\<rparr>)
             else (Returned (-1), [], w\<lparr>w_recv := rs\<rparr>))"

text \<open>\<^verbatim>\<open>resize(n, false)\<close> leaves the content of the buffer unspecified; zeros stand for it.\<close>

definition receive_nb :: "nat option \<Rightarrow> websocket \<Rightarrow> ws_result \<times> u8 list \<times> websocket" where
  "receive_nb len w =
    (if r_remainingPayloadLength (w_recv w) = 0 then
       (case peekHeader w of
          (Returned payloadLength, w) \<Rightarrow>
            (if payloadLength \<le> 0 then (Returned payloadLength, [], skipHeader (r_headerLength (w_recv w)) w)
             else if (case len of Some k \<Rightarrow> payloadLength > int k | None \<Rightarrow> False) then (Raised WS_ERR_PAYLOAD_TOO_BIG, [], w)
             else
               let w = w\<lparr>w_recv := (w_recv w)\<lparr>r_payload := replicate (nat payloadLength) 0\<rparr>\<rparr>
               in receiveBody (skipHeader (r_headerLength (w_recv w)) w))
        | (r, w) \<Rightarrow> (r, [], w))
     else if (case len of Some k \<Rightarrow> r_payloadLength (w_recv w) > k | None \<Rightarrow> False) then (Raised WS_ERR_PAYLOAD_TOO_BIG, [], w)
     else receiveBody w)"

partial_function (option) peekLoop :: "websocket \<Rightarrow> (ws_result \<times> websocket) option" where
  "peekLoop w = (case peekHeader w of (r, w') \<Rightarrow> (if r = Returned (-1) then peekLoop w' else Some (r, w')))"

declare peekLoop.simps [code]

definition receive_blocking :: "nat option \<Rightarrow> websocket \<Rightarrow> (ws_result \<times> u8 list \<times> websocket) option" where
  "receive_blocking len w =
    do { (r, w) \<leftarrow> peekLoop w;
         Some (case r of
           Returned payloadLength \<Rightarrow>
             (if payloadLength \<le> 0 then (Returned payloadLength, [], skipHeader (r_headerLength (w_recv w)) w)
              else if (case len of Some k \<Rightarrow> payloadLength > int k | None \<Rightarrow> False) then (Raised WS_ERR_PAYLOAD_TOO_BIG, [], w)
              else
                let (n, bs, w) = receivePayload (nat payloadLength) (r_mask (w_recv w)) (r_useMask (w_recv w)) 0
                      (skipHeader (r_headerLength (w_recv w)) w)
                in if n \<noteq> payloadLength then (Raised WS_ERR_INCOMPLETE_FRAME, [], w) else (Returned payloadLength, bs, w))
         | _ \<Rightarrow> (r, [], w)) }"

text \<open>\<^verbatim>\<open>receiveBytes\<close> of the two kinds, and \<^verbatim>\<open>WebSocket::receiveFrame\<close>, which adds the flags.\<close>

definition receiveBytes :: "bool \<Rightarrow> nat option \<Rightarrow> websocket \<Rightarrow> (ws_result \<times> u8 list \<times> websocket) option" where
  "receiveBytes blocking len w = (if blocking then receive_blocking len w else Some (receive_nb len w))"

definition receiveFrame :: "bool \<Rightarrow> nat option \<Rightarrow> websocket \<Rightarrow> (ws_result \<times> u8 list \<times> u8 \<times> websocket) option" where
  "receiveFrame blocking len w = map_option (\<lambda>(r, bs, w). (r, bs, r_frameFlags (w_recv w), w)) (receiveBytes blocking len w)"

definition setMaxPayloadSize :: "int \<Rightarrow> websocket \<Rightarrow> websocket result" where
  "setMaxPayloadSize n w = (if n > 0 then Inr (w\<lparr>w_maxPayloadSize := nat n\<rparr>) else Inl AssertionViolationException)"

definition ws_available :: "nat \<Rightarrow> websocket \<Rightarrow> nat" where
  "ws_available sock w = (let n = length (w_buffer w) - w_bufferOffset w in if n > 0 then n + sock else sock)"

section \<open>RFC 6455\<close>

text \<open>A frame: the first byte (FIN, reserved bits and opcode), the masking key if there is one, and the payload.\<close>

datatype frame = Frame (f_flags: u8) (f_mask: "u8 list option") (f_payload: "u8 list")

definition rfc_masked :: "u8 list option \<Rightarrow> nat \<Rightarrow> u8 list \<Rightarrow> u8 list" where
  "rfc_masked m off p = (case m of None \<Rightarrow> p | Some k \<Rightarrow> map2 (\<lambda>i b. b XOR k ! ((i + off) mod 4)) [0..<length p] p)"

definition rfc_length :: "bool \<Rightarrow> nat \<Rightarrow> u8 list" where
  "rfc_length masked n =
    (let top = (if masked then 128 else 0)
     in if n < 126 then [of_nat (top + n)] else if n < 2 ^ 16 then of_nat (top + 126) # be_bytes 2 n else of_nat (top + 127) # be_bytes 8 n)"

definition rfc_header :: "frame \<Rightarrow> u8 list" where
  "rfc_header f = f_flags f # rfc_length (f_mask f \<noteq> None) (length (f_payload f)) @ (case f_mask f of None \<Rightarrow> [] | Some k \<Rightarrow> k)"

definition rfc_frame :: "frame \<Rightarrow> u8 list" where
  "rfc_frame f = rfc_header f @ rfc_masked (f_mask f) 0 (f_payload f)"

text \<open>The frames a receiver with the limit \<open>M\<close> must take; an empty frame without flags looks like the end of the connection.\<close>

definition frame_ok :: "nat \<Rightarrow> frame \<Rightarrow> bool" where
  "frame_ok M f \<longleftrightarrow> (case f_mask f of None \<Rightarrow> True | Some k \<Rightarrow> length k = 4) \<and> length (f_payload f) \<le> M \<and>
    (f_payload f = [] \<longrightarrow> f_flags f \<noteq> 0)"

section \<open>The data that is still to come\<close>

fun arrivals :: "delivery list \<Rightarrow> u8 list" where
  "arrivals [] = []"
| "arrivals (NoData # io) = arrivals io"
| "arrivals (Arrived bs # io) = bs @ arrivals io"

text \<open>Every call that returns -1 makes this smaller.\<close>

fun io_size :: "delivery list \<Rightarrow> nat" where
  "io_size [] = 0"
| "io_size (NoData # io) = Suc (io_size io)"
| "io_size (Arrived bs # io) = length bs + io_size io"

definition peeked :: "websocket \<Rightarrow> u8 list" where
  "peeked w = drop (w_bufferOffset w) (w_buffer w)"

definition stream :: "websocket \<Rightarrow> u8 list" where
  "stream w = peeked w @ arrivals (w_in w)"

text \<open>What reading leaves alone.\<close>

definition same_state :: "websocket \<Rightarrow> websocket \<Rightarrow> bool" where
  "same_state w w' \<longleftrightarrow> w_recv w' = w_recv w \<and> w_send w' = w_send w \<and> w_maxPayloadSize w' = w_maxPayloadSize w \<and>
    w_mustMaskPayload w' = w_mustMaskPayload w \<and> w_wire w' = w_wire w \<and> w_script w' = w_script w"

lemma same_state_refl: "same_state w w"
  by (simp add: same_state_def)

lemma same_state_trans: "same_state w w' \<Longrightarrow> same_state w' w'' \<Longrightarrow> same_state w w''"
  by (simp add: same_state_def)

lemma sock_receive_cases:
  assumes "sock_receive len io = (n, bs, io')" "0 < len"
  shows "(n = int (length bs) \<and> bs \<noteq> [] \<and> length bs \<le> len \<and> arrivals io = bs @ arrivals io' \<and> io_size io = length bs + io_size io') \<or>
    (n = -1 \<and> bs = [] \<and> arrivals io' = arrivals io \<and> io_size io' < io_size io) \<or>
    (n = 0 \<and> bs = [] \<and> arrivals io = [] \<and> io' = [])"
  using assms by (induction len io rule: sock_receive.induct) (auto split: if_splits)

lemma receiveSomeBytes_cases:
  assumes "receiveSomeBytes len w = (n, bs, w')" "0 < len"
  shows "(n = int (length bs) \<and> bs \<noteq> [] \<and> length bs \<le> len \<and> stream w = bs @ stream w' \<and> io_size (w_in w') \<le> io_size (w_in w)) \<or>
    (n = -1 \<and> bs = [] \<and> stream w' = stream w \<and> io_size (w_in w') < io_size (w_in w)) \<or>
    (n = 0 \<and> bs = [] \<and> stream w = [] \<and> stream w' = [] \<and> io_size (w_in w') \<le> io_size (w_in w))"
  "same_state w w'"
proof -
  show "same_state w w'" using assms(1) by (auto simp: receiveSomeBytes_def same_state_def Let_def split: if_splits prod.splits)
  show "(n = int (length bs) \<and> bs \<noteq> [] \<and> length bs \<le> len \<and> stream w = bs @ stream w' \<and> io_size (w_in w') \<le> io_size (w_in w)) \<or>
    (n = -1 \<and> bs = [] \<and> stream w' = stream w \<and> io_size (w_in w') < io_size (w_in w)) \<or>
    (n = 0 \<and> bs = [] \<and> stream w = [] \<and> stream w' = [] \<and> io_size (w_in w') \<le> io_size (w_in w))"
  proof (cases "w_bufferOffset w < length (w_buffer w)")
    case True
    then show ?thesis
      using assms append_take_drop_id[of len "drop (w_bufferOffset w) (w_buffer w)"]
      by (auto simp: receiveSomeBytes_def stream_def peeked_def Let_def add.commute split: if_splits simp flip: append_assoc)
  next
    case False
    then have p: "peeked w = []" by (simp add: peeked_def)
    obtain io' where io: "sock_receive len (w_in w) = (n, bs, io')" "w' = w\<lparr>w_in := io'\<rparr>"
      using assms(1) False by (auto simp: receiveSomeBytes_def Let_def split: prod.splits)
    have "peeked w' = []" using p io(2) by (simp add: peeked_def)
    then show ?thesis using sock_receive_cases[OF io(1) assms(2)] p io(2) by (auto simp: stream_def)
  qed
qed

lemma receiveMore_cases:
  "receiveMore len acc w = (bs, w') \<Longrightarrow> length acc \<le> len \<Longrightarrow>
    \<exists>d. bs = acc @ d \<and> stream w = d @ stream w' \<and> same_state w w' \<and> length bs \<le> len \<and> io_size (w_in w') \<le> io_size (w_in w) \<and>
      (length bs < len \<longrightarrow> io_size (w_in w') < io_size (w_in w) \<or> stream w' = [])"
proof (induction len acc w rule: receiveMore.induct)
  case (1 len acc w)
  show ?case
  proof (cases "length acc < len")
    case True
    obtain n ds w1 where r: "receiveSomeBytes (len - length acc) w = (n, ds, w1)" by (metis prod_cases3)
    note c = receiveSomeBytes_cases[OF r]
    show ?thesis
    proof (cases "n > 0")
      case pos: True
      then have c': "ds \<noteq> []" "length ds \<le> len - length acc" "stream w = ds @ stream w1" "io_size (w_in w1) \<le> io_size (w_in w)"
        using c(1) True by auto
      have "receiveMore len (acc @ ds) w1 = (bs, w')" using 1(2) True pos r by (simp add: receiveMore.simps[of len acc])
      moreover have "length (acc @ ds) \<le> len" using c'(2) True by simp
      ultimately obtain d where d: "bs = (acc @ ds) @ d" "stream w1 = d @ stream w'" "same_state w1 w'"
        "length bs \<le> len" "io_size (w_in w') \<le> io_size (w_in w1)"
        "length bs < len \<longrightarrow> io_size (w_in w') < io_size (w_in w1) \<or> stream w' = []"
        using 1(1)[OF True r[symmetric] refl pos] by blast
      then show ?thesis using c' c(2) same_state_trans[of w w1 w'] True by (intro exI[of _ "ds @ d"]) auto
    next
      case False
      then have "bs = acc" "w' = w1" using 1(2) True r by (simp_all add: receiveMore.simps[of len acc])
      then show ?thesis using c True False by (intro exI[of _ "[]"]) auto
    qed
  next
    case False
    then show ?thesis using 1(2,3) by (auto simp: receiveMore.simps[of len acc] same_state_refl)
  qed
qed

lemma receiveNBytes_cases:
  assumes "receiveNBytes len w = (n, bs, w')" "0 < len"
  shows "(n = int (length bs) \<and> bs \<noteq> [] \<and> length bs \<le> len \<and> io_size (w_in w') \<le> io_size (w_in w) \<and>
      (length bs < len \<longrightarrow> io_size (w_in w') < io_size (w_in w) \<or> stream w' = [])) \<or>
    (n = -1 \<and> bs = [] \<and> io_size (w_in w') < io_size (w_in w)) \<or> (n = 0 \<and> bs = [] \<and> stream w = [])"
    "stream w = bs @ stream w'" "same_state w w'"
proof -
  obtain m ds w1 where r: "receiveSomeBytes len w = (m, ds, w1)" by (metis prod_cases3)
  note c = receiveSomeBytes_cases[OF r assms(2)]
  have "((n = int (length bs) \<and> bs \<noteq> [] \<and> length bs \<le> len \<and> io_size (w_in w') \<le> io_size (w_in w) \<and>
      (length bs < len \<longrightarrow> io_size (w_in w') < io_size (w_in w) \<or> stream w' = [])) \<or>
    (n = -1 \<and> bs = [] \<and> io_size (w_in w') < io_size (w_in w)) \<or> (n = 0 \<and> bs = [] \<and> stream w = [])) \<and>
    stream w = bs @ stream w' \<and> same_state w w'"
  proof (cases "m > 0")
    case True
    obtain es w2 where m: "receiveMore len ds w1 = (es, w2)" by (metis surj_pair)
    have e: "n = int (length bs)" "bs = es" "w' = w2" using assms(1) r m True by (auto simp: receiveNBytes_def)
    have c': "ds \<noteq> []" "length ds \<le> len" "stream w = ds @ stream w1" "io_size (w_in w1) \<le> io_size (w_in w)" using c(1) True by auto
    from receiveMore_cases[OF m c'(2)] obtain d where "es = ds @ d" "stream w1 = d @ stream w2" "same_state w1 w2" "length es \<le> len"
      "io_size (w_in w2) \<le> io_size (w_in w1)" "length es < len \<longrightarrow> io_size (w_in w2) < io_size (w_in w1) \<or> stream w2 = []" by auto
    then show ?thesis using c' e c(2) same_state_trans[of w w1 w2] by auto
  next
    case False
    then show ?thesis using assms(1) r c by (auto simp: receiveNBytes_def)
  qed
  then show "(n = int (length bs) \<and> bs \<noteq> [] \<and> length bs \<le> len \<and> io_size (w_in w') \<le> io_size (w_in w) \<and>
      (length bs < len \<longrightarrow> io_size (w_in w') < io_size (w_in w) \<or> stream w' = [])) \<or>
    (n = -1 \<and> bs = [] \<and> io_size (w_in w') < io_size (w_in w)) \<or> (n = 0 \<and> bs = [] \<and> stream w = [])"
    "stream w = bs @ stream w'" "same_state w w'" by blast+
qed

text \<open>A header that has been seen is in the buffer, and skipping it is taking it from there.\<close>

lemma skipHeader_peeked:
  assumes "len \<le> length (peeked w)"
  shows "stream (skipHeader len w) = drop len (stream w)" "same_state w (skipHeader len w)" "w_in (skipHeader len w) = w_in w"
proof -
  have "skipHeader len w = (if len = 0 then w else w\<lparr>w_bufferOffset := w_bufferOffset w + len\<rparr>)"
    using assms by (auto simp: skipHeader_def receiveNBytes_def receiveSomeBytes_def peeked_def Let_def receiveMore.simps)
  then show "stream (skipHeader len w) = drop len (stream w)" "same_state w (skipHeader len w)" "w_in (skipHeader len w) = w_in w"
    using assms by (auto simp: stream_def peeked_def same_state_def add.commute)
qed

lemma peekSomeBytes_cases:
  assumes "peekSomeBytes len w = (n, bs, w')" "0 < len"
  shows "(n = int (length bs) \<and> bs \<noteq> [] \<and> bs = take len (peeked w') \<and> io_size (w_in w') \<le> io_size (w_in w) \<and>
      (length bs < len \<longrightarrow> io_size (w_in w') < io_size (w_in w) \<or> arrivals (w_in w') = [])) \<or>
    (n = -1 \<and> bs = [] \<and> io_size (w_in w') < io_size (w_in w)) \<or> (n = 0 \<and> bs = [] \<and> stream w = [] \<and> peeked w' = [])"
    "stream w' = stream w" "same_state w w'"
proof -
  show "same_state w w'" using assms(1) by (auto simp: peekSomeBytes_def same_state_def Let_def split: if_splits prod.splits)
  have "((n = int (length bs) \<and> bs \<noteq> [] \<and> bs = take len (peeked w') \<and> io_size (w_in w') \<le> io_size (w_in w) \<and>
      (length bs < len \<longrightarrow> io_size (w_in w') < io_size (w_in w) \<or> arrivals (w_in w') = [])) \<or>
    (n = -1 \<and> bs = [] \<and> io_size (w_in w') < io_size (w_in w)) \<or> (n = 0 \<and> bs = [] \<and> stream w = [] \<and> peeked w' = [])) \<and> stream w' = stream w"
  proof (cases "w_bufferOffset w < length (w_buffer w)")
    case True
    let ?p = "drop (w_bufferOffset w) (w_buffer w)"
    show ?thesis
    proof (cases "length ?p < len")
      case short: True
      obtain rc new io where io: "sock_receive (len - length ?p) (w_in w) = (rc, new, io)" by (metis prod_cases3)
      have "0 < len - length ?p" using short by simp
      from sock_receive_cases[OF io this] show ?thesis
        using assms(1) True short io by (auto simp: peekSomeBytes_def peeked_def stream_def Let_def split: if_splits)
    next
      case False
      then show ?thesis using assms True by (auto simp: peekSomeBytes_def peeked_def stream_def Let_def split: if_splits)
    qed
  next
    case False
    obtain rc new io where io: "sock_receive len (w_in w) = (rc, new, io)" by (metis prod_cases3)
    from sock_receive_cases[OF io assms(2)] show ?thesis
      using assms(1) False io by (auto simp: peekSomeBytes_def peeked_def stream_def Let_def split: if_splits)
  qed
  then show "(n = int (length bs) \<and> bs \<noteq> [] \<and> bs = take len (peeked w') \<and> io_size (w_in w') \<le> io_size (w_in w) \<and>
      (length bs < len \<longrightarrow> io_size (w_in w') < io_size (w_in w) \<or> arrivals (w_in w') = [])) \<or>
    (n = -1 \<and> bs = [] \<and> io_size (w_in w') < io_size (w_in w)) \<or> (n = 0 \<and> bs = [] \<and> stream w = [] \<and> peeked w' = [])"
    "stream w' = stream w" by blast+
qed

section \<open>The header\<close>

lemma be_value_bytes: "be_value (be_bytes k n) = n mod 256 ^ k"
proof (induction k arbitrary: n)
  case (Suc k)
  have "be_value (be_bytes (Suc k) n) = n div 256 mod 256 ^ k * 256 + n mod 256"
    by (simp add: be_value_snoc Suc unat_of_nat)
  also have "\<dots> = n mod (256 * 256 ^ k)" unfolding mod_mult2_eq by simp
  finally show ?case by simp
qed (simp add: be_value_def)

lemma length_byte:
  fixes v :: nat and b :: u8
  assumes "v < 128" "b = of_nat ((if m then 128 else 0) + v)"
  shows "b AND 0x7f = of_nat v" "b AND 0x80 \<noteq> 0 \<longleftrightarrow> m"
proof -
  have u: "unat b = (if m then 128 else 0) + v" unfolding assms(2) unat_of_nat using assms(1) by simp
  have e: "b AND 0x7f = take_bit 7 b" by (simp add: take_bit_eq_mask mask_eq_exp_minus_1)
  have "unat (b AND 0x7f) = unat b mod 128" unfolding e unsigned_take_bit_eq by (simp add: take_bit_eq_mod)
  also have "\<dots> = v" using assms(1) by (simp add: u)
  finally have "unat (b AND 0x7f) = v" .
  then show "b AND 0x7f = of_nat v" by (metis of_nat_unat ucast_id)
  have "b AND 0x80 = 0 \<longleftrightarrow> \<not> bit b 7" using and_exp_eq_0_iff_not_bit[of b 7] by simp
  also have "bit b 7 \<longleftrightarrow> bit (unat b) 7" by (simp add: bit_unsigned_iff)
  also have "\<dots> \<longleftrightarrow> m" using assms(1) by (simp add: u bit_iff_odd)
  finally show "b AND 0x80 \<noteq> 0 \<longleftrightarrow> m" by simp
qed

text \<open>A header in parts: the length byte, the extended length and the key.\<close>

definition ext_length :: "nat \<Rightarrow> u8 list" where
  "ext_length n = (if n < 126 then [] else if n < 2 ^ 16 then be_bytes 2 n else be_bytes 8 n)"

definition length_code :: "nat \<Rightarrow> nat" where
  "length_code n = (if n < 126 then n else if n < 2 ^ 16 then 126 else 127)"

lemma rfc_header_parts:
  "rfc_header f = f_flags f # of_nat ((if f_mask f \<noteq> None then 128 else 0) + length_code (length (f_payload f))) #
    ext_length (length (f_payload f)) @ (case f_mask f of None \<Rightarrow> [] | Some k \<Rightarrow> k)"
  by (simp add: rfc_header_def rfc_length_def ext_length_def length_code_def Let_def)

lemma ext_length_length: "length (ext_length n) = (if n < 126 then 0 else if n < 2 ^ 16 then 2 else 8)"
  by (simp add: ext_length_def be_bytes_length)

lemma rfc_header_length:
  assumes "frame_ok M f"
  shows "length (rfc_header f) = 2 + length (ext_length (length (f_payload f))) + (if f_mask f \<noteq> None then 4 else 0)" "length (rfc_header f) \<le> 14"
  using assms by (auto simp: rfc_header_parts frame_ok_def ext_length_length split: option.splits)

text \<open>The state of the receiver after a complete header.\<close>

definition header_read :: "frame \<Rightarrow> wsrecv \<Rightarrow> bool" where
  "header_read f rs \<longleftrightarrow> r_frameFlags rs = f_flags f \<and> r_useMask rs = (f_mask f \<noteq> None) \<and> (\<forall>k. f_mask f = Some k \<longrightarrow> r_mask rs = k) \<and>
    r_headerLength rs = length (rfc_header f) \<and> r_payloadLength rs = length (f_payload f) \<and> r_remainingPayloadLength rs = length (f_payload f)"

lemma peekMask_decode:
  assumes f: "frame_ok M f" and n: "n = length hdr" "hdr = take n (rfc_header f @ r)"
    and rs: "r_frameFlags rs = f_flags f" "r_useMask rs \<longleftrightarrow> f_mask f \<noteq> None" "r_headerLength rs = 0" "r_remainingPayloadLength rs = 0"
    and off: "off = 2 + length (ext_length (length (f_payload f)))" "off \<le> n"
  shows "length (rfc_header f) \<le> n \<Longrightarrow>
      \<exists>rs'. peekMask n hdr (length (f_payload f)) off rs w = (Returned (int (length (f_payload f))), w\<lparr>w_recv := rs'\<rparr>) \<and> header_read f rs' \<and>
        r_maskOffset rs' = r_maskOffset rs"
    "n < length (rfc_header f) \<Longrightarrow>
      \<exists>rs'. peekMask n hdr (length (f_payload f)) off rs w = (Returned (-1), w\<lparr>w_recv := rs'\<rparr>) \<and> r_remainingPayloadLength rs' = 0 \<and>
        r_headerLength rs' = 0 \<and> r_maskOffset rs' = r_maskOffset rs"
proof -
  note l = rfc_header_length(1)[OF f]
  show "\<exists>rs'. peekMask n hdr (length (f_payload f)) off rs w = (Returned (-1), w\<lparr>w_recv := rs'\<rparr>) \<and> r_remainingPayloadLength rs' = 0 \<and>
        r_headerLength rs' = 0 \<and> r_maskOffset rs' = r_maskOffset rs" if "n < length (rfc_header f)"
  proof -
    have "peekMask n hdr (length (f_payload f)) off rs w = (Returned (-1), w\<lparr>w_recv := rs\<lparr>r_payloadLength := length (f_payload f), r_frameFlags := 0\<rparr>\<rparr>)"
      using that l off rs by (cases "f_mask f") (simp_all add: peekMask_def)
    then show ?thesis using rs by (intro exI[of _ "rs\<lparr>r_payloadLength := length (f_payload f), r_frameFlags := 0\<rparr>"]) simp
  qed
  show "\<exists>rs'. peekMask n hdr (length (f_payload f)) off rs w = (Returned (int (length (f_payload f))), w\<lparr>w_recv := rs'\<rparr>) \<and> header_read f rs' \<and>
        r_maskOffset rs' = r_maskOffset rs" if le: "length (rfc_header f) \<le> n"
  proof (cases "f_mask f")
    case None
    then show ?thesis using l off rs by (auto simp: peekMask_def header_read_def Let_def)
  next
    case (Some k)
    have h: "hdr = rfc_header f @ take (n - length (rfc_header f)) r" using n(2) le by (simp add: take_append)
    have "length k = 4" using f Some by (simp add: frame_ok_def)
    then have "take 4 (drop off hdr) = k" unfolding h off(1) by (simp add: rfc_header_parts Some)
    moreover have "\<not> n < off + 4" using l le off(1) Some by simp
    ultimately show ?thesis using l off rs Some by (auto simp: peekMask_def header_read_def Let_def)
  qed
qed

lemma length_code_cases:
  "length_code n = 127 \<Longrightarrow> be_value (take 8 (ext_length n @ r)) = n mod 2 ^ 64 \<and> length (ext_length n) = 8"
  "length_code n = 126 \<Longrightarrow> be_value (take 2 (ext_length n @ r)) = n \<and> length (ext_length n) = 2"
  "length_code n \<noteq> 127 \<Longrightarrow> length_code n \<noteq> 126 \<Longrightarrow> length_code n = n \<and> length (ext_length n) = 0"
  using be_value_bytes[of 8 n] be_value_bytes[of 2 n]
  by (auto simp: length_code_def ext_length_def be_bytes_length split: if_splits)

lemma peekHeader_decode:
  assumes f: "frame_ok (w_maxPayloadSize w) f" "w_maxPayloadSize w < 2 ^ 64"
    and p: "peekSomeBytes 14 w = (int n, hdr, w1)" "n = length hdr" "0 < n" "hdr = take n (rfc_header f @ r)" "same_state w w1"
  shows "length (rfc_header f) \<le> n \<Longrightarrow>
      \<exists>rs. peekHeader w = (Returned (int (length (f_payload f))), w1\<lparr>w_recv := rs\<rparr>) \<and> header_read f rs \<and> r_maskOffset rs = r_maskOffset (w_recv w)"
    "n < length (rfc_header f) \<Longrightarrow>
      \<exists>rs. peekHeader w = (Returned (-1), w1\<lparr>w_recv := rs\<rparr>) \<and> r_remainingPayloadLength rs = 0 \<and> r_headerLength rs = 0 \<and>
        r_maskOffset rs = r_maskOffset (w_recv w)"
proof -
  let ?len = "length (f_payload f)" let ?e = "ext_length ?len"
  let ?A = "length (rfc_header f) \<le> n \<longrightarrow>
      (\<exists>rs. peekHeader w = (Returned (int ?len), w1\<lparr>w_recv := rs\<rparr>) \<and> header_read f rs \<and> r_maskOffset rs = r_maskOffset (w_recv w))"
  let ?B = "n < length (rfc_header f) \<longrightarrow>
      (\<exists>rs. peekHeader w = (Returned (-1), w1\<lparr>w_recv := rs\<rparr>) \<and> r_remainingPayloadLength rs = 0 \<and> r_headerLength rs = 0 \<and>
        r_maskOffset rs = r_maskOffset (w_recv w))"
  note l = rfc_header_length[OF f(1)]
  have max: "w_maxPayloadSize w1 = w_maxPayloadSize w" "?len \<le> w_maxPayloadSize w" "?len mod 2 ^ 64 = ?len"
    using p(5) f by (auto simp: same_state_def frame_ok_def)
  have "?A \<and> ?B"
  proof (cases "n < 2")
    case True
    then show ?thesis using l p(1,3) by (auto simp: peekHeader_def Let_def)
  next
    case False
    define rs where "rs = (w_recv w)\<lparr>r_frameFlags := 0, r_useMask := False, r_headerLength := 0, r_payloadLength := 0,
      r_remainingPayloadLength := 0\<rparr>\<lparr>r_frameFlags := f_flags f, r_useMask := (f_mask f \<noteq> None)\<rparr>"
    have h: "hdr = f_flags f # of_nat ((if f_mask f \<noteq> None then 128 else 0) + length_code ?len) #
        take (n - 2) (?e @ (case f_mask f of None \<Rightarrow> [] | Some k \<Rightarrow> k) @ r)"
      using p(4) False by (simp add: rfc_header_parts take_Cons' numeral_2_eq_2)
    have lc: "length_code ?len < 128" by (simp add: length_code_def)
    note b = length_byte[OF lc refl, of "f_mask f \<noteq> None"]
    have lb: "hdr ! 1 AND 0x7f = of_nat (length_code ?len)" "hdr ! 1 AND 0x80 \<noteq> 0 \<longleftrightarrow> f_mask f \<noteq> None" "hdr ! 0 = f_flags f"
      unfolding h using b by simp_all
    have eq: "(of_nat (length_code ?len) = (127 :: u8)) = (length_code ?len = 127)" "(of_nat (length_code ?len) = (126 :: u8)) = (length_code ?len = 126)"
      "unat (of_nat (length_code ?len) :: u8) = length_code ?len"
      using lc by (simp_all add: word_unat_eq_iff unat_of_nat)
    have E: "peekHeader w =
        (if length_code ?len = 127 then
           if n < 10 then (Returned (-1), w1\<lparr>w_recv := rs\<lparr>r_frameFlags := 0\<rparr>\<rparr>)
           else if be_value (take 8 (drop 2 hdr)) > w_maxPayloadSize w1 then (Raised WS_ERR_PAYLOAD_TOO_BIG, w1\<lparr>w_recv := rs\<rparr>)
           else peekMask n hdr (be_value (take 8 (drop 2 hdr))) 10 rs w1
         else if length_code ?len = 126 then
           if n < 4 then (Returned (-1), w1\<lparr>w_recv := rs\<lparr>r_frameFlags := 0\<rparr>\<rparr>)
           else if be_value (take 2 (drop 2 hdr)) > w_maxPayloadSize w1 then (Raised WS_ERR_PAYLOAD_TOO_BIG, w1\<lparr>w_recv := rs\<rparr>)
           else peekMask n hdr (be_value (take 2 (drop 2 hdr))) 4 rs w1
         else if length_code ?len > w_maxPayloadSize w1 then (Raised WS_ERR_PAYLOAD_TOO_BIG, w1\<lparr>w_recv := rs\<rparr>)
         else peekMask n hdr (length_code ?len) 2 rs w1)"
      using False unfolding peekHeader_def p(1) Let_def prod.case lb eq nat_int rs_def[symmetric] by simp
    have rs: "r_frameFlags rs = f_flags f" "r_useMask rs \<longleftrightarrow> f_mask f \<noteq> None" "r_headerLength rs = 0" "r_remainingPayloadLength rs = 0"
      "r_maskOffset rs = r_maskOffset (w_recv w)" by (simp_all add: rs_def)
    show ?thesis
    proof (cases "n < 2 + length ?e")
      case True
      then have "length_code ?len = 127 \<and> n < 10 \<or> length_code ?len = 126 \<and> n < 4"
        using False length_code_cases(1,2)[of ?len "[]"] length_code_cases(3)[of ?len] by (cases "length_code ?len = 127"; cases "length_code ?len = 126") auto
      then have "peekHeader w = (Returned (-1), w1\<lparr>w_recv := rs\<lparr>r_frameFlags := 0\<rparr>\<rparr>)" unfolding E by (elim disjE conjE) simp_all
      then have ?B using rs by (intro impI exI[of _ "rs\<lparr>r_frameFlags := 0\<rparr>"]) simp
      moreover have ?A using True l(1) by linarith
      ultimately show ?thesis by blast
    next
      case le: False
      let ?k = "case f_mask f of None \<Rightarrow> [] | Some k \<Rightarrow> k"
      have d: "drop 2 hdr = ?e @ take (n - 2 - length ?e) (?k @ r)"
        unfolding h using le by (simp add: take_append)
      have "peekHeader w = peekMask n hdr ?len (2 + length ?e) rs w1"
        using le max length_code_cases(1,2)[of ?len] length_code_cases(3)[of ?len] unfolding E d by (cases "length_code ?len = 127"; cases "length_code ?len = 126") auto
      then show ?thesis using peekMask_decode[OF f(1) p(2,4) rs(1-4) refl] le rs(5) by auto
    qed
  qed
  then show "length (rfc_header f) \<le> n \<Longrightarrow>
      \<exists>rs. peekHeader w = (Returned (int (length (f_payload f))), w1\<lparr>w_recv := rs\<rparr>) \<and> header_read f rs \<and> r_maskOffset rs = r_maskOffset (w_recv w)"
    "n < length (rfc_header f) \<Longrightarrow>
      \<exists>rs. peekHeader w = (Returned (-1), w1\<lparr>w_recv := rs\<rparr>) \<and> r_remainingPayloadLength rs = 0 \<and> r_headerLength rs = 0 \<and>
        r_maskOffset rs = r_maskOffset (w_recv w)" by blast+
qed

section \<open>Receiving without blocking\<close>

lemma rfc_masked_length: "length (rfc_masked m off p) = length p"
  by (simp add: rfc_masked_def split: option.split)

lemma rfc_masked_nth: "i < length p \<Longrightarrow> rfc_masked m off p ! i = (case m of None \<Rightarrow> p ! i | Some k \<Rightarrow> p ! i XOR k ! ((i + off) mod 4))"
  by (simp add: rfc_masked_def split: option.split)

lemma rfc_masked_drop: "drop g (rfc_masked m off p) = rfc_masked m (off + g) (drop g p)"
  by (rule nth_equalityI) (auto simp: rfc_masked_length rfc_masked_nth add_ac split: option.split)

lemma xor_cancel: "(a XOR b) XOR b = (a :: 'a::len word)"
  by (simp add: xor.assoc)

lemma unmask:
  assumes "bs = take j (rfc_masked m off q)" "j \<le> length q" "\<forall>k. m = Some k \<longrightarrow> mk = k"
  shows "(if m \<noteq> None then map (\<lambda>i. bs ! i XOR mk ! ((i + off) mod 4)) [0..<length bs] else bs) = take j q"
proof (cases m)
  case None
  then show ?thesis using assms(1) by (simp add: rfc_masked_def)
next
  case (Some k)
  have l: "length bs = j" unfolding assms(1) using assms(2) by (simp add: rfc_masked_length)
  have "bs ! i XOR mk ! ((i + off) mod 4) = q ! i" if "i < j" for i
  proof -
    have "bs ! i = q ! i XOR k ! ((i + off) mod 4)" unfolding assms(1) using that assms(2) Some by (simp add: rfc_masked_nth)
    then show ?thesis using assms(3) Some by (simp add: xor_cancel)
  qed
  then show ?thesis using Some l assms(2) by (intro nth_equalityI) simp_all
qed

lemma rfc_masked_Nil: "rfc_masked m off p = [] \<longleftrightarrow> p = []"
  unfolding length_0_conv[symmetric] rfc_masked_length ..

definition body_inv :: "websocket \<Rightarrow> frame \<Rightarrow> frame list \<Rightarrow> bool" where
  "body_inv w f gs \<longleftrightarrow>
    (let rs = w_recv w; got = length (f_payload f) - r_remainingPayloadLength rs
     in r_frameFlags rs = f_flags f \<and> r_useMask rs = (f_mask f \<noteq> None) \<and> (\<forall>k. f_mask f = Some k \<longrightarrow> r_mask rs = k) \<and>
        r_payloadLength rs = length (f_payload f) \<and> 0 < r_remainingPayloadLength rs \<and> r_remainingPayloadLength rs \<le> length (f_payload f) \<and>
        length (r_payload rs) = length (f_payload f) \<and> take got (r_payload rs) = take got (f_payload f) \<and> r_maskOffset rs = got \<and>
        stream w = rfc_masked (f_mask f) got (drop got (f_payload f)) @ concat (map rfc_frame gs))"

definition recv_inv :: "websocket \<Rightarrow> frame list \<Rightarrow> bool" where
  "recv_inv w fs \<longleftrightarrow> w_maxPayloadSize w < 2 ^ 64 \<and> list_all (frame_ok (w_maxPayloadSize w)) fs \<and>
    (if r_remainingPayloadLength (w_recv w) = 0 then r_maskOffset (w_recv w) = 0 \<and> stream w = concat (map rfc_frame fs)
     else \<exists>f gs. fs = f # gs \<and> body_inv w f gs)"

lemma recv_inv_idle:
  "w_maxPayloadSize w < 2 ^ 64 \<Longrightarrow> list_all (frame_ok (w_maxPayloadSize w)) fs \<Longrightarrow> r_remainingPayloadLength (w_recv w) = 0 \<Longrightarrow>
    r_maskOffset (w_recv w) = 0 \<Longrightarrow> stream w = concat (map rfc_frame fs) \<Longrightarrow> recv_inv w fs"
  by (simp add: recv_inv_def)

lemma recv_inv_body:
  assumes "w_maxPayloadSize w < 2 ^ 64" "list_all (frame_ok (w_maxPayloadSize w)) (f # gs)" "body_inv w f gs"
  shows "recv_inv w (f # gs)"
proof -
  have "r_remainingPayloadLength (w_recv w) \<noteq> 0" using assms(3) by (simp add: body_inv_def Let_def)
  then show ?thesis using assms by (simp add: recv_inv_def)
qed

lemma receiveBody_step:
  assumes b: "body_inv w f gs" and r: "receiveBody w = (r, out, w')"
  shows "w_maxPayloadSize w' = w_maxPayloadSize w \<and> 
    (r = Returned (int (length (f_payload f))) \<and> out = f_payload f \<and> r_frameFlags (w_recv w') = f_flags f \<and> io_size (w_in w') \<le> io_size (w_in w) \<and>
       r_remainingPayloadLength (w_recv w') = 0 \<and> r_maskOffset (w_recv w') = 0 \<and> stream w' = concat (map rfc_frame gs) \<or>
     r = Returned (-1) \<and> out = [] \<and> body_inv w' f gs \<and> io_size (w_in w') < io_size (w_in w))"
proof -
  let ?rs = "w_recv w" let ?p = "f_payload f" let ?rem = "r_remainingPayloadLength ?rs"
  define got where "got = length ?p - ?rem"
  have i: "r_frameFlags ?rs = f_flags f" "r_useMask ?rs = (f_mask f \<noteq> None)" "\<forall>k. f_mask f = Some k \<longrightarrow> r_mask ?rs = k"
    "r_payloadLength ?rs = length ?p" "0 < ?rem" "?rem \<le> length ?p" "length (r_payload ?rs) = length ?p"
    "take got (r_payload ?rs) = take got ?p" "r_maskOffset ?rs = got" "stream w = rfc_masked (f_mask f) got (drop got ?p) @ concat (map rfc_frame gs)"
    using b by (auto simp: body_inv_def Let_def got_def)
  have g: "got + ?rem = length ?p" "length (drop got ?p) = ?rem" "r_payloadLength ?rs - ?rem = got" using i(4,6) by (auto simp: got_def)
  obtain n bs w1 where n: "receiveNBytes ?rem w = (n, bs, w1)" by (metis prod_cases3)
  note c = receiveNBytes_cases[OF n i(5)]
  let ?out = "if f_mask f \<noteq> None then map (\<lambda>j. bs ! j XOR r_mask ?rs ! ((j + got) mod 4)) [0..<length bs] else bs"
  have lbs: "length bs \<le> ?rem" using c(1) by auto
  have bs: "bs = take (length bs) (rfc_masked (f_mask f) got (drop got ?p))"
  proof -
    have "take (length bs) (stream w) = bs" unfolding c(2) by simp
    then show ?thesis using lbs g(2) unfolding i(10) by (simp add: rfc_masked_length)
  qed
  have out: "?out = take (length bs) (drop got ?p)" by (rule unmask[OF bs _ i(3)]) (use lbs g(2) in simp)
  have lo: "length ?out = length bs" by simp
  have rp: "receivePayload ?rem (r_mask ?rs) (r_useMask ?rs) (r_maskOffset ?rs) w = (n, if n > 0 then ?out else bs, w1)"
    using c(1) by (auto simp: receivePayload_def n i(2,9))
  have st: "stream w1 = rfc_masked (f_mask f) (got + length bs) (drop (got + length bs) ?p) @ concat (map rfc_frame gs)"
  proof -
    have "stream w1 = drop (length bs) (stream w)" unfolding c(2) by simp
    then show ?thesis using lbs g(2) unfolding i(10) by (simp add: rfc_masked_length rfc_masked_drop add.commute)
  qed
  have m: "w_maxPayloadSize w1 = w_maxPayloadSize w" using c(3) by (simp add: same_state_def)
  have fits: "\<not> got + length (if n > 0 then ?out else bs) > length (r_payload ?rs)" using lbs g(1) i(7) lo by simp
  show ?thesis
  proof (cases "n > 0")
    case True
    then have nb: "n = int (length bs)" "bs \<noteq> []" "io_size (w_in w1) \<le> io_size (w_in w)"
      "length bs < ?rem \<longrightarrow> io_size (w_in w1) < io_size (w_in w) \<or> stream w1 = []" using c(1) by auto
    define P where "P = put_at got ?out (r_payload ?rs)"
    have P: "length P = length ?p" "take (got + length bs) P = take (got + length bs) ?p"
      using i(7,8) g lbs unfolding P_def put_at_def out by (simp_all add: take_add)
    define rs' where "rs' = ?rs\<lparr>r_payload := P, r_remainingPayloadLength := ?rem - length bs\<rparr>"
    have R: "receiveBody w = (if ?rem - length bs = 0 then (Returned (int (length ?p)), take (length ?p) P, w1\<lparr>w_recv := rs'\<lparr>r_maskOffset := 0\<rparr>\<rparr>)
       else (Returned (-1), [], w1\<lparr>w_recv := rs'\<lparr>r_maskOffset := got + length bs\<rparr>\<rparr>))"
      using True fits unfolding receiveBody_def Let_def rp prod.case g(3) P_def rs'_def nb(1) by (simp add: i(4,9))
    show ?thesis
    proof (cases "?rem - length bs = 0")
      case all: True
      then have e: "got + length bs = length ?p" using lbs g(1) by simp
      have "take (length ?p) P = ?p" using P(2) unfolding e by simp
      then show ?thesis using r R all st nb(3) m i(1) e P unfolding rs'_def by (auto simp: stream_def peeked_def rfc_masked_def split: option.splits)
    next
      case False
      have k: "length ?p - (?rem - length bs) = got + length bs" using lbs g(1) False by simp
      have "stream w1 \<noteq> []" using False k g(1) unfolding st by (auto simp: rfc_masked_Nil)
      then have "io_size (w_in w1) < io_size (w_in w)" using nb(4) False by simp
      moreover have "body_inv (w1\<lparr>w_recv := rs'\<lparr>r_maskOffset := got + length bs\<rparr>\<rparr>) f gs"
        using i P st k False unfolding body_inv_def Let_def rs'_def by (simp add: stream_def peeked_def)
      ultimately show ?thesis using r R False m by auto
    qed
  next
    case False
    have "stream w \<noteq> []" using i(5) g(2) unfolding i(10) by (auto simp: rfc_masked_Nil)
    then have nb: "n = -1" "bs = []" "io_size (w_in w1) < io_size (w_in w)" using c(1) False by auto
    have R: "receiveBody w = (Returned (-1), [], w1\<lparr>w_recv := ?rs\<rparr>)"
      using fits unfolding receiveBody_def Let_def rp prod.case g(3) by (simp add: nb put_at_nil)
    have "body_inv (w1\<lparr>w_recv := ?rs\<rparr>) f gs"
      using b st i(10) unfolding nb body_inv_def Let_def by (simp add: stream_def peeked_def got_def)
    then show ?thesis using r R nb(3) m by auto
  qed
qed

text \<open>The socket between two frames: the next call sees the header of the first frame, or the end.\<close>

definition idle :: "websocket \<Rightarrow> frame list \<Rightarrow> bool" where
  "idle w fs \<longleftrightarrow> w_maxPayloadSize w < 2 ^ 64 \<and> list_all (frame_ok (w_maxPayloadSize w)) fs \<and> stream w = concat (map rfc_frame fs)"

lemma peekHeader_step:
  assumes i: "idle w fs" and r: "peekHeader w = (r, w')"
  shows "w_maxPayloadSize w' = w_maxPayloadSize w \<and> stream w' = stream w \<and> r_maskOffset (w_recv w') = r_maskOffset (w_recv w) \<and>
    (r = Returned (-1) \<and> r_remainingPayloadLength (w_recv w') = 0 \<and> r_headerLength (w_recv w') = 0 \<and> io_size (w_in w') < io_size (w_in w) \<or>
     r = Returned 0 \<and> fs = [] \<and> r_remainingPayloadLength (w_recv w') = 0 \<and> r_headerLength (w_recv w') = 0 \<and> r_frameFlags (w_recv w') = 0 \<or>
     (\<exists>f gs. fs = f # gs \<and> r = Returned (int (length (f_payload f))) \<and> header_read f (w_recv w') \<and> length (rfc_header f) \<le> length (peeked w') \<and>
       io_size (w_in w') \<le> io_size (w_in w)))"
proof -
  have st: "stream w = concat (map rfc_frame fs)" "w_maxPayloadSize w < 2 ^ 64" "list_all (frame_ok (w_maxPayloadSize w)) fs"
    using i by (auto simp: idle_def)
  obtain n hdr w1 where p: "peekSomeBytes 14 w = (n, hdr, w1)" by (metis prod_cases3)
  have "(0 :: nat) < 14" by simp
  note c = peekSomeBytes_cases[OF p this]
  have keep: "stream (w1\<lparr>w_recv := rs\<rparr>) = stream w" "w_maxPayloadSize (w1\<lparr>w_recv := rs\<rparr>) = w_maxPayloadSize w"
    "peeked (w1\<lparr>w_recv := rs\<rparr>) = peeked w1" for rs
    using c(2,3) by (simp_all add: stream_def peeked_def same_state_def)
  consider (data) "n = int (length hdr)" "hdr \<noteq> []" | (none) "n = -1" "io_size (w_in w1) < io_size (w_in w)" | (closed) "n = 0" "stream w = []"
    using c(1) by blast
  then show ?thesis
  proof cases
    case data
    have h: "hdr = take 14 (peeked w1)" "io_size (w_in w1) \<le> io_size (w_in w)"
      "length hdr < 14 \<longrightarrow> io_size (w_in w1) < io_size (w_in w) \<or> arrivals (w_in w1) = []" using c(1) data by auto
    have "hdr = take (length hdr) (stream w1)" unfolding h(1) by (simp add: stream_def min_def)
    then have hs: "hdr = take (length hdr) (stream w)" unfolding c(2) .
    then have "stream w \<noteq> []" using data(2) by auto
    then obtain f gs where fs: "fs = f # gs" using st(1) by (cases fs) auto
    have ok: "frame_ok (w_maxPayloadSize w) f" using st(3) fs by simp
    let ?r = "rfc_masked (f_mask f) 0 (f_payload f) @ concat (map rfc_frame gs)"
    have e: "stream w = rfc_header f @ ?r" using st(1) fs by (simp add: rfc_frame_def)
    note D = peekHeader_decode[OF ok st(2) p[unfolded data(1)] refl _ hs[unfolded e] c(3)]
    have pos: "0 < length hdr" using data(2) by simp
    show ?thesis
    proof (cases "length (rfc_header f) \<le> length hdr")
      case True
      from D(1)[OF pos True] obtain rs where "peekHeader w = (Returned (int (length (f_payload f))), w1\<lparr>w_recv := rs\<rparr>)" "header_read f rs"
        "r_maskOffset rs = r_maskOffset (w_recv w)" by auto
      moreover have "length (rfc_header f) \<le> length (peeked w1)" using True h(1) by (auto simp: min_def split: if_splits)
      ultimately show ?thesis using r fs keep h(2) by auto
    next
      case False
      then have "length hdr < length (rfc_header f)" by simp
      from D(2)[OF pos this] obtain rs where R: "peekHeader w = (Returned (-1), w1\<lparr>w_recv := rs\<rparr>)" "r_remainingPayloadLength rs = 0"
        "r_headerLength rs = 0" "r_maskOffset rs = r_maskOffset (w_recv w)" by auto
      have "arrivals (w_in w1) \<noteq> []"
      proof
        assume "arrivals (w_in w1) = []"
        then have "peeked w1 = rfc_header f @ ?r" using c(2) e by (simp add: stream_def)
        then show False using False h(1) rfc_header_length(2)[OF ok] by simp
      qed
      moreover have "length hdr < 14" using False rfc_header_length(2)[OF ok] by simp
      ultimately have "io_size (w_in w1) < io_size (w_in w)" using h(3) by blast
      then show ?thesis using r R keep by auto
    qed
  next
    case none
    then show ?thesis using r p keep unfolding peekHeader_def by (auto simp: Let_def)
  next
    case closed
    then have "fs = []" using st(1) by (cases fs) (auto simp: rfc_frame_def rfc_header_def)
    then show ?thesis using closed r p keep unfolding peekHeader_def by (auto simp: Let_def)
  qed
qed

lemma receive_nb_step:
  assumes i: "recv_inv w fs" and len: "\<forall>k. len = Some k \<longrightarrow> list_all (\<lambda>f. length (f_payload f) \<le> k) fs" and r: "receive_nb len w = (r, out, w')"
  shows "r = Returned (-1) \<and> out = [] \<and> recv_inv w' fs \<and> io_size (w_in w') < io_size (w_in w) \<or>
    r = Returned 0 \<and> out = [] \<and> fs = [] \<and> recv_inv w' [] \<and> r_frameFlags (w_recv w') = 0 \<or>
    (\<exists>f gs. fs = f # gs \<and> r = Returned (int (length (f_payload f))) \<and> out = f_payload f \<and> r_frameFlags (w_recv w') = f_flags f \<and> recv_inv w' gs \<and>
      io_size (w_in w') \<le> io_size (w_in w))"
proof (cases "r_remainingPayloadLength (w_recv w) = 0")
  case False
  then obtain f gs where fs: "fs = f # gs" "body_inv w f gs" using i by (auto simp: recv_inv_def)
  have "\<not> (case len of Some k \<Rightarrow> r_payloadLength (w_recv w) > k | None \<Rightarrow> False)"
    using len fs by (auto simp: body_inv_def Let_def split: option.split)
  then have "receiveBody w = (r, out, w')" using r False by (simp add: receive_nb_def)
  from receiveBody_step[OF fs(2) this] show ?thesis using i fs(1) by (auto simp: recv_inv_def body_inv_def Let_def)
next
  case True
  obtain p w1 where p: "peekHeader w = (p, w1)" by (metis surj_pair)
  have "idle w fs" using i True by (simp add: idle_def recv_inv_def)
  note S = peekHeader_step[OF this p]
  have st: "stream w1 = concat (map rfc_frame fs)" "w_maxPayloadSize w1 = w_maxPayloadSize w" "r_maskOffset (w_recv w1) = 0"
    "w_maxPayloadSize w < 2 ^ 64" "list_all (frame_ok (w_maxPayloadSize w)) fs" using S i True by (auto simp: recv_inv_def)
  consider (none) "p = Returned (-1)" "r_remainingPayloadLength (w_recv w1) = 0" "r_headerLength (w_recv w1) = 0" "io_size (w_in w1) < io_size (w_in w)"
    | (closed) "p = Returned 0" "fs = []" "r_remainingPayloadLength (w_recv w1) = 0" "r_headerLength (w_recv w1) = 0" "r_frameFlags (w_recv w1) = 0"
    | (frame) f gs where "fs = f # gs" "p = Returned (int (length (f_payload f)))" "header_read f (w_recv w1)"
        "length (rfc_header f) \<le> length (peeked w1)" "io_size (w_in w1) \<le> io_size (w_in w)" using S by metis
  then show ?thesis
  proof cases
    case none
    then have "r = Returned (-1)" "out = []" "w' = w1" using r True p by (simp_all add: receive_nb_def skipHeader_def)
    then show ?thesis using none st by (auto simp: recv_inv_def)
  next
    case closed
    then have "r = Returned 0" "out = []" "w' = w1" using r True p by (simp_all add: receive_nb_def skipHeader_def)
    then show ?thesis using closed st by (auto simp: recv_inv_def)
  next
    case frame
    let ?n = "length (f_payload f)" let ?h = "length (rfc_header f)"
    have hr: "r_headerLength (w_recv w1) = ?h" "r_remainingPayloadLength (w_recv w1) = ?n" "r_frameFlags (w_recv w1) = f_flags f"
      using frame(3) by (simp_all add: header_read_def)
    have d: "drop ?h (concat (map rfc_frame fs)) = rfc_masked (f_mask f) 0 (f_payload f) @ concat (map rfc_frame gs)"
      using frame(1) by (simp add: rfc_frame_def)
    show ?thesis
    proof (cases "?n = 0")
      case empty: True
      then have e: "r = Returned 0" "out = []" "w' = skipHeader ?h w1" using r True p frame(2) hr by (simp_all add: receive_nb_def)
      note s = skipHeader_peeked[OF frame(4)]
      have "recv_inv w' gs" using s hr st empty d frame(1) unfolding e(3) recv_inv_def by (simp add: same_state_def rfc_masked_Nil rfc_masked_def split: option.splits)
      then show ?thesis using e frame empty s hr by (auto simp: same_state_def)
    next
      case False
      define w2 where "w2 = w1\<lparr>w_recv := (w_recv w1)\<lparr>r_payload := replicate ?n 0\<rparr>\<rparr>"
      have "\<not> (case len of Some k \<Rightarrow> int ?n > int k | None \<Rightarrow> False)" using len frame(1) by (auto split: option.split)
      then have R: "receiveBody (skipHeader ?h w2) = (r, out, w')"
        using r True p frame(2) False hr unfolding w2_def by (simp add: receive_nb_def Let_def)
      have pk: "?h \<le> length (peeked w2)" using frame(4) by (simp add: w2_def peeked_def)
      note s = skipHeader_peeked[OF pk]
      have w2: "w_recv w2 = (w_recv w1)\<lparr>r_payload := replicate ?n 0\<rparr>" "stream w2 = stream w1" "w_in w2 = w_in w1" "w_maxPayloadSize w2 = w_maxPayloadSize w1"
        by (simp_all add: w2_def stream_def peeked_def)
      have "body_inv (skipHeader ?h w2) f gs"
        using s frame(3) st(3) False unfolding w2(2) st(1) d by (simp add: body_inv_def header_read_def same_state_def w2 Let_def)
      note B = receiveBody_step[OF this R]
      have io: "w_in (skipHeader ?h w2) = w_in w1" "w_maxPayloadSize (skipHeader ?h w2) = w_maxPayloadSize w"
        using s w2 st(2) by (auto simp: same_state_def)
      have m: "w_maxPayloadSize w' = w_maxPayloadSize w" using B io by simp
      have M: "w_maxPayloadSize w' < 2 ^ 64" "list_all (frame_ok (w_maxPayloadSize w')) (f # gs)" using st(4,5) frame(1) m by simp_all
      from B frame(5) show ?thesis unfolding io frame(1)
        by (elim conjE disjE) (use M recv_inv_idle[of w' gs] recv_inv_body[of w' f gs] in auto)
    qed
  qed
qed

text \<open>A client that calls \<^verbatim>\<open>receiveFrame\<close> \<open>n\<close> times and keeps what it gets; 0 with no flags is the end of the connection.\<close>

fun ws_drain :: "nat option \<Rightarrow> nat \<Rightarrow> websocket \<Rightarrow> (u8 \<times> u8 list) list" where
  "ws_drain len 0 w = []"
| "ws_drain len (Suc n) w =
    (case receiveFrame False len w of
       Some (Returned k, out, flags, w') \<Rightarrow> (if k > 0 \<or> k = 0 \<and> flags \<noteq> 0 then (flags, out) # ws_drain len n w' else ws_drain len n w')
     | _ \<Rightarrow> [])"

lemma ws_drain_Suc:
  "ws_drain len (Suc n) w =
    (case receive_nb len w of
       (Returned k, out, w') \<Rightarrow> (if k > 0 \<or> k = 0 \<and> r_frameFlags (w_recv w') \<noteq> 0 then (r_frameFlags (w_recv w'), out) # ws_drain len n w' else ws_drain len n w')
     | _ \<Rightarrow> [])"
  by (simp add: receiveFrame_def receiveBytes_def split: prod.split ws_result.split)

lemma ws_drain_end: "recv_inv w [] \<Longrightarrow> ws_drain len n w = []"
proof (induction n arbitrary: w)
  case (Suc n)
  obtain r out w' where r: "receive_nb len w = (r, out, w')" by (metis prod_cases3)
  have "r = Returned (-1) \<or> r = Returned 0 \<and> r_frameFlags (w_recv w') = 0" "recv_inv w' []"
    using receive_nb_step[OF Suc.prems _ r] by auto
  then show ?case using Suc.IH[of w'] r unfolding ws_drain_Suc by auto
qed simp

lemma ws_drain_frames:
  assumes "recv_inv w fs" "\<forall>k. len = Some k \<longrightarrow> list_all (\<lambda>f. length (f_payload f) \<le> k) fs"
  shows "\<exists>k. ws_drain len n w = map (\<lambda>f. (f_flags f, f_payload f)) (take k fs) \<and> (length fs + io_size (w_in w) \<le> n \<longrightarrow> length fs \<le> k)"
  using assms
proof (induction n arbitrary: w fs)
  case (Suc n)
  obtain r out w' where r: "receive_nb len w = (r, out, w')" by (metis prod_cases3)
  note s = receive_nb_step[OF Suc.prems r]
  have ok: "list_all (frame_ok (w_maxPayloadSize w)) fs" using Suc.prems(1) by (simp add: recv_inv_def)
  consider (again) "r = Returned (-1)" "recv_inv w' fs" "io_size (w_in w') < io_size (w_in w)"
    | (closed) "fs = []" | (got) f gs where "fs = f # gs" "r = Returned (int (length (f_payload f)))" "out = f_payload f"
      "r_frameFlags (w_recv w') = f_flags f" "recv_inv w' gs" "io_size (w_in w') \<le> io_size (w_in w)"
    using s by metis
  then show ?case
  proof cases
    case again
    from Suc.IH[OF again(2) Suc.prems(2)] obtain k where "ws_drain len n w' = map (\<lambda>f. (f_flags f, f_payload f)) (take k fs)"
      "length fs + io_size (w_in w') \<le> n \<longrightarrow> length fs \<le> k" by blast
    then show ?thesis using again r unfolding ws_drain_Suc by (intro exI[of _ k]) auto
  next
    case closed
    then show ?thesis using ws_drain_end[of w len "Suc n"] Suc.prems(1) by (intro exI[of _ 0]) simp
  next
    case got
    have "\<forall>k. len = Some k \<longrightarrow> list_all (\<lambda>f. length (f_payload f) \<le> k) gs" using Suc.prems(2) got(1) by simp
    from Suc.IH[OF got(5) this] obtain k where k: "ws_drain len n w' = map (\<lambda>f. (f_flags f, f_payload f)) (take k gs)"
      "length gs + io_size (w_in w') \<le> n \<longrightarrow> length gs \<le> k" by blast
    have "frame_ok (w_maxPayloadSize w) f" using ok got(1) by simp
    then have "int (length (f_payload f)) > 0 \<or> int (length (f_payload f)) = 0 \<and> f_flags f \<noteq> 0"
      by (auto simp: frame_ok_def)
    then have "ws_drain len (Suc n) w = (f_flags f, f_payload f) # ws_drain len n w'"
      unfolding ws_drain_Suc r got(2,3) prod.case ws_result.case got(4) by simp
    then show ?thesis using k got(1,6) by (intro exI[of _ "Suc k"]) auto
  qed
qed simp

lemma ws_new_inv:
  assumes "arrivals io = concat (map rfc_frame fs)" "list_all (frame_ok (2 ^ 31 - 1)) fs"
  shows "recv_inv (ws_new io script [] m) fs"
  by (rule recv_inv_idle) (use assms in \<open>simp_all add: ws_new_def stream_def peeked_def\<close>)

section \<open>Receiving with blocking\<close>

text \<open>A blocking socket waits: it never reports that there is no data yet.\<close>

definition no_gaps :: "delivery list \<Rightarrow> bool" where
  "no_gaps io \<longleftrightarrow> list_all (\<lambda>d. d \<noteq> NoData) io"

lemma sock_receive_no_gaps: "no_gaps io \<Longrightarrow> sock_receive len io = (n, bs, io') \<Longrightarrow> n \<noteq> -1 \<and> no_gaps io'"
  by (induction len io rule: sock_receive.induct) (auto simp: no_gaps_def split: if_splits)

lemma receiveSomeBytes_no_gaps: "no_gaps (w_in w) \<Longrightarrow> receiveSomeBytes len w = (n, bs, w') \<Longrightarrow> n \<noteq> -1 \<and> no_gaps (w_in w')"
  using sock_receive_no_gaps[of "w_in w" len] by (auto simp: receiveSomeBytes_def Let_def split: if_splits prod.splits)

lemma peekHeader_no_gaps: "no_gaps (w_in w) \<Longrightarrow> peekHeader w = (r, w') \<Longrightarrow> no_gaps (w_in w')"
proof -
  assume g: "no_gaps (w_in w)" and r: "peekHeader w = (r, w')"
  obtain n hdr w1 where p: "peekSomeBytes 14 w = (n, hdr, w1)" by (metis prod_cases3)
  have "no_gaps (w_in w1)"
    using p g sock_receive_no_gaps[OF g] by (auto simp: peekSomeBytes_def Let_def split: if_splits prod.splits)
  moreover have "w_in w' = w_in w1" using r unfolding peekHeader_def p by (auto simp: peekMask_def Let_def split: if_splits)
  ultimately show ?thesis by simp
qed

lemma peekHeader_payload: "peekHeader w = (r, w') \<Longrightarrow> r_payload (w_recv w') = r_payload (w_recv w)"
  unfolding peekHeader_def by (auto simp: peekMask_def Let_def split: if_splits prod.splits)

lemma receiveMore_full:
  "no_gaps (w_in w) \<Longrightarrow> length acc \<le> len \<Longrightarrow> len - length acc \<le> length (stream w) \<Longrightarrow> receiveMore len acc w = (bs, w') \<Longrightarrow>
    length bs = len \<and> no_gaps (w_in w')"
proof (induction len acc w rule: receiveMore.induct)
  case (1 len acc w)
  show ?case
  proof (cases "length acc < len")
    case True
    obtain n ds w1 where r: "receiveSomeBytes (len - length acc) w = (n, ds, w1)" by (metis prod_cases3)
    have pos: "0 < len - length acc" using True by simp
    note c = receiveSomeBytes_cases[OF r pos] and g = receiveSomeBytes_no_gaps[OF 1(2) r]
    have "stream w \<noteq> []" using 1(4) pos by auto
    then have n: "n = int (length ds)" "ds \<noteq> []" "length ds \<le> len - length acc" "stream w = ds @ stream w1" using c(1) g by auto
    then have "0 < n" by simp
    moreover have "receiveMore len (acc @ ds) w1 = (bs, w')" using 1(5) True \<open>0 < n\<close> r by (simp add: receiveMore.simps[of len acc])
    moreover have "length (acc @ ds) \<le> len" "len - length (acc @ ds) \<le> length (stream w1)" using n(3,4) 1(4) True by auto
    ultimately show ?thesis using 1(1)[OF True r[symmetric] refl] g by blast
  next
    case False
    then show ?thesis using 1(2,3,5) by (simp add: receiveMore.simps[of len acc])
  qed
qed

lemma receiveNBytes_full:
  assumes "no_gaps (w_in w)" "0 < len" "len \<le> length (stream w)" "receiveNBytes len w = (n, bs, w')"
  shows "n = int len" "bs = take len (stream w)" "stream w' = drop len (stream w)" "no_gaps (w_in w')"
proof -
  obtain m ds w1 where r: "receiveSomeBytes len w = (m, ds, w1)" by (metis prod_cases3)
  note c = receiveSomeBytes_cases[OF r assms(2)] and g = receiveSomeBytes_no_gaps[OF assms(1) r]
  have "stream w \<noteq> []" using assms(2,3) by auto
  then have m: "m = int (length ds)" "ds \<noteq> []" "length ds \<le> len" "stream w = ds @ stream w1" using c(1) g by auto
  obtain es w2 where e: "receiveMore len ds w1 = (es, w2)" by (metis surj_pair)
  have "length es = len \<and> no_gaps (w_in w2)" by (rule receiveMore_full[OF _ m(3) _ e]) (use g m(3,4) assms(3) in auto)
  moreover have "n = int (length es)" "bs = es" "w' = w2" using assms(4) r m(1,2) e by (auto simp: receiveNBytes_def)
  ultimately show "n = int len" "no_gaps (w_in w')" "bs = take len (stream w)" "stream w' = drop len (stream w)"
    using receiveNBytes_cases(2)[OF assms(4,2)] by auto
qed

lemma peekLoop_frame:
  assumes "idle w fs" "no_gaps (w_in w)"
  shows "\<exists>r w'. peekLoop w = Some (r, w') \<and> no_gaps (w_in w') \<and> stream w' = stream w \<and> w_maxPayloadSize w' = w_maxPayloadSize w \<and>
    r_payload (w_recv w') = r_payload (w_recv w) \<and>
    (r = Returned 0 \<and> fs = [] \<and> r_headerLength (w_recv w') = 0 \<and> r_frameFlags (w_recv w') = 0 \<or>
     (\<exists>f gs. fs = f # gs \<and> r = Returned (int (length (f_payload f))) \<and> header_read f (w_recv w') \<and> length (rfc_header f) \<le> length (peeked w')))"
  using assms
proof (induction "io_size (w_in w)" arbitrary: w rule: less_induct)
  case less
  obtain r w' where r: "peekHeader w = (r, w')" by (metis surj_pair)
  note s = peekHeader_step[OF less.prems(1) r]
  have g: "no_gaps (w_in w')" by (rule peekHeader_no_gaps[OF less.prems(2) r])
  show ?case
  proof (cases "r = Returned (-1)")
    case True
    then have "io_size (w_in w') < io_size (w_in w)" "idle w' fs" using s less.prems(1) by (auto simp: idle_def)
    from less.hyps[OF this g] show ?thesis using r True s peekHeader_payload[OF r] by (simp add: peekLoop.simps[of w])
  next
    case False
    then show ?thesis using r s g peekHeader_payload[OF r] by (simp add: peekLoop.simps[of w]) blast
  qed
qed

lemma receive_blocking_step:
  assumes i: "idle w fs" "no_gaps (w_in w)" and len: "\<forall>k. len = Some k \<longrightarrow> list_all (\<lambda>f. length (f_payload f) \<le> k) fs"
  shows "\<exists>r out w'. receive_blocking len w = Some (r, out, w') \<and> no_gaps (w_in w') \<and> r_payload (w_recv w') = r_payload (w_recv w) \<and>
    (r = Returned 0 \<and> out = [] \<and> fs = [] \<and> idle w' [] \<and> r_frameFlags (w_recv w') = 0 \<or>
     (\<exists>f gs. fs = f # gs \<and> r = Returned (int (length (f_payload f))) \<and> out = f_payload f \<and> r_frameFlags (w_recv w') = f_flags f \<and> idle w' gs \<and>
       r_remainingPayloadLength (w_recv w') = length (f_payload f) \<and> r_payloadLength (w_recv w') = length (f_payload f)))"
proof -
  from peekLoop_frame[OF i] obtain r w1 where p: "peekLoop w = Some (r, w1)" "no_gaps (w_in w1)" "stream w1 = stream w"
    "w_maxPayloadSize w1 = w_maxPayloadSize w" "r_payload (w_recv w1) = r_payload (w_recv w)"
    "r = Returned 0 \<and> fs = [] \<and> r_headerLength (w_recv w1) = 0 \<and> r_frameFlags (w_recv w1) = 0 \<or>
     (\<exists>f gs. fs = f # gs \<and> r = Returned (int (length (f_payload f))) \<and> header_read f (w_recv w1) \<and> length (rfc_header f) \<le> length (peeked w1))" by metis
  have i1: "idle w1 fs" using i p(3,4) by (simp add: idle_def)
  show ?thesis
  proof (cases fs)
    case Nil
    then have "receive_blocking len w = Some (Returned 0, [], w1)" "r_frameFlags (w_recv w1) = 0"
      using p(1,6) by (auto simp: receive_blocking_def skipHeader_def)
    then show ?thesis using p(2,5) Nil i1 by auto
  next
    case (Cons f gs)
    then have h: "r = Returned (int (length (f_payload f)))" "header_read f (w_recv w1)" "length (rfc_header f) \<le> length (peeked w1)" using p(6) by auto
    let ?w2 = "skipHeader (length (rfc_header f)) w1" let ?n = "length (f_payload f)"
    note s = skipHeader_peeked[OF h(3)]
    have hr: "r_headerLength (w_recv w1) = length (rfc_header f)" "r_mask (w_recv w1) = r_mask (w_recv ?w2)" "r_useMask (w_recv w1) = (f_mask f \<noteq> None)"
      "\<forall>k. f_mask f = Some k \<longrightarrow> r_mask (w_recv w1) = k" "w_recv ?w2 = w_recv w1" "w_maxPayloadSize ?w2 = w_maxPayloadSize w1"
      "r_frameFlags (w_recv w1) = f_flags f" "r_remainingPayloadLength (w_recv w1) = ?n" "r_payloadLength (w_recv w1) = ?n"
      using h(2) s(2) by (auto simp: header_read_def same_state_def)
    have st: "stream ?w2 = rfc_masked (f_mask f) 0 (f_payload f) @ concat (map rfc_frame gs)"
      using s(1) i1 Cons by (simp add: idle_def rfc_frame_def)
    show ?thesis
    proof (cases "?n = 0")
      case True
      then have "receive_blocking len w = Some (Returned 0, [], ?w2)" using p(1) h(1) hr(1) by (simp add: receive_blocking_def)
      moreover have "idle ?w2 gs" using st True i1 Cons hr(6) by (simp add: idle_def rfc_masked_def split: option.splits)
      ultimately show ?thesis using Cons True hr s(3) p(2,5) by auto
    next
      case False
      obtain n bs w3 where n: "receiveNBytes ?n ?w2 = (n, bs, w3)" by (metis prod_cases3)
      have g: "no_gaps (w_in ?w2)" using p(2) s(3) by simp
      have "0 < ?n" "?n \<le> length (stream ?w2)" using False unfolding st by (simp_all add: rfc_masked_length)
      note N = receiveNBytes_full[OF g this n] and c = receiveNBytes_cases(3)[OF n this(1)]
      have bs: "bs = take ?n (rfc_masked (f_mask f) 0 (f_payload f))" using N(2) unfolding st by (simp add: rfc_masked_length)
      note u = unmask[OF bs _ hr(4)]
      have rp: "receivePayload ?n (r_mask (w_recv w1)) (r_useMask (w_recv w1)) 0 ?w2 = (int ?n, f_payload f, w3)"
        using u False N(1) unfolding receivePayload_def n hr(3) by (auto split: if_splits)
      have nl: "\<not> (case len of Some k \<Rightarrow> int ?n > int k | None \<Rightarrow> False)" using len Cons by (auto split: option.split)
      have "receive_blocking len w = Some (Returned (int ?n), f_payload f, w3)"
        using p(1) h(1) hr(1) False nl rp by (simp add: receive_blocking_def)
      moreover have "idle w3 gs" using N(3) st c i1 Cons hr(6) unfolding idle_def same_state_def by (simp add: rfc_masked_length)
      moreover have "w_recv w3 = w_recv w1" using c hr(5) by (simp add: same_state_def)
      ultimately show ?thesis using Cons N(4) hr p(5) by auto
    qed
  qed
qed

text \<open>
  When the peer closes the connection inside a header, the loop over \<^verbatim>\<open>peekHeader\<close> never ends: the bytes that were seen stay in the buffer, so
  that each round sees the same incomplete header again.
\<close>

definition cut_header :: "websocket \<Rightarrow> bool" where
  "cut_header w \<longleftrightarrow> w_maxPayloadSize w < 2 ^ 64 \<and>
    (\<exists>f j. frame_ok (w_maxPayloadSize w) f \<and> 0 < j \<and> j < length (rfc_header f) \<and> stream w = take j (rfc_header f))"

lemma cut_header_step:
  assumes "cut_header w" "peekHeader w = (r, w')"
  shows "r = Returned (-1) \<and> cut_header w'"
proof -
  obtain f j where f: "frame_ok (w_maxPayloadSize w) f" "0 < j" "j < length (rfc_header f)" "stream w = take j (rfc_header f)" "w_maxPayloadSize w < 2 ^ 64"
    using assms(1) by (auto simp: cut_header_def)
  obtain n hdr w1 where p: "peekSomeBytes 14 w = (n, hdr, w1)" by (metis prod_cases3)
  have "(0 :: nat) < 14" by simp
  note c = peekSomeBytes_cases[OF p this]
  have keep: "cut_header (w1\<lparr>w_recv := rs\<rparr>)" for rs
    using assms(1) c(2,3) by (simp add: cut_header_def stream_def peeked_def same_state_def)
  have ne: "stream w \<noteq> []" using f(2,3,4) by auto
  consider (data) "n = int (length hdr)" "hdr \<noteq> []" "hdr = take 14 (peeked w1)" | (none) "n = -1" using c(1) ne by blast
  then show ?thesis
  proof cases
    case data
    have "hdr = take (length hdr) (stream w1)" using data(3) by (simp add: stream_def min_def)
    then have hs: "hdr = take (length hdr) (stream w)" unfolding c(2) .
    then have "length hdr \<le> length (stream w)" by (metis length_take min.cobounded1)
    then have l: "length hdr \<le> j" using f(3) unfolding f(4) by simp
    then have "hdr = take (length hdr) (rfc_header f @ [])" using hs f(3) unfolding f(4) by (simp add: min_absorb1)
    from peekHeader_decode(2)[OF f(1,5) p[unfolded data(1)] refl _ this c(3)] data(2) l f(3)
    obtain rs where "peekHeader w = (Returned (-1), w1\<lparr>w_recv := rs\<rparr>)" by auto
    then show ?thesis using assms(2) keep by simp
  next
    case none
    then show ?thesis using assms(2) p keep unfolding peekHeader_def by (auto simp: Let_def)
  qed
qed

lemma peekLoop_diverges:
  assumes "cut_header w"
  shows "peekLoop w = None"
proof -
  have "\<not> cut_header w" if "peekLoop w = Some x" for x
  proof (rule peekLoop.raw_induct[where P = "\<lambda>w x. \<not> cut_header w", OF _ that])
    fix loop w x
    assume IH: "\<And>w x. loop w = Some x \<Longrightarrow> \<not> cut_header w"
      and eq: "(case peekHeader w of (r, w') \<Rightarrow> if r = Returned (-1) then loop w' else Some (r, w')) = Some x"
    show "\<not> cut_header w"
    proof
      assume "cut_header w"
      moreover obtain r w' where r: "peekHeader w = (r, w')" by (metis surj_pair)
      ultimately have "r = Returned (-1)" "cut_header w'" using cut_header_step by auto
      then show False using eq IH[of w' x] r by simp
    qed
  qed
  then show ?thesis using assms by (cases "peekLoop w") auto
qed

text \<open>
  A blocking call leaves \<^verbatim>\<open>remainingPayloadLength\<close> at the length of the frame it has delivered.  If the socket is then made non-blocking, the next
  call takes the bytes of the next frame for the rest of this one and writes them to a buffer that was never enlarged.
\<close>

lemma mode_switch_undefined:
  assumes "r_remainingPayloadLength (w_recv w) > 0" "r_payloadLength (w_recv w) = r_remainingPayloadLength (w_recv w)" "r_payload (w_recv w) = []"
    "stream w \<noteq> []" "no_gaps (w_in w)"
  shows "fst (receive_nb None w) = Undefined"
proof -
  let ?n = "r_remainingPayloadLength (w_recv w)"
  obtain n bs w1 where n: "receiveNBytes ?n w = (n, bs, w1)" by (metis prod_cases3)
  obtain m ds w2 where m: "receiveSomeBytes ?n w = (m, ds, w2)" by (metis prod_cases3)
  have "m > 0" using receiveSomeBytes_cases(1)[OF m assms(1)] receiveSomeBytes_no_gaps[OF assms(5) m] assms(4) by auto
  then have b: "n > 0" "bs \<noteq> []"
  proof -
    obtain es w3 where e: "receiveMore ?n ds w2 = (es, w3)" by (metis surj_pair)
    have d: "ds \<noteq> []" "length ds \<le> ?n" using receiveSomeBytes_cases(1)[OF m assms(1)] \<open>m > 0\<close> by auto
    have "es \<noteq> []" using receiveMore_cases[OF e d(2)] d(1) by auto
    then show "n > 0" "bs \<noteq> []" using n m e \<open>m > 0\<close> by (auto simp: receiveNBytes_def)
  qed
  then show ?thesis using assms by (auto simp: receive_nb_def receiveBody_def receivePayload_def n Let_def)
qed

section \<open>Sending\<close>

lemma ws_frame_rfc:
  assumes "length data < 2 ^ 64"
  shows "ws_frame m flags mk data =
    rfc_frame (Frame (of_nat (if flags = 0 then 0x82 else flags)) (if m then Some (bytes32 mk) else None) data)"
proof -
  let ?n = "length data" and ?l = "(if m then 0x80 else 0) :: u8"
  have fl: "(of_nat (k AND 0xff) :: u8) = of_nat k" for k :: nat
  proof -
    have m: "(0xff :: nat) = mask 8" by (simp add: mask_eq_exp_minus_1)
    show ?thesis unfolding m take_bit_eq_mask[symmetric] by (rule bit_word_eqI) (simp add: bit_simps)
  qed
  have lb: "?l OR of_nat v = of_nat ((if m then 128 else 0) + v)" if "v < 128" for v :: nat
  proof (cases m)
    case True
    have "\<not> bit v 7" using that by (simp add: bit_iff_odd)
    then have "(128 :: nat) + v = 128 OR v"
      using disjunctive_add_eq_or[of "128 :: nat" v] and_exp_eq_0_iff_not_bit[of v 7] by (simp add: and.commute)
    then show ?thesis using True by (simp add: of_nat_or_eq)
  qed simp
  have e2: "rev (bytes16 (of_nat ?n)) = be_bytes 2 ?n" if "?n < 2 ^ 16"
  proof -
    have "be_bytes (Suc (Suc 0)) ?n = [of_nat (?n div 2 ^ 8), of_nat ?n]" by simp
    then have b: "be_bytes 2 ?n = [of_nat (?n div 2 ^ 8), of_nat ?n]" by (simp only: numeral_2_eq_2)
    show ?thesis unfolding b bytes16_def using byte_of_nat[of 0 ?n, where 'w = 16] byte_of_nat[of 8 ?n, where 'w = 16] by simp
  qed
  have e8: "rev (bytes64 (of_nat ?n)) = be_bytes 8 ?n"
  proof -
    have "be_bytes 8 ?n = be_bytes 4 (?n div 2 ^ 32) @ be_bytes 4 ?n" using be_bytes_append[of 4 4 ?n] by simp
    moreover have "rev (bytes32 (of_nat k)) = be_bytes 4 k" for k
      unfolding PUT_UINT32_bytes[symmetric] PUT_UINT32_def bytes32_def by simp
    ultimately show ?thesis unfolding bytes64_count by simp
  qed
  have mk: "length (bytes32 mk) = 4" by (simp add: bytes32_def)
  have p: "map (\<lambda>i. data ! i XOR bytes32 mk ! (i mod 4)) [0..<?n] = rfc_masked (Some (bytes32 mk)) 0 data"
    by (rule nth_equalityI) (simp_all add: rfc_masked_length rfc_masked_nth)
  have h: "(if ?n < 126 then [?l OR of_nat ?n] else if ?n < 65536 then (?l OR 126) # rev (bytes16 (of_nat ?n)) else (?l OR 127) # rev (bytes64 (of_nat ?n))) =
      rfc_length m ?n"
    using lb[of ?n] lb[of 126] lb[of 127] e2 e8 by (simp add: rfc_length_def Let_def)
  show ?thesis
    unfolding ws_frame_def Let_def fl h p by (simp add: rfc_frame_def rfc_header_def rfc_masked_def)
qed

text \<open>\<open>P\<close> is the part of the frame that is still to be written.\<close>

definition send_pending :: "websocket \<Rightarrow> nat \<Rightarrow> u8 list \<Rightarrow> bool" where
  "send_pending w n P \<longleftrightarrow> d_length (w_send w) = n \<and> d_remainingPayloadLength (w_send w) = length P \<and>
    drop (d_remainingPayloadOffset (w_send w)) (d_payload (w_send w)) = P"

lemma sock_send_cases:
  assumes "sock_send bs script = (n, out, script')"
  shows "(n = int (length out) \<and> (\<exists>r. bs = out @ r) \<or> n = -1 \<and> out = []) \<and> (script = [] \<longrightarrow> out = bs \<and> script' = []) \<and> script' = tl script"
proof -
  have "\<exists>r. bs = take k bs @ r" for k by (rule exI[of _ "drop k bs"]) simp
  then show ?thesis using assms by (cases "(bs, script)" rule: sock_send.cases) auto
qed

definition send_step :: "websocket \<Rightarrow> nat \<Rightarrow> u8 list \<Rightarrow> ws_result \<Rightarrow> websocket \<Rightarrow> bool" where
  "send_step w n P r w' \<longleftrightarrow> w_script w' = tl (w_script w) \<and> w_mustMaskPayload w' = w_mustMaskPayload w \<and> w_recv w' = w_recv w \<and> w_in w' = w_in w \<and>
    (\<exists>A B. P = A @ B \<and> w_wire w' = w_wire w @ A \<and> (w_script w = [] \<longrightarrow> B = []) \<and>
      (B = [] \<and> r = Returned (int n) \<and> d_remainingPayloadLength (w_send w') = 0 \<or> B \<noteq> [] \<and> r = Returned (-1) \<and> send_pending w' n B))"

lemma send_pending_step:
  assumes "send_pending w (length data) P" "P \<noteq> []" "sendBytes data flags mk w = (r, w')"
  shows "send_step w (length data) P r w'"
proof -
  obtain n out script where s: "sock_send P (w_script w) = (n, out, script)" by (metis prod_cases3)
  note c = sock_send_cases[OF s]
  have P: "take (d_remainingPayloadLength (w_send w)) (drop (d_remainingPayloadOffset (w_send w)) (d_payload (w_send w))) = P"
    "d_remainingPayloadLength (w_send w) = length P" "d_length (w_send w) = length data"
    "drop (d_remainingPayloadOffset (w_send w)) (d_payload (w_send w)) = P" using assms(1) by (auto simp: send_pending_def)
  show ?thesis
  proof (cases "n \<ge> 0")
    case True
    then obtain B where B: "P = out @ B" "n = int (length out)" using c by auto
    have d: "drop (d_remainingPayloadOffset (w_send w) + length out) (d_payload (w_send w)) = B"
      using arg_cong[OF P(4), of "drop (length out)"] B(1) by (simp add: add.commute)
    let ?ss = "w_send w" let ?w = "w\<lparr>w_wire := w_wire w @ out, w_script := script\<rparr>"
    have R: "(r, w') = (if B \<noteq> [] then (Returned (-1), ?w\<lparr>w_send := ?ss\<lparr>d_remainingPayloadOffset := d_remainingPayloadOffset ?ss + length out,
          d_remainingPayloadLength := length P - length out\<rparr>\<rparr>)
        else (Returned (int (length data)), ?w\<lparr>w_send := ?ss\<lparr>d_length := 0, d_remainingPayloadOffset := 0, d_remainingPayloadLength := 0\<rparr>\<rparr>))"
      using assms(2) B(1) unfolding assms(3)[symmetric] sendBytes_def Let_def P(1) unfolding ws_send_raw_def s prod.case P(2,3) B(2) by simp
    show ?thesis
      unfolding send_step_def
      by (intro conjI exI[of _ out] exI[of _ B]) (use R B(1) c d P(3) in \<open>auto simp: send_pending_def split: if_splits\<close>)
  next
    case False
    then have "n = -1" "out = []" "w_script w \<noteq> []" using c assms(2) by auto
    then show ?thesis
      unfolding send_step_def
      by (intro conjI exI[of _ "[]"] exI[of _ P])
        (use assms P s c in \<open>auto simp: sendBytes_def ws_send_raw_def Let_def send_pending_def split: if_splits\<close>)
  qed
qed

lemma send_idle_step:
  assumes "d_remainingPayloadLength (w_send w) = 0" "sendBytes data flags mk w = (r, w')"
  shows "send_step w (length data) (ws_frame (w_mustMaskPayload w) flags mk data) r w'"
proof -
  let ?P = "ws_frame (w_mustMaskPayload w) flags mk data"
  obtain n out script where s: "sock_send ?P (w_script w) = (n, out, script)" by (metis prod_cases3)
  note c = sock_send_cases[OF s]
  have ne: "?P \<noteq> []" by (simp add: ws_frame_def Let_def)
  show ?thesis
  proof (cases "n \<ge> 0")
    case True
    then obtain B where B: "?P = out @ B" "n = int (length out)" using c by auto
    show ?thesis
      unfolding send_step_def
      by (intro conjI exI[of _ out] exI[of _ B])
        (use assms s B c in \<open>auto simp: sendBytes_def ws_send_raw_def Let_def send_pending_def split: if_splits\<close>)
  next
    case False
    then have "n = -1" "out = []" "w_script w \<noteq> []" using c ne by auto
    then show ?thesis
      unfolding send_step_def
      by (intro conjI exI[of _ "[]"] exI[of _ ?P])
        (use assms ne s c in \<open>auto simp: sendBytes_def ws_send_raw_def Let_def send_pending_def split: if_splits\<close>)
  qed
qed

text \<open>A client repeats a call that returned -1 with the same arguments, as the documentation asks.\<close>

function sendRetry :: "u8 list \<Rightarrow> nat \<Rightarrow> u32 \<Rightarrow> websocket \<Rightarrow> ws_result \<times> websocket" where
  "sendRetry data flags mk w =
    (case sendFrame data flags mk w of
       (r, w') \<Rightarrow> (if r = Returned (-1) \<and> length (w_script w') < length (w_script w) then sendRetry data flags mk w' else (r, w')))"
  by pat_completeness auto
termination by (relation "measure (\<lambda>(data, flags, mk, w). length (w_script w))") auto

declare sendRetry.simps [simp del]

lemma sendRetry_pending:
  assumes "send_pending w (length data) P" "P \<noteq> []"
  shows "\<exists>w'. sendRetry data flags mk w = (Returned (int (length data)), w') \<and> w_wire w' = w_wire w @ P \<and> d_remainingPayloadLength (w_send w') = 0 \<and>
    w_mustMaskPayload w' = w_mustMaskPayload w"
  using assms
proof (induction "length (w_script w)" arbitrary: w P rule: less_induct)
  case less
  obtain r w1 where r: "sendFrame data flags mk w = (r, w1)" by (metis surj_pair)
  from send_pending_step[OF less.prems r[unfolded sendFrame_def]] obtain A B where s: "w_script w1 = tl (w_script w)"
    "w_mustMaskPayload w1 = w_mustMaskPayload w" "P = A @ B" "w_wire w1 = w_wire w @ A" "w_script w = [] \<longrightarrow> B = []"
    "B = [] \<and> r = Returned (int (length data)) \<and> d_remainingPayloadLength (w_send w1) = 0 \<or> B \<noteq> [] \<and> r = Returned (-1) \<and> send_pending w1 (length data) B"
    unfolding send_step_def by blast
  show ?case
  proof (cases "B = []")
    case True
    then show ?thesis using s r by (simp add: sendRetry.simps[of data flags mk w])
  next
    case False
    then have "length (w_script w1) < length (w_script w)" using s(1,5) by (cases "w_script w") auto
    from less.hyps[OF this, of B] False s r this show ?thesis by (auto simp: sendRetry.simps[of data flags mk w])
  qed
qed

lemma sendRetry_frame:
  assumes "d_remainingPayloadLength (w_send w) = 0"
  shows "\<exists>w'. sendRetry data flags mk w = (Returned (int (length data)), w') \<and> d_remainingPayloadLength (w_send w') = 0 \<and>
    w_wire w' = w_wire w @ ws_frame (w_mustMaskPayload w) (flags OR 0x100) mk data \<and> w_mustMaskPayload w' = w_mustMaskPayload w"
proof -
  obtain r w1 where r: "sendFrame data flags mk w = (r, w1)" by (metis surj_pair)
  from send_idle_step[OF assms r[unfolded sendFrame_def]] obtain A B where s: "w_script w1 = tl (w_script w)"
    "w_mustMaskPayload w1 = w_mustMaskPayload w" "ws_frame (w_mustMaskPayload w) (flags OR 0x100) mk data = A @ B" "w_wire w1 = w_wire w @ A"
    "w_script w = [] \<longrightarrow> B = []"
    "B = [] \<and> r = Returned (int (length data)) \<and> d_remainingPayloadLength (w_send w1) = 0 \<or> B \<noteq> [] \<and> r = Returned (-1) \<and> send_pending w1 (length data) B"
    unfolding send_step_def by blast
  show ?thesis
  proof (cases "B = []")
    case True
    then show ?thesis using s r by (simp add: sendRetry.simps[of data flags mk w])
  next
    case False
    then have "length (w_script w1) < length (w_script w)" using s(1,5) by (cases "w_script w") auto
    moreover obtain w' where "sendRetry data flags mk w1 = (Returned (int (length data)), w')" "w_wire w' = w_wire w1 @ B"
      "d_remainingPayloadLength (w_send w') = 0" "w_mustMaskPayload w' = w_mustMaskPayload w1"
      using sendRetry_pending[of w1 data B] s False by blast
    ultimately show ?thesis using s r False by (auto simp: sendRetry.simps[of data flags mk w])
  qed
qed

section \<open>From one end to the other\<close>

text \<open>The messages of a sender: flags, masking key and payload.\<close>

definition ws_send_all :: "(nat \<times> u32 \<times> u8 list) list \<Rightarrow> websocket \<Rightarrow> websocket" where
  "ws_send_all ms w = foldl (\<lambda>w (flags, mk, data). snd (sendRetry data flags mk w)) w ms"

definition ws_message :: "bool \<Rightarrow> nat \<times> u32 \<times> u8 list \<Rightarrow> frame" where
  "ws_message m = (\<lambda>(flags, mk, data). Frame (of_nat flags) (if m then Some (bytes32 mk) else None) data)"

lemma raw_flags: "(of_nat (flags OR 0x100) :: u8) = of_nat flags" "flags OR 0x100 \<noteq> (0 :: nat)"
proof -
  have b: "bit (0x100 :: nat) n \<longleftrightarrow> n = 8" for n using bit_exp_iff[of 8 n, where 'a = nat] by auto
  show "(of_nat (flags OR 0x100) :: u8) = of_nat flags" by (rule bit_word_eqI) (auto simp: bit_simps b)
  have "bit (flags OR 0x100) 8" by (simp add: bit_simps b)
  then show "flags OR 0x100 \<noteq> (0 :: nat)" by (metis bit_0_eq bot_apply bot_bool_def)
qed

lemma ws_send_all_wire:
  assumes "d_remainingPayloadLength (w_send w) = 0" "list_all (\<lambda>(flags, mk, data). length data < 2 ^ 64) ms"
  shows "w_wire (ws_send_all ms w) = w_wire w @ concat (map (rfc_frame \<circ> ws_message (w_mustMaskPayload w)) ms)"
  using assms
proof (induction ms arbitrary: w)
  case (Cons x ms)
  obtain flags mk data where x: "x = (flags, mk, data)" by (metis prod_cases3)
  obtain w' where w': "sendRetry data flags mk w = (Returned (int (length data)), w')" "d_remainingPayloadLength (w_send w') = 0"
    "w_wire w' = w_wire w @ ws_frame (w_mustMaskPayload w) (flags OR 0x100) mk data" "w_mustMaskPayload w' = w_mustMaskPayload w"
    using sendRetry_frame[OF Cons.prems(1)] by blast
  have "length data < 2 ^ 64" using Cons.prems(2) x by simp
  from ws_frame_rfc[OF this, of "w_mustMaskPayload w" "flags OR 0x100" mk] raw_flags[of flags]
  have "ws_frame (w_mustMaskPayload w) (flags OR 0x100) mk data = rfc_frame (ws_message (w_mustMaskPayload w) x)" by (simp add: ws_message_def x)
  then show ?case using Cons.IH[OF w'(2)] Cons.prems(2) w' x by (simp add: ws_send_all_def)
qed (simp add: ws_send_all_def)

text \<open>
  C4.  WebSocket: whatever pieces the sender's socket accepts at a time (a call that returned -1 is repeated) and whatever pieces and
  pauses the network delivers, the receiver's non-blocking \<^verbatim>\<open>receiveFrame\<close> yields a beginning of the messages that were sent, complete, in order, with
  their flags and without the mask; and all of them once it has been called as often as there are messages, bytes and pauses.
\<close>

theorem ws_transport:
  assumes "list_all (\<lambda>(flags, mk, data). length data < 2 ^ 31 \<and> (data = [] \<longrightarrow> (of_nat flags :: u8) \<noteq> 0)) ms"
    "arrivals io = w_wire (ws_send_all ms (ws_new [] script [] m))"
    "\<forall>k. len = Some k \<longrightarrow> list_all (\<lambda>(flags, mk, data). length data \<le> k) ms"
  shows "\<exists>k. ws_drain len n (ws_new io script' [] m') = map (\<lambda>(flags, mk, data). (of_nat flags, data)) (take k ms) \<and>
    (length ms + io_size io \<le> n \<longrightarrow> length ms \<le> k)"
proof -
  let ?fs = "map (ws_message m) ms"
  have "list_all (\<lambda>(flags, mk, data). length data < 2 ^ 64) ms" using assms(1) by (auto elim!: list.pred_mono_strong)
  then have "arrivals io = concat (map rfc_frame ?fs)"
    using ws_send_all_wire[of "ws_new [] script [] m" ms] assms(2) by (simp add: ws_new_def o_def)
  moreover have "list_all (frame_ok (2 ^ 31 - 1)) ?fs"
    using assms(1) by (auto simp: list_all_iff frame_ok_def ws_message_def bytes32_def split: prod.splits)
  ultimately have i: "recv_inv (ws_new io script' [] m') ?fs" by (rule ws_new_inv)
  have l: "\<forall>k. len = Some k \<longrightarrow> list_all (\<lambda>f. length (f_payload f) \<le> k) ?fs"
    using assms(3) by (auto simp: list_all_iff ws_message_def split: prod.splits)
  have e: "map (\<lambda>f. (f_flags f, f_payload f)) (take k ?fs) = map (\<lambda>(flags, mk, data). (of_nat flags, data)) (take k ms)" for k
    unfolding take_map map_map by (rule map_cong) (auto simp: ws_message_def split: prod.splits)
  show ?thesis using ws_drain_frames[OF i l, of n] unfolding e by (simp add: ws_new_def)
qed

theorem ws_transport_witness:
  "ws_drain None 20 (ws_new [Arrived [0x82], NoData, Arrived [0x02, 0x68], Arrived [0x69]] [] [] True) = [(0x82, [0x68, 0x69])]"
proof -
  let ?ms = "[(0x82, 0, [0x68, 0x69])] :: (nat \<times> u32 \<times> u8 list) list"
  let ?io = "[Arrived [0x82], NoData, Arrived [0x02, 0x68], Arrived [0x69]]"
  have "arrivals ?io = w_wire (ws_send_all ?ms (ws_new [] [Some 1] [] False))"
    using ws_send_all_wire[of "ws_new [] [Some 1] [] False" ?ms]
    by (simp add: ws_new_def ws_message_def rfc_frame_def rfc_header_def rfc_length_def rfc_masked_def)
  then show ?thesis
    using ws_transport[of ?ms ?io "[Some 1]" False None 20 "[]" True] by auto
qed

section \<open>A blocking reader\<close>

primrec ws_read :: "nat \<Rightarrow> websocket \<Rightarrow> ((ws_result \<times> u8 \<times> u8 list) list \<times> websocket) option" where
  "ws_read 0 w = Some ([], w)"
| "ws_read (Suc n) w =
    do { (r, out, flags, w) \<leftarrow> receiveFrame True None w;
         (xs, w) \<leftarrow> ws_read n w;
         Some ((r, flags, out) # xs, w) }"

lemma receiveFrame_blocking: "receiveFrame True len w = map_option (\<lambda>(r, bs, w). (r, bs, r_frameFlags (w_recv w), w)) (receive_blocking len w)"
  by (simp add: receiveFrame_def receiveBytes_def)

lemma ws_read_frames:
  assumes "idle w (fs @ gs)" "no_gaps (w_in w)"
  shows "\<exists>w'. ws_read (length fs) w = Some (map (\<lambda>f. (Returned (int (length (f_payload f))), f_flags f, f_payload f)) fs, w') \<and> idle w' gs \<and>
    no_gaps (w_in w') \<and> r_payload (w_recv w') = r_payload (w_recv w) \<and>
    (fs \<noteq> [] \<longrightarrow> r_remainingPayloadLength (w_recv w') = length (f_payload (last fs)) \<and> r_payloadLength (w_recv w') = length (f_payload (last fs)))"
  using assms
proof (induction fs arbitrary: w)
  case (Cons f fs)
  obtain w1 where w1: "receive_blocking None w = Some (Returned (int (length (f_payload f))), f_payload f, w1)" "no_gaps (w_in w1)"
    "r_payload (w_recv w1) = r_payload (w_recv w)" "r_frameFlags (w_recv w1) = f_flags f" "idle w1 (fs @ gs)"
    "r_remainingPayloadLength (w_recv w1) = length (f_payload f)" "r_payloadLength (w_recv w1) = length (f_payload f)"
    using receive_blocking_step[OF Cons.prems, of None] by auto
  from Cons.IH[OF w1(5,2)] show ?case using w1 by (cases "fs = []") (auto simp: receiveFrame_blocking)
qed auto

lemma ws_new_idle:
  "arrivals io = concat (map rfc_frame fs) \<Longrightarrow> list_all (frame_ok (2 ^ 31 - 1)) fs \<Longrightarrow> idle (ws_new io script [] m) fs"
  by (simp add: idle_def ws_new_def stream_def peeked_def)

text \<open>
  C29.  A blocking WebSocket: each call of \<^verbatim>\<open>receiveFrame\<close> returns, with the next frame of RFC 6455 and its flags, however the bytes arrive; after the
  last frame of a connection that was closed between frames it returns 0 with no flags.
\<close>

theorem ws_blocking_receive:
  assumes "arrivals io = concat (map rfc_frame fs)" "list_all (frame_ok (2 ^ 31 - 1)) fs" "no_gaps io"
  shows "\<exists>w' w''. ws_read (length fs) (ws_new io script [] m) =
      Some (map (\<lambda>f. (Returned (int (length (f_payload f))), f_flags f, f_payload f)) fs, w') \<and>
    receiveFrame True None w' = Some (Returned 0, [], 0, w'')"
proof -
  have "idle (ws_new io script [] m) (fs @ [])" "no_gaps (w_in (ws_new io script [] m))"
    using ws_new_idle[OF assms(1,2)] assms(3) by (simp_all add: ws_new_def)
  from ws_read_frames[OF this] obtain w' where w': "ws_read (length fs) (ws_new io script [] m) =
      Some (map (\<lambda>f. (Returned (int (length (f_payload f))), f_flags f, f_payload f)) fs, w')" "idle w' []" "no_gaps (w_in w')" by blast
  moreover have "\<exists>w''. receiveFrame True None w' = Some (Returned 0, [], 0, w'')"
    using receive_blocking_step[OF w'(2,3), of None] by (auto simp: receiveFrame_blocking)
  ultimately show ?thesis by blast
qed

theorem ws_blocking_receive_witness:
  "\<exists>w' w''. ws_read 1 (ws_new [Arrived [0x81, 0x83, 1, 2], Arrived [3, 4, 0x60], Arrived [0x60, 0x60]] [] [] False) =
      Some ([(Returned 3, 0x81, [0x61, 0x62, 0x63])], w') \<and> receiveFrame True None w' = Some (Returned 0, [], 0, w'')"
  using ws_blocking_receive[of "[Arrived [0x81, 0x83, 1, 2], Arrived [3, 4, 0x60], Arrived [0x60, 0x60]]"
      "[Frame 0x81 (Some [1, 2, 3, 4]) [0x61, 0x62, 0x63]]" "[]" False]
  by (simp add: rfc_frame_def rfc_header_def rfc_length_def rfc_masked_def frame_ok_def no_gaps_def upt_conv_Cons)

text \<open>
  Two ways in which the code does not do this.  If the connection is closed inside a header, the call never returns; and if the socket is
  made non-blocking after a frame was received, the next call writes outside its buffer.
\<close>

lemma ws_cut_header_hangs:
  assumes "frame_ok (2 ^ 31 - 1) f" "0 < j" "j < length (rfc_header f)" "arrivals io = take j (rfc_header f)"
  shows "receiveFrame True len (ws_new io script [] m) = None"
proof -
  have "cut_header (ws_new io script [] m)"
    unfolding cut_header_def using assms by (intro conjI exI[of _ f] exI[of _ j]) (simp_all add: ws_new_def stream_def peeked_def)
  from peekLoop_diverges[OF this] show ?thesis by (simp add: receiveFrame_blocking receive_blocking_def)
qed

lemma ws_mode_switch:
  assumes "arrivals io = concat (map rfc_frame (f # g # gs))" "list_all (frame_ok (2 ^ 31 - 1)) (f # g # gs)" "no_gaps io" "f_payload f \<noteq> []"
  shows "\<exists>w'. ws_read 1 (ws_new io script [] m) = Some ([(Returned (int (length (f_payload f))), f_flags f, f_payload f)], w') \<and>
    map_option fst (receiveFrame False None w') = Some Undefined"
proof -
  have "idle (ws_new io script [] m) ([f] @ g # gs)" "no_gaps (w_in (ws_new io script [] m))" "r_payload (w_recv (ws_new io script [] m)) = []"
    using ws_new_idle[OF assms(1,2)] assms(3) by (simp_all add: ws_new_def)
  from ws_read_frames[OF this(1,2)] this(3) obtain w' where w': "ws_read 1 (ws_new io script [] m) =
      Some ([(Returned (int (length (f_payload f))), f_flags f, f_payload f)], w')" "idle w' (g # gs)" "no_gaps (w_in w')" "r_payload (w_recv w') = []"
    "r_remainingPayloadLength (w_recv w') = length (f_payload f)" "r_payloadLength (w_recv w') = length (f_payload f)" by auto
  have "stream w' \<noteq> []" using w'(2) by (simp add: idle_def rfc_frame_def rfc_header_def)
  then have "fst (receive_nb None w') = Undefined" using mode_switch_undefined[of w'] w' assms(4) by simp
  then show ?thesis using w'(1) by (auto simp: receiveFrame_def receiveBytes_def split: prod.split)
qed

section \<open>The handshake\<close>

text \<open>
  \<^verbatim>\<open>computeAccept\<close>, \<^verbatim>\<open>accept\<close> and \<^verbatim>\<open>completeHandshake\<close>.  A header is a function from names to values, the empty string for a name that is not there, as
  \<^verbatim>\<open>get(name, "")\<close> gives it; \<open>upgrade\<close> is what \<^verbatim>\<open>hasToken\<close> answers for \<^verbatim>\<open>Connection: upgrade\<close>.
\<close>

definition WEBSOCKET_GUID :: string where "WEBSOCKET_GUID = ''258EAFA5-E914-47DA-95CA-C5AB0DC85B11''"

text \<open>The four arguments are the values of \<^verbatim>\<open>rnd.next()\<close>, written as they lie in memory.\<close>

definition createKey :: "u32 \<Rightarrow> u32 \<Rightarrow> u32 \<Rightarrow> u32 \<Rightarrow> string option" where
  "createKey r1 r2 r3 r4 =
    map_option (map (\<lambda>b. char_of (unat b))) (b64_encode False False 72 (bytes32 r1 @ bytes32 r2 @ bytes32 r3 @ bytes32 r4))"

definition computeAccept :: "string \<Rightarrow> string option" where
  "computeAccept key =
    map_option (map (\<lambda>b. char_of (unat b))) (b64_encode False False 72 (fst (sha1_digest (sha1_updateImpl (bytes_of (key @ WEBSOCKET_GUID)) sha1_new))))"

datatype handshake_error =
  WS_ERR_NO_HANDSHAKE | WS_ERR_HANDSHAKE_NO_VERSION | WS_ERR_HANDSHAKE_UNSUPPORTED_VERSION | WS_ERR_HANDSHAKE_NO_KEY | WS_ERR_HANDSHAKE_ACCEPT

type_synonym header = "string \<Rightarrow> string"

definition ws_accept :: "bool \<Rightarrow> header \<Rightarrow> (handshake_error + header) option" where
  "ws_accept upgrade request =
    (if upgrade \<and> icompare (request ''Upgrade'') ''websocket'' = 0 then
       let version = request ''Sec-WebSocket-Version'';
           key = trimInPlace (request ''Sec-WebSocket-Key'')
       in if version = [] then Some (Inl WS_ERR_HANDSHAKE_NO_VERSION)
          else if version \<noteq> ''13'' then Some (Inl WS_ERR_HANDSHAKE_UNSUPPORTED_VERSION)
          else if key = [] then Some (Inl WS_ERR_HANDSHAKE_NO_KEY)
          else do { a \<leftarrow> computeAccept key;
                    Some (Inr ((\<lambda>_. [])(''Upgrade'' := ''websocket'', ''Connection'' := ''Upgrade'', ''Sec-WebSocket-Accept'' := a))) }
     else Some (Inl WS_ERR_NO_HANDSHAKE))"

definition completeHandshake :: "header \<Rightarrow> string \<Rightarrow> (handshake_error + unit) option" where
  "completeHandshake response key =
    (if icompare (response ''Connection'') ''Upgrade'' \<noteq> 0 then Some (Inl WS_ERR_NO_HANDSHAKE)
     else if icompare (response ''Upgrade'') ''websocket'' \<noteq> 0 then Some (Inl WS_ERR_NO_HANDSHAKE)
     else do { a \<leftarrow> computeAccept key;
               Some (if response ''Sec-WebSocket-Accept'' \<noteq> a then Inl WS_ERR_HANDSHAKE_ACCEPT else Inr ()) })"

lemma b64_body_short: "p + int (4 * (length bs div 3)) < L \<Longrightarrow> b64_body url L p bs = b64_raw url bs"
proof (induction url L p bs rule: b64_body.induct[case_names three none one two])
  case (three url L p a b c r)
  have "length (a # b # c # r) div 3 = Suc (length r div 3)" by simp
  then have lt: "p + 4 + int (4 * (length r div 3)) < L" using three.prems by simp
  then have "\<not> p + 4 \<ge> L" by linarith
  then show ?case using three.IH(2) lt by simp
qed simp_all

lemma unat_of_char [simp]: "unat (of_char c :: u8) = of_char c"
  unfolding of_nat_of_char[symmetric, of c, where 'a = "8 word"] by (simp add: unsigned_of_nat take_bit_nat_eq_self)

lemma bytes_of_nth: "i < length s \<Longrightarrow> char_of (unat (bytes_of s ! i)) = s ! i"
  by (simp add: bytes_of_def)

lemma out_not_space: "i < 64 \<Longrightarrow> \<not> space (char_of (unat (OUT_ENCODING ! i)))"
proof -
  let ?s = "''ABCDEFGHIJKLMNOPQRSTUVWXYZabcdefghijklmnopqrstuvwxyz0123456789+/''"
  assume i: "i < 64"
  have "list_all (\<lambda>c. \<not> space c) ?s" by code_simp
  then have "\<not> space (?s ! i)" using i unfolding list_all_length by simp
  moreover have "char_of (unat (OUT_ENCODING ! i)) = ?s ! i" using i unfolding OUT_ENCODING_def
    by (subst bytes_of_nth) simp_all
  ultimately show ?thesis by simp
qed

lemma b64_rfc_hd: "bs \<noteq> [] \<Longrightarrow> \<exists>i < 64. hd (b64_rfc url nopad bs) = b64_out url ! i"
  by (induction url nopad bs rule: b64_rfc.induct) (auto simp: digits64_def intro!: exI[of _ "_ mod 64"])

lemma b64_rfc_length: "length (b64_rfc url False bs) = 4 * ((length bs + 2) div 3)"
proof (induction url False bs rule: b64_rfc.induct[case_names three two one none])
  case (three url a b c r)
  have "(length (a # b # c # r) + 2) div 3 = Suc ((length r + 2) div 3)" by simp
  then show ?case using three by (simp only: b64_rfc.simps length_append) (simp add: digits64_def)
qed (simp_all add: digits64_def)

lemma b64_rfc_last: "length bs mod 3 \<noteq> 0 \<Longrightarrow> last (b64_rfc url False bs) = 0x3D"
proof (induction url False bs rule: b64_rfc.induct[case_names three two one none])
  case (three url a b c r)
  then have r: "length r mod 3 \<noteq> 0" by (simp add: mod_Suc split: if_splits)
  then have "r \<noteq> []" by auto
  then have "b64_rfc url False r \<noteq> []" by (cases "(url, False, r)" rule: b64_rfc.cases) (simp_all add: digits64_def)
  then show ?case using three.hyps r by simp
qed simp_all

lemma trim_id: "s \<noteq> [] \<Longrightarrow> \<not> space (hd s) \<Longrightarrow> \<not> space (last s) \<Longrightarrow> trimInPlace s = s"
  using dropWhile_hd[of s space] dropWhile_hd[of "rev s" space] by (auto simp: trimInPlace_eq trim_strip rstrip_def hd_rev)

lemma createKey_ok: "\<exists>key. createKey r1 r2 r3 r4 = Some key \<and> length key = 24 \<and> trimInPlace key = key"
proof -
  define bs where "bs = bytes32 r1 @ bytes32 r2 @ bytes32 r3 @ bytes32 r4"
  define out where "out = b64_rfc False False bs"
  have l: "length bs = 16" by (simp add: bs_def bytes32_def)
  then have "b64_body False 72 0 bs = b64_raw False bs" by (intro b64_body_short) simp
  then have e: "b64_encode False False 72 bs = Some out" by (simp add: out_def b64_encode_eq b64_raw_rfc)
  have o: "length out = 24" "last out = 0x3D" unfolding out_def using l by (simp_all add: b64_rfc_length b64_rfc_last)
  have "bs \<noteq> []" using l by auto
  then obtain i where "i < 64" "hd out = OUT_ENCODING ! i" using b64_rfc_hd[of bs False False] by (auto simp: out_def b64_out_def)
  then have "\<not> space (char_of (unat (hd out)))" using out_not_space by simp
  moreover have "\<not> space (char_of (unat (0x3D :: u8)))" by code_simp
  moreover have "out \<noteq> []" using o by auto
  ultimately have "trimInPlace (map (\<lambda>b. char_of (unat b)) out) = map (\<lambda>b. char_of (unat b)) out"
    using o by (intro trim_id) (auto simp: hd_map last_map)
  then show ?thesis using e o by (simp add: createKey_def bs_def[symmetric])
qed

lemma computeAccept_rfc:
  assumes "length key < 2 ^ 32 - 36"
  shows "computeAccept key = Some (map (\<lambda>b. char_of (unat b)) (b64_rfc False False (fips_sha1 (bytes_of (key @ WEBSOCKET_GUID)))))"
proof -
  have "sha1_absorbed sha1_new []" by (simp add: sha1_new_def sha1_reset_absorbed)
  moreover have "length (bytes_of (key @ WEBSOCKET_GUID)) < 2 ^ 32" using assms by (simp add: bytes_of_def WEBSOCKET_GUID_def)
  ultimately have "sha1_absorbed (sha1_updateImpl (bytes_of (key @ WEBSOCKET_GUID)) sha1_new) (bytes_of (key @ WEBSOCKET_GUID))"
    using sha1_update_absorbs by fastforce
  note d = sha1_digest_fips[OF this]
  have "b64_body False 72 0 (fips_sha1 m) = b64_raw False (fips_sha1 m)" for m by (rule b64_body_short) (simp add: fips_sha1_length)
  then show ?thesis unfolding computeAccept_def d b64_encode_eq by (simp add: b64_raw_rfc)
qed

lemma accept_complete:
  assumes "length key < 2 ^ 32 - 36" "trimInPlace (request ''Sec-WebSocket-Key'') = key" "key \<noteq> []" "request ''Sec-WebSocket-Version'' = ''13''"
    "icompare (request ''Upgrade'') ''websocket'' = 0"
  defines "answer \<equiv> map (\<lambda>b. char_of (unat b)) (b64_rfc False False (fips_sha1 (bytes_of (key @ WEBSOCKET_GUID))))"
  shows "\<exists>response. ws_accept True request = Some (Inr response) \<and> response ''Sec-WebSocket-Accept'' = answer \<and>
      completeHandshake response key = Some (Inr ()) \<and>
      (\<forall>other. (completeHandshake other key = Some (Inr ())) =
        (icompare (other ''Connection'') ''Upgrade'' = 0 \<and> icompare (other ''Upgrade'') ''websocket'' = 0 \<and> other ''Sec-WebSocket-Accept'' = answer))"
proof -
  let ?r = "(\<lambda>_. [])(''Upgrade'' := ''websocket'', ''Connection'' := ''Upgrade'', ''Sec-WebSocket-Accept'' := answer) :: header"
  have a: "computeAccept key = Some answer" using computeAccept_rfc[OF assms(1)] by (simp add: answer_def)
  have self: "icompare s s = 0" for s by (induction s) (auto simp: Let_def)
  have "ws_accept True request = Some (Inr ?r)" using assms(2-5) a by (simp add: ws_accept_def Let_def)
  moreover have c: "(completeHandshake other key = Some (Inr ())) =
      (icompare (other ''Connection'') ''Upgrade'' = 0 \<and> icompare (other ''Upgrade'') ''websocket'' = 0 \<and> other ''Sec-WebSocket-Accept'' = answer)" for other
    by (auto simp: completeHandshake_def a)
  moreover have "completeHandshake ?r key = Some (Inr ())" unfolding c by (simp add: self)
  ultimately show ?thesis by (intro exI[of _ ?r]) simp
qed

text \<open>
  C37.  The opening handshake: for all random numbers the client's key is 24 characters without white space around them; a server answers a
  proper request with it by the accept value that RFC 6455 defines by SHA-1 and Base64, the client takes this answer, and it takes no answer with
  another value.
\<close>

theorem ws_handshake:
  assumes "request ''Sec-WebSocket-Version'' = ''13''" "icompare (request ''Upgrade'') ''websocket'' = 0"
  shows "\<exists>key response. createKey r1 r2 r3 r4 = Some key \<and> length key = 24 \<and>
      ws_accept True (request(''Sec-WebSocket-Key'' := key)) = Some (Inr response) \<and> completeHandshake response key = Some (Inr ()) \<and>
      (\<forall>other. (completeHandshake other key = Some (Inr ())) =
        (icompare (other ''Connection'') ''Upgrade'' = 0 \<and> icompare (other ''Upgrade'') ''websocket'' = 0 \<and>
         other ''Sec-WebSocket-Accept'' = map (\<lambda>b. char_of (unat b)) (b64_rfc False False (fips_sha1 (bytes_of (key @ WEBSOCKET_GUID))))))"
proof -
  obtain key where k: "createKey r1 r2 r3 r4 = Some key" "length key = 24" "trimInPlace key = key" using createKey_ok by blast
  then have "key \<noteq> []" by auto
  with k show ?thesis using accept_complete[of key "request(''Sec-WebSocket-Key'' := key)"] assms by (auto simp: k)
qed

theorem ws_handshake_witness:
  "\<exists>key response. createKey 1 2 3 4 = Some key \<and>
    ws_accept True ((\<lambda>_. [])(''Upgrade'' := ''WebSocket'', ''Sec-WebSocket-Version'' := ''13'', ''Sec-WebSocket-Key'' := key)) = Some (Inr response) \<and>
    completeHandshake response key = Some (Inr ())"
proof -
  have "icompare ''WebSocket'' ''websocket'' = 0" by code_simp
  then show ?thesis
    using ws_handshake[of "(\<lambda>_. [])(''Upgrade'' := ''WebSocket'', ''Sec-WebSocket-Version'' := ''13'')" 1 2 3 4] by auto
qed

end
