(* ===== verification/MsgHeader.thy ===== *)
theory MsgHeader
  imports AsciiString Tokenizer Codec
begin

text \<open>
  The headers of Internet messages: \<^verbatim>\<open>ListMap.h\<close> (with string keys compared without regard to case, as the headers use it), \<^verbatim>\<open>NameValueCollection.cpp\<close>
  and \<^verbatim>\<open>MessageHeader.cpp\<close>.  A collection is refined to a map from names to lists of values; a header that is written is read back; the helpers that
  take a field value apart are the inverse of putting it together.

  A stream is the string still to be read.  \<^verbatim>\<open>read\<close> never asks for a character after the end of the stream was reported.
\<close>

section \<open>The list of fields\<close>

type_synonym 'v listmap = "(string \<times> 'v) list"

definition lm_isEqual :: "string \<Rightarrow> string \<Rightarrow> bool" where
  "lm_isEqual s1 s2 \<longleftrightarrow> icompare s1 s2 = 0"

text \<open>Iterators are positions; \<^verbatim>\<open>end()\<close> is the length.\<close>

primrec lm_find :: "string \<Rightarrow> 'v listmap \<Rightarrow> nat" where
  "lm_find key [] = 0"
| "lm_find key (e # m) = (if lm_isEqual (fst e) key then 0 else Suc (lm_find key m))"

definition lm_insert :: "string \<times> 'v \<Rightarrow> 'v listmap \<Rightarrow> 'v listmap" where
  "lm_insert val m =
    (let it = lm_find (fst val) m;
         it = it + length (takeWhile (\<lambda>e. lm_isEqual (fst e) (fst val)) (drop it m))
     in take it m @ val # drop it m)"

definition lm_erase_at :: "nat \<Rightarrow> 'v listmap \<Rightarrow> 'v listmap" where
  "lm_erase_at it m = take it m @ drop (Suc it) m"

text \<open>The loop of \<^verbatim>\<open>erase(key)\<close> from the position of the first hit; \<open>removed\<close> as in the code.\<close>

primrec lm_erase_loop :: "string \<Rightarrow> bool \<Rightarrow> 'v listmap \<Rightarrow> nat \<times> 'v listmap" where
  "lm_erase_loop key removed [] = (0, [])"
| "lm_erase_loop key removed (e # m) =
    (if lm_isEqual (fst e) key then (let (n, m) = lm_erase_loop key True m in (n + 1, m))
     else if removed then (0, e # m)
     else (let (n, m) = lm_erase_loop key removed m in (n, e # m)))"

definition lm_erase :: "string \<Rightarrow> 'v listmap \<Rightarrow> nat \<times> 'v listmap" where
  "lm_erase key m = (let it = lm_find key m; (n, r) = lm_erase_loop key False (drop it m) in (n, take it m @ r))"

definition lm_index :: "string \<Rightarrow> 'v listmap \<Rightarrow> 'v result" where
  "lm_index key m = (let it = lm_find key m in if it \<noteq> length m then Inr (snd (m ! it)) else Inl NotFoundException)"

section \<open>NameValueCollection\<close>

type_synonym nvc = "string listmap"

definition nvc_set :: "string \<Rightarrow> string \<Rightarrow> nvc \<Rightarrow> nvc" where
  "nvc_set name v m = (let it = lm_find name m in if it \<noteq> length m then m[it := (fst (m ! it), v)] else lm_insert (name, v) m)"

definition nvc_add :: "string \<Rightarrow> string \<Rightarrow> nvc \<Rightarrow> nvc" where
  "nvc_add name v m = lm_insert (name, v) m"

definition nvc_get :: "string \<Rightarrow> nvc \<Rightarrow> string result" where
  "nvc_get name m = (let it = lm_find name m in if it \<noteq> length m then Inr (snd (m ! it)) else Inl NotFoundException)"

definition nvc_get_default :: "string \<Rightarrow> string \<Rightarrow> nvc \<Rightarrow> string" where
  "nvc_get_default name defaultValue m = (let it = lm_find name m in if it \<noteq> length m then snd (m ! it) else defaultValue)"

definition nvc_has :: "string \<Rightarrow> nvc \<Rightarrow> bool" where
  "nvc_has name m \<longleftrightarrow> lm_find name m \<noteq> length m"

definition nvc_erase :: "string \<Rightarrow> nvc \<Rightarrow> nvc" where
  "nvc_erase name m = snd (lm_erase name m)"

lemma lm_find_le: "lm_find key m \<le> length m"
  by (induction m) auto

function nvc_secureErase :: "string \<Rightarrow> nvc \<Rightarrow> nvc" where
  "nvc_secureErase name m =
    (let it = lm_find name m in if it \<noteq> length m then nvc_secureErase name (lm_erase_at it m) else m)"
  by pat_completeness auto
termination
proof (relation "measure (\<lambda>(name, m). length m)")
  fix name x and m :: nvc
  assume "x = lm_find name m" "x \<noteq> length m"
  then show "((name, lm_erase_at x m), name, m) \<in> measure (\<lambda>(name, m). length m)"
    using lm_find_le[of name m] by (simp add: lm_erase_at_def)
qed simp

declare nvc_secureErase.simps [simp del]

section \<open>A collection as a map from names to lists of values\<close>

text \<open>Entries with equal names stand together.\<close>

primrec grouped :: "'v listmap \<Rightarrow> bool" where
  "grouped [] = True"
| "grouped (e # m) \<longleftrightarrow> grouped m \<and> ((\<exists>e' \<in> set m. lm_isEqual (fst e') (fst e)) \<longrightarrow> lm_isEqual (fst (hd m)) (fst e))"

definition vals :: "string \<Rightarrow> 'v listmap \<Rightarrow> 'v list" where
  "vals name m = map snd (filter (\<lambda>e. lm_isEqual (fst e) name) m)"

lemma lm_isEqual_iff: "lm_isEqual s t \<longleftrightarrow> map ikey s = map ikey t"
  by (simp add: lm_isEqual_def icompare_zero)

lemma lm_find_split: "m = take (lm_find key m) m @ drop (lm_find key m) m \<and> (\<forall>e \<in> set (take (lm_find key m) m). \<not> lm_isEqual (fst e) key) \<and>
    (lm_find key m < length m \<longrightarrow> lm_isEqual (fst (m ! lm_find key m)) key)"
  by (induction m) auto

lemma isEqual_refl [simp]: "lm_isEqual s s"
  by (simp add: lm_isEqual_iff)

lemma isEqual_trans: "lm_isEqual s t \<Longrightarrow> lm_isEqual t u = lm_isEqual s u" "lm_isEqual s t \<Longrightarrow> lm_isEqual u t = lm_isEqual u s"
  by (auto simp: lm_isEqual_iff)

lemma isEqual_sym: "lm_isEqual s t = lm_isEqual t s"
  by (auto simp: lm_isEqual_iff)

text \<open>Insertion, recursively: behind the run of the name, or at the end.\<close>

definition into_run :: "string \<times> 'v \<Rightarrow> 'v listmap \<Rightarrow> 'v listmap" where
  "into_run val m = takeWhile (\<lambda>e. lm_isEqual (fst e) (fst val)) m @ val # dropWhile (\<lambda>e. lm_isEqual (fst e) (fst val)) m"

lemma into_run_simps [simp]:
  "into_run val [] = [val]"
  "into_run val (e # m) = (if lm_isEqual (fst e) (fst val) then e # into_run val m else val # e # m)"
  by (simp_all add: into_run_def)

lemma lm_insert_simps [simp]:
  "lm_insert val [] = [val]"
  "lm_insert val (e # m) = e # (if lm_isEqual (fst e) (fst val) then into_run val m else lm_insert val m)"
  by (simp_all add: lm_insert_def into_run_def Let_def dropWhile_eq_drop[symmetric] takeWhile_eq_take[symmetric])

lemma set_into_run [simp]: "set (into_run val m) = insert val (set m)"
  by (induction m) auto

lemma set_lm_insert [simp]: "set (lm_insert val m) = insert val (set m)"
  by (induction m) auto

lemma hd_into_run: "lm_isEqual (fst (hd (into_run val m))) (fst val)"
  by (cases m) auto

lemma grouped_into_run:
  "grouped m \<Longrightarrow> (\<exists>e \<in> set m. lm_isEqual (fst e) (fst val)) \<longrightarrow> lm_isEqual (fst (hd m)) (fst val) \<Longrightarrow> grouped (into_run val m)"
proof (induction m)
  case (Cons a m)
  show ?case
  proof (cases "lm_isEqual (fst a) (fst val)")
    case True
    then have "grouped (into_run val m)" using Cons isEqual_trans[OF True] by auto
    moreover have "lm_isEqual (fst (hd (into_run val m))) (fst a)" using hd_into_run[of val m] True by (simp add: lm_isEqual_iff)
    ultimately show ?thesis using True by simp
  next
    case False
    then have "\<forall>e \<in> set (a # m). \<not> lm_isEqual (fst e) (fst val)" using Cons.prems(2) by (metis list.sel(1))
    then show ?thesis using Cons.prems(1) False by (auto simp: isEqual_sym)
  qed
qed simp

lemma grouped_insert: "grouped m \<Longrightarrow> grouped (lm_insert val m)"
proof (induction m)
  case (Cons a m)
  show ?case
  proof (cases "lm_isEqual (fst a) (fst val)")
    case True
    then have "grouped (into_run val m)" using Cons.prems True by (intro grouped_into_run) (auto simp: lm_isEqual_iff)
    moreover have "lm_isEqual (fst (hd (into_run val m))) (fst a)" using hd_into_run[of val m] True by (simp add: lm_isEqual_iff)
    ultimately show ?thesis using True by simp
  next
    case False
    have "hd (lm_insert val m) = hd m" if "m \<noteq> []" using that by (cases m) auto
    moreover have "\<not> lm_isEqual (fst val) (fst a)" using False by (simp add: lm_isEqual_iff eq_commute)
    ultimately show ?thesis using Cons False by (cases "m = []") auto
  qed
qed simp

lemma vals_simps [simp]: "vals name [] = []" "vals name ((k, v) # m) = (if lm_isEqual k name then v # vals name m else vals name m)"
  by (simp_all add: vals_def)

lemma vals_into_run:
  "grouped m \<Longrightarrow> (\<exists>e \<in> set m. lm_isEqual (fst e) k) \<longrightarrow> lm_isEqual (fst (hd m)) k \<Longrightarrow>
   vals name (into_run (k, v) m) = (if lm_isEqual k name then vals name m @ [v] else vals name m)"
proof (induction m)
  case (Cons a m)
  obtain k' v' where a: "a = (k', v')" by (cases a)
  show ?case
  proof (cases "lm_isEqual k' k")
    case True
    then show ?thesis using Cons a isEqual_trans[OF True] by auto
  next
    case False
    then have "\<forall>e \<in> set (a # m). \<not> lm_isEqual (fst e) k" using Cons.prems(2) a by (metis fst_conv list.sel(1))
    then have "lm_isEqual k name \<Longrightarrow> vals name (a # m) = []" by (auto simp: vals_def filter_empty_conv lm_isEqual_iff)
    then show ?thesis using False a by auto
  qed
qed simp

lemma vals_insert:
  "grouped m \<Longrightarrow> vals name (lm_insert (k, v) m) = (if lm_isEqual k name then vals name m @ [v] else vals name m)"
proof (induction m)
  case (Cons a m)
  obtain k' v' where a: "a = (k', v')" by (cases a)
  show ?case
  proof (cases "lm_isEqual k' k")
    case True
    have "vals name (into_run (k, v) m) = (if lm_isEqual k name then vals name m @ [v] else vals name m)"
      using Cons.prems a True by (intro vals_into_run) (auto simp: lm_isEqual_iff)
    then show ?thesis using a True isEqual_trans[OF True] by auto
  next
    case False
    then show ?thesis using Cons a by auto
  qed
qed simp

lemma others_insert: "filter (\<lambda>e. \<not> lm_isEqual (fst e) (fst val)) (lm_insert val m) = filter (\<lambda>e. \<not> lm_isEqual (fst e) (fst val)) m"
proof -
  have "filter (\<lambda>e. \<not> lm_isEqual (fst e) (fst val)) (into_run val m) = filter (\<lambda>e. \<not> lm_isEqual (fst e) (fst val)) m" for m
    by (induction m) auto
  then show ?thesis by (induction m) auto
qed

text \<open>Erasing: because equal names stand together, stopping behind the first run removes them all.\<close>

abbreviation others :: "string \<Rightarrow> 'v listmap \<Rightarrow> 'v listmap" where
  "others name m \<equiv> filter (\<lambda>e. \<not> lm_isEqual (fst e) name) m"

lemma vals_none: "\<forall>e \<in> set m. \<not> lm_isEqual (fst e) name \<Longrightarrow> vals name m = [] \<and> others name m = m"
  by (auto simp: vals_def filter_empty_conv)

lemma length_vals_Cons: "length (vals name (e # m)) = (if lm_isEqual (fst e) name then 1 else 0) + length (vals name m)"
  by (cases e) simp

lemma erase_loop_run:
  "grouped m \<Longrightarrow> (\<exists>e \<in> set m. lm_isEqual (fst e) name) \<longrightarrow> lm_isEqual (fst (hd m)) name \<Longrightarrow>
   lm_erase_loop name True m = (length (vals name m), others name m)"
proof (induction m)
  case (Cons a m)
  show ?case
  proof (cases "lm_isEqual (fst a) name")
    case True
    then have "lm_erase_loop name True m = (length (vals name m), others name m)" using Cons by (auto simp: lm_isEqual_iff)
    then show ?thesis using True by (simp add: length_vals_Cons)
  next
    case False
    then have "\<forall>e \<in> set (a # m). \<not> lm_isEqual (fst e) name" using Cons.prems(2) by (metis list.sel(1))
    then show ?thesis using vals_none[of "a # m" name] False by simp
  qed
qed simp

lemma lm_erase_simps:
  "lm_erase name [] = (0, [])"
  "lm_erase name (e # m) =
    (if lm_isEqual (fst e) name then (let (n, m) = lm_erase_loop name True m in (n + 1, m)) else (let (n, m) = lm_erase name m in (n, e # m)))"
  by (auto simp: lm_erase_def Let_def split: prod.split)

lemma lm_erase_grouped: "grouped m \<Longrightarrow> lm_erase name m = (length (vals name m), others name m)"
proof (induction m)
  case (Cons a m)
  show ?case
  proof (cases "lm_isEqual (fst a) name")
    case True
    then have "lm_erase_loop name True m = (length (vals name m), others name m)"
      using Cons.prems by (intro erase_loop_run) (auto simp: lm_isEqual_iff)
    then show ?thesis using True by (simp add: lm_erase_simps length_vals_Cons)
  qed (use Cons in \<open>simp add: lm_erase_simps length_vals_Cons\<close>)
qed (simp add: lm_erase_simps)

lemma grouped_others: "grouped m \<Longrightarrow> grouped (others name m)"
proof (induction m)
  case (Cons a m)
  show ?case
  proof (cases "lm_isEqual (fst a) name")
    case False
    have "lm_isEqual (fst (hd (others name m))) (fst a)" if "e \<in> set (others name m)" "lm_isEqual (fst e) (fst a)" for e
    proof -
      have "m \<noteq> []" using that(1) by auto
      then obtain b r where m: "m = b # r" by (cases m)  auto
      moreover have "e \<in> set m" using that(1) by simp
      then have "lm_isEqual (fst b) (fst a)" using Cons.prems that(2) m by (metis grouped.simps(2) list.sel(1))
      moreover from this False have "\<not> lm_isEqual (fst b) name" by (simp add: lm_isEqual_iff)
      ultimately show ?thesis by simp
    qed
    then show ?thesis using Cons False by auto
  qed (use Cons in simp)
qed simp

lemma vals_others: "vals name' (others name m) = (if lm_isEqual name name' then [] else vals name' m)"
  by (induction m) (auto simp: vals_def lm_isEqual_iff)

lemma secureErase_others: "nvc_secureErase name m = others name m"
proof (induction name m rule: nvc_secureErase.induct)
  case (1 name m)
  let ?it = "lm_find name m"
  note sp = lm_find_split[of m name]
  show ?case
  proof (cases "?it = length m")
    case False
    then have lt: "?it < length m" using lm_find_le[of name m] by simp
    then have "m = take ?it m @ m ! ?it # drop (Suc ?it) m" by (simp add: id_take_nth_drop)
    then have "others name m = others name (take ?it m) @ others name (m ! ?it # drop (Suc ?it) m)" by (metis filter_append)
    then have "others name (lm_erase_at ?it m) = others name m" using sp lt by (simp add: lm_erase_at_def)
    then show ?thesis using 1 False by (subst nvc_secureErase.simps) (simp add: Let_def)
  next
    case True
    then show ?thesis using sp by (subst nvc_secureErase.simps) (simp add: vals_none)
  qed
qed

lemma nvc_set_simps [simp]:
  "nvc_set name v [] = [(name, v)]"
  "nvc_set name v (e # m) = (if lm_isEqual (fst e) name then (fst e, v) # m else e # nvc_set name v m)"
  by (auto simp: nvc_set_def Let_def isEqual_sym)

lemma vals_set: "vals name' (nvc_set name v m) = (if lm_isEqual name name' then v # tl (vals name' m) else vals name' m)"
  by (induction m) (auto simp: vals_def lm_isEqual_iff)

lemma set_keys: "(\<exists>e \<in> set (nvc_set name v m). lm_isEqual (fst e) k) \<longleftrightarrow> lm_isEqual name k \<or> (\<exists>e \<in> set m. lm_isEqual (fst e) k)"
  by (induction m) (auto simp: lm_isEqual_iff)

lemma grouped_set: "grouped m \<Longrightarrow> grouped (nvc_set name v m)"
proof (induction m)
  case (Cons a m)
  have "lm_isEqual (fst (hd (nvc_set name v m))) k = lm_isEqual (fst (hd m)) k" if "m \<noteq> []" for k using that by (cases m) auto
  then show ?case using Cons set_keys[of name v m "fst a"] by (cases "m = []") (auto simp: lm_isEqual_iff)
qed simp

lemma lm_find_vals: "(lm_find name m \<noteq> length m) = (vals name m \<noteq> [])" "lm_find name m \<noteq> length m \<Longrightarrow> snd (m ! lm_find name m) = hd (vals name m)"
  by (induction m) (auto simp: vals_def)

lemma nvc_lookup:
  "nvc_get name m = (if vals name m = [] then Inl NotFoundException else Inr (hd (vals name m)))"
  "nvc_get_default name d m = (if vals name m = [] then d else hd (vals name m))"
  "nvc_has name m \<longleftrightarrow> vals name m \<noteq> []"
  by (simp_all add: nvc_get_def nvc_get_default_def nvc_has_def Let_def lm_find_vals)

text \<open>The changing operations in any order, and what they do to the values of a name.\<close>

datatype nvc_op = Add string string | Set string string | Erase string | SecureErase string | Clear

fun nvc_step :: "nvc_op \<Rightarrow> nvc \<Rightarrow> nvc" where
  "nvc_step (Add name v) m = nvc_add name v m"
| "nvc_step (Set name v) m = nvc_set name v m"
| "nvc_step (Erase name) m = nvc_erase name m"
| "nvc_step (SecureErase name) m = nvc_secureErase name m"
| "nvc_step Clear m = []"

fun abs_step :: "nvc_op \<Rightarrow> (string \<Rightarrow> string list) \<Rightarrow> string \<Rightarrow> string list" where
  "abs_step (Add name v) f = (\<lambda>k. if lm_isEqual name k then f k @ [v] else f k)"
| "abs_step (Set name v) f = (\<lambda>k. if lm_isEqual name k then v # tl (f k) else f k)"
| "abs_step (Erase name) f = (\<lambda>k. if lm_isEqual name k then [] else f k)"
| "abs_step (SecureErase name) f = (\<lambda>k. if lm_isEqual name k then [] else f k)"
| "abs_step Clear f = (\<lambda>k. [])"

lemma nvc_step_refines: "grouped m \<Longrightarrow> grouped (nvc_step op m) \<and> (\<lambda>k. vals k (nvc_step op m)) = abs_step op (\<lambda>k. vals k m)"
  by (cases op)
    (auto simp: nvc_add_def nvc_erase_def lm_erase_grouped secureErase_others grouped_insert grouped_set grouped_others vals_insert vals_set vals_others)

lemma nvc_run_from: "grouped m \<Longrightarrow> grouped (fold nvc_step ops m) \<and> (\<lambda>k. vals k (fold nvc_step ops m)) = fold abs_step ops (\<lambda>k. vals k m)"
proof (induction ops arbitrary: m)
  case (Cons op ops)
  then show ?case using nvc_step_refines[of m op] by simp
qed simp

text \<open>
  C20.  A collection of named values is a map from names, compared without regard to case, to lists of values: any run of \<^verbatim>\<open>add\<close>, \<^verbatim>\<open>set\<close>, \<^verbatim>\<open>erase\<close>, \<^verbatim>\<open>secureErase\<close> and \<^verbatim>\<open>clear\<close>
  keeps entries with equal names together and has the effect of the abstract operations; \<^verbatim>\<open>get\<close> and \<^verbatim>\<open>has\<close> answer by the first value, and adding a
  field leaves the order of the others.
\<close>

theorem nvc_run_refines:
  "let m = fold nvc_step ops []; f = fold abs_step ops (\<lambda>k. []) in
   grouped m \<and> (\<lambda>k. vals k m) = f \<and>
   nvc_has name m = (f name \<noteq> []) \<and> nvc_get name m = (if f name = [] then Inl NotFoundException else Inr (hd (f name))) \<and>
   nvc_get_default name d m = hd (f name @ [d]) \<and> fst (lm_erase name m) = length (f name) \<and> others name (nvc_add name v m) = others name m"
proof -
  define m where "m = fold nvc_step ops []"
  define f where "f = fold abs_step ops (\<lambda>k. [])"
  have g: "grouped m" and e: "(\<lambda>k. vals k m) = f" using nvc_run_from[of "[]" ops] by (simp_all add: m_def f_def)
  from e have f: "f k = vals k m" for k by auto
  have "others name (nvc_add name v m) = others name m" using others_insert[of "(name, v)" m] by (simp add: nvc_add_def)
  then show ?thesis unfolding m_def[symmetric] f_def[symmetric] Let_def using g
    by (auto simp: f nvc_lookup lm_erase_grouped)
qed

section \<open>Encoded words\<close>

text \<open>
  The loop that reads a Base64 decoder with \<^verbatim>\<open>get\<close>: an exception of the decoder sets \<^verbatim>\<open>badbit\<close> and ends it.
\<close>

function b64_get_all :: "b64dec \<Rightarrow> u8 list" where
  "b64_get_all d =
    (case b64_readFromDevice d of
       Inl e \<Rightarrow> []
     | Inr (None, d') \<Rightarrow> []
     | Inr (Some x, d') \<Rightarrow> x # b64_get_all d')"
  by pat_completeness auto
termination by (relation "measure b64_left") (auto dest: b64_read_decreases)

declare b64_get_all.simps [simp del]

text \<open>\<^verbatim>\<open>strtol\<close> of the C library with base 16.\<close>

definition hex_digit_of :: "char \<Rightarrow> int option" where
  "hex_digit_of c =
    (let n = uchar c in
     if 48 \<le> n \<and> n \<le> 57 then Some (n - 48) else if 65 \<le> n \<and> n \<le> 70 then Some (n - 55) else if 97 \<le> n \<and> n \<le> 102 then Some (n - 87) else None)"

primrec strtol16_digits :: "int \<Rightarrow> string \<Rightarrow> int" where
  "strtol16_digits acc [] = acc"
| "strtol16_digits acc (c # s) = (case hex_digit_of c of None \<Rightarrow> acc | Some d \<Rightarrow> strtol16_digits (acc * 16 + d) s)"

definition strtol16 :: "string \<Rightarrow> int" where
  "strtol16 s =
    (let s = dropWhile (\<lambda>c. uchar c = 32 \<or> 9 \<le> uchar c \<and> uchar c \<le> 13) s;
         minus = (take 1 s = ''-'');
         s = (if minus \<or> take 1 s = ''+'' then drop 1 s else s);
         s = (if length s > 2 \<and> (take 2 s = ''0x'' \<or> take 2 s = ''0X'') \<and> hex_digit_of (s ! 2) \<noteq> None then drop 2 s else s);
         v = strtol16_digits 0 s
     in if minus then - v else v)"

fun rfc2047_q :: "string \<Rightarrow> string" where
  "rfc2047_q [] = []"
| "rfc2047_q (c # s) =
    (if c = CHR ''_'' then CHR '' '' # rfc2047_q s
     else if c = CHR ''='' then
       (case s of x # y # r \<Rightarrow> to_char (strtol16 (toUpper [x, y])) # rfc2047_q r | _ \<Rightarrow> [])
     else c # rfc2047_q s)"

text \<open>
  \<open>conv\<close> stands for the encodings known to \<^verbatim>\<open>TextEncoding::byName\<close>: it converts a text between two of them, or is \<open>None\<close> if this throws.
\<close>

type_synonym conv = "string \<Rightarrow> string \<Rightarrow> string \<Rightarrow> string option"

definition decodeRFC2047 :: "conv \<Rightarrow> string \<Rightarrow> string \<Rightarrow> string result" where
  "decodeRFC2047 conv ins charset_to =
    (let tokens = StringTokenizer ins ''?'' 0 in
     rbind (tok_index tokens 0) (\<lambda>charset. rbind (tok_index tokens 1) (\<lambda>encoding. rbind (tok_index tokens 2) (\<lambda>s.
       let charset = toUpper charset; encoding = toUpper encoding;
           convert = (\<lambda>tempout. if charset \<noteq> charset_to then (case conv charset charset_to tempout of None \<Rightarrow> tempout | Some r \<Rightarrow> r) else tempout)
       in if encoding = ''B'' then Inr (convert (map (\<lambda>b. char_of (unat b)) (b64_get_all (b64dec_new False False (bytes_of s)))))
          else if encoding = ''Q'' then Inr (convert (rfc2047_q s))
          else Inr ins))))"

definition find_first_not_of :: "string \<Rightarrow> string \<Rightarrow> nat option" where
  "find_first_not_of s cs = (let n = length (takeWhile (\<lambda>c. c \<in> set cs) s) in if n < length s then Some n else None)"

text \<open>The loop of \<^verbatim>\<open>decodeWord\<close>; the values of \<open>pos\<close> are those of \<^verbatim>\<open>find\<close>, \<open>None\<close> for \<^verbatim>\<open>npos\<close>.\<close>

function decodeWord_loop :: "conv \<Rightarrow> string \<Rightarrow> string \<Rightarrow> string \<Rightarrow> nat option \<Rightarrow> string result" where
  "decodeWord_loop conv charset outs tmp pos =
    (case pos of
       None \<Rightarrow> Inr (outs @ tmp)
     | Some p \<Rightarrow>
         (let outs = (if p > 0 then outs @ take p tmp else outs);
              tmp = drop (p + 2) tmp
          in case find_str tmp ''?'' 0 of
               None \<Rightarrow> Inr (outs @ tmp)
             | Some pos1 \<Rightarrow> case find_str tmp ''?'' (pos1 + 1) of
                 None \<Rightarrow> Inr (outs @ tmp)
               | Some pos2 \<Rightarrow> case find_str tmp ''?='' (pos2 + 1) of
                   None \<Rightarrow> Inr (outs @ tmp)
                 | Some pos3 \<Rightarrow>
                     rbind (decodeRFC2047 conv (take pos3 tmp) charset) (\<lambda>tmp2.
                       let outs = outs @ tmp2;
                           tmp = drop (pos3 + 2) tmp;
                           pos = find_str tmp ''=?'' 0
                       in case pos of
                            None \<Rightarrow> decodeWord_loop conv charset outs tmp None
                          | Some p \<Rightarrow>
                              if find_first_not_of (take p tmp) [CHR '' '', CHR 0x09, CHR 0x0B, CHR 0x0A] = None
                              then decodeWord_loop conv charset outs (drop p tmp) (Some 0)
                              else decodeWord_loop conv charset outs tmp (Some p))))"
  by pat_completeness auto
termination
proof (relation "measure (\<lambda>(conv, charset, outs, tmp, pos). length tmp)", goal_cases)
  case 1 then show ?case by simp
next
  case (2 conv charset outs tmp pos p x xa y ya yb xb xc xd xe)
  then have "xa \<noteq> []" by (auto dest: find_str_bounds)
  then show ?case using 2 by auto
next
  case (3 conv charset outs tmp pos p x xa y ya yb xb xc xd xe y')
  then have "xa \<noteq> []" by (auto dest: find_str_bounds)
  then show ?case using 3 by auto
next
  case (4 conv charset outs tmp pos p x xa y ya yb xb xc xd xe y')
  then have "xa \<noteq> []" by (auto dest: find_str_bounds)
  then show ?case using 4 by auto
qed

declare decodeWord_loop.simps [simp del]

definition decodeWord :: "conv \<Rightarrow> string \<Rightarrow> string \<Rightarrow> string result" where
  "decodeWord conv txt charset = decodeWord_loop conv charset [] txt (find_str txt ''=?'' 0)"

section \<open>MessageHeader\<close>

record message_header =
  h_fields :: nvc
  h_fieldLimit :: nat
  h_nameLengthLimit :: nat
  h_valueLengthLimit :: nat
  h_autoDecode :: bool
  h_decodedOnRead :: bool

definition mh_new :: message_header where
  "mh_new = \<lparr>h_fields = [], h_fieldLimit = 100, h_nameLengthLimit = 256, h_valueLengthLimit = 8192, h_autoDecode = True, h_decodedOnRead = False\<rparr>"

abbreviation CR :: char where "CR \<equiv> CHR 0x0D"
abbreviation LF :: char where "LF \<equiv> CHR 0x0A"

definition mh_write :: "message_header \<Rightarrow> string" where
  "mh_write h = concat (map (\<lambda>(name, v). name @ '': '' @ v @ [CR, LF]) (h_fields h))"

text \<open>
  The head of the string is the character \<^verbatim>\<open>ch\<close> the code has read, the empty string is \<^verbatim>\<open>eof\<close>.  A loop that appends characters to a name or a value until
  one of them stops it or the limit is reached:
\<close>

fun mh_take :: "(char \<Rightarrow> bool) \<Rightarrow> nat \<Rightarrow> string \<Rightarrow> string \<Rightarrow> string \<times> string" where
  "mh_take stop limit acc [] = (acc, [])"
| "mh_take stop limit acc (ch # s) = (if \<not> stop ch \<and> length acc < limit then mh_take stop limit (acc @ [ch]) s else (acc, ch # s))"

abbreviation crlf :: "char \<Rightarrow> bool" where "crlf ch \<equiv> ch = CR \<or> ch = LF"

definition mh_eol :: "string \<Rightarrow> string result" where
  "mh_eol s =
    (let s = (case s of [] \<Rightarrow> [] | ch # r \<Rightarrow> if ch = CR then r else s)
     in case s of [] \<Rightarrow> Inr [] | ch # r \<Rightarrow> if ch = LF then Inr r else Inl MessageException)"

lemma mh_take_length: "mh_take stop limit acc s = (v, r) \<Longrightarrow> length r \<le> length s"
  by (induction stop limit acc s rule: mh_take.induct) (auto split: if_splits)

lemma mh_eol_length: "mh_eol s = Inr r \<Longrightarrow> r = [] \<or> length r < length s"
  by (auto simp: mh_eol_def Let_def split: list.splits if_splits)

function mh_fold :: "nat \<Rightarrow> string \<Rightarrow> string \<Rightarrow> (string \<times> string) result" where
  "mh_fold limit v s =
    (case s of
       [] \<Rightarrow> Inr (v, s)
     | ch # r \<Rightarrow>
         if ch = CHR '' '' \<or> ch = CHR 0x09 then
           (case mh_take crlf limit v s of (v, s) \<Rightarrow> (case mh_eol s of Inl e \<Rightarrow> Inl e | Inr s \<Rightarrow> mh_fold limit v s))
         else Inr (v, s))"
  by pat_completeness auto
termination
proof (relation "measure (\<lambda>(limit, v, s). length s)")
  fix limit v s ch r p v' s' s''
  assume a: "s = ch # r" "(v', s') = mh_take crlf limit v s" "mh_eol s' = Inr s''"
  then have "length s' \<le> length s" using mh_take_length[OF a(2)[symmetric]] by simp
  moreover have "s'' = [] \<or> length s'' < length s'" using a(3) by (rule mh_eol_length)
  ultimately have "length s'' < length s" using a(1) by auto
  then show "((limit, v', s''), limit, v, s) \<in> measure (\<lambda>(limit, v, s). length s)" by simp
qed simp

declare mh_fold.simps [simp del]

definition mh_value :: "nat \<Rightarrow> string \<Rightarrow> (string \<times> string) result" where
  "mh_value limit s =
    (let s = dropWhile (\<lambda>ch. isSpace (uchar ch) \<and> \<not> crlf ch) s
     in case mh_take crlf limit [] s of (v, s) \<Rightarrow> rbind (mh_eol s) (\<lambda>s. mh_fold limit v s))"

lemma mh_fold_length: "mh_fold limit v s = Inr (v', r) \<Longrightarrow> length r \<le> length s"
proof (induction limit v s rule: mh_fold.induct)
  case (1 limit v s)
  show ?case
  proof (cases s)
    case Nil then show ?thesis using 1(2) by (simp add: mh_fold.simps)
  next
    case (Cons ch t)
    show ?thesis
    proof (cases "ch = CHR '' '' \<or> ch = CHR 0x09")
      case False then show ?thesis using 1(2) Cons by (simp add: mh_fold.simps)
    next
      case True
      obtain w u where t: "mh_take crlf limit v s = (w, u)" by fastforce
      obtain u' where e: "mh_eol u = Inr u'" "mh_fold limit w u' = Inr (v', r)"
        using 1(2) Cons True t by (subst (asm) mh_fold.simps) (auto split: sum.splits)
      then have "length r \<le> length u'" using 1(1)[OF Cons True t[symmetric] e(1) e(2)] by simp
      then show ?thesis using mh_take_length[OF t] mh_eol_length[OF e(1)] by auto
    qed
  qed
qed

lemma mh_value_length: "mh_value limit s = Inr (v, r) \<Longrightarrow> length r \<le> length s"
  unfolding mh_value_def Let_def
  by (auto simp: rbind_eq_Inr split: prod.splits dest!: mh_take_length mh_eol_length mh_fold_length)
    (meson le_trans length_dropWhile_le order.strict_implies_order)+

text \<open>The loop over the fields; the second component is what is left of the stream, with \<^verbatim>\<open>ch\<close> put back.\<close>

function mh_read_loop :: "conv \<Rightarrow> message_header \<Rightarrow> nat \<Rightarrow> string \<Rightarrow> message_header \<times> string result" where
  "mh_read_loop conv h nfields s =
    (case s of
       [] \<Rightarrow> (h, Inr [])
     | ch # _ \<Rightarrow>
         if crlf ch then (h, Inr s)
         else if h_fieldLimit h > 0 \<and> nfields = h_fieldLimit h then (h, Inl MessageException)
         else
           (case mh_take (\<lambda>c. c = CHR '':'' \<or> c = LF) (h_nameLengthLimit h) [] s of
              (name, []) \<Rightarrow> (h, Inl MessageException)
            | (name, c # s) \<Rightarrow>
                if c = LF then mh_read_loop conv h nfields s
                else if c \<noteq> CHR '':'' then (h, Inl MessageException)
                else
                  (case mh_value (h_valueLengthLimit h) s of
                     Inl e \<Rightarrow> (h, Inl e)
                   | Inr (v, s) \<Rightarrow>
                       (case (if h_autoDecode h then decodeWord conv (trimRight v) ''UTF-8'' else Inr (trimRight v)) of
                          Inl e \<Rightarrow> (h, Inl e)
                        | Inr v \<Rightarrow> mh_read_loop conv (h\<lparr>h_fields := nvc_add name v (h_fields h)\<rparr>) (nfields + 1) s))))"
  by pat_completeness auto
termination
proof (relation "measure (\<lambda>(conv, h, nfields, s). length s)")
  fix conv h nfields and s :: string and name y c s'
  assume a: "(name, y) = mh_take (\<lambda>c. c = CHR '':'' \<or> c = LF) (h_nameLengthLimit h) [] s" "y = c # s'"
  have l: "length s' < length s" using mh_take_length[OF a(1)[symmetric]] a(2) by simp
  then show "((conv, h, nfields, s'), conv, h, nfields, s) \<in> measure (\<lambda>(conv, h, nfields, s). length s)" by simp
next
  fix conv h nfields and s :: string and name y c s' p v s'' h'
  assume a: "(name, y) = mh_take (\<lambda>c. c = CHR '':'' \<or> c = LF) (h_nameLengthLimit h) [] s" "y = c # s'"
    and v: "mh_value (h_valueLengthLimit h) s' = Inr p" "(v, s'') = p"
  have "length s' < length s" using mh_take_length[OF a(1)[symmetric]] a(2) by simp
  moreover have "length s'' \<le> length s'" using v mh_value_length by auto
  ultimately show "((conv, h\<lparr>h_fields := h'\<rparr>, nfields + 1, s''), conv, h, nfields, s) \<in> measure (\<lambda>(conv, h, nfields, s). length s)" by simp
qed simp

declare mh_read_loop.simps [simp del]

definition mh_read :: "conv \<Rightarrow> message_header \<Rightarrow> string \<Rightarrow> message_header \<times> string result" where
  "mh_read conv h s =
    (case mh_read_loop conv h 0 s of
       (h, Inl e) \<Rightarrow> (h, Inl e)
     | (h, Inr s) \<Rightarrow> (h\<lparr>h_decodedOnRead := h_autoDecode h\<rparr>, Inr s))"

definition mh_setAutoDecode :: "bool \<Rightarrow> message_header \<Rightarrow> message_header" where
  "mh_setAutoDecode decode h = h\<lparr>h_autoDecode := decode\<rparr>"

definition mh_getDecoded :: "conv \<Rightarrow> string \<Rightarrow> message_header \<Rightarrow> string result" where
  "mh_getDecoded conv name h =
    rbind (nvc_get name (h_fields h)) (\<lambda>v. if h_decodedOnRead h then Inr v else decodeWord conv v ''UTF-8'')"

definition mh_getDecoded_default :: "conv \<Rightarrow> string \<Rightarrow> string \<Rightarrow> message_header \<Rightarrow> string result" where
  "mh_getDecoded_default conv name d h = (if \<not> nvc_has name (h_fields h) then Inr d else mh_getDecoded conv name h)"

definition mh_setFieldLimit :: "int \<Rightarrow> message_header \<Rightarrow> message_header result" where
  "mh_setFieldLimit limit h = (if limit \<ge> 0 then Inr (h\<lparr>h_fieldLimit := nat limit\<rparr>) else Inl AssertionViolationException)"

definition mh_setNameLengthLimit :: "int \<Rightarrow> message_header \<Rightarrow> message_header result" where
  "mh_setNameLengthLimit limit h = (if limit \<ge> 0 then Inr (h\<lparr>h_nameLengthLimit := nat limit\<rparr>) else Inl AssertionViolationException)"

definition mh_setValueLengthLimit :: "int \<Rightarrow> message_header \<Rightarrow> message_header result" where
  "mh_setValueLengthLimit limit h = (if limit \<ge> 0 then Inr (h\<lparr>h_valueLengthLimit := nat limit\<rparr>) else Inl AssertionViolationException)"

section \<open>What is written is read back\<close>

lemma mh_take_all:
  "list_all (\<lambda>c. \<not> stop c) xs \<Longrightarrow> length acc + length xs \<le> limit \<Longrightarrow> s = [] \<or> stop (hd s) \<Longrightarrow> mh_take stop limit acc (xs @ s) = (acc @ xs, s)"
proof (induction xs arbitrary: acc)
  case Nil then show ?case by (cases s) auto
qed simp

text \<open>A value may be folded: each of \<open>segs\<close> stands on a line of its own and starts with a blank or a tab.\<close>

definition blank :: "char \<Rightarrow> bool" where
  "blank c \<longleftrightarrow> c = CHR '' '' \<or> c = CHR 0x09"

definition seg_ok :: "string \<Rightarrow> bool" where
  "seg_ok seg \<longleftrightarrow> seg \<noteq> [] \<and> blank (hd seg) \<and> list_all (\<lambda>c. \<not> crlf c) seg"

definition fold_lines :: "string list \<Rightarrow> string" where
  "fold_lines segs = concat (map (\<lambda>seg. seg @ [CR, LF]) segs)"

lemma mh_eol_crlf [simp]: "mh_eol (CR # LF # s) = Inr s"
  by (simp add: mh_eol_def)

lemma mh_fold_segs:
  "list_all seg_ok segs \<Longrightarrow> length v + length (concat segs) \<le> limit \<Longrightarrow> s = [] \<or> \<not> blank (hd s) \<Longrightarrow>
   mh_fold limit v (fold_lines segs @ s) = Inr (v @ concat segs, s)"
proof (induction segs arbitrary: v)
  case Nil
  then show ?case by (subst mh_fold.simps) (auto simp: fold_lines_def blank_def split: list.split)
next
  case (Cons seg segs)
  obtain c r where seg: "seg = c # r" "c = CHR '' '' \<or> c = CHR 0x09" using Cons.prems(1) by (cases seg) (auto simp: seg_ok_def blank_def)
  let ?rest = "CR # LF # fold_lines segs @ s"
  have t: "mh_take crlf limit v (seg @ ?rest) = (v @ seg, ?rest)"
    using Cons.prems by (intro mh_take_all) (auto simp: seg_ok_def list_all_iff)
  have "mh_fold limit v (fold_lines (seg # segs) @ s) = mh_fold limit v (seg @ ?rest)" by (simp add: fold_lines_def)
  also have "\<dots> = mh_fold limit (v @ seg) (fold_lines segs @ s)"
    by (subst mh_fold.simps) (use seg t in \<open>auto split: list.split\<close>)
  also have "\<dots> = Inr ((v @ seg) @ concat segs, s)" using Cons by simp
  finally show ?case by simp
qed

lemma isSpace_uchar [simp]: "isSpace (uchar c) = space c"
proof (cases "of_char c < (128 :: int)")
  case True
  then show ?thesis by (simp add: schar_def uchar_def)
next
  case False
  then have "\<not> (0 \<le> schar c)" "\<not> uchar c < 128" using of_char_bounds[of c] by (simp_all add: schar_def uchar_def Let_def)
  then show ?thesis by (simp add: isSpace_def hasProperties_iff)
qed

lemma mh_value_segs:
  assumes "list_all (\<lambda>c. \<not> crlf c) v" "v = [] \<or> \<not> space (hd v)" "length v + length (concat segs) \<le> limit" "list_all seg_ok segs" "s = [] \<or> \<not> blank (hd s)"
  shows "mh_value limit (CHR '' '' # v @ CR # LF # fold_lines segs @ s) = Inr (v @ concat segs, s)"
proof -
  let ?r = "CR # LF # fold_lines segs @ s"
  have sp: "space CHR '' ''" by code_simp
  have "dropWhile (\<lambda>ch. isSpace (uchar ch) \<and> \<not> crlf ch) (CHR '' '' # v @ ?r) = v @ ?r"
    using assms(2) sp by (cases v) simp_all
  moreover have "mh_take crlf limit [] (v @ ?r) = (v, ?r)" using mh_take_all[of crlf v "[]" limit ?r] assms(1,3) by simp
  ultimately show ?thesis using mh_fold_segs[OF assms(4,3,5)] by (simp add: mh_value_def)
qed

text \<open>A field: its name, the first line of its value, and the lines it is continued on.\<close>

type_synonym field = "string \<times> string \<times> string list"

definition field_text :: "field \<Rightarrow> string" where
  "field_text f = (case f of (name, v, segs) \<Rightarrow> name @ '': '' @ v @ [CR, LF] @ fold_lines segs)"

definition field_value :: "field \<Rightarrow> string \<times> string" where
  "field_value f = (case f of (name, v, segs) \<Rightarrow> (name, v @ concat segs))"

definition field_ok :: "message_header \<Rightarrow> field \<Rightarrow> bool" where
  "field_ok h f = (case f of (name, v, segs) \<Rightarrow>
    list_all (\<lambda>c. c \<noteq> CHR '':'' \<and> c \<noteq> LF) name \<and> (name = [] \<or> \<not> blank (hd name) \<and> hd name \<noteq> CR) \<and> length name \<le> h_nameLengthLimit h \<and>
    list_all (\<lambda>c. \<not> crlf c) v \<and> (v = [] \<or> \<not> space (hd v)) \<and> list_all seg_ok segs \<and>
    (v @ concat segs = [] \<or> \<not> space (last (v @ concat segs))) \<and> length (v @ concat segs) \<le> h_valueLengthLimit h \<and>
    (h_autoDecode h \<longrightarrow> find_str (v @ concat segs) ''=?'' 0 = None))"

lemma trimRight_id: "v = [] \<or> \<not> space (last v) \<Longrightarrow> trimRight v = v"
  using dropWhile_hd[of "rev v" space] by (auto simp: trimRight_rstrip rstrip_def hd_rev)

lemma decodeWord_plain: "find_str v ''=?'' 0 = None \<Longrightarrow> decodeWord conv v charset = Inr v"
  by (simp add: decodeWord_def decodeWord_loop.simps)

lemma field_text_hd: "field_ok h f \<Longrightarrow> field_text f \<noteq> [] \<and> \<not> crlf (hd (field_text f)) \<and> \<not> blank (hd (field_text f))"
  by (cases f, cases "fst f") (auto simp: field_ok_def field_text_def blank_def)

lemma read_field:
  assumes "field_ok h f" "h_fieldLimit h = 0 \<or> k < h_fieldLimit h" "s = [] \<or> \<not> blank (hd s)"
  shows "mh_read_loop conv h k (field_text f @ s) =
    mh_read_loop conv (h\<lparr>h_fields := nvc_add (fst (field_value f)) (snd (field_value f)) (h_fields h)\<rparr>) (k + 1) s"
proof -
  obtain name v segs where f: "f = (name, v, segs)" by (metis prod_cases3)
  note ok = assms(1)[unfolded f field_ok_def prod.case]
  let ?r = "CHR '' '' # v @ CR # LF # fold_lines segs @ s"
  have tx: "field_text f @ s = name @ CHR '':'' # ?r" by (simp add: f field_text_def)
  obtain c t where ct: "field_text f @ s = c # t" "\<not> crlf c" using field_text_hd[OF assms(1)] by (metis append_Cons list.exhaust_sel)
  have m: "mh_take (\<lambda>c. c = CHR '':'' \<or> c = LF) (h_nameLengthLimit h) [] (c # t) = (name, CHR '':'' # ?r)"
    unfolding ct(1)[symmetric] tx using mh_take_all[of "\<lambda>c. c = CHR '':'' \<or> c = LF" name "[]" "h_nameLengthLimit h" "CHR '':'' # ?r"] ok by simp
  have "mh_value (h_valueLengthLimit h) ?r = Inr (v @ concat segs, s)" using ok assms(3) by (intro mh_value_segs) auto
  moreover have "trimRight (v @ concat segs) = v @ concat segs" using ok by (intro trimRight_id) auto
  moreover have "h_autoDecode h \<Longrightarrow> decodeWord conv (v @ concat segs) ''UTF-8'' = Inr (v @ concat segs)" using ok by (intro decodeWord_plain) auto
  moreover have "\<not> (h_fieldLimit h > 0 \<and> k = h_fieldLimit h)" using assms(2) by auto
  ultimately show ?thesis unfolding ct(1)
    by (subst mh_read_loop.simps) (auto simp: f field_value_def ct(2) m simp del: mh_take.simps)
qed

lemma read_fields:
  assumes "list_all (field_ok h) fs" "h_fieldLimit h = 0 \<or> k + length fs \<le> h_fieldLimit h" "s = [] \<or> crlf (hd s)"
  shows "mh_read_loop conv h k (concat (map field_text fs) @ s) =
    (h\<lparr>h_fields := fold (\<lambda>f. nvc_add (fst (field_value f)) (snd (field_value f))) fs (h_fields h)\<rparr>, Inr s)"
  using assms(1,2)
proof (induction fs arbitrary: h k)
  case Nil
  then show ?case using assms(3) by (subst mh_read_loop.simps) (auto split: list.split)
next
  case (Cons f fs)
  let ?s = "concat (map field_text fs) @ s"
  let ?h = "h\<lparr>h_fields := nvc_add (fst (field_value f)) (snd (field_value f)) (h_fields h)\<rparr>"
  have n: "?s = [] \<or> \<not> blank (hd ?s)"
  proof (cases fs)
    case Nil then show ?thesis using assms(3) by (auto simp: blank_def)
  next
    case (Cons g gs) then show ?thesis using field_text_hd[of h g] \<open>list_all (field_ok h) (f # fs)\<close> by simp
  qed
  have ok: "field_ok (h\<lparr>h_fields := m\<rparr>) = field_ok h" for m by (simp add: field_ok_def fun_eq_iff)
  have "mh_read_loop conv h k (field_text f @ ?s) = mh_read_loop conv ?h (k + 1) ?s"
    using Cons.prems by (intro read_field n) auto
  also have "\<dots> = (?h\<lparr>h_fields := fold (\<lambda>f. nvc_add (fst (field_value f)) (snd (field_value f))) fs (h_fields ?h)\<rparr>, Inr s)"
    using Cons.prems by (intro Cons.IH) (auto simp: ok)
  finally show ?case by simp
qed

lemma grouped_prefix: "grouped (xs @ ys) \<Longrightarrow> grouped xs"
proof (induction xs)
  case (Cons a xs)
  then show ?case by (cases xs) auto
qed simp

lemma into_run_end: "grouped (m @ [val]) \<Longrightarrow> lm_isEqual (fst (hd (m @ [val]))) (fst val) \<Longrightarrow> into_run val m = m @ [val]"
proof (induction m)
  case (Cons b m)
  then have "lm_isEqual (fst (hd (m @ [val]))) (fst val)" by (simp add: lm_isEqual_iff)
  then show ?case using Cons by simp
qed simp

lemma insert_end: "grouped (m @ [val]) \<Longrightarrow> lm_insert val m = m @ [val]"
proof (induction m)
  case (Cons a m)
  have "into_run val m = m @ [val]" if "lm_isEqual (fst a) (fst val)"
    using Cons.prems that by (intro into_run_end) (auto simp: lm_isEqual_iff)
  then show ?case using Cons by simp
qed simp

lemma fold_add_grouped:
  "grouped (m @ map field_value fs) \<Longrightarrow> fold (\<lambda>f. nvc_add (fst (field_value f)) (snd (field_value f))) fs m = m @ map field_value fs"
proof (induction fs arbitrary: m)
  case (Cons f fs)
  have "grouped ((m @ [field_value f]) @ map field_value fs)" using Cons.prems by simp
  moreover have "nvc_add (fst (field_value f)) (snd (field_value f)) m = m @ [field_value f]"
    using grouped_prefix[OF calculation] by (simp add: nvc_add_def insert_end)
  ultimately show ?case using Cons.IH[of "m @ [field_value f]"] by simp
qed simp

lemma read_back:
  assumes "grouped (map field_value fs)" "list_all (field_ok h) fs" "h_fieldLimit h = 0 \<or> length fs \<le> h_fieldLimit h" "h_fields h = []"
    "s = [] \<or> crlf (hd s)"
  shows "mh_read conv h (concat (map field_text fs) @ s) = (h\<lparr>h_fields := map field_value fs, h_decodedOnRead := h_autoDecode h\<rparr>, Inr s)"
proof -
  have "mh_read_loop conv h 0 (concat (map field_text fs) @ s) = (h\<lparr>h_fields := map field_value fs\<rparr>, Inr s)"
    using read_fields[of h fs 0 s conv] fold_add_grouped[of "[]" fs] assms by simp
  then show ?thesis by (simp add: mh_read_def)
qed

lemma write_text:
  assumes "list_all (\<lambda>(name, v, segs). segs = []) fs"
  shows "mh_write (h\<lparr>h_fields := map field_value fs\<rparr>) = concat (map field_text fs)"
proof -
  have "map (\<lambda>(name, v). name @ '': '' @ v @ [CR, LF]) (map field_value fs) = map field_text fs"
    using assms by (auto simp: list_all_iff field_value_def field_text_def fold_lines_def split: prod.splits)
  then show ?thesis by (simp add: mh_write_def del: map_map map_eq_conv)
qed

text \<open>
  C12.  A header whose fields are within the limits is read back as it was written, up to the empty line that ends it; values that are folded over several
  lines are put together, and nothing behind the header is consumed.
\<close>

theorem header_roundtrip:
  assumes "grouped (map field_value fs)" "list_all (field_ok h) fs" "h_fieldLimit h = 0 \<or> length fs \<le> h_fieldLimit h" "h_fields h = []"
    "s = [] \<or> crlf (hd s)"
  shows "mh_read conv h (concat (map field_text fs) @ s) = (h\<lparr>h_fields := map field_value fs, h_decodedOnRead := h_autoDecode h\<rparr>, Inr s) \<and>
    (list_all (\<lambda>(name, v, segs). segs = []) fs \<longrightarrow> mh_write (h\<lparr>h_fields := map field_value fs\<rparr>) = concat (map field_text fs))"
  using read_back[OF assms] write_text by blast

theorem header_roundtrip_witness:
  "mh_read (\<lambda>_ _ _. None) mh_new (''Host: a'' @ [CR, LF] @ ''Via: x,'' @ [CR, LF] @ '' y'' @ [CR, LF] @ [CR, LF] @ ''body'') =
    (mh_new\<lparr>h_fields := [(''Host'', ''a''), (''Via'', ''x, y'')], h_decodedOnRead := True\<rparr>, Inr ([CR, LF] @ ''body''))"
proof -
  let ?fs = "[(''Host'', ''a'', []), (''Via'', ''x,'', ['' y''])]"
  have "grouped (map field_value ?fs)" by code_simp
  moreover have "list_all (field_ok mh_new) ?fs" by code_simp
  ultimately show ?thesis
    using header_roundtrip[of ?fs mh_new "[CR, LF] @ ''body''" "\<lambda>_ _ _. None"]
    by (simp add: mh_new_def field_text_def field_value_def fold_lines_def)
qed

section \<open>The limits\<close>

lemma mh_take_bound: "mh_take stop limit acc s = (v, r) \<Longrightarrow> length v \<le> max limit (length acc)"
  by (induction stop limit acc s rule: mh_take.induct) (auto split: if_splits)

lemma mh_fold_bound: "mh_fold limit v s = Inr (v', r) \<Longrightarrow> length v \<le> limit \<Longrightarrow> length v' \<le> limit"
proof (induction limit v s rule: mh_fold.induct)
  case (1 limit v s)
  show ?case
  proof (cases "s \<noteq> [] \<and> blank (hd s)")
    case False then show ?thesis using 1(2,3) by (subst (asm) mh_fold.simps) (auto simp: blank_def split: list.splits if_splits)
  next
    case True
    then obtain ch t where c: "s = ch # t" "ch = CHR '' '' \<or> ch = CHR 0x09" by (cases s) (auto simp: blank_def)
    obtain w u where t: "mh_take crlf limit v s = (w, u)" by fastforce
    obtain u' where e: "mh_eol u = Inr u'" "mh_fold limit w u' = Inr (v', r)"
      using 1(2) c t by (subst (asm) mh_fold.simps) (auto split: sum.splits)
    have "length w \<le> limit" using mh_take_bound[OF t] 1(3) by simp
    then show ?thesis using 1(1)[OF c t[symmetric] e] by simp
  qed
qed

lemma mh_value_bound: "mh_value limit s = Inr (v, r) \<Longrightarrow> length v \<le> limit"
  using mh_take_bound mh_fold_bound by (fastforce simp: mh_value_def Let_def rbind_eq_Inr split: prod.splits)

text \<open>
  What a header may hold: at most as many fields as permitted (zero: any number), names within their limit, and values that are
  text within its limit or, with automatic decoding (the default), what such a text decodes to. The bound is on the text in the
  message because the code counts before it decodes: a decoded value may be longer, e.g. ISO 8859-1 text as UTF-8.
\<close>

definition value_within :: "conv \<Rightarrow> bool \<Rightarrow> nat \<Rightarrow> string \<Rightarrow> bool" where
  "value_within conv decode limit v \<longleftrightarrow>
    (if decode then \<exists>raw. length raw \<le> limit \<and> decodeWord conv raw ''UTF-8'' = Inr v else length v \<le> limit)"

definition within_limits :: "conv \<Rightarrow> message_header \<Rightarrow> bool" where
  "within_limits conv h \<longleftrightarrow> (h_fieldLimit h > 0 \<longrightarrow> length (h_fields h) \<le> h_fieldLimit h) \<and>
    list_all (\<lambda>(name, v). length name \<le> h_nameLengthLimit h \<and> value_within conv (h_autoDecode h) (h_valueLengthLimit h) v) (h_fields h)"

lemma trimRight_length: "length (trimRight v) \<le> length v"
  by (simp add: trimRight_def Let_def)

lemma lm_insert_length: "length (lm_insert val m) = Suc (length m)"
  by (simp add: lm_insert_def Let_def)

lemma read_loop_limits:
  "mh_read_loop conv h k s = (h', r) \<Longrightarrow> length (h_fields h) = k \<Longrightarrow> within_limits conv h \<Longrightarrow> within_limits conv h'"
proof (induction conv h k s arbitrary: h' r rule: mh_read_loop.induct)
  case (1 conv h k s)
  show ?case
  proof (cases "s = [] \<or> crlf (hd s) \<or> (h_fieldLimit h > 0 \<and> k = h_fieldLimit h)")
    case True then show ?thesis using 1(3-5) by (subst (asm) mh_read_loop.simps) (auto split: list.splits if_splits)
  next
    case False
    then obtain ch t where c: "s = ch # t" "\<not> crlf ch" by (cases s) auto
    have k: "\<not> (h_fieldLimit h > 0 \<and> k = h_fieldLimit h)" using False by auto
    obtain name u where nu: "mh_take (\<lambda>c. c = CHR '':'' \<or> c = LF) (h_nameLengthLimit h) [] s = (name, u)" by fastforce
    note name = mh_take_bound[OF nu]
    note eq = 1(3)[unfolded mh_read_loop.simps[of conv h k s] nu prod.case]
    show ?thesis
    proof (cases u)
      case Nil then show ?thesis using eq c k 1(5) by (auto split: if_splits)
    next
      case (Cons x s2)
      show ?thesis
      proof (cases "x = LF")
        case True
        then have "mh_read_loop conv h k s2 = (h', r)" using eq c k Cons by (auto split: if_splits)
        then show ?thesis using 1(1)[OF c k nu[symmetric] Cons True] 1(4,5) by blast
      next
        case False
        show ?thesis
        proof (cases "x = CHR '':'' \<and> (\<exists>v s3 w. mh_value (h_valueLengthLimit h) s2 = Inr (v, s3) \<and>
            (if h_autoDecode h then decodeWord conv (trimRight v) ''UTF-8'' else Inr (trimRight v)) = Inr w)")
          case True
          then obtain v s3 w where x: "x = CHR '':''" and v: "mh_value (h_valueLengthLimit h) s2 = Inr (v, s3)"
            "(if h_autoDecode h then decodeWord conv (trimRight v) ''UTF-8'' else Inr (trimRight v)) = Inr w" by blast
          let ?h = "h\<lparr>h_fields := nvc_add name w (h_fields h)\<rparr>"
          have "length (trimRight v) \<le> h_valueLengthLimit h" using trimRight_length[of v] mh_value_bound[OF v(1)] by simp
          then have "value_within conv (h_autoDecode h) (h_valueLengthLimit h) w" using v(2) by (auto simp: value_within_def split: if_splits)
          then have "within_limits conv ?h" using name 1(4,5) k
            by (auto simp: within_limits_def nvc_add_def lm_insert_length list_all_iff)
          moreover have "length (h_fields ?h) = k + 1" using 1(4) by (simp add: nvc_add_def lm_insert_length)
          moreover have "mh_read_loop conv ?h (k + 1) s3 = (h', r)" using eq c k Cons False x v by (auto split: if_splits)
          ultimately show ?thesis using 1(2)[OF c k nu[symmetric] Cons False _ v(1) refl v(2)] x by blast
        next
          case no: False
          then have "h' = h" using eq c k Cons False by (auto split: if_splits sum.splits prod.splits)
          then show ?thesis using 1(5) by simp
        qed
      qed
    qed
  qed
qed

lemma read_within_limits:
  assumes "h_fields h = []" "mh_read conv h s = (h', r)"
  shows "within_limits conv h'"
proof -
  have w: "within_limits conv h" using assms(1) by (simp add: within_limits_def)
  obtain g q where l: "mh_read_loop conv h 0 s = (g, q)" by fastforce
  then have "within_limits conv g" using read_loop_limits[OF l _ w] assms(1) by simp
  then show ?thesis using assms(2) l by (auto simp: mh_read_def within_limits_def split: sum.splits)
qed

text \<open>
  C23.  Whatever a peer sends, reading a header returns (no loop of it runs on), and it stores at most the permitted number of
  fields (any number when the limit is zero), with names no longer than permitted and values that are texts no longer than
  permitted or, with automatic decoding, what decoding such a text gives. No value comes from more text than the limit,
  whether it is decoded or not.
\<close>

theorem header_limits:
  assumes "h_fields h = []" "mh_read conv h s = (h', r)"
  shows "within_limits conv h'"
  using read_within_limits[OF assms] .

theorem header_limits_witness:
  "within_limits (\<lambda>_ _ _. None) (fst (mh_read (\<lambda>_ _ _. None) (mh_new\<lparr>h_fieldLimit := 1, h_valueLengthLimit := 3\<rparr>) (''a: bcd'' @ [CR, LF, CR, LF]))) \<and>
   h_fields (fst (mh_read (\<lambda>_ _ _. None) (mh_new\<lparr>h_fieldLimit := 1, h_valueLengthLimit := 3\<rparr>) (''a: bcd'' @ [CR, LF, CR, LF]))) = [(''a'', ''bcd'')]"
proof
  let ?h = "mh_new\<lparr>h_fieldLimit := 1, h_valueLengthLimit := 3\<rparr>" and ?s = "''a: bcd'' @ [CR, LF, CR, LF]"
  show "within_limits (\<lambda>_ _ _. None) (fst (mh_read (\<lambda>_ _ _. None) ?h ?s))"
    by (rule header_limits[of ?h _ ?s _ "snd (mh_read (\<lambda>_ _ _. None) ?h ?s)"]) (simp_all add: mh_new_def)
  show "h_fields (fst (mh_read (\<lambda>_ _ _. None) ?h ?s)) = [(''a'', ''bcd'')]" by code_simp
qed

section \<open>Encoded words are decoded\<close>

lemma find_str_first:
  "k \<le> p \<Longrightarrow> p + length pat \<le> length s \<Longrightarrow> take (length pat) (drop p s) = pat \<Longrightarrow>
   \<forall>i. k \<le> i \<and> i < p \<longrightarrow> take (length pat) (drop i s) \<noteq> pat \<Longrightarrow> find_str s pat k = Some p"
proof (induction s pat k rule: find_str.induct)
  case (1 s pat k)
  show ?case
  proof (cases "k = p")
    case True then show ?thesis using 1(3,4) by (subst find_str.simps) simp
  next
    case False
    then have "take (length pat) (drop k s) \<noteq> pat" "\<not> k + length pat > length s" using 1 by auto
    then show ?thesis using 1 False by (subst find_str.simps) simp
  qed
qed

lemma find_str_none: "find_str s pat k = None \<Longrightarrow> k \<le> i \<Longrightarrow> i + length pat \<le> length s \<Longrightarrow> take (length pat) (drop i s) \<noteq> pat"
proof (induction s pat k rule: find_str.induct)
  case (1 s pat k)
  then show ?case by (subst (asm) (2) find_str.simps) (cases "i = k"; auto split: if_splits)
qed

lemma find_str_shift: "find_str (pre @ s) pat (length pre + k) = map_option (\<lambda>p. length pre + p) (find_str s pat k)"
proof (induction s pat k rule: find_str.induct)
  case (1 s pat k)
  then show ?case by (subst (1 2) find_str.simps) auto
qed

lemma find_first_char: "c \<notin> set xs \<Longrightarrow> find_str (xs @ c # ys) [c] 0 = Some (length xs)"
proof (rule find_str_first)
  assume c: "c \<notin> set xs"
  show "\<forall>i. 0 \<le> i \<and> i < length xs \<longrightarrow> take (length [c]) (drop i (xs @ c # ys)) \<noteq> [c]"
    using c by (auto simp: take_Suc hd_append hd_drop_conv_nth)
qed simp_all

lemma find_first_pair: "a \<notin> set xs \<Longrightarrow> find_str (xs @ a # b # ys) [a, b] 0 = Some (length xs)"
proof (rule find_str_first)
  assume c: "a \<notin> set xs"
  show "\<forall>i. 0 \<le> i \<and> i < length xs \<longrightarrow> take (length [a, b]) (drop i (xs @ a # b # ys)) \<noteq> [a, b]"
    using c by (auto simp: take_Suc hd_append hd_drop_conv_nth)
qed simp_all

lemma find_pair_after:
  assumes "find_str xs [a, b] 0 = None" "a \<noteq> b"
  shows "find_str (xs @ a # b # ys) [a, b] 0 = Some (length xs)"
proof (rule find_str_first)
  show "\<forall>i. 0 \<le> i \<and> i < length xs \<longrightarrow> take (length [a, b]) (drop i (xs @ a # b # ys)) \<noteq> [a, b]"
  proof (intro allI impI)
    fix i assume i: "0 \<le> i \<and> i < length xs"
    show "take (length [a, b]) (drop i (xs @ a # b # ys)) \<noteq> [a, b]"
    proof (cases "i + 2 \<le> length xs")
      case True
      then have "take 2 (drop i (xs @ a # b # ys)) = take 2 (drop i xs)" by simp
      then show ?thesis using find_str_none[OF assms(1), of i] True by (simp add: numeral_2_eq_2)
    next
      case False
      then have "drop i xs = [xs ! i]" using i by (metis Cons_nth_drop_Suc Suc_leI add_2_eq_Suc' drop_all not_less_eq_eq)
      then show ?thesis using assms(2) i by (auto simp: numeral_2_eq_2)
    qed
  qed
qed simp_all

text \<open>Encoded words with the character set UTF-8, as a sender writes them: Base64, or every byte as two hexadecimal digits.\<close>

definition hex_upper :: "nat \<Rightarrow> char" where
  "hex_upper n = ''0123456789ABCDEF'' ! n"

definition q_text :: "string \<Rightarrow> string" where
  "q_text t = concat (map (\<lambda>c. [CHR ''='', hex_upper (of_char c div 16), hex_upper (of_char c mod 16)]) t)"

definition b_text :: "string \<Rightarrow> string" where
  "b_text t = map (\<lambda>b. char_of (unat b)) (b64_rfc False False (bytes_of t))"

definition encoded_word :: "bool \<Rightarrow> string \<Rightarrow> string" where
  "encoded_word base64 t = ''=?UTF-8?'' @ (if base64 then ''B?'' @ b_text t else ''Q?'' @ q_text t) @ ''?=''"

lemma hex_upper_digit:
  assumes "n < 16"
  shows "hex_digit_of (hex_upper n) = Some (int n)" "hex_upper n \<noteq> CHR ''?''" "to_char (Ascii_toUpper (uchar (hex_upper n))) = hex_upper n"
proof -
  let ?P = "\<lambda>n. hex_digit_of (hex_upper n) = Some (int n) \<and> hex_upper n \<noteq> CHR ''?'' \<and> to_char (Ascii_toUpper (uchar (hex_upper n))) = hex_upper n"
  have "list_all ?P [0..<16]" by code_simp
  then have "?P n" unfolding list_all_iff set_upt using assms by (metis atLeastLessThan_iff le0)
  then show "hex_digit_of (hex_upper n) = Some (int n)" "hex_upper n \<noteq> CHR ''?''" "to_char (Ascii_toUpper (uchar (hex_upper n))) = hex_upper n" by simp_all
qed

lemma hex_digit_start: "hex_digit_of c = Some d \<Longrightarrow> \<not> (uchar c = 32 \<or> 9 \<le> uchar c \<and> uchar c \<le> 13) \<and> c \<noteq> CHR ''-'' \<and> c \<noteq> CHR ''+''"
  by (auto simp: hex_digit_of_def Let_def uchar_def split: if_splits)

lemma strtol16_two: "hex_digit_of a = Some x \<Longrightarrow> hex_digit_of b = Some y \<Longrightarrow> strtol16 [a, b] = x * 16 + y"
  using hex_digit_start[of a x] by (auto simp: strtol16_def Let_def)

lemma char_of_split: "to_char (int (of_char c div 16) * 16 + int (of_char c mod 16)) = c"
proof -
  have "int (of_char c div 16) * 16 + int (of_char c mod 16) = int (of_char c)" by (metis div_mult_mod_eq of_nat_add of_nat_mult of_nat_numeral)
  moreover have "(of_char c :: nat) < 256" using of_char_bounds(2)[of c] by (metis of_nat_of_char of_nat_less_iff of_nat_numeral)
  ultimately show ?thesis by (simp add: to_char_def)
qed

lemma rfc2047_q_text: "rfc2047_q (q_text t) = t"
proof (induction t)
  case (Cons c t)
  have h: "(of_char c :: nat) div 16 < 16" "(of_char c :: nat) mod 16 < 16"
    using of_char_bounds(2)[of c] by (simp_all add: less_mult_imp_div_less)
  note u = hex_upper_digit[OF h(1)] hex_upper_digit[OF h(2)]
  have "strtol16 (toUpper [hex_upper (of_char c div 16), hex_upper (of_char c mod 16)]) = int (of_char c div 16) * 16 + int (of_char c mod 16)"
    using u by (simp add: toUpper_def strtol16_two)
  then show ?case using Cons char_of_split[of c] by (simp add: q_text_def)
qed (simp add: q_text_def)

lemma q_text_mark: "CHR ''?'' \<notin> set (q_text t)"
proof (induction t)
  case (Cons c t)
  have "(of_char c :: nat) div 16 < 16" "(of_char c :: nat) mod 16 < 16" using of_char_bounds(2)[of c] by (simp_all add: less_mult_imp_div_less)
  from this[THEN hex_upper_digit(2)] show ?case using Cons by (auto simp: q_text_def)
qed (simp add: q_text_def)

lemma of_char_of_unat: "of_char (char_of (unat b) :: char) = (b :: u8)"
proof -
  have "of_char (char_of (unat b) :: char) = (of_nat (of_char (char_of (unat b) :: char)) :: u8)" by (rule of_nat_of_char[symmetric])
  also have "\<dots> = of_nat (unat b mod 256)" by (simp add: of_char_of)
  also have "unat b mod 256 = unat b" using unsigned_less[where 'a = nat, of b] by simp
  finally show ?thesis by simp
qed

lemma bytes_of_chars: "bytes_of (map (\<lambda>b. char_of (unat b)) bs) = bs"
  by (induction bs) (simp_all add: bytes_of_def of_char_of_unat)

lemma chars_of_bytes: "map (\<lambda>b. char_of (unat b)) (bytes_of t) = t"
proof -
  have "unat (of_char c :: u8) = of_char c" for c
    unfolding of_nat_of_char[symmetric, of c, where 'a = "8 word"] by (simp add: unsigned_of_nat take_bit_nat_eq_self)
  then show ?thesis by (induction t) (simp_all add: bytes_of_def)
qed

lemma b64_rfc_chars: "b \<in> set (b64_rfc False False bs) \<Longrightarrow> b \<in> set OUT_ENCODING \<union> {0x3D}"
proof -
  have "length OUT_ENCODING = 64" by (simp add: OUT_ENCODING_def bytes_of_def)
  then have d: "set (digits64 False n) \<subseteq> set OUT_ENCODING" for n by (auto simp: digits64_def b64_out_def)
  have "set (b64_rfc False False bs) \<subseteq> set OUT_ENCODING \<union> {0x3D}"
  proof (induction False False bs rule: b64_rfc.induct)
    case (1 a b c r) then show ?case using d by auto
  qed (use d in \<open>auto dest!: in_set_takeD\<close>)
  then show "b \<in> set (b64_rfc False False bs) \<Longrightarrow> ?thesis" by blast
qed

lemma b_text_mark: "CHR ''?'' \<notin> set (b_text t)"
proof
  assume "CHR ''?'' \<in> set (b_text t)"
  then obtain b :: u8 where b: "b \<in> set (b64_rfc False False (bytes_of t))" "char_of (unat b) = CHR ''?''" by (auto simp: b_text_def)
  then have "of_char (char_of (unat b) :: char) = (0x3F :: u8)" by simp
  then have "b = 0x3F" by (simp add: of_char_of_unat)
  moreover have "(0x3F :: u8) \<notin> set OUT_ENCODING \<union> {0x3D}" by (simp add: OUT_ENCODING_def bytes_of_def)
  ultimately show False using b64_rfc_chars[OF b(1)] by simp
qed

lemma b64_get_decode: "b64_decode_all d = Inr xs \<Longrightarrow> b64_get_all d = xs"
proof (induction d arbitrary: xs rule: b64_get_all.induct)
  case (1 d)
  then show ?case
    by (subst b64_get_all.simps, subst (asm) (2) b64_decode_all.simps) (auto split: sum.splits prod.splits option.splits simp: rbind_eq_Inr)
qed

lemma b_text_get: "map (\<lambda>b. char_of (unat b)) (b64_get_all (b64dec_new False False (bytes_of (b_text t)))) = t"
proof -
  have "b64_body False 0 p bs = b64_raw False bs" for p bs by (induction False bs arbitrary: p rule: b64_raw.induct) auto
  then have "strip False (b64_raw False bs) = b64_raw False bs" for bs using strip_body[of False 0 0 bs] by simp
  then have s: "strip False (b64_rfc False False bs) = b64_rfc False False bs" for bs
    unfolding b64_raw_rfc[symmetric] strip_append strip_tail by simp
  have "b64_decode_all (b64dec_new False False (b64_rfc False False (bytes_of t))) = Inr (bytes_of t)"
    unfolding b64_decode_new s unfolding b64_raw_rfc[symmetric] by (rule b64_spec_raw)
  then show ?thesis by (simp add: b_text_def bytes_of_chars b64_get_decode chars_of_bytes)
qed

lemma word_tokens:
  assumes "CHR ''?'' \<notin> set t" "e = ''B'' \<or> e = ''Q''"
  shows "StringTokenizer (''UTF-8?'' @ e @ ''?'' @ t) ''?'' 0 = [''UTF-8'', e, t]"
proof -
  let ?s = "''UTF-8?'' @ e @ ''?'' @ t"
  have "split_fields ''?'' (concat (map (\<lambda>d. d @ ''?'') [''UTF-8'', e]) @ t) = [''UTF-8'', e] @ [t]"
    using assms by (intro fields_print) auto
  then have "split_fields ''?'' ?s = [''UTF-8'', e, t]" by simp
  then show ?thesis using tok_loop_fields[of False False "''?''" False ?s "[]" "[]"] by (simp add: StringTokenizer_def keep_def)
qed

lemma upper_names: "toUpper ''UTF-8'' = ''UTF-8''" "toUpper ''B'' = ''B''" "toUpper ''Q'' = ''Q''"
  by code_simp+

lemma decode_word_content:
  "decodeRFC2047 conv (''UTF-8?'' @ (if base64 then ''B?'' @ b_text t else ''Q?'' @ q_text t)) ''UTF-8'' = Inr t"
proof (cases base64)
  case True
  then show ?thesis using word_tokens[OF b_text_mark, of "''B''" t] by (simp add: decodeRFC2047_def tok_index_def upper_names b_text_get)
next
  case False
  then show ?thesis using word_tokens[OF q_text_mark, of "''Q''" t] by (simp add: decodeRFC2047_def tok_index_def upper_names rfc2047_q_text)
qed

lemma loop_prefix: "decodeWord_loop conv charset outs (pre @ s) (Some (length pre)) = decodeWord_loop conv charset (outs @ pre) s (Some 0)"
  by (subst (1 2) decodeWord_loop.simps) (simp add: add.commute numeral_2_eq_2)

abbreviation blanks :: string where
  "blanks \<equiv> [CHR '' '', CHR 0x09, CHR 0x0B, CHR 0x0A]"

lemma loop_word:
  "decodeWord_loop conv ''UTF-8'' outs (encoded_word base64 t @ s) (Some 0) =
    (case find_str s ''=?'' 0 of
       None \<Rightarrow> Inr (outs @ t @ s)
     | Some p \<Rightarrow>
         if find_first_not_of (take p s) blanks = None then decodeWord_loop conv ''UTF-8'' (outs @ t) (drop p s) (Some 0)
         else decodeWord_loop conv ''UTF-8'' (outs @ t) s (Some p))"
proof -
  define e where "e = (if base64 then CHR ''B'' else CHR ''Q'')"
  define x where "x = (if base64 then b_text t else q_text t)"
  define c where "c = ''UTF-8?'' @ [e] @ ''?'' @ x"
  have x: "CHR ''?'' \<notin> set x" using b_text_mark q_text_mark by (simp add: x_def)
  have w: "encoded_word base64 t @ s = ''=?'' @ c @ ''?='' @ s" by (simp add: encoded_word_def e_def x_def c_def)
  have e: "e \<noteq> CHR ''?''" by (simp add: e_def)
  have p1: "find_str (c @ ''?='' @ s) ''?'' 0 = Some 5"
    using find_first_char[of "CHR ''?''" "''UTF-8''" "e # CHR ''?'' # x @ ''?='' @ s"] by (simp add: c_def)
  have "find_str (''UTF-8?'' @ [e] @ CHR ''?'' # x @ ''?='' @ s) ''?'' (length ''UTF-8?'' + 0) = Some 7"
    unfolding find_str_shift using find_first_char[of "CHR ''?''" "[e]" "x @ ''?='' @ s"] e by simp
  then have p2: "find_str (c @ ''?='' @ s) ''?'' (5 + 1) = Some 7" by (simp add: c_def eval_nat_numeral)
  have "find_str ((''UTF-8?'' @ [e] @ ''?'') @ x @ CHR ''?'' # CHR ''='' # s) ''?='' (length (''UTF-8?'' @ [e] @ ''?'') + 0) = Some (length c)"
    unfolding find_str_shift using find_first_pair[OF x, of "CHR ''=''" s] by (simp add: c_def)
  then have p3: "find_str (c @ ''?='' @ s) ''?='' (7 + 1) = Some (length c)" by (simp add: c_def eval_nat_numeral)
  have d: "decodeRFC2047 conv c ''UTF-8'' = Inr t"
    using decode_word_content[of conv base64 t] by (simp add: c_def e_def x_def split: if_splits)
  have n: "decodeWord_loop conv ''UTF-8'' o' s None = Inr (o' @ s)" for o' by (simp add: decodeWord_loop.simps)
  show ?thesis unfolding w
    by (subst decodeWord_loop.simps) (simp add: p1[simplified] p2[simplified] p3[simplified] d n Let_def split: option.split)
qed

lemma loop_words:
  assumes "find_str post ''=?'' 0 = None" "list_all (\<lambda>(sep, base64, t). set sep \<subseteq> set blanks) ws"
  shows "decodeWord_loop conv ''UTF-8'' outs (encoded_word b0 t0 @ concat (map (\<lambda>(sep, b, t). sep @ encoded_word b t) ws) @ post) (Some 0) =
    Inr (outs @ t0 @ concat (map (\<lambda>(sep, b, t). t) ws) @ post)"
  using assms(2)
proof (induction ws arbitrary: outs b0 t0)
  case Nil
  then show ?case by (simp add: loop_word assms(1))
next
  case (Cons w ws)
  obtain sep b t where w: "w = (sep, b, t)" by (metis prod_cases3)
  define r where "r = concat (map (\<lambda>(sep, b, t). sep @ encoded_word b t) ws) @ post"
  have sep: "set sep \<subseteq> set blanks" using Cons.prems w by simp
  then have "CHR ''='' \<notin> set sep" by auto
  then have f: "find_str (sep @ encoded_word b t @ r) ''=?'' 0 = Some (length sep)"
    using find_first_pair[of "CHR ''=''" sep "CHR ''?''"] by (simp add: encoded_word_def)
  have "takeWhile (\<lambda>c. c \<in> set blanks) sep = sep" using sep by (intro takeWhile_eq_all_conv[THEN iffD2]) auto
  then have b: "find_first_not_of sep blanks = None" unfolding find_first_not_of_def by (simp only: Let_def less_irrefl if_False)
  have "decodeWord_loop conv ''UTF-8'' outs (encoded_word b0 t0 @ sep @ encoded_word b t @ r) (Some 0) =
      decodeWord_loop conv ''UTF-8'' (outs @ t0) (encoded_word b t @ r) (Some 0)"
    unfolding loop_word[of conv outs b0 t0] f using b by simp
  also have "\<dots> = Inr ((outs @ t0) @ t @ concat (map (\<lambda>(sep, b, t). t) ws) @ post)"
    unfolding r_def using Cons by simp
  finally show ?case by (simp add: w r_def)
qed

text \<open>
  Encoded words of RFC 2047 in UTF-8, in Base64 or with hexadecimal digits, are replaced by the text they encode, the white space between two of
  them is dropped, and text without \<^verbatim>\<open>=?\<close> before and behind them is kept.
\<close>

theorem encoded_words_decode:
  assumes "find_str pre ''=?'' 0 = None" "find_str post ''=?'' 0 = None" "list_all (\<lambda>(sep, base64, t). set sep \<subseteq> set blanks) ws"
  shows "decodeWord conv (pre @ encoded_word b0 t0 @ concat (map (\<lambda>(sep, b, t). sep @ encoded_word b t) ws) @ post) ''UTF-8'' =
    Inr (pre @ t0 @ concat (map (\<lambda>(sep, b, t). t) ws) @ post)"
proof -
  let ?r = "encoded_word b0 t0 @ concat (map (\<lambda>(sep, b, t). sep @ encoded_word b t) ws) @ post"
  have "find_str (pre @ ?r) ''=?'' 0 = Some (length pre)"
    using find_pair_after[OF assms(1)] by (simp add: encoded_word_def)
  then show ?thesis unfolding decodeWord_def using loop_words[OF assms(2,3)] by (simp add: loop_prefix)
qed

theorem encoded_words_decode_witness:
  "decodeWord (\<lambda>_ _ _. None) (''Re: '' @ encoded_word True ''ab'' @ '' '' @ encoded_word False ''cd'' @ ''!'') ''UTF-8'' = Inr ''Re: abcd!''"
  using encoded_words_decode[of "''Re: ''" "''!''" "[('' '', False, ''cd'')]" "\<lambda>_ _ _. None" True "''ab''"]
  by (simp add: find_str.simps)

text \<open>
  Text that only looks like the start of an encoded word is damaged: the two characters \<^verbatim>\<open>=?\<close> are lost.
\<close>

lemma decodeWord_drops: "CHR ''?'' \<notin> set s \<Longrightarrow> find_str pre ''=?'' 0 = None \<Longrightarrow> decodeWord conv (pre @ ''=?'' @ s) ''UTF-8'' = Inr (pre @ s)"
proof -
  assume s: "CHR ''?'' \<notin> set s" and pre: "find_str pre ''=?'' 0 = None"
  have "find_str s ''?'' 0 = None" using s by (simp add: find_char_None)
  then have "decodeWord_loop conv ''UTF-8'' pre (''=?'' @ s) (Some 0) = Inr (pre @ s)" by (simp add: decodeWord_loop.simps)
  then show ?thesis using find_pair_after[OF pre, of s] by (simp add: decodeWord_def loop_prefix)
qed

text \<open>Decoding never fails: what it hands on has the three parts that are taken from it.\<close>

lemma fields_count: "length (split_fields [c] s) = Suc (count_list s c)"
proof (induction s)
  case (Cons x s)
  then show ?case using fields_nonempty[of "[c]" s] by (cases "split_fields [c] s") auto
qed simp

lemma count_two: "i < j \<Longrightarrow> j < length xs \<Longrightarrow> xs ! i = c \<Longrightarrow> xs ! j = c \<Longrightarrow> 2 \<le> count_list xs c"
proof -
  assume a: "i < j" "j < length xs" "xs ! i = c" "xs ! j = c"
  have e: "xs = take i xs @ c # drop (Suc i) xs" using a by (metis id_take_nth_drop order.strict_trans)
  have "c \<in> set (drop (Suc i) xs)" using a by (auto simp: in_set_conv_nth intro!: exI[of _ "j - Suc i"])
  then have "0 < count_list (drop (Suc i) xs) c" by (metis count_list_0_iff neq0_conv)
  then show ?thesis using arg_cong[OF e, of "\<lambda>x. count_list x c"] by simp
qed

lemma decodeRFC2047_total: "2 \<le> count_list ins CHR ''?'' \<Longrightarrow> \<exists>r. decodeRFC2047 conv ins charset = Inr r"
proof -
  assume c: "2 \<le> count_list ins CHR ''?''"
  then have "ins \<noteq> []" by auto
  then have "StringTokenizer ins ''?'' 0 = split_fields ''?'' ins"
    using tok_loop_fields[of False False "''?''" False ins "[]" "[]"] fields_nonempty[of "''?''" ins] by (simp add: StringTokenizer_def keep_def)
  then have "3 \<le> length (StringTokenizer ins ''?'' 0)" using fields_count[of "CHR ''?''" ins] c by simp
  then show ?thesis by (auto simp: decodeRFC2047_def tok_index_def Let_def)
qed

lemma decodeWord_loop_total: "\<exists>r. decodeWord_loop conv charset outs tmp pos = Inr r"
proof (induction "length tmp" arbitrary: outs tmp pos rule: less_induct)
  case less
  show ?case
  proof (cases pos)
    case None then show ?thesis by (simp add: decodeWord_loop.simps)
  next
    case (Some p)
    define outs' where "outs' = (if p > 0 then outs @ take p tmp else outs)"
    define t where "t = drop (p + 2) tmp"
    note eq = decodeWord_loop.simps[of conv charset outs tmp pos, unfolded Some option.case Let_def, folded t_def outs'_def]
    show ?thesis
    proof (cases "\<exists>p1 p2 p3. find_str t ''?'' 0 = Some p1 \<and> find_str t ''?'' (p1 + 1) = Some p2 \<and> find_str t ''?='' (p2 + 1) = Some p3")
      case False
      then show ?thesis unfolding Some eq by (auto split: option.split)
    next
      case True
      then obtain p1 p2 p3 where f: "find_str t ''?'' 0 = Some p1" "find_str t ''?'' (p1 + 1) = Some p2" "find_str t ''?='' (p2 + 1) = Some p3" by blast
      have "p1 < p2" "p2 < p3" "p3 \<le> length t" "t ! p1 = CHR ''?''" "t ! p2 = CHR ''?''"
        using find_char_nth[OF f(1)] find_char_nth[OF f(2)] find_str_bounds[OF f(3)] by auto
      then have "2 \<le> count_list (take p3 t) CHR ''?''" by (intro count_two[of p1 p2]) auto
      then obtain r where r: "decodeRFC2047 conv (take p3 t) charset = Inr r" using decodeRFC2047_total by blast
      have "t \<noteq> []" using \<open>p2 < p3\<close> \<open>p3 \<le> length t\<close> by auto
      then have l: "length (drop k t) < length tmp" if "0 < k" for k using that by (auto simp: t_def)
      have "\<exists>x. decodeWord_loop conv charset o' (drop (p3 + 2) t) q = Inr x" for o' q using l[of "p3 + 2"] by (intro less) simp
      moreover have "\<exists>x. decodeWord_loop conv charset o' (drop k (drop (p3 + 2) t)) q = Inr x" for o' q k
        using l[of "k + (p3 + 2)"] by (intro less) simp
      ultimately show ?thesis unfolding Some eq using r f by (simp split: option.split)
    qed
  qed
qed

lemma decodeWord_total: "\<exists>r. decodeWord conv v charset = Inr r"
  by (simp add: decodeWord_def decodeWord_loop_total)

text \<open>So the only exception of reading a header is that of a malformed or too long header.\<close>

lemma mh_eol_error: "mh_eol s = Inl e \<Longrightarrow> e = MessageException"
  by (auto simp: mh_eol_def Let_def split: list.splits if_splits)

lemma mh_fold_error: "mh_fold limit v s = Inl e \<Longrightarrow> e = MessageException"
proof (induction limit v s rule: mh_fold.induct)
  case (1 limit v s)
  show ?case
  proof (cases "s \<noteq> [] \<and> blank (hd s)")
    case False then show ?thesis using 1(2) by (subst (asm) mh_fold.simps) (auto simp: blank_def split: list.splits if_splits)
  next
    case True
    then obtain ch t where c: "s = ch # t" "ch = CHR '' '' \<or> ch = CHR 0x09" by (cases s) (auto simp: blank_def)
    obtain w u where t: "mh_take crlf limit v s = (w, u)" by fastforce
    show ?thesis
    proof (cases "mh_eol u")
      case (Inl a) then show ?thesis using 1(2) c t mh_eol_error[of u a] by (subst (asm) mh_fold.simps) auto
    next
      case (Inr u')
      then have "mh_fold limit w u' = Inl e" using 1(2) c t by (subst (asm) mh_fold.simps) auto
      then show ?thesis using 1(1)[OF c t[symmetric] Inr] by blast
    qed
  qed
qed

lemma mh_value_error: "mh_value limit s = Inl e \<Longrightarrow> e = MessageException"
  by (auto simp: mh_value_def Let_def rbind_def split: prod.splits sum.splits dest: mh_eol_error mh_fold_error)

lemma read_loop_end:
  "mh_read_loop conv h k s = (h', r) \<Longrightarrow> (case r of Inl e \<Rightarrow> e = MessageException | Inr t \<Rightarrow> length t \<le> length s)"
proof (induction "length s" arbitrary: h k s rule: less_induct)
  case less
  show ?case
  proof (cases "s = [] \<or> crlf (hd s) \<or> (h_fieldLimit h > 0 \<and> k = h_fieldLimit h)")
    case True then show ?thesis using less(2) by (subst (asm) mh_read_loop.simps) (auto split: list.splits if_splits)
  next
    case False
    then obtain ch t where c: "s = ch # t" "\<not> crlf ch" by (cases s) auto
    have k: "\<not> (h_fieldLimit h > 0 \<and> k = h_fieldLimit h)" using False by auto
    obtain name u where nu: "mh_take (\<lambda>c. c = CHR '':'' \<or> c = LF) (h_nameLengthLimit h) [] s = (name, u)" by fastforce
    note eq = less(2)[unfolded mh_read_loop.simps[of conv h k s] nu prod.case]
    note l = mh_take_length[OF nu]
    show ?thesis
    proof (cases u)
      case Nil then show ?thesis using eq c k by (auto split: if_splits)
    next
      case (Cons x s2)
      consider (lf) "x = LF" | (bad) "x \<noteq> LF" "x \<noteq> CHR '':''" | (colon) "x = CHR '':''" by blast
      then show ?thesis
      proof cases
        case lf
        then have "mh_read_loop conv h k s2 = (h', r)" using eq c k Cons by (auto split: if_splits)
        then show ?thesis using less(1)[of s2 h k] l Cons by (fastforce split: sum.splits)
      next
        case bad then show ?thesis using eq c k Cons by (auto split: if_splits)
      next
        case colon
        show ?thesis
        proof (cases "mh_value (h_valueLengthLimit h) s2")
          case (Inl a) then show ?thesis using eq c k Cons colon mh_value_error[OF Inl] by (auto split: if_splits)
        next
          case (Inr p)
          obtain v s3 where p: "p = (v, s3)" by (cases p)
          obtain w where w: "(if h_autoDecode h then decodeWord conv (trimRight v) ''UTF-8'' else Inr (trimRight v)) = Inr w"
            using decodeWord_total[of conv "trimRight v" "''UTF-8''"] by (cases "h_autoDecode h") auto
          have "mh_read_loop conv (h\<lparr>h_fields := nvc_add name w (h_fields h)\<rparr>) (k + 1) s3 = (h', r)"
            using eq c k Cons colon Inr p w by (auto split: if_splits)
          moreover have "length s3 < length s" using mh_value_length[of "h_valueLengthLimit h" s2 v s3] l Cons Inr p by simp
          ultimately show ?thesis using less(1)[of s3 "h\<lparr>h_fields := nvc_add name w (h_fields h)\<rparr>" "k + 1"] by (fastforce split: sum.splits)
        qed
      qed
    qed
  qed
qed

lemma read_error: "mh_read conv h s = (h', Inl e) \<Longrightarrow> e = MessageException"
  using read_loop_end by (fastforce simp: mh_read_def split: prod.splits sum.splits)

lemma read_rest: "mh_read conv h s = (h', Inr t) \<Longrightarrow> length t \<le> length s"
  using read_loop_end by (fastforce simp: mh_read_def split: prod.splits sum.splits)

end
