(* ===== verification/FieldVals.thy ===== *)
theory FieldVals
  imports MsgHeader
begin

text \<open>
  What stands in a header field: the lists and parameters that \<^verbatim>\<open>MessageHeader.cpp\<close> takes apart, and \<^verbatim>\<open>MediaType.cpp\<close>.  A string is read through an
  iterator; what is left of it is the rest of the string.
\<close>

section \<open>Elements, parameters and quoting\<close>

text \<open>The loop inside double quotes, which both functions have: it stops at the closing quote.\<close>

fun mh_quoted :: "string \<Rightarrow> string \<times> string" where
  "mh_quoted [] = ([], [])"
| "mh_quoted (c # s) =
    (if c = CHR 0x22 then ([], c # s)
     else if c = CHR 0x5C then (case s of [] \<Rightarrow> ([], []) | d # r \<Rightarrow> let (t, u) = mh_quoted r in (d # t, u))
     else let (t, u) = mh_quoted s in (c # t, u))"

lemma mh_quoted_length: "mh_quoted s = (t, u) \<Longrightarrow> length u \<le> length s"
  by (induction s arbitrary: t u rule: mh_quoted.induct) (fastforce split: if_splits list.splits prod.splits)+

definition se_push :: "bool \<Rightarrow> string \<Rightarrow> string list \<Rightarrow> string list" where
  "se_push ignoreEmpty elem elements =
    (let elem = trimInPlace elem in if \<not> ignoreEmpty \<or> elem \<noteq> [] then elements @ [elem] else elements)"

function se_loop :: "bool \<Rightarrow> string list \<Rightarrow> string \<Rightarrow> string \<Rightarrow> string list" where
  "se_loop ignoreEmpty elements elem s =
    (case s of
       [] \<Rightarrow> if elem \<noteq> [] then se_push ignoreEmpty elem elements else elements
     | c # s \<Rightarrow>
         if c = CHR 0x22 then
           (case mh_quoted s of
              (t, []) \<Rightarrow> se_loop ignoreEmpty elements (elem @ c # t) []
            | (t, q # r) \<Rightarrow> se_loop ignoreEmpty elements (elem @ c # t @ [q]) r)
         else if c = CHR 0x5C then
           (case s of [] \<Rightarrow> se_loop ignoreEmpty elements elem [] | d # r \<Rightarrow> se_loop ignoreEmpty elements (elem @ [d]) r)
         else if c = CHR '','' then se_loop ignoreEmpty (se_push ignoreEmpty elem elements) [] s
         else se_loop ignoreEmpty elements (elem @ [c]) s)"
  by pat_completeness auto
termination
proof (relation "measure (\<lambda>(i, es, e, s). length s)")
  fix i es e s c s' p t u q r
  assume a: "s = (c :: char) # s'" "(t, u) = mh_quoted s'" "u = q # r"
  then show "((i, es, e @ c # t @ [q], r), i, es, e, s) \<in> measure (\<lambda>(i, es, e, s). length s)"
    using mh_quoted_length[of s' t u] by simp
qed auto

declare se_loop.simps [simp del]

definition splitElements :: "string \<Rightarrow> bool \<Rightarrow> string list" where
  "splitElements s ignoreEmpty = se_loop ignoreEmpty [] [] s"

definition hasToken :: "string \<Rightarrow> string \<Rightarrow> nvc \<Rightarrow> bool" where
  "hasToken fieldName token m = list_ex (\<lambda>t. icompare t token = 0) (splitElements (nvc_get_default fieldName [] m) True)"

text \<open>The value of a parameter, up to a semicolon.\<close>

function sp_value :: "string \<Rightarrow> string \<times> string" where
  "sp_value s =
    (case s of
       [] \<Rightarrow> ([], [])
     | c # r \<Rightarrow>
         if c = CHR '';'' then ([], s)
         else if c = CHR 0x22 then (case mh_quoted r of (t, u) \<Rightarrow> case sp_value (drop 1 u) of (v, w) \<Rightarrow> (t @ v, w))
         else if c = CHR 0x5C then
           (case r of [] \<Rightarrow> ([], []) | d # r \<Rightarrow> case sp_value r of (v, w) \<Rightarrow> (d # v, w))
         else (case sp_value r of (v, w) \<Rightarrow> (c # v, w)))"
  by pat_completeness auto
termination
proof (relation "measure length")
  fix s c r t u
  assume "s = (c :: char) # r" "(t, u) = mh_quoted r"
  then show "(drop 1 u, s) \<in> measure length" using mh_quoted_length[of r t u] by simp
qed auto

declare sp_value.simps [simp del]

lemma sp_value_length: "sp_value s = (v, w) \<Longrightarrow> length w \<le> length s"
proof (induction s arbitrary: v w rule: sp_value.induct)
  case (1 s)
  show ?case
  proof (cases s)
    case Nil then show ?thesis using 1(4) by (simp add: sp_value.simps)
  next
    case (Cons c r)
    obtain t u where q: "mh_quoted r = (t, u)" by fastforce
    note ih = 1(1)[OF Cons _ _ q[symmetric]] and ih2 = 1(2)[OF Cons] and ih3 = 1(3)[OF Cons]
    show ?thesis using 1(4) Cons q mh_quoted_length[OF q] ih ih2 ih3
      by (subst (asm) sp_value.simps) (fastforce split: if_splits list.splits prod.splits)
  qed
qed

function sp_loop :: "string \<Rightarrow> nvc \<Rightarrow> nvc" where
  "sp_loop s parameters =
    (if s = [] then parameters
     else
       let s1 = dropWhile space s;
           pname = trimRight (takeWhile (\<lambda>c. c \<noteq> CHR ''='' \<and> c \<noteq> CHR '';'') s1);
           s2 = dropWhile (\<lambda>c. c \<noteq> CHR ''='' \<and> c \<noteq> CHR '';'') s1;
           s3 = (case s2 of c # r \<Rightarrow> if c \<noteq> CHR '';'' then r else s2 | [] \<Rightarrow> s2)
       in case sp_value (dropWhile space s3) of
            (pvalue, s5) \<Rightarrow>
              sp_loop (drop 1 s5) (if pname \<noteq> [] then nvc_add pname (trimRight pvalue) parameters else parameters))"
  by pat_completeness auto
termination
proof (relation "measure (\<lambda>(s, p). length s)")
  fix s p s1 pn s2 s3 pv s5 p'
  assume a: "s \<noteq> []" "s1 = dropWhile space s" "s2 = dropWhile (\<lambda>c. c \<noteq> CHR ''='' \<and> c \<noteq> CHR '';'') s1"
    "s3 = (case s2 of [] \<Rightarrow> s2 | c # r \<Rightarrow> if c \<noteq> CHR '';'' then r else s2)" "(pv, s5) = sp_value (dropWhile space s3)"
  have "length s1 \<le> length s" "length s2 \<le> length s1" using a(2,3) by (simp_all add: length_dropWhile_le)
  moreover have "length s3 \<le> length s2" using a(4) by (auto split: list.splits)
  moreover have "length s5 \<le> length s3" using sp_value_length[OF a(5)[symmetric]] length_dropWhile_le[of space s3] by linarith
  ultimately have "length (drop 1 s5) < length s" using a(1) by (cases s) auto
  then show "((drop 1 s5, p'), s, p) \<in> measure (\<lambda>(s, p). length s)" by simp
qed simp

declare sp_loop.simps [simp del]

definition splitParameters :: "string \<Rightarrow> string \<times> nvc" where
  "splitParameters s =
    (let s1 = dropWhile space s;
         v = trimRight (takeWhile (\<lambda>c. c \<noteq> CHR '';'') s1);
         s2 = dropWhile (\<lambda>c. c \<noteq> CHR '';'') s1
     in (v, sp_loop (drop 1 s2) []))"

definition mh_quote :: "string \<Rightarrow> bool \<Rightarrow> string" where
  "mh_quote v allowSpace =
    (let mustQuote = list_ex (\<lambda>c. \<not> isAlphaNumeric (schar c) \<and> c \<noteq> CHR ''.'' \<and> c \<noteq> CHR ''_'' \<and> c \<noteq> CHR ''-'' \<and> \<not> (space c \<and> allowSpace)) v
     in if mustQuote then CHR 0x22 # v @ [CHR 0x22] else v)"

section \<open>MediaType\<close>

record mediatype =
  m_type :: string
  m_subType :: string
  m_parameters :: nvc

definition mt_setParameter :: "string \<Rightarrow> string \<Rightarrow> mediatype \<Rightarrow> mediatype" where
  "mt_setParameter name v m = m\<lparr>m_parameters := nvc_set name v (m_parameters m)\<rparr>"

definition mt_removeParameter :: "string \<Rightarrow> mediatype \<Rightarrow> mediatype" where
  "mt_removeParameter name m = m\<lparr>m_parameters := nvc_erase name (m_parameters m)\<rparr>"

definition mt_toString :: "mediatype \<Rightarrow> string" where
  "mt_toString m = m_type m @ ''/'' @ m_subType m @ concat (map (\<lambda>(name, v). ''; '' @ name @ ''='' @ mh_quote v False) (m_parameters m))"

definition mt_matches :: "mediatype \<Rightarrow> mediatype \<Rightarrow> bool" where
  "mt_matches m m' \<longleftrightarrow> icompare (m_type m) (m_type m') = 0 \<and> icompare (m_subType m) (m_subType m') = 0"

definition mt_matchesRange :: "mediatype \<Rightarrow> mediatype \<Rightarrow> bool" where
  "mt_matchesRange m m' \<longleftrightarrow>
    (if m_type m = ''*'' \<or> m_type m' = ''*'' \<or> icompare (m_type m) (m_type m') = 0
     then m_subType m = ''*'' \<or> m_subType m' = ''*'' \<or> icompare (m_subType m) (m_subType m') = 0
     else False)"

definition mt_parse :: "string \<Rightarrow> mediatype" where
  "mt_parse s =
    (let s1 = dropWhile space s;
         t = takeWhile (\<lambda>c. c \<noteq> CHR ''/'') s1;
         s2 = drop 1 (dropWhile (\<lambda>c. c \<noteq> CHR ''/'') s1);
         st = takeWhile (\<lambda>c. c \<noteq> CHR '';'' \<and> \<not> space c) s2;
         s3 = dropWhile (\<lambda>c. c \<noteq> CHR '';'' \<and> \<not> space c) s2;
         s4 = drop 1 (dropWhile (\<lambda>c. c \<noteq> CHR '';'') s3)
     in \<lparr>m_type = t, m_subType = st, m_parameters = sp_loop s4 []\<rparr>)"

section \<open>Parameters are read back\<close>

abbreviation plain :: "char \<Rightarrow> bool" where
  "plain c \<equiv> isAlphaNumeric (schar c) \<or> c = CHR ''.'' \<or> c = CHR ''_'' \<or> c = CHR ''-''"

lemma special_not_plain: "plain c \<Longrightarrow> c \<noteq> CHR 0x22 \<and> c \<noteq> CHR 0x5C \<and> c \<noteq> CHR '';'' \<and> \<not> space c"
proof -
  assume p: "plain c"
  have "\<not> plain CHR 0x22" "\<not> plain CHR 0x5C" "\<not> plain CHR '';''" by code_simp+
  moreover have "\<not> space c"
  proof (cases "isAlphaNumeric (schar c)")
    case True
    note t = ascii_table_all[OF schar_range, of c]
    from t True have "in_span 48 57 (schar c) \<or> in_span 65 90 (schar c) \<or> in_span 97 122 (schar c)" by blast
    moreover from t have "space c \<longleftrightarrow> in_span 9 13 (schar c) \<or> schar c = 32" by blast
    ultimately show ?thesis unfolding in_span_def by linarith
  next
    case False
    moreover have "\<not> space CHR ''.''" "\<not> space CHR ''_''" "\<not> space CHR ''-''" by code_simp+
    ultimately show ?thesis using p by auto
  qed
  ultimately show ?thesis using p by metis
qed

lemma not_spaces [simp]: "\<not> space CHR '';''" "\<not> space CHR 0x22" "\<not> space CHR ''/''" "space CHR '' ''"
  by code_simp+

lemma mh_quoted_text: "list_all (\<lambda>c. c \<noteq> CHR 0x22 \<and> c \<noteq> CHR 0x5C) v \<Longrightarrow> mh_quoted (v @ CHR 0x22 # s) = (v, CHR 0x22 # s)"
  by (induction v) simp_all

lemma sp_value_end: "s = [] \<or> hd s = CHR '';'' \<Longrightarrow> sp_value s = ([], s)"
  by (cases s; subst sp_value.simps; simp)

lemma sp_value_plain: "list_all plain v \<Longrightarrow> s = [] \<or> hd s = CHR '';'' \<Longrightarrow> sp_value (v @ s) = (v, s)"
proof (induction v)
  case Nil then show ?case by (simp add: sp_value_end)
next
  case (Cons c v)
  then show ?case using special_not_plain[of c] by (subst sp_value.simps) simp
qed

lemma sp_value_quote:
  assumes "list_all (\<lambda>c. c \<noteq> CHR 0x22 \<and> c \<noteq> CHR 0x5C) v" "s = [] \<or> hd s = CHR '';''"
  shows "sp_value (mh_quote v False @ s) = (v, s)" "dropWhile space (mh_quote v False @ s) = mh_quote v False @ s"
proof -
  show "sp_value (mh_quote v False @ s) = (v, s)"
  proof (cases "list_all plain v")
    case True
    then have "mh_quote v False = v" by (auto simp: mh_quote_def Let_def list_ex_iff list_all_iff)
    then show ?thesis using sp_value_plain[OF True assms(2)] by simp
  next
    case False
    then have "mh_quote v False = CHR 0x22 # v @ [CHR 0x22]" by (auto simp: mh_quote_def Let_def list_ex_iff list_all_iff)
    then show ?thesis using assms by (subst sp_value.simps) (simp add: mh_quoted_text sp_value_end)
  qed
  show "dropWhile space (mh_quote v False @ s) = mh_quote v False @ s"
  proof (rule dropWhile_hd)
    show "mh_quote v False @ s = [] \<or> \<not> space (hd (mh_quote v False @ s))"
    proof (cases "list_all plain v")
      case True
      then have "mh_quote v False = v" by (auto simp: mh_quote_def Let_def list_ex_iff list_all_iff)
      then show ?thesis using True assms(2) special_not_plain[of "hd v"] by (cases v) auto
    next
      case False
      then have "mh_quote v False = CHR 0x22 # v @ [CHR 0x22]" by (auto simp: mh_quote_def Let_def list_ex_iff list_all_iff)
      then show ?thesis by simp
    qed
  qed
qed

definition trimmed :: "string \<Rightarrow> bool" where
  "trimmed s \<longleftrightarrow> s = [] \<or> \<not> space (hd s) \<and> \<not> space (last s)"

definition param_ok :: "string \<times> string \<Rightarrow> bool" where
  "param_ok p = (case p of (name, v) \<Rightarrow>
    name \<noteq> [] \<and> trimmed name \<and> list_all (\<lambda>c. c \<noteq> CHR ''='' \<and> c \<noteq> CHR '';'') name \<and>
    list_all (\<lambda>c. c \<noteq> CHR 0x22 \<and> c \<noteq> CHR 0x5C) v \<and> (v = [] \<or> \<not> space (last v)))"

definition param_text :: "(string \<times> string) list \<Rightarrow> string" where
  "param_text ps = concat (map (\<lambda>(name, v). ''; '' @ name @ ''='' @ mh_quote v False) ps)"

lemma param_text_hd: "param_text ps = [] \<or> hd (param_text ps) = CHR '';''"
  by (cases ps) (auto simp: param_text_def)

lemma sp_loop_params: "list_all param_ok ps \<Longrightarrow> sp_loop (drop 1 (param_text ps)) m = fold (\<lambda>(name, v). nvc_add name v) ps m"
proof (induction ps arbitrary: m)
  case Nil then show ?case by (simp add: param_text_def sp_loop.simps)
next
  case (Cons p ps)
  obtain name v where p: "p = (name, v)" by (cases p)
  have ok: "name \<noteq> []" "\<not> space (hd name)" "trimRight name = name" "list_all (\<lambda>c. c \<noteq> CHR ''='' \<and> c \<noteq> CHR '';'') name"
    "list_all (\<lambda>c. c \<noteq> CHR 0x22 \<and> c \<noteq> CHR 0x5C) v" "trimRight v = v"
    using Cons.prems p by (auto simp: param_ok_def trimmed_def intro!: trimRight_id)
  let ?q = "mh_quote v False @ param_text ps"
  have t: "drop 1 (param_text (p # ps)) = CHR '' '' # name @ CHR ''='' # ?q" by (simp add: param_text_def p)
  have "dropWhile space (CHR '' '' # name @ CHR ''='' # ?q) = name @ CHR ''='' # ?q" using ok(1,2) by (cases name) simp_all
  moreover have "takeWhile (\<lambda>c. c \<noteq> CHR ''='' \<and> c \<noteq> CHR '';'') (name @ CHR ''='' # ?q) = name"
    "dropWhile (\<lambda>c. c \<noteq> CHR ''='' \<and> c \<noteq> CHR '';'') (name @ CHR ''='' # ?q) = CHR ''='' # ?q"
    using ok(4) by (simp_all add: list_all_iff takeWhile_append2 dropWhile_append2)
  ultimately have "sp_loop (CHR '' '' # name @ CHR ''='' # ?q) m = sp_loop (drop 1 (param_text ps)) (nvc_add name v m)"
    using sp_value_quote[OF ok(5) param_text_hd, of ps] ok by (subst sp_loop.simps) (simp add: Let_def)
  then show ?case unfolding t using Cons p by simp
qed

lemma fold_add_pairs: "grouped (m @ ps) \<Longrightarrow> fold (\<lambda>(name, v). nvc_add name v) ps m = m @ ps"
proof (induction ps arbitrary: m)
  case (Cons p ps)
  have "grouped ((m @ [p]) @ ps)" using Cons.prems by simp
  moreover have "nvc_add (fst p) (snd p) m = m @ [p]" using grouped_prefix[OF calculation] by (simp add: nvc_add_def insert_end)
  ultimately show ?case using Cons.IH[of "m @ [p]"] by (simp add: case_prod_beta)
qed simp

text \<open>
  A media type is parsed back from its text form: type, subtype and the parameters in their order, with values that need quotes, for all values without
  double quotes and backslashes that do not end in white space.
\<close>

theorem mediatype_roundtrip:
  assumes "list_all (\<lambda>c. c \<noteq> CHR ''/'') (m_type m)" "m_type m = [] \<or> \<not> space (hd (m_type m))"
    "list_all (\<lambda>c. c \<noteq> CHR '';'' \<and> \<not> space c) (m_subType m)" "list_all param_ok (m_parameters m)" "grouped (m_parameters m)"
  shows "mt_parse (mt_toString m) = m"
proof -
  let ?p = "param_text (m_parameters m)"
  let ?s = "m_subType m @ ?p"
  have t: "mt_toString m = m_type m @ CHR ''/'' # ?s" by (simp add: mt_toString_def param_text_def)
  have 1: "dropWhile space (m_type m @ CHR ''/'' # ?s) = m_type m @ CHR ''/'' # ?s" using assms(2) by (cases "m_type m") simp_all
  have 2: "takeWhile (\<lambda>c. c \<noteq> CHR ''/'') (m_type m @ CHR ''/'' # ?s) = m_type m" "drop 1 (dropWhile (\<lambda>c. c \<noteq> CHR ''/'') (m_type m @ CHR ''/'' # ?s)) = ?s"
    using assms(1) by (simp_all add: list_all_iff takeWhile_append2 dropWhile_append2)
  have h: "takeWhile (\<lambda>c. c \<noteq> CHR '';'' \<and> \<not> space c) ?p = []" "dropWhile (\<lambda>c. c \<noteq> CHR '';'' \<and> \<not> space c) ?p = ?p" "dropWhile (\<lambda>c. c \<noteq> CHR '';'') ?p = ?p"
    using param_text_hd[of "m_parameters m"] by (cases ?p; simp)+
  have 3: "takeWhile (\<lambda>c. c \<noteq> CHR '';'' \<and> \<not> space c) ?s = m_subType m" "dropWhile (\<lambda>c. c \<noteq> CHR '';'' \<and> \<not> space c) ?s = ?p"
    using assms(3) h by (simp_all add: list_all_iff takeWhile_append2 dropWhile_append2)
  have 4: "sp_loop (drop 1 ?p) [] = m_parameters m" using sp_loop_params[OF assms(4), of "[]"] fold_add_pairs[of "[]" "m_parameters m"] assms(5) by simp
  show ?thesis unfolding t mt_parse_def Let_def 1 2 3 h 4 by simp
qed

theorem mediatype_roundtrip_witness:
  "mt_parse (mt_toString \<lparr>m_type = ''text'', m_subType = ''html'', m_parameters = [(''charset'', ''utf-8''), (''title'', ''a; b'')]\<rparr>) =
    \<lparr>m_type = ''text'', m_subType = ''html'', m_parameters = [(''charset'', ''utf-8''), (''title'', ''a; b'')]\<rparr>"
proof (rule mediatype_roundtrip, goal_cases)
  case 1 show ?case by code_simp
next
  case 2 show ?case by code_simp
next
  case 3 show ?case by code_simp
next
  case 4 show ?case by code_simp
next
  case 5 show ?case by code_simp
qed

text \<open>Quoting does not escape: a value with a double quote in it is cut into another one.\<close>

lemma quote_not_escaped:
  "mh_quote (''a'' @ [CHR 0x22] @ ''b'') False = [CHR 0x22] @ ''a'' @ [CHR 0x22] @ ''b'' @ [CHR 0x22] \<and>
   sp_value (mh_quote (''a'' @ [CHR 0x22] @ ''b'') False) = (''ab'', [])"
proof
  show q: "mh_quote (''a'' @ [CHR 0x22] @ ''b'') False = [CHR 0x22] @ ''a'' @ [CHR 0x22] @ ''b'' @ [CHR 0x22]" by code_simp
  show "sp_value (mh_quote (''a'' @ [CHR 0x22] @ ''b'') False) = (''ab'', [])" unfolding q by (simp add: sp_value.simps)
qed

section \<open>Elements are read back\<close>

text \<open>An element is made of characters and quoted strings.\<close>

datatype atom = Plain char | Quoted string

fun atom_ok :: "atom \<Rightarrow> bool" where
  "atom_ok (Plain c) \<longleftrightarrow> c \<noteq> CHR 0x22 \<and> c \<noteq> CHR 0x5C \<and> c \<noteq> CHR '',''"
| "atom_ok (Quoted q) \<longleftrightarrow> list_all (\<lambda>c. c \<noteq> CHR 0x22 \<and> c \<noteq> CHR 0x5C) q"

fun atom_text :: "atom \<Rightarrow> string" where
  "atom_text (Plain c) = [c]"
| "atom_text (Quoted q) = CHR 0x22 # q @ [CHR 0x22]"

abbreviation elem_text :: "atom list \<Rightarrow> string" where
  "elem_text e \<equiv> concat (map atom_text e)"

definition elem_ok :: "atom list \<Rightarrow> bool" where
  "elem_ok e \<longleftrightarrow> e \<noteq> [] \<and> list_all atom_ok e \<and> trimmed (elem_text e)"

definition join_elements :: "atom list list \<Rightarrow> string" where
  "join_elements es = (case es of [] \<Rightarrow> [] | e # es \<Rightarrow> elem_text e @ concat (map (\<lambda>e. '', '' @ elem_text e) es))"

lemma se_atoms: "list_all atom_ok as \<Longrightarrow> se_loop i els el (elem_text as @ s) = se_loop i els (el @ elem_text as) s"
proof (induction as arbitrary: el)
  case (Cons a as)
  have "se_loop i els el (atom_text a @ t) = se_loop i els (el @ atom_text a) t" for t
  proof (cases a)
    case (Plain c) then show ?thesis using Cons.prems by (subst se_loop.simps) simp
  next
    case (Quoted q) then show ?thesis using Cons.prems by (subst se_loop.simps) (simp add: mh_quoted_text)
  qed
  then show ?case using Cons by simp
qed simp

lemma trim_blank: "trimmed s \<Longrightarrow> s \<noteq> [] \<Longrightarrow> trimInPlace s = s \<and> trimInPlace (CHR '' '' # s) = s"
  using dropWhile_hd[of s space] dropWhile_hd[of "rev s" space] by (auto simp: trimmed_def trimInPlace_eq trim_strip rstrip_def hd_rev)

lemma elem_text_ne: "elem_ok e \<Longrightarrow> elem_text e \<noteq> []"
  by (cases e, auto simp: elem_ok_def) (metis atom_text.elims list.distinct(1))

lemma se_elements:
  assumes "list_all elem_ok es" "trimInPlace el = x" "x \<noteq> []" "el \<noteq> []"
  shows "se_loop i els el (concat (map (\<lambda>e. '', '' @ elem_text e) es)) = els @ x # map elem_text es"
  using assms
proof (induction es arbitrary: els el x)
  case Nil
  then show ?case by (subst se_loop.simps) (simp add: se_push_def)
next
  case (Cons e es)
  let ?r = "concat (map (\<lambda>e. '', '' @ elem_text e) es)"
  have "se_loop i els el ('', '' @ elem_text e @ ?r) = se_loop i (els @ [x]) [] (CHR '' '' # elem_text e @ ?r)"
    using Cons.prems by (subst se_loop.simps) (simp add: se_push_def)
  also have "\<dots> = se_loop i (els @ [x]) (CHR '' '' # elem_text e) ?r"
    using se_atoms[of "Plain CHR '' '' # e" i "els @ [x]" "[]" ?r] Cons.prems(1) by (simp add: elem_ok_def)
  also have "\<dots> = (els @ [x]) @ elem_text e # map elem_text es"
    using Cons.prems(1) trim_blank[of "elem_text e"] elem_text_ne[of e] by (intro Cons.IH) (auto simp: elem_ok_def)
  finally show ?case by simp
qed

text \<open>
  A field value that joins elements with commas is split into these elements, commas in quoted strings included, and a field has exactly the tokens
  that are, up to case, among its elements.
\<close>

theorem split_elements_correct:
  assumes "list_all elem_ok es" "vals fieldName m \<noteq> []" "hd (vals fieldName m) = join_elements es"
  shows "splitElements (join_elements es) ignoreEmpty = map elem_text es \<and>
    (hasToken fieldName token m \<longleftrightarrow> (\<exists>e \<in> set es. toLower (elem_text e) = toLower token))"
proof -
  have s: "splitElements (join_elements es) i = map elem_text es" for i
  proof (cases es)
    case Nil then show ?thesis by (simp add: splitElements_def join_elements_def se_loop.simps)
  next
    case (Cons e es')
    then have "elem_ok e" "list_all elem_ok es'" using assms(1) by simp_all
    then have "splitElements (join_elements es) i = se_loop i [] (elem_text e) (concat (map (\<lambda>e. '', '' @ elem_text e) es'))"
      using se_atoms[of e i "[]" "[]"] Cons by (simp add: splitElements_def join_elements_def elem_ok_def)
    also have "\<dots> = [] @ elem_text e # map elem_text es'"
      using \<open>elem_ok e\<close> \<open>list_all elem_ok es'\<close> trim_blank[of "elem_text e"] elem_text_ne[of e] by (intro se_elements) (auto simp: elem_ok_def)
    finally show ?thesis using Cons by simp
  qed
  have "nvc_get_default fieldName [] m = join_elements es" using assms(2,3) by (simp add: nvc_lookup)
  then show ?thesis by (simp add: s hasToken_def list_ex_iff icompare_zero toLower_eq_iff)
qed

theorem split_elements_correct_witness:
  "hasToken ''Connection'' ''upgrade'' [(''connection'', ''keep-alive, Upgrade'')]"
proof -
  let ?es = "[map Plain ''keep-alive'', map Plain ''Upgrade'']"
  have "list_all elem_ok ?es" by code_simp
  moreover have "vals ''Connection'' [(''connection'', ''keep-alive, Upgrade'')] = [''keep-alive, Upgrade'']" by code_simp
  moreover have "join_elements ?es = ''keep-alive, Upgrade''" by code_simp
  moreover have "toLower (elem_text (map Plain ''Upgrade'')) = toLower ''upgrade''" by code_simp
  ultimately show ?thesis
    using split_elements_correct[of ?es "''Connection''" "[(''connection'', ''keep-alive, Upgrade'')]" True "''upgrade''"] by simp
qed

end
