(* ===== verification/HTTPMsg.thy ===== *)
theory HTTPMsg
  imports FieldVals NumStr
begin

text \<open>
  \<^verbatim>\<open>HTTPMessage.cpp\<close>, \<^verbatim>\<open>HTTPRequest.cpp\<close> and \<^verbatim>\<open>HTTPResponse.cpp\<close>: the fields that describe the body, cookies and credentials, and requests and responses as
  text.  As in \<open>MsgHeader\<close> a stream is the string still to be read; the next theory reads it from a session.
\<close>

section \<open>HTTPMessage\<close>

definition setContentLength :: "int \<Rightarrow> nvc \<Rightarrow> nvc outcome" where
  "setContentLength len m =
    (if len \<noteq> -1 then
       (case nf_format t_int64 len of Ret s \<Rightarrow> Ret (nvc_set ''Content-Length'' s m) | Throw e \<Rightarrow> Throw e | UB \<Rightarrow> UB)
     else Ret (nvc_erase ''Content-Length'' m))"

definition getContentLength :: "nvc \<Rightarrow> int result" where
  "getContentLength m =
    (let contentLength = nvc_get_default ''Content-Length'' [] m
     in if contentLength \<noteq> [] then parse64 contentLength CHR '','' else Inr (-1))"

definition hasContentLength :: "nvc \<Rightarrow> bool" where
  "hasContentLength m = nvc_has ''Content-Length'' m"

definition setTransferEncoding :: "string \<Rightarrow> nvc \<Rightarrow> nvc" where
  "setTransferEncoding transferEncoding m =
    (if icompare transferEncoding ''identity'' = 0 then nvc_erase ''Transfer-Encoding'' m
     else nvc_set ''Transfer-Encoding'' transferEncoding m)"

definition getTransferEncoding :: "nvc \<Rightarrow> string" where
  "getTransferEncoding m = nvc_get_default ''Transfer-Encoding'' ''identity'' m"

definition setChunkedTransferEncoding :: "bool \<Rightarrow> nvc \<Rightarrow> nvc" where
  "setChunkedTransferEncoding flag m = (if flag then setTransferEncoding ''chunked'' m else setTransferEncoding ''identity'' m)"

definition getChunkedTransferEncoding :: "nvc \<Rightarrow> bool" where
  "getChunkedTransferEncoding m \<longleftrightarrow> icompare (getTransferEncoding m) ''chunked'' = 0"

definition setContentType :: "string \<Rightarrow> nvc \<Rightarrow> nvc" where
  "setContentType mediaType m = (if mediaType = [] then nvc_erase ''Content-Type'' m else nvc_set ''Content-Type'' mediaType m)"

definition setContentType_media :: "mediatype \<Rightarrow> nvc \<Rightarrow> nvc" where
  "setContentType_media mediaType m = setContentType (mt_toString mediaType) m"

definition getContentType :: "nvc \<Rightarrow> string" where
  "getContentType m = nvc_get_default ''Content-Type'' [] m"

definition setKeepAlive :: "bool \<Rightarrow> nvc \<Rightarrow> nvc" where
  "setKeepAlive keepAlive m = nvc_set ''Connection'' (if keepAlive then ''Keep-Alive'' else ''Close'') m"

definition getKeepAlive :: "string \<Rightarrow> nvc \<Rightarrow> bool" where
  "getKeepAlive version m =
    (let connection = nvc_get_default ''Connection'' [] m
     in if connection \<noteq> [] then icompare connection ''Close'' \<noteq> 0 else version = ''HTTP/1.1'')"

section \<open>HTTPRequest\<close>

record http_request =
  q_header :: message_header
  q_version :: string
  q_method :: string
  q_uri :: string

definition req_new :: http_request where
  "req_new = \<lparr>q_header = mh_new, q_version = ''HTTP/1.0'', q_method = ''GET'', q_uri = ''/''\<rparr>"

definition req_setHost :: "string \<Rightarrow> nvc \<Rightarrow> nvc" where
  "req_setHost host m = nvc_set ''Host'' host m"

definition req_setHost_port :: "string \<Rightarrow> u16 \<Rightarrow> nvc \<Rightarrow> nvc outcome" where
  "req_setHost_port host port m =
    (let v = (if find_str host '':'' 0 \<noteq> None then ''['' @ host @ '']'' else host)
     in if port \<noteq> 80 \<and> port \<noteq> 443 then
          (case nf_append t_unsigned (v @ '':'') (uint port) of Ret v \<Rightarrow> Ret (req_setHost v m) | Throw e \<Rightarrow> Throw e | UB \<Rightarrow> UB)
        else Ret (req_setHost v m))"

definition setCookies :: "nvc \<Rightarrow> nvc \<Rightarrow> nvc" where
  "setCookies cookies m =
    (let cookie = (case cookies of [] \<Rightarrow> [] | (name, v) # r \<Rightarrow> name @ ''='' @ v @ concat (map (\<lambda>(name, v). ''; '' @ name @ ''='' @ v) r))
     in nvc_add ''Cookie'' cookie m)"

text \<open>The loop over the run of \<^verbatim>\<open>Cookie\<close> fields from the first one.\<close>

definition getCookies :: "nvc \<Rightarrow> nvc \<Rightarrow> nvc" where
  "getCookies m cookies =
    fold (\<lambda>e. sp_loop (snd e)) (takeWhile (\<lambda>e. icompare (fst e) ''Cookie'' = 0) (drop (lm_find ''Cookie'' m) m)) cookies"

definition getCredentials :: "string \<Rightarrow> nvc \<Rightarrow> (string \<times> string) result" where
  "getCredentials hdr m =
    (if nvc_has hdr m then
       rbind (nvc_get hdr m) (\<lambda>auth.
         let s = dropWhile space auth
         in Inr (takeWhile (\<lambda>c. \<not> space c) s, dropWhile space (dropWhile (\<lambda>c. \<not> space c) s)))
     else Inl NotAuthenticatedException)"

definition setCredentials :: "string \<Rightarrow> string \<Rightarrow> string \<Rightarrow> nvc \<Rightarrow> nvc" where
  "setCredentials hdr scheme authInfo m = nvc_set hdr (scheme @ '' '' @ authInfo) m"

definition getExpectContinue :: "nvc \<Rightarrow> bool" where
  "getExpectContinue m = (let expect = nvc_get_default ''Expect'' [] m in expect \<noteq> [] \<and> icompare expect ''100-continue'' = 0)"

definition setExpectContinue :: "bool \<Rightarrow> nvc \<Rightarrow> nvc" where
  "setExpectContinue expectContinue m = (if expectContinue then nvc_set ''Expect'' ''100-continue'' m else nvc_erase ''Expect'' m)"

definition req_write :: "http_request \<Rightarrow> string" where
  "req_write q = q_method q @ '' '' @ q_uri q @ '' '' @ q_version q @ [CR, LF] @ mh_write (q_header q) @ [CR, LF]"

text \<open>A word of the first line: up to \<open>limit\<close> characters, behind which a space must stand.\<close>

definition start_word :: "nat \<Rightarrow> string \<Rightarrow> (string \<times> string) result" where
  "start_word limit s =
    (case mh_take (\<lambda>c. isSpace (uchar c)) limit [] s of
       (w, []) \<Rightarrow> Inl MessageException
     | (w, c # r) \<Rightarrow> if \<not> isSpace (uchar c) then Inl MessageException else Inr (w, c # r))"

abbreviation skip_spaces :: "string \<Rightarrow> string" where
  "skip_spaces s \<equiv> dropWhile (\<lambda>c. isSpace (uchar c)) s"

text \<open>The loop that reads to the end of a line; the line feed itself is read.\<close>

definition skip_line :: "string \<Rightarrow> string" where
  "skip_line s = drop 1 (dropWhile (\<lambda>c. c \<noteq> LF) s)"

definition req_read :: "conv \<Rightarrow> http_request \<Rightarrow> string \<Rightarrow> (http_request \<times> string) result" where
  "req_read conv q s =
    (if s = [] then Inl NoMessageException
     else let s = skip_spaces s in
       if s = [] then Inl MessageException
       else rbind (start_word 32 s) (\<lambda>(meth, s).
         rbind (start_word 16384 (skip_spaces s)) (\<lambda>(uri, s).
           rbind (start_word 8 (skip_spaces s)) (\<lambda>(version, s).
             case mh_read conv (q_header q) (skip_line s) of
               (h, Inl e) \<Rightarrow> Inl e
             | (h, Inr s) \<Rightarrow> Inr (q\<lparr>q_header := h, q_method := meth, q_uri := uri, q_version := version\<rparr>, skip_line s)))))"

section \<open>HTTPResponse\<close>

record http_response =
  p_header :: message_header
  p_version :: string
  p_status :: int
  p_reason :: string

text \<open>The status is written as a decimal number, as an output stream does.\<close>

definition resp_write :: "http_response \<Rightarrow> string" where
  "resp_write p =
    p_version p @ '' '' @ ref_format (p_status p) 10 False 0 CHR '' '' CHR 0x00 False @ '' '' @ p_reason p @ [CR, LF] @ mh_write (p_header p) @ [CR, LF]"

text \<open>The reason phrase, up to the end of the line.\<close>

definition resp_reason :: "string \<Rightarrow> (string \<times> string) result" where
  "resp_reason s =
    (case mh_take crlf 512 [] (dropWhile (\<lambda>c. isSpace (uchar c) \<and> \<not> crlf c) s) of
       (reason, []) \<Rightarrow> Inl MessageException
     | (reason, c # r) \<Rightarrow>
         if \<not> isSpace (uchar c) then Inl MessageException
         else let s = (if c = CR then r else c # r)
              in case s of [] \<Rightarrow> Inl MessageException | c # r \<Rightarrow> if c \<noteq> LF then Inl MessageException else Inr (reason, r))"

definition resp_read :: "conv \<Rightarrow> http_response \<Rightarrow> string \<Rightarrow> (http_response \<times> string) result" where
  "resp_read conv p s =
    (if s = [] then Inl NoMessageException
     else let s = skip_spaces s in
       if s = [] then Inl MessageException
       else rbind (start_word 8 s) (\<lambda>(version, s).
         rbind (start_word 3 (skip_spaces s)) (\<lambda>(status, s).
           rbind (resp_reason s) (\<lambda>(reason, s).
             case mh_read conv (p_header p) s of
               (h, Inl e) \<Rightarrow> Inl e
             | (h, Inr s) \<Rightarrow>
                 rbind (parse status CHR '','') (\<lambda>status.
                   Inr (p\<lparr>p_header := h, p_version := version, p_status := status, p_reason := reason\<rparr>, skip_line s))))))"

section \<open>Requests and responses are read back\<close>

definition word_ok :: "nat \<Rightarrow> string \<Rightarrow> bool" where
  "word_ok limit w \<longleftrightarrow> w \<noteq> [] \<and> list_all (\<lambda>c. \<not> space c) w \<and> length w \<le> limit"

lemma start_word_ok: "word_ok limit w \<Longrightarrow> space c \<Longrightarrow> start_word limit (w @ c # r) = Inr (w, c # r)"
  using mh_take_all[of "\<lambda>c. isSpace (uchar c)" w "[]" limit "c # r"] by (simp add: start_word_def word_ok_def)

lemma skip_to_word: "word_ok limit w \<Longrightarrow> skip_spaces (w @ s) = w @ s" "word_ok limit w \<Longrightarrow> skip_spaces (CHR '' '' # w @ s) = w @ s"
  by (cases w; simp add: word_ok_def)+

lemma skip_line_crlf [simp]: "skip_line (CR # LF # s) = s"
  by (simp add: skip_line_def)

lemma space_cr [simp]: "space CR"
  by code_simp

definition fields_ok :: "message_header \<Rightarrow> nvc \<Rightarrow> bool" where
  "fields_ok h m \<longleftrightarrow> grouped m \<and> list_all (\<lambda>(name, v). field_ok h (name, v, [])) m \<and> (h_fieldLimit h = 0 \<or> length m \<le> h_fieldLimit h)"

lemma header_tail:
  assumes "fields_ok h m" "h_fields h = []" "s = [] \<or> crlf (hd s)"
  shows "mh_read conv h (mh_write (g\<lparr>h_fields := m\<rparr>) @ s) = (h\<lparr>h_fields := m, h_decodedOnRead := h_autoDecode h\<rparr>, Inr s)"
proof -
  let ?fs = "map (\<lambda>(name, v). (name, v, [])) m"
  have v: "map field_value ?fs = m" by (simp add: comp_def field_value_def case_prod_beta)
  have n: "list_all (\<lambda>(name, v, segs). segs = []) ?fs" by (auto simp: list_all_iff)
  have "mh_write (g\<lparr>h_fields := m\<rparr>) = concat (map field_text ?fs)" using write_text[OF n, of g] unfolding v by simp
  moreover have "list_all (field_ok h) ?fs" using assms(1) by (auto simp: fields_ok_def list_all_iff)
  ultimately show ?thesis using read_back[of ?fs h s conv] v assms by (simp add: fields_ok_def)
qed

text \<open>The first line of a request, without its line feed, and what is read from it and the text of a header.\<close>

definition req_start :: "http_request \<Rightarrow> string" where
  "req_start q = q_method q @ '' '' @ q_uri q @ '' '' @ q_version q @ [CR]"

definition req_words :: "http_request \<Rightarrow> bool" where
  "req_words q \<longleftrightarrow> word_ok 32 (q_method q) \<and> word_ok 16384 (q_uri q) \<and> word_ok 8 (q_version q)"

lemma request_text:
  assumes "req_words q" "fields_ok (q_header q0) m" "h_fields (q_header q0) = []" "s = [] \<or> crlf (hd s)"
  shows "req_read conv q0 (req_start q @ LF # mh_write (g\<lparr>h_fields := m\<rparr>) @ s) =
    Inr (q0\<lparr>q_method := q_method q, q_uri := q_uri q, q_version := q_version q,
      q_header := (q_header q0)\<lparr>h_fields := m, h_decodedOnRead := h_autoDecode (q_header q0)\<rparr>\<rparr>, skip_line s)"
proof -
  have a: "word_ok 32 (q_method q)" "word_ok 16384 (q_uri q)" "word_ok 8 (q_version q)" using assms(1) by (auto simp: req_words_def)
  let ?h = "mh_write (g\<lparr>h_fields := m\<rparr>) @ s"
  let ?v = "q_version q @ CR # LF # ?h"
  let ?u = "q_uri q @ CHR '' '' # ?v"
  have t: "req_start q @ LF # ?h = q_method q @ CHR '' '' # ?u" by (simp add: req_start_def)
  have ne: "q_method q @ CHR '' '' # ?u \<noteq> []" by simp
  note w = start_word_ok[OF a(1), of "CHR '' ''" ?u] start_word_ok[OF a(2), of "CHR '' ''" ?v] start_word_ok[OF a(3), of CR "LF # ?h"]
  note k = skip_to_word(1)[OF a(1), of "CHR '' '' # ?u"] skip_to_word(2)[OF a(2), of "CHR '' '' # ?v"] skip_to_word(2)[OF a(3), of "CR # LF # ?h"]
  show ?thesis unfolding t using ne w k header_tail[OF assms(2-4), of conv g] by (simp add: req_read_def Let_def)
qed

lemma req_write_text: "req_write q @ rest = req_start q @ LF # mh_write ((q_header q)\<lparr>h_fields := h_fields (q_header q)\<rparr>) @ CR # LF # rest"
  by (simp add: req_write_def req_start_def)

text \<open>
  A request is read back as it was written: method, URI, version and the fields, and what follows it on the connection is left for the next
  message.
\<close>

theorem request_roundtrip:
  assumes "word_ok 32 (q_method q)" "word_ok 16384 (q_uri q)" "word_ok 8 (q_version q)"
    "fields_ok (q_header q0) (h_fields (q_header q))" "h_fields (q_header q0) = []"
  shows "req_read conv q0 (req_write q @ rest) =
    Inr (q0\<lparr>q_method := q_method q, q_uri := q_uri q, q_version := q_version q,
      q_header := (q_header q0)\<lparr>h_fields := h_fields (q_header q), h_decodedOnRead := h_autoDecode (q_header q0)\<rparr>\<rparr>, rest)"
  using request_text[OF _ assms(4,5), of q "CR # LF # rest" conv "q_header q"] assms(1-3) unfolding req_write_text by (simp add: req_words_def)

theorem request_roundtrip_witness:
  "req_read (\<lambda>_ _ _. None) req_new (req_write (req_new\<lparr>q_uri := ''/a'', q_header := mh_new\<lparr>h_fields := [(''Host'', ''b'')]\<rparr>\<rparr>) @ ''GET'') =
    Inr (req_new\<lparr>q_uri := ''/a'', q_header := mh_new\<lparr>h_fields := [(''Host'', ''b'')], h_decodedOnRead := True\<rparr>\<rparr>, ''GET'')"
proof -
  let ?q = "req_new\<lparr>q_uri := ''/a'', q_header := mh_new\<lparr>h_fields := [(''Host'', ''b'')]\<rparr>\<rparr>"
  have "word_ok 32 (q_method ?q)" "word_ok 16384 (q_uri ?q)" "word_ok 8 (q_version ?q)"
    by (simp_all add: word_ok_def req_new_def) code_simp+
  moreover have "fields_ok (q_header req_new) (h_fields (q_header ?q))" by code_simp
  ultimately show ?thesis using request_roundtrip[of ?q req_new "\<lambda>_ _ _. None" "''GET''"] by (simp add: req_new_def mh_new_def)
qed

lemma status_text:
  assumes "0 \<le> v" "v \<le> 999"
  shows "word_ok 3 (ref_format v 10 False 0 CHR '' '' CHR 0x00 False)" "parse (ref_format v 10 False 0 CHR '' '' CHR 0x00 False) CHR '','' = Inr v"
proof -
  let ?d = "ref_digits 10 False (nat v)"
  have f: "ref_format v 10 False 0 CHR '' '' CHR 0x00 False = ?d" using assms by (simp add: ref_format_def ref_sign_def ref_prefix_def ref_number_def)
  have "nat v < 10 ^ 3" using assms by simp
  then have "length ?d \<le> 3" using rdigits_len[of 10 "nat v" 3] by (simp add: ref_digits_def)
  moreover have "\<not> space c" if "is_digit 10 c" for c
  proof -
    have "48 \<le> (of_char c :: nat) \<and> (of_char c :: nat) \<le> 57" using that by (auto simp: digit_val_def Let_def split: if_splits)
    then have "48 \<le> (of_char c :: int) \<and> (of_char c :: int) \<le> 57" by (metis of_nat_of_char of_nat_le_iff of_nat_numeral)
    then have "48 \<le> schar c \<and> schar c \<le> 57" by (simp add: schar_def)
    moreover have "space c \<longleftrightarrow> in_span 9 13 (schar c) \<or> schar c = 32" using ascii_table_all[OF schar_range, of c] by blast
    ultimately show ?thesis unfolding in_span_def by linarith
  qed
  ultimately show "word_ok 3 (ref_format v 10 False 0 CHR '' '' CHR 0x00 False)"
    unfolding f word_ok_def using ref_digits_val(2,3)[of 10 False "nat v"] by (auto simp: list_all_iff)
  have "in_type t_int v" using assms by (simp add: in_type_def it_min_def it_max_def t_int_def)
  then show "parse (ref_format v 10 False 0 CHR '' '' CHR 0x00 False) CHR '','' = Inr v"
    using format_parse[of t_int v 0 "CHR '' ''" "CHR '',''"] by (simp add: parse_def tryParse_def orSyntax_def)
qed

definition resp_start :: "http_response \<Rightarrow> string" where
  "resp_start p = p_version p @ '' '' @ ref_format (p_status p) 10 False 0 CHR '' '' CHR 0x00 False @ '' '' @ p_reason p @ [CR]"

definition resp_words :: "http_response \<Rightarrow> bool" where
  "resp_words p \<longleftrightarrow> word_ok 8 (p_version p) \<and> 0 \<le> p_status p \<and> p_status p \<le> 999 \<and> list_all (\<lambda>c. \<not> crlf c) (p_reason p) \<and> length (p_reason p) \<le> 512 \<and>
    (p_reason p = [] \<or> \<not> space (hd (p_reason p)))"

lemma response_text:
  assumes "resp_words p" "fields_ok (p_header p0) m" "h_fields (p_header p0) = []" "s = [] \<or> crlf (hd s)"
  shows "resp_read conv p0 (resp_start p @ LF # mh_write (g\<lparr>h_fields := m\<rparr>) @ s) =
    Inr (p0\<lparr>p_version := p_version p, p_status := p_status p, p_reason := p_reason p,
      p_header := (p_header p0)\<lparr>h_fields := m, h_decodedOnRead := h_autoDecode (p_header p0)\<rparr>\<rparr>, skip_line s)"
proof -
  have a: "word_ok 8 (p_version p)" "0 \<le> p_status p" "p_status p \<le> 999" "list_all (\<lambda>c. \<not> crlf c) (p_reason p)" "length (p_reason p) \<le> 512"
    "p_reason p = [] \<or> \<not> space (hd (p_reason p))" using assms(1) by (auto simp: resp_words_def)
  let ?st = "ref_format (p_status p) 10 False 0 CHR '' '' CHR 0x00 False"
  let ?h = "mh_write (g\<lparr>h_fields := m\<rparr>) @ s"
  let ?r = "CHR '' '' # p_reason p @ CR # LF # ?h"
  let ?s = "?st @ ?r"
  note st = status_text[OF a(2,3)]
  have t: "resp_start p @ LF # ?h = p_version p @ CHR '' '' # ?s" by (simp add: resp_start_def)
  have ne: "p_version p @ CHR '' '' # ?s \<noteq> []" by simp
  note w = start_word_ok[OF a(1), of "CHR '' ''" ?s] start_word_ok[OF st(1), of "CHR '' ''" "p_reason p @ CR # LF # ?h"]
  note k = skip_to_word(1)[OF a(1), of "CHR '' '' # ?s"] skip_to_word(2)[OF st(1), of ?r]
  have "dropWhile (\<lambda>c. isSpace (uchar c) \<and> \<not> crlf c) ?r = p_reason p @ CR # LF # ?h" using a(4,6) by (cases "p_reason p") simp_all
  moreover have "mh_take crlf 512 [] (p_reason p @ CR # LF # ?h) = (p_reason p, CR # LF # ?h)"
    using mh_take_all[of crlf "p_reason p" "[]" 512 "CR # LF # ?h"] a(4,5) by simp
  ultimately have r: "resp_reason ?r = Inr (p_reason p, ?h)" by (simp add: resp_reason_def)
  show ?thesis unfolding t using ne w k r st(2) header_tail[OF assms(2-4), of conv g] by (simp add: resp_read_def Let_def)
qed

lemma resp_write_text: "resp_write p @ rest = resp_start p @ LF # mh_write ((p_header p)\<lparr>h_fields := h_fields (p_header p)\<rparr>) @ CR # LF # rest"
  by (simp add: resp_write_def resp_start_def)

text \<open>
  A response is read back as it was written, for all status codes of up to three digits and reason phrases of up to 512 characters on one line.
\<close>

theorem response_roundtrip:
  assumes "word_ok 8 (p_version p)" "0 \<le> p_status p" "p_status p \<le> 999" "list_all (\<lambda>c. \<not> crlf c) (p_reason p)" "length (p_reason p) \<le> 512"
    "p_reason p = [] \<or> \<not> space (hd (p_reason p))" "fields_ok (p_header p0) (h_fields (p_header p))" "h_fields (p_header p0) = []"
  shows "resp_read conv p0 (resp_write p @ rest) =
    Inr (p0\<lparr>p_version := p_version p, p_status := p_status p, p_reason := p_reason p,
      p_header := (p_header p0)\<lparr>h_fields := h_fields (p_header p), h_decodedOnRead := h_autoDecode (p_header p0)\<rparr>\<rparr>, rest)"
  using response_text[OF _ assms(7,8), of p "CR # LF # rest" conv "p_header p"] assms(1-6) unfolding resp_write_text by (simp add: resp_words_def)

theorem response_roundtrip_witness:
  "resp_read (\<lambda>_ _ _. None) \<lparr>p_header = mh_new, p_version = [], p_status = 0, p_reason = []\<rparr>
    (resp_write \<lparr>p_header = mh_new, p_version = ''HTTP/1.1'', p_status = 404, p_reason = ''Not Found''\<rparr> @ ''x'') =
    Inr (\<lparr>p_header = mh_new\<lparr>h_decodedOnRead := True\<rparr>, p_version = ''HTTP/1.1'', p_status = 404, p_reason = ''Not Found''\<rparr>, ''x'')"
proof -
  let ?p = "\<lparr>p_header = mh_new, p_version = ''HTTP/1.1'', p_status = 404, p_reason = ''Not Found''\<rparr>"
  let ?empty = "\<lparr>p_header = mh_new, p_version = [], p_status = 0, p_reason = []\<rparr>"
  have "word_ok 8 (p_version ?p)" by code_simp
  moreover have "list_all (\<lambda>c. \<not> crlf c) (p_reason ?p)" "length (p_reason ?p) \<le> 512" by simp_all
  moreover have "p_reason ?p = [] \<or> \<not> space (hd (p_reason ?p))" by code_simp
  moreover have "fields_ok (p_header ?empty) (h_fields (p_header ?p))" by code_simp
  moreover have "h_fields (p_header ?empty) = []" by (simp add: mh_new_def)
  ultimately show ?thesis using response_roundtrip[of ?p ?empty "\<lambda>_ _ _. None" "''x''"] by (simp add: mh_new_def)
qed

section \<open>Whatever is received\<close>

lemma mh_take_stops:
  assumes "mh_take stop limit acc s = (w, r)"
  shows "(\<exists>v. w = acc @ v \<and> s = v @ r \<and> list_all (\<lambda>c. \<not> stop c) v) \<and> (r = [] \<or> stop (hd r) \<or> limit \<le> length w)"
  using assms
proof (induction stop limit acc s rule: mh_take.induct)
  case (2 stop limit acc ch s)
  show ?case
  proof (cases "\<not> stop ch \<and> length acc < limit")
    case True
    then obtain v where "w = (acc @ [ch]) @ v" "s = v @ r" "list_all (\<lambda>c. \<not> stop c) v" "r = [] \<or> stop (hd r) \<or> limit \<le> length w" using 2 by auto
    then show ?thesis using True by (intro conjI exI[of _ "ch # v"]) auto
  qed (use 2 in auto)
qed simp

lemma start_word_cases:
  assumes "0 < limit" "s = [] \<or> \<not> space (hd s)"
  shows "case start_word limit s of Inl e \<Rightarrow> e = MessageException | Inr (w, r) \<Rightarrow> word_ok limit w \<and> r \<noteq> []"
proof -
  obtain w r where t: "mh_take (\<lambda>c. isSpace (uchar c)) limit [] s = (w, r)" by fastforce
  note k = mh_take_stops[OF t] and b = mh_take_bound[OF t]
  have "word_ok limit w" if "r \<noteq> []" "space (hd r)"
  proof -
    have "w \<noteq> []" using k assms(2) that by auto
    then show ?thesis using k b by (auto simp: word_ok_def)
  qed
  then show ?thesis unfolding start_word_def t by (auto split: list.split)
qed

lemma skip_spaces_hd: "skip_spaces s = [] \<or> \<not> space (hd (skip_spaces s))"
  using hd_dropWhile[of space s] by auto

lemma start_word_long: "list_all (\<lambda>c. \<not> space c) w \<Longrightarrow> limit < length w \<Longrightarrow> start_word limit (w @ s) = Inl MessageException"
proof -
  assume a: "list_all (\<lambda>c. \<not> space c) w" "limit < length w"
  have "mh_take (\<lambda>c. isSpace (uchar c)) limit [] (w @ s) = (take limit w, drop limit w @ s)"
  proof -
    obtain x y where t: "mh_take (\<lambda>c. isSpace (uchar c)) limit [] (w @ s) = (x, y)" by fastforce
    note k = mh_take_stops[OF t] and b = mh_take_bound[OF t]
    have xy: "x @ y = w @ s" "length x \<le> limit" using k b by auto
    have "length x = limit"
    proof (rule ccontr)
      assume "length x \<noteq> limit"
      then have lt: "length x < limit" using xy(2) by simp
      then have y: "y = [] \<or> space (hd y)" using k by auto
      have "y = drop (length x) w @ s" using xy(1) lt a(2) by (metis append_eq_append_conv_if append_eq_conv_conj drop_append leD less_trans nat_less_le diff_is_0_eq drop_0)
      moreover have "drop (length x) w \<noteq> []" using lt a(2) by simp
      ultimately have "hd y = w ! length x" "y \<noteq> []" using lt a(2) by (auto simp: hd_drop_conv_nth)
      then show False using y a lt by (auto simp: list_all_length)
    qed
    then have "x = take limit w" "y = drop limit w @ s" using xy(1) a(2) by (auto simp: append_eq_append_conv_if)
    then show ?thesis using t by simp
  qed
  moreover obtain c r where "drop limit w = c # r" using a(2) by (cases "drop limit w") auto
  moreover from this have "\<not> space c" using a by (metis hd_drop_conv_nth list.sel(1) list_all_length)
  ultimately show ?thesis unfolding start_word_def by simp
qed

text \<open>
  C25.  Reading a request from any input ends in one of three ways: an empty stream is reported as no message, a malformed one as
  such (every failure on a non-empty stream is a MessageException), and otherwise the request has a method, a URI and a version
  without white space and within 32, 16384 and 8 characters, and a header within its limits: the number of fields, the length of
  each name, and the length of the text each value was read from, which automatic decoding may then have replaced by what it
  stands for. A first word of more than 32 characters is always refused.
\<close>

theorem request_outcome:
  assumes "h_fields (q_header q) = []"
  shows "(case req_read conv q s of
      Inl e \<Rightarrow> e = (if s = [] then NoMessageException else MessageException)
    | Inr (q', rest) \<Rightarrow> word_ok 32 (q_method q') \<and> word_ok 16384 (q_uri q') \<and> word_ok 8 (q_version q') \<and> within_limits conv (q_header q')) \<and>
    (list_all (\<lambda>c. \<not> space c) w \<and> 32 < length w \<longrightarrow> req_read conv q (w @ s) = Inl MessageException)"
proof
  show "case req_read conv q s of
      Inl e \<Rightarrow> e = (if s = [] then NoMessageException else MessageException)
    | Inr (q', rest) \<Rightarrow> word_ok 32 (q_method q') \<and> word_ok 16384 (q_uri q') \<and> word_ok 8 (q_version q') \<and> within_limits conv (q_header q')"
  proof (cases "s = [] \<or> skip_spaces s = []")
    case True then show ?thesis by (auto simp: req_read_def Let_def)
  next
    case False
    note sw = start_word_cases[OF _ skip_spaces_hd]
    have h: "(\<lambda>(h, r). case r of Inl e \<Rightarrow> e = MessageException | Inr t \<Rightarrow> within_limits conv h) (mh_read conv (q_header q) t)" for t
      using read_within_limits[OF assms] read_error by (fastforce split: sum.split prod.split)
    show ?thesis
    proof (cases "start_word 32 (skip_spaces s)")
      case (Inl e) then show ?thesis using False sw[of 32 s] by (simp add: req_read_def Let_def)
    next
      case (Inr a)
      obtain m x where a: "a = (m, x)" by (cases a)
      show ?thesis
      proof (cases "start_word 16384 (skip_spaces x)")
        case (Inl e) then show ?thesis using False Inr a sw[of 16384 x] by (simp add: req_read_def Let_def)
      next
        case i2: (Inr b)
        obtain u y where b: "b = (u, y)" by (cases b)
        show ?thesis
        proof (cases "start_word 8 (skip_spaces y)")
          case (Inl e) then show ?thesis using False Inr a i2 b sw[of 8 y] by (simp add: req_read_def Let_def)
        next
          case i3: (Inr c)
          obtain v z where c: "c = (v, z)" by (cases c)
          show ?thesis using False Inr a i2 b i3 c sw[of 32 s] sw[of 16384 x] sw[of 8 y] h[of "skip_line z"]
            by (auto simp: req_read_def Let_def split: sum.split prod.split)
        qed
      qed
    qed
  qed
  show "list_all (\<lambda>c. \<not> space c) w \<and> 32 < length w \<longrightarrow> req_read conv q (w @ s) = Inl MessageException"
  proof
    assume w: "list_all (\<lambda>c. \<not> space c) w \<and> 32 < length w"
    then have "skip_spaces (w @ s) = w @ s" by (cases w) auto
    then show "req_read conv q (w @ s) = Inl MessageException" using start_word_long[of w 32 s] w by (auto simp: req_read_def)
  qed
qed

theorem request_outcome_witness:
  "req_read (\<lambda>_ _ _. None) req_new (replicate 33 CHR ''a'' @ [CR, LF]) = Inl MessageException"
proof -
  have "\<not> space CHR ''a''" by code_simp
  then show ?thesis using request_outcome[where q = req_new and conv = "\<lambda>_ _ _. None" and s = "[CR, LF]" and w = "replicate 33 CHR ''a''"]
    by (simp add: req_new_def mh_new_def list_all_iff)
qed

section \<open>The fields that describe a message\<close>

lemma body_fields:
  assumes "grouped m"
  shows "getChunkedTransferEncoding (setChunkedTransferEncoding flag m) = flag" "getKeepAlive version (setKeepAlive k m) = k"
    "getExpectContinue (setExpectContinue e m) = e" "getContentType (setContentType t m) = t"
proof -
  have i: "icompare ''identity'' ''identity'' = 0" "icompare ''chunked'' ''identity'' \<noteq> 0" "icompare ''chunked'' ''chunked'' = 0" "icompare ''identity'' ''chunked'' \<noteq> 0"
    "icompare ''Keep-Alive'' ''Close'' \<noteq> 0" "icompare ''Close'' ''Close'' = 0" "icompare ''100-continue'' ''100-continue'' = 0" by code_simp+
  note d = nvc_lookup vals_set vals_others nvc_erase_def lm_erase_grouped[OF assms]
  show "getChunkedTransferEncoding (setChunkedTransferEncoding flag m) = flag"
    using i by (cases flag) (simp_all add: getChunkedTransferEncoding_def setChunkedTransferEncoding_def getTransferEncoding_def setTransferEncoding_def d)
  show "getKeepAlive version (setKeepAlive k m) = k" using i by (cases k) (simp_all add: getKeepAlive_def setKeepAlive_def d)
  show "getExpectContinue (setExpectContinue e m) = e" using i by (cases e) (simp_all add: getExpectContinue_def setExpectContinue_def d)
  show "getContentType (setContentType t m) = t" by (simp add: getContentType_def setContentType_def d)
qed

lemma content_length:
  assumes "grouped m" "in_type t_int64 n"
  shows "\<exists>m'. setContentLength n m = Ret m' \<and> getContentLength m' = Inr n"
proof (cases "n = -1")
  case True then show ?thesis
    by (simp add: setContentLength_def getContentLength_def nvc_lookup nvc_erase_def lm_erase_grouped[OF assms(1)] vals_others)
next
  case False
  let ?s = "ref_format n 10 False (-1) CHR '' '' CHR 0x00 False"
  have f: "nf_format t_int64 n = Ret ?s" using intToStr_string_ref[OF ok64(1) assms(2), of 10 "-1"] by (simp add: nf_format_def cleared_def)
  have "strToInt t_int64 ?s 10 CHR '','' = Some n" using format_parse[OF ok64(1) assms(2), of "-1" "CHR '' ''"] by simp
  moreover have "?s \<noteq> []" using ref_digits_val(3)[of 10 False "nat \<bar>n\<bar>"] by (simp add: ref_format_def ref_number_def)
  ultimately show ?thesis using False f
    by (simp add: setContentLength_def getContentLength_def nvc_lookup vals_set parse64_def tryParse64_def orSyntax_def)
qed

lemma credentials_roundtrip:
  assumes "list_all (\<lambda>c. \<not> space c) scheme" "scheme \<noteq> []" "authInfo = [] \<or> \<not> space (hd authInfo)"
  shows "getCredentials hdr (setCredentials hdr scheme authInfo m) = Inr (scheme, authInfo)"
proof -
  have "dropWhile space (scheme @ CHR '' '' # authInfo) = scheme @ CHR '' '' # authInfo" using assms(1,2) by (cases scheme) auto
  moreover have "takeWhile (\<lambda>c. \<not> space c) (scheme @ CHR '' '' # authInfo) = scheme" "dropWhile (\<lambda>c. \<not> space c) (scheme @ CHR '' '' # authInfo) = CHR '' '' # authInfo"
    using assms(1) by (simp_all add: list_all_iff takeWhile_append2 dropWhile_append2)
  moreover have "dropWhile space (CHR '' '' # authInfo) = authInfo" using assms(3) by (cases authInfo) auto
  ultimately show ?thesis by (simp add: getCredentials_def setCredentials_def nvc_lookup vals_set)
qed

text \<open>Cookies: names and values without the characters that separate or quote them.\<close>

definition cookie_ok :: "string \<times> string \<Rightarrow> bool" where
  "cookie_ok p = (case p of (name, v) \<Rightarrow>
    name \<noteq> [] \<and> trimmed name \<and> list_all (\<lambda>c. c \<noteq> CHR ''='' \<and> c \<noteq> CHR '';'') name \<and>
    trimmed v \<and> list_all (\<lambda>c. c \<noteq> CHR '';'' \<and> c \<noteq> CHR 0x22 \<and> c \<noteq> CHR 0x5C) v)"

lemma sp_value_raw: "list_all (\<lambda>c. c \<noteq> CHR '';'' \<and> c \<noteq> CHR 0x22 \<and> c \<noteq> CHR 0x5C) v \<Longrightarrow> s = [] \<or> hd s = CHR '';'' \<Longrightarrow> sp_value (v @ s) = (v, s)"
proof (induction v)
  case Nil then show ?case by (simp add: sp_value_end)
next
  case (Cons c v)
  then show ?case by (subst sp_value.simps) simp
qed

definition more_cookies :: "nvc \<Rightarrow> string" where
  "more_cookies r = concat (map (\<lambda>(name, v). ''; '' @ name @ ''='' @ v) r)"

lemma more_cookies_hd: "more_cookies r = [] \<or> hd (more_cookies r) = CHR '';''"
  by (cases r) (auto simp: more_cookies_def)

lemma sp_loop_cookie:
  assumes "cookie_ok (name, v)" "lead = [] \<or> lead = '' ''"
  shows "sp_loop (lead @ name @ ''='' @ v @ more_cookies r) m = sp_loop (drop 1 (more_cookies r)) (nvc_add name v m)"
proof -
  let ?q = "v @ more_cookies r"
  have ok: "name \<noteq> []" "\<not> space (hd name)" "trimRight name = name" "list_all (\<lambda>c. c \<noteq> CHR ''='' \<and> c \<noteq> CHR '';'') name" "trimRight v = v"
    using assms(1) by (auto simp: cookie_ok_def trimmed_def intro!: trimRight_id)
  have "dropWhile space (lead @ name @ CHR ''='' # ?q) = name @ CHR ''='' # ?q" using ok(1,2) assms(2) by (cases name) auto
  moreover have "takeWhile (\<lambda>c. c \<noteq> CHR ''='' \<and> c \<noteq> CHR '';'') (name @ CHR ''='' # ?q) = name"
    "dropWhile (\<lambda>c. c \<noteq> CHR ''='' \<and> c \<noteq> CHR '';'') (name @ CHR ''='' # ?q) = CHR ''='' # ?q"
    using ok(4) by (simp_all add: list_all_iff takeWhile_append2 dropWhile_append2)
  moreover have "dropWhile space ?q = ?q"
    using assms(1) more_cookies_hd[of r] by (intro dropWhile_hd) (cases v; auto simp: cookie_ok_def trimmed_def)
  moreover have "sp_value ?q = (v, more_cookies r)" using assms(1) more_cookies_hd by (intro sp_value_raw) (auto simp: cookie_ok_def)
  ultimately show ?thesis using ok by (subst sp_loop.simps) (simp add: Let_def)
qed

lemma sp_loop_cookies: "list_all cookie_ok r \<Longrightarrow> sp_loop (drop 1 (more_cookies r)) m = fold (\<lambda>(name, v). nvc_add name v) r m"
proof (induction r arbitrary: m)
  case Nil then show ?case by (simp add: more_cookies_def sp_loop.simps)
next
  case (Cons p r)
  obtain name v where p: "p = (name, v)" by (cases p)
  have "drop 1 (more_cookies (p # r)) = '' '' @ name @ ''='' @ v @ more_cookies r" by (simp add: more_cookies_def p)
  then show ?case using sp_loop_cookie[of name v "'' ''" r m] Cons p by simp
qed

lemma takeWhile_run: "grouped m \<Longrightarrow> map snd (takeWhile (\<lambda>e. icompare (fst e) name = 0) (drop (lm_find name m) m)) = vals name m"
proof (induction m)
  case (Cons e m)
  show ?case
  proof (cases "lm_isEqual (fst e) name")
    case True
    have run: "map snd (takeWhile (\<lambda>e. lm_isEqual (fst e) name) r) = vals name r"
      if "grouped r" "(\<exists>e \<in> set r. lm_isEqual (fst e) name) \<longrightarrow> lm_isEqual (fst (hd r)) name" for r :: "'a listmap" using that
    proof (induction r)
      case (Cons a r)
      show ?case
      proof (cases "lm_isEqual (fst a) name")
        case True
        then have "map snd (takeWhile (\<lambda>e. lm_isEqual (fst e) name) r) = vals name r" using Cons by (auto simp: lm_isEqual_iff)
        then show ?thesis using True by (cases a) simp
      next
        case False
        then have "\<forall>e \<in> set (a # r). \<not> lm_isEqual (fst e) name" using Cons.prems(2) by (metis list.sel(1))
        then show ?thesis using vals_none[of "a # r" name] False by simp
      qed
    qed simp
    have "map snd (takeWhile (\<lambda>e. lm_isEqual (fst e) name) m) = vals name m" using Cons.prems True by (intro run) (auto simp: lm_isEqual_iff)
    then show ?thesis using True by (cases e) (simp add: lm_isEqual_def)
  next
    case False then show ?thesis using Cons by (cases e) simp
  qed
qed simp

lemma cookies_roundtrip:
  assumes "list_all cookie_ok cookies" "grouped cookies" "grouped m" "vals ''Cookie'' m = []"
  shows "getCookies (setCookies cookies m) [] = cookies"
proof -
  let ?t = "case cookies of [] \<Rightarrow> [] | (name, v) # r \<Rightarrow> name @ ''='' @ v @ more_cookies r"
  have s: "setCookies cookies m = nvc_add ''Cookie'' ?t m" by (cases cookies) (auto simp: setCookies_def more_cookies_def)
  have g: "grouped (setCookies cookies m)" using assms(3) by (simp add: s nvc_add_def grouped_insert)
  have "vals ''Cookie'' (setCookies cookies m) = [?t]" using assms(3,4) by (simp add: s nvc_add_def vals_insert)
  moreover have "fold (\<lambda>e. sp_loop (snd e)) xs c = fold sp_loop (map snd xs) c" for xs :: nvc and c by (induction xs arbitrary: c) auto
  ultimately have "getCookies (setCookies cookies m) [] = sp_loop ?t []" using takeWhile_run[OF g, of "''Cookie''"] by (simp add: getCookies_def)
  also have "\<dots> = cookies"
  proof (cases cookies)
    case Nil then show ?thesis by (simp add: sp_loop.simps)
  next
    case (Cons p r)
    obtain name v where p: "p = (name, v)" by (cases p)
    have "sp_loop ?t [] = fold (\<lambda>(name, v). nvc_add name v) cookies []"
      using sp_loop_cookie[of name v "[]" r "[]"] sp_loop_cookies[of r] assms(1) Cons p by simp
    then show ?thesis using fold_add_pairs[of "[]" cookies] assms(2) by simp
  qed
  finally show ?thesis .
qed

text \<open>Reading a response takes at least one character.\<close>

lemma start_word_length: "start_word limit s = Inr (w, r) \<Longrightarrow> length r \<le> length s"
  unfolding start_word_def by (auto split: prod.splits list.splits if_splits dest: mh_take_length)

lemma resp_reason_length: "resp_reason s = Inr (reason, r) \<Longrightarrow> length r < length s"
proof -
  assume a: "resp_reason s = Inr (reason, r)"
  let ?s = "dropWhile (\<lambda>c. isSpace (uchar c) \<and> \<not> crlf c) s"
  obtain w u where t: "mh_take crlf 512 [] ?s = (w, u)" by fastforce
  have "length r < length u" using a unfolding resp_reason_def t by (auto simp: Let_def split: list.splits if_splits)
  then show ?thesis using mh_take_length[OF t] length_dropWhile_le[of "\<lambda>c. isSpace (uchar c) \<and> \<not> crlf c" s] by linarith
qed

lemma resp_read_length:
  assumes "resp_read conv p s = Inr (p', r)"
  shows "length r < length s"
proof -
  have s: "s \<noteq> []" using assms by (auto simp: resp_read_def)
  then have ne: "s \<noteq> []" "skip_spaces s \<noteq> []" using assms by (auto simp: resp_read_def Let_def simp del: dropWhile_eq_Nil_conv)
  obtain v s1 where v: "start_word 8 (skip_spaces s) = Inr (v, s1)" using assms ne by (auto simp: resp_read_def Let_def rbind_eq_Inr simp del: dropWhile_eq_Nil_conv)
  obtain st s2 where t: "start_word 3 (skip_spaces s1) = Inr (st, s2)" using assms ne v by (auto simp: resp_read_def Let_def rbind_eq_Inr simp del: dropWhile_eq_Nil_conv)
  obtain re s3 where e: "resp_reason s2 = Inr (re, s3)" using assms ne v t by (auto simp: resp_read_def Let_def rbind_eq_Inr simp del: dropWhile_eq_Nil_conv)
  obtain h x where h: "mh_read conv (p_header p) s3 = (h, x)" by fastforce
  obtain s4 where x: "x = Inr s4" "r = skip_line s4" using assms ne v t e h by (cases x) (auto simp: resp_read_def Let_def rbind_eq_Inr simp del: dropWhile_eq_Nil_conv)
  have "length s1 \<le> length (skip_spaces s)" "length s2 \<le> length (skip_spaces s1)" "length s3 < length s2" "length s4 \<le> length s3"
    using start_word_length[OF v] start_word_length[OF t] resp_reason_length[OF e] read_rest h x by auto
  moreover have "length (skip_spaces s) \<le> length s" "length (skip_spaces s1) \<le> length s1" by (simp_all add: length_dropWhile_le)
  moreover have "length r \<le> length s4" using length_dropWhile_le[of "\<lambda>c. c \<noteq> LF" s4] by (simp add: x(2) skip_line_def)
  ultimately show ?thesis by linarith
qed

text \<open>The number parser ignores commas, so that a list of two lengths is taken for one number.\<close>

lemma content_length_list: "getContentLength [(''Content-Length'', ''5, 5'')] = Inl SyntaxException"
  "getContentLength [(''Content-Length'', ''5,5'')] = Inr 55"
  by code_simp+

end
