(* ===== verification/HTTPStreams.thy ===== *)
theory HTTPStreams
  imports HTTPMsg
begin

text \<open>
  HTTP messages on a connection: \<^verbatim>\<open>HTTPSession.cpp\<close>, the stream buffer \<^verbatim>\<open>BufferedStreamBuf.h\<close> and the devices \<^verbatim>\<open>HTTPStream.cpp\<close>, \<^verbatim>\<open>HTTPHeaderStream.cpp\<close>,
  \<^verbatim>\<open>HTTPFixedLengthStream.cpp\<close> and \<^verbatim>\<open>HTTPChunkedStream.cpp\<close> below it, and how \<^verbatim>\<open>HTTPServerRequestImpl.cpp\<close> puts them together.

  The socket is blocking.  What it delivers is a list of pieces, of which a read takes at most as much as it asks for; at the end of the list the peer has
  closed the connection.  The theorems hold for all lists, that is, for all ways in which the network cuts the data.  Exceptions of the network and
  timeouts are not modelled.
\<close>

section \<open>HTTPSession\<close>

record http_session =
  s_in :: "string list"
  s_out :: string
  s_buf :: string
  s_exception :: "exn option"

definition s_new :: "string list \<Rightarrow> http_session" where
  "s_new io = \<lparr>s_in = io, s_out = [], s_buf = [], s_exception = None\<rparr>"

fun ss_receive :: "nat \<Rightarrow> string list \<Rightarrow> string \<times> string list" where
  "ss_receive len [] = ([], [])"
| "ss_receive len (bs # io) = (if bs = [] then ss_receive len io else (take len bs, drop len bs # io))"

definition s_receive :: "nat \<Rightarrow> http_session \<Rightarrow> int \<times> string \<times> http_session" where
  "s_receive len s = (let (bs, io) = ss_receive len (s_in s) in (int (length bs), bs, s\<lparr>s_in := io\<rparr>))"

definition s_refill :: "http_session \<Rightarrow> http_session" where
  "s_refill s = (let (n, bs, s) = s_receive 4096 s in s\<lparr>s_buf := bs\<rparr>)"

text \<open>The characters are of type \<^verbatim>\<open>char\<close>, which is signed, and \<^verbatim>\<open>eof()\<close> is -1.\<close>

definition s_get :: "http_session \<Rightarrow> int \<times> http_session" where
  "s_get s =
    (let s = (if s_buf s = [] then s_refill s else s)
     in case s_buf s of [] \<Rightarrow> (-1, s) | c # r \<Rightarrow> (schar c, s\<lparr>s_buf := r\<rparr>))"

definition s_peek :: "http_session \<Rightarrow> int \<times> http_session" where
  "s_peek s =
    (let s = (if s_buf s = [] then s_refill s else s)
     in case s_buf s of [] \<Rightarrow> (-1, s) | c # r \<Rightarrow> (schar c, s))"

definition s_read :: "nat \<Rightarrow> http_session \<Rightarrow> int \<times> string \<times> http_session" where
  "s_read len s =
    (if s_buf s \<noteq> [] then
       let n = length (s_buf s);
           n = (if n > len then len else n)
       in (int n, take n (s_buf s), s\<lparr>s_buf := drop n (s_buf s)\<rparr>)
     else s_receive len s)"

definition s_write :: "string \<Rightarrow> http_session \<Rightarrow> int \<times> http_session" where
  "s_write bs s = (int (length bs), s\<lparr>s_out := s_out s @ bs\<rparr>)"

definition s_setException :: "exn \<Rightarrow> http_session \<Rightarrow> http_session" where
  "s_setException e s = s\<lparr>s_exception := Some e\<rparr>"

definition s_drainBuffer :: "http_session \<Rightarrow> string \<times> http_session" where
  "s_drainBuffer s = (s_buf s, s\<lparr>s_buf := []\<rparr>)"

text \<open>What is still to be read.\<close>

definition pending :: "http_session \<Rightarrow> string" where
  "pending s = s_buf s @ concat (s_in s)"

lemma ss_receive_pieces:
  "0 < len \<Longrightarrow> (case ss_receive len io of (bs, io') \<Rightarrow> concat io = bs @ concat io' \<and> length bs \<le> len \<and> (bs = [] \<longrightarrow> concat io = []))"
  by (induction len io rule: ss_receive.induct) (auto split: prod.splits)

lemma s_receive_pending:
  assumes "s_buf s = []" "0 < len"
  shows "\<exists>bs s'. s_receive len s = (int (length bs), bs, s') \<and> pending s = bs @ pending s' \<and> length bs \<le> len \<and> (bs = [] \<longrightarrow> pending s = []) \<and>
    s_out s' = s_out s \<and> s_exception s' = s_exception s \<and> s_buf s' = []"
proof -
  obtain bs io where r: "ss_receive len (s_in s) = (bs, io)" by fastforce
  have "concat (s_in s) = bs @ concat io \<and> length bs \<le> len \<and> (bs = [] \<longrightarrow> concat (s_in s) = [])"
    using ss_receive_pieces[OF assms(2), of "s_in s"] unfolding r prod.case .
  then have "concat (s_in s) = bs @ concat io" "length bs \<le> len" "bs = [] \<longrightarrow> concat io = []" by (metis append_Nil)+
  then show ?thesis using r assms(1)
    by (intro exI[of _ bs] exI[of _ "s\<lparr>s_in := io\<rparr>"]) (simp add: s_receive_def pending_def del: concat_eq_Nil_conv)
qed

lemma s_refill_pending:
  assumes "s_buf s = []"
  shows "pending (s_refill s) = pending s" "s_buf (s_refill s) = [] \<longleftrightarrow> pending s = []" "s_out (s_refill s) = s_out s" "s_exception (s_refill s) = s_exception s"
proof -
  obtain bs s' where r: "s_receive 4096 s = (int (length bs), bs, s')" "pending s = bs @ pending s'" "bs = [] \<longrightarrow> pending s = []"
      "s_out s' = s_out s" "s_exception s' = s_exception s" "s_buf s' = []"
    using s_receive_pending[OF assms, of 4096] by auto
  have f: "s_refill s = s'\<lparr>s_buf := bs\<rparr>" by (simp add: s_refill_def r(1))
  show "pending (s_refill s) = pending s" using r by (simp add: f pending_def)
  show "s_buf (s_refill s) = [] \<longleftrightarrow> pending s = []" using r by (auto simp: f)
  show "s_out (s_refill s) = s_out s" "s_exception (s_refill s) = s_exception s" using r by (simp_all add: f)
qed

text \<open>A state after \<open>s\<close> with nothing but data read.\<close>

definition reads_to :: "http_session \<Rightarrow> string \<Rightarrow> http_session \<Rightarrow> bool" where
  "reads_to s xs s' \<longleftrightarrow> pending s' = xs \<and> s_out s' = s_out s \<and> s_exception s' = s_exception s"

lemma reads_to_trans: "reads_to s xs s' \<Longrightarrow> reads_to s' ys s'' \<Longrightarrow> reads_to s ys s''"
  by (simp add: reads_to_def)

lemma filled: "\<exists>s'. (if s_buf s = [] then s_refill s else s) = s' \<and> reads_to s (pending s) s' \<and> (s_buf s' = [] \<longleftrightarrow> pending s = [])"
proof (cases "s_buf s = []")
  case True then show ?thesis using s_refill_pending[OF True] by (auto simp: reads_to_def)
next
  case False then show ?thesis by (auto simp: reads_to_def pending_def)
qed

lemma s_get_char: "pending s = c # xs \<Longrightarrow> \<exists>s'. s_get s = (schar c, s') \<and> reads_to s xs s'"
proof -
  assume p: "pending s = c # xs"
  obtain s' where s': "(if s_buf s = [] then s_refill s else s) = s'" "reads_to s (pending s) s'" "s_buf s' \<noteq> []" using filled[of s] p by auto
  then obtain d r where "s_buf s' = d # r" by (cases "s_buf s'") auto
  moreover from this have "d = c" using s' p by (auto simp: reads_to_def pending_def)
  ultimately show ?thesis using s' p
    by (intro exI[of _ "s'\<lparr>s_buf := r\<rparr>"]) (auto simp: s_get_def Let_def reads_to_def pending_def)
qed

lemma s_get_end: "pending s = [] \<Longrightarrow> \<exists>s'. s_get s = (-1, s') \<and> reads_to s [] s'"
  using filled[of s] by (auto simp: s_get_def Let_def)

lemma s_peek_char: "pending s = c # xs \<Longrightarrow> \<exists>s'. s_peek s = (schar c, s') \<and> reads_to s (c # xs) s'"
proof -
  assume p: "pending s = c # xs"
  obtain s' where s': "(if s_buf s = [] then s_refill s else s) = s'" "reads_to s (pending s) s'" "s_buf s' \<noteq> []" using filled[of s] p by auto
  then obtain d r where "s_buf s' = d # r" by (cases "s_buf s'") auto
  moreover from this have "d = c" using s' p by (auto simp: reads_to_def pending_def)
  ultimately show ?thesis using s' p by (auto simp: s_peek_def Let_def)
qed

lemma s_peek_end: "pending s = [] \<Longrightarrow> \<exists>s'. s_peek s = (-1, s') \<and> reads_to s [] s'"
  using filled[of s] by (auto simp: s_peek_def Let_def)

lemma s_read_some:
  assumes "0 < len"
  shows "\<exists>bs s'. s_read len s = (int (length bs), bs, s') \<and> pending s = bs @ pending s' \<and> length bs \<le> len \<and> (bs = [] \<longrightarrow> pending s = []) \<and>
    reads_to s (pending s') s'"
proof (cases "s_buf s = []")
  case True
  obtain bs s' where "s_receive len s = (int (length bs), bs, s')" "pending s = bs @ pending s'" "length bs \<le> len" "bs = [] \<longrightarrow> pending s = []"
      "s_out s' = s_out s" "s_exception s' = s_exception s" using s_receive_pending[OF True assms] by blast
  then show ?thesis using True by (intro exI[of _ bs] exI[of _ s']) (auto simp: s_read_def reads_to_def)
next
  case False
  define n where "n = (if length (s_buf s) > len then len else length (s_buf s))"
  have "0 < n" "n \<le> len" "n \<le> length (s_buf s)" using False assms by (auto simp: n_def)
  then show ?thesis using False
    by (intro exI[of _ "take n (s_buf s)"] exI[of _ "s\<lparr>s_buf := drop n (s_buf s)\<rparr>"])
      (auto simp: s_read_def Let_def n_def[symmetric] pending_def reads_to_def append_assoc[symmetric] simp del: append_assoc)
qed

lemma schar_eof: "schar c = -1 \<longleftrightarrow> c = CHR 0xFF"
proof -
  have "of_char (CHR 0xFF) = (255 :: int)" by code_simp
  moreover have "schar c = -1 \<longleftrightarrow> of_char c = (255 :: int)" using of_char_bounds[of c] by (auto simp: schar_def Let_def)
  ultimately show ?thesis by (metis of_char_eq_iff)
qed

lemma schar_lf: "schar c = 10 \<longleftrightarrow> c = LF" "to_char 10 = LF"
proof -
  show t: "to_char 10 = LF" by code_simp
  have "schar LF = 10" by code_simp
  then show "schar c = 10 \<longleftrightarrow> c = LF" using t by (metis to_char_schar)
qed

text \<open>The loops compare the last character that was read; \<open>tx\<close> is what there is from that character on.\<close>

definition cur :: "http_session \<Rightarrow> string \<Rightarrow> int \<Rightarrow> http_session \<Rightarrow> bool" where
  "cur s tx ch s' \<longleftrightarrow> (case tx of [] \<Rightarrow> ch = -1 \<and> reads_to s [] s' | c # xs \<Rightarrow> ch = schar c \<and> reads_to s xs s')"

lemma s_get_cur: "\<exists>ch s'. s_get s = (ch, s') \<and> cur s (pending s) ch s'"
  using s_get_char[of s] s_get_end[of s] by (cases "pending s") (fastforce simp: cur_def)+

lemma cur_get: "cur s (c # tx) ch s' \<Longrightarrow> \<exists>ch' s''. s_get s' = (ch', s'') \<and> cur s tx ch' s''"
  using s_get_cur[of s'] by (fastforce simp: cur_def reads_to_def split: list.splits)

lemma cur_reads: "cur s (c # tx) ch s' \<Longrightarrow> ch = schar c \<and> reads_to s tx s'"
  by (simp add: cur_def)

text \<open>The loop that reads on while a condition holds, which excludes the end.\<close>

function s_while :: "(int \<Rightarrow> bool) \<Rightarrow> int \<Rightarrow> http_session \<Rightarrow> int \<times> http_session" where
  "s_while P ch s = (if ch \<noteq> -1 \<and> P ch then (case s_get s of (ch, s) \<Rightarrow> s_while P ch s) else (ch, s))"
  by pat_completeness auto
termination
proof (relation "measure (\<lambda>(P, ch, s). length (pending s) + (if ch = -1 then 0 else 1))")
  fix P :: "int \<Rightarrow> bool" and ch s ch' s'
  assume a: "ch \<noteq> -1 \<and> P ch" "(ch', s') = s_get s"
  obtain x t where x: "s_get s = (x, t)" "cur s (pending s) x t" using s_get_cur by blast
  then have "ch' = x" "s' = t" using a by auto
  then show "((P, ch', s'), P, ch, s) \<in> measure (\<lambda>(P, ch, s). length (pending s) + (if ch = -1 then 0 else 1))"
    using x(2) a(1) by (cases "pending s") (auto simp: cur_def reads_to_def)
qed simp

declare s_while.simps [simp del]

lemma s_while_run:
  assumes "cur s (w @ tx) ch s'" "list_all (\<lambda>c. c \<noteq> CHR 0xFF \<and> P (schar c)) w" "tx = [] \<or> hd tx = CHR 0xFF \<or> \<not> P (schar (hd tx))"
  shows "\<exists>ch' s''. s_while P ch s' = (ch', s'') \<and> cur s tx ch' s''"
  using assms
proof (induction w arbitrary: ch s')
  case Nil
  then show ?case by (subst s_while.simps) (cases tx; auto simp: cur_def schar_eof)
next
  case (Cons c w)
  obtain ch' s'' where g: "s_get s' = (ch', s'')" "cur s (w @ tx) ch' s''" using cur_get Cons.prems(1) by (metis append_Cons)
  have "ch = schar c" using cur_reads Cons.prems(1) by simp
  then have "ch \<noteq> -1 \<and> P ch" using Cons.prems(2) schar_eof[of c] by simp
  then show ?case using Cons.IH[OF g(2)] Cons.prems g(1) by (subst s_while.simps) simp
qed

section \<open>BufferedStreamBuf\<close>

text \<open>
  A stream buffer over a device.  \<^verbatim>\<open>readFromDevice\<close> is a function that returns the bytes it read, or \<open>None\<close> for \<^verbatim>\<open>eof\<close>, or throws; \<^verbatim>\<open>writeToDevice\<close> returns the number
  of bytes written.  The get area and the put area are the two uses of the one buffer, which only serves one direction at a time.  The room for four
  characters of putback is taken off the size of a read; \<^verbatim>\<open>putback()\<close> is only called by \<^verbatim>\<open>MessageHeader::read\<close>, on a stream that is then given up or read to the
  end of the line, so that the model keeps no characters there.
\<close>

type_synonym 'd reader = "nat \<Rightarrow> 'd \<Rightarrow> (string option \<times> 'd) result"
type_synonym 'd writer = "string \<Rightarrow> 'd \<Rightarrow> int \<times> 'd"

record 'd sbuf =
  b_size :: nat
  b_in :: bool
  b_out :: bool
  b_get :: string
  b_put :: string
  b_dev :: 'd

definition bsb_new :: "bool \<Rightarrow> bool \<Rightarrow> 'd \<Rightarrow> 'd sbuf" where
  "bsb_new i out d = \<lparr>b_size = 4096, b_in = i, b_out = out, b_get = [], b_put = [], b_dev = d\<rparr>"

definition bsb_flushBuffer :: "'d writer \<Rightarrow> 'd sbuf \<Rightarrow> int \<times> 'd sbuf" where
  "bsb_flushBuffer wr b =
    (let n = int (length (b_put b));
         (r, d) = wr (b_put b) (b_dev b);
         b = b\<lparr>b_dev := d\<rparr>
     in if r = n then (n, b\<lparr>b_put := []\<rparr>) else (-1, b))"

definition bsb_overflow :: "'d writer \<Rightarrow> int \<Rightarrow> 'd sbuf \<Rightarrow> int \<times> 'd sbuf" where
  "bsb_overflow wr c b =
    (if \<not> b_out b then (-1, b)
     else let (r, b) = bsb_flushBuffer wr b
          in if r = -1 then (-1, b) else (c, if c \<noteq> -1 then b\<lparr>b_put := b_put b @ [to_char c]\<rparr> else b))"

definition bsb_underflow :: "'d reader \<Rightarrow> 'd sbuf \<Rightarrow> (int \<times> 'd sbuf) result" where
  "bsb_underflow rd b =
    (if \<not> b_in b then Inr (-1, b)
     else if b_get b \<noteq> [] then Inr (uchar (hd (b_get b)), b)
     else rbind (rd (b_size b - 4) (b_dev b)) (\<lambda>(r, d).
       case r of
         None \<Rightarrow> Inr (-1, b\<lparr>b_dev := d\<rparr>)
       | Some bs \<Rightarrow> if bs = [] then Inr (-1, b\<lparr>b_dev := d\<rparr>) else Inr (uchar (hd bs), b\<lparr>b_get := bs, b_dev := d\<rparr>)))"

definition bsb_sync :: "'d writer \<Rightarrow> 'd sbuf \<Rightarrow> int \<times> 'd sbuf" where
  "bsb_sync wr b =
    (if b_put b \<noteq> [] then (let (r, b) = bsb_flushBuffer wr b in if r = -1 then (-1, b) else (0, b)) else (0, b))"

lemma underflow_get: "bsb_underflow rd b = Inr (c, b') \<Longrightarrow> c \<noteq> -1 \<Longrightarrow> b_get b' \<noteq> []"
proof -
  assume a: "bsb_underflow rd b = Inr (c, b')" "c \<noteq> -1"
  show ?thesis
  proof (cases "b_in b \<and> b_get b = []")
    case False then show ?thesis using a by (auto simp: bsb_underflow_def split: if_splits)
  next
    case True
    then obtain r d where r: "rd (b_size b - 4) (b_dev b) = Inr (r, d)" using a(1) by (cases "rd (b_size b - 4) (b_dev b)") (auto simp: bsb_underflow_def)
    then show ?thesis using a True by (cases r) (auto simp: bsb_underflow_def split: if_splits)
  qed
qed

lemma uchar_not_eof [simp]: "uchar c \<noteq> -1"
  using uchar_range(2)[of c] by linarith

function bsb_xsgetn_loop :: "'d reader \<Rightarrow> nat \<Rightarrow> 'd sbuf \<Rightarrow> string \<Rightarrow> (string \<times> 'd sbuf) result" where
  "bsb_xsgetn_loop rd len b acc =
    (if len = 0 then Inr (acc, b)
     else if b_get b \<noteq> [] then
       let avail = length (b_get b);
           toCopy = (if avail < len then avail else len)
       in bsb_xsgetn_loop rd (len - toCopy) (b\<lparr>b_get := drop toCopy (b_get b)\<rparr>) (acc @ take toCopy (b_get b))
     else case bsb_underflow rd b of
         Inl e \<Rightarrow> Inl e
       | Inr (c, b') \<Rightarrow> if c = -1 then Inr (acc, b') else bsb_xsgetn_loop rd len b' acc)"
  by pat_completeness auto
termination
  by (relation "measures [\<lambda>(rd, len, b, acc). len, \<lambda>(rd, len, b, acc). if b_get b = [] then 1 else 0]") (auto dest: underflow_get)

declare bsb_xsgetn_loop.simps [simp del]

definition bsb_xsgetn :: "'d reader \<Rightarrow> nat \<Rightarrow> 'd sbuf \<Rightarrow> (string \<times> 'd sbuf) result" where
  "bsb_xsgetn rd len b = (if \<not> b_in b then Inr ([], b) else bsb_xsgetn_loop rd len b [])"

text \<open>\<^verbatim>\<open>sputc\<close> and \<^verbatim>\<open>sputn\<close> of the standard library, which stores characters as if one by one and stops at a failure.\<close>

definition bsb_sputc :: "'d writer \<Rightarrow> char \<Rightarrow> 'd sbuf \<Rightarrow> int \<times> 'd sbuf" where
  "bsb_sputc wr c b = (if length (b_put b) < b_size b then (uchar c, b\<lparr>b_put := b_put b @ [c]\<rparr>) else bsb_overflow wr (uchar c) b)"

fun bsb_sputn :: "'d writer \<Rightarrow> string \<Rightarrow> 'd sbuf \<Rightarrow> 'd sbuf" where
  "bsb_sputn wr [] b = b"
| "bsb_sputn wr (c # cs) b = (case bsb_sputc wr c b of (r, b) \<Rightarrow> if r = -1 then b else bsb_sputn wr cs b)"

text \<open>A sequence of reads.\<close>

fun bsb_reads :: "'d reader \<Rightarrow> nat list \<Rightarrow> 'd sbuf \<Rightarrow> (string \<times> 'd sbuf) result" where
  "bsb_reads rd [] b = Inr ([], b)"
| "bsb_reads rd (len # lens) b = rbind (bsb_xsgetn rd len b) (\<lambda>(xs, b). rbind (bsb_reads rd lens b) (\<lambda>(ys, b). Inr (xs @ ys, b)))"

lemma reads_none: "sum_list lens = 0 \<Longrightarrow> bsb_reads rd lens b = Inr ([], b)"
  by (induction lens) (auto simp: bsb_xsgetn_def bsb_xsgetn_loop.simps)

text \<open>
  What a device for reading promises: \<open>rest d\<close> says which data it still delivers; a read takes some of it, and there is nothing but the end after it.
\<close>

locale input_device =
  fixes rd :: "'d reader"
    and delivers :: "string \<Rightarrow> 'd \<Rightarrow> bool"
    and finished :: "'d \<Rightarrow> bool"
  assumes rd_some: "\<lbrakk>0 < n; delivers xs d; xs \<noteq> []\<rbrakk> \<Longrightarrow>
      \<exists>bs ys d'. rd n d = Inr (Some bs, d') \<and> bs \<noteq> [] \<and> length bs \<le> n \<and> xs = bs @ ys \<and> delivers ys d'"
    and rd_end: "\<lbrakk>0 < n; delivers [] d\<rbrakk> \<Longrightarrow> \<exists>r d'. rd n d = Inr (r, d') \<and> (r = None \<or> r = Some []) \<and> delivers [] d' \<and> finished d'"
begin

definition content :: "string \<Rightarrow> 'd sbuf \<Rightarrow> bool" where
  "content xs b \<longleftrightarrow> b_in b \<and> 4 < b_size b \<and> (\<exists>ys. xs = b_get b @ ys \<and> delivers ys (b_dev b))"

lemma content_new: "delivers xs d \<Longrightarrow> content xs (bsb_new True out d)"
  by (simp add: content_def bsb_new_def)

lemma underflow_some:
  assumes "content xs b" "b_get b = []" "xs \<noteq> []"
  shows "\<exists>b'. bsb_underflow rd b = Inr (uchar (hd xs), b') \<and> content xs b' \<and> b_get b' \<noteq> []"
proof -
  have c: "b_in b" "4 < b_size b" "delivers xs (b_dev b)" using assms by (auto simp: content_def)
  then have "0 < b_size b - 4" by simp
  from rd_some[OF this c(3) assms(3)] obtain bs ys d' where
    r: "rd (b_size b - 4) (b_dev b) = Inr (Some bs, d')" "bs \<noteq> []" "xs = bs @ ys" "delivers ys d'" by blast
  then show ?thesis using c assms(2) by (auto simp: bsb_underflow_def content_def)
qed

lemma underflow_end:
  assumes "content [] b"
  shows "\<exists>b'. bsb_underflow rd b = Inr (-1, b') \<and> content [] b' \<and> finished (b_dev b')"
proof -
  have c: "b_in b" "4 < b_size b" "delivers [] (b_dev b)" "b_get b = []" using assms by (auto simp: content_def)
  then have "0 < b_size b - 4" by simp
  from rd_end[OF this c(3)] obtain r d' where
    r: "rd (b_size b - 4) (b_dev b) = Inr (r, d')" "r = None \<or> r = Some []" "delivers [] d'" "finished d'" by blast
  then show ?thesis using c by (auto simp: bsb_underflow_def content_def)
qed

lemma xsgetn_loop:
  assumes "content xs b"
  shows "\<exists>b'. bsb_xsgetn_loop rd len b acc = Inr (acc @ take len xs, b') \<and> content (drop len xs) b' \<and> (length xs < len \<longrightarrow> finished (b_dev b'))"
  using assms
proof (induction len arbitrary: xs b acc rule: less_induct)
  case (less len)
  show ?case
  proof (cases "len = 0")
    case True then show ?thesis using less.prems by (subst bsb_xsgetn_loop.simps) simp
  next
    case False
    have copy: "\<exists>b'. bsb_xsgetn_loop rd len b acc = Inr (acc @ take len xs, b') \<and> content (drop len xs) b' \<and> (length xs < len \<longrightarrow> finished (b_dev b'))"
      if c: "content xs b" and ne: "b_get b \<noteq> []" for b
    proof -
      define n where "n = (if length (b_get b) < len then length (b_get b) else len)"
      have n: "0 < n" "n \<le> len" "n \<le> length (b_get b)" "len - n < len" using False ne by (auto simp: n_def)
      obtain ys where ys: "xs = b_get b @ ys" "delivers ys (b_dev b)" "b_in b" "4 < b_size b" using c by (auto simp: content_def)
      have "content (drop n xs) (b\<lparr>b_get := drop n (b_get b)\<rparr>)" using ys n by (auto simp: content_def)
      moreover have "take n (b_get b) @ take (len - n) (drop n xs) = take len xs"
      proof -
        have "take n (b_get b) = take n xs" using ys n by simp
        then show ?thesis using n(2) by (metis le_add_diff_inverse take_add)
      qed
      moreover have "drop (len - n) (drop n xs) = drop len xs" "length (drop n xs) < len - n \<longleftrightarrow> length xs < len" using n ys(1) by auto
      ultimately show ?thesis using less.IH[OF n(4), of "drop n xs" "b\<lparr>b_get := drop n (b_get b)\<rparr>" "acc @ take n (b_get b)"] False ne
        by (subst bsb_xsgetn_loop.simps) (simp add: Let_def n_def[symmetric])
    qed
    show ?thesis
    proof (cases "b_get b = []")
      case ne: False then show ?thesis using copy[OF less.prems] by blast
    next
      case e: True
      show ?thesis
      proof (cases "xs = []")
        case True then show ?thesis using underflow_end[of b] less.prems e False by (subst bsb_xsgetn_loop.simps) auto
      next
        case ne: False
        obtain b' where u: "bsb_underflow rd b = Inr (uchar (hd xs), b')" "content xs b'" "b_get b' \<noteq> []" using underflow_some[OF less.prems e ne] by blast
        then show ?thesis using copy[OF u(2,3)] e False by (subst bsb_xsgetn_loop.simps) simp
      qed
    qed
  qed
qed

lemma xsgetn_content:
  assumes "content xs b"
  shows "\<exists>b'. bsb_xsgetn rd len b = Inr (take len xs, b') \<and> content (drop len xs) b' \<and> (length xs < len \<longrightarrow> finished (b_dev b'))"
  using xsgetn_loop[OF assms, of len "[]"] assms by (simp add: bsb_xsgetn_def content_def)

lemma reads_content:
  assumes "content xs b"
  shows "\<exists>b'. bsb_reads rd lens b = Inr (take (sum_list lens) xs, b') \<and> content (drop (sum_list lens) xs) b' \<and>
    (length xs < sum_list lens \<longrightarrow> finished (b_dev b'))"
  using assms
proof (induction lens arbitrary: xs b)
  case (Cons len lens)
  obtain b1 where r: "bsb_xsgetn rd len b = Inr (take len xs, b1)" "content (drop len xs) b1" "length xs < len \<longrightarrow> finished (b_dev b1)"
    using xsgetn_content[OF Cons.prems] by blast
  obtain b2 where s: "bsb_reads rd lens b1 = Inr (take (sum_list lens) (drop len xs), b2)" "content (drop (sum_list lens) (drop len xs)) b2"
      "length (drop len xs) < sum_list lens \<longrightarrow> finished (b_dev b2)"
    using Cons.IH[OF r(2)] by blast
  show ?case
  proof (cases "sum_list lens = 0 \<and> length xs < len")
    case True
    then have "b2 = b1" using s(1) reads_none[of lens rd b1] by auto
    then show ?thesis using r s True by auto
  next
    case False
    then have "length xs < len + sum_list lens \<Longrightarrow> length (drop len xs) < sum_list lens" unfolding length_drop by linarith
    then have "length xs < len + sum_list lens \<longrightarrow> finished (b_dev b2)" using s(3) by blast
    then show ?thesis using r(1) s(1,2) by (simp add: take_add add.commute)
  qed
qed simp

end

section \<open>HTTPStream and HTTPFixedLengthStream\<close>

definition st_readFromDevice :: "http_session reader" where
  "st_readFromDevice len s = (case s_read len s of (n, bs, s) \<Rightarrow> Inr (Some bs, s))"

definition st_writeToDevice :: "http_session writer" where
  "st_writeToDevice bs s = s_write bs s"

record fixed_dev =
  x_session :: http_session
  x_length :: int
  x_count :: int

definition fx_new :: "http_session \<Rightarrow> int \<Rightarrow> fixed_dev" where
  "fx_new s len = \<lparr>x_session = s, x_length = len, x_count = 0\<rparr>"

definition fx_readFromDevice :: "fixed_dev reader" where
  "fx_readFromDevice len d =
    (if x_count d < x_length d then
       let len = (if x_count d + int len > x_length d then nat (x_length d - x_count d) else len);
           (n, bs, s) = s_read len (x_session d);
           d = d\<lparr>x_session := s\<rparr>
       in Inr (Some bs, if n > 0 then d\<lparr>x_count := x_count d + n\<rparr> else d)
     else Inr (Some [], d))"

definition fx_writeToDevice :: "fixed_dev writer" where
  "fx_writeToDevice bs d =
    (if x_count d < x_length d then
       let len = (if x_count d + int (length bs) > x_length d then nat (x_length d - x_count d) else length bs);
           (n, s) = s_write (take len bs) (x_session d);
           d = d\<lparr>x_session := s\<rparr>
       in (n, if n > 0 then d\<lparr>x_count := x_count d + n\<rparr> else d)
     else (0, d))"

text \<open>The plain stream delivers what there is; it is the body of a message that the end of the connection ends.\<close>

interpretation plain: input_device st_readFromDevice "reads_to s0" "reads_to s0 []" for s0
proof
  fix n :: nat and xs and s :: http_session assume n: "0 < n"
  obtain bs s' where r: "s_read n s = (int (length bs), bs, s')" "pending s = bs @ pending s'" "length bs \<le> n" "bs = [] \<longrightarrow> pending s = []"
      "reads_to s (pending s') s'"
    using s_read_some[OF n, of s] by blast
  show "reads_to s0 xs s \<Longrightarrow> xs \<noteq> [] \<Longrightarrow>
      \<exists>bs ys s'. st_readFromDevice n s = Inr (Some bs, s') \<and> bs \<noteq> [] \<and> length bs \<le> n \<and> xs = bs @ ys \<and> reads_to s0 ys s'"
    using r reads_to_trans[OF _ r(5)] by (auto simp: st_readFromDevice_def reads_to_def)
  show "reads_to s0 [] s \<Longrightarrow> \<exists>r s'. st_readFromDevice n s = Inr (r, s') \<and> (r = None \<or> r = Some []) \<and> reads_to s0 [] s' \<and> reads_to s0 [] s'"
    using r reads_to_trans[OF _ r(5)] by (auto simp: st_readFromDevice_def reads_to_def)
qed

text \<open>The stream of fixed length delivers the body and leaves what follows it.\<close>

definition fx_holds :: "http_session \<Rightarrow> string \<Rightarrow> string \<Rightarrow> fixed_dev \<Rightarrow> bool" where
  "fx_holds s0 nx xs d \<longleftrightarrow> 0 \<le> x_count d \<and> x_length d = x_count d + int (length xs) \<and> reads_to s0 (xs @ nx) (x_session d)"

lemma reads_to_self: "reads_to s (pending s) s"
  by (simp add: reads_to_def)

lemma fx_read:
  assumes "0 < n" "fx_holds s0 nx xs d" "xs \<noteq> []"
  shows "\<exists>bs ys d'. fx_readFromDevice n d = Inr (Some bs, d') \<and> bs \<noteq> [] \<and> length bs \<le> n \<and> xs = bs @ ys \<and> fx_holds s0 nx ys d'"
proof -
  define len where "len = (if x_count d + int n > x_length d then nat (x_length d - x_count d) else n)"
  have h: "x_length d = x_count d + int (length xs)" "pending (x_session d) = xs @ nx" "reads_to s0 (xs @ nx) (x_session d)" "0 \<le> x_count d"
    using assms(2) by (auto simp: fx_holds_def reads_to_def)
  have len: "0 < len" "len \<le> n" "len \<le> length xs" using assms h(1) by (auto simp: len_def)
  obtain bs s' where r: "s_read len (x_session d) = (int (length bs), bs, s')" "pending (x_session d) = bs @ pending s'" "length bs \<le> len"
      "bs = [] \<longrightarrow> pending (x_session d) = []" "reads_to (x_session d) (pending s') s'"
    using s_read_some[OF len(1), of "x_session d"] by blast
  have bs: "bs \<noteq> []" using r(4) h(2) assms(3) by auto
  define ys where "ys = drop (length bs) xs"
  have e: "bs @ pending s' = xs @ nx" "length bs \<le> length xs" using r(2,3) h(2) len(3) by auto
  then have t: "bs = take (length bs) xs" "pending s' = ys @ nx" unfolding ys_def by (auto simp: append_eq_append_conv_if)
  then have ys: "xs = bs @ ys" "pending s' = ys @ nx" unfolding ys_def by (metis append_take_drop_id, blast)
  have "x_count d < x_length d" using h(1) assms(3) by simp
  then have "fx_readFromDevice n d = Inr (Some bs, d\<lparr>x_session := s', x_count := x_count d + int (length bs)\<rparr>)"
    using bs r(1) by (simp add: fx_readFromDevice_def len_def[symmetric] Let_def)
  moreover have "reads_to s0 (ys @ nx) s'" using reads_to_trans[OF h(3) r(5)] ys(2) by simp
  ultimately show ?thesis using bs ys(1) r(3) len(2) h by (intro exI[of _ bs] exI[of _ ys]) (auto simp: fx_holds_def)
qed

interpretation fixed: input_device fx_readFromDevice "fx_holds s0 nx" "\<lambda>d. reads_to s0 nx (x_session d)" for s0 nx
proof
  fix n :: nat and xs d assume "0 < n" "fx_holds s0 nx xs d" "xs \<noteq> []"
  then show "\<exists>bs ys d'. fx_readFromDevice n d = Inr (Some bs, d') \<and> bs \<noteq> [] \<and> length bs \<le> n \<and> xs = bs @ ys \<and> fx_holds s0 nx ys d'" by (rule fx_read)
next
  fix n :: nat and d assume "fx_holds s0 nx [] d"
  then show "\<exists>r d'. fx_readFromDevice n d = Inr (r, d') \<and> (r = None \<or> r = Some []) \<and> fx_holds s0 nx [] d' \<and> reads_to s0 nx (x_session d')"
    by (auto simp: fx_readFromDevice_def fx_holds_def)
qed

section \<open>HTTPHeaderStream\<close>

record header_dev =
  h_session :: http_session
  h_end :: bool

definition hs_new :: "http_session \<Rightarrow> header_dev" where
  "hs_new s = \<lparr>h_session = s, h_end = False\<rparr>"

text \<open>The loop, with \<open>k = length - 1 - n\<close>, and the character behind it; the flag tells that the loop ended at \<^verbatim>\<open>eof\<close>.\<close>

fun hs_loop :: "nat \<Rightarrow> int \<Rightarrow> http_session \<Rightarrow> string \<times> bool \<times> http_session" where
  "hs_loop k ch s =
    (if ch = -1 then ([], True, s)
     else if ch \<noteq> 10 \<and> k > 0 then (case s_get s of (ch', s) \<Rightarrow> case hs_loop (k - 1) ch' s of (bs, e, s) \<Rightarrow> (to_char ch # bs, e, s))
     else ([to_char ch], False, s))"

declare hs_loop.simps [simp del]

definition hs_readFromDevice :: "header_dev reader" where
  "hs_readFromDevice len d =
    (if h_end d then Inr (Some [], d)
     else case s_get (h_session d) of (ch, s) \<Rightarrow>
       case hs_loop (len - 1) ch s of (bs, e, s) \<Rightarrow>
         Inr (Some bs, \<lparr>h_session = s, h_end = (\<not> e \<and> length bs = 2)\<rparr>))"

definition hs_writeToDevice :: "http_session writer" where
  "hs_writeToDevice bs s = s_write bs s"

text \<open>
  A reader of the header sees the pieces that the device returns one after the other, and the device is called when the reader needs the first character
  of a piece.  \<open>hs_pieces\<close> lists the pieces and the sessions behind them, the last one with the empty piece that is the end; \<open>hs_after k\<close> is the session when
  the reader has asked for \<open>k\<close> characters.
\<close>

lemma hs_loop_pending:
  assumes "cur s tx ch s'" "hs_loop k ch s' = (bs, e, s'')"
  shows "\<exists>r. tx = bs @ r \<and> (bs = [] \<longleftrightarrow> ch = -1) \<and> (e \<longrightarrow> r = [] \<or> hd r = CHR 0xFF) \<and> reads_to s (if e then tl r else r) s''"
  using assms
proof (induction k arbitrary: tx ch s' bs)
  case 0
  then show ?case by (cases tx) (auto simp: hs_loop.simps[of 0] cur_def schar_eof split: if_splits)
next
  case (Suc k)
  show ?case
  proof (cases "ch = -1 \<or> ch = 10")
    case True
    then show ?thesis using Suc.prems
      by (cases tx) (auto simp: hs_loop.simps[of "Suc k"] cur_def schar_eof schar_lf split: if_splits)
  next
    case False
    then obtain c r where tx: "tx = c # r" using Suc.prems(1) by (cases tx) (auto simp: cur_def)
    have ch: "ch = schar c" using Suc.prems(1) by (simp add: tx cur_def)
    obtain ch1 s1 where g: "s_get s' = (ch1, s1)" "cur s r ch1 s1" using cur_get Suc.prems(1) tx by metis
    obtain bs1 s2 e1 where l: "hs_loop k ch1 s1 = (bs1, e1, s2)" by (metis prod_cases3)
    then have "bs = c # bs1" "e = e1" "s'' = s2" using Suc.prems(2) False g(1) ch by (auto simp: hs_loop.simps[of "Suc k"])
    moreover obtain r1 where "r = bs1 @ r1" "e1 \<longrightarrow> r1 = [] \<or> hd r1 = CHR 0xFF" "reads_to s (if e1 then tl r1 else r1) s2"
      using Suc.IH[OF g(2), of bs1] l \<open>e = e1\<close> \<open>s'' = s2\<close> by blast
    ultimately show ?thesis using False tx by (intro exI[of _ r1]) simp
  qed
qed

lemma hs_read_pending:
  assumes "hs_readFromDevice n d = Inr (Some bs, d')" "bs \<noteq> []"
  shows "length (pending (h_session d')) < length (pending (h_session d))"
proof -
  obtain ch s where g: "s_get (h_session d) = (ch, s)" "cur (h_session d) (pending (h_session d)) ch s" using s_get_cur by blast
  obtain xs e s' where l: "hs_loop (n - 1) ch s = (xs, e, s')" by (metis prod_cases3)
  have "xs = bs" "h_session d' = s'" using assms g(1) l by (auto simp: hs_readFromDevice_def split: if_splits)
  then obtain r where r: "pending (h_session d) = bs @ r" "pending (h_session d') = (if e then tl r else r)"
    using hs_loop_pending[OF g(2) l] by (auto simp: reads_to_def)
  moreover have "0 < length bs" using assms(2) by simp
  ultimately show ?thesis by (simp, linarith)
qed

function hs_pieces :: "header_dev \<Rightarrow> (string \<times> http_session) list" where
  "hs_pieces d =
    (case hs_readFromDevice 4092 d of
       Inr (Some bs, d') \<Rightarrow> (bs, h_session d') # (if bs = [] then [] else hs_pieces d')
     | _ \<Rightarrow> [])"
  by pat_completeness auto
termination by (relation "measure (\<lambda>d. length (pending (h_session d)))") (auto dest: hs_read_pending)

declare hs_pieces.simps [simp del]

fun hs_after :: "nat \<Rightarrow> (string \<times> http_session) list \<Rightarrow> http_session \<Rightarrow> http_session" where
  "hs_after k [] s = s"
| "hs_after k ((bs, s') # ps) s = (if k = 0 then s else hs_after (k - length bs) ps s')"

definition hs_text :: "(string \<times> http_session) list \<Rightarrow> string" where
  "hs_text ps = concat (map fst ps)"

text \<open>Lines without the byte \<^verbatim>\<open>0xFF\<close>, which \<^verbatim>\<open>get()\<close> cannot tell from the end.\<close>

definition line_ok :: "string \<Rightarrow> bool" where
  "line_ok l \<longleftrightarrow> list_all (\<lambda>c. c \<noteq> LF \<and> c \<noteq> CHR 0xFF) l"

lemma hs_loop_line:
  assumes "cur s (l @ LF # r) ch s'" "line_ok l"
  shows "\<exists>s''. hs_loop k ch s' = (take (Suc k) (l @ [LF]), False, s'') \<and> reads_to s (drop (Suc k) (l @ [LF]) @ r) s''"
  using assms
proof (induction k arbitrary: l ch s')
  case 0
  then show ?case by (cases l) (auto simp: hs_loop.simps[of 0] cur_def schar_eof schar_lf line_ok_def)
next
  case (Suc k)
  show ?case
  proof (cases l)
    case Nil then show ?thesis using Suc.prems by (auto simp: hs_loop.simps[of "Suc k"] cur_def schar_eof schar_lf)
  next
    case (Cons c l')
    have c: "ch = schar c" "c \<noteq> LF" "c \<noteq> CHR 0xFF" "line_ok l'" using Suc.prems Cons by (auto simp: cur_def line_ok_def)
    obtain ch1 s1 where g: "s_get s' = (ch1, s1)" "cur s (l' @ LF # r) ch1 s1" 
      using cur_get[of s c "l' @ LF # r" ch s'] Suc.prems(1) Cons by auto
    have ne: "ch \<noteq> -1" "ch \<noteq> 10" using c schar_eof schar_lf(1) by auto
    show ?thesis using Suc.IH[OF g(2) c(4)] g(1) ne c(1) Cons by (auto simp: hs_loop.simps[of "Suc k"])
  qed
qed

lemma hs_read_line:
  assumes "pending s = l @ LF # r" "line_ok l" "0 < n"
  shows "\<exists>s'. hs_readFromDevice n \<lparr>h_session = s, h_end = False\<rparr> =
      Inr (Some (take n (l @ [LF])), \<lparr>h_session = s', h_end = (min n (Suc (length l)) = 2)\<rparr>) \<and> reads_to s (drop n (l @ [LF]) @ r) s'"
proof -
  obtain ch s1 where g: "s_get s = (ch, s1)" "cur s (l @ LF # r) ch s1" using s_get_cur[of s] assms(1) by auto
  obtain s2 where "hs_loop (n - 1) ch s1 = (take n (l @ [LF]), False, s2)" "reads_to s (drop n (l @ [LF]) @ r) s2"
    using hs_loop_line[OF g(2) assms(2), of "n - 1"] assms(3) by auto
  moreover have "length (take n (l @ [LF])) = min n (Suc (length l))" by (simp del: take_append)
  ultimately show ?thesis using g(1) by (simp add: hs_readFromDevice_def del: take_append drop_append)
qed

text \<open>The pieces of one line; the last one has two characters when the length of the line with its line feed is 2 modulo 4092.\<close>

definition line_ends :: "string \<Rightarrow> bool" where
  "line_ends l \<longleftrightarrow> Suc (length l) mod 4092 = 2"

definition pieces_of :: "(string \<times> http_session) list \<Rightarrow> string \<Rightarrow> http_session \<Rightarrow> bool" where
  "pieces_of ps tx s \<longleftrightarrow> ps \<noteq> [] \<and> list_all (\<lambda>p. fst p \<noteq> []) ps \<and> hs_text ps = tx \<and> snd (last ps) = s"

lemma hs_pieces_line:
  assumes "pending s = l @ LF # r" "line_ok l"
  shows "\<exists>ps s'. hs_pieces \<lparr>h_session = s, h_end = False\<rparr> = ps @ hs_pieces \<lparr>h_session = s', h_end = line_ends l\<rparr> \<and>
    pieces_of ps (l @ [LF]) s' \<and> reads_to s r s' \<and> (line_ends l \<longrightarrow> length (fst (last ps)) = 2)"
  using assms
proof (induction "length l" arbitrary: l s rule: less_induct)
  case less
  obtain s1 where h: "hs_readFromDevice 4092 \<lparr>h_session = s, h_end = False\<rparr> =
      Inr (Some (take 4092 (l @ [LF])), \<lparr>h_session = s1, h_end = (min 4092 (Suc (length l)) = 2)\<rparr>)" "reads_to s (drop 4092 (l @ [LF]) @ r) s1"
    using hs_read_line[OF less.prems, of 4092] by auto
  let ?p = "take 4092 (l @ [LF])"
  have eq: "hs_pieces \<lparr>h_session = s, h_end = False\<rparr> = (?p, s1) # hs_pieces \<lparr>h_session = s1, h_end = (min 4092 (Suc (length l)) = 2)\<rparr>"
    by (subst hs_pieces.simps) (simp add: h(1) del: take_append)
  show ?case
  proof (cases "length l < 4092")
    case True
    then have "?p = l @ [LF]" "(min 4092 (Suc (length l)) = 2) = line_ends l" by (auto simp: line_ends_def mod_Suc min_def)
    moreover have "line_ends l \<longrightarrow> Suc (length l) = 2" using True by (auto simp: line_ends_def mod_Suc split: if_splits)
    ultimately show ?thesis using eq h(2) True by (intro exI[of _ "[(l @ [LF], s1)]"] exI[of _ s1]) (auto simp: pieces_of_def hs_text_def)
  next
    case False
    let ?l = "drop 4092 l"
    have l: "l = take 4092 l @ ?l" "?p = take 4092 l" "length ?l < length l" "min 4092 (Suc (length l)) \<noteq> 2" using False by auto
    have p: "pending s1 = ?l @ LF # r" "line_ok ?l" using h(2) False less.prems(2) set_drop_subset[of 4092 l] by (auto simp: reads_to_def line_ok_def list_all_iff)
    have e: "line_ends ?l = line_ends l" using False by (simp add: line_ends_def) (metis Suc_diff_le le_mod_geq not_less le_SucI mod_if diff_add_inverse2 le_add_diff_inverse2 mod_add_self2 add_Suc)
    obtain ps s2 where i: "hs_pieces \<lparr>h_session = s1, h_end = False\<rparr> = ps @ hs_pieces \<lparr>h_session = s2, h_end = line_ends l\<rparr>"
        "pieces_of ps (?l @ [LF]) s2" "reads_to s1 r s2" "line_ends l \<longrightarrow> length (fst (last ps)) = 2"
      using less.hyps[OF l(3) p] e by auto
    have "pieces_of ((?p, s1) # ps) (l @ [LF]) s2" using i(2) l(1,2) by (auto simp: pieces_of_def hs_text_def)
    moreover have "reads_to s r s2" using reads_to_trans[OF h(2) i(3)] .
    moreover have "last ((?p, s1) # ps) = last ps" using i(2) by (simp add: pieces_of_def)
    ultimately show ?thesis using eq i(1,4) l(4) by (intro exI[of _ "(?p, s1) # ps"] exI[of _ s2]) auto
  qed
qed

lemma hs_after_pieces:
  assumes "list_all (\<lambda>p. fst p \<noteq> []) ps" "length (hs_text ps) \<le> k"
  shows "hs_after k (ps @ ps') s = hs_after (k - length (hs_text ps)) ps' (if ps = [] then s else snd (last ps))"
  using assms
proof (induction ps arbitrary: k s)
  case (Cons p ps)
  obtain bs s1 where p: "p = (bs, s1)" by (cases p)
  have "0 < length bs" "length (hs_text (p # ps)) = length bs + length (hs_text ps)" using Cons.prems(1) p by (simp_all add: hs_text_def)
  then have k: "0 < k" "length (hs_text ps) \<le> k - length bs" "k - length bs - length (hs_text ps) = k - length (hs_text (p # ps))"
    using Cons.prems(2) by linarith+
  then show ?case using Cons.IH[OF _ k(2), of s1] Cons.prems p by auto
qed (simp add: hs_text_def)

abbreviation lines_text :: "string list \<Rightarrow> string" where
  "lines_text ls \<equiv> concat (map (\<lambda>l. l @ [LF]) ls)"

lemma hs_pieces_lines:
  assumes "pending s = lines_text ls @ l @ LF # r" "list_all (\<lambda>l. line_ok l \<and> \<not> line_ends l) ls" "line_ok l" "line_ends l"
  shows "\<exists>ps s'. hs_pieces \<lparr>h_session = s, h_end = False\<rparr> = ps @ [([], s')] \<and> pieces_of ps (lines_text ls @ l @ [LF]) s' \<and>
    length (fst (last ps)) = 2 \<and> reads_to s r s'"
  using assms
proof (induction ls arbitrary: s)
  case Nil
  obtain ps s' where p: "hs_pieces \<lparr>h_session = s, h_end = False\<rparr> = ps @ hs_pieces \<lparr>h_session = s', h_end = True\<rparr>"
      "pieces_of ps (l @ [LF]) s'" "reads_to s r s'" "length (fst (last ps)) = 2"
    using hs_pieces_line[of s l r] Nil.prems by auto
  moreover have "hs_pieces \<lparr>h_session = s', h_end = True\<rparr> = [([], s')]" by (subst hs_pieces.simps) (simp add: hs_readFromDevice_def)
  ultimately show ?case by auto
next
  case (Cons x ls)
  have x: "pending s = x @ LF # (lines_text ls @ l @ LF # r)" "line_ok x" "\<not> line_ends x" using Cons.prems by auto
  obtain ps s1 where p: "hs_pieces \<lparr>h_session = s, h_end = False\<rparr> = ps @ hs_pieces \<lparr>h_session = s1, h_end = False\<rparr>"
      "pieces_of ps (x @ [LF]) s1" "reads_to s (lines_text ls @ l @ LF # r) s1"
    using hs_pieces_line[OF x(1,2)] x(3) by auto
  obtain qs s2 where q: "hs_pieces \<lparr>h_session = s1, h_end = False\<rparr> = qs @ [([], s2)]" "pieces_of qs (lines_text ls @ l @ [LF]) s2"
      "length (fst (last qs)) = 2" "reads_to s1 r s2"
    using Cons.IH[of s1] p(3) Cons.prems by (auto simp: reads_to_def)
  have "pieces_of (ps @ qs) (lines_text (x # ls) @ l @ [LF]) s2" using p(2) q(2) by (auto simp: pieces_of_def hs_text_def)
  then show ?case using p(1) q(1,3) reads_to_trans[OF p(3) q(4)] q(2) by (intro exI[of _ "ps @ qs"] exI[of _ s2]) (auto simp: pieces_of_def)
qed

lemma header_stream:
  assumes "pending s = lines_text ls @ l @ LF # r" "list_all (\<lambda>l. line_ok l \<and> \<not> line_ends l) ls" "line_ok l" "line_ends l"
  shows "\<exists>s'. hs_text (hs_pieces (hs_new s)) = lines_text ls @ l @ [LF] \<and> reads_to s r s' \<and>
    (\<forall>k. length (lines_text ls @ l) \<le> k \<longrightarrow> hs_after k (hs_pieces (hs_new s)) s = s')"
proof -
  obtain ps s' where p: "hs_pieces (hs_new s) = ps @ [([], s')]" "pieces_of ps (lines_text ls @ l @ [LF]) s'" "length (fst (last ps)) = 2" "reads_to s r s'"
    using hs_pieces_lines[OF assms] by (auto simp: hs_new_def)
  define qs where "qs = butlast ps"
  have "ps = qs @ [last ps]" "snd (last ps) = s'" using p(2) by (simp_all add: pieces_of_def qs_def)
  then obtain z where z: "ps = qs @ [(z, s')]" by (metis prod.collapse)
  have zl: "length z = 2" using p(3) z by simp
  have qs: "list_all (\<lambda>p. fst p \<noteq> []) qs" "hs_text qs @ z = lines_text ls @ l @ [LF]" using p(2) z by (simp_all add: pieces_of_def hs_text_def)
  have "length (hs_text qs @ z) = length (lines_text ls @ l) + 1" unfolding qs(2) by simp
  then have len: "length (hs_text qs) + 1 = length (lines_text ls @ l)" using zl by simp
  have "hs_after k (hs_pieces (hs_new s)) s = s'" if "length (lines_text ls @ l) \<le> k" for k
  proof -
    have "length (hs_text qs) \<le> k" "0 < k - length (hs_text qs)" using that len by linarith+
    then show ?thesis using hs_after_pieces[OF qs(1), of k "[(z, s'), ([], s')]" s] by (simp add: p(1) z)
  qed
  moreover have "hs_text (hs_pieces (hs_new s)) = lines_text ls @ l @ [LF]" using p(1,2) by (simp add: hs_text_def pieces_of_def)
  ultimately show ?thesis using p(4) by auto
qed

text \<open>
  A message header read from the session: \<^verbatim>\<open>MessageHeader::read\<close> has then asked for one character more than it keeps.  Nothing is said of the session when an
  exception is thrown.  The stream of the model ends with the first empty piece; the code could go on behind a byte \<^verbatim>\<open>0xFF\<close> at the beginning of a line.
\<close>

definition hs_read_header :: "conv \<Rightarrow> message_header \<Rightarrow> http_session \<Rightarrow> (message_header \<times> http_session) result" where
  "hs_read_header conv h s =
    (let ps = hs_pieces (hs_new s); tx = hs_text ps
     in case mh_read conv h tx of
          (h, Inl e) \<Rightarrow> Inl e
        | (h, Inr rest) \<Rightarrow> Inr (h, hs_after (length tx - length rest + 1) ps s))"

definition hs_read_request :: "conv \<Rightarrow> http_request \<Rightarrow> http_session \<Rightarrow> (http_request \<times> http_session) result" where
  "hs_read_request conv q s =
    (let ps = hs_pieces (hs_new s); tx = hs_text ps
     in rbind (req_read conv q tx) (\<lambda>(q, rest). Inr (q, hs_after (length tx - length rest) ps s)))"

section \<open>HTTPChunkedStream\<close>

record chunked_dev =
  c_session :: http_session
  c_chunk :: int
  c_trailer :: "message_header option"

definition cs_new :: "http_session \<Rightarrow> message_header option \<Rightarrow> chunked_dev" where
  "cs_new s pTrailer = \<lparr>c_session = s, c_chunk = 0, c_trailer = pTrailer\<rparr>"

fun cs_digits :: "nat \<Rightarrow> int \<Rightarrow> http_session \<Rightarrow> string \<times> int \<times> http_session" where
  "cs_digits 0 ch s = ([], ch, s)"
| "cs_digits (Suc k) ch s =
    (if isHexDigit ch then (case s_get s of (ch', s) \<Rightarrow> case cs_digits k ch' s of (chunkLen, r) \<Rightarrow> (to_char ch # chunkLen, r)) else ([], ch, s))"

text \<open>The first part of \<^verbatim>\<open>readFromDevice\<close>: the size of the next chunk.  The flag is false when it returns \<^verbatim>\<open>eof\<close>.\<close>

definition cs_chunk_size :: "chunked_dev \<Rightarrow> bool \<times> chunked_dev" where
  "cs_chunk_size d =
    (if c_chunk d = 0 then
       let (ch, s) = s_get (c_session d);
           (ch, s) = s_while isSpace ch s;
           (chunkLen, ch, s) = cs_digits 8 ch s
       in if ch \<noteq> -1 \<and> \<not> (isSpace ch \<or> ch = 59) then (False, d\<lparr>c_session := s\<rparr>)
          else let (ch, s) = s_while (\<lambda>ch. ch \<noteq> 10) ch s
               in case tryParseHex chunkLen of
                    Some chunk \<Rightarrow> (True, d\<lparr>c_session := s, c_chunk := chunk\<rparr>)
                  | None \<Rightarrow> (False, d\<lparr>c_session := s_setException MessageException s, c_chunk := -1\<rparr>)
     else (True, d))"

definition cs_body :: "conv \<Rightarrow> chunked_dev reader" where
  "cs_body conv len d =
    (if c_chunk d > 0 then
       let len = (if int len > c_chunk d then nat (c_chunk d) else len);
           (n, bs, s) = s_read len (c_session d)
       in if n > 0 then Inr (Some bs, d\<lparr>c_session := s, c_chunk := c_chunk d - n\<rparr>)
          else Inr (Some bs, d\<lparr>c_session := s_setException MessageException s\<rparr>)
     else if c_chunk d = 0 then
       let (ch, s) = s_peek (c_session d)
       in if ch \<noteq> -1 \<and> ch \<noteq> 13 \<and> ch \<noteq> 10 then
            rbind (hs_read_header conv (case c_trailer d of Some h \<Rightarrow> h | None \<Rightarrow> mh_new) s) (\<lambda>(h, s).
              Inr (Some [], d\<lparr>c_session := s, c_chunk := -1, c_trailer := map_option (\<lambda>_. h) (c_trailer d)\<rparr>))
          else let (ch, s) = s_get s; (ch, s) = s_while (\<lambda>ch. ch \<noteq> 10) ch s
               in Inr (Some [], d\<lparr>c_session := s, c_chunk := -1\<rparr>)
     else Inr (None, d))"

definition cs_readFromDevice :: "conv \<Rightarrow> chunked_dev reader" where
  "cs_readFromDevice conv len d = (case cs_chunk_size d of (ok, d) \<Rightarrow> if ok then cs_body conv len d else Inr (None, d))"

text \<open>\<^verbatim>\<open>NumberFormatter::appendHex\<close> neither throws nor writes out of its buffer here, see \<open>cs_hex_eq\<close>.\<close>

definition cs_hex :: "nat \<Rightarrow> string" where
  "cs_hex len = (case nf_appendHex t_int64 [] (int len) False of Ret str \<Rightarrow> str | _ \<Rightarrow> [])"

definition cs_writeToDevice :: "chunked_dev writer" where
  "cs_writeToDevice bs d =
    (let (n, s) = s_write (cs_hex (length bs) @ [CR, LF] @ bs @ [CR, LF]) (c_session d)
     in (int (length bs), d\<lparr>c_session := s\<rparr>))"

text \<open>The output stream for a header is flushed when it is destroyed.\<close>

definition hs_send :: "string \<Rightarrow> http_session \<Rightarrow> http_session" where
  "hs_send bs s = b_dev (snd (bsb_sync hs_writeToDevice (bsb_sputn hs_writeToDevice bs (bsb_new False True s))))"

definition cs_close :: "chunked_dev sbuf \<Rightarrow> chunked_dev sbuf" where
  "cs_close b =
    (if b_out b then
       let b = snd (bsb_sync cs_writeToDevice b);
           d = b_dev b;
           s = (case c_trailer d of
                  Some h \<Rightarrow> if h_fields h \<noteq> [] then hs_send (''0'' @ [CR, LF] @ mh_write h @ [CR, LF]) (c_session d)
                    else snd (s_write (''0'' @ [CR, LF, CR, LF]) (c_session d))
                | None \<Rightarrow> snd (s_write (''0'' @ [CR, LF, CR, LF]) (c_session d)))
       in b\<lparr>b_dev := d\<lparr>c_session := s\<rparr>\<rparr>
     else b)"

subsection \<open>Sizes\<close>

lemma hexdigit_char: "isHexDigit (schar c) \<longleftrightarrow> is_digit 16 c"
proof -
  define n :: nat where "n = of_char c"
  have s: "schar c = (if n < 128 then int n else int n - 256)" "n < 256"
    unfolding n_def by (simp_all add: schar_def Let_def of_nat_of_char[where 'a = int, symmetric] del: of_nat_of_char)
  have h: "isHexDigit (schar c) \<longleftrightarrow> in_span 48 57 (schar c) \<or> in_span 65 70 (schar c) \<or> in_span 97 102 (schar c)"
    using ascii_table_all[OF schar_range, of c] by blast
  have "is_digit 16 c \<longleftrightarrow> 48 \<le> n \<and> n \<le> 57 \<or> 65 \<le> n \<and> n \<le> 70 \<or> 97 \<le> n \<and> n \<le> 102"
    by (auto simp: digit_val_def n_def[symmetric] Let_def)
  then show ?thesis unfolding h unfolding in_span_def s(1) using s(2) by auto
qed

lemma num_val_bound: "list_all (is_digit b) ds \<Longrightarrow> num_val b ds < b ^ length ds"
proof (induction ds rule: rev_induct)
  case (snoc d ds)
  obtain v where v: "digit_val b d = Some v" "v < b" using snoc.prems by (auto simp: digit_val_def Let_def split: if_splits)
  have "num_val b (ds @ [d]) = num_val b ds * b + v" using v(1) by (simp add: num_val_def)
  moreover have "num_val b ds < b ^ length ds" using snoc by simp
  then have "(num_val b ds + 1) * b \<le> b ^ length ds * b" by (intro mult_right_mono) auto
  ultimately show ?case using v(2) by (simp add: algebra_simps)
qed simp

lemma hex_digits_parse:
  assumes "ds \<noteq> []" "length ds \<le> 8" "list_all (is_digit 16) ds"
  shows "tryParseHex ds = Some (int (num_val 16 ds))"
proof -
  have d: "\<forall>c \<in> set ds. is_digit 16 c" using assms(3) by (simp add: list_all_iff)
  have "digit_val 16 CHR ''x'' = None" "digit_val 16 CHR ''X'' = None" by (simp_all add: digit_val_def)
  then have x: "CHR ''x'' \<notin> set ds" "CHR ''X'' \<notin> set ds" using d by metis+
  have "\<not> isspace (hd ds)" using d assms(1) no_digit(3)[of 16] by (metis hd_in_set order_refl)
  then have dw: "dropWhile isspace ds = ds" using assms(1) by (cases ds) auto
  have "ds ! 1 \<noteq> CHR ''x'' \<and> ds ! 1 \<noteq> CHR ''X''" if "2 < length ds" 
  proof -
    have "ds ! 1 \<in> set ds" using that by (intro nth_mem) linarith
    then show ?thesis using x by metis
  qed
  then have p: "skip_hex_prefix ds = ds" unfolding skip_hex_prefix_def dw Let_def by auto
  have "num_val 16 ds < 16 ^ 8" using num_val_bound[OF assms(3)] power_increasing[of "length ds" 8 "16 :: nat"] assms(2) by simp
  then have t: "in_type t_unsigned (int (num_val 16 ds))" by (simp add: in_type_def it_min_def it_max_def t_unsigned_def)
  have f: "filter (is_digit 16) ds = ds" using d by simp
  show ?thesis unfolding tryParseHex_def p
    using strToInt_body[of t_unsigned 16 False ds "CHR '',''" "int (num_val 16 ds)"] ok64(4) assms(1,2) d t f by (simp add: sg_def)
qed

subsection \<open>Chunks are decoded\<close>

text \<open>
  A chunk is its size in hexadecimal, an extension, which is ignored, and the data; the last chunk has the size zero, and behind it come the fields of the
  trailer.
\<close>

type_synonym chunk = "string \<times> string \<times> string"

definition size_ok :: "string \<Rightarrow> nat \<Rightarrow> bool" where
  "size_ok hex n \<longleftrightarrow> hex \<noteq> [] \<and> length hex \<le> 8 \<and> list_all (is_digit 16) hex \<and> num_val 16 hex = n"

definition ext_ok :: "string \<Rightarrow> bool" where
  "ext_ok ext \<longleftrightarrow> line_ok ext \<and> (ext = [] \<or> space (hd ext) \<or> hd ext = CHR '';'')"

definition chunk_ok :: "chunk \<Rightarrow> bool" where
  "chunk_ok c = (case c of (hex, ext, data) \<Rightarrow> size_ok hex (length data) \<and> ext_ok ext \<and> data \<noteq> [])"

definition chunk_text :: "chunk \<Rightarrow> string" where
  "chunk_text c = (case c of (hex, ext, data) \<Rightarrow> hex @ ext @ CR # LF # data @ [CR, LF])"

abbreviation chunk_data :: "chunk \<Rightarrow> string" where
  "chunk_data c \<equiv> snd (snd c)"

definition field_line :: "string \<times> string \<Rightarrow> string" where
  "field_line f = (case f of (name, v) \<Rightarrow> name @ '': '' @ v @ [CR])"

definition fields_safe :: "message_header \<Rightarrow> nvc \<Rightarrow> bool" where
  "fields_safe h m \<longleftrightarrow> fields_ok h m \<and> list_all (\<lambda>f. line_ok (field_line f) \<and> \<not> line_ends (field_line f)) m"

lemma write_lines: "mh_write g = lines_text (map field_line (h_fields g))"
  by (auto simp: mh_write_def field_line_def intro!: arg_cong[where f = concat])

lemma cr_line [simp]: "line_ok [CR]" "line_ends [CR]"
  by (simp_all add: line_ok_def line_ends_def)

lemma hs_read_header_ok:
  assumes "pending s = lines_text (map field_line m) @ CR # LF # r" "fields_safe h m" "h_fields h = []"
  shows "\<exists>s'. hs_read_header conv h s = Inr (h\<lparr>h_fields := m, h_decodedOnRead := h_autoDecode h\<rparr>, s') \<and> reads_to s r s'"
proof -
  let ?t = "lines_text (map field_line m)"
  have ls: "list_all (\<lambda>l. line_ok l \<and> \<not> line_ends l) (map field_line m)" using assms(2) by (auto simp: fields_safe_def list_all_iff)
  obtain s' where h: "hs_text (hs_pieces (hs_new s)) = ?t @ [CR] @ [LF]" "reads_to s r s'"
      "\<forall>k. length (?t @ [CR]) \<le> k \<longrightarrow> hs_after k (hs_pieces (hs_new s)) s = s'"
    using header_stream[of s "map field_line m" "[CR]" r] assms(1) ls by auto
  have "mh_read conv h (?t @ [CR] @ [LF]) = (h\<lparr>h_fields := m, h_decodedOnRead := h_autoDecode h\<rparr>, Inr [CR, LF])"
    using header_tail[of h m "[CR, LF]" conv h] assms(2,3) write_lines[of "h\<lparr>h_fields := m\<rparr>"] by (simp add: fields_safe_def)
  then show ?thesis using h by (auto simp: hs_read_header_def Let_def)
qed

lemma space_lf [simp]: "space LF"
  by code_simp

lemma not_space [simp]: "\<not> isSpace (-1)" "\<not> isHexDigit (-1)"
  by code_simp+

lemma digit_not_space: "is_digit 16 c \<Longrightarrow> \<not> space c \<and> c \<noteq> CHR 0xFF"
proof -
  assume a: "is_digit 16 c"
  then have h: "isHexDigit (schar c)" by (simp add: hexdigit_char)
  then have "in_span 48 57 (schar c) \<or> in_span 65 70 (schar c) \<or> in_span 97 102 (schar c)" using ascii_table_all[OF schar_range, of c] by blast
  moreover have "space c \<longleftrightarrow> in_span 9 13 (schar c) \<or> schar c = 32" using ascii_table_all[OF schar_range, of c] by blast
  ultimately have "\<not> space c" unfolding in_span_def by linarith
  then show ?thesis using h schar_eof[of c] not_space(2) by auto
qed

lemma space_not_eof: "space c \<Longrightarrow> c \<noteq> CHR 0xFF"
  using schar_eof[of c] not_space(1) by auto

lemma cs_digits_run:
  assumes "cur s (ds @ tx) ch s'" "list_all (is_digit 16) ds" "length ds \<le> k" "tx = [] \<or> \<not> is_digit 16 (hd tx)"
  shows "\<exists>ch' s''. cs_digits k ch s' = (ds, ch', s'') \<and> cur s tx ch' s''"
  using assms
proof (induction ds arbitrary: k ch s')
  case Nil
  have "\<not> isHexDigit ch" using Nil.prems(1,4) by (cases tx) (auto simp: cur_def hexdigit_char)
  then show ?case using Nil.prems(1) by (cases k) auto
next
  case (Cons c ds)
  obtain k' where k: "k = Suc k'" using Cons.prems(3) by (cases k) auto
  obtain ch1 s1 where g: "s_get s' = (ch1, s1)" "cur s (ds @ tx) ch1 s1" using cur_get[of s c "ds @ tx" ch s'] Cons.prems(1) by auto
  have "ch = schar c" "isHexDigit ch" using Cons.prems(1,2) by (auto simp: cur_def hexdigit_char)
  then show ?case using Cons.IH[OF g(2), of k'] Cons.prems g(1) k by auto
qed

lemma cs_size_line:
  assumes "pending (c_session d) = sp @ hex @ ext @ CR # LF # r" "list_all space sp" "size_ok hex n" "ext_ok ext" "c_chunk d = 0"
  shows "\<exists>s'. cs_chunk_size d = (True, d\<lparr>c_session := s', c_chunk := int n\<rparr>) \<and> reads_to (c_session d) r s'"
proof -
  let ?s = "c_session d" and ?e = "ext @ CR # LF # r"
  have x: "hex \<noteq> []" "length hex \<le> 8" "list_all (is_digit 16) hex" "num_val 16 hex = n" using assms(3) by (auto simp: size_ok_def)
  obtain ch s1 where g: "s_get ?s = (ch, s1)" "cur ?s (sp @ hex @ ?e) ch s1" using s_get_cur[of ?s] assms(1) by auto
  have "\<not> space (hd (hex @ ?e))" using x(1,3) digit_not_space by (cases hex) auto
  moreover have "list_all (\<lambda>c. c \<noteq> CHR 0xFF \<and> space c) sp" using assms(2) space_not_eof by (auto simp: list_all_iff)
  ultimately obtain ch2 s2 where w: "s_while isSpace ch s1 = (ch2, s2)" "cur ?s (hex @ ?e) ch2 s2" using s_while_run[OF g(2), of isSpace] by blast
  have e: "?e = hd ?e # tl ?e" "space (hd ?e) \<or> hd ?e = CHR '';''" using assms(4) by (cases ext; auto simp: ext_ok_def)+
  have "\<not> is_digit 16 CHR '';''" by (simp add: digit_val_def)
  then have "\<not> is_digit 16 (hd ?e)" using e(2) digit_not_space by metis
  then obtain ch3 s3 where c: "cs_digits 8 ch2 s2 = (hex, ch3, s3)" "cur ?s ?e ch3 s3" using cs_digits_run[OF w(2) x(3) x(2)] by blast
  have ch3: "ch3 = schar (hd ?e)" using c(2) cur_reads e(1) by metis
  have semi: "schar CHR '';'' = 59" by code_simp
  have q: "isSpace ch3 \<or> ch3 = 59" using e(2) semi ch3 by auto
  have "list_all (\<lambda>c. c \<noteq> CHR 0xFF \<and> schar c \<noteq> 10) (ext @ [CR])" using assms(4) by (auto simp: ext_ok_def line_ok_def list_all_iff schar_lf)
  moreover have "cur ?s ((ext @ [CR]) @ LF # r) ch3 s3" using c(2) by simp
  ultimately obtain ch4 s4 where l: "s_while (\<lambda>ch. ch \<noteq> 10) ch3 s3 = (ch4, s4)" "cur ?s (LF # r) ch4 s4"
    using s_while_run[of ?s "ext @ [CR]" "LF # r" ch3 s3 "\<lambda>ch. ch \<noteq> 10"] by (auto simp: schar_lf)
  have "cs_chunk_size d = (True, d\<lparr>c_session := s4, c_chunk := int n\<rparr>)"
    using g(1) w(1) c(1) q l(1) hex_digits_parse[OF x(1-3)] x(4) assms(5) by (auto simp: cs_chunk_size_def Let_def)
  then show ?thesis using l(2) cur_reads by blast
qed

definition trailer_of :: "message_header option \<Rightarrow> nvc \<Rightarrow> message_header option" where
  "trailer_of t m = (if m = [] then t else map_option (\<lambda>h. h\<lparr>h_fields := m, h_decodedOnRead := h_autoDecode h\<rparr>) t)"

definition trailer_ok :: "message_header option \<Rightarrow> nvc \<Rightarrow> bool" where
  "trailer_ok t m \<longleftrightarrow> (let h = (case t of Some h \<Rightarrow> h | None \<Rightarrow> mh_new) in fields_safe h m \<and> h_fields h = [])"

definition last_text :: "string \<Rightarrow> string \<Rightarrow> nvc \<Rightarrow> string" where
  "last_text hex ext m = hex @ ext @ CR # LF # lines_text (map field_line m) @ [CR, LF]"

text \<open>
  What a chunked stream still delivers: the rest of the current chunk and the chunks that follow, \<open>nx\<close> is behind the body on the connection, \<open>m\<close> are the
  fields of the trailer.
\<close>

definition cs_holds :: "http_session \<Rightarrow> string \<Rightarrow> message_header option \<Rightarrow> nvc \<Rightarrow> string \<Rightarrow> chunked_dev \<Rightarrow> bool" where
  "cs_holds s0 nx t m xs d \<longleftrightarrow>
    (\<exists>data sp cs hex ext. c_chunk d = int (length data) \<and> xs = data @ concat (map chunk_data cs) \<and>
       reads_to s0 (data @ sp @ concat (map chunk_text cs) @ last_text hex ext m @ nx) (c_session d) \<and>
       list_all space sp \<and> list_all chunk_ok cs \<and> size_ok hex 0 \<and> ext_ok ext \<and> trailer_ok t m \<and> c_trailer d = t) \<or>
    c_chunk d = -1 \<and> xs = [] \<and> reads_to s0 nx (c_session d) \<and> c_trailer d = trailer_of t m"

definition cs_finished :: "http_session \<Rightarrow> string \<Rightarrow> message_header option \<Rightarrow> nvc \<Rightarrow> chunked_dev \<Rightarrow> bool" where
  "cs_finished s0 nx t m d \<longleftrightarrow> c_chunk d = -1 \<and> reads_to s0 nx (c_session d) \<and> c_trailer d = trailer_of t m"

text \<open>Reading within a chunk; the text behind its data does not matter.\<close>

lemma cs_body_some:
  assumes "0 < n" "c_chunk d = int k" "0 < k" "pending (c_session d) \<noteq> []"
  shows "\<exists>bs s'. cs_body conv n d = Inr (Some bs, d\<lparr>c_session := s', c_chunk := int (k - length bs)\<rparr>) \<and> bs \<noteq> [] \<and> length bs \<le> n \<and> length bs \<le> k \<and>
    pending (c_session d) = bs @ pending s' \<and> reads_to (c_session d) (pending s') s'"
proof -
  define len where "len = (if int n > c_chunk d then nat (c_chunk d) else n)"
  have len: "0 < len" "len \<le> n" "len \<le> k" using assms(1-3) by (auto simp: len_def)
  obtain bs s' where b: "s_read len (c_session d) = (int (length bs), bs, s')" "pending (c_session d) = bs @ pending s'" "length bs \<le> len"
      "bs = [] \<longrightarrow> pending (c_session d) = []" "reads_to (c_session d) (pending s') s'"
    using s_read_some[OF len(1), of "c_session d"] by blast
  have ne: "bs \<noteq> []" "c_chunk d > 0" using b(4) assms(2-4) by auto
  then have "cs_body conv n d = Inr (Some bs, d\<lparr>c_session := s', c_chunk := c_chunk d - int (length bs)\<rparr>)"
    using b(1) by (simp add: cs_body_def len_def[symmetric] Let_def)
  moreover have "c_chunk d - int (length bs) = int (k - length bs)" using assms(2) b(3) len(3) by simp
  ultimately show ?thesis using ne b(2,3,5) len by (intro exI[of _ bs] exI[of _ s']) auto
qed

lemma cs_body_data:
  assumes "0 < n" "c_chunk d = int (length data)" "data \<noteq> []" "pending (c_session d) = data @ r"
  shows "\<exists>bs data' s'. cs_body conv n d = Inr (Some bs, d\<lparr>c_session := s', c_chunk := int (length data')\<rparr>) \<and> bs \<noteq> [] \<and> length bs \<le> n \<and>
    data = bs @ data' \<and> reads_to (c_session d) (data' @ r) s'"
proof -
  have "pending (c_session d) \<noteq> []" "0 < length data" using assms(3,4) by auto
  then obtain bs s' where b: "cs_body conv n d = Inr (Some bs, d\<lparr>c_session := s', c_chunk := int (length data - length bs)\<rparr>)" "bs \<noteq> []" "length bs \<le> n"
      "length bs \<le> length data" "pending (c_session d) = bs @ pending s'" "reads_to (c_session d) (pending s') s'"
    using cs_body_some[OF assms(1,2)] by blast
  have "bs @ pending s' = data @ r" using b(5) assms(4) by simp
  then have t: "bs = take (length bs) data" "pending s' = drop (length bs) data @ r" using b(4) by (auto simp: append_eq_append_conv_if)
  moreover have "data = bs @ drop (length bs) data" using t(1) by (metis append_take_drop_id)
  ultimately show ?thesis using b(1-3,6) by (intro exI[of _ bs] exI[of _ "drop (length bs) data"] exI[of _ s']) auto
qed

lemma cs_holds_data:
  assumes "0 < n" "c_chunk d = int (length data)" "data \<noteq> []" "list_all space sp" "list_all chunk_ok cs" "size_ok hex 0" "ext_ok ext" "trailer_ok t m" "c_trailer d = t"
    "reads_to s0 (data @ sp @ concat (map chunk_text cs) @ last_text hex ext m @ nx) (c_session d)"
  shows "\<exists>bs ys d'. cs_body conv n d = Inr (Some bs, d') \<and> bs \<noteq> [] \<and> length bs \<le> n \<and> data @ concat (map chunk_data cs) = bs @ ys \<and> cs_holds s0 nx t m ys d'"
proof -
  let ?r = "sp @ concat (map chunk_text cs) @ last_text hex ext m @ nx"
  have "pending (c_session d) = data @ ?r" using assms(10) by (simp add: reads_to_def)
  from cs_body_data[OF assms(1-3) this, of conv] obtain bs data' s' where
    b: "cs_body conv n d = Inr (Some bs, d\<lparr>c_session := s', c_chunk := int (length data')\<rparr>)" "bs \<noteq> []" "length bs \<le> n" "data = bs @ data'"
      "reads_to (c_session d) (data' @ ?r) s'" by blast
  let ?d = "d\<lparr>c_session := s', c_chunk := int (length data')\<rparr>"
  have "reads_to s0 (data' @ ?r) s'" using reads_to_trans[OF assms(10) b(5)] .
  then have "cs_holds s0 nx t m (data' @ concat (map chunk_data cs)) ?d" unfolding cs_holds_def using assms(4-9)
    by (intro disjI1 exI[of _ data'] exI[of _ sp] exI[of _ cs] exI[of _ hex] exI[of _ ext]) simp
  then show ?thesis using b(1-4) by (intro exI[of _ bs] exI[of _ "data' @ concat (map chunk_data cs)"] exI[of _ ?d]) simp
qed

lemma cs_read_some:
  assumes "0 < n" "cs_holds s0 nx t m xs d" "xs \<noteq> []"
  shows "\<exists>bs ys d'. cs_readFromDevice conv n d = Inr (Some bs, d') \<and> bs \<noteq> [] \<and> length bs \<le> n \<and> xs = bs @ ys \<and> cs_holds s0 nx t m ys d'"
proof -
  obtain data sp cs hex ext where h: "c_chunk d = int (length data)" "xs = data @ concat (map chunk_data cs)"
      "reads_to s0 (data @ sp @ concat (map chunk_text cs) @ last_text hex ext m @ nx) (c_session d)"
      "list_all space sp" "list_all chunk_ok cs" "size_ok hex 0" "ext_ok ext" "trailer_ok t m" "c_trailer d = t"
    using assms(2,3) unfolding cs_holds_def by blast
  show ?thesis
  proof (cases "data = []")
    case False
    then have "cs_readFromDevice conv n d = cs_body conv n d" using h(1) by (simp add: cs_readFromDevice_def cs_chunk_size_def)
    then show ?thesis using cs_holds_data[OF assms(1) h(1) False h(4-9,3), of conv] h(2) by simp
  next
    case True
    then obtain hx ex dt cs' where cs: "cs = (hx, ex, dt) # cs'" using h(2) assms(3) by (cases cs) auto
    have ok: "size_ok hx (length dt)" "ext_ok ex" "dt \<noteq> []" "list_all chunk_ok cs'" using h(5) cs by (auto simp: chunk_ok_def)
    let ?r = "dt @ [CR, LF] @ concat (map chunk_text cs') @ last_text hex ext m @ nx"
    have "pending (c_session d) = sp @ hx @ ex @ CR # LF # ?r" using h(3) True cs by (simp add: reads_to_def chunk_text_def)
    then obtain s' where s: "cs_chunk_size d = (True, d\<lparr>c_session := s', c_chunk := int (length dt)\<rparr>)" "reads_to (c_session d) ?r s'"
      using cs_size_line[OF _ h(4) ok(1,2)] h(1) True by auto
    let ?d = "d\<lparr>c_session := s', c_chunk := int (length dt)\<rparr>"
    have "reads_to s0 ?r (c_session ?d)" using reads_to_trans[OF h(3) s(2)] by simp
    then show ?thesis using cs_holds_data[OF assms(1) _ ok(3) _ ok(4) h(6-8), of ?d "[CR, LF]" s0 nx conv] s(1) h(2,9) True cs
      by (auto simp: cs_readFromDevice_def)
  qed
qed

lemma line_end_skip:
  assumes "pending s = CR # LF # r"
  shows "\<exists>ch s1 ch' s'. s_get s = (ch, s1) \<and> s_while (\<lambda>ch. ch \<noteq> 10) ch s1 = (ch', s') \<and> reads_to s r s'"
proof -
  obtain ch s1 where g: "s_get s = (ch, s1)" "cur s ([CR] @ LF # r) ch s1" using s_get_cur[of s] assms by auto
  obtain ch' s' where "s_while (\<lambda>ch. ch \<noteq> 10) ch s1 = (ch', s')" "cur s (LF # r) ch' s'"
    using s_while_run[OF g(2), of "\<lambda>ch. ch \<noteq> 10"] by (auto simp: schar_lf)
  then show ?thesis using g(1) cur_reads by blast
qed

lemma cs_body_last:
  assumes "c_chunk d = 0" "pending (c_session d) = lines_text (map field_line m) @ CR # LF # nx" "trailer_ok t m" "c_trailer d = t"
  shows "\<exists>s'. cs_body conv n d = Inr (Some [], d\<lparr>c_session := s', c_chunk := -1, c_trailer := trailer_of t m\<rparr>) \<and> reads_to (c_session d) nx s'"
proof (cases m)
  case Nil
  have p: "pending (c_session d) = CR # LF # nx" using assms(2) Nil by simp
  have cr: "schar CR = 13" by code_simp
  obtain s1 where s1: "s_peek (c_session d) = (13, s1)" "reads_to (c_session d) (CR # LF # nx) s1" using s_peek_char[OF p] cr by auto
  then have "pending s1 = CR # LF # nx" by (simp add: reads_to_def)
  from line_end_skip[OF this] obtain ch s2 ch' s' where
    "s_get s1 = (ch, s2)" "s_while (\<lambda>ch. ch \<noteq> 10) ch s2 = (ch', s')" "reads_to s1 nx s'" by blast
  then show ?thesis using s1 reads_to_trans[OF s1(2)] assms(1,4) Nil by (auto simp: cs_body_def Let_def trailer_of_def)
next
  case (Cons f m')
  let ?h = "case t of Some h \<Rightarrow> h | None \<Rightarrow> mh_new"
  have ok: "fields_safe ?h m" "h_fields ?h = []" using assms(3) by (auto simp: trailer_ok_def Let_def)
  obtain c tx where c: "pending (c_session d) = c # tx" "c \<noteq> CR" "c \<noteq> LF" "c \<noteq> CHR 0xFF"
  proof -
    obtain name v where f: "f = (name, v)" by (cases f)
    have "line_ok (field_line f)" "field_ok ?h (name, v, [])" using ok(1) Cons f by (auto simp: fields_safe_def fields_ok_def)
    then show ?thesis using that assms(2) Cons f by (cases name) (auto simp: field_line_def line_ok_def field_ok_def)
  qed
  obtain s1 where s1: "s_peek (c_session d) = (schar c, s1)" "reads_to (c_session d) (c # tx) s1" using s_peek_char[OF c(1)] by auto
  have ne: "schar c \<noteq> -1" "schar c \<noteq> 13" "schar c \<noteq> 10"
  proof -
    have "to_char 13 = CR" by code_simp
    then show "schar c \<noteq> 13" using c(2) by (metis to_char_schar)
  qed (use c schar_eof schar_lf in auto)
  have "pending s1 = lines_text (map field_line m) @ CR # LF # nx" using s1(2) c(1) assms(2) by (simp add: reads_to_def)
  from hs_read_header_ok[OF this ok, of conv] obtain s' where
    "hs_read_header conv ?h s1 = Inr (?h\<lparr>h_fields := m, h_decodedOnRead := h_autoDecode ?h\<rparr>, s')" "reads_to s1 nx s'" by blast
  then show ?thesis using s1 ne reads_to_trans[OF s1(2)] assms(1,4) Cons
    by (cases t) (auto simp: cs_body_def Let_def trailer_of_def)
qed

lemma cs_read_end:
  assumes "cs_holds s0 nx t m [] d"
  shows "\<exists>r d'. cs_readFromDevice conv n d = Inr (r, d') \<and> (r = None \<or> r = Some []) \<and> cs_holds s0 nx t m [] d' \<and> cs_finished s0 nx t m d'"
proof -
  consider (fin) "c_chunk d = -1" "reads_to s0 nx (c_session d)" "c_trailer d = trailer_of t m"
    | (last) sp hex ext where "c_chunk d = 0" "reads_to s0 (sp @ last_text hex ext m @ nx) (c_session d)" "list_all space sp" "size_ok hex 0" "ext_ok ext"
        "trailer_ok t m" "c_trailer d = t"
  proof -
    have "cs = []" if "list_all chunk_ok cs" "concat (map chunk_data cs) = []" for cs using that by (cases cs) (auto simp: chunk_ok_def)
    then show ?thesis using assms that unfolding cs_holds_def by fastforce
  qed
  then show ?thesis
  proof cases
    case fin then show ?thesis by (auto simp: cs_readFromDevice_def cs_chunk_size_def cs_body_def cs_holds_def cs_finished_def)
  next
    case last
    let ?r = "lines_text (map field_line m) @ CR # LF # nx"
    have "pending (c_session d) = sp @ hex @ ext @ CR # LF # ?r" using last(2) by (simp add: reads_to_def last_text_def)
    from cs_size_line[OF this last(3-5,1)] obtain s1 where s1: "cs_chunk_size d = (True, d\<lparr>c_session := s1, c_chunk := 0\<rparr>)" "reads_to (c_session d) ?r s1" by auto
    let ?d = "d\<lparr>c_session := s1, c_chunk := 0\<rparr>"
    have "pending (c_session ?d) = ?r" using s1(2) by (simp add: reads_to_def)
    from cs_body_last[OF _ this last(6), of conv n] obtain s' where
      "cs_body conv n ?d = Inr (Some [], ?d\<lparr>c_session := s', c_chunk := -1, c_trailer := trailer_of t m\<rparr>)" "reads_to s1 nx s'" using last(7) by auto
    then show ?thesis using s1 reads_to_trans[OF last(2) reads_to_trans[OF s1(2)]]
      by (auto simp: cs_readFromDevice_def cs_holds_def cs_finished_def)
  qed
qed

interpretation chunked: input_device "cs_readFromDevice conv" "cs_holds s0 nx t m" "cs_finished s0 nx t m" for conv s0 nx t m
  by unfold_locales (rule cs_read_some, assumption+, rule cs_read_end)

section \<open>Writing\<close>

datatype out_op = Put string | Flush

fun bsb_writes :: "'d writer \<Rightarrow> out_op list \<Rightarrow> 'd sbuf \<Rightarrow> 'd sbuf" where
  "bsb_writes wr [] b = b"
| "bsb_writes wr (Put cs # ops) b = bsb_writes wr ops (bsb_sputn wr cs b)"
| "bsb_writes wr (Flush # ops) b = bsb_writes wr ops (snd (bsb_sync wr b))"

fun ops_text :: "out_op list \<Rightarrow> string" where
  "ops_text [] = []"
| "ops_text (Put cs # ops) = cs @ ops_text ops"
| "ops_text (Flush # ops) = ops_text ops"

text \<open>
  What a device for writing promises: it takes all that it is given, as long as it \<open>fits\<close>; \<open>written xs\<close> says that \<open>xs\<close> has been written so far.
\<close>

lemma put_char [simp]: "to_char (uchar c) = c"
  using uchar_range(2,3)[of c] by (simp add: to_char_def uchar_def)

locale output_device =
  fixes wr :: "'d writer"
    and written :: "string \<Rightarrow> 'd \<Rightarrow> bool"
    and fits :: "string \<Rightarrow> bool"
  assumes wr_ok: "\<lbrakk>bs \<noteq> []; length bs \<le> 4096; written xs d; fits (xs @ bs)\<rbrakk> \<Longrightarrow> \<exists>d'. wr bs d = (int (length bs), d') \<and> written (xs @ bs) d'"
    and fits_prefix: "fits (xs @ ys) \<Longrightarrow> fits xs"
begin

definition holds_out :: "string \<Rightarrow> 'd sbuf \<Rightarrow> bool" where
  "holds_out xs b \<longleftrightarrow> b_out b \<and> b_size b = 4096 \<and> length (b_put b) \<le> 4096 \<and> (\<exists>ys. xs = ys @ b_put b \<and> written ys (b_dev b))"

lemma output_new: "written [] d \<Longrightarrow> holds_out [] (bsb_new i True d)"
  by (simp add: holds_out_def bsb_new_def)

lemma flush_output:
  assumes "holds_out xs b" "b_put b \<noteq> []" "fits xs"
  shows "\<exists>b'. bsb_flushBuffer wr b = (int (length (b_put b)), b') \<and> holds_out xs b' \<and> b_put b' = []"
proof -
  obtain ys where y: "xs = ys @ b_put b" "written ys (b_dev b)" "length (b_put b) \<le> 4096" using assms(1) by (auto simp: holds_out_def)
  obtain d' where "wr (b_put b) (b_dev b) = (int (length (b_put b)), d')" "written (ys @ b_put b) d'" using wr_ok[OF assms(2) y(3,2)] assms(3) y(1) by auto
  then show ?thesis using assms(1) y(1) by (auto simp: bsb_flushBuffer_def holds_out_def)
qed

lemma sputc_output:
  assumes "holds_out xs b" "fits xs"
  shows "\<exists>b'. bsb_sputc wr c b = (uchar c, b') \<and> holds_out (xs @ [c]) b'"
proof (cases "length (b_put b) < b_size b")
  case True then show ?thesis using assms(1) by (auto simp: bsb_sputc_def holds_out_def)
next
  case False
  then have "b_put b \<noteq> []" using assms(1) by (auto simp: holds_out_def)
  then obtain b' where f: "bsb_flushBuffer wr b = (int (length (b_put b)), b')" "holds_out xs b'" "b_put b' = []" using flush_output assms by blast
  then have "bsb_overflow wr (uchar c) b = (uchar c, b'\<lparr>b_put := [c]\<rparr>)" using assms(1) by (auto simp: bsb_overflow_def holds_out_def)
  then show ?thesis using False f(2,3) by (auto simp: bsb_sputc_def holds_out_def)
qed

lemma sputn_output: "holds_out xs b \<Longrightarrow> fits (xs @ cs) \<Longrightarrow> holds_out (xs @ cs) (bsb_sputn wr cs b)"
proof (induction cs arbitrary: xs b)
  case (Cons c cs)
  have "fits xs" using Cons.prems(2) fits_prefix by blast
  then obtain b' where "bsb_sputc wr c b = (uchar c, b')" "holds_out (xs @ [c]) b'" using sputc_output Cons.prems(1) by blast
  then show ?case using Cons.IH[of "xs @ [c]" b'] Cons.prems(2) by simp
qed simp

lemma sync_output: "holds_out xs b \<Longrightarrow> fits xs \<Longrightarrow> \<exists>b'. bsb_sync wr b = (0, b') \<and> holds_out xs b' \<and> b_put b' = []"
  using flush_output[of xs b] by (cases "b_put b = []") (auto simp: bsb_sync_def)

lemma writes_output: "holds_out xs b \<Longrightarrow> fits (xs @ ops_text ops) \<Longrightarrow> holds_out (xs @ ops_text ops) (bsb_writes wr ops b)"
proof (induction ops arbitrary: xs b)
  case (Cons p ops)
  show ?case
  proof (cases p)
    case (Put cs)
    have "holds_out (xs @ cs) (bsb_sputn wr cs b)" using Cons.prems Put fits_prefix[of "xs @ cs"] by (intro sputn_output) auto
    then show ?thesis using Cons.IH[of "xs @ cs"] Cons.prems(2) Put by simp
  next
    case Flush
    obtain b' where "bsb_sync wr b = (0, b')" "holds_out xs b'" using sync_output[OF Cons.prems(1)] fits_prefix Cons.prems(2) by blast
    then show ?thesis using Cons.IH[of xs b'] Cons.prems(2) Flush by simp
  qed
qed simp

lemma all_written:
  assumes "holds_out xs b" "fits xs"
  shows "written xs (b_dev (snd (bsb_sync wr b)))"
proof -
  obtain b' where b: "bsb_sync wr b = (0, b')" "holds_out xs b'" "b_put b' = []" using sync_output[OF assms] by blast
  then have "written xs (b_dev b')" unfolding holds_out_def by simp
  then show ?thesis using b(1) by simp
qed

end

abbreviation sent :: "http_session \<Rightarrow> string \<Rightarrow> http_session" where
  "sent s xs \<equiv> s\<lparr>s_out := s_out s @ xs\<rparr>"

interpretation header_out: output_device hs_writeToDevice "\<lambda>xs s'. s' = sent s xs" "\<lambda>_. True" for s
  by unfold_locales (auto simp: hs_writeToDevice_def s_write_def)

interpretation plain_out: output_device st_writeToDevice "\<lambda>xs s'. s' = sent s xs" "\<lambda>_. True" for s
  by unfold_locales (auto simp: st_writeToDevice_def s_write_def)

interpretation fixed_out: output_device fx_writeToDevice "\<lambda>xs d. d = \<lparr>x_session = sent s xs, x_length = len, x_count = int (length xs)\<rparr>"
    "\<lambda>xs. int (length xs) \<le> len" for s len
proof unfold_locales
  fix bs xs :: string and d
  assume a: "bs \<noteq> []" "d = \<lparr>x_session = sent s xs, x_length = len, x_count = int (length xs)\<rparr>" "int (length (xs @ bs)) \<le> len"
  then have "int (length xs) < len" by (cases bs) auto
  then show "\<exists>d'. fx_writeToDevice bs d = (int (length bs), d') \<and> d' = \<lparr>x_session = sent s (xs @ bs), x_length = len, x_count = int (length (xs @ bs))\<rparr>"
    using a by (simp add: fx_writeToDevice_def s_write_def Let_def)
qed simp

lemma hs_send_eq: "hs_send xs s = sent s xs"
  using header_out.all_written[OF header_out.sputn_output[OF header_out.output_new, of _ s xs], of s] by (simp add: hs_send_def)

lemma cs_hex_eq: "int n < 2 ^ 63 \<Longrightarrow> cs_hex n = ref_digits 16 False n"
proof -
  assume n: "int n < 2 ^ 63"
  let ?U = "t_int64\<lparr>it_signed := False\<rparr>"
  have U: "?U = t_uint64" by (simp add: t_int64_def t_uint64_def)
  have i: "in_type t_uint64 (int n)" using n by (simp add: in_type_def it_min_def it_max_def t_uint64_def)
  then have c: "cast_to t_uint64 (int n) = int n" using cast_id by simp
  have "nf_appendHex t_int64 [] (int n) False = Ret (ref_format (int n) 16 False (-1) CHR '' '' CHR 0x00 False)"
    using appended_ref[OF ok64(2) i, of 16 "[]" "-1" "CHR '' ''" False] unfolding nf_appendHex_def U Let_def c by (simp add: NF_MAX_INT_STRING_LEN_def)
  then show ?thesis by (simp add: cs_hex_def ref_format_def ref_sign_def ref_prefix_def ref_number_def)
qed

lemma cs_hex_ok: "n < 2 ^ 32 \<Longrightarrow> size_ok (cs_hex n) n"
proof -
  assume n: "n < 2 ^ 32"
  then have "n < 16 ^ 8" by simp
  then have "length (ref_digits 16 False n) \<le> 8" using rdigits_len[of 16 n 8] by (simp add: ref_digits_def)
  moreover have "cs_hex n = ref_digits 16 False n" using n by (intro cs_hex_eq) simp
  ultimately show ?thesis using ref_digits_val[of 16 False n] by (simp add: size_ok_def list_all_iff)
qed

definition plain_chunk :: "string \<Rightarrow> chunk" where
  "plain_chunk bs = (cs_hex (length bs), [], bs)"

definition cs_written :: "http_session \<Rightarrow> message_header option \<Rightarrow> string \<Rightarrow> chunked_dev \<Rightarrow> bool" where
  "cs_written s t xs d \<longleftrightarrow> (\<exists>css. xs = concat css \<and> list_all (\<lambda>bs. bs \<noteq> [] \<and> length bs \<le> 4096) css \<and>
    d = cs_new (sent s (concat (map (\<lambda>bs. chunk_text (plain_chunk bs)) css))) t)"

interpretation chunked_out: output_device cs_writeToDevice "cs_written s t" "\<lambda>_. True" for s t
proof unfold_locales
  fix bs xs :: string and d assume b: "bs \<noteq> []" "length bs \<le> 4096" and "cs_written s t xs d"
  then obtain css where c: "xs = concat css" "list_all (\<lambda>bs. bs \<noteq> [] \<and> length bs \<le> 4096) css"
      "d = cs_new (sent s (concat (map (\<lambda>bs. chunk_text (plain_chunk bs)) css))) t" by (auto simp: cs_written_def)
  let ?d = "cs_new (sent s (concat (map (\<lambda>bs. chunk_text (plain_chunk bs)) (css @ [bs])))) t"
  have "cs_writeToDevice bs d = (int (length bs), ?d)" using c(3) by (simp add: cs_writeToDevice_def s_write_def cs_new_def plain_chunk_def chunk_text_def)
  moreover have "cs_written s t (xs @ bs) ?d" unfolding cs_written_def using c(1,2) b by (intro exI[of _ "css @ [bs]"]) simp
  ultimately show "\<exists>d'. cs_writeToDevice bs d = (int (length bs), d') \<and> cs_written s t (xs @ bs) d'" by blast
qed

definition trailer_fields :: "message_header option \<Rightarrow> nvc" where
  "trailer_fields t = (case t of Some h \<Rightarrow> h_fields h | None \<Rightarrow> [])"

text \<open>The bytes that a chunked output stream sends until it is closed.\<close>

definition cs_send :: "message_header option \<Rightarrow> out_op list \<Rightarrow> http_session \<Rightarrow> http_session" where
  "cs_send t ops s = c_session (b_dev (cs_close (bsb_writes cs_writeToDevice ops (bsb_new False True (cs_new s t)))))"

lemma cs_new_sel: "c_session (cs_new s t) = s" "c_trailer (cs_new s t) = t" "c_chunk (cs_new s t) = 0"
  by (simp_all add: cs_new_def)

lemma zero_size: "size_ok ''0'' 0" "ext_ok []"
  by (simp_all add: size_ok_def digit_val_def num_val_def ext_ok_def line_ok_def)

lemma cs_send_chunks:
  "\<exists>cs. list_all chunk_ok cs \<and> concat (map chunk_data cs) = ops_text ops \<and>
    cs_send t ops s = sent s (concat (map chunk_text cs) @ last_text ''0'' [] (trailer_fields t))"
proof -
  let ?b = "bsb_writes cs_writeToDevice ops (bsb_new False True (cs_new s t))"
  have "cs_written s t [] (cs_new s t)" unfolding cs_written_def by (intro exI[of _ "[]"]) simp
  from chunked_out.output_new[OF this] have o: "chunked_out.holds_out s t (ops_text ops) ?b" using chunked_out.writes_output[of s t "[]"] by simp
  have out: "b_out ?b" using o by (simp add: chunked_out.holds_out_def)
  obtain css where c: "ops_text ops = concat css" "list_all (\<lambda>bs. bs \<noteq> [] \<and> length bs \<le> 4096) css"
      "b_dev (snd (bsb_sync cs_writeToDevice ?b)) = cs_new (sent s (concat (map (\<lambda>bs. chunk_text (plain_chunk bs)) css))) t"
    using chunked_out.all_written[OF o] by (auto simp: cs_written_def)
  have "chunk_ok (plain_chunk bs)" if "bs \<noteq> []" "length bs \<le> 4096" for bs
    using that cs_hex_ok[of "length bs"] zero_size by (simp add: plain_chunk_def chunk_ok_def)
  then have "list_all chunk_ok (map plain_chunk css)" using c(2) by (auto simp: list_all_iff)
  moreover have "concat (map chunk_data (map plain_chunk css)) = ops_text ops" by (simp add: c(1) plain_chunk_def comp_def)
  moreover have "cs_send t ops s = sent s (concat (map chunk_text (map plain_chunk css)) @ last_text ''0'' [] (trailer_fields t))"
  proof -
    let ?s = "sent s (concat (map (\<lambda>bs. chunk_text (plain_chunk bs)) css))"
    have "cs_send t ops s = (case t of Some h \<Rightarrow> if h_fields h \<noteq> [] then hs_send (''0'' @ [CR, LF] @ mh_write h @ [CR, LF]) ?s
          else snd (s_write (''0'' @ [CR, LF, CR, LF]) ?s) | None \<Rightarrow> snd (s_write (''0'' @ [CR, LF, CR, LF]) ?s))"
      unfolding cs_send_def cs_close_def Let_def c(3) cs_new_sel using out by simp
    then show ?thesis by (cases t) (auto simp: hs_send_eq s_write_def last_text_def trailer_fields_def write_lines comp_def)
  qed
  ultimately show ?thesis by blast
qed

lemma chunked_read_back:
  assumes "trailer_ok t m" "list_all chunk_ok cs" "size_ok hex 0" "ext_ok ext" "pending s = concat (map chunk_text cs) @ last_text hex ext m @ nx"
  shows "\<exists>b. bsb_reads (cs_readFromDevice conv) lens (bsb_new True False (cs_new s t)) = Inr (take (sum_list lens) (concat (map chunk_data cs)), b) \<and>
    (length (concat (map chunk_data cs)) < sum_list lens \<longrightarrow> cs_finished s nx t m (b_dev b))"
proof -
  have "cs_holds s nx t m (concat (map chunk_data cs)) (cs_new s t)" unfolding cs_holds_def using assms reads_to_self[of s]
    by (intro disjI1 exI[of _ "[]"] exI[of _ cs] exI[of _ hex] exI[of _ ext]) (simp add: cs_new_sel)
  from chunked.reads_content[OF chunked.content_new[OF this], of conv lens False] show ?thesis by blast
qed

text \<open>
  C7.  A body sent through a chunked stream, written and flushed in any way, arrives: whatever the pieces in which the network delivers the bytes and
  whatever the sizes of the reads, the receiver reads the body and then the end, the fields of the trailer are those of the sender, no exception is
  recorded, and the connection stands at the first byte behind the body.
\<close>

theorem chunked_transport:
  assumes "concat io = s_out (cs_send t ops (s_new [])) @ nx" "trailer_ok t' (trailer_fields t)"
  shows "\<exists>b. bsb_reads (cs_readFromDevice conv) lens (bsb_new True False (cs_new (s_new io) t')) = Inr (take (sum_list lens) (ops_text ops), b) \<and>
    (length (ops_text ops) < sum_list lens \<longrightarrow> pending (c_session (b_dev b)) = nx \<and> s_exception (c_session (b_dev b)) = None \<and>
      c_trailer (b_dev b) = trailer_of t' (trailer_fields t))"
proof -
  obtain cs where cs: "list_all chunk_ok cs" "concat (map chunk_data cs) = ops_text ops"
      "cs_send t ops (s_new []) = sent (s_new []) (concat (map chunk_text cs) @ last_text ''0'' [] (trailer_fields t))"
    using cs_send_chunks by blast
  have "pending (s_new io) = concat (map chunk_text cs) @ last_text ''0'' [] (trailer_fields t) @ nx" using assms(1) cs(3) by (simp add: pending_def s_new_def)
  from chunked_read_back[OF assms(2) cs(1) zero_size this, of conv lens] show ?thesis
    unfolding cs(2) by (auto simp: cs_finished_def reads_to_def s_new_def)
qed

theorem chunked_transport_witness:
  "\<exists>b. bsb_reads (cs_readFromDevice (\<lambda>_ _ _. None)) [2, 9] (bsb_new True False (cs_new
      (s_new [s_out (cs_send None [Put ''Hel'', Flush, Put ''lo''] (s_new [])), ''GET'']) None)) = Inr (''Hello'', b) \<and>
    pending (c_session (b_dev b)) = ''GET''"
proof -
  have "trailer_ok None (trailer_fields None)"
    by (simp add: trailer_ok_def trailer_fields_def fields_safe_def fields_ok_def mh_new_def)
  then show ?thesis
    using chunked_transport[of "[s_out (cs_send None [Put ''Hel'', Flush, Put ''lo''] (s_new [])), ''GET'']" None "[Put ''Hel'', Flush, Put ''lo'']" "''GET''" None
      "\<lambda>_ _ _. None" "[2, 9]"] by auto
qed

subsection \<open>A body that is cut off\<close>

text \<open>
  The connection may end anywhere: between two chunks, in the size line of one (\<open>hex\<close> and \<open>rest\<close> of it arrived), in its data or the line end behind
  them, and in the last chunk, in its size line or in the empty line that follows.
\<close>

datatype cut = Between | In_size string string | In_data string string string string | In_last string string string

definition cut_ok :: "cut \<Rightarrow> bool" where
  "cut_ok p = (case p of Between \<Rightarrow> True
    | In_size hex rest \<Rightarrow> size_ok hex (num_val 16 hex) \<and> ext_ok rest
    | In_data hex ext part sp \<Rightarrow> size_ok hex (num_val 16 hex) \<and> ext_ok ext \<and> list_all space sp \<and> 0 < num_val 16 hex \<and>
        (length part < num_val 16 hex \<and> sp = [] \<or> length part = num_val 16 hex)
    | In_last hex ext r \<Rightarrow> size_ok hex 0 \<and> ext_ok ext \<and> r \<in> {[], [CR], [CR, LF]})"

definition cut_text :: "cut \<Rightarrow> string" where
  "cut_text p = (case p of Between \<Rightarrow> [] | In_size hex rest \<Rightarrow> hex @ rest | In_data hex ext part sp \<Rightarrow> hex @ ext @ CR # LF # part @ sp
    | In_last hex ext r \<Rightarrow> hex @ ext @ CR # LF # r)"

definition cut_data :: "cut \<Rightarrow> string" where
  "cut_data p = (case p of In_data hex ext part sp \<Rightarrow> part | _ \<Rightarrow> [])"

text \<open>The exception that the receiver records: none when what arrived of the size line reads as zero.\<close>

definition cut_error :: "cut \<Rightarrow> exn option" where
  "cut_error p = (case p of In_size hex rest \<Rightarrow> if num_val 16 hex = 0 then None else Some MessageException
    | In_last hex ext r \<Rightarrow> None | _ \<Rightarrow> Some MessageException)"

definition cs_cut :: "exn option \<Rightarrow> string \<Rightarrow> chunked_dev \<Rightarrow> bool" where
  "cs_cut e xs d \<longleftrightarrow>
    (\<exists>k. c_chunk d = int k \<and> length xs < k \<and> pending (c_session d) = xs \<and> e = Some MessageException) \<or>
    (\<exists>data sp cs p. c_chunk d = int (length data) \<and> xs = data @ concat (map chunk_data cs) @ cut_data p \<and>
       pending (c_session d) = data @ sp @ concat (map chunk_text cs) @ cut_text p \<and> list_all space sp \<and> list_all chunk_ok cs \<and> cut_ok p \<and>
       cut_error p = e \<and> s_exception (c_session d) = None) \<or>
    c_chunk d = -1 \<and> xs = [] \<and> s_exception (c_session d) = e"

lemma cs_no_header: "c_chunk d \<noteq> 0 \<Longrightarrow> cs_readFromDevice conv n d = cs_body conv n d"
  by (simp add: cs_readFromDevice_def cs_chunk_size_def)

lemma cut_inside:
  assumes "0 < n" "c_chunk d = int k" "length xs < k" "pending (c_session d) = xs"
  shows "xs \<noteq> [] \<Longrightarrow> \<exists>bs ys d'. cs_body conv n d = Inr (Some bs, d') \<and> bs \<noteq> [] \<and> length bs \<le> n \<and> xs = bs @ ys \<and> cs_cut (Some MessageException) ys d'"
    and "xs = [] \<Longrightarrow> \<exists>d'. cs_body conv n d = Inr (Some [], d') \<and> cs_cut (Some MessageException) [] d' \<and> s_exception (c_session d') = Some MessageException"
proof -
  assume ne: "xs \<noteq> []"
  have "0 < k" using assms(3) by simp
  then obtain bs s' where b: "cs_body conv n d = Inr (Some bs, d\<lparr>c_session := s', c_chunk := int (k - length bs)\<rparr>)" "bs \<noteq> []" "length bs \<le> n"
      "length bs \<le> k" "xs = bs @ pending s'"
    using cs_body_some[OF assms(1,2)] ne assms(4) by blast
  have "length (pending s') < k - length bs" using assms(3) arg_cong[where f = length, OF b(5)] by simp
  then have "cs_cut (Some MessageException) (pending s') (d\<lparr>c_session := s', c_chunk := int (k - length bs)\<rparr>)" unfolding cs_cut_def
    by (intro disjI1 exI[of _ "k - length bs"]) simp
  then show "\<exists>bs ys d'. cs_body conv n d = Inr (Some bs, d') \<and> bs \<noteq> [] \<and> length bs \<le> n \<and> xs = bs @ ys \<and> cs_cut (Some MessageException) ys d'" using b by blast
next
  assume e: "xs = []"
  define len where "len = (if int n > c_chunk d then nat (c_chunk d) else n)"
  have "0 < len" using assms by (auto simp: len_def)
  then obtain s' where s: "s_read len (c_session d) = (0, [], s')" "pending s' = []" using s_read_some[of len "c_session d"] assms(4) e by auto
  let ?d = "d\<lparr>c_session := s_setException MessageException s'\<rparr>"
  have "c_chunk d > 0" using assms(2,3) by simp
  then have "cs_body conv n d = Inr (Some [], ?d)" using s(1) by (simp add: cs_body_def len_def[symmetric] Let_def)
  moreover have "cs_cut (Some MessageException) [] ?d" using assms(2,3) s(2) e unfolding cs_cut_def
    by (intro disjI1 exI[of _ k]) (simp add: s_setException_def pending_def)
  ultimately show "\<exists>d'. cs_body conv n d = Inr (Some [], d') \<and> cs_cut (Some MessageException) [] d' \<and> s_exception (c_session d') = Some MessageException"
    by (auto simp: s_setException_def)
qed

lemma cut_data_read:
  assumes "0 < n" "c_chunk d = int (length data)" "data \<noteq> []" "list_all space sp" "list_all chunk_ok cs" "cut_ok p"
    "pending (c_session d) = data @ sp @ concat (map chunk_text cs) @ cut_text p" "s_exception (c_session d) = None"
  shows "\<exists>bs ys d'. cs_body conv n d = Inr (Some bs, d') \<and> bs \<noteq> [] \<and> length bs \<le> n \<and> data @ concat (map chunk_data cs) @ cut_data p = bs @ ys \<and>
    cs_cut (cut_error p) ys d'"
proof -
  obtain bs data' s' where b: "cs_body conv n d = Inr (Some bs, d\<lparr>c_session := s', c_chunk := int (length data')\<rparr>)" "bs \<noteq> []" "length bs \<le> n" "data = bs @ data'"
      "reads_to (c_session d) (data' @ sp @ concat (map chunk_text cs) @ cut_text p) s'"
    using cs_body_data[OF assms(1-3,7), of conv] by blast
  let ?d = "d\<lparr>c_session := s', c_chunk := int (length data')\<rparr>" and ?ys = "data' @ concat (map chunk_data cs) @ cut_data p"
  have "cs_cut (cut_error p) ?ys ?d" unfolding cs_cut_def using assms(4-6,8) b(5)
    by (intro disjI2 disjI1 exI[of _ data'] exI[of _ sp] exI[of _ cs] exI[of _ p]) (simp add: reads_to_def)
  then show ?thesis using b(1-4) by (intro exI[of _ bs] exI[of _ ?ys] exI[of _ ?d]) simp
qed

lemma cut_no_size:
  assumes "c_chunk d = 0" "pending (c_session d) = sp" "list_all space sp"
  shows "\<exists>d'. cs_readFromDevice conv n d = Inr (None, d') \<and> cs_cut (Some MessageException) [] d' \<and> s_exception (c_session d') = Some MessageException"
proof -
  let ?s = "c_session d"
  obtain ch s1 where g: "s_get ?s = (ch, s1)" "cur ?s (sp @ []) ch s1" using s_get_cur[of ?s] assms(2) by auto
  have "list_all (\<lambda>c. c \<noteq> CHR 0xFF \<and> space c) sp" using assms(3) space_not_eof by (auto simp: list_all_iff)
  then obtain s2 where w: "s_while isSpace ch s1 = (-1, s2)" using s_while_run[OF g(2), of isSpace] by (auto simp: cur_def)
  have "s_while (\<lambda>ch. ch \<noteq> 10) (-1) s2 = (-1, s2)" by (subst s_while.simps) simp
  moreover have "cs_digits 8 (-1) s2 = ([], -1, s2)" by (simp add: numeral_eq_Suc)
  moreover have "tryParseHex [] = None" by (simp add: tryParseHex_def skip_hex_prefix_def strToInt_range_def)
  ultimately show ?thesis using g(1) w assms(1) by (auto simp: cs_readFromDevice_def cs_chunk_size_def Let_def cs_cut_def s_setException_def)
qed

text \<open>A size line whose end has not arrived: what has been read of it counts.\<close>

lemma cut_size_line:
  assumes "pending (c_session d) = sp @ hex @ rest" "list_all space sp" "size_ok hex n" "ext_ok rest" "c_chunk d = 0"
  shows "\<exists>s'. cs_chunk_size d = (True, d\<lparr>c_session := s', c_chunk := int n\<rparr>) \<and> reads_to (c_session d) [] s'"
proof -
  let ?s = "c_session d"
  have x: "hex \<noteq> []" "length hex \<le> 8" "list_all (is_digit 16) hex" "num_val 16 hex = n" using assms(3) by (auto simp: size_ok_def)
  obtain ch s1 where g: "s_get ?s = (ch, s1)" "cur ?s (sp @ hex @ rest) ch s1" using s_get_cur[of ?s] assms(1) by auto
  have "\<not> space (hd (hex @ rest))" using x(1,3) digit_not_space by (cases hex) auto
  moreover have "list_all (\<lambda>c. c \<noteq> CHR 0xFF \<and> space c) sp" using assms(2) space_not_eof by (auto simp: list_all_iff)
  ultimately obtain ch2 s2 where w: "s_while isSpace ch s1 = (ch2, s2)" "cur ?s (hex @ rest) ch2 s2" using s_while_run[OF g(2), of isSpace] by blast
  have e: "rest = [] \<or> space (hd rest) \<or> hd rest = CHR '';''" using assms(4) by (simp add: ext_ok_def)
  have "\<not> is_digit 16 CHR '';''" by (simp add: digit_val_def)
  then have "rest = [] \<or> \<not> is_digit 16 (hd rest)" using e digit_not_space by metis
  then obtain ch3 s3 where c: "cs_digits 8 ch2 s2 = (hex, ch3, s3)" "cur ?s (rest @ []) ch3 s3" using cs_digits_run[OF w(2) x(3) x(2)] by auto
  have semi: "schar CHR '';'' = 59" by code_simp
  have q: "ch3 = -1 \<or> isSpace ch3 \<or> ch3 = 59" using e c(2) semi by (cases rest) (auto simp: cur_def)
  have "list_all (\<lambda>c. c \<noteq> CHR 0xFF \<and> schar c \<noteq> 10) rest" using assms(4) by (auto simp: ext_ok_def line_ok_def list_all_iff schar_lf)
  then obtain ch4 s4 where l: "s_while (\<lambda>ch. ch \<noteq> 10) ch3 s3 = (ch4, s4)" "cur ?s [] ch4 s4" using s_while_run[OF c(2), of "\<lambda>ch. ch \<noteq> 10"] by blast
  have "cs_chunk_size d = (True, d\<lparr>c_session := s4, c_chunk := int n\<rparr>)"
    using g(1) w(1) c(1) q l(1) hex_digits_parse[OF x(1-3)] x(4) assms(5) by (auto simp: cs_chunk_size_def Let_def)
  then show ?thesis using l(2) by (auto simp: cur_def)
qed

text \<open>Behind the size line of the last chunk nothing, or a part of the empty line, has arrived.\<close>

lemma cut_last_line:
  assumes "c_chunk d = 0" "pending (c_session d) \<in> {[], [CR], [CR, LF]}"
  shows "\<exists>d'. cs_body conv n d = Inr (Some [], d') \<and> c_chunk d' = -1 \<and> s_exception (c_session d') = s_exception (c_session d)"
proof -
  have cr: "schar CR = 13" by code_simp
  obtain ch s1 where p: "s_peek (c_session d) = (ch, s1)" "ch = -1 \<or> ch = 13" "reads_to (c_session d) (pending (c_session d)) s1"
  proof (cases "pending (c_session d)")
    case Nil then show ?thesis using that s_peek_end[of "c_session d"] by auto
  next
    case (Cons c xs)
    then have "c = CR" using assms(2) by auto
    then show ?thesis using that s_peek_char[OF Cons] Cons cr by auto
  qed
  obtain w tx where w: "pending (c_session d) = w @ tx" "w = [] \<or> w = [CR]" "tx = [] \<or> tx = [LF]" "w = [] \<longrightarrow> tx = []"
    using assms(2) that[of "[]" "[]"] that[of "[CR]" "[]"] that[of "[CR]" "[LF]"] by auto
  have "pending s1 = w @ tx" using p(3) w(1) by (simp add: reads_to_def)
  then obtain ch2 s2 where g: "s_get s1 = (ch2, s2)" "cur s1 (w @ tx) ch2 s2" using s_get_cur[of s1] by auto
  obtain ch3 s3 where l: "s_while (\<lambda>ch. ch \<noteq> 10) ch2 s2 = (ch3, s3)" "cur s1 tx ch3 s3"
    using s_while_run[OF g(2), of "\<lambda>ch. ch \<noteq> 10"] w(2,3) cr by (auto simp: schar_lf)
  have "s_exception s3 = s_exception (c_session d)" using l(2) p(3) by (cases tx) (auto simp: cur_def reads_to_def)
  then show ?thesis using p g(1) l(1) assms(1) by (auto simp: cs_body_def Let_def)
qed

lemma cut_read_size:
  assumes "0 < n" "c_chunk d = 0" "pending (c_session d) = sp @ cut_text p" "list_all space sp" "cut_ok p" "s_exception (c_session d) = None"
  shows "cut_data p \<noteq> [] \<Longrightarrow> \<exists>bs ys d'. cs_readFromDevice conv n d = Inr (Some bs, d') \<and> bs \<noteq> [] \<and> length bs \<le> n \<and> cut_data p = bs @ ys \<and> cs_cut (cut_error p) ys d'"
    and "cut_data p = [] \<Longrightarrow> \<exists>r d'. cs_readFromDevice conv n d = Inr (r, d') \<and> (r = None \<or> r = Some []) \<and> cs_cut (cut_error p) [] d' \<and> s_exception (c_session d') = cut_error p"
proof -
  assume ne: "cut_data p \<noteq> []"
  then obtain hx ex pt sq where p: "p = In_data hx ex pt sq" by (cases p) (auto simp: cut_data_def)
  have ok: "size_ok hx (num_val 16 hx)" "ext_ok ex" "list_all space sq" "length pt < num_val 16 hx \<and> sq = [] \<or> length pt = num_val 16 hx" "pt \<noteq> []"
    using assms(5) p ne by (auto simp: cut_ok_def cut_data_def)
  have "pending (c_session d) = sp @ hx @ ex @ CR # LF # (pt @ sq)" using assms(3) p by (simp add: cut_text_def)
  from cs_size_line[OF this assms(4) ok(1,2) assms(2)] obtain s' where
    s: "cs_chunk_size d = (True, d\<lparr>c_session := s', c_chunk := int (num_val 16 hx)\<rparr>)" "reads_to (c_session d) (pt @ sq) s'" by blast
  let ?d = "d\<lparr>c_session := s', c_chunk := int (num_val 16 hx)\<rparr>"
  have r: "cs_readFromDevice conv n d = cs_body conv n ?d" using s(1) by (simp add: cs_readFromDevice_def)
  have e: "cut_error p = Some MessageException" "cut_error Between = Some MessageException" "cut_data p = pt" using p by (auto simp: cut_error_def cut_data_def)
  show "\<exists>bs ys d'. cs_readFromDevice conv n d = Inr (Some bs, d') \<and> bs \<noteq> [] \<and> length bs \<le> n \<and> cut_data p = bs @ ys \<and> cs_cut (cut_error p) ys d'"
  proof (cases "length pt < num_val 16 hx")
    case True
    then show ?thesis unfolding r e using cut_inside(1)[OF assms(1) _ True, of ?d conv] ok(4,5) s(2) by (simp add: reads_to_def)
  next
    case False
    then have "length pt = num_val 16 hx" using ok(4) by blast
    then show ?thesis unfolding r e using cut_data_read[OF assms(1) _ ok(5,3), of ?d "[]" Between conv] s(2) assms(6) e(2)
      by (simp add: reads_to_def cut_ok_def cut_text_def cut_data_def)
  qed
next
  assume e: "cut_data p = []"
  show "\<exists>r d'. cs_readFromDevice conv n d = Inr (r, d') \<and> (r = None \<or> r = Some []) \<and> cs_cut (cut_error p) [] d' \<and> s_exception (c_session d') = cut_error p"
  proof (cases p)
    case Between then show ?thesis using cut_no_size[OF assms(2) _ assms(4), of conv n] assms(3) by (auto simp: cut_text_def cut_error_def)
  next
    case (In_size hx rest)
    have ok: "size_ok hx (num_val 16 hx)" "ext_ok rest" using assms(5) In_size by (auto simp: cut_ok_def)
    have "pending (c_session d) = sp @ hx @ rest" using assms(3) In_size by (simp add: cut_text_def)
    from cut_size_line[OF this assms(4) ok assms(2)] obtain s' where
      s: "cs_chunk_size d = (True, d\<lparr>c_session := s', c_chunk := int (num_val 16 hx)\<rparr>)" "reads_to (c_session d) [] s'" by blast
    show ?thesis
    proof (cases "num_val 16 hx = 0")
      case True
      then show ?thesis using cut_last_line[of "d\<lparr>c_session := s', c_chunk := int (num_val 16 hx)\<rparr>" conv n] s In_size assms(6)
        by (auto simp: cs_readFromDevice_def reads_to_def cut_error_def cs_cut_def)
    next
      case False
      then show ?thesis using cut_inside(2)[OF assms(1), of "d\<lparr>c_session := s', c_chunk := int (num_val 16 hx)\<rparr>" "num_val 16 hx" "[]" conv] s In_size
        by (auto simp: cs_readFromDevice_def reads_to_def cut_error_def)
    qed
  next
    case (In_data hx ex pt sq)
    have ok: "size_ok hx (num_val 16 hx)" "ext_ok ex" "0 < num_val 16 hx" "pt = []" "sq = []" using assms(5) In_data e by (auto simp: cut_ok_def cut_data_def)
    have "pending (c_session d) = sp @ hx @ ex @ CR # LF # []" using assms(3) In_data ok(4,5) by (simp add: cut_text_def)
    from cs_size_line[OF this assms(4) ok(1,2) assms(2)] obtain s' where
      s: "cs_chunk_size d = (True, d\<lparr>c_session := s', c_chunk := int (num_val 16 hx)\<rparr>)" "reads_to (c_session d) [] s'" by blast
    then show ?thesis using cut_inside(2)[OF assms(1), of "d\<lparr>c_session := s', c_chunk := int (num_val 16 hx)\<rparr>" "num_val 16 hx" "[]" conv] ok(3) In_data
      by (auto simp: cs_readFromDevice_def reads_to_def cut_error_def)
  next
    case (In_last hx ex r)
    have ok: "size_ok hx 0" "ext_ok ex" "r \<in> {[], [CR], [CR, LF]}" using assms(5) In_last by (auto simp: cut_ok_def)
    have "pending (c_session d) = sp @ hx @ ex @ CR # LF # r" using assms(3) In_last by (simp add: cut_text_def)
    from cs_size_line[OF this assms(4) ok(1,2) assms(2)] obtain s' where
      s: "cs_chunk_size d = (True, d\<lparr>c_session := s', c_chunk := 0\<rparr>)" "reads_to (c_session d) r s'" by auto
    then show ?thesis using cut_last_line[of "d\<lparr>c_session := s', c_chunk := 0\<rparr>" conv n] In_last ok(3) assms(6)
      by (auto simp: cs_readFromDevice_def reads_to_def cut_error_def cs_cut_def)
  qed
qed

interpretation cut_off: input_device "cs_readFromDevice conv" "cs_cut e" "\<lambda>d. s_exception (c_session d) = e" for conv e
proof
  fix n :: nat and xs d assume n: "0 < n" and h: "cs_cut e xs d" "xs \<noteq> []"
  then consider (a) k where "c_chunk d = int k" "length xs < k" "pending (c_session d) = xs" "e = Some MessageException"
    | (b) data sp cs p where "c_chunk d = int (length data)" "xs = data @ concat (map chunk_data cs) @ cut_data p"
       "pending (c_session d) = data @ sp @ concat (map chunk_text cs) @ cut_text p" "list_all space sp" "list_all chunk_ok cs" "cut_ok p"
       "cut_error p = e" "s_exception (c_session d) = None"
    unfolding cs_cut_def by blast
  then show "\<exists>bs ys d'. cs_readFromDevice conv n d = Inr (Some bs, d') \<and> bs \<noteq> [] \<and> length bs \<le> n \<and> xs = bs @ ys \<and> cs_cut e ys d'"
  proof cases
    case a then show ?thesis using cut_inside(1)[OF n a(1-3) h(2)] cs_no_header[of d conv n] by auto
  next
    case b
    show ?thesis
    proof (cases "data = []")
      case False then show ?thesis using cut_data_read[OF n b(1) False b(4-6,3,8)] b(1,2,7) cs_no_header[of d conv n] by auto
    next
      case True
      then have z: "c_chunk d = 0" using b(1) by simp
      show ?thesis
      proof (cases cs)
        case (Cons c cs')
        obtain hx ex dt where c: "c = (hx, ex, dt)" by (cases c)
        have ok: "size_ok hx (length dt)" "ext_ok ex" "dt \<noteq> []" "list_all chunk_ok cs'" using b(5) Cons c by (auto simp: chunk_ok_def)
        let ?r = "dt @ [CR, LF] @ concat (map chunk_text cs') @ cut_text p"
        have "pending (c_session d) = sp @ hx @ ex @ CR # LF # ?r" using b(3) True Cons c by (simp add: chunk_text_def)
        from cs_size_line[OF this b(4) ok(1,2) z] obtain s' where
          s: "cs_chunk_size d = (True, d\<lparr>c_session := s', c_chunk := int (length dt)\<rparr>)" "reads_to (c_session d) ?r s'" by blast
        show ?thesis using cut_data_read[OF n _ ok(3) _ ok(4) b(6), of "d\<lparr>c_session := s', c_chunk := int (length dt)\<rparr>" "[CR, LF]" conv] s True Cons c b(2,7,8)
          by (auto simp: cs_readFromDevice_def reads_to_def)
      next
        case Nil
        then show ?thesis using cut_read_size(1)[OF n z _ b(4,6,8), of conv] b(2,3,7) h(2) True by auto
      qed
    qed
  qed
next
  fix n :: nat and d assume n: "0 < n" and h: "cs_cut e [] d"
  then consider (a) k where "c_chunk d = int k" "0 < k" "pending (c_session d) = []" "e = Some MessageException"
    | (b) sp p where "c_chunk d = 0" "pending (c_session d) = sp @ cut_text p" "list_all space sp" "cut_ok p" "s_exception (c_session d) = None" "cut_data p = []" "cut_error p = e"
    | (c) "c_chunk d = -1" "s_exception (c_session d) = e"
  proof -
    have "cs = []" if "list_all chunk_ok cs" "concat (map chunk_data cs) = []" for cs using that by (cases cs) (auto simp: chunk_ok_def)
    then show ?thesis using h that unfolding cs_cut_def by fastforce
  qed
  then show "\<exists>r d'. cs_readFromDevice conv n d = Inr (r, d') \<and> (r = None \<or> r = Some []) \<and> cs_cut e [] d' \<and> s_exception (c_session d') = e"
  proof cases
    case a then show ?thesis using cut_inside(2)[OF n a(1), of "[]" conv] cs_no_header[of d conv n] by auto
  next
    case b then show ?thesis using cut_read_size(2)[OF n b(1-6), of conv] by simp
  next
    case c then show ?thesis using h by (auto simp: cs_readFromDevice_def cs_chunk_size_def cs_body_def)
  qed
qed

text \<open>The data among the first \<open>k\<close> bytes of a chunked body, and where its text is then cut.\<close>

fun arrived :: "chunk list \<Rightarrow> nat \<Rightarrow> string" where
  "arrived [] k = []"
| "arrived ((hex, ext, data) # cs) k = take (k - (length hex + length ext + 2)) data @ arrived cs (k - length (chunk_text (hex, ext, data)))"

definition plain_size :: "chunk \<Rightarrow> bool" where
  "plain_size c \<longleftrightarrow> hd (fst c) \<noteq> CHR ''0''"

lemma digit_zero: "is_digit 16 c \<Longrightarrow> the (digit_val 16 c) = 0 \<Longrightarrow> c = CHR ''0''"
proof -
  assume "is_digit 16 c" "the (digit_val 16 c) = 0"
  then have "of_char c = (of_char CHR ''0'' :: nat)" by (auto simp: digit_val_def Let_def split: if_splits)
  then show "c = CHR ''0''" by (simp only: of_char_eq_iff)
qed

lemma size_prefix:
  assumes "size_ok hex n" "0 < k"
  shows "size_ok (take k hex) (num_val 16 (take k hex))" "hd hex \<noteq> CHR ''0'' \<Longrightarrow> num_val 16 (take k hex) \<noteq> 0" "n = 0 \<Longrightarrow> num_val 16 (take k hex) = 0"
proof -
  have h: "hex \<noteq> []" "list_all (is_digit 16) hex" "num_val 16 hex = n" using assms(1) by (auto simp: size_ok_def)
  show "size_ok (take k hex) (num_val 16 (take k hex))" using assms by (auto simp: size_ok_def list_all_iff dest: in_set_takeD)
  have c: "take k hex = [hd hex] @ tl (take k hex)" using h(1) assms(2) by (cases hex; cases k) auto
  have "num_val 16 (take k hex) = num_val 16 [hd hex] * 16 ^ length (tl (take k hex)) + num_val 16 (tl (take k hex))"
    by (subst c, subst num_val_append) simp
  then have "num_val 16 (take k hex) = 0 \<Longrightarrow> the (digit_val 16 (hd hex)) = 0" by (simp add: num_val_def)
  then show "hd hex \<noteq> CHR ''0'' \<Longrightarrow> num_val 16 (take k hex) \<noteq> 0" using digit_zero[of "hd hex"] h(1,2) by (auto simp: list_all_iff)
  show "n = 0 \<Longrightarrow> num_val 16 (take k hex) = 0" using h(3) num_val_append[of 16 "take k hex" "drop k hex"] by simp
qed

lemma ext_prefix: "ext_ok ext \<Longrightarrow> ext_ok (take k (ext @ [CR]))"
proof -
  assume e: "ext_ok ext"
  have "space CR" by code_simp
  then have h: "space (hd (ext @ [CR])) \<or> hd (ext @ [CR]) = CHR '';''" using e by (cases ext) (auto simp: ext_ok_def)
  have "hd (take k (ext @ [CR])) = hd (ext @ [CR])" if "take k (ext @ [CR]) \<noteq> []" using that hd_take[of k "ext @ [CR]"] by (cases k) simp_all
  moreover have "line_ok (ext @ [CR])" using e by (simp add: ext_ok_def line_ok_def)
  then have "line_ok (take k (ext @ [CR]))" using set_take_subset[of k "ext @ [CR]"] unfolding line_ok_def list_all_iff by blast
  ultimately show ?thesis unfolding ext_ok_def using h by metis
qed

text \<open>A size line that is not complete.\<close>

lemma line_cut:
  assumes "size_ok hex n" "ext_ok ext" "0 < k" "k < length hex + length ext + 2"
  shows "\<exists>p. cut_ok p \<and> cut_error p = (if num_val 16 (take k hex) = 0 then None else Some MessageException) \<and>
    take k (hex @ ext @ CR # LF # r) = cut_text p \<and> cut_data p = []"
proof -
  let ?p = "In_size (take k hex) (take (k - length hex) (ext @ [CR]))"
  have "hex @ ext @ CR # LF # r = (hex @ ext @ [CR]) @ LF # r" by simp
  then have "take k (hex @ ext @ CR # LF # r) = take k (hex @ ext @ [CR])" using assms(4) by (simp only: take_append) simp
  then have "take k (hex @ ext @ CR # LF # r) = cut_text ?p" by (simp add: cut_text_def)
  moreover have "cut_ok ?p" using size_prefix(1)[OF assms(1,3)] ext_prefix[OF assms(2)] by (simp only: cut_ok_def cut.case) 
  ultimately show ?thesis by (intro exI[of _ ?p]) (simp add: cut_error_def cut_data_def)
qed

lemma chunk_cut:
  assumes "chunk_ok (hex, ext, data)" "plain_size (hex, ext, data)" "k < length (chunk_text (hex, ext, data))"
  shows "\<exists>p. cut_ok p \<and> cut_error p = Some MessageException \<and> take k (chunk_text (hex, ext, data)) = cut_text p \<and>
    cut_data p = take (k - (length hex + length ext + 2)) data"
proof -
  have ok: "size_ok hex (length data)" "ext_ok ext" "data \<noteq> []" "hd hex \<noteq> CHR ''0''" using assms(1,2) by (auto simp: chunk_ok_def plain_size_def)
  consider (start) "k = 0" | (line) "0 < k" "k < length hex + length ext + 2" | (body) j where "k = length hex + length ext + 2 + j"
    by (metis gr0I le_iff_add linorder_not_less)
  then show ?thesis
  proof cases
    case start then show ?thesis by (intro exI[of _ Between]) (simp add: cut_ok_def cut_error_def cut_text_def cut_data_def)
  next
    case line
    then show ?thesis using line_cut[OF ok(1,2) line, of "data @ [CR, LF]"] size_prefix(2)[OF ok(1) line(1) ok(4)] by (simp add: chunk_text_def)
  next
    case body
    let ?p = "In_data hex ext (take j data) (take (j - length data) [CR, LF])"
    have n: "num_val 16 hex = length data" "0 < length data" using ok(1,3) by (auto simp: size_ok_def)
    have "list_all space (take (j - length data) [CR, LF])" by (auto simp: list_all_iff dest!: in_set_takeD)
    then have "cut_ok ?p" using ok(1,2) n by (auto simp: cut_ok_def min_def)
    moreover have "take k (chunk_text (hex, ext, data)) = cut_text ?p" using body by (simp add: chunk_text_def cut_text_def)
    ultimately show ?thesis using body by (intro exI[of _ ?p]) (simp add: cut_error_def cut_data_def)
  qed
qed

lemma last_cut:
  assumes "size_ok hex 0" "ext_ok ext" "0 < k"
  shows "\<exists>p. cut_ok p \<and> cut_error p = None \<and> take k (last_text hex ext []) = cut_text p \<and> cut_data p = []"
proof (cases "k < length hex + length ext + 2")
  case True then show ?thesis using line_cut[OF assms True, of "[CR, LF]"] size_prefix(3)[OF assms(1,3)] by (simp add: last_text_def)
next
  case False
  then obtain j where j: "k = length hex + length ext + 2 + j" by (metis le_iff_add linorder_not_less)
  have "take j [CR, LF] \<in> {[], [CR], [CR, LF]}" by (cases j rule: nat.exhaust; cases "j - 1") auto
  then have "cut_ok (In_last hex ext (take j [CR, LF]))" using assms(1,2) by (simp only: cut_ok_def cut.case)
  moreover have "take k (last_text hex ext []) = cut_text (In_last hex ext (take j [CR, LF]))" using j by (simp add: last_text_def cut_text_def)
  ultimately show ?thesis by (intro exI[of _ "In_last hex ext (take j [CR, LF])"]) (simp add: cut_error_def cut_data_def)
qed

lemma body_cut:
  assumes "list_all chunk_ok cs" "list_all plain_size cs" "size_ok hex 0" "ext_ok ext"
  shows "\<exists>cs' p. list_all chunk_ok cs' \<and> cut_ok p \<and> take k (concat (map chunk_text cs) @ last_text hex ext []) = concat (map chunk_text cs') @ cut_text p \<and>
    arrived cs k = concat (map chunk_data cs') @ cut_data p \<and>
    cut_error p = (if k \<le> length (concat (map chunk_text cs)) then Some MessageException else None)"
  using assms(1,2)
proof (induction cs arbitrary: k)
  case Nil
  show ?case
  proof (cases "k = 0")
    case True then show ?thesis by (intro exI[of _ "[]"] exI[of _ Between]) (simp add: cut_ok_def cut_error_def cut_text_def cut_data_def)
  next
    case False
    then obtain p where p: "cut_ok p" "cut_error p = None" "take k (last_text hex ext []) = cut_text p" "cut_data p = []" using last_cut[OF assms(3,4), of k] by blast
    show ?thesis by (intro exI[of _ "[]"] exI[of _ p]) (use p False in simp)
  qed
next
  case (Cons c cs)
  obtain hx ex dt where c: "c = (hx, ex, dt)" by (cases c)
  have ok: "chunk_ok c" "plain_size c" "list_all chunk_ok cs" "list_all plain_size cs" using Cons.prems by auto
  show ?case
  proof (cases "k < length (chunk_text c)")
    case True
    then obtain p where p: "cut_ok p" "cut_error p = Some MessageException" "take k (chunk_text c) = cut_text p" "cut_data p = take (k - (length hx + length ex + 2)) dt"
      using chunk_cut[of hx ex dt k] ok c by auto
    have "arrived cs 0 = []" for cs by (induction cs) auto
    then have "arrived (c # cs) k = cut_data p" using p(4) True c by simp
    then show ?thesis by (intro exI[of _ "[]"] exI[of _ p]) (use p True in simp)
  next
    case False
    then obtain j where j: "k = length (chunk_text c) + j" by (metis le_iff_add linorder_not_less)
    obtain cs' p where p: "list_all chunk_ok cs'" "cut_ok p" "take j (concat (map chunk_text cs) @ last_text hex ext []) = concat (map chunk_text cs') @ cut_text p"
        "arrived cs j = concat (map chunk_data cs') @ cut_data p" "cut_error p = (if j \<le> length (concat (map chunk_text cs)) then Some MessageException else None)"
      using Cons.IH[OF ok(3,4), of j] by blast
    have "length (chunk_text c) = length hx + length ex + 2 + (length dt + 2)" by (simp add: c chunk_text_def)
    then have "arrived (c # cs) k = dt @ arrived cs j" using j by (simp add: c)
    then show ?thesis using p j ok(1) by (intro exI[of _ "c # cs'"] exI[of _ p]) (simp add: c)
  qed
qed

text \<open>
  C24.  A chunked body (without trailer, sizes of chunks without leading zeros) whose connection ends after any number \<open>k\<close> of bytes is delivered as far as
  it arrived, whatever the pieces in which the bytes arrive and the sizes of the reads. When the end is reported, the session has recorded the
  exception for an incomplete body exactly if no byte of the last chunk arrived: a body that is cut off behind the first digit of its last chunk is
  taken to be complete, as is the complete one.
\<close>

theorem chunked_cut_off:
  assumes "list_all chunk_ok cs" "list_all plain_size cs" "size_ok hex 0" "ext_ok ext"
    "concat io = take k (concat (map chunk_text cs) @ last_text hex ext [])"
  shows "\<exists>b. bsb_reads (cs_readFromDevice conv) lens (bsb_new True False (cs_new (s_new io) t)) = Inr (take (sum_list lens) (arrived cs k), b) \<and>
    (length (arrived cs k) < sum_list lens \<longrightarrow>
      s_exception (c_session (b_dev b)) = (if k \<le> length (concat (map chunk_text cs)) then Some MessageException else None))"
proof -
  obtain cs' p where p: "list_all chunk_ok cs'" "cut_ok p" "concat io = concat (map chunk_text cs') @ cut_text p" "arrived cs k = concat (map chunk_data cs') @ cut_data p"
      "cut_error p = (if k \<le> length (concat (map chunk_text cs)) then Some MessageException else None)"
    using body_cut[OF assms(1-4), of k] assms(5) by auto
  have "cs_cut (cut_error p) (arrived cs k) (cs_new (s_new io) t)" unfolding cs_cut_def p(4) using p(1-3)
    by (intro disjI2 disjI1 exI[of _ "[]"] exI[of _ cs'] exI[of _ p]) (simp add: cs_new_sel pending_def s_new_def)
  from cut_off.reads_content[OF cut_off.content_new[OF this], of conv lens False] show ?thesis unfolding p(5) by blast
qed

theorem chunked_cut_off_witness:
  "\<exists>b. bsb_reads (cs_readFromDevice (\<lambda>_ _ _. None)) [100] (bsb_new True False (cs_new (s_new [''5;x'', [CR, LF] @ ''Hel'', ''lo'' @ [CR, LF], ''1'']) None)) = Inr (''Hello'', b) \<and>
    s_exception (c_session (b_dev b)) = Some MessageException"
proof -
  let ?cs = "[(''5'', '';x'', ''Hello''), (''1F'', [], replicate 31 CHR ''a'')]"
  have "list_all chunk_ok ?cs" "list_all plain_size ?cs" "size_ok ''0'' 0" "ext_ok []"
    by (simp_all add: chunk_ok_def plain_size_def ext_ok_def line_ok_def size_ok_def digit_val_def num_val_def)
  moreover have "concat [''5;x'', [CR, LF] @ ''Hel'', ''lo'' @ [CR, LF], ''1''] = take 13 (concat (map chunk_text ?cs) @ last_text ''0'' [] [])" by (simp add: chunk_text_def)
  moreover have "arrived ?cs 13 = ''Hello''" by (simp add: chunk_text_def)
  ultimately show ?thesis using chunked_cut_off[of ?cs "''0''" "[]" "[''5;x'', [CR, LF] @ ''Hel'', ''lo'' @ [CR, LF], ''1'']" 13 "\<lambda>_ _ _. None" "[100]" None]
    by (simp add: chunk_text_def)
qed

end
