(* ===== verification/HTTPExchange.thy ===== *)
theory HTTPExchange
  imports HTTPStreams
begin

text \<open>
  Requests and responses with their bodies: the client side of \<^verbatim>\<open>HTTPClientSession.cpp\<close> (\<^verbatim>\<open>sendRequestImpl\<close>, \<^verbatim>\<open>receiveResponse\<close>) and the server side of
  \<^verbatim>\<open>HTTPServerRequestImpl.cpp\<close> and \<^verbatim>\<open>HTTPServerResponseImpl.cpp\<close>, on the streams of \<open>HTTPStreams\<close>.  What one side sends arrives in any pieces and is read by the other
  side with reads of any size.
\<close>

section \<open>A stream of fixed length never sends more\<close>

definition fx_state :: "http_session \<Rightarrow> int \<Rightarrow> string \<Rightarrow> fixed_dev sbuf \<Rightarrow> string \<Rightarrow> bool" where
  "fx_state s len xs b ys \<longleftrightarrow> b_out b \<and> b_size b = 4096 \<and> length (b_put b) \<le> 4096 \<and>
    b_dev b = \<lparr>x_session = sent s ys, x_length = len, x_count = int (length ys)\<rparr>"

definition fx_full :: "http_session \<Rightarrow> int \<Rightarrow> string \<Rightarrow> fixed_dev sbuf \<Rightarrow> bool" where
  "fx_full s len xs b \<longleftrightarrow> fx_state s len xs b (take (nat len) xs) \<and> nat len \<le> length xs \<and> b_put b \<noteq> []"

definition fx_inv :: "http_session \<Rightarrow> int \<Rightarrow> string \<Rightarrow> fixed_dev sbuf \<Rightarrow> bool" where
  "fx_inv s len xs b \<longleftrightarrow> (\<exists>ys. fx_state s len xs b ys \<and> xs = ys @ b_put b \<and> length ys \<le> nat len) \<or> fx_full s len xs b"

lemma fx_full_more: "fx_full s len xs b \<Longrightarrow> fx_full s len (xs @ cs) b"
  by (simp add: fx_full_def fx_state_def)

lemma fx_flush:
  assumes "fx_inv s len xs b" "b_put b \<noteq> []"
  shows "\<exists>r b'. bsb_flushBuffer fx_writeToDevice b = (r, b') \<and> (r = -1 \<and> fx_full s len xs b' \<or> r \<noteq> -1 \<and> fx_inv s len xs b' \<and> b_put b' = [])"
proof -
  consider (part) ys where "fx_state s len xs b ys" "xs = ys @ b_put b" "length ys \<le> nat len" | (full) "fx_full s len xs b"
    using assms(1) by (auto simp: fx_inv_def)
  then show ?thesis
  proof cases
    case full
    then have "\<not> x_count (b_dev b) < x_length (b_dev b)" by (auto simp: fx_full_def fx_state_def)
    then have "bsb_flushBuffer fx_writeToDevice b = (-1, b)" using assms(2) by (simp add: bsb_flushBuffer_def fx_writeToDevice_def)
    then show ?thesis using full by simp
  next
    case part
    note d = part(1)[unfolded fx_state_def]
    show ?thesis
    proof (cases "length xs \<le> nat len")
      case True
      then have l: "int (length ys) < len" "int (length ys) + int (length (b_put b)) \<le> len" using part(2) assms(2) by (cases "b_put b"; simp; linarith)+
      let ?b = "b\<lparr>b_dev := \<lparr>x_session = sent s xs, x_length = len, x_count = int (length xs)\<rparr>, b_put := []\<rparr>"
      have "bsb_flushBuffer fx_writeToDevice b = (int (length (b_put b)), ?b)"
        using d l part(2) assms(2) by (simp add: bsb_flushBuffer_def fx_writeToDevice_def s_write_def Let_def)
      moreover have "fx_inv s len xs ?b" using d True by (simp add: fx_inv_def fx_state_def)
      ultimately show ?thesis by simp
    next
      case False
      define k where "k = nat len - length ys"
      have k: "k < length (b_put b)" "take (nat len) xs = ys @ take k (b_put b)" using False part(2,3) by (auto simp: k_def)
      let ?b = "b\<lparr>b_dev := \<lparr>x_session = sent s (take (nat len) xs), x_length = len, x_count = int (length (take (nat len) xs))\<rparr>\<rparr>"
      have "bsb_flushBuffer fx_writeToDevice b = (-1, ?b)"
      proof (cases "int (length ys) < len")
        case True
        then have "int (length ys) + int (length (b_put b)) > len" "nat (len - int (length ys)) = k" using False part(2) by (auto simp: k_def)
        then show ?thesis using d True k assms(2) by (simp add: bsb_flushBuffer_def fx_writeToDevice_def s_write_def Let_def)
      next
        case f: False
        then have "k = 0" using part(3) by (simp add: k_def)
        then show ?thesis using d f k assms(2) by (simp add: bsb_flushBuffer_def fx_writeToDevice_def)
      qed
      moreover have "fx_full s len xs ?b" using d False assms(2) by (simp add: fx_full_def fx_state_def)
      ultimately show ?thesis by blast
    qed
  qed
qed

lemma fx_sputc:
  assumes "fx_inv s len xs b"
  shows "\<exists>r b'. bsb_sputc fx_writeToDevice c b = (r, b') \<and> (r = -1 \<and> fx_full s len xs b' \<or> r \<noteq> -1 \<and> fx_inv s len (xs @ [c]) b')"
proof (cases "length (b_put b) < b_size b")
  case True
  have "fx_inv s len (xs @ [c]) (b\<lparr>b_put := b_put b @ [c]\<rparr>)" using assms True unfolding fx_inv_def fx_full_def fx_state_def by auto
  then show ?thesis using True by (simp add: bsb_sputc_def)
next
  case False
  have b: "b_put b \<noteq> []" "b_out b" using False assms by (auto simp: fx_inv_def fx_full_def fx_state_def)
  obtain r b' where f: "bsb_flushBuffer fx_writeToDevice b = (r, b')" "r = -1 \<and> fx_full s len xs b' \<or> r \<noteq> -1 \<and> fx_inv s len xs b' \<and> b_put b' = []"
    using fx_flush[OF assms b(1)] by blast
  have "fx_inv s len (xs @ [c]) (b'\<lparr>b_put := [c]\<rparr>)" if "fx_inv s len xs b'" "b_put b' = []"
    using that unfolding fx_inv_def fx_full_def fx_state_def by auto
  then show ?thesis using f b(2) False by (auto simp: bsb_sputc_def bsb_overflow_def)
qed

lemma fx_sputn: "fx_inv s len xs b \<Longrightarrow> fx_inv s len (xs @ cs) (bsb_sputn fx_writeToDevice cs b)"
proof (induction cs arbitrary: xs b)
  case (Cons c cs)
  obtain r b' where p: "bsb_sputc fx_writeToDevice c b = (r, b')" "r = -1 \<and> fx_full s len xs b' \<or> r \<noteq> -1 \<and> fx_inv s len (xs @ [c]) b'"
    using fx_sputc[OF Cons.prems] by blast
  then show ?case using Cons.IH[of "xs @ [c]" b'] fx_full_more[of s len xs b' "c # cs"] by (auto simp: fx_inv_def)
qed simp

lemma fx_sync: "fx_inv s len xs b \<Longrightarrow> fx_inv s len xs (snd (bsb_sync fx_writeToDevice b))"
  using fx_flush[of s len xs b] by (cases "b_put b = []") (auto simp: bsb_sync_def fx_inv_def)

lemma fx_writes: "fx_inv s len xs b \<Longrightarrow> fx_inv s len (xs @ ops_text ops) (bsb_writes fx_writeToDevice ops b)"
proof (induction ops arbitrary: xs b)
  case (Cons p ops)
  then show ?case using fx_sputn fx_sync Cons.IH by (cases p) (auto simp: append_assoc[symmetric] simp del: append_assoc)
qed simp

lemma fixed_sends:
  assumes "fx_inv s len xs b"
  shows "x_session (b_dev (snd (bsb_sync fx_writeToDevice b))) = sent s (take (nat len) xs)"
proof -
  let ?b = "snd (bsb_sync fx_writeToDevice b)"
  have i: "fx_inv s len xs ?b" using fx_sync[OF assms] .
  have "b_put ?b = [] \<or> fx_full s len xs ?b"
    using fx_flush[OF assms] by (cases "b_put b = []") (auto simp: bsb_sync_def)
  then show ?thesis
  proof
    assume "b_put ?b = []"
    then obtain ys where "fx_state s len xs ?b ys" "xs = ys" "length ys \<le> nat len" using i by (auto simp: fx_inv_def fx_full_def)
    then show ?thesis by (simp add: fx_state_def)
  qed (simp add: fx_full_def fx_state_def)
qed

lemma fx_inv_new: "fx_inv s len [] (bsb_new False True (fx_new s len))"
  by (simp add: fx_inv_def fx_state_def bsb_new_def fx_new_def)

section \<open>Streams of a message\<close>

text \<open>
  The stream objects that the two sides create.  \<open>os_delete\<close> is the destructor: the chunked stream is closed, the others are flushed; that of a plain stream
  also shuts down the sending side of the connection, which the receiver sees as the end of the data.
\<close>

datatype out_stream = O_chunked "chunked_dev sbuf" | O_fixed "fixed_dev sbuf" | O_plain "http_session sbuf" | O_header "http_session sbuf"

datatype in_stream = I_chunked "chunked_dev sbuf" | I_fixed "fixed_dev sbuf" | I_plain "http_session sbuf"

fun os_put :: "out_op list \<Rightarrow> out_stream \<Rightarrow> out_stream" where
  "os_put ops (O_chunked b) = O_chunked (bsb_writes cs_writeToDevice ops b)"
| "os_put ops (O_fixed b) = O_fixed (bsb_writes fx_writeToDevice ops b)"
| "os_put ops (O_plain b) = O_plain (bsb_writes st_writeToDevice ops b)"
| "os_put ops (O_header b) = O_header (bsb_writes hs_writeToDevice ops b)"

fun os_delete :: "out_stream \<Rightarrow> http_session" where
  "os_delete (O_chunked b) = c_session (b_dev (cs_close b))"
| "os_delete (O_fixed b) = x_session (b_dev (snd (bsb_sync fx_writeToDevice b)))"
| "os_delete (O_plain b) = b_dev (snd (bsb_sync st_writeToDevice b))"
| "os_delete (O_header b) = b_dev (snd (bsb_sync hs_writeToDevice b))"

fun is_reads :: "conv \<Rightarrow> nat list \<Rightarrow> in_stream \<Rightarrow> (string \<times> in_stream) result" where
  "is_reads conv lens (I_chunked b) = rbind (bsb_reads (cs_readFromDevice conv) lens b) (\<lambda>(xs, b). Inr (xs, I_chunked b))"
| "is_reads conv lens (I_fixed b) = rbind (bsb_reads fx_readFromDevice lens b) (\<lambda>(xs, b). Inr (xs, I_fixed b))"
| "is_reads conv lens (I_plain b) = rbind (bsb_reads st_readFromDevice lens b) (\<lambda>(xs, b). Inr (xs, I_plain b))"

fun is_session :: "in_stream \<Rightarrow> http_session" where
  "is_session (I_chunked b) = c_session (b_dev b)"
| "is_session (I_fixed b) = x_session (b_dev b)"
| "is_session (I_plain b) = b_dev b"

abbreviation req_fields :: "http_request \<Rightarrow> nvc" where "req_fields q \<equiv> h_fields (q_header q)"
abbreviation resp_fields :: "http_response \<Rightarrow> nvc" where "resp_fields p \<equiv> h_fields (p_header p)"

section \<open>HTTPClientSession and HTTPServerRequestImpl: requests\<close>

definition s_clearException :: "http_session \<Rightarrow> http_session" where
  "s_clearException s = s\<lparr>s_exception := None\<rparr>"

text \<open>\<^verbatim>\<open>new HTTPFixedLengthOutputStream(session, length)\<close> with the message header written to it.\<close>

definition fixed_message :: "string \<Rightarrow> int \<Rightarrow> http_session \<Rightarrow> out_stream" where
  "fixed_message hdr len s = os_put [Put hdr] (O_fixed (bsb_new False True (fx_new s len)))"

text \<open>The result also has \<^verbatim>\<open>_expectResponseBody\<close>.\<close>

definition sendRequestImpl :: "http_request \<Rightarrow> message_header \<Rightarrow> http_session \<Rightarrow> (out_stream \<times> bool) result" where
  "sendRequestImpl q requestTrailer s =
    (let s = s_clearException s;
         expectResponseBody = (q_method q \<noteq> ''HEAD'');
         chars = int (length (req_write q))
     in if getChunkedTransferEncoding (req_fields q) then
          Inr (O_chunked (bsb_new False True (cs_new (hs_send (req_write q) s) (Some requestTrailer))), expectResponseBody)
        else if hasContentLength (req_fields q) then
          rbind (getContentLength (req_fields q)) (\<lambda>n. Inr (fixed_message (req_write q) (n + chars) s, expectResponseBody))
        else Inr (fixed_message (req_write q) chars s, expectResponseBody))"

definition server_request :: "conv \<Rightarrow> bool \<Rightarrow> message_header \<Rightarrow> http_session \<Rightarrow> (http_request \<times> in_stream) result" where
  "server_request conv autoDecodeHeaders requestTrailer s =
    rbind (hs_read_request conv (req_new\<lparr>q_header := mh_setAutoDecode autoDecodeHeaders mh_new\<rparr>) s) (\<lambda>(q, s).
      if getChunkedTransferEncoding (req_fields q) then Inr (q, I_chunked (bsb_new True False (cs_new s (Some requestTrailer))))
      else if hasContentLength (req_fields q) then
        rbind (getContentLength (req_fields q)) (\<lambda>n. Inr (q, I_fixed (bsb_new True False (fx_new s n))))
      else Inr (q, I_fixed (bsb_new True False (fx_new s 0))))"

section \<open>HTTPServerResponseImpl and HTTPClientSession: responses\<close>

text \<open>The attached request, of which only the method matters, is \<open>isHead\<close>.\<close>

definition sendContinue :: "string \<Rightarrow> http_session \<Rightarrow> http_session" where
  "sendContinue version s = hs_send (version @ '' 100 Continue'' @ [CR, LF, CR, LF]) s"

abbreviation noBody :: "int \<Rightarrow> bool" where
  "noBody status \<equiv> status < 200 \<or> status = 204 \<or> status = 304"

definition send_response :: "bool \<Rightarrow> http_response \<Rightarrow> message_header \<Rightarrow> http_session \<Rightarrow> (out_stream \<times> http_response) result" where
  "send_response isHead p responseTrailer s =
    (let chars = int (length (resp_write p))
     in if isHead \<or> noBody (p_status p) then Inr (fixed_message (resp_write p) chars s, p)
        else if getChunkedTransferEncoding (resp_fields p) then
          Inr (O_chunked (bsb_new False True (cs_new (hs_send (resp_write p) s) (Some responseTrailer))), p)
        else if hasContentLength (resp_fields p) then
          rbind (getContentLength (resp_fields p)) (\<lambda>n. Inr (fixed_message (resp_write p) (n + chars) s, p))
        else let p = p\<lparr>p_header := (p_header p)\<lparr>h_fields := setKeepAlive False (resp_fields p)\<rparr>\<rparr>
             in Inr (os_put [Put (resp_write p)] (O_plain (bsb_new False True s)), p))"

definition hs_read_response :: "conv \<Rightarrow> http_response \<Rightarrow> http_session \<Rightarrow> (http_response \<times> http_session) result" where
  "hs_read_response conv p s =
    (let ps = hs_pieces (hs_new s); tx = hs_text ps
     in rbind (resp_read conv p tx) (\<lambda>(p, rest). Inr (p, hs_after (length tx - length rest) ps s)))"

text \<open>\<^verbatim>\<open>response.clear()\<close>\<close>

definition resp_clear :: "http_response \<Rightarrow> http_response" where
  "resp_clear p = p\<lparr>p_header := (p_header p)\<lparr>h_fields := []\<rparr>\<rparr>"

lemma hs_read_shorter:
  assumes "hs_readFromDevice n d = Inr (Some bs, d')"
  shows "length (pending (h_session d')) \<le> length (pending (h_session d))"
proof (cases "bs = []")
  case False then show ?thesis using hs_read_pending[OF assms] by simp
next
  case True
  show ?thesis
  proof (cases "h_end d")
    case False
    obtain ch s where g: "s_get (h_session d) = (ch, s)" "cur (h_session d) (pending (h_session d)) ch s" using s_get_cur by blast
    obtain xs e s' where l: "hs_loop (n - 1) ch s = (xs, e, s')" by (metis prod_cases3)
    then have "h_session d' = s'" using assms g(1) False by (auto simp: hs_readFromDevice_def)
    then show ?thesis using hs_loop_pending[OF g(2) l] by (auto simp: reads_to_def split: if_splits)
  qed (use assms in \<open>simp add: hs_readFromDevice_def\<close>)
qed

lemma hs_after_shorter:
  "length (pending (hs_after k (hs_pieces d) (h_session d))) \<le> length (pending (h_session d)) \<and>
    (0 < k \<longrightarrow> hs_text (hs_pieces d) \<noteq> [] \<longrightarrow> length (pending (hs_after k (hs_pieces d) (h_session d))) < length (pending (h_session d)))"
proof (induction d arbitrary: k rule: hs_pieces.induct)
  case (1 d)
  obtain bs d' where h: "hs_readFromDevice 4092 d = Inr (Some bs, d')"
    by (cases "h_end d"; cases "hs_loop 4091 (fst (s_get (h_session d))) (snd (s_get (h_session d)))") (auto simp: hs_readFromDevice_def case_prod_beta)
  have p: "hs_pieces d = (bs, h_session d') # (if bs = [] then [] else hs_pieces d')" by (subst hs_pieces.simps) (simp add: h)
  show ?case
  proof (cases "bs = []")
    case True then show ?thesis using p hs_read_shorter[OF h] by (simp add: hs_text_def)
  next
    case False
    then show ?thesis using p hs_read_pending[OF h False] 1(1)[OF h refl refl False, of "k - length bs"] by (auto dest: le_less_trans)
  qed
qed

lemma read_response_shorter:
  assumes "hs_read_response conv p s = Inr (p', s')"
  shows "length (pending s') < length (pending s)"
proof -
  let ?ps = "hs_pieces (hs_new s)"
  obtain rest where r: "resp_read conv p (hs_text ?ps) = Inr (p', rest)" "s' = hs_after (length (hs_text ?ps) - length rest) ?ps s"
    using assms by (auto simp: hs_read_response_def Let_def rbind_eq_Inr)
  then have "length rest < length (hs_text ?ps)" using resp_read_length by blast
  moreover from this have "hs_text ?ps \<noteq> []" by auto
  ultimately show ?thesis using hs_after_shorter[of _ "hs_new s"] r(2) by (simp add: hs_new_def)
qed

function receive_loop :: "conv \<Rightarrow> http_response \<Rightarrow> http_session \<Rightarrow> (http_response \<times> http_session) result" where
  "receive_loop conv p s =
    (case hs_read_response conv (resp_clear p) s of
       Inl e \<Rightarrow> Inl e
     | Inr (p, s') \<Rightarrow> if p_status p = 100 then receive_loop conv p s' else Inr (p, s'))"
  by pat_completeness auto
termination by (relation "measure (\<lambda>(conv, p, s). length (pending s))") (auto dest: read_response_shorter)

declare receive_loop.simps [simp del]

text \<open>\<^verbatim>\<open>receiveResponse\<close>; \<open>received\<close> is \<^verbatim>\<open>_responseReceived\<close>, which is set when \<^verbatim>\<open>peekResponse\<close> has already read the response.\<close>

definition receiveResponse :: "conv \<Rightarrow> bool \<Rightarrow> bool \<Rightarrow> message_header \<Rightarrow> http_response \<Rightarrow> http_session \<Rightarrow> (http_response \<times> in_stream) result" where
  "receiveResponse conv received expectResponseBody responseTrailer p s =
    (case s_exception s of
       Some e \<Rightarrow> Inl e
     | None \<Rightarrow>
         rbind (if received then Inr (p, s) else receive_loop conv p s) (\<lambda>(p, s).
           if \<not> expectResponseBody \<or> noBody (p_status p) then Inr (p, I_fixed (bsb_new True False (fx_new s 0)))
           else if getChunkedTransferEncoding (resp_fields p) then
             Inr (p, I_chunked (bsb_new True False (cs_new s (Some (responseTrailer\<lparr>h_fields := []\<rparr>)))))
           else if hasContentLength (resp_fields p) then
             rbind (getContentLength (resp_fields p)) (\<lambda>n. Inr (p, I_fixed (bsb_new True False (fx_new s n))))
           else Inr (p, I_plain (bsb_new True False s))))"

section \<open>What is sent\<close>

lemma fixed_message_sends: "os_delete (os_put ops (fixed_message hdr len s)) = sent s (take (nat len) (hdr @ ops_text ops))"
  using fixed_sends[OF fx_writes[OF fx_sputn[OF fx_inv_new]]] by (simp add: fixed_message_def)

lemma plain_message_sends: "os_delete (os_put ops (os_put [Put hdr] (O_plain (bsb_new False True s)))) = sent s (hdr @ ops_text ops)"
proof -
  have "plain_out.holds_out s [] (bsb_new False True s)" by (rule plain_out.output_new) simp
  from plain_out.sputn_output[OF this, of hdr] have "plain_out.holds_out s hdr (bsb_sputn st_writeToDevice hdr (bsb_new False True s))" by simp
  from plain_out.writes_output[OF this, of ops] show ?thesis using plain_out.all_written by simp
qed

lemma chunked_message_sends: "os_delete (os_put ops (O_chunked (bsb_new False True (cs_new s t)))) = cs_send t ops s"
  by (simp add: cs_send_def)

section \<open>What is received\<close>

text \<open>A stream gives the body \<open>xs\<close>, whatever the sizes of the reads, and leaves \<open>nx\<close> on the connection.\<close>

definition body_arrives :: "conv \<Rightarrow> in_stream \<Rightarrow> string \<Rightarrow> string \<Rightarrow> bool" where
  "body_arrives conv st xs nx \<longleftrightarrow> (\<forall>lens. \<exists>st'. is_reads conv lens st = Inr (take (sum_list lens) xs, st') \<and>
    (length xs < sum_list lens \<longrightarrow> pending (is_session st') = nx \<and> s_exception (is_session st') = None))"

lemma fixed_arrives:
  assumes "pending s = xs @ nx" "s_exception s = None"
  shows "body_arrives conv (I_fixed (bsb_new True False (fx_new s (int (length xs))))) xs nx"
  unfolding body_arrives_def
proof
  fix lens
  have "fx_holds s nx xs (fx_new s (int (length xs)))" using assms(1) by (simp add: fx_holds_def fx_new_def reads_to_def)
  from fixed.reads_content[OF fixed.content_new[OF this, of False], of lens] obtain b where
    "bsb_reads fx_readFromDevice lens (bsb_new True False (fx_new s (int (length xs)))) = Inr (take (sum_list lens) xs, b)"
    "length xs < sum_list lens \<longrightarrow> reads_to s nx (x_session (b_dev b))" by blast
  then show "\<exists>st'. is_reads conv lens (I_fixed (bsb_new True False (fx_new s (int (length xs))))) = Inr (take (sum_list lens) xs, st') \<and>
      (length xs < sum_list lens \<longrightarrow> pending (is_session st') = nx \<and> s_exception (is_session st') = None)"
    using assms(2) by (intro exI[of _ "I_fixed b"]) (simp add: reads_to_def)
qed

lemma plain_arrives:
  assumes "pending s = xs" "s_exception s = None"
  shows "body_arrives conv (I_plain (bsb_new True False s)) xs []"
  unfolding body_arrives_def
proof
  fix lens
  have "reads_to s xs s" using assms(1) by (simp add: reads_to_def)
  from plain.reads_content[OF plain.content_new[OF this, of False], of lens] obtain b where
    "bsb_reads st_readFromDevice lens (bsb_new True False s) = Inr (take (sum_list lens) xs, b)" "length xs < sum_list lens \<longrightarrow> reads_to s [] (b_dev b)" by blast
  then show "\<exists>st'. is_reads conv lens (I_plain (bsb_new True False s)) = Inr (take (sum_list lens) xs, st') \<and>
      (length xs < sum_list lens \<longrightarrow> pending (is_session st') = [] \<and> s_exception (is_session st') = None)"
    using assms(2) by (intro exI[of _ "I_plain b"]) (simp add: reads_to_def)
qed

lemma chunked_arrives:
  assumes "cs_send t ops s1 = sent s1 tx" "pending s = tx @ nx" "s_exception s = None" "trailer_ok t' (trailer_fields t)"
  shows "body_arrives conv (I_chunked (bsb_new True False (cs_new s t'))) (ops_text ops) nx"
  unfolding body_arrives_def
proof
  fix lens
  obtain cs where cs: "list_all chunk_ok cs" "concat (map chunk_data cs) = ops_text ops"
      "cs_send t ops s1 = sent s1 (concat (map chunk_text cs) @ last_text ''0'' [] (trailer_fields t))"
    using cs_send_chunks by blast
  have "s_out s1 @ tx = s_out s1 @ concat (map chunk_text cs) @ last_text ''0'' [] (trailer_fields t)" using assms(1) cs(3) by (metis http_session.select_convs(2) http_session.surjective http_session.update_convs(2))
  then have "pending s = concat (map chunk_text cs) @ last_text ''0'' [] (trailer_fields t) @ nx" using assms(2) by simp
  from chunked_read_back[OF assms(4) cs(1) zero_size this, of conv lens] obtain b where
    "bsb_reads (cs_readFromDevice conv) lens (bsb_new True False (cs_new s t')) = Inr (take (sum_list lens) (ops_text ops), b)"
    "length (ops_text ops) < sum_list lens \<longrightarrow> cs_finished s nx t' (trailer_fields t) (b_dev b)" unfolding cs(2) by blast
  then show "\<exists>st'. is_reads conv lens (I_chunked (bsb_new True False (cs_new s t'))) = Inr (take (sum_list lens) (ops_text ops), st') \<and>
      (length (ops_text ops) < sum_list lens \<longrightarrow> pending (is_session st') = nx \<and> s_exception (is_session st') = None)"
    using assms(3) by (intro exI[of _ "I_chunked b"]) (simp add: cs_finished_def reads_to_def)
qed

text \<open>The lines of a message that the header stream does not take for the end.\<close>

definition message_safe :: "message_header \<Rightarrow> string \<Rightarrow> nvc \<Rightarrow> bool" where
  "message_safe h start m \<longleftrightarrow> line_ok start \<and> \<not> line_ends start \<and> fields_safe h m"

lemma message_lines:
  assumes "message_safe h start m"
  shows "list_all (\<lambda>l. line_ok l \<and> \<not> line_ends l) (start # map field_line m)"
  using assms by (auto simp: message_safe_def fields_safe_def list_all_iff)

lemma mh_write_lines: "mh_write (g\<lparr>h_fields := m\<rparr>) = lines_text (map field_line m)"
  using write_lines[of "g\<lparr>h_fields := m\<rparr>"] by simp

definition request_read :: "http_request \<Rightarrow> http_request \<Rightarrow> nvc \<Rightarrow> http_request" where
  "request_read q0 q m = q0\<lparr>q_method := q_method q, q_uri := q_uri q, q_version := q_version q,
    q_header := (q_header q0)\<lparr>h_fields := m, h_decodedOnRead := h_autoDecode (q_header q0)\<rparr>\<rparr>"

lemma read_request_ok:
  assumes "req_words q" "message_safe (q_header q0) (req_start q) (req_fields q)" "h_fields (q_header q0) = []" "pending s = req_write q @ nx"
  shows "\<exists>s'. hs_read_request conv q0 s = Inr (request_read q0 q (req_fields q), s') \<and> reads_to s nx s'"
proof -
  let ?t = "lines_text (req_start q # map field_line (req_fields q))"
  have tx: "req_write q @ r = ?t @ [CR] @ LF # r" for r unfolding req_write_text mh_write_lines by simp
  obtain s' where h: "hs_text (hs_pieces (hs_new s)) = ?t @ [CR] @ [LF]" "reads_to s nx s'"
      "\<forall>k. length (?t @ [CR]) \<le> k \<longrightarrow> hs_after k (hs_pieces (hs_new s)) s = s'"
    using header_stream[OF assms(4)[unfolded tx] message_lines[OF assms(2)]] by auto
  have "req_read conv q0 (?t @ [CR] @ [LF]) = Inr (request_read q0 q (req_fields q), [])"
    using request_text[OF assms(1) _ assms(3), of "req_fields q" "[CR, LF]" conv "q_header q"] assms(2)
    unfolding mh_write_lines by (simp add: request_read_def message_safe_def fields_safe_def)
  then show ?thesis using h by (auto simp: hs_read_request_def Let_def)
qed

section \<open>Requests arrive\<close>

text \<open>
  The fields of a message announce how its body is sent: chunked, with the trailer \<open>t\<close> that the receiver reads into \<open>t'\<close>, or with its length, or there is none.
\<close>

definition body_announced :: "nvc \<Rightarrow> message_header \<Rightarrow> message_header \<Rightarrow> string \<Rightarrow> bool" where
  "body_announced m t' t xs \<longleftrightarrow>
    (if getChunkedTransferEncoding m then trailer_ok (Some t') (h_fields t)
     else if hasContentLength m then getContentLength m = Inr (int (length xs))
     else xs = [])"

lemma request_sent:
  assumes "body_announced (req_fields q) t' t (ops_text ops)"
  shows "\<exists>st e tx. sendRequestImpl q t s = Inr (st, e) \<and> os_delete (os_put ops st) = sent (s_clearException s) (req_write q @ tx) \<and>
    (if getChunkedTransferEncoding (req_fields q) then cs_send (Some t) ops (sent (s_clearException s) (req_write q)) = sent (sent (s_clearException s) (req_write q)) tx
     else tx = ops_text ops)"
proof (cases "getChunkedTransferEncoding (req_fields q)")
  case True
  let ?s = "sent (s_clearException s) (req_write q)"
  obtain tx where "cs_send (Some t) ops ?s = sent ?s tx" using cs_send_chunks by blast
  moreover have "sendRequestImpl q t s = Inr (O_chunked (bsb_new False True (cs_new ?s (Some t))), q_method q \<noteq> ''HEAD'')"
    using True by (simp add: sendRequestImpl_def Let_def hs_send_eq)
  ultimately show ?thesis using True chunked_message_sends[of ops ?s "Some t"] by (auto simp del: os_put.simps os_delete.simps)
next
  case False
  then show ?thesis using assms fixed_message_sends[of ops "req_write q"]
    by (auto simp: body_announced_def sendRequestImpl_def Let_def nat_add_distrib split: if_splits)
qed

lemma body_received:
  assumes "body_announced m t' t (ops_text ops)" "pending s = tx @ nx" "s_exception s = None"
    "if getChunkedTransferEncoding m then cs_send (Some t) ops s1 = sent s1 tx else tx = ops_text ops"
  shows "getChunkedTransferEncoding m \<Longrightarrow> body_arrives conv (I_chunked (bsb_new True False (cs_new s (Some t')))) (ops_text ops) nx"
    and "\<not> getChunkedTransferEncoding m \<Longrightarrow> body_arrives conv (I_fixed (bsb_new True False (fx_new s (int (length (ops_text ops)))))) (ops_text ops) nx"
proof -
  show "body_arrives conv (I_chunked (bsb_new True False (cs_new s (Some t')))) (ops_text ops) nx" if "getChunkedTransferEncoding m"
    using chunked_arrives[of "Some t" ops s1 tx s nx "Some t'" conv] assms that by (simp add: body_announced_def trailer_fields_def)
  show "body_arrives conv (I_fixed (bsb_new True False (fx_new s (int (length (ops_text ops)))))) (ops_text ops) nx" if "\<not> getChunkedTransferEncoding m"
    using fixed_arrives[of s "ops_text ops" nx conv] assms that by simp
qed

text \<open>
  C5.  A request that a client sends arrives at the server, header and body, chunked or with its length or without one: however the body was written,
  however the bytes are cut on the way and however the server reads, it gets the method, the URI, the version, the fields and the body, and what the
  client sends next is left on the connection.
\<close>

theorem request_exchange:
  assumes "req_words q" "message_safe (mh_setAutoDecode a mh_new) (req_start q) (req_fields q)" "body_announced (req_fields q) t' t (ops_text ops)"
  shows "\<exists>st e. sendRequestImpl q t (s_new []) = Inr (st, e) \<and>
    (\<forall>io nx. concat io = s_out (os_delete (os_put ops st)) @ nx \<longrightarrow>
      (\<exists>q' st'. server_request conv a t' (s_new io) = Inr (q', st') \<and> q_method q' = q_method q \<and> q_uri q' = q_uri q \<and> q_version q' = q_version q \<and>
        req_fields q' = req_fields q \<and> body_arrives conv st' (ops_text ops) nx))"
proof -
  let ?q0 = "req_new\<lparr>q_header := mh_setAutoDecode a mh_new\<rparr>" and ?m = "req_fields q"
  let ?s1 = "sent (s_clearException (s_new [])) (req_write q)"
  have h0: "message_safe (q_header ?q0) (req_start q) ?m" "h_fields (q_header ?q0) = []" using assms(2) by (simp_all add: mh_setAutoDecode_def mh_new_def)
  have c: "s_clearException (s_new []) = s_new []" by (simp add: s_clearException_def s_new_def)
  obtain st e tx where s: "sendRequestImpl q t (s_new []) = Inr (st, e)" "os_delete (os_put ops st) = sent (s_new []) (req_write q @ tx)"
      "if getChunkedTransferEncoding ?m then cs_send (Some t) ops ?s1 = sent ?s1 tx else tx = ops_text ops"
    using request_sent[OF assms(3), of "s_new []"] unfolding c by blast
  have "\<exists>q' st'. server_request conv a t' (s_new io) = Inr (q', st') \<and> q_method q' = q_method q \<and> q_uri q' = q_uri q \<and> q_version q' = q_version q \<and>
        req_fields q' = ?m \<and> body_arrives conv st' (ops_text ops) nx" if io: "concat io = s_out (os_delete (os_put ops st)) @ nx" for io nx
  proof -
    have "pending (s_new io) = req_write q @ tx @ nx" using io s(2) by (simp add: pending_def s_new_def)
    then obtain s' where r: "hs_read_request conv ?q0 (s_new io) = Inr (request_read ?q0 q ?m, s')" "reads_to (s_new io) (tx @ nx) s'"
      using read_request_ok[OF assms(1) h0] by blast
    have s': "pending s' = tx @ nx" "s_exception s' = None" using r(2) by (auto simp: reads_to_def s_new_def)
    note b = body_received[OF assms(3) s' s(3), of conv]
    have n: "hasContentLength ?m \<Longrightarrow> \<not> getChunkedTransferEncoding ?m \<Longrightarrow> getContentLength ?m = Inr (int (length (ops_text ops)))"
      "\<not> hasContentLength ?m \<Longrightarrow> \<not> getChunkedTransferEncoding ?m \<Longrightarrow> ops_text ops = []" using assms(3) by (auto simp: body_announced_def)
    show ?thesis using r(1) b n by (auto simp: server_request_def request_read_def)
  qed
  then show ?thesis using s(1) by blast
qed

theorem request_exchange_witness:
  "\<exists>st e. sendRequestImpl (req_new\<lparr>q_method := ''POST'', q_header := mh_new\<lparr>h_fields := [(''Transfer-Encoding'', ''chunked'')]\<rparr>\<rparr>) mh_new (s_new []) = Inr (st, e) \<and>
    (\<exists>q' st'. server_request (\<lambda>_ _ _. None) False mh_new (s_new [s_out (os_delete (os_put [Put ''a'', Flush, Put ''b''] st)), ''GET'']) = Inr (q', st') \<and>
      q_method q' = ''POST'' \<and> body_arrives (\<lambda>_ _ _. None) st' ''ab'' ''GET'')"
proof -
  let ?q = "req_new\<lparr>q_method := ''POST'', q_header := mh_new\<lparr>h_fields := [(''Transfer-Encoding'', ''chunked'')]\<rparr>\<rparr>"
  have w: "req_words ?q" by code_simp
  have m: "message_safe (mh_setAutoDecode False mh_new) (req_start ?q) (req_fields ?q)" by code_simp
  have b: "body_announced (req_fields ?q) mh_new mh_new (ops_text [Put ''a'', Flush, Put ''b''])" by code_simp
  obtain st e where s: "sendRequestImpl ?q mh_new (s_new []) = Inr (st, e)"
    "\<forall>io nx. concat io = s_out (os_delete (os_put [Put ''a'', Flush, Put ''b''] st)) @ nx \<longrightarrow>
      (\<exists>q' st'. server_request (\<lambda>_ _ _. None) False mh_new (s_new io) = Inr (q', st') \<and> q_method q' = q_method ?q \<and> q_uri q' = q_uri ?q \<and> q_version q' = q_version ?q \<and>
        req_fields q' = req_fields ?q \<and> body_arrives (\<lambda>_ _ _. None) st' (ops_text [Put ''a'', Flush, Put ''b'']) nx)"
    using request_exchange[OF w m b, of "\<lambda>_ _ _. None"] by blast
  have "concat [s_out (os_delete (os_put [Put ''a'', Flush, Put ''b''] st)), ''GET''] = s_out (os_delete (os_put [Put ''a'', Flush, Put ''b''] st)) @ ''GET''" by simp
  then obtain q' st' where "server_request (\<lambda>_ _ _. None) False mh_new (s_new [s_out (os_delete (os_put [Put ''a'', Flush, Put ''b''] st)), ''GET'']) = Inr (q', st')"
      "q_method q' = q_method ?q" "body_arrives (\<lambda>_ _ _. None) st' (ops_text [Put ''a'', Flush, Put ''b'']) ''GET''"
    using s(2) by blast
  then show ?thesis using s(1) by auto
qed

text \<open>
  C26.  A field whose line, with its line feed, is 4094 characters long (or 2 modulo 4092) ends the header: the server does not see the fields behind it and
  takes them for the body or for the next request.
\<close>

theorem header_cut:
  assumes "req_words q" "line_ok (req_start q)" "\<not> line_ends (req_start q)" "list_all (\<lambda>f. line_ok (field_line f) \<and> \<not> line_ends (field_line f)) m"
    "line_ok (field_line f)" "length (field_line f) = 4093" "fields_ok (mh_setAutoDecode a mh_new) (m @ [f])"
    "concat io = req_start q @ LF # lines_text (map field_line (m @ [f])) @ rest"
  shows "\<exists>q' s'. hs_read_request conv (req_new\<lparr>q_header := mh_setAutoDecode a mh_new\<rparr>) (s_new io) = Inr (q', s') \<and>
    q_uri q' = q_uri q \<and> req_fields q' = m @ [f] \<and> pending s' = rest"
proof -
  let ?q0 = "req_new\<lparr>q_header := mh_setAutoDecode a mh_new\<rparr>"
  let ?t = "lines_text (req_start q # map field_line m)"
  have p: "pending (s_new io) = ?t @ field_line f @ LF # rest" using assms(8) by (simp add: pending_def s_new_def)
  have ls: "list_all (\<lambda>l. line_ok l \<and> \<not> line_ends l) (req_start q # map field_line m)" using assms(2-4) by (auto simp: list_all_iff)
  have e: "line_ends (field_line f)" using assms(6) by (simp add: line_ends_def)
  obtain s' where h: "hs_text (hs_pieces (hs_new (s_new io))) = ?t @ field_line f @ [LF]" "reads_to (s_new io) rest s'"
      "\<forall>k. length (?t @ field_line f) \<le> k \<longrightarrow> hs_after k (hs_pieces (hs_new (s_new io))) (s_new io) = s'"
    using header_stream[OF p ls assms(5) e] by blast
  have n: "h_fields (q_header ?q0) = []" "fields_ok (q_header ?q0) (m @ [f])" using assms(7) by (simp_all add: mh_setAutoDecode_def mh_new_def)
  have "req_read conv ?q0 (?t @ field_line f @ [LF]) = Inr (request_read ?q0 q (m @ [f]), [])"
    using request_text[OF assms(1) n(2,1), of "[]" conv mh_new] unfolding mh_write_lines by (simp add: request_read_def skip_line_def)
  then show ?thesis using h by (auto simp: hs_read_request_def Let_def request_read_def reads_to_def)
qed

theorem header_cut_witness:
  "\<exists>q' s'. hs_read_request (\<lambda>_ _ _. None) (req_new\<lparr>q_header := mh_setAutoDecode False mh_new\<rparr>)
      (s_new [req_start req_new @ [LF], field_line (''X'', replicate 4089 CHR ''a'') @ LF # ''Content-Length: 7'']) = Inr (q', s') \<and>
    req_fields q' = [(''X'', replicate 4089 CHR ''a'')] \<and> pending s' = ''Content-Length: 7''"
proof -
  let ?f = "(''X'', replicate 4089 CHR ''a'')"
  have w: "req_words req_new" "line_ok (req_start req_new)" "\<not> line_ends (req_start req_new)" by code_simp+
  have f: "line_ok (field_line ?f)" "length (field_line ?f) = 4093" by (simp_all add: line_ok_def field_line_def list_all_iff)
  have "\<not> space CHR ''a''" "\<not> blank CHR ''X''" by code_simp+
  then have "fields_ok (mh_setAutoDecode False mh_new) ([] @ [?f])"
    by (simp add: fields_ok_def field_ok_def mh_setAutoDecode_def mh_new_def list_all_iff)
  from header_cut[OF w, of "[]" ?f False "[req_start req_new @ [LF], field_line ?f @ LF # ''Content-Length: 7'']" "''Content-Length: 7''" "\<lambda>_ _ _. None"] this f
  show ?thesis by (auto simp del: replicate.simps)
qed

section \<open>Responses arrive\<close>

text \<open>A response object as \<^verbatim>\<open>HTTPResponse()\<close> makes it, with automatic decoding switched on or off.\<close>

definition resp_new :: "bool \<Rightarrow> http_response" where
  "resp_new decode = \<lparr>p_header = mh_setAutoDecode decode mh_new, p_version = ''HTTP/1.0'', p_status = 200, p_reason = ''OK''\<rparr>"

definition response_read :: "http_response \<Rightarrow> http_response \<Rightarrow> http_response" where
  "response_read p0 p = p0\<lparr>p_version := p_version p, p_status := p_status p, p_reason := p_reason p,
    p_header := (p_header p0)\<lparr>h_fields := resp_fields p, h_decodedOnRead := h_autoDecode (p_header p0)\<rparr>\<rparr>"

lemma read_response_ok:
  assumes "resp_words p" "message_safe (p_header p0) (resp_start p) (resp_fields p)" "h_fields (p_header p0) = []" "pending s = resp_write p @ nx"
  shows "\<exists>s'. hs_read_response conv p0 s = Inr (response_read p0 p, s') \<and> reads_to s nx s'"
proof -
  let ?t = "lines_text (resp_start p # map field_line (resp_fields p))"
  have tx: "resp_write p @ r = ?t @ [CR] @ LF # r" for r unfolding resp_write_text mh_write_lines by simp
  obtain s' where h: "hs_text (hs_pieces (hs_new s)) = ?t @ [CR] @ [LF]" "reads_to s nx s'"
      "\<forall>k. length (?t @ [CR]) \<le> k \<longrightarrow> hs_after k (hs_pieces (hs_new s)) s = s'"
    using header_stream[OF assms(4)[unfolded tx] message_lines[OF assms(2)]] by auto
  have "resp_read conv p0 (?t @ [CR] @ [LF]) = Inr (response_read p0 p, [])"
    using response_text[OF assms(1) _ assms(3), of "resp_fields p" "[CR, LF]" conv "p_header p"] assms(2)
    unfolding mh_write_lines by (simp add: response_read_def message_safe_def fields_safe_def)
  then show ?thesis using h by (auto simp: hs_read_response_def Let_def)
qed

text \<open>Only the limits and the automatic decoding of the header that is read into matter.\<close>

definition same_limits :: "message_header \<Rightarrow> message_header \<Rightarrow> bool" where
  "same_limits h g \<longleftrightarrow> h_fieldLimit h = h_fieldLimit g \<and> h_nameLengthLimit h = h_nameLengthLimit g \<and> h_valueLengthLimit h = h_valueLengthLimit g \<and>
    h_autoDecode h = h_autoDecode g"

lemma message_safe_limits: "same_limits h g \<Longrightarrow> message_safe h start m = message_safe g start m"
  by (simp add: same_limits_def message_safe_def fields_safe_def fields_ok_def field_ok_def)

lemma receive_one:
  assumes "resp_words p" "message_safe (p_header p0) (resp_start p) (resp_fields p)" "pending s = resp_write p @ nx"
  shows "\<exists>p' s'. hs_read_response conv (resp_clear p0) s = Inr (p', s') \<and> reads_to s nx s' \<and> p_version p' = p_version p \<and> p_status p' = p_status p \<and>
    p_reason p' = p_reason p \<and> resp_fields p' = resp_fields p \<and> same_limits (p_header p') (p_header p0)"
proof -
  have "message_safe (p_header (resp_clear p0)) (resp_start p) (resp_fields p)"
    using assms(2) message_safe_limits[of "p_header (resp_clear p0)" "p_header p0"] by (simp add: resp_clear_def same_limits_def)
  from read_response_ok[OF assms(1) this _ assms(3), of conv] show ?thesis by (auto simp: resp_clear_def response_read_def same_limits_def)
qed

text \<open>The interim response of \<^verbatim>\<open>sendContinue\<close>.\<close>

definition continue_response :: "string \<Rightarrow> http_response" where
  "continue_response version = \<lparr>p_header = mh_new, p_version = version, p_status = 100, p_reason = ''Continue''\<rparr>"

lemma status_100: "ref_format 100 10 False 0 CHR '' '' CHR 0x00 False = ''100''"
  by code_simp

lemma sendContinue_sends: "sendContinue version s = sent s (resp_write (continue_response version))"
  by (simp add: sendContinue_def hs_send_eq resp_write_def continue_response_def status_100 mh_write_def mh_new_def)

lemma continue_ok:
  assumes "word_ok 8 version" "line_ok version"
  shows "resp_words (continue_response version)" "message_safe h (resp_start (continue_response version)) (resp_fields (continue_response version))"
proof -
  have "\<not> space CHR ''C''" by code_simp
  then show "resp_words (continue_response version)" using assms(1) by (simp add: resp_words_def continue_response_def)
  have "length version \<le> 8" using assms(1) by (simp add: word_ok_def)
  then have "Suc (length (resp_start (continue_response version))) mod 4092 \<noteq> 2" by (simp add: resp_start_def continue_response_def status_100)
  then show "message_safe h (resp_start (continue_response version)) (resp_fields (continue_response version))" using assms(2)
    by (simp add: message_safe_def fields_safe_def fields_ok_def resp_start_def continue_response_def status_100 line_ok_def line_ends_def mh_new_def)
qed

lemma receive_loop_ok:
  assumes "resp_words p" "message_safe (p_header p0) (resp_start p) (resp_fields p)" "p_status p \<noteq> 100" "word_ok 8 version" "line_ok version"
    "pending s = concat (replicate n (resp_write (continue_response version))) @ resp_write p @ nx"
  shows "\<exists>p' s'. receive_loop conv p0 s = Inr (p', s') \<and> reads_to s nx s' \<and> p_version p' = p_version p \<and> p_status p' = p_status p \<and>
    p_reason p' = p_reason p \<and> resp_fields p' = resp_fields p"
  using assms(2,6)
proof (induction n arbitrary: p0 s)
  case 0
  then show ?case using receive_one[OF assms(1) 0(1), of s nx conv] assms(3) by (subst receive_loop.simps) auto
next
  case (Suc n)
  let ?c = "continue_response version"
  have "pending s = resp_write ?c @ concat (replicate n (resp_write ?c)) @ resp_write p @ nx" using Suc.prems(2) by simp
  from receive_one[OF continue_ok(1)[OF assms(4,5)] continue_ok(2)[OF assms(4,5), of "p_header p0"] this, of conv] obtain p1 s1 where
    r: "hs_read_response conv (resp_clear p0) s = Inr (p1, s1)" "reads_to s (concat (replicate n (resp_write ?c)) @ resp_write p @ nx) s1"
      "p_status p1 = 100" "same_limits (p_header p1) (p_header p0)" by (auto simp: continue_response_def)
  have "pending s1 = concat (replicate n (resp_write ?c)) @ resp_write p @ nx" using r(2) by (simp add: reads_to_def)
  from Suc.IH[OF _ this] message_safe_limits[OF r(4)] Suc.prems(1) obtain p' s' where
    "receive_loop conv p1 s1 = Inr (p', s')" "reads_to s1 nx s'" "p_version p' = p_version p" "p_status p' = p_status p"
      "p_reason p' = p_reason p" "resp_fields p' = resp_fields p" by blast
  then show ?case using r(1,3) reads_to_trans[OF r(2)] by (subst receive_loop.simps) auto
qed

text \<open>The response as it is sent: without a length and not chunked it announces the end of the connection.\<close>

definition response_sent :: "bool \<Rightarrow> http_response \<Rightarrow> http_response" where
  "response_sent isHead p =
    (if isHead \<or> noBody (p_status p) \<or> getChunkedTransferEncoding (resp_fields p) \<or> hasContentLength (resp_fields p) then p
     else p\<lparr>p_header := (p_header p)\<lparr>h_fields := setKeepAlive False (resp_fields p)\<rparr>\<rparr>)"

definition body_sent :: "bool \<Rightarrow> http_response \<Rightarrow> string \<Rightarrow> string" where
  "body_sent isHead p xs = (if isHead \<or> noBody (p_status p) then [] else xs)"

text \<open>What the fields must announce of the body; a body that is neither chunked nor has a length is the last of the connection.\<close>

definition response_announced :: "bool \<Rightarrow> http_response \<Rightarrow> message_header \<Rightarrow> message_header \<Rightarrow> string \<Rightarrow> string \<Rightarrow> bool" where
  "response_announced isHead p t' t xs nx \<longleftrightarrow>
    (if isHead \<or> noBody (p_status p) then True
     else if getChunkedTransferEncoding (resp_fields p) then trailer_ok (Some t') (h_fields t)
     else if hasContentLength (resp_fields p) then getContentLength (resp_fields p) = Inr (int (length xs))
     else nx = [])"

lemma response_text_sent:
  assumes "response_announced isHead p t' t (ops_text ops) nx"
  shows "\<exists>st tx. send_response isHead p t s = Inr (st, response_sent isHead p) \<and>
    os_delete (os_put ops st) = sent s (resp_write (response_sent isHead p) @ tx) \<and>
    (if \<not> (isHead \<or> noBody (p_status p)) \<and> getChunkedTransferEncoding (resp_fields p)
     then cs_send (Some t) ops (sent s (resp_write p)) = sent (sent s (resp_write p)) tx
     else tx = body_sent isHead p (ops_text ops))"
proof (cases "\<not> (isHead \<or> noBody (p_status p)) \<and> getChunkedTransferEncoding (resp_fields p)")
  case True
  let ?s = "sent s (resp_write p)"
  obtain tx where "cs_send (Some t) ops ?s = sent ?s tx" using cs_send_chunks by blast
  moreover have "send_response isHead p t s = Inr (O_chunked (bsb_new False True (cs_new ?s (Some t))), p)" "response_sent isHead p = p"
    using True by (auto simp: send_response_def response_sent_def Let_def hs_send_eq)
  ultimately show ?thesis using True chunked_message_sends[of ops ?s "Some t"] by (auto simp del: os_put.simps os_delete.simps)
next
  case False
  then consider (none) "isHead \<or> noBody (p_status p)"
    | (len) "\<not> (isHead \<or> noBody (p_status p))" "\<not> getChunkedTransferEncoding (resp_fields p)" "hasContentLength (resp_fields p)"
    | (plain) "\<not> (isHead \<or> noBody (p_status p))" "\<not> getChunkedTransferEncoding (resp_fields p)" "\<not> hasContentLength (resp_fields p)" by blast
  then show ?thesis
  proof cases
    case none
    then have "send_response isHead p t s = Inr (fixed_message (resp_write p) (int (length (resp_write p))) s, response_sent isHead p)" "response_sent isHead p = p"
      "body_sent isHead p (ops_text ops) = []" by (auto simp: send_response_def response_sent_def body_sent_def Let_def)
    then show ?thesis using fixed_message_sends[of ops "resp_write p" "int (length (resp_write p))" s] False by auto
  next
    case len
    then have "getContentLength (resp_fields p) = Inr (int (length (ops_text ops)))" using assms by (simp add: response_announced_def)
    then have "send_response isHead p t s = Inr (fixed_message (resp_write p) (int (length (ops_text ops)) + int (length (resp_write p))) s, response_sent isHead p)"
      "response_sent isHead p = p" "body_sent isHead p (ops_text ops) = ops_text ops" using len
      by (simp_all add: send_response_def response_sent_def body_sent_def Let_def)
    then show ?thesis using fixed_message_sends[of ops "resp_write p" "int (length (ops_text ops)) + int (length (resp_write p))" s] False
      by (auto simp: nat_add_distrib)
  next
    case plain
    let ?p = "response_sent isHead p"
    have "send_response isHead p t s = Inr (os_put [Put (resp_write ?p)] (O_plain (bsb_new False True s)), ?p)"
      "body_sent isHead p (ops_text ops) = ops_text ops" using plain by (simp_all add: send_response_def response_sent_def body_sent_def Let_def)
    then show ?thesis using plain_message_sends[of ops "resp_write ?p" s] False by (auto simp del: os_put.simps os_delete.simps)
  qed
qed

lemma response_sent_fields:
  "p_status (response_sent isHead p) = p_status p"
  "getChunkedTransferEncoding (resp_fields (response_sent isHead p)) = getChunkedTransferEncoding (resp_fields p)"
  "hasContentLength (resp_fields (response_sent isHead p)) = hasContentLength (resp_fields p)"
  "getContentLength (resp_fields (response_sent isHead p)) = getContentLength (resp_fields p)"
proof -
  have "\<not> lm_isEqual ''Connection'' ''Transfer-Encoding''" "\<not> lm_isEqual ''Connection'' ''Content-Length''" by code_simp+
  then have v: "vals ''Transfer-Encoding'' (resp_fields (response_sent isHead p)) = vals ''Transfer-Encoding'' (resp_fields p)"
    "vals ''Content-Length'' (resp_fields (response_sent isHead p)) = vals ''Content-Length'' (resp_fields p)"
    by (simp_all add: response_sent_def setKeepAlive_def vals_set)
  show "p_status (response_sent isHead p) = p_status p" by (simp add: response_sent_def)
  show "getChunkedTransferEncoding (resp_fields (response_sent isHead p)) = getChunkedTransferEncoding (resp_fields p)"
    by (simp add: getChunkedTransferEncoding_def getTransferEncoding_def nvc_lookup v)
  show "hasContentLength (resp_fields (response_sent isHead p)) = hasContentLength (resp_fields p)"
    "getContentLength (resp_fields (response_sent isHead p)) = getContentLength (resp_fields p)"
    by (simp_all add: hasContentLength_def getContentLength_def nvc_lookup v)
qed

text \<open>
  C6.  A response that a server sends arrives at the client behind any number of interim responses, header and body: chunked, with its length, or ended by
  the end of the connection; the client gets no body where there must not be one, also when the server writes one.  However the body was written and
  the bytes are cut on the way, the client reads it with reads of any size and finds what follows it on the connection.
\<close>

theorem response_exchange:
  assumes "resp_words p" "message_safe (p_header p0) (resp_start p) (resp_fields (response_sent isHead p))" "p_status p \<noteq> 100"
    "response_announced isHead p (t'\<lparr>h_fields := []\<rparr>) t (ops_text ops) nx" "word_ok 8 version" "line_ok version"
  shows "\<exists>st. send_response isHead p t (s_new []) = Inr (st, response_sent isHead p) \<and>
    (\<forall>io n. concat io = concat (replicate n (s_out (sendContinue version (s_new [])))) @ s_out (os_delete (os_put ops st)) @ nx \<longrightarrow>
      (\<exists>p' st'. receiveResponse conv False (\<not> isHead) t' p0 (s_new io) = Inr (p', st') \<and> p_version p' = p_version p \<and> p_status p' = p_status p \<and>
        p_reason p' = p_reason p \<and> resp_fields p' = resp_fields (response_sent isHead p) \<and> body_arrives conv st' (body_sent isHead p (ops_text ops)) nx))"
proof -
  let ?p = "response_sent isHead p"
  have w: "resp_words ?p" "resp_start ?p = resp_start p" "p_version ?p = p_version p" "p_reason ?p = p_reason p"
    using assms(1) by (auto simp: response_sent_def resp_words_def resp_start_def)
  note f = response_sent_fields[of isHead p]
  obtain st tx where s: "send_response isHead p t (s_new []) = Inr (st, ?p)" "os_delete (os_put ops st) = sent (s_new []) (resp_write ?p @ tx)"
      "if \<not> (isHead \<or> noBody (p_status p)) \<and> getChunkedTransferEncoding (resp_fields p)
       then cs_send (Some t) ops (sent (s_new []) (resp_write p)) = sent (sent (s_new []) (resp_write p)) tx else tx = body_sent isHead p (ops_text ops)"
    using response_text_sent[OF assms(4), of "s_new []"] by blast
  have "\<exists>p' st'. receiveResponse conv False (\<not> isHead) t' p0 (s_new io) = Inr (p', st') \<and> p_version p' = p_version p \<and> p_status p' = p_status p \<and>
        p_reason p' = p_reason p \<and> resp_fields p' = resp_fields ?p \<and> body_arrives conv st' (body_sent isHead p (ops_text ops)) nx"
    if io: "concat io = concat (replicate n (s_out (sendContinue version (s_new [])))) @ s_out (os_delete (os_put ops st)) @ nx" for io n
  proof -
    have "pending (s_new io) = concat (replicate n (resp_write (continue_response version))) @ resp_write ?p @ tx @ nx"
      using io s(2) by (simp add: pending_def s_new_def sendContinue_sends)
    moreover have "message_safe (p_header p0) (resp_start ?p) (resp_fields ?p)" "p_status ?p \<noteq> 100" using assms(2,3) w(2) f(1) by simp_all
    ultimately obtain p' s' where r: "receive_loop conv p0 (s_new io) = Inr (p', s')" "reads_to (s_new io) (tx @ nx) s'" "p_version p' = p_version p"
        "p_status p' = p_status p" "p_reason p' = p_reason p" "resp_fields p' = resp_fields ?p"
      using receive_loop_ok[OF w(1) _ _ assms(5,6)] w(3,4) f(1) by metis
    have s': "pending s' = tx @ nx" "s_exception s' = None" using r(2) by (auto simp: reads_to_def s_new_def)
    have ex: "s_exception (s_new io) = None" by (simp add: s_new_def)
    define body where "body = body_sent isHead p (ops_text ops)"
    consider (none) "isHead \<or> noBody (p_status p)"
      | (chunked) "\<not> (isHead \<or> noBody (p_status p))" "getChunkedTransferEncoding (resp_fields p)"
      | (len) "\<not> (isHead \<or> noBody (p_status p))" "\<not> getChunkedTransferEncoding (resp_fields p)" "hasContentLength (resp_fields p)"
      | (plain) "\<not> (isHead \<or> noBody (p_status p))" "\<not> getChunkedTransferEncoding (resp_fields p)" "\<not> hasContentLength (resp_fields p)" by blast
    then obtain st' where "receiveResponse conv False (\<not> isHead) t' p0 (s_new io) = Inr (p', st')" "body_arrives conv st' body nx"
    proof cases
      case none
      then have "tx = []" "body = []" using s(3) by (auto simp: body_def body_sent_def)
      then show ?thesis using that fixed_arrives[of s' "[]" nx conv] s' none r ex by (auto simp: receiveResponse_def)
    next
      case chunked
      then have "body = ops_text ops" by (auto simp: body_def body_sent_def)
      then show ?thesis
        using that chunked_arrives[of "Some t" ops "sent (s_new []) (resp_write p)" tx s' nx "Some (t'\<lparr>h_fields := []\<rparr>)" conv] assms(4) s(3) s' chunked r ex f
        by (auto simp: receiveResponse_def response_announced_def trailer_fields_def)
    next
      case len
      then have "tx = ops_text ops" "body = ops_text ops" using s(3) by (auto simp: body_def body_sent_def)
      then show ?thesis using that fixed_arrives[of s' "ops_text ops" nx conv] assms(4) s' len r ex f by (auto simp: receiveResponse_def response_announced_def)
    next
      case plain
      then have "tx = ops_text ops" "body = ops_text ops" "nx = []" using s(3) assms(4) by (auto simp: body_def body_sent_def response_announced_def)
      then show ?thesis using that plain_arrives[of s' "ops_text ops" conv] s' plain r ex f by (auto simp: receiveResponse_def)
    qed
    then show ?thesis using r unfolding body_def by blast
  qed
  then show ?thesis using s(1) by blast
qed

theorem response_exchange_witness:
  "\<exists>st. send_response False \<lparr>p_header = mh_new\<lparr>h_fields := [(''Content-Length'', ''2'')]\<rparr>, p_version = ''HTTP/1.1'', p_status = 200, p_reason = ''OK''\<rparr> mh_new (s_new []) =
      Inr (st, \<lparr>p_header = mh_new\<lparr>h_fields := [(''Content-Length'', ''2'')]\<rparr>, p_version = ''HTTP/1.1'', p_status = 200, p_reason = ''OK''\<rparr>) \<and>
    (\<exists>p' st'. receiveResponse (\<lambda>_ _ _. None) False True mh_new (resp_new False) (s_new [s_out (sendContinue ''HTTP/1.1'' (s_new [])), s_out (os_delete (os_put [Put ''o'', Put ''k''] st))]) =
        Inr (p', st') \<and> p_status p' = 200 \<and> body_arrives (\<lambda>_ _ _. None) st' ''ok'' [])"
proof -
  let ?p = "\<lparr>p_header = mh_new\<lparr>h_fields := [(''Content-Length'', ''2'')]\<rparr>, p_version = ''HTTP/1.1'', p_status = 200, p_reason = ''OK''\<rparr>"
  let ?ops = "[Put ''o'', Put ''k'']"
  have w: "resp_words ?p" by code_simp
  have e: "response_sent False ?p = ?p" by code_simp
  have m: "message_safe (p_header (resp_new False)) (resp_start ?p) (resp_fields (response_sent False ?p))" by code_simp
  have b: "response_announced False ?p (mh_new\<lparr>h_fields := []\<rparr>) mh_new (ops_text ?ops) []" "body_sent False ?p (ops_text ?ops) = ''ok''" by code_simp+
  have v: "word_ok 8 ''HTTP/1.1''" "line_ok ''HTTP/1.1''" by code_simp+
  have st: "p_status ?p \<noteq> 100" by simp
  from response_exchange[OF w m st b(1) v, of "\<lambda>_ _ _. None"] obtain st where s: "send_response False ?p mh_new (s_new []) = Inr (st, ?p)"
    "\<forall>io n. concat io = concat (replicate n (s_out (sendContinue ''HTTP/1.1'' (s_new [])))) @ s_out (os_delete (os_put ?ops st)) @ [] \<longrightarrow>
      (\<exists>p' st'. receiveResponse (\<lambda>_ _ _. None) False (\<not> False) mh_new (resp_new False) (s_new io) = Inr (p', st') \<and> p_version p' = p_version ?p \<and> p_status p' = p_status ?p \<and>
        p_reason p' = p_reason ?p \<and> resp_fields p' = resp_fields ?p \<and> body_arrives (\<lambda>_ _ _. None) st' ''ok'' [])"
    unfolding e b(2) by blast
  have "concat [s_out (sendContinue ''HTTP/1.1'' (s_new [])), s_out (os_delete (os_put ?ops st))] =
      concat (replicate 1 (s_out (sendContinue ''HTTP/1.1'' (s_new [])))) @ s_out (os_delete (os_put ?ops st)) @ []" by simp
  with s(2) obtain p' st' where "receiveResponse (\<lambda>_ _ _. None) False (\<not> False) mh_new (resp_new False)
      (s_new [s_out (sendContinue ''HTTP/1.1'' (s_new [])), s_out (os_delete (os_put ?ops st))]) = Inr (p', st')"
    "p_status p' = p_status ?p" "body_arrives (\<lambda>_ _ _. None) st' ''ok'' []" by blast
  then show ?thesis using s(1) by auto
qed

section \<open>sendBuffer\<close>

text \<open>\<^verbatim>\<open>sendBuffer\<close>, with the method of the attached request, if there is one.  The length is cast to \<^verbatim>\<open>int\<close>.\<close>

definition sendBuffer :: "string option \<Rightarrow> http_response \<Rightarrow> string \<Rightarrow> http_session \<Rightarrow> (out_stream \<times> http_response) outcome" where
  "sendBuffer request p xs s =
    (case setContentLength (cast_to t_int (int (length xs))) (resp_fields p) of
       Ret m \<Rightarrow>
         let p = p\<lparr>p_header := (p_header p)\<lparr>h_fields := setChunkedTransferEncoding False m\<rparr>\<rparr>;
             st = os_put [Put (resp_write p)] (O_header (bsb_new False True s))
         in Ret ((case request of Some meth \<Rightarrow> if meth \<noteq> ''HEAD'' then os_put [Put xs] st else st | None \<Rightarrow> st), p)
     | Throw e \<Rightarrow> Throw e
     | UB \<Rightarrow> UB)"

lemma header_message_sends: "os_delete (os_put ops (os_put [Put hdr] (O_header (bsb_new False True s)))) = sent s (hdr @ ops_text ops)"
proof -
  have "header_out.holds_out s [] (bsb_new False True s)" by (rule header_out.output_new) simp
  from header_out.sputn_output[OF this, of hdr] have "header_out.holds_out s hdr (bsb_sputn hs_writeToDevice hdr (bsb_new False True s))" by simp
  from header_out.writes_output[OF this, of ops] show ?thesis using header_out.all_written by simp
qed

lemma set_length:
  assumes "grouped m" "in_type t_int64 n" "n \<noteq> -1"
  shows "\<exists>m'. setContentLength n m = Ret m' \<and> grouped m' \<and> getContentLength m' = Inr n \<and> hasContentLength m'"
proof -
  obtain m' where m: "setContentLength n m = Ret m'" "getContentLength m' = Inr n" using content_length[OF assms(1,2)] by blast
  obtain v where "m' = nvc_set ''Content-Length'' v m" using m(1) assms(3) by (auto simp: setContentLength_def split: outcome.splits)
  then show ?thesis using m assms(1) by (auto simp: hasContentLength_def nvc_lookup vals_set grouped_set)
qed

lemma sendBuffer_length:
  assumes "grouped (resp_fields p)" "meth \<noteq> ''HEAD''" "cast_to t_int (int (length xs)) = n" "n \<noteq> -1"
  shows "\<exists>st p'. sendBuffer (Some meth) p xs s = Ret (st, p') \<and> os_delete st = sent s (resp_write p' @ xs) \<and>
    \<not> getChunkedTransferEncoding (resp_fields p') \<and> getContentLength (resp_fields p') = Inr n"
proof -
  have "in_type t_int64 n"
  proof -
    have "0 \<le> int (length xs) mod 2 ^ 32" "int (length xs) mod 2 ^ 32 < 2 ^ 32" by simp_all
    then show ?thesis using assms(3) by (auto simp: cast_to_def t_int_def in_type_def it_min_def it_max_def t_int64_def Let_def split: if_splits)
  qed
  then obtain m where m: "setContentLength n (resp_fields p) = Ret m" "grouped m" "getContentLength m = Inr n" using set_length[OF assms(1)] assms(4) by blast
  let ?m = "setChunkedTransferEncoding False m"
  let ?p = "p\<lparr>p_header := (p_header p)\<lparr>h_fields := ?m\<rparr>\<rparr>"
  have "\<not> lm_isEqual ''Transfer-Encoding'' ''Content-Length''" "icompare ''identity'' ''identity'' = 0" by code_simp+
  then have "vals ''Content-Length'' ?m = vals ''Content-Length'' m" using m(2)
    by (simp add: setChunkedTransferEncoding_def setTransferEncoding_def nvc_erase_def lm_erase_grouped vals_others)
  then have "getContentLength ?m = getContentLength m" unfolding getContentLength_def nvc_lookup(2) by simp
  then have "getContentLength ?m = Inr n" using m(3) by simp
  moreover have "\<not> getChunkedTransferEncoding ?m" using body_fields(1)[OF m(2), of False] by simp
  moreover have "sendBuffer (Some meth) p xs s = Ret (os_put [Put xs] (os_put [Put (resp_write ?p)] (O_header (bsb_new False True s))), ?p)"
    using assms(2,3) m(1) by (simp add: sendBuffer_def Let_def)
  ultimately show ?thesis using header_message_sends[of "[Put xs]" "resp_write ?p" s] by (auto simp del: os_put.simps os_delete.simps)
qed

text \<open>A buffer of \<open>2\<^sup>3\<^sup>2 + 5\<close> bytes is sent with the length 5.\<close>

lemma sendBuffer_truncates: "cast_to t_int (2 ^ 32 + 5) = 5" "0 \<le> n \<Longrightarrow> n < 2 ^ 31 \<Longrightarrow> cast_to t_int n = n"
  by (simp_all add: cast_to_def t_int_def)

end
