(* ===== verification/PocoRandom.thy ===== *)
theory PocoRandom
  imports ByteOrd "HOL-Library.Signed_Division"
begin

text \<open>
  \<^verbatim>\<open>Random.cpp\<close> and the integer functions of \<^verbatim>\<open>Random.h\<close>: the generator with its ring of words and its two pointers.  The pointers are indices into
  \<^verbatim>\<open>_state\<close> and \<^verbatim>\<open>_endPtr\<close> is the index \<^verbatim>\<open>_randDeg\<close>.  The clock and the bytes of \<^verbatim>\<open>RandomInputStream\<close> are arguments.
  The numbers are shown to be those of the recurrences that the comments of the code name.
\<close>

section \<open>Random\<close>

record random =
  rnd_fptr :: nat
  rnd_rptr :: nat
  rnd_state :: "u32 list"
  rnd_randType :: nat
  rnd_randDeg :: nat
  rnd_randSep :: nat
  rnd_info :: u32

text \<open>
  \<^verbatim>\<open>goodRand\<close>: the quotient and the remainder of C truncate towards zero.
\<close>

definition goodRand :: "int \<Rightarrow> u32" where
  "goodRand x =
    (let x = (if x = 0 then 123459876 else x);
         hi = x sdiv 127773;
         lo = x smod 127773;
         x = 16807 * lo - 2836 * hi;
         x = (if x < 0 then x + 0x7FFFFFFF else x)
     in word_of_int x)"

definition random_next :: "random \<Rightarrow> u32 \<times> random" where
  "random_next rnd =
    (if rnd_randType rnd = 0 then
       let i = goodRand (sint (rnd_state rnd ! 0)) AND 0x7FFFFFFF
       in (i, rnd\<lparr>rnd_state := (rnd_state rnd)[0 := i]\<rparr>)
     else
       let f = rnd_fptr rnd; r = rnd_rptr rnd;
           state = (rnd_state rnd)[f := rnd_state rnd ! f + rnd_state rnd ! r];
           i = drop_bit 1 (state ! f) AND 0x7FFFFFFF;
           (f, r) = (if Suc f \<ge> rnd_randDeg rnd then (0, Suc r)
                     else if Suc r \<ge> rnd_randDeg rnd then (Suc f, 0)
                     else (Suc f, Suc r))
       in (i, rnd\<lparr>rnd_state := state, rnd_fptr := f, rnd_rptr := r\<rparr>))"

definition random_NSHUFF :: nat where
  "random_NSHUFF = 50"

fun discard :: "nat \<Rightarrow> random \<Rightarrow> random" where
  "discard 0 rnd = rnd"
| "discard (Suc k) rnd = discard k (snd (random_next rnd))"

fun fill_state :: "nat \<Rightarrow> nat \<Rightarrow> u32 list \<Rightarrow> u32 list" where
  "fill_state 0 i state = state"
| "fill_state (Suc k) i state = fill_state k (Suc i) (state[i := goodRand (sint (state ! (i - 1)))])"

definition random_seed :: "u32 \<Rightarrow> random \<Rightarrow> random" where
  "random_seed x rnd =
    (let state = (rnd_state rnd)[0 := x]
     in if rnd_randType rnd = 0 then discard random_NSHUFF (rnd\<lparr>rnd_state := state\<rparr>)
        else discard (10 * rnd_randDeg rnd)
          (rnd\<lparr>rnd_state := fill_state (rnd_randDeg rnd - 1) 1 state, rnd_fptr := rnd_randSep rnd, rnd_rptr := 0\<rparr>))"

text \<open>\<^verbatim>\<open>seed()\<close>: the words read from the random device overwrite the state; the pointers stay.\<close>

definition random_seed_device :: "u32 list \<Rightarrow> random \<Rightarrow> random" where
  "random_seed_device dev rnd =
    (let len = (if rnd_randType rnd = 0 then 1 else rnd_randDeg rnd)
     in rnd\<lparr>rnd_state := take len dev @ drop len (rnd_state rnd)\<rparr>)"

definition random_choose :: "int \<Rightarrow> nat \<times> nat \<times> nat" where
  "random_choose n =
    (if n < 32 then (0, 0, 0)
     else if n < 64 then (1, 7, 3)
     else if n < 128 then (2, 15, 1)
     else if n < 256 then (3, 31, 3)
     else (4, 63, 1))"

text \<open>
  \<^verbatim>\<open>initState\<close> and the constructor: the new buffer has \<open>stateSize div 4\<close> words of unknown contents, the first of which is not part of \<^verbatim>\<open>_state\<close>.
\<close>

definition random_initState :: "u32 \<Rightarrow> u32 list \<Rightarrow> int \<Rightarrow> random result" where
  "random_initState s argState n =
    (if n < 8 then Inl BugcheckException
     else let (t, deg, sep) = random_choose n;
              rnd = random_seed s \<lparr>rnd_fptr = 0, rnd_rptr = 0, rnd_state = tl argState, rnd_randType = t, rnd_randDeg = deg, rnd_randSep = sep,
                rnd_info = hd argState\<rparr>
       in Inr (rnd\<lparr>rnd_info := (if t = 0 then 0 else of_nat (5 * rnd_rptr rnd + t))\<rparr>))"

definition random_new :: "int \<Rightarrow> u32 \<Rightarrow> u32 list \<Rightarrow> random result" where
  "random_new stateSize now pBuffer =
    (if \<not> (8 \<le> stateSize \<and> stateSize \<le> 256) then Inl AssertionViolationException else random_initState now pBuffer stateSize)"

definition random_next_mod :: "u32 \<Rightarrow> random \<Rightarrow> (u32 \<times> random) option" where
  "random_next_mod n rnd = (if n = 0 then None else let (i, rnd) = random_next rnd in Some (i mod n, rnd))"

definition random_nextChar :: "random \<Rightarrow> u8 \<times> random" where
  "random_nextChar rnd = (let (i, rnd) = random_next rnd in (ucast (drop_bit 3 i AND 0xFF), rnd))"

definition random_nextBool :: "random \<Rightarrow> bool \<times> random" where
  "random_nextBool rnd = (let (i, rnd) = random_next rnd in (i AND 0x1000 \<noteq> 0, rnd))"

fun random_run :: "nat \<Rightarrow> random \<Rightarrow> u32 list" where
  "random_run 0 rnd = []"
| "random_run (Suc k) rnd = (let (i, rnd) = random_next rnd in i # random_run k rnd)"

section \<open>The linear congruential generator\<close>

text \<open>
  The multiplication modulo \<open>2 ^ 31 - 1\<close> by Schrage's method.  No step leaves the 32 bits, also for a negative argument.
\<close>

lemma schrage:
  fixes x :: int
  assumes "- (2 ^ 31) \<le> x" "x < 2 ^ 31"
  shows "16807 * (x smod 127773) - 2836 * (x sdiv 127773) = 16807 * x - (2 ^ 31 - 1) * (x sdiv 127773)"
    "\<bar>16807 * (x smod 127773)\<bar> < 2 ^ 31" "\<bar>2836 * (x sdiv 127773)\<bar> < 2 ^ 31"
    "\<bar>16807 * (x smod 127773) - 2836 * (x sdiv 127773)\<bar> < 2 ^ 31 - 1"
proof -
  have e: "x smod 127773 = x - 127773 * (x sdiv 127773)" by (simp add: minus_mult_sdiv_eq_smod)
  show "16807 * (x smod 127773) - 2836 * (x sdiv 127773) = 16807 * x - (2 ^ 31 - 1) * (x sdiv 127773)" unfolding e by simp
  have q: "\<bar>x sdiv 127773\<bar> = \<bar>x\<bar> div 127773" and m: "\<bar>x smod 127773\<bar> = \<bar>x\<bar> mod 127773"
    and sg: "x sdiv 127773 = sgn x * (\<bar>x\<bar> div 127773)" "x smod 127773 = sgn x * (\<bar>x\<bar> mod 127773)"
    by (auto simp: signed_divide_int_def signed_modulo_int_def abs_mult abs_sgn_eq)
  have ax: "\<bar>x\<bar> \<le> 2 ^ 31" using assms by linarith
  then have d: "0 \<le> \<bar>x\<bar> div 127773" "\<bar>x\<bar> div 127773 \<le> 16807" "0 \<le> \<bar>x\<bar> mod 127773" "\<bar>x\<bar> mod 127773 < 127773" by auto
  then show "\<bar>16807 * (x smod 127773)\<bar> < 2 ^ 31" "\<bar>2836 * (x sdiv 127773)\<bar> < 2 ^ 31" unfolding abs_mult q m by simp_all
  have "16807 * (x smod 127773) - 2836 * (x sdiv 127773) = sgn x * (16807 * (\<bar>x\<bar> mod 127773) - 2836 * (\<bar>x\<bar> div 127773))"
    unfolding sg by (simp add: algebra_simps)
  then have "\<bar>16807 * (x smod 127773) - 2836 * (x sdiv 127773)\<bar> \<le> \<bar>16807 * (\<bar>x\<bar> mod 127773) - 2836 * (\<bar>x\<bar> div 127773)\<bar>"
    by (simp add: abs_mult abs_sgn_eq)
  moreover have "\<bar>16807 * r - 2836 * q\<bar> < 2 ^ 31 - 1" if "0 \<le> q" "q \<le> 16807" "0 \<le> r" "r < 127773" for q r :: int
    using that by simp
  from this[OF d] have "\<bar>16807 * (\<bar>x\<bar> mod 127773) - 2836 * (\<bar>x\<bar> div 127773)\<bar> < 2 ^ 31 - 1" .
  ultimately show "\<bar>16807 * (x smod 127773) - 2836 * (x sdiv 127773)\<bar> < 2 ^ 31 - 1" by linarith
qed

definition park_miller :: "int \<Rightarrow> int" where
  "park_miller x = 16807 * (if x = 0 then 123459876 else x) mod (2 ^ 31 - 1)"

lemma goodRand_value:
  assumes "- (2 ^ 31) \<le> x" "x < 2 ^ 31"
  shows "goodRand x = word_of_int (park_miller x)" "sint (goodRand x) = park_miller x" "0 \<le> park_miller x" "park_miller x < 2 ^ 31 - 1"
proof -
  define y where "y = (if x = 0 then 123459876 else x)"
  define z where "z = 16807 * (y smod 127773) - 2836 * (y sdiv 127773)"
  have y: "- (2 ^ 31) \<le> y" "y < 2 ^ 31" using assms by (auto simp: y_def)
  have z: "z = 16807 * y - (2 ^ 31 - 1) * (y sdiv 127773)" "\<bar>z\<bar> < 2 ^ 31 - 1" using schrage[OF y] by (simp_all add: z_def)
  have m: "(if z < 0 then z + (2 ^ 31 - 1) else z) = 16807 * y mod (2 ^ 31 - 1)"
  proof -
    have "16807 * y mod (2 ^ 31 - 1) = z mod (2 ^ 31 - 1)" unfolding z(1) by (simp add: mod_diff_right_eq[symmetric] mod_mult_self1)
    also have "\<dots> = (if z < 0 then z + (2 ^ 31 - 1) else z)" 
    proof (cases "z < 0")
      case True
      then have "(z + (2 ^ 31 - 1)) mod (2 ^ 31 - 1) = z + (2 ^ 31 - 1)" using z(2) by (intro mod_pos_pos_trivial) linarith+
      then show ?thesis using True by (simp only: mod_add_self2 if_True)
    qed (use z(2) in auto)
    finally show ?thesis by simp
  qed
  show g: "goodRand x = word_of_int (park_miller x)" 
  proof -
    have "goodRand x = word_of_int (if z < 0 then z + 0x7FFFFFFF else z)" unfolding goodRand_def Let_def y_def[symmetric] z_def[symmetric] by (rule refl)
    also have "(if z < 0 then z + 0x7FFFFFFF else z) = park_miller x" using m unfolding park_miller_def y_def[symmetric] by (simp split: if_splits)
    finally show ?thesis .
  qed
  show b: "0 \<le> park_miller x" "park_miller x < 2 ^ 31 - 1" by (simp_all add: park_miller_def)
  show "sint (goodRand x) = park_miller x" unfolding g using b by (simp add: signed_of_int signed_take_bit_int_eq_self)
qed

section \<open>The additive generators\<close>

text \<open>
  In a well-formed generator the two pointers are \<^verbatim>\<open>_randSep\<close> places apart on the ring of \<^verbatim>\<open>_randDeg\<close> words.
\<close>

definition random_wf :: "random \<Rightarrow> bool" where
  "random_wf rnd \<longleftrightarrow>
    (if rnd_randType rnd = 0 then rnd_state rnd \<noteq> []
     else 0 < rnd_randSep rnd \<and> rnd_randSep rnd < rnd_randDeg rnd \<and> rnd_randDeg rnd \<le> length (rnd_state rnd) \<and>
       rnd_fptr rnd < rnd_randDeg rnd \<and> rnd_rptr rnd < rnd_randDeg rnd \<and> rnd_fptr rnd = (rnd_rptr rnd + rnd_randSep rnd) mod rnd_randDeg rnd)"

text \<open>The words of the ring, the oldest first.\<close>

definition ring :: "random \<Rightarrow> u32 list" where
  "ring rnd = map (\<lambda>j. rnd_state rnd ! ((rnd_fptr rnd + j) mod rnd_randDeg rnd)) [0 ..< rnd_randDeg rnd]"

text \<open>
  The sequence with \<open>y n = y (n - deg) + y (n - sep)\<close> that starts with the words \<open>w\<close>.
\<close>

function additive :: "nat \<Rightarrow> nat \<Rightarrow> u32 list \<Rightarrow> nat \<Rightarrow> u32" where
  "additive deg sep w n = (if n < deg \<or> deg = 0 \<or> sep = 0 then w ! n else additive deg sep w (n - deg) + additive deg sep w (n - sep))"
  by auto
termination by (relation "measure (\<lambda>(deg, sep, w, n). n)") auto

declare additive.simps [simp del]

lemma next_additive:
  assumes "random_wf rnd" "rnd_randType rnd \<noteq> 0"
  defines "y \<equiv> ring rnd ! 0 + ring rnd ! (rnd_randDeg rnd - rnd_randSep rnd)"
  shows "fst (random_next rnd) = drop_bit 1 y" "ring (snd (random_next rnd)) = tl (ring rnd) @ [y]" "random_wf (snd (random_next rnd))"
    "rnd_randType (snd (random_next rnd)) = rnd_randType rnd" "rnd_randDeg (snd (random_next rnd)) = rnd_randDeg rnd"
    "rnd_randSep (snd (random_next rnd)) = rnd_randSep rnd"
proof -
  let ?D = "rnd_randDeg rnd" and ?S = "rnd_randSep rnd" and ?f = "rnd_fptr rnd" and ?r = "rnd_rptr rnd" and ?st = "rnd_state rnd"
  have w: "0 < ?S" "?S < ?D" "?D \<le> length ?st" "?f < ?D" "?r < ?D" "?f = (?r + ?S) mod ?D" using assms by (auto simp: random_wf_def)
  have r: "?r = (?f + (?D - ?S)) mod ?D"
  proof -
    have "(?f + (?D - ?S)) mod ?D = (?r + ?S + (?D - ?S)) mod ?D" unfolding w(6) by (rule mod_add_left_eq)
    also have "\<dots> = ?r" using w by simp
    finally show ?thesis by simp
  qed
  have ne: "?r \<noteq> ?f" using w(1,2,5,6) by (cases "?r + ?S < ?D") (auto simp: mod_if)
  have "ring rnd ! (?D - ?S) = ?st ! ((?f + (?D - ?S)) mod ?D)" using w(1-4) by (simp add: ring_def)
  then have y: "y = ?st ! ?f + ?st ! ?r" using w(1-4) unfolding r[symmetric] by (simp add: y_def ring_def)
  have m: "drop_bit 1 v AND 0x7FFFFFFF = drop_bit 1 (v :: u32)" for v
  proof -
    have k: "(0x7FFFFFFF :: u32) = mask 31" by (simp add: mask_eq_exp_minus_1)
    show ?thesis unfolding k by (rule bit_word_eqI) (auto simp: bit_simps dest: bit_imp_le_length)
  qed
  define rnd' where "rnd' = rnd\<lparr>rnd_state := ?st[?f := y], rnd_fptr := Suc ?f mod ?D, rnd_rptr := Suc ?r mod ?D\<rparr>"
  have n: "random_next rnd = (drop_bit 1 y, rnd')"
  proof -
    have p: "(if Suc ?f \<ge> ?D then (0, Suc ?r) else if Suc ?r \<ge> ?D then (Suc ?f, 0) else (Suc ?f, Suc ?r)) = (Suc ?f mod ?D, Suc ?r mod ?D)"
      using w(4,5) ne by (auto simp: mod_if)
    have l: "?st[?f := y] ! ?f = y" using w(3,4) by simp
    show ?thesis unfolding random_next_def Let_def if_not_P[OF assms(2)] p y[symmetric] l m prod.case rnd'_def by (rule refl)
  qed
  show "fst (random_next rnd) = drop_bit 1 y" "rnd_randType (snd (random_next rnd)) = rnd_randType rnd" "rnd_randDeg (snd (random_next rnd)) = ?D"
    "rnd_randSep (snd (random_next rnd)) = ?S" by (simp_all add: n rnd'_def)
  have "Suc ?f mod ?D = (Suc ?r mod ?D + ?S) mod ?D" using w(6) by (metis add_Suc mod_Suc_eq mod_add_left_eq)
  then show "random_wf (snd (random_next rnd))" using w assms(2) by (simp add: n rnd'_def random_wf_def)
  show "ring (snd (random_next rnd)) = tl (ring rnd) @ [y]"
  proof (rule nth_equalityI)
    show "length (ring (snd (random_next rnd))) = length (tl (ring rnd) @ [y])" using w by (simp add: n rnd'_def ring_def)
    fix j assume "j < length (ring (snd (random_next rnd)))"
    then have j: "j < ?D" by (simp add: n rnd'_def ring_def)
    have s: "(Suc ?f mod ?D + j) mod ?D = (?f + Suc j) mod ?D" by (simp add: mod_add_left_eq)
    show "ring (snd (random_next rnd)) ! j = (tl (ring rnd) @ [y]) ! j"
    proof (cases "Suc j = ?D")
      case True
      then have "(?f + Suc j) mod ?D = ?f" using w(4) by simp
      then show ?thesis using True w(1-5) j s by (auto simp: n rnd'_def ring_def nth_append nth_tl)
    next
      case False
      then have "(?f + Suc j) mod ?D \<noteq> ?f" using j w(4) by (auto simp: mod_if split: if_splits)
      then show ?thesis using False w(1-5) j s by (auto simp: n rnd'_def ring_def nth_append nth_tl)
    qed
  qed
qed

lemma additive_shift:
  assumes "length w = deg" "0 < sep" "sep < deg"
  shows "additive deg sep (tl w @ [w ! 0 + w ! (deg - sep)]) n = additive deg sep w (Suc n)"
proof (induction n rule: less_induct)
  case (less n)
  show ?case
  proof (cases "n < deg")
    case True
    have b: "m < deg \<Longrightarrow> additive deg sep v m = v ! m" for m v by (simp add: additive.simps)
    show ?thesis
    proof (cases "Suc n = deg")
      case True
      then have "additive deg sep w (Suc n) = w ! 0 + w ! (deg - sep)" using assms b[of 0 w] b[of "deg - sep" w] by (subst additive.simps) simp
      then show ?thesis using True assms b[of n] by (auto simp: nth_append)
    qed (use True assms b in \<open>auto simp: nth_append nth_tl\<close>)
  next
    case False
    then have "Suc n - deg = Suc (n - deg)" "Suc n - sep = Suc (n - sep)" using assms by auto
    then show ?thesis using False assms less[of "n - deg"] less[of "n - sep"] by (subst (1 2) additive.simps) simp
  qed
qed

lemma ring_length [simp]: "length (ring rnd) = rnd_randDeg rnd"
  by (simp add: ring_def)

lemma discard_fields:
  "rnd_randType (discard k rnd) = rnd_randType rnd \<and> rnd_randDeg (discard k rnd) = rnd_randDeg rnd \<and> rnd_randSep (discard k rnd) = rnd_randSep rnd"
  by (induction k arbitrary: rnd) (simp_all add: random_next_def Let_def split: prod.splits)

lemma next_shift:
  assumes "random_wf rnd" "rnd_randType rnd \<noteq> 0"
  shows "additive (rnd_randDeg rnd) (rnd_randSep rnd) (ring (snd (random_next rnd))) n = additive (rnd_randDeg rnd) (rnd_randSep rnd) (ring rnd) (Suc n)"
    "fst (random_next rnd) = drop_bit 1 (additive (rnd_randDeg rnd) (rnd_randSep rnd) (ring rnd) (rnd_randDeg rnd))"
proof -
  have s: "0 < rnd_randSep rnd" "rnd_randSep rnd < rnd_randDeg rnd" using assms by (auto simp: random_wf_def)
  show "additive (rnd_randDeg rnd) (rnd_randSep rnd) (ring (snd (random_next rnd))) n = additive (rnd_randDeg rnd) (rnd_randSep rnd) (ring rnd) (Suc n)"
    unfolding next_additive(2)[OF assms] using additive_shift[of "ring rnd"] s by simp
  show "fst (random_next rnd) = drop_bit 1 (additive (rnd_randDeg rnd) (rnd_randSep rnd) (ring rnd) (rnd_randDeg rnd))"
    unfolding next_additive(1)[OF assms] using s by (subst additive.simps) (simp add: additive.simps)
qed

lemma discard_additive:
  "random_wf rnd \<Longrightarrow> rnd_randType rnd \<noteq> 0 \<Longrightarrow> random_wf (discard k rnd) \<and>
    additive (rnd_randDeg rnd) (rnd_randSep rnd) (ring (discard k rnd)) n = additive (rnd_randDeg rnd) (rnd_randSep rnd) (ring rnd) (k + n)"
proof (induction k arbitrary: rnd)
  case (Suc k)
  then show ?case using Suc.IH[of "snd (random_next rnd)"] next_additive(3-6)[OF Suc.prems] next_shift(1)[OF Suc.prems, of "k + n"] by simp
qed simp

lemma run_additive:
  "random_wf rnd \<Longrightarrow> rnd_randType rnd \<noteq> 0 \<Longrightarrow>
    random_run k rnd = map (\<lambda>i. drop_bit 1 (additive (rnd_randDeg rnd) (rnd_randSep rnd) (ring rnd) (rnd_randDeg rnd + i))) [0 ..< k]"
proof (induction k arbitrary: rnd)
  case (Suc k)
  have u: "[0 ..< Suc k] = 0 # map Suc [0 ..< k]" by (simp add: upt_conv_Cons map_Suc_upt del: upt_Suc)
  show ?case using Suc.IH[of "snd (random_next rnd)"] Suc.prems(2) next_additive(3-6)[OF Suc.prems] next_shift[OF Suc.prems]
    unfolding u by (simp add: case_prod_unfold comp_def del: upt_Suc)
qed simp

section \<open>Seeding\<close>

lemma park_miller_iterate:
  assumes "- (2 ^ 31) \<le> c" "c < 2 ^ 31"
  shows "- (2 ^ 31) \<le> (park_miller ^^ j) c" "(park_miller ^^ j) c < 2 ^ 31" "sint (word_of_int ((park_miller ^^ j) c) :: u32) = (park_miller ^^ j) c"
proof -
  have m: "0 \<le> park_miller x" "park_miller x < 2 ^ 31 - 1" for x by (simp_all add: park_miller_def)
  have "- (2 ^ 31) \<le> (park_miller ^^ j) c \<and> (park_miller ^^ j) c < 2 ^ 31"
  proof (cases j)
    case (Suc i)
    then show ?thesis using m[of "(park_miller ^^ i) c"] by simp
  qed (use assms in simp)
  then show "- (2 ^ 31) \<le> (park_miller ^^ j) c" "(park_miller ^^ j) c < 2 ^ 31" "sint (word_of_int ((park_miller ^^ j) c) :: u32) = (park_miller ^^ j) c"
    by (simp_all add: signed_of_int signed_take_bit_int_eq_self)
qed

lemma fill_state_nth:
  "0 < i \<Longrightarrow> i + k \<le> length s \<Longrightarrow> (\<And>j. j < i \<Longrightarrow> s ! j = word_of_int ((park_miller ^^ j) c)) \<Longrightarrow> - (2 ^ 31) \<le> c \<Longrightarrow> c < 2 ^ 31 \<Longrightarrow>
    length (fill_state k i s) = length s \<and> (\<forall>j < i + k. fill_state k i s ! j = word_of_int ((park_miller ^^ j) c))"
proof (induction k i s rule: fill_state.induct)
  case (2 k i s)
  note b = park_miller_iterate(1,2)[OF "2.prems"(4,5)] and s = park_miller_iterate(3)[OF "2.prems"(4,5)]
  obtain h where h: "i = Suc h" using "2.prems"(1) by (cases i) auto
  have g: "goodRand (sint (s ! h)) = word_of_int ((park_miller ^^ i) c)"
    using goodRand_value(1)[of "(park_miller ^^ h) c"] b[of h] s[of h] "2.prems"(3)[of h] h by simp
  have "s[i := goodRand (sint (s ! (i - 1)))] ! j = word_of_int ((park_miller ^^ j) c)" if "j < Suc i" for j
    using that "2.prems"(2,3) g h by (cases "j = i") auto
  then show ?case using "2.IH" "2.prems" by simp
qed simp

definition reference_type0 :: "u32 \<Rightarrow> nat \<Rightarrow> u32 list" where
  "reference_type0 x k = map (\<lambda>i. word_of_int ((park_miller ^^ (random_NSHUFF + 1 + i)) (sint x))) [0 ..< k]"

definition reference_additive :: "nat \<Rightarrow> nat \<Rightarrow> u32 \<Rightarrow> nat \<Rightarrow> u32 list" where
  "reference_additive deg sep x k =
    (let w = map (\<lambda>j. word_of_int ((park_miller ^^ ((sep + j) mod deg)) (sint x))) [0 ..< deg]
     in map (\<lambda>i. drop_bit 1 (additive deg sep w (11 * deg + i))) [0 ..< k])"

lemma seed_additive:
  assumes "random_wf rnd" "rnd_randType rnd \<noteq> 0"
  shows "random_run k (random_seed x rnd) = reference_additive (rnd_randDeg rnd) (rnd_randSep rnd) x k" "random_wf (random_seed x rnd)"
proof -
  let ?D = "rnd_randDeg rnd" and ?S = "rnd_randSep rnd" and ?s = "(rnd_state rnd)[0 := x]"
  have w: "0 < ?S" "?S < ?D" "?D \<le> length (rnd_state rnd)" using assms by (auto simp: random_wf_def)
  have z: "?s ! 0 = x" using w by (cases "rnd_state rnd") auto
  have f: "length (fill_state (?D - 1) 1 ?s) = length (rnd_state rnd)"
    "j < ?D \<Longrightarrow> fill_state (?D - 1) 1 ?s ! j = word_of_int ((park_miller ^^ j) (sint x))" for j
    using fill_state_nth[of 1 "?D - 1" ?s "sint x"] z w sint_greater_eq[of x] sint_less[of x] by auto
  define r where "r = rnd\<lparr>rnd_state := fill_state (?D - 1) 1 ?s, rnd_fptr := ?S, rnd_rptr := 0\<rparr>"
  have r: "random_wf r" "rnd_randType r \<noteq> 0" "rnd_randDeg r = ?D" "rnd_randSep r = ?S" using w assms(2) f(1) by (auto simp: r_def random_wf_def)
  have ring: "ring r = map (\<lambda>j. word_of_int ((park_miller ^^ ((?S + j) mod ?D)) (sint x))) [0 ..< ?D]" using w f(2) by (simp add: ring_def r_def)
  have e: "random_seed x rnd = discard (10 * ?D) r" using assms(2) by (simp add: random_seed_def r_def)
  have a: "additive ?D ?S (ring (discard (10 * ?D) r)) (?D + i) = additive ?D ?S (ring r) (11 * ?D + i)" for i
    using discard_additive[OF r(1,2), of "10 * ?D" "?D + i"] r(3,4) by (simp add: algebra_simps)
  show "random_wf (random_seed x rnd)" unfolding e using discard_additive[OF r(1,2)] by blast
  show "random_run k (random_seed x rnd) = reference_additive ?D ?S x k"
    unfolding e reference_additive_def Let_def ring[symmetric] a[symmetric]
    using run_additive[of "discard (10 * ?D) r" k] discard_additive[OF r(1,2)] discard_fields[of "10 * ?D" r] r by simp
qed

lemma next_type0:
  assumes "rnd_randType rnd = 0" "rnd_state rnd = word_of_int ((park_miller ^^ j) c) # s" "- (2 ^ 31) \<le> c" "c < 2 ^ 31"
  shows "random_next rnd = (word_of_int ((park_miller ^^ Suc j) c), rnd\<lparr>rnd_state := word_of_int ((park_miller ^^ Suc j) c) # s\<rparr>)"
proof -
  note b = park_miller_iterate[OF assms(3,4), of j]
  have k: "(0x7FFFFFFF :: u32) = mask 31" by (simp add: mask_eq_exp_minus_1)
  have "word_of_int y AND 0x7FFFFFFF = (word_of_int y :: u32)" if "0 \<le> y" "y < 2 ^ 31 - 1" for y
  proof -
    have "unat (word_of_int y :: u32) = nat y" using that by (simp add: unsigned_of_int take_bit_int_eq_self nat_take_bit_eq)
    then show ?thesis unfolding k take_bit_eq_mask[symmetric] using that by (intro word_unat_eq_iff[THEN iffD2]) (simp add: unsigned_take_bit_eq take_bit_nat_eq_self)
  qed
  then show ?thesis using goodRand_value[OF b(1,2)] assms(1,2) b(3) by (simp add: random_next_def Let_def)
qed

lemma run_type0:
  assumes "rnd_randType rnd = 0" "rnd_state rnd = word_of_int ((park_miller ^^ j) c) # s" "- (2 ^ 31) \<le> c" "c < 2 ^ 31"
  shows "random_run k rnd = map (\<lambda>i. word_of_int ((park_miller ^^ (j + 1 + i)) c)) [0 ..< k] \<and>
    discard k rnd = rnd\<lparr>rnd_state := word_of_int ((park_miller ^^ (j + k)) c) # s\<rparr>"
  using assms(1,2)
proof (induction k arbitrary: rnd j)
  case (Suc k)
  have u: "[0 ..< Suc k] = 0 # map Suc [0 ..< k]" by (simp add: upt_conv_Cons map_Suc_upt del: upt_Suc)
  show ?case using Suc.IH[of "snd (random_next rnd)" "Suc j"] Suc.prems(1) next_type0[OF Suc.prems assms(3,4)]
    unfolding u by (simp add: comp_def del: upt_Suc funpow.simps)
qed simp

lemma seed_type0:
  assumes "random_wf rnd" "rnd_randType rnd = 0"
  shows "random_run k (random_seed x rnd) = reference_type0 x k" "random_wf (random_seed x rnd)"
proof -
  define r where "r = rnd\<lparr>rnd_state := (rnd_state rnd)[0 := x]\<rparr>"
  obtain s where s: "rnd_randType r = 0" "rnd_state r = word_of_int ((park_miller ^^ 0) (sint x)) # s"
    using assms by (cases "rnd_state rnd") (auto simp: r_def random_wf_def)
  have b: "- (2 ^ 31) \<le> sint x" "sint x < 2 ^ 31" using sint_greater_eq[of x] sint_less[of x] by simp_all
  have e: "random_seed x rnd = r\<lparr>rnd_state := word_of_int ((park_miller ^^ random_NSHUFF) (sint x)) # s\<rparr>"
    using assms(2) run_type0[OF s b, of random_NSHUFF] by (simp add: random_seed_def r_def)
  show "random_wf (random_seed x rnd)" unfolding e using s by (simp add: random_wf_def)
  show "random_run k (random_seed x rnd) = reference_type0 x k"
    unfolding e reference_type0_def using s(1) run_type0[OF _ _ b, of "r\<lparr>rnd_state := word_of_int ((park_miller ^^ random_NSHUFF) (sint x)) # s\<rparr>" random_NSHUFF s k] by simp
qed

lemma seed_reference:
  assumes "random_wf rnd"
  shows "random_run k (random_seed x rnd) =
      (if rnd_randType rnd = 0 then reference_type0 x k else reference_additive (rnd_randDeg rnd) (rnd_randSep rnd) x k)" "random_wf (random_seed x rnd)"
  using seed_type0[OF assms] seed_additive[OF assms] by (cases "rnd_randType rnd = 0"; simp)+

lemma next_wf: "random_wf rnd \<Longrightarrow> random_wf (snd (random_next rnd))"
  using next_additive(3)[of rnd] by (cases "rnd_randType rnd = 0") (auto simp: random_wf_def random_next_def Let_def)

lemma discard_wf: "random_wf rnd \<Longrightarrow> random_wf (discard k rnd)"
  by (induction k arbitrary: rnd) (simp_all add: next_wf)

lemma seed_fields:
  "rnd_randType (random_seed x rnd) = rnd_randType rnd" "rnd_randDeg (random_seed x rnd) = rnd_randDeg rnd" "rnd_randSep (random_seed x rnd) = rnd_randSep rnd"
  by (simp_all add: random_seed_def Let_def discard_fields)

lemma wf_info: "random_wf (rnd\<lparr>rnd_info := v\<rparr>) = random_wf rnd"
  by (simp add: random_wf_def)

lemma run_info: "random_run k (rnd\<lparr>rnd_info := v\<rparr>) = random_run k rnd"
proof (induction k arbitrary: rnd)
  case (Suc k)
  have "random_next (rnd\<lparr>rnd_info := v\<rparr>) = (fst (random_next rnd), (snd (random_next rnd))\<lparr>rnd_info := v\<rparr>)"
    by (simp add: random_next_def Let_def split: prod.splits)
  then show ?case using Suc[of "snd (random_next rnd)"] by (simp add: case_prod_unfold Let_def)
qed simp

text \<open>
  The generator for a state of \<open>n\<close> bytes: the congruential one below 32 bytes, otherwise the additive one of the largest primitive trinomial among
  \<open>x^7 + x^3 + 1\<close>, \<open>x^15 + x + 1\<close>, \<open>x^31 + x^3 + 1\<close> and \<open>x^63 + x + 1\<close> whose coefficients, with one word for the type, fit the state.
\<close>

definition reference_random :: "int \<Rightarrow> u32 \<Rightarrow> nat \<Rightarrow> u32 list" where
  "reference_random n x k =
    (case [(deg, sep) \<leftarrow> [(63, 1), (31, 3), (15, 1), (7, 3)]. 4 * (int deg + 1) \<le> n] of
       [] \<Rightarrow> reference_type0 x k
     | (deg, sep) # _ \<Rightarrow> reference_additive deg sep x k)"

lemma reference_choose:
  "reference_random n x k = (case random_choose n of (t, deg, sep) \<Rightarrow> if t = 0 then reference_type0 x k else reference_additive deg sep x k)"
  by (simp add: reference_random_def random_choose_def)

text \<open>
  C18.  A generator made with a state of any size from 8 to 256 bytes returns the numbers of the linear congruential generator of Park and Miller (below 32
  bytes) or of the additive recurrence of the trinomial for that size, started with such numbers and without the first ten rounds.  They depend on the seed
  alone: a new seed starts the same sequence again whatever was drawn before and whatever the buffer had held.  Other sizes are refused.
\<close>

theorem random_sequence:
  assumes "length buf = nat (n div 4)"
  shows "(\<exists>rnd. random_new n now buf = Inr rnd \<and> random_run k rnd = reference_random n now k \<and>
      (\<forall>m x. random_run k (random_seed x (discard m rnd)) = reference_random n x k)) \<longleftrightarrow> 8 \<le> n \<and> n \<le> 256"
proof (cases "8 \<le> n \<and> n \<le> 256")
  case True
  obtain t deg sep where c: "random_choose n = (t, deg, sep)" by (metis prod_cases3)
  define r where "r = \<lparr>rnd_fptr = 0, rnd_rptr = 0, rnd_state = tl buf, rnd_randType = t, rnd_randDeg = deg, rnd_randSep = sep, rnd_info = hd buf\<rparr>"
  have l: "length (tl buf) = nat (n div 4) - 1" "1 \<le> length (tl buf)" using assms True by auto
  have q: "d * 4 \<le> nat n \<Longrightarrow> d - 1 \<le> length (tl buf)" for d using l(1) True div_le_mono[of "d * 4" "nat n" 4] by (simp add: nat_div_distrib diff_le_mono)
  have "tl buf \<noteq> []" using l(2) by (cases "tl buf") (simp_all only: list.size, simp_all)
  then have "random_wf (r\<lparr>rnd_fptr := sep\<rparr>)" using c True q[of 8] q[of 16] q[of 32] q[of 64] by (auto simp: random_choose_def random_wf_def r_def split: if_splits)
  moreover have "random_seed x (r\<lparr>rnd_fptr := sep\<rparr>) = random_seed x r" for x
  proof (cases "t = 0")
    case True
    then have "sep = 0" using c by (auto simp: random_choose_def split: if_splits)
    then show ?thesis by (simp add: r_def)
  qed (simp add: random_seed_def Let_def r_def)
  ultimately have w: "random_wf (random_seed x r)" "random_run k (random_seed x r) = reference_random n x k" for x
    using seed_reference(1)[of "r\<lparr>rnd_fptr := sep\<rparr>" k x] seed_reference(2)[of "r\<lparr>rnd_fptr := sep\<rparr>" x] c by (simp_all add: reference_choose r_def)
  define rnd where "rnd = (random_seed now r)\<lparr>rnd_info := (if t = 0 then 0 else of_nat (5 * rnd_rptr (random_seed now r) + t))\<rparr>"
  have rnd: "random_new n now buf = Inr rnd" using True c by (simp add: random_new_def random_initState_def rnd_def r_def Let_def)
  have f: "rnd_randType rnd = t" "rnd_randDeg rnd = deg" "rnd_randSep rnd = sep" using seed_fields[of now r] by (simp_all add: rnd_def r_def)
  have "random_wf rnd" using w(1)[of now] by (simp add: rnd_def wf_info)
  then have "random_run k (random_seed x (discard m rnd)) = reference_random n x k" for m x
    using seed_reference(1)[OF discard_wf, of rnd k x m] discard_fields[of m rnd] f c by (simp add: reference_choose)
  then show ?thesis using True rnd w(2) run_info by (auto simp: rnd_def)
qed (simp add: random_new_def)

theorem random_sequence_witness:
  "\<exists>rnd. random_new 8 42 [7, 9] = Inr rnd \<and> random_run 3 rnd = reference_random 8 42 3 \<and>
    (\<forall>m x. random_run 3 (random_seed x (discard m rnd)) = reference_random 8 x 3)"
  using random_sequence[of "[7, 9]" 8 42 3] by simp

end
