(* ===== verification/PocoUUID.thy ===== *)
theory PocoUUID
  imports AsciiString PocoRandom SHA1 MD45
begin

text \<open>
  \<^verbatim>\<open>UUID.cpp\<close> and the parts of \<^verbatim>\<open>UUIDGenerator.cpp\<close> that compute: text and binary form, order, UUIDs made from a name with a digest engine, and the time
  stamps and counters of the time-based ones.  The clock, the random generator and the address of the network card are arguments.
\<close>

section \<open>UUID\<close>

record uuid =
  u_timeLow :: u32
  u_timeMid :: u16
  u_timeHiAndVersion :: u16
  u_clockSeq :: u16
  u_node :: "u8 list"

definition uuid_null :: uuid where
  "uuid_null = \<lparr>u_timeLow = 0, u_timeMid = 0, u_timeHiAndVersion = 0, u_clockSeq = 0, u_node = replicate 6 0\<rparr>"

definition uuid_wf :: "uuid \<Rightarrow> bool" where
  "uuid_wf u \<longleftrightarrow> length (u_node u) = 6"

definition uuid_nibble :: "char \<Rightarrow> int" where
  "uuid_nibble hex =
    (if schar hex \<ge> 97 \<and> schar hex \<le> 102 then schar hex - 97 + 10
     else if schar hex \<ge> 65 \<and> schar hex \<le> 70 then schar hex - 65 + 10
     else if schar hex \<ge> 48 \<and> schar hex \<le> 57 then schar hex - 48
     else -1)"

text \<open>The loops that read the digits of a member.\<close>

fun read_hex :: "nat \<Rightarrow> 'a::len word \<Rightarrow> string \<Rightarrow> ('a word \<times> string) option" where
  "read_hex 0 v s = Some (v, s)"
| "read_hex (Suc k) v [] = None"
| "read_hex (Suc k) v (c # s) =
    (let n = uuid_nibble c in if n < 0 then None else read_hex k (push_bit 4 v OR word_of_int n) s)"

fun read_node :: "nat \<Rightarrow> string \<Rightarrow> (u8 list \<times> string) option" where
  "read_node 0 s = Some ([], s)"
| "read_node (Suc k) s =
    (case read_hex 2 (0 :: u8) s of None \<Rightarrow> None | Some (b, s) \<Rightarrow> (case read_node k s of None \<Rightarrow> None | Some (bs, s) \<Rightarrow> Some (b # bs, s)))"

definition have_hyphens :: "string \<Rightarrow> bool" where
  "have_hyphens s \<longleftrightarrow> s ! 8 = CHR ''-'' \<and> s ! 13 = CHR ''-'' \<and> s ! 18 = CHR ''-'' \<and> s ! 23 = CHR ''-''"

definition uuid_tryParse :: "string \<Rightarrow> uuid option" where
  "uuid_tryParse s =
    (if length s < 32 then None
     else if have_hyphens s \<and> length s \<noteq> 36 then None
     else let skip = (if have_hyphens s then drop 1 else (\<lambda>s. s)) in
       (case read_hex 8 0 s of None \<Rightarrow> None | Some (timeLow, s) \<Rightarrow>
         (case read_hex 4 0 (skip s) of None \<Rightarrow> None | Some (timeMid, s) \<Rightarrow>
           (case read_hex 4 0 (skip s) of None \<Rightarrow> None | Some (timeHiAndVersion, s) \<Rightarrow>
             (case read_hex 4 0 (skip s) of None \<Rightarrow> None | Some (clockSeq, s) \<Rightarrow>
               (case read_node 6 (skip s) of None \<Rightarrow> None | Some (node, s) \<Rightarrow>
                 Some \<lparr>u_timeLow = timeLow, u_timeMid = timeMid, u_timeHiAndVersion = timeHiAndVersion, u_clockSeq = clockSeq, u_node = node\<rparr>))))))"

definition uuid_parse :: "string \<Rightarrow> uuid result" where
  "uuid_parse s = (case uuid_tryParse s of None \<Rightarrow> Inl SyntaxException | Some u \<Rightarrow> Inr u)"

definition uuid_digits :: string where
  "uuid_digits = ''0123456789abcdef''"

definition appendHex8 :: "string \<Rightarrow> u8 \<Rightarrow> string" where
  "appendHex8 str n = str @ [uuid_digits ! unat (drop_bit 4 n AND 0xF)] @ [uuid_digits ! unat (n AND 0xF)]"

definition appendHex16 :: "string \<Rightarrow> u16 \<Rightarrow> string" where
  "appendHex16 str n = appendHex8 (appendHex8 str (ucast (drop_bit 8 n))) (ucast (n AND 0xFF))"

definition appendHex32 :: "string \<Rightarrow> u32 \<Rightarrow> string" where
  "appendHex32 str n = appendHex16 (appendHex16 str (ucast (drop_bit 16 n))) (ucast (n AND 0xFFFF))"

definition uuid_toString :: "uuid \<Rightarrow> string" where
  "uuid_toString u =
    (let r = appendHex32 [] (u_timeLow u) @ ''-'';
         r = appendHex16 r (u_timeMid u) @ ''-'';
         r = appendHex16 r (u_timeHiAndVersion u) @ ''-'';
         r = appendHex16 r (u_clockSeq u) @ ''-''
     in foldl appendHex8 r (u_node u))"

definition uuid_toNetwork :: "uuid \<Rightarrow> uuid" where
  "uuid_toNetwork u = u\<lparr>u_timeLow := toBigEndian32 (u_timeLow u), u_timeMid := toBigEndian16 (u_timeMid u),
    u_timeHiAndVersion := toBigEndian16 (u_timeHiAndVersion u), u_clockSeq := toBigEndian16 (u_clockSeq u)\<rparr>"

definition uuid_fromNetwork :: "uuid \<Rightarrow> uuid" where
  "uuid_fromNetwork u = u\<lparr>u_timeLow := fromBigEndian32 (u_timeLow u), u_timeMid := fromBigEndian16 (u_timeMid u),
    u_timeHiAndVersion := fromBigEndian16 (u_timeHiAndVersion u), u_clockSeq := fromBigEndian16 (u_clockSeq u)\<rparr>"

text \<open>The buffer has 16 bytes.\<close>

definition uuid_copyFrom :: "u8 list \<Rightarrow> uuid" where
  "uuid_copyFrom b =
    \<lparr>u_timeLow = fromBigEndian32 (le32 (b ! 0) (b ! 1) (b ! 2) (b ! 3)), u_timeMid = fromBigEndian16 (le16 (b ! 4) (b ! 5)),
     u_timeHiAndVersion = fromBigEndian16 (le16 (b ! 6) (b ! 7)), u_clockSeq = fromBigEndian16 (le16 (b ! 8) (b ! 9)), u_node = take 6 (drop 10 b)\<rparr>"

definition uuid_copyTo :: "uuid \<Rightarrow> u8 list" where
  "uuid_copyTo u =
    bytes32 (toBigEndian32 (u_timeLow u)) @ bytes16 (toBigEndian16 (u_timeMid u)) @ bytes16 (toBigEndian16 (u_timeHiAndVersion u)) @
    bytes16 (toBigEndian16 (u_clockSeq u)) @ u_node u"

text \<open>The constructor from 16 bytes, which sets the version and the variant.\<close>

definition uuid_from_bytes :: "u8 list \<Rightarrow> u16 \<Rightarrow> uuid" where
  "uuid_from_bytes b version =
    (let u = uuid_copyFrom b
     in u\<lparr>u_timeHiAndVersion := (u_timeHiAndVersion u AND 0x0FFF) OR push_bit 12 version, u_clockSeq := (u_clockSeq u AND 0x3FFF) OR 0x8000\<rparr>)"

definition uuid_version :: "uuid \<Rightarrow> u16" where
  "uuid_version u = drop_bit 12 (u_timeHiAndVersion u)"

definition uuid_variant :: "uuid \<Rightarrow> int" where
  "uuid_variant u =
    (let v = uint (drop_bit 13 (u_clockSeq u))
     in if v AND 6 = 6 then v else if v AND 4 \<noteq> 0 then 2 else 0)"

fun node_compare :: "u8 list \<Rightarrow> u8 list \<Rightarrow> int" where
  "node_compare (a # as) (b # bs) = (if a < b then -1 else if a > b then 1 else node_compare as bs)"
| "node_compare _ _ = 0"

definition uuid_compare :: "uuid \<Rightarrow> uuid \<Rightarrow> int" where
  "uuid_compare u v =
    (if u_timeLow u \<noteq> u_timeLow v then if u_timeLow u < u_timeLow v then -1 else 1
     else if u_timeMid u \<noteq> u_timeMid v then if u_timeMid u < u_timeMid v then -1 else 1
     else if u_timeHiAndVersion u \<noteq> u_timeHiAndVersion v then if u_timeHiAndVersion u < u_timeHiAndVersion v then -1 else 1
     else if u_clockSeq u \<noteq> u_clockSeq v then if u_clockSeq u < u_clockSeq v then -1 else 1
     else node_compare (u_node u) (u_node v))"

definition uuid_isNull :: "uuid \<Rightarrow> bool" where
  "uuid_isNull u \<longleftrightarrow> uuid_compare u uuid_null = 0"

text \<open>The name spaces of RFC 4122: \<^verbatim>\<open>dns\<close>, \<^verbatim>\<open>uri\<close>, \<^verbatim>\<open>oid\<close> and \<^verbatim>\<open>x500\<close>.\<close>

definition uuid_namespaces :: "uuid result list" where
  "uuid_namespaces = map uuid_parse
    [''6ba7b810-9dad-11d1-80b4-00c04fd430c8'', ''6ba7b811-9dad-11d1-80b4-00c04fd430c8'',
     ''6ba7b812-9dad-11d1-80b4-00c04fd430c8'', ''6ba7b814-9dad-11d1-80b4-00c04fd430c8'']"

section \<open>Text\<close>

text \<open>The lowest \<open>k\<close> hexadecimal digits of a number.\<close>

fun hexs :: "nat \<Rightarrow> nat \<Rightarrow> string" where
  "hexs 0 n = []"
| "hexs (Suc k) n = hexs k (n div 16) @ [uuid_digits ! (n mod 16)]"

lemma hexs_length [simp]: "length (hexs k n) = k"
  by (induction k n rule: hexs.induct) auto

lemma hexs_mod: "hexs k (n mod 16 ^ k) = hexs k n"
proof (induction k arbitrary: n)
  case (Suc k)
  have "n mod 16 ^ Suc k = 16 * (n div 16 mod 16 ^ k) + n mod 16" using mod_mult2_eq[of n 16 "16 ^ k"] by simp
  then have "n mod 16 ^ Suc k div 16 = n div 16 mod 16 ^ k" "n mod 16 ^ Suc k mod 16 = n mod 16" by (simp_all only:) simp_all
  then show ?case using Suc[of "n div 16"] by (simp only: hexs.simps)
qed simp

lemma hexs_append: "hexs (a + b) n = hexs a (n div 16 ^ b) @ hexs b n"
  by (induction b arbitrary: n) (simp_all add: div_mult2_eq)

lemma unat_take: "unat (take_bit k w) = unat w mod 2 ^ k"
  by (simp only: unsigned_take_bit_eq) (simp only: take_bit_eq_mod)

lemma append8_hexs: "appendHex8 str n = str @ hexs 2 (unat n)"
proof -
  have m: "(0xF :: u8) = mask 4" by (simp add: mask_eq_exp_minus_1)
  have "unat (n AND 0xF) = unat n mod 16" "unat (drop_bit 4 n AND 0xF) = unat n div 16 mod 16"
    unfolding m take_bit_eq_mask[symmetric] by (simp_all add: unat_take unat_drop)
  then show ?thesis by (simp add: appendHex8_def numeral_2_eq_2)
qed

lemma append16_hexs: "appendHex16 str n = str @ hexs 4 (unat n)"
proof -
  have m: "(0xFF :: u16) = mask 8" by (simp add: mask_eq_exp_minus_1)
  have l: "unat n < 65536" using unsigned_less[where 'a = nat, of n] by simp
  have "unat (ucast (n AND 0xFF) :: u8) = unat n mod 256" "unat (ucast (drop_bit 8 n) :: u8) = unat n div 256"
    unfolding m take_bit_eq_mask[symmetric] using l by (simp_all add: unat_byte0 unat_take unat_drop)
  then show ?thesis using hexs_append[of 2 2 "unat n"] hexs_mod[of 2 "unat n"] by (simp add: appendHex16_def append8_hexs)
qed

lemma unat_ucast16: "unat (ucast w :: u16) = unat w mod 65536"
  by (simp add: unsigned_ucast_eq take_bit_eq_mod)

lemma append32_hexs: "appendHex32 str n = str @ hexs 8 (unat n)"
proof -
  have m: "(0xFFFF :: u32) = mask 16" by (simp add: mask_eq_exp_minus_1)
  have l: "unat n < 4294967296" using unsigned_less[where 'a = nat, of n] by simp
  have "unat (ucast (n AND 0xFFFF) :: u16) = unat n mod 65536" "unat (ucast (drop_bit 16 n) :: u16) = unat n div 65536"
    unfolding m take_bit_eq_mask[symmetric] using l by (simp_all add: unat_ucast16 unat_take unat_drop)
  then show ?thesis using hexs_append[of 4 4 "unat n"] hexs_mod[of 4 "unat n"] by (simp add: appendHex32_def append16_hexs)
qed

lemma toString_hexs:
  "uuid_toString u = hexs 8 (unat (u_timeLow u)) @ ''-'' @ hexs 4 (unat (u_timeMid u)) @ ''-'' @ hexs 4 (unat (u_timeHiAndVersion u)) @ ''-'' @
    hexs 4 (unat (u_clockSeq u)) @ ''-'' @ concat (map (\<lambda>b. hexs 2 (unat b)) (u_node u))"
proof -
  have "foldl appendHex8 r bs = r @ concat (map (\<lambda>b. hexs 2 (unat b)) bs)" for r bs
    by (induction bs arbitrary: r) (simp_all add: append8_hexs)
  then show ?thesis by (simp add: uuid_toString_def Let_def append32_hexs append16_hexs)
qed

text \<open>Reading digits.\<close>

definition hex_val :: "string \<Rightarrow> nat" where
  "hex_val ds = foldl (\<lambda>n d. n * 16 + nat (uuid_nibble d)) 0 ds"

lemma nibble_less: "uuid_nibble c < 16"
  by (simp add: uuid_nibble_def)

lemma shift_digit: "0 \<le> n \<Longrightarrow> n < 16 \<Longrightarrow> push_bit 4 v OR word_of_int n = v * 16 + (word_of_int n :: 'a::len word)"
proof -
  assume n: "0 \<le> n" "n < 16"
  have "take_bit 4 n = n" using n by (simp add: take_bit_int_eq_self)
  then have b: "bit n k \<Longrightarrow> k < 4" for k by (metis bit_take_bit_iff)
  then have "\<not> bit (push_bit 4 v) k \<or> \<not> bit (word_of_int n :: 'a word) k" for k
  proof (cases "k < 4")
    case False
    then have "\<not> bit n k" using b by blast
    then show ?thesis by (simp add: bit_simps)
  qed (simp add: bit_simps)
  then have "push_bit 4 v OR word_of_int n = push_bit 4 v + (word_of_int n :: 'a word)" by (simp add: disjunctive_add)
  then show ?thesis by (simp add: push_bit_eq_mult)
qed

lemma read_hex_step:
  "read_hex k v s = (if k \<le> length s \<and> list_all (\<lambda>c. 0 \<le> uuid_nibble c) (take k s)
    then Some (v * 16 ^ k + of_nat (hex_val (take k s)), drop k s) else None)"
proof (induction k v s rule: read_hex.induct)
  case (3 k v c s)
  have fold: "foldl (\<lambda>n d. n * 16 + nat (uuid_nibble d)) a ds = a * 16 ^ length ds + hex_val ds" for a ds
    by (induction ds rule: rev_induct) (simp_all add: hex_val_def algebra_simps)
  show ?case
  proof (cases "uuid_nibble c < 0")
    case False
    then have w: "push_bit 4 v OR word_of_int (uuid_nibble c) = v * 16 + of_nat (nat (uuid_nibble c))" using shift_digit[of "uuid_nibble c" v] nibble_less[of c] by simp
    have "hex_val (c # take k s) = nat (uuid_nibble c) * 16 ^ length (take k s) + hex_val (take k s)" using fold[of "nat (uuid_nibble c)"] by (simp add: hex_val_def)
    then show ?thesis using 3 False w by (auto simp: Let_def algebra_simps)
  qed simp
qed (simp_all add: hex_val_def)

lemma digit_schar: "k < 16 \<Longrightarrow> schar (uuid_digits ! k) = (if k < 10 then 48 + int k else 87 + int k)"
proof -
  have "list_all (\<lambda>k. schar (uuid_digits ! k) = (if k < 10 then 48 + int k else 87 + int k)) [0 ..< 16]" by code_simp
  then show "k < 16 \<Longrightarrow> ?thesis" by (simp add: list_all_iff)
qed

lemma nibble_digit_char: "k < 16 \<Longrightarrow> uuid_nibble (uuid_digits ! k) = int k"
  by (simp add: uuid_nibble_def digit_schar)

lemma lower_schar: "schar (to_char (Ascii_toLower (uchar c))) = ikey c"
  using ikey_bounds[of c] by (simp add: toLower_key schar_to_char)

lemma nibble_lower: "uuid_nibble (to_char (Ascii_toLower (uchar c))) = uuid_nibble c"
  unfolding uuid_nibble_def lower_schar by (auto simp: ikey_def Let_def in_span_def)

lemma lower_digit: "0 \<le> uuid_nibble c \<Longrightarrow> to_char (Ascii_toLower (uchar c)) = uuid_digits ! nat (uuid_nibble c)"
proof -
  assume n: "0 \<le> uuid_nibble c"
  have "schar (to_char (Ascii_toLower (uchar c))) = schar (uuid_digits ! nat (uuid_nibble c))"
    using n nibble_less[of c] digit_schar[of "nat (uuid_nibble c)"] unfolding lower_schar
    by (auto simp: uuid_nibble_def ikey_def Let_def in_span_def split: if_splits)
  then show ?thesis by (metis to_char_schar)
qed

lemma hex_val_snoc: "hex_val (ds @ [d]) = hex_val ds * 16 + nat (uuid_nibble d)"
  by (simp add: hex_val_def)

lemma hex_val_lower: "hex_val (toLower ds) = hex_val ds"
  by (induction ds rule: rev_induct) (simp_all add: hex_val_snoc toLower_def nibble_lower)

lemma hex_val_hexs: "hex_val (hexs k n) = n mod 16 ^ k"
proof (induction k arbitrary: n)
  case (Suc k)
  then show ?case using mod_mult2_eq[of n 16 "16 ^ k"] by (simp add: hex_val_snoc nibble_digit_char)
qed (simp add: hex_val_def)

lemma lower_hexs: "list_all (\<lambda>c. 0 \<le> uuid_nibble c) ds \<Longrightarrow> toLower ds = hexs (length ds) (hex_val ds)"
proof (induction ds rule: rev_induct)
  case (snoc d ds)
  have "nat (uuid_nibble d) < 16" using nibble_less[of d] by simp
  then show ?case using snoc lower_digit[of d] by (simp add: hex_val_snoc toLower_def)
qed (simp add: toLower_def)

lemma hexs_nibbles: "c \<in> set (hexs k n) \<Longrightarrow> 0 \<le> uuid_nibble c"
  by (induction k n rule: hexs.induct) (auto simp: nibble_digit_char)

lemma hex_val_less: "hex_val ds < 16 ^ length ds"
proof (induction ds rule: rev_induct)
  case (snoc d ds)
  then show ?case using nibble_less[of d] by (simp add: hex_val_snoc)
qed (simp add: hex_val_def)

lemma read_hex_iff:
  assumes "LENGTH('a) = 4 * k"
  shows "read_hex k (0 :: 'a::len word) s = Some (v, r) \<longleftrightarrow> (\<exists>ds. s = ds @ r \<and> toLower ds = hexs k (unat v))"
proof
  have p: "(2 :: nat) ^ LENGTH('a) = 16 ^ k" by (simp add: assms power_mult)
  assume a: "read_hex k (0 :: 'a word) s = Some (v, r)"
  then have s: "k \<le> length s" "list_all (\<lambda>c. 0 \<le> uuid_nibble c) (take k s)" "v = of_nat (hex_val (take k s))" "r = drop k s"
    by (auto simp: read_hex_step split: if_splits)
  have "hex_val (take k s) < 2 ^ LENGTH('a)" using hex_val_less[of "take k s"] s(1) by (simp add: p)
  then have "unat v = hex_val (take k s)" unfolding s(3) by (simp add: unsigned_of_nat take_bit_nat_eq_self)
  then show "\<exists>ds. s = ds @ r \<and> toLower ds = hexs k (unat v)" using lower_hexs[OF s(2)] s(1,4) by (intro exI[of _ "take k s"]) simp
next
  have p: "(2 :: nat) ^ LENGTH('a) = 16 ^ k" by (simp add: assms power_mult)
  assume "\<exists>ds. s = ds @ r \<and> toLower ds = hexs k (unat v)"
  then obtain ds where d: "s = ds @ r" "toLower ds = hexs k (unat v)" by blast
  have l: "length ds = k" using arg_cong[where f = length, OF d(2)] by (simp add: toLower_def)
  have "0 \<le> uuid_nibble c" if "c \<in> set ds" for c
    using that hexs_nibbles[of "to_char (Ascii_toLower (uchar c))" k "unat v"] nibble_lower[of c] unfolding d(2)[symmetric] toLower_def by auto
  then have n: "list_all (\<lambda>c. 0 \<le> uuid_nibble c) ds" by (simp add: list_all_iff)
  have "hex_val ds = unat v" using hex_val_lower[of ds] hex_val_hexs[of k "unat v"] unsigned_less[where 'a = nat, of v] by (simp add: d(2) p)
  then show "read_hex k (0 :: 'a word) s = Some (v, r)" using n l d(1) by (simp add: read_hex_step)
qed

lemmas read_hex_sizes =
  read_hex_iff[where 'a = 8 and k = 2, simplified] read_hex_iff[where 'a = 16 and k = 4, simplified] read_hex_iff[where 'a = 32 and k = 8, simplified]

lemma read_node_iff: "read_node k s = Some (bs, r) \<longleftrightarrow> length bs = k \<and> (\<exists>ds. s = ds @ r \<and> toLower ds = concat (map (\<lambda>b. hexs 2 (unat b)) bs))"
proof (induction k arbitrary: s bs)
  case 0 then show ?case by (auto simp: toLower_def)
next
  case (Suc k)
  have "read_node (Suc k) s = Some (bs, r) \<longleftrightarrow> (\<exists>b bs' t. bs = b # bs' \<and> read_hex 2 (0 :: u8) s = Some (b, t) \<and> read_node k t = Some (bs', r))"
    by (auto split: option.splits prod.splits)
  also have "\<dots> \<longleftrightarrow> (\<exists>b bs' t ds es. bs = b # bs' \<and> s = ds @ t \<and> toLower ds = hexs 2 (unat b) \<and> length bs' = k \<and> t = es @ r \<and>
      toLower es = concat (map (\<lambda>b. hexs 2 (unat b)) bs'))"
    unfolding read_hex_sizes Suc by blast
  also have "\<dots> \<longleftrightarrow> length bs = Suc k \<and> (\<exists>ds. s = ds @ r \<and> toLower ds = concat (map (\<lambda>b. hexs 2 (unat b)) bs))"
  proof
    assume "\<exists>b bs' t ds es. bs = b # bs' \<and> s = ds @ t \<and> toLower ds = hexs 2 (unat b) \<and> length bs' = k \<and> t = es @ r \<and>
      toLower es = concat (map (\<lambda>b. hexs 2 (unat b)) bs')"
    then obtain b bs' ds es where "bs = b # bs'" "s = (ds @ es) @ r" "toLower ds = hexs 2 (unat b)" "length bs' = k"
      "toLower es = concat (map (\<lambda>b. hexs 2 (unat b)) bs')" by auto
    moreover from this have "toLower (ds @ es) = concat (map (\<lambda>b. hexs 2 (unat b)) bs)" by (simp add: toLower_def)
    ultimately show "length bs = Suc k \<and> (\<exists>ds. s = ds @ r \<and> toLower ds = concat (map (\<lambda>b. hexs 2 (unat b)) bs))" by (metis length_Cons)
  next
    assume a: "length bs = Suc k \<and> (\<exists>ds. s = ds @ r \<and> toLower ds = concat (map (\<lambda>b. hexs 2 (unat b)) bs))"
    then obtain b bs' ds where b: "bs = b # bs'" "length bs' = k" "s = ds @ r" "toLower ds = hexs 2 (unat b) @ concat (map (\<lambda>b. hexs 2 (unat b)) bs')"
      by (cases bs) auto
    have "toLower (take 2 ds) = hexs 2 (unat b)" "toLower (drop 2 ds) = concat (map (\<lambda>b. hexs 2 (unat b)) bs')"
      using arg_cong[where f = "take 2", OF b(4)] arg_cong[where f = "drop 2", OF b(4)] by (simp_all add: toLower_def take_map drop_map)
    then show "\<exists>b bs' t ds es. bs = b # bs' \<and> s = ds @ t \<and> toLower ds = hexs 2 (unat b) \<and> length bs' = k \<and> t = es @ r \<and>
      toLower es = concat (map (\<lambda>b. hexs 2 (unat b)) bs')"
      using b(1-3) by (intro exI[of _ b] exI[of _ bs'] exI[of _ "drop 2 ds @ r"] exI[of _ "take 2 ds"] exI[of _ "drop 2 ds"]) simp
  qed
  finally show ?case .
qed

lemma lower_length [simp]: "length (toLower s) = length s"
  by (simp add: toLower_def)

lemma lower_append: "toLower (xs @ ys) = toLower xs @ toLower ys" "toLower (CHR ''-'' # xs) = CHR ''-'' # toLower xs"
proof -
  have "to_char (Ascii_toLower (uchar CHR ''-'')) = CHR ''-''" by code_simp
  then show "toLower (xs @ ys) = toLower xs @ toLower ys" "toLower (CHR ''-'' # xs) = CHR ''-'' # toLower xs" by (simp_all add: toLower_def)
qed

lemma read_digits:
  "length ds = 8 \<Longrightarrow> read_hex 8 (0 :: u32) (ds @ t) = Some (v, r) \<longleftrightarrow> r = t \<and> toLower ds = hexs 8 (unat v)"
  "length ds = 4 \<Longrightarrow> read_hex 4 (0 :: u16) (ds @ t) = Some (w, r) \<longleftrightarrow> r = t \<and> toLower ds = hexs 4 (unat w)"
  "length ds = 12 \<Longrightarrow> read_node 6 (ds @ t) = Some (bs, r) \<longleftrightarrow> r = t \<and> length bs = 6 \<and> toLower ds = concat (map (\<lambda>b. hexs 2 (unat b)) bs)"
proof -
  have u: "es @ r = ds @ t \<and> length es = length ds \<longleftrightarrow> es = ds \<and> r = t" for es by auto
  have c: "length (concat (map (\<lambda>b. hexs 2 (unat b)) bs)) = 2 * length bs" for bs :: "u8 list" by (induction bs) auto
  show "length ds = 8 \<Longrightarrow> read_hex 8 (0 :: u32) (ds @ t) = Some (v, r) \<longleftrightarrow> r = t \<and> toLower ds = hexs 8 (unat v)"
    unfolding read_hex_sizes using u by (metis hexs_length lower_length)
  show "length ds = 4 \<Longrightarrow> read_hex 4 (0 :: u16) (ds @ t) = Some (w, r) \<longleftrightarrow> r = t \<and> toLower ds = hexs 4 (unat w)"
    unfolding read_hex_sizes using u by (metis hexs_length lower_length)
  show "length ds = 12 \<Longrightarrow> read_node 6 (ds @ t) = Some (bs, r) \<longleftrightarrow> r = t \<and> length bs = 6 \<and> toLower ds = concat (map (\<lambda>b. hexs 2 (unat b)) bs)"
  proof -
    assume l: "length ds = 12"
    have "length es = 12" if "toLower es = concat (map (\<lambda>b. hexs 2 (unat b)) bs)" "length bs = 6" for es
    proof -
      have "length (toLower es) = 12" unfolding that(1) c using that(2) by simp
      then show ?thesis by simp
    qed
    then show ?thesis unfolding read_node_iff using u l by metis
  qed
qed

lemma case_some: "(case x of None \<Rightarrow> None | Some (v, t) \<Rightarrow> f v t) = Some u \<longleftrightarrow> (\<exists>v t. x = Some (v, t) \<and> f v t = Some u)"
  by (auto split: option.splits prod.splits)

text \<open>The five groups of digits of a UUID.\<close>

definition uuid_groups :: "uuid \<Rightarrow> string list" where
  "uuid_groups u = [hexs 8 (unat (u_timeLow u)), hexs 4 (unat (u_timeMid u)), hexs 4 (unat (u_timeHiAndVersion u)), hexs 4 (unat (u_clockSeq u)),
    concat (map (\<lambda>b. hexs 2 (unat b)) (u_node u))]"

lemma parse_groups:
  assumes "length d1 = 8" "length d2 = 4" "length d3 = 4" "length d4 = 4" "length d5 = 12"
    "skip = (\<lambda>s. s) \<and> s = d1 @ d2 @ d3 @ d4 @ d5 @ r \<or> skip = drop 1 \<and> s = d1 @ ''-'' @ d2 @ ''-'' @ d3 @ ''-'' @ d4 @ ''-'' @ d5 @ r"
  shows "(case read_hex 8 0 s of None \<Rightarrow> None | Some (timeLow, s) \<Rightarrow>
         (case read_hex 4 0 (skip s) of None \<Rightarrow> None | Some (timeMid, s) \<Rightarrow>
           (case read_hex 4 0 (skip s) of None \<Rightarrow> None | Some (timeHiAndVersion, s) \<Rightarrow>
             (case read_hex 4 0 (skip s) of None \<Rightarrow> None | Some (clockSeq, s) \<Rightarrow>
               (case read_node 6 (skip s) of None \<Rightarrow> None | Some (node, s) \<Rightarrow>
                 Some \<lparr>u_timeLow = timeLow, u_timeMid = timeMid, u_timeHiAndVersion = timeHiAndVersion, u_clockSeq = clockSeq, u_node = node\<rparr>))))) = Some u \<longleftrightarrow>
    uuid_wf u \<and> map toLower [d1, d2, d3, d4, d5] = uuid_groups u"
  unfolding case_some uuid_wf_def uuid_groups_def using assms(6)
  by (elim disjE conjE; simp add: read_digits assms(1-5); cases u; auto)

lemma hexs_no_hyphen: "filter (\<lambda>c. c \<noteq> CHR ''-'') (hexs k n) = hexs k n"
proof -
  have "uuid_nibble CHR ''-'' < 0" by code_simp
  then show ?thesis using hexs_nibbles[of "CHR ''-''" k n] by (auto simp: filter_id_conv)
qed

lemma groups_length: "length (concat (map (\<lambda>b. hexs 2 (unat b)) bs)) = 2 * length (bs :: u8 list)"
  by (induction bs) auto

lemma toString_groups:
  "uuid_toString u = (case uuid_groups u of [g1, g2, g3, g4, g5] \<Rightarrow> g1 @ ''-'' @ g2 @ ''-'' @ g3 @ ''-'' @ g4 @ ''-'' @ g5)"
  "filter (\<lambda>c. c \<noteq> CHR ''-'') (uuid_toString u) = concat (uuid_groups u)"
  "uuid_wf u \<Longrightarrow> length (uuid_toString u) = 36"
  by (simp_all add: toString_hexs uuid_groups_def hexs_no_hyphen filter_concat comp_def uuid_wf_def groups_length)

lemma groups_joined:
  assumes "length d1 = 8" "length d2 = 4" "length d3 = 4" "length d4 = 4" "length d5 = 12" "uuid_wf u"
  shows "map toLower [d1, d2, d3, d4, d5] = uuid_groups u \<longleftrightarrow> toLower (d1 @ d2 @ d3 @ d4 @ d5) = concat (uuid_groups u)"
    "map toLower [d1, d2, d3, d4, d5] = uuid_groups u \<longleftrightarrow> toLower (d1 @ ''-'' @ d2 @ ''-'' @ d3 @ ''-'' @ d4 @ ''-'' @ d5) = uuid_toString u"
  using assms by (simp_all add: uuid_groups_def toString_hexs lower_append groups_length uuid_wf_def append_eq_append_conv)

lemma parse_plain:
  assumes "32 \<le> length s" "\<not> have_hyphens s"
  shows "uuid_tryParse s = Some u \<longleftrightarrow> uuid_wf u \<and> toLower (take 32 s) = filter (\<lambda>c. c \<noteq> CHR ''-'') (uuid_toString u)"
proof -
  let ?d1 = "take 8 s" and ?d2 = "take 4 (drop 8 s)" and ?d3 = "take 4 (drop 12 s)" and ?d4 = "take 4 (drop 16 s)" and ?d5 = "take 12 (drop 20 s)"
  have t: "take 32 s = ?d1 @ ?d2 @ ?d3 @ ?d4 @ ?d5"
    using take_add[of 8 24 s] take_add[of 4 20 "drop 8 s"] take_add[of 4 16 "drop 12 s"] take_add[of 4 12 "drop 16 s"] by simp
  then have s: "s = ?d1 @ ?d2 @ ?d3 @ ?d4 @ ?d5 @ drop 32 s" using append_take_drop_id[of 32 s] by simp
  have len: "length ?d1 = 8" "length ?d2 = 4" "length ?d3 = 4" "length ?d4 = 4" "length ?d5 = 12" using assms(1) by simp_all
  have "uuid_tryParse s = Some u \<longleftrightarrow> uuid_wf u \<and> map toLower [?d1, ?d2, ?d3, ?d4, ?d5] = uuid_groups u"
    using parse_groups[OF len, of "\<lambda>s. s" s "drop 32 s" u] s assms by (simp add: uuid_tryParse_def Let_def)
  then show ?thesis using groups_joined(1)[OF len] unfolding t[symmetric] toString_groups(2) by auto
qed

lemma hyphens_split:
  assumes "length s = 36" "have_hyphens s"
  shows "s = take 8 s @ ''-'' @ take 4 (drop 9 s) @ ''-'' @ take 4 (drop 14 s) @ ''-'' @ take 4 (drop 19 s) @ ''-'' @ take 12 (drop 24 s)"
proof -
  have c: "drop k s = CHR ''-'' # drop (Suc k) s" if "k \<in> {8, 13, 18, 23}" for k
    using that assms Cons_nth_drop_Suc[of k s] by (auto simp: have_hyphens_def)
  have "s = take 8 s @ ''-'' @ drop 9 s" using append_take_drop_id[of 8 s] c[of 8] by simp
  moreover have "drop 9 s = take 4 (drop 9 s) @ ''-'' @ drop 14 s" using append_take_drop_id[of 4 "drop 9 s"] c[of 13] by simp
  moreover have "drop 14 s = take 4 (drop 14 s) @ ''-'' @ drop 19 s" using append_take_drop_id[of 4 "drop 14 s"] c[of 18] by simp
  moreover have "drop 19 s = take 4 (drop 19 s) @ ''-'' @ drop 24 s" using append_take_drop_id[of 4 "drop 19 s"] c[of 23] by simp
  moreover have "drop 24 s = take 12 (drop 24 s)" using assms by simp
  ultimately show ?thesis by metis
qed

lemma parse_hyphens:
  assumes "32 \<le> length s" "have_hyphens s"
  shows "uuid_tryParse s = Some u \<longleftrightarrow> uuid_wf u \<and> toLower s = uuid_toString u"
proof (cases "length s = 36")
  case False
  then have "uuid_wf u \<Longrightarrow> toLower s \<noteq> uuid_toString u" using toString_groups(3)[of u] lower_length[of s] by metis
  then show ?thesis using assms False by (auto simp: uuid_tryParse_def)
next
  case True
  let ?d1 = "take 8 s" and ?d2 = "take 4 (drop 9 s)" and ?d3 = "take 4 (drop 14 s)" and ?d4 = "take 4 (drop 19 s)" and ?d5 = "take 12 (drop 24 s)"
  note s = hyphens_split[OF True assms(2)]
  have len: "length ?d1 = 8" "length ?d2 = 4" "length ?d3 = 4" "length ?d4 = 4" "length ?d5 = 12" using True by simp_all
  have s': "s = ?d1 @ ''-'' @ ?d2 @ ''-'' @ ?d3 @ ''-'' @ ?d4 @ ''-'' @ ?d5 @ []" using s by (simp only: append_Nil2)
  have c: "\<not> length s < 32" "\<not> (have_hyphens s \<and> length s \<noteq> 36)" "(if have_hyphens s then drop 1 else (\<lambda>s. s)) = drop 1" using assms True by simp_all
  have "uuid_tryParse s = Some u \<longleftrightarrow> uuid_wf u \<and> map toLower [?d1, ?d2, ?d3, ?d4, ?d5] = uuid_groups u"
    unfolding uuid_tryParse_def Let_def c(3) if_not_P[OF c(1)] if_not_P[OF c(2)] by (rule parse_groups[OF len disjI2[OF conjI[OF refl s']]])
  then show ?thesis using groups_joined(2)[OF len] unfolding s[symmetric] by auto
qed

text \<open>
  C32.  Parsing accepts exactly these strings: the 36 characters that printing the UUID gives, in upper or lower case, or its 32 digits without hyphens,
  and behind them anything.
\<close>

theorem uuid_parse_exact:
  "uuid_tryParse s = Some u \<longleftrightarrow> uuid_wf u \<and> 32 \<le> length s \<and>
    (if have_hyphens s then toLower s = uuid_toString u else toLower (take 32 s) = filter (\<lambda>c. c \<noteq> CHR ''-'') (uuid_toString u))"
proof (cases "length s < 32")
  case True then show ?thesis by (simp add: uuid_tryParse_def)
next
  case False
  then show ?thesis using parse_plain[of s u] parse_hyphens[of s u] by auto
qed

lemma lower_id: "toLower (hexs k n) = hexs k n"
  using lower_hexs[of "hexs k n"] hexs_nibbles[of _ k n] by (simp add: list_all_iff hex_val_hexs hexs_mod)

lemma uuid_roundtrip: "uuid_wf u \<Longrightarrow> uuid_parse (uuid_toString u) = Inr u"
proof -
  assume u: "uuid_wf u"
  have "toLower (concat (map (\<lambda>b. hexs 2 (unat b)) bs)) = concat (map (\<lambda>b. hexs 2 (unat b)) bs)" for bs :: "u8 list"
    by (induction bs) (simp_all add: lower_append lower_id, simp add: toLower_def)
  then have "toLower (uuid_toString u) = uuid_toString u" by (simp add: toString_hexs lower_append lower_id)
  moreover have "have_hyphens (uuid_toString u)" by (simp add: have_hyphens_def toString_hexs nth_append)
  ultimately have "uuid_tryParse (uuid_toString u) = Some u" using parse_hyphens[of "uuid_toString u" u] toString_groups(3)[OF u] u by simp
  then show ?thesis by (simp add: uuid_parse_def)
qed

section \<open>Binary form and order\<close>

lemma bytes32_le32: "bytes32 (le32 a b c d) = [a, b, c, d]"
  unfolding bytes32_def le32_def by (simp, intro conjI; rule bit_word_eqI; auto simp: bit_simps dest: bit_imp_le_length)

lemma bytes16_le16: "bytes16 (le16 a b) = [a, b]"
  unfolding bytes16_def le16_def by (simp, intro conjI; rule bit_word_eqI; auto simp: bit_simps dest: bit_imp_le_length)

lemma uuid_binary:
  "uuid_wf u \<Longrightarrow> uuid_copyFrom (uuid_copyTo u) = u"
  "length b = 16 \<Longrightarrow> uuid_copyTo (uuid_copyFrom b) = b \<and> uuid_wf (uuid_copyFrom b)"
proof -
  assume u: "uuid_wf u"
  have l: "le32 (bytes32 w ! 0) (bytes32 w ! Suc 0) (bytes32 w ! 2) (bytes32 w ! 3) = w" "le16 (bytes16 x ! 0) (bytes16 x ! Suc 0) = x" for w x
    using le32_bytes[of w] le16_bytes[of x] by simp_all
  have n: "length (bytes32 w) = 4" "length (bytes16 x) = 2" for w x by (simp_all add: bytes32_def bytes16_def)
  show "uuid_copyFrom (uuid_copyTo u) = u" using u
    by (simp add: uuid_copyFrom_def uuid_copyTo_def nth_append n l fromBigEndian32_def toBigEndian32_def fromBigEndian16_def toBigEndian16_def
        flip32_flip flip16_flip uuid_wf_def)
next
  assume b: "length b = 16"
  have ten: "length xs = 10 \<Longrightarrow> \<exists>x0 x1 x2 x3 x4 x5 x6 x7 x8 x9. xs = [x0, x1, x2, x3, x4, x5, x6, x7, x8, x9]" for xs :: "u8 list"
    by (auto simp: length_Suc_conv eval_nat_numeral)
  obtain x0 x1 x2 x3 x4 x5 x6 x7 x8 x9 where x: "take 10 b = [x0, x1, x2, x3, x4, x5, x6, x7, x8, x9]"
    using ten[of "take 10 b"] b by auto
  define r where "r = drop 10 b"
  have e: "b = [x0, x1, x2, x3, x4, x5, x6, x7, x8, x9] @ r" "length r = 6" using b x append_take_drop_id[of 10 b] by (simp_all add: r_def)
  show "uuid_copyTo (uuid_copyFrom b) = b \<and> uuid_wf (uuid_copyFrom b)" unfolding e(1)
    using e(2) by (simp add: uuid_copyFrom_def uuid_copyTo_def fromBigEndian32_def toBigEndian32_def fromBigEndian16_def toBigEndian16_def
        flip32_flip flip16_flip bytes32_le32 bytes16_le16 uuid_wf_def)
qed

definition cmp :: "nat \<Rightarrow> nat \<Rightarrow> int" where
  "cmp x y = (if x < y then -1 else if x > y then 1 else 0)"

lemma cmp_pair: "x < m \<Longrightarrow> y < m \<Longrightarrow> cmp (a * m + x) (b * m + y) = (if a < b then -1 else if b < a then 1 else cmp x y)"
proof -
  assume m: "x < m" "y < m"
  have less: "c * m + z < d * m + w" if "c < d" "z < m" for c d z w :: nat
  proof -
    have "c * m + z < Suc c * m" using that(2) by simp
    also have "\<dots> \<le> d * m" using that(1) by (intro mult_le_mono1) simp
    finally show ?thesis by simp
  qed
  consider "a < b" | "b < a" | "a = b" by linarith
  then show ?thesis using less[of a b x y] less[of b a y x] m by cases (auto simp: cmp_def)
qed

lemma be_value_less: "be_value bs < 256 ^ length bs"
proof (induction bs rule: rev_induct)
  case (snoc b bs)
  have "unat b < 256" using unsigned_less[where 'a = nat, of b] by simp
  then show ?case using snoc by (simp add: be_value_snoc)
qed (simp add: be_value_def)

lemma node_compare_value: "length as = length bs \<Longrightarrow> node_compare as bs = cmp (be_value as) (be_value bs)"
proof (induction as bs rule: list_induct2)
  case (Cons a as b bs)
  have v: "be_value (c # cs) = unat c * 256 ^ length cs + be_value cs" for c cs using be_value_append[of "[c]" cs] by (simp add: be_value_def)
  show ?case using Cons cmp_pair[of "be_value as" "256 ^ length as" "be_value bs" "unat a" "unat b"] be_value_less[of as] be_value_less[of bs]
    by (simp add: v word_less_nat_alt)
qed (simp add: cmp_def be_value_def)

lemma be_value_inject: "length as = length bs \<Longrightarrow> be_value as = be_value bs \<Longrightarrow> as = bs"
proof (induction as arbitrary: bs rule: rev_induct)
  case (snoc a as)
  then obtain b cs where b: "bs = cs @ [b]" "length as = length cs" by (cases bs rule: rev_cases) auto
  have l: "unat a < 256" "unat b < 256" using unsigned_less[where 'a = nat, of a] unsigned_less[where 'a = nat, of b] by simp_all
  have e: "be_value as * 256 + unat a = be_value cs * 256 + unat b" using snoc.prems(2) unfolding b(1) by (simp add: be_value_snoc)
  have "be_value as = be_value cs" using arg_cong[where f = "\<lambda>n. n div 256", OF e] l by simp
  moreover from this e have "a = b" by (simp add: word_unat_eq_iff)
  ultimately show ?case using snoc.IH[of cs] b by simp
qed simp

lemma copyTo_length: "uuid_wf u \<Longrightarrow> length (uuid_copyTo u) = 16"
  by (simp add: uuid_copyTo_def uuid_wf_def bytes32_def bytes16_def)

lemma member_cmp:
  "(if a \<noteq> b then if a < b then - 1 else 1 else z) = (if unat a < unat b then - 1 else if unat b < unat a then 1 else (z :: int))" for a b :: "'a::len word"
  by (auto simp: word_less_nat_alt word_unat_eq_iff)

definition uuid_value :: "uuid \<Rightarrow> nat" where
  "uuid_value u = be_value (uuid_copyTo u)"

lemma uuid_value_members:
  "uuid_wf u \<Longrightarrow> uuid_value u = unat (u_timeLow u) * 2 ^ 96 + (unat (u_timeMid u) * 2 ^ 80 + (unat (u_timeHiAndVersion u) * 2 ^ 64 +
    (unat (u_clockSeq u) * 2 ^ 48 + be_value (u_node u))))"
proof -
  assume u: "uuid_wf u"
  have n: "length (bytes32 w) = 4" "length (bytes16 x) = 2" for w x by (simp_all add: bytes32_def bytes16_def)
  show ?thesis using u by (simp add: uuid_value_def uuid_copyTo_def be_value_append toBigEndian32_def toBigEndian16_def bytes32_flip bytes16_flip
      be_value_bytes32 be_value_bytes16 n uuid_wf_def)
qed

text \<open>
  \<^verbatim>\<open>compare\<close> orders UUIDs as the 128-bit numbers that their binary form is in network order, and is zero exactly for equal ones; the binary form and
  the text form are read back.
\<close>

theorem uuid_order:
  assumes "uuid_wf u" "uuid_wf v"
  shows "uuid_compare u v = cmp (uuid_value u) (uuid_value v) \<and> (uuid_compare u v = 0 \<longleftrightarrow> u = v) \<and> uuid_copyFrom (uuid_copyTo u) = u \<and>
    uuid_parse (uuid_toString u) = Inr u"
proof -
  have nd: "length (u_node u) = 6" "length (u_node v) = 6" using assms by (auto simp: uuid_wf_def)
  have b: "be_value (u_node u) < 2 ^ 48" "be_value (u_node v) < 2 ^ 48" using be_value_less[of "u_node u"] be_value_less[of "u_node v"] nd by simp_all
  have h: "unat w < 2 ^ 16" for w :: u16 using unsigned_less[where 'a = nat, of w] by simp
  let ?c = "\<lambda>w. unat (u_clockSeq w) * 2 ^ 48 + be_value (u_node w)"
  let ?t = "\<lambda>w. unat (u_timeHiAndVersion w) * 2 ^ 64 + ?c w"
  let ?m = "\<lambda>w. unat (u_timeMid w) * 2 ^ 80 + ?t w"
  have lt: "?c w < 2 ^ 64" "?t w < 2 ^ 80" "?m w < 2 ^ 96" if "be_value (u_node w) < 2 ^ 48" for w
    using that h[of "u_clockSeq w"] h[of "u_timeHiAndVersion w"] h[of "u_timeMid w"] by simp_all
  have c: "uuid_compare u v = cmp (uuid_value u) (uuid_value v)"
    unfolding uuid_value_members[OF assms(1)] uuid_value_members[OF assms(2)]
    unfolding cmp_pair[OF lt(3)[OF b(1)] lt(3)[OF b(2)]] cmp_pair[OF lt(2)[OF b(1)] lt(2)[OF b(2)]] cmp_pair[OF lt(1)[OF b(1)] lt(1)[OF b(2)]] cmp_pair[OF b]
    unfolding uuid_compare_def member_cmp using node_compare_value[of "u_node u" "u_node v"] nd by simp
  moreover have "uuid_value u = uuid_value v \<longleftrightarrow> u = v"
  proof
    assume "uuid_value u = uuid_value v"
    then have "uuid_copyTo u = uuid_copyTo v" using be_value_inject[of "uuid_copyTo u" "uuid_copyTo v"] copyTo_length[OF assms(1)] copyTo_length[OF assms(2)]
      by (simp add: uuid_value_def)
    then show "u = v" using uuid_binary(1)[OF assms(1)] uuid_binary(1)[OF assms(2)] by metis
  qed simp
  ultimately show ?thesis using uuid_binary(1)[OF assms(1)] uuid_roundtrip[OF assms(1)] by (auto simp: cmp_def)
qed

theorem uuid_order_witness:
  "uuid_compare uuid_null (uuid_null\<lparr>u_timeLow := 1\<rparr>) = cmp (uuid_value uuid_null) (uuid_value (uuid_null\<lparr>u_timeLow := 1\<rparr>)) \<and>
   (uuid_compare uuid_null (uuid_null\<lparr>u_timeLow := 1\<rparr>) = 0 \<longleftrightarrow> uuid_null = uuid_null\<lparr>u_timeLow := 1\<rparr>) \<and>
   uuid_copyFrom (uuid_copyTo uuid_null) = uuid_null \<and> uuid_parse (uuid_toString uuid_null) = Inr uuid_null"
  by (rule uuid_order) (simp_all add: uuid_wf_def uuid_null_def)

lemma namespaces_parse: "list_all (\<lambda>r. case r of Inr u \<Rightarrow> uuid_wf u \<and> uuid_version u = 1 \<and> uuid_variant u = 2 \<and> \<not> uuid_isNull u | Inl e \<Rightarrow> False) uuid_namespaces"
  by code_simp

section \<open>UUIDGenerator\<close>

record uuidgen =
  g_random :: random
  g_lastTime :: int
  g_ticks :: int
  g_counter :: u16
  g_node :: "u8 list"
  g_haveNode :: bool

text \<open>
  The constructor; \<open>now\<close> is the time in microseconds at which \<^verbatim>\<open>_lastTime\<close> is made, \<open>time\<close>, \<open>buf\<close> and \<open>dev\<close> are what the random generator is
  made from, and \<open>node\<close> what the array \<^verbatim>\<open>_node\<close> happens to hold.
\<close>

definition uuidgen_new :: "int \<Rightarrow> u32 \<Rightarrow> u32 list \<Rightarrow> u32 list \<Rightarrow> u8 list \<Rightarrow> uuidgen result" where
  "uuidgen_new now time buf dev node =
    (case random_new 256 time buf of Inl e \<Rightarrow> Inl e
     | Inr rnd \<Rightarrow> Inr \<lparr>g_random = random_seed_device dev rnd, g_lastTime = now, g_ticks = 0, g_counter = 0, g_node = node, g_haveNode = False\<rparr>)"

definition uuidgen_seed :: "u32 \<Rightarrow> uuidgen \<Rightarrow> uuidgen" where
  "uuidgen_seed n g = g\<lparr>g_random := random_seed n (g_random g)\<rparr>"

definition uuidgen_seed_device :: "u32 list \<Rightarrow> uuidgen \<Rightarrow> uuidgen" where
  "uuidgen_seed_device dev g = g\<lparr>g_random := random_seed_device dev (g_random g)\<rparr>"

text \<open>\<^verbatim>\<open>Timestamp::utcTime\<close>: 100-nanosecond intervals since October 15, 1582.\<close>

definition utcTime :: "int \<Rightarrow> int" where
  "utcTime ts = ts * 10 + push_bit 32 0x01b21dd2 + 0x13814000"

text \<open>
  \<^verbatim>\<open>timeStamp\<close>: each reading of the clock is an element of the list; the rest is left for later calls, and without a further reading the loop still waits.
\<close>

fun uuid_timeStamp :: "int list \<Rightarrow> uuidgen \<Rightarrow> (int \<times> uuidgen \<times> int list) option" where
  "uuid_timeStamp [] g = None"
| "uuid_timeStamp (now # clock) g =
    (if now \<noteq> g_lastTime g then let g = g\<lparr>g_lastTime := now, g_ticks := 0\<rparr> in Some (utcTime now + g_ticks g, g, clock)
     else if g_ticks g < 100 then let g = g\<lparr>g_ticks := g_ticks g + 1\<rparr> in Some (utcTime now + g_ticks g, g, clock)
     else uuid_timeStamp clock g)"

definition next_clockSeq :: "uuidgen \<Rightarrow> u16 \<times> uuidgen" where
  "next_clockSeq g = (let (i, rnd) = random_next (g_random g) in ((ucast (drop_bit 4 i) AND 0x3FFF) OR 0x8000, g\<lparr>g_random := rnd\<rparr>))"

definition uuid_v1 :: "int \<Rightarrow> u16 \<Rightarrow> u8 list \<Rightarrow> uuid" where
  "uuid_v1 tv clockSeq node =
    \<lparr>u_timeLow = word_of_int (tv AND 0xFFFFFFFF), u_timeMid = word_of_int (drop_bit 32 tv AND 0xFFFF),
     u_timeHiAndVersion = word_of_int (drop_bit 48 tv AND 0x0FFF) + push_bit 12 1, u_clockSeq = clockSeq, u_node = node\<rparr>"

definition uuid_v6 :: "int \<Rightarrow> u16 \<Rightarrow> u8 list \<Rightarrow> uuid" where
  "uuid_v6 tv clockSeq node =
    \<lparr>u_timeLow = word_of_int (drop_bit 28 tv AND 0xFFFFFFFF), u_timeMid = word_of_int (drop_bit 12 tv AND 0xFFFF),
     u_timeHiAndVersion = word_of_int (tv AND 0x0FFF) + push_bit 12 6, u_clockSeq = clockSeq, u_node = node\<rparr>"

definition uuid_v7 :: "int \<Rightarrow> u16 \<Rightarrow> u16 \<Rightarrow> u8 list \<Rightarrow> uuid" where
  "uuid_v7 tv counter randBHiVar randBLow =
    \<lparr>u_timeLow = word_of_int (drop_bit 16 tv AND 0xFFFFFFFF), u_timeMid = word_of_int (tv AND 0xFFFF),
     u_timeHiAndVersion = (counter AND 0x0FFF) + push_bit 12 7, u_clockSeq = randBHiVar, u_node = randBLow\<rparr>"

text \<open>
  \<^verbatim>\<open>create\<close>: \<open>nodeId\<close> is what \<^verbatim>\<open>Environment::nodeId\<close> gives or throws.  The outer option is the loop of \<^verbatim>\<open>timeStamp\<close>.
\<close>

definition uuid_create :: "u8 list result \<Rightarrow> int list \<Rightarrow> uuidgen \<Rightarrow> (uuid result \<times> uuidgen \<times> int list) option" where
  "uuid_create nodeId clock g =
    (case (if g_haveNode g then Inr (g_node g) else nodeId) of
       Inl e \<Rightarrow> Some (Inl e, g, clock)
     | Inr node \<Rightarrow>
         let g = g\<lparr>g_node := node, g_haveNode := True\<rparr>
         in (case uuid_timeStamp clock g of None \<Rightarrow> None
             | Some (tv, g, clock) \<Rightarrow> let (clockSeq, g) = next_clockSeq g in Some (Inr (uuid_v1 tv clockSeq (g_node g)), g, clock)))"

definition uuid_createRandom :: "u8 list \<Rightarrow> uuid" where
  "uuid_createRandom dev = uuid_from_bytes dev 4"

definition uuid_createOne :: "u8 list result \<Rightarrow> u8 list \<Rightarrow> int list \<Rightarrow> uuidgen \<Rightarrow> (uuid \<times> uuidgen \<times> int list) option" where
  "uuid_createOne nodeId dev clock g =
    (case uuid_create nodeId clock g of None \<Rightarrow> None
     | Some (Inr u, g, clock) \<Rightarrow> Some (u, g, clock)
     | Some (Inl e, g, clock) \<Rightarrow> Some (uuid_createRandom dev, g, clock))"

definition uuid_createV6 :: "u8 list result \<Rightarrow> u8 list \<Rightarrow> int list \<Rightarrow> uuidgen \<Rightarrow> (uuid \<times> uuidgen \<times> int list) option" where
  "uuid_createV6 nodeId dev clock g =
    (let g = (if g_haveNode g then g
              else case nodeId of Inr node \<Rightarrow> g\<lparr>g_node := node, g_haveNode := True\<rparr> | Inl e \<Rightarrow> g\<lparr>g_node := dev\<rparr>)
     in (case uuid_timeStamp clock g of None \<Rightarrow> None
         | Some (tv, g, clock) \<Rightarrow> let (clockSeq, g) = next_clockSeq g in Some (uuid_v6 tv clockSeq (g_node g), g, clock)))"

definition uuid_createV7 :: "u8 list \<Rightarrow> int \<Rightarrow> uuidgen \<Rightarrow> (uuid \<times> uuidgen) option" where
  "uuid_createV7 dev now g =
    (case (if g_counter g = 0 then map_option (\<lambda>(i, rnd). g\<lparr>g_random := rnd, g_counter := ucast i\<rparr>) (random_next_mod 4096 (g_random g)) else Some g) of
       None \<Rightarrow> None
     | Some g \<Rightarrow>
         let tv = now sdiv 1000; counter = g_counter g; g = g\<lparr>g_counter := counter + 1\<rparr>; (randBHiVar, g) = next_clockSeq g
         in Some (uuid_v7 tv counter randBHiVar dev, g))"

text \<open>
  \<^verbatim>\<open>createFromName\<close> with an engine given by its operations; the bytes of a name are those of its characters.
\<close>

definition uuid_createFromName :: "('e \<Rightarrow> 'e option) \<Rightarrow> (u8 list \<Rightarrow> 'e \<Rightarrow> 'e option) \<Rightarrow> ('e \<Rightarrow> (u8 list \<times> 'e) option) \<Rightarrow> 'e \<Rightarrow> uuid \<Rightarrow> u8 list \<Rightarrow> u16 \<Rightarrow>
    (uuid \<times> 'e) option" where
  "uuid_createFromName reset update digest de nsid name version =
    (let netNsid = uuid_toNetwork nsid in
     do { de \<leftarrow> reset de;
          de \<leftarrow> update (bytes32 (u_timeLow netNsid)) de;
          de \<leftarrow> update (bytes16 (u_timeMid netNsid)) de;
          de \<leftarrow> update (bytes16 (u_timeHiAndVersion netNsid)) de;
          de \<leftarrow> update (bytes16 (u_clockSeq netNsid)) de;
          de \<leftarrow> update (u_node netNsid) de;
          de \<leftarrow> update name de;
          (d, de) \<leftarrow> digest de;
          Some (uuid_from_bytes (take 16 d) version, de) })"

definition uuid_fromName_md5 :: "uuid \<Rightarrow> u8 list \<Rightarrow> uuid option" where
  "uuid_fromName_md5 nsid name =
    map_option fst (uuid_createFromName (\<lambda>c. Some md_reset) (md_updateImpl md5_transform) (md_digest md5_transform) md_reset nsid name 3)"

definition uuid_fromName_sha1 :: "uuid \<Rightarrow> u8 list \<Rightarrow> uuid option" where
  "uuid_fromName_sha1 nsid name =
    map_option fst (uuid_createFromName (\<lambda>c. Some (sha1_reset c)) (\<lambda>x c. Some (sha1_updateImpl x c)) (\<lambda>c. Some (sha1_digest c)) sha1_new nsid name 5)"

section \<open>Generated UUIDs\<close>

text \<open>RFC 4122: the first 16 bytes of a digest, with the version and the variant put in.\<close>

definition rfc_stamp :: "u8 \<Rightarrow> u8 list \<Rightarrow> u8 list" where
  "rfc_stamp v h = take 6 h @ [(h ! 6 AND 0x0F) OR push_bit 4 v, h ! 7, (h ! 8 AND 0x3F) OR 0x80] @ take 7 (drop 9 h)"

lemma word_masks:
  "(0x0FFF :: u16) = mask 12" "(0x3FFF :: u16) = mask 14" "(0x0F :: u8) = mask 4" "(0x3F :: u8) = mask 6"
  by (simp_all add: mask_eq_exp_minus_1)

lemma top_bits: "bit (0x8000 :: u16) n \<longleftrightarrow> n = 15" "bit (0x80 :: u8) n \<longleftrightarrow> n = 7"
proof -
  have e: "(0x8000 :: u16) = 2 ^ 15" "(0x80 :: u8) = 2 ^ 7" by simp_all
  show "bit (0x8000 :: u16) n \<longleftrightarrow> n = 15" "bit (0x80 :: u8) n \<longleftrightarrow> n = 7" unfolding e bit_exp_iff by auto
qed

lemma small_bits: "v < 16 \<Longrightarrow> bit v n \<Longrightarrow> n < 4" for v :: u8
proof -
  assume v: "v < 16" "bit v n"
  have "unat v < 2 ^ 4" using v(1) by (simp add: word_less_nat_alt)
  then have "take_bit 4 v = v" by (simp add: word_unat_eq_iff unat_take)
  then show "n < 4" using v(2) by (metis bit_take_bit_iff)
qed

lemma stamp_version:
  "v < 16 \<Longrightarrow> bytes16 (flipBytes16 ((le16 b a AND 0x0FFF) OR push_bit 12 (ucast v))) = [(a AND 0x0F) OR push_bit 4 v, b]"
  unfolding bytes16_flip unfolding bytes16_def le16_def word_masks
  by (simp, intro conjI; rule bit_word_eqI; auto simp: bit_simps dest: bit_imp_le_length small_bits)

lemma stamp_variant: "bytes16 (flipBytes16 ((le16 b a AND 0x3FFF) OR 0x8000)) = [(a AND 0x3F) OR 0x80, b]"
proof -
  have "bytes16 (flipBytes16 ((le16 b a AND mask 14) OR c)) = [(a AND mask 6) OR d, b]" if "\<And>n. bit c n \<longleftrightarrow> n = 15" "\<And>n. bit d n \<longleftrightarrow> n = 7"
    for c :: u16 and d :: u8
    unfolding bytes16_flip unfolding bytes16_def le16_def
    by (simp, intro conjI; rule bit_word_eqI; auto simp: bit_simps that dest: bit_imp_le_length)
  from this[of "0x8000" "0x80"] show ?thesis unfolding word_masks by (simp only: top_bits simp_thms)
qed

lemma variant_leach_salz: "u_clockSeq u = (w AND 0x3FFF) OR 0x8000 \<Longrightarrow> uuid_variant u = 2"
proof -
  have "drop_bit 13 ((w AND 0x3FFF) OR 0x8000) = push_bit 2 1 OR (if bit w 13 then 1 else (0 :: u16))"
    unfolding word_masks by (rule bit_word_eqI) (auto simp: bit_simps top_bits)
  then have "drop_bit 13 ((w AND 0x3FFF) OR 0x8000) = (if bit w 13 then 5 else (4 :: u16))" by (simp add: push_bit_eq_mult)
  then show "u_clockSeq u = (w AND 0x3FFF) OR 0x8000 \<Longrightarrow> uuid_variant u = 2" by (simp add: uuid_variant_def)
qed

lemma list16:
  assumes "length b = (16 :: nat)"
  obtains x0 x1 x2 x3 x4 x5 x6 x7 x8 x9 r where "b = [x0, x1, x2, x3, x4, x5, x6, x7, x8, x9] @ r" "length r = 6"
proof -
  have "\<exists>x0 x1 x2 x3 x4 x5 x6 x7 x8 x9. xs = [x0, x1, x2, x3, x4, x5, x6, x7, x8, x9]" if "length xs = 10" for xs :: "'a list"
    using that by (auto simp: length_Suc_conv eval_nat_numeral)
  from this[of "take 10 b"] obtain x0 x1 x2 x3 x4 x5 x6 x7 x8 x9 where "take 10 b = [x0, x1, x2, x3, x4, x5, x6, x7, x8, x9]" using assms by auto
  then show ?thesis using that[of x0 x1 x2 x3 x4 x5 x6 x7 x8 x9 "drop 10 b"] append_take_drop_id[of 10 b] assms by simp
qed

text \<open>A UUID from 16 bytes has the version and the variant, and otherwise the bytes.\<close>

lemma from_bytes:
  assumes "length b = 16" "v < 16"
  shows "uuid_copyTo (uuid_from_bytes b (ucast v)) = rfc_stamp v b" "uuid_wf (uuid_from_bytes b (ucast v))"
    "uuid_version (uuid_from_bytes b (ucast v)) = ucast v" "uuid_variant (uuid_from_bytes b (ucast v)) = 2"
proof -
  obtain x0 x1 x2 x3 x4 x5 x6 x7 x8 x9 r where b: "b = [x0, x1, x2, x3, x4, x5, x6, x7, x8, x9] @ r" "length r = 6" using list16[OF assms(1)] .
  have i: "(2 :: nat) = Suc (Suc 0)" by simp
  show "uuid_copyTo (uuid_from_bytes b (ucast v)) = rfc_stamp v b" "uuid_wf (uuid_from_bytes b (ucast v))"
    using b(2) stamp_version[OF assms(2), of x7 x6] stamp_variant[of x9 x8] unfolding b(1)
    by (simp_all add: uuid_from_bytes_def uuid_copyFrom_def uuid_copyTo_def Let_def fromBigEndian32_def toBigEndian32_def fromBigEndian16_def toBigEndian16_def
        flip32_flip flip16_flip flip_le16 bytes32_le32 bytes16_le16 uuid_wf_def rfc_stamp_def)
  show "uuid_variant (uuid_from_bytes b (ucast v)) = 2" by (rule variant_leach_salz) (simp add: uuid_from_bytes_def Let_def)
  have "drop_bit 12 ((w AND 0x0FFF) OR push_bit 12 (ucast v)) = (ucast v :: u16)" for w :: u16
    unfolding word_masks by (rule bit_word_eqI) (auto simp: bit_simps dest: small_bits[OF assms(2)])
  then show "uuid_version (uuid_from_bytes b (ucast v)) = ucast v" by (simp add: uuid_from_bytes_def uuid_version_def Let_def)
qed

context digest_engine
begin

lemma from_name_ok:
  assumes "absorbed de m" "uuid_wf nsid" "length name < lim" "16 < lim"
  shows "\<exists>de'. uuid_createFromName reset update digest de nsid name v = Some (uuid_from_bytes (take 16 (hash (uuid_copyTo nsid @ name))) v, de') \<and> absorbed de' []"
proof -
  obtain d0 where d0: "reset de = Some d0" "absorbed d0 []" using reset_ok[OF assms(1)] by blast
  have n: "length (bytes32 w) < lim" "length (bytes16 x) < lim" "length (u_node nsid) < lim" for w x
    using assms(2,4) by (simp_all add: bytes32_def bytes16_def uuid_wf_def)
  let ?n = "uuid_toNetwork nsid"
  let ?xs = "[bytes32 (u_timeLow ?n), bytes16 (u_timeMid ?n), bytes16 (u_timeHiAndVersion ?n), bytes16 (u_clockSeq ?n), u_node ?n, name]"
  have "list_all (\<lambda>x. length x < lim) ?xs" using n assms(3) by (simp add: uuid_toNetwork_def)
  then obtain d1 where d1: "feed update ?xs d0 = Some d1" "absorbed d1 (concat ?xs)" using updates_ok[OF d0(2), of ?xs] by auto
  have c: "concat ?xs = uuid_copyTo nsid @ name" by (simp add: uuid_copyTo_def uuid_toNetwork_def)
  obtain d2 where d2: "digest d1 = Some (hash (concat ?xs), d2)" "absorbed d2 []" using digest_ok[OF d1(2)] by blast
  have "uuid_createFromName reset update digest de nsid name v =
      Option.bind (feed update ?xs d0) (\<lambda>de. Option.bind (digest de) (\<lambda>(d, de). Some (uuid_from_bytes (take 16 d) v, de)))"
    using d0(1) by (simp add: uuid_createFromName_def Let_def feed_simps bind_assoc)
  then show ?thesis using d1(1) d2(2) d2(1)[unfolded c] by simp
qed

end

lemma stamp_prefix: "rfc_stamp v (take 16 h) = rfc_stamp v h"
  by (simp add: rfc_stamp_def take_drop)

text \<open>
  C19.  A UUID made from a name space and a name consists of the bytes of the MD5 (version 3) or SHA-1 (version 5) digest of the sixteen bytes of the name
  space in network order followed by the name, with the version and the variant put in as RFC 4122 says.
\<close>

theorem uuid_name_based:
  assumes "uuid_wf nsid" "length name < 2 ^ 32 - 63"
  shows "\<exists>u v. uuid_fromName_md5 nsid name = Some u \<and> uuid_copyTo u = rfc_stamp 3 (md_reference rfc1321_block (uuid_copyTo nsid @ name)) \<and>
      uuid_version u = 3 \<and> uuid_variant u = 2 \<and>
    uuid_fromName_sha1 nsid name = Some v \<and> uuid_copyTo v = rfc_stamp 5 (fips_sha1 (uuid_copyTo nsid @ name)) \<and>
      uuid_version v = 5 \<and> uuid_variant v = 2"
proof -
  let ?m = "uuid_copyTo nsid @ name"
  have l: "length (take 16 (md_reference rfc1321_block ?m)) = 16" "length (take 16 (fips_sha1 ?m)) = 16"
    using md5.hash_length[of ?m] sha1.hash_length[of ?m] by simp_all
  have "uuid_fromName_md5 nsid name = Some (uuid_from_bytes (take 16 (md_reference rfc1321_block ?m)) 3)"
    using md5.from_name_ok[OF md5.fresh_ok assms, of 3] unfolding uuid_fromName_md5_def by auto
  moreover have "uuid_fromName_sha1 nsid name = Some (uuid_from_bytes (take 16 (fips_sha1 ?m)) 5)"
    using sha1.from_name_ok[OF sha1.fresh_ok assms(1), of name 5] assms(2) unfolding uuid_fromName_sha1_def by auto
  ultimately show ?thesis using from_bytes[OF l(1), of 3] from_bytes[OF l(2), of 5] unfolding stamp_prefix by auto
qed

theorem uuid_name_based_witness:
  "\<exists>u v. uuid_fromName_md5 uuid_null [0x61] = Some u \<and> uuid_copyTo u = rfc_stamp 3 (md_reference rfc1321_block (uuid_copyTo uuid_null @ [0x61])) \<and>
      uuid_version u = 3 \<and> uuid_variant u = 2 \<and>
    uuid_fromName_sha1 uuid_null [0x61] = Some v \<and> uuid_copyTo v = rfc_stamp 5 (fips_sha1 (uuid_copyTo uuid_null @ [0x61])) \<and>
      uuid_version v = 5 \<and> uuid_variant v = 2"
  by (rule uuid_name_based) (simp_all add: uuid_wf_def uuid_null_def)

section \<open>Time stamps\<close>

lemma timeStamp_result:
  "uuid_timeStamp clock g = Some (tv, g', clock') \<Longrightarrow> tv = utcTime (g_lastTime g') + g_ticks g' \<and> g_lastTime g' \<in> set clock \<and>
    (if g_lastTime g' = g_lastTime g then g_ticks g' = g_ticks g + 1 else g_ticks g' = 0)"
  by (induction clock g rule: uuid_timeStamp.induct) (auto simp: Let_def split: if_splits)

lemma createV6_result:
  "uuid_createV6 nodeId dev clock g = Some (u, g', clock') \<Longrightarrow>
    \<exists>g1 tv g2 s. uuid_timeStamp clock g1 = Some (tv, g2, clock') \<and> u = uuid_v6 tv s (g_node g') \<and> g_lastTime g1 = g_lastTime g \<and> g_ticks g1 = g_ticks g \<and>
      g_lastTime g' = g_lastTime g2 \<and> g_ticks g' = g_ticks g2"
  by (auto simp: uuid_createV6_def next_clockSeq_def Let_def split: if_splits option.splits prod.splits sum.splits; fastforce)

lemma div_mod_less: "n < m \<Longrightarrow> n div d < m div d \<or> n div d = m div d \<and> n mod d < m mod d" for n m d :: nat
  by (metis div_le_mono div_mult_mod_eq less_le nat_add_left_cancel_less order_le_less)

lemma unat_of_int: "unat (word_of_int (int x) :: 'a::len word) = x mod 2 ^ LENGTH('a)"
  by (simp add: unsigned_of_nat take_bit_eq_mod)

lemma v6_members:
  assumes "0 \<le> tv" "tv < 2 ^ 60"
  shows "unat (u_timeLow (uuid_v6 tv s n)) = nat tv div 2 ^ 12 div 2 ^ 16" "unat (u_timeMid (uuid_v6 tv s n)) = nat tv div 2 ^ 12 mod 2 ^ 16"
    "unat (u_timeHiAndVersion (uuid_v6 tv s n)) = nat tv mod 2 ^ 12 + 24576"
proof -
  have m: "(0xFFFFFFFF :: int) = mask 32" "(0xFFFF :: int) = mask 16" "(0x0FFF :: int) = mask 12" by (simp_all add: mask_eq_exp_minus_1)
  obtain t where t: "tv = int t" "t < 2 ^ 60" using assms by (metis nonneg_int_cases of_nat_less_numeral_power_cancel_iff)
  have d: "drop_bit k (int t) AND mask j = int (t div 2 ^ k mod 2 ^ j)" "int t AND mask j = int (t mod 2 ^ j)" for k j
    by (simp_all add: take_bit_eq_mask[symmetric] drop_bit_eq_div take_bit_eq_mod zdiv_int zmod_int)
  have q: "t div 2 ^ 28 < 2 ^ 32" using t(2) by (simp add: less_mult_imp_div_less)
  have "t mod 2 ^ 12 < 2 ^ 12" by simp
  then have v: "unat (word_of_int (int (t mod 2 ^ 12)) + push_bit 12 6 :: u16) = t mod 2 ^ 12 + 24576"
    using unat_of_int[where 'a = 16, of "t mod 2 ^ 12"] by (simp add: unat_word_ariths push_bit_eq_mult)
  show "unat (u_timeHiAndVersion (uuid_v6 tv s n)) = nat tv mod 2 ^ 12 + 24576" unfolding uuid_v6_def uuid.simps t(1) m d v by simp
  show "unat (u_timeLow (uuid_v6 tv s n)) = nat tv div 2 ^ 12 div 2 ^ 16" "unat (u_timeMid (uuid_v6 tv s n)) = nat tv div 2 ^ 12 mod 2 ^ 16"
    unfolding uuid_v6_def uuid.simps t(1) m d unat_of_int using q by (simp_all add: div_mult2_eq[symmetric])
qed

lemma lex_cases:
  "a < a' \<or> a = a' \<and> (b < b' \<or> b = b' \<and> c < c') \<Longrightarrow>
    (if a < a' then - 1 else if a' < a then 1 else if b < b' then - 1 else if b' < b then 1 else if c < c' then - 1 else if c' < c then 1 else z) = (- 1 :: int)"
  for a a' b b' c c' :: nat
  by auto

lemma v6_compare:
  assumes "0 \<le> tv" "tv < tv'" "tv' < 2 ^ 60"
  shows "uuid_compare (uuid_v6 tv s n) (uuid_v6 tv' s' n') = -1"
proof -
  have b: "0 \<le> tv'" "tv < 2 ^ 60" "nat tv < nat tv'" using assms by auto
  note m = v6_members[OF assms(1) b(2)] v6_members[OF b(1) assms(3)]
  show ?thesis unfolding uuid_compare_def member_cmp m add_less_cancel_right
    using div_mod_less[OF b(3), of "2 ^ 12"] div_mod_less[of "nat tv div 2 ^ 12" "nat tv' div 2 ^ 12" "2 ^ 16"] by (intro lex_cases) metis
qed

text \<open>
  C33.  Of two version 6 UUIDs made one after the other the second is the greater one, provided that the clock does not go back and that at most ten were
  made in the microsecond of the first; times are those up to the year 5138, for which the 60 bits of the time stamp are enough.
\<close>

theorem uuid_v6_increasing:
  assumes "uuid_createV6 nodeId dev clock g = Some (u, g', clock')" "uuid_createV6 nodeId' dev' clock' g' = Some (u', g'', clock'')"
    "0 \<le> g_lastTime g'" "\<forall>t \<in> set clock'. g_lastTime g' \<le> t \<and> t < 10 ^ 17" "0 \<le> g_ticks g'" "g_ticks g' < 10"
  shows "uuid_compare u u' = -1"
proof -
  obtain g1 tv g2 s where a: "uuid_timeStamp clock g1 = Some (tv, g2, clock')" "u = uuid_v6 tv s (g_node g')"
    "g_lastTime g' = g_lastTime g2" "g_ticks g' = g_ticks g2" using createV6_result[OF assms(1)] by blast
  obtain g3 tv' g4 s' where b: "uuid_timeStamp clock' g3 = Some (tv', g4, clock'')" "u' = uuid_v6 tv' s' (g_node g'')"
    "g_lastTime g3 = g_lastTime g'" "g_ticks g3 = g_ticks g'" using createV6_result[OF assms(2)] by blast
  have t: "tv = utcTime (g_lastTime g') + g_ticks g'" using timeStamp_result[OF a(1)] a(3,4) by simp
  have t': "tv' = utcTime (g_lastTime g4) + g_ticks g4" "g_lastTime g4 \<in> set clock'"
    "if g_lastTime g4 = g_lastTime g' then g_ticks g4 = g_ticks g' + 1 else g_ticks g4 = 0" using timeStamp_result[OF b(1)] b(3,4) by simp_all
  have "g_lastTime g' \<le> g_lastTime g4" "g_lastTime g4 < 10 ^ 17" using assms(4) t'(2) by auto
  then have "0 \<le> tv" "tv < tv'" "tv' < 2 ^ 60" using t t'(1,3) assms(3,5,6) by (auto simp: utcTime_def push_bit_eq_mult split: if_splits)
  then show ?thesis unfolding a(2) b(2) by (rule v6_compare)
qed

text \<open>
  In one microsecond the loop gives out up to a hundred stamps, but a stamp has room for ten: the eleventh of a microsecond is the first of the next one.
\<close>

fun uuid_timeStamps :: "nat \<Rightarrow> int list \<Rightarrow> uuidgen \<Rightarrow> int list option" where
  "uuid_timeStamps 0 clock g = Some []"
| "uuid_timeStamps (Suc k) clock g =
    (case uuid_timeStamp clock g of None \<Rightarrow> None | Some (tv, g, clock) \<Rightarrow> map_option ((#) tv) (uuid_timeStamps k clock g))"

theorem uuid_stamp_repeats:
  "\<exists>tvs. uuid_timeStamps 11 (replicate 10 5 @ [6]) (g\<lparr>g_lastTime := 5, g_ticks := 0\<rparr>) = Some tvs \<and> tvs ! 9 = tvs ! 10"
  by (simp add: eval_nat_numeral utcTime_def)

theorem uuid_v6_increasing_witness:
  "\<exists>u g' clock' u' g'' clock''.
    uuid_createV6 (Inr [1, 2, 3, 4, 5, 6]) [] [5, 6] \<lparr>g_random = \<lparr>rnd_fptr = 0, rnd_rptr = 0, rnd_state = [1], rnd_randType = 0, rnd_randDeg = 0,
      rnd_randSep = 0, rnd_info = 0\<rparr>, g_lastTime = 4, g_ticks = 0, g_counter = 0, g_node = [], g_haveNode = False\<rparr> = Some (u, g', clock') \<and>
    uuid_createV6 (Inr [1, 2, 3, 4, 5, 6]) [] clock' g' = Some (u', g'', clock'') \<and> uuid_compare u u' = -1"
proof -
  let ?g = "\<lparr>g_random = \<lparr>rnd_fptr = 0, rnd_rptr = 0, rnd_state = [1], rnd_randType = 0, rnd_randDeg = 0, rnd_randSep = 0, rnd_info = 0\<rparr>,
    g_lastTime = 4, g_ticks = 0, g_counter = 0, g_node = [], g_haveNode = False\<rparr>"
  obtain u g' where a: "uuid_createV6 (Inr [1, 2, 3, 4, 5, 6]) [] [5, 6] ?g = Some (u, g', [6])" "g_lastTime g' = 5" "g_ticks g' = 0"
    by (simp add: uuid_createV6_def next_clockSeq_def case_prod_unfold Let_def)
  have "\<exists>u' g''. uuid_createV6 (Inr [1, 2, 3, 4, 5, 6]) [] [6] g' = Some (u', g'', [])"
    using a(2) by (simp add: uuid_createV6_def next_clockSeq_def case_prod_unfold Let_def)
  then obtain u' g'' where b: "uuid_createV6 (Inr [1, 2, 3, 4, 5, 6]) [] [6] g' = Some (u', g'', [])" by blast
  have "uuid_compare u u' = -1" using uuid_v6_increasing[OF a(1) b] a(2,3) by simp
  then show ?thesis using a(1) b by blast
qed

section \<open>Version and variant\<close>

lemma version_sum: "unat w < 4096 \<Longrightarrow> unat k < 16 \<Longrightarrow> drop_bit 12 (w + push_bit 12 k) = k" for w k :: u16
proof -
  assume l: "unat w < 4096" "unat k < 16"
  have "unat (push_bit 12 k) = unat k * 4096" using l(2) by (simp add: push_bit_eq_mult unat_word_ariths)
  then have "unat (w + push_bit 12 k) = unat w + unat k * 4096" using l by (simp add: unat_word_ariths)
  then show "drop_bit 12 (w + push_bit 12 k) = k" using l(1) by (simp add: word_unat_eq_iff unat_drop)
qed

lemma masked_small: "unat (w AND 0x0FFF :: u16) < 4096" "unat (word_of_int (t AND 0x0FFF) :: u16) < 4096"
proof -
  have m: "(0x0FFF :: int) = mask 12" by (simp add: mask_eq_exp_minus_1)
  have "t AND 0x0FFF = int (nat (t mod 4096))" unfolding m by (simp add: take_bit_eq_mask[symmetric] take_bit_eq_mod)
  then show "unat (word_of_int (t AND 0x0FFF) :: u16) < 4096" using unat_of_int[where 'a = 16, of "nat (t mod 4096)"] by (simp add: nat_less_iff)
  show "unat (w AND 0x0FFF :: u16) < 4096" unfolding word_masks take_bit_eq_mask[symmetric] unat_take by simp
qed

lemma versions: "uuid_version (uuid_v1 tv s n) = 1" "uuid_version (uuid_v6 tv s n) = 6" "uuid_version (uuid_v7 tv c s n) = 7"
  by (simp_all only: uuid_version_def uuid_v1_def uuid_v6_def uuid_v7_def uuid.simps) (rule version_sum[OF masked_small(1)] version_sum[OF masked_small(2)]; simp)+

lemma variants:
  "uuid_variant (uuid_v1 tv (fst (next_clockSeq g)) n) = 2" "uuid_variant (uuid_v6 tv (fst (next_clockSeq g)) n) = 2"
  "uuid_variant (uuid_v7 tv c (fst (next_clockSeq g)) n) = 2"
  by (rule variant_leach_salz; simp add: uuid_v1_def uuid_v6_def uuid_v7_def next_clockSeq_def case_prod_unfold Let_def)+

text \<open>Each operation of the generator gives UUIDs of its version (1, 6, 7 and 4) and of the variant of RFC 4122.\<close>

lemma uuid_kinds:
  "uuid_create nodeId clock g = Some (Inr u, rest) \<Longrightarrow> uuid_version u = 1 \<and> uuid_variant u = 2"
  "uuid_createV6 nodeId dev clock g = Some (u, rest) \<Longrightarrow> uuid_version u = 6 \<and> uuid_variant u = 2"
  "\<exists>u g'. uuid_createV7 dev now g = Some (u, g') \<and> uuid_version u = 7 \<and> uuid_variant u = 2"
  "length bytes = 16 \<Longrightarrow> uuid_version (uuid_createRandom bytes) = 4 \<and> uuid_variant (uuid_createRandom bytes) = 2"
proof -
  show "uuid_create nodeId clock g = Some (Inr u, rest) \<Longrightarrow> uuid_version u = 1 \<and> uuid_variant u = 2"
    by (auto simp: uuid_create_def Let_def case_prod_unfold versions variants split: if_splits option.splits sum.splits)
  show "uuid_createV6 nodeId dev clock g = Some (u, rest) \<Longrightarrow> uuid_version u = 6 \<and> uuid_variant u = 2"
    by (auto simp: uuid_createV6_def Let_def case_prod_unfold versions variants split: if_splits option.splits sum.splits)
  show "\<exists>u g'. uuid_createV7 dev now g = Some (u, g') \<and> uuid_version u = 7 \<and> uuid_variant u = 2"
    by (simp add: uuid_createV7_def random_next_mod_def Let_def case_prod_unfold versions variants)
  show "length bytes = 16 \<Longrightarrow> uuid_version (uuid_createRandom bytes) = 4 \<and> uuid_variant (uuid_createRandom bytes) = 2"
    using from_bytes(3,4)[of bytes 4] by (simp add: uuid_createRandom_def)
qed

end
