(* ===== verification/Spec2Isabelle.thy ===== *)
theory Spec2Isabelle
  imports Prelude LinearHash FIFOBuf AsciiString NumStr PocoURI UTF ByteOrd Codec Digest SHA1 MDEngine MD45 SHA2 Mac
    Cache CacheLRU CacheExpire CacheCombined Tokenizer PocoPath Glob GlobFiles WebSock MsgHeader FieldVals HTTPMsg HTTPStreams HTTPExchange
    PocoRandom PocoUUID
begin

text \<open>
  Verification of the core of the POCO C++ libraries (directory \<^verbatim>\<open>src/Foundation\<close>, and WebSocket and HTTP of \<^verbatim>\<open>src/Net\<close>).

  \<^bold>\<open>The program.\<close>  Foundation is the library on which the other POCO libraries (Net, Util, XML, JSON, Data, Crypto)
  are built: containers, strings and numbers, text encodings, URIs, streams that encode and decode,
  message digests, caches, random numbers, UUIDs, and wrappers of the operating system.  The development models the parts that
  carry an algorithm or a protocol of their own, and leaves out those that only wrap the operating system
  or a third-party library.

  \<^bold>\<open>Conventions.\<close>  A class is a record of its members and one definition per member function, in the order of the
  code; a function that throws returns \<open>exn + 'a\<close>; one that may run into undefined behaviour returns an \<open>outcome\<close>; a
  loop that may not end is a partial function whose value is then \<open>None\<close>; \<^verbatim>\<open>UInt8\<close> to \<^verbatim>\<open>UInt64\<close> are words, \<^verbatim>\<open>std::size_t\<close> a
  natural number with its 64-bit wrap-around written out where the code can reach it.  Hosts are
  little-endian with 64-bit \<^verbatim>\<open>size_t\<close>.  Template parameters are arguments.  An interface between components
  is a locale, interpreted on the definitions of the component that provides it.

  \<^bold>\<open>Theories.\<close>
  \<^item> \<open>Prelude\<close>: exceptions, results, words, list lemmas.
  \<^item> \<open>LinearHash\<close>: \<^verbatim>\<open>LinearHashTable.h\<close>, \<^verbatim>\<open>HashSet.h\<close>, \<^verbatim>\<open>HashMap.h\<close> with an arbitrary hash function.  The table invariant (every
    entry in the bucket its hash addresses, front and split consistent) is kept by insert, erase, split
    and merge; any run refines a finite map; \<^verbatim>\<open>calcSize\<close> ends exactly for arguments up to \<open>2\<^sup>6\<^sup>3\<close>.
  \<^item> \<open>FIFOBuf\<close>: \<^verbatim>\<open>Buffer.h\<close>, \<^verbatim>\<open>FIFOBuffer.h\<close>.  Reads and writes refine a bounded queue; notifications are a step relation
    whose reachable states alternate readable and writable events; a resize that the code accepts can make a
    later write leave the allocated block.
  \<^item> \<open>AsciiString\<close>: \<^verbatim>\<open>Ascii.h/.cpp\<close>, \<^verbatim>\<open>String.h\<close>.  Classification, trimming, comparison, translation, replacement.
  \<^item> \<open>NumStr\<close>: the integer part of \<^verbatim>\<open>NumericString.h\<close>, \<^verbatim>\<open>NumberParser.cpp\<close>, \<^verbatim>\<open>NumberFormatter.cpp\<close>.  Printing equals a reference,
    parsing accepts an exactly described language, white space and separators included, and parsing gives back what was printed without
    prefix, for all types: negative numbers in base 10, others in the bases 2 to 16, padded with spaces or zeros or with separators.
  \<^item> \<open>PocoURI\<close>: \<^verbatim>\<open>URI.cpp\<close>.  Parsing and printing, percent encoding, queries, normalisation.  Resolution equals the algorithm of RFC 3986 on
    the text of the path, under the conditions of \<open>resolve_correct\<close>, and on the segments without them.
  \<^item> \<open>ByteOrd\<close>: \<^verbatim>\<open>ByteOrder.h\<close>; bytes in memory.
  \<^item> \<open>UTF\<close>: \<^verbatim>\<open>UTF8Encoding.cpp\<close>, \<^verbatim>\<open>UTF16Encoding.cpp\<close>, \<^verbatim>\<open>UTF32Encoding.cpp\<close>, \<^verbatim>\<open>TextConverter.cpp\<close>, \<^verbatim>\<open>TextIterator.cpp\<close>.  The converter and the
    iterator are proved against the locale \<open>text_encoding\<close>, which the encodings interpret; conversion between any
    two of them is exact on Unicode text and ends on every input.
  \<^item> \<open>Codec\<close>: \<^verbatim>\<open>Base64Encoder.cpp\<close>, \<^verbatim>\<open>Base64Decoder.cpp\<close>, \<^verbatim>\<open>HexBinaryEncoder.cpp\<close>, \<^verbatim>\<open>HexBinaryDecoder.cpp\<close>, \<^verbatim>\<open>UnbufferedStreamBuf.h\<close>, the text form
    of \<^verbatim>\<open>DigestEngine.cpp\<close>.  Round trips, RFC 4648, the accepted language, streams on top of the locale \<open>byte_source\<close>.
  \<^item> \<open>Digest\<close>: padding and blocks; the locale \<open>digest_engine\<close> (what \<^verbatim>\<open>DigestEngine\<close> promises) and \<open>keyed_engine\<close>; \<^verbatim>\<open>HMACEngine.h\<close> and
    \<^verbatim>\<open>PBKDF2Engine.h\<close> proved for every engine in them.
  \<^item> \<open>SHA1\<close>, \<open>SHA2\<close>, \<open>MDEngine\<close>, \<open>MD45\<close>, \<open>Mac\<close>: \<^verbatim>\<open>SHA1Engine.cpp\<close>, \<^verbatim>\<open>SHA2Engine.cpp\<close>, \<^verbatim>\<open>MD5Engine.cpp\<close>, \<^verbatim>\<open>MD4Engine.cpp\<close> equal FIPS 180-4, RFC 1321 and RFC 1320
    on messages given in any pieces, and HMAC and PBKDF2 on them equal RFC 2104 and RFC 2898.  An MD4 or MD5
    update of \<open>2\<^sup>3\<^sup>2\<close> bytes or more never returns.
  \<^item> \<open>Cache\<close>, \<open>CacheLRU\<close>, \<open>CacheExpire\<close>, \<open>CacheCombined\<close>: \<^verbatim>\<open>AbstractCache.h\<close> against the locale \<open>cache_strategy\<close>; \<^verbatim>\<open>LRUStrategy.h\<close>, the four
    expiring strategies, \<^verbatim>\<open>StrategyCollection.h\<close> and the caches built from them.  LRUCache refines a list ordered
    by last use; the expiring caches refine maps with times; the combined caches refine lists ordered by last use with times.
  \<^item> \<open>Tokenizer\<close>: \<^verbatim>\<open>StringTokenizer.cpp\<close> equals the fields between the separators.
  \<^item> \<open>PocoPath\<close>: \<^verbatim>\<open>Path.cpp\<close> and the string functions of \<^verbatim>\<open>Path_UNIX.cpp\<close>.  The Unix, Windows and OpenVMS syntaxes are parsed back
    from what is printed, but for the first names that \<open>print_ambiguous\<close> shows; directory lists stay in normal form; parsing and resolution keep the meaning of a path as a walk in the
    directory tree; the search of a list of directories finds the first hit.
  \<^item> \<open>Glob\<close>: \<^verbatim>\<open>Glob.cpp\<close> decides the language of its patterns, over UTF-8 text.
  \<^item> \<open>GlobFiles\<close>: the search of the file system in \<^verbatim>\<open>Glob.cpp\<close>, with \<^verbatim>\<open>DirectoryIterator.cpp\<close>: it ends and finds exactly the files whose names on
    the way from the start directory match the components of the pattern, stated over the text of the names.  The file system is an argument.
  \<^item> \<open>WebSock\<close>: \<^verbatim>\<open>WebSocketImpl.cpp\<close> and \<^verbatim>\<open>WebSocket.cpp\<close> of Net against RFC 6455: frames sent over a socket that takes the bytes in any portions and
    received as they arrive in any pieces, blocking or not; the opening handshake.  The stream socket is a list of arrivals and of accepted sizes.  A
    connection closed inside a frame header makes the blocking receiver loop, and a switch of the blocking mode makes it write out of bounds.
  \<^item> \<open>MsgHeader\<close>: \<^verbatim>\<open>ListMap.h\<close>, \<^verbatim>\<open>NameValueCollection.cpp\<close>, \<^verbatim>\<open>MessageHeader.cpp\<close> of Net: fields by name without regard to case, in order; a header is read back as it was
    written, also folded, within its limits; encoded words.
  \<^item> \<open>FieldVals\<close>: lists and parameters in field values, \<^verbatim>\<open>MediaType.cpp\<close>.
  \<^item> \<open>HTTPMsg\<close>: \<^verbatim>\<open>HTTPMessage.cpp\<close>, \<^verbatim>\<open>HTTPRequest.cpp\<close>, \<^verbatim>\<open>HTTPResponse.cpp\<close> over strings: round trips, and what reading any input can end in.
  \<^item> \<open>HTTPStreams\<close>: \<^verbatim>\<open>HTTPSession.cpp\<close>, \<^verbatim>\<open>BufferedStreamBuf.h\<close> and the header, fixed-length, chunked and plain streams.  The stream buffer is proved against the locales
    \<open>input_device\<close> and \<open>output_device\<close>, which the streams interpret; chunked bodies arrive with their trailer, and one that is cut off is reported exactly if nothing of its last chunk arrived.
  \<^item> \<open>HTTPExchange\<close>: \<^verbatim>\<open>HTTPClientSession.cpp\<close>, \<^verbatim>\<open>HTTPServerRequestImpl.cpp\<close>, \<^verbatim>\<open>HTTPServerResponseImpl.cpp\<close>: a request reaches the server and a response the client, header and
    body, for every cutting of the bytes; a header line of 4094 characters ends the header.
  \<^item> \<open>PocoRandom\<close>: \<^verbatim>\<open>Random.cpp\<close>: the numbers are those of the linear congruential and additive recurrences, and depend on the seed alone.
  \<^item> \<open>PocoUUID\<close>: \<^verbatim>\<open>UUID.cpp\<close>, \<^verbatim>\<open>UUIDGenerator.cpp\<close>: the accepted texts, text and binary form, order; name-based UUIDs equal RFC 4122 for every engine of the locale
    \<open>digest_engine\<close>, here MD5 and SHA-1; version 6 UUIDs ascend while at most ten are made in a microsecond, and the stamps repeat beyond.

  \<^bold>\<open>How the parts interact.\<close>  \<open>PocoURI\<close> calls the string and number functions; \<open>UTF\<close> and the digests read memory through
  \<open>ByteOrd\<close>; \<open>Mac\<close> composes the engines with HMAC and PBKDF2; the cache calls its strategy through the table of
  virtual functions; the handshake of \<open>WebSock\<close> uses SHA-1, the Base64 encoder and the string functions; the header reads text
  encodings and Base64 in encoded words; the HTTP streams print and parse the sizes of chunks with \<open>NumStr\<close> and read trailers with \<open>MsgHeader\<close>;
  name-based UUIDs use the digests and time-based ones the random generator.  The last section of this theory composes HMAC with the hexadecimal text form.

  \<^bold>\<open>Bounds.\<close>  No definition uses fuel.  Loops are structural recursion, recursion with a measure, or partial functions
  for which termination is proved or its failure characterised (\<^verbatim>\<open>calcSize\<close>, \<^verbatim>\<open>updateImpl\<close> of MD4 and MD5, the
  loop of PBKDF2, the header loop of the blocking WebSocket).  The HTTP theorems exclude, by named conditions, header lines that contain the
  byte \<^verbatim>\<open>0xFF\<close> or whose length is 2 modulo 4092, which the code does not handle.  Single updates of a digest are bounded by the 32-bit length the code uses.

  \<^bold>\<open>Not modelled.\<close>  Threads and locks (every cache operation is one step under its mutex), floating point (conversion
  is in a vendored library; the calendar computes in double), locale-dependent and wide-character variants,
  allocation failure, the operating-system wrappers, timeouts and errors of the network, and the other libraries of the repository, which are
  listed with reasons in the manifest.
\<close>

section \<open>A message authentication code sent as text\<close>

text \<open>
  Two components together: the sender appends the HMAC of a message in hexadecimal, the receiver decodes the
  text and compares it with the HMAC of what arrived.
\<close>

definition send_mac :: "u8 list \<Rightarrow> u8 list list \<Rightarrow> u8 list result option" where
  "send_mac k xs =
    do { h \<leftarrow> hmac_sha1_new k;
         h \<leftarrow> feed hmac_sha1_update xs h;
         (d, h) \<leftarrow> hmac_sha1_digest h;
         Some (digestToHex d 0) }"

definition check_mac :: "u8 list \<Rightarrow> u8 list list \<Rightarrow> u8 list \<Rightarrow> bool result option" where
  "check_mac k xs txt =
    do { h \<leftarrow> hmac_sha1_new k;
         h \<leftarrow> feed hmac_sha1_update xs h;
         (d, h) \<leftarrow> hmac_sha1_digest h;
         Some (rbind (digestFromHex txt) (\<lambda>r. Inr (constantTimeEquals r d))) }"

lemma hmac_once:
  assumes "length k < 2 ^ 32" "list_all (\<lambda>x. length x < 2 ^ 32) xs"
  shows "\<exists>h h1 h2. hmac_sha1_new k = Some h \<and> feed hmac_sha1_update xs h = Some h1 \<and>
    hmac_sha1_digest h1 = Some (rfc_hmac fips_sha1 64 k (concat xs), h2)"
  using sha1.hmac.new_ok[OF assms(1)] sha1.hmac.feed_ok[OF _ assms(2)] sha1.hmac.digest_ok by (metis append_Nil)

text \<open>
  C39.  The receiver of a hexadecimal HMAC-SHA1 accepts it exactly if it is the HMAC of what arrived under
  the receiver's key.
\<close>

theorem mac_transport:
  assumes "length k < 2 ^ 32" "length k' < 2 ^ 32" "list_all (\<lambda>x. length x < 2 ^ 32) xs" "list_all (\<lambda>x. length x < 2 ^ 32) ys"
  shows "\<exists>txt. send_mac k xs = Some (Inr txt) \<and>
    check_mac k' ys txt = Some (Inr (rfc_hmac fips_sha1 64 k (concat xs) = rfc_hmac fips_sha1 64 k' (concat ys)))"
proof -
  let ?d = "rfc_hmac fips_sha1 64 k (concat xs)"
  have "length ?d = 20" by (rule sha1.hmac.mac_length)
  then have l: "length ?d < SIZE_MOD div 2" "0 < SIZE_MOD div 2" by (simp_all add: SIZE_MOD_def)
  obtain h h1 h2 where h: "hmac_sha1_new k = Some h" "feed hmac_sha1_update xs h = Some h1" "hmac_sha1_digest h1 = Some (?d, h2)"
    using hmac_once[OF assms(1,3)] by blast
  obtain g g1 g2 where g: "hmac_sha1_new k' = Some g" "feed hmac_sha1_update ys g = Some g1"
      "hmac_sha1_digest g1 = Some (rfc_hmac fips_sha1 64 k' (concat ys), g2)"
    using hmac_once[OF assms(2,4)] by blast
  obtain hex where t: "digestToHex ?d 0 = Inr hex" "digestFromHex hex = Inr ?d"
    using digestToHex_eq[OF l] digestFromHex_concat by auto
  then show ?thesis using h g by (simp add: send_mac_def check_mac_def constantTimeEquals_correct)
qed

theorem mac_transport_witness:
  "\<exists>txt. send_mac [0x6b] [[1], [2]] = Some (Inr txt) \<and> check_mac [0x6b] [[1, 2]] txt = Some (Inr True)"
  using mac_transport[of "[0x6b]" "[0x6b]" "[[1], [2]]" "[[1, 2]]"] by simp

end
